(* ===== verification/Prelude.thy ===== *)
theory Prelude
  imports Main "HOL-Library.Monad_Syntax" "HOL-Library.Word" "HOL-Library.Sublist"
begin

text \<open>
  Shared vocabulary of the development: JavaScript numbers, strings and arrays as the
  TypeScript sources use them, and the generic list and integer lemmas that the
  component theories rely on.

  \<^item> A JavaScript number that holds an integer is an \<open>int\<close>. Offsets, line numbers and
    columns stay far below \<open>2 ^ 53\<close>, where double arithmetic is exact; the two places where
    the code narrows to 32 bits (\<open>x | 0\<close> and \<open>toUint32\<close>) are modelled with their wrap-around.
  \<^item> A string is the list of its UTF-16 code units, as \<open>length\<close>, \<open>charAt\<close> and
    \<open>substring\<close> see it.
  \<^item> A function that may throw returns an \<open>option\<close>: \<open>None\<close> is the thrown
    \<open>BugIndicatingError\<close>. A value that may be \<open>undefined\<close> or \<open>null\<close> is an \<open>option\<close> too;
    where a function may do both, the outer \<open>option\<close> is the exception.
\<close>

section \<open>Numbers and strings\<close>

type_synonym code_unit = "16 word"

type_synonym js_string = "code_unit list"

text \<open>\<open>x | 0\<close> converts a number to a signed 32-bit integer.\<close>

definition toInt32 :: "int \<Rightarrow> int" where
  "toInt32 x = (x + 2 ^ 31) mod 2 ^ 32 - 2 ^ 31"

definition int32_range :: "int \<Rightarrow> bool" where
  "int32_range x \<longleftrightarrow> - (2 ^ 31) \<le> x \<and> x < 2 ^ 31"

lemma toInt32_id [simp]: "int32_range x \<Longrightarrow> toInt32 x = x"
  by (simp add: toInt32_def int32_range_def)

text \<open>The two characters of a line break.\<close>

definition CR :: code_unit where "CR = 13"

definition LF :: code_unit where "LF = 10"

lemma CR_neq_LF [simp]: "CR \<noteq> LF" "LF \<noteq> CR"
  by (simp_all add: CR_def LF_def)

section \<open>Prefixes and suffixes at integer offsets\<close>

text \<open>
  The sources index strings and arrays with numbers that come out of signed arithmetic, so
  the model takes and drops at \<open>int\<close> offsets. A negative offset is the offset 0.
\<close>

definition itake :: "int \<Rightarrow> 'a list \<Rightarrow> 'a list" where
  "itake n xs = take (nat n) xs"

definition idrop :: "int \<Rightarrow> 'a list \<Rightarrow> 'a list" where
  "idrop n xs = drop (nat n) xs"

abbreviation ilen :: "'a list \<Rightarrow> int" where
  "ilen xs \<equiv> int (length xs)"

lemma nat_diff_nonneg: "0 \<le> a \<Longrightarrow> nat (b - a) = nat b - nat a"
  by arith

lemma itake_neg [simp]: "n \<le> 0 \<Longrightarrow> itake n xs = []"
  by (simp add: itake_def)

lemma idrop_neg [simp]: "n \<le> 0 \<Longrightarrow> idrop n xs = xs"
  by (simp add: idrop_def)

lemma itake_Nil [simp]: "itake n [] = []"
  by (simp add: itake_def)

lemma idrop_Nil [simp]: "idrop n [] = []"
  by (simp add: idrop_def)

lemma itake_idrop_id [simp]: "itake n xs @ idrop n xs = xs"
  by (simp add: itake_def idrop_def)

lemma ilen_itake [simp]: "ilen (itake n xs) = max 0 (min n (ilen xs))"
  by (simp add: itake_def)

lemma ilen_idrop [simp]: "ilen (idrop n xs) = max 0 (ilen xs - max 0 n)"
  by (simp add: idrop_def)

lemma itake_all [simp]: "ilen xs \<le> n \<Longrightarrow> itake n xs = xs"
  by (simp add: itake_def)

lemma idrop_all [simp]: "ilen xs \<le> n \<Longrightarrow> idrop n xs = []"
  by (simp add: idrop_def)

lemma idrop_idrop: "0 \<le> a \<Longrightarrow> 0 \<le> b \<Longrightarrow> idrop a (idrop b xs) = idrop (a + b) xs"
  by (simp add: idrop_def nat_add_distrib)

lemma itake_itake: "itake a (itake b xs) = itake (min a b) xs"
  by (simp add: itake_def min_def)

lemma idrop_itake: "0 \<le> a \<Longrightarrow> idrop a (itake b xs) = itake (b - a) (idrop a xs)"
  by (simp add: idrop_def itake_def drop_take nat_diff_nonneg)

lemma itake_idrop: "0 \<le> a \<Longrightarrow> 0 \<le> b \<Longrightarrow> itake a (idrop b xs) = idrop b (itake (a + b) xs)"
  by (simp add: idrop_def itake_def take_drop nat_add_distrib add.commute)

lemma itake_append:
  "itake n (xs @ ys) = itake n xs @ itake (n - ilen xs) ys"
  by (cases "0 \<le> n") (simp_all add: itake_def nat_diff_distrib')

lemma idrop_append:
  "idrop n (xs @ ys) = idrop n xs @ idrop (n - ilen xs) ys"
  by (cases "0 \<le> n") (simp_all add: idrop_def nat_diff_distrib')

lemma itake_add:
  "0 \<le> a \<Longrightarrow> 0 \<le> b \<Longrightarrow> itake (a + b) xs = itake a xs @ itake b (idrop a xs)"
  by (simp add: itake_def idrop_def nat_add_distrib take_add)

lemma itake_Cons [simp]: "0 < n \<Longrightarrow> itake n (x # xs) = x # itake (n - 1) xs"
  by (simp add: itake_def take_Cons' nat_diff_distrib')

lemma idrop_Cons [simp]: "0 < n \<Longrightarrow> idrop n (x # xs) = idrop (n - 1) xs"
  by (simp add: idrop_def drop_Cons' nat_diff_distrib')

lemma set_itake: "set (itake n xs) \<subseteq> set xs"
  by (simp add: itake_def set_take_subset)

lemma map_itake: "map f (itake n xs) = itake n (map f xs)"
  by (simp add: itake_def take_map)

lemma map_idrop: "map f (idrop n xs) = idrop n (map f xs)"
  by (simp add: idrop_def drop_map)

lemma itake_replicate [simp]: "itake n (replicate k x) = replicate (min (nat n) k) x"
  by (simp add: itake_def)

lemma idrop_replicate [simp]: "idrop n (replicate k x) = replicate (k - nat n) x"
  by (simp add: idrop_def)

section \<open>Array and string primitives\<close>

text \<open>
  \<open>Array.prototype.slice(start, end)\<close>: a negative index counts from the end, indices are
  clamped to the array.
\<close>

definition js_relative :: "int \<Rightarrow> int \<Rightarrow> int" where
  "js_relative len i = (if i < 0 then max (len + i) 0 else min i len)"

definition js_slice :: "'a list \<Rightarrow> int \<Rightarrow> int \<Rightarrow> 'a list" where
  "js_slice xs s e =
     (let a = js_relative (ilen xs) s; b = js_relative (ilen xs) e
      in itake (b - a) (idrop a xs))"

text \<open>
  \<open>String.prototype.substring(start, end)\<close>: both indices are clamped to the string and
  swapped when out of order; \<open>substring(start)\<close> goes to the end.
\<close>

definition js_clamp :: "int \<Rightarrow> int \<Rightarrow> int" where
  "js_clamp len i = max 0 (min i len)"

definition js_substring :: "'a list \<Rightarrow> int \<Rightarrow> int \<Rightarrow> 'a list" where
  "js_substring xs s e =
     (let a = js_clamp (ilen xs) s; b = js_clamp (ilen xs) e
      in itake (max a b - min a b) (idrop (min a b) xs))"

definition js_substring_from :: "'a list \<Rightarrow> int \<Rightarrow> 'a list" where
  "js_substring_from xs s = js_substring xs s (ilen xs)"

lemma js_slice_in [simp]:
  "0 \<le> s \<Longrightarrow> s \<le> e \<Longrightarrow> e \<le> ilen xs \<Longrightarrow> js_slice xs s e = itake (e - s) (idrop s xs)"
  by (simp add: js_slice_def js_relative_def)

lemma js_substring_in [simp]:
  "0 \<le> s \<Longrightarrow> s \<le> e \<Longrightarrow> e \<le> ilen xs \<Longrightarrow> js_substring xs s e = itake (e - s) (idrop s xs)"
  by (simp add: js_substring_def js_clamp_def)

lemma js_substring_from_in [simp]:
  "0 \<le> s \<Longrightarrow> s \<le> ilen xs \<Longrightarrow> js_substring_from xs s = idrop s xs"
  by (simp add: js_substring_from_def)

text \<open>\<open>xs[i]\<close>, which is \<open>undefined\<close> outside the array.\<close>

definition js_get :: "'a list \<Rightarrow> int \<Rightarrow> 'a option" where
  "js_get xs i = (if 0 \<le> i \<and> i < ilen xs then Some (xs ! nat i) else None)"

lemma js_get_in [simp]: "0 \<le> i \<Longrightarrow> i < ilen xs \<Longrightarrow> js_get xs i = Some (xs ! nat i)"
  by (simp add: js_get_def)

text \<open>\<open>xs.splice(start, deleteCount, ...items)\<close> with \<open>0 \<le> start\<close>.\<close>

definition js_splice :: "'a list \<Rightarrow> nat \<Rightarrow> nat \<Rightarrow> 'a list \<Rightarrow> 'a list" where
  "js_splice xs s n items = take s xs @ items @ drop (s + n) xs"

section \<open>Typed arrays\<close>

text \<open>\<open>target.set(source, offset)\<close>, and a store by index.\<close>

definition typed_set :: "'a list \<Rightarrow> 'a list \<Rightarrow> int \<Rightarrow> 'a list option" where
  "typed_set target source offset =
     (if offset < 0 \<or> offset + ilen source > ilen target then None
      else Some (itake offset target @ source @ idrop (offset + ilen source) target))"

definition typed_store :: "'a list \<Rightarrow> int \<Rightarrow> 'a \<Rightarrow> 'a list" where
  "typed_store xs i v = (if 0 \<le> i \<and> i < ilen xs then xs[nat i := v] else xs)"

definition subarray_from :: "'a list \<Rightarrow> int \<Rightarrow> 'a list" where
  "subarray_from xs s = js_slice xs s (ilen xs)"

section \<open>Sums\<close>

lemma sum_list_take_Suc:
  "i < length xs \<Longrightarrow> sum_list (take (Suc i) xs) = sum_list (take i xs) + (xs ! i :: 'a::monoid_add)"
  by (simp add: take_Suc_conv_app_nth)

lemma foldl_plus_sum_list: "foldl (\<lambda>a x. a + f x) (b :: int) xs = b + sum_list (map f xs)"
  by (induction xs arbitrary: b) (auto simp: algebra_simps)

end
