(* ===== verification/OffsetRanges.thy ===== *)
theory OffsetRanges
  imports Prelude
begin

text \<open>
  \<open>vs/editor/common/core/ranges/offsetRange.ts\<close>: half-open ranges of 0-based offsets, and
  sets of offsets kept as a sorted array of disjoint, non-touching ranges. The constructor of
  \<open>OffsetRange\<close> throws when the ends are out of order; \<open>OffsetRange_new\<close> is that
  constructor, and every method that builds a range goes through it. The private field
  \<open>_sortedRanges\<close> of \<open>OffsetRangeSet\<close> is the list itself.
\<close>

section \<open>OffsetRange\<close>

datatype offset_range = MkOffsetRange (or_start: int) (or_end: int)

definition OffsetRange_new :: "int \<Rightarrow> int \<Rightarrow> offset_range option" where
  "OffsetRange_new s e = (if s > e then None else Some (MkOffsetRange s e))"

definition OffsetRange_fromTo :: "int \<Rightarrow> int \<Rightarrow> offset_range option" where
  "OffsetRange_fromTo s e = OffsetRange_new s e"

definition OffsetRange_equals :: "offset_range \<Rightarrow> offset_range \<Rightarrow> bool" where
  "OffsetRange_equals a b \<longleftrightarrow> or_start a = or_start b \<and> or_end a = or_end b"

text \<open>
  \<open>tryCreate\<close> returns \<open>undefined\<close> where the constructor would throw, so its outer
  \<open>option\<close> (the exception) is always \<open>Some\<close>.
\<close>

definition OffsetRange_tryCreate :: "int \<Rightarrow> int \<Rightarrow> offset_range option option" where
  "OffsetRange_tryCreate s e =
     (if s > e then Some None else map_option Some (OffsetRange_new s e))"

definition OffsetRange_ofLength :: "int \<Rightarrow> offset_range option" where
  "OffsetRange_ofLength n = OffsetRange_new 0 n"

definition OffsetRange_ofStartAndLength :: "int \<Rightarrow> int \<Rightarrow> offset_range option" where
  "OffsetRange_ofStartAndLength s n = OffsetRange_new s (s + n)"

definition OffsetRange_emptyAt :: "int \<Rightarrow> offset_range option" where
  "OffsetRange_emptyAt n = OffsetRange_new n n"

definition OffsetRange_isEmpty :: "offset_range \<Rightarrow> bool" where
  "OffsetRange_isEmpty r \<longleftrightarrow> or_start r = or_end r"

definition OffsetRange_delta :: "offset_range \<Rightarrow> int \<Rightarrow> offset_range option" where
  "OffsetRange_delta r n = OffsetRange_new (or_start r + n) (or_end r + n)"

definition OffsetRange_deltaStart :: "offset_range \<Rightarrow> int \<Rightarrow> offset_range option" where
  "OffsetRange_deltaStart r n = OffsetRange_new (or_start r + n) (or_end r)"

definition OffsetRange_deltaEnd :: "offset_range \<Rightarrow> int \<Rightarrow> offset_range option" where
  "OffsetRange_deltaEnd r n = OffsetRange_new (or_start r) (or_end r + n)"

definition OffsetRange_length :: "offset_range \<Rightarrow> int" where
  "OffsetRange_length r = or_end r - or_start r"

definition OffsetRange_containsRange :: "offset_range \<Rightarrow> offset_range \<Rightarrow> bool" where
  "OffsetRange_containsRange r q \<longleftrightarrow> or_start r \<le> or_start q \<and> or_end q \<le> or_end r"

definition OffsetRange_contains :: "offset_range \<Rightarrow> int \<Rightarrow> bool" where
  "OffsetRange_contains r n \<longleftrightarrow> or_start r \<le> n \<and> n < or_end r"

definition OffsetRange_join :: "offset_range \<Rightarrow> offset_range \<Rightarrow> offset_range option" where
  "OffsetRange_join r q =
     OffsetRange_new (min (or_start r) (or_start q)) (max (or_end r) (or_end q))"

definition OffsetRange_intersect :: "offset_range \<Rightarrow> offset_range \<Rightarrow> offset_range option" where
  "OffsetRange_intersect r q =
     (let s = max (or_start r) (or_start q); e = min (or_end r) (or_end q)
      in if s \<le> e then OffsetRange_new s e else None)"

definition OffsetRange_intersectionLength :: "offset_range \<Rightarrow> offset_range \<Rightarrow> int" where
  "OffsetRange_intersectionLength r q =
     (let s = max (or_start r) (or_start q); e = min (or_end r) (or_end q) in max 0 (e - s))"

definition OffsetRange_intersects :: "offset_range \<Rightarrow> offset_range \<Rightarrow> bool" where
  "OffsetRange_intersects r q =
     (let s = max (or_start r) (or_start q); e = min (or_end r) (or_end q) in s < e)"

definition OffsetRange_intersectsOrTouches :: "offset_range \<Rightarrow> offset_range \<Rightarrow> bool" where
  "OffsetRange_intersectsOrTouches r q =
     (let s = max (or_start r) (or_start q); e = min (or_end r) (or_end q) in s \<le> e)"

definition OffsetRange_isBefore :: "offset_range \<Rightarrow> offset_range \<Rightarrow> bool" where
  "OffsetRange_isBefore r q \<longleftrightarrow> or_end r \<le> or_start q"

definition OffsetRange_isAfter :: "offset_range \<Rightarrow> offset_range \<Rightarrow> bool" where
  "OffsetRange_isAfter r q \<longleftrightarrow> or_start r \<ge> or_end q"

definition OffsetRange_slice :: "offset_range \<Rightarrow> 'a list \<Rightarrow> 'a list" where
  "OffsetRange_slice r xs = js_slice xs (or_start r) (or_end r)"

definition OffsetRange_substring :: "offset_range \<Rightarrow> 'a list \<Rightarrow> 'a list" where
  "OffsetRange_substring r s = js_substring s (or_start r) (or_end r)"

definition OffsetRange_clip :: "offset_range \<Rightarrow> int \<Rightarrow> int option" where
  "OffsetRange_clip r v =
     (if OffsetRange_isEmpty r then None else Some (max (or_start r) (min (or_end r - 1) v)))"

text \<open>JavaScript's \<open>%\<close> is only applied to non-negative numbers here, where it is \<open>mod\<close>.\<close>

definition OffsetRange_clipCyclic :: "offset_range \<Rightarrow> int \<Rightarrow> int option" where
  "OffsetRange_clipCyclic r v =
     (if OffsetRange_isEmpty r then None
      else if v < or_start r
      then Some (or_end r - ((or_start r - v) mod OffsetRange_length r))
      else if v \<ge> or_end r
      then Some (or_start r + ((v - or_start r) mod OffsetRange_length r))
      else Some v)"

definition OffsetRange_map :: "offset_range \<Rightarrow> (int \<Rightarrow> 'b) \<Rightarrow> 'b list" where
  "OffsetRange_map r f = map f [or_start r .. or_end r - 1]"

definition OffsetRange_joinRightTouching :: "offset_range \<Rightarrow> offset_range \<Rightarrow> offset_range option" where
  "OffsetRange_joinRightTouching r q =
     (if or_end r \<noteq> or_start q then None else OffsetRange_new (or_start r) (or_end q))"

definition OffsetRange_withMargin :: "offset_range \<Rightarrow> int \<Rightarrow> int option \<Rightarrow> offset_range option" where
  "OffsetRange_withMargin r marginStart marginEnd =
     (let me = (case marginEnd of None \<Rightarrow> marginStart | Some m \<Rightarrow> m)
      in OffsetRange_new (or_start r - marginStart) (or_end r + me))"

text \<open>What the constructor guarantees, and the offsets a range covers.\<close>

definition or_ok :: "offset_range \<Rightarrow> bool" where
  "or_ok r \<longleftrightarrow> or_start r \<le> or_end r"

definition or_set :: "offset_range \<Rightarrow> int set" where
  "or_set r = {or_start r ..< or_end r}"

lemma OffsetRange_new_Some [simp]: "s \<le> e \<Longrightarrow> OffsetRange_new s e = Some (MkOffsetRange s e)"
  by (simp add: OffsetRange_new_def)

lemma OffsetRange_new_eq_Some [simp]:
  "OffsetRange_new s e = Some r \<longleftrightarrow> s \<le> e \<and> r = MkOffsetRange s e"
  by (auto simp: OffsetRange_new_def)

lemma OffsetRange_new_eq_None [simp]: "OffsetRange_new s e = None \<longleftrightarrow> e < s"
  by (auto simp: OffsetRange_new_def)

lemma or_ok_Mk [simp]: "or_ok (MkOffsetRange s e) \<longleftrightarrow> s \<le> e"
  by (simp add: or_ok_def)

lemma OffsetRange_length_Mk [simp]: "OffsetRange_length (MkOffsetRange s e) = e - s"
  by (simp add: OffsetRange_length_def)

lemma OffsetRange_contains_set [simp]: "OffsetRange_contains r n \<longleftrightarrow> n \<in> or_set r"
  by (simp add: OffsetRange_contains_def or_set_def)

lemma OffsetRange_intersects_iff: "OffsetRange_intersects r q \<longleftrightarrow> or_set r \<inter> or_set q \<noteq> {}"
proof
  assume "OffsetRange_intersects r q"
  then have "max (or_start r) (or_start q) \<in> or_set r \<inter> or_set q"
    by (auto simp: OffsetRange_intersects_def or_set_def)
  then show "or_set r \<inter> or_set q \<noteq> {}" by blast
qed (auto simp: OffsetRange_intersects_def or_set_def)

section \<open>OffsetRangeSet\<close>

type_synonym offset_range_set = "offset_range list"

text \<open>
  The two index loops of \<open>addRange\<close>. The static method \<open>OffsetRange.addRange\<close> and the method
  of \<open>OffsetRangeSet\<close> have the same body; \<open>splice\<close> replaces the elements from \<open>i\<close> to \<open>j\<close>.
\<close>

function addRange_i :: "offset_range \<Rightarrow> offset_range list \<Rightarrow> nat \<Rightarrow> nat" where
  "addRange_i r rs i =
     (if i < length rs \<and> or_end (rs ! i) < or_start r then addRange_i r rs (Suc i) else i)"
  by pat_completeness auto
termination
  by (relation "measure (\<lambda>(r, rs, i). length rs - i)") auto

function addRange_j :: "offset_range \<Rightarrow> offset_range list \<Rightarrow> nat \<Rightarrow> nat" where
  "addRange_j r rs j =
     (if j < length rs \<and> or_start (rs ! j) \<le> or_end r then addRange_j r rs (Suc j) else j)"
  by pat_completeness auto
termination
  by (relation "measure (\<lambda>(r, rs, j). length rs - j)") auto

declare addRange_i.simps [simp del] addRange_j.simps [simp del]

definition OffsetRange_addRange :: "offset_range \<Rightarrow> offset_range list \<Rightarrow> offset_range list option" where
  "OffsetRange_addRange r rs =
     (let i = addRange_i r rs 0; j = addRange_j r rs i
      in if i = j then Some (js_splice rs i 0 [r])
         else do {
           q \<leftarrow> OffsetRange_new (min (or_start r) (or_start (rs ! i)))
                 (max (or_end r) (or_end (rs ! (j - 1))));
           Some (js_splice rs i (j - i) [q])
         })"

definition OffsetRangeSet_addRange :: "offset_range \<Rightarrow> offset_range_set \<Rightarrow> offset_range_set option" where
  "OffsetRangeSet_addRange r rs =
     (let i = addRange_i r rs 0; j = addRange_j r rs i
      in if i = j then Some (js_splice rs i 0 [r])
         else do {
           q \<leftarrow> OffsetRange_new (min (or_start r) (or_start (rs ! i)))
                 (max (or_end r) (or_end (rs ! (j - 1))));
           Some (js_splice rs i (j - i) [q])
         })"

function intersectsStrict_i :: "offset_range \<Rightarrow> offset_range_set \<Rightarrow> nat \<Rightarrow> nat" where
  "intersectsStrict_i r rs i =
     (if i < length rs \<and> or_end (rs ! i) \<le> or_start r then intersectsStrict_i r rs (Suc i) else i)"
  by pat_completeness auto
termination
  by (relation "measure (\<lambda>(r, rs, i). length rs - i)") auto

declare intersectsStrict_i.simps [simp del]

definition OffsetRangeSet_intersectsStrict :: "offset_range_set \<Rightarrow> offset_range \<Rightarrow> bool" where
  "OffsetRangeSet_intersectsStrict rs r =
     (let i = intersectsStrict_i r rs 0 in i < length rs \<and> or_start (rs ! i) < or_end r)"

fun intersectWithRange_loop ::
  "offset_range \<Rightarrow> offset_range list \<Rightarrow> offset_range_set \<Rightarrow> offset_range_set option" where
  "intersectWithRange_loop r [] res = Some res"
| "intersectWithRange_loop r (q # qs) res =
     (case OffsetRange_intersect q r of
        None \<Rightarrow> intersectWithRange_loop r qs res
      | Some x \<Rightarrow> (case OffsetRangeSet_addRange x res of
          None \<Rightarrow> None
        | Some res' \<Rightarrow> intersectWithRange_loop r qs res'))"

definition OffsetRangeSet_intersectWithRange :: "offset_range_set \<Rightarrow> offset_range \<Rightarrow> offset_range_set option" where
  "OffsetRangeSet_intersectWithRange rs r = intersectWithRange_loop r rs []"

definition OffsetRangeSet_length :: "offset_range_set \<Rightarrow> int" where
  "OffsetRangeSet_length rs = foldl (\<lambda>prev cur. prev + OffsetRange_length cur) 0 rs"

definition OffsetRangeSet_intersectWithRangeLength :: "offset_range_set \<Rightarrow> offset_range \<Rightarrow> int option" where
  "OffsetRangeSet_intersectWithRangeLength rs r =
     map_option OffsetRangeSet_length (OffsetRangeSet_intersectWithRange rs r)"

section \<open>Sets of offsets\<close>

text \<open>
  The invariant of \<open>_sortedRanges\<close>: every range is ordered, and each ends strictly before
  the next one starts. The array denotes the union of its ranges.
\<close>

definition sorted_gap :: "offset_range list \<Rightarrow> bool" where
  "sorted_gap rs \<longleftrightarrow> (\<forall>r \<in> set rs. or_ok r) \<and> sorted_wrt (\<lambda>a b. or_end a < or_start b) rs"

definition ors_set :: "offset_range list \<Rightarrow> int set" where
  "ors_set rs = (\<Union>r \<in> set rs. or_set r)"

lemma ors_set_simps [simp]:
  "ors_set [] = {}" "ors_set (r # rs) = or_set r \<union> ors_set rs" "ors_set (rs @ qs) = ors_set rs \<union> ors_set qs"
  by (auto simp: ors_set_def)

lemma sorted_gap_Nil [simp]: "sorted_gap []"
  by (simp add: sorted_gap_def)

lemma sorted_gap_append:
  "sorted_gap (rs @ qs) \<longleftrightarrow>
    sorted_gap rs \<and> sorted_gap qs \<and> (\<forall>a \<in> set rs. \<forall>b \<in> set qs. or_end a < or_start b)"
  by (auto simp: sorted_gap_def sorted_wrt_append)

lemma sorted_gap_Cons:
  "sorted_gap (r # rs) \<longleftrightarrow> or_ok r \<and> sorted_gap rs \<and> (\<forall>b \<in> set rs. or_end r < or_start b)"
  by (auto simp: sorted_gap_def)

text \<open>
  Both index loops stop at the first element that fails their test, so they split the array.
\<close>

lemma addRange_i_split:
  assumes "i \<le> length rs"
  shows "i \<le> addRange_i r rs i \<and> addRange_i r rs i \<le> length rs \<and>
    (\<forall>k. i \<le> k \<and> k < addRange_i r rs i \<longrightarrow> or_end (rs ! k) < or_start r) \<and>
    (addRange_i r rs i < length rs \<longrightarrow> or_start r \<le> or_end (rs ! addRange_i r rs i))"
  using assms
proof (induction r rs i rule: addRange_i.induct)
  case (1 r rs i)
  show ?case
  proof (cases "i < length rs \<and> or_end (rs ! i) < or_start r")
    case True
    then have step: "addRange_i r rs i = addRange_i r rs (Suc i)"
      by (simp add: addRange_i.simps [of r rs i])
    show ?thesis unfolding step using "1.IH" [OF True] True
      by (auto simp: Suc_le_eq nat_less_le)
  next
    case False
    then have "addRange_i r rs i = i" by (auto simp: addRange_i.simps [of r rs i])
    with False "1.prems" show ?thesis by auto
  qed
qed

lemma addRange_j_split:
  assumes "j \<le> length rs"
  shows "j \<le> addRange_j r rs j \<and> addRange_j r rs j \<le> length rs \<and>
    (\<forall>k. j \<le> k \<and> k < addRange_j r rs j \<longrightarrow> or_start (rs ! k) \<le> or_end r) \<and>
    (addRange_j r rs j < length rs \<longrightarrow> or_end r < or_start (rs ! addRange_j r rs j))"
  using assms
proof (induction r rs j rule: addRange_j.induct)
  case (1 r rs j)
  show ?case
  proof (cases "j < length rs \<and> or_start (rs ! j) \<le> or_end r")
    case True
    then have step: "addRange_j r rs j = addRange_j r rs (Suc j)"
      by (simp add: addRange_j.simps [of r rs j])
    show ?thesis unfolding step using "1.IH" [OF True] True
      by (auto simp: Suc_le_eq nat_less_le)
  next
    case False
    then have "addRange_j r rs j = j" by (auto simp: addRange_j.simps [of r rs j])
    with False "1.prems" show ?thesis by auto
  qed
qed

text \<open>
  What \<open>addRange\<close> replaces: the array is \<open>A @ M @ C\<close> with \<open>A\<close> before the new range, \<open>M\<close>
  touching it and \<open>C\<close> after it.
\<close>

lemma addRange_split:
  assumes "sorted_gap rs"
  obtains A M C where "rs = A @ M @ C" and "addRange_i r rs 0 = length A"
    and "addRange_j r rs (length A) = length A + length M"
    and "\<forall>a \<in> set A. or_end a < or_start r"
    and "\<forall>m \<in> set M. or_start m \<le> or_end r \<and> or_start r \<le> or_end m"
    and "\<forall>c \<in> set C. or_end r < or_start c"
proof -
  define i where "i = addRange_i r rs 0"
  define j where "j = addRange_j r rs i"
  have i: "i \<le> length rs" "\<And>k. k < i \<Longrightarrow> or_end (rs ! k) < or_start r"
    "i < length rs \<Longrightarrow> or_start r \<le> or_end (rs ! i)"
    using addRange_i_split [of 0 rs r] by (auto simp: i_def)
  have j: "i \<le> j" "j \<le> length rs" "\<And>k. i \<le> k \<Longrightarrow> k < j \<Longrightarrow> or_start (rs ! k) \<le> or_end r"
    "j < length rs \<Longrightarrow> or_end r < or_start (rs ! j)"
    using addRange_j_split [OF i(1), of r] by (auto simp: j_def)
  have gap: "or_end (rs ! a) < or_start (rs ! b)" if "a < b" "b < length rs" for a b
    using assms that by (simp add: sorted_gap_def sorted_wrt_iff_nth_less)
  have ok: "or_start (rs ! a) \<le> or_end (rs ! a)" if "a < length rs" for a
    using assms that by (simp add: sorted_gap_def or_ok_def)
  let ?A = "take i rs" and ?M = "take (j - i) (drop i rs)" and ?C = "drop j rs"
  have rs: "rs = ?A @ ?M @ ?C"
    using j(1) by (metis append_take_drop_id drop_drop le_add_diff_inverse2)
  have "\<forall>a \<in> set ?A. or_end a < or_start r"
    using i by (auto simp: in_set_conv_nth)
  moreover have "\<forall>m \<in> set ?M. or_start m \<le> or_end r \<and> or_start r \<le> or_end m"
  proof
    fix m assume "m \<in> set ?M"
    then obtain k where k: "k < j - i" "k < length rs - i" "m = rs ! (i + k)"
      by (auto simp: in_set_conv_nth)
    then have "or_start r \<le> or_end (rs ! i)" using i(3) by simp
    moreover have "i + k < length rs" using k(2) by arith
    then have "or_end (rs ! i) \<le> or_end (rs ! (i + k))"
      using gap [of i "i + k"] ok [of "i + k"] by (cases "k = 0") auto
    ultimately show "or_start m \<le> or_end r \<and> or_start r \<le> or_end m"
      using k j(3) [of "i + k"] by auto
  qed
  moreover have "\<forall>c \<in> set ?C. or_end r < or_start c"
  proof
    fix c assume "c \<in> set ?C"
    then obtain k where "k < length rs - j" and c: "c = rs ! (j + k)"
      by (auto simp: in_set_conv_nth)
    then have k: "j + k < length rs" by arith
    show "or_end r < or_start c"
      using c k j(4) gap [of j "j + k"] ok [of j] by (cases "k = 0") auto
  qed
  moreover have "length ?A = i" and "length ?A + length ?M = j"
    using i(1) j(1,2) by auto
  ultimately show ?thesis
    using that [OF rs] by (simp add: i_def [symmetric] j_def [symmetric])
qed

lemma sorted_gap_hd_le:
  "sorted_gap M \<Longrightarrow> m \<in> set M \<Longrightarrow> or_start (hd M) \<le> or_start m"
  by (cases M) (auto simp: sorted_gap_Cons or_ok_def intro: less_imp_le order.strict_trans1)

lemma sorted_gap_last_ge:
  "sorted_gap M \<Longrightarrow> m \<in> set M \<Longrightarrow> or_end m \<le> or_end (last M)"
proof (induction M rule: rev_induct)
  case (snoc x xs)
  then show ?case by (fastforce simp: sorted_gap_append sorted_gap_Cons or_ok_def)
qed simp

lemma touching_join_set:
  assumes "sorted_gap M" and "M \<noteq> []" and "or_ok r"
    and touch: "\<forall>m \<in> set M. or_start m \<le> or_end r \<and> or_start r \<le> or_end m"
  shows "or_set (MkOffsetRange (min (or_start r) (or_start (hd M))) (max (or_end r) (or_end (last M)))) =
    or_set r \<union> ors_set M" (is "?L = ?R")
proof
  have hd: "hd M \<in> set M" and last: "last M \<in> set M" using assms(2) by auto
  show "?L \<subseteq> ?R"
  proof
    fix x assume x: "x \<in> ?L"
    show "x \<in> ?R"
    proof (cases "x \<in> or_set r")
      case False
      with x have "x \<in> or_set (hd M) \<or> x \<in> or_set (last M)"
        using touch hd last by (auto simp: or_set_def)
      with hd last show ?thesis by (auto simp: ors_set_def)
    qed simp
  qed
  show "?R \<subseteq> ?L"
    using sorted_gap_hd_le [OF assms(1)] sorted_gap_last_ge [OF assms(1)]
    by (fastforce simp: or_set_def ors_set_def)
qed

lemma OffsetRangeSet_addRange_correct:
  assumes "sorted_gap rs" and "or_ok r"
  shows "\<exists>rs'. OffsetRangeSet_addRange r rs = Some rs' \<and> sorted_gap rs' \<and> ors_set rs' = ors_set rs \<union> or_set r"
proof -
  from assms(1) obtain A M C where rs: "rs = A @ M @ C" and i: "addRange_i r rs 0 = length A"
    and j: "addRange_j r rs (length A) = length A + length M"
    and A: "\<forall>a \<in> set A. or_end a < or_start r"
    and M: "\<forall>m \<in> set M. or_start m \<le> or_end r \<and> or_start r \<le> or_end m"
    and C: "\<forall>c \<in> set C. or_end r < or_start c"
    by (rule addRange_split)
  have gap: "sorted_gap A" "sorted_gap M" "sorted_gap C"
    "\<And>a m. a \<in> set A \<Longrightarrow> m \<in> set M \<Longrightarrow> or_end a < or_start m"
    "\<And>a c. a \<in> set A \<Longrightarrow> c \<in> set C \<Longrightarrow> or_end a < or_start c"
    "\<And>m c. m \<in> set M \<Longrightarrow> c \<in> set C \<Longrightarrow> or_end m < or_start c"
    using assms(1) by (auto simp: rs sorted_gap_append)
  show ?thesis
  proof (cases M)
    case Nil
    then have "OffsetRangeSet_addRange r rs = Some (A @ r # C)"
      using i j by (simp add: OffsetRangeSet_addRange_def js_splice_def rs)
    moreover have "sorted_gap (A @ r # C)"
      using gap A C assms(2) by (auto simp: sorted_gap_append sorted_gap_Cons)
    ultimately show ?thesis using Nil by (auto simp: rs)
  next
    case (Cons m M')
    then have ne: "M \<noteq> []" by simp
    let ?q = "MkOffsetRange (min (or_start r) (or_start (hd M))) (max (or_end r) (or_end (last M)))"
    have "rs ! (length A + k) = M ! k" if "k < length M" for k
      using that by (simp add: rs nth_append)
    from this [of 0] this [of "length M - 1"]
    have nth: "rs ! length A = hd M" "rs ! (length A + length M - 1) = last M"
      using ne by (auto simp: hd_conv_nth last_conv_nth Suc_le_eq)
    have "or_start r \<le> or_end r" using assms(2) by (simp add: or_ok_def)
    then have le: "min (or_start r) (or_start (hd M)) \<le> max (or_end r) (or_end (last M))"
      by simp
    have "OffsetRangeSet_addRange r rs = Some (A @ ?q # C)"
      using i j ne nth le by (simp add: OffsetRangeSet_addRange_def js_splice_def rs)
    moreover have "sorted_gap (A @ ?q # C)"
      using gap A C M le ne by (auto simp: sorted_gap_append sorted_gap_Cons)
    moreover have "ors_set (A @ ?q # C) = ors_set rs \<union> or_set r"
      using touching_join_set [OF gap(2) ne assms(2) M] by (auto simp: rs)
    ultimately show ?thesis by blast
  qed
qed

lemma intersectsStrict_i_split:
  assumes "i \<le> length rs"
  shows "i \<le> intersectsStrict_i r rs i \<and> intersectsStrict_i r rs i \<le> length rs \<and>
    (\<forall>k. i \<le> k \<and> k < intersectsStrict_i r rs i \<longrightarrow> or_end (rs ! k) \<le> or_start r) \<and>
    (intersectsStrict_i r rs i < length rs \<longrightarrow> or_start r < or_end (rs ! intersectsStrict_i r rs i))"
  using assms
proof (induction r rs i rule: intersectsStrict_i.induct)
  case (1 r rs i)
  show ?case
  proof (cases "i < length rs \<and> or_end (rs ! i) \<le> or_start r")
    case True
    then have step: "intersectsStrict_i r rs i = intersectsStrict_i r rs (Suc i)"
      by (simp add: intersectsStrict_i.simps [of r rs i])
    show ?thesis unfolding step using "1.IH" [OF True] True
      by (auto simp: Suc_le_eq nat_less_le)
  next
    case False
    then have "intersectsStrict_i r rs i = i" by (auto simp: intersectsStrict_i.simps [of r rs i])
    with False "1.prems" show ?thesis by auto
  qed
qed

lemma OffsetRange_intersect_set:
  "(case OffsetRange_intersect q r of None \<Rightarrow> {} | Some x \<Rightarrow> or_set x) = or_set q \<inter> or_set r"
  by (auto simp: OffsetRange_intersect_def or_set_def Let_def)

lemma OffsetRange_intersect_ok: "OffsetRange_intersect q r = Some x \<Longrightarrow> or_ok x"
  by (auto simp: OffsetRange_intersect_def Let_def split: if_splits)

lemma intersectWithRange_loop_correct:
  assumes "sorted_gap res"
  shows "\<exists>res'. intersectWithRange_loop r rs res = Some res' \<and> sorted_gap res' \<and>
    ors_set res' = ors_set res \<union> (ors_set rs \<inter> or_set r)"
  using assms
proof (induction r rs res rule: intersectWithRange_loop.induct)
  case (2 r q qs res)
  show ?case
  proof (cases "OffsetRange_intersect q r")
    case None
    with "2.IH"(1) [OF None "2.prems"] OffsetRange_intersect_set [of q r] show ?thesis by auto
  next
    case (Some x)
    obtain res1 where res1: "OffsetRangeSet_addRange x res = Some res1" "sorted_gap res1"
      "ors_set res1 = ors_set res \<union> or_set x"
      using OffsetRangeSet_addRange_correct [OF "2.prems" OffsetRange_intersect_ok [OF Some]] by blast
    with "2.IH"(2) [OF Some res1(1,2)] Some OffsetRange_intersect_set [of q r] show ?thesis by auto
  qed
qed simp

lemma OffsetRangeSet_length_sum: "OffsetRangeSet_length rs = (\<Sum>r\<leftarrow>rs. OffsetRange_length r)"
  using foldl_plus_sum_list [of OffsetRange_length 0 rs] by (simp add: OffsetRangeSet_length_def)

lemma finite_ors_set [simp]: "finite (ors_set rs)"
  by (auto simp: ors_set_def or_set_def)

lemma OffsetRangeSet_length_card:
  "sorted_gap rs \<Longrightarrow> OffsetRangeSet_length rs = int (card (ors_set rs))"
proof (induction rs)
  case (Cons r rs)
  have "or_set r \<inter> ors_set rs = {}"
    using Cons.prems by (fastforce simp: sorted_gap_Cons or_set_def ors_set_def)
  then have "card (or_set r \<union> ors_set rs) = card (or_set r) + card (ors_set rs)"
    by (intro card_Un_disjoint) (auto simp: or_set_def)
  with Cons show ?case
    by (auto simp: OffsetRangeSet_length_sum sorted_gap_Cons or_set_def or_ok_def OffsetRange_length_def)
qed (simp add: OffsetRangeSet_length_sum)

section \<open>Properties\<close>

text \<open>
  The documented laws of \<open>OffsetRange\<close>: \<open>join\<close> never throws on ordered ranges, contains
  everything its arguments contain and is the smallest such range; \<open>intersect\<close> covers
  exactly the common offsets and is \<open>undefined\<close> exactly when the ranges do not even touch;
  \<open>intersects\<close> holds iff some offset is in both; \<open>intersectionLength\<close> counts them.
\<close>

theorem offset_range_laws:
  assumes a: "or_ok a" and b: "or_ok b"
  shows "(\<exists>j. OffsetRange_join a b = Some j \<and> or_set a \<union> or_set b \<subseteq> or_set j \<and>
      (\<forall>c. OffsetRange_containsRange c a \<and> OffsetRange_containsRange c b \<longrightarrow> OffsetRange_containsRange c j)) \<and>
    (case OffsetRange_intersect a b of None \<Rightarrow> {} | Some x \<Rightarrow> or_set x) = or_set a \<inter> or_set b \<and>
    (OffsetRange_intersect a b = None \<longleftrightarrow> \<not> OffsetRange_intersectsOrTouches a b) \<and>
    (OffsetRange_intersects a b \<longleftrightarrow> (\<exists>n. OffsetRange_contains a n \<and> OffsetRange_contains b n)) \<and>
    OffsetRange_intersectionLength a b = int (card (or_set a \<inter> or_set b))"
proof -
  have "OffsetRange_join a b = Some (MkOffsetRange (min (or_start a) (or_start b)) (max (or_end a) (or_end b)))"
    using a b by (auto simp: OffsetRange_join_def or_ok_def)
  then have 1: "\<exists>j. OffsetRange_join a b = Some j \<and> or_set a \<union> or_set b \<subseteq> or_set j \<and>
      (\<forall>c. OffsetRange_containsRange c a \<and> OffsetRange_containsRange c b \<longrightarrow> OffsetRange_containsRange c j)"
    by (auto simp: or_set_def OffsetRange_containsRange_def)
  have 2: "OffsetRange_intersect a b = None \<longleftrightarrow> \<not> OffsetRange_intersectsOrTouches a b"
    by (auto simp: OffsetRange_intersect_def OffsetRange_intersectsOrTouches_def Let_def)
  have "or_set a \<inter> or_set b = {max (or_start a) (or_start b) ..< min (or_end a) (or_end b)}"
    by (auto simp: or_set_def)
  moreover have "int (card {s ..< e}) = max 0 (e - s)" for s e :: int
    by simp
  ultimately have 3: "OffsetRange_intersectionLength a b = int (card (or_set a \<inter> or_set b))"
    by (simp only: OffsetRange_intersectionLength_def Let_def)
  show ?thesis
    using 1 2 3 OffsetRange_intersect_set [of a b] OffsetRange_intersects_iff [of a b] by auto
qed

theorem offset_range_laws_witness:
  "OffsetRange_intersectionLength (MkOffsetRange 2 9) (MkOffsetRange 5 12) =
    int (card (or_set (MkOffsetRange 2 9) \<inter> or_set (MkOffsetRange 5 12)))"
  using offset_range_laws [of "MkOffsetRange 2 9" "MkOffsetRange 5 12"] by simp

text \<open>
  \<open>clip\<close> returns the closest contained offset. \<open>clipCyclic\<close> is documented to return a
  contained offset congruent to its argument modulo the length; it does, except when the
  argument lies below the range by a multiple of the length, where it returns the exclusive
  end, which the range does not contain.
\<close>

theorem offset_range_clip:
  assumes "or_start r < or_end r"
  shows "(\<exists>c. OffsetRange_clip r v = Some c \<and> OffsetRange_contains r c \<and>
      (\<forall>n. OffsetRange_contains r n \<longrightarrow> \<bar>v - c\<bar> \<le> \<bar>v - n\<bar>)) \<and>
    (\<exists>c. OffsetRange_clipCyclic r v = Some c \<and> c mod OffsetRange_length r = v mod OffsetRange_length r \<and>
      (OffsetRange_contains r c \<longleftrightarrow> \<not> (v < or_start r \<and> OffsetRange_length r dvd or_start r - v)) \<and>
      (\<not> OffsetRange_contains r c \<longrightarrow> c = or_end r))"
proof -
  let ?l = "or_end r - or_start r"
  have l: "0 < ?l" using assms by simp
  have 1: "\<exists>c. OffsetRange_clip r v = Some c \<and> OffsetRange_contains r c \<and>
      (\<forall>n. OffsetRange_contains r n \<longrightarrow> \<bar>v - c\<bar> \<le> \<bar>v - n\<bar>)"
    using assms by (auto simp: OffsetRange_clip_def OffsetRange_isEmpty_def or_set_def)
  have mod1: "(or_end r - (or_start r - v) mod ?l) mod ?l = v mod ?l"
  proof -
    have "(or_end r - (or_start r - v) mod ?l) mod ?l = (or_end r - (or_start r - v)) mod ?l"
      by (rule mod_diff_right_eq)
    also have "or_end r - (or_start r - v) = v + ?l" by simp
    finally show ?thesis by simp
  qed
  have mod2: "(or_start r + (v - or_start r) mod ?l) mod ?l = v mod ?l"
  proof -
    have "(or_start r + (v - or_start r) mod ?l) mod ?l = (or_start r + (v - or_start r)) mod ?l"
      by (rule mod_add_right_eq)
    then show ?thesis by simp
  qed
  have b1: "0 \<le> (or_start r - v) mod ?l" "(or_start r - v) mod ?l < ?l"
    and b2: "0 \<le> (v - or_start r) mod ?l" "(v - or_start r) mod ?l < ?l" using l by auto
  have len: "OffsetRange_length r = ?l" by (simp add: OffsetRange_length_def)
  have ne: "\<not> OffsetRange_isEmpty r" using assms by (simp add: OffsetRange_isEmpty_def)
  have "\<exists>c. OffsetRange_clipCyclic r v = Some c \<and> c mod OffsetRange_length r = v mod OffsetRange_length r \<and>
      (OffsetRange_contains r c \<longleftrightarrow> \<not> (v < or_start r \<and> OffsetRange_length r dvd or_start r - v)) \<and>
      (\<not> OffsetRange_contains r c \<longrightarrow> c = or_end r)"
  proof (cases "v < or_start r")
    case True
    then have "OffsetRange_clipCyclic r v = Some (or_end r - (or_start r - v) mod ?l)"
      using ne by (simp add: OffsetRange_clipCyclic_def len)
    moreover define m where "m = (or_start r - v) mod ?l"
    moreover have "?l dvd or_start r - v \<longleftrightarrow> m = 0"
      by (simp add: m_def dvd_eq_mod_eq_0)
    ultimately show ?thesis
      using True mod1 b1 unfolding len OffsetRange_contains_set or_set_def m_def [symmetric]
      by auto
  next
    case low: False
    show ?thesis
    proof (cases "or_end r \<le> v")
      case True
      then have "OffsetRange_clipCyclic r v = Some (or_start r + (v - or_start r) mod ?l)"
        using ne low by (simp add: OffsetRange_clipCyclic_def len)
      then show ?thesis using low mod2 b2 by (auto simp: len or_set_def)
    next
      case False
      then have "OffsetRange_clipCyclic r v = Some v"
        using ne low by (simp add: OffsetRange_clipCyclic_def)
      then show ?thesis using low False by (auto simp: or_set_def)
    qed
  qed
  with 1 show ?thesis by blast
qed

theorem offset_range_clip_witness:
  "OffsetRange_clipCyclic (MkOffsetRange 5 10) 0 = Some 10 \<and> \<not> OffsetRange_contains (MkOffsetRange 5 10) 10"
proof -
  have "OffsetRange_clipCyclic (MkOffsetRange 5 10) 0 = Some 10"
    by (simp add: OffsetRange_clipCyclic_def OffsetRange_isEmpty_def)
  then show ?thesis
    using offset_range_clip [of "MkOffsetRange 5 10" 0] by simp
qed

lemma OffsetRangeSet_intersectsStrict_iff:
  assumes "sorted_gap rs" and "\<forall>q \<in> set rs. or_start q < or_end q" and "or_start r < or_end r"
  shows "OffsetRangeSet_intersectsStrict rs r \<longleftrightarrow> ors_set rs \<inter> or_set r \<noteq> {}"
proof -
  define i where "i = intersectsStrict_i r rs 0"
  have i: "i \<le> length rs" "\<And>k. k < i \<Longrightarrow> or_end (rs ! k) \<le> or_start r"
    "i < length rs \<Longrightarrow> or_start r < or_end (rs ! i)"
    using intersectsStrict_i_split [of 0 rs r] by (auto simp: i_def)
  have gap: "or_end (rs ! a) < or_start (rs ! b)" if "a < b" "b < length rs" for a b
    using assms(1) that by (simp add: sorted_gap_def sorted_wrt_iff_nth_less)
  have ok: "or_start (rs ! a) < or_end (rs ! a)" if "a < length rs" for a
    using assms(2) that by simp
  have "i < length rs \<and> or_start (rs ! i) < or_end r \<longleftrightarrow> ors_set rs \<inter> or_set r \<noteq> {}"
  proof
    assume *: "i < length rs \<and> or_start (rs ! i) < or_end r"
    then have "max (or_start (rs ! i)) (or_start r) \<in> or_set (rs ! i) \<inter> or_set r"
      using i(3) ok [of i] assms(3) by (auto simp: or_set_def)
    moreover have "or_set (rs ! i) \<subseteq> ors_set rs" using * nth_mem unfolding ors_set_def by blast
    ultimately show "ors_set rs \<inter> or_set r \<noteq> {}" by blast
  next
    assume "ors_set rs \<inter> or_set r \<noteq> {}"
    then obtain x k where k: "k < length rs" "x \<in> or_set (rs ! k)" "x \<in> or_set r"
      by (auto simp: ors_set_def in_set_conv_nth)
    have "i \<le> k" using k i(2) [of k] by (force simp: or_set_def)
    moreover have "or_start (rs ! i) \<le> or_start (rs ! k)"
      using calculation gap [of i k] ok [of i] k(1) by (cases "i = k") auto
    ultimately show "i < length rs \<and> or_start (rs ! i) < or_end r"
      using k by (auto simp: or_set_def)
  qed
  then show ?thesis by (simp add: OffsetRangeSet_intersectsStrict_def i_def)
qed

text \<open>
  C40. \<open>OffsetRangeSet\<close> is the set of offsets it was given: \<open>addRange\<close> keeps the array
  sorted, disjoint and non-touching and adds exactly the new range; \<open>intersectsStrict\<close> and
  \<open>intersectWithRange\<close> compute the intersection with a range, and
  \<open>intersectWithRangeLength\<close> its number of offsets. Nothing throws.
\<close>

theorem offset_range_set_denotes:
  assumes "sorted_gap rs" and "or_ok r"
  shows "(\<exists>rs'. OffsetRangeSet_addRange r rs = Some rs' \<and> sorted_gap rs' \<and> ors_set rs' = ors_set rs \<union> or_set r) \<and>
    (\<exists>rs'. OffsetRangeSet_intersectWithRange rs r = Some rs' \<and> sorted_gap rs' \<and>
      ors_set rs' = ors_set rs \<inter> or_set r \<and>
      OffsetRangeSet_intersectWithRangeLength rs r = Some (int (card (ors_set rs \<inter> or_set r)))) \<and>
    ((\<forall>q \<in> set rs. or_start q < or_end q) \<and> or_start r < or_end r \<longrightarrow>
      (OffsetRangeSet_intersectsStrict rs r \<longleftrightarrow> ors_set rs \<inter> or_set r \<noteq> {}))"
  using OffsetRangeSet_addRange_correct [OF assms] intersectWithRange_loop_correct [of "[]" r rs]
    OffsetRangeSet_intersectsStrict_iff [OF assms(1)]
  by (auto simp: OffsetRangeSet_intersectWithRange_def OffsetRangeSet_intersectWithRangeLength_def
      OffsetRangeSet_length_card)

theorem offset_range_set_denotes_witness:
  "\<exists>rs'. OffsetRangeSet_addRange (MkOffsetRange 3 6) [MkOffsetRange 0 2, MkOffsetRange 5 8] = Some rs' \<and>
    ors_set rs' = ors_set [MkOffsetRange 0 2, MkOffsetRange 5 8] \<union> or_set (MkOffsetRange 3 6)"
  using offset_range_set_denotes [of "[MkOffsetRange 0 2, MkOffsetRange 5 8]" "MkOffsetRange 3 6"]
  by (auto simp: sorted_gap_Cons)

end
