(* ===== verification/AbstractEdits.thy ===== *)
theory AbstractEdits
  imports OffsetRanges
begin

text \<open>
  The specification of an edit. An abstract edit lists the replaced ranges with the content
  that takes the place of each; \<open>app p E xs\<close> applies it to a list whose first element sits at
  offset \<open>p\<close>. A concrete edit of \<open>edit.ts\<close>, \<open>stringEdit.ts\<close>, \<open>arrayEdit.ts\<close> or
  \<open>lengthEdit.ts\<close> stands for such a list, and its operations are specified through \<open>app\<close>.
\<close>

section \<open>Applying an abstract edit\<close>

type_synonym 'a aedit = "(offset_range \<times> 'a list) list"

fun app :: "int \<Rightarrow> 'a aedit \<Rightarrow> 'a list \<Rightarrow> 'a list" where
  "app p [] xs = xs"
| "app p ((g, c) # E) xs = itake (or_start g - p) xs @ c @ app (or_end g) E (idrop (or_end g - p) xs)"

text \<open>The ranges are ordered, disjoint and start at \<open>p\<close> or later; where the last one ends.\<close>

fun achain :: "int \<Rightarrow> 'a aedit \<Rightarrow> bool" where
  "achain p [] \<longleftrightarrow> True"
| "achain p ((g, c) # E) \<longleftrightarrow> p \<le> or_start g \<and> or_start g \<le> or_end g \<and> achain (or_end g) E"

fun aend :: "int \<Rightarrow> 'a aedit \<Rightarrow> int" where
  "aend p [] = p"
| "aend p ((g, c) # E) = aend (or_end g) E"

text \<open>What the edit adds to the length, and its result up to the end of the last range.\<close>

fun adelta :: "'a aedit \<Rightarrow> int" where
  "adelta [] = 0"
| "adelta ((g, c) # E) = ilen c - (or_end g - or_start g) + adelta E"

fun apre :: "int \<Rightarrow> 'a aedit \<Rightarrow> 'a list \<Rightarrow> 'a list" where
  "apre p [] xs = []"
| "apre p ((g, c) # E) xs = itake (or_start g - p) xs @ c @ apre (or_end g) E (idrop (or_end g - p) xs)"

lemma achain_append: "achain p (E @ F) \<longleftrightarrow> achain p E \<and> achain (aend p E) F"
  by (induction p E rule: achain.induct) auto

lemma aend_append [simp]: "aend p (E @ F) = aend (aend p E) F"
  by (induction p E rule: aend.induct) auto

lemma adelta_append [simp]: "adelta (E @ F) = adelta E + adelta F"
  by (induction E rule: adelta.induct) auto

lemma achain_mono: "achain k E \<Longrightarrow> p \<le> k \<Longrightarrow> achain p E"
  by (cases E) auto

lemma aend_ge: "achain p E \<Longrightarrow> p \<le> aend p E"
  by (induction p E rule: achain.induct) auto

lemma aend_mono: "p \<le> k \<Longrightarrow> aend p E \<le> aend k E"
  by (cases E) auto

lemma app_append:
  "achain p E \<Longrightarrow> app p (E @ F) xs = apre p E xs @ app (aend p E) F (idrop (aend p E - p) xs)"
proof (induction p E arbitrary: xs rule: achain.induct)
  case (2 p g c E)
  then have "or_end g \<le> aend (or_end g) E" by (simp add: aend_ge)
  with 2 show ?case by (simp add: idrop_idrop)
qed simp

lemma app_apre: "achain p E \<Longrightarrow> app p E xs = apre p E xs @ idrop (aend p E - p) xs"
  using app_append [of p E "[]"] by simp

lemma apre_append:
  "achain p E \<Longrightarrow> apre p (E @ F) xs = apre p E xs @ apre (aend p E) F (idrop (aend p E - p) xs)"
proof (induction p E arbitrary: xs rule: achain.induct)
  case (2 p g c E)
  then have "or_end g \<le> aend (or_end g) E" by (simp add: aend_ge)
  with 2 show ?case by (simp add: idrop_idrop)
qed simp

lemma ilen_apre:
  "achain p E \<Longrightarrow> aend p E \<le> p + ilen xs \<Longrightarrow> ilen (apre p E xs) = aend p E - p + adelta E"
proof (induction p E arbitrary: xs rule: achain.induct)
  case (2 p g c E)
  have "or_end g \<le> aend (or_end g) E" using 2 by (simp add: aend_ge)
  then have "aend (or_end g) E \<le> or_end g + ilen (idrop (or_end g - p) xs)"
    using 2 by simp
  with 2 \<open>or_end g \<le> aend (or_end g) E\<close> show ?case
    by (simp del: ilen_idrop of_nat_add add: int_plus)
qed simp

lemma ilen_app:
  "achain p E \<Longrightarrow> aend p E \<le> p + ilen xs \<Longrightarrow> ilen (app p E xs) = ilen xs + adelta E"
  using aend_ge [of p E] by (simp add: app_apre ilen_apre int_plus del: of_nat_add)

lemma app_shift:
  assumes "p \<le> k" and "achain k E" and "E = [] \<or> k \<le> p + ilen xs"
  shows "app p E xs = itake (k - p) xs @ app k E (idrop (k - p) xs)"
proof (cases E)
  case (Cons x E')
  obtain g c where x: "x = (g, c)" by force
  have *: "k \<le> or_start g" "or_start g \<le> or_end g" using assms(2) by (auto simp: Cons x)
  have "itake (or_start g - p) xs = itake (k - p) xs @ itake (or_start g - k) (idrop (k - p) xs)"
    using itake_add [of "k - p" "or_start g - k" xs] assms(1) * by simp
  moreover have "idrop (or_end g - p) xs = idrop (or_end g - k) (idrop (k - p) xs)"
    using assms(1) * by (simp add: idrop_idrop)
  ultimately show ?thesis by (simp add: Cons x)
qed simp

lemma app_prefix:
  assumes "achain (q + ilen A) E"
  shows "app q E (A @ Y) = A @ app (q + ilen A) E Y"
  using app_shift [of q "q + ilen A" E "A @ Y"] assms by (simp add: itake_append idrop_append)

lemma app_prefix':
  assumes "achain k E" and "ilen A = k - q"
  shows "app q E (A @ Y) = A @ app k E Y"
  using app_prefix [of q A E Y] assms by simp

section \<open>An edit is determined by its effect\<close>

text \<open>
  In normal form no replacement is empty and two replacements never touch. Over an alphabet
  with two letters, two abstract edits in normal form with the same effect on all long enough
  bases are equal.
\<close>

fun agap :: "int \<Rightarrow> 'a aedit \<Rightarrow> bool" where
  "agap p [] \<longleftrightarrow> True"
| "agap p ((g, c) # E) \<longleftrightarrow> p \<le> or_start g \<and> or_start g \<le> or_end g \<and>
     (or_start g < or_end g \<or> c \<noteq> []) \<and>
     (case E of [] \<Rightarrow> True | (h, d) # F \<Rightarrow> or_end g < or_start h) \<and> agap (or_end g) E"

lemma agap_achain: "agap p E \<Longrightarrow> achain p E"
  by (induction p E rule: agap.induct) auto

text \<open>Whether the element at offset \<open>p\<close> is copied to the front of the result.\<close>

definition keeps :: "int \<Rightarrow> 'a aedit \<Rightarrow> bool" where
  "keeps p E \<longleftrightarrow> (case E of [] \<Rightarrow> True | (g, c) # F \<Rightarrow> p < or_start g)"

lemma keeps_app:
  assumes "achain p E" and "keeps p E"
  shows "app p E (x # xs) = x # app (p + 1) E xs"
proof (cases E)
  case (Cons y F)
  obtain g c where y: "y = (g, c)" by force
  with assms Cons have "p < or_start g" "or_start g \<le> or_end g" by (auto simp: keeps_def)
  then show ?thesis by (simp add: Cons y algebra_simps)
qed simp

lemma keeps_agap: "agap p E \<Longrightarrow> keeps p E \<Longrightarrow> agap (p + 1) E"
  by (cases E) (auto simp: keeps_def)

lemma keeps_hd: "achain p E \<Longrightarrow> keeps p E \<Longrightarrow> xs \<noteq> [] \<Longrightarrow> app p E xs \<noteq> [] \<and> hd (app p E xs) = hd xs"
  by (cases xs) (simp_all add: keeps_app)

lemma not_keeps:
  assumes "agap p E" and "\<not> keeps p E"
  obtains g c F where "E = (g, c) # F" and "or_start g = p" and "p \<le> or_end g"
    and "p < or_end g \<or> c \<noteq> []" and "agap (or_end g) F" and "keeps (or_end g) F"
    and "\<And>xs. app p E xs = c @ app (or_end g) F (idrop (or_end g - p) xs)"
proof -
  obtain g c F where E: "E = (g, c) # F" using assms(2) by (cases E) (auto simp: keeps_def)
  with assms show thesis by (intro that [of g c F]) (auto simp: keeps_def split: list.splits)
qed

lemma keeps_same:
  assumes "agap p E" and "keeps p E" and "agap p F" and "(a :: 'a) \<noteq> b"
    and eq: "\<And>xs :: 'a list. n \<le> length xs \<Longrightarrow> app p E xs = app p F xs"
  shows "keeps p F"
proof (rule ccontr)
  assume "\<not> keeps p F"
  then obtain g c F' where F: "F = (g, c) # F'" "or_start g = p" "p \<le> or_end g"
    "p < or_end g \<or> c \<noteq> []" "agap (or_end g) F'" "keeps (or_end g) F'"
    "\<And>xs. app p F xs = c @ app (or_end g) F' (idrop (or_end g - p) xs)"
    using not_keeps [OF assms(3)] by metis
  have E: "xs \<noteq> [] \<Longrightarrow> hd (app p E xs) = hd xs" for xs
    using keeps_hd [OF agap_achain [OF assms(1)] assms(2)] by simp
  show False
  proof (cases c)
    case (Cons y c')
    have "hd (app p F xs) = y" for xs by (simp add: F(7) Cons)
    then have "y = a" "y = b"
      using eq [of "replicate (Suc n) a"] eq [of "replicate (Suc n) b"]
        E [of "replicate (Suc n) a"] E [of "replicate (Suc n) b"] by (simp_all del: app.simps)
    with assms(4) show False by simp
  next
    case Nil
    define m where "m = nat (or_end g - p) - 1"
    have m: "or_end g - p = int (Suc m)" using F(4) Nil by (auto simp: m_def)
    let ?xs = "a # replicate (Suc n + m) b"
    have drop: "idrop (or_end g - p) ?xs = b # replicate n b"
      unfolding m by (simp add: idrop_def nat_add_distrib Suc_diff_le add.commute [of n] flip: replicate_Suc)
    have "hd (app p F ?xs) = b"
      unfolding F(7) drop using keeps_hd [OF agap_achain [OF F(5)] F(6), of "b # replicate n b"] Nil by simp
    then show False using eq [of ?xs] E [of ?xs] assms(4) by simp
  qed
qed

lemma append_len_less:
  assumes "(a :: 'a) \<noteq> b" and "agap e (E :: 'a aedit)" and "keeps e E" and "length c < length d"
  shows "\<exists>z. \<forall>k ys. c @ app e E (replicate (Suc k) z) \<noteq> d @ ys"
proof -
  have hd: "(c @ app e E (replicate (Suc k) z)) ! length c = z" for k z
  proof -
    have "app e E (replicate (Suc k) z) \<noteq> []" "hd (app e E (replicate (Suc k) z)) = z"
      using keeps_hd [OF agap_achain [OF assms(2)] assms(3), of "replicate (Suc k) z"] by auto
    then show ?thesis by (metis append_Nil2 hd_conv_nth nth_append_length hd_Cons_tl)
  qed
  have nth: "(d @ ys) ! length c = d ! length c" for ys using assms(4) by (simp add: nth_append)
  obtain z where "z \<noteq> d ! length c" using assms(1) that [of a] that [of b] by metis
  then have "c @ app e E (replicate (Suc k) z) \<noteq> d @ ys" for k ys using hd [of k z] nth [of ys] by auto
  then show ?thesis by blast
qed

lemma agap_same_length:
  assumes "(a :: 'a) \<noteq> b" and "agap e (E :: 'a aedit)" and "keeps e E" and "p \<le> e"
    and eq: "\<And>xs :: 'a list. n \<le> length xs \<Longrightarrow> c @ app e E (idrop (e - p) xs) = d @ app q F (idrop (q - p) xs)"
  shows "length d \<le> length c"
proof (rule ccontr)
  assume "\<not> length d \<le> length c"
  then obtain z where z: "\<And>k ys. c @ app e E (replicate (Suc k) z) \<noteq> d @ ys"
    using append_len_less [OF assms(1-3), of c d] by auto
  let ?xs = "replicate (nat (e - p) + Suc n) z"
  have "idrop (e - p) ?xs = replicate (Suc n) z" by (metis idrop_replicate add_diff_cancel_left')
  with eq [of ?xs] have "c @ app e E (replicate (Suc n) z) = d @ app q F (idrop (q - p) ?xs)" by simp
  with z [of n] show False by blast
qed

theorem agap_unique:
  assumes "agap p E" and "agap p F" and "(a :: 'a) \<noteq> b"
    and "\<And>xs :: 'a list. n \<le> length xs \<Longrightarrow> app p E xs = app p F xs"
    and "aend p E \<le> p + int n" and "aend p F \<le> p + int n"
  shows "E = F"
  using assms
proof (induction "n + length E" arbitrary: n p E F rule: less_induct)
  case less
  note prems = less.prems
  show ?case
  proof (cases "keeps p E")
    case True
    then have F: "keeps p F" using keeps_same [OF prems(1) _ prems(2,3,4)] by blast
    show ?thesis
    proof (cases n)
      case 0
      have nil: "G = []" if "agap p G" "keeps p G" "aend p G \<le> p" for G :: "'a aedit"
      proof (cases G)
        case (Cons y G')
        obtain g c where "y = (g, c)" by force
        with that Cons show ?thesis
          using aend_ge [of "or_end g" G'] by (auto simp: keeps_def agap_achain)
      qed simp
      show ?thesis using nil [OF prems(1) True] nil [OF prems(2) F] prems(5,6) 0 by simp
    next
      case (Suc m)
      show ?thesis
      proof (rule less.hyps [of m E "p + 1" F])
        show "agap (p + 1) E" "agap (p + 1) F" using keeps_agap prems True F by auto
        show "app (p + 1) E xs = app (p + 1) F xs" if "m \<le> length xs" for xs
          using prems(4) [of "a # xs"] that Suc keeps_app [OF agap_achain [OF prems(1)] True]
            keeps_app [OF agap_achain [OF prems(2)] F] by simp
        have le: "aend (p + 1) G \<le> p + 1 + int m" if "aend p G \<le> p + int n" for G :: "'a aedit"
          using that Suc by (cases G) auto
        show "aend (p + 1) E \<le> p + 1 + int m" "aend (p + 1) F \<le> p + 1 + int m"
          using le prems(5,6) by auto
      qed (use Suc prems(3) in auto)
    qed
  next
    case False
    have "\<not> keeps p F" using keeps_same [OF prems(2) _ prems(1,3)] prems(4) False by metis
    then obtain h d F' where F: "F = (h, d) # F'" "or_start h = p" "p \<le> or_end h"
      "p < or_end h \<or> d \<noteq> []" "agap (or_end h) F'" "keeps (or_end h) F'"
      "\<And>xs. app p F xs = d @ app (or_end h) F' (idrop (or_end h - p) xs)"
      using not_keeps [OF prems(2)] by metis
    obtain g c E' where E: "E = (g, c) # E'" "or_start g = p" "p \<le> or_end g"
      "p < or_end g \<or> c \<noteq> []" "agap (or_end g) E'" "keeps (or_end g) E'"
      "\<And>xs. app p E xs = c @ app (or_end g) E' (idrop (or_end g - p) xs)"
      using not_keeps [OF prems(1) False] by metis
    note eq = prems(4) [unfolded E(7) F(7)]
    have "length d \<le> length c" "length c \<le> length d"
      using agap_same_length [OF prems(3) E(5,6,3) eq] agap_same_length [OF prems(3) F(5,6,3) eq [symmetric]] by auto
    then have cd: "c = d" "\<And>xs. n \<le> length xs \<Longrightarrow>
      app (or_end g) E' (idrop (or_end g - p) xs) = app (or_end h) F' (idrop (or_end h - p) xs)"
      using eq [of "replicate n a"] eq by (auto simp: append_eq_append_conv)
    have split: False if "q < e" "p \<le> q" "agap e G" "keeps e G" "agap q H" "keeps q H"
      and "\<And>xs. n \<le> length xs \<Longrightarrow> app q H (idrop (q - p) xs) = app e G (idrop (e - p) xs)"
      for q e and G H :: "'a aedit"
    proof -
      let ?xs = "replicate (nat (e - p)) a @ replicate (Suc n) b"
      have e: "idrop (e - p) ?xs = replicate (Suc n) b" using that(1,2) by (simp add: idrop_append)
      have "0 < nat (e - p) - nat (q - p)" using that(1,2) by simp
      then have q: "idrop (q - p) ?xs \<noteq> []" "hd (idrop (q - p) ?xs) = a"
        using that(1,2) by (auto simp: idrop_append)
      have "app q H (idrop (q - p) ?xs) = app e G (replicate (Suc n) b)" using that(7) [of ?xs] e by simp
      then show False
        using keeps_hd [OF agap_achain [OF that(5)] that(6) q(1)] q(2) prems(3)
          keeps_hd [OF agap_achain [OF that(3)] that(4), of "replicate (Suc n) b"] by simp
    qed
    have gh: "or_end g = or_end h"
      using split [of "or_end g" "or_end h" F' E'] split [of "or_end h" "or_end g" E' F'] E F cd(2)
      by (metis linorder_neqE)
    have ends: "or_end g \<le> aend (or_end g) E'" using aend_ge agap_achain E(5) by blast
    have n: "or_end g \<le> p + int n" using prems(5) ends by (simp add: E(1))
    have "E' = F'"
    proof (rule less.hyps [of "n - nat (or_end g - p)" E' "or_end g" F'])
      show "agap (or_end g) E'" "agap (or_end g) F'" using E F gh by auto
      show "app (or_end g) E' xs = app (or_end g) F' xs" if "n - nat (or_end g - p) \<le> length xs" for xs
        using cd(2) [of "replicate (nat (or_end g - p)) a @ xs"] that E(3) gh by (simp add: idrop_append)
      show "aend (or_end g) E' \<le> or_end g + int (n - nat (or_end g - p))"
        "aend (or_end g) F' \<le> or_end g + int (n - nat (or_end g - p))"
        using prems(5,6) E(1,3) F(1) gh n by auto
    qed (use E(1) prems(3) in auto)
    moreover have "g = h" using E(2) F(2) gh by (simp add: offset_range.expand)
    ultimately show ?thesis using cd(1) E(1) F(1) by simp
  qed
qed

section \<open>Doing one part of an edit first\<close>

text \<open>
  The chunks of an edit that are marked are applied first; the others are moved by what the
  marked ones before them added.
\<close>

fun picked :: "(bool \<times> offset_range \<times> 'a list) list \<Rightarrow> 'a aedit" where
  "picked [] = []"
| "picked ((m, y) # M) = (if m then y # picked M else picked M)"

fun moved :: "int \<Rightarrow> (bool \<times> offset_range \<times> 'a list) list \<Rightarrow> 'a aedit" where
  "moved d [] = []"
| "moved d ((m, (g, c)) # M) =
     (if m then moved (d + (ilen c - (or_end g - or_start g))) M
      else (MkOffsetRange (or_start g + d) (or_end g + d), c) # moved d M)"

lemma split_chains:
  assumes "achain p (map snd M)"
  shows "achain p (picked M)" and "aend p (picked M) \<le> aend p (map snd M)" and "achain (p + d) (moved d M)"
proof -
  have "achain p (picked M) \<and> aend p (picked M) \<le> aend p (map snd M) \<and> achain (p + d) (moved d M)"
    using assms
  proof (induction M arbitrary: p d)
    case (Cons y M)
    obtain m g c where y: "y = (m, g, c)" by (metis prod_cases3)
    have g: "p \<le> or_start g" "or_start g \<le> or_end g" "achain (or_end g) (map snd M)"
      using Cons.prems by (auto simp: y)
    let ?d = "d + (ilen c - (or_end g - or_start g))"
    have IH: "achain (or_end g) (picked M)" "aend (or_end g) (picked M) \<le> aend (or_end g) (map snd M)"
      "\<And>d. achain (or_end g + d) (moved d M)" using Cons.IH [OF g(3)] by auto
    have "achain (p + d) (moved ?d M)" using IH(3) [of ?d] by (rule achain_mono) (use g in simp)
    moreover have "achain p (picked M)" using IH(1) by (rule achain_mono) (use g in simp)
    moreover have "aend p (picked M) \<le> aend (or_end g) (map snd M)"
      using IH(2) aend_mono [of p "or_end g" "picked M"] g by simp
    ultimately show ?case using IH g by (simp add: y)
  qed simp
  then show "achain p (picked M)" "aend p (picked M) \<le> aend p (map snd M)" "achain (p + d) (moved d M)" by auto
qed

lemma split_correct:
  assumes "achain p (map snd M)"
  shows "achain p (picked M) \<and> aend p (picked M) \<le> aend p (map snd M) \<and> achain (p + d) (moved d M) \<and>
    (\<forall>xs. aend p (map snd M) \<le> p + ilen xs \<longrightarrow>
      aend (p + d) (moved d M) \<le> p + d + ilen (app p (picked M) xs) \<and>
      app (p + d) (moved d M) (app p (picked M) xs) = app p (map snd M) xs)"
proof (intro conjI allI impI)
  show "achain p (picked M)" "aend p (picked M) \<le> aend p (map snd M)" "achain (p + d) (moved d M)"
    using split_chains [OF assms] by auto
  fix xs :: "'a list"
  assume "aend p (map snd M) \<le> p + ilen xs"
  with assms have "aend (p + d) (moved d M) \<le> p + d + ilen (app p (picked M) xs) \<and>
      app (p + d) (moved d M) (app p (picked M) xs) = app p (map snd M) xs"
  proof (induction M arbitrary: p d xs)
    case (Cons y M)
    obtain m g c where y: "y = (m, g, c)" by (metis prod_cases3)
    have g: "p \<le> or_start g" "or_start g \<le> or_end g" "achain (or_end g) (map snd M)"
      using Cons.prems by (auto simp: y)
    have le: "or_end g \<le> aend (or_end g) (map snd M)" using aend_ge [OF g(3)] .
    let ?ys = "idrop (or_end g - p) xs"
    have b: "aend (or_end g) (map snd M) \<le> p + ilen xs" using Cons.prems(2) by (simp add: y)
    then have ly: "or_end g + ilen ?ys = p + ilen xs" using g le by simp
    have IH: "aend (or_end g + d) (moved d M) \<le> or_end g + d + ilen (app (or_end g) (picked M) ?ys)"
      "app (or_end g + d) (moved d M) (app (or_end g) (picked M) ?ys) = app (or_end g) (map snd M) ?ys" for d
      using Cons.IH [OF g(3), of ?ys d] b ly by auto
    note chains = split_chains [OF g(3)]
    show ?case
    proof (cases m)
      case True
      let ?d = "d + (ilen c - (or_end g - or_start g))" and ?Z = "itake (or_start g - p) xs @ c"
      have lz: "ilen ?Z = or_end g + ?d - (p + d)" using b le g by simp
      have split: "app p (picked (y # M)) xs = ?Z @ app (or_end g) (picked M) ?ys" using True by (simp add: y)
      have "p + d \<le> or_end g + ?d" using g by simp
      then have "aend (p + d) (moved ?d M) \<le> or_end g + ?d + ilen (app (or_end g) (picked M) ?ys)"
        using IH(1) [of ?d] aend_mono [of "p + d" "or_end g + ?d" "moved ?d M"] by linarith
      also have "\<dots> = p + d + ilen (app p (picked (y # M)) xs)"
        unfolding split length_append [of ?Z] of_nat_add using lz by linarith
      finally have "aend (p + d) (moved ?d M) \<le> p + d + ilen (app p (picked (y # M)) xs)" .
      moreover have "app (p + d) (moved ?d M) (app p (picked (y # M)) xs) = app p (map snd (y # M)) xs"
        unfolding split app_prefix' [OF chains(3) lz] IH(2) by (simp add: y)
      moreover have "moved d (y # M) = moved ?d M" using True by (simp add: y)
      ultimately show ?thesis by simp
    next
      case False
      let ?Z = "itake (or_end g - p) xs"
      have lz: "ilen ?Z = or_end g - p" using b le g by simp
      have A: "app p (picked M) xs = ?Z @ app (or_end g) (picked M) ?ys"
        using app_shift [of p "or_end g" "picked M" xs] chains(1) g b le by simp
      have n: "or_start g - p - ilen ?Z \<le> 0" "or_end g - p - ilen ?Z \<le> 0" unfolding lz using g by auto
      have t: "itake (or_start g - p) ?Z = itake (or_start g - p) xs" using g by (simp add: itake_itake)
      have d: "idrop (or_end g - p) ?Z = []" by (rule idrop_all) (use lz in linarith)
      have mv: "moved d (y # M) = (MkOffsetRange (or_start g + d) (or_end g + d), c) # moved d M"
        "picked (y # M) = picked M" using False by (simp_all add: y)
      have k: "k + d - (p + d) = k - p" for k :: int by simp
      have "app (p + d) (moved d (y # M)) (app p (picked (y # M)) xs) = app p (map snd (y # M)) xs"
        unfolding mv app.simps offset_range.sel k A itake_append idrop_append t d
        using n IH(2) [of d] by (simp add: y)
      moreover have "aend (p + d) (moved d (y # M)) \<le> p + d + ilen (app p (picked (y # M)) xs)"
        unfolding mv A length_append [of ?Z] of_nat_add using IH(1) [of d] lz by simp
      ultimately show ?thesis by simp
    qed
  qed simp
  then show "aend (p + d) (moved d M) \<le> p + d + ilen (app p (picked M) xs)"
    "app (p + d) (moved d M) (app p (picked M) xs) = app p (map snd M) xs" by auto
qed

section \<open>Inverting an edit\<close>

text \<open>\<open>f s e\<close> is the text the edit replaced at offsets \<open>s\<close> to \<open>e\<close> of the base.\<close>

fun ainv :: "(int \<Rightarrow> int \<Rightarrow> 'a list) \<Rightarrow> int \<Rightarrow> 'a aedit \<Rightarrow> 'a aedit" where
  "ainv f d [] = []"
| "ainv f d ((g, c) # E) =
     (MkOffsetRange (or_start g + d) (or_start g + d + ilen c), f (or_start g) (or_end g)) #
     ainv f (d + (ilen c - (or_end g - or_start g))) E"

lemma ainv_end: "or_start g + d + ilen c = or_end g + (d + (ilen c - (or_end g - or_start g)))"
  by simp

lemma ainv_chain: "achain p E \<Longrightarrow> achain (p + d) (ainv f d E)"
proof (induction p E arbitrary: d rule: achain.induct)
  case (2 p g c E)
  then have E: "achain (or_end g) E" by simp
  have "achain (or_start g + d + ilen c) (ainv f (d + (ilen c - (or_end g - or_start g))) E)"
    unfolding ainv_end by (rule 2(1) [OF E])
  with 2 show ?case by simp
qed simp

lemma aend_ainv: "achain p E \<Longrightarrow> aend (p + d) (ainv f d E) = aend p E + d + adelta E"
proof (induction p E arbitrary: d rule: achain.induct)
  case (2 p g c E)
  then have E: "achain (or_end g) E" by simp
  have "aend (or_start g + d + ilen c) (ainv f (d + (ilen c - (or_end g - or_start g))) E) =
    aend (or_end g) E + (d + (ilen c - (or_end g - or_start g))) + adelta E"
    unfolding ainv_end by (rule 2(1) [OF E])
  then show ?case by simp
qed simp

lemma ainv_correct:
  assumes "achain p E" and "0 \<le> p" and "p \<le> ilen base" and "aend p E \<le> ilen base"
    and f: "\<And>s e. 0 \<le> s \<Longrightarrow> s \<le> e \<Longrightarrow> e \<le> ilen base \<Longrightarrow> f s e = itake (e - s) (idrop s base)"
  shows "app (p + d) (ainv f d E) (app p E (idrop p base)) = idrop p base"
  using assms(1-4)
proof (induction p E arbitrary: d rule: achain.induct)
  case (2 p g c E)
  have g: "p \<le> or_start g" "or_start g \<le> or_end g" "achain (or_end g) E" using 2(2) by auto
  have e: "or_end g \<le> ilen base" using aend_ge [OF g(3)] 2(5) by simp
  let ?d = "d + (ilen c - (or_end g - or_start g))" and ?A = "itake (or_start g - p) (idrop p base)"
  have IH: "app (or_end g + ?d) (ainv f ?d E) (app (or_end g) E (idrop (or_end g) base)) = idrop (or_end g) base"
    using 2(1) [of ?d] 2(3,5) g e by simp
  have drop: "idrop (or_end g - p) (idrop p base) = idrop (or_end g) base" using g 2(3) by (simp add: idrop_idrop)
  have lA: "ilen ?A = or_start g - p" using g e 2(3) by simp
  have k: "or_start g + d - (p + d) = or_start g - p" "or_start g + d + ilen c - (p + d) = or_start g - p + ilen c"
    by simp_all
  note e' = ainv_end [of g d c]
  have "app p ((g, c) # E) (idrop p base) = ?A @ c @ app (or_end g) E (idrop (or_end g) base)"
    by (simp add: drop)
  then have "app (p + d) (ainv f d ((g, c) # E)) (app p ((g, c) # E) (idrop p base)) =
      itake (or_start g - p) (?A @ c @ app (or_end g) E (idrop (or_end g) base)) @ f (or_start g) (or_end g) @
      app (or_end g + ?d) (ainv f ?d E)
        (idrop (or_start g - p + ilen c) ((?A @ c) @ app (or_end g) E (idrop (or_end g) base)))"
    unfolding ainv.simps app.simps offset_range.sel k append_assoc unfolding e' by (simp only: drop append_assoc)
  also have "itake (or_start g - p) (?A @ c @ app (or_end g) E (idrop (or_end g) base)) = ?A"
    unfolding itake_append lA by (simp add: itake_itake)
  also have "idrop (or_start g - p + ilen c) ((?A @ c) @ app (or_end g) E (idrop (or_end g) base)) =
      app (or_end g) E (idrop (or_end g) base)"
  proof -
    have "ilen (?A @ c) = or_start g - p + ilen c" using lA by simp
    moreover from this have "idrop (or_start g - p + ilen c) (?A @ c) = []" by (intro idrop_all) simp
    ultimately show ?thesis unfolding idrop_append [of _ "?A @ c"] by simp
  qed
  also have "f (or_start g) (or_end g) = itake (or_end g - or_start g) (idrop (or_start g) base)"
    using f g e 2(3) by simp
  also have "?A @ itake (or_end g - or_start g) (idrop (or_start g) base) @
      app (or_end g + ?d) (ainv f ?d E) (app (or_end g) E (idrop (or_end g) base)) = idrop p base"
  proof -
    have "idrop (or_start g) base = idrop (or_start g - p) (idrop p base)" using g 2(3) by (simp add: idrop_idrop)
    moreover have "idrop (or_end g) base = idrop (or_end g - or_start g) (idrop (or_start g) base)"
      using g 2(3) by (simp add: idrop_idrop)
    ultimately show ?thesis unfolding IH by simp
  qed
  finally show ?case .
qed simp

section \<open>Well-formed and applicable edits\<close>

text \<open>
  The replaced ranges of an edit are sorted and disjoint, from offset \<open>p\<close> on; they lie within
  a base of length \<open>n\<close>.
\<close>

fun ranges_sorted :: "int \<Rightarrow> offset_range list \<Rightarrow> bool" where
  "ranges_sorted p [] \<longleftrightarrow> True"
| "ranges_sorted p (g # gs) \<longleftrightarrow> p \<le> or_start g \<and> or_start g \<le> or_end g \<and> ranges_sorted (or_end g) gs"

definition ranges_within :: "int \<Rightarrow> offset_range list \<Rightarrow> bool" where
  "ranges_within n gs \<longleftrightarrow> ranges_sorted 0 gs \<and> (gs = [] \<or> or_end (last gs) \<le> n)"

lemma achain_sorted: "achain p E \<longleftrightarrow> ranges_sorted p (map fst E)"
  by (induction p E rule: achain.induct) auto

lemma aend_last: "aend p E = (if E = [] then p else or_end (last (map fst E)))"
  by (induction p E rule: aend.induct) auto

lemma ranges_within_chain:
  "ranges_within n (map fst E) \<and> 0 \<le> n \<longleftrightarrow> achain 0 E \<and> aend 0 E \<le> n \<and> 0 \<le> n"
  by (auto simp: ranges_within_def achain_sorted aend_last)

end
