(* ===== verification/Edits.thy ===== *)
theory Edits
  imports AbstractEdits
begin

text \<open>
  \<open>vs/editor/common/core/edits/edit.ts\<close>: the generic edit. \<open>BaseEdit\<close> is an array of
  replacements that are applied at once; \<open>BaseReplacement\<close> is abstract, and what a subclass
  must provide (\<open>replaceRange\<close>, \<open>getNewLength\<close>, \<open>tryJoinTouching\<close>, \<open>slice\<close>,
  \<open>equals\<close>) is the record \<open>repl_ops\<close> that every function of the base classes takes. The
  laws the base class relies on are the locale \<open>replacement_laws\<close>, in which
  \<open>normalize\<close> and \<open>compose\<close> are proved once for all kinds of edits; it is interpreted on every
  subclass here and in \<open>StringEdits\<close>, where the types are declared.

  The specification is the abstract edit: the list of replaced ranges with the new content of
  each, and \<open>app\<close>, which says what applying it to a list means.
\<close>

section \<open>The interface of a replacement\<close>

text \<open>
  \<open>tryJoinTouching\<close> may throw and may return \<open>undefined\<close>. The second argument of \<open>slice\<close>
  is optional in some subclasses.
\<close>

record 'r repl_ops =
  rp_range :: "'r \<Rightarrow> offset_range"
  rp_newLength :: "'r \<Rightarrow> int"
  rp_tryJoin :: "'r \<Rightarrow> 'r \<Rightarrow> 'r option option"
  rp_slice :: "'r \<Rightarrow> offset_range \<Rightarrow> offset_range option \<Rightarrow> 'r option"
  rp_equals :: "'r \<Rightarrow> 'r \<Rightarrow> bool"

definition BaseReplacement_delta :: "('r, 'z) repl_ops_scheme \<Rightarrow> 'r \<Rightarrow> int \<Rightarrow> 'r option" where
  "BaseReplacement_delta ops r n = do {
     range \<leftarrow> OffsetRange_delta (rp_range ops r) n;
     whole \<leftarrow> OffsetRange_new 0 (rp_newLength ops r);
     rp_slice ops r range (Some whole)
   }"

definition BaseReplacement_getLengthDelta :: "('r, 'z) repl_ops_scheme \<Rightarrow> 'r \<Rightarrow> int" where
  "BaseReplacement_getLengthDelta ops r =
     rp_newLength ops r - OffsetRange_length (rp_range ops r)"

definition BaseReplacement_isEmpty :: "('r, 'z) repl_ops_scheme \<Rightarrow> 'r \<Rightarrow> bool" where
  "BaseReplacement_isEmpty ops r \<longleftrightarrow>
     rp_newLength ops r = 0 \<and> OffsetRange_length (rp_range ops r) = 0"

definition BaseReplacement_getRangeAfterReplace :: "('r, 'z) repl_ops_scheme \<Rightarrow> 'r \<Rightarrow> offset_range option" where
  "BaseReplacement_getRangeAfterReplace ops r =
     OffsetRange_new (or_start (rp_range ops r)) (or_start (rp_range ops r) + rp_newLength ops r)"

section \<open>BaseEdit\<close>

text \<open>The constructor checks that the replacements are sorted and disjoint.\<close>

fun BaseEdit_check :: "('r, 'z) repl_ops_scheme \<Rightarrow> int \<Rightarrow> 'r list \<Rightarrow> bool" where
  "BaseEdit_check ops lastEndEx [] = True"
| "BaseEdit_check ops lastEndEx (r # rs) =
     (if \<not> or_start (rp_range ops r) \<ge> lastEndEx then False
      else BaseEdit_check ops (or_end (rp_range ops r)) rs)"

definition BaseEdit_new :: "('r, 'z) repl_ops_scheme \<Rightarrow> 'r list \<Rightarrow> 'r list option" where
  "BaseEdit_new ops rs = (if BaseEdit_check ops (-1) rs then Some rs else None)"

fun BaseEdit_equals_loop :: "('r, 'z) repl_ops_scheme \<Rightarrow> 'r list \<Rightarrow> 'r list \<Rightarrow> bool" where
  "BaseEdit_equals_loop ops (r # rs) (q # qs) =
     (if \<not> rp_equals ops r q then False else BaseEdit_equals_loop ops rs qs)"
| "BaseEdit_equals_loop ops _ _ = True"

definition BaseEdit_equals :: "('r, 'z) repl_ops_scheme \<Rightarrow> 'r list \<Rightarrow> 'r list \<Rightarrow> bool" where
  "BaseEdit_equals ops a b =
     (if length a \<noteq> length b then False else BaseEdit_equals_loop ops a b)"

text \<open>The loop of \<open>normalize\<close>; its last two statements are the equation for the empty list.\<close>

fun normalize_loop :: "('r, 'z) repl_ops_scheme \<Rightarrow> 'r list \<Rightarrow> 'r option \<Rightarrow> 'r list \<Rightarrow> 'r list option" where
  "normalize_loop ops [] lastReplacement newReplacements =
     Some (case lastReplacement of None \<Rightarrow> newReplacements | Some l \<Rightarrow> newReplacements @ [l])"
| "normalize_loop ops (r # rs) lastReplacement newReplacements =
     (if rp_newLength ops r = 0 \<and> OffsetRange_length (rp_range ops r) = 0
      then normalize_loop ops rs lastReplacement newReplacements
      else case lastReplacement of
        None \<Rightarrow> normalize_loop ops rs (Some r) newReplacements
      | Some l \<Rightarrow>
          if or_end (rp_range ops l) = or_start (rp_range ops r)
          then (case rp_tryJoin ops l r of
                  None \<Rightarrow> None
                | Some (Some joined) \<Rightarrow> normalize_loop ops rs (Some joined) newReplacements
                | Some None \<Rightarrow> normalize_loop ops rs (Some r) (newReplacements @ [l]))
          else normalize_loop ops rs (Some r) (newReplacements @ [l]))"

definition BaseEdit_normalize :: "('r, 'z) repl_ops_scheme \<Rightarrow> 'r list \<Rightarrow> 'r list option" where
  "BaseEdit_normalize ops E = do {
     rs \<leftarrow> normalize_loop ops E None [];
     BaseEdit_new ops rs
   }"

text \<open>
  \<open>compose\<close>. The two inner loops take what they consume from the front of \<open>edit1Queue\<close>;
  \<open>compose_step\<close> is the body of the outer loop.
\<close>

fun compose_copy :: "('r, 'z) repl_ops_scheme \<Rightarrow> 'r \<Rightarrow> 'r list \<Rightarrow> int \<Rightarrow> 'r list \<Rightarrow> 'r list \<times> int \<times> 'r list" where
  "compose_copy ops r2 [] edit1ToEdit2 result = ([], edit1ToEdit2, result)"
| "compose_copy ops r2 (r1 # queue) edit1ToEdit2 result =
     (if or_start (rp_range ops r1) + edit1ToEdit2 + rp_newLength ops r1 \<ge> or_start (rp_range ops r2)
      then (r1 # queue, edit1ToEdit2, result)
      else compose_copy ops r2 queue
             (edit1ToEdit2 + (rp_newLength ops r1 - OffsetRange_length (rp_range ops r1)))
             (result @ [r1]))"

fun compose_intersect ::
  "('r, 'z) repl_ops_scheme \<Rightarrow> 'r \<Rightarrow> 'r list \<Rightarrow> int \<Rightarrow> 'r option \<Rightarrow> 'r option \<Rightarrow>
    'r list \<times> int \<times> 'r option \<times> 'r option" where
  "compose_intersect ops r2 [] edit1ToEdit2 firstRepl lastRepl = ([], edit1ToEdit2, firstRepl, lastRepl)"
| "compose_intersect ops r2 (r1 # queue) edit1ToEdit2 firstRepl lastRepl =
     (if or_start (rp_range ops r1) + edit1ToEdit2 > or_end (rp_range ops r2)
      then (r1 # queue, edit1ToEdit2, firstRepl, lastRepl)
      else compose_intersect ops r2 queue
             (edit1ToEdit2 + (rp_newLength ops r1 - OffsetRange_length (rp_range ops r1)))
             (case firstRepl of None \<Rightarrow> Some r1 | Some f \<Rightarrow> Some f)
             (Some r1))"

definition compose_prefix :: "('r, 'z) repl_ops_scheme \<Rightarrow> 'r \<Rightarrow> int \<Rightarrow> int \<Rightarrow> 'r list \<Rightarrow> 'r list option" where
  "compose_prefix ops firstRepl newReplaceRangeStart prefixLength result =
     (if prefixLength > 0 then do {
        at \<leftarrow> OffsetRange_emptyAt newReplaceRangeStart;
        inRepl \<leftarrow> OffsetRange_new 0 prefixLength;
        prefix \<leftarrow> rp_slice ops firstRepl at (Some inRepl);
        Some (result @ [prefix])
      }
      else Some result)"

definition compose_suffix :: "('r, 'z) repl_ops_scheme \<Rightarrow> 'r \<Rightarrow> int \<Rightarrow> 'r list \<Rightarrow> int \<Rightarrow> ('r list \<times> int) option" where
  "compose_suffix ops lastRepl suffixLength queue edit1ToEdit2 =
     (if suffixLength > 0 then do {
        at \<leftarrow> OffsetRange_ofStartAndLength (or_end (rp_range ops lastRepl)) 0;
        inRepl \<leftarrow> OffsetRange_new (rp_newLength ops lastRepl - suffixLength) (rp_newLength ops lastRepl);
        e \<leftarrow> rp_slice ops lastRepl at (Some inRepl);
        Some (e # queue, edit1ToEdit2 - (rp_newLength ops e - OffsetRange_length (rp_range ops e)))
      }
      else Some (queue, edit1ToEdit2))"

definition compose_step :: "('r, 'z) repl_ops_scheme \<Rightarrow> 'r \<Rightarrow> 'r list \<times> int \<times> 'r list \<Rightarrow> ('r list \<times> int \<times> 'r list) option" where
  "compose_step ops r2 st =
     (case st of (queue0, d0, result0) \<Rightarrow>
      case compose_copy ops r2 queue0 d0 result0 of (queue1, firstEdit1ToEdit2, result1) \<Rightarrow>
      case compose_intersect ops r2 queue1 firstEdit1ToEdit2 None None of
        (queue2, edit1ToEdit2, firstRepl, lastRepl) \<Rightarrow>
      case firstRepl of
        None \<Rightarrow> do {
          r \<leftarrow> BaseReplacement_delta ops r2 (- edit1ToEdit2);
          Some (queue2, edit1ToEdit2, result1 @ [r])
        }
      | Some f \<Rightarrow>
          let newReplaceRangeStart =
                min (or_start (rp_range ops f)) (or_start (rp_range ops r2) - firstEdit1ToEdit2);
              prefixLength =
                or_start (rp_range ops r2) - (or_start (rp_range ops f) + firstEdit1ToEdit2)
          in do {
            result2 \<leftarrow> compose_prefix ops f newReplaceRangeStart prefixLength result1;
            l \<leftarrow> lastRepl;
            (queue3, edit1ToEdit2') \<leftarrow> compose_suffix ops l
               ((or_end (rp_range ops l) + edit1ToEdit2) - or_end (rp_range ops r2)) queue2 edit1ToEdit2;
            newReplaceRange \<leftarrow> OffsetRange_new newReplaceRangeStart
               (or_end (rp_range ops r2) - edit1ToEdit2');
            whole \<leftarrow> OffsetRange_new 0 (rp_newLength ops r2);
            middle \<leftarrow> rp_slice ops r2 newReplaceRange (Some whole);
            Some (queue3, edit1ToEdit2', result2 @ [middle])
          })"

fun compose_loop :: "('r, 'z) repl_ops_scheme \<Rightarrow> 'r list \<Rightarrow> 'r list \<times> int \<times> 'r list \<Rightarrow> ('r list \<times> int \<times> 'r list) option" where
  "compose_loop ops [] st = Some st"
| "compose_loop ops (r2 # rs) st =
     (case compose_step ops r2 st of None \<Rightarrow> None | Some st' \<Rightarrow> compose_loop ops rs st')"

definition BaseEdit_compose :: "('r, 'z) repl_ops_scheme \<Rightarrow> 'r list \<Rightarrow> 'r list \<Rightarrow> 'r list option" where
  "BaseEdit_compose ops this other = do {
     edits1 \<leftarrow> BaseEdit_normalize ops this;
     edits2 \<leftarrow> BaseEdit_normalize ops other;
     if edits1 = [] then Some edits2
     else if edits2 = [] then Some edits1
     else do {
       (queue, d, result) \<leftarrow> compose_loop ops edits2 (edits1, 0, []);
       e \<leftarrow> BaseEdit_new ops (result @ queue);
       BaseEdit_normalize ops e
     }
   }"

fun decomposeSplit_loop ::
  "('r, 'z) repl_ops_scheme \<Rightarrow> ('r \<Rightarrow> bool) \<Rightarrow> 'r list \<Rightarrow> int \<Rightarrow> 'r list \<Rightarrow> 'r list \<Rightarrow> ('r list \<times> 'r list) option" where
  "decomposeSplit_loop ops inE1 [] e2delta e1 e2 = Some (e1, e2)"
| "decomposeSplit_loop ops inE1 (edit # rs) e2delta e1 e2 =
     (if inE1 edit
      then decomposeSplit_loop ops inE1 rs
             (e2delta + (rp_newLength ops edit - OffsetRange_length (rp_range ops edit)))
             (e1 @ [edit]) e2
      else case BaseReplacement_delta ops edit e2delta of
             None \<Rightarrow> None
           | Some r \<Rightarrow> decomposeSplit_loop ops inE1 rs e2delta e1 (e2 @ [r]))"

definition BaseEdit_decomposeSplit ::
  "('r, 'z) repl_ops_scheme \<Rightarrow> ('r \<Rightarrow> bool) \<Rightarrow> 'r list \<Rightarrow> ('r list \<times> 'r list) option" where
  "BaseEdit_decomposeSplit ops inE1 E = do {
     (e1, e2) \<leftarrow> decomposeSplit_loop ops inE1 E 0 [] [];
     e1' \<leftarrow> BaseEdit_new ops e1;
     e2' \<leftarrow> BaseEdit_new ops e2;
     Some (e1', e2')
   }"

fun getNewRanges_loop :: "('r, 'z) repl_ops_scheme \<Rightarrow> 'r list \<Rightarrow> int \<Rightarrow> offset_range list \<Rightarrow> offset_range list option" where
  "getNewRanges_loop ops [] offset ranges = Some ranges"
| "getNewRanges_loop ops (e # rs) offset ranges =
     (case OffsetRange_ofStartAndLength (or_start (rp_range ops e) + offset) (rp_newLength ops e) of
        None \<Rightarrow> None
      | Some g \<Rightarrow> getNewRanges_loop ops rs (offset + BaseReplacement_getLengthDelta ops e) (ranges @ [g]))"

definition BaseEdit_getNewRanges :: "('r, 'z) repl_ops_scheme \<Rightarrow> 'r list \<Rightarrow> offset_range list option" where
  "BaseEdit_getNewRanges ops E = getNewRanges_loop ops E 0 []"

definition BaseEdit_getJoinedReplaceRange :: "('r, 'z) repl_ops_scheme \<Rightarrow> 'r list \<Rightarrow> offset_range option option" where
  "BaseEdit_getJoinedReplaceRange ops E =
     (if E = [] then Some None
      else map_option Some (OffsetRange_join (rp_range ops (hd E)) (rp_range ops (last E))))"

definition BaseEdit_isEmpty :: "'r list \<Rightarrow> bool" where
  "BaseEdit_isEmpty E \<longleftrightarrow> E = []"

definition BaseEdit_getLengthDelta :: "('r, 'z) repl_ops_scheme \<Rightarrow> 'r list \<Rightarrow> int" where
  "BaseEdit_getLengthDelta ops E = foldl (\<lambda>acc r. acc + BaseReplacement_getLengthDelta ops r) 0 E"

definition BaseEdit_getNewDataLength :: "('r, 'z) repl_ops_scheme \<Rightarrow> 'r list \<Rightarrow> int \<Rightarrow> int" where
  "BaseEdit_getNewDataLength ops E n = n + BaseEdit_getLengthDelta ops E"

fun applyToOffset_loop :: "('r, 'z) repl_ops_scheme \<Rightarrow> 'r list \<Rightarrow> int \<Rightarrow> int \<Rightarrow> int" where
  "applyToOffset_loop ops [] originalOffset accumulatedDelta = originalOffset + accumulatedDelta"
| "applyToOffset_loop ops (r # rs) originalOffset accumulatedDelta =
     (if or_start (rp_range ops r) \<le> originalOffset
      then if originalOffset < or_end (rp_range ops r)
           then or_start (rp_range ops r) + accumulatedDelta
           else applyToOffset_loop ops rs originalOffset
                  (accumulatedDelta + (rp_newLength ops r - OffsetRange_length (rp_range ops r)))
      else originalOffset + accumulatedDelta)"

definition BaseEdit_applyToOffset :: "('r, 'z) repl_ops_scheme \<Rightarrow> 'r list \<Rightarrow> int \<Rightarrow> int" where
  "BaseEdit_applyToOffset ops E originalOffset = applyToOffset_loop ops E originalOffset 0"

definition BaseEdit_applyToOffsetRange :: "('r, 'z) repl_ops_scheme \<Rightarrow> 'r list \<Rightarrow> offset_range \<Rightarrow> offset_range option" where
  "BaseEdit_applyToOffsetRange ops E g =
     OffsetRange_new (BaseEdit_applyToOffset ops E (or_start g)) (BaseEdit_applyToOffset ops E (or_end g))"

fun applyInverseToOffset_loop :: "('r, 'z) repl_ops_scheme \<Rightarrow> 'r list \<Rightarrow> int \<Rightarrow> int \<Rightarrow> int" where
  "applyInverseToOffset_loop ops [] postEditsOffset accumulatedDelta = postEditsOffset - accumulatedDelta"
| "applyInverseToOffset_loop ops (r # rs) postEditsOffset accumulatedDelta =
     (let editLength = rp_newLength ops r
      in if or_start (rp_range ops r) \<le> postEditsOffset - accumulatedDelta
         then if postEditsOffset - accumulatedDelta < or_start (rp_range ops r) + editLength
              then or_start (rp_range ops r)
              else applyInverseToOffset_loop ops rs postEditsOffset
                     (accumulatedDelta + (editLength - OffsetRange_length (rp_range ops r)))
         else postEditsOffset - accumulatedDelta)"

definition BaseEdit_applyInverseToOffset :: "('r, 'z) repl_ops_scheme \<Rightarrow> 'r list \<Rightarrow> int \<Rightarrow> int" where
  "BaseEdit_applyInverseToOffset ops E postEditsOffset = applyInverseToOffset_loop ops E postEditsOffset 0"

fun applyToOffsetOrUndefined_loop :: "('r, 'z) repl_ops_scheme \<Rightarrow> 'r list \<Rightarrow> int \<Rightarrow> int \<Rightarrow> int option" where
  "applyToOffsetOrUndefined_loop ops [] originalOffset accumulatedDelta =
     Some (originalOffset + accumulatedDelta)"
| "applyToOffsetOrUndefined_loop ops (r # rs) originalOffset accumulatedDelta =
     (if or_start (rp_range ops r) \<le> originalOffset
      then if originalOffset < or_end (rp_range ops r) then None
           else applyToOffsetOrUndefined_loop ops rs originalOffset
                  (accumulatedDelta + (rp_newLength ops r - OffsetRange_length (rp_range ops r)))
      else Some (originalOffset + accumulatedDelta))"

definition BaseEdit_applyToOffsetOrUndefined :: "('r, 'z) repl_ops_scheme \<Rightarrow> 'r list \<Rightarrow> int \<Rightarrow> int option" where
  "BaseEdit_applyToOffsetOrUndefined ops E originalOffset =
     applyToOffsetOrUndefined_loop ops E originalOffset 0"

definition BaseEdit_applyToOffsetRangeOrUndefined ::
  "('r, 'z) repl_ops_scheme \<Rightarrow> 'r list \<Rightarrow> offset_range \<Rightarrow> offset_range option option" where
  "BaseEdit_applyToOffsetRangeOrUndefined ops E g =
     (case BaseEdit_applyToOffsetOrUndefined ops E (or_start g) of
        None \<Rightarrow> Some None
      | Some s \<Rightarrow>
          (case BaseEdit_applyToOffsetOrUndefined ops E (or_end g) of
             None \<Rightarrow> Some None
           | Some e \<Rightarrow> map_option Some (OffsetRange_new s e)))"

section \<open>AnnotationReplacement\<close>

datatype 'd annotation_replacement =
  MkAnnotationReplacement (ar_range: offset_range) (ar_newLength: int) (ar_annotation: 'd)

definition AnnotationReplacement_equals ::
  "'d annotation_replacement \<Rightarrow> 'd annotation_replacement \<Rightarrow> bool" where
  "AnnotationReplacement_equals a b \<longleftrightarrow> OffsetRange_equals (ar_range a) (ar_range b) \<and>
     ar_newLength a = ar_newLength b \<and> ar_annotation a = ar_annotation b"

definition AnnotationReplacement_tryJoinTouching ::
  "'d annotation_replacement \<Rightarrow> 'd annotation_replacement \<Rightarrow> 'd annotation_replacement option option" where
  "AnnotationReplacement_tryJoinTouching a b =
     (if ar_annotation a \<noteq> ar_annotation b then Some None
      else do {
        g \<leftarrow> OffsetRange_joinRightTouching (ar_range a) (ar_range b);
        Some (Some (MkAnnotationReplacement g (ar_newLength a + ar_newLength b) (ar_annotation a)))
      })"

definition AnnotationReplacement_slice ::
  "'d annotation_replacement \<Rightarrow> offset_range \<Rightarrow> offset_range option \<Rightarrow> 'd annotation_replacement option" where
  "AnnotationReplacement_slice a g inRepl =
     Some (MkAnnotationReplacement g
       (case inRepl of None \<Rightarrow> ar_newLength a | Some q \<Rightarrow> OffsetRange_length q) (ar_annotation a))"

definition annotation_ops :: "'d annotation_replacement repl_ops" where
  "annotation_ops = \<lparr> rp_range = ar_range, rp_newLength = ar_newLength,
     rp_tryJoin = AnnotationReplacement_tryJoinTouching, rp_slice = AnnotationReplacement_slice,
     rp_equals = AnnotationReplacement_equals \<rparr>"


section \<open>What a kind of replacement promises\<close>

text \<open>
  \<open>content\<close> is what a replacement puts in place of its range, \<open>ok\<close> what its constructor
  guarantees. Joining touching replacements concatenates, slicing keeps a part of the content.
\<close>

locale replacement_laws =
  fixes ops :: "('r, 'z) repl_ops_scheme"
    and content :: "'r \<Rightarrow> 'a list"
    and ok :: "'r \<Rightarrow> bool"
  assumes newLength_content: "ok r \<Longrightarrow> rp_newLength ops r = ilen (content r)"
    and tryJoin_law: "ok r \<Longrightarrow> ok q \<Longrightarrow> or_end (rp_range ops r) = or_start (rp_range ops q) \<Longrightarrow>
      rp_tryJoin ops r q = Some None \<or>
      (\<exists>j. rp_tryJoin ops r q = Some (Some j) \<and> ok j \<and>
        or_start (rp_range ops j) = or_start (rp_range ops r) \<and>
        or_end (rp_range ops j) = or_end (rp_range ops q) \<and> content j = content r @ content q)"
    and slice_law: "ok r \<Longrightarrow> or_ok g \<Longrightarrow> 0 \<le> a \<Longrightarrow> a \<le> b \<Longrightarrow> b \<le> ilen (content r) \<Longrightarrow>
      \<exists>x. rp_slice ops r g (Some (MkOffsetRange a b)) = Some x \<and> ok x \<and> rp_range ops x = g \<and>
        content x = itake (b - a) (idrop a (content r))"
begin

abbreviation start :: "'r \<Rightarrow> int" where
  "start r \<equiv> or_start (rp_range ops r)"

abbreviation endEx :: "'r \<Rightarrow> int" where
  "endEx r \<equiv> or_end (rp_range ops r)"

text \<open>The abstract edit an array of replacements stands for, and well-formed arrays.\<close>

definition view :: "'r list \<Rightarrow> 'a aedit" where
  "view E = map (\<lambda>r. (rp_range ops r, content r)) E"

definition wf :: "int \<Rightarrow> 'r list \<Rightarrow> bool" where
  "wf p E \<longleftrightarrow> (\<forall>r \<in> set E. ok r) \<and> achain p (view E)"

lemma view_simps [simp]:
  "view [] = []" "view (r # E) = (rp_range ops r, content r) # view E" "view (E @ F) = view E @ view F"
  by (simp_all add: view_def)

lemma view_eq_Nil [simp]: "view E = [] \<longleftrightarrow> E = []"
  by (simp add: view_def)

lemma wf_Nil [simp]: "wf p []"
  by (simp add: wf_def)

lemma wf_Cons [simp]: "wf p (r # E) \<longleftrightarrow> ok r \<and> p \<le> start r \<and> start r \<le> endEx r \<and> wf (endEx r) E"
  by (auto simp: wf_def)

lemma wf_append: "wf p (E @ F) \<longleftrightarrow> wf p E \<and> wf (aend p (view E)) F"
  by (auto simp: wf_def achain_append)

lemma wf_achain: "wf p E \<Longrightarrow> achain p (view E)"
  by (simp add: wf_def)

lemma wf_mono: "wf k E \<Longrightarrow> p \<le> k \<Longrightarrow> wf p E"
  by (auto simp: wf_def intro: achain_mono)

lemma wf_check: "wf p E \<Longrightarrow> BaseEdit_check ops p E"
  by (induction E arbitrary: p) auto

lemma BaseEdit_new_wf: "wf 0 E \<Longrightarrow> BaseEdit_new ops E = Some E"
  using wf_check [OF wf_mono [of 0 E "-1"]] by (simp add: BaseEdit_new_def)

text \<open>\<open>normalize\<close> returns, keeps the edit well-formed and keeps its effect.\<close>

definition pending :: "'r option \<Rightarrow> 'r list" where
  "pending l = (case l of None \<Rightarrow> [] | Some r \<Rightarrow> [r])"

lemma skip_empty:
  assumes "wf p (r # E)" and "rp_newLength ops r = 0" and "OffsetRange_length (rp_range ops r) = 0"
    and "aend p (view (r # E)) \<le> p + ilen xs"
  shows "app p (view (r # E)) xs = app p (view E) xs" and "wf p E"
    and "aend p (view E) \<le> p + ilen xs"
proof -
  have r: "content r = []" "start r = endEx r" "p \<le> start r" "wf (endEx r) E"
    using assms(1-3) newLength_content [of r] by (auto simp: OffsetRange_length_def)
  show "wf p E" using r by (auto intro: wf_mono)
  have le: "endEx r \<le> p + ilen xs"
    using assms(4) aend_ge [OF wf_achain [OF r(4)]] by simp
  show "app p (view (r # E)) xs = app p (view E) xs"
    using app_shift [of p "endEx r" "view E" xs] r le wf_achain [OF r(4)] by simp
  show "aend p (view E) \<le> p + ilen xs"
    using assms(4) r aend_mono [of p "endEx r" "view E"] by simp
qed

lemma normalize_loop_correct:
  assumes "wf p (pending l @ E)"
  shows "\<exists>N. normalize_loop ops E l acc = Some (acc @ N) \<and> wf p N \<and>
    aend p (view N) \<le> aend p (view (pending l @ E)) \<and>
    (\<forall>xs. aend p (view (pending l @ E)) \<le> p + ilen xs \<longrightarrow>
      app p (view N) xs = app p (view (pending l @ E)) xs)"
  using assms
proof (induction E arbitrary: p l acc)
  case Nil
  then show ?case by (cases l) (auto simp: pending_def)
next
  case (Cons r E)
  show ?case
  proof (cases "rp_newLength ops r = 0 \<and> OffsetRange_length (rp_range ops r) = 0")
    case True
    let ?q = "aend p (view (pending l))"
    have q: "wf p (pending l)" "wf ?q (r # E)" using Cons.prems by (auto simp: wf_append)
    have len: "OffsetRange_length (rp_range ops r) = 0" "rp_newLength ops r = 0" using True by auto
    have wf: "wf p (pending l @ E)"
      using q len by (auto simp: wf_append OffsetRange_length_def intro: wf_mono)
    have le: "aend ?q (view E) \<le> aend ?q (view (r # E))"
      using q(2) by (simp add: aend_mono)
    have "app p (view (pending l @ E)) xs = app p (view (pending l @ r # E)) xs"
      if b: "aend p (view (pending l @ r # E)) \<le> p + ilen xs" for xs
    proof -
      have "?q \<le> aend ?q (view (r # E))" using aend_ge [OF wf_achain [OF q(2)]] .
      moreover have "p \<le> ?q" using aend_ge [OF wf_achain [OF q(1)]] .
      ultimately have "aend ?q (view (r # E)) \<le> ?q + ilen (idrop (?q - p) xs)" using b by simp
      from skip_empty(1) [OF q(2) len(2,1) this] show ?thesis
        by (simp add: app_append [OF wf_achain [OF q(1)]] del: view_simps(2) app.simps(2))
    qed
    with Cons.IH [OF wf, of acc] True le show ?thesis by fastforce
  next
    case False
    show ?thesis
    proof (cases l)
      case None
      with False have "normalize_loop ops (r # E) l acc = normalize_loop ops E (Some r) acc" by auto
      with None Cons.IH [of p "Some r" acc] Cons.prems show ?thesis
        by (simp add: pending_def del: normalize_loop.simps)
    next
      case (Some f)
      have f: "ok f" "p \<le> start f" "start f \<le> endEx f" "wf (endEx f) (r # E)"
        using Cons.prems Some by (auto simp: pending_def)
      have push: ?thesis if loop: "normalize_loop ops (r # E) l acc = normalize_loop ops E (Some r) (acc @ [f])"
      proof -
        obtain N where N: "normalize_loop ops E (Some r) (acc @ [f]) = Some ((acc @ [f]) @ N)"
          "wf (endEx f) N" "aend (endEx f) (view N) \<le> aend (endEx f) (view (r # E))"
          "\<And>xs. aend (endEx f) (view (r # E)) \<le> endEx f + ilen xs \<Longrightarrow>
            app (endEx f) (view N) xs = app (endEx f) (view (r # E)) xs"
          using Cons.IH [of "endEx f" "Some r" "acc @ [f]"] f(4) by (auto simp: pending_def)
        have "endEx f \<le> aend (endEx f) (view (r # E))" using aend_ge [OF wf_achain [OF f(4)]] .
        then have "app p (view (f # N)) xs = app p (view (f # r # E)) xs"
          if "aend p (view (f # r # E)) \<le> p + ilen xs" for xs
          using N(4) [of "idrop (endEx f - p) xs"] f that by (simp add: le_diff_eq add.commute)
        with N f Some loop show ?thesis
          by (intro exI [of _ "f # N"]) (auto simp: pending_def simp del: normalize_loop.simps)
      qed
      show ?thesis
      proof (cases "endEx f = start r")
        case touch: True
        from f(4) have "ok r" by simp
        from tryJoin_law [OF f(1) this touch] show ?thesis
        proof (elim disjE exE conjE)
          assume "rp_tryJoin ops f r = Some None"
          with touch False Some show ?thesis by (intro push) auto
        next
          fix j assume j: "rp_tryJoin ops f r = Some (Some j)" "ok j" "start j = start f" "endEx j = endEx r"
            "content j = content f @ content r"
          have wf: "wf p (pending (Some j) @ E)" using f j by (auto simp: pending_def)
          have "app p (view (j # E)) xs = app p (view (f # r # E)) xs" for xs
          proof -
            have "idrop (endEx r - endEx f) (idrop (endEx f - p) xs) = idrop (endEx r - p) xs"
              using f by (simp add: idrop_idrop)
            then show ?thesis using touch j by simp
          qed
          with Cons.IH [OF wf, of acc] j touch False Some show ?thesis
            by (auto simp: pending_def)
        qed
      next
        case False2: False
        with False Some show ?thesis by (intro push) auto
      qed
    qed
  qed
qed

lemma normalize_correct:
  assumes "wf 0 E"
  shows "\<exists>N. BaseEdit_normalize ops E = Some N \<and> wf 0 N \<and> aend 0 (view N) \<le> aend 0 (view E) \<and>
    (\<forall>xs. aend 0 (view E) \<le> ilen xs \<longrightarrow> app 0 (view N) xs = app 0 (view E) xs)"
  using normalize_loop_correct [of 0 None E "[]"] assms BaseEdit_new_wf
  by (auto simp: BaseEdit_normalize_def pending_def)

text \<open>
  \<open>compose\<close>. \<open>p\<close> is how far the base is covered by the result, \<open>p + d\<close> how far the
  intermediate text is, and the queue is the rest of the first edit; what is left of the
  intermediate text is \<open>app p (view queue) xs\<close> for the rest \<open>xs\<close> of the base.
\<close>

lemma compose_copy_correct:
  assumes "\<forall>r \<in> set Q. ok r"
  shows "\<exists>C Q1 d1. compose_copy ops r2 Q d res = (Q1, d1, res @ C) \<and> Q = C @ Q1 \<and>
    d1 = d + adelta (view C) \<and>
    (C \<noteq> [] \<longrightarrow> endEx (last C) + d1 < start r2) \<and>
    (Q1 \<noteq> [] \<longrightarrow> start r2 \<le> start (hd Q1) + d1 + ilen (content (hd Q1)))"
  using assms
proof (induction Q arbitrary: d res)
  case (Cons r1 Q)
  let ?d = "d + (rp_newLength ops r1 - OffsetRange_length (rp_range ops r1))"
  have len: "rp_newLength ops r1 = ilen (content r1)" using Cons.prems newLength_content by simp
  show ?case
  proof (cases "start r1 + d + rp_newLength ops r1 \<ge> start r2")
    case True
    with len show ?thesis by auto
  next
    case False
    obtain C Q1 d1 where C: "compose_copy ops r2 Q ?d (res @ [r1]) = (Q1, d1, (res @ [r1]) @ C)" "Q = C @ Q1"
      "d1 = ?d + adelta (view C)" "C \<noteq> [] \<longrightarrow> endEx (last C) + d1 < start r2"
      "Q1 \<noteq> [] \<longrightarrow> start r2 \<le> start (hd Q1) + d1 + ilen (content (hd Q1))"
      using Cons.IH [of ?d "res @ [r1]"] Cons.prems by auto
    have "endEx r1 + ?d < start r2" using False by (simp add: OffsetRange_length_def)
    with C False len show ?thesis
      by (intro exI [of _ "r1 # C"] exI [of _ Q1] exI [of _ d1]) (auto simp: OffsetRange_length_def)
  qed
qed simp

lemma compose_intersect_correct:
  assumes "\<forall>r \<in> set Q. ok r"
  shows "\<exists>M Q1 d1. Q = M @ Q1 \<and> d1 = d + adelta (view M) \<and>
    compose_intersect ops r2 Q d f l =
      (Q1, d1, (if f = None \<and> M \<noteq> [] then Some (hd M) else f), (if M = [] then l else Some (last M))) \<and>
    (M \<noteq> [] \<longrightarrow> start (hd M) + d \<le> endEx r2 \<and> endEx (last M) + d1 - ilen (content (last M)) \<le> endEx r2) \<and>
    (Q1 \<noteq> [] \<longrightarrow> endEx r2 < start (hd Q1) + d1)"
  using assms
proof (induction Q arbitrary: d f l)
  case (Cons r1 Q)
  let ?d = "d + (rp_newLength ops r1 - OffsetRange_length (rp_range ops r1))"
  have len: "rp_newLength ops r1 = ilen (content r1)" using Cons.prems newLength_content by simp
  show ?case
  proof (cases "start r1 + d > endEx r2")
    case True
    then show ?thesis by (intro exI [of _ "[]"] exI [of _ "r1 # Q"] exI [of _ d]) auto
  next
    case False
    define f' where "f' = (case f of None \<Rightarrow> Some r1 | Some x \<Rightarrow> Some x)"
    obtain M Q1 d1 where M: "Q = M @ Q1" "d1 = ?d + adelta (view M)"
      "compose_intersect ops r2 Q ?d f' (Some r1) =
        (Q1, d1, (if f' = None \<and> M \<noteq> [] then Some (hd M) else f'), (if M = [] then Some r1 else Some (last M)))"
      "M \<noteq> [] \<longrightarrow> start (hd M) + ?d \<le> endEx r2 \<and> endEx (last M) + d1 - ilen (content (last M)) \<le> endEx r2"
      "Q1 \<noteq> [] \<longrightarrow> endEx r2 < start (hd Q1) + d1"
      using Cons.IH [of ?d f' "Some r1"] Cons.prems by auto
    have f': "f' \<noteq> None" "f' = (if f = None then Some r1 else f)"
      by (auto simp: f'_def split: option.splits)
    from False have "compose_intersect ops r2 (r1 # Q) d f l = compose_intersect ops r2 Q ?d f' (Some r1)"
      by (simp add: f'_def)
    with M f' False len show ?thesis
      by (intro exI [of _ "r1 # M"] exI [of _ Q1] exI [of _ d1]) (auto simp: OffsetRange_length_def)
  qed
qed simp

lemma aend_view_last: "M \<noteq> [] \<Longrightarrow> aend p (view M) = endEx (last M)"
  by (induction M rule: rev_induct) auto

lemma wf_start_le_end: "wf p E \<Longrightarrow> r \<in> set E \<Longrightarrow> p \<le> start r \<and> start r \<le> endEx r"
  by (induction E arbitrary: p) force+

text \<open>The specification of one round of the outer loop.\<close>

definition step_spec :: "'r \<Rightarrow> int \<Rightarrow> int \<Rightarrow> 'r list \<Rightarrow> 'r list \<Rightarrow> int \<Rightarrow> int \<Rightarrow> 'r list \<Rightarrow> bool" where
  "step_spec r2 p d Q R p' d' Q' \<longleftrightarrow>
     p' + d' = endEx r2 \<and> p \<le> p' \<and> wf p R \<and> aend p (view R) = p' \<and> wf p' Q' \<and>
     (\<forall>xs. aend p (view Q) \<le> p + ilen xs \<and> endEx r2 \<le> p + d + ilen (app p (view Q) xs) \<longrightarrow>
        p' \<le> p + ilen xs \<and> aend p' (view Q') \<le> p + ilen xs \<and>
        apre p (view R) xs = itake (start r2 - (p + d)) (app p (view Q) xs) @ content r2 \<and>
        app p' (view Q') (idrop (p' - p) xs) = idrop (endEx r2 - (p + d)) (app p (view Q) xs))"

lemma delta_law:
  assumes "ok r" and "or_ok (rp_range ops r)"
  shows "\<exists>x. BaseReplacement_delta ops r n = Some x \<and> ok x \<and> start x = start r + n \<and>
    endEx x = endEx r + n \<and> content x = content r"
proof -
  let ?g = "MkOffsetRange (start r + n) (endEx r + n)"
  obtain x where "rp_slice ops r ?g (Some (MkOffsetRange 0 (ilen (content r)))) = Some x" "ok x"
    "rp_range ops x = ?g" "content x = content r"
    using slice_law [OF assms(1), of ?g 0 "ilen (content r)"] assms(2) by (auto simp: or_ok_def)
  then show ?thesis
    using assms newLength_content [OF assms(1)]
    by (auto simp: BaseReplacement_delta_def OffsetRange_delta_def or_ok_def)
qed

text \<open>No replacement of the queue touches \<open>r2\<close>.\<close>

lemma step_disjoint:
  assumes "wf p Q" and "Q \<noteq> [] \<longrightarrow> endEx r2 < start (hd Q) + d" and "p + d \<le> start r2"
    and r2: "ok r2" "start r2 \<le> endEx r2"
    and x: "ok x" "start x = start r2 - d" "endEx x = endEx r2 - d" "content x = content r2"
  shows "step_spec r2 p d Q [x] (endEx r2 - d) d Q"
proof -
  let ?p = "endEx r2 - d"
  have wf: "wf ?p Q" using assms(1,2) by (cases Q) auto
  show ?thesis unfolding step_spec_def
  proof (intro conjI allI impI)
    fix xs :: "'a list"
    assume "aend p (view Q) \<le> p + ilen xs \<and> endEx r2 \<le> p + d + ilen (app p (view Q) xs)"
    then have b: "aend p (view Q) \<le> p + ilen xs" "endEx r2 \<le> p + d + ilen (app p (view Q) xs)" by auto
    show le: "?p \<le> p + ilen xs"
    proof (cases "Q = []")
      case False
      then have "?p \<le> aend p (view Q)"
        using aend_ge [OF wf_achain [OF wf]] by (cases Q) auto
      with b show ?thesis by simp
    qed (use b in simp)
    have shift: "app p (view Q) xs = itake (?p - p) xs @ app ?p (view Q) (idrop (?p - p) xs)"
      using app_shift [of p ?p "view Q" xs] assms(3) r2(2) wf_achain [OF wf] le by simp
    show "aend ?p (view Q) \<le> p + ilen xs" using b le by (cases Q) auto
    have len: "ilen (itake (?p - p) xs) = ?p - p" using le assms(3) r2(2) by simp
    have take: "itake (start r2 - (p + d)) (itake (?p - p) xs) = itake (start r2 - (p + d)) xs"
      using r2(2) by (simp add: itake_itake)
    have none: "itake (start r2 - (p + d) - ilen (itake (?p - p) xs)) ys = []" for ys :: "'a list"
      unfolding len using r2(2) by simp
    have sx: "start x - p = start r2 - (p + d)" using x by simp
    show "apre p (view [x]) xs = itake (start r2 - (p + d)) (app p (view Q) xs) @ content r2"
      unfolding shift itake_append take none by (simp only: view_simps apre.simps x(4) sx append_Nil2)
    show "app ?p (view Q) (idrop (?p - p) xs) = idrop (endEx r2 - (p + d)) (app p (view Q) xs)"
    proof -
      have "idrop (endEx r2 - (p + d)) (itake (?p - p) xs) = []"
        by (rule idrop_all) (use len in linarith)
      then show ?thesis unfolding shift idrop_append len by (simp add: algebra_simps)
    qed
  qed (use wf assms x in auto)
qed

text \<open>
  Some do: what \<open>r2\<close> leaves of the first one becomes a replacement before \<open>m\<close>, the
  delta of \<open>r2\<close>, and what it leaves of the last one goes back to the queue.
\<close>

lemma touch_front:
  assumes "wf p (f # Q)" and "p + d \<le> start r2" and "start r2 \<le> start f + d + ilen (content f)"
    and b: "start f \<le> p + ilen xs"
    and P: "if start f + d < start r2
      then P = [x] \<and> start x = start f \<and> endEx x = start f \<and> content x = itake (start r2 - (start f + d)) (content f)
      else P = []"
    and m: "start m = min (start f) (start r2 - d)" "content m = content r2"
  shows "apre p (view (P @ [m])) xs = itake (start r2 - (p + d)) (app p (view (f # Q)) xs) @ content r2"
proof (cases "start f + d < start r2")
  case True
  let ?k = "start r2 - (start f + d)"
  have p: "p \<le> start f" using assms(1) by simp
  have len: "ilen (itake (start f - p) xs) = start f - p" using b p by simp
  have "itake (start r2 - (p + d)) (app p (view (f # Q)) xs) = itake (start f - p) xs @ itake ?k (content f)"
  proof -
    have 1: "itake (start r2 - (p + d)) (itake (start f - p) xs) = itake (start f - p) xs"
      using True by (simp add: itake_itake)
    have 2: "start r2 - (p + d) - ilen (itake (start f - p) xs) = ?k" unfolding len by simp
    have 3: "?k - ilen (content f) \<le> 0" using assms(3) by simp
    show ?thesis unfolding view_simps app.simps itake_append 1 2 using 3 by simp
  qed
  moreover from True m have "start m = start f" by simp
  ultimately show ?thesis using True P m by simp
next
  case False
  have 1: "itake (start r2 - (p + d)) (itake (start f - p) xs) = itake (start r2 - (p + d)) xs"
    using False by (simp add: itake_itake)
  have p: "p \<le> start f" using assms(1) by simp
  have 2: "start r2 - (p + d) - ilen (itake (start f - p) xs) \<le> 0"
    using b p False by simp
  have "itake (start r2 - (p + d)) (app p (view (f # Q)) xs) = itake (start r2 - (p + d)) xs"
    unfolding view_simps app.simps itake_append 1 using 2 by simp
  moreover have "start m - p = start r2 - (p + d)" using False m by simp
  moreover have "P = []" using False P by simp
  ultimately show ?thesis by (simp only: append_Nil view_simps apre.simps m(2) append_Nil2)
qed

lemma touch_back:
  assumes wf: "wf p (M @ Q1)" and "M \<noteq> []" and d1: "d1 = d + adelta (view M)"
    and last: "endEx (last M) + d1 - ilen (content (last M)) \<le> endEx r2"
    and Q1: "Q1 \<noteq> [] \<longrightarrow> endEx r2 < start (hd Q1) + d1"
    and b: "aend p (view (M @ Q1)) \<le> p + ilen xs"
    and e: "endEx r2 \<le> p + d + ilen (app p (view (M @ Q1)) xs)"
    and pd: "p + d \<le> endEx r2"
    and suffix: "if endEx r2 < endEx (last M) + d1
      then Q3 = x # Q1 \<and> start x = endEx (last M) \<and> endEx x = endEx (last M) \<and>
        content x = idrop (ilen (content (last M)) - (endEx (last M) + d1 - endEx r2)) (content (last M)) \<and>
        p' = endEx (last M)
      else Q3 = Q1 \<and> p' = endEx r2 - d1"
  shows "p' \<le> p + ilen xs \<and> aend p' (view Q3) \<le> p + ilen xs \<and>
    app p' (view Q3) (idrop (p' - p) xs) = idrop (endEx r2 - (p + d)) (app p (view (M @ Q1)) xs)"
proof -
  let ?l = "last M"
  let ?e = "endEx ?l"
  let ?Y = "idrop (?e - p) xs"
  have eM: "aend p (view M) = ?e" using \<open>M \<noteq> []\<close> by (rule aend_view_last)
  have wfM: "wf p M" and wfQ: "wf ?e Q1" using wf by (auto simp: wf_append eM)
  have pe: "p \<le> ?e" using aend_ge [OF wf_achain [OF wfM]] eM by simp
  have eQ: "?e \<le> aend ?e (view Q1)" using aend_ge [OF wf_achain [OF wfQ]] .
  have bQ: "aend ?e (view Q1) \<le> p + ilen xs" using b by (simp add: eM)
  with eQ have eb: "?e \<le> p + ilen xs" by simp
  have I: "app p (view (M @ Q1)) xs = apre p (view M) xs @ app ?e (view Q1) ?Y"
    using app_append [OF wf_achain [OF wfM]] by (simp add: eM)
  have lenM: "ilen (apre p (view M) xs) = ?e + d1 - (p + d)"
    using ilen_apre [OF wf_achain [OF wfM], of xs] eb eM d1 by simp
  have lenY: "ilen ?Y = p + ilen xs - ?e" using eb pe by simp
  show ?thesis
  proof (cases "endEx r2 < ?e + d1")
    case True
    let ?k = "?e + d1 - endEx r2"
    obtain B where B: "M = B @ [?l]" using \<open>M \<noteq> []\<close> by (metis append_butlast_last_id)
    then have "apre p (view M) xs = apre p (view (B @ [?l])) xs" by simp
    also have "\<dots> = apre p (view B) xs @ itake (start ?l - aend p (view B)) (idrop (aend p (view B) - p) xs) @ content ?l"
      using wfM B apre_append [of p "view B"] by (metis append_Nil2 apre.simps view_simps(1,2,3) wf_achain wf_append)
    finally obtain Z where Z: "apre p (view M) xs = Z @ content ?l" by force
    have lenZ: "ilen Z = ?e + d1 - (p + d) - ilen (content ?l)" using lenM unfolding Z by simp
    have cut: "endEx r2 - (p + d) - ilen Z = ilen (content ?l) - ?k" unfolding lenZ by simp
    have "idrop (endEx r2 - (p + d)) Z = []" by (rule idrop_all) (use lenZ last in linarith)
    moreover have "idrop (ilen (content ?l) - ?k - ilen (content ?l)) ys = ys" for ys :: "'a list"
      using True by simp
    ultimately have "idrop (endEx r2 - (p + d)) (app p (view (M @ Q1)) xs) =
      idrop (ilen (content ?l) - ?k) (content ?l) @ app ?e (view Q1) ?Y"
      unfolding I Z append_assoc idrop_append [of _ Z] cut idrop_append [of _ "content ?l"] by simp
    then show ?thesis using True suffix eb bQ by auto
  next
    case False
    let ?p = "endEx r2 - d1"
    have p': "p' = ?p" "Q3 = Q1" using False suffix by auto
    have wf': "wf ?p Q1" using wfQ Q1 by (cases Q1) auto
    have le: "?p \<le> p + ilen xs"
    proof (cases "Q1 = []")
      case True
      have "ilen (app p (view (M @ Q1)) xs) = ?e + d1 - (p + d) + ilen ?Y"
        unfolding I using lenM True by simp
      then show ?thesis using e lenY by simp
    next
      case False
      then have "?p \<le> aend ?e (view Q1)" using aend_ge [OF wf_achain [OF wf']] by (cases Q1) auto
      with bQ show ?thesis by simp
    qed
    have ep: "?e \<le> ?p" using False by simp
    have len: "ilen (itake (?p - ?e) ?Y) = ?p - ?e" using lenY le ep by simp
    have cut: "endEx r2 - (p + d) - ilen (apre p (view M) xs) = ?p - ?e" unfolding lenM by simp
    have "app ?e (view Q1) ?Y = itake (?p - ?e) ?Y @ app ?p (view Q1) (idrop (?p - ?e) ?Y)"
      using app_shift [OF ep wf_achain [OF wf'], of ?Y] lenY le by simp
    moreover have "idrop (?p - ?e) ?Y = idrop (?p - p) xs" using ep pe by (simp add: idrop_idrop algebra_simps)
    moreover have "idrop (endEx r2 - (p + d)) (apre p (view M) xs) = []"
      by (rule idrop_all) (use lenM False in linarith)
    ultimately have "idrop (endEx r2 - (p + d)) (app p (view (M @ Q1)) xs) =
      idrop (?p - ?e) (itake (?p - ?e) ?Y) @ idrop (?p - ?e - ilen (itake (?p - ?e) ?Y)) (app ?p (view Q1) (idrop (?p - p) xs))"
      unfolding I idrop_append cut by (simp add: idrop_append)
    also have "idrop (?p - ?e) (itake (?p - ?e) ?Y) = []" by (rule idrop_all) (use len in linarith)
    finally have "idrop (endEx r2 - (p + d)) (app p (view (M @ Q1)) xs) = app ?p (view Q1) (idrop (?p - p) xs)"
      unfolding len by simp
    moreover have "aend ?p (view Q1) \<le> p + ilen xs" using bQ le by (cases Q1) auto
    ultimately show ?thesis unfolding p' using le by simp
  qed
qed

lemma compose_prefix_correct:
  assumes "ok f" and "n \<le> ilen (content f)"
  shows "\<exists>P x. compose_prefix ops f s n res = Some (res @ P) \<and> (\<forall>r \<in> set P. ok r) \<and>
    (if 0 < n then P = [x] \<and> start x = s \<and> endEx x = s \<and> content x = itake n (content f) else P = [])"
proof (cases "0 < n")
  case True
  obtain x where "rp_slice ops f (MkOffsetRange s s) (Some (MkOffsetRange 0 n)) = Some x" "ok x"
    "rp_range ops x = MkOffsetRange s s" "content x = itake n (content f)"
    using slice_law [OF assms(1), of "MkOffsetRange s s" 0 n] assms(2) True by (auto simp: or_ok_def)
  with True show ?thesis
    by (intro exI [of _ "[x]"] exI [of _ x]) (simp add: compose_prefix_def OffsetRange_emptyAt_def)
qed (simp add: compose_prefix_def)

lemma compose_suffix_correct:
  assumes "ok l" and "n \<le> ilen (content l)"
  shows "\<exists>Q3 x. compose_suffix ops l n Q d = Some (Q3, if 0 < n then d - n else d) \<and>
    (if 0 < n then Q3 = x # Q \<and> ok x \<and> start x = endEx l \<and> endEx x = endEx l \<and>
       content x = idrop (ilen (content l) - n) (content l) else Q3 = Q)"
proof (cases "0 < n")
  case True
  let ?g = "MkOffsetRange (endEx l) (endEx l)"
  obtain x where x: "rp_slice ops l ?g (Some (MkOffsetRange (ilen (content l) - n) (ilen (content l)))) = Some x"
    "ok x" "rp_range ops x = ?g"
    "content x = itake (ilen (content l) - (ilen (content l) - n)) (idrop (ilen (content l) - n) (content l))"
    using slice_law [OF assms(1), of ?g "ilen (content l) - n" "ilen (content l)"] assms(2) True
    by (auto simp: or_ok_def)
  moreover from x(4) have c: "content x = idrop (ilen (content l) - n) (content l)"
    using assms(2) True by simp
  moreover have "rp_newLength ops x = n" using newLength_content [OF x(2)] c assms(2) True by simp
  ultimately show ?thesis using True newLength_content [OF assms(1)]
    by (intro exI [of _ "x # Q"] exI [of _ x])
      (simp add: compose_suffix_def OffsetRange_ofStartAndLength_def OffsetRange_length_def)
qed (simp add: compose_suffix_def)

lemma step_spec_copy:
  assumes wf: "wf p (C @ Q)" and p1: "p1 = aend p (view C)" and d1: "d1 = d + adelta (view C)"
    and "p1 + d1 \<le> start r2" and "start r2 \<le> endEx r2" and spec: "step_spec r2 p1 d1 Q R p' d' Q'"
  shows "step_spec r2 p d (C @ Q) (C @ R) p' d' Q'"
proof -
  have wfC: "wf p C" and wfQ: "wf p1 Q" using wf by (auto simp: wf_append p1)
  have pp: "p \<le> p1" using aend_ge [OF wf_achain [OF wfC]] by (simp add: p1)
  have s: "p' + d' = endEx r2" "p1 \<le> p'" "wf p1 R" "aend p1 (view R) = p'" "wf p' Q'"
    and ex: "\<And>ys. aend p1 (view Q) \<le> p1 + ilen ys \<Longrightarrow> endEx r2 \<le> p1 + d1 + ilen (app p1 (view Q) ys) \<Longrightarrow>
        p' \<le> p1 + ilen ys \<and> aend p' (view Q') \<le> p1 + ilen ys \<and>
        apre p1 (view R) ys = itake (start r2 - (p1 + d1)) (app p1 (view Q) ys) @ content r2 \<and>
        app p' (view Q') (idrop (p' - p1) ys) = idrop (endEx r2 - (p1 + d1)) (app p1 (view Q) ys)"
    using spec by (auto simp: step_spec_def)
  show ?thesis unfolding step_spec_def
  proof (intro conjI allI impI)
    show "p' + d' = endEx r2" "wf p' Q'" "p \<le> p'" using s pp by auto
    show "wf p (C @ R)" "aend p (view (C @ R)) = p'" using wfC s by (auto simp: wf_append p1)
    fix xs :: "'a list"
    assume *: "aend p (view (C @ Q)) \<le> p + ilen xs \<and> endEx r2 \<le> p + d + ilen (app p (view (C @ Q)) xs)"
    have b: "aend p1 (view Q) \<le> p + ilen xs" using * by (simp add: p1)
    then have p1b: "p1 \<le> p + ilen xs" using aend_ge [OF wf_achain [OF wfQ]] by simp
    let ?ys = "idrop (p1 - p) xs"
    have leny: "p1 + ilen ?ys = p + ilen xs" using pp p1b by simp
    have I: "app p (view (C @ Q)) xs = apre p (view C) xs @ app p1 (view Q) ?ys"
      using app_append [OF wf_achain [OF wfC]] by (simp add: p1)
    have lenC: "ilen (apre p (view C) xs) = p1 + d1 - (p + d)"
      using ilen_apre [OF wf_achain [OF wfC], of xs] p1b d1 p1 by simp
    have "endEx r2 \<le> p1 + d1 + ilen (app p1 (view Q) ?ys)"
      using * lenC unfolding I by simp
    from ex [of ?ys, unfolded leny, OF b this]
    have r: "p' \<le> p + ilen xs" "aend p' (view Q') \<le> p + ilen xs"
      "apre p1 (view R) ?ys = itake (start r2 - (p1 + d1)) (app p1 (view Q) ?ys) @ content r2"
      "app p' (view Q') (idrop (p' - p1) ?ys) = idrop (endEx r2 - (p1 + d1)) (app p1 (view Q) ?ys)" by auto
    show "p' \<le> p + ilen xs" "aend p' (view Q') \<le> p + ilen xs" by fact+
    have cut: "n - (p + d) - ilen (apre p (view C) xs) = n - (p1 + d1)" for n unfolding lenC by simp
    have "itake (start r2 - (p + d)) (apre p (view C) xs) = apre p (view C) xs"
      by (rule itake_all) (use lenC assms(4) in linarith)
    then show "apre p (view (C @ R)) xs = itake (start r2 - (p + d)) (app p (view (C @ Q)) xs) @ content r2"
      unfolding I itake_append cut
      using apre_append [OF wf_achain [OF wfC], of "view R" xs] r(3) by (simp add: p1)
    have "idrop (endEx r2 - (p + d)) (apre p (view C) xs) = []"
      by (rule idrop_all) (use lenC assms(4,5) in linarith)
    moreover have "idrop (p' - p1) ?ys = idrop (p' - p) xs" using pp s(2) by (simp add: idrop_idrop)
    ultimately show "app p' (view Q') (idrop (p' - p) xs) = idrop (endEx r2 - (p + d)) (app p (view (C @ Q)) xs)"
      unfolding I idrop_append cut using r(4) by simp
  qed
qed

lemma step_touch:
  assumes wf: "wf p (M @ Q1)" and M: "M \<noteq> []" and d1: "d1 = d + adelta (view M)"
    and f: "start (hd M) + d \<le> endEx r2" "start r2 \<le> start (hd M) + d + ilen (content (hd M))"
    and l: "endEx (last M) + d1 - ilen (content (last M)) \<le> endEx r2"
    and Q1: "Q1 \<noteq> [] \<longrightarrow> endEx r2 < start (hd Q1) + d1"
    and r2: "ok r2" "p + d \<le> start r2" "start r2 \<le> endEx r2"
  defines "s \<equiv> min (start (hd M)) (start r2 - d)"
  shows "\<exists>P Q3 d3 m. compose_prefix ops (hd M) s (start r2 - (start (hd M) + d)) res = Some (res @ P) \<and>
    compose_suffix ops (last M) (endEx (last M) + d1 - endEx r2) Q1 d1 = Some (Q3, d3) \<and> s \<le> endEx r2 - d3 \<and>
    rp_slice ops r2 (MkOffsetRange s (endEx r2 - d3)) (Some (MkOffsetRange 0 (rp_newLength ops r2))) = Some m \<and>
    step_spec r2 p d (M @ Q1) (P @ [m]) (endEx r2 - d3) d3 Q3"
proof -
  let ?f = "hd M" and ?l = "last M"
  let ?n = "endEx ?l + d1 - endEx r2"
  obtain M' where M': "M = ?f # M'" using M by (cases M) auto
  have wfM: "wf p M" using wf by (simp add: wf_append)
  then have okM: "\<forall>r \<in> set M. ok r" by (simp add: wf_def)
  have okf: "ok ?f" "ok ?l" using okM M by auto
  have pf: "p \<le> start ?f" using wfM M' by (metis wf_Cons)
  obtain P x where P: "compose_prefix ops ?f s (start r2 - (start ?f + d)) res = Some (res @ P)"
    "\<forall>r \<in> set P. ok r" "if start ?f + d < start r2 then P = [x] \<and> start x = s \<and> endEx x = s \<and>
      content x = itake (start r2 - (start ?f + d)) (content ?f) else P = []"
    using compose_prefix_correct [OF okf(1), of "start r2 - (start ?f + d)" s res] f(2) by auto
  obtain Q3 y where S: "compose_suffix ops ?l ?n Q1 d1 = Some (Q3, if 0 < ?n then d1 - ?n else d1)"
    "if 0 < ?n then Q3 = y # Q1 \<and> ok y \<and> start y = endEx ?l \<and> endEx y = endEx ?l \<and>
      content y = idrop (ilen (content ?l) - ?n) (content ?l) else Q3 = Q1"
    using compose_suffix_correct [OF okf(2), of ?n Q1 d1] l by auto
  define d3 where "d3 = (if 0 < ?n then d1 - ?n else d1)"
  let ?p = "endEx r2 - d3"
  have eM: "aend p (view M) = endEx ?l" using M by (rule aend_view_last)
  have sf: "start ?f \<le> endEx ?l"
  proof -
    have "wf (endEx ?f) M'" "start ?f \<le> endEx ?f" using wfM M' by (metis wf_Cons)+
    moreover have "aend p (view M) = aend (endEx ?f) (view M')" using M' by (metis aend.simps(2) view_simps(2))
    ultimately show ?thesis using aend_ge [OF wf_achain [of "endEx ?f" M']] eM by simp
  qed
  then have le: "s \<le> ?p" using f l by (auto simp: s_def d3_def)
  obtain m where m: "rp_slice ops r2 (MkOffsetRange s ?p) (Some (MkOffsetRange 0 (rp_newLength ops r2))) = Some m"
    "ok m" "rp_range ops m = MkOffsetRange s ?p" "content m = content r2"
    using slice_law [OF r2(1), of "MkOffsetRange s ?p" 0 "ilen (content r2)"] le newLength_content [OF r2(1)]
    by (auto simp: or_ok_def)
  have sP: "start ?f + d < start r2 \<Longrightarrow> s = start ?f" by (simp add: s_def)
  have ps: "p \<le> s" using pf r2 by (simp add: s_def)
  have wfQ: "wf (endEx ?l) Q1" using wf by (simp add: wf_append eM)
  have "step_spec r2 p d (M @ Q1) (P @ [m]) ?p d3 Q3" unfolding step_spec_def
  proof (intro conjI allI impI)
    show "?p + d3 = endEx r2" "p \<le> ?p" using le ps by auto
    show "wf p (P @ [m])" using P(2,3) m le ps by (auto split: if_splits)
    show "aend p (view (P @ [m])) = ?p" using m by simp
    show "wf ?p Q3" using S(2) wfQ Q1 by (cases Q1) (auto simp: d3_def split: if_splits)
    fix xs :: "'a list"
    assume "aend p (view (M @ Q1)) \<le> p + ilen xs \<and> endEx r2 \<le> p + d + ilen (app p (view (M @ Q1)) xs)"
    then have b: "aend p (view (M @ Q1)) \<le> p + ilen xs" "endEx r2 \<le> p + d + ilen (app p (view (M @ Q1)) xs)" by auto
    have "endEx ?l \<le> aend p (view (M @ Q1))" using aend_ge [OF wf_achain [OF wfQ]] eM by simp
    then have bf: "start ?f \<le> p + ilen xs" using b sf by simp
    have wf': "wf p (?f # M' @ Q1)" using wf M' by (metis append_Cons)
    have eq: "?f # M' @ Q1 = M @ Q1" using M' by (metis append_Cons)
    show "apre p (view (P @ [m])) xs = itake (start r2 - (p + d)) (app p (view (M @ Q1)) xs) @ content r2"
      using touch_front [OF wf' r2(2) f(2) bf, of P x m] P(3) m sP unfolding eq by (auto simp: s_def)
    have "if endEx r2 < endEx ?l + d1
      then Q3 = y # Q1 \<and> start y = endEx ?l \<and> endEx y = endEx ?l \<and>
        content y = idrop (ilen (content ?l) - ?n) (content ?l) \<and> ?p = endEx ?l
      else Q3 = Q1 \<and> ?p = endEx r2 - d1"
      using S(2) by (auto simp: d3_def split: if_splits)
    from touch_back [OF wf M d1 l Q1 b _ this] r2(2,3)
    show "?p \<le> p + ilen xs" "aend ?p (view Q3) \<le> p + ilen xs"
      "app ?p (view Q3) (idrop (?p - p) xs) = idrop (endEx r2 - (p + d)) (app p (view (M @ Q1)) xs)" by auto
  qed
  with P(1) S(1) m(1) le show ?thesis unfolding d3_def by blast
qed

lemma compose_step_correct:
  assumes wf: "wf p Q" and r2: "ok r2" "p + d \<le> start r2" "start r2 \<le> endEx r2"
  shows "\<exists>R p' d' Q'. compose_step ops r2 (Q, d, res) = Some (Q', d', res @ R) \<and> step_spec r2 p d Q R p' d' Q'"
proof -
  have okQ: "\<forall>r \<in> set Q. ok r" using wf by (simp add: wf_def)
  obtain C Q1 d1 where C: "compose_copy ops r2 Q d res = (Q1, d1, res @ C)" "Q = C @ Q1"
    "d1 = d + adelta (view C)" "C \<noteq> [] \<longrightarrow> endEx (last C) + d1 < start r2"
    "Q1 \<noteq> [] \<longrightarrow> start r2 \<le> start (hd Q1) + d1 + ilen (content (hd Q1))"
    using compose_copy_correct [OF okQ] by blast
  define p1 where "p1 = aend p (view C)"
  have wf1: "wf p1 Q1" and okQ1: "\<forall>r \<in> set Q1. ok r" using wf okQ by (auto simp: C(2) wf_append p1_def)
  have p1: "p1 + d1 \<le> start r2"
    using C(3,4) r2(2) by (cases "C = []") (auto simp: p1_def aend_view_last)
  obtain M Q2 d2 where M: "Q1 = M @ Q2" "d2 = d1 + adelta (view M)"
    "compose_intersect ops r2 Q1 d1 None None =
      (Q2, d2, (if (None :: 'r option) = None \<and> M \<noteq> [] then Some (hd M) else None), (if M = [] then None else Some (last M)))"
    "M \<noteq> [] \<longrightarrow> start (hd M) + d1 \<le> endEx r2 \<and> endEx (last M) + d2 - ilen (content (last M)) \<le> endEx r2"
    "Q2 \<noteq> [] \<longrightarrow> endEx r2 < start (hd Q2) + d2"
    using compose_intersect_correct [OF okQ1, of d1 r2 None None] by (elim exE conjE) (rule that)
  have lift: "step_spec r2 p d Q (C @ R) p' d' Q'" if "step_spec r2 p1 d1 Q1 R p' d' Q'" for R p' d' Q'
    using step_spec_copy [OF wf [unfolded C(2)] p1_def C(3) p1 r2(3) that] by (simp add: C(2))
  show ?thesis
  proof (cases "M = []")
    case True
    obtain x where x: "BaseReplacement_delta ops r2 (- d1) = Some x" "ok x" "start x = start r2 - d1"
      "endEx x = endEx r2 - d1" "content x = content r2"
      using delta_law [OF r2(1), of "- d1"] r2(3) by (auto simp: or_ok_def)
    have "step_spec r2 p1 d1 Q1 [x] (endEx r2 - d1) d1 Q1"
      by (rule step_disjoint) (use wf1 M True p1 r2 x in auto)
    from lift [OF this] True C(1) M x(1) show ?thesis
      by (intro exI [of _ "C @ [x]"]) (auto simp: compose_step_def)
  next
    case False
    have a: "start (hd M) + d1 \<le> endEx r2" "endEx (last M) + d2 - ilen (content (last M)) \<le> endEx r2"
      using M(4) False by auto
    have b: "start r2 \<le> start (hd M) + d1 + ilen (content (hd M))"
      using C(5) False by (simp add: M(1))
    from step_touch [OF wf1 [unfolded M(1)] False M(2) a(1) b a(2) M(5) r2(1) p1 r2(3), of "res @ C"]
    obtain P Q3 d3 m where
      "compose_prefix ops (hd M) (min (start (hd M)) (start r2 - d1)) (start r2 - (start (hd M) + d1)) (res @ C) =
         Some ((res @ C) @ P)"
      "compose_suffix ops (last M) (endEx (last M) + d2 - endEx r2) Q2 d2 = Some (Q3, d3)"
      "min (start (hd M)) (start r2 - d1) \<le> endEx r2 - d3"
      "rp_slice ops r2 (MkOffsetRange (min (start (hd M)) (start r2 - d1)) (endEx r2 - d3))
         (Some (MkOffsetRange 0 (rp_newLength ops r2))) = Some m"
      "step_spec r2 p1 d1 (M @ Q2) (P @ [m]) (endEx r2 - d3) d3 Q3"
      by blast
    moreover have "0 \<le> rp_newLength ops r2" using newLength_content [OF r2(1)] by simp
    ultimately show ?thesis using C(1) M(3) False lift [of "P @ [m]" "endEx r2 - d3" d3 Q3]
      by (intro exI [of _ "C @ P @ [m]"] exI [of _ "endEx r2 - d3"] exI [of _ d3] exI [of _ Q3])
        (simp add: compose_step_def Let_def M(1))
  qed
qed

lemma compose_loop_correct:
  assumes "wf p Q" and "wf (p + d) E"
  shows "\<exists>R Q' d'. compose_loop ops E (Q, d, res) = Some (Q', d', res @ R) \<and> wf p (R @ Q') \<and>
    (\<forall>xs. aend p (view Q) \<le> p + ilen xs \<and> aend (p + d) (view E) \<le> p + d + ilen (app p (view Q) xs) \<longrightarrow>
      aend p (view (R @ Q')) \<le> p + ilen xs \<and>
      app p (view (R @ Q')) xs = app (p + d) (view E) (app p (view Q) xs))"
  using assms
proof (induction E arbitrary: p d Q res)
  case (Cons r2 E)
  have r2: "ok r2" "p + d \<le> start r2" "start r2 \<le> endEx r2" "wf (endEx r2) E" using Cons.prems(2) by auto
  obtain R1 p1 d1 Q1 where step: "compose_step ops r2 (Q, d, res) = Some (Q1, d1, res @ R1)"
    and "step_spec r2 p d Q R1 p1 d1 Q1"
    using compose_step_correct [OF Cons.prems(1) r2(1-3)] by blast
  then have s: "p1 + d1 = endEx r2" "p \<le> p1" "wf p R1" "aend p (view R1) = p1" "wf p1 Q1"
    and ex: "\<And>xs. aend p (view Q) \<le> p + ilen xs \<Longrightarrow> endEx r2 \<le> p + d + ilen (app p (view Q) xs) \<Longrightarrow>
        p1 \<le> p + ilen xs \<and> aend p1 (view Q1) \<le> p + ilen xs \<and>
        apre p (view R1) xs = itake (start r2 - (p + d)) (app p (view Q) xs) @ content r2 \<and>
        app p1 (view Q1) (idrop (p1 - p) xs) = idrop (endEx r2 - (p + d)) (app p (view Q) xs)"
    by (auto simp: step_spec_def)
  obtain R Q' d' where IH: "compose_loop ops E (Q1, d1, res @ R1) = Some (Q', d', (res @ R1) @ R)" "wf p1 (R @ Q')"
    "\<And>ys. aend p1 (view Q1) \<le> p1 + ilen ys \<Longrightarrow> aend (p1 + d1) (view E) \<le> p1 + d1 + ilen (app p1 (view Q1) ys) \<Longrightarrow>
      aend p1 (view (R @ Q')) \<le> p1 + ilen ys \<and>
      app p1 (view (R @ Q')) ys = app (p1 + d1) (view E) (app p1 (view Q1) ys)"
    using Cons.IH [OF s(5), of d1 "res @ R1"] r2(4) s(1) by metis
  have "aend p (view ((R1 @ R) @ Q')) \<le> p + ilen xs \<and>
      app p (view ((R1 @ R) @ Q')) xs = app (p + d) (view (r2 # E)) (app p (view Q) xs)"
    if b: "aend p (view Q) \<le> p + ilen xs" "aend (p + d) (view (r2 # E)) \<le> p + d + ilen (app p (view Q) xs)" for xs
  proof -
    let ?I = "app p (view Q) xs" and ?ys = "idrop (p1 - p) xs"
    have e2: "endEx r2 \<le> p + d + ilen ?I" using b(2) aend_ge [OF wf_achain [OF r2(4)]] by simp
    note x = ex [OF b(1) e2]
    have ys: "p1 + ilen ?ys = p + ilen xs" using x s(2) by simp
    have I1: "app p1 (view Q1) ?ys = idrop (endEx r2 - (p + d)) ?I" using x by simp
    have "endEx r2 + ilen (idrop (endEx r2 - (p + d)) ?I) = p + d + ilen ?I" using e2 r2(2,3) by simp
    then have "aend (p1 + d1) (view E) \<le> p1 + d1 + ilen (app p1 (view Q1) ?ys)"
      unfolding s(1) I1 using b(2) by simp
    from IH(3) [OF _ this] ys x have IH': "aend p1 (view (R @ Q')) \<le> p + ilen xs"
      "app p1 (view (R @ Q')) ?ys = app (endEx r2) (view E) (idrop (endEx r2 - (p + d)) ?I)"
      by (simp_all add: s(1) I1)
    have "app p (view ((R1 @ R) @ Q')) xs = apre p (view R1) xs @ app p1 (view (R @ Q')) ?ys"
      using app_append [OF wf_achain [OF s(3)], of "view (R @ Q')" xs] by (simp add: s(4))
    with IH' x s(4) show ?thesis by simp
  qed
  moreover have "wf p ((R1 @ R) @ Q')" using s(3,4) IH(2) by (simp add: wf_append)
  ultimately show ?case using step IH(1)
    by (intro exI [of _ "R1 @ R"] exI [of _ Q'] exI [of _ d']) auto
qed auto

lemma compose_correct:
  assumes "wf 0 E1" and "wf 0 E2"
  shows "\<exists>E. BaseEdit_compose ops E1 E2 = Some E \<and> wf 0 E \<and>
    (\<forall>xs. aend 0 (view E1) \<le> ilen xs \<and> aend 0 (view E2) \<le> ilen (app 0 (view E1) xs) \<longrightarrow>
      aend 0 (view E) \<le> ilen xs \<and> app 0 (view E) xs = app 0 (view E2) (app 0 (view E1) xs))"
proof -
  obtain N1 where N1: "BaseEdit_normalize ops E1 = Some N1" "wf 0 N1" "aend 0 (view N1) \<le> aend 0 (view E1)"
    "\<And>xs. aend 0 (view E1) \<le> ilen xs \<Longrightarrow> app 0 (view N1) xs = app 0 (view E1) xs"
    using normalize_correct [OF assms(1)] by blast
  obtain N2 where N2: "BaseEdit_normalize ops E2 = Some N2" "wf 0 N2" "aend 0 (view N2) \<le> aend 0 (view E2)"
    "\<And>xs. aend 0 (view E2) \<le> ilen xs \<Longrightarrow> app 0 (view N2) xs = app 0 (view E2) xs"
    using normalize_correct [OF assms(2)] by blast
  show ?thesis
  proof (cases "N1 = [] \<or> N2 = []")
    case True
    then show ?thesis
    proof
      assume N: "N1 = []"
      have "xs = app 0 (view E1) xs" if "aend 0 (view E1) \<le> ilen xs" for xs
        using N1(4) [OF that] N by simp
      with N N1(1) N2 show ?thesis by (fastforce simp: BaseEdit_compose_def)
    next
      assume N: "N2 = []"
      have "ys = app 0 (view E2) ys" if "aend 0 (view E2) \<le> ilen ys" for ys
        using N2(4) [OF that] N by simp
      with N N1 N2(1,2) show ?thesis by (cases "N1 = []") (fastforce simp: BaseEdit_compose_def)+
    qed
  next
    case False
    obtain R Q d where loop: "compose_loop ops N2 (N1, 0, []) = Some (Q, d, R)" "wf 0 (R @ Q)"
      and ex: "\<And>xs. aend 0 (view N1) \<le> ilen xs \<Longrightarrow> aend 0 (view N2) \<le> ilen (app 0 (view N1) xs) \<Longrightarrow>
        aend 0 (view (R @ Q)) \<le> ilen xs \<and> app 0 (view (R @ Q)) xs = app 0 (view N2) (app 0 (view N1) xs)"
      using compose_loop_correct [of 0 N1 0 N2 "[]"] N1(2) N2(2) by auto
    obtain N where N: "BaseEdit_normalize ops (R @ Q) = Some N" "wf 0 N" "aend 0 (view N) \<le> aend 0 (view (R @ Q))"
      "\<And>xs. aend 0 (view (R @ Q)) \<le> ilen xs \<Longrightarrow> app 0 (view N) xs = app 0 (view (R @ Q)) xs"
      using normalize_correct [OF loop(2)] by blast
    have "BaseEdit_compose ops E1 E2 = Some N"
      using False N1(1) N2(1) loop N(1) by (simp add: BaseEdit_compose_def BaseEdit_new_wf)
    moreover have "aend 0 (view N) \<le> ilen xs \<and> app 0 (view N) xs = app 0 (view E2) (app 0 (view E1) xs)"
      if "aend 0 (view E1) \<le> ilen xs" "aend 0 (view E2) \<le> ilen (app 0 (view E1) xs)" for xs
      using ex [of xs] N(3) N(4) [of xs] N1(3) N1(4) [OF that(1)] N2(3) N2(4) [OF that(2)] that by simp
    ultimately show ?thesis using N(2) by blast
  qed
qed

end

text \<open>
  Replacements that always join when they touch: the normal form has no empty and no touching
  replacements. When a replacement is its range and content, over an alphabet with two letters,
  the normal form is canonical.
\<close>

locale joining_laws = replacement_laws ops content ok
  for ops :: "('r, 'z) repl_ops_scheme" and content :: "'r \<Rightarrow> 'a list" and ok :: "'r \<Rightarrow> bool" +
  assumes always_joins: "ok r \<Longrightarrow> ok q \<Longrightarrow> or_end (rp_range ops r) = or_start (rp_range ops q) \<Longrightarrow>
    rp_tryJoin ops r q \<noteq> Some None"
begin

lemma normalize_loop_agap:
  assumes "wf p (pending l @ E)"
    and "\<And>f. l = Some f \<Longrightarrow> start f < endEx f \<or> content f \<noteq> []"
    and "normalize_loop ops E l acc = Some (acc @ N)"
  shows "agap p (view N) \<and> (\<forall>f. l = Some f \<longrightarrow> N \<noteq> [] \<and> start (hd N) = start f)"
  using assms
proof (induction E arbitrary: p l acc N)
  case Nil
  then show ?case by (cases l) (auto simp: pending_def)
next
  case (Cons r E)
  have okr: "ok r" and len: "rp_newLength ops r = ilen (content r)"
    using Cons.prems(1) newLength_content by (auto simp: wf_append)
  show ?case
  proof (cases "rp_newLength ops r = 0 \<and> OffsetRange_length (rp_range ops r) = 0")
    case True
    have "wf p (pending l @ E)"
      using Cons.prems(1) True by (auto simp: wf_append OffsetRange_length_def intro: wf_mono)
    moreover have "normalize_loop ops E l acc = Some (acc @ N)" using True Cons.prems(3) by simp
    ultimately show ?thesis using Cons.IH [of p l acc N] Cons.prems(2) by blast
  next
    case False
    have ne: "start r < endEx r \<or> content r \<noteq> []"
      using False len Cons.prems(1) by (auto simp: wf_append OffsetRange_length_def)
    show ?thesis
    proof (cases l)
      case None
      with False have "normalize_loop ops (r # E) l acc = normalize_loop ops E (Some r) acc" by auto
      with None Cons.IH [of p "Some r" acc N] Cons.prems ne show ?thesis
        by (simp add: pending_def del: normalize_loop.simps)
    next
      case (Some f)
      have f: "ok f" "p \<le> start f" "start f \<le> endEx f" "wf (endEx f) (r # E)" "start f < endEx f \<or> content f \<noteq> []"
        using Cons.prems Some by (auto simp: pending_def)
      show ?thesis
      proof (cases "endEx f = start r")
        case True
        from tryJoin_law [OF f(1) okr True] always_joins [OF f(1) okr True]
        obtain j where j: "rp_tryJoin ops f r = Some (Some j)" "ok j" "start j = start f" "endEx j = endEx r"
          "content j = content f @ content r" by auto
        from False Some True j(1)
        have "normalize_loop ops (r # E) l acc = normalize_loop ops E (Some j) acc" by auto
        moreover have "wf p (pending (Some j) @ E)" "start j < endEx j \<or> content j \<noteq> []"
          using f j True by (auto simp: pending_def)
        ultimately show ?thesis
          using Cons.IH [of p "Some j" acc N] Cons.prems(3) j Some by auto
      next
        case sep: False
        from False Some sep
        have "normalize_loop ops (r # E) l acc = normalize_loop ops E (Some r) (acc @ [f])" by auto
        moreover obtain N' where N': "normalize_loop ops E (Some r) (acc @ [f]) = Some ((acc @ [f]) @ N')"
          using normalize_loop_correct [of "endEx f" "Some r" E "acc @ [f]"] f(4) by (auto simp: pending_def)
        ultimately have N: "N = f # N'" using Cons.prems(3) by simp
        have "agap (endEx f) (view N')" "N' \<noteq> []" "start (hd N') = start r"
          using Cons.IH [of "endEx f" "Some r" "acc @ [f]" N'] f(4) N' ne by (auto simp: pending_def)
        with N f sep Some show ?thesis by (cases N') auto
      qed
    qed
  qed
qed

lemma normalize_agap:
  assumes "wf 0 E" and "BaseEdit_normalize ops E = Some N"
  shows "agap 0 (view N)"
proof -
  obtain N' where N': "normalize_loop ops E None [] = Some N'" "wf 0 N'"
    using normalize_loop_correct [of 0 None E "[]"] assms(1) by (auto simp: pending_def)
  then have "N' = N" using assms(2) by (simp add: BaseEdit_normalize_def BaseEdit_new_wf)
  with normalize_loop_agap [of 0 None E "[]" N'] assms(1) N' show ?thesis by (simp add: pending_def)
qed

lemma compose_agap:
  assumes "wf 0 E1" and "wf 0 E2" and "BaseEdit_compose ops E1 E2 = Some E"
  shows "agap 0 (view E)"
proof -
  obtain N1 where N1: "BaseEdit_normalize ops E1 = Some N1" "wf 0 N1" "agap 0 (view N1)"
    using normalize_correct [OF assms(1)] normalize_agap [OF assms(1)] by metis
  obtain N2 where N2: "BaseEdit_normalize ops E2 = Some N2" "wf 0 N2" "agap 0 (view N2)"
    using normalize_correct [OF assms(2)] normalize_agap [OF assms(2)] by metis
  show ?thesis
  proof (cases "N1 = [] \<or> N2 = []")
    case True
    then show ?thesis using assms(3) N1 N2 by (auto simp: BaseEdit_compose_def split: if_splits)
  next
    case False
    obtain R Q d where loop: "compose_loop ops N2 (N1, 0, []) = Some (Q, d, R)" "wf 0 (R @ Q)"
      using compose_loop_correct [of 0 N1 0 N2 "[]"] N1(2) N2(2) by auto
    then have "BaseEdit_normalize ops (R @ Q) = Some E"
      using assms(3) False N1(1) N2(1) by (simp add: BaseEdit_compose_def BaseEdit_new_wf)
    then show ?thesis by (rule normalize_agap [OF loop(2)])
  qed
qed

end

locale canonical_laws = joining_laws ops content ok
  for ops :: "('r, 'z) repl_ops_scheme" and content :: "'r \<Rightarrow> 'a list" and ok :: "'r \<Rightarrow> bool" +
  assumes content_inj: "ok r \<Longrightarrow> ok q \<Longrightarrow> rp_range ops r = rp_range ops q \<Longrightarrow> content r = content q \<Longrightarrow> r = q"
    and two_letters: "\<exists>a b :: 'a. a \<noteq> b"
begin

lemma view_inj: "\<forall>r \<in> set E. ok r \<Longrightarrow> \<forall>r \<in> set F. ok r \<Longrightarrow> view E = view F \<Longrightarrow> E = F"
proof (induction E arbitrary: F)
  case (Cons r E)
  from Cons.prems(3) obtain q F' where F: "F = q # F'" "rp_range ops r = rp_range ops q"
    "content r = content q" "view E = view F'" by (cases F) auto
  then have "r = q" using content_inj Cons.prems(1,2) by simp
  moreover have "E = F'" using Cons.IH [of F'] Cons.prems(1,2) F by simp
  ultimately show ?case using F(1) by simp
qed (simp add: view_def)

lemma same_effect_equal:
  assumes "wf 0 E" and "wf 0 F" and "agap 0 (view E)" and "agap 0 (view F)"
    and "\<And>xs. n \<le> length xs \<Longrightarrow> app 0 (view E) xs = app 0 (view F) xs"
  shows "E = F"
proof -
  obtain a b :: 'a where ab: "a \<noteq> b" using two_letters by blast
  define m where "m = n + nat (aend 0 (view E)) + nat (aend 0 (view F))"
  have "view E = view F"
    by (rule agap_unique [OF assms(3,4) ab, of m]) (use assms(5) in \<open>auto simp: m_def\<close>)
  with view_inj assms(1,2) show ?thesis by (simp add: wf_def)
qed

lemma normalize_canonical:
  assumes "wf 0 E" and "wf 0 F"
  shows "BaseEdit_normalize ops E = BaseEdit_normalize ops F \<longleftrightarrow>
    (\<forall>xs. aend 0 (view E) \<le> ilen xs \<and> aend 0 (view F) \<le> ilen xs \<longrightarrow>
      app 0 (view E) xs = app 0 (view F) xs)"
proof -
  obtain M where M: "BaseEdit_normalize ops E = Some M" "wf 0 M" "agap 0 (view M)"
    "\<And>xs. aend 0 (view E) \<le> ilen xs \<Longrightarrow> app 0 (view M) xs = app 0 (view E) xs"
    using normalize_correct [OF assms(1)] normalize_agap [OF assms(1)] by metis
  obtain N where N: "BaseEdit_normalize ops F = Some N" "wf 0 N" "agap 0 (view N)"
    "\<And>xs. aend 0 (view F) \<le> ilen xs \<Longrightarrow> app 0 (view N) xs = app 0 (view F) xs"
    using normalize_correct [OF assms(2)] normalize_agap [OF assms(2)] by metis
  show ?thesis
  proof
    assume "BaseEdit_normalize ops E = BaseEdit_normalize ops F"
    with M(1,4) N(1,4) show "\<forall>xs. aend 0 (view E) \<le> ilen xs \<and> aend 0 (view F) \<le> ilen xs \<longrightarrow>
      app 0 (view E) xs = app 0 (view F) xs" by simp metis
  next
    assume *: "\<forall>xs. aend 0 (view E) \<le> ilen xs \<and> aend 0 (view F) \<le> ilen xs \<longrightarrow>
      app 0 (view E) xs = app 0 (view F) xs"
    have "M = N"
    proof (rule same_effect_equal [OF M(2) N(2) M(3) N(3)])
      fix xs :: "'a list" assume "nat (aend 0 (view E)) + nat (aend 0 (view F)) \<le> length xs"
      then have "aend 0 (view E) \<le> ilen xs" "aend 0 (view F) \<le> ilen xs" by linarith+
      with * M(4) N(4) show "app 0 (view M) xs = app 0 (view N) xs" by simp
    qed
    with M(1) N(1) show "BaseEdit_normalize ops E = BaseEdit_normalize ops F" by simp
  qed
qed

lemma compose_assoc:
  assumes "wf 0 E1" and "wf 0 E2" and "wf 0 E3"
  shows "\<exists>E12 E23 E. BaseEdit_compose ops E1 E2 = Some E12 \<and> BaseEdit_compose ops E2 E3 = Some E23 \<and>
    BaseEdit_compose ops E12 E3 = Some E \<and> BaseEdit_compose ops E1 E23 = Some E"
proof -
  obtain E12 where E12: "BaseEdit_compose ops E1 E2 = Some E12" "wf 0 E12"
    "\<And>xs. aend 0 (view E1) \<le> ilen xs \<Longrightarrow> aend 0 (view E2) \<le> ilen (app 0 (view E1) xs) \<Longrightarrow>
      aend 0 (view E12) \<le> ilen xs \<and> app 0 (view E12) xs = app 0 (view E2) (app 0 (view E1) xs)"
    using compose_correct [OF assms(1,2)] by blast
  obtain E23 where E23: "BaseEdit_compose ops E2 E3 = Some E23" "wf 0 E23"
    "\<And>xs. aend 0 (view E2) \<le> ilen xs \<Longrightarrow> aend 0 (view E3) \<le> ilen (app 0 (view E2) xs) \<Longrightarrow>
      aend 0 (view E23) \<le> ilen xs \<and> app 0 (view E23) xs = app 0 (view E3) (app 0 (view E2) xs)"
    using compose_correct [OF assms(2,3)] by blast
  obtain L where L: "BaseEdit_compose ops E12 E3 = Some L" "wf 0 L"
    "\<And>xs. aend 0 (view E12) \<le> ilen xs \<Longrightarrow> aend 0 (view E3) \<le> ilen (app 0 (view E12) xs) \<Longrightarrow>
      aend 0 (view L) \<le> ilen xs \<and> app 0 (view L) xs = app 0 (view E3) (app 0 (view E12) xs)"
    using compose_correct [OF E12(2) assms(3)] by blast
  obtain R where R: "BaseEdit_compose ops E1 E23 = Some R" "wf 0 R"
    "\<And>xs. aend 0 (view E1) \<le> ilen xs \<Longrightarrow> aend 0 (view E23) \<le> ilen (app 0 (view E1) xs) \<Longrightarrow>
      aend 0 (view R) \<le> ilen xs \<and> app 0 (view R) xs = app 0 (view E23) (app 0 (view E1) xs)"
    using compose_correct [OF assms(1) E23(2)] by blast
  define n where "n = nat (aend 0 (view E1)) + nat (aend 0 (view E2)) + nat (aend 0 (view E3)) +
    nat (- adelta (view E1)) + nat (- adelta (view E2))"
  have "L = R"
  proof (rule same_effect_equal [OF L(2) R(2)])
    show "agap 0 (view L)" using compose_agap [OF E12(2) assms(3) L(1)] .
    show "agap 0 (view R)" using compose_agap [OF assms(1) E23(2) R(1)] .
    fix xs :: "'a list" assume "n \<le> length xs"
    then have n: "aend 0 (view E1) \<le> ilen xs" "aend 0 (view E2) \<le> ilen xs + adelta (view E1)"
      "aend 0 (view E3) \<le> ilen xs + adelta (view E1) + adelta (view E2)"
      unfolding n_def by linarith+
    let ?ys = "app 0 (view E1) xs" and ?zs = "app 0 (view E2) (app 0 (view E1) xs)"
    have ly: "ilen ?ys = ilen xs + adelta (view E1)"
      using ilen_app [OF wf_achain [OF assms(1)], of xs] n by simp
    then have lz: "ilen ?zs = ilen xs + adelta (view E1) + adelta (view E2)"
      using ilen_app [OF wf_achain [OF assms(2)], of ?ys] n by simp
    have "app 0 (view L) xs = app 0 (view E3) ?zs"
      using E12(3) [of xs] L(3) [of xs] n ly lz by simp
    also have "\<dots> = app 0 (view R) xs"
      using E23(3) [of ?ys] R(3) [of xs] n ly lz by simp
    finally show "app 0 (view L) xs = app 0 (view R) xs" .
  qed
  with E12(1) E23(1) L(1) R(1) show ?thesis by blast
qed

end

section \<open>Offsets, new ranges and splitting\<close>

context replacement_laws
begin

lemma lengthDelta_view: "ok r \<Longrightarrow> BaseReplacement_getLengthDelta ops r = ilen (content r) - (endEx r - start r)"
  by (simp add: BaseReplacement_getLengthDelta_def OffsetRange_length_def newLength_content)

lemma getLengthDelta_view: "\<forall>r \<in> set E. ok r \<Longrightarrow> BaseEdit_getLengthDelta ops E = adelta (view E)"
proof -
  assume "\<forall>r \<in> set E. ok r"
  then have "(\<Sum>r\<leftarrow>E. BaseReplacement_getLengthDelta ops r) = adelta (view E)"
    by (induction E) (simp_all add: lengthDelta_view)
  then show ?thesis by (simp add: BaseEdit_getLengthDelta_def foldl_plus_sum_list)
qed

lemma getNewDataLength_correct:
  "wf 0 E \<Longrightarrow> aend 0 (view E) \<le> ilen xs \<Longrightarrow>
    BaseEdit_getNewDataLength ops E (ilen xs) = ilen (app 0 (view E) xs)"
  using ilen_app [OF wf_achain, of 0 E xs]
  by (simp add: BaseEdit_getNewDataLength_def getLengthDelta_view wf_def)

lemma getNewRanges_loop_correct:
  assumes "wf p E" and "aend p (view E) \<le> p + ilen xs"
  shows "\<exists>gs. getNewRanges_loop ops E d acc = Some (acc @ gs) \<and>
    list_all2 (\<lambda>g r. p + d \<le> or_start g \<and> or_end g - or_start g = ilen (content r) \<and>
      itake (ilen (content r)) (idrop (or_start g - (p + d)) (app p (view E) xs)) = content r) gs E"
  using assms
proof (induction E arbitrary: p d acc xs)
  case (Cons r E)
  have r: "ok r" "p \<le> start r" "start r \<le> endEx r" "wf (endEx r) E" using Cons.prems(1) by auto
  let ?d = "d + BaseReplacement_getLengthDelta ops r"
  let ?g = "MkOffsetRange (start r + d) (start r + d + ilen (content r))"
  let ?ys = "idrop (endEx r - p) xs"
  have le: "endEx r \<le> aend (endEx r) (view E)" using aend_ge [OF wf_achain [OF r(4)]] .
  then have "aend (endEx r) (view E) \<le> endEx r + ilen ?ys" using Cons.prems(2) r by simp
  then obtain gs where gs: "getNewRanges_loop ops E ?d (acc @ [?g]) = Some ((acc @ [?g]) @ gs)"
    "list_all2 (\<lambda>g r'. endEx r + ?d \<le> or_start g \<and> or_end g - or_start g = ilen (content r') \<and>
      itake (ilen (content r')) (idrop (or_start g - (endEx r + ?d)) (app (endEx r) (view E) ?ys)) = content r') gs E"
    using Cons.IH [OF r(4)] by blast
  have len: "ilen (itake (start r - p) xs) = start r - p"
    using Cons.prems(2) r le by simp
  have d: "endEx r + ?d = start r + d + ilen (content r)" using r(1) by (simp add: lengthDelta_view)
  have "list_all2 (\<lambda>g r'. p + d \<le> or_start g \<and> or_end g - or_start g = ilen (content r') \<and>
      itake (ilen (content r')) (idrop (or_start g - (p + d)) (app p (view (r # E)) xs)) = content r') gs E"
    using gs(2)
  proof (rule list_all2_mono, elim conjE, intro conjI)
    fix g r'
    assume g: "endEx r + ?d \<le> or_start g"
      "itake (ilen (content r')) (idrop (or_start g - (endEx r + ?d)) (app (endEx r) (view E) ?ys)) = content r'"
    show "p + d \<le> or_start g" using g(1) r(2) unfolding d by simp
    let ?k = "or_start g - (p + d)"
    have "idrop ?k (app p (view (r # E)) xs) =
        idrop ?k (itake (start r - p) xs @ content r) @
        idrop (?k - ilen (itake (start r - p) xs @ content r)) (app (endEx r) (view E) ?ys)"
      using idrop_append [of ?k "itake (start r - p) xs @ content r"] by simp
    also have "ilen (itake (start r - p) xs @ content r) = start r - p + ilen (content r)" using len by simp
    also have "idrop ?k (itake (start r - p) xs @ content r) = []"
      by (rule idrop_all) (use g(1) len d in simp)
    also have "?k - (start r - p + ilen (content r)) = or_start g - (endEx r + ?d)" unfolding d by simp
    finally show "itake (ilen (content r')) (idrop ?k (app p (view (r # E)) xs)) = content r'" using g(2) by simp
  qed
  moreover have "itake (ilen (content r)) (idrop (start r - p) (app p (view (r # E)) xs)) = content r"
    using len by (simp add: idrop_append itake_append del: ilen_itake)
  ultimately show ?case using gs(1) r newLength_content [OF r(1)]
    by (intro exI [of _ "?g # gs"]) (simp add: OffsetRange_ofStartAndLength_def)
qed simp

text \<open>An offset outside the replaced ranges moves with its element; \<open>applyToOffset\<close> is monotone.\<close>

lemma applyToOffset_loop_ge:
  assumes "wf p E" and "p \<le> n"
  shows "p + d \<le> applyToOffset_loop ops E n d"
  using assms
proof (induction E arbitrary: p d)
  case (Cons r E)
  have r: "ok r" "p \<le> start r" "start r \<le> endEx r" "wf (endEx r) E" using Cons.prems(1) by auto
  show ?case
  proof (cases "start r \<le> n \<and> endEx r \<le> n")
    case True
    let ?d = "d + (rp_newLength ops r - OffsetRange_length (rp_range ops r))"
    have "endEx r + ?d \<le> applyToOffset_loop ops E n ?d" using Cons.IH [OF r(4)] True by simp
    with True r newLength_content [OF r(1)] show ?thesis by (simp add: OffsetRange_length_def)
  qed (use r Cons.prems in auto)
qed simp

lemma applyToOffset_loop_mono:
  assumes "wf p E" and "m \<le> n"
  shows "applyToOffset_loop ops E m d \<le> applyToOffset_loop ops E n d"
  using assms
proof (induction E arbitrary: p d)
  case (Cons r E)
  have r: "ok r" "start r \<le> endEx r" "wf (endEx r) E" using Cons.prems(1) by auto
  let ?d = "d + (rp_newLength ops r - OffsetRange_length (rp_range ops r))"
  consider "n < start r" | "start r \<le> m" "endEx r \<le> m" | "start r \<le> n" "n < endEx r"
    | "m < endEx r" "endEx r \<le> n" using Cons.prems(2) r by linarith
  then show ?case
  proof cases
    case 4
    have "endEx r + ?d \<le> applyToOffset_loop ops E n ?d" using applyToOffset_loop_ge [OF r(3)] 4 by blast
    with 4 r newLength_content [OF r(1)] show ?thesis by (simp add: OffsetRange_length_def)
  qed (use Cons r in auto)
qed simp

lemma applyToOffset_mono: "wf p E \<Longrightarrow> m \<le> n \<Longrightarrow> BaseEdit_applyToOffset ops E m \<le> BaseEdit_applyToOffset ops E n"
  by (simp add: BaseEdit_applyToOffset_def applyToOffset_loop_mono)

lemma applyToOffsetOrUndefined_loop_agrees:
  "applyToOffsetOrUndefined_loop ops E n d = Some m \<Longrightarrow> applyToOffset_loop ops E n d = m"
  by (induction E arbitrary: d) (auto split: if_splits)

lemma applyToOffsetOrUndefined_loop_None:
  assumes "wf p E"
  shows "applyToOffsetOrUndefined_loop ops E n d = None \<longleftrightarrow> (\<exists>r \<in> set E. OffsetRange_contains (rp_range ops r) n)"
  using assms
proof (induction E arbitrary: p d)
  case (Cons r E)
  have r: "start r \<le> endEx r" "wf (endEx r) E" using Cons.prems by auto
  have ge: "endEx r \<le> start q" if "q \<in> set E" for q using wf_start_le_end [OF r(2) that] by simp
  consider "n < start r" | "start r \<le> n" "n < endEx r" | "endEx r \<le> n" by linarith
  then show ?case
  proof cases
    case 1
    then show ?thesis using ge r by (force simp: or_set_def)
  next
    case 2
    then show ?thesis by (auto simp: or_set_def)
  next
    case 3
    then show ?thesis using Cons.IH [OF r(2)] r by (auto simp: or_set_def)
  qed
qed simp

lemma applyToOffset_loop_element:
  assumes "wf p E" and "p \<le> n" and "n < p + ilen xs" and "aend p (view E) \<le> p + ilen xs"
    and "applyToOffsetOrUndefined_loop ops E n d = Some m"
  shows "p + d \<le> m \<and> nat (m - (p + d)) < length (app p (view E) xs) \<and>
    app p (view E) xs ! nat (m - (p + d)) = xs ! nat (n - p)"
  using assms
proof (induction E arbitrary: p d xs)
  case Nil
  then show ?case by auto
next
  case (Cons r E)
  have r: "ok r" "p \<le> start r" "start r \<le> endEx r" "wf (endEx r) E" using Cons.prems(1) by auto
  have le: "endEx r \<le> aend (endEx r) (view E)" using aend_ge [OF wf_achain [OF r(4)]] .
  have len: "ilen (itake (start r - p) xs) = start r - p" using Cons.prems(4) r le by simp
  show ?case
  proof (cases "start r \<le> n")
    case True
    then have n: "endEx r \<le> n" using Cons.prems(5) by (auto split: if_splits)
    let ?d = "d + (rp_newLength ops r - OffsetRange_length (rp_range ops r))"
    let ?ys = "idrop (endEx r - p) xs"
    let ?A = "itake (start r - p) xs @ content r"
    have lA: "ilen ?A = start r - p + ilen (content r)" using len by simp
    have d: "endEx r + ?d = p + d + ilen ?A" unfolding lA using newLength_content [OF r(1)]
      by (simp add: OffsetRange_length_def)
    have ly: "endEx r + ilen ?ys = p + ilen xs" using Cons.prems(4) le r by simp
    have IH: "endEx r + ?d \<le> m" "nat (m - (endEx r + ?d)) < length (app (endEx r) (view E) ?ys)"
      "app (endEx r) (view E) ?ys ! nat (m - (endEx r + ?d)) = ?ys ! nat (n - endEx r)"
      using Cons.IH [OF r(4) n, of ?ys ?d] Cons.prems True n ly by auto
    have split: "app p (view (r # E)) xs = ?A @ app (endEx r) (view E) ?ys" by simp
    have idx: "nat (m - (p + d)) = length ?A + nat (m - (endEx r + ?d))"
      using IH(1) unfolding d by linarith
    have "?ys ! nat (n - endEx r) = xs ! nat (n - p)"
      using n r Cons.prems(3) by (simp add: idrop_def nat_diff_distrib' flip: nat_add_distrib)
    moreover have "p + d \<le> m" using IH(1) unfolding d by linarith
    ultimately show ?thesis
      using IH(2,3) unfolding split idx nth_append_length_plus length_append [of ?A] by simp
  next
    case False
    then have m: "m = n + d" using Cons.prems(5) by simp
    have "nat (n - p) < length (itake (start r - p) xs)" using len False Cons.prems(2) by linarith
    moreover have "itake (start r - p) xs ! nat (n - p) = xs ! nat (n - p)"
      using False Cons.prems(2) by (simp add: itake_def)
    ultimately show ?thesis using m Cons.prems(2) by (simp add: nth_append)
  qed
qed

text \<open>\<open>decomposeSplit\<close>: the replacements that were not picked are moved behind the picked ones.\<close>

lemma decomposeSplit_loop_correct:
  assumes "wf p E"
  shows "\<exists>B. decomposeSplit_loop ops inE1 E d e1 e2 = Some (e1 @ filter inE1 E, e2 @ B) \<and> (\<forall>r \<in> set B. ok r) \<and>
    view B = moved d (map (\<lambda>r. (inE1 r, (rp_range ops r, content r))) E)"
  using assms
proof (induction E arbitrary: p d e1 e2)
  case (Cons r E)
  have r: "ok r" "start r \<le> endEx r" "wf (endEx r) E" using Cons.prems(1) by auto
  have len: "rp_newLength ops r = ilen (content r)" by (rule newLength_content [OF r(1)])
  obtain x where x: "BaseReplacement_delta ops r d = Some x" "ok x" "start x = start r + d"
    "endEx x = endEx r + d" "content x = content r"
    using delta_law [OF r(1)] r(2) by (auto simp: or_ok_def)
  have "rp_range ops x = MkOffsetRange (start r + d) (endEx r + d)" using x by (simp add: offset_range.expand)
  with x len Cons.IH [OF r(3), of "d + (ilen (content r) - OffsetRange_length (rp_range ops r))" "e1 @ [r]" e2]
    Cons.IH [OF r(3), of d e1 "e2 @ [x]"]
  show ?case by (auto simp: OffsetRange_length_def)
qed simp

lemma decomposeSplit_correct:
  assumes "wf 0 E"
  shows "\<exists>A B. BaseEdit_decomposeSplit ops inE1 E = Some (A, B) \<and> A = filter inE1 E \<and> wf 0 A \<and> wf 0 B \<and>
    aend 0 (view A) \<le> aend 0 (view E) \<and>
    (\<forall>xs. aend 0 (view E) \<le> ilen xs \<longrightarrow> aend 0 (view B) \<le> ilen (app 0 (view A) xs) \<and>
      app 0 (view B) (app 0 (view A) xs) = app 0 (view E) xs)"
proof -
  let ?M = "map (\<lambda>r. (inE1 r, (rp_range ops r, content r))) E"
  have M: "map snd ?M = view E" by (simp add: view_def)
  have A: "view (filter inE1 E) = picked ?M" by (induction E) auto
  obtain B where B: "decomposeSplit_loop ops inE1 E 0 [] [] = Some (filter inE1 E, B)" "\<forall>r \<in> set B. ok r"
    "view B = moved 0 ?M"
    using decomposeSplit_loop_correct [OF assms, of inE1 0 "[]" "[]"] by auto
  note split = split_correct [of 0 ?M 0, unfolded M, OF wf_achain [OF assms]]
  have wfA: "wf 0 (filter inE1 E)" and wfB: "wf 0 B"
    using assms B(2) split by (auto simp: wf_def A B(3))
  then have "BaseEdit_decomposeSplit ops inE1 E = Some (filter inE1 E, B)"
    by (simp add: BaseEdit_decomposeSplit_def B(1) BaseEdit_new_wf)
  then show ?thesis using wfA wfB split by (auto simp: A B(3))
qed

end

section \<open>Annotated lengths\<close>

definition annotation_content :: "'d annotation_replacement \<Rightarrow> 'd list" where
  "annotation_content r = replicate (nat (ar_newLength r)) (ar_annotation r)"

definition annotation_ok :: "'d annotation_replacement \<Rightarrow> bool" where
  "annotation_ok r \<longleftrightarrow> or_ok (ar_range r) \<and> 0 \<le> ar_newLength r"

interpretation annotation_edit: replacement_laws annotation_ops annotation_content annotation_ok
proof
  fix r q :: "'d annotation_replacement"
  assume r: "annotation_ok r"
  show "rp_newLength annotation_ops r = ilen (annotation_content r)"
    using r by (simp add: annotation_ops_def annotation_content_def annotation_ok_def)
  assume "annotation_ok q" "or_end (rp_range annotation_ops r) = or_start (rp_range annotation_ops q)"
  with r show "rp_tryJoin annotation_ops r q = Some None \<or>
      (\<exists>j. rp_tryJoin annotation_ops r q = Some (Some j) \<and> annotation_ok j \<and>
        or_start (rp_range annotation_ops j) = or_start (rp_range annotation_ops r) \<and>
        or_end (rp_range annotation_ops j) = or_end (rp_range annotation_ops q) \<and>
        annotation_content j = annotation_content r @ annotation_content q)"
    by (auto simp: annotation_ops_def annotation_content_def annotation_ok_def or_ok_def
        AnnotationReplacement_tryJoinTouching_def OffsetRange_joinRightTouching_def nat_add_distrib replicate_add)
next
  fix r :: "'d annotation_replacement" and g a b
  assume "annotation_ok r" "or_ok g" "0 \<le> a" "a \<le> b" "b \<le> ilen (annotation_content r)"
  then show "\<exists>x. rp_slice annotation_ops r g (Some (MkOffsetRange a b)) = Some x \<and> annotation_ok x \<and>
      rp_range annotation_ops x = g \<and>
      annotation_content x = itake (b - a) (idrop a (annotation_content r))"
    by (auto simp: annotation_ops_def annotation_content_def annotation_ok_def AnnotationReplacement_slice_def
        min_def)
qed

end
