(* ===== verification/StringEdits.thy ===== *)
theory StringEdits
  imports Edits
begin

text \<open>
  \<open>vs/editor/common/core/edits/stringEdit.ts\<close>, \<open>arrayEdit.ts\<close> and \<open>lengthEdit.ts\<close>: the
  concrete edits, with \<open>commonPrefixLength\<close> and \<open>commonSuffixLength\<close> of
  \<open>vs/base/common/strings.ts\<close>. The methods of the abstract \<open>BaseStringEdit\<close> and
  \<open>BaseStringReplacement\<close> take the operations of the subclass, extended by the field
  \<open>newText\<close>, as their first argument. Each concrete kind of replacement gives its operations
  and interprets the laws of \<open>Edits\<close>. \<open>StringEdit.parse\<close> and the \<open>toString\<close> methods are
  not modelled.
\<close>

section \<open>Common prefixes and suffixes of strings\<close>

function commonPrefixLength_loop :: "js_string \<Rightarrow> js_string \<Rightarrow> nat \<Rightarrow> nat \<Rightarrow> nat" where
  "commonPrefixLength_loop a b len i =
     (if i < len then if a ! i \<noteq> b ! i then i else commonPrefixLength_loop a b len (i + 1) else len)"
  by pat_completeness auto
termination by (relation "measure (\<lambda>(a, b, len, i). len - i)") auto

definition commonPrefixLength :: "js_string \<Rightarrow> js_string \<Rightarrow> nat" where
  "commonPrefixLength a b = commonPrefixLength_loop a b (min (length a) (length b)) 0"

function commonSuffixLength_loop :: "js_string \<Rightarrow> js_string \<Rightarrow> nat \<Rightarrow> nat \<Rightarrow> nat" where
  "commonSuffixLength_loop a b len i =
     (if i < len
      then if a ! (length a - 1 - i) \<noteq> b ! (length b - 1 - i) then i
           else commonSuffixLength_loop a b len (i + 1)
      else len)"
  by pat_completeness auto
termination by (relation "measure (\<lambda>(a, b, len, i). len - i)") auto

definition commonSuffixLength :: "js_string \<Rightarrow> js_string \<Rightarrow> nat" where
  "commonSuffixLength a b = commonSuffixLength_loop a b (min (length a) (length b)) 0"

declare commonPrefixLength_loop.simps [simp del] commonSuffixLength_loop.simps [simp del]

section \<open>StringReplacement\<close>

record 'r string_repl_ops = "'r repl_ops" +
  rp_newText :: "'r \<Rightarrow> js_string"

datatype string_replacement = MkStringReplacement (sr_range: offset_range) (sr_newText: js_string)

definition StringReplacement_insert :: "int \<Rightarrow> js_string \<Rightarrow> string_replacement option" where
  "StringReplacement_insert offset t = do {
     g \<leftarrow> OffsetRange_emptyAt offset; Some (MkStringReplacement g t) }"

definition StringReplacement_replace :: "offset_range \<Rightarrow> js_string \<Rightarrow> string_replacement" where
  "StringReplacement_replace g t = MkStringReplacement g t"

definition StringReplacement_delete :: "offset_range \<Rightarrow> string_replacement" where
  "StringReplacement_delete g = MkStringReplacement g []"

definition StringReplacement_equals :: "string_replacement \<Rightarrow> string_replacement \<Rightarrow> bool" where
  "StringReplacement_equals a b \<longleftrightarrow>
     OffsetRange_equals (sr_range a) (sr_range b) \<and> sr_newText a = sr_newText b"

definition StringReplacement_tryJoinTouching ::
  "string_replacement \<Rightarrow> string_replacement \<Rightarrow> string_replacement option option" where
  "StringReplacement_tryJoinTouching a b = do {
     g \<leftarrow> OffsetRange_joinRightTouching (sr_range a) (sr_range b);
     Some (Some (MkStringReplacement g (sr_newText a @ sr_newText b)))
   }"

definition StringReplacement_slice ::
  "string_replacement \<Rightarrow> offset_range \<Rightarrow> offset_range option \<Rightarrow> string_replacement option" where
  "StringReplacement_slice r g rangeInReplacement =
     Some (MkStringReplacement g
       (case rangeInReplacement of None \<Rightarrow> sr_newText r | Some q \<Rightarrow> OffsetRange_substring q (sr_newText r)))"

definition string_ops :: "string_replacement string_repl_ops" where
  "string_ops = \<lparr> rp_range = sr_range, rp_newLength = (\<lambda>r. ilen (sr_newText r)),
     rp_tryJoin = StringReplacement_tryJoinTouching, rp_slice = StringReplacement_slice,
     rp_equals = StringReplacement_equals, rp_newText = sr_newText \<rparr>"

type_synonym string_edit = "string_replacement list"

text \<open>\<open>ISerializedStringReplacement\<close>: the text, the start and the length of the range.\<close>

datatype serialized_replacement = MkSerialized (ser_txt: js_string) (ser_pos: int) (ser_len: int)

definition StringReplacement_fromJson :: "serialized_replacement \<Rightarrow> string_replacement option" where
  "StringReplacement_fromJson d = do {
     g \<leftarrow> OffsetRange_ofStartAndLength (ser_pos d) (ser_len d);
     Some (MkStringReplacement g (ser_txt d))
   }"

definition StringEdit_new :: "string_replacement list \<Rightarrow> string_edit option" where
  "StringEdit_new rs = BaseEdit_new string_ops rs"

section \<open>BaseStringReplacement\<close>

definition BaseStringReplacement_replace :: "('r, 'z) string_repl_ops_scheme \<Rightarrow> 'r \<Rightarrow> js_string \<Rightarrow> js_string" where
  "BaseStringReplacement_replace ops r str =
     js_substring str 0 (or_start (rp_range ops r)) @ rp_newText ops r @
     js_substring_from str (or_end (rp_range ops r))"

definition BaseStringReplacement_isNeutralOn :: "('r, 'z) string_repl_ops_scheme \<Rightarrow> 'r \<Rightarrow> js_string \<Rightarrow> bool" where
  "BaseStringReplacement_isNeutralOn ops r t \<longleftrightarrow>
     rp_newText ops r = js_substring t (or_start (rp_range ops r)) (or_end (rp_range ops r))"

definition BaseStringReplacement_removeCommonSuffixPrefix ::
  "('r, 'z) string_repl_ops_scheme \<Rightarrow> 'r \<Rightarrow> js_string \<Rightarrow> string_replacement option" where
  "BaseStringReplacement_removeCommonSuffixPrefix ops r originalText =
     (let oldText = js_substring originalText (or_start (rp_range ops r)) (or_end (rp_range ops r));
          t = rp_newText ops r;
          prefixLen = int (commonPrefixLength oldText t);
          suffixLen = min (min (ilen oldText - prefixLen) (ilen t - prefixLen)) (int (commonSuffixLength oldText t))
      in do {
        g \<leftarrow> OffsetRange_new (or_start (rp_range ops r) + prefixLen) (or_end (rp_range ops r) - suffixLen);
        Some (MkStringReplacement g (js_substring t prefixLen (ilen t - suffixLen)))
      })"

text \<open>\<open>newText.replace(/\\r\\n|\\n/g, eol)\<close>.\<close>

fun replace_eol :: "js_string \<Rightarrow> js_string \<Rightarrow> js_string" where
  "replace_eol eol [] = []"
| "replace_eol eol [c] = (if c = LF then eol else [c])"
| "replace_eol eol (c # d # cs) =
     (if c = CR \<and> d = LF then eol @ replace_eol eol cs
      else if c = LF then eol @ replace_eol eol (d # cs)
      else c # replace_eol eol (d # cs))"

definition BaseStringReplacement_normalizeEOL ::
  "('r, 'z) string_repl_ops_scheme \<Rightarrow> 'r \<Rightarrow> js_string \<Rightarrow> string_replacement" where
  "BaseStringReplacement_normalizeEOL ops r eol =
     MkStringReplacement (rp_range ops r) (replace_eol eol (rp_newText ops r))"

definition BaseStringReplacement_removeCommonPrefix ::
  "('r, 'z) string_repl_ops_scheme \<Rightarrow> 'r \<Rightarrow> js_string \<Rightarrow> 'r option" where
  "BaseStringReplacement_removeCommonPrefix ops r source =
     (let oldText = OffsetRange_substring (rp_range ops r) source;
          prefixLen = commonPrefixLength oldText (rp_newText ops r)
      in if prefixLen = 0 then Some r
         else do {
           g \<leftarrow> OffsetRange_deltaStart (rp_range ops r) (int prefixLen);
           q \<leftarrow> OffsetRange_new (int prefixLen) (ilen (rp_newText ops r));
           rp_slice ops r g (Some q)
         })"

definition BaseStringReplacement_removeCommonSuffix ::
  "('r, 'z) string_repl_ops_scheme \<Rightarrow> 'r \<Rightarrow> js_string \<Rightarrow> 'r option" where
  "BaseStringReplacement_removeCommonSuffix ops r source =
     (let oldText = OffsetRange_substring (rp_range ops r) source;
          suffixLen = commonSuffixLength oldText (rp_newText ops r)
      in if suffixLen = 0 then Some r
         else do {
           g \<leftarrow> OffsetRange_deltaEnd (rp_range ops r) (- int suffixLen);
           q \<leftarrow> OffsetRange_new 0 (ilen (rp_newText ops r) - int suffixLen);
           rp_slice ops r g (Some q)
         })"

definition BaseStringReplacement_removeCommonSuffixAndPrefix ::
  "('r, 'z) string_repl_ops_scheme \<Rightarrow> 'r \<Rightarrow> js_string \<Rightarrow> 'r option" where
  "BaseStringReplacement_removeCommonSuffixAndPrefix ops r source = do {
     q \<leftarrow> BaseStringReplacement_removeCommonSuffix ops r source;
     BaseStringReplacement_removeCommonPrefix ops q source
   }"

definition BaseStringReplacement_toEdit :: "('r, 'z) string_repl_ops_scheme \<Rightarrow> 'r \<Rightarrow> string_edit option" where
  "BaseStringReplacement_toEdit ops r =
     StringEdit_new [MkStringReplacement (rp_range ops r) (rp_newText ops r)]"

definition BaseStringReplacement_toJson :: "('r, 'z) string_repl_ops_scheme \<Rightarrow> 'r \<Rightarrow> serialized_replacement" where
  "BaseStringReplacement_toJson ops r =
     MkSerialized (rp_newText ops r) (or_start (rp_range ops r)) (OffsetRange_length (rp_range ops r))"

section \<open>BaseStringEdit\<close>

fun apply_loop :: "('r, 'z) string_repl_ops_scheme \<Rightarrow> js_string \<Rightarrow> 'r list \<Rightarrow> int \<Rightarrow> js_string \<Rightarrow> js_string" where
  "apply_loop ops base [] pos resultText = resultText @ js_substring_from base pos"
| "apply_loop ops base (edit # rs) pos resultText =
     apply_loop ops base rs (or_end (rp_range ops edit))
       (resultText @ js_substring base pos (or_start (rp_range ops edit)) @ rp_newText ops edit)"

definition BaseStringEdit_apply :: "('r, 'z) string_repl_ops_scheme \<Rightarrow> 'r list \<Rightarrow> js_string \<Rightarrow> js_string" where
  "BaseStringEdit_apply ops E base = apply_loop ops base E 0 []"

fun inverseOnSlice_loop ::
  "('r, 'z) string_repl_ops_scheme \<Rightarrow> (int \<Rightarrow> int \<Rightarrow> js_string) \<Rightarrow> 'r list \<Rightarrow> int \<Rightarrow>
    string_replacement list \<Rightarrow> string_replacement list option" where
  "inverseOnSlice_loop ops getOriginalSlice [] offset edits = Some edits"
| "inverseOnSlice_loop ops getOriginalSlice (e # rs) offset edits =
     (case OffsetRange_ofStartAndLength (or_start (rp_range ops e) + offset) (ilen (rp_newText ops e)) of
        None \<Rightarrow> None
      | Some g \<Rightarrow>
          inverseOnSlice_loop ops getOriginalSlice rs
            (offset + (ilen (rp_newText ops e) - OffsetRange_length (rp_range ops e)))
            (edits @ [StringReplacement_replace g
              (getOriginalSlice (or_start (rp_range ops e)) (or_end (rp_range ops e)))]))"

definition BaseStringEdit_inverseOnSlice ::
  "('r, 'z) string_repl_ops_scheme \<Rightarrow> (int \<Rightarrow> int \<Rightarrow> js_string) \<Rightarrow> 'r list \<Rightarrow> string_edit option" where
  "BaseStringEdit_inverseOnSlice ops getOriginalSlice E = do {
     edits \<leftarrow> inverseOnSlice_loop ops getOriginalSlice E 0 [];
     StringEdit_new edits
   }"

definition BaseStringEdit_inverse :: "('r, 'z) string_repl_ops_scheme \<Rightarrow> 'r list \<Rightarrow> js_string \<Rightarrow> string_edit option" where
  "BaseStringEdit_inverse ops E original =
     BaseStringEdit_inverseOnSlice ops (\<lambda>start endEx. js_substring original start endEx) E"

definition areConcurrentInserts :: "offset_range \<Rightarrow> offset_range \<Rightarrow> bool" where
  "areConcurrentInserts r1 r2 \<longleftrightarrow>
     OffsetRange_isEmpty r1 \<and> OffsetRange_isEmpty r2 \<and> or_start r1 = or_start r2"

definition isInsertStrictlyInsideRange :: "offset_range \<Rightarrow> offset_range \<Rightarrow> bool" where
  "isInsertStrictlyInsideRange insertRange r \<longleftrightarrow>
     OffsetRange_isEmpty insertRange \<and> or_start r < or_start insertRange \<and> or_start insertRange < or_end r"

text \<open>
  \<open>_tryRebase\<close> over what is left of our replacements and of the base's; \<open>conflicting\<close> is the
  condition of the branch that skips our edit. The outer \<open>option\<close> is the exception, the inner
  one the returned \<open>undefined\<close>.
\<close>

definition conflicting :: "offset_range \<Rightarrow> offset_range \<Rightarrow> bool" where
  "conflicting ours base \<longleftrightarrow> OffsetRange_intersects ours base \<or> areConcurrentInserts ours base \<or>
     isInsertStrictlyInsideRange ours base \<or> isInsertStrictlyInsideRange base ours"

function tryRebase_loop ::
  "('r, 'z) string_repl_ops_scheme \<Rightarrow> bool \<Rightarrow> 'r list \<Rightarrow> string_edit \<Rightarrow> int \<Rightarrow>
    string_replacement list \<Rightarrow> string_replacement list option option" where
  "tryRebase_loop ops noOverlap [] base offset newEdits = Some (Some newEdits)"
| "tryRebase_loop ops noOverlap (our # ours) [] offset newEdits =
     (case OffsetRange_delta (rp_range ops our) offset of
        None \<Rightarrow> None
      | Some g \<Rightarrow> tryRebase_loop ops noOverlap ours [] offset
                   (newEdits @ [MkStringReplacement g (rp_newText ops our)]))"
| "tryRebase_loop ops noOverlap (our # ours) (b # base) offset newEdits =
     (if conflicting (rp_range ops our) (sr_range b)
      then if noOverlap then Some None
           else tryRebase_loop ops noOverlap ours (b # base) offset newEdits
      else if or_start (rp_range ops our) < or_start (sr_range b) \<or>
              (OffsetRange_isEmpty (rp_range ops our) \<and> or_start (rp_range ops our) = or_start (sr_range b))
      then (case OffsetRange_delta (rp_range ops our) offset of
              None \<Rightarrow> None
            | Some g \<Rightarrow> tryRebase_loop ops noOverlap ours (b # base) offset
                         (newEdits @ [MkStringReplacement g (rp_newText ops our)]))
      else tryRebase_loop ops noOverlap (our # ours) base
             (offset + (ilen (sr_newText b) - OffsetRange_length (sr_range b))) newEdits)"
  by pat_completeness auto
termination
  by (relation "measure (\<lambda>(ops, noOverlap, ours, base, offset, newEdits). length ours + length base)") auto

definition BaseStringEdit_tryRebaseWith ::
  "('r, 'z) string_repl_ops_scheme \<Rightarrow> 'r list \<Rightarrow> string_edit \<Rightarrow> bool \<Rightarrow> string_edit option option" where
  "BaseStringEdit_tryRebaseWith ops E base noOverlap =
     (case tryRebase_loop ops noOverlap E base 0 [] of
        None \<Rightarrow> None
      | Some None \<Rightarrow> Some None
      | Some (Some newEdits) \<Rightarrow> map_option Some (StringEdit_new newEdits))"

definition BaseStringEdit_rebaseSkipConflicting ::
  "('r, 'z) string_repl_ops_scheme \<Rightarrow> 'r list \<Rightarrow> string_edit \<Rightarrow> string_edit option option" where
  "BaseStringEdit_rebaseSkipConflicting ops E base = BaseStringEdit_tryRebaseWith ops E base False"

definition BaseStringEdit_tryRebase ::
  "('r, 'z) string_repl_ops_scheme \<Rightarrow> 'r list \<Rightarrow> string_edit \<Rightarrow> string_edit option option" where
  "BaseStringEdit_tryRebase ops E base = BaseStringEdit_tryRebaseWith ops E base True"

text \<open>\<open>trySwap\<close>; \<open>' '.repeat(n)\<close> throws for a negative count, which no range has.\<close>

definition BaseStringEdit_trySwap ::
  "string_edit \<Rightarrow> string_edit \<Rightarrow> (string_edit \<times> string_edit) option option" where
  "BaseStringEdit_trySwap e1 e2 = do {
     e1Inv \<leftarrow> BaseStringEdit_inverseOnSlice string_ops (\<lambda>s e. replicate (nat (e - s)) 32) e1;
     e1' \<leftarrow> BaseStringEdit_tryRebase string_ops e2 e1Inv;
     (case e1' of
        None \<Rightarrow> Some None
      | Some r1 \<Rightarrow> do {
          e2' \<leftarrow> BaseStringEdit_tryRebase string_ops e1 r1;
          (case e2' of None \<Rightarrow> Some None | Some r2 \<Rightarrow> Some (Some (r1, r2)))
        })
   }"

definition BaseStringEdit_toJson :: "('r, 'z) string_repl_ops_scheme \<Rightarrow> 'r list \<Rightarrow> serialized_replacement list" where
  "BaseStringEdit_toJson ops E = map (BaseStringReplacement_toJson ops) E"

definition BaseStringEdit_isNeutralOn :: "('r, 'z) string_repl_ops_scheme \<Rightarrow> 'r list \<Rightarrow> js_string \<Rightarrow> bool" where
  "BaseStringEdit_isNeutralOn ops E t \<longleftrightarrow> list_all (\<lambda>e. BaseStringReplacement_isNeutralOn ops e t) E"

fun removeCommonSuffixPrefix_loop ::
  "('r, 'z) string_repl_ops_scheme \<Rightarrow> js_string \<Rightarrow> 'r list \<Rightarrow> string_replacement list \<Rightarrow>
    string_replacement list option" where
  "removeCommonSuffixPrefix_loop ops originalText [] edits = Some edits"
| "removeCommonSuffixPrefix_loop ops originalText (e # rs) edits =
     (case BaseStringReplacement_removeCommonSuffixPrefix ops e originalText of
        None \<Rightarrow> None
      | Some edit \<Rightarrow> removeCommonSuffixPrefix_loop ops originalText rs
          (if \<not> BaseReplacement_isEmpty string_ops edit then edits @ [edit] else edits))"

definition BaseStringEdit_removeCommonSuffixPrefix ::
  "('r, 'z) string_repl_ops_scheme \<Rightarrow> 'r list \<Rightarrow> js_string \<Rightarrow> string_edit option" where
  "BaseStringEdit_removeCommonSuffixPrefix ops E originalText = do {
     edits \<leftarrow> removeCommonSuffixPrefix_loop ops originalText E [];
     StringEdit_new edits
   }"

definition BaseStringEdit_normalizeEOL ::
  "('r, 'z) string_repl_ops_scheme \<Rightarrow> 'r list \<Rightarrow> js_string \<Rightarrow> string_edit option" where
  "BaseStringEdit_normalizeEOL ops E eol =
     StringEdit_new (map (\<lambda>e. BaseStringReplacement_normalizeEOL ops e eol) E)"

definition BaseStringEdit_normalizeOnSource ::
  "('r, 'z) string_repl_ops_scheme \<Rightarrow> 'r list \<Rightarrow> js_string \<Rightarrow> string_edit option" where
  "BaseStringEdit_normalizeOnSource ops E source =
     (let result = BaseStringEdit_apply ops E source
      in do {
        g \<leftarrow> OffsetRange_ofLength (ilen source);
        e \<leftarrow> BaseStringReplacement_removeCommonSuffixAndPrefix string_ops
               (StringReplacement_replace g result) source;
        if BaseReplacement_isEmpty string_ops e then StringEdit_new []
        else BaseStringReplacement_toEdit string_ops e
      })"

fun removeCommonSuffixAndPrefix_all ::
  "('r, 'z) string_repl_ops_scheme \<Rightarrow> 'r list \<Rightarrow> js_string \<Rightarrow> 'r list option" where
  "removeCommonSuffixAndPrefix_all ops [] source = Some []"
| "removeCommonSuffixAndPrefix_all ops (e # rs) source = do {
     e' \<leftarrow> BaseStringReplacement_removeCommonSuffixAndPrefix ops e source;
     rs' \<leftarrow> removeCommonSuffixAndPrefix_all ops rs source;
     Some (e' # rs')
   }"

definition BaseStringEdit_removeCommonSuffixAndPrefix ::
  "('r, 'z) string_repl_ops_scheme \<Rightarrow> 'r list \<Rightarrow> js_string \<Rightarrow> 'r list option" where
  "BaseStringEdit_removeCommonSuffixAndPrefix ops E source = do {
     rs \<leftarrow> removeCommonSuffixAndPrefix_all ops E source;
     e \<leftarrow> BaseEdit_new ops rs;
     BaseEdit_normalize ops e
   }"

section \<open>StringEdit\<close>

definition StringEdit_apply :: "string_edit \<Rightarrow> js_string \<Rightarrow> js_string" where
  "StringEdit_apply = BaseStringEdit_apply string_ops"

definition StringEdit_compose2 :: "string_edit \<Rightarrow> string_edit \<Rightarrow> string_edit option" where
  "StringEdit_compose2 = BaseEdit_compose string_ops"

fun StringEdit_compose_loop :: "string_edit \<Rightarrow> string_edit list \<Rightarrow> string_edit option" where
  "StringEdit_compose_loop result [] = Some result"
| "StringEdit_compose_loop result (e # edits) =
     (case StringEdit_compose2 result e of None \<Rightarrow> None | Some r \<Rightarrow> StringEdit_compose_loop r edits)"

text \<open>The static \<open>StringEdit.compose\<close> of an array of edits, and \<open>composeOrUndefined\<close>.\<close>

definition StringEdit_compose :: "string_edit list \<Rightarrow> string_edit option" where
  "StringEdit_compose edits =
     (case edits of [] \<Rightarrow> StringEdit_new [] | e # es \<Rightarrow> StringEdit_compose_loop e es)"

definition BaseStringEdit_composeOrUndefined :: "string_edit list \<Rightarrow> string_edit option option" where
  "BaseStringEdit_composeOrUndefined edits =
     (case edits of [] \<Rightarrow> Some None | e # es \<Rightarrow> map_option Some (StringEdit_compose_loop e es))"

fun fromJson_all :: "serialized_replacement list \<Rightarrow> string_replacement list option" where
  "fromJson_all [] = Some []"
| "fromJson_all (d # ds) = do {
     r \<leftarrow> StringReplacement_fromJson d; rs \<leftarrow> fromJson_all ds; Some (r # rs) }"

definition StringEdit_fromJson :: "serialized_replacement list \<Rightarrow> string_edit option" where
  "StringEdit_fromJson ds = do { rs \<leftarrow> fromJson_all ds; StringEdit_new rs }"

fun composeSequential_loop ::
  "string_replacement list \<Rightarrow> string_edit \<Rightarrow> string_replacement list \<Rightarrow>
    (string_edit \<times> string_replacement list) option" where
  "composeSequential_loop [] edit cur = Some (edit, cur)"
| "composeSequential_loop (r # rs) edit cur =
     (if cur = [] \<or> OffsetRange_isBefore (sr_range r) (sr_range (last cur))
      then composeSequential_loop rs edit (cur @ [r])
      else (case StringEdit_new (rev cur) of
              None \<Rightarrow> None
            | Some e \<Rightarrow> (case StringEdit_compose2 edit e of
                 None \<Rightarrow> None
               | Some edit' \<Rightarrow> composeSequential_loop rs edit' [r])))"

definition StringEdit_composeSequentialReplacements :: "string_replacement list \<Rightarrow> string_edit option" where
  "StringEdit_composeSequentialReplacements rs = do {
     empty \<leftarrow> StringEdit_new [];
     (edit, cur) \<leftarrow> composeSequential_loop rs empty [];
     e \<leftarrow> StringEdit_new (rev cur);
     StringEdit_compose2 edit e
   }"

section \<open>Ranges under an edit\<close>

fun editsToRanges_before :: "int \<Rightarrow> int \<Rightarrow> offset_range list \<Rightarrow> offset_range list \<Rightarrow>
    (offset_range list \<times> offset_range list) option" where
  "editsToRanges_before s offset [] result = Some ([], result)"
| "editsToRanges_before s offset (r # rs) result =
     (if or_end r \<ge> s then Some (r # rs, result)
      else case OffsetRange_delta r offset of None \<Rightarrow> None
           | Some r' \<Rightarrow> editsToRanges_before s offset rs (result @ [r']))"

fun editsToRanges_touching :: "offset_range \<Rightarrow> offset_range list \<Rightarrow> offset_range list \<Rightarrow>
    offset_range list \<times> offset_range list" where
  "editsToRanges_touching g [] acc = ([], acc)"
| "editsToRanges_touching g (r # rs) acc =
     (if \<not> OffsetRange_intersectsOrTouches r g then (r # rs, acc)
      else editsToRanges_touching g rs (acc @ [r]))"

text \<open>What happens to the touching range with index \<open>i\<close> before it goes back to the queue.\<close>

definition editsToRanges_adjust :: "string_replacement \<Rightarrow> nat \<Rightarrow> offset_range \<Rightarrow> offset_range option" where
  "editsToRanges_adjust e i r0 = do {
     x \<leftarrow> OffsetRange_intersect r0 (sr_range e);
     r1 \<leftarrow> OffsetRange_deltaEnd r0 (- OffsetRange_length x + (if i = 0 then ilen (sr_newText e) else 0));
     let ahead = or_start r1 - or_start (sr_range e);
     r2 \<leftarrow> (if ahead > 0 then OffsetRange_delta r1 (- ahead) else Some r1);
     r3 \<leftarrow> (if i \<noteq> 0 then OffsetRange_delta r2 (ilen (sr_newText e)) else Some r2);
     OffsetRange_delta r3 (- (ilen (sr_newText e) - OffsetRange_length (sr_range e)))
   }"

text \<open>The loop runs from the last touching range down to the first.\<close>

fun editsToRanges_requeue :: "string_replacement \<Rightarrow> offset_range list \<Rightarrow> nat \<Rightarrow> offset_range list \<Rightarrow>
    offset_range list option" where
  "editsToRanges_requeue e intersecting 0 queue = Some queue"
| "editsToRanges_requeue e intersecting (Suc i) queue =
     (case editsToRanges_adjust e i (intersecting ! i) of None \<Rightarrow> None
      | Some r \<Rightarrow> editsToRanges_requeue e intersecting i (r # queue))"

fun editsToRanges_loop :: "string_edit \<Rightarrow> offset_range list \<Rightarrow> int \<Rightarrow> offset_range list \<Rightarrow>
    (offset_range list \<times> int \<times> offset_range list) option" where
  "editsToRanges_loop [] queue offset result = Some (queue, offset, result)"
| "editsToRanges_loop (e # es) queue offset result =
     (case editsToRanges_before (or_start (sr_range e)) offset queue result of
        None \<Rightarrow> None
      | Some (queue1, result1) \<Rightarrow>
          (case editsToRanges_touching (sr_range e) queue1 [] of
             (queue2, intersecting) \<Rightarrow>
               (case editsToRanges_requeue e intersecting (length intersecting) queue2 of
                  None \<Rightarrow> None
                | Some queue3 \<Rightarrow>
                    editsToRanges_loop es queue3
                      (offset + (ilen (sr_newText e) - OffsetRange_length (sr_range e))) result1)))"

fun editsToRanges_rest :: "int \<Rightarrow> offset_range list \<Rightarrow> offset_range list option" where
  "editsToRanges_rest offset [] = Some []"
| "editsToRanges_rest offset (r # rs) = do {
     r' \<leftarrow> OffsetRange_delta r offset; rs' \<leftarrow> editsToRanges_rest offset rs; Some (r' # rs') }"

definition applyEditsToRanges :: "offset_range list \<Rightarrow> string_edit \<Rightarrow> offset_range list option" where
  "applyEditsToRanges sortedRanges edit = do {
     (queue, offset, result) \<leftarrow> editsToRanges_loop edit sortedRanges 0 [];
     rest \<leftarrow> editsToRanges_rest offset queue;
     Some (result @ rest)
   }"

section \<open>AnnotatedStringEdit\<close>

text \<open>The data of an annotated replacement is joined by a method of its class: a parameter here.\<close>

datatype 'd annotated_replacement =
  MkAnnotatedReplacement (asr_range: offset_range) (asr_newText: js_string) (asr_data: 'd)

definition AnnotatedStringReplacement_equals ::
  "'d annotated_replacement \<Rightarrow> 'd annotated_replacement \<Rightarrow> bool" where
  "AnnotatedStringReplacement_equals a b \<longleftrightarrow> OffsetRange_equals (asr_range a) (asr_range b) \<and>
     asr_newText a = asr_newText b \<and> asr_data a = asr_data b"

definition AnnotatedStringReplacement_tryJoinTouching ::
  "('d \<Rightarrow> 'd \<Rightarrow> 'd option) \<Rightarrow> 'd annotated_replacement \<Rightarrow> 'd annotated_replacement \<Rightarrow>
    'd annotated_replacement option option" where
  "AnnotatedStringReplacement_tryJoinTouching join a b =
     (case join (asr_data a) (asr_data b) of
        None \<Rightarrow> Some None
      | Some joined \<Rightarrow> do {
          g \<leftarrow> OffsetRange_joinRightTouching (asr_range a) (asr_range b);
          Some (Some (MkAnnotatedReplacement g (asr_newText a @ asr_newText b) joined))
        })"

definition AnnotatedStringReplacement_slice ::
  "'d annotated_replacement \<Rightarrow> offset_range \<Rightarrow> offset_range option \<Rightarrow> 'd annotated_replacement option" where
  "AnnotatedStringReplacement_slice r g rangeInReplacement =
     Some (MkAnnotatedReplacement g
       (case rangeInReplacement of None \<Rightarrow> asr_newText r | Some q \<Rightarrow> OffsetRange_substring q (asr_newText r))
       (asr_data r))"

definition annotated_ops :: "('d \<Rightarrow> 'd \<Rightarrow> 'd option) \<Rightarrow> 'd annotated_replacement string_repl_ops" where
  "annotated_ops join = \<lparr> rp_range = asr_range, rp_newLength = (\<lambda>r. ilen (asr_newText r)),
     rp_tryJoin = AnnotatedStringReplacement_tryJoinTouching join, rp_slice = AnnotatedStringReplacement_slice,
     rp_equals = AnnotatedStringReplacement_equals, rp_newText = asr_newText \<rparr>"

definition VoidEditData_join :: "unit \<Rightarrow> unit \<Rightarrow> unit option" where
  "VoidEditData_join a b = Some a"

fun toStringEdit_loop :: "('d annotated_replacement \<Rightarrow> bool) option \<Rightarrow> 'd annotated_replacement list \<Rightarrow>
    string_replacement list \<Rightarrow> string_replacement list" where
  "toStringEdit_loop flt [] newReplacements = newReplacements"
| "toStringEdit_loop flt (r # rs) newReplacements =
     (if (case flt of None \<Rightarrow> True | Some f \<Rightarrow> f r)
      then toStringEdit_loop flt rs (newReplacements @ [MkStringReplacement (asr_range r) (asr_newText r)])
      else toStringEdit_loop flt rs newReplacements)"

definition AnnotatedStringEdit_toStringEdit ::
  "('d annotated_replacement \<Rightarrow> bool) option \<Rightarrow> 'd annotated_replacement list \<Rightarrow> string_edit option" where
  "AnnotatedStringEdit_toStringEdit flt E = StringEdit_new (toStringEdit_loop flt E [])"

definition BaseStringEdit_mapData ::
  "('r, 'z) string_repl_ops_scheme \<Rightarrow> ('d \<Rightarrow> 'd \<Rightarrow> 'd option) \<Rightarrow> ('r \<Rightarrow> 'd) \<Rightarrow> 'r list \<Rightarrow>
    'd annotated_replacement list option" where
  "BaseStringEdit_mapData ops join f E =
     BaseEdit_new (annotated_ops join)
       (map (\<lambda>e. MkAnnotatedReplacement (rp_range ops e) (rp_newText ops e) (f e)) E)"

section \<open>ArrayEdit\<close>

datatype 'a array_replacement = MkArrayReplacement (arr_range: offset_range) (arr_newValue: "'a list")

definition ArrayReplacement_equals :: "'a array_replacement \<Rightarrow> 'a array_replacement \<Rightarrow> bool" where
  "ArrayReplacement_equals a b \<longleftrightarrow> OffsetRange_equals (arr_range a) (arr_range b) \<and>
     length (arr_newValue a) = length (arr_newValue b) \<and>
     list_all2 (=) (arr_newValue a) (arr_newValue b)"

definition ArrayReplacement_tryJoinTouching ::
  "'a array_replacement \<Rightarrow> 'a array_replacement \<Rightarrow> 'a array_replacement option option" where
  "ArrayReplacement_tryJoinTouching a b = do {
     g \<leftarrow> OffsetRange_joinRightTouching (arr_range a) (arr_range b);
     Some (Some (MkArrayReplacement g (arr_newValue a @ arr_newValue b)))
   }"

text \<open>Here and in \<open>LengthReplacement\<close> the second range is required: without it the access throws.\<close>

definition ArrayReplacement_slice ::
  "'a array_replacement \<Rightarrow> offset_range \<Rightarrow> offset_range option \<Rightarrow> 'a array_replacement option" where
  "ArrayReplacement_slice r g rangeInReplacement = do {
     q \<leftarrow> rangeInReplacement;
     Some (MkArrayReplacement g (OffsetRange_slice q (arr_newValue r)))
   }"

definition array_ops :: "'a array_replacement repl_ops" where
  "array_ops = \<lparr> rp_range = arr_range, rp_newLength = (\<lambda>r. ilen (arr_newValue r)),
     rp_tryJoin = ArrayReplacement_tryJoinTouching, rp_slice = ArrayReplacement_slice,
     rp_equals = ArrayReplacement_equals \<rparr>"

fun array_apply_loop :: "'a list \<Rightarrow> 'a array_replacement list \<Rightarrow> int \<Rightarrow> 'a list \<Rightarrow> 'a list" where
  "array_apply_loop xs [] pos resultData = resultData @ js_slice xs pos (ilen xs)"
| "array_apply_loop xs (edit # rs) pos resultData =
     array_apply_loop xs rs (or_end (arr_range edit))
       ((resultData @ js_slice xs pos (or_start (arr_range edit))) @ arr_newValue edit)"

definition ArrayEdit_apply :: "'a array_replacement list \<Rightarrow> 'a list \<Rightarrow> 'a list" where
  "ArrayEdit_apply E xs = array_apply_loop xs E 0 []"

fun array_inverse_loop :: "'a list \<Rightarrow> 'a array_replacement list \<Rightarrow> int \<Rightarrow> 'a array_replacement list \<Rightarrow>
    'a array_replacement list option" where
  "array_inverse_loop baseVal [] offset edits = Some edits"
| "array_inverse_loop baseVal (e # rs) offset edits =
     (case OffsetRange_ofStartAndLength (or_start (arr_range e) + offset) (ilen (arr_newValue e)) of
        None \<Rightarrow> None
      | Some g \<Rightarrow> array_inverse_loop baseVal rs
          (offset + (ilen (arr_newValue e) - OffsetRange_length (arr_range e)))
          (edits @ [MkArrayReplacement g (js_slice baseVal (or_start (arr_range e)) (or_end (arr_range e)))]))"

definition ArrayEdit_inverse :: "'a array_replacement list \<Rightarrow> 'a list \<Rightarrow> 'a array_replacement list option" where
  "ArrayEdit_inverse E baseVal = do {
     edits \<leftarrow> array_inverse_loop baseVal E 0 [];
     BaseEdit_new array_ops edits
   }"

section \<open>LengthEdit\<close>

datatype length_replacement = MkLengthReplacement (len_range: offset_range) (len_newLength: int)

definition LengthReplacement_create :: "int \<Rightarrow> int \<Rightarrow> int \<Rightarrow> length_replacement option" where
  "LengthReplacement_create s e n = do { g \<leftarrow> OffsetRange_new s e; Some (MkLengthReplacement g n) }"

definition LengthReplacement_equals :: "length_replacement \<Rightarrow> length_replacement \<Rightarrow> bool" where
  "LengthReplacement_equals a b \<longleftrightarrow>
     OffsetRange_equals (len_range a) (len_range b) \<and> len_newLength a = len_newLength b"

definition LengthReplacement_tryJoinTouching ::
  "length_replacement \<Rightarrow> length_replacement \<Rightarrow> length_replacement option option" where
  "LengthReplacement_tryJoinTouching a b = do {
     g \<leftarrow> OffsetRange_joinRightTouching (len_range a) (len_range b);
     Some (Some (MkLengthReplacement g (len_newLength a + len_newLength b)))
   }"

definition LengthReplacement_slice ::
  "length_replacement \<Rightarrow> offset_range \<Rightarrow> offset_range option \<Rightarrow> length_replacement option" where
  "LengthReplacement_slice r g rangeInReplacement = do {
     q \<leftarrow> rangeInReplacement;
     Some (MkLengthReplacement g (OffsetRange_length q))
   }"

definition length_ops :: "length_replacement repl_ops" where
  "length_ops = \<lparr> rp_range = len_range, rp_newLength = len_newLength,
     rp_tryJoin = LengthReplacement_tryJoinTouching, rp_slice = LengthReplacement_slice,
     rp_equals = LengthReplacement_equals \<rparr>"

definition LengthEdit_fromEdit :: "('r, 'z) repl_ops_scheme \<Rightarrow> 'r list \<Rightarrow> length_replacement list option" where
  "LengthEdit_fromEdit ops E =
     BaseEdit_new length_ops (map (\<lambda>r. MkLengthReplacement (rp_range ops r) (rp_newLength ops r)) E)"

fun LengthEdit_compose_loop :: "length_replacement list \<Rightarrow> length_replacement list list \<Rightarrow>
    length_replacement list option" where
  "LengthEdit_compose_loop e [] = Some e"
| "LengthEdit_compose_loop e (edit # edits) =
     (case BaseEdit_compose length_ops e edit of None \<Rightarrow> None | Some e' \<Rightarrow> LengthEdit_compose_loop e' edits)"

definition LengthEdit_compose :: "length_replacement list list \<Rightarrow> length_replacement list option" where
  "LengthEdit_compose edits = do { e \<leftarrow> BaseEdit_new length_ops []; LengthEdit_compose_loop e edits }"

fun length_inverse_loop :: "length_replacement list \<Rightarrow> int \<Rightarrow> length_replacement list \<Rightarrow>
    length_replacement list option" where
  "length_inverse_loop [] offset edits = Some edits"
| "length_inverse_loop (e # rs) offset edits =
     (case OffsetRange_ofStartAndLength (or_start (len_range e) + offset) (len_newLength e) of
        None \<Rightarrow> None
      | Some g \<Rightarrow> length_inverse_loop rs
          (offset + (len_newLength e - OffsetRange_length (len_range e)))
          (edits @ [MkLengthReplacement g (OffsetRange_length (len_range e))]))"

definition LengthEdit_inverse :: "length_replacement list \<Rightarrow> length_replacement list option" where
  "LengthEdit_inverse E = do {
     edits \<leftarrow> length_inverse_loop E 0 [];
     BaseEdit_new length_ops edits
   }"

text \<open>
  \<open>applyArray\<close> preallocates the result and writes it from the left; a hole and an element
  read beyond the end are \<open>None\<close>, the value \<open>undefined\<close>. \<open>new Array(n)\<close> throws for a
  negative \<open>n\<close>.
\<close>

fun applyArray_loop :: "'a list \<Rightarrow> 'a \<Rightarrow> length_replacement list \<Rightarrow> int \<Rightarrow> 'a option list \<Rightarrow> 'a option list" where
  "applyArray_loop xs fillItem [] srcPos newArr = newArr @ map (js_get xs) [srcPos .. ilen xs - 1]"
| "applyArray_loop xs fillItem (r # rs) srcPos newArr =
     applyArray_loop xs fillItem rs (or_end (len_range r))
       (newArr @ map (js_get xs) [srcPos .. or_start (len_range r) - 1] @
        replicate (nat (len_newLength r)) (Some fillItem))"

definition LengthEdit_applyArray :: "length_replacement list \<Rightarrow> 'a list \<Rightarrow> 'a \<Rightarrow> 'a option list option" where
  "LengthEdit_applyArray E xs fillItem =
     (let n = BaseEdit_getNewDataLength length_ops E (ilen xs);
          newArr = applyArray_loop xs fillItem E 0 []
      in if n < 0 then None else Some (newArr @ replicate (nat n - length newArr) None))"

section \<open>The laws of the concrete replacements\<close>

locale string_replacement_laws = replacement_laws ops content ok
  for ops :: "('r, 'z) string_repl_ops_scheme" and content :: "'r \<Rightarrow> js_string" and ok :: "'r \<Rightarrow> bool" +
  assumes ok_range: "ok r \<Longrightarrow> or_ok (rp_range ops r)"
    and content_newText [simp]: "rp_newText ops r = content r"

lemma joinRightTouching_Some:
  "or_ok a \<Longrightarrow> or_ok b \<Longrightarrow> or_end a = or_start b \<Longrightarrow>
    OffsetRange_joinRightTouching a b = Some (MkOffsetRange (or_start a) (or_end b))"
  by (simp add: OffsetRange_joinRightTouching_def or_ok_def)

lemma string_ops_simps [simp]:
  "rp_range string_ops = sr_range" "rp_newText string_ops = sr_newText"
  "rp_newLength string_ops r = ilen (sr_newText r)"
  "rp_tryJoin string_ops = StringReplacement_tryJoinTouching" "rp_slice string_ops = StringReplacement_slice"
  "rp_equals string_ops = StringReplacement_equals"
  by (simp_all add: string_ops_def)

lemma annotated_ops_simps [simp]:
  "rp_range (annotated_ops join) = asr_range" "rp_newText (annotated_ops join) = asr_newText"
  "rp_newLength (annotated_ops join) q = ilen (asr_newText q)"
  "rp_tryJoin (annotated_ops join) = AnnotatedStringReplacement_tryJoinTouching join"
  "rp_slice (annotated_ops join) = AnnotatedStringReplacement_slice"
  by (simp_all add: annotated_ops_def)

lemma array_ops_simps [simp]:
  "rp_range array_ops = arr_range" "rp_newLength array_ops r = ilen (arr_newValue r)"
  "rp_tryJoin array_ops = ArrayReplacement_tryJoinTouching" "rp_slice array_ops = ArrayReplacement_slice"
  by (simp_all add: array_ops_def)

lemma length_ops_simps [simp]:
  "rp_range length_ops = len_range" "rp_newLength length_ops = len_newLength"
  "rp_tryJoin length_ops = LengthReplacement_tryJoinTouching" "rp_slice length_ops = LengthReplacement_slice"
  by (simp_all add: length_ops_def)

definition string_ok :: "string_replacement \<Rightarrow> bool" where
  "string_ok r \<longleftrightarrow> or_ok (sr_range r)"

interpretation string_edit: string_replacement_laws string_ops sr_newText string_ok
proof
  fix r q :: string_replacement
  assume "string_ok r" "string_ok q" "or_end (rp_range string_ops r) = or_start (rp_range string_ops q)"
  then show "rp_tryJoin string_ops r q = Some None \<or>
      (\<exists>j. rp_tryJoin string_ops r q = Some (Some j) \<and> string_ok j \<and>
        or_start (rp_range string_ops j) = or_start (rp_range string_ops r) \<and>
        or_end (rp_range string_ops j) = or_end (rp_range string_ops q) \<and>
        sr_newText j = sr_newText r @ sr_newText q)"
    by (auto simp: string_ok_def StringReplacement_tryJoinTouching_def joinRightTouching_Some or_ok_def)
qed (auto simp: string_ok_def StringReplacement_slice_def OffsetRange_substring_def)

interpretation string_edit_canonical: canonical_laws string_ops sr_newText string_ok
proof
  fix r q :: string_replacement
  assume "string_ok r" "string_ok q" "or_end (rp_range string_ops r) = or_start (rp_range string_ops q)"
  then show "rp_tryJoin string_ops r q \<noteq> Some None"
    by (auto simp: string_ok_def StringReplacement_tryJoinTouching_def joinRightTouching_Some)
next
  show "\<exists>a b :: code_unit. a \<noteq> b" by (rule exI [of _ 0], rule exI [of _ 1]) simp
qed (auto simp: string_replacement.expand)

definition annotated_ok :: "'d annotated_replacement \<Rightarrow> bool" where
  "annotated_ok r \<longleftrightarrow> or_ok (asr_range r)"

interpretation annotated_edit: string_replacement_laws "annotated_ops join" asr_newText annotated_ok
  for join :: "'d \<Rightarrow> 'd \<Rightarrow> 'd option"
proof
  fix r q :: "'d annotated_replacement"
  assume "annotated_ok r" "annotated_ok q"
    "or_end (rp_range (annotated_ops join) r) = or_start (rp_range (annotated_ops join) q)"
  then show "rp_tryJoin (annotated_ops join) r q = Some None \<or>
      (\<exists>j. rp_tryJoin (annotated_ops join) r q = Some (Some j) \<and> annotated_ok j \<and>
        or_start (rp_range (annotated_ops join) j) = or_start (rp_range (annotated_ops join) r) \<and>
        or_end (rp_range (annotated_ops join) j) = or_end (rp_range (annotated_ops join) q) \<and>
        asr_newText j = asr_newText r @ asr_newText q)"
    by (auto simp: annotated_ok_def AnnotatedStringReplacement_tryJoinTouching_def joinRightTouching_Some
        or_ok_def split: option.splits)
qed (auto simp: annotated_ok_def AnnotatedStringReplacement_slice_def OffsetRange_substring_def)

definition array_ok :: "'a array_replacement \<Rightarrow> bool" where
  "array_ok r \<longleftrightarrow> or_ok (arr_range r)"

interpretation array_edit: joining_laws array_ops arr_newValue array_ok
proof
  fix r q :: "'a array_replacement"
  assume "array_ok r" "array_ok q" "or_end (rp_range array_ops r) = or_start (rp_range array_ops q)"
  then show "rp_tryJoin array_ops r q \<noteq> Some None"
    and "rp_tryJoin array_ops r q = Some None \<or>
      (\<exists>j. rp_tryJoin array_ops r q = Some (Some j) \<and> array_ok j \<and>
        or_start (rp_range array_ops j) = or_start (rp_range array_ops r) \<and>
        or_end (rp_range array_ops j) = or_end (rp_range array_ops q) \<and>
        arr_newValue j = arr_newValue r @ arr_newValue q)"
    by (auto simp: array_ok_def ArrayReplacement_tryJoinTouching_def joinRightTouching_Some or_ok_def)
qed (auto simp: array_ok_def ArrayReplacement_slice_def OffsetRange_slice_def)

definition length_ok :: "length_replacement \<Rightarrow> bool" where
  "length_ok r \<longleftrightarrow> or_ok (len_range r) \<and> 0 \<le> len_newLength r"

text \<open>\<open>applyArray\<close> fills what the edit inserts with one item, which may be any.\<close>

definition length_content :: "'a \<Rightarrow> length_replacement \<Rightarrow> 'a list" where
  "length_content fillItem r = replicate (nat (len_newLength r)) fillItem"

interpretation length_edit: joining_laws length_ops "length_content fillItem" length_ok
  for fillItem
proof
  fix r q :: length_replacement
  assume "length_ok r" "length_ok q" "or_end (rp_range length_ops r) = or_start (rp_range length_ops q)"
  then show "rp_tryJoin length_ops r q \<noteq> Some None"
    and "rp_tryJoin length_ops r q = Some None \<or>
      (\<exists>j. rp_tryJoin length_ops r q = Some (Some j) \<and> length_ok j \<and>
        or_start (rp_range length_ops j) = or_start (rp_range length_ops r) \<and>
        or_end (rp_range length_ops j) = or_end (rp_range length_ops q) \<and>
        length_content fillItem j = length_content fillItem r @ length_content fillItem q)"
    by (auto simp: length_ok_def length_content_def LengthReplacement_tryJoinTouching_def
        joinRightTouching_Some or_ok_def nat_add_distrib replicate_add)
qed (auto simp: length_ok_def length_content_def LengthReplacement_slice_def min_def)

section \<open>Applying and inverting string edits\<close>

text \<open>The string replacements an abstract edit stands for.\<close>

definition reps :: "code_unit aedit \<Rightarrow> string_edit" where
  "reps A = map (\<lambda>(g, c). MkStringReplacement g c) A"

definition sview :: "string_edit \<Rightarrow> code_unit aedit" where
  "sview E = map (\<lambda>r. (sr_range r, sr_newText r)) E"

lemma sview_simps [simp]:
  "sview [] = []" "sview (r # E) = (sr_range r, sr_newText r) # sview E" "sview (E @ F) = sview E @ sview F"
  by (simp_all add: sview_def)

lemma string_edit_view [simp]: "string_edit.view E = sview E"
  by (simp add: string_edit.view_def sview_def)

lemma sview_reps [simp]: "sview (reps A) = A"
  by (simp add: sview_def reps_def case_prod_beta comp_def)

lemma reps_sview [simp]: "reps (sview E) = E"
  by (simp add: sview_def reps_def comp_def)

lemma reps_simps [simp]: "reps [] = []" "reps ((g, c) # A) = MkStringReplacement g c # reps A"
  by (simp_all add: reps_def)

lemma achain_or_ok: "achain p A \<Longrightarrow> (g, c) \<in> set A \<Longrightarrow> or_ok g"
  by (induction p A rule: achain.induct) (auto simp: or_ok_def)

lemma string_wf_iff: "string_edit.wf p E \<longleftrightarrow> achain p (sview E)"
proof -
  have "\<forall>r \<in> set E. string_ok r" if "achain p (sview E)"
    using achain_or_ok [OF that] by (auto simp: string_ok_def sview_def)
  then show ?thesis by (auto simp: string_edit.wf_def)
qed

lemma StringEdit_new_reps: "achain 0 A \<Longrightarrow> StringEdit_new (reps A) = Some (reps A)"
  using string_edit.BaseEdit_new_wf [of "reps A"] by (simp add: StringEdit_new_def string_wf_iff)

context string_replacement_laws
begin

lemma apply_loop_correct:
  assumes "wf p E" and "0 \<le> p" and "aend p (view E) \<le> ilen base"
  shows "apply_loop ops base E p acc = acc @ app p (view E) (idrop p base)"
  using assms
proof (induction E arbitrary: p acc)
  case (Cons r E)
  have r: "p \<le> start r" "start r \<le> endEx r" "wf (endEx r) E" using Cons.prems(1) by auto
  have e: "endEx r \<le> ilen base" using aend_ge [OF wf_achain [OF r(3)]] Cons.prems(3) by simp
  have "idrop (endEx r) base = idrop (endEx r - p) (idrop p base)"
    using r Cons.prems(2) by (simp add: idrop_idrop)
  with Cons.IH [OF r(3)] Cons.prems(2,3) r e show ?case by simp
qed simp

lemma apply_correct:
  "wf 0 E \<Longrightarrow> aend 0 (view E) \<le> ilen base \<Longrightarrow> BaseStringEdit_apply ops E base = app 0 (view E) base"
  using apply_loop_correct [of 0 E base "[]"] by (simp add: BaseStringEdit_apply_def)

lemma inverseOnSlice_loop_correct:
  assumes "\<forall>r \<in> set E. ok r"
  shows "inverseOnSlice_loop ops f E d acc = Some (acc @ reps (ainv f d (view E)))"
  using assms
  by (induction E arbitrary: d acc)
    (auto simp: OffsetRange_ofStartAndLength_def OffsetRange_length_def StringReplacement_replace_def)

lemma inverseOnSlice_correct:
  assumes "wf 0 E"
  shows "BaseStringEdit_inverseOnSlice ops f E = Some (reps (ainv f 0 (view E)))"
  using inverseOnSlice_loop_correct [of E f 0 "[]"] assms
    StringEdit_new_reps [OF ainv_chain [OF wf_achain [OF assms], of 0 f, simplified]]
  by (simp add: BaseStringEdit_inverseOnSlice_def wf_def)

lemma inverse_correct:
  assumes "wf 0 E" and "aend 0 (view E) \<le> ilen base"
  shows "\<exists>I. BaseStringEdit_inverse ops E base = Some I \<and> string_edit.wf 0 I \<and>
    aend 0 (sview I) \<le> ilen (BaseStringEdit_apply ops E base) \<and>
    StringEdit_apply I (BaseStringEdit_apply ops E base) = base"
proof -
  let ?f = "\<lambda>start endEx. js_substring base start endEx"
  let ?A = "ainv ?f 0 (view E)"
  have chain: "achain 0 ?A" using ainv_chain [OF wf_achain [OF assms(1)], of 0] by simp
  then have wf: "string_edit.wf 0 (reps ?A)" by (simp add: string_wf_iff)
  have ap: "BaseStringEdit_apply ops E base = app 0 (view E) base" using apply_correct [OF assms] .
  have len: "aend 0 ?A = aend 0 (view E) + adelta (view E)"
    using aend_ainv [OF wf_achain [OF assms(1)], of 0] by simp
  then have le: "aend 0 (sview (reps ?A)) \<le> ilen (app 0 (view E) base)"
    using ilen_app [OF wf_achain [OF assms(1)], of base] assms(2) by simp
  have "app 0 ?A (app 0 (view E) base) = base"
    using ainv_correct [OF wf_achain [OF assms(1)], of base ?f 0] assms(2) by simp
  then have "StringEdit_apply (reps ?A) (app 0 (view E) base) = base"
    using string_edit.apply_correct [OF wf] le by (simp add: StringEdit_apply_def)
  with inverseOnSlice_correct [OF assms(1), of ?f] wf le ap show ?thesis
    by (simp add: BaseStringEdit_inverse_def)
qed

end

end
