(* ===== verification/Rebasing.thy ===== *)
theory Rebasing
  imports StringEdits
begin

text \<open>
  Why rebasing works: \<open>_tryRebase\<close> of \<open>stringEdit.ts\<close> walks over two edits of the same text
  the way one merges two sorted lists. \<open>amerge\<close> is that merge; its result is one edit whose
  chunks are marked with the side they come from, and rebasing one side over the other is
  doing the other side first (\<open>split_correct\<close>). Convergence of the two orders, the behaviour
  of \<open>rebaseSkipConflicting\<close> and the contract of \<open>trySwap\<close> follow.
\<close>

section \<open>Merging two edits\<close>

definition ours_first :: "offset_range \<Rightarrow> offset_range \<Rightarrow> bool" where
  "ours_first g h \<longleftrightarrow> or_start g < or_start h \<or> (OffsetRange_isEmpty g \<and> or_start g = or_start h)"

text \<open>Chunks of the second edit, the base, are marked \<open>True\<close>.\<close>

fun amerge :: "'a aedit \<Rightarrow> 'a aedit \<Rightarrow> (bool \<times> offset_range \<times> 'a list) list option" where
  "amerge [] B = Some (map (Pair True) B)"
| "amerge (x # A) [] = Some (map (Pair False) (x # A))"
| "amerge (x # A) (y # B) =
     (if conflicting (fst x) (fst y) then None
      else if ours_first (fst x) (fst y) then map_option (\<lambda>M. (False, x) # M) (amerge A (y # B))
      else map_option (\<lambda>M. (True, y) # M) (amerge (x # A) B))"

definition flip_marks :: "(bool \<times> 'b) list \<Rightarrow> (bool \<times> 'b) list" where
  "flip_marks M = map (\<lambda>(m, y). (\<not> m, y)) M"

lemma flip_marks_simps [simp]:
  "flip_marks [] = []" "flip_marks ((m, y) # M) = (\<not> m, y) # flip_marks M"
  "flip_marks (map (Pair b) X) = map (Pair (\<not> b)) X"
  by (simp_all add: flip_marks_def)

lemma map_snd_flip_marks [simp]: "map snd (flip_marks M) = map snd M"
  by (simp add: flip_marks_def case_prod_beta)

lemma map_snd_Pair [simp]: "map snd (map (Pair b) X) = X"
  by (simp add: comp_def)

lemma picked_Pair [simp]: "picked (map (Pair True) X) = X" "picked (map (Pair False) X) = []"
  by (induction X) auto

lemma moved_Pair_True [simp]: "moved d (map (Pair True) X) = []"
  by (induction X arbitrary: d) auto

lemma conflicting_iff:
  assumes "or_ok g" and "or_ok h"
  shows "conflicting g h \<longleftrightarrow>
    or_start h < or_end g \<and> or_start g < or_end h \<or>
    or_start g = or_end g \<and> or_start h = or_end h \<and> or_start g = or_start h"
  using assms
  unfolding conflicting_def OffsetRange_intersects_def areConcurrentInserts_def isInsertStrictlyInsideRange_def
    OffsetRange_isEmpty_def or_ok_def Let_def max_less_iff_conj min_less_iff_conj
  by presburger

lemma conflicting_sym: "or_ok g \<Longrightarrow> or_ok h \<Longrightarrow> conflicting g h \<longleftrightarrow> conflicting h g"
  by (auto simp: conflicting_iff)

lemma ours_first_total:
  assumes "or_ok g" and "or_ok h" and "\<not> conflicting g h"
  shows "ours_first h g \<longleftrightarrow> \<not> ours_first g h"
  using assms unfolding conflicting_iff [OF assms(1,2)] ours_first_def OffsetRange_isEmpty_def or_ok_def
  by presburger

lemma ours_first_before:
  assumes "or_ok g" and "or_ok h" and "\<not> conflicting g h" and "ours_first g h"
  shows "or_end g \<le> or_start h"
  using assms unfolding conflicting_iff [OF assms(1,2)] ours_first_def OffsetRange_isEmpty_def or_ok_def
  by presburger

lemma amerge_picked: "amerge A B = Some M \<Longrightarrow> picked M = B \<and> picked (flip_marks M) = A"
  by (induction A B arbitrary: M rule: amerge.induct) (auto split: if_splits)

lemma amerge_chain:
  assumes "amerge A B = Some M" and "achain p A" and "achain p B"
  shows "achain p (map snd M) \<and> aend p (map snd M) \<le> max (aend p A) (aend p B)"
  using assms
proof (induction A B arbitrary: p M rule: amerge.induct)
  case (1 B)
  then have "M = map (Pair True) B" by simp
  then show ?case using 1 aend_ge [of p B] by (simp add: comp_def)
next
  case (2 x A)
  then have "M = map (Pair False) (x # A)" by simp
  then show ?case using 2(2) aend_ge [of p "x # A"] by (simp add: comp_def)
next
  case (3 x A y B)
  obtain g c h e where xy: "x = (g, c)" "y = (h, e)" by force
  have g: "p \<le> or_start g" "or_start g \<le> or_end g" "achain (or_end g) A"
    and h: "p \<le> or_start h" "or_start h \<le> or_end h" "achain (or_end h) B"
    using 3 by (auto simp: xy)
  have nc: "\<not> conflicting g h" using 3(3) by (auto simp: xy split: if_splits)
  have ok: "or_ok g" "or_ok h" using g h by (auto simp: or_ok_def)
  show ?case
  proof (cases "ours_first g h")
    case True
    then obtain M' where M': "amerge A (y # B) = Some M'" "M = (False, x) # M'"
      using 3(3) nc by (auto simp: xy)
    have "or_end g \<le> or_start h" using ours_first_before [OF ok nc True] .
    then have "achain (or_end g) (y # B)" using h by (simp add: xy)
    from "3.IH"(1) [OF _ _ M'(1) g(3) this] nc True M'(2) g show ?thesis by (simp add: xy)
  next
    case False
    then obtain M' where M': "amerge (x # A) B = Some M'" "M = (True, y) # M'"
      using 3(3) nc by (auto simp: xy)
    have "ours_first h g" using ours_first_total [OF ok nc] False by simp
    from ours_first_before [OF ok(2,1) _ this] nc have "or_end h \<le> or_start g" using conflicting_sym [OF ok] by simp
    then have "achain (or_end h) (x # A)" using g by (simp add: xy)
    from "3.IH"(2) [OF _ _ M'(1) this h(3)] nc False M'(2) h show ?thesis by (simp add: xy)
  qed
qed

lemma amerge_sym:
  assumes "achain p A" and "achain q B"
  shows "amerge B A = map_option flip_marks (amerge A B)"
  using assms
proof (induction A B arbitrary: p q rule: amerge.induct)
  case (1 B)
  then show ?case by (cases B) (simp_all add: flip_marks_def)
next
  case (2 x A)
  then show ?case by (simp add: flip_marks_def)
next
  case (3 x A y B)
  obtain g c h e where xy: "x = (g, c)" "y = (h, e)" by force
  have g: "or_ok g" "achain (or_end g) A" and h: "or_ok h" "achain (or_end h) B"
    using 3(3,4) by (auto simp: xy or_ok_def)
  show ?case
  proof (cases "conflicting g h")
    case True
    then show ?thesis using conflicting_sym [OF g(1) h(1)] by (auto simp: xy)
  next
    case nc: False
    have sym: "\<not> conflicting h g" using nc conflicting_sym [OF g(1) h(1)] by simp
    show ?thesis
    proof (cases "ours_first g h")
      case True
      then have "\<not> ours_first h g" using ours_first_total [OF g(1) h(1) nc] by simp
      with "3.IH"(1) [OF _ _ g(2) "3.prems"(2)] nc sym True show ?thesis
        by (simp add: xy option.map_comp comp_def)
    next
      case False
      then have "ours_first h g" using ours_first_total [OF g(1) h(1) nc] by simp
      with "3.IH"(2) [OF _ _ "3.prems"(1) h(2)] nc sym False show ?thesis
        by (simp add: xy option.map_comp comp_def)
    qed
  qed
qed

text \<open>Both orders of doing the two sides give the merged edit.\<close>

lemma amerge_converges:
  assumes "amerge A B = Some M" and "achain 0 A" and "achain 0 B"
    and "aend 0 A \<le> ilen xs" and "aend 0 B \<le> ilen xs"
  shows "app 0 (moved 0 M) (app 0 B xs) = app 0 (map snd M) xs"
    and "app 0 (moved 0 (flip_marks M)) (app 0 A xs) = app 0 (map snd M) xs"
    and "achain 0 (moved 0 M)" and "aend 0 (moved 0 M) \<le> ilen (app 0 B xs)"
proof -
  have M: "achain 0 (map snd M)" "aend 0 (map snd M) \<le> 0 + ilen xs"
    using amerge_chain [OF assms(1-3)] assms(4,5) by auto
  have p: "picked M = B" "picked (flip_marks M) = A" using amerge_picked [OF assms(1)] by auto
  show "app 0 (moved 0 M) (app 0 B xs) = app 0 (map snd M) xs" "achain 0 (moved 0 M)"
    "aend 0 (moved 0 M) \<le> ilen (app 0 B xs)"
    using split_correct [OF M(1), of 0] M(2) by (auto simp: p)
  have "achain 0 (map snd (flip_marks M))" using M(1) by simp
  from split_correct [OF this, of 0] M(2)
  show "app 0 (moved 0 (flip_marks M)) (app 0 A xs) = app 0 (map snd M) xs" by (simp add: p)
qed

section \<open>Rebasing in terms of the merge\<close>

text \<open>What is left of our edit when the conflicting replacements are skipped.\<close>

fun smerge :: "'a aedit \<Rightarrow> 'a aedit \<Rightarrow> (bool \<times> offset_range \<times> 'a list) list" where
  "smerge [] B = map (Pair True) B"
| "smerge (x # A) [] = map (Pair False) (x # A)"
| "smerge (x # A) (y # B) =
     (if conflicting (fst x) (fst y) then smerge A (y # B)
      else if ours_first (fst x) (fst y) then (False, x) # smerge A (y # B)
      else (True, y) # smerge (x # A) B)"

lemma smerge_kept: "picked (smerge A B) = B \<and> subseq (picked (flip_marks (smerge A B))) A"
  by (induction A B rule: smerge.induct) auto

lemma achain_ge: "achain p A \<Longrightarrow> z \<in> set A \<Longrightarrow> p \<le> or_start (fst z) \<and> or_start (fst z) \<le> or_end (fst z)"
  by (induction p A rule: achain.induct) fastforce+

text \<open>When the base's replacement comes first, it also comes before every later one of ours.\<close>

lemma base_first_later:
  assumes "or_ok g" and "or_ok h" and "\<not> conflicting g h" and "\<not> ours_first g h"
    and "or_end g \<le> or_start k" and "or_ok k"
  shows "\<not> conflicting k h \<and> \<not> ours_first k h"
  using assms
  unfolding conflicting_iff [OF assms(1,2)] conflicting_iff [OF assms(6,2)] ours_first_def
    OffsetRange_isEmpty_def or_ok_def
  by presburger

lemma amerge_kept:
  assumes "achain p A" and "achain q B"
  shows "amerge (picked (flip_marks (smerge A B))) B = Some (smerge A B)"
  using assms
proof (induction A B arbitrary: p q rule: smerge.induct)
  case (1 B)
  then show ?case by simp
next
  case (2 x A)
  then show ?case by (simp add: flip_marks_def comp_def)
next
  case (3 x A y B)
  obtain g c h e where xy: "x = (g, c)" "y = (h, e)" by force
  have g: "or_ok g" "achain (or_end g) A" and h: "or_ok h" "achain (or_end h) B"
    using 3(4,5) by (auto simp: xy or_ok_def)
  show ?case
  proof (cases "conflicting g h")
    case True
    from "3.IH"(1) [OF _ g(2) "3.prems"(2)] True show ?thesis by (simp add: xy)
  next
    case nc: False
    show ?thesis
    proof (cases "ours_first g h")
      case True
      from "3.IH"(2) [OF _ _ g(2) "3.prems"(2)] nc True show ?thesis by (simp add: xy)
    next
      case False
      let ?K = "picked (flip_marks (smerge (x # A) B))"
      have IH: "amerge ?K B = Some (smerge (x # A) B)"
        using "3.IH"(3) [OF _ _ "3.prems"(1) h(2)] nc False by (simp add: xy)
      have smerge: "smerge (x # A) (y # B) = (True, y) # smerge (x # A) B" using nc False by (simp add: xy)
      show ?thesis
      proof (cases ?K)
        case Nil
        with IH show ?thesis unfolding smerge by (simp add: xy)
      next
        case (Cons z K)
        have "subseq (z # K) (x # A)" using smerge_kept [of "x # A" B] Cons by simp
        then have "z \<in> set (x # A)" by (rule list_emb_set [of "(=)"]) auto
        moreover have "or_end g \<le> or_start (fst z) \<and> or_ok (fst z)" if "z \<in> set A"
          using achain_ge [OF g(2) that] by (simp add: or_ok_def)
        ultimately have "\<not> conflicting (fst z) h \<and> \<not> ours_first (fst z) h"
          using base_first_later [OF g(1) h(1) nc False] nc False by (auto simp: xy)
        with IH Cons show ?thesis unfolding smerge by (simp add: xy)
      qed
    qed
  qed
qed

lemma amerge_smerge: "amerge A B = Some M \<Longrightarrow> smerge A B = M"
  by (induction A B arbitrary: M rule: amerge.induct) (auto split: if_splits)

lemma achain_subseq:
  assumes "subseq K A" and "achain p A"
  shows "achain p K \<and> aend p K \<le> aend p A"
  using assms
proof (induction K A arbitrary: p rule: list_emb.induct)
  case (list_emb_Nil A)
  then show ?case by (simp add: aend_ge)
next
  case (list_emb_Cons K A y)
  obtain g c where y: "y = (g, c)" by force
  have g: "p \<le> or_end g" "achain (or_end g) A" using list_emb_Cons.prems by (auto simp: y)
  have "achain (or_end g) K" "aend (or_end g) K \<le> aend (or_end g) A" using list_emb_Cons.IH [OF g(2)] by auto
  then show ?case using g achain_mono [of "or_end g" K p] aend_mono [of p "or_end g" K] by (simp add: y)
next
  case (list_emb_Cons2 x y K A)
  then show ?case by (cases y) auto
qed

context string_replacement_laws
begin

lemma delta_ok: "ok r \<Longrightarrow> OffsetRange_delta (rp_range ops r) d = Some (MkOffsetRange (start r + d) (endEx r + d))"
  using ok_range by (simp add: OffsetRange_delta_def or_ok_def)

lemma tryRebase_loop_correct:
  assumes "\<forall>r \<in> set E. ok r"
  shows "tryRebase_loop ops True E B d acc =
    (case amerge (view E) (sview B) of None \<Rightarrow> Some None | Some M \<Rightarrow> Some (Some (acc @ reps (moved d M))))"
    and "tryRebase_loop ops False E B d acc = Some (Some (acc @ reps (moved d (smerge (view E) (sview B)))))"
proof -
  have "tryRebase_loop ops True E B d acc =
      (case amerge (view E) (sview B) of None \<Rightarrow> Some None | Some M \<Rightarrow> Some (Some (acc @ reps (moved d M)))) \<and>
    tryRebase_loop ops False E B d acc = Some (Some (acc @ reps (moved d (smerge (view E) (sview B)))))"
    using assms
  proof (induction "length E + length B" arbitrary: E B d acc rule: less_induct)
    case less
    show ?case
    proof (cases E)
      case Nil
      then show ?thesis by simp
    next
      case (Cons r E')
      have r: "ok r" "\<forall>r \<in> set E'. ok r" using less.prems by (auto simp: Cons)
      show ?thesis
      proof (cases B)
        case Nil
        show ?thesis
          using less.hyps [of E' "[]" d "acc @ [MkStringReplacement (MkOffsetRange (start r + d) (endEx r + d)) (content r)]"] r
          by (cases E') (auto simp: Cons Nil delta_ok)
      next
        case B: (Cons b B')
        have IH1: "\<And>acc. tryRebase_loop ops True E' B d acc =
            (case amerge (view E') (sview B) of None \<Rightarrow> Some None | Some M \<Rightarrow> Some (Some (acc @ reps (moved d M)))) \<and>
          tryRebase_loop ops False E' B d acc = Some (Some (acc @ reps (moved d (smerge (view E') (sview B)))))"
          using less.hyps [of E' B] r Cons by simp
        have IH2: "\<And>d. tryRebase_loop ops True E B' d acc =
            (case amerge (view E) (sview B') of None \<Rightarrow> Some None | Some M \<Rightarrow> Some (Some (acc @ reps (moved d M)))) \<and>
          tryRebase_loop ops False E B' d acc = Some (Some (acc @ reps (moved d (smerge (view E) (sview B')))))"
          using less.hyps [of E B'] less.prems B by simp
        consider "conflicting (rp_range ops r) (sr_range b)"
          | "\<not> conflicting (rp_range ops r) (sr_range b)" "ours_first (rp_range ops r) (sr_range b)"
          | "\<not> conflicting (rp_range ops r) (sr_range b)" "\<not> ours_first (rp_range ops r) (sr_range b)"
          by blast
        then show ?thesis
        proof cases
          case 1
          with IH1 [of acc] show ?thesis by (simp add: Cons B)
        next
          case 2
          with IH1 [of "acc @ [MkStringReplacement (MkOffsetRange (start r + d) (endEx r + d)) (content r)]"] r
          show ?thesis
            by (auto simp: Cons B delta_ok ours_first_def split: option.splits)
        next
          case 3
          with IH2 [of "d + (ilen (sr_newText b) - OffsetRange_length (sr_range b))"] show ?thesis
            by (auto simp: Cons B ours_first_def OffsetRange_length_def split: option.splits)
        qed
      qed
    qed
  qed
  then show "tryRebase_loop ops True E B d acc =
      (case amerge (view E) (sview B) of None \<Rightarrow> Some None | Some M \<Rightarrow> Some (Some (acc @ reps (moved d M))))"
    and "tryRebase_loop ops False E B d acc = Some (Some (acc @ reps (moved d (smerge (view E) (sview B)))))"
    by blast+
qed

lemma tryRebase_correct:
  assumes "wf 0 E" and "achain 0 (sview B)"
  shows "BaseStringEdit_tryRebase ops E B =
    (case amerge (view E) (sview B) of None \<Rightarrow> Some None | Some M \<Rightarrow> Some (Some (reps (moved 0 M))))"
proof (cases "amerge (view E) (sview B)")
  case (Some M)
  have "achain 0 (map snd M)" using amerge_chain [OF Some wf_achain [OF assms(1)] assms(2)] by simp
  from split_chains(3) [OF this, of 0] have "StringEdit_new (reps (moved 0 M)) = Some (reps (moved 0 M))"
    by (simp add: StringEdit_new_reps)
  then show ?thesis using tryRebase_loop_correct(1) [of E B 0 "[]"] assms(1) Some
    by (simp add: BaseStringEdit_tryRebase_def BaseStringEdit_tryRebaseWith_def wf_def)
qed (use tryRebase_loop_correct(1) [of E B 0 "[]"] assms(1) in
  \<open>simp add: BaseStringEdit_tryRebase_def BaseStringEdit_tryRebaseWith_def wf_def\<close>)

end

text \<open>The two orders converge, and whether there is a conflict does not depend on the order.\<close>

lemma tryRebase_string:
  "achain 0 (sview E) \<Longrightarrow> achain 0 (sview B) \<Longrightarrow> BaseStringEdit_tryRebase string_ops E B =
    (case amerge (sview E) (sview B) of None \<Rightarrow> Some None | Some M \<Rightarrow> Some (Some (reps (moved 0 M))))"
  using string_edit.tryRebase_correct [of E B] by (simp add: string_wf_iff)

lemma StringEdit_apply_app:
  "achain 0 (sview E) \<Longrightarrow> aend 0 (sview E) \<le> ilen s \<Longrightarrow> StringEdit_apply E s = app 0 (sview E) s"
  using string_edit.apply_correct [of E s] by (simp add: string_wf_iff StringEdit_apply_def)

lemma StringEdit_apply_reps:
  "achain 0 A \<Longrightarrow> aend 0 A \<le> ilen s \<Longrightarrow> StringEdit_apply (reps A) s = app 0 A s"
  using StringEdit_apply_app [of "reps A" s] by simp

lemma rebase_converges:
  assumes A: "achain 0 (sview A)" "aend 0 (sview A) \<le> ilen s" and B: "achain 0 (sview B)" "aend 0 (sview B) \<le> ilen s"
  shows "BaseStringEdit_tryRebase string_ops A B = Some None \<and> BaseStringEdit_tryRebase string_ops B A = Some None \<or>
    (\<exists>A' B'. BaseStringEdit_tryRebase string_ops A B = Some (Some A') \<and>
      BaseStringEdit_tryRebase string_ops B A = Some (Some B') \<and>
      achain 0 (sview A') \<and> aend 0 (sview A') \<le> ilen (StringEdit_apply B s) \<and>
      achain 0 (sview B') \<and> aend 0 (sview B') \<le> ilen (StringEdit_apply A s) \<and>
      StringEdit_apply A' (StringEdit_apply B s) = StringEdit_apply B' (StringEdit_apply A s))"
proof (cases "amerge (sview A) (sview B)")
  case None
  then have "amerge (sview B) (sview A) = None" using amerge_sym [OF A(1) B(1)] by simp
  with None show ?thesis using tryRebase_string A(1) B(1) by simp
next
  case (Some M)
  then have flip: "amerge (sview B) (sview A) = Some (flip_marks M)" using amerge_sym [OF A(1) B(1)] by simp
  note c = amerge_converges [OF Some A(1) B(1) A(2) B(2)]
  note c' = amerge_converges [OF flip B(1) A(1) B(2) A(2)]
  show ?thesis
    using tryRebase_string [OF A(1) B(1)] tryRebase_string [OF B(1) A(1)] Some flip c c'
    by (simp add: StringEdit_apply_app [OF A] StringEdit_apply_app [OF B] StringEdit_apply_reps)
qed

section \<open>Swapping two edits\<close>

text \<open>
  Rebasing over the inverse of an edit and then over the edit itself gives back what one
  started with; the texts the inverse inserts only matter through their lengths.
\<close>

lemma moved_Pair_False:
  "moved d (map (Pair False) X) = map (\<lambda>(g, c). (MkOffsetRange (or_start g + d) (or_end g + d), c)) X"
  by (induction X) auto

lemma swap_back_ours:
  assumes "or_ok g" and "or_ok h" and "or_ok h'" and "or_start h' = or_start h + d"
    and "\<not> conflicting g h'" and "ours_first g h'"
  shows "ours_first (MkOffsetRange (or_start g - d) (or_end g - d)) h"
  using ours_first_before [OF assms(1,3,5,6)] assms(1,4)
  by (auto simp: ours_first_def or_ok_def OffsetRange_isEmpty_def)

lemma swap_back_base:
  assumes "or_ok k" and "or_ok h" and "\<not> conflicting k h" and "or_end h \<le> or_start k"
  shows "\<not> ours_first k h"
  using assms unfolding conflicting_iff [OF assms(1,2)] ours_first_def or_ok_def OffsetRange_isEmpty_def
  by presburger

lemma swap_back:
  assumes "achain p Y" and "achain (p + d) X" and "\<And>s e. s \<le> e \<Longrightarrow> ilen (f s e) = e - s"
    and "amerge X (ainv f d Y) = Some M1" and "amerge (moved (- d) M1) Y = Some M2"
  shows "moved d M2 = X"
  using assms(1,2,4,5)
proof (induction "length X + length Y" arbitrary: X Y p d M1 M2 rule: less_induct)
  case less
  show ?case
  proof (cases X)
    case Nil
    with less.prems(3) have "M1 = map (Pair True) (ainv f d Y)" by simp
    with less.prems(4) Nil show ?thesis by auto
  next
    case X: (Cons x X')
    obtain g c where x: "x = (g, c)" by force
    have g: "p + d \<le> or_start g" "or_ok g" "achain (or_end g) X'"
      using less.prems(2) by (auto simp: X x or_ok_def)
    show ?thesis
    proof (cases Y)
      case Nil
      have M1: "M1 = map (Pair False) X" using less.prems(3) by (simp add: Nil X)
      have M2: "M2 = map (Pair False) (moved (- d) M1)"
        using less.prems(4) by (cases "moved (- d) M1") (auto simp: Nil)
      show ?thesis unfolding M2 M1 moved_Pair_False by (simp add: comp_def case_prod_beta)
    next
      case Y: (Cons y Y')
      obtain h e where y: "y = (h, e)" by force
      have h: "p \<le> or_start h" "or_start h \<le> or_end h" "or_ok h" "achain (or_end h) Y'"
        using less.prems(1) by (auto simp: Y y or_ok_def)
      define d' where "d' = d + (ilen e - (or_end h - or_start h))"
      define h' where "h' = MkOffsetRange (or_start h + d) (or_start h + d + ilen e)"
      have h'_ok: "or_ok h'" "or_start h' = or_start h + d" "or_end h' = or_end h + d'"
        by (simp_all add: h'_def or_ok_def d'_def)
      have inv: "ainv f d Y = (h', f (or_start h) (or_end h)) # ainv f d' Y'"
        by (simp add: Y y h'_def d'_def)
      have nc: "\<not> conflicting g h'" using less.prems(3) by (auto simp: X x inv split: if_splits)
      show ?thesis
      proof (cases "ours_first g h'")
        case True
        then obtain M1' where M1': "amerge X' (ainv f d Y) = Some M1'" "M1 = (False, x) # M1'"
          using less.prems(3) nc by (auto simp: X x inv)
        let ?g = "MkOffsetRange (or_start g - d) (or_end g - d)"
        have mv: "moved (- d) M1 = (?g, c) # moved (- d) M1'" by (simp add: M1' x)
        have "ours_first ?g h" using swap_back_ours [OF g(2) h(3) h'_ok(1,2) nc True] .
        then obtain M2' where M2': "amerge (moved (- d) M1') Y = Some M2'" "M2 = (False, ?g, c) # M2'"
          using less.prems(4) unfolding mv by (auto simp: Y y split: if_splits)
        have "or_end g \<le> or_start h'" using ours_first_before [OF g(2) h'_ok(1) nc True] .
        then have "achain (or_end g - d) Y" using h h'_ok by (simp add: Y y)
        from less.hyps [OF _ this _ M1'(1) M2'(1)] g have "moved d M2' = X'" by (simp add: X)
        then show ?thesis by (simp add: M2' X x)
      next
        case False
        then obtain M1' where M1': "amerge X (ainv f d' Y') = Some M1'"
          "M1 = (True, h', f (or_start h) (or_end h)) # M1'"
          using less.prems(3) nc by (auto simp: X x inv)
        have "- d + (ilen (f (or_start h) (or_end h)) - (or_end h' - or_start h')) = - d'"
          using assms(3) [OF h(2)] by (simp add: h'_def d'_def)
        then have mv: "moved (- d) M1 = moved (- d') M1'" by (simp add: M1')
        have "ours_first h' g" using ours_first_total [OF g(2) h'_ok(1) nc] False by simp
        from ours_first_before [OF h'_ok(1) g(2) _ this] nc conflicting_sym [OF g(2) h'_ok(1)]
        have "or_end h + d' \<le> or_start g" using h'_ok(3) by simp
        then have aX: "achain (or_end h + d') X" using less.prems(2) by (simp add: X x)
        have "achain (or_end h + d') (map snd M1')"
          using amerge_chain [OF M1'(1) aX ainv_chain [OF h(4)]] by simp
        from split_chains(3) [OF this, of "- d'"] have Z: "achain (or_end h) (moved (- d') M1')" by simp
        have "\<exists>M2'. amerge (moved (- d') M1') Y' = Some M2' \<and> M2 = (True, y) # M2'"
        proof (cases "moved (- d') M1'")
          case Nil
          with less.prems(4) show ?thesis unfolding mv by (auto simp: Y)
        next
          case (Cons z Zs)
          obtain k l where z: "z = (k, l)" by force
          have k: "or_end h \<le> or_start k" "or_ok k" using Z by (auto simp: Cons z or_ok_def)
          have "\<not> conflicting k h" using less.prems(4) unfolding mv by (auto simp: Cons z Y y split: if_splits)
          with swap_back_base [OF k(2) h(3) this k(1)] less.prems(4) show ?thesis
            unfolding mv by (auto simp: Cons z Y y)
        qed
        then obtain M2' where M2': "amerge (moved (- d') M1') Y' = Some M2'" "M2 = (True, y) # M2'" by blast
        from less.hyps [OF _ h(4) aX M1'(1) M2'(1)] have "moved d' M2' = X" by (simp add: X Y)
        then show ?thesis by (simp add: M2' y d'_def)
      qed
    qed
  qed
qed

lemma trySwap_effect:
  assumes e1: "achain 0 (sview e1)" and e2: "achain 0 (sview e2)"
    and swap: "BaseStringEdit_trySwap e1 e2 = Some (Some (r1, r2))"
  shows "achain 0 (sview r1) \<and> achain 0 (sview r2) \<and>
    (\<forall>s. aend 0 (sview e1) \<le> ilen s \<and> aend 0 (sview e2) \<le> ilen (app 0 (sview e1) s) \<longrightarrow>
      aend 0 (sview r1) \<le> ilen s \<and> aend 0 (sview r2) \<le> ilen (app 0 (sview r1) s) \<and>
      app 0 (sview r2) (app 0 (sview r1) s) = app 0 (sview e2) (app 0 (sview e1) s))"
proof -
  let ?f = "\<lambda>s e. replicate (nat (e - s)) (32 :: code_unit)"
  let ?I = "ainv ?f 0 (sview e1)"
  have I: "achain 0 ?I" using ainv_chain [OF e1, of 0 ?f] by simp
  have inv: "BaseStringEdit_inverseOnSlice string_ops ?f e1 = Some (reps ?I)"
    using string_edit.inverseOnSlice_correct [of e1 ?f] e1 by (simp add: string_wf_iff)
  obtain M1 where M1: "amerge (sview e2) ?I = Some M1" "r1 = reps (moved 0 M1)"
    and t2: "BaseStringEdit_tryRebase string_ops e1 r1 = Some (Some r2)"
    using swap tryRebase_string [OF e2, of "reps ?I"] I inv
    by (auto simp: BaseStringEdit_trySwap_def bind_eq_Some_conv split: option.splits)
  have m1: "achain 0 (map snd M1)" "picked M1 = ?I"
    using amerge_chain [OF M1(1) e2 I] amerge_picked [OF M1(1)] by auto
  have r1: "achain 0 (sview r1)" using split_chains(3) [OF m1(1), of 0] by (simp add: M1(2))
  obtain N where N: "amerge (sview e1) (sview r1) = Some N" "r2 = reps (moved 0 N)"
    using t2 tryRebase_string [OF e1 r1] by (auto split: option.splits)
  have r2: "achain 0 (sview r2)"
    using split_chains(3) [of 0 N 0] amerge_chain [OF N(1) e1 r1] by (simp add: N(2))
  have flip: "amerge (moved (- 0) M1) (sview e1) = Some (flip_marks N)"
    using amerge_sym [OF e1 r1] N(1) by (simp add: M1(2))
  have restored: "moved 0 (flip_marks N) = sview e2"
    by (rule swap_back [OF e1 _ _ M1(1) flip]) (use e2 in auto)
  have "aend 0 (sview r1) \<le> ilen s \<and> aend 0 (sview r2) \<le> ilen (app 0 (sview r1) s) \<and>
      app 0 (sview r2) (app 0 (sview r1) s) = app 0 (sview e2) (app 0 (sview e1) s)"
    if b: "aend 0 (sview e1) \<le> ilen s" "aend 0 (sview e2) \<le> ilen (app 0 (sview e1) s)" for s
  proof -
    let ?t = "app 0 (sview e1) s"
    have lt: "ilen ?t = ilen s + adelta (sview e1)" using ilen_app [OF e1, of s] b by simp
    have eI: "aend 0 ?I = aend 0 (sview e1) + adelta (sview e1)" using aend_ainv [OF e1, of 0 ?f] by simp
    have "adelta ?I = - adelta (sview e1)"
    proof -
      have "adelta (ainv ?f d E) = - adelta E" if "achain p E" for p d and E :: "code_unit aedit"
        using that by (induction p E arbitrary: d rule: achain.induct) auto
      with e1 show ?thesis by blast
    qed
    then have lI: "ilen (app 0 ?I ?t) = ilen s" using ilen_app [OF I, of ?t] eI lt b by simp
    have "aend 0 (map snd M1) \<le> 0 + ilen ?t"
      using amerge_chain [OF M1(1) e2 I] b eI lt by linarith
    with split_correct [OF m1(1), of 0] lI have a1: "aend 0 (sview r1) \<le> ilen s"
      by (auto simp: M1(2) m1(2))
    note c = amerge_converges [OF N(1) e1 r1 b(1) a1]
    show ?thesis using a1 c restored by (simp add: N(2))
  qed
  with r1 r2 show ?thesis by blast
qed

lemma trySwap_returns:
  assumes e1: "achain 0 (sview e1)" and e2: "achain 0 (sview e2)"
  shows "BaseStringEdit_trySwap e1 e2 \<noteq> None"
proof -
  let ?f = "\<lambda>s e. replicate (nat (e - s)) (32 :: code_unit)"
  let ?I = "ainv ?f 0 (sview e1)"
  have I: "achain 0 ?I" using ainv_chain [OF e1, of 0 ?f] by simp
  have inv: "BaseStringEdit_inverseOnSlice string_ops ?f e1 = Some (reps ?I)"
    using string_edit.inverseOnSlice_correct [of e1 ?f] e1 by (simp add: string_wf_iff)
  show ?thesis
  proof (cases "amerge (sview e2) ?I")
    case (Some M)
    have "achain 0 (moved 0 M)"
      using split_chains(3) [of 0 M 0] amerge_chain [OF Some e2 I] by simp
    then show ?thesis
      using inv Some tryRebase_string [OF e2, of "reps ?I"] I tryRebase_string [OF e1, of "reps (moved 0 M)"]
      by (auto simp: BaseStringEdit_trySwap_def split: option.splits)
  qed (use inv tryRebase_string [OF e2, of "reps ?I"] I in \<open>simp add: BaseStringEdit_trySwap_def\<close>)
qed

end
