(* ===== verification/EditProperties.thy ===== *)
theory EditProperties
  imports Rebasing
begin

text \<open>
  The properties of the edit classes. The lemmas before them carry the generic results of
  \<open>Edits\<close> to the code's functions and prove what only string edits have: common prefixes and
  suffixes, \<open>normalizeOnSource\<close>, and the batches of \<open>composeSequentialReplacements\<close>. An
  edit is applicable to a text of length \<open>n\<close> when its ranges are sorted, disjoint and lie in
  the text (\<open>ranges_within n\<close>).
\<close>

section \<open>Ranges of concrete edits\<close>

lemma map_fst_sview [simp]: "map fst (sview E) = map sr_range E"
  by (simp add: sview_def comp_def)

lemma within_string:
  "ranges_within (ilen s) (map sr_range E) \<longleftrightarrow> achain 0 (sview E) \<and> aend 0 (sview E) \<le> ilen s"
  using ranges_within_chain [of "ilen s" "sview E"] by simp

lemma sorted_string: "ranges_sorted 0 (map sr_range E) \<longleftrightarrow> achain 0 (sview E)"
  by (simp add: achain_sorted)

section \<open>Common prefixes and suffixes\<close>

lemma commonPrefixLength_loop_spec:
  assumes "i \<le> len" and "len \<le> length a" and "len \<le> length b" and "take i a = take i b"
  shows "let n = commonPrefixLength_loop a b len i in
    i \<le> n \<and> n \<le> len \<and> take n a = take n b \<and> (n < len \<longrightarrow> a ! n \<noteq> b ! n)"
  using assms
proof (induction a b len i rule: commonPrefixLength_loop.induct)
  case (1 a b len i)
  show ?case
  proof (cases "i < len \<and> a ! i = b ! i")
    case True
    then have "take (i + 1) a = take (i + 1) b" using 1 by (simp add: take_Suc_conv_app_nth)
    with 1 True show ?thesis
      by (subst commonPrefixLength_loop.simps) (auto simp: Let_def)
  next
    case False
    with 1 show ?thesis by (subst commonPrefixLength_loop.simps) (auto simp: Let_def)
  qed
qed

lemma commonPrefixLength_spec:
  fixes a b :: js_string
  defines "n \<equiv> commonPrefixLength a b"
  shows "n \<le> length a" and "n \<le> length b" and "take n a = take n b"
    and "n < length a \<Longrightarrow> n < length b \<Longrightarrow> a ! n \<noteq> b ! n"
  using commonPrefixLength_loop_spec [of 0 "min (length a) (length b)" a b]
  by (auto simp: n_def commonPrefixLength_def Let_def)

lemma commonSuffixLength_loop_rev:
  "len \<le> length a \<Longrightarrow> len \<le> length b \<Longrightarrow>
    commonSuffixLength_loop a b len i = commonPrefixLength_loop (rev a) (rev b) len i"
proof (induction a b len i rule: commonSuffixLength_loop.induct)
  case (1 a b len i)
  show ?case
    using 1 by (subst commonSuffixLength_loop.simps, subst commonPrefixLength_loop.simps) (auto simp: rev_nth)
qed

lemma commonSuffixLength_rev: "commonSuffixLength a b = commonPrefixLength (rev a) (rev b)"
  by (simp add: commonSuffixLength_def commonPrefixLength_def commonSuffixLength_loop_rev)

lemma commonSuffixLength_spec:
  fixes a b :: js_string
  defines "n \<equiv> commonSuffixLength a b"
  shows "n \<le> length a" and "n \<le> length b" and "drop (length a - n) a = drop (length b - n) b"
    and "n < length a \<Longrightarrow> n < length b \<Longrightarrow> a ! (length a - 1 - n) \<noteq> b ! (length b - 1 - n)"
  using commonPrefixLength_spec [of "rev a" "rev b"]
  by (auto simp: n_def commonSuffixLength_rev take_rev rev_nth)

section \<open>Sequential replacements\<close>

text \<open>The replacements are applied one after the other, each to the text the others left.\<close>

fun replace_all :: "string_replacement list \<Rightarrow> js_string \<Rightarrow> js_string" where
  "replace_all [] s = s"
| "replace_all (r # rs) s = replace_all rs (BaseStringReplacement_replace string_ops r s)"

fun all_within :: "string_replacement list \<Rightarrow> js_string \<Rightarrow> bool" where
  "all_within [] s \<longleftrightarrow> True"
| "all_within (r # rs) s \<longleftrightarrow> ranges_within (ilen s) [sr_range r] \<and>
     all_within rs (BaseStringReplacement_replace string_ops r s)"

lemma replace_app:
  assumes "ranges_within (ilen s) [sr_range r]"
  shows "BaseStringReplacement_replace string_ops r s = app 0 (sview [r]) s"
  using assms by (simp add: BaseStringReplacement_replace_def ranges_within_def)

lemma replace_before:
  assumes A: "achain 0 (sview A)" "aend 0 (sview A) \<le> ilen s" and r: "or_ok (sr_range r)" "0 \<le> or_start (sr_range r)"
    and before: "A = [] \<or> OffsetRange_isBefore (sr_range r) (sr_range (hd A))"
    and within: "ranges_within (ilen (app 0 (sview A) s)) [sr_range r]"
  shows "achain 0 (sview (r # A))" and "aend 0 (sview (r # A)) \<le> ilen s"
    and "app 0 (sview (r # A)) s = BaseStringReplacement_replace string_ops r (app 0 (sview A) s)"
proof -
  let ?e = "or_end (sr_range r)"
  have chain: "achain ?e (sview A)"
    using A(1) before by (cases A) (auto simp: OffsetRange_isBefore_def)
  then show "achain 0 (sview (r # A))" using r by (simp add: or_ok_def)
  show "aend 0 (sview (r # A)) \<le> ilen s"
    using A(2) within by (cases A) (auto simp: ranges_within_def)
  then have e: "?e \<le> ilen s" using aend_ge [OF chain] by simp
  have "0 \<le> ?e" using r by (simp add: or_ok_def)
  then have "app 0 (sview A) s = itake ?e s @ app ?e (sview A) (idrop ?e s)"
    using app_shift [of 0 ?e "sview A" s] chain e by simp
  moreover have "itake (or_start (sr_range r)) (itake ?e s) = itake (or_start (sr_range r)) s"
    using r by (simp add: itake_itake or_ok_def)
  ultimately show "app 0 (sview (r # A)) s = BaseStringReplacement_replace string_ops r (app 0 (sview A) s)"
    using replace_app [OF within] r e \<open>0 \<le> ?e\<close>
    by (simp add: itake_append idrop_append idrop_itake or_ok_def)
qed

lemma compose2_app:
  assumes "achain 0 (sview A)" and "achain 0 (sview B)"
  obtains C where "StringEdit_compose2 A B = Some C" and "achain 0 (sview C)"
    and "\<And>s. aend 0 (sview A) \<le> ilen s \<Longrightarrow> aend 0 (sview B) \<le> ilen (app 0 (sview A) s) \<Longrightarrow>
      aend 0 (sview C) \<le> ilen s \<and> app 0 (sview C) s = app 0 (sview B) (app 0 (sview A) s)"
  using string_edit.compose_correct [of A B] assms
  by (auto simp: string_wf_iff StringEdit_compose2_def)

lemma compose2_equal:
  assumes "achain 0 (sview A)" and "achain 0 (sview B)" and "achain 0 (sview C)" and "achain 0 (sview D)"
    and ex: "\<And>s. aend 0 (sview A) \<le> ilen s \<Longrightarrow> aend 0 (sview B) \<le> ilen (app 0 (sview A) s) \<Longrightarrow>
      aend 0 (sview C) \<le> ilen s \<and> aend 0 (sview D) \<le> ilen (app 0 (sview C) s) \<and>
      app 0 (sview D) (app 0 (sview C) s) = app 0 (sview B) (app 0 (sview A) s)"
  shows "\<exists>e. StringEdit_compose2 A B = Some e \<and> StringEdit_compose2 C D = Some e"
proof -
  obtain L where L: "StringEdit_compose2 A B = Some L" "achain 0 (sview L)"
    "\<And>s. aend 0 (sview A) \<le> ilen s \<Longrightarrow> aend 0 (sview B) \<le> ilen (app 0 (sview A) s) \<Longrightarrow>
      aend 0 (sview L) \<le> ilen s \<and> app 0 (sview L) s = app 0 (sview B) (app 0 (sview A) s)"
    using compose2_app [OF assms(1,2)] by blast
  obtain R where R: "StringEdit_compose2 C D = Some R" "achain 0 (sview R)"
    "\<And>s. aend 0 (sview C) \<le> ilen s \<Longrightarrow> aend 0 (sview D) \<le> ilen (app 0 (sview C) s) \<Longrightarrow>
      aend 0 (sview R) \<le> ilen s \<and> app 0 (sview R) s = app 0 (sview D) (app 0 (sview C) s)"
    using compose2_app [OF assms(3,4)] by blast
  define n where "n = nat (aend 0 (sview A)) + nat (aend 0 (sview B)) + nat (- adelta (sview A))"
  have "L = R"
  proof (rule string_edit_canonical.same_effect_equal)
    show "string_edit.wf 0 L" "string_edit.wf 0 R" using L(2) R(2) by (auto simp: string_wf_iff)
    show "agap 0 (string_edit.view L)" "agap 0 (string_edit.view R)"
      using string_edit_canonical.compose_agap [of A B L] string_edit_canonical.compose_agap [of C D R]
        assms(1-4) L(1) R(1) by (auto simp: string_wf_iff StringEdit_compose2_def)
    fix s :: js_string assume "n \<le> length s"
    then have n: "aend 0 (sview A) \<le> ilen s" "aend 0 (sview B) \<le> ilen s + adelta (sview A)"
      unfolding n_def by linarith+
    then have "aend 0 (sview B) \<le> ilen (app 0 (sview A) s)" using ilen_app [OF assms(1), of s] by simp
    with L(3) R(3) ex n(1) show "app 0 (string_edit.view L) s = app 0 (string_edit.view R) s" by simp
  qed
  with L(1) R(1) show ?thesis by simp
qed

lemma composeSequential_loop_correct:
  assumes "achain 0 (sview E)" and "aend 0 (sview E) \<le> ilen s"
    and "achain 0 (sview (rev cur))" and "aend 0 (sview (rev cur)) \<le> ilen (app 0 (sview E) s)"
    and "all_within rs (app 0 (sview (rev cur)) (app 0 (sview E) s))"
  shows "\<exists>E' cur'. composeSequential_loop rs E cur = Some (E', cur') \<and>
    achain 0 (sview E') \<and> aend 0 (sview E') \<le> ilen s \<and>
    achain 0 (sview (rev cur')) \<and> aend 0 (sview (rev cur')) \<le> ilen (app 0 (sview E') s) \<and>
    app 0 (sview (rev cur')) (app 0 (sview E') s) =
      replace_all rs (app 0 (sview (rev cur)) (app 0 (sview E) s))"
  using assms
proof (induction rs arbitrary: E cur)
  case (Cons r rs)
  let ?t = "app 0 (sview E) s" and ?u = "app 0 (sview (rev cur)) (app 0 (sview E) s)"
  have r: "ranges_within (ilen ?u) [sr_range r]" "or_ok (sr_range r)" "0 \<le> or_start (sr_range r)"
    and rs: "all_within rs (BaseStringReplacement_replace string_ops r ?u)"
    using Cons.prems(5) by (auto simp: ranges_within_def or_ok_def)
  show ?case
  proof (cases "cur = [] \<or> OffsetRange_isBefore (sr_range r) (sr_range (last cur))")
    case True
    then have "rev cur = [] \<or> OffsetRange_isBefore (sr_range r) (sr_range (hd (rev cur)))"
      by (auto simp: hd_rev)
    note step = replace_before [OF Cons.prems(3,4) r(2,3) this r(1)]
    from Cons.IH [OF Cons.prems(1,2), of "cur @ [r]"] step rs True show ?thesis by simp
  next
    case False
    have new: "StringEdit_new (rev cur) = Some (rev cur)"
      using StringEdit_new_reps [OF Cons.prems(3)] by simp
    obtain C where C: "StringEdit_compose2 E (rev cur) = Some C" "achain 0 (sview C)"
      "\<And>s. aend 0 (sview E) \<le> ilen s \<Longrightarrow> aend 0 (sview (rev cur)) \<le> ilen (app 0 (sview E) s) \<Longrightarrow>
        aend 0 (sview C) \<le> ilen s \<and> app 0 (sview C) s = app 0 (sview (rev cur)) (app 0 (sview E) s)"
      using compose2_app [OF Cons.prems(1,3)] by blast
    have C': "aend 0 (sview C) \<le> ilen s" "app 0 (sview C) s = ?u" using C(3) Cons.prems(2,4) by auto
    have one: "achain 0 (sview (rev [r]))" "aend 0 (sview (rev [r])) \<le> ilen (app 0 (sview C) s)"
      "app 0 (sview (rev [r])) (app 0 (sview C) s) = BaseStringReplacement_replace string_ops r ?u"
      using r replace_app [OF r(1)] by (auto simp: C'(2) ranges_within_def or_ok_def)
    from Cons.IH [OF C(2) C'(1) one(1,2)] rs one(3) False new C(1) show ?thesis by simp
  qed
qed auto

section \<open>Normalizing on a source\<close>

lemma js_substring_all [simp]: "js_substring s 0 (ilen s) = s"
  by simp

lemma itake_ilen_diff: "n \<le> length s \<Longrightarrow> itake (ilen s - int n) s = take (length s - n) s"
  by (simp add: itake_def nat_diff_distrib')

lemma removeCommonSuffix_whole:
  fixes src t :: js_string
  defines "n \<equiv> commonSuffixLength src t"
  shows "BaseStringReplacement_removeCommonSuffix string_ops (MkStringReplacement (MkOffsetRange 0 (ilen src)) t) src =
    Some (MkStringReplacement (MkOffsetRange 0 (ilen src - int n)) (take (length t - n) t))"
  using commonSuffixLength_spec(1,2) [of src t, folded n_def]
  by (simp add: BaseStringReplacement_removeCommonSuffix_def OffsetRange_substring_def n_def [symmetric]
      OffsetRange_deltaEnd_def StringReplacement_slice_def itake_ilen_diff)

lemma removeCommonPrefix_start:
  fixes src t :: js_string and m :: nat
  assumes "m \<le> length src"
  defines "k \<equiv> commonPrefixLength (take m src) t"
  shows "BaseStringReplacement_removeCommonPrefix string_ops (MkStringReplacement (MkOffsetRange 0 (int m)) t) src =
    Some (MkStringReplacement (MkOffsetRange (int k) (int m)) (drop k t))"
proof -
  have "js_substring src 0 (int m) = take m src" using assms(1) by (simp add: itake_def)
  moreover have "k \<le> m" "k \<le> length t"
    using commonPrefixLength_spec(1,2) [of "take m src" t, folded k_def] assms(1) by auto
  ultimately show ?thesis
    by (simp add: BaseStringReplacement_removeCommonPrefix_def OffsetRange_substring_def k_def [symmetric]
        OffsetRange_deltaStart_def StringReplacement_slice_def idrop_def)
qed

lemma hd_drop_nth: "k < length xs \<Longrightarrow> hd (drop k xs) = xs ! k"
  by (simp add: hd_drop_conv_nth)

text \<open>What \<open>removeCommonSuffixAndPrefix\<close> makes of replacing the whole source.\<close>

lemma trim_whole:
  fixes src t :: js_string
  obtains k m t' where
    "BaseStringReplacement_removeCommonSuffixAndPrefix string_ops (MkStringReplacement (MkOffsetRange 0 (ilen src)) t) src =
       Some (MkStringReplacement (MkOffsetRange (int k) (int m)) t')"
    and "k \<le> m" and "m \<le> length src" and "take k src @ t' @ drop m src = t"
    and "k < m \<Longrightarrow> t' \<noteq> [] \<Longrightarrow> src ! k \<noteq> hd t' \<and> src ! (m - 1) \<noteq> last t'"
proof -
  define n where "n = commonSuffixLength src t"
  define m where "m = length src - n"
  define u where "u = take (length t - n) t"
  define k where "k = commonPrefixLength (take m src) u"
  note S = commonSuffixLength_spec [of src t, folded n_def]
  note P = commonPrefixLength_spec [of "take m src" u, folded k_def]
  have m: "m \<le> length src" "ilen src - int n = int m" using S(1) by (auto simp: m_def)
  have k: "k \<le> m" "k \<le> length u" using P(1,2) m(1) by auto
  have trim: "BaseStringReplacement_removeCommonSuffixAndPrefix string_ops
      (MkStringReplacement (MkOffsetRange 0 (ilen src)) t) src =
    Some (MkStringReplacement (MkOffsetRange (int k) (int m)) (drop k u))"
    using removeCommonPrefix_start [OF m(1), of u]
    by (simp add: BaseStringReplacement_removeCommonSuffixAndPrefix_def removeCommonSuffix_whole
        n_def [symmetric] m(2) u_def [symmetric] k_def [symmetric])
  have "take k src = take k u" using P(3) k(1) by (simp add: min_def)
  then have "take k src @ drop k u @ drop m src = u @ drop m src" by (metis append_assoc append_take_drop_id)
  also have "\<dots> = t" using S(3) by (simp add: u_def m_def)
  finally have t: "take k src @ drop k u @ drop m src = t" .
  have "src ! k \<noteq> hd (drop k u) \<and> src ! (m - 1) \<noteq> last (drop k u)" if "k < m" "drop k u \<noteq> []"
  proof
    have k': "k < length u" using that(2) by simp
    then show "src ! k \<noteq> hd (drop k u)" using P(4) that(1) m(1) by (simp add: hd_drop_nth)
    have "last (drop k u) = last u" using k' by simp
    also have "last u = t ! (length t - 1 - n)"
      using k' by (subst last_conv_nth) (auto simp: u_def)
    finally have "last (drop k u) = t ! (length t - 1 - n)" .
    moreover have "n < length src" "n < length t" using that(1) k' by (auto simp: m_def u_def)
    ultimately show "src ! (m - 1) \<noteq> last (drop k u)" using S(4) by (simp add: m_def diff_commute)
  qed
  with that [OF trim k(1) m(1) t] show ?thesis by blast
qed

section \<open>Offsets and new ranges\<close>

lemma js_substring_itake:
  assumes "0 \<le> s" and "e - s = ilen c" and "itake (ilen c) (idrop s xs) = c"
  shows "js_substring xs s e = c"
proof (cases "c = []")
  case True
  with assms show ?thesis by (simp add: js_substring_def)
next
  case False
  have "ilen c = max 0 (min (ilen c) (max 0 (ilen xs - max 0 s)))"
    by (metis assms(3) ilen_idrop ilen_itake)
  with False assms(1,2) have "e \<le> ilen xs" by (cases "ilen xs \<le> s") auto
  with assms show ?thesis by simp
qed

section \<open>Array, length and annotated edits\<close>

definition arrview :: "'a array_replacement list \<Rightarrow> 'a aedit" where
  "arrview E = map (\<lambda>r. (arr_range r, arr_newValue r)) E"

lemma arrview_simps [simp]:
  "arrview [] = []" "arrview (r # E) = (arr_range r, arr_newValue r) # arrview E"
  "map fst (arrview E) = map arr_range E" "array_edit.view E = arrview E"
  by (simp_all add: arrview_def array_edit.view_def comp_def)

lemma array_wf: "array_edit.wf p E \<longleftrightarrow> achain p (arrview E)"
proof -
  have "\<forall>r \<in> set E. array_ok r" if "achain p (arrview E)"
    using that by (induction E arbitrary: p) (auto simp: array_ok_def or_ok_def)
  then show ?thesis by (auto simp: array_edit.wf_def)
qed

lemma within_array:
  "ranges_within (ilen xs) (map arr_range E) \<longleftrightarrow> achain 0 (arrview E) \<and> aend 0 (arrview E) \<le> ilen xs"
  using ranges_within_chain [of "ilen xs" "arrview E"] by simp

lemma array_apply_loop_correct:
  assumes "achain p (arrview E)" and "0 \<le> p" and "aend p (arrview E) \<le> ilen xs"
  shows "array_apply_loop xs E p acc = acc @ app p (arrview E) (idrop p xs)"
  using assms
proof (induction E arbitrary: p acc)
  case (Cons r E)
  let ?g = "arr_range r"
  have g: "p \<le> or_start ?g" "or_start ?g \<le> or_end ?g" "achain (or_end ?g) (arrview E)" using Cons.prems by auto
  have e: "or_end ?g \<le> ilen xs" using aend_ge [OF g(3)] Cons.prems(3) by simp
  have "idrop (or_end ?g) xs = idrop (or_end ?g - p) (idrop p xs)"
    using g Cons.prems(2) by (simp add: idrop_idrop)
  with Cons.IH [OF g(3)] Cons.prems(2,3) g e show ?case by simp
qed simp

lemma ArrayEdit_apply_app:
  "achain 0 (arrview E) \<Longrightarrow> aend 0 (arrview E) \<le> ilen xs \<Longrightarrow> ArrayEdit_apply E xs = app 0 (arrview E) xs"
  using array_apply_loop_correct [of 0 E xs "[]"] by (simp add: ArrayEdit_apply_def)

definition arrreps :: "'a aedit \<Rightarrow> 'a array_replacement list" where
  "arrreps A = map (\<lambda>(g, c). MkArrayReplacement g c) A"

lemma arrview_arrreps [simp]: "arrview (arrreps A) = A"
  by (simp add: arrview_def arrreps_def comp_def case_prod_beta)

lemma array_inverse_loop_correct:
  "array_inverse_loop xs E d acc = Some (acc @ arrreps (ainv (js_slice xs) d (arrview E)))"
  by (induction E arbitrary: d acc) (auto simp: OffsetRange_ofStartAndLength_def OffsetRange_length_def arrreps_def)

definition lenview :: "'a \<Rightarrow> length_replacement list \<Rightarrow> 'a aedit" where
  "lenview fillItem E = map (\<lambda>r. (len_range r, length_content fillItem r)) E"

lemma lenview_simps [simp]:
  "lenview x [] = []" "lenview x (r # E) = (len_range r, length_content x r) # lenview x E"
  "map fst (lenview x E) = map len_range E" "length_edit.view x E = lenview x E"
  by (simp_all add: lenview_def length_edit.view_def comp_def)

lemma length_ok_all:
  assumes "\<forall>r \<in> set E. 0 \<le> len_newLength r" and "achain p (lenview x E)"
  shows "\<forall>r \<in> set E. length_ok r"
  using assms by (induction E arbitrary: p) (auto simp: length_ok_def or_ok_def)

lemma map_js_get: "0 \<le> a \<Longrightarrow> a \<le> b \<Longrightarrow> b \<le> ilen xs \<Longrightarrow> map (js_get xs) [a .. b - 1] = map Some (itake (b - a) (idrop a xs))"
proof (induction "nat (b - a)" arbitrary: b)
  case 0
  then show ?case by simp
next
  case (Suc n)
  then have ab: "a < b" by simp
  then have "[a .. b - 1] = [a .. b - 1 - 1] @ [b - 1]" by (simp add: upto_rec2)
  moreover have "map (js_get xs) [a .. b - 1 - 1] = map Some (itake (b - 1 - a) (idrop a xs))"
    using Suc.hyps(1) [of "b - 1"] Suc.hyps(2) Suc.prems ab by simp
  moreover have "itake (b - a) (idrop a xs) = itake (b - 1 - a) (idrop a xs) @ itake 1 (idrop (b - 1 - a) (idrop a xs))"
    using itake_add [of "b - 1 - a" 1 "idrop a xs"] ab by simp
  moreover have "itake 1 (idrop (b - 1 - a) (idrop a xs)) = [xs ! nat (b - 1)]"
  proof -
    have "idrop (b - 1 - a) (idrop a xs) = idrop (b - 1) xs" using Suc.prems ab by (simp add: idrop_idrop)
    moreover have "idrop (b - 1) xs = xs ! nat (b - 1) # idrop b xs"
    proof -
      have "nat b = Suc (nat (b - 1))" "nat (b - 1) < length xs" using Suc.prems ab by auto
      then show ?thesis by (simp add: idrop_def Cons_nth_drop_Suc)
    qed
    ultimately show ?thesis by simp
  qed
  ultimately show ?case using Suc.prems ab by (simp add: js_get_def)
qed

lemma applyArray_loop_correct:
  assumes "achain p (lenview x E)" and "0 \<le> p" and "aend p (lenview x E) \<le> ilen xs"
  shows "applyArray_loop xs x E p acc = acc @ map Some (app p (lenview x E) (idrop p xs))"
  using assms
proof (induction E arbitrary: p acc)
  case Nil
  then show ?case by (simp add: map_js_get)
next
  case (Cons r E)
  let ?g = "len_range r"
  have g: "p \<le> or_start ?g" "or_start ?g \<le> or_end ?g" "achain (or_end ?g) (lenview x E)" using Cons.prems by auto
  have e: "or_end ?g \<le> ilen xs" using aend_ge [OF g(3)] Cons.prems(3) by simp
  have "idrop (or_end ?g) xs = idrop (or_end ?g - p) (idrop p xs)"
    using g Cons.prems(2) by (simp add: idrop_idrop)
  with Cons.IH [OF g(3)] Cons.prems(2,3) g e show ?case
    by (simp add: map_js_get length_content_def)
qed

lemma LengthEdit_applyArray_app:
  assumes "\<forall>r \<in> set E. 0 \<le> len_newLength r" and "ranges_within (ilen xs) (map len_range E)"
  shows "LengthEdit_applyArray E xs x = Some (map Some (app 0 (lenview x E) xs))"
proof -
  have E: "achain 0 (lenview x E)" "aend 0 (lenview x E) \<le> ilen xs"
    using ranges_within_chain [of "ilen xs" "lenview x E"] assms(2) by auto
  have "BaseEdit_getNewDataLength length_ops E (ilen xs) = ilen (app 0 (lenview x E) xs)"
    using length_edit.getNewDataLength_correct [of x E xs] length_ok_all [OF assms(1) E(1)] E
    by (simp add: length_edit.wf_def)
  with applyArray_loop_correct [OF E(1) _ E(2), of "[]"] show ?thesis
    by (simp add: LengthEdit_applyArray_def)
qed

definition asview :: "'d annotated_replacement list \<Rightarrow> code_unit aedit" where
  "asview E = map (\<lambda>r. (asr_range r, asr_newText r)) E"

lemma asview_simps [simp]:
  "asview [] = []" "asview (r # E) = (asr_range r, asr_newText r) # asview E"
  "map fst (asview E) = map asr_range E" "annotated_edit.view join E = asview E"
  by (simp_all add: asview_def annotated_edit.view_def comp_def)

lemma annotated_wf: "annotated_edit.wf join p E \<longleftrightarrow> achain p (asview E)"
proof -
  have "\<forall>r \<in> set E. annotated_ok r" if "achain p (asview E)"
    using that by (induction E arbitrary: p) (auto simp: annotated_ok_def or_ok_def)
  then show ?thesis by (auto simp: annotated_edit.wf_def)
qed

lemma annotated_apply_app:
  "achain 0 (asview E) \<Longrightarrow> aend 0 (asview E) \<le> ilen s \<Longrightarrow>
    BaseStringEdit_apply (annotated_ops join) E s = app 0 (asview E) s"
  using annotated_edit.apply_correct [of join E s] by (simp add: annotated_wf)

lemma toStringEdit_loop_None:
  "toStringEdit_loop None E acc = acc @ reps (asview E)"
  by (induction E arbitrary: acc) auto

text \<open>The inverse of the inverse is the edit itself; \<open>n\<close> is the edited text up to the offset \<open>p\<close> of the base.\<close>

lemma ainv_ainv:
  assumes "achain p E" "0 \<le> p" "p \<le> ilen base" "aend p E \<le> ilen base" "ilen n = p + d" "y = n @ app p E (idrop p base)"
    and f: "\<And>s e. 0 \<le> s \<Longrightarrow> s \<le> e \<Longrightarrow> e \<le> ilen base \<Longrightarrow> f s e = itake (e - s) (idrop s base)"
    and g: "\<And>s e. 0 \<le> s \<Longrightarrow> s \<le> e \<Longrightarrow> e \<le> ilen y \<Longrightarrow> g s e = itake (e - s) (idrop s y)"
  shows "ainv g (- d) (ainv f d E) = E"
  using assms(1-6)
proof (induction p E arbitrary: d n rule: achain.induct)
  case (2 p r c E)
  have r: "p \<le> or_start r" "or_start r \<le> or_end r" "achain (or_end r) E" using 2(2) by auto
  have e: "or_end r \<le> ilen base" using aend_ge [OF r(3)] 2(5) by simp
  let ?A = "itake (or_start r - p) (idrop p base)" and ?d = "d + (ilen c - (or_end r - or_start r))"
  let ?n = "(n @ ?A) @ c"
  have drop: "idrop (or_end r - p) (idrop p base) = idrop (or_end r) base" using r 2(3) by (simp add: idrop_idrop)
  have y: "y = ?n @ app (or_end r) E (idrop (or_end r) base)" using 2(7) drop by simp
  have lA: "ilen (n @ ?A) = or_start r + d" using r e 2(3,6) by simp
  have n: "ilen ?n = or_end r + ?d" using lA by simp
  have IH: "ainv g (- ?d) (ainv f ?d E) = E" using 2(1) [OF r(3) _ e _ n y] 2(3,5) r by simp
  have "idrop (or_start r + d) y = c @ app (or_end r) E (idrop (or_end r) base)"
    unfolding y append_assoc [of "n @ ?A"] idrop_append [of _ "n @ ?A"] using lA by simp
  moreover have "0 \<le> or_start r + d" "or_start r + d + ilen c \<le> ilen y" using lA y by simp_all
  ultimately have c: "g (or_start r + d) (or_start r + d + ilen c) = c" using g by (simp add: itake_append)
  have "ilen (f (or_start r) (or_end r)) = or_end r - or_start r" using f [of "or_start r" "or_end r"] r e 2(3) by simp
  then have k: "- d + (ilen (f (or_start r) (or_end r)) - (or_start r + d + ilen c - (or_start r + d))) = - ?d"
    "or_start r + d + - d + ilen (f (or_start r) (or_end r)) = or_end r" by simp_all
  show ?case unfolding ainv.simps offset_range.sel k IH c by simp
qed simp

section \<open>Properties\<close>

text \<open>
  C1. \<open>StringEdit.compose\<close>: for an edit of a text and an edit of its result, composing never
  throws, and the composed edit applies to the text and has the effect of the two edits one
  after the other, as the source documents.
\<close>

theorem string_edit_compose:
  assumes "ranges_within (ilen s) (map sr_range e1)"
    and "ranges_within (ilen (StringEdit_apply e1 s)) (map sr_range e2)"
  shows "\<exists>e. StringEdit_compose2 e1 e2 = Some e \<and> ranges_within (ilen s) (map sr_range e) \<and>
    StringEdit_apply e s = StringEdit_apply e2 (StringEdit_apply e1 s)"
proof -
  have e1: "achain 0 (sview e1)" "aend 0 (sview e1) \<le> ilen s" using assms(1) by (auto simp: within_string)
  have a1: "StringEdit_apply e1 s = app 0 (sview e1) s" by (rule StringEdit_apply_app [OF e1])
  have e2: "achain 0 (sview e2)" "aend 0 (sview e2) \<le> ilen (app 0 (sview e1) s)"
    using assms(2) by (auto simp: within_string a1)
  obtain e where e: "StringEdit_compose2 e1 e2 = Some e" "achain 0 (sview e)"
    "\<And>s. aend 0 (sview e1) \<le> ilen s \<Longrightarrow> aend 0 (sview e2) \<le> ilen (app 0 (sview e1) s) \<Longrightarrow>
      aend 0 (sview e) \<le> ilen s \<and> app 0 (sview e) s = app 0 (sview e2) (app 0 (sview e1) s)"
    using compose2_app [OF e1(1) e2(1)] by blast
  with e1 e2 show ?thesis by (simp add: within_string StringEdit_apply_app a1)
qed

theorem string_edit_compose_witness:
  "\<exists>e. StringEdit_compose2 [MkStringReplacement (MkOffsetRange 0 1) [98, 99]]
      [MkStringReplacement (MkOffsetRange 1 3) []] = Some e \<and>
    StringEdit_apply e [97, 100] = StringEdit_apply [MkStringReplacement (MkOffsetRange 1 3) []]
      (StringEdit_apply [MkStringReplacement (MkOffsetRange 0 1) [98, 99]] [97, 100])"
proof -
  have "StringEdit_apply [MkStringReplacement (MkOffsetRange 0 1) [98, 99]] [97, 100] = [98, 99, 100]"
    by (simp add: StringEdit_apply_def BaseStringEdit_apply_def)
  then show ?thesis
    using string_edit_compose [of "[97, 100]" "[MkStringReplacement (MkOffsetRange 0 1) [98, 99]]"
        "[MkStringReplacement (MkOffsetRange 1 3) []]"] by (auto simp: ranges_within_def)
qed

text \<open>
  C12. \<open>normalize\<close> never throws, keeps the effect of the edit on every text it applies to, and is idempotent. It is
  canonical, the documented invariant of \<open>BaseEdit\<close>: the normal forms of two string edits are equal
  if and only if the edits have the same effect on every text they both apply to.
\<close>

theorem string_edit_normalize_canonical:
  assumes "ranges_sorted 0 (map sr_range e)" and "ranges_sorted 0 (map sr_range f)"
  shows "\<exists>n. BaseEdit_normalize string_ops e = Some n \<and> BaseEdit_normalize string_ops n = Some n \<and>
    (\<forall>s. ranges_within (ilen s) (map sr_range e) \<longrightarrow>
      ranges_within (ilen s) (map sr_range n) \<and> StringEdit_apply n s = StringEdit_apply e s) \<and>
    (BaseEdit_normalize string_ops f = Some n \<longleftrightarrow>
      (\<forall>s. ranges_within (ilen s) (map sr_range e) \<and> ranges_within (ilen s) (map sr_range f) \<longrightarrow>
        StringEdit_apply e s = StringEdit_apply f s))"
proof -
  have wf: "string_edit.wf 0 e" "string_edit.wf 0 f" using assms by (auto simp: string_wf_iff sorted_string)
  obtain n where n: "BaseEdit_normalize string_ops e = Some n" "string_edit.wf 0 n" "aend 0 (sview n) \<le> aend 0 (sview e)"
      "\<And>xs. aend 0 (sview e) \<le> ilen xs \<Longrightarrow> app 0 (sview n) xs = app 0 (sview e) xs"
    using string_edit.normalize_correct [OF wf(1)] by auto
  have same: "ranges_within (ilen s) (map sr_range n) \<and> StringEdit_apply n s = StringEdit_apply e s"
    if "ranges_within (ilen s) (map sr_range e)" for s
    using n that by (auto simp: within_string StringEdit_apply_app string_wf_iff)
  have "BaseEdit_normalize string_ops n = BaseEdit_normalize string_ops e"
    using string_edit_canonical.normalize_canonical [OF n(2) wf(1)] n(3,4) by auto
  moreover have "BaseEdit_normalize string_ops e = BaseEdit_normalize string_ops f \<longleftrightarrow>
      (\<forall>s. ranges_within (ilen s) (map sr_range e) \<and> ranges_within (ilen s) (map sr_range f) \<longrightarrow>
        StringEdit_apply e s = StringEdit_apply f s)"
    using string_edit_canonical.normalize_canonical [OF wf] assms by (simp add: within_string sorted_string StringEdit_apply_app)
  ultimately show ?thesis using n(1) same by (intro exI [of _ n]) (auto simp: eq_commute)
qed

theorem string_edit_normalize_canonical_witness:
  "\<exists>n. BaseEdit_normalize string_ops
      [MkStringReplacement (MkOffsetRange 0 1) [98], MkStringReplacement (MkOffsetRange 1 1) [99]] = Some n \<and>
    BaseEdit_normalize string_ops n = Some n"
  using string_edit_normalize_canonical
    [of "[MkStringReplacement (MkOffsetRange 0 1) [98], MkStringReplacement (MkOffsetRange 1 1) [99]]" "[]"]
  by auto

text \<open>
  C11. Composition of string edits is associative, as an equation between the resulting
  edits and not only between their effects, and none of the four compositions throws.
\<close>

theorem string_edit_compose_assoc:
  assumes "ranges_sorted 0 (map sr_range e1)" and "ranges_sorted 0 (map sr_range e2)"
    and "ranges_sorted 0 (map sr_range e3)"
  shows "\<exists>e12 e23 e. StringEdit_compose2 e1 e2 = Some e12 \<and> StringEdit_compose2 e2 e3 = Some e23 \<and>
    StringEdit_compose2 e12 e3 = Some e \<and> StringEdit_compose2 e1 e23 = Some e"
  using string_edit_canonical.compose_assoc [of e1 e2 e3] assms
  by (simp add: string_wf_iff sorted_string StringEdit_compose2_def)

theorem string_edit_compose_assoc_witness:
  "\<exists>e12 e. StringEdit_compose2 [MkStringReplacement (MkOffsetRange 0 1) [98]]
      [MkStringReplacement (MkOffsetRange 1 2) []] = Some e12 \<and>
    StringEdit_compose2 e12 [MkStringReplacement (MkOffsetRange 0 2) [97]] = Some e"
  using string_edit_compose_assoc [of "[MkStringReplacement (MkOffsetRange 0 1) [98]]"
      "[MkStringReplacement (MkOffsetRange 1 2) []]" "[MkStringReplacement (MkOffsetRange 0 2) [97]]"]
  by auto

text \<open>
  C8. \<open>inverse\<close> never throws; the edit it returns applies to the edited text and restores the
  original, and its own inverse on the edited text is the edit it was made from.
\<close>

theorem string_edit_inverse:
  assumes "ranges_within (ilen s) (map sr_range e)"
  shows "\<exists>i. BaseStringEdit_inverse string_ops e s = Some i \<and>
    ranges_within (ilen (StringEdit_apply e s)) (map sr_range i) \<and>
    StringEdit_apply i (StringEdit_apply e s) = s \<and>
    BaseStringEdit_inverse string_ops i (StringEdit_apply e s) = Some e"
proof -
  have wf: "string_edit.wf 0 e" "aend 0 (sview e) \<le> ilen s" using assms by (auto simp: within_string string_wf_iff)
  obtain i where i: "BaseStringEdit_inverse string_ops e s = Some i" "string_edit.wf 0 i"
      "aend 0 (sview i) \<le> ilen (StringEdit_apply e s)" "StringEdit_apply i (StringEdit_apply e s) = s"
    using string_edit.inverse_correct [of e s] wf by (auto simp: StringEdit_apply_def)
  have ch: "achain 0 (sview e)" using wf(1) by (simp add: string_wf_iff)
  have "sview i = ainv (js_substring s) 0 (sview e)"
    using i(1) string_edit.inverseOnSlice_correct [OF wf(1)] by (auto simp: BaseStringEdit_inverse_def)
  then have "BaseStringEdit_inverse string_ops i (StringEdit_apply e s) =
      Some (reps (ainv (js_substring (StringEdit_apply e s)) 0 (ainv (js_substring s) 0 (sview e))))"
    using string_edit.inverseOnSlice_correct [OF i(2)] by (simp add: BaseStringEdit_inverse_def)
  also have "\<dots> = Some (reps (sview e))"
  proof -
    have "StringEdit_apply e s = app 0 (sview e) s" using StringEdit_apply_app [OF ch wf(2)] .
    then show ?thesis
      using ainv_ainv [OF ch, where base = s and n = "[]" and d = 0 and y = "StringEdit_apply e s" and f = "js_substring s" and
        g = "js_substring (StringEdit_apply e s)"] wf(2) by simp
  qed
  finally show ?thesis using i by (auto simp: within_string string_wf_iff)
qed

theorem string_edit_inverse_witness:
  "\<exists>i. BaseStringEdit_inverse string_ops [MkStringReplacement (MkOffsetRange 1 2) []] [97, 98] = Some i \<and>
    StringEdit_apply i (StringEdit_apply [MkStringReplacement (MkOffsetRange 1 2) []] [97, 98]) = [97, 98]"
  using string_edit_inverse [of "[97, 98]" "[MkStringReplacement (MkOffsetRange 1 2) []]"]
  by (auto simp: ranges_within_def)

text \<open>
  C7. \<open>tryRebase\<close> converges: two edits of the same text either conflict, and then both
  rebases are \<open>undefined\<close>, or both rebases are applicable edits and applying them after the
  other edit gives the same text in both orders. Nothing throws.
\<close>

theorem string_rebase_converges:
  assumes "ranges_within (ilen s) (map sr_range a)" and "ranges_within (ilen s) (map sr_range b)"
  shows "BaseStringEdit_tryRebase string_ops a b = Some None \<and> BaseStringEdit_tryRebase string_ops b a = Some None \<or>
    (\<exists>a' b'. BaseStringEdit_tryRebase string_ops a b = Some (Some a') \<and>
      BaseStringEdit_tryRebase string_ops b a = Some (Some b') \<and>
      ranges_within (ilen (StringEdit_apply b s)) (map sr_range a') \<and>
      ranges_within (ilen (StringEdit_apply a s)) (map sr_range b') \<and>
      StringEdit_apply a' (StringEdit_apply b s) = StringEdit_apply b' (StringEdit_apply a s))"
  using rebase_converges [of a s b] assms by (simp add: within_string)

theorem string_rebase_converges_witness:
  "\<exists>a' b'. BaseStringEdit_tryRebase string_ops [MkStringReplacement (MkOffsetRange 0 0) [97]]
      [MkStringReplacement (MkOffsetRange 0 2) [98]] = Some (Some a') \<and>
    BaseStringEdit_tryRebase string_ops [MkStringReplacement (MkOffsetRange 0 2) [98]]
      [MkStringReplacement (MkOffsetRange 0 0) [97]] = Some (Some b') \<and>
    StringEdit_apply a' (StringEdit_apply [MkStringReplacement (MkOffsetRange 0 2) [98]] [99, 99]) =
    StringEdit_apply b' (StringEdit_apply [MkStringReplacement (MkOffsetRange 0 0) [97]] [99, 99])"
proof -
  have "BaseStringEdit_tryRebase string_ops [MkStringReplacement (MkOffsetRange 0 0) [97]]
      [MkStringReplacement (MkOffsetRange 0 2) [98]] \<noteq> Some None"
    by (simp add: tryRebase_string conflicting_iff or_ok_def ours_first_def OffsetRange_isEmpty_def)
  then show ?thesis
    using string_rebase_converges [of "[99, 99]" "[MkStringReplacement (MkOffsetRange 0 0) [97]]"
        "[MkStringReplacement (MkOffsetRange 0 2) [98]]"] by (auto simp: ranges_within_def)
qed

text \<open>
  \<open>rebaseSkipConflicting\<close> never throws and never returns \<open>undefined\<close>: it returns the
  rebase of some of our replacements, in their order, that do not conflict with the base; it
  is applicable to the edited text, and equals \<open>tryRebase\<close> where that succeeds.
\<close>

theorem string_rebase_skip:
  assumes "ranges_within (ilen s) (map sr_range a)" and "ranges_within (ilen s) (map sr_range b)"
  shows "\<exists>kept a'. subseq kept a \<and> BaseStringEdit_tryRebase string_ops kept b = Some (Some a') \<and>
    BaseStringEdit_rebaseSkipConflicting string_ops a b = Some (Some a') \<and>
    ranges_within (ilen (StringEdit_apply b s)) (map sr_range a') \<and>
    (\<forall>c. BaseStringEdit_tryRebase string_ops a b = Some (Some c) \<longrightarrow> c = a')"
proof -
  have a: "achain 0 (sview a)" "aend 0 (sview a) \<le> ilen s" and b: "achain 0 (sview b)" "aend 0 (sview b) \<le> ilen s"
    using assms by (auto simp: within_string)
  let ?M = "smerge (sview a) (sview b)"
  let ?k = "picked (flip_marks ?M)"
  have sub: "subseq ?k (sview a)" using smerge_kept by blast
  note kept = amerge_kept [OF a(1) b(1)]
  have k: "achain 0 ?k" "aend 0 ?k \<le> ilen s" using achain_subseq [OF sub a(1)] a(2) by auto
  have sub': "subseq (reps ?k) a" using subseq_map [OF sub, of "\<lambda>(g, c). MkStringReplacement g c"]
    by (simp add: reps_def [symmetric])
  have c: "achain 0 (moved 0 ?M)" "aend 0 (moved 0 ?M) \<le> ilen (app 0 (sview b) s)"
    using amerge_converges(3,4) [OF kept k(1) b(1) k(2) b(2)] by auto
  have wf: "string_edit.wf 0 a" using a(1) by (simp add: string_wf_iff)
  have skip: "BaseStringEdit_rebaseSkipConflicting string_ops a b = Some (Some (reps (moved 0 ?M)))"
    using string_edit.tryRebase_loop_correct(2) [of a b 0 "[]"] wf StringEdit_new_reps [OF c(1)]
    by (simp add: BaseStringEdit_rebaseSkipConflicting_def BaseStringEdit_tryRebaseWith_def string_edit.wf_def)
  have try_kept: "BaseStringEdit_tryRebase string_ops (reps ?k) b = Some (Some (reps (moved 0 ?M)))"
    using tryRebase_string [of "reps ?k" b] k(1) b(1) kept by simp
  have "\<forall>c. BaseStringEdit_tryRebase string_ops a b = Some (Some c) \<longrightarrow> c = reps (moved 0 ?M)"
    using tryRebase_string [OF a(1) b(1)] amerge_smerge [of "sview a" "sview b"] by (auto split: option.splits)
  moreover have "ranges_within (ilen (StringEdit_apply b s)) (map sr_range (reps (moved 0 ?M)))"
    using c StringEdit_apply_app [OF b] by (simp add: within_string)
  ultimately show ?thesis using sub' skip try_kept by blast
qed

text \<open>
  \<open>trySwap\<close> keeps its documented contract: it never throws, and when it returns edits
  \<open>r1\<close> and \<open>r2\<close>, then composing them gives the same edit as composing \<open>e1\<close> and \<open>e2\<close>, so
  that they have the same effect on every text.
\<close>

theorem string_trySwap:
  assumes "ranges_sorted 0 (map sr_range e1)" and "ranges_sorted 0 (map sr_range e2)"
  shows "BaseStringEdit_trySwap e1 e2 \<noteq> None \<and>
    (\<forall>r1 r2. BaseStringEdit_trySwap e1 e2 = Some (Some (r1, r2)) \<longrightarrow>
      (\<exists>e. StringEdit_compose2 e1 e2 = Some e \<and> StringEdit_compose2 r1 r2 = Some e) \<and>
      (\<forall>s. ranges_within (ilen s) (map sr_range e1) \<and> ranges_within (ilen (StringEdit_apply e1 s)) (map sr_range e2) \<longrightarrow>
        ranges_within (ilen s) (map sr_range r1) \<and> ranges_within (ilen (StringEdit_apply r1 s)) (map sr_range r2) \<and>
        StringEdit_apply r2 (StringEdit_apply r1 s) = StringEdit_apply e2 (StringEdit_apply e1 s)))"
proof -
  have e: "achain 0 (sview e1)" "achain 0 (sview e2)" using assms by (auto simp: sorted_string)
  have "(\<exists>e. StringEdit_compose2 e1 e2 = Some e \<and> StringEdit_compose2 r1 r2 = Some e) \<and>
      (\<forall>s. ranges_within (ilen s) (map sr_range e1) \<and> ranges_within (ilen (StringEdit_apply e1 s)) (map sr_range e2) \<longrightarrow>
        ranges_within (ilen s) (map sr_range r1) \<and> ranges_within (ilen (StringEdit_apply r1 s)) (map sr_range r2) \<and>
        StringEdit_apply r2 (StringEdit_apply r1 s) = StringEdit_apply e2 (StringEdit_apply e1 s))"
    if swap: "BaseStringEdit_trySwap e1 e2 = Some (Some (r1, r2))" for r1 r2
  proof
    have r: "achain 0 (sview r1)" "achain 0 (sview r2)"
      and ex: "\<And>s. aend 0 (sview e1) \<le> ilen s \<Longrightarrow> aend 0 (sview e2) \<le> ilen (app 0 (sview e1) s) \<Longrightarrow>
        aend 0 (sview r1) \<le> ilen s \<and> aend 0 (sview r2) \<le> ilen (app 0 (sview r1) s) \<and>
        app 0 (sview r2) (app 0 (sview r1) s) = app 0 (sview e2) (app 0 (sview e1) s)"
      using trySwap_effect [OF e swap] by auto
    show "\<exists>e. StringEdit_compose2 e1 e2 = Some e \<and> StringEdit_compose2 r1 r2 = Some e"
      by (rule compose2_equal [OF e r]) (use ex in auto)
    show "\<forall>s. ranges_within (ilen s) (map sr_range e1) \<and>
        ranges_within (ilen (StringEdit_apply e1 s)) (map sr_range e2) \<longrightarrow>
        ranges_within (ilen s) (map sr_range r1) \<and> ranges_within (ilen (StringEdit_apply r1 s)) (map sr_range r2) \<and>
        StringEdit_apply r2 (StringEdit_apply r1 s) = StringEdit_apply e2 (StringEdit_apply e1 s)"
      using ex r e by (auto simp: within_string StringEdit_apply_app)
  qed
  with trySwap_returns [OF e] show ?thesis by blast
qed

theorem string_trySwap_witness:
  "\<exists>e. StringEdit_compose2 [MkStringReplacement (MkOffsetRange 0 1) [97, 98]]
      [MkStringReplacement (MkOffsetRange 3 4) []] = Some e \<and>
    StringEdit_compose2 [MkStringReplacement (MkOffsetRange 2 3) []]
      [MkStringReplacement (MkOffsetRange 0 1) [97, 98]] = Some e"
proof -
  have "BaseStringEdit_trySwap [MkStringReplacement (MkOffsetRange 0 1) [97, 98]]
      [MkStringReplacement (MkOffsetRange 3 4) []] =
    Some (Some ([MkStringReplacement (MkOffsetRange 2 3) []], [MkStringReplacement (MkOffsetRange 0 1) [97, 98]]))"
    by (simp add: BaseStringEdit_trySwap_def BaseStringEdit_inverseOnSlice_def OffsetRange_ofStartAndLength_def
        StringReplacement_replace_def StringEdit_new_def BaseEdit_new_def BaseStringEdit_tryRebase_def
        BaseStringEdit_tryRebaseWith_def conflicting_iff or_ok_def OffsetRange_isEmpty_def OffsetRange_delta_def
        OffsetRange_length_def)
  then show ?thesis
    using string_trySwap [of "[MkStringReplacement (MkOffsetRange 0 1) [97, 98]]"
        "[MkStringReplacement (MkOffsetRange 3 4) []]"] by simp
qed

text \<open>
  \<open>composeSequentialReplacements\<close> composes batches of reverse sorted replacements instead
  of one replacement at a time, and still never throws and has the effect of applying the
  replacements one after the other.
\<close>

theorem compose_sequential_replacements:
  assumes "all_within rs s"
  shows "\<exists>e. StringEdit_composeSequentialReplacements rs = Some e \<and> ranges_within (ilen s) (map sr_range e) \<and>
    StringEdit_apply e s = replace_all rs s"
proof -
  obtain E cur where loop: "composeSequential_loop rs [] [] = Some (E, cur)" "achain 0 (sview E)"
    "aend 0 (sview E) \<le> ilen s" "achain 0 (sview (rev cur))" "aend 0 (sview (rev cur)) \<le> ilen (app 0 (sview E) s)"
    "app 0 (sview (rev cur)) (app 0 (sview E) s) = replace_all rs s"
    using composeSequential_loop_correct [of "[]" s "[]" rs] assms by auto
  obtain C where C: "StringEdit_compose2 E (rev cur) = Some C" "achain 0 (sview C)"
    "\<And>s. aend 0 (sview E) \<le> ilen s \<Longrightarrow> aend 0 (sview (rev cur)) \<le> ilen (app 0 (sview E) s) \<Longrightarrow>
      aend 0 (sview C) \<le> ilen s \<and> app 0 (sview C) s = app 0 (sview (rev cur)) (app 0 (sview E) s)"
    using compose2_app [OF loop(2,4)] by blast
  have "StringEdit_new (rev cur) = Some (rev cur)" "StringEdit_new [] = Some []"
    using StringEdit_new_reps [OF loop(4)] StringEdit_new_reps [of "[]"] by simp_all
  with loop(1) C(1) have "StringEdit_composeSequentialReplacements rs = Some C"
    by (simp add: StringEdit_composeSequentialReplacements_def)
  with C(2) C(3) [OF loop(3,5)] loop(6) show ?thesis by (simp add: within_string StringEdit_apply_app)
qed

theorem compose_sequential_replacements_witness:
  "\<exists>e. StringEdit_composeSequentialReplacements
      [MkStringReplacement (MkOffsetRange 2 3) [97], MkStringReplacement (MkOffsetRange 0 1) [],
       MkStringReplacement (MkOffsetRange 1 2) [98]] = Some e \<and>
    StringEdit_apply e [49, 50, 51] = [50, 98]"
proof -
  let ?rs = "[MkStringReplacement (MkOffsetRange 2 3) [97], MkStringReplacement (MkOffsetRange 0 1) [],
       MkStringReplacement (MkOffsetRange 1 2) [98]]"
  have "all_within ?rs [49, 50, 51]" "replace_all ?rs [49, 50, 51] = [50, 98]"
    by (simp_all add: ranges_within_def BaseStringReplacement_replace_def)
  then show ?thesis using compose_sequential_replacements [of ?rs "[49, 50, 51]"] by auto
qed

text \<open>
  \<open>normalizeOnSource\<close> never throws and returns at most one replacement with the effect of
  the edit on the source; its text and the text it replaces share neither their first nor
  their last code unit. It depends on the result alone, so edits with equal results on the
  source have equal normal forms.
\<close>

theorem normalize_on_source:
  assumes "ranges_within (ilen s) (map sr_range e)"
  shows "\<exists>n. BaseStringEdit_normalizeOnSource string_ops e s = Some n \<and> length n \<le> 1 \<and>
    ranges_within (ilen s) (map sr_range n) \<and> StringEdit_apply n s = StringEdit_apply e s \<and>
    (\<forall>r \<in> set n. let old = OffsetRange_substring (sr_range r) s in
      old \<noteq> [] \<and> sr_newText r \<noteq> [] \<longrightarrow> hd old \<noteq> hd (sr_newText r) \<and> last old \<noteq> last (sr_newText r)) \<and>
    (\<forall>f. StringEdit_apply f s = StringEdit_apply e s \<longrightarrow>
      BaseStringEdit_normalizeOnSource string_ops f s = Some n)"
proof -
  let ?t = "StringEdit_apply e s"
  obtain k m t' where trim:
    "BaseStringReplacement_removeCommonSuffixAndPrefix string_ops (MkStringReplacement (MkOffsetRange 0 (ilen s)) ?t) s =
       Some (MkStringReplacement (MkOffsetRange (int k) (int m)) t')"
    and km: "k \<le> m" "m \<le> length s" and t: "take k s @ t' @ drop m s = ?t"
    and diff: "k < m \<Longrightarrow> t' \<noteq> [] \<Longrightarrow> s ! k \<noteq> hd t' \<and> s ! (m - 1) \<noteq> last t'"
    using trim_whole [of s ?t] by blast
  let ?r = "MkStringReplacement (MkOffsetRange (int k) (int m)) t'"
  let ?n = "if t' = [] \<and> k = m then [] else [?r]"
  have norm: "BaseStringEdit_normalizeOnSource string_ops f s = Some ?n" if "StringEdit_apply f s = ?t" for f
    using trim that km StringEdit_new_reps [of "[(MkOffsetRange (int k) (int m), t')]"] StringEdit_new_reps [of "[]"]
    by (auto simp: BaseStringEdit_normalizeOnSource_def StringEdit_apply_def OffsetRange_ofLength_def
        StringReplacement_replace_def BaseReplacement_isEmpty_def BaseStringReplacement_toEdit_def)
  have within: "ranges_within (ilen s) (map sr_range ?n)" using km by (auto simp: ranges_within_def)
  have "app 0 (sview ?n) s = ?t"
    using t by (auto simp: itake_def idrop_def)
  with within have ap: "StringEdit_apply ?n s = ?t" by (auto simp: within_string StringEdit_apply_app)
  have old: "OffsetRange_substring (MkOffsetRange (int k) (int m)) s = take (m - k) (drop k s)"
    using km by (simp add: OffsetRange_substring_def itake_def idrop_def nat_diff_distrib')
  have ends: "hd (drop k s) \<noteq> hd t' \<and> last (take (m - k) (drop k s)) \<noteq> last t'" if "k < m" "t' \<noteq> []"
  proof -
    have "hd (drop k s) = s ! k" using that(1) km by (simp add: hd_drop_nth)
    moreover have "last (take (m - k) (drop k s)) = s ! (m - 1)"
      using that(1) km by (subst last_conv_nth) auto
    ultimately show ?thesis using diff [OF that] by simp
  qed
  have "\<forall>r \<in> set ?n. let old = OffsetRange_substring (sr_range r) s in
      old \<noteq> [] \<and> sr_newText r \<noteq> [] \<longrightarrow> hd old \<noteq> hd (sr_newText r) \<and> last old \<noteq> last (sr_newText r)"
    using ends by (auto simp: Let_def old)
  with norm [OF refl] norm within ap show ?thesis
    by (intro exI [of _ ?n]) auto
qed

text \<open>
  \<open>getNewRanges\<close> never throws and gives, for each replacement, the range its text has in
  the result; \<open>getNewDataLength\<close> gives the length of the result.
\<close>

theorem string_edit_new_ranges:
  assumes "ranges_within (ilen s) (map sr_range e)"
  shows "(\<exists>gs. BaseEdit_getNewRanges string_ops e = Some gs \<and> length gs = length e \<and>
      (\<forall>i < length e. OffsetRange_substring (gs ! i) (StringEdit_apply e s) = sr_newText (e ! i))) \<and>
    BaseEdit_getNewDataLength string_ops e (ilen s) = ilen (StringEdit_apply e s)"
proof -
  have e: "achain 0 (sview e)" "aend 0 (sview e) \<le> ilen s" using assms by (auto simp: within_string)
  then have wf: "string_edit.wf 0 e" by (simp add: string_wf_iff)
  obtain gs where gs: "BaseEdit_getNewRanges string_ops e = Some gs"
    "list_all2 (\<lambda>g r. 0 \<le> or_start g \<and> or_end g - or_start g = ilen (sr_newText r) \<and>
      itake (ilen (sr_newText r)) (idrop (or_start g) (app 0 (sview e) s)) = sr_newText r) gs e"
    using string_edit.getNewRanges_loop_correct [OF wf, of s 0 "[]"] e by (auto simp: BaseEdit_getNewRanges_def)
  from gs(2) have "\<forall>i < length e. OffsetRange_substring (gs ! i) (app 0 (sview e) s) = sr_newText (e ! i)"
    by (auto simp: list_all2_conv_all_nth OffsetRange_substring_def intro!: js_substring_itake)
  with gs string_edit.getNewDataLength_correct [OF wf, of s] e show ?thesis
    by (auto simp: StringEdit_apply_app list_all2_lengthD)
qed

theorem string_edit_new_ranges_witness:
  "BaseEdit_getNewDataLength string_ops [MkStringReplacement (MkOffsetRange 1 2) [97, 98]] 3 =
    ilen (StringEdit_apply [MkStringReplacement (MkOffsetRange 1 2) [97, 98]] [49, 50, 51])"
  using string_edit_new_ranges [of "[49, 50, 51]" "[MkStringReplacement (MkOffsetRange 1 2) [97, 98]]"]
  by (simp add: ranges_within_def)

text \<open>
  \<open>decomposeSplit\<close> never throws: \<open>e1\<close> consists of the picked replacements, and applying
  \<open>e2\<close> after it has the effect of the whole edit.
\<close>

theorem string_edit_decompose_split:
  assumes "ranges_within (ilen s) (map sr_range e)"
  shows "\<exists>e1 e2. BaseEdit_decomposeSplit string_ops p e = Some (e1, e2) \<and> e1 = filter p e \<and>
    ranges_within (ilen s) (map sr_range e1) \<and> ranges_within (ilen (StringEdit_apply e1 s)) (map sr_range e2) \<and>
    StringEdit_apply e2 (StringEdit_apply e1 s) = StringEdit_apply e s"
proof -
  have e: "achain 0 (sview e)" "aend 0 (sview e) \<le> ilen s" using assms by (auto simp: within_string)
  obtain A B where AB: "BaseEdit_decomposeSplit string_ops p e = Some (A, B)" "A = filter p e"
    "achain 0 (sview A)" "achain 0 (sview B)" "aend 0 (sview A) \<le> aend 0 (sview e)"
    "\<And>xs. aend 0 (sview e) \<le> ilen xs \<Longrightarrow> aend 0 (sview B) \<le> ilen (app 0 (sview A) xs) \<and>
      app 0 (sview B) (app 0 (sview A) xs) = app 0 (sview e) xs"
    using string_edit.decomposeSplit_correct [of e p] e(1) by (auto simp: string_wf_iff)
  with e show ?thesis by (simp add: within_string StringEdit_apply_app)
qed

theorem string_edit_decompose_split_witness:
  "\<exists>e1 e2. BaseEdit_decomposeSplit string_ops (\<lambda>r. sr_newText r = [])
      [MkStringReplacement (MkOffsetRange 0 1) [], MkStringReplacement (MkOffsetRange 1 2) [97]] = Some (e1, e2) \<and>
    StringEdit_apply e2 (StringEdit_apply e1 [49, 50]) =
    StringEdit_apply [MkStringReplacement (MkOffsetRange 0 1) [], MkStringReplacement (MkOffsetRange 1 2) [97]] [49, 50]"
proof -
  have "ranges_within (ilen [49, 50 :: code_unit]) (map sr_range
      [MkStringReplacement (MkOffsetRange 0 1) [], MkStringReplacement (MkOffsetRange 1 2) [97]])"
    by (simp add: ranges_within_def)
  from string_edit_decompose_split [OF this] show ?thesis by blast
qed

text \<open>
  \<open>applyToOffset\<close> moves an offset with the character at it: \<open>applyToOffsetOrUndefined\<close> is
  \<open>undefined\<close> exactly for the offsets inside a replaced range, and otherwise both functions
  give the place of that character in the result. \<open>applyToOffset\<close> is monotone, so
  \<open>applyToOffsetRange\<close> never throws on an ordered range.
\<close>

theorem string_edit_offsets:
  assumes "ranges_within (ilen s) (map sr_range e)" and "0 \<le> n" and "n < ilen s"
  shows "(BaseEdit_applyToOffsetOrUndefined string_ops e n = None \<longleftrightarrow>
      (\<exists>r \<in> set e. OffsetRange_contains (sr_range r) n)) \<and>
    (\<forall>m. BaseEdit_applyToOffsetOrUndefined string_ops e n = Some m \<longrightarrow>
      BaseEdit_applyToOffset string_ops e n = m \<and> 0 \<le> m \<and> m < ilen (StringEdit_apply e s) \<and>
      StringEdit_apply e s ! nat m = s ! nat n) \<and>
    (\<forall>g. or_ok g \<longrightarrow> BaseEdit_applyToOffsetRange string_ops e g \<noteq> None)"
proof -
  have e: "achain 0 (sview e)" "aend 0 (sview e) \<le> ilen s" using assms by (auto simp: within_string)
  then have wf: "string_edit.wf 0 e" by (simp add: string_wf_iff)
  have "BaseEdit_applyToOffset string_ops e n = m \<and> 0 \<le> m \<and> m < ilen (StringEdit_apply e s) \<and>
      StringEdit_apply e s ! nat m = s ! nat n"
    if "BaseEdit_applyToOffsetOrUndefined string_ops e n = Some m" for m
    using string_edit.applyToOffset_loop_element [OF wf assms(2), of s 0 m] that assms(3) e
      string_edit.applyToOffsetOrUndefined_loop_agrees [of e n 0 m]
    by (auto simp: BaseEdit_applyToOffsetOrUndefined_def BaseEdit_applyToOffset_def StringEdit_apply_app
        zless_nat_conj nat_less_iff)
  with string_edit.applyToOffsetOrUndefined_loop_None [OF wf, of n 0] string_edit.applyToOffset_mono [OF wf]
  show ?thesis
    by (auto simp: BaseEdit_applyToOffsetOrUndefined_def BaseEdit_applyToOffsetRange_def or_ok_def)
qed

theorem string_edit_offsets_witness:
  "StringEdit_apply [MkStringReplacement (MkOffsetRange 0 1) [97, 98]] [49, 50] ! 2 = [49, 50] ! 1"
proof -
  have "BaseEdit_applyToOffsetOrUndefined string_ops [MkStringReplacement (MkOffsetRange 0 1) [97, 98]] 1 = Some 2"
    by (simp add: BaseEdit_applyToOffsetOrUndefined_def OffsetRange_length_def)
  then show ?thesis
    using string_edit_offsets [of "[49, 50]" "[MkStringReplacement (MkOffsetRange 0 1) [97, 98]]" 1]
    by (simp add: ranges_within_def)
qed

text \<open>
  \<open>applyInverseToOffset\<close>, which does not build the inverse edit, maps every offset the way
  \<open>applyToOffset\<close> of the inverse does.
\<close>

theorem string_edit_inverse_offsets:
  assumes "ranges_within (ilen s) (map sr_range e)"
  shows "\<exists>i. BaseStringEdit_inverse string_ops e s = Some i \<and>
    BaseEdit_applyInverseToOffset string_ops e n = BaseEdit_applyToOffset string_ops i n"
proof -
  have e: "achain 0 (sview e)" "aend 0 (sview e) \<le> ilen s" using assms by (auto simp: within_string)
  then have wf: "string_edit.wf 0 e" by (simp add: string_wf_iff)
  let ?f = "\<lambda>start endEx. js_substring s start endEx"
  have loop: "applyInverseToOffset_loop string_ops E n d =
      applyToOffset_loop string_ops (reps (ainv ?f d (sview E))) n (- d)"
    if "achain p (sview E)" "0 \<le> p" "aend p (sview E) \<le> ilen s" for p d E
    using that
  proof (induction E arbitrary: p d)
    case (Cons r E)
    let ?g = "sr_range r"
    have g: "p \<le> or_start ?g" "or_start ?g \<le> or_end ?g" "achain (or_end ?g) (sview E)" using Cons.prems by auto
    have le: "or_end ?g \<le> ilen s" using aend_ge [OF g(3)] Cons.prems(3) by simp
    have len: "ilen (js_substring s (or_start ?g) (or_end ?g)) = or_end ?g - or_start ?g"
      using g le Cons.prems(2) by simp
    have "- d + (ilen (js_substring s (or_start ?g) (or_end ?g)) - ilen (sr_newText r)) =
        - (d + (ilen (sr_newText r) - (or_end ?g - or_start ?g)))" unfolding len by simp
    with Cons.IH [OF g(3)] g Cons.prems show ?case by (auto simp: Let_def OffsetRange_length_def simp del: js_substring_in)
  qed simp
  show ?thesis
    using string_edit.inverseOnSlice_correct [OF wf, of ?f] loop [OF e(1) _ e(2), of 0]
    by (simp add: BaseStringEdit_inverse_def BaseEdit_applyInverseToOffset_def BaseEdit_applyToOffset_def)
qed

theorem string_edit_inverse_offsets_witness:
  "\<exists>i. BaseStringEdit_inverse string_ops [MkStringReplacement (MkOffsetRange 1 2) [97, 98]] [49, 50, 51] = Some i \<and>
    BaseEdit_applyInverseToOffset string_ops [MkStringReplacement (MkOffsetRange 1 2) [97, 98]] 3 =
      BaseEdit_applyToOffset string_ops i 3"
  using string_edit_inverse_offsets [of "[49, 50, 51]" "[MkStringReplacement (MkOffsetRange 1 2) [97, 98]]" 3]
  by (simp add: ranges_within_def)

text \<open>
  Serialization round trip: \<open>fromJson\<close> of \<open>toJson\<close> gives back every string edit whose
  constructor succeeded.
\<close>

theorem string_edit_json_roundtrip:
  assumes "ranges_sorted 0 (map sr_range e)"
  shows "StringEdit_fromJson (BaseStringEdit_toJson string_ops e) = Some e"
proof -
  have "fromJson_all (BaseStringEdit_toJson string_ops f) = Some f" if "\<forall>r \<in> set f. or_ok (sr_range r)" for f
    using that
    by (induction f) (auto simp: BaseStringEdit_toJson_def BaseStringReplacement_toJson_def or_ok_def
        StringReplacement_fromJson_def OffsetRange_ofStartAndLength_def OffsetRange_length_def
        string_replacement.expand offset_range.expand)
  moreover have "\<forall>r \<in> set e. or_ok (sr_range r)" "StringEdit_new e = Some e"
    using assms StringEdit_new_reps [of "sview e"] string_wf_iff [of 0 e]
    by (auto simp: sorted_string string_edit.wf_def string_ok_def)
  ultimately show ?thesis by (simp add: StringEdit_fromJson_def)
qed

text \<open>
  C38. \<open>ArrayEdit\<close>: composing never throws and has the effect of the two edits one after the
  other, and the inverse restores the array.
\<close>

theorem array_edit_compose_inverse:
  assumes "ranges_within (ilen xs) (map arr_range e1)"
    and "ranges_within (ilen (ArrayEdit_apply e1 xs)) (map arr_range e2)"
  shows "(\<exists>e. BaseEdit_compose array_ops e1 e2 = Some e \<and> ranges_within (ilen xs) (map arr_range e) \<and>
      ArrayEdit_apply e xs = ArrayEdit_apply e2 (ArrayEdit_apply e1 xs)) \<and>
    (\<exists>i. ArrayEdit_inverse e1 xs = Some i \<and> ranges_within (ilen (ArrayEdit_apply e1 xs)) (map arr_range i) \<and>
      ArrayEdit_apply i (ArrayEdit_apply e1 xs) = xs)"
proof
  have e1: "achain 0 (arrview e1)" "aend 0 (arrview e1) \<le> ilen xs" using assms(1) by (auto simp: within_array)
  have a1: "ArrayEdit_apply e1 xs = app 0 (arrview e1) xs" by (rule ArrayEdit_apply_app [OF e1])
  have e2: "achain 0 (arrview e2)" "aend 0 (arrview e2) \<le> ilen (app 0 (arrview e1) xs)"
    using assms(2) by (auto simp: within_array a1)
  show "\<exists>e. BaseEdit_compose array_ops e1 e2 = Some e \<and> ranges_within (ilen xs) (map arr_range e) \<and>
      ArrayEdit_apply e xs = ArrayEdit_apply e2 (ArrayEdit_apply e1 xs)"
    using array_edit.compose_correct [of e1 e2] e1 e2
    by (auto simp: array_wf within_array ArrayEdit_apply_app a1)
  let ?A = "ainv (js_slice xs) 0 (arrview e1)"
  have A: "achain 0 ?A" using ainv_chain [OF e1(1), of 0] by simp
  have le: "aend 0 ?A \<le> ilen (app 0 (arrview e1) xs)"
    using aend_ainv [OF e1(1), of 0] ilen_app [OF e1(1), of xs] e1(2) by simp
  have "app 0 ?A (app 0 (arrview e1) xs) = xs"
    using ainv_correct [OF e1(1), of xs "js_slice xs" 0] e1(2) by simp
  moreover have "BaseEdit_new array_ops (arrreps ?A) = Some (arrreps ?A)"
    using array_edit.BaseEdit_new_wf [of "arrreps ?A"] A by (simp add: array_wf)
  ultimately show "\<exists>i. ArrayEdit_inverse e1 xs = Some i \<and>
      ranges_within (ilen (ArrayEdit_apply e1 xs)) (map arr_range i) \<and> ArrayEdit_apply i (ArrayEdit_apply e1 xs) = xs"
    using A le by (intro exI [of _ "arrreps ?A"])
      (simp add: ArrayEdit_inverse_def array_inverse_loop_correct within_array ArrayEdit_apply_app a1)
qed

theorem array_edit_compose_inverse_witness:
  "\<exists>i. ArrayEdit_inverse [MkArrayReplacement (MkOffsetRange 1 2) [7, 8]] [1, 2, 3 :: int] = Some i \<and>
    ArrayEdit_apply i (ArrayEdit_apply [MkArrayReplacement (MkOffsetRange 1 2) [7, 8]] [1, 2, 3]) = [1, 2, 3]"
  using array_edit_compose_inverse [of "[1, 2, 3 :: int]" "[MkArrayReplacement (MkOffsetRange 1 2) [7, 8]]" "[]"]
  by (auto simp: ranges_within_def)

text \<open>
  \<open>LengthEdit.applyArray\<close> fills the array it allocates without holes, and composing length
  edits agrees with it: applying the composed edit to an array gives what applying the two
  edits one after the other gives.
\<close>

theorem length_edit_apply_array:
  fixes xs :: "'a list" and fillItem :: 'a
  assumes "\<forall>r \<in> set e1 \<union> set e2. 0 \<le> len_newLength r"
    and "ranges_within (ilen xs) (map len_range e1)"
    and "ranges_within (BaseEdit_getNewDataLength length_ops e1 (ilen xs)) (map len_range e2)"
  shows "\<exists>e ys zs. BaseEdit_compose length_ops e1 e2 = Some e \<and>
    LengthEdit_applyArray e1 xs fillItem = Some (map Some ys) \<and>
    LengthEdit_applyArray e2 ys fillItem = Some (map Some zs) \<and>
    LengthEdit_applyArray e xs fillItem = Some (map Some zs)"
proof -
  let ?v = "lenview fillItem" and ?ys = "app 0 (lenview fillItem e1) xs"
  have ok: "\<forall>r \<in> set e1. 0 \<le> len_newLength r" "\<forall>r \<in> set e2. 0 \<le> len_newLength r" using assms(1) by auto
  have e1: "achain 0 (?v e1)" "aend 0 (?v e1) \<le> ilen xs"
    using ranges_within_chain [of "ilen xs" "?v e1"] assms(2) by auto
  have len: "BaseEdit_getNewDataLength length_ops e1 (ilen xs) = ilen ?ys"
    using length_edit.getNewDataLength_correct [of fillItem e1 xs] length_ok_all [OF ok(1) e1(1)] e1
    by (simp add: length_edit.wf_def)
  have w2: "ranges_within (ilen ?ys) (map len_range e2)" using assms(3) by (simp add: len)
  have e2: "achain 0 (?v e2)" "aend 0 (?v e2) \<le> ilen ?ys"
    using ranges_within_chain [of "ilen ?ys" "?v e2"] w2 by auto
  obtain e where e: "BaseEdit_compose length_ops e1 e2 = Some e" "\<forall>r \<in> set e. length_ok r" "achain 0 (?v e)"
    "aend 0 (?v e) \<le> ilen xs" "app 0 (?v e) xs = app 0 (?v e2) ?ys"
    using length_edit.compose_correct [of fillItem e1 e2] length_ok_all [OF ok(1) e1(1)]
      length_ok_all [OF ok(2) e2(1)] e1 e2 by (auto simp: length_edit.wf_def)
  have ok_e: "\<forall>r \<in> set e. 0 \<le> len_newLength r" using e(2) by (auto simp: length_ok_def)
  have "ranges_within (ilen xs) (map len_range e)"
    using ranges_within_chain [of "ilen xs" "?v e"] e(3,4) by simp
  with LengthEdit_applyArray_app [OF ok_e] LengthEdit_applyArray_app [OF ok(1) assms(2)]
    LengthEdit_applyArray_app [OF ok(2) w2] e(1,5) show ?thesis by metis
qed

theorem length_edit_apply_array_witness:
  "\<exists>e. BaseEdit_compose length_ops [MkLengthReplacement (MkOffsetRange 0 1) 2]
      [MkLengthReplacement (MkOffsetRange 1 3) 0] = Some e"
proof -
  have "BaseEdit_getNewDataLength length_ops [MkLengthReplacement (MkOffsetRange 0 1) 2] (ilen [1, 2 :: int]) = 3"
    by (simp add: BaseEdit_getNewDataLength_def BaseEdit_getLengthDelta_def BaseReplacement_getLengthDelta_def)
  then show ?thesis
    using length_edit_apply_array [of "[MkLengthReplacement (MkOffsetRange 0 1) 2]"
        "[MkLengthReplacement (MkOffsetRange 1 3) 0]" "[1, 2 :: int]" 0]
    by (auto simp: ranges_within_def)
qed

text \<open>
  Annotated string edits, whatever the method that joins their data does: composing never
  throws and has the effect of the two edits one after the other, and \<open>toStringEdit\<close> of the
  composed edit is an edit with the same effect.
\<close>

theorem annotated_edit_compose:
  assumes "ranges_within (ilen s) (map asr_range e1)"
    and "ranges_within (ilen (BaseStringEdit_apply (annotated_ops join) e1 s)) (map asr_range e2)"
  shows "\<exists>e t. BaseEdit_compose (annotated_ops join) e1 e2 = Some e \<and>
    BaseStringEdit_apply (annotated_ops join) e s =
      BaseStringEdit_apply (annotated_ops join) e2 (BaseStringEdit_apply (annotated_ops join) e1 s) \<and>
    AnnotatedStringEdit_toStringEdit None e = Some t \<and>
    StringEdit_apply t s = BaseStringEdit_apply (annotated_ops join) e s"
proof -
  have e1: "achain 0 (asview e1)" "aend 0 (asview e1) \<le> ilen s"
    using assms(1) ranges_within_chain [of "ilen s" "asview e1"] by auto
  note a1 = annotated_apply_app [OF e1]
  have e2: "achain 0 (asview e2)" "aend 0 (asview e2) \<le> ilen (app 0 (asview e1) s)"
    using assms(2) ranges_within_chain [of "ilen (app 0 (asview e1) s)" "asview e2"] by (auto simp: a1)
  obtain e where e: "BaseEdit_compose (annotated_ops join) e1 e2 = Some e" "achain 0 (asview e)"
    "aend 0 (asview e) \<le> ilen s" "app 0 (asview e) s = app 0 (asview e2) (app 0 (asview e1) s)"
    using annotated_edit.compose_correct [of join e1 e2] e1 e2 by (auto simp: annotated_wf)
  have "AnnotatedStringEdit_toStringEdit None e = Some (reps (asview e))"
    using StringEdit_new_reps [OF e(2)] by (simp add: AnnotatedStringEdit_toStringEdit_def toStringEdit_loop_None)
  with e show ?thesis
    by (simp add: annotated_apply_app [OF e(2,3)] annotated_apply_app [OF e2] a1 StringEdit_apply_reps)
qed

theorem annotated_edit_compose_witness:
  "\<exists>e. BaseEdit_compose (annotated_ops VoidEditData_join)
    [MkAnnotatedReplacement (MkOffsetRange 0 1) [97] ()] [MkAnnotatedReplacement (MkOffsetRange 0 1) [] ()] = Some e"
proof -
  have "BaseStringEdit_apply (annotated_ops VoidEditData_join)
      [MkAnnotatedReplacement (MkOffsetRange 0 1) [97] ()] [49] = [97]"
    by (simp add: BaseStringEdit_apply_def)
  then show ?thesis
    using annotated_edit_compose [of "[49]" "[MkAnnotatedReplacement (MkOffsetRange 0 1) [97] ()]" VoidEditData_join
        "[MkAnnotatedReplacement (MkOffsetRange 0 1) [] ()]"] by (auto simp: ranges_within_def)
qed

end
