(* ===== verification/Positions.thy ===== *)
theory Positions
  imports Prelude
begin

text \<open>
  \<open>vs/editor/common/core/position.ts\<close>, \<open>range.ts\<close> and \<open>selection.ts\<close>: positions in a
  text (1-based line and column), ranges of positions and oriented ranges. The three classes
  are immutable, so each is a datatype with the fields of the class as selectors; what the
  constructor of \<open>Range\<close> does (it orders its two ends) is \<open>Range_new\<close>. An \<open>IRange\<close> that
  did not go through the constructor is a \<open>MkRange\<close> value that need not be ordered.

  Positions are ordered as the code orders them; \<open>position\<close> is an instance of \<open>linorder\<close>,
  and a range denotes the closed interval between its ends.
\<close>

section \<open>Position\<close>

datatype position = Position (lineNumber: int) (column: int)

definition Position_with :: "position \<Rightarrow> int \<Rightarrow> int \<Rightarrow> position" where
  "Position_with p newLineNumber newColumn =
     (if newLineNumber = lineNumber p \<and> newColumn = column p then p
      else Position newLineNumber newColumn)"

definition Position_delta :: "position \<Rightarrow> int \<Rightarrow> int \<Rightarrow> position" where
  "Position_delta p deltaLineNumber deltaColumn =
     Position_with p (max 1 (lineNumber p + deltaLineNumber)) (max 1 (column p + deltaColumn))"

fun Position_equals :: "position option \<Rightarrow> position option \<Rightarrow> bool" where
  "Position_equals None None = True"
| "Position_equals (Some a) (Some b) = (lineNumber a = lineNumber b \<and> column a = column b)"
| "Position_equals _ _ = False"

definition Position_isBefore :: "position \<Rightarrow> position \<Rightarrow> bool" where
  "Position_isBefore a b =
     (if lineNumber a < lineNumber b then True
      else if lineNumber b < lineNumber a then False
      else column a < column b)"

definition Position_isBeforeOrEqual :: "position \<Rightarrow> position \<Rightarrow> bool" where
  "Position_isBeforeOrEqual a b =
     (if lineNumber a < lineNumber b then True
      else if lineNumber b < lineNumber a then False
      else column a \<le> column b)"

definition Position_compare :: "position \<Rightarrow> position \<Rightarrow> int" where
  "Position_compare a b =
     (let aLineNumber = toInt32 (lineNumber a);
          bLineNumber = toInt32 (lineNumber b)
      in if aLineNumber = bLineNumber
         then (let aColumn = toInt32 (column a); bColumn = toInt32 (column b)
               in aColumn - bColumn)
         else aLineNumber - bLineNumber)"

instantiation position :: linorder
begin

definition less_position :: "position \<Rightarrow> position \<Rightarrow> bool" where
  "less_position a b \<longleftrightarrow> lineNumber a < lineNumber b \<or> (lineNumber a = lineNumber b \<and> column a < column b)"

definition less_eq_position :: "position \<Rightarrow> position \<Rightarrow> bool" where
  "less_eq_position a b \<longleftrightarrow> lineNumber a < lineNumber b \<or> (lineNumber a = lineNumber b \<and> column a \<le> column b)"

instance
  by intro_classes (auto simp: less_position_def less_eq_position_def position.expand)

end

lemmas position_order = less_position_def less_eq_position_def

lemma Position_isBefore_less [simp]: "Position_isBefore a b \<longleftrightarrow> a < b"
  by (auto simp: Position_isBefore_def position_order)

lemma Position_isBeforeOrEqual_le [simp]: "Position_isBeforeOrEqual a b \<longleftrightarrow> a \<le> b"
  by (auto simp: Position_isBeforeOrEqual_def position_order)

lemma Position_equals_Some [simp]: "Position_equals (Some a) (Some b) \<longleftrightarrow> a = b"
  by (auto simp: position.expand)

definition int32_position :: "position \<Rightarrow> bool" where
  "int32_position p \<longleftrightarrow> int32_range (lineNumber p) \<and> int32_range (column p)"

lemma Position_compare_int32:
  "int32_position a \<Longrightarrow> int32_position b \<Longrightarrow>
    (Position_compare a b < 0 \<longleftrightarrow> a < b) \<and> (Position_compare a b = 0 \<longleftrightarrow> a = b) \<and>
    (0 < Position_compare a b \<longleftrightarrow> b < a)"
  by (auto simp: Position_compare_def int32_position_def position_order position.expand Let_def)

section \<open>Range\<close>

datatype edit_range = MkRange (startLineNumber: int) (startColumn: int) (endLineNumber: int) (endColumn: int)

definition Range_new :: "int \<Rightarrow> int \<Rightarrow> int \<Rightarrow> int \<Rightarrow> edit_range" where
  "Range_new sl sc el ec =
     (if sl > el \<or> (sl = el \<and> sc > ec) then MkRange el ec sl sc else MkRange sl sc el ec)"

definition Range_isEmpty :: "edit_range \<Rightarrow> bool" where
  "Range_isEmpty r \<longleftrightarrow> startLineNumber r = endLineNumber r \<and> startColumn r = endColumn r"

definition Range_containsPosition :: "edit_range \<Rightarrow> position \<Rightarrow> bool" where
  "Range_containsPosition r p =
     (if lineNumber p < startLineNumber r \<or> lineNumber p > endLineNumber r then False
      else if lineNumber p = startLineNumber r \<and> column p < startColumn r then False
      else if lineNumber p = endLineNumber r \<and> column p > endColumn r then False
      else True)"

definition Range_strictContainsPosition :: "edit_range \<Rightarrow> position \<Rightarrow> bool" where
  "Range_strictContainsPosition r p =
     (if lineNumber p < startLineNumber r \<or> lineNumber p > endLineNumber r then False
      else if lineNumber p = startLineNumber r \<and> column p \<le> startColumn r then False
      else if lineNumber p = endLineNumber r \<and> column p \<ge> endColumn r then False
      else True)"

definition Range_containsRange :: "edit_range \<Rightarrow> edit_range \<Rightarrow> bool" where
  "Range_containsRange r q =
     (if startLineNumber q < startLineNumber r \<or> endLineNumber q < startLineNumber r then False
      else if startLineNumber q > endLineNumber r \<or> endLineNumber q > endLineNumber r then False
      else if startLineNumber q = startLineNumber r \<and> startColumn q < startColumn r then False
      else if endLineNumber q = endLineNumber r \<and> endColumn q > endColumn r then False
      else True)"

definition Range_strictContainsRange :: "edit_range \<Rightarrow> edit_range \<Rightarrow> bool" where
  "Range_strictContainsRange r q =
     (if startLineNumber q < startLineNumber r \<or> endLineNumber q < startLineNumber r then False
      else if startLineNumber q > endLineNumber r \<or> endLineNumber q > endLineNumber r then False
      else if startLineNumber q = startLineNumber r \<and> startColumn q \<le> startColumn r then False
      else if endLineNumber q = endLineNumber r \<and> endColumn q \<ge> endColumn r then False
      else True)"

definition Range_plusRange :: "edit_range \<Rightarrow> edit_range \<Rightarrow> edit_range" where
  "Range_plusRange a b =
     (let (sl, sc) =
            (if startLineNumber b < startLineNumber a then (startLineNumber b, startColumn b)
             else if startLineNumber b = startLineNumber a
             then (startLineNumber b, min (startColumn b) (startColumn a))
             else (startLineNumber a, startColumn a));
          (el, ec) =
            (if endLineNumber b > endLineNumber a then (endLineNumber b, endColumn b)
             else if endLineNumber b = endLineNumber a
             then (endLineNumber b, max (endColumn b) (endColumn a))
             else (endLineNumber a, endColumn a))
      in Range_new sl sc el ec)"

definition Range_intersectRanges :: "edit_range \<Rightarrow> edit_range \<Rightarrow> edit_range option" where
  "Range_intersectRanges a b =
     (let (sl, sc) =
            (if startLineNumber a < startLineNumber b then (startLineNumber b, startColumn b)
             else if startLineNumber a = startLineNumber b
             then (startLineNumber a, max (startColumn a) (startColumn b))
             else (startLineNumber a, startColumn a));
          (el, ec) =
            (if endLineNumber a > endLineNumber b then (endLineNumber b, endColumn b)
             else if endLineNumber a = endLineNumber b
             then (endLineNumber a, min (endColumn a) (endColumn b))
             else (endLineNumber a, endColumn a))
      in if sl > el then None
         else if sl = el \<and> sc > ec then None
         else Some (Range_new sl sc el ec))"

fun Range_equalsRange :: "edit_range option \<Rightarrow> edit_range option \<Rightarrow> bool" where
  "Range_equalsRange None None = True"
| "Range_equalsRange (Some a) (Some b) =
     (startLineNumber a = startLineNumber b \<and> startColumn a = startColumn b \<and>
      endLineNumber a = endLineNumber b \<and> endColumn a = endColumn b)"
| "Range_equalsRange _ _ = False"

definition Range_getEndPosition :: "edit_range \<Rightarrow> position" where
  "Range_getEndPosition r = Position (endLineNumber r) (endColumn r)"

definition Range_getStartPosition :: "edit_range \<Rightarrow> position" where
  "Range_getStartPosition r = Position (startLineNumber r) (startColumn r)"

definition Range_setEndPosition :: "edit_range \<Rightarrow> int \<Rightarrow> int \<Rightarrow> edit_range" where
  "Range_setEndPosition r el ec = Range_new (startLineNumber r) (startColumn r) el ec"

definition Range_setStartPosition :: "edit_range \<Rightarrow> int \<Rightarrow> int \<Rightarrow> edit_range" where
  "Range_setStartPosition r sl sc = Range_new sl sc (endLineNumber r) (endColumn r)"

definition Range_collapseToStart :: "edit_range \<Rightarrow> edit_range" where
  "Range_collapseToStart r =
     Range_new (startLineNumber r) (startColumn r) (startLineNumber r) (startColumn r)"

definition Range_collapseToEnd :: "edit_range \<Rightarrow> edit_range" where
  "Range_collapseToEnd r =
     Range_new (endLineNumber r) (endColumn r) (endLineNumber r) (endColumn r)"

definition Range_delta :: "edit_range \<Rightarrow> int \<Rightarrow> edit_range" where
  "Range_delta r lineCount =
     Range_new (startLineNumber r + lineCount) (startColumn r) (endLineNumber r + lineCount) (endColumn r)"

definition Range_isSingleLine :: "edit_range \<Rightarrow> bool" where
  "Range_isSingleLine r \<longleftrightarrow> startLineNumber r = endLineNumber r"

definition Range_fromPositions :: "position \<Rightarrow> position \<Rightarrow> edit_range" where
  "Range_fromPositions p q = Range_new (lineNumber p) (column p) (lineNumber q) (column q)"

definition Range_lift :: "edit_range option \<Rightarrow> edit_range option" where
  "Range_lift r =
     (case r of None \<Rightarrow> None
      | Some q \<Rightarrow> Some (Range_new (startLineNumber q) (startColumn q) (endLineNumber q) (endColumn q)))"

definition Range_areIntersectingOrTouching :: "edit_range \<Rightarrow> edit_range \<Rightarrow> bool" where
  "Range_areIntersectingOrTouching a b =
     (if endLineNumber a < startLineNumber b \<or>
         (endLineNumber a = startLineNumber b \<and> endColumn a < startColumn b) then False
      else if endLineNumber b < startLineNumber a \<or>
         (endLineNumber b = startLineNumber a \<and> endColumn b < startColumn a) then False
      else True)"

definition Range_areIntersecting :: "edit_range \<Rightarrow> edit_range \<Rightarrow> bool" where
  "Range_areIntersecting a b =
     (if endLineNumber a < startLineNumber b \<or>
         (endLineNumber a = startLineNumber b \<and> endColumn a \<le> startColumn b) then False
      else if endLineNumber b < startLineNumber a \<or>
         (endLineNumber b = startLineNumber a \<and> endColumn b \<le> startColumn a) then False
      else True)"

definition Range_areOnlyIntersecting :: "edit_range \<Rightarrow> edit_range \<Rightarrow> bool" where
  "Range_areOnlyIntersecting a b =
     (if endLineNumber a < startLineNumber b - 1 \<or>
         (endLineNumber a = startLineNumber b \<and> endColumn a < startColumn b - 1) then False
      else if endLineNumber b < startLineNumber a - 1 \<or>
         (endLineNumber b = startLineNumber a \<and> endColumn b < startColumn a - 1) then False
      else True)"

fun Range_compareRangesUsingStarts :: "edit_range option \<Rightarrow> edit_range option \<Rightarrow> int" where
  "Range_compareRangesUsingStarts (Some a) (Some b) =
     (let aStartLineNumber = toInt32 (startLineNumber a);
          bStartLineNumber = toInt32 (startLineNumber b)
      in if aStartLineNumber = bStartLineNumber then
           (let aStartColumn = toInt32 (startColumn a); bStartColumn = toInt32 (startColumn b)
            in if aStartColumn = bStartColumn then
                 (let aEndLineNumber = toInt32 (endLineNumber a);
                      bEndLineNumber = toInt32 (endLineNumber b)
                  in if aEndLineNumber = bEndLineNumber
                     then toInt32 (endColumn a) - toInt32 (endColumn b)
                     else aEndLineNumber - bEndLineNumber)
               else aStartColumn - bStartColumn)
         else aStartLineNumber - bStartLineNumber)"
| "Range_compareRangesUsingStarts a b =
     (if a \<noteq> None then 1 else 0) - (if b \<noteq> None then 1 else 0)"

definition Range_compareRangesUsingEnds :: "edit_range \<Rightarrow> edit_range \<Rightarrow> int" where
  "Range_compareRangesUsingEnds a b =
     (if endLineNumber a = endLineNumber b then
        if endColumn a = endColumn b then
          if startLineNumber a = startLineNumber b then startColumn a - startColumn b
          else startLineNumber a - startLineNumber b
        else endColumn a - endColumn b
      else endLineNumber a - endLineNumber b)"

definition Range_spansMultipleLines :: "edit_range \<Rightarrow> bool" where
  "Range_spansMultipleLines r \<longleftrightarrow> endLineNumber r > startLineNumber r"

section \<open>Ranges as intervals of positions\<close>

text \<open>The invariant the constructor establishes, and the positions a range covers.\<close>

definition range_ok :: "edit_range \<Rightarrow> bool" where
  "range_ok r \<longleftrightarrow> Range_getStartPosition r \<le> Range_getEndPosition r"

definition range_set :: "edit_range \<Rightarrow> position set" where
  "range_set r = {Range_getStartPosition r .. Range_getEndPosition r}"

lemmas range_ends = Range_getStartPosition_def Range_getEndPosition_def

lemma range_ext:
  "Range_getStartPosition r = Range_getStartPosition q \<Longrightarrow> Range_getEndPosition r = Range_getEndPosition q \<Longrightarrow> r = q"
  by (simp add: range_ends edit_range.expand)

lemma Range_new_start [simp]:
  "Range_getStartPosition (Range_new a b c d) = min (Position a b) (Position c d)"
  by (auto simp: Range_new_def range_ends position_order min_def)

lemma Range_new_end [simp]:
  "Range_getEndPosition (Range_new a b c d) = max (Position a b) (Position c d)"
  by (auto simp: Range_new_def range_ends position_order max_def)

lemma Range_new_ok [simp]: "range_ok (Range_new a b c d)"
  by (simp add: range_ok_def min_le_iff_disj)

lemma position_min:
  "min (Position a b) (Position c d) =
    (if a < c then Position a b else if a = c then Position a (min b d) else Position c d)"
  by (auto simp: min_def position_order)

lemma position_max:
  "max (Position a b) (Position c d) =
    (if a > c then Position a b else if a = c then Position a (max b d) else Position c d)"
  by (auto simp: max_def position_order)

lemma Range_plusRange_new:
  "\<exists>sl sc el ec. Range_plusRange a b = Range_new sl sc el ec \<and>
    Position sl sc = min (Range_getStartPosition a) (Range_getStartPosition b) \<and>
    Position el ec = max (Range_getEndPosition a) (Range_getEndPosition b)"
  by (auto simp: Range_plusRange_def range_ends position_min position_max min.commute max.commute)

lemma Range_plusRange_ends:
  assumes "range_ok a"
  shows "Range_getStartPosition (Range_plusRange a b) = min (Range_getStartPosition a) (Range_getStartPosition b)"
    and "Range_getEndPosition (Range_plusRange a b) = max (Range_getEndPosition a) (Range_getEndPosition b)"
proof -
  obtain sl sc el ec where n: "Range_plusRange a b = Range_new sl sc el ec"
    and s: "Position sl sc = min (Range_getStartPosition a) (Range_getStartPosition b)"
    and e: "Position el ec = max (Range_getEndPosition a) (Range_getEndPosition b)"
    using Range_plusRange_new by blast
  have "Position sl sc \<le> Position el ec"
    using assms unfolding s e range_ok_def by (auto simp: min_le_iff_disj le_max_iff_disj)
  then show "Range_getStartPosition (Range_plusRange a b) = min (Range_getStartPosition a) (Range_getStartPosition b)"
    and "Range_getEndPosition (Range_plusRange a b) = max (Range_getEndPosition a) (Range_getEndPosition b)"
    unfolding n Range_new_start Range_new_end s [symmetric] e [symmetric]
    by (simp_all add: min_absorb1 max_absorb2)
qed

lemma Range_intersectRanges_None:
  "Range_intersectRanges a b = None \<longleftrightarrow>
    \<not> max (Range_getStartPosition a) (Range_getStartPosition b) \<le> min (Range_getEndPosition a) (Range_getEndPosition b)"
  by (auto simp: Range_intersectRanges_def range_ends position_order min_def max_def Let_def split: if_splits)

lemma Range_intersectRanges_Some:
  "Range_intersectRanges a b = Some r \<Longrightarrow>
    Range_getStartPosition r = max (Range_getStartPosition a) (Range_getStartPosition b) \<and>
    Range_getEndPosition r = min (Range_getEndPosition a) (Range_getEndPosition b) \<and> range_ok r"
  by (auto simp: Range_intersectRanges_def Range_new_def range_ok_def range_ends position_order min_def max_def Let_def
      split: if_splits)

lemma Range_containsPosition_set [simp]:
  "range_ok r \<Longrightarrow> Range_containsPosition r p \<longleftrightarrow> p \<in> range_set r"
  by (auto simp: Range_containsPosition_def range_set_def range_ok_def range_ends position_order)

lemma Range_strictContainsPosition_set:
  "range_ok r \<Longrightarrow>
    Range_strictContainsPosition r p \<longleftrightarrow> Range_getStartPosition r < p \<and> p < Range_getEndPosition r"
  by (auto simp: Range_strictContainsPosition_def range_ok_def range_ends position_order)

lemma Range_containsRange_iff:
  "range_ok r \<Longrightarrow> range_ok q \<Longrightarrow>
    Range_containsRange r q \<longleftrightarrow>
      Range_getStartPosition r \<le> Range_getStartPosition q \<and> Range_getEndPosition q \<le> Range_getEndPosition r"
  by (auto simp: Range_containsRange_def range_ok_def range_ends position_order)

lemma Range_isEmpty_iff: "Range_isEmpty r \<longleftrightarrow> Range_getStartPosition r = Range_getEndPosition r"
  by (simp add: Range_isEmpty_def range_ends)

lemma Range_intersectRanges_set:
  assumes "range_ok a" and "range_ok b"
  shows "(case Range_intersectRanges a b of None \<Rightarrow> {} | Some r \<Rightarrow> range_set r) = range_set a \<inter> range_set b"
proof (cases "Range_intersectRanges a b")
  case None
  then have "\<not> max (Range_getStartPosition a) (Range_getStartPosition b)
      \<le> min (Range_getEndPosition a) (Range_getEndPosition b)"
    by (rule Range_intersectRanges_None [THEN iffD1])
  then show ?thesis unfolding None by (auto simp: range_set_def)
next
  case (Some r)
  from Range_intersectRanges_Some [OF Some] Some show ?thesis by (auto simp: range_set_def)
qed

lemma range_set_mono:
  "range_ok r \<Longrightarrow> range_set r \<subseteq> range_set q \<longleftrightarrow>
    Range_getStartPosition q \<le> Range_getStartPosition r \<and> Range_getEndPosition r \<le> Range_getEndPosition q"
  by (auto simp: range_set_def range_ok_def)

section \<open>Selection\<close>

text \<open>
  A \<open>Selection\<close> is a \<open>Range\<close> (its ends ordered by the inherited constructor) that also keeps
  where it started and where its cursor is.
\<close>

datatype selection_direction = LTR | RTL

datatype selection = MkSelection (sel_range: edit_range)
  (selectionStartLineNumber: int) (selectionStartColumn: int)
  (positionLineNumber: int) (positionColumn: int)

definition Selection_new :: "int \<Rightarrow> int \<Rightarrow> int \<Rightarrow> int \<Rightarrow> selection" where
  "Selection_new sl sc pl pc = MkSelection (Range_new sl sc pl pc) sl sc pl pc"

definition Selection_selectionsEqual :: "selection \<Rightarrow> selection \<Rightarrow> bool" where
  "Selection_selectionsEqual a b \<longleftrightarrow>
     selectionStartLineNumber a = selectionStartLineNumber b \<and>
     selectionStartColumn a = selectionStartColumn b \<and>
     positionLineNumber a = positionLineNumber b \<and>
     positionColumn a = positionColumn b"

definition Selection_getDirection :: "selection \<Rightarrow> selection_direction" where
  "Selection_getDirection s =
     (if selectionStartLineNumber s = startLineNumber (sel_range s) \<and>
         selectionStartColumn s = startColumn (sel_range s) then LTR else RTL)"

definition Selection_setEndPosition :: "selection \<Rightarrow> int \<Rightarrow> int \<Rightarrow> selection" where
  "Selection_setEndPosition s el ec =
     (if Selection_getDirection s = LTR
      then Selection_new (startLineNumber (sel_range s)) (startColumn (sel_range s)) el ec
      else Selection_new el ec (startLineNumber (sel_range s)) (startColumn (sel_range s)))"

definition Selection_getPosition :: "selection \<Rightarrow> position" where
  "Selection_getPosition s = Position (positionLineNumber s) (positionColumn s)"

definition Selection_getSelectionStart :: "selection \<Rightarrow> position" where
  "Selection_getSelectionStart s = Position (selectionStartLineNumber s) (selectionStartColumn s)"

definition Selection_setStartPosition :: "selection \<Rightarrow> int \<Rightarrow> int \<Rightarrow> selection" where
  "Selection_setStartPosition s sl sc =
     (if Selection_getDirection s = LTR
      then Selection_new sl sc (endLineNumber (sel_range s)) (endColumn (sel_range s))
      else Selection_new (endLineNumber (sel_range s)) (endColumn (sel_range s)) sl sc)"

definition Selection_fromPositions :: "position \<Rightarrow> position \<Rightarrow> selection" where
  "Selection_fromPositions p q = Selection_new (lineNumber p) (column p) (lineNumber q) (column q)"

definition Selection_fromRange :: "edit_range \<Rightarrow> selection_direction \<Rightarrow> selection" where
  "Selection_fromRange r d =
     (case d of
        LTR \<Rightarrow> Selection_new (startLineNumber r) (startColumn r) (endLineNumber r) (endColumn r)
      | RTL \<Rightarrow> Selection_new (endLineNumber r) (endColumn r) (startLineNumber r) (startColumn r))"

definition Selection_liftSelection :: "selection \<Rightarrow> selection" where
  "Selection_liftSelection s =
     Selection_new (selectionStartLineNumber s) (selectionStartColumn s)
       (positionLineNumber s) (positionColumn s)"

fun selectionsArrEqual_loop :: "selection list \<Rightarrow> selection list \<Rightarrow> bool" where
  "selectionsArrEqual_loop (a # as) (b # bs) =
     (if \<not> Selection_selectionsEqual a b then False else selectionsArrEqual_loop as bs)"
| "selectionsArrEqual_loop _ _ = True"

fun Selection_selectionsArrEqual :: "selection list option \<Rightarrow> selection list option \<Rightarrow> bool" where
  "Selection_selectionsArrEqual None None = True"
| "Selection_selectionsArrEqual (Some as) (Some bs) =
     (if length as \<noteq> length bs then False else selectionsArrEqual_loop as bs)"
| "Selection_selectionsArrEqual _ _ = False"

definition Selection_createWithDirection ::
  "int \<Rightarrow> int \<Rightarrow> int \<Rightarrow> int \<Rightarrow> selection_direction \<Rightarrow> selection" where
  "Selection_createWithDirection sl sc el ec d =
     (if d = LTR then Selection_new sl sc el ec else Selection_new el ec sl sc)"

text \<open>The invariant of selections that went through the constructor.\<close>

definition selection_ok :: "selection \<Rightarrow> bool" where
  "selection_ok s \<longleftrightarrow>
     sel_range s = Range_new (selectionStartLineNumber s) (selectionStartColumn s)
       (positionLineNumber s) (positionColumn s)"

lemma Selection_new_ok [simp]: "selection_ok (Selection_new a b c d)"
  by (simp add: selection_ok_def Selection_new_def)

lemma selection_operations_ok:
  "selection_ok (Selection_setEndPosition s a b)" "selection_ok (Selection_setStartPosition s a b)"
  "selection_ok (Selection_fromRange r d)" "selection_ok (Selection_fromPositions p q)"
  "selection_ok (Selection_createWithDirection a b c e d)"
  by (auto simp: Selection_setEndPosition_def Selection_setStartPosition_def Selection_fromRange_def
      Selection_fromPositions_def Selection_createWithDirection_def split: selection_direction.split)

lemma Selection_getDirection_iff:
  "selection_ok s \<Longrightarrow>
    Selection_getDirection s = (if Selection_getSelectionStart s \<le> Selection_getPosition s then LTR else RTL)"
  by (auto simp: Selection_getDirection_def selection_ok_def Range_new_def position_order
      Selection_getSelectionStart_def Selection_getPosition_def)

lemma selectionsArrEqual_loop_iff:
  "length as = length bs \<Longrightarrow>
    selectionsArrEqual_loop as bs \<longleftrightarrow> list_all2 Selection_selectionsEqual as bs"
  by (induction as bs rule: selectionsArrEqual_loop.induct) auto

lemma Selection_selectionsEqual_iff:
  "selection_ok a \<Longrightarrow> selection_ok b \<Longrightarrow> Selection_selectionsEqual a b \<longleftrightarrow> a = b"
  by (cases a; cases b) (auto simp: Selection_selectionsEqual_def selection_ok_def)

section \<open>Properties\<close>

text \<open>
  The three comparison functions of \<open>Position\<close> describe one linear order: \<open>isBefore\<close> is
  its strict part, \<open>isBeforeOrEqual\<close> its reflexive part, \<open>equals\<close> its equality, and
  \<open>compare\<close>, which narrows to 32 bits first, has the matching sign on all positions whose
  line and column fit 32 bits.
\<close>

theorem position_comparisons_agree:
  assumes "int32_position a" and "int32_position b"
  shows "(Position_compare a b < 0 \<longleftrightarrow> Position_isBefore a b) \<and>
    (Position_compare a b \<le> 0 \<longleftrightarrow> Position_isBeforeOrEqual a b) \<and>
    (Position_compare a b = 0 \<longleftrightarrow> Position_equals (Some a) (Some b)) \<and>
    (Position_isBefore a b \<or> Position_equals (Some a) (Some b) \<or> Position_isBefore b a)"
  using Position_compare_int32 [OF assms] by (auto simp del: Position_equals.simps)

text \<open>
  On ordered ranges, \<open>Range\<close> is a faithful interval algebra over positions:
  \<open>containsPosition\<close> is membership, \<open>containsRange\<close> is inclusion, \<open>intersectRanges\<close> is
  exactly the intersection (\<open>null\<close> when it is empty), and \<open>plusRange\<close> is the smallest range
  that contains both.
\<close>

theorem range_interval_algebra:
  assumes a: "range_ok a" and b: "range_ok b"
  shows "(Range_containsPosition a p \<longleftrightarrow> p \<in> range_set a) \<and>
    (Range_containsRange a b \<longleftrightarrow> range_set b \<subseteq> range_set a) \<and>
    (case Range_intersectRanges a b of None \<Rightarrow> {} | Some r \<Rightarrow> range_set r) = range_set a \<inter> range_set b \<and>
    range_ok (Range_plusRange a b) \<and>
    range_set a \<union> range_set b \<subseteq> range_set (Range_plusRange a b) \<and>
    (\<forall>c. range_ok c \<and> range_set a \<union> range_set b \<subseteq> range_set c \<longrightarrow>
      range_set (Range_plusRange a b) \<subseteq> range_set c)"
proof -
  have ok: "range_ok (Range_plusRange a b)"
    using Range_plusRange_new [of a b] by auto
  have "range_set (Range_plusRange a b) \<subseteq> range_set c"
    if "range_set a \<subseteq> range_set c" "range_set b \<subseteq> range_set c" for c
    using that unfolding range_set_mono [OF a] range_set_mono [OF b] range_set_mono [OF ok]
    by (simp add: Range_plusRange_ends [OF a])
  moreover have "range_set a \<subseteq> range_set (Range_plusRange a b)" "range_set b \<subseteq> range_set (Range_plusRange a b)"
    unfolding range_set_mono [OF a] range_set_mono [OF b] by (simp_all add: Range_plusRange_ends [OF a])
  ultimately show ?thesis
    using a b ok Range_intersectRanges_set [OF a b]
    by (simp add: Range_containsRange_iff range_set_mono)
qed

theorem range_interval_algebra_witness:
  "Range_containsRange (MkRange 1 1 5 1) (MkRange 2 1 3 4) \<longleftrightarrow>
    range_set (MkRange 2 1 3 4) \<subseteq> range_set (MkRange 1 1 5 1)"
  by (rule range_interval_algebra [THEN conjunct2, THEN conjunct1])
    (simp_all add: range_ok_def range_ends position_order)

definition int32_edit_range :: "edit_range \<Rightarrow> bool" where
  "int32_edit_range r \<longleftrightarrow>
     int32_position (Range_getStartPosition r) \<and> int32_position (Range_getEndPosition r)"

text \<open>
  The two orders on ranges agree with the positions: \<open>compareRangesUsingStarts\<close> is the
  lexicographic order on (start, end) for 32-bit ranges, \<open>compareRangesUsingEnds\<close> the one on
  (end, start), and each is zero exactly on equal ranges.
\<close>

theorem range_comparisons_lexicographic:
  assumes "int32_edit_range a" and "int32_edit_range b"
  shows "(Range_compareRangesUsingStarts (Some a) (Some b) < 0 \<longleftrightarrow>
      Range_getStartPosition a < Range_getStartPosition b \<or>
      (Range_getStartPosition a = Range_getStartPosition b \<and> Range_getEndPosition a < Range_getEndPosition b)) \<and>
    (Range_compareRangesUsingEnds a b < 0 \<longleftrightarrow>
      Range_getEndPosition a < Range_getEndPosition b \<or>
      (Range_getEndPosition a = Range_getEndPosition b \<and> Range_getStartPosition a < Range_getStartPosition b)) \<and>
    (Range_compareRangesUsingStarts (Some a) (Some b) = 0 \<longleftrightarrow> Range_equalsRange (Some a) (Some b)) \<and>
    (Range_compareRangesUsingEnds a b = 0 \<longleftrightarrow> Range_equalsRange (Some a) (Some b))"
  using assms
  by (auto simp: int32_edit_range_def int32_position_def range_ends position_order
      Range_compareRangesUsingEnds_def Let_def)

theorem range_comparisons_lexicographic_witness:
  "Range_compareRangesUsingStarts (Some (MkRange 1 1 5 1)) (Some (MkRange 1 1 5 2)) < 0"
  using range_comparisons_lexicographic [of "MkRange 1 1 5 1" "MkRange 1 1 5 2"]
  by (simp add: int32_edit_range_def int32_position_def int32_range_def range_ends position_order)

text \<open>
  Direction and ends of a selection: every selection built by the class has the ordered
  range of its two ends, its direction is \<open>LTR\<close> exactly when it does not start after its
  cursor, and \<open>fromRange\<close> with the direction of a selection rebuilds that selection.
\<close>

theorem selection_direction_roundtrip:
  "selection_ok (Selection_createWithDirection a b c d dir) \<and>
   (let s = Selection_new a b c d in
     (Selection_getDirection s = LTR \<longleftrightarrow>
       Position_isBeforeOrEqual (Selection_getSelectionStart s) (Selection_getPosition s)) \<and>
     range_ok (sel_range s) \<and>
     Selection_fromRange (sel_range s) (Selection_getDirection s) = s)"
proof -
  let ?s = "Selection_new a b c d"
  have "Selection_fromRange (sel_range ?s) (Selection_getDirection ?s) = ?s"
    by (auto simp: Selection_fromRange_def Selection_getDirection_def Selection_new_def Range_new_def)
  moreover have "Selection_getDirection ?s = LTR \<longleftrightarrow>
      Position_isBeforeOrEqual (Selection_getSelectionStart ?s) (Selection_getPosition ?s)"
    by (simp add: Selection_getDirection_iff)
  moreover have "range_ok (sel_range ?s)"
    by (simp add: Selection_new_def)
  ultimately show ?thesis
    by (simp add: selection_operations_ok Let_def)
qed

text \<open>
  \<open>setEndPosition\<close> is documented to change the position of the selection. On a selection
  that runs right to left it does not: the given end becomes the selection's start, and the
  cursor stays at the end that comes first in the text.
\<close>

theorem selection_setEndPosition_rtl:
  assumes "selection_ok s" and "Selection_getDirection s = RTL"
  shows "Selection_getSelectionStart (Selection_setEndPosition s l c) = Position l c \<and>
    Selection_getPosition (Selection_setEndPosition s l c) = Selection_getPosition s"
  using assms
  by (auto simp: Selection_setEndPosition_def Selection_getSelectionStart_def Selection_getPosition_def
      Selection_new_def selection_ok_def Selection_getDirection_def Range_new_def split: if_splits)

end
