(* ===== verification/ArraysFind.thy ===== *)
theory ArraysFind
  imports Prelude
begin

text \<open>
  \<open>vs/base/common/arraysFind.ts\<close>: linear and binary searches over arrays. The binary
  searches take a predicate that is monotone over the array; the range containers search
  their sorted arrays with them. Indices into the array are \<open>nat\<close>; a result that may be
  \<open>-1\<close> is an \<open>int\<close>. An array element that may be \<open>undefined\<close> is an \<open>option\<close>.
\<close>

section \<open>Linear searches\<close>

function findLastIdx :: "'a list \<Rightarrow> ('a \<Rightarrow> nat \<Rightarrow> bool) \<Rightarrow> int \<Rightarrow> int" where
  "findLastIdx xs p i =
     (if i < 0 then -1
      else if p (xs ! nat i) (nat i) then i
      else findLastIdx xs p (i - 1))"
  by pat_completeness auto
termination
  by (relation "measure (\<lambda>(xs, p, i). nat (i + 1))") auto

declare findLastIdx.simps [simp del]

definition findLast :: "'a list \<Rightarrow> ('a \<Rightarrow> nat \<Rightarrow> bool) \<Rightarrow> int \<Rightarrow> 'a option" where
  "findLast xs p fromIndex =
     (let idx = findLastIdx xs p fromIndex
      in if idx = -1 then None else Some (xs ! nat idx))"

function findFirstIdx :: "'a list \<Rightarrow> ('a \<Rightarrow> nat \<Rightarrow> bool) \<Rightarrow> nat \<Rightarrow> int" where
  "findFirstIdx xs p i =
     (if i < length xs
      then if p (xs ! i) i then int i else findFirstIdx xs p (Suc i)
      else -1)"
  by pat_completeness auto
termination
  by (relation "measure (\<lambda>(xs, p, i). length xs - i)") auto

declare findFirstIdx.simps [simp del]

definition findFirst :: "'a list \<Rightarrow> ('a \<Rightarrow> nat \<Rightarrow> bool) \<Rightarrow> nat \<Rightarrow> 'a option" where
  "findFirst xs p fromIndex =
     (let idx = findFirstIdx xs p fromIndex
      in if idx = -1 then None else Some (xs ! nat idx))"

section \<open>Binary searches\<close>

text \<open>The \<open>while (i < j)\<close> loop of \<open>findLastIdxMonotonous\<close>; it leaves \<open>i\<close>.\<close>

function findLastIdxMonotonous_loop :: "'a list \<Rightarrow> ('a \<Rightarrow> bool) \<Rightarrow> nat \<Rightarrow> nat \<Rightarrow> nat" where
  "findLastIdxMonotonous_loop xs p i j =
     (if i < j
      then let k = (i + j) div 2
           in if p (xs ! k) then findLastIdxMonotonous_loop xs p (k + 1) j
              else findLastIdxMonotonous_loop xs p i k
      else i)"
  by pat_completeness auto
termination
  by (relation "measure (\<lambda>(xs, p, i, j). j - i)") auto

declare findLastIdxMonotonous_loop.simps [simp del]

definition findLastIdxMonotonous :: "'a list \<Rightarrow> ('a \<Rightarrow> bool) \<Rightarrow> nat \<Rightarrow> nat \<Rightarrow> int" where
  "findLastIdxMonotonous xs p startIdx endIdxEx =
     int (findLastIdxMonotonous_loop xs p startIdx endIdxEx) - 1"

definition findLastMonotonous :: "'a list \<Rightarrow> ('a \<Rightarrow> bool) \<Rightarrow> 'a option" where
  "findLastMonotonous xs p =
     (let idx = findLastIdxMonotonous xs p 0 (length xs)
      in if idx = -1 then None else Some (xs ! nat idx))"

function findFirstIdxMonotonousOrArrLen_loop ::
  "'a list \<Rightarrow> ('a \<Rightarrow> bool) \<Rightarrow> nat \<Rightarrow> nat \<Rightarrow> nat" where
  "findFirstIdxMonotonousOrArrLen_loop xs p i j =
     (if i < j
      then let k = (i + j) div 2
           in if p (xs ! k) then findFirstIdxMonotonousOrArrLen_loop xs p i k
              else findFirstIdxMonotonousOrArrLen_loop xs p (k + 1) j
      else i)"
  by pat_completeness auto
termination
  by (relation "measure (\<lambda>(xs, p, i, j). j - i)") auto

declare findFirstIdxMonotonousOrArrLen_loop.simps [simp del]

definition findFirstIdxMonotonousOrArrLen ::
  "'a list \<Rightarrow> ('a \<Rightarrow> bool) \<Rightarrow> nat \<Rightarrow> nat \<Rightarrow> nat" where
  "findFirstIdxMonotonousOrArrLen xs p startIdx endIdxEx =
     findFirstIdxMonotonousOrArrLen_loop xs p startIdx endIdxEx"

definition findFirstMonotonous :: "'a list \<Rightarrow> ('a \<Rightarrow> bool) \<Rightarrow> 'a option" where
  "findFirstMonotonous xs p =
     (let idx = findFirstIdxMonotonousOrArrLen xs p 0 (length xs)
      in if idx = length xs then None else Some (xs ! idx))"

definition findFirstIdxMonotonous :: "'a list \<Rightarrow> ('a \<Rightarrow> bool) \<Rightarrow> nat \<Rightarrow> nat \<Rightarrow> int" where
  "findFirstIdxMonotonous xs p startIdx endIdxEx =
     (let idx = findFirstIdxMonotonousOrArrLen xs p startIdx endIdxEx
      in if idx = length xs then -1 else int idx)"

section \<open>MonotonousArray\<close>

text \<open>
  The class keeps the array and the index where the last search stopped. The switch
  \<open>assertInvariants\<close> is a parameter; the previous predicate is kept only when it is on.
  The result of a search is \<open>None\<close> when the assertion throws.
\<close>

record 'a monotonous_array =
  ma_array :: "'a list"
  ma_findLastMonotonousLastIdx :: nat
  ma_prevFindLastPredicate :: "('a \<Rightarrow> bool) option"

definition MonotonousArray_new :: "'a list \<Rightarrow> 'a monotonous_array" where
  "MonotonousArray_new xs =
     \<lparr>ma_array = xs, ma_findLastMonotonousLastIdx = 0, ma_prevFindLastPredicate = None\<rparr>"

definition MonotonousArray_findLastMonotonous ::
  "bool \<Rightarrow> 'a monotonous_array \<Rightarrow> ('a \<Rightarrow> bool) \<Rightarrow> ('a option \<times> 'a monotonous_array) option" where
  "MonotonousArray_findLastMonotonous assertInvariants m p =
     (if assertInvariants \<and>
         (case ma_prevFindLastPredicate m of
            None \<Rightarrow> False
          | Some q \<Rightarrow> list_ex (\<lambda>item. q item \<and> \<not> p item) (ma_array m))
      then None
      else
        let m1 = (if assertInvariants then m\<lparr>ma_prevFindLastPredicate := Some p\<rparr> else m);
            idx = findLastIdxMonotonous (ma_array m) p (ma_findLastMonotonousLastIdx m)
                    (length (ma_array m));
            m2 = m1\<lparr>ma_findLastMonotonousLastIdx := nat (idx + 1)\<rparr>
        in Some (if idx = -1 then None else Some (ma_array m ! nat idx), m2))"

section \<open>Extremal elements\<close>

text \<open>
  A \<open>Comparator\<close> returns a number; only its sign matters. The loops of \<open>findFirstMax\<close> and
  \<open>findLastMax\<close> start from the first element and run over the rest.
\<close>

fun findFirstMax_loop :: "('a \<Rightarrow> 'a \<Rightarrow> int) \<Rightarrow> 'a \<Rightarrow> 'a list \<Rightarrow> 'a" where
  "findFirstMax_loop c m [] = m"
| "findFirstMax_loop c m (x # xs) =
     (if 0 < c x m then findFirstMax_loop c x xs else findFirstMax_loop c m xs)"

definition findFirstMax :: "'a list \<Rightarrow> ('a \<Rightarrow> 'a \<Rightarrow> int) \<Rightarrow> 'a option" where
  "findFirstMax xs c = (case xs of [] \<Rightarrow> None | x # ys \<Rightarrow> Some (findFirstMax_loop c x ys))"

fun findLastMax_loop :: "('a \<Rightarrow> 'a \<Rightarrow> int) \<Rightarrow> 'a \<Rightarrow> 'a list \<Rightarrow> 'a" where
  "findLastMax_loop c m [] = m"
| "findLastMax_loop c m (x # xs) =
     (if 0 \<le> c x m then findLastMax_loop c x xs else findLastMax_loop c m xs)"

definition findLastMax :: "'a list \<Rightarrow> ('a \<Rightarrow> 'a \<Rightarrow> int) \<Rightarrow> 'a option" where
  "findLastMax xs c = (case xs of [] \<Rightarrow> None | x # ys \<Rightarrow> Some (findLastMax_loop c x ys))"

definition findFirstMin :: "'a list \<Rightarrow> ('a \<Rightarrow> 'a \<Rightarrow> int) \<Rightarrow> 'a option" where
  "findFirstMin xs c = findFirstMax xs (\<lambda>a b. - c a b)"

function findMaxIdx_loop :: "'a list \<Rightarrow> ('a \<Rightarrow> 'a \<Rightarrow> int) \<Rightarrow> nat \<Rightarrow> nat \<Rightarrow> nat" where
  "findMaxIdx_loop xs c maxIdx i =
     (if i < length xs
      then findMaxIdx_loop xs c (if 0 < c (xs ! i) (xs ! maxIdx) then i else maxIdx) (Suc i)
      else maxIdx)"
  by pat_completeness auto
termination
  by (relation "measure (\<lambda>(xs, c, m, i). length xs - i)") auto

declare findMaxIdx_loop.simps [simp del]

definition findMaxIdx :: "'a list \<Rightarrow> ('a \<Rightarrow> 'a \<Rightarrow> int) \<Rightarrow> int" where
  "findMaxIdx xs c = (if xs = [] then -1 else int (findMaxIdx_loop xs c 0 1))"

fun mapFindFirst :: "'a list \<Rightarrow> ('a \<Rightarrow> 'b option) \<Rightarrow> 'b option" where
  "mapFindFirst [] f = None"
| "mapFindFirst (x # xs) f =
     (case f x of Some y \<Rightarrow> Some y | None \<Rightarrow> mapFindFirst xs f)"

section \<open>Linear searches find the first and the last match\<close>

lemma findFirstIdx_spec:
  "(findFirstIdx xs p i = -1 \<longrightarrow> (\<forall>k. i \<le> k \<and> k < length xs \<longrightarrow> \<not> p (xs ! k) k)) \<and>
   (findFirstIdx xs p i \<noteq> -1 \<longrightarrow>
      (\<exists>n. findFirstIdx xs p i = int n \<and> i \<le> n \<and> n < length xs \<and> p (xs ! n) n \<and>
           (\<forall>k. i \<le> k \<and> k < n \<longrightarrow> \<not> p (xs ! k) k)))"
proof (induction xs p i rule: findFirstIdx.induct)
  case (1 xs p i)
  show ?case
  proof (cases "i < length xs \<and> \<not> p (xs ! i) i")
    case True
    have step: "findFirstIdx xs p i = findFirstIdx xs p (Suc i)"
      using True by (simp add: findFirstIdx.simps [of xs p i])
    have split: "(\<forall>k. i \<le> k \<and> k < n \<longrightarrow> \<not> p (xs ! k) k) \<longleftrightarrow>
        (\<forall>k. Suc i \<le> k \<and> k < n \<longrightarrow> \<not> p (xs ! k) k)" for n
      using True by (metis Suc_le_eq le_eq_less_or_eq)
    show ?thesis
      unfolding step split using 1 True by (auto dest: Suc_leD)
  next
    case False
    then show ?thesis by (auto simp: findFirstIdx.simps [of xs p i])
  qed
qed

lemma findLastIdx_spec:
  "(findLastIdx xs p i = -1 \<longrightarrow> (\<forall>k. 0 \<le> k \<and> k \<le> i \<longrightarrow> \<not> p (xs ! nat k) (nat k))) \<and>
   (findLastIdx xs p i \<noteq> -1 \<longrightarrow>
      0 \<le> findLastIdx xs p i \<and> findLastIdx xs p i \<le> i \<and>
      p (xs ! nat (findLastIdx xs p i)) (nat (findLastIdx xs p i)) \<and>
      (\<forall>k. findLastIdx xs p i < k \<and> k \<le> i \<longrightarrow> \<not> p (xs ! nat k) (nat k)))"
proof (induction xs p i rule: findLastIdx.induct)
  case (1 xs p i)
  show ?case
  proof (cases "0 \<le> i \<and> \<not> p (xs ! nat i) (nat i)")
    case True
    have step: "findLastIdx xs p i = findLastIdx xs p (i - 1)"
      using True by (simp add: findLastIdx.simps [of xs p i])
    have le: "k \<le> i \<longleftrightarrow> k = i \<or> k \<le> i - 1" for k :: int
      by arith
    show ?thesis
      unfolding step le using 1 True by auto
  next
    case False
    then show ?thesis by (auto simp: findLastIdx.simps [of xs p i])
  qed
qed

section \<open>The binary searches\<close>

text \<open>
  The contract the sources state for the binary searches: read along the array, the
  predicate is true up to some place and false from there on. \<open>n\<close> is that place, the
  border, when the predicate holds before it and fails from it on.
\<close>

definition border :: "'a list \<Rightarrow> ('a \<Rightarrow> bool) \<Rightarrow> nat \<Rightarrow> bool" where
  "border xs p n \<longleftrightarrow>
     n \<le> length xs \<and> list_all p (take n xs) \<and> list_all (\<lambda>x. \<not> p x) (drop n xs)"

lemma border_iff:
  "border xs p n \<longleftrightarrow> n \<le> length xs \<and> (\<forall>k < length xs. p (xs ! k) \<longleftrightarrow> k < n)"
proof (cases "n \<le> length xs")
  case True
  have "list_all p (take n xs) \<longleftrightarrow> (\<forall>k < n. p (xs ! k))"
    using True by (auto simp: list_all_length)
  moreover have "list_all (\<lambda>x. \<not> p x) (drop n xs) \<longleftrightarrow> (\<forall>k < length xs. n \<le> k \<longrightarrow> \<not> p (xs ! k))"
  proof
    assume *: "list_all (\<lambda>x. \<not> p x) (drop n xs)"
    show "\<forall>k < length xs. n \<le> k \<longrightarrow> \<not> p (xs ! k)"
    proof (intro allI impI)
      fix k assume "k < length xs" "n \<le> k"
      then have "drop n xs ! (k - n) = xs ! k" "k - n < length (drop n xs)" by auto
      with * show "\<not> p (xs ! k)" by (metis list_all_length)
    qed
  qed (auto simp: list_all_length)
  ultimately show ?thesis
    using True by (auto simp: border_def)
qed (simp add: border_def)

lemma border_unique: "border xs p n \<Longrightarrow> border xs p m \<Longrightarrow> n = m"
  unfolding border_iff by (metis le_neq_implies_less less_irrefl less_le_trans nat_le_linear)

lemma findLast_loop_border:
  assumes "i \<le> n" and "n \<le> j" and "\<And>k. i \<le> k \<Longrightarrow> k < j \<Longrightarrow> p (xs ! k) \<longleftrightarrow> k < n"
  shows "findLastIdxMonotonous_loop xs p i j = n"
  using assms
proof (induction xs p i j rule: findLastIdxMonotonous_loop.induct)
  case (1 xs p i j)
  show ?case
  proof (cases "i < j")
    case False
    with "1.prems" show ?thesis by (simp add: findLastIdxMonotonous_loop.simps [of xs p i j])
  next
    case True
    define k where "k = (i + j) div 2"
    have k: "i \<le> k" "k < j" using True by (auto simp: k_def)
    have pk: "p (xs ! k) \<longleftrightarrow> k < n" using "1.prems"(3) k by simp
    show ?thesis
    proof (cases "k < n")
      case kn: True
      then have "findLastIdxMonotonous_loop xs p (k + 1) j = n"
        using k pk "1.prems" by (intro "1.IH"(1) [OF True k_def]) auto
      with True pk kn show ?thesis
        by (simp add: findLastIdxMonotonous_loop.simps [of xs p i j] k_def)
    next
      case kn: False
      then have "findLastIdxMonotonous_loop xs p i k = n"
        using k pk "1.prems" by (intro "1.IH"(2) [OF True k_def]) auto
      with True pk kn show ?thesis
        by (simp add: findLastIdxMonotonous_loop.simps [of xs p i j] k_def)
    qed
  qed
qed

lemma findFirst_loop_eq:
  "findFirstIdxMonotonousOrArrLen_loop xs p i j = findLastIdxMonotonous_loop xs (\<lambda>x. \<not> p x) i j"
proof (induction xs p i j rule: findFirstIdxMonotonousOrArrLen_loop.induct)
  case (1 xs p i j)
  show ?case
    using 1
    by (simp add: findFirstIdxMonotonousOrArrLen_loop.simps [of xs p i j]
        findLastIdxMonotonous_loop.simps [of xs "\<lambda>x. \<not> p x" i j] Let_def)
qed

lemma findLastIdxMonotonous_border:
  "border xs p n \<Longrightarrow> findLastIdxMonotonous xs p 0 (length xs) = int n - 1"
  by (simp add: findLastIdxMonotonous_def findLast_loop_border border_iff)

lemma findFirstIdxMonotonousOrArrLen_border:
  "border xs (\<lambda>x. \<not> p x) n \<Longrightarrow> findFirstIdxMonotonousOrArrLen xs p 0 (length xs) = n"
  by (simp add: findFirstIdxMonotonousOrArrLen_def findFirst_loop_eq findLast_loop_border border_iff)

lemma findLastMonotonous_border:
  "border xs p n \<Longrightarrow> findLastMonotonous xs p = (if n = 0 then None else Some (xs ! (n - 1)))"
  by (auto simp: findLastMonotonous_def findLastIdxMonotonous_border nat_diff_distrib')

text \<open>An array sorted by a key has a border for every downward-closed predicate.\<close>

lemma sorted_wrt_border:
  assumes "sorted_wrt R xs" and "\<And>x y. R x y \<Longrightarrow> p y \<Longrightarrow> p x"
  shows "border xs p (length (takeWhile p xs))"
proof -
  have "list_all (\<lambda>x. \<not> p x) (dropWhile p xs)"
    using assms(1)
  proof (induction xs)
    case (Cons x xs)
    then show ?case using assms(2) by (auto simp: list_all_iff)
  qed simp
  moreover have "take (length (takeWhile p xs)) xs = takeWhile p xs"
    by (metis append_eq_conv_conj takeWhile_dropWhile_id)
  moreover have "drop (length (takeWhile p xs)) xs = dropWhile p xs"
    by (rule dropWhile_eq_drop [symmetric])
  ultimately show ?thesis
    by (auto simp: border_def list_all_iff length_takeWhile_le dest: set_takeWhileD)
qed

text \<open>The linear searches find the border too.\<close>

lemma findFirst_border:
  assumes "border xs (\<lambda>x. \<not> p x) n"
  shows "findFirst xs (\<lambda>x _. p x) 0 = (if n = length xs then None else Some (xs ! n))"
proof -
  have p: "p (xs ! k) \<longleftrightarrow> n \<le> k" if "k < length xs" for k
    using assms that by (auto simp: border_iff)
  have le: "n \<le> length xs" using assms by (simp add: border_def)
  note s = findFirstIdx_spec [of xs "\<lambda>x _. p x" 0]
  show ?thesis
  proof (cases "findFirstIdx xs (\<lambda>x _. p x) 0 = -1")
    case True
    with s have "\<And>k. k < length xs \<Longrightarrow> \<not> p (xs ! k)" by auto
    with p [of n] le have "n = length xs" by (cases "n = length xs") auto
    with True show ?thesis by (simp add: findFirst_def)
  next
    case False
    with s obtain m where m: "findFirstIdx xs (\<lambda>x _. p x) 0 = int m" "m < length xs"
      "p (xs ! m)" "\<forall>k. k < m \<longrightarrow> \<not> p (xs ! k)" by auto
    have "n \<le> m" using m p by simp
    moreover have "m \<le> n" using m p by (metis le_refl not_less order.strict_trans)
    ultimately show ?thesis using m by (simp add: findFirst_def)
  qed
qed

lemma findLast_border:
  assumes "border xs p n"
  shows "findLast xs (\<lambda>x _. p x) (ilen xs - 1) = (if n = 0 then None else Some (xs ! (n - 1)))"
proof -
  have p: "p (xs ! k) \<longleftrightarrow> k < n" if "k < length xs" for k
    using assms that by (auto simp: border_iff)
  have le: "n \<le> length xs" using assms by (simp add: border_def)
  let ?f = "findLastIdx xs (\<lambda>x _. p x) (ilen xs - 1)"
  note s = findLastIdx_spec [of xs "\<lambda>x _. p x" "ilen xs - 1"]
  show ?thesis
  proof (cases "?f = -1")
    case True
    have "n = 0"
    proof (rule ccontr)
      assume n: "n \<noteq> 0"
      then have "p (xs ! nat (int n - 1))" using p le by auto
      moreover have "\<not> p (xs ! nat (int n - 1))" using s True le n by auto
      ultimately show False by simp
    qed
    with True show ?thesis by (simp add: findLast_def)
  next
    case False
    then have f: "0 \<le> ?f" "?f \<le> ilen xs - 1" "p (xs ! nat ?f)"
      "\<And>k. ?f < k \<Longrightarrow> k \<le> ilen xs - 1 \<Longrightarrow> \<not> p (xs ! nat k)" using s by blast+
    have a: "nat ?f < n" using f(1-3) p by auto
    have "\<not> ?f < int n - 1" using f(4) [of "int n - 1"] le p [of "n - 1"] a
      by (auto simp: nat_diff_distrib')
    with a f(1) have "nat ?f = n - 1" by arith
    then show ?thesis using False a by (simp add: findLast_def)
  qed
qed

section \<open>Properties\<close>

text \<open>
  Both binary searches are correct on a monotone predicate: with the predicate true on
  the first \<open>n\<close> elements and false on the rest, \<open>findLastIdxMonotonous\<close> returns \<open>n - 1\<close>,
  \<open>findFirstIdxMonotonousOrArrLen\<close> of the negated predicate returns \<open>n\<close>, and
  \<open>findLastMonotonous\<close> and \<open>findFirstMonotonous\<close> agree with the linear searches
  \<open>findLast\<close> and \<open>findFirst\<close> over the whole array.
\<close>

theorem binary_search_correct:
  assumes "list_all p (take n xs)" and "list_all (\<lambda>x. \<not> p x) (drop n xs)" and "n \<le> length xs"
  shows "findLastIdxMonotonous xs p 0 (length xs) = int n - 1 \<and>
    findFirstIdxMonotonousOrArrLen xs (\<lambda>x. \<not> p x) 0 (length xs) = n \<and>
    findLastMonotonous xs p = findLast xs (\<lambda>x _. p x) (ilen xs - 1) \<and>
    findFirstMonotonous xs (\<lambda>x. \<not> p x) = findFirst xs (\<lambda>x _. \<not> p x) 0"
proof -
  have b: "border xs p n" using assms by (simp add: border_def)
  then have b': "border xs (\<lambda>x. \<not> (\<not> p x)) n" by simp
  show ?thesis
    using findLastIdxMonotonous_border [OF b] findFirstIdxMonotonousOrArrLen_border [OF b']
      findLastMonotonous_border [OF b] findLast_border [OF b] findFirst_border [OF b']
    by (simp add: findFirstMonotonous_def)
qed

theorem binary_search_correct_witness:
  "findLastIdxMonotonous [1, 3, 5, 8, 9::int] (\<lambda>x. x < 6) 0 5 = 2"
proof -
  have len: "length [1, 3, 5, 8, 9::int] = 5" by simp
  have "findLastIdxMonotonous [1, 3, 5, 8, 9::int] (\<lambda>x. x < 6) 0 (length [1, 3, 5, 8, 9::int]) = int 3 - 1"
    by (rule binary_search_correct [THEN conjunct1]) simp_all
  then show ?thesis unfolding len by simp
qed

definition ma_invariant :: "'a monotonous_array \<Rightarrow> ('a \<Rightarrow> bool) \<Rightarrow> bool" where
  "ma_invariant m q \<longleftrightarrow>
     border (ma_array m) q (ma_findLastMonotonousLastIdx m) \<and>
     (\<forall>r. ma_prevFindLastPredicate m = Some r \<longrightarrow> r = q)"

lemma ma_invariant_new: "ma_invariant (MonotonousArray_new xs) (\<lambda>_. False)"
  by (simp add: ma_invariant_def MonotonousArray_new_def border_def list_all_iff)

text \<open>
  \<open>MonotonousArray\<close>: with ever weaker monotone predicates, starting each search where
  the last one stopped gives the same answer as searching the whole array, and the assertion
  of the class never fires.
\<close>

theorem monotonous_array_correct:
  assumes inv: "ma_invariant m q" and b: "border (ma_array m) p n"
    and weaker: "\<And>x. x \<in> set (ma_array m) \<Longrightarrow> q x \<Longrightarrow> p x"
  shows "\<exists>m'. MonotonousArray_findLastMonotonous assertInvariants m p =
      Some (findLastMonotonous (ma_array m) p, m') \<and>
    ma_array m' = ma_array m \<and> border (ma_array m') p (ma_findLastMonotonousLastIdx m') \<and>
    (assertInvariants \<longrightarrow> ma_invariant m' p)"
proof -
  let ?i = "ma_findLastMonotonousLastIdx m" and ?xs = "ma_array m"
  have bq: "border ?xs q ?i" and prev: "\<And>r. ma_prevFindLastPredicate m = Some r \<Longrightarrow> r = q"
    using inv by (auto simp: ma_invariant_def)
  have "?i \<le> n"
  proof (rule ccontr)
    assume "\<not> ?i \<le> n"
    moreover have "?i \<le> length ?xs" using bq by (simp add: border_def)
    ultimately have n: "n < length ?xs" "n < ?i" by auto
    then have "q (?xs ! n)" using bq by (simp add: border_iff)
    then have "p (?xs ! n)" using weaker n by simp
    then show False using b n by (simp add: border_iff)
  qed
  then have "findLastIdxMonotonous_loop ?xs p ?i (length ?xs) = n"
    using b by (intro findLast_loop_border) (auto simp: border_iff)
  then have idx: "findLastIdxMonotonous ?xs p ?i (length ?xs) = int n - 1"
    by (simp add: findLastIdxMonotonous_def)
  have quiet: "\<not> (case ma_prevFindLastPredicate m of None \<Rightarrow> False
      | Some q \<Rightarrow> list_ex (\<lambda>item. q item \<and> \<not> p item) ?xs)"
    using prev weaker by (auto simp: list_ex_iff split: option.splits)
  show ?thesis
    using quiet b
    by (auto simp: MonotonousArray_findLastMonotonous_def idx findLastMonotonous_border [OF b]
        ma_invariant_def nat_diff_distrib')
qed

theorem monotonous_array_correct_witness:
  "\<exists>m'. MonotonousArray_findLastMonotonous True (MonotonousArray_new [1, 4, 7::int]) (\<lambda>x. x < 5) =
      Some (findLastMonotonous [1, 4, 7] (\<lambda>x. x < 5), m')"
proof -
  have a: "ma_array (MonotonousArray_new [1, 4, 7::int]) = [1, 4, 7]"
    by (simp add: MonotonousArray_new_def)
  have b: "border (ma_array (MonotonousArray_new [1, 4, 7::int])) (\<lambda>x. x < 5) 2"
    by (simp add: a border_def)
  show ?thesis
    using monotonous_array_correct [OF ma_invariant_new b, of True] unfolding a by auto
qed

lemma findFirstMax_loop_split:
  assumes c: "\<And>a b. c a b = f a - (f b :: int)"
  shows "\<exists>ys zs. m # xs = ys @ findFirstMax_loop c m xs # zs \<and>
    (\<forall>y \<in> set ys. f y < f (findFirstMax_loop c m xs)) \<and>
    (\<forall>z \<in> set zs. f z \<le> f (findFirstMax_loop c m xs))"
proof (induction xs arbitrary: m)
  case Nil
  show ?case by (intro exI [of _ "[]"]) simp
next
  case (Cons x xs)
  show ?case
  proof (cases "0 < c x m")
    case True
    then have step: "findFirstMax_loop c m (x # xs) = findFirstMax_loop c x xs" by simp
    obtain r ys zs where r: "findFirstMax_loop c x xs = r" and eq: "x # xs = ys @ r # zs"
      and ys: "\<forall>y \<in> set ys. f y < f r" and zs: "\<forall>z \<in> set zs. f z \<le> f r"
      using Cons.IH [of x] by blast
    have "f x \<le> f r" using eq ys by (cases ys) (auto intro: less_imp_le)
    moreover have "f m < f x" using True c [of x m] by simp
    ultimately show ?thesis
      unfolding step r using eq ys zs by (intro exI [of _ "m # ys"] exI [of _ zs]) auto
  next
    case False
    then have step: "findFirstMax_loop c m (x # xs) = findFirstMax_loop c m xs" by simp
    obtain r ys zs where r: "findFirstMax_loop c m xs = r" and eq: "m # xs = ys @ r # zs"
      and ys: "\<forall>y \<in> set ys. f y < f r" and zs: "\<forall>z \<in> set zs. f z \<le> f r"
      using Cons.IH [of m] by blast
    have le: "f x \<le> f m" using False c [of x m] by simp
    show ?thesis
    proof (cases ys)
      case Nil
      with eq zs le show ?thesis
        unfolding step r by (intro exI [of _ "[]"] exI [of _ "x # xs"]) auto
    next
      case (Cons y ys')
      with eq ys zs le show ?thesis
        unfolding step r by (intro exI [of _ "m # x # ys'"] exI [of _ zs]) auto
    qed
  qed
qed

text \<open>
  \<open>findFirstMax\<close> returns a maximal element and the first of them, for every
  comparator that is induced by a key.
\<close>

theorem findFirstMax_correct:
  assumes "\<And>a b. c a b = f a - (f b :: int)"
  shows "(findFirstMax xs c = None \<longleftrightarrow> xs = []) \<and>
    (\<forall>r. findFirstMax xs c = Some r \<longrightarrow>
      (\<exists>ys zs. xs = ys @ r # zs \<and> (\<forall>y \<in> set ys. f y < f r) \<and> (\<forall>z \<in> set zs. f z \<le> f r)))"
proof (cases xs)
  case (Cons x ys)
  then show ?thesis
    using findFirstMax_loop_split [OF assms, where m = x and xs = ys] by (auto simp: findFirstMax_def)
qed (simp add: findFirstMax_def)

end
