(* ===== verification/LineRanges.thy ===== *)
theory LineRanges
  imports OffsetRanges Positions ArraysFind
begin

text \<open>
  \<open>vs/editor/common/core/ranges/lineRange.ts\<close>: half-open ranges of 1-based line numbers and
  sets of lines. Like \<open>OffsetRange\<close>, the constructor throws when the ends are out of order.
  \<open>LineRangeSet\<close> keeps a normalized array and finds the ranges an operation touches with the
  binary searches of \<open>arraysFind.ts\<close>. The set operations are specified by the set of lines
  an array denotes; the interval lemmas of the offset ranges are shared through \<open>lr_or\<close>.
\<close>

section \<open>LineRange\<close>

datatype line_range = MkLineRange (lr_start: int) (lr_end: int)

definition LineRange_new :: "int \<Rightarrow> int \<Rightarrow> line_range option" where
  "LineRange_new s e = (if s > e then None else Some (MkLineRange s e))"

definition LineRange_ofLength :: "int \<Rightarrow> int \<Rightarrow> line_range option" where
  "LineRange_ofLength s n = LineRange_new s (s + n)"

definition LineRange_fromRange :: "edit_range \<Rightarrow> line_range option" where
  "LineRange_fromRange r = LineRange_new (startLineNumber r) (endLineNumber r)"

definition LineRange_fromRangeInclusive :: "edit_range \<Rightarrow> line_range option" where
  "LineRange_fromRangeInclusive r = LineRange_new (startLineNumber r) (endLineNumber r + 1)"

definition LineRange_subtract :: "line_range \<Rightarrow> line_range option \<Rightarrow> line_range list option" where
  "LineRange_subtract a b' =
     (case b' of None \<Rightarrow> Some [a]
      | Some b \<Rightarrow>
        if lr_start a < lr_start b \<and> lr_end b < lr_end a then do {
          x \<leftarrow> LineRange_new (lr_start a) (lr_start b);
          y \<leftarrow> LineRange_new (lr_end b) (lr_end a);
          Some [x, y]
        }
        else if lr_start b \<le> lr_start a \<and> lr_end a \<le> lr_end b then Some []
        else if lr_end b < lr_end a then do {
          x \<leftarrow> LineRange_new (max (lr_end b) (lr_start a)) (lr_end a);
          Some [x]
        }
        else do {
          x \<leftarrow> LineRange_new (lr_start a) (min (lr_start b) (lr_end a));
          Some [x]
        })"

fun LineRange_join_loop :: "int \<Rightarrow> int \<Rightarrow> line_range list \<Rightarrow> line_range option" where
  "LineRange_join_loop s e [] = LineRange_new s e"
| "LineRange_join_loop s e (r # rs) = LineRange_join_loop (min s (lr_start r)) (max e (lr_end r)) rs"

text \<open>The static \<open>join\<close> of an array; the method \<open>join\<close> of two ranges is \<open>LineRange_join2\<close>.\<close>

definition LineRange_join :: "line_range list \<Rightarrow> line_range option" where
  "LineRange_join rs =
     (case rs of [] \<Rightarrow> None | r # qs \<Rightarrow> LineRange_join_loop (lr_start r) (lr_end r) qs)"

definition LineRange_contains :: "line_range \<Rightarrow> int \<Rightarrow> bool" where
  "LineRange_contains r n \<longleftrightarrow> lr_start r \<le> n \<and> n < lr_end r"

definition LineRange_containsRange :: "line_range \<Rightarrow> line_range \<Rightarrow> bool" where
  "LineRange_containsRange r q \<longleftrightarrow> lr_start r \<le> lr_start q \<and> lr_end q \<le> lr_end r"

definition LineRange_isEmpty :: "line_range \<Rightarrow> bool" where
  "LineRange_isEmpty r \<longleftrightarrow> lr_start r = lr_end r"

definition LineRange_delta :: "line_range \<Rightarrow> int \<Rightarrow> line_range option" where
  "LineRange_delta r n = LineRange_new (lr_start r + n) (lr_end r + n)"

definition LineRange_deltaLength :: "line_range \<Rightarrow> int \<Rightarrow> line_range option" where
  "LineRange_deltaLength r n = LineRange_new (lr_start r) (lr_end r + n)"

definition LineRange_length :: "line_range \<Rightarrow> int" where
  "LineRange_length r = lr_end r - lr_start r"

definition LineRange_join2 :: "line_range \<Rightarrow> line_range \<Rightarrow> line_range option" where
  "LineRange_join2 r q = LineRange_new (min (lr_start r) (lr_start q)) (max (lr_end r) (lr_end q))"

definition LineRange_intersect :: "line_range \<Rightarrow> line_range \<Rightarrow> line_range option" where
  "LineRange_intersect r q =
     (let s = max (lr_start r) (lr_start q); e = min (lr_end r) (lr_end q)
      in if s \<le> e then LineRange_new s e else None)"

definition LineRange_intersectsStrict :: "line_range \<Rightarrow> line_range \<Rightarrow> bool" where
  "LineRange_intersectsStrict r q \<longleftrightarrow> lr_start r < lr_end q \<and> lr_start q < lr_end r"

definition LineRange_intersectsOrTouches :: "line_range \<Rightarrow> line_range \<Rightarrow> bool" where
  "LineRange_intersectsOrTouches r q \<longleftrightarrow> lr_start r \<le> lr_end q \<and> lr_start q \<le> lr_end r"

definition LineRange_equals :: "line_range \<Rightarrow> line_range \<Rightarrow> bool" where
  "LineRange_equals r q \<longleftrightarrow> lr_start r = lr_start q \<and> lr_end r = lr_end q"

text \<open>\<open>Number.MAX_SAFE_INTEGER\<close> is \<open>2 ^ 53 - 1\<close>.\<close>

definition LineRange_toInclusiveRange :: "line_range \<Rightarrow> edit_range option" where
  "LineRange_toInclusiveRange r =
     (if LineRange_isEmpty r then None
      else Some (Range_new (lr_start r) 1 (lr_end r - 1) (2 ^ 53 - 1)))"

definition LineRange_toExclusiveRange :: "line_range \<Rightarrow> edit_range" where
  "LineRange_toExclusiveRange r = Range_new (lr_start r) 1 (lr_end r) 1"

definition LineRange_mapToLineArray :: "line_range \<Rightarrow> (int \<Rightarrow> 'b) \<Rightarrow> 'b list" where
  "LineRange_mapToLineArray r f = map f [lr_start r .. lr_end r - 1]"

definition LineRange_serialize :: "line_range \<Rightarrow> int \<times> int" where
  "LineRange_serialize r = (lr_start r, lr_end r)"

definition LineRange_deserialize :: "int \<times> int \<Rightarrow> line_range option" where
  "LineRange_deserialize p = LineRange_new (fst p) (snd p)"

definition LineRange_toOffsetRange :: "line_range \<Rightarrow> offset_range option" where
  "LineRange_toOffsetRange r = OffsetRange_new (lr_start r - 1) (lr_end r - 1)"

definition LineRange_distanceToRange :: "line_range \<Rightarrow> line_range \<Rightarrow> int" where
  "LineRange_distanceToRange r q =
     (if lr_end r \<le> lr_start q then lr_start q - lr_end r
      else if lr_end q \<le> lr_start r then lr_start r - lr_end q
      else 0)"

definition LineRange_distanceToLine :: "line_range \<Rightarrow> int \<Rightarrow> int" where
  "LineRange_distanceToLine r n =
     (if LineRange_contains r n then 0
      else if n < lr_start r then lr_start r - n
      else n - lr_end r)"

definition LineRange_addMargin :: "line_range \<Rightarrow> int \<Rightarrow> int \<Rightarrow> line_range option" where
  "LineRange_addMargin r marginTop marginBottom =
     LineRange_new (lr_start r - marginTop) (lr_end r + marginBottom)"

section \<open>LineRangeSet\<close>

type_synonym line_range_set = "line_range list"

definition LineRangeSet_addRange :: "line_range \<Rightarrow> line_range_set \<Rightarrow> line_range_set option" where
  "LineRangeSet_addRange rng rs =
     (if LineRange_length rng = 0 then Some rs
      else
        let joinRangeStartIdx =
              findFirstIdxMonotonousOrArrLen rs (\<lambda>r. lr_end r \<ge> lr_start rng) 0 (length rs);
            joinRangeEndIdxExclusive =
              findLastIdxMonotonous rs (\<lambda>r. lr_start r \<le> lr_end rng) 0 (length rs) + 1
        in if int joinRangeStartIdx = joinRangeEndIdxExclusive
           then Some (js_splice rs joinRangeStartIdx 0 [rng])
           else if int joinRangeStartIdx = joinRangeEndIdxExclusive - 1
           then do {
             j \<leftarrow> LineRange_join2 (rs ! joinRangeStartIdx) rng;
             Some (rs[joinRangeStartIdx := j])
           }
           else do {
             j0 \<leftarrow> LineRange_join2 (rs ! joinRangeStartIdx) (rs ! nat (joinRangeEndIdxExclusive - 1));
             j \<leftarrow> LineRange_join2 j0 rng;
             Some (js_splice rs joinRangeStartIdx (nat joinRangeEndIdxExclusive - joinRangeStartIdx) [j])
           })"

definition LineRangeSet_contains :: "line_range_set \<Rightarrow> int \<Rightarrow> bool" where
  "LineRangeSet_contains rs n =
     (case findLastMonotonous rs (\<lambda>r. lr_start r \<le> n) of
        None \<Rightarrow> False | Some r \<Rightarrow> lr_end r > n)"

definition LineRangeSet_intersects :: "line_range_set \<Rightarrow> line_range \<Rightarrow> bool" where
  "LineRangeSet_intersects rs rng =
     (case findLastMonotonous rs (\<lambda>r. lr_start r < lr_end rng) of
        None \<Rightarrow> False | Some r \<Rightarrow> lr_end r > lr_start rng)"

text \<open>
  The loop of \<open>getUnion\<close> runs over what is left of the two arrays, with the range it is
  building (\<open>current\<close>) and the result so far; \<open>getUnion_step\<close> merges or pushes \<open>next\<close>.
\<close>

definition getUnion_step ::
  "line_range option \<Rightarrow> line_range \<Rightarrow> line_range list \<Rightarrow> (line_range \<times> line_range list) option" where
  "getUnion_step current next result =
     (case current of
        None \<Rightarrow> Some (next, result)
      | Some c \<Rightarrow>
          if lr_end c \<ge> lr_start next then do {
            c' \<leftarrow> LineRange_new (lr_start c) (max (lr_end c) (lr_end next));
            Some (c', result)
          }
          else Some (next, result @ [c]))"

function getUnion_loop ::
  "line_range list \<Rightarrow> line_range list \<Rightarrow> line_range option \<Rightarrow> line_range list \<Rightarrow> line_range list option" where
  "getUnion_loop [] [] current result =
     Some (case current of None \<Rightarrow> result | Some c \<Rightarrow> result @ [c])"
| "getUnion_loop (a # as) [] current result =
     (case getUnion_step current a result of None \<Rightarrow> None
      | Some (c, res) \<Rightarrow> getUnion_loop as [] (Some c) res)"
| "getUnion_loop [] (b # bs) current result =
     (case getUnion_step current b result of None \<Rightarrow> None
      | Some (c, res) \<Rightarrow> getUnion_loop [] bs (Some c) res)"
| "getUnion_loop (a # as) (b # bs) current result =
     (if lr_start a < lr_start b
      then (case getUnion_step current a result of None \<Rightarrow> None
            | Some (c, res) \<Rightarrow> getUnion_loop as (b # bs) (Some c) res)
      else (case getUnion_step current b result of None \<Rightarrow> None
            | Some (c, res) \<Rightarrow> getUnion_loop (a # as) bs (Some c) res))"
  by pat_completeness auto
termination
  by (relation "measure (\<lambda>(as, bs, c, r). length as + length bs)") auto

definition LineRangeSet_getUnion :: "line_range_set \<Rightarrow> line_range_set \<Rightarrow> line_range_set option" where
  "LineRangeSet_getUnion rs other =
     (if rs = [] then Some other
      else if other = [] then Some rs
      else getUnion_loop rs other None [])"

fun subtractFrom_loop :: "line_range list \<Rightarrow> int \<Rightarrow> line_range list \<Rightarrow> (int \<times> line_range list) option" where
  "subtractFrom_loop [] startLine result = Some (startLine, result)"
| "subtractFrom_loop (r # rs) startLine result =
     (if lr_start r > startLine
      then (case LineRange_new startLine (lr_start r) of None \<Rightarrow> None
            | Some x \<Rightarrow> subtractFrom_loop rs (lr_end r) (result @ [x]))
      else subtractFrom_loop rs (lr_end r) result)"

definition LineRangeSet_subtractFrom :: "line_range_set \<Rightarrow> line_range \<Rightarrow> line_range_set option" where
  "LineRangeSet_subtractFrom rs rng =
     (let joinRangeStartIdx =
            findFirstIdxMonotonousOrArrLen rs (\<lambda>r. lr_end r \<ge> lr_start rng) 0 (length rs);
          joinRangeEndIdxExclusive =
            findLastIdxMonotonous rs (\<lambda>r. lr_start r \<le> lr_end rng) 0 (length rs) + 1
      in if int joinRangeStartIdx = joinRangeEndIdxExclusive then Some [rng]
         else do {
           (s, result) \<leftarrow> subtractFrom_loop
             (take (nat joinRangeEndIdxExclusive - joinRangeStartIdx) (drop joinRangeStartIdx rs))
             (lr_start rng) [];
           if s < lr_end rng then do {
             x \<leftarrow> LineRange_new s (lr_end rng);
             Some (result @ [x])
           } else Some result
         })"

fun getIntersection_loop :: "line_range list \<Rightarrow> line_range list \<Rightarrow> line_range list \<Rightarrow> line_range list" where
  "getIntersection_loop (a # as) (b # bs) result =
     (let result' = (case LineRange_intersect a b of
            None \<Rightarrow> result
          | Some i \<Rightarrow> if \<not> LineRange_isEmpty i then result @ [i] else result)
      in if lr_end a < lr_end b then getIntersection_loop as (b # bs) result'
         else getIntersection_loop (a # as) bs result')"
| "getIntersection_loop _ _ result = result"

definition LineRangeSet_getIntersection :: "line_range_set \<Rightarrow> line_range_set \<Rightarrow> line_range_set" where
  "LineRangeSet_getIntersection rs other = getIntersection_loop rs other []"

fun LineRangeSet_getWithDelta :: "line_range_set \<Rightarrow> int \<Rightarrow> line_range_set option" where
  "LineRangeSet_getWithDelta [] n = Some []"
| "LineRangeSet_getWithDelta (r # rs) n = do {
     r' \<leftarrow> LineRange_delta r n;
     rs' \<leftarrow> LineRangeSet_getWithDelta rs n;
     Some (r' # rs')
   }"

fun joinMany_loop :: "line_range_set \<Rightarrow> line_range list list \<Rightarrow> line_range list option" where
  "joinMany_loop acc [] = Some acc"
| "joinMany_loop acc (rs # rss) =
     (case LineRangeSet_getUnion acc rs of None \<Rightarrow> None | Some acc' \<Rightarrow> joinMany_loop acc' rss)"

definition LineRange_joinMany :: "line_range list list \<Rightarrow> line_range list option" where
  "LineRange_joinMany rss = (case rss of [] \<Rightarrow> Some [] | rs # qs \<Rightarrow> joinMany_loop rs qs)"

section \<open>Sets of lines\<close>

definition lr_or :: "line_range \<Rightarrow> offset_range" where
  "lr_or r = MkOffsetRange (lr_start r) (lr_end r)"

definition lr_ok :: "line_range \<Rightarrow> bool" where
  "lr_ok r \<longleftrightarrow> lr_start r \<le> lr_end r"

definition lr_set :: "line_range \<Rightarrow> int set" where
  "lr_set r = {lr_start r ..< lr_end r}"

definition lrs_set :: "line_range list \<Rightarrow> int set" where
  "lrs_set rs = (\<Union>r \<in> set rs. lr_set r)"

text \<open>The invariant the class documents: sorted, no two ranges touching; no range is empty.\<close>

definition normalized :: "line_range list \<Rightarrow> bool" where
  "normalized rs \<longleftrightarrow> (\<forall>r \<in> set rs. lr_start r < lr_end r) \<and> sorted_wrt (\<lambda>a b. lr_end a < lr_start b) rs"

lemma lr_or_sel [simp]: "or_start (lr_or r) = lr_start r" "or_end (lr_or r) = lr_end r" "or_set (lr_or r) = lr_set r"
  by (simp_all add: lr_or_def or_set_def lr_set_def)

lemma ors_set_lr_or [simp]: "ors_set (map lr_or rs) = lrs_set rs"
  by (simp add: ors_set_def lrs_set_def)

lemma normalized_sorted_gap: "normalized rs \<Longrightarrow> sorted_gap (map lr_or rs)"
  by (auto simp: normalized_def sorted_gap_def or_ok_def sorted_wrt_map intro: less_imp_le)

lemma normalized_Nil [simp]: "normalized []"
  by (simp add: normalized_def)

lemma normalized_append:
  "normalized (rs @ qs) \<longleftrightarrow>
    normalized rs \<and> normalized qs \<and> (\<forall>a \<in> set rs. \<forall>b \<in> set qs. lr_end a < lr_start b)"
  by (auto simp: normalized_def sorted_wrt_append)

lemma normalized_Cons:
  "normalized (r # rs) \<longleftrightarrow> lr_start r < lr_end r \<and> normalized rs \<and> (\<forall>b \<in> set rs. lr_end r < lr_start b)"
  by (auto simp: normalized_def)

lemma lrs_set_simps [simp]:
  "lrs_set [] = {}" "lrs_set (r # rs) = lr_set r \<union> lrs_set rs" "lrs_set (rs @ qs) = lrs_set rs \<union> lrs_set qs"
  by (auto simp: lrs_set_def)

lemma LineRange_new_Some [simp]: "s \<le> e \<Longrightarrow> LineRange_new s e = Some (MkLineRange s e)"
  by (simp add: LineRange_new_def)

lemma LineRange_contains_set [simp]: "LineRange_contains r n \<longleftrightarrow> n \<in> lr_set r"
  by (simp add: LineRange_contains_def lr_set_def)

text \<open>The part of a normalized array that a range touches, as the binary searches find it.\<close>

lemma touching_split:
  assumes "normalized rs" and "lr_start q \<le> lr_end q"
  obtains A M C where "rs = A @ M @ C"
    and "findFirstIdxMonotonousOrArrLen rs (\<lambda>r. lr_end r \<ge> lr_start q) 0 (length rs) = length A"
    and "findLastIdxMonotonous rs (\<lambda>r. lr_start r \<le> lr_end q) 0 (length rs) + 1 = int (length A + length M)"
    and "\<forall>a \<in> set A. lr_end a < lr_start q"
    and "\<forall>m \<in> set M. lr_start m \<le> lr_end q \<and> lr_start q \<le> lr_end m"
    and "\<forall>c \<in> set C. lr_end q < lr_start c"
proof -
  obtain A' M' C' where map: "map lr_or rs = A' @ M' @ C'"
    and A': "\<forall>a \<in> set A'. or_end a < or_start (lr_or q)"
    and M': "\<forall>m \<in> set M'. or_start m \<le> or_end (lr_or q) \<and> or_start (lr_or q) \<le> or_end m"
    and C': "\<forall>c \<in> set C'. or_end (lr_or q) < or_start c"
    by (rule addRange_split [OF normalized_sorted_gap [OF assms(1)], of "lr_or q"]) (rule that)
  obtain A M C where rs: "rs = A @ M @ C" and "A' = map lr_or A" "M' = map lr_or M" "C' = map lr_or C"
    using map by (metis map_eq_append_conv)
  with A' M' C' have A: "\<forall>a \<in> set A. lr_end a < lr_start q"
    and M: "\<forall>m \<in> set M. lr_start m \<le> lr_end q \<and> lr_start q \<le> lr_end m"
    and C: "\<forall>c \<in> set C. lr_end q < lr_start c" by auto
  have ok: "lr_start r < lr_end r" if "r \<in> set rs" for r
    using assms(1) that by (simp add: normalized_def)
  have "border rs (\<lambda>r. \<not> lr_end r \<ge> lr_start q) (length A)"
    using A M C ok assms(2) by (fastforce simp: border_def rs list_all_iff)
  then have 1: "findFirstIdxMonotonousOrArrLen rs (\<lambda>r. lr_end r \<ge> lr_start q) 0 (length rs) = length A"
    by (rule findFirstIdxMonotonousOrArrLen_border)
  have "border rs (\<lambda>r. lr_start r \<le> lr_end q) (length A + length M)"
    using A M C ok assms(2) by (fastforce simp: border_def rs list_all_iff)
  then have 2: "findLastIdxMonotonous rs (\<lambda>r. lr_start r \<le> lr_end q) 0 (length rs) + 1 = int (length A + length M)"
    by (simp add: findLastIdxMonotonous_border)
  show ?thesis using that [OF rs 1 2 A M C] .
qed

lemma LineRangeSet_addRange_correct:
  assumes rs: "normalized rs" and q: "lr_ok q"
  shows "\<exists>rs'. LineRangeSet_addRange q rs = Some rs' \<and> normalized rs' \<and> lrs_set rs' = lrs_set rs \<union> lr_set q"
proof (cases "LineRange_length q = 0")
  case True
  then have "lr_set q = {}" by (simp add: LineRange_length_def lr_set_def)
  with True rs show ?thesis by (simp add: LineRangeSet_addRange_def)
next
  case False
  with q have lt: "lr_start q < lr_end q" by (auto simp: LineRange_length_def lr_ok_def)
  from touching_split [OF rs less_imp_le [OF lt]]
  obtain A M C where split: "rs = A @ M @ C"
    and i: "findFirstIdxMonotonousOrArrLen rs (\<lambda>r. lr_end r \<ge> lr_start q) 0 (length rs) = length A"
    and j: "findLastIdxMonotonous rs (\<lambda>r. lr_start r \<le> lr_end q) 0 (length rs) + 1 = int (length A + length M)"
    and A: "\<forall>a \<in> set A. lr_end a < lr_start q"
    and M: "\<forall>m \<in> set M. lr_start m \<le> lr_end q \<and> lr_start q \<le> lr_end m"
    and C: "\<forall>c \<in> set C. lr_end q < lr_start c" by blast
  have nrm: "normalized A" "normalized M" "normalized C"
    "\<And>a m. a \<in> set A \<Longrightarrow> m \<in> set M \<Longrightarrow> lr_end a < lr_start m"
    "\<And>a c. a \<in> set A \<Longrightarrow> c \<in> set C \<Longrightarrow> lr_end a < lr_start c"
    "\<And>m c. m \<in> set M \<Longrightarrow> c \<in> set C \<Longrightarrow> lr_end m < lr_start c"
    using rs by (auto simp: split normalized_append)
  show ?thesis
  proof (cases "M = []")
    case True
    then have "LineRangeSet_addRange q rs = Some (A @ q # C)"
      using False by (simp add: LineRangeSet_addRange_def i j) (simp add: split js_splice_def)
    moreover have "normalized (A @ q # C)"
      using nrm A C lt by (auto simp: normalized_append normalized_Cons)
    ultimately show ?thesis using True by (auto simp: split)
  next
    case ne: False
    let ?q = "MkLineRange (min (lr_start q) (lr_start (hd M))) (max (lr_end q) (lr_end (last M)))"
    have hd: "hd M \<in> set M" and last: "last M \<in> set M" using ne by auto
    have okM: "lr_start (hd M) \<le> lr_end (hd M)" "lr_start (hd M) \<le> lr_end (last M)"
    proof -
      show "lr_start (hd M) \<le> lr_end (hd M)" using nrm(2) hd by (auto simp: normalized_def intro: less_imp_le)
      show "lr_start (hd M) \<le> lr_end (last M)"
      proof -
        have "lr_start (hd M) \<le> lr_start (last M)"
          using sorted_gap_hd_le [OF normalized_sorted_gap [OF nrm(2)], of "lr_or (last M)"] ne
          by (simp add: hd_map)
        moreover have "lr_start (last M) < lr_end (last M)"
          using nrm(2) last by (simp add: normalized_def)
        ultimately show ?thesis by simp
      qed
    qed
    have nth: "rs ! (length A + k) = M ! k" if "k < length M" for k
      using that by (simp add: split nth_append)
    have first: "rs ! length A = hd M" using nth [of 0] ne by (simp add: hd_conv_nth)
    have lst: "rs ! (length A + length M - 1) = last M"
      using nth [of "length M - 1"] ne by (simp add: last_conv_nth Suc_le_eq)
    have res: "LineRangeSet_addRange q rs = Some (A @ ?q # C)"
    proof (cases "length M = 1")
      case True
      then obtain m where m: "M = [m]" by (auto simp: length_Suc_conv)
      then show ?thesis
        using False lt okM by (simp add: LineRangeSet_addRange_def i j LineRange_join2_def)
          (simp add: split min.commute max.commute)
    next
      case two: False
      have idx: "nat (int (length A + length M) - 1) = length A + length M - 1"
        using ne by (cases M) auto
      have lst': "(A @ M @ C) ! nat (ilen A + ilen M - 1) = last M"
        using idx lst by (simp add: split)
      have le: "lr_start (hd M) \<le> lr_start (last M)" "lr_end (hd M) \<le> lr_end (last M)"
        using sorted_gap_hd_le [OF normalized_sorted_gap [OF nrm(2)], of "lr_or (last M)"]
          sorted_gap_last_ge [OF normalized_sorted_gap [OF nrm(2)], of "lr_or (hd M)"] ne
        by (simp_all add: hd_map last_map)
      show ?thesis
        using False lt okM two ne le
        by (simp add: LineRangeSet_addRange_def i j LineRange_join2_def idx first Let_def)
          (simp add: split lst' js_splice_def min.commute max.commute min.left_commute
            max.left_commute min.absorb1 max.absorb2)
    qed
    have "normalized (A @ ?q # C)"
      using nrm A C lt hd last by (auto simp: normalized_append normalized_Cons)
    moreover have "lrs_set (A @ ?q # C) = lrs_set rs \<union> lr_set q"
      using touching_join_set [OF normalized_sorted_gap [OF nrm(2)], of "lr_or q"] ne M lt
      by (auto simp: split or_ok_def hd_map last_map lr_set_def or_set_def)
    ultimately show ?thesis using res by blast
  qed
qed


section \<open>Queries, union, intersection and difference\<close>

lemma normalized_findLast:
  assumes "normalized rs" and "\<And>x y. lr_start x \<le> lr_start y \<Longrightarrow> p y \<Longrightarrow> p x"
  obtains A C where "rs = A @ C" and "\<forall>a \<in> set A. p a" and "\<forall>c \<in> set C. \<not> p c"
    and "findLastMonotonous rs p = (if A = [] then None else Some (last A))"
proof -
  have "sorted_wrt (\<lambda>x y. lr_start x \<le> lr_start y) rs"
    using assms(1) unfolding normalized_def
    by (auto elim!: sorted_wrt_mono_rel [rotated])
  then have b: "border rs p (length (takeWhile p rs))"
    using assms(2) by (rule sorted_wrt_border)
  let ?A = "takeWhile p rs" and ?C = "dropWhile p rs"
  have C: "\<forall>c \<in> set ?C. \<not> p c"
    using b by (simp add: border_def list_all_iff dropWhile_eq_drop)
  have "rs ! (length ?A - 1) = last ?A" if "?A \<noteq> []"
    using that by (metis diff_less last_conv_nth length_greater_0_conv less_one takeWhile_nth)
  then have "findLastMonotonous rs p = (if ?A = [] then None else Some (last ?A))"
    using findLastMonotonous_border [OF b] by auto
  with C show thesis by (intro that [of ?A ?C]) (auto dest: set_takeWhileD)
qed

lemma normalized_last:
  assumes "normalized A" and "a \<in> set A"
  shows "a = last A \<or> lr_end a < lr_start (last A)"
proof -
  obtain B where "A = B @ [last A]" using assms(2) by (metis append_butlast_last_id list.distinct(1) list.set_cases)
  with assms show ?thesis
    by (metis Un_iff list.set(1) list.set(2) normalized_append set_append singletonD singletonI)
qed

lemma LineRangeSet_contains_iff:
  assumes "normalized rs"
  shows "LineRangeSet_contains rs n \<longleftrightarrow> n \<in> lrs_set rs"
proof -
  obtain A C where rs: "rs = A @ C" and A: "\<forall>a \<in> set A. lr_start a \<le> n"
    and C: "\<forall>c \<in> set C. \<not> lr_start c \<le> n"
    and find: "findLastMonotonous rs (\<lambda>r. lr_start r \<le> n) = (if A = [] then None else Some (last A))"
    by (rule normalized_findLast [OF assms, of "\<lambda>r. lr_start r \<le> n"]) auto
  have "n \<in> lrs_set rs \<longleftrightarrow> n \<in> lrs_set A"
    using C by (auto simp: rs lrs_set_def lr_set_def)
  also have "\<dots> \<longleftrightarrow> A \<noteq> [] \<and> n < lr_end (last A)"
  proof
    assume "n \<in> lrs_set A"
    then obtain a where a: "a \<in> set A" "n \<in> lr_set a" by (auto simp: lrs_set_def)
    have "normalized A" using assms by (simp add: rs normalized_append)
    moreover from this have "lr_start (last A) < lr_end (last A)"
      using a(1) by (cases "A = []") (auto simp: normalized_def)
    ultimately have "lr_end a \<le> lr_end (last A)"
      using normalized_last [of A a] a(1) by auto
    with a show "A \<noteq> [] \<and> n < lr_end (last A)" by (auto simp: lr_set_def)
  next
    assume "A \<noteq> [] \<and> n < lr_end (last A)"
    with A show "n \<in> lrs_set A" by (auto simp: lrs_set_def lr_set_def intro!: bexI [of _ "last A"])
  qed
  finally show ?thesis by (simp add: LineRangeSet_contains_def find)
qed

lemma LineRangeSet_intersects_iff:
  assumes "normalized rs" and q: "lr_start q < lr_end q"
  shows "LineRangeSet_intersects rs q \<longleftrightarrow> lrs_set rs \<inter> lr_set q \<noteq> {}"
proof -
  obtain A C where rs: "rs = A @ C" and A: "\<forall>a \<in> set A. lr_start a < lr_end q"
    and C: "\<forall>c \<in> set C. \<not> lr_start c < lr_end q"
    and find: "findLastMonotonous rs (\<lambda>r. lr_start r < lr_end q) = (if A = [] then None else Some (last A))"
    by (rule normalized_findLast [OF assms(1), of "\<lambda>r. lr_start r < lr_end q"]) auto
  have ok: "\<forall>a \<in> set A. lr_start a < lr_end a" and nA: "normalized A"
    using assms(1) by (auto simp: rs normalized_def sorted_wrt_append)
  have "lrs_set rs \<inter> lr_set q \<noteq> {} \<longleftrightarrow> lrs_set A \<inter> lr_set q \<noteq> {}"
    using C by (fastforce simp: rs lrs_set_def lr_set_def)
  also have "\<dots> \<longleftrightarrow> A \<noteq> [] \<and> lr_start q < lr_end (last A)"
  proof
    assume "lrs_set A \<inter> lr_set q \<noteq> {}"
    then obtain a n where a: "a \<in> set A" "n \<in> lr_set a" "n \<in> lr_set q" by (auto simp: lrs_set_def)
    have "A \<noteq> []" using a(1) by auto
    then have "lr_start (last A) < lr_end (last A)" using ok by simp
    with normalized_last [OF nA a(1)] have "lr_end a \<le> lr_end (last A)" by auto
    with a show "A \<noteq> [] \<and> lr_start q < lr_end (last A)" by (auto simp: lr_set_def)
  next
    assume *: "A \<noteq> [] \<and> lr_start q < lr_end (last A)"
    then have "max (lr_start q) (lr_start (last A)) \<in> lr_set (last A) \<inter> lr_set q"
      using A ok q by (auto simp: lr_set_def)
    moreover have "lr_set (last A) \<subseteq> lrs_set A"
      using * last_in_set [of A] unfolding lrs_set_def by blast
    ultimately show "lrs_set A \<inter> lr_set q \<noteq> {}" by blast
  qed
  finally show ?thesis by (simp add: LineRangeSet_intersects_def find)
qed

text \<open>What the loop of \<open>getUnion\<close> keeps true of the range it builds and of the ranges pushed.\<close>

definition union_inv :: "line_range option \<Rightarrow> line_range list \<Rightarrow> line_range list \<Rightarrow> bool" where
  "union_inv current result rest \<longleftrightarrow> normalized result \<and>
     (case current of None \<Rightarrow> result = []
      | Some c \<Rightarrow> lr_start c < lr_end c \<and> (\<forall>r \<in> set result. lr_end r < lr_start c) \<and>
          (\<forall>x \<in> set rest. lr_start c \<le> lr_start x))"

definition cur_set :: "line_range option \<Rightarrow> int set" where
  "cur_set current = (case current of None \<Rightarrow> {} | Some c \<Rightarrow> lr_set c)"

lemma getUnion_step_correct:
  assumes inv: "union_inv current result (x # rest)" and x: "lr_start x < lr_end x"
    and rest: "\<forall>y \<in> set rest. lr_start x \<le> lr_start y"
  shows "\<exists>c res. getUnion_step current x result = Some (c, res) \<and> union_inv (Some c) res rest \<and>
    lrs_set res \<union> lr_set c = lrs_set result \<union> cur_set current \<union> lr_set x"
proof (cases current)
  case None
  with assms show ?thesis by (simp add: getUnion_step_def union_inv_def cur_set_def)
next
  case (Some c)
  show ?thesis
  proof (cases "lr_start x \<le> lr_end c")
    case True
    have "{lr_start c ..< max (lr_end c) (lr_end x)} = lr_set c \<union> lr_set x"
      using Some inv x True by (auto simp: union_inv_def lr_set_def)
    with True Some inv x show ?thesis
      by (auto simp: getUnion_step_def union_inv_def cur_set_def lr_set_def [of "MkLineRange s e" for s e])
  next
    case False
    with Some inv x rest show ?thesis
      by (auto simp: getUnion_step_def union_inv_def cur_set_def normalized_append normalized_Cons)
  qed
qed

lemma getUnion_loop_correct:
  assumes "normalized as" and "normalized bs" and "union_inv current result (as @ bs)"
  shows "\<exists>R. getUnion_loop as bs current result = Some R \<and> normalized R \<and>
    lrs_set R = lrs_set result \<union> cur_set current \<union> lrs_set as \<union> lrs_set bs"
  using assms
proof (induction as bs current result rule: getUnion_loop.induct)
  case (1 current result)
  then show ?case
    by (auto simp: union_inv_def cur_set_def normalized_append normalized_Cons split: option.splits)
next
  case (2 a as current result)
  then obtain c res where "getUnion_step current a result = Some (c, res)" "union_inv (Some c) res as"
    "lrs_set res \<union> lr_set c = lrs_set result \<union> cur_set current \<union> lr_set a"
    using getUnion_step_correct [of current result a as] by (fastforce simp: normalized_Cons)
  with 2 show ?case by (fastforce simp: normalized_Cons cur_set_def)
next
  case (3 b bs current result)
  then obtain c res where "getUnion_step current b result = Some (c, res)" "union_inv (Some c) res bs"
    "lrs_set res \<union> lr_set c = lrs_set result \<union> cur_set current \<union> lr_set b"
    using getUnion_step_correct [of current result b bs] by (fastforce simp: normalized_Cons)
  with 3 show ?case by (fastforce simp: normalized_Cons cur_set_def)
next
  case (4 a as b bs current result)
  show ?case
  proof (cases "lr_start a < lr_start b")
    case True
    with "4.prems" obtain c res where step: "getUnion_step current a result = Some (c, res)"
      "union_inv (Some c) res (as @ b # bs)"
      "lrs_set res \<union> lr_set c = lrs_set result \<union> cur_set current \<union> lr_set a"
      using getUnion_step_correct [of current result a "as @ b # bs"] by (fastforce simp: normalized_Cons)
    with "4.IH"(1) [OF True step(1) refl] "4.prems" obtain R where
      "getUnion_loop as (b # bs) (Some c) res = Some R" "normalized R"
      "lrs_set R = lrs_set res \<union> lr_set c \<union> lrs_set as \<union> lrs_set (b # bs)"
      by (auto simp: normalized_Cons cur_set_def)
    with True step show ?thesis by auto
  next
    case False
    have "union_inv current result (b # (a # as) @ bs)"
      using "4.prems"(3) by (auto simp: union_inv_def split: option.splits)
    with False "4.prems" obtain c res where step: "getUnion_step current b result = Some (c, res)"
      "union_inv (Some c) res ((a # as) @ bs)"
      "lrs_set res \<union> lr_set c = lrs_set result \<union> cur_set current \<union> lr_set b"
      using getUnion_step_correct [of current result b "(a # as) @ bs"] by (fastforce simp: normalized_Cons)
    with "4.IH"(2) [OF False step(1) refl] "4.prems" obtain R where
      "getUnion_loop (a # as) bs (Some c) res = Some R" "normalized R"
      "lrs_set R = lrs_set res \<union> lr_set c \<union> lrs_set (a # as) \<union> lrs_set bs"
      by (auto simp: normalized_Cons cur_set_def)
    with False step show ?thesis by auto
  qed
qed

lemma LineRangeSet_getUnion_correct:
  assumes "normalized rs" and "normalized qs"
  shows "\<exists>R. LineRangeSet_getUnion rs qs = Some R \<and> normalized R \<and> lrs_set R = lrs_set rs \<union> lrs_set qs"
  using getUnion_loop_correct [OF assms, of None "[]"] assms
  by (auto simp: LineRangeSet_getUnion_def union_inv_def cur_set_def)

lemma joinMany_loop_correct:
  assumes "normalized acc" and "\<forall>rs \<in> set rss. normalized rs"
  shows "\<exists>R. joinMany_loop acc rss = Some R \<and> normalized R \<and>
    lrs_set R = lrs_set acc \<union> (\<Union>rs \<in> set rss. lrs_set rs)"
  using assms
proof (induction acc rss rule: joinMany_loop.induct)
  case (2 acc rs rss)
  obtain U where "LineRangeSet_getUnion acc rs = Some U" "normalized U" "lrs_set U = lrs_set acc \<union> lrs_set rs"
    using LineRangeSet_getUnion_correct [of acc rs] 2 by auto
  with 2 show ?case by auto
qed simp

lemma LineRange_joinMany_correct:
  assumes "\<forall>rs \<in> set rss. normalized rs"
  shows "\<exists>R. LineRange_joinMany rss = Some R \<and> normalized R \<and> lrs_set R = (\<Union>rs \<in> set rss. lrs_set rs)"
  using assms joinMany_loop_correct by (cases rss) (auto simp: LineRange_joinMany_def)


lemma intersect_push:
  "(case LineRange_intersect a b of None \<Rightarrow> res
    | Some i \<Rightarrow> if \<not> LineRange_isEmpty i then res @ [i] else res) =
   (if max (lr_start a) (lr_start b) < min (lr_end a) (lr_end b)
    then res @ [MkLineRange (max (lr_start a) (lr_start b)) (min (lr_end a) (lr_end b))] else res)"
  by (auto simp: LineRange_intersect_def LineRange_isEmpty_def Let_def)

text \<open>
  In the loop of \<open>getIntersection\<close>, all ranges pushed so far end before what is left of one of
  the two arrays.
\<close>

definition ends_before :: "line_range list \<Rightarrow> line_range list \<Rightarrow> bool" where
  "ends_before rs qs \<longleftrightarrow> (\<forall>r \<in> set rs. \<forall>q \<in> set qs. lr_end r < lr_start q)"

lemma getIntersection_step:
  assumes "normalized (a # as)" and "normalized (b # bs)" and "normalized res"
    and "ends_before res (a # as) \<or> ends_before res (b # bs)"
    and x: "lr_start x = max (lr_start a) (lr_start b)" "lr_end x = min (lr_end a) (lr_end b)"
    and "lr_start x < lr_end x"
  shows "normalized (res @ [x])"
    and "lr_end a < lr_end b \<Longrightarrow> ends_before (res @ [x]) as"
    and "\<not> lr_end a < lr_end b \<Longrightarrow> ends_before (res @ [x]) bs"
proof -
  have before: "lr_end r < lr_start x" if "r \<in> set res" for r
    using assms(4) that by (force simp: ends_before_def x)
  show "normalized (res @ [x])"
    using assms(3,7) before by (auto simp: normalized_append normalized_Cons)
  have le: "lr_end r \<le> lr_end x" if "r \<in> set (res @ [x])" for r
    using that before [of r] assms(7) by auto
  show "ends_before (res @ [x]) as" if "lr_end a < lr_end b"
    using le assms(1) that unfolding ends_before_def normalized_Cons x by fastforce
  show "ends_before (res @ [x]) bs" if "\<not> lr_end a < lr_end b"
    using le assms(2) that unfolding ends_before_def normalized_Cons x by fastforce
qed

lemma getIntersection_loop_correct:
  assumes "normalized as" and "normalized bs" and "normalized res"
    and "ends_before res as \<or> ends_before res bs"
  shows "normalized (getIntersection_loop as bs res) \<and>
    lrs_set (getIntersection_loop as bs res) = lrs_set res \<union> (lrs_set as \<inter> lrs_set bs)"
  using assms
proof (induction as bs res rule: getIntersection_loop.induct)
  case (1 a as b bs res)
  define x where "x = MkLineRange (max (lr_start a) (lr_start b)) (min (lr_end a) (lr_end b))"
  define res' where "res' = (if lr_start x < lr_end x then res @ [x] else res)"
  have push: "(case LineRange_intersect a b of None \<Rightarrow> res
      | Some i \<Rightarrow> if \<not> LineRange_isEmpty i then res @ [i] else res) = res'"
    unfolding intersect_push by (simp add: res'_def x_def)
  have res': "normalized res'"
    using getIntersection_step(1) [OF "1.prems", of x] "1.prems"(3) by (simp add: res'_def x_def)
  have set': "lrs_set res' = lrs_set res \<union> (lr_set a \<inter> lr_set b)"
    by (auto simp: res'_def x_def lr_set_def)
  show ?case
  proof (cases "lr_end a < lr_end b")
    case True
    have "ends_before res' as \<or> ends_before res' (b # bs)"
      using getIntersection_step(2) [OF "1.prems", of x] True "1.prems"(4)
      by (auto simp: res'_def x_def ends_before_def)
    with "1.IH"(1) [OF push [symmetric] True] res' "1.prems" have
      "normalized (getIntersection_loop as (b # bs) res')"
      "lrs_set (getIntersection_loop as (b # bs) res') = lrs_set res' \<union> (lrs_set as \<inter> lrs_set (b # bs))"
      by (simp_all add: normalized_Cons push)
    moreover have "lr_set a \<inter> lrs_set bs = {}"
      using True "1.prems"(2) by (fastforce simp: normalized_Cons lr_set_def lrs_set_def)
    ultimately show ?thesis using True set' by (auto simp: push)
  next
    case False
    have "ends_before res' (a # as) \<or> ends_before res' bs"
      using getIntersection_step(3) [OF "1.prems", of x] False "1.prems"(4)
      by (auto simp: res'_def x_def ends_before_def)
    with "1.IH"(2) [OF push [symmetric] False] res' "1.prems" have
      "normalized (getIntersection_loop (a # as) bs res')"
      "lrs_set (getIntersection_loop (a # as) bs res') = lrs_set res' \<union> (lrs_set (a # as) \<inter> lrs_set bs)"
      by (simp_all add: normalized_Cons push)
    moreover have "lrs_set as \<inter> lr_set b = {}"
      using False "1.prems"(1) by (fastforce simp: normalized_Cons lr_set_def lrs_set_def)
    ultimately show ?thesis using False set' by (auto simp: push)
  qed
qed auto

lemma subtractFrom_loop_correct:
  assumes "normalized M" and "\<forall>m \<in> set M. s \<le> lr_end m \<and> lr_start m \<le> E"
    and "normalized res" and "\<forall>r \<in> set res. lr_end r < s"
  shows "\<exists>s' res'. subtractFrom_loop M s res = Some (s', res') \<and> normalized res' \<and>
    (\<forall>r \<in> set res'. lr_end r < s') \<and> lrs_set res' \<union> {s' ..< E} = lrs_set res \<union> ({s ..< E} - lrs_set M)"
  using assms
proof (induction M s res rule: subtractFrom_loop.induct)
  case (2 m M s res)
  define res' where "res' = (if s < lr_start m then res @ [MkLineRange s (lr_start m)] else res)"
  have step: "subtractFrom_loop (m # M) s res = subtractFrom_loop M (lr_end m) res'"
    by (simp add: res'_def)
  have m: "lr_start m < lr_end m" "s \<le> lr_end m" "lr_start m \<le> E" and M: "normalized M"
    and M': "\<forall>k \<in> set M. lr_end m < lr_start k" "\<forall>k \<in> set M. lr_start k < lr_end k"
    using "2.prems" by (auto simp: normalized_Cons normalized_def)
  have "normalized res'" "\<forall>r \<in> set res'. lr_end r < lr_end m"
    using "2.prems"(3,4) m by (auto simp: res'_def normalized_append normalized_Cons)
  moreover have "\<forall>k \<in> set M. lr_end m \<le> lr_end k \<and> lr_start k \<le> E"
    using M' "2.prems"(2) by (force intro: less_imp_le)
  ultimately have "\<exists>s' res''. subtractFrom_loop M (lr_end m) res' = Some (s', res'') \<and> normalized res'' \<and>
    (\<forall>r \<in> set res''. lr_end r < s') \<and>
    lrs_set res'' \<union> {s' ..< E} = lrs_set res' \<union> ({lr_end m ..< E} - lrs_set M)"
    using "2.IH" M by (cases "s < lr_start m") (auto simp: res'_def)
  moreover have "lrs_set res' \<union> ({lr_end m ..< E} - lrs_set M) = lrs_set res \<union> ({s ..< E} - lrs_set (m # M))"
  proof -
    have disj: "lr_start k \<le> n \<Longrightarrow> k \<in> set M \<Longrightarrow> lr_end m < n" for k n using M' by force
    have "{s ..< lr_start m} \<inter> lrs_set M = {}"
      using disj m(1) by (force simp: lrs_set_def lr_set_def)
    moreover have "{s ..< E} = {s ..< min (lr_start m) (lr_end m)} \<union> ({s ..< E} \<inter> lr_set m) \<union> {lr_end m ..< E}"
      using m by (auto simp: lr_set_def)
    moreover have "lr_set m \<inter> {lr_end m ..< E} = {}" "lr_set m \<inter> {s ..< lr_start m} = {}"
      by (auto simp: lr_set_def)
    moreover have "lrs_set res' = lrs_set res \<union> {s ..< lr_start m}"
      by (auto simp: res'_def lr_set_def)
    ultimately show ?thesis using m(1) by (auto simp: min_def)
  qed
  ultimately show ?case unfolding step by simp
qed auto

lemma LineRangeSet_subtractFrom_correct:
  assumes rs: "normalized rs" and q: "lr_start q < lr_end q"
  shows "\<exists>R. LineRangeSet_subtractFrom rs q = Some R \<and> normalized R \<and> lrs_set R = lr_set q - lrs_set rs"
proof -
  from touching_split [OF rs less_imp_le [OF q]]
  obtain A M C where split: "rs = A @ M @ C"
    and i: "findFirstIdxMonotonousOrArrLen rs (\<lambda>r. lr_end r \<ge> lr_start q) 0 (length rs) = length A"
    and j: "findLastIdxMonotonous rs (\<lambda>r. lr_start r \<le> lr_end q) 0 (length rs) + 1 = int (length A + length M)"
    and A: "\<forall>a \<in> set A. lr_end a < lr_start q"
    and M: "\<forall>m \<in> set M. lr_start m \<le> lr_end q \<and> lr_start q \<le> lr_end m"
    and C: "\<forall>c \<in> set C. lr_end q < lr_start c" by blast
  have "lr_set q \<inter> lrs_set A = {}" "lr_set q \<inter> lrs_set C = {}"
    using A C by (force simp: lr_set_def lrs_set_def)+
  then have set: "lr_set q - lrs_set rs = lr_set q - lrs_set M" by (auto simp: split)
  have nM: "normalized M" using rs by (simp add: split normalized_append)
  show ?thesis
  proof (cases "M = []")
    case True
    then show ?thesis using q set
      by (simp add: LineRangeSet_subtractFrom_def i j) (simp add: normalized_Cons)
  next
    case False
    obtain s res where loop: "subtractFrom_loop M (lr_start q) [] = Some (s, res)" "normalized res"
      "\<forall>r \<in> set res. lr_end r < s" "lrs_set res \<union> {s ..< lr_end q} = lr_set q - lrs_set M"
      using subtractFrom_loop_correct [OF nM, of "lr_start q" "lr_end q" "[]"] M
      by (auto simp: lr_set_def [of q])
    have eq: "LineRangeSet_subtractFrom rs q =
      (if s < lr_end q then Some (res @ [MkLineRange s (lr_end q)]) else Some res)"
      using False loop(1)
      by (simp add: LineRangeSet_subtractFrom_def i j nat_add_distrib [symmetric] Let_def) (simp add: split)
    show ?thesis
      using loop(2,3,4) by (auto simp: eq set normalized_append normalized_Cons lr_set_def [of "MkLineRange s e" for s e])
  qed
qed


section \<open>Properties\<close>

text \<open>
  C39. On normalized arrays \<open>LineRangeSet\<close> is the algebra of sets of lines: \<open>addRange\<close>,
  \<open>getUnion\<close>, \<open>getIntersection\<close>, \<open>subtractFrom\<close> and \<open>joinMany\<close> never throw, return
  normalized arrays (sorted, without empty ranges, no two touching) and denote union,
  intersection and difference; \<open>contains\<close> and \<open>intersects\<close>, which look at one range found by
  binary search, decide membership and overlap.
\<close>

theorem line_range_set_algebra:
  assumes "normalized rs" and "normalized qs" and "lr_start q < lr_end q" and "\<forall>ps \<in> set pss. normalized ps"
  shows "(\<exists>R. LineRangeSet_addRange q rs = Some R \<and> normalized R \<and> lrs_set R = lrs_set rs \<union> lr_set q) \<and>
    (\<exists>R. LineRangeSet_getUnion rs qs = Some R \<and> normalized R \<and> lrs_set R = lrs_set rs \<union> lrs_set qs) \<and>
    (normalized (LineRangeSet_getIntersection rs qs) \<and>
      lrs_set (LineRangeSet_getIntersection rs qs) = lrs_set rs \<inter> lrs_set qs) \<and>
    (\<exists>R. LineRangeSet_subtractFrom rs q = Some R \<and> normalized R \<and> lrs_set R = lr_set q - lrs_set rs) \<and>
    (\<exists>R. LineRange_joinMany pss = Some R \<and> normalized R \<and> lrs_set R = (\<Union>ps \<in> set pss. lrs_set ps)) \<and>
    (LineRangeSet_contains rs n \<longleftrightarrow> n \<in> lrs_set rs) \<and>
    (LineRangeSet_intersects rs q \<longleftrightarrow> lrs_set rs \<inter> lr_set q \<noteq> {})"
proof (intro conjI)
  show "\<exists>R. LineRangeSet_addRange q rs = Some R \<and> normalized R \<and> lrs_set R = lrs_set rs \<union> lr_set q"
    using LineRangeSet_addRange_correct [OF assms(1)] assms(3) by (simp add: lr_ok_def)
  show "normalized (LineRangeSet_getIntersection rs qs)"
    and "lrs_set (LineRangeSet_getIntersection rs qs) = lrs_set rs \<inter> lrs_set qs"
    using getIntersection_loop_correct [OF assms(1,2), of "[]"]
    by (simp_all add: LineRangeSet_getIntersection_def ends_before_def)
qed (fact LineRangeSet_getUnion_correct [OF assms(1,2)] LineRangeSet_subtractFrom_correct [OF assms(1,3)]
    LineRange_joinMany_correct [OF assms(4)] LineRangeSet_contains_iff [OF assms(1)]
    LineRangeSet_intersects_iff [OF assms(1,3)])+

theorem line_range_set_algebra_witness:
  "lrs_set (LineRangeSet_getIntersection [MkLineRange 1 4, MkLineRange 6 9] [MkLineRange 3 7]) =
    lrs_set [MkLineRange 1 4, MkLineRange 6 9] \<inter> lrs_set [MkLineRange 3 7]"
  using line_range_set_algebra
    [of "[MkLineRange 1 4, MkLineRange 6 9]" "[MkLineRange 3 7]" "MkLineRange 2 3" "[]" 5]
  by (simp add: normalized_Cons)

text \<open>
  On single ranges \<open>subtract\<close> never throws and leaves exactly the lines of the first range
  that the second does not cover; \<open>distanceToRange\<close> is symmetric and zero when the ranges
  touch. \<open>distanceToLine\<close> is zero on the contained lines and also on the first line
  after the range, which the range does not contain, while the line before it is at distance 1.
\<close>

theorem line_range_subtract_distance:
  assumes "lr_ok a" and "lr_ok b"
  shows "(\<exists>xs. LineRange_subtract a (Some b) = Some xs \<and> lrs_set xs = lr_set a - lr_set b) \<and>
    LineRange_distanceToRange a b = LineRange_distanceToRange b a \<and>
    (LineRange_distanceToRange a b = 0 \<longleftrightarrow> LineRange_intersectsOrTouches a b) \<and>
    (LineRange_distanceToLine a n = 0 \<longleftrightarrow> LineRange_contains a n \<or> n = lr_end a) \<and>
    LineRange_distanceToLine a (lr_start a - 1) = 1"
proof (intro conjI)
  show "\<exists>xs. LineRange_subtract a (Some b) = Some xs \<and> lrs_set xs = lr_set a - lr_set b"
    using assms by (auto simp: LineRange_subtract_def lr_ok_def lr_set_def)
qed (use assms in \<open>auto simp: LineRange_distanceToRange_def LineRange_distanceToLine_def lr_ok_def
  LineRange_intersectsOrTouches_def LineRange_contains_def lr_set_def\<close>)

theorem line_range_subtract_distance_witness:
  "LineRange_distanceToLine (MkLineRange 3 5) 5 = 0 \<and> \<not> LineRange_contains (MkLineRange 3 5) 5"
proof -
  have "LineRange_distanceToLine (MkLineRange 3 5) 5 = 0"
    using line_range_subtract_distance [of "MkLineRange 3 5" "MkLineRange 3 5" 5] by (simp add: lr_ok_def)
  then show ?thesis by (simp add: lr_set_def)
qed

end
