(* ===== verification/TextLengths.thy ===== *)
theory TextLengths
  imports LineRanges
begin

text \<open>
  \<open>vs/editor/common/core/text/textLength.ts\<close>: the length of a text as a number of line
  breaks and of characters after the last one. A text length acts on positions
  (\<open>addToPosition\<close>), lengths add up like the texts they measure, and the position reached by
  a text does not depend on how the text is cut into fragments.

  \<open>TextLength.ofText\<close> runs the JavaScript string iterator, which yields code points: a
  surrogate pair is one step of the loop, although it is two columns everywhere else in the
  editor, where columns count UTF-16 code units. The iterator is \<open>js_iterate\<close>.
\<close>

section \<open>The string iterator\<close>

definition is_high_surrogate :: "code_unit \<Rightarrow> bool" where
  "is_high_surrogate u \<longleftrightarrow> 0xD800 \<le> u \<and> u \<le> 0xDBFF"

definition is_low_surrogate :: "code_unit \<Rightarrow> bool" where
  "is_low_surrogate u \<longleftrightarrow> 0xDC00 \<le> u \<and> u \<le> 0xDFFF"

fun js_iterate :: "js_string \<Rightarrow> js_string list" where
  "js_iterate [] = []"
| "js_iterate [u] = [[u]]"
| "js_iterate (u # v # s) =
     (if is_high_surrogate u \<and> is_low_surrogate v then [u, v] # js_iterate s
      else [u] # js_iterate (v # s))"

text \<open>Two strings whose concatenation does not form a new surrogate pair at the seam.\<close>

definition seam_ok :: "js_string \<Rightarrow> js_string \<Rightarrow> bool" where
  "seam_ok s t \<longleftrightarrow> s = [] \<or> t = [] \<or> \<not> (is_high_surrogate (last s) \<and> is_low_surrogate (hd t))"

lemma concat_js_iterate [simp]: "concat (js_iterate s) = s"
  by (induction s rule: js_iterate.induct) auto

lemma js_iterate_append: "seam_ok s t \<Longrightarrow> js_iterate (s @ t) = js_iterate s @ js_iterate t"
proof (induction s rule: js_iterate.induct)
  case (2 u)
  then show ?case by (cases t) (auto simp: seam_ok_def)
next
  case (3 u v s)
  then show ?case by (cases s; cases t) (auto simp: seam_ok_def)
qed simp

lemma surrogate_not_LF [simp]: "\<not> is_high_surrogate LF" "\<not> is_low_surrogate LF"
  by (simp_all add: LF_def is_high_surrogate_def is_low_surrogate_def)

section \<open>TextLength\<close>

datatype text_length = MkTextLength (lineCount: int) (columnCount: int)

definition TextLength_zero :: text_length where
  "TextLength_zero = MkTextLength 0 0"

definition TextLength_isZero :: "text_length \<Rightarrow> bool" where
  "TextLength_isZero l \<longleftrightarrow> lineCount l = 0 \<and> columnCount l = 0"

definition TextLength_isLessThan :: "text_length \<Rightarrow> text_length \<Rightarrow> bool" where
  "TextLength_isLessThan l m =
     (if lineCount l \<noteq> lineCount m then lineCount l < lineCount m
      else columnCount l < columnCount m)"

definition TextLength_isGreaterThan :: "text_length \<Rightarrow> text_length \<Rightarrow> bool" where
  "TextLength_isGreaterThan l m =
     (if lineCount l \<noteq> lineCount m then lineCount l > lineCount m
      else columnCount l > columnCount m)"

definition TextLength_isGreaterThanOrEqualTo :: "text_length \<Rightarrow> text_length \<Rightarrow> bool" where
  "TextLength_isGreaterThanOrEqualTo l m =
     (if lineCount l \<noteq> lineCount m then lineCount l > lineCount m
      else columnCount l \<ge> columnCount m)"

definition TextLength_equals :: "text_length \<Rightarrow> text_length \<Rightarrow> bool" where
  "TextLength_equals l m \<longleftrightarrow> lineCount l = lineCount m \<and> columnCount l = columnCount m"

definition TextLength_compare :: "text_length \<Rightarrow> text_length \<Rightarrow> int" where
  "TextLength_compare l m =
     (if lineCount l \<noteq> lineCount m then lineCount l - lineCount m
      else columnCount l - columnCount m)"

definition TextLength_lengthDiffNonNegative :: "text_length \<Rightarrow> text_length \<Rightarrow> text_length" where
  "TextLength_lengthDiffNonNegative s e =
     (if TextLength_isLessThan e s then TextLength_zero
      else if lineCount s = lineCount e then MkTextLength 0 (columnCount e - columnCount s)
      else MkTextLength (lineCount e - lineCount s) (columnCount e))"

definition TextLength_betweenPositions :: "position \<Rightarrow> position \<Rightarrow> text_length" where
  "TextLength_betweenPositions p q =
     (if lineNumber p = lineNumber q then MkTextLength 0 (column q - column p)
      else MkTextLength (lineNumber q - lineNumber p) (column q - 1))"

definition TextLength_fromPosition :: "position \<Rightarrow> text_length" where
  "TextLength_fromPosition p = MkTextLength (lineNumber p - 1) (column p - 1)"

definition TextLength_ofRange :: "edit_range \<Rightarrow> text_length" where
  "TextLength_ofRange r = TextLength_betweenPositions (Range_getStartPosition r) (Range_getEndPosition r)"

fun ofText_loop :: "js_string list \<Rightarrow> int \<Rightarrow> int \<Rightarrow> text_length" where
  "ofText_loop [] line col = MkTextLength line col"
| "ofText_loop (c # cs) line col =
     (if c = [LF] then ofText_loop cs (line + 1) 0 else ofText_loop cs line (col + 1))"

definition TextLength_ofText :: "js_string \<Rightarrow> text_length" where
  "TextLength_ofText t = ofText_loop (js_iterate t) 0 0"

definition TextLength_ofSubstr :: "js_string \<Rightarrow> offset_range \<Rightarrow> text_length" where
  "TextLength_ofSubstr t r = TextLength_ofText (OffsetRange_substring r t)"

definition TextLength_add :: "text_length \<Rightarrow> text_length \<Rightarrow> text_length" where
  "TextLength_add l m =
     (if lineCount m = 0 then MkTextLength (lineCount l) (columnCount l + columnCount m)
      else MkTextLength (lineCount l + lineCount m) (columnCount m))"

definition TextLength_sum :: "'a list \<Rightarrow> ('a \<Rightarrow> text_length) \<Rightarrow> text_length" where
  "TextLength_sum fragments getLength =
     foldl (\<lambda>acc f. TextLength_add acc (getLength f)) TextLength_zero fragments"

definition TextLength_createRange :: "text_length \<Rightarrow> position \<Rightarrow> edit_range" where
  "TextLength_createRange l p =
     (if lineCount l = 0
      then Range_new (lineNumber p) (column p) (lineNumber p) (column p + columnCount l)
      else Range_new (lineNumber p) (column p) (lineNumber p + lineCount l) (columnCount l + 1))"

definition TextLength_toRange :: "text_length \<Rightarrow> edit_range" where
  "TextLength_toRange l = Range_new 1 1 (lineCount l + 1) (columnCount l + 1)"

definition TextLength_toLineRange :: "text_length \<Rightarrow> line_range option" where
  "TextLength_toLineRange l = LineRange_ofLength 1 (lineCount l + 1)"

definition TextLength_addToPosition :: "text_length \<Rightarrow> position \<Rightarrow> position" where
  "TextLength_addToPosition l p =
     (if lineCount l = 0 then Position (lineNumber p) (column p + columnCount l)
      else Position (lineNumber p + lineCount l) (columnCount l + 1))"

definition TextLength_addToRange :: "text_length \<Rightarrow> edit_range \<Rightarrow> edit_range" where
  "TextLength_addToRange l r =
     Range_fromPositions (TextLength_addToPosition l (Range_getStartPosition r))
       (TextLength_addToPosition l (Range_getEndPosition r))"

section \<open>The order and the sum of text lengths\<close>

instantiation text_length :: linorder
begin

definition less_text_length :: "text_length \<Rightarrow> text_length \<Rightarrow> bool" where
  "less_text_length l m \<longleftrightarrow>
     lineCount l < lineCount m \<or> (lineCount l = lineCount m \<and> columnCount l < columnCount m)"

definition less_eq_text_length :: "text_length \<Rightarrow> text_length \<Rightarrow> bool" where
  "less_eq_text_length l m \<longleftrightarrow>
     lineCount l < lineCount m \<or> (lineCount l = lineCount m \<and> columnCount l \<le> columnCount m)"

instance
  by intro_classes (auto simp: less_text_length_def less_eq_text_length_def text_length.expand)

end

lemmas text_length_order = less_text_length_def less_eq_text_length_def

text \<open>A text length as the class comment describes it: non-negative.\<close>

definition text_length_ok :: "text_length \<Rightarrow> bool" where
  "text_length_ok l \<longleftrightarrow> 0 \<le> lineCount l \<and> 0 \<le> columnCount l"

lemma text_length_comparisons [simp]:
  "TextLength_isLessThan l m \<longleftrightarrow> l < m"
  "TextLength_isGreaterThan l m \<longleftrightarrow> m < l"
  "TextLength_isGreaterThanOrEqualTo l m \<longleftrightarrow> m \<le> l"
  "TextLength_equals l m \<longleftrightarrow> l = m"
  "TextLength_isZero l \<longleftrightarrow> l = TextLength_zero"
  by (auto simp: TextLength_isLessThan_def TextLength_isGreaterThan_def TextLength_equals_def
      TextLength_isGreaterThanOrEqualTo_def TextLength_isZero_def TextLength_zero_def
      text_length_order text_length.expand)

lemma TextLength_compare_sign:
  "TextLength_compare l m < 0 \<longleftrightarrow> l < m"
  "TextLength_compare l m = 0 \<longleftrightarrow> l = m"
  "TextLength_compare l m > 0 \<longleftrightarrow> m < l"
  by (auto simp: TextLength_compare_def text_length_order text_length.expand)

lemma TextLength_add_zero [simp]:
  "TextLength_add l TextLength_zero = l" "0 \<le> lineCount l \<Longrightarrow> TextLength_add TextLength_zero l = l"
  by (cases l; simp add: TextLength_add_def TextLength_zero_def)+

lemma TextLength_add_assoc:
  "0 \<le> lineCount l \<Longrightarrow> 0 \<le> lineCount m \<Longrightarrow> 0 \<le> lineCount n \<Longrightarrow>
    TextLength_add (TextLength_add l m) n = TextLength_add l (TextLength_add m n)"
  by (auto simp: TextLength_add_def)

lemma TextLength_add_ok: "text_length_ok l \<Longrightarrow> text_length_ok m \<Longrightarrow> text_length_ok (TextLength_add l m)"
  by (auto simp: TextLength_add_def text_length_ok_def)

lemma TextLength_addToPosition_add:
  "0 \<le> lineCount l \<Longrightarrow> 0 \<le> lineCount m \<Longrightarrow>
    TextLength_addToPosition (TextLength_add l m) p =
      TextLength_addToPosition m (TextLength_addToPosition l p)"
  by (auto simp: TextLength_addToPosition_def TextLength_add_def)

lemma TextLength_addToPosition_zero [simp]: "TextLength_addToPosition TextLength_zero p = p"
  by (simp add: TextLength_addToPosition_def TextLength_zero_def)

lemma TextLength_between_add [simp]:
  "TextLength_betweenPositions p (TextLength_addToPosition l p) = l"
  by (cases l) (simp add: TextLength_betweenPositions_def TextLength_addToPosition_def)

lemma TextLength_add_between [simp]:
  "TextLength_addToPosition (TextLength_betweenPositions p q) p = q"
  by (cases q) (simp add: TextLength_betweenPositions_def TextLength_addToPosition_def)

lemma TextLength_fromPosition_between:
  "TextLength_fromPosition p = TextLength_betweenPositions (Position 1 1) p"
  by (auto simp: TextLength_fromPosition_def TextLength_betweenPositions_def)

lemma TextLength_lengthDiffNonNegative_add:
  "text_length_ok l \<Longrightarrow> text_length_ok m \<Longrightarrow> TextLength_lengthDiffNonNegative l (TextLength_add l m) = m"
  by (cases m) (auto simp: TextLength_lengthDiffNonNegative_def TextLength_add_def text_length_ok_def
      text_length_order)

lemma TextLength_add_lengthDiffNonNegative:
  "l \<le> m \<Longrightarrow> TextLength_add l (TextLength_lengthDiffNonNegative l m) = m"
  by (cases m) (auto simp: TextLength_lengthDiffNonNegative_def TextLength_add_def text_length_order)

lemma TextLength_createRange_ends:
  assumes "text_length_ok l"
  shows "Range_getStartPosition (TextLength_createRange l p) = p"
    "Range_getEndPosition (TextLength_createRange l p) = TextLength_addToPosition l p"
  using assms by (auto simp: TextLength_createRange_def TextLength_addToPosition_def Range_new_def
      text_length_ok_def range_ends)

lemma TextLength_addToPosition_mono:
  "p \<le> q \<Longrightarrow> 0 \<le> lineCount l \<Longrightarrow> TextLength_addToPosition l p \<le> TextLength_addToPosition l q"
  by (auto simp: TextLength_addToPosition_def position_order)

section \<open>The length of a text\<close>

lemma TextLength_add_ofText_loop:
  "0 \<le> l \<Longrightarrow> TextLength_add a (ofText_loop cs l c) =
    (if l = 0 then ofText_loop cs (lineCount a) (columnCount a + c)
     else ofText_loop cs (lineCount a + l) c)"
proof (induction cs arbitrary: l c)
  case (Cons d cs)
  show ?case
    using Cons.prems Cons.IH [of "l + 1" 0] Cons.IH [of l "c + 1"]
    by (cases "d = [LF]") (simp_all add: add.assoc)
qed (simp add: TextLength_add_def)

lemma ofText_loop_add:
  "ofText_loop cs l c = TextLength_add (MkTextLength l c) (ofText_loop cs 0 0)"
  by (simp add: TextLength_add_ofText_loop)

lemma ofText_loop_append:
  "ofText_loop (cs @ ds) l c = TextLength_add (ofText_loop cs l c) (ofText_loop ds 0 0)"
proof (induction cs arbitrary: l c)
  case Nil
  show ?case by (simp only: append_Nil ofText_loop.simps ofText_loop_add [of ds l c])
qed simp

lemma TextLength_ofText_append:
  "seam_ok s t \<Longrightarrow>
    TextLength_ofText (s @ t) = TextLength_add (TextLength_ofText s) (TextLength_ofText t)"
  by (simp add: TextLength_ofText_def js_iterate_append ofText_loop_append)

text \<open>What \<open>ofText\<close> counts: line feeds, and the code points after the last of them.\<close>

definition last_line :: "js_string \<Rightarrow> js_string" where
  "last_line t = rev (takeWhile (\<lambda>u. u \<noteq> LF) (rev t))"

lemma last_line_append_LF: "last_line (s @ LF # t) = last_line t"
  by (simp add: last_line_def takeWhile_tail)

lemma last_line_no_LF: "LF \<notin> set t \<Longrightarrow> last_line t = t"
proof -
  assume "LF \<notin> set t"
  then have "\<forall>u \<in> set (rev t). u \<noteq> LF" by auto
  then have "takeWhile (\<lambda>u. u \<noteq> LF) (rev t) = rev t" by (simp only: takeWhile_eq_all_conv)
  then show "last_line t = t" by (simp only: last_line_def rev_rev_ident)
qed

lemma js_iterate_no_LF: "LF \<notin> set t \<Longrightarrow> [LF] \<notin> set (js_iterate t)"
  by (induction t rule: js_iterate.induct) auto

lemma ofText_loop_no_LF: "[LF] \<notin> set cs \<Longrightarrow> ofText_loop cs l c = MkTextLength l (c + ilen cs)"
  by (induction cs arbitrary: c) auto

lemma TextLength_ofText_line:
  "LF \<notin> set t \<Longrightarrow> TextLength_ofText t = MkTextLength 0 (ilen (js_iterate t))"
  by (simp add: TextLength_ofText_def ofText_loop_no_LF js_iterate_no_LF)

lemma TextLength_ofText_LF [simp]: "TextLength_ofText [LF] = MkTextLength 1 0"
  by (simp add: TextLength_ofText_def)

lemma TextLength_ofText_Nil [simp]: "TextLength_ofText [] = TextLength_zero"
  by (simp add: TextLength_ofText_def TextLength_zero_def)

lemma TextLength_ofText_split:
  "TextLength_ofText (s @ LF # t) =
    TextLength_add (TextLength_ofText s) (TextLength_add (MkTextLength 1 0) (TextLength_ofText t))"
  using TextLength_ofText_append [of s "LF # t"] TextLength_ofText_append [of "[LF]" t]
  by (simp add: seam_ok_def)

lemma TextLength_ofText_eq:
  "TextLength_ofText t = MkTextLength (int (count_list t LF)) (ilen (js_iterate (last_line t)))"
proof (induction "count_list t LF" arbitrary: t)
  case 0
  then have "LF \<notin> set t" by (simp add: count_list_0_iff)
  then show ?case by (simp add: TextLength_ofText_line last_line_no_LF)
next
  case (Suc n)
  then have "LF \<in> set t" by (metis count_list_0_iff nat.distinct(1))
  then obtain s u where t: "t = s @ LF # u" "LF \<notin> set s" by (metis split_list_first)
  then have "n = count_list u LF" using Suc.hyps(2) by (simp add: count_list_0_iff)
  from Suc.hyps(1) [OF this] t show ?case
    by (simp add: TextLength_ofText_split last_line_append_LF TextLength_ofText_line TextLength_add_def
        count_list_0_iff)
qed

lemma TextLength_ofText_ok [simp]: "text_length_ok (TextLength_ofText t)"
  by (simp add: TextLength_ofText_eq text_length_ok_def)

lemma js_iterate_length_le: "length (js_iterate t) \<le> length t"
  by (induction t rule: js_iterate.induct) auto

text \<open>The strings in which no two adjacent units form a surrogate pair.\<close>

fun no_pair :: "js_string \<Rightarrow> bool" where
  "no_pair (u # v # s) = (\<not> (is_high_surrogate u \<and> is_low_surrogate v) \<and> no_pair (v # s))"
| "no_pair _ = True"

lemma js_iterate_length_eq: "length (js_iterate t) = length t \<longleftrightarrow> no_pair t"
proof (induction t rule: js_iterate.induct)
  case (3 u v s)
  then show ?case using js_iterate_length_le [of s] by auto
qed auto

section \<open>Properties\<close>

text \<open>
  Text lengths act on positions. With non-negative line counts \<open>add\<close> is associative with
  unit \<open>zero\<close> and moving a position by a sum is moving it twice; \<open>betweenPositions\<close> is the
  unique length that moves one position to another, in both directions;
  \<open>lengthDiffNonNegative\<close> cancels \<open>add\<close> from the left, and is \<open>zero\<close> when the end comes first;
  \<open>createRange\<close> is the range from a position to the moved one, and the four comparisons are
  the ones of one linear order.
\<close>

theorem text_length_moves_positions:
  assumes "text_length_ok l" and "text_length_ok m" and "text_length_ok n"
  shows "TextLength_add (TextLength_add l m) n = TextLength_add l (TextLength_add m n) \<and>
    TextLength_add TextLength_zero l = l \<and> TextLength_add l TextLength_zero = l \<and>
    TextLength_addToPosition (TextLength_add l m) p =
      TextLength_addToPosition m (TextLength_addToPosition l p) \<and>
    (TextLength_addToPosition l p = q \<longleftrightarrow> l = TextLength_betweenPositions p q) \<and>
    TextLength_lengthDiffNonNegative l (TextLength_add l m) = m \<and>
    TextLength_add l (TextLength_lengthDiffNonNegative l m) = max l m \<and>
    TextLength_ofRange (TextLength_createRange l p) = l \<and>
    Range_getStartPosition (TextLength_createRange l p) = p \<and>
    (TextLength_compare l m < 0 \<longleftrightarrow> TextLength_isLessThan l m) \<and>
    (TextLength_isGreaterThanOrEqualTo l m \<longleftrightarrow> \<not> TextLength_isLessThan l m) \<and>
    (TextLength_isGreaterThan l m \<longleftrightarrow> TextLength_isLessThan m l)"
proof -
  have nn: "0 \<le> lineCount l" "0 \<le> lineCount m" "0 \<le> lineCount n"
    using assms by (simp_all add: text_length_ok_def)
  have "TextLength_addToPosition l p = q \<longleftrightarrow> l = TextLength_betweenPositions p q"
    by (metis TextLength_between_add TextLength_add_between)
  moreover have "TextLength_add l (TextLength_lengthDiffNonNegative l m) = max l m"
  proof (cases "l \<le> m")
    case False
    then have "m < l" by simp
    then show ?thesis by (simp add: TextLength_lengthDiffNonNegative_def)
  qed (simp add: TextLength_add_lengthDiffNonNegative max_def)
  ultimately show ?thesis
    using nn assms
    by (simp add: TextLength_add_assoc TextLength_addToPosition_add TextLength_lengthDiffNonNegative_add
        TextLength_ofRange_def TextLength_createRange_ends TextLength_compare_sign not_less)
qed

theorem text_length_moves_positions_witness:
  "TextLength_addToPosition (TextLength_add (MkTextLength 2 3) (MkTextLength 0 4)) (Position 5 6) =
     Position 7 8"
proof -
  have ok: "text_length_ok (MkTextLength 2 3)" "text_length_ok (MkTextLength 0 4)"
    by (simp_all add: text_length_ok_def)
  from text_length_moves_positions [OF ok ok(1), of "Position 5 6"]
  have "TextLength_addToPosition (TextLength_add (MkTextLength 2 3) (MkTextLength 0 4)) (Position 5 6) =
      TextLength_addToPosition (MkTextLength 0 4) (TextLength_addToPosition (MkTextLength 2 3) (Position 5 6))"
    by blast
  then show ?thesis by (simp add: TextLength_addToPosition_def)
qed

text \<open>
  \<open>ofText\<close> is a homomorphism from concatenation to \<open>add\<close> wherever the seam does not join
  the halves of a surrogate pair: it counts the line feeds and the code points of the last
  line, so the position a text leads to is independent of how it is cut into fragments that
  respect the pairs. It counts at most as many columns as the last line has UTF-16 units, and
  strictly fewer exactly when that line contains a surrogate pair.
\<close>

theorem text_length_ofText:
  assumes "seam_ok s t"
  shows "TextLength_ofText (s @ t) = TextLength_add (TextLength_ofText s) (TextLength_ofText t) \<and>
    TextLength_addToPosition (TextLength_ofText (s @ t)) p =
      TextLength_addToPosition (TextLength_ofText t) (TextLength_addToPosition (TextLength_ofText s) p) \<and>
    lineCount (TextLength_ofText t) = int (count_list t LF) \<and>
    columnCount (TextLength_ofText t) \<le> ilen (last_line t) \<and>
    (columnCount (TextLength_ofText t) = ilen (last_line t) \<longleftrightarrow> no_pair (last_line t))"
proof -
  have "0 \<le> lineCount (TextLength_ofText u)" for u
    using TextLength_ofText_ok [of u] by (simp add: text_length_ok_def)
  with assms show ?thesis
    using js_iterate_length_le [of "last_line t"] js_iterate_length_eq [of "last_line t"]
    by (simp add: TextLength_ofText_append TextLength_addToPosition_add) (simp add: TextLength_ofText_eq)
qed

theorem text_length_ofText_witness:
  "TextLength_ofText ([97, LF, 98] @ [0xD83D, 0xDE00, 99]) = MkTextLength 1 3 \<and>
   ilen (last_line ([97, LF, 98] @ [0xD83D, 0xDE00, 99])) = 4"
proof -
  have "seam_ok [97, LF, 98] [0xD83D, 0xDE00, 99]"
    by (simp add: seam_ok_def is_high_surrogate_def)
  from text_length_ofText [OF this]
  have *: "TextLength_ofText ([97, LF, 98] @ [0xD83D, 0xDE00, 99]) =
      TextLength_add (TextLength_ofText [97, LF, 98]) (TextLength_ofText [0xD83D, 0xDE00, 99])"
    by blast
  show ?thesis
    unfolding * by (simp add: TextLength_ofText_def LF_def is_high_surrogate_def is_low_surrogate_def
        TextLength_add_def last_line_def)
qed

end
