(* ===== verification/PositionOffsets.thy ===== *)
theory PositionOffsets
  imports TextLengths
begin

text \<open>
  \<open>vs/editor/common/core/text/positionToOffsetImpl.ts\<close>: the translation between offsets of a
  string and positions (line and column) of the text it holds. The two arrays the class
  caches are functions of its readonly text, so the model computes them where they are used.
  An array read outside the array makes the arithmetic that uses it \<open>NaN\<close>; such a result is
  \<open>None\<close>, and the lemmas show when it cannot happen.

  A line ends before its line feed, and before the carriage return in front of it. The
  specification is \<open>utf16_length\<close>, the number of line feeds of a text and of UTF-16 units
  after the last one: the position of an offset is where that much text leads from (1, 1).
\<close>

section \<open>The code\<close>

function computeLineOffsets_loop :: "js_string \<Rightarrow> nat \<Rightarrow> int list \<Rightarrow> int list \<Rightarrow> int list \<times> int list" where
  "computeLineOffsets_loop t i starts ends =
     (if i < length t then
        if t ! i = LF then
          computeLineOffsets_loop t (i + 1) (starts @ [int i + 1])
            (ends @ [if i > 0 \<and> t ! (i - 1) = CR then int i - 1 else int i])
        else computeLineOffsets_loop t (i + 1) starts ends
      else (starts, ends))"
  by pat_completeness auto

termination
  by (relation "measure (\<lambda>(t, i, _). length t - i)") auto

declare computeLineOffsets_loop.simps [simp del]

definition computeLineOffsets :: "js_string \<Rightarrow> int list \<times> int list" where
  "computeLineOffsets t =
     (let (starts, ends) = computeLineOffsets_loop t 0 [0] [] in (starts, ends @ [ilen t]))"

definition lineStartOffsetByLineIdx :: "js_string \<Rightarrow> int list" where
  "lineStartOffsetByLineIdx t = fst (computeLineOffsets t)"

definition lineEndOffsetByLineIdx :: "js_string \<Rightarrow> int list" where
  "lineEndOffsetByLineIdx t = snd (computeLineOffsets t)"

definition PositionOffsetTransformer_textLength :: "js_string \<Rightarrow> text_length option" where
  "PositionOffsetTransformer_textLength t =
     (let lineIdx = ilen (lineStartOffsetByLineIdx t) - 1
      in do {
        s \<leftarrow> js_get (lineStartOffsetByLineIdx t) lineIdx;
        Some (MkTextLength lineIdx (ilen t - s))
      })"

definition PositionOffsetTransformer_getLineLength :: "js_string \<Rightarrow> int \<Rightarrow> int option" where
  "PositionOffsetTransformer_getLineLength t n = do {
     e \<leftarrow> js_get (lineEndOffsetByLineIdx t) (n - 1);
     s \<leftarrow> js_get (lineStartOffsetByLineIdx t) (n - 1);
     Some (e - s)
   }"

definition PositionOffsetTransformer_validatePosition :: "js_string \<Rightarrow> position \<Rightarrow> position option" where
  "PositionOffsetTransformer_validatePosition t p =
     (if lineNumber p < 1 then Some (Position 1 1)
      else do {
        l \<leftarrow> PositionOffsetTransformer_textLength t;
        let lines = lineCount l + 1 in
        if lineNumber p > lines then do {
          lineLength \<leftarrow> PositionOffsetTransformer_getLineLength t lines;
          Some (Position lines (lineLength + 1))
        }
        else if column p < 1 then Some (Position (lineNumber p) 1)
        else do {
          lineLength \<leftarrow> PositionOffsetTransformer_getLineLength t (lineNumber p);
          if column p - 1 > lineLength then Some (Position (lineNumber p) (lineLength + 1))
          else Some p
        }
      })"

definition PositionOffsetTransformer_getOffset :: "js_string \<Rightarrow> position \<Rightarrow> int option" where
  "PositionOffsetTransformer_getOffset t p = do {
     valPos \<leftarrow> PositionOffsetTransformer_validatePosition t p;
     s \<leftarrow> js_get (lineStartOffsetByLineIdx t) (lineNumber valPos - 1);
     Some (s + column valPos - 1)
   }"

definition PositionOffsetTransformer_getPosition :: "js_string \<Rightarrow> int \<Rightarrow> position option" where
  "PositionOffsetTransformer_getPosition t offset =
     (let starts = lineStartOffsetByLineIdx t;
          idx = findLastIdxMonotonous starts (\<lambda>i. i \<le> offset) 0 (length starts);
          line = idx + 1
      in do {
        s \<leftarrow> js_get starts idx;
        Some (Position line (offset - s + 1))
      })"

definition PositionOffsetTransformer_getOffsetRange :: "js_string \<Rightarrow> edit_range \<Rightarrow> offset_range option" where
  "PositionOffsetTransformer_getOffsetRange t r = do {
     s \<leftarrow> PositionOffsetTransformer_getOffset t (Range_getStartPosition r);
     e \<leftarrow> PositionOffsetTransformer_getOffset t (Range_getEndPosition r);
     OffsetRange_new s e
   }"

definition PositionOffsetTransformer_getRange :: "js_string \<Rightarrow> offset_range \<Rightarrow> edit_range option" where
  "PositionOffsetTransformer_getRange t r = do {
     s \<leftarrow> PositionOffsetTransformer_getPosition t (or_start r);
     e \<leftarrow> PositionOffsetTransformer_getPosition t (or_end r);
     Some (Range_fromPositions s e)
   }"

definition PositionOffsetTransformer_getTextLength :: "js_string \<Rightarrow> offset_range \<Rightarrow> text_length option" where
  "PositionOffsetTransformer_getTextLength t r = do {
     g \<leftarrow> PositionOffsetTransformer_getRange t r;
     Some (TextLength_ofRange g)
   }"

section \<open>Where the lines start and end\<close>

definition lf_positions :: "js_string \<Rightarrow> nat list" where
  "lf_positions t = filter (\<lambda>i. t ! i = LF) [0..<length t]"

definition lf_line_end :: "js_string \<Rightarrow> nat \<Rightarrow> int" where
  "lf_line_end t i = (if i > 0 \<and> t ! (i - 1) = CR then int i - 1 else int i)"

lemma computeLineOffsets_loop_eq:
  "computeLineOffsets_loop t i starts ends =
    (starts @ map (\<lambda>i. int i + 1) (filter (\<lambda>i. t ! i = LF) [i..<length t]),
     ends @ map (lf_line_end t) (filter (\<lambda>i. t ! i = LF) [i..<length t]))"
proof (induction t i starts ends rule: computeLineOffsets_loop.induct)
  case (1 t i starts ends)
  show ?case
  proof (cases "i < length t")
    case True
    then have "[i..<length t] = i # [i + 1..<length t]" by (simp add: upt_conv_Cons)
    with 1 True show ?thesis
      by (simp add: computeLineOffsets_loop.simps [of t i] lf_line_end_def)
  qed (simp add: computeLineOffsets_loop.simps [of t i])
qed

lemma line_starts: "lineStartOffsetByLineIdx t = 0 # map (\<lambda>i. int i + 1) (lf_positions t)"
  by (simp add: lineStartOffsetByLineIdx_def computeLineOffsets_def computeLineOffsets_loop_eq lf_positions_def)

lemma line_ends: "lineEndOffsetByLineIdx t = map (lf_line_end t) (lf_positions t) @ [ilen t]"
  by (simp add: lineEndOffsetByLineIdx_def computeLineOffsets_def computeLineOffsets_loop_eq lf_positions_def)

lemma lf_positions_sorted: "sorted_wrt (<) (lf_positions t)"
  unfolding lf_positions_def by (rule sorted_wrt_filter) simp

lemma lf_positions_set: "i \<in> set (lf_positions t) \<longleftrightarrow> i < length t \<and> t ! i = LF"
  by (auto simp: lf_positions_def)

lemma lf_positions_nth: "k < length (lf_positions t) \<Longrightarrow> lf_positions t ! k < length t \<and> t ! (lf_positions t ! k) = LF"
  using lf_positions_set nth_mem by blast

lemma lf_positions_less: "j < k \<Longrightarrow> k < length (lf_positions t) \<Longrightarrow> lf_positions t ! j < lf_positions t ! k"
  using lf_positions_sorted by (simp add: sorted_wrt_iff_nth_less)

lemma lf_positions_append: "lf_positions (a @ b) = lf_positions a @ map ((+) (length a)) (lf_positions b)"
proof -
  have "[length a..<length a + length b] = map ((+) (length a)) [0..<length b]"
    by (rule nth_equalityI) auto
  moreover have "[0..<length a + length b] = [0..<length a] @ [length a..<length a + length b]"
    by (metis le0 upt_add_eq_append)
  moreover have "filter (\<lambda>i. (a @ b) ! i = LF) [0..<length a] = filter (\<lambda>i. a ! i = LF) [0..<length a]"
    by (rule filter_cong) (simp_all add: nth_append)
  ultimately show ?thesis
    by (simp add: lf_positions_def filter_map o_def nth_append)
qed

lemma lf_positions_Nil [simp]: "lf_positions [] = []"
  by (simp add: lf_positions_def)

lemma lf_positions_LF [simp]: "lf_positions [c] = (if c = LF then [0] else [])"
  by (simp add: lf_positions_def)

lemma length_lf_positions: "length (lf_positions t) = count_list t LF"
proof (induction t)
  case (Cons c t)
  then show ?case using lf_positions_append [of "[c]" t] by simp
qed simp

lemma lf_positions_none: "LF \<notin> set t \<Longrightarrow> lf_positions t = []"
  using length_lf_positions [of t] by (simp add: count_list_0_iff)

text \<open>The number of lines, and the offsets of the line with index \<open>k\<close>.\<close>

definition lines_count :: "js_string \<Rightarrow> nat" where
  "lines_count t = Suc (length (lf_positions t))"

definition line_start :: "js_string \<Rightarrow> nat \<Rightarrow> int" where
  "line_start t k = lineStartOffsetByLineIdx t ! k"

definition line_end :: "js_string \<Rightarrow> nat \<Rightarrow> int" where
  "line_end t k = lineEndOffsetByLineIdx t ! k"

lemma lines_lengths [simp]:
  "length (lineStartOffsetByLineIdx t) = lines_count t" "length (lineEndOffsetByLineIdx t) = lines_count t"
  by (simp_all add: line_starts line_ends lines_count_def)

lemma lines_count_pos [simp]: "0 < lines_count t"
  by (simp add: lines_count_def)

lemma line_start_0 [simp]: "line_start t 0 = 0"
  by (simp add: line_start_def line_starts)

lemma line_start_Suc: "Suc k < lines_count t \<Longrightarrow> line_start t (Suc k) = int (lf_positions t ! k) + 1"
  by (simp add: line_start_def line_starts lines_count_def)

lemma line_end_Suc: "Suc k < lines_count t \<Longrightarrow> line_end t k = lf_line_end t (lf_positions t ! k)"
  by (simp add: line_end_def line_ends lines_count_def nth_append)

lemma line_end_last: "Suc k = lines_count t \<Longrightarrow> line_end t k = ilen t"
  by (simp add: line_end_def line_ends lines_count_def nth_append)

lemma line_start_strict: "j < k \<Longrightarrow> k < lines_count t \<Longrightarrow> line_start t j < line_start t k"
proof -
  assume "j < k" "k < lines_count t"
  then obtain k' where k: "k = Suc k'" by (cases k) auto
  show ?thesis
  proof (cases j)
    case 0
    then show ?thesis using k \<open>k < lines_count t\<close> by (simp add: line_start_Suc)
  next
    case (Suc j')
    then show ?thesis using k \<open>j < k\<close> \<open>k < lines_count t\<close> lf_positions_less [of j' k' t]
      by (simp add: line_start_Suc) (simp add: lines_count_def)
  qed
qed

lemma line_start_le_end: "k < lines_count t \<Longrightarrow> 0 \<le> line_start t k \<and> line_start t k \<le> line_end t k"
proof (cases k)
  case 0
  assume k: "k < lines_count t"
  then show ?thesis using 0
    using line_end_last [of 0 t]
    by (cases "Suc 0 < lines_count t") (auto simp: line_end_Suc lf_line_end_def lines_count_def)
next
  case (Suc j)
  assume k: "k < lines_count t"
  let ?L = "lf_positions t"
  have j: "j < length ?L" using k Suc by (simp add: lines_count_def)
  show ?thesis
  proof (cases "Suc k = lines_count t")
    case True
    then show ?thesis using Suc j lf_positions_nth [OF j] k by (simp add: line_end_last line_start_Suc)
  next
    case False
    then have k': "Suc j < length ?L" using Suc k by (simp add: lines_count_def)
    have lt: "?L ! j < ?L ! Suc j" using k' by (simp add: lf_positions_less)
    have "?L ! Suc j - 1 \<noteq> ?L ! j" if "t ! (?L ! Suc j - 1) = CR"
      using that lf_positions_nth [OF j] by (metis CR_neq_LF(1))
    then show ?thesis using False Suc k lt by (auto simp: line_start_Suc line_end_Suc lf_line_end_def)
  qed
qed

lemma line_end_le: "k < lines_count t \<Longrightarrow> line_end t k \<le> ilen t"
proof (cases "Suc k = lines_count t")
  case False
  assume k: "k < lines_count t"
  then have "k < length (lf_positions t)" using False by (simp add: lines_count_def)
  then show ?thesis using False k lf_positions_nth [of k t] by (simp add: line_end_Suc lf_line_end_def)
qed (simp add: line_end_last)

text \<open>
  The only offsets in range that no position of a line denotes are those between a carriage
  return and a line feed.
\<close>

definition inside_crlf :: "js_string \<Rightarrow> int \<Rightarrow> bool" where
  "inside_crlf t offset \<longleftrightarrow>
     0 < offset \<and> offset < ilen t \<and> t ! nat (offset - 1) = CR \<and> t ! nat offset = LF"

lemma line_end_before_next:
  assumes "Suc k < lines_count t"
  shows "line_end t k < line_start t (Suc k)"
    "line_end t k < offset \<and> offset < line_start t (Suc k) \<longleftrightarrow>
      inside_crlf t offset \<and> offset + 1 = line_start t (Suc k)"
    "inside_crlf t offset \<and> offset + 1 = line_start t (Suc k) \<Longrightarrow> line_end t k = offset - 1"
proof -
  let ?i = "lf_positions t ! k"
  have i: "?i < length t" "t ! ?i = LF" using assms lf_positions_nth [of k t] by (auto simp: lines_count_def)
  have n: "nat (int ?i - 1) = ?i - 1" by simp
  show "line_end t k < line_start t (Suc k)"
    using assms by (simp add: line_end_Suc line_start_Suc lf_line_end_def)
  show "line_end t k < offset \<and> offset < line_start t (Suc k) \<longleftrightarrow>
      inside_crlf t offset \<and> offset + 1 = line_start t (Suc k)"
    using assms i n
    by (cases "offset = int ?i") (auto simp: line_end_Suc line_start_Suc lf_line_end_def inside_crlf_def nat_diff_distrib')
  show "inside_crlf t offset \<and> offset + 1 = line_start t (Suc k) \<Longrightarrow> line_end t k = offset - 1"
    using assms i n by (auto simp: line_end_Suc line_start_Suc lf_line_end_def inside_crlf_def)
qed

section \<open>Both directions\<close>

lemma PositionOffsetTransformer_textLength_eq:
  "PositionOffsetTransformer_textLength t =
    Some (MkTextLength (int (lines_count t) - 1) (ilen t - line_start t (lines_count t - 1)))"
  using lines_count_pos [of t]
  by (simp add: PositionOffsetTransformer_textLength_def line_start_def Let_def nat_diff_distrib' del: lines_count_pos)

lemma PositionOffsetTransformer_getLineLength_eq:
  "1 \<le> n \<Longrightarrow> n \<le> int (lines_count t) \<Longrightarrow>
    PositionOffsetTransformer_getLineLength t n = Some (line_end t (nat (n - 1)) - line_start t (nat (n - 1)))"
  by (simp add: PositionOffsetTransformer_getLineLength_def line_start_def line_end_def)

text \<open>The positions of a text, the place after the last character of each line included.\<close>

definition position_ok :: "js_string \<Rightarrow> position \<Rightarrow> bool" where
  "position_ok t p \<longleftrightarrow>
     1 \<le> lineNumber p \<and> lineNumber p \<le> int (lines_count t) \<and> 1 \<le> column p \<and>
     column p - 1 \<le> line_end t (nat (lineNumber p - 1)) - line_start t (nat (lineNumber p - 1))"

definition position_offset :: "js_string \<Rightarrow> position \<Rightarrow> int" where
  "position_offset t p = line_start t (nat (lineNumber p - 1)) + column p - 1"

definition clamp_position :: "js_string \<Rightarrow> position \<Rightarrow> position" where
  "clamp_position t p =
     (let len = (\<lambda>n. line_end t (nat (n - 1)) - line_start t (nat (n - 1)));
          n = int (lines_count t)
      in if lineNumber p < 1 then Position 1 1
         else if lineNumber p > n then Position n (len n + 1)
         else Position (lineNumber p) (max 1 (min (column p) (len (lineNumber p) + 1))))"

lemma validatePosition_eq: "PositionOffsetTransformer_validatePosition t p = Some (clamp_position t p)"
proof -
  have "0 \<le> line_end t (nat (n - 1)) - line_start t (nat (n - 1))" if "1 \<le> n" "n \<le> int (lines_count t)" for n
    using that line_start_le_end [of "nat (n - 1)" t] by auto
  note nonneg = this
  show ?thesis
    using lines_count_pos [of t] nonneg [of "lineNumber p"]
    by (cases p) (auto simp: PositionOffsetTransformer_validatePosition_def clamp_position_def
        PositionOffsetTransformer_textLength_eq PositionOffsetTransformer_getLineLength_eq Let_def
        simp del: lines_count_pos)
qed

lemma clamp_position_ok [simp]: "position_ok t (clamp_position t p)"
proof -
  have "0 \<le> line_end t (nat (n - 1)) - line_start t (nat (n - 1))" if "1 \<le> n" "n \<le> int (lines_count t)" for n
    using that line_start_le_end [of "nat (n - 1)" t] by auto
  note nonneg = this
  show ?thesis
    using lines_count_pos [of t] nonneg [of "lineNumber p"] nonneg [of "int (lines_count t)"] nonneg [of 1]
    by (auto simp: position_ok_def clamp_position_def Let_def max_def min_def simp del: lines_count_pos)
qed

lemma clamp_position_id: "position_ok t p \<Longrightarrow> clamp_position t p = p"
  by (cases p) (auto simp: position_ok_def clamp_position_def Let_def)

lemma PositionOffsetTransformer_getOffset_eq:
  "PositionOffsetTransformer_getOffset t p = Some (position_offset t (clamp_position t p))"
  using clamp_position_ok [of t p]
  by (simp add: PositionOffsetTransformer_getOffset_def validatePosition_eq position_ok_def position_offset_def
      line_start_def)

lemma position_offset_bounds:
  "position_ok t p \<Longrightarrow> 0 \<le> position_offset t p \<and> position_offset t p \<le> ilen t"
proof -
  assume p: "position_ok t p"
  then have "nat (lineNumber p - 1) < lines_count t" by (auto simp: position_ok_def)
  then show ?thesis
    using p line_start_le_end [of "nat (lineNumber p - 1)" t] line_end_le [of "nat (lineNumber p - 1)" t]
    by (auto simp: position_ok_def position_offset_def)
qed

lemma position_offset_less:
  assumes "position_ok t p" "position_ok t q" "p < q"
  shows "position_offset t p < position_offset t q"
proof (cases "lineNumber p = lineNumber q")
  case True
  then show ?thesis using assms(3) by (auto simp: position_offset_def position_order)
next
  case False
  let ?j = "nat (lineNumber p - 1)" and ?k = "nat (lineNumber q - 1)"
  have jk: "Suc ?j \<le> ?k" "?k < lines_count t" "Suc ?j < lines_count t"
    using assms False by (auto simp: position_ok_def position_order)
  have "position_offset t p \<le> line_end t ?j"
    using assms by (auto simp: position_ok_def position_offset_def)
  also have "\<dots> < line_start t (Suc ?j)"
    by (rule line_end_before_next(1) [OF jk(3)])
  also have "\<dots> \<le> line_start t ?k"
    using jk line_start_strict [of "Suc ?j" ?k t] by (cases "Suc ?j = ?k") auto
  also have "\<dots> \<le> position_offset t q"
    using assms by (auto simp: position_ok_def position_offset_def)
  finally show ?thesis .
qed

lemma position_offset_le_iff:
  "position_ok t p \<Longrightarrow> position_ok t q \<Longrightarrow> position_offset t p \<le> position_offset t q \<longleftrightarrow> p \<le> q"
  using position_offset_less [of t p q] position_offset_less [of t q p] by (cases p q rule: linorder_cases) auto

text \<open>The line an offset lies in, found by the binary search.\<close>

lemma getPosition_in_line:
  assumes "k < lines_count t" "line_start t k \<le> offset"
    and "Suc k < lines_count t \<Longrightarrow> offset < line_start t (Suc k)"
  shows "PositionOffsetTransformer_getPosition t offset =
    Some (Position (int k + 1) (offset - line_start t k + 1))"
proof -
  have "border (lineStartOffsetByLineIdx t) (\<lambda>i. i \<le> offset) (Suc k)"
    unfolding border_iff
  proof (intro conjI allI impI)
    show "Suc k \<le> length (lineStartOffsetByLineIdx t)" using assms(1) by simp
    fix j assume j: "j < length (lineStartOffsetByLineIdx t)"
    show "lineStartOffsetByLineIdx t ! j \<le> offset \<longleftrightarrow> j < Suc k"
    proof
      assume "j < Suc k"
      then show "lineStartOffsetByLineIdx t ! j \<le> offset"
        using assms(1,2) line_start_strict [of j k t] by (cases "j = k") (auto simp: line_start_def)
    next
      assume le: "lineStartOffsetByLineIdx t ! j \<le> offset"
      show "j < Suc k"
      proof (rule ccontr)
        assume "\<not> j < Suc k"
        then have "Suc k \<le> j" by simp
        then show False
          using j le assms(3) line_start_strict [of "Suc k" j t]
          by (cases "j = Suc k") (auto simp: line_start_def)
      qed
    qed
  qed
  from findLastIdxMonotonous_border [OF this] assms(1) show ?thesis
    by (simp add: PositionOffsetTransformer_getPosition_def Let_def line_start_def)
qed

lemma getPosition_line_exists:
  assumes "0 \<le> offset"
  obtains k where "k < lines_count t" "line_start t k \<le> offset"
    "Suc k < lines_count t \<Longrightarrow> offset < line_start t (Suc k)"
proof -
  let ?P = "\<lambda>k. k < lines_count t \<and> line_start t k \<le> offset"
  have "?P 0" using assms by simp
  then have "?P (GREATEST k. ?P k)" "\<And>j. ?P j \<Longrightarrow> j \<le> (GREATEST k. ?P k)"
    using GreatestI_nat [of ?P 0 "lines_count t"] Greatest_le_nat [of ?P _ "lines_count t"] by auto
  with that show thesis by (metis Suc_n_not_le_n not_less)
qed

lemma getPosition_negative: "offset < 0 \<Longrightarrow> PositionOffsetTransformer_getPosition t offset = None"
proof -
  assume neg: "offset < 0"
  have "border (lineStartOffsetByLineIdx t) (\<lambda>i. i \<le> offset) 0"
    using neg by (simp add: border_def line_starts list_all_iff)
  from findLastIdxMonotonous_border [OF this] show ?thesis
    by (simp add: PositionOffsetTransformer_getPosition_def Let_def js_get_def)
qed

lemma getPosition_getOffset:
  assumes "position_ok t p"
  shows "PositionOffsetTransformer_getPosition t (position_offset t p) = Some p"
proof -
  let ?k = "nat (lineNumber p - 1)"
  have "PositionOffsetTransformer_getPosition t (position_offset t p) =
      Some (Position (int ?k + 1) (position_offset t p - line_start t ?k + 1))"
  proof (rule getPosition_in_line)
    show "?k < lines_count t" "line_start t ?k \<le> position_offset t p"
      using assms by (auto simp: position_ok_def position_offset_def)
    assume "Suc ?k < lines_count t"
    then show "position_offset t p < line_start t (Suc ?k)"
      using assms line_end_before_next(1) [of ?k t] by (auto simp: position_ok_def position_offset_def)
  qed
  then show ?thesis using assms by (cases p) (auto simp: position_ok_def position_offset_def)
qed

lemma getPosition_of_offset:
  assumes "0 \<le> offset" "offset \<le> ilen t"
  shows "\<exists>p. PositionOffsetTransformer_getPosition t offset = Some p \<and>
    (position_ok t p \<longleftrightarrow> \<not> inside_crlf t offset) \<and>
    position_offset t (clamp_position t p) = (if inside_crlf t offset then offset - 1 else offset)"
proof -
  obtain k where k: "k < lines_count t" "line_start t k \<le> offset"
    "Suc k < lines_count t \<Longrightarrow> offset < line_start t (Suc k)"
    using getPosition_line_exists [OF assms(1)] by metis
  let ?p = "Position (int k + 1) (offset - line_start t k + 1)"
  have g: "PositionOffsetTransformer_getPosition t offset = Some ?p"
    by (rule getPosition_in_line [OF k])
  have le: "line_start t k \<le> line_end t k" using k line_start_le_end by blast
  show ?thesis
  proof (cases "offset \<le> line_end t k")
    case True
    have "\<not> inside_crlf t offset"
    proof (cases "Suc k < lines_count t")
      case Suc: True
      show ?thesis
      proof
        assume c: "inside_crlf t offset"
        then have "nat offset \<in> set (lf_positions t)"
          by (auto simp: inside_crlf_def lf_positions_set)
        then obtain j where j: "j < length (lf_positions t)" "lf_positions t ! j = nat offset"
          by (auto simp: in_set_conv_nth)
        then have "line_start t (Suc j) = offset + 1"
          using c by (simp add: line_start_Suc lines_count_def inside_crlf_def)
        moreover have "j = k"
        proof (rule ccontr)
          assume "j \<noteq> k"
          then consider "Suc j \<le> k" | "Suc k \<le> j" by linarith
          then show False
          proof cases
            case 1
            then show False using calculation k line_start_strict [of "Suc j" k t]
              by (cases "Suc j = k") auto
          next
            case 2
            then have "line_start t (Suc k) < line_start t (Suc j)"
              using j by (intro line_start_strict) (auto simp: lines_count_def)
            then show False using calculation k(3) [OF Suc] by simp
          qed
        qed
        ultimately show False using True line_end_before_next(3) [OF Suc, of offset] c by simp
      qed
    next
      case False
      then have last: "Suc k = lines_count t" using k by simp
      show ?thesis
      proof
        assume c: "inside_crlf t offset"
        then have "nat offset \<in> set (lf_positions t)"
          by (auto simp: inside_crlf_def lf_positions_set)
        then obtain j where j: "j < length (lf_positions t)" "lf_positions t ! j = nat offset"
          by (auto simp: in_set_conv_nth)
        then have "line_start t (Suc j) = offset + 1"
          using c by (simp add: line_start_Suc lines_count_def inside_crlf_def)
        moreover have "line_start t (Suc j) \<le> line_start t k"
          using j last line_start_strict [of "Suc j" k t] by (cases "Suc j = k") (auto simp: lines_count_def)
        ultimately show False using k by simp
      qed
    qed
    moreover have "position_ok t ?p" using True k le by (simp add: position_ok_def)
    ultimately show ?thesis using g by (simp add: clamp_position_id position_offset_def)
  next
    case False
    have Suc: "Suc k < lines_count t"
      using False assms(2) line_end_last [of k t] k(1) by (metis Suc_lessI)
    with False k have c: "inside_crlf t offset" "offset + 1 = line_start t (Suc k)"
      using line_end_before_next(2) [OF Suc, of offset] by auto
    then have e: "line_end t k = offset - 1" using line_end_before_next(3) [OF Suc] by blast
    then have "\<not> position_ok t ?p" by (simp add: position_ok_def)
    moreover have "position_offset t (clamp_position t ?p) = offset - 1"
      using e k le by (simp add: clamp_position_def position_offset_def)
    ultimately show ?thesis using g c by auto
  qed
qed

section \<open>The length of a text in UTF-16 units\<close>

definition utf16_length :: "js_string \<Rightarrow> text_length" where
  "utf16_length t = MkTextLength (int (count_list t LF)) (ilen (last_line t))"

lemma last_line_append: "LF \<notin> set t \<Longrightarrow> last_line (s @ t) = last_line s @ t"
proof -
  assume "LF \<notin> set t"
  then have "takeWhile (\<lambda>u. u \<noteq> LF) (rev t @ rev s) = rev t @ takeWhile (\<lambda>u. u \<noteq> LF) (rev s)"
    by (intro takeWhile_append2) auto
  then show ?thesis by (simp add: last_line_def)
qed

lemma utf16_length_append: "utf16_length (s @ t) = TextLength_add (utf16_length s) (utf16_length t)"
proof (cases "LF \<in> set t")
  case True
  then obtain a b where t: "t = a @ LF # b" "LF \<notin> set b" by (metis split_list_last)
  have "last_line (s @ t) = last_line t"
    unfolding t using last_line_append_LF [of "s @ a" b] last_line_append_LF [of a b] by simp
  moreover have "count_list t LF > 0" using t by simp
  ultimately show ?thesis by (simp add: utf16_length_def TextLength_add_def)
next
  case False
  then show ?thesis
    by (simp add: utf16_length_def TextLength_add_def last_line_append last_line_no_LF count_list_0_iff)
qed

lemma utf16_length_ok [simp]: "text_length_ok (utf16_length t)"
  by (simp add: utf16_length_def text_length_ok_def)

lemma utf16_length_ofText:
  "TextLength_ofText t = utf16_length t \<longleftrightarrow> no_pair (last_line t)"
  by (simp add: TextLength_ofText_eq utf16_length_def js_iterate_length_eq)

lemma line_start_prefix:
  assumes "t = s @ u"
  shows "line_start t (length (lf_positions s)) = ilen s - ilen (last_line s)"
proof (cases "LF \<in> set s")
  case True
  then obtain a b where s: "s = a @ LF # b" "LF \<notin> set b" by (metis split_list_last)
  have Ls: "lf_positions s = lf_positions a @ [length a]"
    using lf_positions_append [of a "[LF] @ b"] lf_positions_append [of "[LF]" b] s
    by (simp add: lf_positions_none)
  have Lt: "lf_positions t = lf_positions s @ map ((+) (length s)) (lf_positions u)"
    unfolding assms by (rule lf_positions_append)
  have "line_start t (Suc (length (lf_positions a))) = int (lf_positions t ! length (lf_positions a)) + 1"
    by (rule line_start_Suc) (simp add: lines_count_def Lt Ls)
  also have "lf_positions t ! length (lf_positions a) = length a"
    unfolding Lt Ls by (simp add: nth_append)
  finally show ?thesis
    unfolding Ls using s by (simp add: last_line_append_LF last_line_no_LF)
qed (simp add: lf_positions_none last_line_no_LF)

lemma getPosition_spec:
  assumes "0 \<le> offset" "offset \<le> ilen t"
  shows "PositionOffsetTransformer_getPosition t offset =
    Some (TextLength_addToPosition (utf16_length (itake offset t)) (Position 1 1))"
proof -
  let ?s = "itake offset t" and ?u = "idrop offset t"
  let ?k = "length (lf_positions ?s)"
  have t: "t = ?s @ ?u" by simp
  have len: "ilen ?s = offset" using assms by simp
  have Lt: "lf_positions t = lf_positions ?s @ map ((+) (length ?s)) (lf_positions ?u)"
    using lf_positions_append [of ?s ?u] by simp
  have start: "line_start t ?k = offset - ilen (last_line ?s)"
    using line_start_prefix [OF t] len by simp
  have "PositionOffsetTransformer_getPosition t offset =
      Some (Position (int ?k + 1) (offset - line_start t ?k + 1))"
  proof (rule getPosition_in_line)
    show "?k < lines_count t" by (simp add: lines_count_def Lt)
    show "line_start t ?k \<le> offset" using start by simp
    assume Suc: "Suc ?k < lines_count t"
    then have "?k < length (lf_positions t)" by (simp add: lines_count_def)
    then have "lf_positions t ! ?k \<ge> length ?s" unfolding Lt by (simp add: nth_append)
    then have "offset \<le> int (lf_positions t ! ?k)" using len by linarith
    then show "offset < line_start t (Suc ?k)" using Suc by (simp add: line_start_Suc)
  qed
  then show ?thesis
    using start by (simp add: TextLength_addToPosition_def utf16_length_def length_lf_positions)
qed

lemma PositionOffsetTransformer_textLength_utf16:
  "PositionOffsetTransformer_textLength t = Some (utf16_length t)"
  using line_start_prefix [of t t "[]"]
  by (simp add: PositionOffsetTransformer_textLength_eq utf16_length_def lines_count_def length_lf_positions)

text \<open>A line between two line feeds, none of its characters being part of a line break.\<close>

lemma line_at:
  assumes t: "t = a @ l @ b" and a: "a = [] \<or> last a = LF" and l: "LF \<notin> set l" "CR \<notin> set l"
    and b: "b = [] \<or> hd b = LF"
  shows "count_list a LF < lines_count t" "line_start t (count_list a LF) = ilen a"
    "line_end t (count_list a LF) = ilen a + ilen l"
proof -
  let ?k = "count_list a LF"
  have Lt: "lf_positions t = lf_positions a @ map ((+) (length (a @ l))) (lf_positions b)"
    using lf_positions_append [of "a @ l" b] lf_positions_append [of a l] lf_positions_none [OF l(1)] t by simp
  show k: "?k < lines_count t" by (simp add: lines_count_def Lt length_lf_positions)
  have "last_line a = []"
    using a by (cases a rule: rev_cases) (auto simp: last_line_def)
  then show "line_start t ?k = ilen a"
    using line_start_prefix [OF t] by (simp add: length_lf_positions)
  show "line_end t ?k = ilen a + ilen l"
  proof (cases b)
    case Nil
    then have "Suc ?k = lines_count t" by (simp add: lines_count_def Lt length_lf_positions)
    then show ?thesis using t Nil by (simp add: line_end_last)
  next
    case (Cons c b')
    then have Lb: "lf_positions b = 0 # map Suc (lf_positions b')"
      using b lf_positions_append [of "[c]" b'] by simp
    have i: "lf_positions t ! ?k = length a + length l"
      unfolding Lt Lb by (simp add: nth_append length_lf_positions)
    have Suc: "Suc ?k < lines_count t" by (simp add: lines_count_def Lt Lb length_lf_positions)
    have "t ! (length a + length l - 1) \<noteq> CR" if pos: "0 < length a + length l"
    proof (cases l rule: rev_cases)
      case Nil
      then have "a \<noteq> []" using pos by simp
      then have "t ! (length a - 1) = LF" using a t by (simp add: nth_append last_conv_nth)
      then show ?thesis using Nil by simp
    next
      case (snoc l' d)
      then have "t ! (length a + length l - 1) = d" using t by (simp add: nth_append)
      then show ?thesis using l snoc by auto
    qed
    then have "lf_line_end t (length a + length l) = ilen a + ilen l"
      by (cases "0 < length a + length l") (simp_all add: lf_line_end_def)
    then show ?thesis using i by (simp add: line_end_Suc [OF Suc])
  qed
qed

section \<open>Properties\<close>

text \<open>
  C15. Positions to offsets and back. A position of the text (a line that exists, a column up
  to the end of the line) goes to an offset within the text and \<open>getPosition\<close> brings it back,
  so \<open>getOffset\<close> is injective on positions; it preserves and reflects their order.
\<close>

theorem position_offset_roundtrip:
  assumes "position_ok t p" and "position_ok t q"
  shows "\<exists>i j. PositionOffsetTransformer_getOffset t p = Some i \<and>
    PositionOffsetTransformer_getOffset t q = Some j \<and> 0 \<le> i \<and> i \<le> ilen t \<and>
    PositionOffsetTransformer_getPosition t i = Some p \<and> (i \<le> j \<longleftrightarrow> p \<le> q)"
  using assms position_offset_bounds [of t p] getPosition_getOffset [of t p] position_offset_le_iff [of t p q]
  by (simp add: PositionOffsetTransformer_getOffset_eq clamp_position_id)

theorem position_offset_roundtrip_witness:
  "PositionOffsetTransformer_getPosition [97, 98, CR, LF, 99] 4 = Some (Position 2 1)"
proof -
  have "position_ok [97, 98, CR, LF, 99] (Position 2 1)"
    by code_simp
  from position_offset_roundtrip [OF this this]
  have "\<exists>i. PositionOffsetTransformer_getOffset [97, 98, CR, LF, 99] (Position 2 1) = Some i \<and>
      PositionOffsetTransformer_getPosition [97, 98, CR, LF, 99] i = Some (Position 2 1)"
    by blast
  moreover have "PositionOffsetTransformer_getOffset [97, 98, CR, LF, 99] (Position 2 1) = Some 4"
    by code_simp
  ultimately show ?thesis by simp
qed

text \<open>
  Offsets to positions and back. For an offset within the text, \<open>getPosition\<close> is the place
  to which the text before the offset leads from (1, 1), measured in line feeds and UTF-16
  units; \<open>getOffset\<close> of that position is the offset again, with one exception: an offset
  between a carriage return and a line feed comes back as the offset of the carriage return.
\<close>

theorem offset_position_roundtrip:
  assumes "0 \<le> offset" and "offset \<le> ilen t"
  shows "\<exists>p. PositionOffsetTransformer_getPosition t offset = Some p \<and>
    p = TextLength_addToPosition (utf16_length (itake offset t)) (Position 1 1) \<and>
    PositionOffsetTransformer_getOffset t p =
      Some (if inside_crlf t offset then offset - 1 else offset)"
proof -
  obtain p where "PositionOffsetTransformer_getPosition t offset = Some p"
    "position_offset t (clamp_position t p) = (if inside_crlf t offset then offset - 1 else offset)"
    using getPosition_of_offset [OF assms] by blast
  with getPosition_spec [OF assms] show ?thesis by (simp add: PositionOffsetTransformer_getOffset_eq)
qed

theorem offset_position_roundtrip_witness:
  "\<exists>p. PositionOffsetTransformer_getPosition [97, CR, LF] 2 = Some p \<and>
    PositionOffsetTransformer_getOffset [97, CR, LF] p = Some 1"
proof -
  have "inside_crlf [97, CR, LF] 2" by code_simp
  moreover have "(0::int) \<le> 2" "2 \<le> ilen [97, CR, LF]" by simp_all
  note offset_position_roundtrip [OF this]
  ultimately show ?thesis by auto
qed

lemma clamp_position_mono: "p \<le> q \<Longrightarrow> clamp_position t p \<le> clamp_position t q"
proof -
  assume le: "p \<le> q"
  have "0 \<le> line_end t (nat (n - 1)) - line_start t (nat (n - 1))" if "1 \<le> n" "n \<le> int (lines_count t)" for n
    using that line_start_le_end [of "nat (n - 1)" t] by auto
  note nonneg = this
  show ?thesis
    using le lines_count_pos [of t] nonneg [of "lineNumber p"] nonneg [of "lineNumber q"]
      nonneg [of "int (lines_count t)"] nonneg [of 1]
    by (auto simp: clamp_position_def Let_def position_order max_def min_def simp del: lines_count_pos)
qed

text \<open>
  \<open>getOffset\<close> is total and clamps: any position, with a line or column below 1 or beyond
  the text, goes to an offset within the text, the offset of the nearest position of the text
  on the clamped line, and \<open>getOffset\<close> is monotone, so that an ordered range of positions is
  always a valid offset range (its constructor does not throw). \<open>textLength\<close> measures the
  text in UTF-16 units; \<open>TextLength.ofText\<close> gives the same length exactly when the last line
  contains no surrogate pair.
\<close>

theorem getOffset_total:
  assumes "p \<le> q"
  shows "\<exists>i j. PositionOffsetTransformer_getOffset t p = Some i \<and>
    PositionOffsetTransformer_getOffset t q = Some j \<and> 0 \<le> i \<and> i \<le> j \<and> j \<le> ilen t \<and>
    PositionOffsetTransformer_getOffsetRange t (Range_fromPositions p q) = Some (MkOffsetRange i j) \<and>
    (\<exists>v. PositionOffsetTransformer_validatePosition t p = Some v \<and> position_ok t v \<and>
      PositionOffsetTransformer_getOffset t v = Some i \<and> (v = p \<longleftrightarrow> position_ok t p)) \<and>
    PositionOffsetTransformer_textLength t = Some (utf16_length t) \<and>
    (PositionOffsetTransformer_textLength t = Some (TextLength_ofText t) \<longleftrightarrow> no_pair (last_line t))"
proof -
  have r: "Range_getStartPosition (Range_fromPositions p q) = p" "Range_getEndPosition (Range_fromPositions p q) = q"
    using assms by (auto simp: Range_fromPositions_def Range_new_def range_ends position_order)
  have le: "position_offset t (clamp_position t p) \<le> position_offset t (clamp_position t q)"
    using clamp_position_mono [OF assms] position_offset_le_iff [of t "clamp_position t p" "clamp_position t q"] by simp
  moreover have "clamp_position t p = p \<longleftrightarrow> position_ok t p"
    using clamp_position_ok [of t p] clamp_position_id [of t p] by metis
  ultimately show ?thesis
    using position_offset_bounds [of t "clamp_position t p"] position_offset_bounds [of t "clamp_position t q"]
      utf16_length_ofText [of t]
    by (auto simp: PositionOffsetTransformer_getOffset_eq PositionOffsetTransformer_getOffsetRange_def r
        validatePosition_eq PositionOffsetTransformer_textLength_utf16 clamp_position_id)
qed

theorem getOffset_total_witness:
  "PositionOffsetTransformer_getOffsetRange [97, LF, 98] (Range_fromPositions (Position 0 7) (Position 9 0)) =
     Some (MkOffsetRange 0 3)"
proof -
  have "Position 0 7 \<le> Position 9 0" by (simp add: position_order)
  from getOffset_total [OF this, of "[97, LF, 98]"]
  have "\<exists>i j. PositionOffsetTransformer_getOffset [97, LF, 98] (Position 0 7) = Some i \<and>
      PositionOffsetTransformer_getOffset [97, LF, 98] (Position 9 0) = Some j \<and>
      PositionOffsetTransformer_getOffsetRange [97, LF, 98] (Range_fromPositions (Position 0 7) (Position 9 0)) =
        Some (MkOffsetRange i j)"
    by blast
  moreover have "PositionOffsetTransformer_getOffset [97, LF, 98] (Position 0 7) = Some 0" by code_simp
  moreover have "PositionOffsetTransformer_getOffset [97, LF, 98] (Position 9 0) = Some 3" by code_simp
  ultimately show ?thesis by simp
qed

end
