(* ===== verification/AbstractTexts.thy ===== *)
theory AbstractTexts
  imports PositionOffsets
begin

text \<open>
  \<open>vs/editor/common/core/text/abstractText.ts\<close>: a text that can be read by ranges of
  positions, held as one string (\<open>StringText\<close>) or as an array of lines (\<open>LineBasedText\<close>,
  \<open>ArrayText\<close>). The abstract class is the record of the members its methods call; the locale
  \<open>abstract_text_laws\<close> says what a text promises about the string it stands for, and both
  subclasses are interpretations of it, so a client of \<open>AbstractText\<close> cannot tell them apart.

  Reading \<open>substring\<close> or \<open>length\<close> of an \<open>undefined\<close> line throws, which is \<open>None\<close> here.
\<close>

section \<open>The code\<close>

record abstract_text =
  at_getValueOfRange :: "edit_range \<Rightarrow> js_string option"
  at_length :: "text_length option"
  at_getTransformer :: "js_string option"

definition MAX_SAFE_INTEGER :: int where
  "MAX_SAFE_INTEGER = 9007199254740991"

definition AbstractText_endPositionExclusive :: "abstract_text \<Rightarrow> position option" where
  "AbstractText_endPositionExclusive T =
     do { l \<leftarrow> at_length T; Some (TextLength_addToPosition l (Position 1 1)) }"

definition AbstractText_lineRange :: "abstract_text \<Rightarrow> line_range option" where
  "AbstractText_lineRange T = do { l \<leftarrow> at_length T; TextLength_toLineRange l }"

definition AbstractText_getValue :: "abstract_text \<Rightarrow> js_string option" where
  "AbstractText_getValue T = do { l \<leftarrow> at_length T; at_getValueOfRange T (TextLength_toRange l) }"

definition AbstractText_getValueOfOffsetRange :: "abstract_text \<Rightarrow> offset_range \<Rightarrow> js_string option" where
  "AbstractText_getValueOfOffsetRange T r = do {
     t \<leftarrow> at_getTransformer T;
     g \<leftarrow> PositionOffsetTransformer_getRange t r;
     at_getValueOfRange T g
   }"

definition AbstractText_getLineAt :: "abstract_text \<Rightarrow> int \<Rightarrow> js_string option" where
  "AbstractText_getLineAt T n = at_getValueOfRange T (Range_new n 1 n MAX_SAFE_INTEGER)"

definition AbstractText_getLineLength :: "abstract_text \<Rightarrow> int \<Rightarrow> int option" where
  "AbstractText_getLineLength T n =
     do { s \<leftarrow> at_getValueOfRange T (Range_new n 1 n MAX_SAFE_INTEGER); Some (ilen s) }"

text \<open>\<open>str.split(/\\r\\n|\\r|\\n/)\<close> of \<open>strings.ts\<close>.\<close>

fun splitLines :: "js_string \<Rightarrow> js_string list" where
  "splitLines [] = [[]]"
| "splitLines [c] = (if c = CR \<or> c = LF then [[], []] else [[c]])"
| "splitLines (c # d # s) =
     (if c = CR \<and> d = LF then [] # splitLines s
      else if c = CR \<or> c = LF then [] # splitLines (d # s)
      else (case splitLines (d # s) of l # ls \<Rightarrow> (c # l) # ls | [] \<Rightarrow> [[c]]))"

definition AbstractText_getLines :: "abstract_text \<Rightarrow> js_string list option" where
  "AbstractText_getLines T = do { v \<leftarrow> AbstractText_getValue T; Some (splitLines v) }"

definition AbstractText_getLinesOfRange :: "abstract_text \<Rightarrow> line_range \<Rightarrow> js_string list option" where
  "AbstractText_getLinesOfRange T r = those (LineRange_mapToLineArray r (AbstractText_getLineAt T))"

text \<open>\<open>same\<close> is whether the two are the same object.\<close>

definition AbstractText_equals :: "bool \<Rightarrow> abstract_text \<Rightarrow> abstract_text \<Rightarrow> bool option" where
  "AbstractText_equals same T other =
     (if same then Some True
      else do { a \<leftarrow> AbstractText_getValue T; b \<leftarrow> AbstractText_getValue other; Some (a = b) })"

text \<open>The loop over the lines strictly between the first and the last one.\<close>

function LineBasedText_loop ::
    "(int \<Rightarrow> js_string option) \<Rightarrow> int \<Rightarrow> int \<Rightarrow> js_string \<Rightarrow> js_string option" where
  "LineBasedText_loop getLineContent i e result =
     (if i < e then do {
        l \<leftarrow> getLineContent i;
        LineBasedText_loop getLineContent (i + 1) e (result @ LF # l)
      }
      else Some result)"
  by pat_completeness auto

termination
  by (relation "measure (\<lambda>(_, i, e, _). nat (e - i))") auto

declare LineBasedText_loop.simps [simp del]

definition LineBasedText_getValueOfRange ::
    "(int \<Rightarrow> js_string option) \<Rightarrow> edit_range \<Rightarrow> js_string option" where
  "LineBasedText_getValueOfRange getLineContent r =
     (if startLineNumber r = endLineNumber r then do {
        l \<leftarrow> getLineContent (startLineNumber r);
        Some (js_substring l (startColumn r - 1) (endColumn r - 1))
      }
      else do {
        l \<leftarrow> getLineContent (startLineNumber r);
        result \<leftarrow> LineBasedText_loop getLineContent (startLineNumber r + 1) (endLineNumber r)
          (js_substring_from l (startColumn r - 1));
        m \<leftarrow> getLineContent (endLineNumber r);
        Some (result @ LF # js_substring m 0 (endColumn r - 1))
      })"

definition LineBasedText_getLineLength :: "(int \<Rightarrow> js_string option) \<Rightarrow> int \<Rightarrow> int option" where
  "LineBasedText_getLineLength getLineContent n = do { l \<leftarrow> getLineContent n; Some (ilen l) }"

definition LineBasedText_length :: "(int \<Rightarrow> js_string option) \<Rightarrow> int \<Rightarrow> text_length option" where
  "LineBasedText_length getLineContent count =
     do { lastLine \<leftarrow> getLineContent count; Some (MkTextLength (count - 1) (ilen lastLine)) }"

text \<open>\<open>getTransformer\<close> is inherited: the transformer of \<open>getValue()\<close>.\<close>

definition LineBasedText :: "(int \<Rightarrow> js_string option) \<Rightarrow> int \<Rightarrow> abstract_text" where
  "LineBasedText getLineContent count =
     (let T = \<lparr>at_getValueOfRange = LineBasedText_getValueOfRange getLineContent,
               at_length = LineBasedText_length getLineContent count,
               at_getTransformer = None\<rparr>
      in T\<lparr>at_getTransformer := AbstractText_getValue T\<rparr>)"

definition LineBasedText_new :: "(int \<Rightarrow> js_string option) \<Rightarrow> int \<Rightarrow> abstract_text option" where
  "LineBasedText_new getLineContent count =
     (if count \<ge> 1 then Some (LineBasedText getLineContent count) else None)"

definition ArrayText_new :: "js_string list \<Rightarrow> abstract_text option" where
  "ArrayText_new ls = LineBasedText_new (\<lambda>n. js_get ls (n - 1)) (ilen ls)"

definition StringText_getValueOfRange :: "js_string \<Rightarrow> edit_range \<Rightarrow> js_string option" where
  "StringText_getValueOfRange v r = do {
     g \<leftarrow> PositionOffsetTransformer_getOffsetRange v r;
     Some (OffsetRange_substring g v)
   }"

definition StringText :: "js_string \<Rightarrow> abstract_text" where
  "StringText v =
     \<lparr>at_getValueOfRange = StringText_getValueOfRange v,
      at_length = PositionOffsetTransformer_textLength v,
      at_getTransformer = Some v\<rparr>"

section \<open>What a text promises\<close>

text \<open>The text between two positions, clamped as \<open>getOffset\<close> clamps them.\<close>

definition text_between :: "js_string \<Rightarrow> position \<Rightarrow> position \<Rightarrow> js_string" where
  "text_between v p q =
     (let i = position_offset v (clamp_position v p); j = position_offset v (clamp_position v q)
      in itake (j - i) (idrop i v))"

definition line_text :: "js_string \<Rightarrow> nat \<Rightarrow> js_string" where
  "line_text v k = itake (line_end v k - line_start v k) (idrop (line_start v k) v)"

definition line_texts :: "js_string \<Rightarrow> js_string list" where
  "line_texts v = map (line_text v) [0..<lines_count v]"

text \<open>A range whose lines exist in the text; its columns may be anything.\<close>

definition range_in_lines :: "js_string \<Rightarrow> edit_range \<Rightarrow> bool" where
  "range_in_lines v r \<longleftrightarrow>
     range_ok r \<and> 1 \<le> startLineNumber r \<and> endLineNumber r \<le> int (lines_count v)"

lemma end_position_ok: "position_ok v (TextLength_addToPosition (utf16_length v) (Position 1 1))"
  "position_offset v (TextLength_addToPosition (utf16_length v) (Position 1 1)) = ilen v"
proof -
  have s: "line_start v (lines_count v - 1) = ilen v - ilen (last_line v)"
    using line_start_prefix [of v v "[]"] by (simp add: lines_count_def)
  have e: "line_end v (lines_count v - 1) = ilen v"
    by (rule line_end_last) (simp add: lines_count_def)
  have p: "TextLength_addToPosition (utf16_length v) (Position 1 1) =
      Position (int (lines_count v)) (ilen (last_line v) + 1)"
    by (simp add: TextLength_addToPosition_def utf16_length_def lines_count_def length_lf_positions)
  have n: "nat (int (lines_count v) - 1) = lines_count v - 1" by simp
  show "position_ok v (TextLength_addToPosition (utf16_length v) (Position 1 1))"
    "position_offset v (TextLength_addToPosition (utf16_length v) (Position 1 1)) = ilen v"
    unfolding p position_ok_def position_offset_def using s e n lines_count_pos [of v]
    by (simp_all del: lines_count_pos)
qed

lemma toRange_ends:
  assumes "text_length_ok l"
  shows "Range_getStartPosition (TextLength_toRange l) = Position 1 1"
    "Range_getEndPosition (TextLength_toRange l) = TextLength_addToPosition l (Position 1 1)"
  using assms by (auto simp: TextLength_toRange_def TextLength_addToPosition_def Range_new_def range_ends
      text_length_ok_def)

lemma first_position_ok: "position_ok v (Position 1 1)" "position_offset v (Position 1 1) = 0"
  using line_start_le_end [of 0 v] by (simp_all add: position_ok_def position_offset_def Suc_leI)

lemma text_between_all:
  "text_between v (Position 1 1) (TextLength_addToPosition (utf16_length v) (Position 1 1)) = v"
  by (simp add: text_between_def clamp_position_id end_position_ok first_position_ok)

lemma text_between_offsets:
  "position_ok v p \<Longrightarrow> position_ok v q \<Longrightarrow>
    text_between v p q = itake (position_offset v q - position_offset v p) (idrop (position_offset v p) v)"
  by (simp add: text_between_def clamp_position_id Let_def)

lemma text_between_append:
  assumes "position_ok v p" "position_ok v q" "position_ok v r" "p \<le> q" "q \<le> r"
  shows "text_between v p q @ text_between v q r = text_between v p r"
proof -
  let ?i = "position_offset v p" and ?j = "position_offset v q" and ?k = "position_offset v r"
  have o: "0 \<le> ?i" "?i \<le> ?j" "?j \<le> ?k"
    using assms position_offset_bounds position_offset_le_iff by auto
  have "itake (?k - ?i) (idrop ?i v) = itake ((?j - ?i) + (?k - ?j)) (idrop ?i v)" by simp
  also have "\<dots> = itake (?j - ?i) (idrop ?i v) @ itake (?k - ?j) (idrop (?j - ?i) (idrop ?i v))"
    using o by (intro itake_add) auto
  also have "idrop (?j - ?i) (idrop ?i v) = idrop ?j v"
    using o by (simp add: idrop_idrop)
  finally show ?thesis using assms by (simp add: text_between_offsets)
qed

locale abstract_text_laws =
  fixes text_of :: "'x \<Rightarrow> abstract_text" and val :: "'x \<Rightarrow> js_string" and ok :: "'x \<Rightarrow> bool"
  assumes length_val: "ok x \<Longrightarrow> at_length (text_of x) = Some (utf16_length (val x))"
    and transformer_val: "ok x \<Longrightarrow> at_getTransformer (text_of x) = Some (val x)"
    and getValueOfRange_val: "ok x \<Longrightarrow> range_in_lines (val x) r \<Longrightarrow>
      at_getValueOfRange (text_of x) r =
        Some (text_between (val x) (Range_getStartPosition r) (Range_getEndPosition r))"
begin

lemma endPosition: "ok x \<Longrightarrow>
    AbstractText_endPositionExclusive (text_of x) =
      Some (TextLength_addToPosition (utf16_length (val x)) (Position 1 1))"
  by (simp add: AbstractText_endPositionExclusive_def length_val)

lemma lineRange: "ok x \<Longrightarrow>
    AbstractText_lineRange (text_of x) = Some (MkLineRange 1 (int (lines_count (val x)) + 1))"
  by (simp add: AbstractText_lineRange_def length_val TextLength_toLineRange_def LineRange_ofLength_def
      LineRange_new_def utf16_length_def lines_count_def length_lf_positions)

lemma getValue:
  assumes "ok x"
  shows "AbstractText_getValue (text_of x) = Some (val x)"
proof -
  let ?l = "utf16_length (val x)"
  have "range_in_lines (val x) (TextLength_toRange ?l)"
    by (simp add: range_in_lines_def TextLength_toRange_def)
      (auto simp: utf16_length_def lines_count_def length_lf_positions Range_new_def)
  then show ?thesis
    using assms
    by (simp add: AbstractText_getValue_def length_val getValueOfRange_val toRange_ends text_between_all)
qed

lemma getLineAt:
  assumes "ok x" "k < lines_count (val x)" "ilen (val x) < MAX_SAFE_INTEGER"
  shows "AbstractText_getLineAt (text_of x) (int k + 1) = Some (line_text (val x) k)"
proof -
  let ?v = "val x"
  let ?r = "MkRange (int k + 1) 1 (int k + 1) MAX_SAFE_INTEGER"
  have r: "Range_new (int k + 1) 1 (int k + 1) MAX_SAFE_INTEGER = ?r"
    by (simp add: Range_new_def MAX_SAFE_INTEGER_def)
  have "range_in_lines ?v ?r"
    using assms(2) by (simp add: range_in_lines_def range_ok_def range_ends position_order MAX_SAFE_INTEGER_def)
  then have "AbstractText_getLineAt (text_of x) (int k + 1) =
      Some (text_between ?v (Position (int k + 1) 1) (Position (int k + 1) MAX_SAFE_INTEGER))"
    using assms(1) by (simp add: AbstractText_getLineAt_def r getValueOfRange_val range_ends)
  moreover have "line_end ?v k - line_start ?v k + 1 \<le> MAX_SAFE_INTEGER" "line_start ?v k \<le> line_end ?v k"
    using assms line_end_le [of k ?v] line_start_le_end [of k ?v] by linarith+
  ultimately show ?thesis
    using assms(2)
    by (simp add: text_between_def clamp_position_def position_offset_def line_text_def Let_def)
qed

lemma getLinesOfRange:
  assumes "ok x" "ilen (val x) < MAX_SAFE_INTEGER"
  shows "AbstractText_getLinesOfRange (text_of x) (MkLineRange 1 (int (lines_count (val x)) + 1)) =
    Some (line_texts (val x))"
proof -
  let ?n = "lines_count (val x)"
  have "[1 .. int ?n] = map (\<lambda>k. int k + 1) [0..<?n]"
    by (rule nth_equalityI) auto
  then have "map (AbstractText_getLineAt (text_of x)) [1 .. int ?n] =
      map (\<lambda>k. Some (line_text (val x) k)) [0..<?n]"
    using assms by (simp add: getLineAt)
  moreover have "those (map (\<lambda>k. Some (f k)) ks) = Some (map f ks)" for f :: "nat \<Rightarrow> js_string" and ks
    by (induction ks) auto
  ultimately show ?thesis
    by (simp add: AbstractText_getLinesOfRange_def LineRange_mapToLineArray_def line_texts_def)
qed

lemma getValueOfOffsetRange:
  assumes "ok x" "0 \<le> i" "i \<le> j" "j \<le> ilen (val x)"
    and "\<not> inside_crlf (val x) i" "\<not> inside_crlf (val x) j"
  shows "AbstractText_getValueOfOffsetRange (text_of x) (MkOffsetRange i j) =
    Some (itake (j - i) (idrop i (val x)))"
proof -
  let ?v = "val x"
  obtain p q where p: "PositionOffsetTransformer_getPosition ?v i = Some p" "position_ok ?v p"
      "position_offset ?v (clamp_position ?v p) = i"
    and q: "PositionOffsetTransformer_getPosition ?v j = Some q" "position_ok ?v q"
      "position_offset ?v (clamp_position ?v q) = j"
    using getPosition_of_offset [of i ?v] getPosition_of_offset [of j ?v] assms by auto
  have pq: "p \<le> q"
    using p q assms(3) position_offset_le_iff [of ?v p q] by (simp add: clamp_position_id)
  then have ends: "Range_getStartPosition (Range_fromPositions p q) = p"
      "Range_getEndPosition (Range_fromPositions p q) = q"
    by (auto simp: Range_fromPositions_def Range_new_def range_ends position_order)
  have "range_in_lines ?v (Range_fromPositions p q)"
    using p q pq by (auto simp: range_in_lines_def Range_fromPositions_def position_ok_def Range_new_def
        position_order range_ok_def range_ends)
  then show ?thesis
    using assms p q ends
    by (simp add: AbstractText_getValueOfOffsetRange_def transformer_val PositionOffsetTransformer_getRange_def
        getValueOfRange_val text_between_def)
qed

end

section \<open>A string as a text\<close>

lemma StringText_getValueOfRange_ordered:
  assumes "range_ok r"
  shows "StringText_getValueOfRange v r =
    Some (text_between v (Range_getStartPosition r) (Range_getEndPosition r))"
proof -
  let ?p = "Range_getStartPosition r" and ?q = "Range_getEndPosition r"
  have "position_offset v (clamp_position v ?p) \<le> position_offset v (clamp_position v ?q)"
    using assms clamp_position_mono [of ?p ?q v]
    by (simp add: position_offset_le_iff range_ok_def)
  then show ?thesis
    using position_offset_bounds [of v "clamp_position v ?p"] position_offset_bounds [of v "clamp_position v ?q"]
    by (simp add: StringText_getValueOfRange_def PositionOffsetTransformer_getOffsetRange_def
        PositionOffsetTransformer_getOffset_eq OffsetRange_substring_def text_between_def Let_def)
qed

interpretation string_text: abstract_text_laws StringText "\<lambda>v. v" "\<lambda>_. True"
  by unfold_locales (simp_all add: StringText_def PositionOffsetTransformer_textLength_utf16
      StringText_getValueOfRange_ordered range_in_lines_def)

section \<open>An array of lines as a text\<close>

definition join_lines :: "js_string list \<Rightarrow> js_string" where
  "join_lines ls = (case ls of [] \<Rightarrow> [] | l # ms \<Rightarrow> l @ concat (map (\<lambda>m. LF # m) ms))"

definition lines_ok :: "js_string list \<Rightarrow> bool" where
  "lines_ok ls \<longleftrightarrow> ls \<noteq> [] \<and> (\<forall>l \<in> set ls. LF \<notin> set l \<and> CR \<notin> set l)"

definition ArrayText :: "js_string list \<Rightarrow> abstract_text" where
  "ArrayText ls = LineBasedText (\<lambda>n. js_get ls (n - 1)) (ilen ls)"

lemma ArrayText_new_eq: "ArrayText_new ls = (if ls = [] then None else Some (ArrayText ls))"
  by (cases ls) (simp_all add: ArrayText_new_def LineBasedText_new_def ArrayText_def)

definition lines_before :: "js_string list \<Rightarrow> js_string" where
  "lines_before ls = concat (map (\<lambda>l. l @ [LF]) ls)"

definition lines_after :: "js_string list \<Rightarrow> js_string" where
  "lines_after ls = concat (map (\<lambda>l. LF # l) ls)"

lemma lines_seam: "LF # lines_before ls = lines_after ls @ [LF]"
  by (induction ls) (simp_all add: lines_before_def lines_after_def)

lemma lines_append [simp]:
  "lines_before (ls @ ms) = lines_before ls @ lines_before ms" "lines_before [l] = l @ [LF]"
  "lines_before [] = []" "lines_after [] = []" "lines_after (l # ms) = LF # l @ lines_after ms"
  "lines_after (ls @ ms) = lines_after ls @ lines_after ms"
  by (simp_all add: lines_before_def lines_after_def)

lemma lines_before_Cons: "lines_before (l # ls) = l @ lines_after ls @ [LF]"
  using lines_seam [of ls] by (simp add: lines_before_def)

lemma join_lines_at: "k < length ls \<Longrightarrow>
    join_lines ls = lines_before (take k ls) @ ls ! k @ lines_after (drop (Suc k) ls)"
proof -
  assume k: "k < length ls"
  then have ls: "ls = take k ls @ ls ! k # drop (Suc k) ls" by (rule id_take_nth_drop)
  have "join_lines (xs @ y # zs) = lines_before xs @ y @ lines_after zs" for xs y zs
    by (cases xs) (simp_all add: join_lines_def lines_before_Cons lines_after_def)
  with ls show ?thesis by metis
qed

lemma count_lines_before:
  "\<forall>l \<in> set ls. LF \<notin> set l \<Longrightarrow> count_list (lines_before ls) LF = length ls"
  by (induction ls) (simp_all add: lines_before_def count_list_0_iff)

lemma count_lines_take:
  assumes "lines_ok ls" "k < length ls"
  shows "count_list (lines_before (take k ls)) LF = k"
proof -
  have "\<forall>l \<in> set (take k ls). LF \<notin> set l" using assms(1) by (auto simp: lines_ok_def dest: in_set_takeD)
  from count_lines_before [OF this] assms(2) show ?thesis by simp
qed

lemma lines_before_last: "lines_before ls = [] \<or> last (lines_before ls) = LF"
  by (cases ls rule: rev_cases) simp_all

lemma last_line_after_break: "a = [] \<or> last a = LF \<Longrightarrow> last_line a = []"
  by (cases a rule: rev_cases) (auto simp: last_line_def)

lemma join_lines_line:
  assumes "lines_ok ls" "k < length ls"
  shows "k < lines_count (join_lines ls)" "line_start (join_lines ls) k = ilen (lines_before (take k ls))"
    "line_end (join_lines ls) k = ilen (lines_before (take k ls)) + ilen (ls ! k)"
proof -
  let ?a = "lines_before (take k ls)" and ?b = "lines_after (drop (Suc k) ls)"
  have c: "count_list ?a LF = k"
    by (rule count_lines_take [OF assms])
  have a: "?a = [] \<or> last ?a = LF"
    by (rule lines_before_last)
  have l: "LF \<notin> set (ls ! k)" "CR \<notin> set (ls ! k)" using assms by (auto simp: lines_ok_def)
  have b: "?b = [] \<or> hd ?b = LF"
    by (cases "drop (Suc k) ls") simp_all
  note * = line_at [OF join_lines_at [OF assms(2)] a l b]
  show "k < lines_count (join_lines ls)" "line_start (join_lines ls) k = ilen ?a"
    "line_end (join_lines ls) k = ilen ?a + ilen (ls ! k)"
    using * by (simp_all add: c)
qed

lemma join_lines_count:
  assumes "lines_ok ls"
  shows "lines_count (join_lines ls) = length ls" "utf16_length (join_lines ls) = MkTextLength (ilen ls - 1) (ilen (last ls))"
proof -
  let ?k = "length ls - 1"
  have ne: "ls \<noteq> []" using assms by (simp add: lines_ok_def)
  then have k: "?k < length ls" by simp
  have "join_lines ls = lines_before (take ?k ls) @ last ls"
    using join_lines_at [OF k] ne k by (simp add: last_conv_nth)
  moreover have "count_list (lines_before (take ?k ls)) LF = ?k"
    by (rule count_lines_take [OF assms k])
  moreover have "LF \<notin> set (last ls)" using assms ne by (auto simp: lines_ok_def)
  moreover have "last_line (lines_before (take ?k ls)) = []"
    by (rule last_line_after_break [OF lines_before_last])
  ultimately show "utf16_length (join_lines ls) = MkTextLength (ilen ls - 1) (ilen (last ls))"
    "lines_count (join_lines ls) = length ls"
    using ne by (simp_all add: utf16_length_def last_line_append count_list_0_iff lines_count_def
        length_lf_positions Suc_leI of_nat_diff)
qed

lemma LineBasedText_loop_array:
  "0 \<le> i \<Longrightarrow> i \<le> j \<Longrightarrow> j \<le> length ls \<Longrightarrow>
    LineBasedText_loop (\<lambda>n. js_get ls (n - 1)) (int i + 1) (int j + 1) result =
      Some (result @ lines_after (take (j - i) (drop i ls)))"
proof (induction "j - i" arbitrary: i result)
  case 0
  then show ?case by (simp add: LineBasedText_loop.simps)
next
  case (Suc n)
  then have lt: "i < j" by simp
  with Suc have "drop i ls = ls ! i # drop (Suc i) ls" "j - i = Suc (j - Suc i)"
    by (simp_all add: Cons_nth_drop_Suc)
  moreover have "LineBasedText_loop (\<lambda>n. js_get ls (n - 1)) (int i + 1) (int j + 1) result =
      LineBasedText_loop (\<lambda>n. js_get ls (n - 1)) (int (Suc i) + 1) (int j + 1) (result @ LF # ls ! i)"
    using Suc lt by (subst LineBasedText_loop.simps) (simp add: add.commute)
  ultimately show ?case
    using Suc.hyps(1) [of "Suc i" "result @ LF # ls ! i"] Suc.hyps(2) Suc.prems by simp
qed

lemma position_offset_join:
  assumes "lines_ok ls" "1 \<le> n" "n \<le> ilen ls"
  shows "position_offset (join_lines ls) (clamp_position (join_lines ls) (Position n c)) =
    ilen (lines_before (take (nat (n - 1)) ls)) + js_clamp (ilen (ls ! nat (n - 1))) (c - 1)"
  using assms join_lines_count(1) [OF assms(1)] join_lines_line [OF assms(1), of "nat (n - 1)"]
  by (simp add: position_offset_def clamp_position_def Let_def js_clamp_def)

lemma ArrayText_getValueOfRange:
  assumes ok: "lines_ok ls" and r: "range_in_lines (join_lines ls) r"
  shows "LineBasedText_getValueOfRange (\<lambda>n. js_get ls (n - 1)) r =
    Some (text_between (join_lines ls) (Range_getStartPosition r) (Range_getEndPosition r))"
proof -
  obtain sl sc el ec where R: "r = MkRange sl sc el ec" by (cases r)
  let ?i = "nat (sl - 1)" and ?j = "nat (el - 1)"
  let ?a = "js_clamp (ilen (ls ! ?i)) (sc - 1)" and ?b = "js_clamp (ilen (ls ! ?j)) (ec - 1)"
  let ?v = "join_lines ls" and ?pre = "\<lambda>k. lines_before (take k ls)"
  have b: "1 \<le> sl" "sl \<le> el" "el \<le> ilen ls" "sl = el \<longrightarrow> sc \<le> ec"
    using r R by (auto simp: range_in_lines_def range_ok_def range_ends position_order join_lines_count(1) [OF ok])
  have oa: "position_offset ?v (clamp_position ?v (Position sl sc)) = ilen (?pre ?i) + ?a"
    and ob: "position_offset ?v (clamp_position ?v (Position el ec)) = ilen (?pre ?j) + ?b"
    using position_offset_join [OF ok] b by auto
  have ca: "0 \<le> ?a" "?a \<le> ilen (ls ! ?i)" "0 \<le> ?b" "?b \<le> ilen (ls ! ?j)"
    by (simp_all add: js_clamp_def)
  have i: "?i < length ls" "?j < length ls" using b by auto
  have gi: "js_get ls (sl - 1) = Some (ls ! ?i)" "js_get ls (el - 1) = Some (ls ! ?j)" using b by simp_all
  have between: "text_between ?v (Position sl sc) (Position el ec) =
      itake (ilen (?pre ?j) + ?b - (ilen (?pre ?i) + ?a)) (idrop (ilen (?pre ?i) + ?a) ?v)"
    by (simp add: text_between_def oa ob Let_def)
  show ?thesis
  proof (cases "sl = el")
    case True
    have "?a \<le> ?b" using b True by (auto simp: js_clamp_def)
    have "text_between ?v (Position sl sc) (Position el ec) = itake (?b - ?a) (idrop ?a (ls ! ?i))"
      unfolding between unfolding join_lines_at [OF i(1)] using True ca \<open>?a \<le> ?b\<close>
      by (simp add: idrop_append itake_append)
    moreover have "js_substring (ls ! ?i) (sc - 1) (ec - 1) = itake (?b - ?a) (idrop ?a (ls ! ?i))"
      using True \<open>?a \<le> ?b\<close> by (simp add: js_substring_def Let_def max_def min_def)
    ultimately show ?thesis
      using True gi R by (simp add: LineBasedText_getValueOfRange_def range_ends)
  next
    case False
    then have lt: "?i < ?j" using b by auto
    let ?mid = "take (?j - Suc ?i) (drop (Suc ?i) ls)"
    have tj: "take ?j ls = take ?i ls @ ls ! ?i # ?mid"
    proof -
      have "take ?j ls = take ?i ls @ take (?j - ?i) (drop ?i ls)"
        using lt by (metis le_add_diff_inverse less_imp_le take_add)
      moreover have "drop ?i ls = ls ! ?i # drop (Suc ?i) ls" using i by (simp add: Cons_nth_drop_Suc)
      moreover have "?j - ?i = Suc (?j - Suc ?i)" using lt by (rule Suc_diff_Suc [symmetric])
      ultimately show ?thesis by simp
    qed
    have pj: "?pre ?j = ?pre ?i @ ls ! ?i @ lines_after ?mid @ [LF]"
      unfolding tj by (simp add: lines_before_Cons)
    let ?body = "lines_after ?mid @ [LF]"
    have "text_between ?v (Position sl sc) (Position el ec) =
        idrop ?a (ls ! ?i) @ ?body @ itake ?b (ls ! ?j)"
      unfolding between unfolding join_lines_at [OF i(2)] pj using ca
      by (simp add: idrop_append itake_append)
    moreover have "LineBasedText_loop (\<lambda>n. js_get ls (n - 1)) (sl + 1) el result =
        Some (result @ lines_after ?mid)" for result
      using LineBasedText_loop_array [of "Suc ?i" ?j ls result] lt b i by (simp add: algebra_simps)
    moreover have "js_substring_from (ls ! ?i) (sc - 1) = idrop ?a (ls ! ?i)"
      using ca by (simp add: js_substring_from_def js_substring_def Let_def js_clamp_def)
    moreover have "js_substring (ls ! ?j) 0 (ec - 1) = itake ?b (ls ! ?j)"
      using ca by (simp add: js_substring_def Let_def) (simp add: js_clamp_def)
    ultimately show ?thesis
      using False gi R by (simp add: LineBasedText_getValueOfRange_def range_ends)
  qed
qed

lemma ArrayText_fields:
  "at_getValueOfRange (ArrayText ls) = LineBasedText_getValueOfRange (\<lambda>n. js_get ls (n - 1))"
  "at_length (ArrayText ls) = LineBasedText_length (\<lambda>n. js_get ls (n - 1)) (ilen ls)"
  "at_getTransformer (ArrayText ls) = AbstractText_getValue (ArrayText ls)"
  by (simp_all add: ArrayText_def LineBasedText_def Let_def AbstractText_getValue_def)

lemma ArrayText_length:
  assumes "lines_ok ls"
  shows "at_length (ArrayText ls) = Some (utf16_length (join_lines ls))"
proof -
  have "ls \<noteq> []" using assms by (simp add: lines_ok_def)
  then show ?thesis
    by (simp add: ArrayText_fields LineBasedText_length_def join_lines_count(2) [OF assms] last_conv_nth
        nat_diff_distrib' Suc_leI)
qed

lemma ArrayText_range:
  "lines_ok ls \<Longrightarrow> range_in_lines (join_lines ls) r \<Longrightarrow>
    at_getValueOfRange (ArrayText ls) r =
      Some (text_between (join_lines ls) (Range_getStartPosition r) (Range_getEndPosition r))"
  by (simp add: ArrayText_fields ArrayText_getValueOfRange)

lemma whole_range_in_lines: "range_in_lines v (TextLength_toRange (utf16_length v))"
  by (simp add: range_in_lines_def TextLength_toRange_def)
    (auto simp: utf16_length_def lines_count_def length_lf_positions Range_new_def)

interpretation array_text: abstract_text_laws ArrayText join_lines lines_ok
proof unfold_locales
  fix ls assume ok: "lines_ok ls"
  show "at_length (ArrayText ls) = Some (utf16_length (join_lines ls))" by (rule ArrayText_length [OF ok])
  show "at_getTransformer (ArrayText ls) = Some (join_lines ls)"
    unfolding ArrayText_fields(3)
    by (simp add: AbstractText_getValue_def ArrayText_length [OF ok] ArrayText_range [OF ok whole_range_in_lines]
        toRange_ends text_between_all)
qed (rule ArrayText_range)

section \<open>Cutting a text into lines\<close>

text \<open>Every carriage return is the first half of a line break.\<close>

fun no_lone_cr :: "js_string \<Rightarrow> bool" where
  "no_lone_cr [] = True"
| "no_lone_cr [c] = (c \<noteq> CR)"
| "no_lone_cr (c # d # s) = ((c = CR \<longrightarrow> d = LF) \<and> no_lone_cr (d # s))"

definition strip_cr :: "js_string \<Rightarrow> js_string" where
  "strip_cr l = (if l \<noteq> [] \<and> last l = CR then butlast l else l)"

lemma splitLines_break: "splitLines (LF # s) = [] # splitLines s"
  by (cases s) simp_all

lemma splitLines_plain: "c \<noteq> CR \<Longrightarrow> c \<noteq> LF \<Longrightarrow>
    splitLines (c # s) = (case splitLines s of l # ls \<Rightarrow> (c # l) # ls | [] \<Rightarrow> [[c]])"
  by (cases s) simp_all

lemma splitLines_no_break: "LF \<notin> set l \<Longrightarrow> CR \<notin> set l \<Longrightarrow> splitLines l = [l]"
  by (induction l) (auto simp: splitLines_plain)

lemma splitLines_line:
  "LF \<notin> set l \<Longrightarrow> no_lone_cr (l @ LF # s) \<Longrightarrow> splitLines (l @ LF # s) = strip_cr l # splitLines s"
proof (induction l rule: induct_list012)
  case 1
  then show ?case by (simp add: splitLines_break strip_cr_def)
next
  case (2 c)
  then show ?case by (auto simp: strip_cr_def splitLines_plain splitLines_break)
next
  case (3 c d l)
  then have "c \<noteq> CR" "c \<noteq> LF" by auto
  with 3 show ?case by (simp add: splitLines_plain strip_cr_def)
qed

lemma no_lone_cr_tail: "no_lone_cr (l @ LF # s) \<Longrightarrow> no_lone_cr s"
proof (induction l rule: induct_list012)
  case 1
  then show ?case by (cases s) auto
next
  case (2 c)
  then show ?case by (cases s) auto
qed auto

lemma no_lone_cr_last: "LF \<notin> set l \<Longrightarrow> no_lone_cr l \<Longrightarrow> CR \<notin> set l"
  by (induction l rule: induct_list012) auto

lemma line_texts_single: "LF \<notin> set v \<Longrightarrow> line_texts v = [v]"
  using line_end_last [of 0 v]
  by (simp add: line_texts_def lines_count_def lf_positions_none line_text_def)

lemma lf_positions_line:
  "LF \<notin> set l \<Longrightarrow> lf_positions (l @ LF # s) = length l # map (\<lambda>i. length l + Suc i) (lf_positions s)"
  using lf_positions_append [of l "[LF] @ s"] lf_positions_append [of "[LF]" s]
  by (simp add: lf_positions_none)

lemma line_texts_line:
  assumes l: "LF \<notin> set l"
  shows "line_texts (l @ LF # s) = strip_cr l # line_texts s"
proof -
  let ?v = "l @ LF # s"
  note L = lf_positions_line [OF l, of s]
  have n: "lines_count ?v = Suc (lines_count s)" by (simp add: lines_count_def L)
  have "line_end ?v 0 = lf_line_end ?v (length l)" by (simp add: line_end_Suc n L)
  also have "\<dots> = ilen (strip_cr l)"
    by (cases l rule: rev_cases) (auto simp: lf_line_end_def strip_cr_def nth_append)
  finally have "line_end ?v 0 = ilen (strip_cr l)" .
  moreover have "take (length (strip_cr l)) l = strip_cr l"
    by (cases l rule: rev_cases) (auto simp: strip_cr_def)
  moreover have "length (strip_cr l) \<le> length l" by (simp add: strip_cr_def)
  ultimately have first: "line_text ?v 0 = strip_cr l"
    by (simp add: line_text_def itake_def)
  have starts: "line_start ?v (Suc k) = line_start s k + ilen l + 1" if "k < lines_count s" for k
  proof (cases k)
    case 0
    then show ?thesis by (simp add: line_start_Suc n L)
  next
    case (Suc j)
    then show ?thesis using that by (simp add: line_start_Suc n L) (simp add: lines_count_def)
  qed
  have ends: "line_end ?v (Suc k) = line_end s k + ilen l + 1" if k: "k < lines_count s" for k
  proof (cases "Suc k = lines_count s")
    case True
    then show ?thesis by (simp add: line_end_last n)
  next
    case False
    then have lt: "k < length (lf_positions s)" using k by (simp add: lines_count_def)
    let ?i = "lf_positions s ! k"
    have "lf_line_end ?v (length l + Suc ?i) = lf_line_end s ?i + ilen l + 1"
      by (cases ?i) (simp_all add: lf_line_end_def nth_append)
    then show ?thesis using False lt k by (simp add: line_end_Suc n L)
  qed
  have "line_text ?v (Suc k) = line_text s k" if k: "k < lines_count s" for k
  proof -
    have "idrop (line_start s k + ilen l + 1) ?v = idrop (line_start s k) s"
      using line_start_le_end [OF k] by (simp add: idrop_append)
    then show ?thesis by (simp add: line_text_def starts [OF k] ends [OF k])
  qed
  then have "map (\<lambda>k. line_text ?v (Suc k)) [0..<lines_count s] = line_texts s"
    by (simp add: line_texts_def)
  then show ?thesis
    by (simp add: line_texts_def n upt_conv_Cons first map_Suc_upt [symmetric] o_def del: upt_Suc)
qed

lemma splitLines_line_texts: "no_lone_cr v \<Longrightarrow> splitLines v = line_texts v"
proof (induction "count_list v LF" arbitrary: v)
  case 0
  then have "LF \<notin> set v" by (simp add: count_list_0_iff)
  with 0 show ?case by (simp add: splitLines_no_break no_lone_cr_last line_texts_single)
next
  case (Suc n)
  then have "LF \<in> set v" by (metis count_list_0_iff nat.distinct(1))
  then obtain l s where v: "v = l @ LF # s" "LF \<notin> set l" by (metis split_list_first)
  with Suc have "n = count_list s LF" "no_lone_cr s"
    using no_lone_cr_tail by (auto simp: count_list_0_iff)
  with Suc v show ?case by (simp add: splitLines_line line_texts_line)
qed

section \<open>Properties\<close>

text \<open>
  C14. An array of lines and the string that joins them with line feeds are the same text: if
  no line contains a line break, \<open>ArrayText\<close> and \<open>StringText\<close> have the same length, value,
  transformer and end position, and for every ordered range whose lines exist, whatever its
  columns, they return the same string: the text between the two positions, clamped to their
  lines.
\<close>

theorem array_text_is_string_text:
  assumes "lines_ok ls" and "range_in_lines (join_lines ls) r"
  shows "ArrayText_new ls = Some (ArrayText ls) \<and>
    at_getValueOfRange (ArrayText ls) r = at_getValueOfRange (StringText (join_lines ls)) r \<and>
    at_getValueOfRange (ArrayText ls) r =
      Some (text_between (join_lines ls) (Range_getStartPosition r) (Range_getEndPosition r)) \<and>
    at_length (ArrayText ls) = at_length (StringText (join_lines ls)) \<and>
    at_getTransformer (ArrayText ls) = at_getTransformer (StringText (join_lines ls)) \<and>
    AbstractText_endPositionExclusive (ArrayText ls) = AbstractText_endPositionExclusive (StringText (join_lines ls)) \<and>
    AbstractText_equals False (ArrayText ls) (StringText (join_lines ls)) = Some True"
proof -
  have "ls \<noteq> []" using assms by (simp add: lines_ok_def)
  then show ?thesis
    using assms by (simp add: ArrayText_new_eq array_text.getValueOfRange_val string_text.getValueOfRange_val
        array_text.length_val string_text.length_val array_text.transformer_val string_text.transformer_val
        array_text.endPosition string_text.endPosition AbstractText_equals_def array_text.getValue
        string_text.getValue)
qed

theorem array_text_is_string_text_witness:
  "at_getValueOfRange (ArrayText [[97, 98], [99]]) (MkRange 1 2 2 9) = Some [98, LF, 99]"
proof -
  have "lines_ok [[97, 98], [99]]" by (simp add: lines_ok_def LF_def CR_def)
  moreover have "range_in_lines (join_lines [[97, 98], [99]]) (MkRange 1 2 2 9)" by code_simp
  ultimately have "at_getValueOfRange (ArrayText [[97, 98], [99]]) (MkRange 1 2 2 9) =
      at_getValueOfRange (StringText (join_lines [[97, 98], [99]])) (MkRange 1 2 2 9)"
    using array_text_is_string_text by blast
  also have "\<dots> = Some [98, LF, 99]" by code_simp
  finally show ?thesis .
qed

text \<open>
  Reading a string as a text. \<open>getValue\<close> is the string; an offset range whose ends are not
  between a carriage return and a line feed reads the substring; and when every carriage return
  belongs to a line break, \<open>getLines\<close> is the list of \<open>getLineAt\<close> over \<open>lineRange\<close>. A lone
  carriage return breaks that agreement: \<open>getLines\<close> splits there, the other members do not.
\<close>

theorem string_text_reads:
  assumes "0 \<le> i" and "i \<le> j" and "j \<le> ilen v" and "\<not> inside_crlf v i" and "\<not> inside_crlf v j"
    and "no_lone_cr v" and "ilen v < MAX_SAFE_INTEGER"
  shows "AbstractText_getValue (StringText v) = Some v \<and>
    AbstractText_getValueOfOffsetRange (StringText v) (MkOffsetRange i j) = Some (js_substring v i j) \<and>
    (\<exists>r. AbstractText_lineRange (StringText v) = Some r \<and>
      AbstractText_getLinesOfRange (StringText v) r = AbstractText_getLines (StringText v)) \<and>
    AbstractText_getLines (StringText [97, CR, 98]) = Some [[97], [98]] \<and>
    AbstractText_lineRange (StringText [97, CR, 98]) = Some (MkLineRange 1 2)"
proof -
  have "AbstractText_lineRange (StringText [97, CR, 98]) = Some (MkLineRange 1 2)"
    by code_simp
  moreover have "AbstractText_getLines (StringText [97, CR, 98]) = Some [[97], [98]]"
    by (simp add: AbstractText_getLines_def string_text.getValue) (simp add: CR_def LF_def)
  ultimately show ?thesis
    using assms by (simp add: string_text.getValue string_text.getValueOfOffsetRange string_text.lineRange
        string_text.getLinesOfRange AbstractText_getLines_def splitLines_line_texts)
qed

theorem string_text_reads_witness:
  "AbstractText_getValueOfOffsetRange (StringText [97, CR, LF, 98]) (MkOffsetRange 1 4) = Some [CR, LF, 98]"
proof -
  have "(0::int) \<le> 1" "(1::int) \<le> 4" "4 \<le> ilen [97, CR, LF, 98]"
    "\<not> inside_crlf [97, CR, LF, 98] 1" "\<not> inside_crlf [97, CR, LF, 98] 4" "no_lone_cr [97, CR, LF, 98]"
    "ilen [97, CR, LF, 98] < MAX_SAFE_INTEGER"
    by (simp_all add: inside_crlf_def MAX_SAFE_INTEGER_def CR_def LF_def)
  from string_text_reads [OF this]
  have "AbstractText_getValueOfOffsetRange (StringText [97, CR, LF, 98]) (MkOffsetRange 1 4) =
      Some (js_substring [97, CR, LF, 98] 1 4)"
    by blast
  then show ?thesis by simp
qed

end
