(* ===== verification/TextEdits.thy ===== *)
theory TextEdits
  imports AbstractTexts StringEdits
begin

text \<open>
  \<open>vs/editor/common/core/edits/textEdit.ts\<close> and \<open>ranges/rangeMapping.ts\<close>,
  \<open>ranges/columnRange.ts\<close>: edits that
  replace ranges of positions of a text, without the method \<open>compose\<close> and the two
  \<open>toString\<close>. A \<open>TextEdit\<close> is the list of its replacements. Its constructor checks that the
  ranges are sorted, but \<open>assertFn\<close> only reports a violation, so the check is the predicate
  \<open>TextEdit_check\<close> and no operation fails because of it. \<open>mapPosition\<close> returns a position or
  a range, a value of a sum type.

  The specification of a text edit on a text \<open>v\<close> is the abstract edit \<open>tview v E\<close> of the
  offsets its positions stand for.
\<close>

section \<open>TextReplacement\<close>

datatype text_replacement = MkTextReplacement (tr_range: edit_range) (tr_text: js_string)

type_synonym text_edit = "text_replacement list"

definition TextReplacement_delete :: "edit_range \<Rightarrow> text_replacement" where
  "TextReplacement_delete r = MkTextReplacement r []"

definition TextReplacement_isEmpty :: "text_replacement \<Rightarrow> bool" where
  "TextReplacement_isEmpty r \<longleftrightarrow> Range_isEmpty (tr_range r) \<and> length (tr_text r) = 0"

definition TextReplacement_equals :: "text_replacement \<Rightarrow> text_replacement \<Rightarrow> bool" where
  "TextReplacement_equals a b \<longleftrightarrow>
     Range_equalsRange (Some (tr_range a)) (Some (tr_range b)) \<and> tr_text a = tr_text b"

definition TextReplacement_toEdit :: "text_replacement \<Rightarrow> text_edit" where
  "TextReplacement_toEdit r = [r]"

definition TextReplacement_fromStringReplacement ::
    "string_replacement \<Rightarrow> abstract_text \<Rightarrow> text_replacement option" where
  "TextReplacement_fromStringReplacement r initialState = do {
     t \<leftarrow> at_getTransformer initialState;
     g \<leftarrow> PositionOffsetTransformer_getRange t (sr_range r);
     Some (MkTextReplacement g (sr_newText r))
   }"

text \<open>The loop that \<open>joinReplacements\<close> and \<open>toReplacement\<close> share.\<close>

fun joinReplacements_loop :: "abstract_text \<Rightarrow> text_replacement list \<Rightarrow> js_string \<Rightarrow> js_string option" where
  "joinReplacements_loop T [] newText = Some newText"
| "joinReplacements_loop T [cur] newText = Some (newText @ tr_text cur)"
| "joinReplacements_loop T (cur # nxt # rs) newText = do {
     gapText \<leftarrow> at_getValueOfRange T
       (Range_fromPositions (Range_getEndPosition (tr_range cur)) (Range_getStartPosition (tr_range nxt)));
     joinReplacements_loop T (nxt # rs) (newText @ tr_text cur @ gapText)
   }"

definition TextReplacement_joinReplacements ::
    "text_replacement list \<Rightarrow> abstract_text \<Rightarrow> text_replacement option" where
  "TextReplacement_joinReplacements rs initialValue =
     (case rs of [] \<Rightarrow> None
      | [r] \<Rightarrow> Some r
      | r # _ \<Rightarrow> do {
          newText \<leftarrow> joinReplacements_loop initialValue rs [];
          Some (MkTextReplacement
            (Range_fromPositions (Range_getStartPosition (tr_range r))
              (Range_getEndPosition (tr_range (last rs)))) newText)
        })"

definition TextReplacement_extendToCoverRange ::
    "text_replacement \<Rightarrow> edit_range \<Rightarrow> abstract_text \<Rightarrow> text_replacement option" where
  "TextReplacement_extendToCoverRange r g initialValue =
     (if Range_containsRange (tr_range r) g then Some r
      else let newRange = Range_plusRange (tr_range r) g in do {
        textBefore \<leftarrow> at_getValueOfRange initialValue
          (Range_fromPositions (Range_getStartPosition newRange) (Range_getStartPosition (tr_range r)));
        textAfter \<leftarrow> at_getValueOfRange initialValue
          (Range_fromPositions (Range_getEndPosition (tr_range r)) (Range_getEndPosition newRange));
        Some (MkTextReplacement newRange (textBefore @ tr_text r @ textAfter))
      })"

definition TextReplacement_extendToFullLine ::
    "text_replacement \<Rightarrow> abstract_text \<Rightarrow> text_replacement option" where
  "TextReplacement_extendToFullLine r initialValue = do {
     t \<leftarrow> at_getTransformer initialValue;
     len \<leftarrow> PositionOffsetTransformer_getLineLength t (endLineNumber (tr_range r));
     TextReplacement_extendToCoverRange r
       (Range_new (startLineNumber (tr_range r)) 1 (endLineNumber (tr_range r)) (len + 1)) initialValue
   }"

text \<open>\<open>s.replaceAll('\\r\\n', '\\n')\<close>.\<close>

fun replaceAll_crlf :: "js_string \<Rightarrow> js_string" where
  "replaceAll_crlf (c # d # s) =
     (if c = CR \<and> d = LF then LF # replaceAll_crlf s else c # replaceAll_crlf (d # s))"
| "replaceAll_crlf s = s"

definition TextReplacement_removeCommonPrefix ::
    "text_replacement \<Rightarrow> abstract_text \<Rightarrow> text_replacement option" where
  "TextReplacement_removeCommonPrefix r T = do {
     original \<leftarrow> at_getValueOfRange T (tr_range r);
     let normalizedOriginalText = replaceAll_crlf original;
         normalizedModifiedText = replaceAll_crlf (tr_text r);
         commonPrefixLen = int (commonPrefixLength normalizedOriginalText normalizedModifiedText);
         start = TextLength_addToPosition
           (TextLength_ofText (js_substring normalizedOriginalText 0 commonPrefixLen))
           (Range_getStartPosition (tr_range r))
     in Some (MkTextReplacement (Range_fromPositions start (Range_getEndPosition (tr_range r)))
          (js_substring_from normalizedModifiedText commonPrefixLen))
   }"

definition TextReplacement_removeCommonSuffix ::
    "text_replacement \<Rightarrow> abstract_text \<Rightarrow> text_replacement option" where
  "TextReplacement_removeCommonSuffix r T = do {
     original \<leftarrow> at_getValueOfRange T (tr_range r);
     let normalizedOriginalText = replaceAll_crlf original;
         normalizedModifiedText = replaceAll_crlf (tr_text r);
         commonSuffixLen = int (commonSuffixLength normalizedOriginalText normalizedModifiedText);
         e = TextLength_addToPosition
           (TextLength_ofText (js_substring normalizedOriginalText 0
              (ilen normalizedOriginalText - commonSuffixLen)))
           (Range_getStartPosition (tr_range r))
     in Some (MkTextReplacement (Range_fromPositions (Range_getStartPosition (tr_range r)) e)
          (js_substring normalizedModifiedText 0 (ilen normalizedModifiedText - commonSuffixLen)))
   }"

definition TextReplacement_removeCommonPrefixAndSuffix ::
    "text_replacement \<Rightarrow> abstract_text \<Rightarrow> text_replacement option" where
  "TextReplacement_removeCommonPrefixAndSuffix r T = do {
     prefix \<leftarrow> TextReplacement_removeCommonPrefix r T;
     TextReplacement_removeCommonSuffix prefix T
   }"

definition TextReplacement_isEffectiveDeletion :: "text_replacement \<Rightarrow> abstract_text \<Rightarrow> bool option" where
  "TextReplacement_isEffectiveDeletion r T = do {
     original \<leftarrow> at_getValueOfRange T (tr_range r);
     let newText = replaceAll_crlf (tr_text r);
         existingText = replaceAll_crlf original;
         l = int (commonPrefixLength newText existingText);
         newText = js_substring_from newText l;
         existingText = js_substring_from existingText l;
         r = int (commonSuffixLength newText existingText);
         newText = js_substring newText 0 (ilen newText - r)
     in Some (newText = [])
   }"

section \<open>TextEdit\<close>

fun checkAdjacentItems :: "'a list \<Rightarrow> ('a \<Rightarrow> 'a \<Rightarrow> bool) \<Rightarrow> bool" where
  "checkAdjacentItems (a # b # xs) p = (if \<not> p a b then False else checkAdjacentItems (b # xs) p)"
| "checkAdjacentItems _ p = True"

definition TextEdit_check :: "text_edit \<Rightarrow> bool" where
  "TextEdit_check E \<longleftrightarrow>
     checkAdjacentItems E (\<lambda>a b. Position_isBeforeOrEqual
       (Range_getEndPosition (tr_range a)) (Range_getStartPosition (tr_range b)))"

definition TextEdit_fromStringEdit :: "string_edit \<Rightarrow> abstract_text \<Rightarrow> text_edit option" where
  "TextEdit_fromStringEdit E initialState =
     those (map (\<lambda>e. TextReplacement_fromStringReplacement e initialState) E)"

definition TextEdit_replace :: "edit_range \<Rightarrow> js_string \<Rightarrow> text_edit" where
  "TextEdit_replace r t = [MkTextReplacement r t]"

definition TextEdit_delete :: "edit_range \<Rightarrow> text_edit" where
  "TextEdit_delete r = [MkTextReplacement r []]"

definition TextEdit_insert :: "position \<Rightarrow> js_string \<Rightarrow> text_edit" where
  "TextEdit_insert p t = [MkTextReplacement (Range_fromPositions p p) t]"

text \<open>\<open>Array.prototype.sort\<close> with a comparator, which is stable.\<close>

fun insort_by :: "('a \<Rightarrow> 'a \<Rightarrow> int) \<Rightarrow> 'a \<Rightarrow> 'a list \<Rightarrow> 'a list" where
  "insort_by cmp x [] = [x]"
| "insort_by cmp x (y # ys) = (if cmp x y \<le> 0 then x # y # ys else y # insort_by cmp x ys)"

definition js_sort :: "('a \<Rightarrow> 'a \<Rightarrow> int) \<Rightarrow> 'a list \<Rightarrow> 'a list" where
  "js_sort cmp xs = foldr (insort_by cmp) xs []"

definition TextEdit_fromParallelReplacementsUnsorted :: "text_replacement list \<Rightarrow> text_edit" where
  "TextEdit_fromParallelReplacementsUnsorted rs =
     js_sort (\<lambda>a b. Range_compareRangesUsingStarts (Some (tr_range a)) (Some (tr_range b))) rs"

fun TextEdit_normalize_loop :: "text_replacement list \<Rightarrow> text_replacement list \<Rightarrow> text_edit" where
  "TextEdit_normalize_loop [] out = out"
| "TextEdit_normalize_loop (r # rs) out =
     (if out \<noteq> [] \<and>
         Range_getEndPosition (tr_range (last out)) = Range_getStartPosition (tr_range r)
      then let lst = last out in
        TextEdit_normalize_loop rs (butlast out @
          [MkTextReplacement (Range_plusRange (tr_range lst) (tr_range r)) (tr_text lst @ tr_text r)])
      else if \<not> TextReplacement_isEmpty r then TextEdit_normalize_loop rs (out @ [r])
      else TextEdit_normalize_loop rs out)"

definition TextEdit_normalize :: "text_edit \<Rightarrow> text_edit" where
  "TextEdit_normalize E = TextEdit_normalize_loop E []"

definition rangeFromPositions :: "position \<Rightarrow> position \<Rightarrow> edit_range option" where
  "rangeFromPositions s e =
     (if lineNumber s = lineNumber e \<and> column s = MAX_SAFE_INTEGER then Some (Range_fromPositions e e)
      else if \<not> Position_isBeforeOrEqual s e then None
      else Some (Range_new (lineNumber s) (column s) (lineNumber e) (column e)))"

text \<open>One turn of the loop of \<open>mapPosition\<close> that neither breaks nor returns.\<close>

definition mapPosition_step :: "edit_range \<Rightarrow> text_length \<Rightarrow> int \<Rightarrow> int \<Rightarrow> int \<Rightarrow> int \<times> int \<times> int" where
  "mapPosition_step g len lineDelta curLine columnDeltaInCurLine =
     (let start = Range_getStartPosition g; e = Range_getEndPosition g;
          cd = (if lineNumber start + lineDelta \<noteq> curLine then 0 else columnDeltaInCurLine);
          lineDelta' = lineDelta + (lineCount len - (endLineNumber g - startLineNumber g));
          cd' = (if lineCount len = 0
                 then if lineNumber e \<noteq> lineNumber start
                      then cd + (columnCount len - (column e - 1))
                      else cd + (columnCount len - (column e - column start))
                 else columnCount len)
      in (lineDelta', lineNumber e + lineDelta', cd'))"

fun mapPosition_loop ::
    "text_replacement list \<Rightarrow> position \<Rightarrow> int \<Rightarrow> int \<Rightarrow> int \<Rightarrow> (position + edit_range) option" where
  "mapPosition_loop [] p lineDelta curLine cd =
     Some (Inl (Position (lineNumber p + lineDelta)
       (column p + (if lineNumber p + lineDelta = curLine then cd else 0))))"
| "mapPosition_loop (r # rs) p lineDelta curLine cd =
     (let start = Range_getStartPosition (tr_range r);
          e = Range_getEndPosition (tr_range r);
          len = TextLength_ofText (tr_text r)
      in if Position_isBeforeOrEqual p start
         then Some (Inl (Position (lineNumber p + lineDelta)
           (column p + (if lineNumber p + lineDelta = curLine then cd else 0))))
         else if Position_isBefore p e then
           let startPos = Position (lineNumber start + lineDelta)
                 (column start + (if lineNumber start + lineDelta = curLine then cd else 0));
               endPos = TextLength_addToPosition len startPos
           in map_option Inr (rangeFromPositions startPos endPos)
         else let (lineDelta', curLine', cd') = mapPosition_step (tr_range r) len lineDelta curLine cd
           in mapPosition_loop rs p lineDelta' curLine' cd')"

definition TextEdit_mapPosition :: "text_edit \<Rightarrow> position \<Rightarrow> (position + edit_range) option" where
  "TextEdit_mapPosition E p = mapPosition_loop E p 0 0 0"

definition TextEdit_mapRange :: "text_edit \<Rightarrow> edit_range \<Rightarrow> edit_range option" where
  "TextEdit_mapRange E r = do {
     s \<leftarrow> TextEdit_mapPosition E (Range_getStartPosition r);
     e \<leftarrow> TextEdit_mapPosition E (Range_getEndPosition r);
     rangeFromPositions (case s of Inl p \<Rightarrow> p | Inr g \<Rightarrow> Range_getStartPosition g)
       (case e of Inl p \<Rightarrow> p | Inr g \<Rightarrow> Range_getEndPosition g)
   }"

fun TextEdit_apply_loop :: "abstract_text \<Rightarrow> text_replacement list \<Rightarrow> position \<Rightarrow> js_string \<Rightarrow> js_string option" where
  "TextEdit_apply_loop T [] lastEditEnd result = do {
     e \<leftarrow> AbstractText_endPositionExclusive T;
     r \<leftarrow> rangeFromPositions lastEditEnd e;
     if \<not> Range_isEmpty r then do { s \<leftarrow> at_getValueOfRange T r; Some (result @ s) } else Some result
   }"
| "TextEdit_apply_loop T (x # xs) lastEditEnd result = do {
     r \<leftarrow> rangeFromPositions lastEditEnd (Range_getStartPosition (tr_range x));
     s \<leftarrow> (if \<not> Range_isEmpty r then at_getValueOfRange T r else Some []);
     TextEdit_apply_loop T xs (Range_getEndPosition (tr_range x)) (result @ s @ tr_text x)
   }"

definition TextEdit_apply :: "text_edit \<Rightarrow> abstract_text \<Rightarrow> js_string option" where
  "TextEdit_apply E T = TextEdit_apply_loop T E (Position 1 1) []"

definition TextEdit_applyToString :: "text_edit \<Rightarrow> js_string \<Rightarrow> js_string option" where
  "TextEdit_applyToString E str = TextEdit_apply E (StringText str)"

fun TextEdit_getNewRanges_loop :: "text_replacement list \<Rightarrow> int \<Rightarrow> int \<Rightarrow> int \<Rightarrow> edit_range list" where
  "TextEdit_getNewRanges_loop [] previousEditEndLineNumber lineOffset columnOffset = []"
| "TextEdit_getNewRanges_loop (r # rs) previousEditEndLineNumber lineOffset columnOffset =
     (let textLength = TextLength_ofText (tr_text r);
          newRangeStart = Position (startLineNumber (tr_range r) + lineOffset)
            (startColumn (tr_range r) +
              (if startLineNumber (tr_range r) = previousEditEndLineNumber then columnOffset else 0));
          newRange = TextLength_createRange textLength newRangeStart
      in newRange # TextEdit_getNewRanges_loop rs (endLineNumber (tr_range r))
           (endLineNumber newRange - endLineNumber (tr_range r))
           (endColumn newRange - endColumn (tr_range r)))"

definition TextEdit_getNewRanges :: "text_edit \<Rightarrow> edit_range list" where
  "TextEdit_getNewRanges E = TextEdit_getNewRanges_loop E 0 0 0"

definition TextEdit_inverse :: "text_edit \<Rightarrow> abstract_text \<Rightarrow> text_edit option" where
  "TextEdit_inverse E doc =
     (let ranges = TextEdit_getNewRanges E
      in those (map2 (\<lambda>e g. do {
           s \<leftarrow> at_getValueOfRange doc (tr_range e);
           Some (MkTextReplacement g s)
         }) E ranges))"

definition TextEdit_inverseMapPosition ::
    "text_edit \<Rightarrow> position \<Rightarrow> abstract_text \<Rightarrow> (position + edit_range) option" where
  "TextEdit_inverseMapPosition E p doc =
     do { reversed \<leftarrow> TextEdit_inverse E doc; TextEdit_mapPosition reversed p }"

definition TextEdit_inverseMapRange :: "text_edit \<Rightarrow> edit_range \<Rightarrow> abstract_text \<Rightarrow> edit_range option" where
  "TextEdit_inverseMapRange E r doc =
     do { reversed \<leftarrow> TextEdit_inverse E doc; TextEdit_mapRange reversed r }"

definition TextEdit_toReplacement :: "text_edit \<Rightarrow> abstract_text \<Rightarrow> text_replacement option" where
  "TextEdit_toReplacement E T =
     (case E of [] \<Rightarrow> None
      | [r] \<Rightarrow> Some r
      | r # _ \<Rightarrow> do {
          newText \<leftarrow> joinReplacements_loop T E [];
          Some (MkTextReplacement
            (Range_fromPositions (Range_getStartPosition (tr_range r))
              (Range_getEndPosition (tr_range (last E)))) newText)
        })"

text \<open>\<open>equals\<close> of \<open>arrays.ts\<close> on two arrays of the same length compares them element-wise.\<close>

definition TextEdit_equals :: "text_edit \<Rightarrow> text_edit \<Rightarrow> bool" where
  "TextEdit_equals E F \<longleftrightarrow> length E = length F \<and> list_all2 TextReplacement_equals E F"

text \<open>The translations of \<open>PositionOffsetTransformerBase\<close> between the two kinds of edits.\<close>

definition PositionOffsetTransformer_getStringReplacement ::
    "js_string \<Rightarrow> text_replacement \<Rightarrow> string_replacement option" where
  "PositionOffsetTransformer_getStringReplacement t e = do {
     g \<leftarrow> PositionOffsetTransformer_getOffsetRange t (tr_range e);
     Some (MkStringReplacement g (tr_text e))
   }"

definition PositionOffsetTransformer_getStringEdit :: "js_string \<Rightarrow> text_edit \<Rightarrow> string_edit option" where
  "PositionOffsetTransformer_getStringEdit t E = do {
     edits \<leftarrow> those (map (PositionOffsetTransformer_getStringReplacement t) E);
     StringEdit_new edits
   }"

definition PositionOffsetTransformer_getTextReplacement ::
    "js_string \<Rightarrow> string_replacement \<Rightarrow> text_replacement option" where
  "PositionOffsetTransformer_getTextReplacement t e = do {
     g \<leftarrow> PositionOffsetTransformer_getRange t (sr_range e);
     Some (MkTextReplacement g (sr_newText e))
   }"

definition PositionOffsetTransformer_getTextEdit :: "js_string \<Rightarrow> string_edit \<Rightarrow> text_edit option" where
  "PositionOffsetTransformer_getTextEdit t E =
     those (map (PositionOffsetTransformer_getTextReplacement t) E)"

section \<open>RangeMapping and ColumnRange\<close>

datatype single_range_mapping = MkSingleRangeMapping (srm_original: edit_range) (srm_modified: edit_range)

definition SingleRangeMapping_reverse :: "single_range_mapping \<Rightarrow> single_range_mapping" where
  "SingleRangeMapping_reverse m = MkSingleRangeMapping (srm_modified m) (srm_original m)"

definition RangeMapping_mapPosition :: "single_range_mapping list \<Rightarrow> position \<Rightarrow> position + edit_range" where
  "RangeMapping_mapPosition mappings p =
     (case findLastMonotonous mappings
             (\<lambda>m. Position_isBeforeOrEqual (Range_getStartPosition (srm_original m)) p) of
        None \<Rightarrow> Inl p
      | Some mapping \<Rightarrow>
          if Range_containsPosition (srm_original mapping) p then Inr (srm_modified mapping)
          else let l = TextLength_betweenPositions (Range_getEndPosition (srm_original mapping)) p
            in Inl (TextLength_addToPosition l (Range_getEndPosition (srm_modified mapping))))"

definition RangeMapping_mapRange :: "single_range_mapping list \<Rightarrow> edit_range \<Rightarrow> edit_range" where
  "RangeMapping_mapRange mappings r =
     (let s = RangeMapping_mapPosition mappings (Range_getStartPosition r);
          e = RangeMapping_mapPosition mappings (Range_getEndPosition r)
      in Range_fromPositions (case s of Inr g \<Rightarrow> Range_getStartPosition g | Inl p \<Rightarrow> p)
           (case e of Inr g \<Rightarrow> Range_getEndPosition g | Inl p \<Rightarrow> p))"

definition RangeMapping_reverse :: "single_range_mapping list \<Rightarrow> single_range_mapping list" where
  "RangeMapping_reverse mappings = map SingleRangeMapping_reverse mappings"

datatype column_range = MkColumnRange (cr_startColumn: int) (cr_endColumnExclusive: int)

definition ColumnRange_new :: "int \<Rightarrow> int \<Rightarrow> column_range option" where
  "ColumnRange_new s e = (if s > e then None else Some (MkColumnRange s e))"

definition ColumnRange_fromOffsetRange :: "offset_range \<Rightarrow> column_range option" where
  "ColumnRange_fromOffsetRange r = ColumnRange_new (or_start r + 1) (or_end r + 1)"

definition ColumnRange_toRange :: "column_range \<Rightarrow> int \<Rightarrow> edit_range" where
  "ColumnRange_toRange c n = Range_new n (cr_startColumn c) n (cr_endColumnExclusive c)"

definition ColumnRange_equals :: "column_range \<Rightarrow> column_range \<Rightarrow> bool" where
  "ColumnRange_equals c d \<longleftrightarrow>
     cr_startColumn c = cr_startColumn d \<and> cr_endColumnExclusive c = cr_endColumnExclusive d"

definition ColumnRange_toZeroBasedOffsetRange :: "column_range \<Rightarrow> offset_range option" where
  "ColumnRange_toZeroBasedOffsetRange c =
     OffsetRange_new (cr_startColumn c - 1) (cr_endColumnExclusive c - 1)"

end
