(* ===== verification/TextEditProperties.thy ===== *)
theory TextEditProperties
  imports TextEdits
begin

text \<open>
  What the text edits of \<open>textEdit.ts\<close> do, over any \<open>AbstractText\<close>: applying one is applying
  the string edit of its offsets, normalizing keeps the effect, the new ranges are where the
  new texts lie, and the inverse restores the text. The last two depend on
  \<open>TextLength.ofText\<close>, which counts a surrogate pair as one column; the theorems assume that
  the last line of no inserted text contains one, and a counterexample shows the need.
\<close>

section \<open>Positions and what lies before them\<close>

definition reach :: "js_string \<Rightarrow> position" where
  "reach P = TextLength_addToPosition (utf16_length P) (Position 1 1)"

lemma reach_Nil [simp]: "reach [] = Position 1 1"
  by (simp add: reach_def utf16_length_def last_line_def TextLength_addToPosition_def)

lemma utf16_lineCount_nonneg [simp]: "0 \<le> lineCount (utf16_length t)"
  by (simp add: utf16_length_def)

lemma reach_append: "reach (P @ Q) = TextLength_addToPosition (utf16_length Q) (reach P)"
  by (simp add: reach_def utf16_length_append TextLength_addToPosition_add)

lemma reach_position: "position_ok v p \<Longrightarrow> reach (itake (position_offset v p) v) = p"
  using getPosition_spec [of "position_offset v p" v] position_offset_bounds [of v p] getPosition_getOffset [of v p]
  by (simp add: reach_def)

lemma reach_in:
  assumes "w = P @ Q" "\<not> inside_crlf w (ilen P)"
  shows "position_ok w (reach P)" "position_offset w (reach P) = ilen P"
proof -
  have P: "itake (ilen P) w = P" by (simp add: assms(1) itake_append)
  have b: "0 \<le> ilen P" "ilen P \<le> ilen w" by (simp_all add: assms(1))
  have "PositionOffsetTransformer_getPosition w (ilen P) = Some (reach P)"
    using getPosition_spec [OF b] by (simp add: P reach_def)
  then show ok: "position_ok w (reach P)" and "position_offset w (reach P) = ilen P"
    using getPosition_of_offset [OF b] assms(2) by (auto simp: clamp_position_id)
qed

lemma utf16_between:
  assumes "position_ok v p" "position_ok v q" "p \<le> q"
  shows "utf16_length (text_between v p q) = TextLength_betweenPositions p q"
proof -
  let ?i = "position_offset v p" and ?j = "position_offset v q"
  have o: "0 \<le> ?i" "?i \<le> ?j" using assms position_offset_bounds position_offset_le_iff by auto
  have "itake ?j v = itake ?i v @ itake (?j - ?i) (idrop ?i v)"
    using itake_add [of ?i "?j - ?i" v] o by simp
  then have "q = TextLength_addToPosition (utf16_length (text_between v p q)) p"
    using assms reach_position [of v p] reach_position [of v q] reach_append
    by (simp add: text_between_offsets)
  then show ?thesis by (metis TextLength_between_add)
qed

lemma position_ok_column: "position_ok v p \<Longrightarrow> column p \<le> ilen v + 1"
proof -
  assume p: "position_ok v p"
  then have "nat (lineNumber p - 1) < lines_count v" by (auto simp: position_ok_def)
  then show ?thesis
    using p line_start_le_end [of "nat (lineNumber p - 1)" v] line_end_le [of "nat (lineNumber p - 1)" v]
    by (auto simp: position_ok_def)
qed

lemma Range_fromPositions_ends:
  "p \<le> q \<Longrightarrow> Range_getStartPosition (Range_fromPositions p q) = p"
  "p \<le> q \<Longrightarrow> Range_getEndPosition (Range_fromPositions p q) = q"
  by (auto simp: Range_fromPositions_def Range_new_def range_ends position_order)

lemma range_between_in_lines:
  "position_ok v p \<Longrightarrow> position_ok v q \<Longrightarrow> p \<le> q \<Longrightarrow> range_in_lines v (Range_fromPositions p q)"
  by (auto simp: range_in_lines_def Range_fromPositions_def position_ok_def Range_new_def
      position_order range_ok_def range_ends)

lemma rangeFromPositions_ok:
  "position_ok v p \<Longrightarrow> p \<le> q \<Longrightarrow> ilen v + 1 < MAX_SAFE_INTEGER \<Longrightarrow>
    rangeFromPositions p q = Some (Range_fromPositions p q)"
  using position_ok_column [of v p] by (simp add: rangeFromPositions_def Range_fromPositions_def)

section \<open>Text edits and the offsets they stand for\<close>

abbreviation tr_start :: "text_replacement \<Rightarrow> position" where
  "tr_start r \<equiv> Range_getStartPosition (tr_range r)"

abbreviation tr_end :: "text_replacement \<Rightarrow> position" where
  "tr_end r \<equiv> Range_getEndPosition (tr_range r)"

text \<open>The ranges are positions of the text, sorted and disjoint, from position \<open>p\<close> on.\<close>

fun text_edit_from :: "js_string \<Rightarrow> position \<Rightarrow> text_edit \<Rightarrow> bool" where
  "text_edit_from v p [] \<longleftrightarrow> True"
| "text_edit_from v p (r # E) \<longleftrightarrow>
     position_ok v (tr_start r) \<and> position_ok v (tr_end r) \<and> p \<le> tr_start r \<and> tr_start r \<le> tr_end r \<and>
     text_edit_from v (tr_end r) E"

definition text_edit_ok :: "js_string \<Rightarrow> text_edit \<Rightarrow> bool" where
  "text_edit_ok v E \<longleftrightarrow> text_edit_from v (Position 1 1) E"

definition tview :: "js_string \<Rightarrow> text_edit \<Rightarrow> code_unit aedit" where
  "tview v E =
     map (\<lambda>r. (MkOffsetRange (position_offset v (tr_start r)) (position_offset v (tr_end r)), tr_text r)) E"

lemma tview_simps [simp]:
  "tview v [] = []" "tview v (E @ F) = tview v E @ tview v F"
  "tview v (r # E) =
    (MkOffsetRange (position_offset v (tr_start r)) (position_offset v (tr_end r)), tr_text r) # tview v E"
  by (simp_all add: tview_def)

lemma tview_chain:
  "position_ok v p \<Longrightarrow> text_edit_from v p E \<Longrightarrow>
    achain (position_offset v p) (tview v E) \<and> aend (position_offset v p) (tview v E) \<le> ilen v"
proof (induction E arbitrary: p)
  case (Cons r E)
  then show ?case using Cons.IH [of "tr_end r"] by (simp add: position_offset_le_iff)
qed (simp add: position_offset_bounds)

lemma tview_chain0:
  assumes "text_edit_ok v E"
  shows "achain 0 (tview v E)" "aend 0 (tview v E) \<le> ilen v"
  using tview_chain [of v "Position 1 1" E] assms by (simp_all add: text_edit_ok_def first_position_ok)

lemma text_edit_check:
  "text_edit_from v p E \<Longrightarrow> TextEdit_check E"
proof (induction E arbitrary: p rule: induct_list012)
  case (3 r q E)
  have "text_edit_from v (tr_end r) (q # E)" using 3(3) by simp
  from 3(2) [OF this] 3(3) show ?case by (simp add: TextEdit_check_def)
qed (simp_all add: TextEdit_check_def)

lemma position_le_end: "position_ok v p \<Longrightarrow> p \<le> reach v"
  using end_position_ok [of v] position_offset_bounds [of v p] position_offset_le_iff [of v p "reach v"]
  by (simp add: reach_def)

context abstract_text_laws
begin

lemma read_between:
  assumes "ok x" "position_ok (val x) p" "position_ok (val x) q" "p \<le> q"
  shows "at_getValueOfRange (text_of x) (Range_fromPositions p q) =
    Some (itake (position_offset (val x) q - position_offset (val x) p) (idrop (position_offset (val x) p) (val x)))"
  using assms range_between_in_lines [OF assms(2-4)]
  by (simp add: getValueOfRange_val Range_fromPositions_ends text_between_offsets)

lemma read_range:
  assumes "ok x" "position_ok (val x) (Range_getStartPosition r)" "position_ok (val x) (Range_getEndPosition r)"
    and "range_ok r"
  shows "at_getValueOfRange (text_of x) r =
    Some (itake (position_offset (val x) (Range_getEndPosition r) - position_offset (val x) (Range_getStartPosition r))
      (idrop (position_offset (val x) (Range_getStartPosition r)) (val x)))"
proof -
  have "range_in_lines (val x) r"
    using assms by (auto simp: range_in_lines_def position_ok_def range_ends)
  then show ?thesis using assms by (simp add: getValueOfRange_val text_between_offsets)
qed

lemma read_gap:
  assumes "ok x" "ilen (val x) + 1 < MAX_SAFE_INTEGER"
    and "position_ok (val x) p" "position_ok (val x) q" "p \<le> q"
  shows "rangeFromPositions p q = Some (Range_fromPositions p q)"
    "(if \<not> Range_isEmpty (Range_fromPositions p q)
      then at_getValueOfRange (text_of x) (Range_fromPositions p q) else Some []) =
      Some (itake (position_offset (val x) q - position_offset (val x) p) (idrop (position_offset (val x) p) (val x)))"
proof -
  show "rangeFromPositions p q = Some (Range_fromPositions p q)"
    using rangeFromPositions_ok [of "val x" p q] assms by simp
  have "Range_isEmpty (Range_fromPositions p q) \<longleftrightarrow> p = q"
    using assms(5) by (simp add: Range_isEmpty_iff Range_fromPositions_ends)
  then show "(if \<not> Range_isEmpty (Range_fromPositions p q)
      then at_getValueOfRange (text_of x) (Range_fromPositions p q) else Some []) =
      Some (itake (position_offset (val x) q - position_offset (val x) p) (idrop (position_offset (val x) p) (val x)))"
    using read_between [OF assms(1,3,4,5)] by auto
qed

lemma apply_loop:
  assumes "ok x" "ilen (val x) + 1 < MAX_SAFE_INTEGER"
    and "position_ok (val x) p" "text_edit_from (val x) p E"
  shows "TextEdit_apply_loop (text_of x) E p acc =
    Some (acc @ app (position_offset (val x) p) (tview (val x) E) (idrop (position_offset (val x) p) (val x)))"
  using assms(3,4)
proof (induction E arbitrary: p acc)
  case Nil
  let ?e = "reach (val x)" and ?i = "position_offset (val x) p"
  have e: "AbstractText_endPositionExclusive (text_of x) = Some ?e"
    using endPosition [OF assms(1)] by (simp add: reach_def)
  have ok: "position_ok (val x) ?e" "position_offset (val x) ?e = ilen (val x)"
    using end_position_ok [of "val x"] by (simp_all add: reach_def)
  note g = read_gap [OF assms(1,2) Nil(1) ok(1) position_le_end [OF Nil(1)]]
  have "itake (ilen (val x) - ?i) (idrop ?i (val x)) = idrop ?i (val x)"
    using position_offset_bounds [OF Nil(1)] by (intro itake_all) simp
  then show ?case using e g ok by (auto split: if_splits)
next
  case (Cons r E)
  let ?i = "position_offset (val x) p" and ?e = "position_offset (val x) (tr_end r)"
  have r: "position_ok (val x) (tr_start r)" "position_ok (val x) (tr_end r)" "p \<le> tr_start r"
    "tr_start r \<le> tr_end r" "text_edit_from (val x) (tr_end r) E"
    using Cons.prems by auto
  have le: "0 \<le> ?i" "?i \<le> ?e"
    using position_offset_bounds [OF Cons.prems(1)] r Cons.prems(1) position_offset_le_iff [of "val x" p "tr_end r"]
    by (auto intro: order_trans)
  then have "idrop (?e - ?i) (idrop ?i (val x)) = idrop ?e (val x)"
    by (simp add: idrop_idrop)
  then show ?case
    using read_gap [OF assms(1,2) Cons.prems(1) r(1) r(3)] Cons.IH [OF r(2,5)] by simp
qed

lemma apply_app:
  assumes "ok x" "ilen (val x) + 1 < MAX_SAFE_INTEGER" "text_edit_ok (val x) E"
  shows "TextEdit_apply E (text_of x) = Some (app 0 (tview (val x) E) (val x))"
  using apply_loop [OF assms(1,2) first_position_ok(1) assms(3) [unfolded text_edit_ok_def], of "[]"]
  by (simp add: TextEdit_apply_def first_position_ok)

end

lemma getStringEdit_tview:
  assumes "text_edit_ok v E"
  shows "PositionOffsetTransformer_getStringEdit v E = Some (reps (tview v E))"
proof -
  have "text_edit_from v p E \<Longrightarrow>
      those (map (PositionOffsetTransformer_getStringReplacement v) E) = Some (reps (tview v E))" for p
  proof (induction E arbitrary: p)
    case (Cons r E)
    then have "PositionOffsetTransformer_getOffsetRange v (tr_range r) =
        Some (MkOffsetRange (position_offset v (tr_start r)) (position_offset v (tr_end r)))"
      by (simp add: PositionOffsetTransformer_getOffsetRange_def PositionOffsetTransformer_getOffset_eq
          clamp_position_id position_offset_le_iff)
    moreover from Cons.prems have "text_edit_from v (tr_end r) E" by simp
    ultimately show ?case
      using Cons.IH by (simp add: PositionOffsetTransformer_getStringReplacement_def)
  qed simp
  with assms StringEdit_new_reps [OF tview_chain0(1) [OF assms]] show ?thesis
    by (simp add: PositionOffsetTransformer_getStringEdit_def text_edit_ok_def)
qed

lemma StringEdit_apply_replacements:
  "achain 0 A \<Longrightarrow> aend 0 A \<le> ilen v \<Longrightarrow> StringEdit_apply (reps A) v = app 0 A v"
  using string_edit.apply_correct [of "reps A" v] by (simp add: StringEdit_apply_def string_wf_iff)

section \<open>Normalizing\<close>

text \<open>No replacement is empty and none starts where the one before it ends.\<close>

fun text_normal :: "text_edit \<Rightarrow> bool" where
  "text_normal [] \<longleftrightarrow> True"
| "text_normal [r] \<longleftrightarrow> \<not> TextReplacement_isEmpty r"
| "text_normal (r # q # E) \<longleftrightarrow>
     \<not> TextReplacement_isEmpty r \<and> tr_end r < tr_start q \<and> text_normal (q # E)"

lemma text_edit_from_append:
  "text_edit_from v p (E @ [r]) \<longleftrightarrow>
    text_edit_from v p E \<and> position_ok v (tr_start r) \<and> position_ok v (tr_end r) \<and>
    (if E = [] then p else tr_end (last E)) \<le> tr_start r \<and> tr_start r \<le> tr_end r"
  by (induction E arbitrary: p) auto

lemma text_normal_append:
  "text_normal (E @ [r]) \<longleftrightarrow>
    text_normal E \<and> \<not> TextReplacement_isEmpty r \<and> (E = [] \<or> tr_end (last E) < tr_start r)"
  by (induction E rule: text_normal.induct) auto

lemma text_edit_from_tail:
  "text_edit_from v p (E @ F) \<Longrightarrow> text_edit_from v (if E = [] then p else tr_end (last E)) F"
  by (induction E arbitrary: p) auto

lemma text_edit_from_prefix: "text_edit_from v p (E @ F) \<Longrightarrow> text_edit_from v p E"
  by (induction E arbitrary: p) auto

lemma text_edit_from_join:
  "text_edit_from v p E \<Longrightarrow> text_edit_from v (tr_end (last E)) F \<Longrightarrow> E \<noteq> [] \<Longrightarrow> text_edit_from v p (E @ F)"
proof (induction E arbitrary: p)
  case (Cons r E)
  then show ?case by (cases E) auto
qed simp

lemma text_edit_from_later: "text_edit_from v q E \<Longrightarrow> p \<le> q \<Longrightarrow> text_edit_from v p E"
  by (cases E) auto

lemma text_edit_from_skip: "text_edit_from v p (E @ r # F) \<Longrightarrow> text_edit_from v p (E @ F)"
proof (induction E arbitrary: p)
  case Nil
  then show ?case by (auto intro: text_edit_from_later)
qed auto

lemma app_drop_empty:
  assumes "achain p (A @ (MkOffsetRange a a, []) # F)" "aend p (A @ (MkOffsetRange a a, []) # F) \<le> p + ilen xs"
  shows "app p (A @ (MkOffsetRange a a, []) # F) xs = app p (A @ F) xs"
proof -
  let ?k = "aend p A" and ?ys = "idrop (aend p A - p) xs"
  have A: "achain p A" "?k \<le> a" "achain a F" using assms(1) by (auto simp: achain_append)
  have "a \<le> aend a F" by (rule aend_ge [OF A(3)])
  then have len: "a \<le> p + ilen xs" using assms(2) by simp
  have "app ?k F ?ys = itake (a - ?k) ?ys @ app a F (idrop (a - ?k) ?ys)"
    using A aend_ge [OF A(1)] len by (intro app_shift) auto
  then show ?thesis using A by (simp add: app_append)
qed

lemma app_join:
  assumes "achain p (A @ (MkOffsetRange a b, c) # (MkOffsetRange b d, e) # F)"
  shows "app p (A @ (MkOffsetRange a b, c) # (MkOffsetRange b d, e) # F) xs =
    app p (A @ (MkOffsetRange a d, c @ e) # F) xs"
proof -
  let ?ys = "idrop (aend p A - p) xs"
  have A: "achain p A" "aend p A \<le> a" "a \<le> b" "b \<le> d" using assms by (auto simp: achain_append)
  have "idrop (d - b) (idrop (b - aend p A) ?ys) = idrop (d - aend p A) ?ys"
    using A by (simp add: idrop_idrop)
  then show ?thesis using A by (simp add: app_append)
qed

lemma plusRange_touching:
  assumes "range_ok a" "range_ok b" "Range_getEndPosition a = Range_getStartPosition b"
  shows "Range_getStartPosition (Range_plusRange a b) = Range_getStartPosition a"
    "Range_getEndPosition (Range_plusRange a b) = Range_getEndPosition b"
  using assms by (auto simp: Range_plusRange_ends range_ok_def min_def max_def)

lemma text_normalize_loop_correct:
  assumes "text_edit_from v (Position 1 1) (out @ E)" "text_normal out"
  shows "text_edit_from v (Position 1 1) (TextEdit_normalize_loop E out) \<and>
    text_normal (TextEdit_normalize_loop E out) \<and>
    app 0 (tview v (TextEdit_normalize_loop E out)) v = app 0 (tview v (out @ E)) v"
  using assms
proof (induction E arbitrary: out)
  case (Cons r E)
  have from1: "text_edit_from v (Position 1 1) ((out @ [r]) @ E)" using Cons.prems(1) by simp
  have outr: "text_edit_from v (Position 1 1) (out @ [r])"
    using from1 by (metis text_edit_from_prefix)
  note r = outr [unfolded text_edit_from_append]
  have chain: "achain 0 (tview v (out @ r # E))" "aend 0 (tview v (out @ r # E)) \<le> ilen v"
    using tview_chain0 [of v "out @ r # E"] Cons.prems(1) by (simp_all add: text_edit_ok_def)
  show ?case
  proof (cases "out \<noteq> [] \<and> tr_end (last out) = tr_start r")
    case True
    let ?l = "last out" and ?o = "butlast out"
    let ?m = "MkTextReplacement (Range_plusRange (tr_range ?l) (tr_range r)) (tr_text ?l @ tr_text r)"
    have o: "out = ?o @ [?l]" using True by simp
    have l: "text_edit_from v (Position 1 1) (?o @ [?l])" using r o by simp
    note l = l [unfolded text_edit_from_append]
    have ends: "tr_start ?m = tr_start ?l" "tr_end ?m = tr_end r"
      using plusRange_touching [of "tr_range ?l" "tr_range r"] True l r by (simp_all add: range_ok_def)
    have ne: "\<not> TextReplacement_isEmpty ?m"
    proof -
      have "\<not> TextReplacement_isEmpty ?l" using Cons.prems(2) o by (metis text_normal_append)
      then have "tr_text ?l \<noteq> [] \<or> tr_start ?l < tr_end ?l"
        using l by (auto simp: TextReplacement_isEmpty_def Range_isEmpty_iff)
      then have "tr_text ?m \<noteq> [] \<or> tr_start ?m \<noteq> tr_end ?m"
        using ends True r by auto
      then show ?thesis by (auto simp: TextReplacement_isEmpty_def Range_isEmpty_iff)
    qed
    have normal: "text_normal (?o @ [?m])"
      using Cons.prems(2) o ne ends by (metis text_normal_append)
    have ok: "text_edit_from v (Position 1 1) ((?o @ [?m]) @ E)"
    proof (rule text_edit_from_join)
      show "text_edit_from v (Position 1 1) (?o @ [?m])"
        unfolding text_edit_from_append using l r ends True by auto
      show "text_edit_from v (tr_end (last (?o @ [?m]))) E"
        using text_edit_from_tail [OF from1] ends by simp
    qed simp
    have tv: "tview v out = tview v ?o @
        [(MkOffsetRange (position_offset v (tr_start ?l)) (position_offset v (tr_end ?l)), tr_text ?l)]"
      by (subst o) simp
    have "app 0 (tview v ((?o @ [?m]) @ E)) v = app 0 (tview v (out @ r # E)) v"
      using app_join [of 0 "tview v ?o" "position_offset v (tr_start ?l)" "position_offset v (tr_end ?l)" "tr_text ?l"
          "position_offset v (tr_end r)" "tr_text r" "tview v E" v] chain(1) True ends
      by (simp add: tv)
    with Cons.IH [OF ok normal] True show ?thesis by (simp add: Let_def)
  next
    case False
    show ?thesis
    proof (cases "TextReplacement_isEmpty r")
      case True
      then have e: "tr_start r = tr_end r" "tr_text r = []"
        by (auto simp: TextReplacement_isEmpty_def Range_isEmpty_iff)
      have ok: "text_edit_from v (Position 1 1) (out @ E)"
        using text_edit_from_skip [OF Cons.prems(1)] .
      have "app 0 (tview v (out @ E)) v = app 0 (tview v (out @ r # E)) v"
        using app_drop_empty [of 0 "tview v out" "position_offset v (tr_end r)" "tview v E" v] chain e by simp
      with Cons.IH [OF ok Cons.prems(2)] False True show ?thesis by auto
    next
      case ne: False
      have "text_normal (out @ [r])"
        unfolding text_normal_append using Cons.prems(2) ne False r by (auto split: if_splits)
      from Cons.IH [OF from1 this] False ne show ?thesis by auto
    qed
  qed
qed simp

section \<open>The new ranges and the inverse\<close>

text \<open>No inserted text has a surrogate pair in its last line.\<close>

definition plain_texts :: "text_edit \<Rightarrow> bool" where
  "plain_texts E \<longleftrightarrow> (\<forall>r \<in> set E. no_pair (last_line (tr_text r)))"

text \<open>
  The new ranges, for a position \<open>e\<close> of the text and the position \<open>e'\<close> of the result up to
  which the two correspond.
\<close>

fun new_ranges :: "position \<Rightarrow> position \<Rightarrow> text_edit \<Rightarrow> edit_range list" where
  "new_ranges e e' [] = []"
| "new_ranges e e' (r # E) =
     (let s' = TextLength_addToPosition (TextLength_betweenPositions e (tr_start r)) e';
          t' = TextLength_addToPosition (utf16_length (tr_text r)) s'
      in Range_fromPositions s' t' # new_ranges (tr_end r) t' E)"

lemma createRange_fromPositions:
  "TextLength_createRange l p = Range_fromPositions p (TextLength_addToPosition l p)"
  by (simp add: TextLength_createRange_def Range_fromPositions_def TextLength_addToPosition_def)

lemma addToPosition_ge: "text_length_ok l \<Longrightarrow> p \<le> TextLength_addToPosition l p"
  by (auto simp: TextLength_addToPosition_def text_length_ok_def position_order)

lemma ofText_plain: "no_pair (last_line t) \<Longrightarrow> TextLength_ofText t = utf16_length t"
  by (simp add: utf16_length_ofText)

lemma TextEdit_getNewRanges_loop_eq:
  assumes "plain_texts E"
  shows "TextEdit_getNewRanges_loop E (lineNumber e) (lineNumber e' - lineNumber e) (column e' - column e) = new_ranges e e' E"
  using assms
proof (induction E arbitrary: e e')
  case (Cons r E)
  let ?s = "TextLength_addToPosition (TextLength_betweenPositions e (tr_start r)) e'"
  let ?t = "TextLength_addToPosition (utf16_length (tr_text r)) ?s"
  let ?g = "Range_fromPositions ?s ?t"
  have len: "TextLength_ofText (tr_text r) = utf16_length (tr_text r)"
    using Cons.prems by (simp add: plain_texts_def ofText_plain)
  have s: "Position (startLineNumber (tr_range r) + (lineNumber e' - lineNumber e))
      (startColumn (tr_range r) +
        (if startLineNumber (tr_range r) = lineNumber e then column e' - column e else 0)) = ?s"
    by (simp add: TextLength_addToPosition_def TextLength_betweenPositions_def range_ends)
  have "Range_getEndPosition ?g = ?t"
    by (rule Range_fromPositions_ends) (simp add: addToPosition_ge)
  then have t: "endLineNumber ?g = lineNumber ?t" "endColumn ?g = column ?t"
    by (metis Range_getEndPosition_def position.sel)+
  have E: "plain_texts E" using Cons.prems by (simp add: plain_texts_def)
  have "TextEdit_getNewRanges_loop E (endLineNumber (tr_range r)) (endLineNumber ?g - endLineNumber (tr_range r))
      (endColumn ?g - endColumn (tr_range r)) = new_ranges (tr_end r) ?t E"
    using Cons.IH [OF E, of "tr_end r" ?t] t by (simp add: range_ends)
  then show ?case
    unfolding TextEdit_getNewRanges_loop.simps len s Let_def createRange_fromPositions new_ranges.simps by simp
qed simp

lemma getNewRanges_eq:
  assumes "plain_texts E" "text_edit_ok v E"
  shows "TextEdit_getNewRanges E = new_ranges (Position 1 1) (Position 1 1) E"
proof -
  have "TextEdit_getNewRanges E = new_ranges (Position 0 0) (Position 0 0) E"
    using TextEdit_getNewRanges_loop_eq [OF assms(1), of "Position 0 0" "Position 0 0"]
    by (simp add: TextEdit_getNewRanges_def)
  also have "\<dots> = new_ranges (Position 1 1) (Position 1 1) E"
  proof (cases E)
    case (Cons r F)
    then have "1 \<le> lineNumber (tr_start r)"
      using assms(2) by (simp add: text_edit_ok_def position_ok_def)
    then have "TextLength_addToPosition (TextLength_betweenPositions (Position 0 0) (tr_start r)) (Position 0 0) =
        tr_start r"
      by simp
    then show ?thesis by (simp add: Cons Let_def)
  qed simp
  finally show ?thesis .
qed

text \<open>Where the new texts lie in the result, as offset ranges.\<close>

definition replaced_ranges :: "code_unit aedit \<Rightarrow> offset_range list" where
  "replaced_ranges A = map fst (ainv (\<lambda>_ _. []) 0 A)"

lemma ainv_ranges: "map fst (ainv f d A) = map fst (ainv g d A)"
  by (induction f d A rule: ainv.induct) auto

definition clean_seams :: "js_string \<Rightarrow> offset_range list \<Rightarrow> bool" where
  "clean_seams w gs \<longleftrightarrow> (\<forall>g \<in> set gs. \<not> inside_crlf w (or_start g) \<and> \<not> inside_crlf w (or_end g))"

definition denotes_range :: "js_string \<Rightarrow> offset_range \<Rightarrow> edit_range \<Rightarrow> bool" where
  "denotes_range w g r \<longleftrightarrow>
     Range_getStartPosition r \<le> Range_getEndPosition r \<and>
     position_ok w (Range_getStartPosition r) \<and> position_ok w (Range_getEndPosition r) \<and>
     position_offset w (Range_getStartPosition r) = or_start g \<and>
     position_offset w (Range_getEndPosition r) = or_end g"

lemma new_ranges_denote:
  assumes "position_ok v e" "text_edit_from v e E"
    and "w = P @ app (position_offset v e) (tview v E) (idrop (position_offset v e) v)"
    and "clean_seams w (map fst (ainv f (ilen P - position_offset v e) (tview v E)))"
  shows "list_all2 (denotes_range w) (map fst (ainv f (ilen P - position_offset v e) (tview v E)))
    (new_ranges e (reach P) E)"
  using assms
proof (induction E arbitrary: e P)
  case (Cons r E)
  let ?i = "position_offset v e" and ?s = "position_offset v (tr_start r)" and ?t = "position_offset v (tr_end r)"
  have r: "position_ok v (tr_start r)" "position_ok v (tr_end r)" "e \<le> tr_start r" "tr_start r \<le> tr_end r"
    "text_edit_from v (tr_end r) E" using Cons.prems(2) by auto
  have o: "0 \<le> ?i" "?i \<le> ?s" "?s \<le> ?t" "?t \<le> ilen v"
    using position_offset_bounds r Cons.prems(1) position_offset_le_iff by auto
  define gap where "gap = itake (?s - ?i) (idrop ?i v)"
  define P1 where "P1 = P @ gap"
  define P2 where "P2 = P1 @ tr_text r"
  have gap: "gap = text_between v e (tr_start r)"
    by (simp add: gap_def text_between_offsets Cons.prems(1) r(1))
  have lg: "ilen gap = ?s - ?i" using o by (simp add: gap_def)
  have l1: "ilen P1 = ?s + (ilen P - ?i)" and l2: "ilen P2 = ?s + (ilen P - ?i) + ilen (tr_text r)"
    using lg by (simp_all add: P1_def P2_def)
  have w2: "w = P2 @ app ?t (tview v E) (idrop ?t v)"
    unfolding Cons.prems(3) P2_def P1_def using o by (simp add: gap_def idrop_idrop)
  have w1: "w = P1 @ tr_text r @ app ?t (tview v E) (idrop ?t v)"
    using w2 by (simp add: P2_def)
  have d2: "ilen P2 - ?t = ilen P - ?i + (ilen (tr_text r) - (?t - ?s))" using l2 by simp
  let ?g = "MkOffsetRange (?s + (ilen P - ?i)) (?s + (ilen P - ?i) + ilen (tr_text r))"
  let ?rest = "map fst (ainv f (ilen P2 - ?t) (tview v E))"
  have split: "map fst (ainv f (ilen P - ?i) (tview v (r # E))) = ?g # ?rest"
    unfolding d2 by simp
  have c: "\<not> inside_crlf w (ilen P1)" "\<not> inside_crlf w (ilen P2)" "clean_seams w ?rest"
    using Cons.prems(4) unfolding split by (simp_all add: clean_seams_def l1 l2)
  have s1: "TextLength_addToPosition (TextLength_betweenPositions e (tr_start r)) (reach P) = reach P1"
    unfolding P1_def reach_append gap utf16_between [OF Cons.prems(1) r(1,3)] ..
  have s2: "TextLength_addToPosition (utf16_length (tr_text r)) (reach P1) = reach P2"
    by (simp add: P2_def reach_append)
  have le: "reach P1 \<le> reach P2" unfolding s2 [symmetric] by (simp add: addToPosition_ge)
  have "denotes_range w ?g (Range_fromPositions (reach P1) (reach P2))"
    using reach_in [OF w1 c(1)] reach_in [OF w2 c(2)] l1 l2 le
    by (simp add: denotes_range_def Range_fromPositions_ends)
  moreover have "list_all2 (denotes_range w) ?rest (new_ranges (tr_end r) (reach P2) E)"
    using Cons.IH [OF r(2,5) w2] c(3) by simp
  ultimately show ?case
    unfolding split by (simp add: s1 s2 Let_def)
qed simp

lemma getNewRanges_denote:
  assumes "text_edit_ok v E" "plain_texts E" "clean_seams (app 0 (tview v E) v) (replaced_ranges (tview v E))"
  shows "list_all2 (denotes_range (app 0 (tview v E) v)) (replaced_ranges (tview v E)) (TextEdit_getNewRanges E)"
  using new_ranges_denote [of v "Position 1 1" E "app 0 (tview v E) v" "[]"] assms
  by (simp add: first_position_ok text_edit_ok_def replaced_ranges_def getNewRanges_eq [of E v])

lemma denotes_range_getOffsetRange:
  "denotes_range w g r \<Longrightarrow> PositionOffsetTransformer_getOffsetRange w r = Some g"
proof -
  assume g: "denotes_range w g r"
  then have "or_start g \<le> or_end g" by (metis denotes_range_def position_offset_le_iff)
  with g show ?thesis
    by (cases g) (simp add: denotes_range_def PositionOffsetTransformer_getOffsetRange_def
        PositionOffsetTransformer_getOffset_eq clamp_position_id)
qed

lemma tview_denotes:
  "list_all2 (denotes_range w) gs (map tr_range F) \<Longrightarrow> tview w F = zip gs (map tr_text F)"
proof (induction gs "map tr_range F" arbitrary: F rule: list_all2_induct)
  case (Cons g gs r rs)
  then obtain x F' where F: "F = x # F'" "tr_range x = r" "map tr_range F' = rs" by (cases F) auto
  have "MkOffsetRange (position_offset w (Range_getStartPosition r)) (position_offset w (Range_getEndPosition r)) = g"
    using Cons(1) by (cases g) (simp add: denotes_range_def)
  with Cons F show ?case by simp
qed simp

lemma denotes_text_edit:
  assumes "list_all2 (denotes_range w) gs (map tr_range F)" "position_ok w p" "ranges_sorted (position_offset w p) gs"
  shows "text_edit_from w p F"
  using assms
proof (induction gs arbitrary: F p)
  case (Cons g gs)
  then obtain x F' where F: "F = x # F'" by (cases F) auto
  then have x: "denotes_range w g (tr_range x)" "list_all2 (denotes_range w) gs (map tr_range F')"
    using Cons.prems(1) by auto
  then have "position_ok w (tr_start x)" "position_ok w (tr_end x)" "tr_start x \<le> tr_end x" "p \<le> tr_start x"
    using Cons.prems(2,3) position_offset_le_iff [of w p "tr_start x"] by (auto simp: denotes_range_def)
  with Cons.IH [OF x(2), of "tr_end x"] Cons.prems(3) x(1) F show ?case by (auto simp: denotes_range_def)
qed auto

context abstract_text_laws
begin

lemma inverse_those:
  assumes "ok x" "text_edit_from (val x) p E" "length gs = length E"
  shows "those (map2 (\<lambda>e g. do {
           s \<leftarrow> at_getValueOfRange (text_of x) (tr_range e);
           Some (MkTextReplacement g s)
         }) E gs) =
    Some (map2 (\<lambda>e g. MkTextReplacement g
      (itake (position_offset (val x) (tr_end e) - position_offset (val x) (tr_start e))
        (idrop (position_offset (val x) (tr_start e)) (val x)))) E gs)"
  using assms(2,3)
proof (induction E arbitrary: p gs)
  case (Cons r E)
  then obtain g hs where gs: "gs = g # hs" by (cases gs) auto
  have "range_ok (tr_range r)" "position_ok (val x) (tr_start r)" "position_ok (val x) (tr_end r)"
    "text_edit_from (val x) (tr_end r) E"
    using Cons.prems(1) by (auto simp: range_ok_def)
  then show ?case
    using Cons.IH [of "tr_end r" hs] Cons.prems(2) read_range [OF assms(1), of "tr_range r"] gs by simp
qed simp

lemma inverse_correct:
  assumes "ok x" "text_edit_ok (val x) E" "plain_texts E"
    and "clean_seams (app 0 (tview (val x) E) (val x)) (replaced_ranges (tview (val x) E))"
  shows "\<exists>F. TextEdit_inverse E (text_of x) = Some F \<and> text_edit_ok (app 0 (tview (val x) E) (val x)) F \<and>
    app 0 (tview (app 0 (tview (val x) E) (val x)) F) (app 0 (tview (val x) E) (val x)) = val x"
proof -
  let ?v = "val x" and ?A = "tview (val x) E"
  let ?w = "app 0 ?A ?v" and ?gs = "replaced_ranges ?A" and ?rs = "TextEdit_getNewRanges E"
  let ?f = "\<lambda>s e. itake (e - s) (idrop s ?v)"
  let ?t = "\<lambda>e. ?f (position_offset ?v (tr_start e)) (position_offset ?v (tr_end e))"
  let ?F = "map2 (\<lambda>e g. MkTextReplacement g (?t e)) E ?rs"
  have d: "list_all2 (denotes_range ?w) ?gs ?rs"
    by (rule getNewRanges_denote [OF assms(2-4)])
  have len: "length ?rs = length E"
  proof -
    have "length (ainv f d A) = length A" for f d and A :: "code_unit aedit"
      by (induction f d A rule: ainv.induct) auto
    then show ?thesis using list_all2_lengthD [OF d] by (simp add: replaced_ranges_def tview_def)
  qed
  have F: "TextEdit_inverse E (text_of x) = Some ?F"
    using inverse_those [OF assms(1), of "Position 1 1" E ?rs] assms(2) len
    by (simp add: TextEdit_inverse_def Let_def text_edit_ok_def)
  have mr: "map tr_range ?F = ?rs" and mt: "map tr_text ?F = map ?t E"
    using len by (auto simp: o_def split_def intro: nth_equalityI)
  have snds: "map snd (ainv ?f d (tview ?v E)) = map ?t E" for d
    by (induction E arbitrary: d) simp_all
  have gs: "?gs = map fst (ainv ?f 0 ?A)"
    unfolding replaced_ranges_def by (rule ainv_ranges)
  have "zip ?gs (map ?t E) = ainv ?f 0 ?A"
    unfolding gs snds [of 0, symmetric] by (rule zip_map_fst_snd)
  then have view: "tview ?w ?F = ainv ?f 0 ?A"
    using tview_denotes [of ?w ?gs ?F] d mr mt by simp
  have c: "achain 0 ?A" "aend 0 ?A \<le> ilen ?v" using tview_chain0 [OF assms(2)] .
  have "achain 0 (ainv ?f 0 ?A)" using ainv_chain [OF c(1), of 0 ?f] by simp
  then have "ranges_sorted 0 ?gs"
    unfolding gs by (simp add: achain_sorted)
  then have "text_edit_ok ?w ?F"
    unfolding text_edit_ok_def using d mr
    by (intro denotes_text_edit [of ?w ?gs]) (simp_all add: first_position_ok)
  moreover have "app 0 (ainv ?f 0 ?A) ?w = ?v"
    using ainv_correct [OF c(1), of ?v ?f 0] c(2) by simp
  ultimately show ?thesis using F view by auto
qed

end

section \<open>Mapping positions through an edit\<close>

text \<open>
  Where an offset goes: a replacement that ends at or before it moves it, one that starts at
  or after it does not, and one around it maps it to the range of the new text.
\<close>

fun amap :: "code_unit aedit \<Rightarrow> int \<Rightarrow> int \<Rightarrow> int + offset_range" where
  "amap [] d n = Inl (n + d)"
| "amap ((g, c) # A) d n =
     (if n \<le> or_start g then Inl (n + d)
      else if n < or_end g then Inr (MkOffsetRange (or_start g + d) (or_start g + d + ilen c))
      else amap A (d + (ilen c - (or_end g - or_start g))) n)"

text \<open>
  The replacements after which \<open>mapPosition\<close> tracks the column of the current line: with a line
  break in the new text they end at column 1, without one they stay in a line or start at
  column 1.
\<close>

definition exact_columns :: "text_replacement \<Rightarrow> bool" where
  "exact_columns r \<longleftrightarrow>
     (if LF \<in> set (tr_text r) then column (tr_end r) = 1
      else lineNumber (tr_start r) = lineNumber (tr_end r) \<or> column (tr_start r) = 1)"

lemma utf16_single_line: "lineCount (utf16_length t) = 0 \<longleftrightarrow> LF \<notin> set t"
  by (simp add: utf16_length_def count_list_0_iff)

lemma length_last_line: "length (last_line t) \<le> length t"
  unfolding last_line_def by (metis length_rev length_takeWhile_le)

lemma reach_column: "column (reach P) \<le> ilen P + 1"
  using length_last_line [of P] by (simp add: reach_def TextLength_addToPosition_def utf16_length_def)

lemma reach_getPosition:
  "w = P @ Q \<Longrightarrow> PositionOffsetTransformer_getPosition w (ilen P) = Some (reach P)"
  using getPosition_spec [of "ilen P" w] by (simp add: reach_def itake_append)

lemma mapPosition_step_exact:
  assumes "exact_columns r" "tr_start r \<le> tr_end r"
  shows "mapPosition_step (tr_range r) (utf16_length (tr_text r)) (lineNumber e' - lineNumber e) (lineNumber e')
      (column e' - column e) =
    (let t' = TextLength_addToPosition (utf16_length (tr_text r))
        (TextLength_addToPosition (TextLength_betweenPositions e (tr_start r)) e')
     in (lineNumber t' - lineNumber (tr_end r), lineNumber t', column t' - column (tr_end r)))"
  using assms
  by (simp add: mapPosition_step_def exact_columns_def Let_def utf16_single_line
      TextLength_addToPosition_def TextLength_betweenPositions_def range_ends)
    (auto simp: utf16_single_line range_ends)

lemma mapPosition_start:
  "mapPosition_loop E p 0 0 0 = mapPosition_loop E p 0 1 0"
  by (cases E) (simp_all add: Let_def mapPosition_step_def)

lemma reach_between:
  assumes "position_ok v e" "position_ok v p" "e \<le> p"
  shows "TextLength_addToPosition (TextLength_betweenPositions e p) (reach P) =
    reach (P @ itake (position_offset v p - position_offset v e) (idrop (position_offset v e) v))"
  unfolding reach_append text_between_offsets [OF assms(1,2), symmetric] utf16_between [OF assms] ..

lemma reach_between_position:
  assumes "position_ok v e" "position_ok v p" "e \<le> p" "position_offset v p \<le> n" "n \<le> ilen v"
    and "w = P @ itake (n - position_offset v e) (idrop (position_offset v e) v) @ Q"
  shows "PositionOffsetTransformer_getPosition w (position_offset v p + (ilen P - position_offset v e)) =
    Some (TextLength_addToPosition (TextLength_betweenPositions e p) (reach P))"
proof -
  let ?i = "position_offset v e" and ?p = "position_offset v p"
  have o: "0 \<le> ?i" "?i \<le> ?p" using assms position_offset_bounds position_offset_le_iff by auto
  have "itake (n - ?i) (idrop ?i v) = itake (?p - ?i) (idrop ?i v) @ itake (n - ?p) (idrop (?p - ?i) (idrop ?i v))"
    using itake_add [of "?p - ?i" "n - ?p" "idrop ?i v"] o assms(4) by simp
  then have "w = (P @ itake (?p - ?i) (idrop ?i v)) @ itake (n - ?p) (idrop (?p - ?i) (idrop ?i v)) @ Q"
    using assms(6) by simp
  from reach_getPosition [OF this] show ?thesis
    using o assms(4,5) by (simp add: reach_between [OF assms(1-3)] algebra_simps)
qed

lemma new_text_range:
  assumes "w = P1 @ t @ Q" "ilen w + 1 < MAX_SAFE_INTEGER"
  shows "rangeFromPositions (reach P1) (reach (P1 @ t)) = Some (Range_fromPositions (reach P1) (reach (P1 @ t)))"
    "PositionOffsetTransformer_getRange w (MkOffsetRange (ilen P1) (ilen P1 + ilen t)) =
      Some (Range_fromPositions (reach P1) (reach (P1 @ t)))"
proof -
  have "reach P1 \<le> reach (P1 @ t)" by (simp add: reach_append addToPosition_ge)
  moreover have "column (reach P1) < MAX_SAFE_INTEGER"
    using reach_column [of P1] assms by simp
  ultimately show "rangeFromPositions (reach P1) (reach (P1 @ t)) =
      Some (Range_fromPositions (reach P1) (reach (P1 @ t)))"
    by (simp add: rangeFromPositions_def Range_fromPositions_def)
  have "w = (P1 @ t) @ Q" using assms(1) by simp
  from reach_getPosition [OF this] reach_getPosition [OF assms(1)]
  show "PositionOffsetTransformer_getRange w (MkOffsetRange (ilen P1) (ilen P1 + ilen t)) =
      Some (Range_fromPositions (reach P1) (reach (P1 @ t)))"
    by (simp add: PositionOffsetTransformer_getRange_def)
qed

text \<open>The result of mapping denotes, in the edited text, the mapped offset or offset range.\<close>

fun maps_to :: "js_string \<Rightarrow> int + offset_range \<Rightarrow> position + edit_range \<Rightarrow> bool" where
  "maps_to w (Inl n) (Inl q) = (PositionOffsetTransformer_getPosition w n = Some q)"
| "maps_to w (Inr g) (Inr r) = (PositionOffsetTransformer_getRange w g = Some r)"
| "maps_to w _ _ = False"

lemma mapPosition_loop_correct:
  assumes "position_ok v e" "text_edit_from v e E" "position_ok v p" "e \<le> p" "plain_texts E"
    and "\<forall>r \<in> set E. exact_columns r"
    and "w = P @ app (position_offset v e) (tview v E) (idrop (position_offset v e) v)"
    and "ilen w + 1 < MAX_SAFE_INTEGER"
  shows "\<exists>res. mapPosition_loop E p (lineNumber (reach P) - lineNumber e) (lineNumber (reach P))
      (column (reach P) - column e) = Some res \<and>
    maps_to w (amap (tview v E) (ilen P - position_offset v e) (position_offset v p)) res"
  using assms
proof (induction E arbitrary: e P)
  case Nil
  let ?i = "position_offset v e" and ?p = "position_offset v p"
  let ?q = "TextLength_addToPosition (TextLength_betweenPositions e p) (reach P)"
  have q: "Position (lineNumber p + (lineNumber (reach P) - lineNumber e))
      (column p + (if lineNumber p + (lineNumber (reach P) - lineNumber e) = lineNumber (reach P)
        then column (reach P) - column e else 0)) = ?q"
    by (simp add: TextLength_addToPosition_def TextLength_betweenPositions_def)
  have "0 \<le> ?i" "?i \<le> ilen v" using position_offset_bounds [OF Nil(1)] by auto
  then have "itake (ilen v - ?i) (idrop ?i v) = idrop ?i v" by (intro itake_all) simp
  then have "w = P @ itake (ilen v - ?i) (idrop ?i v) @ []" using Nil(7) by simp
  from reach_between_position [OF Nil(1,3,4) _ order_refl this] position_offset_bounds [OF Nil(3)] q
  show ?case by simp
next
  case (Cons r E)
  let ?i = "position_offset v e" and ?p = "position_offset v p"
  let ?s = "position_offset v (tr_start r)" and ?t = "position_offset v (tr_end r)"
  have r: "position_ok v (tr_start r)" "position_ok v (tr_end r)" "e \<le> tr_start r" "tr_start r \<le> tr_end r"
    "text_edit_from v (tr_end r) E" using Cons.prems(2) by auto
  have o: "0 \<le> ?i" "?i \<le> ?s" "?s \<le> ?t" "?t \<le> ilen v" "?s \<le> ilen v"
    using position_offset_bounds r Cons.prems(1) position_offset_le_iff by auto
  have le: "?p \<le> ?s \<longleftrightarrow> p \<le> tr_start r" "?p < ?t \<longleftrightarrow> p < tr_end r"
    using position_offset_le_iff [OF Cons.prems(3) r(1)] position_offset_le_iff [OF r(2) Cons.prems(3)] by auto
  have len: "TextLength_ofText (tr_text r) = utf16_length (tr_text r)"
    using Cons.prems(5) by (simp add: plain_texts_def ofText_plain)
  define P1 where "P1 = P @ itake (?s - ?i) (idrop ?i v)"
  have l1: "ilen P1 = ?s + (ilen P - ?i)" using o by (simp add: P1_def)
  have w: "w = P1 @ tr_text r @ app ?t (tview v E) (idrop ?t v)"
    unfolding Cons.prems(7) P1_def using o by (simp add: idrop_idrop)
  have s1: "TextLength_addToPosition (TextLength_betweenPositions e (tr_start r)) (reach P) = reach P1"
    unfolding P1_def by (rule reach_between [OF Cons.prems(1) r(1,3)])
  have col: "Position (lineNumber p' + (lineNumber (reach P) - lineNumber e))
      (column p' + (if lineNumber p' + (lineNumber (reach P) - lineNumber e) = lineNumber (reach P)
        then column (reach P) - column e else 0)) =
      TextLength_addToPosition (TextLength_betweenPositions e p') (reach P)" for p'
    by (simp add: TextLength_addToPosition_def TextLength_betweenPositions_def)
  have t1: "TextLength_addToPosition (utf16_length (tr_text r)) (reach P1) = reach (P1 @ tr_text r)"
    by (simp add: reach_append)
  consider "p \<le> tr_start r" | "tr_start r < p" "p < tr_end r" | "tr_start r < p" "tr_end r \<le> p"
    by (cases "p \<le> tr_start r"; cases "tr_end r \<le> p") auto
  then show ?case
  proof cases
    case 1
    have "w = P @ itake (?s - ?i) (idrop ?i v) @ tr_text r @ app ?t (tview v E) (idrop ?t v)"
      using w by (simp add: P1_def)
    moreover have "?p \<le> ?s" using 1 le by simp
    moreover have "mapPosition_loop (r # E) p (lineNumber (reach P) - lineNumber e) (lineNumber (reach P))
        (column (reach P) - column e) =
        Some (Inl (TextLength_addToPosition (TextLength_betweenPositions e p) (reach P)))"
      by (simp only: mapPosition_loop.simps Let_def col Position_isBeforeOrEqual_le 1 if_True)
    ultimately show ?thesis
      using reach_between_position [OF Cons.prems(1,3,4) _ o(5)] by simp
  next
    case 2
    note n = new_text_range [OF w Cons.prems(8)]
    have np: "\<not> p \<le> tr_start r" using 2 by simp
    have "mapPosition_loop (r # E) p (lineNumber (reach P) - lineNumber e) (lineNumber (reach P))
        (column (reach P) - column e) =
        Some (Inr (Range_fromPositions (reach P1) (reach (P1 @ tr_text r))))"
      by (simp only: mapPosition_loop.simps Let_def col len s1 t1 n(1) Position_isBeforeOrEqual_le
          Position_isBefore_less np 2(2) if_True if_False option.map)
    moreover have "amap (tview v (r # E)) (ilen P - ?i) ?p =
        Inr (MkOffsetRange (ilen P1) (ilen P1 + ilen (tr_text r)))"
      using np 2(2) le l1 by simp
    ultimately show ?thesis using n(2) by simp
  next
    case 3
    have np: "\<not> p \<le> tr_start r" "\<not> p < tr_end r" using 3 by simp_all
    have st: "mapPosition_step (tr_range r) (utf16_length (tr_text r)) (lineNumber (reach P) - lineNumber e)
        (lineNumber (reach P)) (column (reach P) - column e) =
        (lineNumber (reach (P1 @ tr_text r)) - lineNumber (tr_end r), lineNumber (reach (P1 @ tr_text r)),
         column (reach (P1 @ tr_text r)) - column (tr_end r))"
      using mapPosition_step_exact [OF _ r(4), of "reach P" e] Cons.prems(6) by (simp add: s1 t1 Let_def)
    have w2: "w = (P1 @ tr_text r) @ app ?t (tview v E) (idrop ?t v)" using w by simp
    have E: "plain_texts E" "\<forall>r \<in> set E. exact_columns r" using Cons.prems(5,6) by (auto simp: plain_texts_def)
    have d: "ilen (P1 @ tr_text r) - ?t = ilen P - ?i + (ilen (tr_text r) - (?t - ?s))" using l1 by simp
    have am: "amap (tview v (r # E)) (ilen P - ?i) ?p = amap (tview v E) (ilen (P1 @ tr_text r) - ?t) ?p"
      unfolding d using np le by simp
    have "mapPosition_loop (r # E) p (lineNumber (reach P) - lineNumber e) (lineNumber (reach P))
        (column (reach P) - column e) =
      mapPosition_loop E p (lineNumber (reach (P1 @ tr_text r)) - lineNumber (tr_end r))
        (lineNumber (reach (P1 @ tr_text r))) (column (reach (P1 @ tr_text r)) - column (tr_end r))"
      by (simp only: mapPosition_loop.simps Let_def len st Position_isBeforeOrEqual_le
          Position_isBefore_less np if_False prod.case)
    with Cons.IH [OF r(2,5) Cons.prems(3) 3(2) E w2 Cons.prems(8)] show ?thesis
      unfolding am by simp
  qed
qed

lemma mapPosition_correct:
  assumes "text_edit_ok v E" "position_ok v p" "plain_texts E" "\<forall>r \<in> set E. exact_columns r"
    and "ilen (app 0 (tview v E) v) + 1 < MAX_SAFE_INTEGER"
  shows "\<exists>res. TextEdit_mapPosition E p = Some res \<and>
    maps_to (app 0 (tview v E) v) (amap (tview v E) 0 (position_offset v p)) res"
proof -
  have "Position 1 1 \<le> p" using assms(2) by (auto simp: position_ok_def position_order)
  from mapPosition_loop_correct [OF first_position_ok(1) _ assms(2) this assms(3,4), of "app 0 (tview v E) v" "[]"]
    assms(1,5) show ?thesis
    by (simp add: first_position_ok text_edit_ok_def TextEdit_mapPosition_def mapPosition_start)
qed

section \<open>Mapping positions through the ranges of an edit\<close>

text \<open>The mapping from the replaced ranges to the new ones.\<close>

definition edit_mappings :: "text_edit \<Rightarrow> single_range_mapping list" where
  "edit_mappings E = map2 (\<lambda>r g. MkSingleRangeMapping (tr_range r) g) E (TextEdit_getNewRanges E)"

abbreviation mappings_from :: "position \<Rightarrow> position \<Rightarrow> text_edit \<Rightarrow> single_range_mapping list" where
  "mappings_from e e' E \<equiv> map2 (\<lambda>r g. MkSingleRangeMapping (tr_range r) g) E (new_ranges e e' E)"

lemma text_edit_starts_sorted:
  "text_edit_from v p E \<Longrightarrow> sorted_wrt (\<lambda>r q. tr_start r \<le> tr_start q) E \<and> (\<forall>r \<in> set E. p \<le> tr_start r)"
proof (induction E arbitrary: p)
  case (Cons r E)
  then show ?case using Cons.IH [of "tr_end r"] by auto (meson order_trans)+
qed simp

lemma findLastMonotonous_Cons:
  assumes "sorted_wrt (\<lambda>x y. p y \<longrightarrow> p x) (x # xs)"
  shows "findLastMonotonous (x # xs) p =
    (if p x then (case findLastMonotonous xs p of None \<Rightarrow> Some x | Some y \<Rightarrow> Some y) else None)"
proof -
  let ?k = "length (takeWhile p xs)"
  have b: "border (x # xs) p (length (takeWhile p (x # xs)))"
    by (rule sorted_wrt_border [OF assms]) simp
  have "sorted_wrt (\<lambda>x y. p y \<longrightarrow> p x) xs" using assms by simp
  then have b': "border xs p ?k" by (rule sorted_wrt_border) simp
  show ?thesis
    using findLastMonotonous_border [OF b] findLastMonotonous_border [OF b']
    by (cases "takeWhile p xs") auto
qed

text \<open>The two ends up to which text and result correspond before position \<open>p\<close>.\<close>

fun last_mapping :: "position \<Rightarrow> position \<Rightarrow> text_edit \<Rightarrow> position \<Rightarrow> position \<times> position" where
  "last_mapping e e' [] p = (e, e')"
| "last_mapping e e' (r # E) p =
     (if tr_start r \<le> p
      then last_mapping (tr_end r) (TextLength_addToPosition (utf16_length (tr_text r))
        (TextLength_addToPosition (TextLength_betweenPositions e (tr_start r)) e')) E p
      else (e, e'))"

definition outside_edit :: "text_edit \<Rightarrow> position \<Rightarrow> bool" where
  "outside_edit E p \<longleftrightarrow> (\<forall>r \<in> set E. p < tr_start r \<or> tr_end r < p)"

lemma text_edit_ranges_ok: "text_edit_from v p E \<Longrightarrow> r \<in> set E \<Longrightarrow> range_ok (tr_range r)"
  by (induction E arbitrary: p) (auto simp: range_ok_def)

lemma mappings_original:
  "m \<in> set (map2 (\<lambda>r g. MkSingleRangeMapping (tr_range r) g) E gs) \<Longrightarrow>
    \<exists>r \<in> set E. srm_original m = tr_range r"
  by (auto dest!: set_zip_leftD)

lemma mappings_sorted:
  assumes "text_edit_from v q E"
  shows "sorted_wrt (\<lambda>x y. Position_isBeforeOrEqual (Range_getStartPosition (srm_original y)) p \<longrightarrow>
      Position_isBeforeOrEqual (Range_getStartPosition (srm_original x)) p) (mappings_from d d' E)"
  using assms
proof (induction E arbitrary: d d' q)
  case (Cons x E)
  let ?t = "TextLength_addToPosition (utf16_length (tr_text x))
    (TextLength_addToPosition (TextLength_betweenPositions d (tr_start x)) d')"
  have "tr_start x \<le> p" if m: "m \<in> set (mappings_from (tr_end x) ?t E)"
      and le: "Range_getStartPosition (srm_original m) \<le> p" for m
  proof -
    obtain r where "r \<in> set E" "srm_original m = tr_range r" using mappings_original [OF m] by blast
    then have "tr_start x \<le> Range_getStartPosition (srm_original m)"
      using text_edit_starts_sorted [OF Cons.prems] by simp
    then show ?thesis using le by (rule order_trans)
  qed
  moreover have "sorted_wrt (\<lambda>x y. Position_isBeforeOrEqual (Range_getStartPosition (srm_original y)) p \<longrightarrow>
      Position_isBeforeOrEqual (Range_getStartPosition (srm_original x)) p) (mappings_from (tr_end x) ?t E)"
    using Cons.IH [of "tr_end x" "tr_end x" ?t] Cons.prems by simp
  ultimately show ?case unfolding new_ranges.simps Let_def by (simp del: set_map)
qed simp

lemma findLastMonotonous_mappings:
  assumes "text_edit_from v e E"
  shows "(case findLastMonotonous (mappings_from e e' E)
        (\<lambda>m. Position_isBeforeOrEqual (Range_getStartPosition (srm_original m)) p) of
      None \<Rightarrow> last_mapping e e' E p = (e, e') \<and> (\<forall>r \<in> set E. p < tr_start r)
    | Some m \<Rightarrow> last_mapping e e' E p =
        (Range_getEndPosition (srm_original m), Range_getEndPosition (srm_modified m)) \<and>
        srm_original m \<in> tr_range ` set E)"
  using assms
proof (induction E arbitrary: e e')
  case Nil
  have "findLastMonotonous ([] :: single_range_mapping list) q = None" for q
    using findLastMonotonous_border [of "[]" q 0] by (simp add: border_def)
  then show ?case by simp
next
  case (Cons r E)
  let ?s = "TextLength_addToPosition (TextLength_betweenPositions e (tr_start r)) e'"
  let ?t = "TextLength_addToPosition (utf16_length (tr_text r)) ?s"
  let ?m = "MkSingleRangeMapping (tr_range r) (Range_fromPositions ?s ?t)"
  let ?P = "\<lambda>m. Position_isBeforeOrEqual (Range_getStartPosition (srm_original m)) p"
  have ms: "mappings_from e e' (r # E) = ?m # mappings_from (tr_end r) ?t E" by (simp add: Let_def)
  have E: "text_edit_from v (tr_end r) E" "tr_start r \<le> tr_end r" using Cons.prems by auto
  have t: "Range_getEndPosition (Range_fromPositions ?s ?t) = ?t"
    by (rule Range_fromPositions_ends) (simp add: addToPosition_ge)
  have st: "\<forall>q \<in> set E. tr_start r \<le> tr_start q"
    using text_edit_starts_sorted [OF E(1)] E(2) by auto
  have "sorted_wrt (\<lambda>x y. ?P y \<longrightarrow> ?P x) (?m # mappings_from (tr_end r) ?t E)"
    using mappings_sorted [OF Cons.prems, of p e e'] unfolding ms .
  note fl = findLastMonotonous_Cons [OF this]
  show ?case
  proof (cases "tr_start r \<le> p")
    case True
    have IH: "case findLastMonotonous (mappings_from (tr_end r) ?t E) ?P of
          None \<Rightarrow> last_mapping (tr_end r) ?t E p = (tr_end r, ?t) \<and> (\<forall>r \<in> set E. p < tr_start r)
        | Some m \<Rightarrow> last_mapping (tr_end r) ?t E p =
            (Range_getEndPosition (srm_original m), Range_getEndPosition (srm_modified m)) \<and>
            srm_original m \<in> tr_range ` set E"
      by (rule Cons.IH [OF E(1)])
    show ?thesis
      unfolding ms fl using True IH t
      by (cases "findLastMonotonous (mappings_from (tr_end r) ?t E) ?P") auto
  next
    case False
    then show ?thesis unfolding ms fl using st by auto
  qed
qed

lemma last_mapping_correct:
  assumes "position_ok v e" "text_edit_from v e E" "position_ok v p" "e \<le> p" "outside_edit E p"
    and "w = P @ app (position_offset v e) (tview v E) (idrop (position_offset v e) v)"
    and "last_mapping e (reach P) E p = (d, d')"
  shows "d \<le> p \<and> (\<exists>n. amap (tview v E) (ilen P - position_offset v e) (position_offset v p) = Inl n \<and>
    PositionOffsetTransformer_getPosition w n =
      Some (TextLength_addToPosition (TextLength_betweenPositions d p) d'))"
  using assms
proof (induction E arbitrary: e P)
  case Nil
  let ?i = "position_offset v e"
  have b: "0 \<le> ?i" "?i \<le> ilen v" "position_offset v p \<le> ilen v"
    using position_offset_bounds [OF Nil(1)] position_offset_bounds [OF Nil(3)] by auto
  have "itake (ilen v - ?i) (idrop ?i v) = idrop ?i v" using b by (intro itake_all) simp
  then have "w = P @ itake (ilen v - ?i) (idrop ?i v) @ []" using Nil(6) by simp
  from reach_between_position [OF Nil(1,3,4) b(3) order_refl this] Nil(4,7) show ?case by simp
next
  case (Cons r E)
  let ?i = "position_offset v e" and ?p = "position_offset v p"
  let ?s = "position_offset v (tr_start r)" and ?t = "position_offset v (tr_end r)"
  have r: "position_ok v (tr_start r)" "position_ok v (tr_end r)" "e \<le> tr_start r" "tr_start r \<le> tr_end r"
    "text_edit_from v (tr_end r) E" using Cons.prems(2) by auto
  have o: "0 \<le> ?i" "?i \<le> ?s" "?s \<le> ?t" "?t \<le> ilen v" "?s \<le> ilen v"
    using position_offset_bounds r Cons.prems(1) position_offset_le_iff by auto
  have le: "?p \<le> ?s \<longleftrightarrow> p \<le> tr_start r" "?p < ?t \<longleftrightarrow> p < tr_end r"
    using position_offset_le_iff [OF Cons.prems(3) r(1)] position_offset_le_iff [OF r(2) Cons.prems(3)] by auto
  define P1 where "P1 = P @ itake (?s - ?i) (idrop ?i v)"
  have l1: "ilen P1 = ?s + (ilen P - ?i)" using o by (simp add: P1_def)
  have w: "w = P1 @ tr_text r @ app ?t (tview v E) (idrop ?t v)"
    unfolding Cons.prems(6) P1_def using o by (simp add: idrop_idrop)
  show ?case
  proof (cases "tr_start r \<le> p")
    case False
    have "w = P @ itake (?s - ?i) (idrop ?i v) @ tr_text r @ app ?t (tview v E) (idrop ?t v)"
      using w by (simp add: P1_def)
    moreover have "p \<le> tr_start r" "?p \<le> ?s" using False le by auto
    ultimately show ?thesis
      using reach_between_position [OF Cons.prems(1,3,4) _ o(5)] False Cons.prems(4,7) by simp
  next
    case True
    then have p: "tr_start r < p" "tr_end r < p"
      using Cons.prems(5) r(4) by (auto simp: outside_edit_def)
    have s1: "TextLength_addToPosition (TextLength_betweenPositions e (tr_start r)) (reach P) = reach P1"
      unfolding P1_def by (rule reach_between [OF Cons.prems(1) r(1,3)])
    have w2: "w = (P1 @ tr_text r) @ app ?t (tview v E) (idrop ?t v)" using w by simp
    have d: "ilen (P1 @ tr_text r) - ?t = ilen P - ?i + (ilen (tr_text r) - (?t - ?s))" using l1 by simp
    have np: "\<not> p \<le> tr_start r" "\<not> p < tr_end r" using p by simp_all
    have am: "amap (tview v (r # E)) (ilen P - ?i) ?p = amap (tview v E) (ilen (P1 @ tr_text r) - ?t) ?p"
      unfolding d using np le by simp
    have lm: "last_mapping (tr_end r) (reach (P1 @ tr_text r)) E p = (d, d')"
      using Cons.prems(7) True by (simp add: s1 reach_append)
    have out: "outside_edit E p" using Cons.prems(5) by (simp add: outside_edit_def)
    from Cons.IH [OF r(2,5) Cons.prems(3) _ out w2 lm] p show ?thesis unfolding am by simp
  qed
qed

lemma RangeMapping_mapPosition_correct:
  assumes "text_edit_ok v E" "position_ok v p" "plain_texts E" "outside_edit E p"
  shows "\<exists>q n. RangeMapping_mapPosition (edit_mappings E) p = Inl q \<and>
    amap (tview v E) 0 (position_offset v p) = Inl n \<and>
    PositionOffsetTransformer_getPosition (app 0 (tview v E) v) n = Some q"
proof -
  let ?one = "Position 1 1" and ?w = "app 0 (tview v E) v"
  have from1: "text_edit_from v ?one E" using assms(1) by (simp add: text_edit_ok_def)
  have one: "?one \<le> p" using assms(2) by (auto simp: position_ok_def position_order)
  have ms: "edit_mappings E = mappings_from ?one ?one E"
    by (simp add: edit_mappings_def getNewRanges_eq [OF assms(3,1)])
  obtain d d' where lm: "last_mapping ?one ?one E p = (d, d')" by force
  have "d \<le> p \<and> (\<exists>n. amap (tview v E) 0 (position_offset v p) = Inl n \<and>
      PositionOffsetTransformer_getPosition ?w n =
        Some (TextLength_addToPosition (TextLength_betweenPositions d p) d'))"
    using last_mapping_correct [OF first_position_ok(1) from1 assms(2) one assms(4), of ?w "[]" d d'] lm
    by (simp add: first_position_ok)
  moreover have "RangeMapping_mapPosition (edit_mappings E) p =
      Inl (TextLength_addToPosition (TextLength_betweenPositions d p) d')"
  proof (cases "findLastMonotonous (edit_mappings E)
      (\<lambda>m. Position_isBeforeOrEqual (Range_getStartPosition (srm_original m)) p)")
    case None
    then have "d = ?one" "d' = ?one"
      using findLastMonotonous_mappings [OF from1, of ?one p] lm by (simp_all add: ms)
    then show ?thesis using None by (simp add: RangeMapping_mapPosition_def)
  next
    case (Some m)
    then have m: "d = Range_getEndPosition (srm_original m)" "d' = Range_getEndPosition (srm_modified m)"
      "srm_original m \<in> tr_range ` set E"
      using findLastMonotonous_mappings [OF from1, of ?one p] lm by (simp_all add: ms)
    then have "p \<notin> range_set (srm_original m)"
      using assms(4) by (auto simp: range_set_def outside_edit_def)
    moreover have "range_ok (srm_original m)"
      using m(3) text_edit_ranges_ok [OF from1] by auto
    ultimately show ?thesis using Some m by (simp add: RangeMapping_mapPosition_def)
  qed
  ultimately show ?thesis by auto
qed

text \<open>The way back: the reverse mapping takes the new position to the old one.\<close>

lemma between_moves:
  "TextLength_betweenPositions d' (TextLength_addToPosition (TextLength_betweenPositions d p) d') = TextLength_betweenPositions d p"
  "TextLength_addToPosition (TextLength_betweenPositions d p) d = p"
  "d \<le> p \<Longrightarrow> p < s \<Longrightarrow> TextLength_addToPosition (TextLength_betweenPositions d p) d' <
    TextLength_addToPosition (TextLength_betweenPositions d s) d'"
  "d \<le> p \<Longrightarrow> d' \<le> TextLength_addToPosition (TextLength_betweenPositions d p) d'"
  "d < p \<Longrightarrow> d' < TextLength_addToPosition (TextLength_betweenPositions d p) d'"
  by (auto simp: TextLength_addToPosition_def TextLength_betweenPositions_def position_order position.expand)

lemma new_ranges_later:
  assumes "text_edit_from v e E" "m \<in> set (mappings_from e e' E)"
  shows "e' \<le> Range_getStartPosition (srm_modified m)"
  using assms
proof (induction E arbitrary: e e')
  case (Cons r E)
  let ?s = "TextLength_addToPosition (TextLength_betweenPositions e (tr_start r)) e'"
  let ?t = "TextLength_addToPosition (utf16_length (tr_text r)) ?s"
  have E: "text_edit_from v (tr_end r) E" "e \<le> tr_start r" using Cons.prems(1) by auto
  have le: "e' \<le> ?s" "?s \<le> ?t" using between_moves(4) [OF E(2)] addToPosition_ge by auto
  have "m = MkSingleRangeMapping (tr_range r) (Range_fromPositions ?s ?t) \<or> m \<in> set (mappings_from (tr_end r) ?t E)"
    using Cons.prems(2) by (auto simp: Let_def)
  then show ?case
  proof
    assume "m \<in> set (mappings_from (tr_end r) ?t E)"
    then show ?thesis using Cons.IH [OF E(1), of ?t] le by auto
  qed (use le Range_fromPositions_ends(1) [OF le(2)] in simp)
qed simp

lemma last_mapping_back:
  assumes "text_edit_from v e E" "e \<le> p" "outside_edit E p" "last_mapping e e' E p = (d, d')"
    and q: "q = TextLength_addToPosition (TextLength_betweenPositions d p) d'"
  shows "d \<le> p \<and> e' \<le> q \<and>
    (\<forall>m\<in>set (mappings_from e e' E). Range_getStartPosition (srm_modified m) \<le> q \<longleftrightarrow> Range_getStartPosition (srm_original m) \<le> p)"
  using assms(1-4)
proof (induction E arbitrary: e e')
  case Nil
  then show ?case using between_moves(4) q by simp
next
  case (Cons r E)
  let ?s = "TextLength_addToPosition (TextLength_betweenPositions e (tr_start r)) e'"
  let ?t = "TextLength_addToPosition (utf16_length (tr_text r)) ?s"
  let ?m = "MkSingleRangeMapping (tr_range r) (Range_fromPositions ?s ?t)"
  have ms: "mappings_from e e' (r # E) = ?m # mappings_from (tr_end r) ?t E" by (simp add: Let_def)
  have r: "text_edit_from v (tr_end r) E" "e \<le> tr_start r" "tr_start r \<le> tr_end r" using Cons.prems(1) by auto
  have le: "e' \<le> ?s" "?s \<le> ?t" using between_moves(4) [OF r(2)] addToPosition_ge by auto
  have st: "Range_getStartPosition (srm_modified ?m) = ?s" using Range_fromPositions_ends(1) [OF le(2)] by simp
  show ?case
  proof (cases "tr_start r \<le> p")
    case True
    then have p: "tr_end r < p" "outside_edit E p" using Cons.prems(3) r(3) by (auto simp: outside_edit_def)
    have "last_mapping (tr_end r) ?t E p = (d, d')" using Cons.prems(4) True by simp
    from Cons.IH [OF r(1) less_imp_le [OF p(1)] p(2) this] have IH: "d \<le> p" "?t \<le> q"
      "\<forall>m\<in>set (mappings_from (tr_end r) ?t E). Range_getStartPosition (srm_modified m) \<le> q \<longleftrightarrow> Range_getStartPosition (srm_original m) \<le> p" by auto
    then have "?s \<le> q" "e' \<le> q" using le by (meson order_trans)+
    then show ?thesis unfolding ms using IH st True by simp
  next
    case False
    then have d: "d = e" "d' = e'" "p < tr_start r" using Cons.prems(4) by auto
    have lt: "q < ?s" unfolding q d using between_moves(3) [OF Cons.prems(2) d(3)] .
    have "\<not> Range_getStartPosition (srm_modified m) \<le> q \<and> \<not> Range_getStartPosition (srm_original m) \<le> p"
      if m: "m \<in> set (mappings_from (tr_end r) ?t E)" for m
    proof -
      have "?t \<le> Range_getStartPosition (srm_modified m)" using new_ranges_later [OF r(1) m] .
      moreover obtain x where "x \<in> set E" "srm_original m = tr_range x" using mappings_original [OF m] by blast
      then have "tr_end r \<le> Range_getStartPosition (srm_original m)" using text_edit_starts_sorted [OF r(1)] by simp
      ultimately show ?thesis using lt le(2) d(3) r(3) by (meson leD less_le_trans order_trans)
    qed
    moreover have "e' \<le> q" unfolding q d using between_moves(4) [OF Cons.prems(2)] .
    moreover have "\<not> ?s \<le> q" "\<not> tr_start r \<le> p" using lt d(3) by auto
    ultimately show ?thesis unfolding ms using st d(1) Cons.prems(2) by simp
  qed
qed

lemma findLastMonotonous_map:
  assumes "sorted_wrt (\<lambda>x y. P y \<longrightarrow> P x) xs" "\<forall>x\<in>set xs. Q (f x) \<longleftrightarrow> P x"
  shows "findLastMonotonous (map f xs) Q = map_option f (findLastMonotonous xs P)"
proof -
  have b: "border xs P (length (takeWhile P xs))" by (rule sorted_wrt_border [OF assms(1)]) simp
  then have "border (map f xs) Q (length (takeWhile P xs))" using assms(2) by (auto simp: border_iff)
  then show ?thesis using findLastMonotonous_border [OF b] findLastMonotonous_border border_iff [of xs P] b by fastforce
qed

lemma RangeMapping_reverse_back:
  assumes "text_edit_ok v E" "position_ok v p" "plain_texts E" "outside_edit E p" "RangeMapping_mapPosition (edit_mappings E) p = Inl q"
  shows "RangeMapping_mapPosition (RangeMapping_reverse (edit_mappings E)) q = Inl p"
proof -
  let ?one = "Position 1 1"
  let ?P = "\<lambda>m. Position_isBeforeOrEqual (Range_getStartPosition (srm_original m)) p"
  let ?Q = "\<lambda>m. Position_isBeforeOrEqual (Range_getStartPosition (srm_original m)) q"
  have from1: "text_edit_from v ?one E" using assms(1) by (simp add: text_edit_ok_def)
  have one: "?one \<le> p" using assms(2) by (auto simp: position_ok_def position_order)
  have ms: "edit_mappings E = mappings_from ?one ?one E"
    by (simp add: edit_mappings_def getNewRanges_eq [OF assms(3,1)])
  obtain d d' where lm: "last_mapping ?one ?one E p = (d, d')" by force
  note fl = findLastMonotonous_mappings [OF from1, of ?one p, folded ms, unfolded lm]
  have cont: "\<not> Range_containsPosition (srm_original m) p" if "srm_original m \<in> tr_range ` set E" for m
  proof -
    obtain x where x: "x \<in> set E" "srm_original m = tr_range x" using \<open>srm_original m \<in> _\<close> by blast
    then have "p < tr_start x \<or> tr_end x < p" "range_ok (tr_range x)" using assms(4) text_edit_ranges_ok [OF from1] by (auto simp: outside_edit_def)
    then show ?thesis using x(2) by (auto simp: range_set_def)
  qed
  have q: "q = TextLength_addToPosition (TextLength_betweenPositions d p) d'"
  proof (cases "findLastMonotonous (edit_mappings E) ?P")
    case None
    then show ?thesis using fl assms(5) between_moves(2) by (auto simp: RangeMapping_mapPosition_def)
  next
    case (Some m)
    then show ?thesis using fl assms(5) cont [of m] by (auto simp: RangeMapping_mapPosition_def)
  qed
  note bk = last_mapping_back [OF from1 one assms(4) lm q, folded ms]
  have "sorted_wrt (\<lambda>x y. ?P y \<longrightarrow> ?P x) (edit_mappings E)" using mappings_sorted [OF from1, of p] unfolding ms .
  moreover have "\<forall>m\<in>set (edit_mappings E). ?Q (SingleRangeMapping_reverse m) \<longleftrightarrow> ?P m" using bk by (simp add: SingleRangeMapping_reverse_def)
  ultimately have rev: "findLastMonotonous (RangeMapping_reverse (edit_mappings E)) ?Q =
      map_option SingleRangeMapping_reverse (findLastMonotonous (edit_mappings E) ?P)"
    unfolding RangeMapping_reverse_def by (rule findLastMonotonous_map)
  show ?thesis
  proof (cases "findLastMonotonous (edit_mappings E) ?P")
    case None
    then have "d = ?one" "d' = ?one" using fl by simp_all
    then show ?thesis using None rev q between_moves(2) by (simp add: RangeMapping_mapPosition_def)
  next
    case (Some m)
    then have m: "d = Range_getEndPosition (srm_original m)" "d' = Range_getEndPosition (srm_modified m)" "srm_original m \<in> tr_range ` set E"
      using fl by simp_all
    then obtain x where x: "x \<in> set E" "srm_original m = tr_range x" by blast
    then have "p < tr_start x \<or> tr_end x < p" "tr_start x \<le> tr_end x" "d = tr_end x"
      using assms(4) m(1) text_edit_ranges_ok [OF from1] by (auto simp: outside_edit_def range_ok_def)
    then have "d < p" using bk by (meson leD le_less_trans order_trans)
    then have "d' < q" unfolding q by (rule between_moves(5))
    then have "\<not> Range_containsPosition (srm_modified m) q" by (auto simp: Range_containsPosition_def m(2) Range_getEndPosition_def position_order)
    then show ?thesis using Some rev m(1,2) between_moves(1,2) q
      by (simp add: RangeMapping_mapPosition_def SingleRangeMapping_reverse_def)
  qed
qed

text \<open>
  By how many columns \<open>mapPosition\<close> misses the place of a position behind a replacement. It adds what
  remains of the last line of the replaced range as if the new text began at column 1.
\<close>

definition column_error :: "text_replacement \<Rightarrow> position \<Rightarrow> int" where
  "column_error r p =
     (if lineNumber p \<noteq> lineNumber (tr_end r) then 0
      else if LF \<in> set (tr_text r) then column (tr_end r) - 1
      else if lineNumber (tr_start r) = lineNumber (tr_end r) then 0 else 1 - column (tr_start r))"

lemma mapPosition_single:
  assumes "text_edit_ok v [r]" "plain_texts [r]" "tr_end r < p"
  shows "\<exists>q. RangeMapping_mapPosition (edit_mappings [r]) p = Inl q \<and>
    TextEdit_mapPosition [r] p = Some (Inl (Position (lineNumber q) (column q + column_error r p)))"
proof -
  let ?one = "Position 1 1"
  let ?s = "TextLength_addToPosition (TextLength_betweenPositions ?one (tr_start r)) ?one"
  let ?t = "TextLength_addToPosition (utf16_length (tr_text r)) ?s"
  have from1: "text_edit_from v ?one [r]" using assms(1) by (simp add: text_edit_ok_def)
  have r: "?one \<le> tr_start r" "tr_start r \<le> tr_end r" using from1 by auto
  have s: "?s = tr_start r" by (rule between_moves(2))
  have len: "TextLength_ofText (tr_text r) = utf16_length (tr_text r)" using assms(2) by (simp add: plain_texts_def ofText_plain)
  have ms: "edit_mappings [r] = mappings_from ?one ?one [r]" by (simp add: edit_mappings_def getNewRanges_eq [OF assms(2,1)])
  have st: "tr_start r \<le> p" "\<not> p \<le> tr_start r" "\<not> p < tr_end r" using r(2) assms(3) by (auto intro: order_trans less_imp_le)
  have lm: "last_mapping ?one ?one [r] p = (tr_end r, ?t)" using st(1) by simp
  have out: "outside_edit [r] p" using assms(3) by (simp add: outside_edit_def)
  let ?q = "TextLength_addToPosition (TextLength_betweenPositions (tr_end r) p) ?t"
  let ?P = "\<lambda>m. Position_isBeforeOrEqual (Range_getStartPosition (srm_original m)) p"
  note fl = findLastMonotonous_mappings [OF from1, of ?one p, folded ms, unfolded lm]
  have q: "RangeMapping_mapPosition (edit_mappings [r]) p = Inl ?q"
  proof (cases "findLastMonotonous (edit_mappings [r]) ?P")
    case None
    then show ?thesis using fl st by auto
  next
    case (Some m)
    then have h: "(tr_end r, ?t) = (Range_getEndPosition (srm_original m), Range_getEndPosition (srm_modified m)) \<and> srm_original m \<in> tr_range ` set [r]"
      using fl by (simp only: option.case)
    have m: "?t = Range_getEndPosition (srm_modified m)" using h by blast
    have o: "srm_original m = tr_range r" using conjunct2 [OF h] by simp
    have "\<not> Range_containsPosition (tr_range r) p" using assms(3) by (auto simp: Range_containsPosition_def Range_getEndPosition_def position_order)
    then show ?thesis using Some by (simp add: RangeMapping_mapPosition_def o m [symmetric])
  qed
  obtain sl sc el ec where g: "tr_range r = MkRange sl sc el ec" by (cases "tr_range r")
  obtain pl pc where p: "p = Position pl pc" by (cases p)
  obtain n k where u: "utf16_length (tr_text r) = MkTextLength n k" "n = 0 \<longleftrightarrow> LF \<notin> set (tr_text r)"
    using utf16_single_line [of "tr_text r"] by (cases "utf16_length (tr_text r)") auto
  have ends: "tr_start r = Position sl sc" "tr_end r = Position el ec" using g by (simp_all add: Range_getStartPosition_def Range_getEndPosition_def)
  obtain ld cl cd where step: "mapPosition_step (tr_range r) (utf16_length (tr_text r)) 0 0 0 = (ld, cl, cd)" by (metis prod_cases3)
  have lt: "el < pl \<or> el = pl \<and> ec < pc" using assms(3) by (simp add: ends p position_order)
  have ld: "ld = n - (el - sl)" "cl = el + ld"
    "cd = (if n = 0 then if el \<noteq> sl then k - (ec - 1) else k - (ec - sc) else k)"
    using step by (auto simp: mapPosition_step_def Let_def u(1) g range_ends)
  have "mapPosition_loop [r] p 0 0 0 = Some (Inl (Position (pl + ld) (pc + (if pl + ld = cl then cd else 0))))"
    using st len step by (simp add: Let_def p)
  moreover have "column_error r p = (if pl \<noteq> el then 0 else if n \<noteq> 0 then ec - 1 else if sl = el then 0 else 1 - sc)"
    by (simp add: column_error_def ends p u(2))
  moreover have "?q = (if pl = el then TextLength_addToPosition (MkTextLength 0 (pc - ec)) (if n = 0 then Position sl (sc + k) else Position (sl + n) (k + 1))
      else Position (pl - el + (if n = 0 then sl else sl + n)) pc)"
    unfolding s by (simp add: ends p u(1) TextLength_betweenPositions_def TextLength_addToPosition_def)
  ultimately have "mapPosition_loop [r] p 0 0 0 = Some (Inl (Position (lineNumber ?q) (column ?q + column_error r p)))"
    using lt by (auto simp: ld TextLength_addToPosition_def)
  then have "TextEdit_mapPosition [r] p = Some (Inl (Position (lineNumber ?q) (column ?q + column_error r p)))"
    by (simp only: TextEdit_mapPosition_def)
  with q show ?thesis by blast
qed

section \<open>Properties\<close>

lemma string_getNewRanges_loop:
  "achain p A \<Longrightarrow> getNewRanges_loop string_ops (reps A) d acc = Some (acc @ map fst (ainv f d A))"
proof (induction p A arbitrary: d acc rule: achain.induct)
  case (2 p g c A)
  then show ?case
    by (cases g) (simp add: OffsetRange_ofStartAndLength_def BaseReplacement_getLengthDelta_def)
qed simp

lemma string_getNewRanges: "achain 0 A \<Longrightarrow> BaseEdit_getNewRanges string_ops (reps A) = Some (replaced_ranges A)"
  using string_getNewRanges_loop [of 0 A 0 "[]"]
  by (simp add: BaseEdit_getNewRanges_def replaced_ranges_def)

lemma text_normalize_correct:
  assumes "text_edit_ok v E"
  shows "text_edit_ok v (TextEdit_normalize E)" "text_normal (TextEdit_normalize E)"
    "app 0 (tview v (TextEdit_normalize E)) v = app 0 (tview v E) v"
  using text_normalize_loop_correct [of v "[]" E] assms by (simp_all add: TextEdit_normalize_def text_edit_ok_def)

text \<open>
  C2. Applying a text edit is applying the string edit of its offsets. If the ranges of an edit
  are positions of the text, sorted and disjoint, the translation \<open>getStringEdit\<close> succeeds, and
  \<open>apply\<close> on the string, on the string as a text and on the same text held as an array of lines
  returns what the string edit returns. \<open>normalize\<close> has the same effect, and leaves no empty
  replacement and no two that touch.
\<close>

theorem text_edit_refines_string_edit:
  assumes "text_edit_ok v E" and "ilen v + 1 < MAX_SAFE_INTEGER"
  shows "\<exists>S. PositionOffsetTransformer_getStringEdit v E = Some S \<and>
    TextEdit_applyToString E v = Some (StringEdit_apply S v) \<and>
    TextEdit_applyToString (TextEdit_normalize E) v = Some (StringEdit_apply S v) \<and>
    text_normal (TextEdit_normalize E) \<and> TextEdit_check E \<and> TextEdit_check (TextEdit_normalize E) \<and>
    (\<forall>ls. lines_ok ls \<and> v = join_lines ls \<longrightarrow> TextEdit_apply E (ArrayText ls) = Some (StringEdit_apply S v))"
proof -
  have ap: "TextEdit_applyToString F v = Some (app 0 (tview v F) v)" if "text_edit_ok v F" for F
    using string_text.apply_app [of v F] that assms(2) by (simp add: TextEdit_applyToString_def)
  have chk: "TextEdit_check F" if "text_edit_ok v F" for F
    using that text_edit_check by (auto simp: text_edit_ok_def)
  note n = text_normalize_correct [OF assms(1)]
  have s: "app 0 (tview v E) v = StringEdit_apply (reps (tview v E)) v"
    by (rule StringEdit_apply_replacements [OF tview_chain0 [OF assms(1)], symmetric])
  have arr: "\<forall>ls. lines_ok ls \<and> v = join_lines ls \<longrightarrow>
      TextEdit_apply E (ArrayText ls) = Some (StringEdit_apply (reps (tview v E)) v)"
    unfolding s [symmetric] using array_text.apply_app assms by auto
  show ?thesis
    using getStringEdit_tview [OF assms(1)] ap [OF assms(1), unfolded s] ap [OF n(1), unfolded n(3) s]
      chk [OF assms(1)] chk [OF n(1)] n(2) arr by blast
qed

theorem text_edit_refines_string_edit_witness:
  "TextEdit_applyToString [MkTextReplacement (MkRange 1 2 2 1) [120]] [97, 98, LF, 99] = Some [97, 120, 99]"
proof -
  let ?E = "[MkTextReplacement (MkRange 1 2 2 1) [120]]" and ?v = "[97, 98, LF, 99]"
  have "text_edit_ok ?v ?E" by code_simp
  moreover have "ilen ?v + 1 < MAX_SAFE_INTEGER" by (simp add: MAX_SAFE_INTEGER_def)
  ultimately obtain S where S: "PositionOffsetTransformer_getStringEdit ?v ?E = Some S"
      "TextEdit_applyToString ?E ?v = Some (StringEdit_apply S ?v)"
    using text_edit_refines_string_edit by blast
  have "PositionOffsetTransformer_getStringEdit ?v ?E = Some [MkStringReplacement (MkOffsetRange 1 3) [120]]"
    by code_simp
  moreover have "StringEdit_apply [MkStringReplacement (MkOffsetRange 1 3) [120]] ?v = [97, 120, 99]"
    by code_simp
  ultimately show ?thesis using S by simp
qed

text \<open>
  C9. The inverse of a text edit restores the text, and \<open>getNewRanges\<close> names the places of the
  new texts: translated to offsets of the edited text they are the new ranges of the string
  edit. Assumed are that no new text has a surrogate pair in its last line and that no end of
  a new range falls between a carriage return and a line feed of the edited text.
\<close>

theorem text_edit_inverse:
  assumes "text_edit_ok v E" and "plain_texts E" and "ilen v + 1 < MAX_SAFE_INTEGER"
    and "TextEdit_applyToString E v = Some w" and "ilen w + 1 < MAX_SAFE_INTEGER"
    and "PositionOffsetTransformer_getStringEdit v E = Some S"
    and "BaseEdit_getNewRanges string_ops S = Some gs" and "clean_seams w gs"
  shows "map (PositionOffsetTransformer_getOffsetRange w) (TextEdit_getNewRanges E) = map Some gs \<and>
    (\<exists>F. TextEdit_inverse E (StringText v) = Some F \<and> TextEdit_check F \<and>
      TextEdit_applyToString F w = Some v)"
proof -
  have w: "w = app 0 (tview v E) v"
    using string_text.apply_app [of v E] assms(1,3,4) by (simp add: TextEdit_applyToString_def)
  have gs: "gs = replaced_ranges (tview v E)"
    using getStringEdit_tview [OF assms(1)] string_getNewRanges [OF tview_chain0(1) [OF assms(1)]] assms(6,7)
    by simp
  have seams: "clean_seams (app 0 (tview v E) v) (replaced_ranges (tview v E))"
    using assms(8) by (simp add: w gs)
  have "list_all2 (denotes_range w) gs (TextEdit_getNewRanges E)"
    unfolding w gs by (rule getNewRanges_denote [OF assms(1,2) seams])
  then have "map (PositionOffsetTransformer_getOffsetRange w) (TextEdit_getNewRanges E) = map Some gs"
    by (induction rule: list_all2_induct) (simp_all add: denotes_range_getOffsetRange)
  moreover obtain F where F: "TextEdit_inverse E (StringText v) = Some F" "text_edit_ok w F"
      "app 0 (tview w F) w = v"
    using string_text.inverse_correct [of v E] assms(1,2) seams w by auto
  moreover have "TextEdit_applyToString F w = Some v"
    using string_text.apply_app [of w F] F assms(5) by (simp add: TextEdit_applyToString_def)
  moreover have "TextEdit_check F" using F(2) text_edit_check by (auto simp: text_edit_ok_def)
  ultimately show ?thesis by blast
qed

theorem text_edit_inverse_witness:
  "\<exists>F. TextEdit_inverse [MkTextReplacement (MkRange 1 2 2 1) [120, LF]] (StringText [97, 98, LF, 99]) = Some F \<and>
    TextEdit_applyToString F [97, 120, LF, 99] = Some [97, 98, LF, 99]"
proof -
  let ?E = "[MkTextReplacement (MkRange 1 2 2 1) [120, LF]]" and ?v = "[97, 98, LF, 99]"
  let ?w = "[97, 120, LF, 99]" and ?S = "[MkStringReplacement (MkOffsetRange 1 3) [120, LF]]"
  have "text_edit_ok ?v ?E" by code_simp
  moreover have "plain_texts ?E" by code_simp
  moreover have "TextEdit_applyToString ?E ?v = Some ?w" by code_simp
  moreover have "PositionOffsetTransformer_getStringEdit ?v ?E = Some ?S" by code_simp
  moreover have "BaseEdit_getNewRanges string_ops ?S = Some [MkOffsetRange 1 3]" by code_simp
  moreover have "clean_seams ?w [MkOffsetRange 1 3]" by code_simp
  moreover have "ilen ?v + 1 < MAX_SAFE_INTEGER" "ilen ?w + 1 < MAX_SAFE_INTEGER"
    by (simp_all add: MAX_SAFE_INTEGER_def)
  ultimately show ?thesis using text_edit_inverse [of ?v ?E ?w ?S "[MkOffsetRange 1 3]"] by blast
qed

text \<open>
  The assumption on surrogate pairs is needed: inserting an emoji (one surrogate pair) at
  the start of a line is not undone by the inverse. \<open>getNewRanges\<close> measures the inserted text
  with \<open>TextLength.ofText\<close>, which counts the pair as one column, so the inverse deletes half of
  the pair and leaves the other half in the text.
\<close>

theorem text_edit_inverse_surrogate:
  "TextEdit_applyToString (TextEdit_insert (Position 1 1) [0xD83D, 0xDE00]) [97] = Some [0xD83D, 0xDE00, 97] \<and>
   TextEdit_inverse (TextEdit_insert (Position 1 1) [0xD83D, 0xDE00]) (StringText [97]) =
     Some [MkTextReplacement (MkRange 1 1 1 2) []] \<and>
   TextEdit_applyToString [MkTextReplacement (MkRange 1 1 1 2) []] [0xD83D, 0xDE00, 97] = Some [0xDE00, 97]"
proof (intro conjI)
  show "TextEdit_applyToString (TextEdit_insert (Position 1 1) [0xD83D, 0xDE00]) [97] = Some [0xD83D, 0xDE00, 97]"
    by code_simp
  show "TextEdit_inverse (TextEdit_insert (Position 1 1) [0xD83D, 0xDE00]) (StringText [97]) =
     Some [MkTextReplacement (MkRange 1 1 1 2) []]"
    by code_simp
  show "TextEdit_applyToString [MkTextReplacement (MkRange 1 1 1 2) []] [0xD83D, 0xDE00, 97] = Some [0xDE00, 97]"
    by code_simp
qed

text \<open>
  C10. \<open>mapPosition\<close> maps every position of the text to the place of its offset in the edited
  text, and a position inside a replaced range to the range of the new text, provided each
  replacement either stays in a line, or ends at column 1 when it inserts a line break and
  starts at column 1 when it does not. Without that proviso the column can be wrong: behind a single replacement of any
  shape it is wrong by exactly \<open>column_error\<close>, against the range mapping of the edit. After inserting a
  line break in the middle of \<open>abcd\<close>, the position before \<open>d\<close> is mapped to column 5 of a line
  of 3 characters. Assumed is that no new text has a surrogate pair in its last line.
\<close>

theorem text_edit_mapPosition:
  assumes "text_edit_ok v E" and "plain_texts E" and "position_ok v p" and "\<forall>r \<in> set E. exact_columns r"
    and "ilen v + 1 < MAX_SAFE_INTEGER"
    and "TextEdit_applyToString E v = Some w" and "ilen w + 1 < MAX_SAFE_INTEGER"
  shows "(\<exists>res S. TextEdit_mapPosition E p = Some res \<and>
      PositionOffsetTransformer_getStringEdit v E = Some S \<and>
      maps_to w (amap (sview S) 0 (position_offset v p)) res) \<and>
    (\<forall>r. text_edit_ok v [r] \<and> plain_texts [r] \<and> tr_end r < p \<longrightarrow>
      (\<exists>q. RangeMapping_mapPosition (edit_mappings [r]) p = Inl q \<and>
        TextEdit_mapPosition [r] p = Some (Inl (Position (lineNumber q) (column q + column_error r p))))) \<and>
    TextEdit_mapPosition (TextEdit_insert (Position 1 3) [120, LF, 121]) (Position 1 4) =
      Some (Inl (Position 2 5)) \<and>
    TextEdit_applyToString (TextEdit_insert (Position 1 3) [120, LF, 121]) [97, 98, 99, 100] =
      Some [97, 98, 120, LF, 121, 99, 100] \<and>
    PositionOffsetTransformer_getPosition [97, 98, 120, LF, 121, 99, 100] 6 = Some (Position 2 3)"
proof -
  have w: "w = app 0 (tview v E) v"
    using string_text.apply_app [of v E] assms(1,5,6) by (simp add: TextEdit_applyToString_def)
  have m: "\<exists>res S. TextEdit_mapPosition E p = Some res \<and>
      PositionOffsetTransformer_getStringEdit v E = Some S \<and>
      maps_to w (amap (sview S) 0 (position_offset v p)) res"
    using mapPosition_correct [OF assms(1,3,2,4)] assms(7) getStringEdit_tview [OF assms(1)] w by auto
  have b1: "TextEdit_mapPosition (TextEdit_insert (Position 1 3) [120, LF, 121]) (Position 1 4) =
      Some (Inl (Position 2 5))" by code_simp
  have b2: "TextEdit_applyToString (TextEdit_insert (Position 1 3) [120, LF, 121]) [97, 98, 99, 100] =
      Some [97, 98, 120, LF, 121, 99, 100]" by code_simp
  have b3: "PositionOffsetTransformer_getPosition [97, 98, 120, LF, 121, 99, 100] 6 = Some (Position 2 3)"
    by code_simp
  from m b1 b2 b3 mapPosition_single show ?thesis by blast
qed

theorem text_edit_mapPosition_witness:
  "\<exists>res S. TextEdit_mapPosition [MkTextReplacement (MkRange 1 1 2 1) [120]] (Position 2 2) = Some res \<and>
    maps_to [120, 98, 99] (amap (sview S) 0 3) res"
proof -
  let ?E = "[MkTextReplacement (MkRange 1 1 2 1) [120]]" and ?v = "[97, LF, 98, 99]" and ?w = "[120, 98, 99]"
  have o: "position_offset ?v (Position 2 2) = 3" by code_simp
  have "text_edit_ok ?v ?E" by code_simp
  moreover have "plain_texts ?E" by code_simp
  moreover have "position_ok ?v (Position 2 2)" by code_simp
  moreover have "\<forall>r \<in> set ?E. exact_columns r" by code_simp
  moreover have "TextEdit_applyToString ?E ?v = Some ?w" by code_simp
  moreover have "ilen ?v + 1 < MAX_SAFE_INTEGER" "ilen ?w + 1 < MAX_SAFE_INTEGER"
    by (simp_all add: MAX_SAFE_INTEGER_def)
  ultimately show ?thesis
    using text_edit_mapPosition [of ?v ?E "Position 2 2" ?w] unfolding o by blast
qed

text \<open>
  C13. The range mapping of an edit, from the replaced ranges to the new ranges, maps every
  position that touches no replaced range to the place of its offset in the edited text,
  whatever the shape of the replacements, and the reverse mapping maps it back. Assumed is that no new text has a
  surrogate pair in its last line.
\<close>

theorem text_edit_range_mapping:
  assumes "text_edit_ok v E" and "plain_texts E" and "position_ok v p" and "outside_edit E p"
    and "ilen v + 1 < MAX_SAFE_INTEGER" and "TextEdit_applyToString E v = Some w"
  shows "\<exists>S q n. PositionOffsetTransformer_getStringEdit v E = Some S \<and>
    RangeMapping_mapPosition (edit_mappings E) p = Inl q \<and>
    amap (sview S) 0 (position_offset v p) = Inl n \<and>
    PositionOffsetTransformer_getPosition w n = Some q \<and>
    RangeMapping_mapPosition (RangeMapping_reverse (edit_mappings E)) q = Inl p"
proof -
  have "w = app 0 (tview v E) v"
    using string_text.apply_app [of v E] assms(1,5,6) by (simp add: TextEdit_applyToString_def)
  then show ?thesis
    using RangeMapping_mapPosition_correct [OF assms(1,3,2,4)] RangeMapping_reverse_back [OF assms(1,3,2,4)] getStringEdit_tview [OF assms(1)] by auto
qed

theorem text_edit_range_mapping_witness:
  "RangeMapping_mapPosition (edit_mappings (TextEdit_insert (Position 1 3) [120, LF, 121])) (Position 1 4) =
     Inl (Position 2 3)"
proof -
  let ?E = "TextEdit_insert (Position 1 3) [120, LF, 121]" and ?v = "[97, 98, 99, 100]"
  let ?w = "[97, 98, 120, LF, 121, 99, 100]" and ?S = "[MkStringReplacement (MkOffsetRange 2 2) [120, LF, 121]]"
  have s: "PositionOffsetTransformer_getStringEdit ?v ?E = Some ?S" by code_simp
  have a: "amap (sview ?S) 0 (position_offset ?v (Position 1 4)) = Inl 6" by code_simp
  have g: "PositionOffsetTransformer_getPosition ?w 6 = Some (Position 2 3)" by code_simp
  have "text_edit_ok ?v ?E" by code_simp
  moreover have "plain_texts ?E" by code_simp
  moreover have "position_ok ?v (Position 1 4)" by code_simp
  moreover have "outside_edit ?E (Position 1 4)" by code_simp
  moreover have "TextEdit_applyToString ?E ?v = Some ?w" by code_simp
  moreover have "ilen ?v + 1 < MAX_SAFE_INTEGER" by (simp add: MAX_SAFE_INTEGER_def)
  ultimately show ?thesis
    using text_edit_range_mapping [of ?v ?E "Position 1 4" ?w] s a g by force
qed

end
