(* ===== verification/TextCompositions.thy ===== *)
theory TextCompositions
  imports TextEditProperties
begin

text \<open>
  \<open>TextEdit.compose\<close> of \<open>vs/editor/common/core/edits/textEdit.ts\<close>, the composition of two edits by
  line and column, with a proof of the invariant its comment states.

  The function walks over the text between the two edits, \<open>s1\<close>, which is made of the pieces of the
  first edit: unchanged gaps of the original text and the new texts. The current piece is the
  \<^emph>\<open>head\<close>. The variables of the function are the fields of \<open>text_compose\<close>; a pair of a line and a
  column variable is a position or a text length, \<open>edit1Idx\<close> is the list of replacements from
  that index on, and a pair of nullable positions is an optional pair. What the code writes out in
  lines and columns are the operations of \<open>TextLength\<close>: the distance of two positions
  (\<open>betweenPositions\<close>) and the end of a length from a position (\<open>addToPosition\<close>).
\<close>

section \<open>The state\<close>

record text_compose =
  tc_rest :: "text_replacement list"
  tc_lastEdit1EndS0 :: position
  tc_headSrcRangeStart :: position
  tc_headSrcRangeEnd :: position
  tc_headText :: "js_string option"
  tc_headLength :: text_length
  tc_headHasValue :: bool
  tc_headIsInfinite :: bool
  tc_currentPosInS1 :: position

definition text_compose_init :: "text_replacement list \<Rightarrow> text_compose" where
  "text_compose_init edits1 =
     \<lparr>tc_rest = edits1, tc_lastEdit1EndS0 = Position 1 1,
      tc_headSrcRangeStart = Position 0 0, tc_headSrcRangeEnd = Position 0 0,
      tc_headText = None, tc_headLength = MkTextLength 0 0,
      tc_headHasValue = False, tc_headIsInfinite = False, tc_currentPosInS1 = Position 1 1\<rparr>"

text \<open>The loop that measures a new text, by UTF-16 code units.\<close>

fun headLength_loop :: "js_string \<Rightarrow> int \<Rightarrow> int \<Rightarrow> text_length" where
  "headLength_loop [] line col = MkTextLength line col"
| "headLength_loop (u # us) line col =
     (if u = 10 then headLength_loop us (line + 1) 0 else headLength_loop us line (col + 1))"

definition compose_ensureHead :: "text_compose \<Rightarrow> text_compose" where
  "compose_ensureHead s =
     (if tc_headHasValue s then s
      else case tc_rest s of
        nextEdit # rest \<Rightarrow>
          let nextEditStart = Range_getStartPosition (tr_range nextEdit)
          in if tc_lastEdit1EndS0 s \<noteq> nextEditStart then
               s\<lparr>tc_headSrcRangeStart := tc_lastEdit1EndS0 s,
                 tc_headSrcRangeEnd := nextEditStart,
                 tc_headText := None,
                 tc_headLength := TextLength_betweenPositions (tc_lastEdit1EndS0 s) nextEditStart,
                 tc_headHasValue := True,
                 tc_lastEdit1EndS0 := nextEditStart\<rparr>
             else
               let nextEditEnd = Range_getEndPosition (tr_range nextEdit)
               in s\<lparr>tc_headSrcRangeStart := nextEditStart,
                    tc_headSrcRangeEnd := nextEditEnd,
                    tc_headText := Some (tr_text nextEdit),
                    tc_headLength := headLength_loop (tr_text nextEdit) 0 0,
                    tc_headHasValue := True,
                    tc_lastEdit1EndS0 := nextEditEnd,
                    tc_rest := rest\<rparr>
      | [] \<Rightarrow>
          s\<lparr>tc_headIsInfinite := True,
            tc_headSrcRangeStart := tc_lastEdit1EndS0 s,
            tc_headHasValue := True\<rparr>)"

text \<open>\<open>text.indexOf('\<setminus>n', offset)\<close>: the offset of the next line feed, or -1.\<close>

fun indexOf_LF :: "js_string \<Rightarrow> int \<Rightarrow> int" where
  "indexOf_LF [] i = - 1"
| "indexOf_LF (u # us) i = (if u = LF then i else indexOf_LF us (i + 1))"

function splitText_loop :: "js_string \<Rightarrow> int \<Rightarrow> int \<Rightarrow> int \<Rightarrow> int option" where
  "splitText_loop t lenLine line offset =
     (if line < lenLine then
        let idx = indexOf_LF (idrop offset t) offset
        in if idx = - 1 then None else splitText_loop t lenLine (line + 1) (idx + 1)
      else Some offset)"
  by pat_completeness auto

termination
  by (relation "measure (\<lambda>(_, lenLine, line, _). nat (lenLine - line))") auto

declare splitText_loop.simps [simp del]

definition splitText :: "js_string \<Rightarrow> text_length \<Rightarrow> (js_string \<times> js_string) option" where
  "splitText t len =
     (if lineCount len = 0 \<and> columnCount len = 0 then Some ([], t)
      else do {
        offset0 \<leftarrow> splitText_loop t (lineCount len) 0 0;
        let offset = offset0 + columnCount len in
        Some (js_substring t 0 offset, js_substring_from t offset)
      })"

definition compose_remaining :: "text_length \<Rightarrow> text_length \<Rightarrow> text_length" where
  "compose_remaining headLength splitLen =
     (if lineCount splitLen = lineCount headLength
      then MkTextLength 0 (columnCount headLength - columnCount splitLen)
      else MkTextLength (lineCount headLength - lineCount splitLen) (columnCount headLength))"

definition compose_replacement :: "position \<Rightarrow> position \<Rightarrow> js_string \<Rightarrow> text_replacement" where
  "compose_replacement p q t = MkTextReplacement (Range_new (lineNumber p) (column p) (lineNumber q) (column q)) t"

definition headEndInS1 :: "text_compose \<Rightarrow> position" where
  "headEndInS1 s = TextLength_addToPosition (tc_headLength s) (tc_currentPosInS1 s)"

text \<open>The number of turns the loops may still take: each one uses up a head.\<close>

definition compose_measure :: "text_compose \<Rightarrow> nat" where
  "compose_measure s =
     2 * length (tc_rest s) +
     (case tc_rest s of [] \<Rightarrow> 0
      | r # _ \<Rightarrow> if tc_lastEdit1EndS0 s = Range_getStartPosition (tr_range r) then 0 else 1) +
     (if tc_headHasValue s then 1 else 0)"

lemma compose_ensureHead_measure:
  "\<not> tc_headIsInfinite (compose_ensureHead s) \<Longrightarrow>
    compose_measure (compose_ensureHead s\<lparr>tc_currentPosInS1 := p, tc_headHasValue := False\<rparr>) < compose_measure s"
  by (cases "tc_rest s") (auto simp: compose_ensureHead_def compose_measure_def Let_def split: list.splits if_splits)

section \<open>The loops\<close>

text \<open>The first loop goes on to the start of a replacement of the second edit.\<close>

function compose_seek ::
    "position \<Rightarrow> text_compose \<Rightarrow> text_replacement list \<Rightarrow> (text_compose \<times> text_replacement list) option" where
  "compose_seek r2Start s0 result =
     (if tc_currentPosInS1 s0 = r2Start then Some (s0, result)
      else let s = compose_ensureHead s0 in
        if tc_headIsInfinite s then
          let dist = TextLength_betweenPositions (tc_currentPosInS1 s) r2Start
          in Some (s\<lparr>tc_currentPosInS1 := r2Start,
                   tc_headSrcRangeStart := TextLength_addToPosition dist (tc_headSrcRangeStart s)\<rparr>, result)
        else if Position_isBefore r2Start (headEndInS1 s) then
          let splitLen = TextLength_betweenPositions (tc_currentPosInS1 s) r2Start;
              remainingLen = compose_remaining (tc_headLength s) splitLen
          in (case tc_headText s of
                Some t \<Rightarrow> do {
                  (t1, t2) \<leftarrow> splitText t splitLen;
                  Some (s\<lparr>tc_headText := Some t2, tc_headLength := remainingLen,
                          tc_headSrcRangeStart := tc_headSrcRangeEnd s, tc_currentPosInS1 := r2Start\<rparr>,
                        result @ [compose_replacement (tc_headSrcRangeStart s) (tc_headSrcRangeEnd s) t1])
                }
              | None \<Rightarrow>
                  Some (s\<lparr>tc_headSrcRangeStart := TextLength_addToPosition splitLen (tc_headSrcRangeStart s),
                          tc_headLength := remainingLen, tc_currentPosInS1 := r2Start\<rparr>, result))
        else compose_seek r2Start (s\<lparr>tc_currentPosInS1 := headEndInS1 s, tc_headHasValue := False\<rparr>)
               (case tc_headText s of
                  Some t \<Rightarrow> result @ [compose_replacement (tc_headSrcRangeStart s) (tc_headSrcRangeEnd s) t]
                | None \<Rightarrow> result))"
  by pat_completeness auto

termination
  by (relation "measure (\<lambda>(_, s, _). compose_measure s)") (simp_all add: compose_ensureHead_measure)

declare compose_seek.simps [simp del]

text \<open>The second loop consumes what the replacement replaces.\<close>

definition consume_to :: "(position \<times> position) option \<Rightarrow> position \<Rightarrow> position \<Rightarrow> (position \<times> position) option" where
  "consume_to consumed p q = Some (case consumed of None \<Rightarrow> (p, q) | Some (start, _) \<Rightarrow> (start, q))"

function compose_consume ::
    "position \<Rightarrow> text_compose \<Rightarrow> (position \<times> position) option \<Rightarrow>
      (text_compose \<times> (position \<times> position) option) option" where
  "compose_consume r2End s0 consumed =
     (if tc_currentPosInS1 s0 = r2End then Some (s0, consumed)
      else let s = compose_ensureHead s0 in
        if tc_headIsInfinite s then
          let dist = TextLength_betweenPositions (tc_currentPosInS1 s) r2End;
              rangeInS0End = TextLength_addToPosition dist (tc_headSrcRangeStart s)
          in Some (s\<lparr>tc_currentPosInS1 := r2End, tc_headSrcRangeStart := rangeInS0End\<rparr>,
                   consume_to consumed (tc_headSrcRangeStart s) rangeInS0End)
        else if Position_isBefore r2End (headEndInS1 s) then
          let splitLen = TextLength_betweenPositions (tc_currentPosInS1 s) r2End;
              remainingLen = compose_remaining (tc_headLength s) splitLen
          in (case tc_headText s of
                Some t \<Rightarrow> do {
                  (_, t2) \<leftarrow> splitText t splitLen;
                  Some (s\<lparr>tc_headText := Some t2, tc_headLength := remainingLen,
                          tc_headSrcRangeStart := tc_headSrcRangeEnd s, tc_currentPosInS1 := r2End\<rparr>,
                        consume_to consumed (tc_headSrcRangeStart s) (tc_headSrcRangeEnd s))
                }
              | None \<Rightarrow>
                  let splitPos = TextLength_addToPosition splitLen (tc_headSrcRangeStart s)
                  in Some (s\<lparr>tc_headSrcRangeStart := splitPos, tc_headLength := remainingLen,
                            tc_currentPosInS1 := r2End\<rparr>,
                           consume_to consumed (tc_headSrcRangeStart s) splitPos))
        else compose_consume r2End (s\<lparr>tc_currentPosInS1 := headEndInS1 s, tc_headHasValue := False\<rparr>)
               (consume_to consumed (tc_headSrcRangeStart s) (tc_headSrcRangeEnd s)))"
  by pat_completeness auto

termination
  by (relation "measure (\<lambda>(_, s, _). compose_measure s)") (simp_all add: compose_ensureHead_measure)

declare compose_consume.simps [simp del]

text \<open>One replacement of the second edit, and all of them.\<close>

definition compose_turn ::
    "text_replacement \<Rightarrow> text_compose \<Rightarrow> text_replacement list \<Rightarrow>
      (text_compose \<times> text_replacement list) option" where
  "compose_turn r2 s0 result0 = do {
     (s1, result) \<leftarrow> compose_seek (Range_getStartPosition (tr_range r2)) s0 result0;
     (s2, consumed) \<leftarrow> compose_consume (Range_getEndPosition (tr_range r2)) s1 None;
     Some (case consumed of
       Some (start, end) \<Rightarrow> (s2, result @ [compose_replacement start end (tr_text r2)])
     | None \<Rightarrow>
         let s = compose_ensureHead s2; insertPos = tc_headSrcRangeStart s
         in (s, result @ [compose_replacement insertPos insertPos (tr_text r2)]))
   }"

fun compose_turns ::
    "text_replacement list \<Rightarrow> text_compose \<Rightarrow> text_replacement list \<Rightarrow>
      (text_compose \<times> text_replacement list) option" where
  "compose_turns [] s result = Some (s, result)"
| "compose_turns (r2 # edits2) s result =
     do { (s', result') \<leftarrow> compose_turn r2 s result; compose_turns edits2 s' result' }"

text \<open>The last loop pushes the texts of the first edit that are left.\<close>

function compose_tail :: "text_compose \<Rightarrow> text_replacement list \<Rightarrow> text_replacement list" where
  "compose_tail s0 result =
     (let s = compose_ensureHead s0 in
      if tc_headIsInfinite s then result
      else compose_tail (s\<lparr>tc_headHasValue := False\<rparr>)
             (case tc_headText s of
                Some t \<Rightarrow> result @ [compose_replacement (tc_headSrcRangeStart s) (tc_headSrcRangeEnd s) t]
              | None \<Rightarrow> result))"
  by pat_completeness auto

termination
proof (relation "measure (\<lambda>(s, _). compose_measure s)")
  fix s0 s :: text_compose and result :: "text_replacement list"
  assume "s = compose_ensureHead s0" "\<not> tc_headIsInfinite s"
  then show "((s\<lparr>tc_headHasValue := False\<rparr>, case tc_headText s of
        Some t \<Rightarrow> result @ [compose_replacement (tc_headSrcRangeStart s) (tc_headSrcRangeEnd s) t]
      | None \<Rightarrow> result), s0, result) \<in> measure (\<lambda>(s, _). compose_measure s)"
    using compose_ensureHead_measure [of s0 "tc_currentPosInS1 s"] by simp
qed simp

declare compose_tail.simps [simp del]

definition TextEdit_compose :: "text_edit \<Rightarrow> text_edit \<Rightarrow> text_edit option" where
  "TextEdit_compose E F =
     (let edits1 = TextEdit_normalize E; edits2 = TextEdit_normalize F in
      if edits1 = [] then Some edits2
      else if edits2 = [] then Some edits1
      else do {
        (s, result) \<leftarrow> compose_turns edits2 (text_compose_init edits1) [];
        Some (TextEdit_normalize (compose_tail s result))
      })"

end
