(* ===== verification/TextCompositionProperties.thy ===== *)
theory TextCompositionProperties
  imports TextCompositions
begin

text \<open>
  \<open>TextEdit.compose\<close> does what its comment says. The invariant relates the state of the function
  to four strings: what has been passed and what is ahead, of the original text and of the text
  between the two edits. Every position the function computes is the place after a prefix
  (\<open>reach\<close>), so its case distinctions on lines and columns are comparisons of prefixes.
\<close>

section \<open>Measuring and splitting texts\<close>

lemma headLength_loop_eq: "0 \<le> line \<Longrightarrow> headLength_loop t line col = TextLength_add (MkTextLength line col) (utf16_length t)"
proof (induction t line col rule: headLength_loop.induct)
  case (1 line col)
  then show ?case by (simp add: TextLength_add_def utf16_length_def last_line_def)
next
  case (2 u us line col)
  have u: "utf16_length (u # us) = TextLength_add (utf16_length [u]) (utf16_length us)"
    using utf16_length_append [of "[u]" us] by simp
  have LF: "(u = 10) = (u = LF)" by (simp add: LF_def)
  have one: "utf16_length [u] = (if u = LF then MkTextLength 1 0 else MkTextLength 0 1)"
    by (simp add: utf16_length_def last_line_def)
  show ?case
    using 2 unfolding u LF headLength_loop.simps
    by (auto simp: one TextLength_add_assoc [symmetric]) (auto simp: TextLength_add_def)
qed

lemma headLength_loop_utf16 [simp]: "headLength_loop t 0 0 = utf16_length t"
  using headLength_loop_eq [of 0 t 0] by (simp add: TextLength_add_zero(2) [unfolded TextLength_zero_def])

lemma indexOf_LF_found: "LF \<notin> set a \<Longrightarrow> indexOf_LF (a @ LF # b) i = i + ilen a"
  by (induction a arbitrary: i) auto

lemma splitText_loop_correct:
  "splitText_loop (A @ P @ Q) (n + int (count_list P LF)) n (ilen A) = Some (ilen A + ilen P - ilen (last_line P))"
proof (induction "count_list P LF" arbitrary: A P n)
  case 0
  then have "LF \<notin> set P" by (metis count_list_0_iff)
  then show ?case using 0 by (subst splitText_loop.simps) (simp add: last_line_no_LF)
next
  case (Suc k)
  then have "LF \<in> set P" by (metis count_list_0_iff nat.distinct(1))
  then obtain a b where P: "P = a @ LF # b" "LF \<notin> set a" by (metis split_list_first)
  then have k: "k = count_list b LF" "count_list a LF = 0" using Suc.hyps(2) by auto
  have idx: "indexOf_LF (idrop (ilen A) (A @ P @ Q)) (ilen A) = ilen A + ilen a"
    using indexOf_LF_found [OF P(2), of "b @ Q" "ilen A"] P(1) by (simp add: idrop_append)
  have l: "last_line P = last_line b" by (simp add: P(1) last_line_append_LF)
  have "splitText_loop (A @ P @ Q) (n + int (count_list P LF)) n (ilen A) =
      splitText_loop ((A @ a @ [LF]) @ b @ Q) ((n + 1) + int (count_list b LF)) (n + 1) (ilen (A @ a @ [LF]))"
    using k P idx by (subst splitText_loop.simps) (simp add: Let_def algebra_simps)
  also have "\<dots> = Some (ilen (A @ a @ [LF]) + ilen b - ilen (last_line b))"
    by (rule Suc.hyps(1) [OF k(1)])
  finally show ?case unfolding l by (simp add: P(1) algebra_simps)
qed

lemma ilen_last_line: "ilen (last_line P) \<le> ilen P"
  using length_takeWhile_le [of "\<lambda>u. u \<noteq> LF" "rev P"] by (simp add: last_line_def)

lemma splitText_correct: "splitText (P @ Q) (utf16_length P) = Some (P, Q)"
proof (cases "lineCount (utf16_length P) = 0 \<and> columnCount (utf16_length P) = 0")
  case True
  then have "LF \<notin> set P" "last_line P = []" by (auto simp: utf16_length_def count_list_0_iff)
  then have "P = []" by (simp add: last_line_no_LF)
  then show ?thesis by (simp add: splitText_def utf16_length_def last_line_def)
next
  case False
  have "splitText_loop (P @ Q) (lineCount (utf16_length P)) 0 0 = Some (ilen P - ilen (last_line P))"
    using splitText_loop_correct [of "[]" P Q 0] by (simp add: utf16_length_def)
  then show ?thesis
    using False by (auto simp: splitText_def utf16_length_def js_substring_in js_substring_from_in itake_append idrop_append)
qed

lemma compose_remaining_correct: "compose_remaining (utf16_length (P @ Q)) (utf16_length P) = utf16_length Q"
proof (cases "LF \<in> set Q")
  case True
  then obtain a b where "Q = a @ LF # b" by (metis split_list)
  then show ?thesis using last_line_append_LF [of "P @ a" b] last_line_append_LF [of a b]
    by (simp add: compose_remaining_def utf16_length_def)
next
  case False
  then have "count_list Q LF = 0" by (simp add: count_list_0_iff)
  then show ?thesis using last_line_append [OF False, of P] last_line_no_LF [OF False]
    by (simp add: compose_remaining_def utf16_length_def)
qed

section \<open>Positions and prefixes\<close>

lemma reach_less: "Q \<noteq> [] \<Longrightarrow> reach P < reach (P @ Q)"
proof -
  assume Q: "Q \<noteq> []"
  have "lineCount (utf16_length Q) = 0 \<Longrightarrow> 0 < columnCount (utf16_length Q)"
    using Q by (auto simp: utf16_length_def count_list_0_iff last_line_no_LF)
  then show ?thesis
    using utf16_lineCount_nonneg [of Q]
    by (auto simp: reach_append TextLength_addToPosition_def position_order less_le split: if_splits)
qed

lemma reach_le: "reach P \<le> reach (P @ Q)"
  using reach_less [of Q P] by (cases "Q = []") auto

lemma reach_prefix_iff:
  assumes "P @ Q = R @ S"
  shows "reach P = reach R \<longleftrightarrow> P = R" "reach P < reach R \<longleftrightarrow> length P < length R"
proof -
  consider (eq) "P = R" | (less) X where "R = P @ X" "X \<noteq> []" | (greater) X where "P = R @ X" "X \<noteq> []"
    using assms by (auto simp: append_eq_append_conv2)
  then have "(reach P = reach R \<longleftrightarrow> P = R) \<and> (reach P < reach R \<longleftrightarrow> length P < length R)"
  proof cases
    case less
    then show ?thesis using reach_less [of X P] by auto
  next
    case greater
    then show ?thesis using reach_less [of X R] by auto
  qed simp
  then show "reach P = reach R \<longleftrightarrow> P = R" "reach P < reach R \<longleftrightarrow> length P < length R" by auto
qed

lemma between_reach [simp]: "TextLength_betweenPositions (reach P) (reach (P @ Q)) = utf16_length Q"
  by (simp add: reach_append)

lemma addToPosition_reach [simp]: "TextLength_addToPosition (utf16_length Q) (reach P) = reach (P @ Q)"
  by (simp add: reach_append)

lemma compose_replacement_ends:
  assumes "p \<le> q"
  shows "tr_start (compose_replacement p q t) = p" "tr_end (compose_replacement p q t) = q"
    "tr_text (compose_replacement p q t) = t"
  using Range_fromPositions_ends [OF assms] by (simp_all add: compose_replacement_def Range_fromPositions_def)

lemma inside_crlf_same:
  assumes "D \<noteq> []" "E \<noteq> [] \<longleftrightarrow> F \<noteq> []" "E \<noteq> [] \<Longrightarrow> hd E = hd F"
  shows "inside_crlf (V @ D @ E) (ilen (V @ D)) \<longleftrightarrow> inside_crlf (W @ D @ F) (ilen (W @ D))"
proof -
  have "inside_crlf (X @ D @ G) (ilen (X @ D)) \<longleftrightarrow> G \<noteq> [] \<and> last D = CR \<and> hd G = LF" for X G :: js_string
  proof -
    obtain D' d where D: "D = D' @ [d]" using assms(1) by (cases D rule: rev_cases) auto
    have "nat (ilen (X @ D) - 1) = length (X @ D')" by (simp add: D)
    then have "(X @ D @ G) ! nat (ilen (X @ D) - 1) = ((X @ D') @ d # G) ! length (X @ D')" by (simp add: D)
    then have "(X @ D @ G) ! nat (ilen (X @ D) - 1) = d" by (simp only: nth_append_length)
    moreover have "G \<noteq> [] \<Longrightarrow> (X @ D @ G) ! nat (ilen (X @ D)) = hd G"
      by (simp only: nat_int append_assoc [symmetric] nth_append) (simp add: hd_conv_nth)
    ultimately show ?thesis by (auto simp: inside_crlf_def D)
  qed
  then show ?thesis using assms(2,3) by auto
qed


lemma front_ok:
  assumes "v = V1 @ V2" "\<not> inside_crlf v (ilen V1)"
  shows "position_ok v (reach V1)" "position_offset v (reach V1) = ilen V1"
  using reach_in [OF assms] .

lemma position_ahead:
  assumes "position_ok (V1 @ V2) p" "reach V1 \<le> p" "\<not> inside_crlf (V1 @ V2) (ilen V1)"
  obtains D V3 where "V2 = D @ V3" "p = reach (V1 @ D)" "\<not> inside_crlf (V1 @ V2) (ilen (V1 @ D))"
    "position_offset (V1 @ V2) p = ilen (V1 @ D)"
proof -
  let ?v = "V1 @ V2" and ?a = "position_offset (V1 @ V2) p"
  let ?D = "itake (?a - ilen V1) V2"
  have b: "0 \<le> ?a" "?a \<le> ilen ?v" "ilen V1 \<le> ?a"
    using position_offset_bounds [OF assms(1)] front_ok [OF refl assms(3)] position_offset_le_iff assms by metis+
  have pre: "itake ?a ?v = V1 @ ?D" using b by (simp add: itake_append)
  have "p = reach (V1 @ ?D)" using reach_position [OF assms(1)] by (simp add: pre)
  moreover have len: "?a = ilen (V1 @ ?D)" using b by simp
  moreover have "\<not> inside_crlf ?v ?a"
    using getPosition_of_offset [OF b(1,2)] getPosition_getOffset [OF assms(1)] assms(1) by simp
  moreover have "V2 = ?D @ idrop (?a - ilen V1) V2" by simp
  ultimately show thesis by (metis that)
qed

section \<open>The invariant\<close>

text \<open>
  The state between two pieces: \<open>W1\<close> of the text between the edits has been passed and \<open>W2\<close> is
  ahead, \<open>V1\<close> of the original has been passed and \<open>V2\<close> is ahead. A head stands for its text \<open>t\<close>,
  which is followed by what the rest of the first edit makes of the rest of the original.
\<close>

definition compose_front :: "text_compose \<Rightarrow> position" where
  "compose_front s = (if tc_headHasValue s then tc_headSrcRangeStart s else tc_lastEdit1EndS0 s)"

definition compose_ahead :: "js_string \<Rightarrow> text_compose \<Rightarrow> js_string \<Rightarrow> js_string \<Rightarrow> js_string \<Rightarrow> bool" where
  "compose_ahead v s W2 V1 V2 \<longleftrightarrow>
     tc_lastEdit1EndS0 s = reach V1 \<and> text_edit_from v (reach V1) (tc_rest s) \<and>
     W2 = app (ilen V1) (tview v (tc_rest s)) V2"

definition compose_head :: "js_string \<Rightarrow> text_compose \<Rightarrow> js_string \<Rightarrow> js_string \<Rightarrow> js_string \<Rightarrow>
    js_string \<Rightarrow> js_string \<Rightarrow> js_string \<Rightarrow> js_string \<Rightarrow> bool" where
  "compose_head v s W2 V1 V2 t D W3 V3 \<longleftrightarrow>
     V2 = D @ V3 \<and> W2 = t @ W3 \<and> \<not> inside_crlf v (ilen (V1 @ D)) \<and>
     compose_ahead v s W3 (V1 @ D) V3 \<and> tc_headSrcRangeEnd s = reach (V1 @ D) \<and>
     tc_headLength s = utf16_length t \<and>
     (case tc_headText s of None \<Rightarrow> t = D | Some u \<Rightarrow> u = t)"

definition compose_inv :: "text_compose \<Rightarrow> js_string \<Rightarrow> js_string \<Rightarrow> js_string \<Rightarrow> js_string \<Rightarrow> bool" where
  "compose_inv s W1 W2 V1 V2 \<longleftrightarrow>
     tc_currentPosInS1 s = reach W1 \<and> compose_front s = reach V1 \<and> \<not> inside_crlf (V1 @ V2) (ilen V1) \<and>
     (if \<not> tc_headHasValue s then \<not> tc_headIsInfinite s \<and> compose_ahead (V1 @ V2) s W2 V1 V2
      else if tc_headIsInfinite s then tc_rest s = [] \<and> W2 = V2
      else \<exists>t D W3 V3. compose_head (V1 @ V2) s W2 V1 V2 t D W3 V3)"

lemma compose_ensureHead_inv:
  assumes "compose_inv s W1 W2 V1 V2"
  shows "compose_inv (compose_ensureHead s) W1 W2 V1 V2" "tc_headHasValue (compose_ensureHead s)"
    "compose_front (compose_ensureHead s) = compose_front s"
proof -
  let ?s = "compose_ensureHead s" and ?v = "V1 @ V2"
  have "compose_inv ?s W1 W2 V1 V2 \<and> tc_headHasValue ?s \<and> compose_front ?s = compose_front s"
  proof (cases "tc_headHasValue s")
    case True
    then show ?thesis using assms by (simp add: compose_ensureHead_def)
  next
    case False
    note inv = assms [unfolded compose_inv_def]
    have crlf: "\<not> inside_crlf ?v (ilen V1)" and a: "compose_ahead ?v s W2 V1 V2" and
      pos: "tc_currentPosInS1 s = reach W1" and last: "tc_lastEdit1EndS0 s = reach V1"
      using inv False by (auto simp: compose_ahead_def)
    show ?thesis
    proof (cases "tc_rest s")
      case Nil
      then show ?thesis
        using False crlf a pos last
        by (simp add: compose_ensureHead_def compose_inv_def compose_front_def compose_ahead_def)
    next
      case (Cons r rs)
      have r: "position_ok ?v (tr_start r)" "position_ok ?v (tr_end r)" "reach V1 \<le> tr_start r"
        "tr_start r \<le> tr_end r" "text_edit_from ?v (tr_end r) rs"
        and W2: "W2 = app (ilen V1) (tview ?v (r # rs)) V2"
        using a Cons by (auto simp: compose_ahead_def)
      show ?thesis
      proof (cases "tc_lastEdit1EndS0 s = tr_start r")
        case True
        obtain D V3 where D: "V2 = D @ V3" "tr_end r = reach (V1 @ D)" "\<not> inside_crlf ?v (ilen (V1 @ D))"
          "position_offset ?v (tr_end r) = ilen (V1 @ D)"
          using position_ahead [OF r(2) _ crlf] r(3,4) by (metis order_trans)
        have "W2 = tr_text r @ app (ilen (V1 @ D)) (tview ?v rs) V3"
          using W2 D(4) True last front_ok [OF refl crlf] by (simp add: D(1) idrop_append)
        then have "compose_head ?v ?s W2 V1 V2 (tr_text r) D (app (ilen (V1 @ D)) (tview ?v rs) V3) V3"
          using False Cons True D r(5)
          by (simp add: compose_ensureHead_def compose_head_def compose_ahead_def Let_def)
        then show ?thesis
          using False Cons True inv
          by (auto simp: compose_ensureHead_def compose_inv_def compose_front_def Let_def)
      next
        case gap: False
        obtain D V3 where D: "V2 = D @ V3" "tr_start r = reach (V1 @ D)" "\<not> inside_crlf ?v (ilen (V1 @ D))"
          "position_offset ?v (tr_start r) = ilen (V1 @ D)"
          using position_ahead [OF r(1,3) crlf] by metis
        have "text_edit_from ?v (tr_start r) (r # rs)" using r by simp
        then have "achain (ilen V1 + ilen D) (tview ?v (r # rs))"
          using tview_chain [OF r(1), of "r # rs"] D(4) by (simp del: tview_simps)
        then have "W2 = D @ app (ilen (V1 @ D)) (tview ?v (r # rs)) V3"
          unfolding W2 D(1) by (subst app_prefix) simp_all
        then have "compose_head ?v ?s W2 V1 V2 D D (app (ilen (V1 @ D)) (tview ?v (r # rs)) V3) V3"
          using False Cons gap D r last
          by (simp add: compose_ensureHead_def compose_head_def compose_ahead_def Let_def)
        then show ?thesis
          using False Cons gap inv
          by (auto simp: compose_ensureHead_def compose_inv_def compose_front_def Let_def)
      qed
    qed
  qed
  then show "compose_inv ?s W1 W2 V1 V2" "tc_headHasValue ?s" "compose_front ?s = compose_front s" by simp_all
qed


text \<open>The three ways in which a piece is passed: as a whole, in part, and beyond the last edit.\<close>

lemma compose_pass:
  assumes "compose_inv s W1 W2 V1 V2" "compose_head (V1 @ V2) s W2 V1 V2 t D W3 V3" "tc_headHasValue s"
    "\<not> tc_headIsInfinite s"
  shows "compose_inv (s\<lparr>tc_currentPosInS1 := headEndInS1 s, tc_headHasValue := False\<rparr>) (W1 @ t) W3 (V1 @ D) V3"
    "headEndInS1 s = reach (W1 @ t)"
  using assms
  by (auto simp: compose_inv_def compose_head_def compose_front_def compose_ahead_def headEndInS1_def split: if_splits)

lemma compose_pass_end:
  assumes "compose_inv s W1 W2 V1 V2" "tc_headHasValue s" "tc_headIsInfinite s"
    and "W2 = P @ Q" "P \<noteq> []" "\<not> inside_crlf (W1 @ W2) (ilen (W1 @ P))"
  shows "compose_inv (s\<lparr>tc_currentPosInS1 := reach (W1 @ P), tc_headSrcRangeStart := reach (V1 @ P)\<rparr>) (W1 @ P) Q (V1 @ P) Q"
    "V2 = P @ Q" "tc_headSrcRangeStart s = reach V1"
proof -
  show V2: "V2 = P @ Q" "tc_headSrcRangeStart s = reach V1"
    using assms by (auto simp: compose_inv_def compose_front_def)
  have "\<not> inside_crlf (V1 @ P @ Q) (ilen (V1 @ P))"
    using assms(4-6) inside_crlf_same [OF assms(5), of Q Q V1 W1] by simp
  then show "compose_inv (s\<lparr>tc_currentPosInS1 := reach (W1 @ P), tc_headSrcRangeStart := reach (V1 @ P)\<rparr>) (W1 @ P) Q (V1 @ P) Q"
    using assms V2 by (auto simp: compose_inv_def compose_front_def)
qed

lemma compose_split_gap:
  assumes "compose_inv s W1 W2 V1 V2" "compose_head (V1 @ V2) s W2 V1 V2 t D W3 V3" "tc_headHasValue s"
    "\<not> tc_headIsInfinite s" "tc_headText s = None"
    and "t = P @ Q" "P \<noteq> []" "Q \<noteq> []" "\<not> inside_crlf (W1 @ W2) (ilen (W1 @ P))"
  shows "compose_inv (s\<lparr>tc_headSrcRangeStart := reach (V1 @ P),
      tc_headLength := compose_remaining (tc_headLength s) (utf16_length P), tc_currentPosInS1 := reach (W1 @ P)\<rparr>)
      (W1 @ P) (Q @ W3) (V1 @ P) (Q @ V3)"
    "W2 = P @ Q @ W3" "V2 = P @ Q @ V3"
proof -
  have D: "D = P @ Q" using assms(2,5,6) by (simp add: compose_head_def)
  show W2: "W2 = P @ Q @ W3" and V2: "V2 = P @ Q @ V3"
    using assms(2,6) D by (simp_all add: compose_head_def)
  have "\<not> inside_crlf (V1 @ P @ Q @ V3) (ilen (V1 @ P))"
    using assms(7-9) inside_crlf_same [of P "Q @ V3" "Q @ W3" V1 W1] by (simp add: W2)
  moreover have "compose_head ((V1 @ P) @ Q @ V3) (s\<lparr>tc_headSrcRangeStart := reach (V1 @ P),
      tc_headLength := compose_remaining (tc_headLength s) (utf16_length P), tc_currentPosInS1 := reach (W1 @ P)\<rparr>)
      (Q @ W3) (V1 @ P) (Q @ V3) Q Q W3 V3"
    using assms(2,5,6) by (simp add: compose_head_def compose_ahead_def V2 D compose_remaining_correct)
  ultimately show "compose_inv (s\<lparr>tc_headSrcRangeStart := reach (V1 @ P),
      tc_headLength := compose_remaining (tc_headLength s) (utf16_length P), tc_currentPosInS1 := reach (W1 @ P)\<rparr>)
      (W1 @ P) (Q @ W3) (V1 @ P) (Q @ V3)"
    using assms(3,4) by (auto simp: compose_inv_def compose_front_def)
qed

lemma compose_split_text:
  assumes "compose_inv s W1 W2 V1 V2" "compose_head (V1 @ V2) s W2 V1 V2 t D W3 V3" "tc_headHasValue s"
    "\<not> tc_headIsInfinite s" "tc_headText s = Some t" "t = P @ Q"
  shows "compose_inv (s\<lparr>tc_headText := Some Q, tc_headLength := compose_remaining (tc_headLength s) (utf16_length P),
      tc_headSrcRangeStart := tc_headSrcRangeEnd s, tc_currentPosInS1 := reach (W1 @ P)\<rparr>)
      (W1 @ P) (Q @ W3) (V1 @ D) V3"
    "W2 = P @ Q @ W3" "V2 = D @ V3" "tc_headSrcRangeEnd s = reach (V1 @ D)"
proof -
  show W2: "W2 = P @ Q @ W3" and V2: "V2 = D @ V3" and e: "tc_headSrcRangeEnd s = reach (V1 @ D)"
    using assms(2,6) by (simp_all add: compose_head_def)
  have crlf: "\<not> inside_crlf ((V1 @ D) @ V3) (ilen (V1 @ D))" using assms(2) by (simp add: compose_head_def V2)
  have "compose_head ((V1 @ D) @ V3) (s\<lparr>tc_headText := Some Q, tc_headLength := compose_remaining (tc_headLength s) (utf16_length P),
      tc_headSrcRangeStart := tc_headSrcRangeEnd s, tc_currentPosInS1 := reach (W1 @ P)\<rparr>)
      (Q @ W3) (V1 @ D) V3 Q [] W3 V3"
    using assms(2,6) by (simp add: compose_head_def compose_ahead_def V2 compose_remaining_correct)
  then show "compose_inv (s\<lparr>tc_headText := Some Q, tc_headLength := compose_remaining (tc_headLength s) (utf16_length P),
      tc_headSrcRangeStart := tc_headSrcRangeEnd s, tc_currentPosInS1 := reach (W1 @ P)\<rparr>)
      (W1 @ P) (Q @ W3) (V1 @ D) V3"
    using crlf \<open>compose_head _ _ _ _ _ Q [] _ _\<close> assms(3,4) e by (auto simp: compose_inv_def compose_front_def)
qed


section \<open>The output\<close>

text \<open>\<open>result\<close> turns the passed part \<open>V1\<close> of the original into \<open>Y\<close>.\<close>

definition compose_out :: "js_string \<Rightarrow> text_edit \<Rightarrow> js_string \<Rightarrow> js_string \<Rightarrow> bool" where
  "compose_out v result V1 Y \<longleftrightarrow>
     text_edit_from v (Position 1 1) result \<and> (result = [] \<or> tr_end (last result) \<le> reach V1) \<and>
     app 0 (tview v result) V1 = Y"

lemma app_suffix:
  assumes "achain p A" "aend p A \<le> p + ilen xs"
  shows "app p A (xs @ ys) = app p A xs @ ys"
  using assms
proof (induction p A arbitrary: xs rule: achain.induct)
  case (2 p g c E)
  have b: "p \<le> or_start g" "or_start g \<le> or_end g" "achain (or_end g) E" using 2(2) by auto
  then have e: "or_end g - p \<le> ilen xs" using 2(3) aend_ge [OF b(3)] by simp
  then have "app (or_end g) E (idrop (or_end g - p) (xs @ ys)) = app (or_end g) E (idrop (or_end g - p) xs) @ ys"
    using 2(1) [OF b(3), of "idrop (or_end g - p) xs"] 2(3) b by (simp add: idrop_append)
  then show ?case using b e by (simp add: itake_append)
qed simp

lemma app_snoc:
  assumes "achain 0 A" "aend 0 A \<le> ilen X"
  shows "app 0 (A @ [(MkOffsetRange (ilen X) (ilen (X @ D)), t)]) (X @ D) = app 0 A X @ t"
proof -
  have "app 0 A X @ D = apre 0 A (X @ D) @ idrop (aend 0 A) (X @ D)"
    using app_suffix [OF assms(1), of X D] app_apre [OF assms(1), of "X @ D"] assms(2) by simp
  also have "idrop (aend 0 A) (X @ D) = idrop (aend 0 A) X @ D"
    using assms(2) by (simp add: idrop_append)
  finally have "app 0 A X = apre 0 A (X @ D) @ idrop (aend 0 A) X" by simp
  moreover have "itake (ilen X - aend 0 A) (idrop (aend 0 A) (X @ D)) = idrop (aend 0 A) X"
    using assms(2) aend_ge [OF assms(1)] by (simp add: idrop_append itake_append)
  ultimately show ?thesis
    using app_append [OF assms(1), of "[(MkOffsetRange (ilen X) (ilen (X @ D)), t)]" "X @ D"] aend_ge [OF assms(1)] assms(2)
    by (simp add: idrop_append)
qed

lemma tview_end_le:
  assumes "text_edit_from v (Position 1 1) E" "E = [] \<or> tr_end (last E) \<le> p" "position_ok v p"
  shows "achain 0 (tview v E)" "aend 0 (tview v E) \<le> position_offset v p"
proof -
  show "achain 0 (tview v E)" using tview_chain0(1) assms(1) by (simp add: text_edit_ok_def)
  show "aend 0 (tview v E) \<le> position_offset v p"
  proof (cases E rule: rev_cases)
    case Nil
    then show ?thesis using position_offset_bounds [OF assms(3)] by simp
  next
    case (snoc F r)
    then show ?thesis using assms by (auto simp: text_edit_from_append position_offset_le_iff)
  qed
qed

lemma compose_out_advance:
  assumes "compose_out (V1 @ D @ V3) result V1 Y" "\<not> inside_crlf (V1 @ D @ V3) (ilen V1)"
  shows "compose_out (V1 @ D @ V3) result (V1 @ D) (Y @ D)"
proof -
  note f = front_ok [OF refl assms(2)]
  have "achain 0 (tview (V1 @ D @ V3) result)" "aend 0 (tview (V1 @ D @ V3) result) \<le> ilen V1"
    using tview_end_le [OF _ _ f(1)] assms(1) f(2) by (auto simp: compose_out_def)
  then have "app 0 (tview (V1 @ D @ V3) result) (V1 @ D) = Y @ D"
    using app_suffix [of 0 "tview (V1 @ D @ V3) result" V1 D] assms(1) by (simp add: compose_out_def)
  then show ?thesis using assms(1) reach_le [of V1 D] by (auto simp: compose_out_def)
qed

lemma compose_out_push:
  assumes "compose_out (V1 @ D @ V3) result V1 Y" "\<not> inside_crlf (V1 @ D @ V3) (ilen V1)"
    "\<not> inside_crlf (V1 @ D @ V3) (ilen (V1 @ D))"
  shows "compose_out (V1 @ D @ V3) (result @ [compose_replacement (reach V1) (reach (V1 @ D)) t]) (V1 @ D) (Y @ t)"
proof -
  let ?v = "V1 @ D @ V3"
  note f = front_ok [OF refl assms(2)]
  have e: "position_ok ?v (reach (V1 @ D))" "position_offset ?v (reach (V1 @ D)) = ilen (V1 @ D)"
    using front_ok [of ?v "V1 @ D" V3] assms(3) by simp_all
  note c = compose_replacement_ends [OF reach_le [of V1 D]]
  have A: "achain 0 (tview ?v result)" "aend 0 (tview ?v result) \<le> ilen V1"
    using tview_end_le [OF _ _ f(1)] assms(1) f(2) by (auto simp: compose_out_def)
  have "Position 1 1 \<le> reach V1" using reach_le [of "[]" V1] by simp
  then show ?thesis
    using assms(1) app_snoc [OF A, of D t] f e reach_le [of V1 D]
    by (auto simp: compose_out_def text_edit_from_append c)
qed


section \<open>The loops\<close>

lemma compose_isBefore_headEnd:
  assumes "headEndInS1 s = reach (W1 @ t)" "P @ R = t @ W3"
  shows "Position_isBefore (reach (W1 @ P)) (headEndInS1 s) \<longleftrightarrow> (\<exists>Q. t = P @ Q \<and> Q \<noteq> [])"
    "\<not> Position_isBefore (reach (W1 @ P)) (headEndInS1 s) \<Longrightarrow> \<exists>P'. P = t @ P' \<and> W3 = P' @ R"
proof -
  have "reach (W1 @ P) < reach (W1 @ t) \<longleftrightarrow> length P < length t"
    using reach_prefix_iff(2) [of "W1 @ P" R "W1 @ t" W3] assms(2) by simp
  moreover have "length P < length t \<longleftrightarrow> (\<exists>Q. t = P @ Q \<and> Q \<noteq> [])"
    using assms(2) by (auto simp: append_eq_append_conv2)
  ultimately show b: "Position_isBefore (reach (W1 @ P)) (headEndInS1 s) \<longleftrightarrow> (\<exists>Q. t = P @ Q \<and> Q \<noteq> [])"
    by (simp add: assms(1) Position_isBefore_less)
  show "\<exists>P'. P = t @ P' \<and> W3 = P' @ R" if "\<not> Position_isBefore (reach (W1 @ P)) (headEndInS1 s)"
    using that assms(2) unfolding b by (auto simp: append_eq_append_conv2)
qed

lemma compose_inv_head:
  "compose_inv s W1 W2 V1 V2 \<Longrightarrow> tc_headHasValue s \<Longrightarrow> \<not> tc_headIsInfinite s \<Longrightarrow>
    \<exists>t D W3 V3. compose_head (V1 @ V2) s W2 V1 V2 t D W3 V3"
  by (simp add: compose_inv_def)

lemma compose_inv_pos:
  "compose_inv s W1 W2 V1 V2 \<Longrightarrow> tc_currentPosInS1 s = reach W1 \<and> \<not> inside_crlf (V1 @ V2) (ilen V1)"
  by (simp add: compose_inv_def)

lemma compose_inv_front:
  "compose_inv s W1 W2 V1 V2 \<Longrightarrow> tc_headHasValue s \<Longrightarrow> tc_headSrcRangeStart s = reach V1"
  by (simp add: compose_inv_def compose_front_def)

lemma compose_seek_correct:
  assumes "compose_inv s W1 (P @ R) V1 V2" "compose_out (V1 @ V2) out V1 Y"
    and "\<not> inside_crlf (W1 @ P @ R) (ilen (W1 @ P))"
  shows "\<exists>s' out' V1' V2'. compose_seek (reach (W1 @ P)) s out = Some (s', out') \<and> V1' @ V2' = V1 @ V2 \<and>
    compose_inv s' (W1 @ P) R V1' V2' \<and> compose_out (V1 @ V2) out' V1' (Y @ P)"
  using assms
proof (induction "reach (W1 @ P)" s out arbitrary: W1 P V1 V2 Y rule: compose_seek.induct)
  case (1 s0 out)
  let ?s = "compose_ensureHead s0"
  have pos: "tc_currentPosInS1 s0 = reach W1" and crlf: "\<not> inside_crlf (V1 @ V2) (ilen V1)"
    using compose_inv_pos [OF 1(2)] by simp_all
  have here: "tc_currentPosInS1 s0 = reach (W1 @ P) \<longleftrightarrow> P = []"
    using reach_prefix_iff(1) [of W1 "P @ R" "W1 @ P" R] pos by auto
  show ?case
  proof (cases "P = []")
    case True
    then show ?thesis using 1(2,3) here by (subst compose_seek.simps) auto
  next
    case P: False
    note inv = compose_ensureHead_inv [OF 1(2)]
    have pos': "tc_currentPosInS1 ?s = reach W1" using compose_inv_pos [OF inv(1)] by simp
    show ?thesis
    proof (cases "tc_headIsInfinite ?s")
      case True
      note e = compose_pass_end [OF inv(1,2) True refl P 1(4)]
      have "compose_seek (reach (W1 @ P)) s0 out =
          Some (?s\<lparr>tc_currentPosInS1 := reach (W1 @ P), tc_headSrcRangeStart := reach (V1 @ P)\<rparr>, out)"
        using P here True pos' e(3) by (subst compose_seek.simps) (simp add: Let_def)
      moreover have "compose_out (V1 @ V2) out (V1 @ P) (Y @ P)"
        using compose_out_advance [of V1 P R out Y] 1(3) crlf by (simp add: e(2))
      moreover have "(V1 @ P) @ R = V1 @ V2" by (simp add: e(2))
      ultimately show ?thesis using e(1) by blast
    next
      case False
      then obtain t D W3 V3 where h: "compose_head (V1 @ V2) ?s (P @ R) V1 V2 t D W3 V3"
        using compose_inv_head [OF inv(1,2)] by blast
      note pass = compose_pass [OF inv(1) h inv(2) False]
      have W: "P @ R = t @ W3" and V: "V2 = D @ V3" and crlf': "\<not> inside_crlf (V1 @ D @ V3) (ilen (V1 @ D))"
        and srcEnd: "tc_headSrcRangeEnd ?s = reach (V1 @ D)" and len: "tc_headLength ?s = utf16_length t"
        using h by (auto simp: compose_head_def)
      note srcStart = compose_inv_front [OF inv(1,2)]
      note push = compose_out_push [OF 1(3) [unfolded V] crlf [unfolded V] crlf']
      note adv = compose_out_advance [OF 1(3) [unfolded V] crlf [unfolded V]]
      note before = compose_isBefore_headEnd [OF pass(2) W]
      show ?thesis
      proof (cases "Position_isBefore (reach (W1 @ P)) (headEndInS1 ?s)")
        case True
        then obtain Q where Q: "t = P @ Q" "Q \<noteq> []" using before(1) by blast
        show ?thesis
        proof (cases "tc_headText ?s")
          case None
          note g = compose_split_gap [OF inv(1) h inv(2) False None Q(1) P Q(2) 1(4)]
          have R: "R = Q @ W3" using g(2) by simp
          have "compose_seek (reach (W1 @ P)) s0 out = Some (?s\<lparr>tc_headSrcRangeStart := reach (V1 @ P),
              tc_headLength := compose_remaining (tc_headLength ?s) (utf16_length P), tc_currentPosInS1 := reach (W1 @ P)\<rparr>, out)"
            using P here False True None pos' srcStart by (subst compose_seek.simps) (simp add: Let_def)
          moreover have "compose_out (V1 @ V2) out (V1 @ P) (Y @ P)"
            using compose_out_advance [of V1 P "Q @ V3" out Y] 1(3) crlf by (simp add: g(3))
          moreover have "(V1 @ P) @ Q @ V3 = V1 @ V2" by (simp add: g(3))
          ultimately show ?thesis using g(1) unfolding R by blast
        next
          case (Some u)
          then have u: "tc_headText ?s = Some t" using h by (simp add: compose_head_def)
          note g = compose_split_text [OF inv(1) h inv(2) False u Q(1)]
          have R: "R = Q @ W3" using g(2) by simp
          have "compose_seek (reach (W1 @ P)) s0 out =
              Some (?s\<lparr>tc_headText := Some Q, tc_headLength := compose_remaining (tc_headLength ?s) (utf16_length P),
                tc_headSrcRangeStart := tc_headSrcRangeEnd ?s, tc_currentPosInS1 := reach (W1 @ P)\<rparr>,
                out @ [compose_replacement (reach V1) (reach (V1 @ D)) P])"
            using P here False True u pos' srcStart srcEnd splitText_correct [of P Q] Q(1)
            by (subst compose_seek.simps) (simp add: Let_def)
          moreover have "(V1 @ D) @ V3 = V1 @ V2" by (simp add: V)
          moreover have "compose_out (V1 @ V2) (out @ [compose_replacement (reach V1) (reach (V1 @ D)) P]) (V1 @ D) (Y @ P)"
            using push [of P] by (simp add: V)
          ultimately show ?thesis using g(1) unfolding R by blast
        qed
      next
        case after: False
        then obtain P' where P': "P = t @ P'" "W3 = P' @ R" using before(2) by blast
        let ?s2 = "?s\<lparr>tc_currentPosInS1 := headEndInS1 ?s, tc_headHasValue := False\<rparr>"
        let ?out = "case tc_headText ?s of
            Some t \<Rightarrow> out @ [compose_replacement (tc_headSrcRangeStart ?s) (tc_headSrcRangeEnd ?s) t]
          | None \<Rightarrow> out"
        have "compose_out (V1 @ V2) ?out (V1 @ D) (Y @ t)"
          using h push [of t] adv srcStart srcEnd V
          by (cases "tc_headText ?s") (auto simp: compose_head_def)
        then have "compose_out ((V1 @ D) @ V3) ?out (V1 @ D) (Y @ t)" using V by simp
        moreover have "\<not> inside_crlf ((W1 @ t) @ P' @ R) (ilen ((W1 @ t) @ P'))" using 1(4) P' by simp
        moreover have "reach (W1 @ P) = reach ((W1 @ t) @ P')" using P' by simp
        moreover have "tc_currentPosInS1 s0 \<noteq> reach (W1 @ P)" using here P by simp
        ultimately have "\<exists>s' out' V1' V2'. compose_seek (reach ((W1 @ t) @ P')) ?s2 ?out = Some (s', out') \<and>
            V1' @ V2' = (V1 @ D) @ V3 \<and> compose_inv s' ((W1 @ t) @ P') R V1' V2' \<and>
            compose_out ((V1 @ D) @ V3) out' V1' ((Y @ t) @ P')"
          using 1(1) [OF _ refl False after, of "W1 @ t" P' "V1 @ D" V3 "Y @ t"] pass(1) [unfolded P'(2)] by blast
        moreover have "compose_seek (reach (W1 @ P)) s0 out = compose_seek (reach (W1 @ P)) ?s2 ?out"
          using P here False after by (subst compose_seek.simps) (simp add: Let_def)
        ultimately show ?thesis using V P' by simp
      qed
    qed
  qed
qed


text \<open>\<open>consumed\<close> spans from \<open>V0\<close>, where the loop started, to the front.\<close>

definition consumed_span :: "(position \<times> position) option \<Rightarrow> js_string \<Rightarrow> js_string \<Rightarrow> bool" where
  "consumed_span consumed V0 V1 \<longleftrightarrow>
     (case consumed of None \<Rightarrow> V0 = V1 | Some (p, q) \<Rightarrow> p = reach V0 \<and> q = reach V1)"

lemma consume_to_span:
  "consumed_span consumed V0 V1 \<Longrightarrow> consumed_span (consume_to consumed (reach V1) (reach V2)) V0 V2"
  by (auto simp: consumed_span_def consume_to_def split: option.splits)

lemma compose_consume_correct:
  assumes "compose_inv s W1 (P @ R) V1 V2" "consumed_span consumed V0 V1"
    and "\<not> inside_crlf (W1 @ P @ R) (ilen (W1 @ P))"
  shows "\<exists>s' consumed' D V3. compose_consume (reach (W1 @ P)) s consumed = Some (s', consumed') \<and> V2 = D @ V3 \<and>
    compose_inv s' (W1 @ P) R (V1 @ D) V3 \<and> consumed_span consumed' V0 (V1 @ D)"
  using assms
proof (induction "reach (W1 @ P)" s consumed arbitrary: W1 P V1 V2 rule: compose_consume.induct)
  case (1 s0 consumed)
  let ?s = "compose_ensureHead s0"
  have here: "tc_currentPosInS1 s0 = reach (W1 @ P) \<longleftrightarrow> P = []"
    using reach_prefix_iff(1) [of W1 "P @ R" "W1 @ P" R] compose_inv_pos [OF 1(2)] by auto
  show ?case
  proof (cases "P = []")
    case True
    then have "compose_consume (reach (W1 @ P)) s0 consumed = Some (s0, consumed)"
      using here by (subst compose_consume.simps) simp
    moreover have "compose_inv s0 (W1 @ P) R (V1 @ []) V2" "consumed_span consumed V0 (V1 @ [])" "V2 = [] @ V2"
      using 1(2,3) True by simp_all
    ultimately show ?thesis by blast
  next
    case P: False
    note inv = compose_ensureHead_inv [OF 1(2)]
    have pos': "tc_currentPosInS1 ?s = reach W1" using compose_inv_pos [OF inv(1)] by simp
    note srcStart = compose_inv_front [OF inv(1,2)]
    note span = consume_to_span [OF 1(3)]
    show ?thesis
    proof (cases "tc_headIsInfinite ?s")
      case True
      note e = compose_pass_end [OF inv(1,2) True refl P 1(4)]
      have "compose_consume (reach (W1 @ P)) s0 consumed =
          Some (?s\<lparr>tc_currentPosInS1 := reach (W1 @ P), tc_headSrcRangeStart := reach (V1 @ P)\<rparr>,
            consume_to consumed (reach V1) (reach (V1 @ P)))"
        using P here True pos' e(3) by (subst compose_consume.simps) (simp add: Let_def)
      then show ?thesis using e(1,2) span [of "V1 @ P"] by blast
    next
      case False
      then obtain t D W3 V3 where h: "compose_head (V1 @ V2) ?s (P @ R) V1 V2 t D W3 V3"
        using compose_inv_head [OF inv(1,2)] by blast
      note pass = compose_pass [OF inv(1) h inv(2) False]
      have W: "P @ R = t @ W3" and V: "V2 = D @ V3"
        and srcEnd: "tc_headSrcRangeEnd ?s = reach (V1 @ D)"
        using h by (auto simp: compose_head_def)
      note before = compose_isBefore_headEnd [OF pass(2) W]
      show ?thesis
      proof (cases "Position_isBefore (reach (W1 @ P)) (headEndInS1 ?s)")
        case True
        then obtain Q where Q: "t = P @ Q" "Q \<noteq> []" using before(1) by blast
        have R: "R = Q @ W3" using W Q(1) by simp
        show ?thesis
        proof (cases "tc_headText ?s")
          case None
          note g = compose_split_gap [OF inv(1) h inv(2) False None Q(1) P Q(2) 1(4)]
          have "compose_consume (reach (W1 @ P)) s0 consumed = Some (?s\<lparr>tc_headSrcRangeStart := reach (V1 @ P),
              tc_headLength := compose_remaining (tc_headLength ?s) (utf16_length P), tc_currentPosInS1 := reach (W1 @ P)\<rparr>,
              consume_to consumed (reach V1) (reach (V1 @ P)))"
            using P here False True None pos' srcStart by (subst compose_consume.simps) (simp add: Let_def)
          then show ?thesis using g(1,3) span [of "V1 @ P"] unfolding R by blast
        next
          case (Some u)
          then have u: "tc_headText ?s = Some t" using h by (simp add: compose_head_def)
          note g = compose_split_text [OF inv(1) h inv(2) False u Q(1)]
          have "compose_consume (reach (W1 @ P)) s0 consumed =
              Some (?s\<lparr>tc_headText := Some Q, tc_headLength := compose_remaining (tc_headLength ?s) (utf16_length P),
                tc_headSrcRangeStart := tc_headSrcRangeEnd ?s, tc_currentPosInS1 := reach (W1 @ P)\<rparr>,
                consume_to consumed (reach V1) (reach (V1 @ D)))"
            using P here False True u pos' srcStart srcEnd splitText_correct [of P Q] Q(1)
            by (subst compose_consume.simps) (simp add: Let_def)
          then show ?thesis using g(1,3) span [of "V1 @ D"] unfolding R by blast
        qed
      next
        case after: False
        then obtain P' where P': "P = t @ P'" "W3 = P' @ R" using before(2) by blast
        let ?s2 = "?s\<lparr>tc_currentPosInS1 := headEndInS1 ?s, tc_headHasValue := False\<rparr>"
        let ?c = "consume_to consumed (tc_headSrcRangeStart ?s) (tc_headSrcRangeEnd ?s)"
        have "consumed_span ?c V0 (V1 @ D)" using span [of "V1 @ D"] srcStart srcEnd by simp
        moreover have "\<not> inside_crlf ((W1 @ t) @ P' @ R) (ilen ((W1 @ t) @ P'))" using 1(4) P' by simp
        moreover have "reach (W1 @ P) = reach ((W1 @ t) @ P')" using P' by simp
        moreover have "tc_currentPosInS1 s0 \<noteq> reach (W1 @ P)" using here P by simp
        ultimately have "\<exists>s' consumed' E V4. compose_consume (reach ((W1 @ t) @ P')) ?s2 ?c = Some (s', consumed') \<and>
            V3 = E @ V4 \<and> compose_inv s' ((W1 @ t) @ P') R ((V1 @ D) @ E) V4 \<and> consumed_span consumed' V0 ((V1 @ D) @ E)"
          using 1(1) [OF _ refl False after, of "W1 @ t" P' "V1 @ D" V3] pass(1) [unfolded P'(2)] by blast
        moreover have "compose_consume (reach (W1 @ P)) s0 consumed = compose_consume (reach (W1 @ P)) ?s2 ?c"
          using P here False after by (subst compose_consume.simps) (simp add: Let_def)
        ultimately obtain s' consumed' E V4 where
          "compose_consume (reach (W1 @ P)) s0 consumed = Some (s', consumed')" "V3 = E @ V4"
          "compose_inv s' (W1 @ P) R (V1 @ D @ E) V4" "consumed_span consumed' V0 (V1 @ D @ E)"
          using P' by auto
        then show ?thesis using V by (metis append_assoc)
      qed
    qed
  qed
qed


lemma compose_turn_correct:
  assumes "compose_inv s W1 (P @ Q @ R) V1 V2" "compose_out (V1 @ V2) out V1 Y"
    and "\<not> inside_crlf (W1 @ P @ Q @ R) (ilen (W1 @ P))" "\<not> inside_crlf (W1 @ P @ Q @ R) (ilen (W1 @ P @ Q))"
    and "tr_start r = reach (W1 @ P)" "tr_end r = reach (W1 @ P @ Q)"
  shows "\<exists>s' out' V1' V2'. compose_turn r s out = Some (s', out') \<and> V1' @ V2' = V1 @ V2 \<and>
    compose_inv s' (W1 @ P @ Q) R V1' V2' \<and> compose_out (V1 @ V2) out' V1' (Y @ P @ tr_text r)"
proof -
  obtain s1 out1 X1 X2 where seek: "compose_seek (tr_start r) s out = Some (s1, out1)" "X1 @ X2 = V1 @ V2"
    "compose_inv s1 (W1 @ P) (Q @ R) X1 X2" "compose_out (V1 @ V2) out1 X1 (Y @ P)"
    using compose_seek_correct [OF assms(1,2)] assms(3,5) by auto
  have "consumed_span None X1 X1" by (simp add: consumed_span_def)
  from compose_consume_correct [OF seek(3) this] obtain s2 consumed D X3 where con: "compose_consume (tr_end r) s1 None = Some (s2, consumed)" "X2 = D @ X3"
    "compose_inv s2 (W1 @ P @ Q) R (X1 @ D) X3" "consumed_span consumed X1 (X1 @ D)"
    using assms(4,6) by auto
  have v: "V1 @ V2 = X1 @ D @ X3" using seek(2) con(2) by simp
  have out1: "compose_out (X1 @ D @ X3) out1 X1 (Y @ P)" using seek(4) by (simp add: v)
  have crlf: "\<not> inside_crlf (X1 @ D @ X3) (ilen X1)" "\<not> inside_crlf (X1 @ D @ X3) (ilen (X1 @ D))"
    using compose_inv_pos [OF seek(3)] compose_inv_pos [OF con(3)] con(2) by simp_all
  show ?thesis
  proof (cases consumed)
    case None
    then have D: "D = []" using con(4) by (simp add: consumed_span_def)
    note inv = compose_ensureHead_inv [OF con(3)]
    have "compose_turn r s out = Some (compose_ensureHead s2, out1 @ [compose_replacement (reach X1) (reach X1) (tr_text r)])"
      using seek(1) con(1) None compose_inv_front [OF inv(1,2)] by (simp add: compose_turn_def Let_def D)
    moreover have "compose_out (V1 @ V2) (out1 @ [compose_replacement (reach X1) (reach X1) (tr_text r)]) X1 (Y @ P @ tr_text r)"
      using compose_out_push [OF out1 crlf, of "tr_text r"] by (simp add: D v)
    moreover have "compose_inv (compose_ensureHead s2) (W1 @ P @ Q) R X1 X3" using inv(1) by (simp add: D)
    moreover have "X1 @ X3 = V1 @ V2" by (simp add: v D)
    ultimately show ?thesis by blast
  next
    case (Some pq)
    then have "consumed = Some (reach X1, reach (X1 @ D))"
      using con(4) by (cases pq) (simp add: consumed_span_def)
    then have "compose_turn r s out = Some (s2, out1 @ [compose_replacement (reach X1) (reach (X1 @ D)) (tr_text r)])"
      using seek(1) con(1) by (simp add: compose_turn_def)
    moreover have "compose_out (V1 @ V2) (out1 @ [compose_replacement (reach X1) (reach (X1 @ D)) (tr_text r)]) (X1 @ D) (Y @ P @ tr_text r)"
      using compose_out_push [OF out1 crlf, of "tr_text r"] by (simp add: v)
    moreover have "(X1 @ D) @ X3 = V1 @ V2" by (simp add: v)
    ultimately show ?thesis using con(3) by blast
  qed
qed

lemma compose_turns_correct:
  assumes "compose_inv s W1 W2 V1 V2" "compose_out (V1 @ V2) out V1 Y"
    and "\<not> inside_crlf (W1 @ W2) (ilen W1)" "text_edit_from (W1 @ W2) (reach W1) F"
  shows "\<exists>s' out' X1 X2 Z1 Z2 Y'. compose_turns F s out = Some (s', out') \<and> X1 @ X2 = V1 @ V2 \<and>
    compose_inv s' Z1 Z2 X1 X2 \<and> compose_out (V1 @ V2) out' X1 Y' \<and>
    Y' @ Z2 = Y @ app (ilen W1) (tview (W1 @ W2) F) W2"
  using assms
proof (induction F arbitrary: s W1 W2 V1 V2 out Y)
  case Nil
  have "compose_turns [] s out = Some (s, out)" by simp
  moreover have "Y @ W2 = Y @ app (ilen W1) (tview (W1 @ W2) []) W2" by simp
  ultimately show ?case using Nil.prems(1,2) by blast
next
  case (Cons r F)
  have r: "position_ok (W1 @ W2) (tr_start r)" "position_ok (W1 @ W2) (tr_end r)" "reach W1 \<le> tr_start r"
    "tr_start r \<le> tr_end r" "text_edit_from (W1 @ W2) (tr_end r) F"
    using Cons.prems(4) by auto
  obtain P T where P: "W2 = P @ T" "tr_start r = reach (W1 @ P)" "\<not> inside_crlf (W1 @ W2) (ilen (W1 @ P))"
    "position_offset (W1 @ W2) (tr_start r) = ilen (W1 @ P)"
    using position_ahead [OF r(1,3) Cons.prems(3)] by metis
  have "position_ok ((W1 @ P) @ T) (tr_end r)" "reach (W1 @ P) \<le> tr_end r"
    "\<not> inside_crlf ((W1 @ P) @ T) (ilen (W1 @ P))"
    using r P by simp_all
  from position_ahead [OF this] obtain Q R where Q: "T = Q @ R" "tr_end r = reach ((W1 @ P) @ Q)"
    "\<not> inside_crlf ((W1 @ P) @ T) (ilen ((W1 @ P) @ Q))" "position_offset ((W1 @ P) @ T) (tr_end r) = ilen ((W1 @ P) @ Q)"
    by metis
  have W2: "W2 = P @ Q @ R" using P Q by simp
  obtain s1 out1 X1 X2 where turn: "compose_turn r s out = Some (s1, out1)" "X1 @ X2 = V1 @ V2"
    "compose_inv s1 (W1 @ P @ Q) R X1 X2" "compose_out (V1 @ V2) out1 X1 (Y @ P @ tr_text r)"
    using compose_turn_correct [of s W1 P Q R V1 V2 out Y r] Cons.prems(1,2) P Q by (auto simp: W2)
  have "text_edit_from ((W1 @ P @ Q) @ R) (reach (W1 @ P @ Q)) F" "\<not> inside_crlf ((W1 @ P @ Q) @ R) (ilen (W1 @ P @ Q))"
    using r(5) Q by (simp_all add: W2)
  moreover have "compose_out (X1 @ X2) out1 X1 (Y @ P @ tr_text r)" using turn by simp
  ultimately obtain s' out' U1 U2 Z1 Z2 Y' where *: "compose_turns F s1 out1 = Some (s', out')" "U1 @ U2 = X1 @ X2"
    "compose_inv s' Z1 Z2 U1 U2" "compose_out (X1 @ X2) out' U1 Y'"
    "Y' @ Z2 = (Y @ P @ tr_text r) @ app (ilen (W1 @ P @ Q)) (tview ((W1 @ P @ Q) @ R) F) R"
    using Cons.IH [OF turn(3)] by blast
  have "app (ilen W1) (tview (W1 @ W2) (r # F)) W2 =
      P @ tr_text r @ app (ilen (W1 @ P @ Q)) (tview (W1 @ W2) F) R"
    using P(4) Q(4) by (simp add: W2 Q(1) itake_append idrop_append)
  then have "Y' @ Z2 = Y @ app (ilen W1) (tview (W1 @ W2) (r # F)) W2" using *(5) by (simp add: W2)
  moreover have "compose_turns (r # F) s out = Some (s', out')" using turn(1) *(1) by simp
  ultimately show ?case using * turn(2) by metis
qed

lemma compose_tail_correct:
  assumes "compose_inv (s\<lparr>tc_currentPosInS1 := reach W1\<rparr>) W1 W2 V1 V2" "compose_out (V1 @ V2) out V1 Y"
  shows "text_edit_from (V1 @ V2) (Position 1 1) (compose_tail s out) \<and>
    app 0 (tview (V1 @ V2) (compose_tail s out)) (V1 @ V2) = Y @ W2"
  using assms
proof (induction s out arbitrary: W1 W2 V1 V2 Y rule: compose_tail.induct)
  case (1 s0 out)
  let ?s = "compose_ensureHead s0" and ?s1 = "compose_ensureHead (s0\<lparr>tc_currentPosInS1 := reach W1\<rparr>)"
  have s1: "?s1 = ?s\<lparr>tc_currentPosInS1 := reach W1\<rparr>"
    by (simp add: compose_ensureHead_def Let_def split: list.split)
  note inv = compose_ensureHead_inv [OF 1(2)]
  have crlf: "\<not> inside_crlf (V1 @ V2) (ilen V1)" using compose_inv_pos [OF inv(1)] by simp
  show ?case
  proof (cases "tc_headIsInfinite ?s")
    case True
    then have "W2 = V2" using inv(1,2) by (simp add: s1 compose_inv_def)
    moreover have "app 0 (tview (V1 @ V2) out) (V1 @ V2) = Y @ V2"
      using app_suffix [of 0 "tview (V1 @ V2) out" V1 V2] tview_end_le [of "V1 @ V2" out "reach V1"] 1(3)
        front_ok [OF refl crlf] by (simp add: compose_out_def)
    ultimately show ?thesis using True 1(3) by (subst (1 2) compose_tail.simps) (simp add: compose_out_def Let_def)
  next
    case False
    then have fin: "\<not> tc_headIsInfinite ?s1" by (simp add: s1)
    then obtain t D W3 V3 where h: "compose_head (V1 @ V2) ?s1 W2 V1 V2 t D W3 V3"
      using compose_inv_head [OF inv(1,2)] by blast
    note pass = compose_pass [OF inv(1) h inv(2) fin]
    have V: "V2 = D @ V3" "W2 = t @ W3" and crlf': "\<not> inside_crlf (V1 @ D @ V3) (ilen (V1 @ D))"
      and srcEnd: "tc_headSrcRangeEnd ?s = reach (V1 @ D)"
      using h by (auto simp: compose_head_def s1)
    have srcStart: "tc_headSrcRangeStart ?s = reach V1" using compose_inv_front [OF inv(1,2)] by (simp add: s1)
    let ?out = "case tc_headText ?s of
        Some t \<Rightarrow> out @ [compose_replacement (tc_headSrcRangeStart ?s) (tc_headSrcRangeEnd ?s) t]
      | None \<Rightarrow> out"
    have "compose_out (V1 @ D @ V3) ?out (V1 @ D) (Y @ t)"
      using h compose_out_push [of V1 D V3 out Y t] compose_out_advance [of V1 D V3 out Y] crlf crlf' 1(3)
      by (cases "tc_headText ?s") (auto simp: compose_head_def V srcStart srcEnd s1)
    then have A: "compose_out ((V1 @ D) @ V3) ?out (V1 @ D) (Y @ t)" by simp
    have B: "compose_inv (?s\<lparr>tc_headHasValue := False, tc_currentPosInS1 := reach (W1 @ t)\<rparr>) (W1 @ t) W3 (V1 @ D) V3"
      using pass by (simp add: s1 compose_inv_def compose_front_def compose_ahead_def)
    have "text_edit_from ((V1 @ D) @ V3) (Position 1 1) (compose_tail (?s\<lparr>tc_headHasValue := False\<rparr>) ?out) \<and>
        app 0 (tview ((V1 @ D) @ V3) (compose_tail (?s\<lparr>tc_headHasValue := False\<rparr>) ?out)) ((V1 @ D) @ V3) = (Y @ t) @ W3"
      by (rule 1(1) [OF refl False B A])
    moreover have "compose_tail s0 out = compose_tail (?s\<lparr>tc_headHasValue := False\<rparr>) ?out"
      using False by (subst compose_tail.simps) (simp add: Let_def)
    moreover have eq: "V1 @ V2 = (V1 @ D) @ V3" "Y @ W2 = (Y @ t) @ W3" by (simp_all add: V)
    ultimately show ?thesis by (simp only: eq)
  qed
qed

lemma TextEdit_compose_correct:
  assumes "text_edit_ok v E" "text_edit_ok (app 0 (tview v E) v) F"
  defines "w \<equiv> app 0 (tview v E) v"
  shows "\<exists>G. TextEdit_compose E F = Some G \<and> text_edit_ok v G \<and> text_normal G \<and>
    app 0 (tview v G) v = app 0 (tview w F) w"
proof -
  let ?E = "TextEdit_normalize E" and ?F = "TextEdit_normalize F"
  note E = text_normalize_correct [OF assms(1)]
  note F = text_normalize_correct [OF assms(2), folded w_def]
  show ?thesis
  proof (cases "?E = [] \<or> ?F = []")
    case True
    then show ?thesis using E F by (cases "?E = []") (auto simp: TextEdit_compose_def Let_def w_def)
  next
    case False
    let ?s = "text_compose_init ?E"
    have "\<not> inside_crlf v 0" "\<not> inside_crlf w 0" by (simp_all add: inside_crlf_def)
    then have "compose_inv ?s [] w [] v"
      using E by (simp add: compose_inv_def compose_front_def compose_ahead_def text_compose_init_def text_edit_ok_def w_def)
    moreover have "compose_out v [] [] []" by (simp add: compose_out_def)
    ultimately obtain s out X1 X2 Z1 Z2 Y where turns: "compose_turns ?F ?s [] = Some (s, out)" "X1 @ X2 = v"
      "compose_inv s Z1 Z2 X1 X2" "compose_out v out X1 Y" "Y @ Z2 = app 0 (tview w ?F) w"
      using compose_turns_correct [of ?s "[]" w "[]" v "[]" "[]" ?F] \<open>\<not> inside_crlf w 0\<close> F(1)
      by (auto simp: text_edit_ok_def)
    have "s\<lparr>tc_currentPosInS1 := reach Z1\<rparr> = s" using turns(3) by (simp add: compose_inv_def)
    then have "text_edit_ok v (compose_tail s out)" "app 0 (tview v (compose_tail s out)) v = app 0 (tview w ?F) w"
      using compose_tail_correct [of Z1 s Z2 X1 X2 out Y] turns by (simp_all add: text_edit_ok_def)
    then show ?thesis
      using text_normalize_correct [of v "compose_tail s out"] turns(1) False F(3)
      by (auto simp: TextEdit_compose_def)
  qed
qed


section \<open>The property\<close>

text \<open>C6. Composing text edits by line and column is correct, as the comment of \<open>compose\<close> claims:
  for an edit of a text and an edit of its result, \<open>compose\<close> does not throw and returns an
  edit of the original text, sorted and in normal form, with
  \<open>other.applyToString(this.applyToString(s0)) = this.compose(other).applyToString(s0)\<close>. There is
  no condition on the new texts: they may begin or end inside a line break and hold surrogate pairs.\<close>

theorem text_edit_compose:
  assumes "text_edit_ok s0 E" "TextEdit_applyToString E s0 = Some s1" "text_edit_ok s1 F"
    and "ilen s0 + 1 < MAX_SAFE_INTEGER" "ilen s1 + 1 < MAX_SAFE_INTEGER"
  shows "\<exists>G s2. TextEdit_compose E F = Some G \<and> TextEdit_check G \<and> text_edit_ok s0 G \<and> text_normal G \<and>
    TextEdit_applyToString F s1 = Some s2 \<and> TextEdit_applyToString G s0 = Some s2"
proof -
  have ap: "TextEdit_applyToString H v = Some (app 0 (tview v H) v)"
    if "text_edit_ok v H" "ilen v + 1 < MAX_SAFE_INTEGER" for H v
    using string_text.apply_app [of v H] that by (simp add: TextEdit_applyToString_def)
  have "s1 = app 0 (tview s0 E) s0" using ap [OF assms(1,4)] assms(2) by simp
  then obtain G where "TextEdit_compose E F = Some G" "text_edit_ok s0 G" "text_normal G"
    "app 0 (tview s0 G) s0 = app 0 (tview s1 F) s1"
    using TextEdit_compose_correct [OF assms(1)] assms(3) by blast
  then show ?thesis
    using ap [OF assms(3,5)] ap [of s0 G] assms(4) text_edit_check by (auto simp: text_edit_ok_def)
qed

theorem text_edit_compose_witness:
  "let s0 = [97, 98, LF, 99, 100];
       E = [MkTextReplacement (MkRange 1 2 2 1) [120, LF, 121]];
       F = [MkTextReplacement (MkRange 1 1 1 2) [122, 122], MkTextReplacement (MkRange 2 2 2 4) [LF]]
   in \<exists>G s2. TextEdit_compose E F = Some G \<and> TextEdit_applyToString F [97, 120, LF, 121, 99, 100] = Some s2 \<and>
     TextEdit_applyToString G s0 = Some s2"
proof -
  let ?s = "[97, 98, LF, 99, 100]" and ?t = "[97, 120, LF, 121, 99, 100]"
  let ?E = "[MkTextReplacement (MkRange 1 2 2 1) [120, LF, 121]]"
  let ?F = "[MkTextReplacement (MkRange 1 1 1 2) [122, 122], MkTextReplacement (MkRange 2 2 2 4) [LF]]"
  have "text_edit_ok ?s ?E" "TextEdit_applyToString ?E ?s = Some ?t" "text_edit_ok ?t ?F" by code_simp+
  moreover have "ilen ?s + 1 < MAX_SAFE_INTEGER" "ilen ?t + 1 < MAX_SAFE_INTEGER"
    by (simp_all add: MAX_SAFE_INTEGER_def)
  ultimately show ?thesis unfolding Let_def using text_edit_compose by meson
qed

end
