(* ===== verification/PrefixSums.thy ===== *)
theory PrefixSums
  imports Prelude
begin

text \<open>
  \<open>vs/editor/common/model/prefixSumComputer.ts\<close> and \<open>vs/base/common/uint.ts\<close>: the two classes
  that answer which item of a sequence of sizes a running offset falls into.
  \<open>PrefixSumComputer\<close> keeps 32-bit values in typed arrays with a lazily filled array of prefix
  sums and searches it by bisection; \<open>ConstantTimePrefixSumComputer\<close> keeps a table from sums
  to indices. Both states are records, an operation that changes the state returns it.

  A value is a \<open>32 word\<close>, whose addition is the wrap-around of a \<open>Uint32Array\<close> store. A read
  outside a typed array is \<open>undefined\<close> (\<open>None\<close>), a write outside is ignored, and \<open>set\<close> beyond
  the end throws a \<open>RangeError\<close> (\<open>None\<close>). The result of \<open>getIndexOf\<close> is a pair of index and
  remainder.
\<close>

section \<open>uint.ts\<close>

definition MAX_UINT_32 :: int where
  "MAX_UINT_32 = 4294967295"

definition MAX_UINT_8 :: int where
  "MAX_UINT_8 = 255"

definition toUint8 :: "int \<Rightarrow> int" where
  "toUint8 v = (if v < 0 then 0 else if v > MAX_UINT_8 then MAX_UINT_8 else toInt32 v)"

definition toUint32 :: "int \<Rightarrow> int" where
  "toUint32 v = (if v < 0 then 0 else if v > MAX_UINT_32 then MAX_UINT_32 else toInt32 v)"

section \<open>PrefixSumComputer\<close>

record prefix_sum_computer =
  psc_values :: "32 word list"
  psc_prefixSum :: "32 word list"
  psc_prefixSumValidIndex :: int

definition PrefixSumComputer_new :: "32 word list \<Rightarrow> prefix_sum_computer" where
  "PrefixSumComputer_new vs =
     \<lparr>psc_values = vs, psc_prefixSum = replicate (length vs) 0, psc_prefixSumValidIndex = - 1\<rparr>"

definition PrefixSumComputer_getCount :: "prefix_sum_computer \<Rightarrow> int" where
  "PrefixSumComputer_getCount s = ilen (psc_values s)"

text \<open>\<open>prefixSumValidIndex\<close> is an element of an \<open>Int32Array\<close>.\<close>

definition psc_lower :: "int \<Rightarrow> int \<Rightarrow> int" where
  "psc_lower index valid = (if index - 1 < valid then toInt32 (index - 1) else valid)"

definition psc_new_prefixSum :: "32 word list \<Rightarrow> int \<Rightarrow> nat \<Rightarrow> 32 word list option" where
  "psc_new_prefixSum oldPrefixSum valid n =
     (if valid \<ge> 0 then typed_set (replicate n 0) (js_slice oldPrefixSum 0 (valid + 1)) 0
      else Some (replicate n 0))"

definition PrefixSumComputer_insertValues ::
    "prefix_sum_computer \<Rightarrow> int \<Rightarrow> 32 word list \<Rightarrow> (bool \<times> prefix_sum_computer) option" where
  "PrefixSumComputer_insertValues s insertIndex0 insertValues =
     (let insertIndex = toUint32 insertIndex0;
          oldValues = psc_values s;
          insertValuesLen = length insertValues
      in if insertValuesLen = 0 then Some (False, s)
         else do {
           v1 \<leftarrow> typed_set (replicate (length oldValues + insertValuesLen) 0) (js_slice oldValues 0 insertIndex) 0;
           v2 \<leftarrow> typed_set v1 (subarray_from oldValues insertIndex) (insertIndex + int insertValuesLen);
           v3 \<leftarrow> typed_set v2 insertValues insertIndex;
           let valid = psc_lower insertIndex (psc_prefixSumValidIndex s) in do {
             ps \<leftarrow> psc_new_prefixSum (psc_prefixSum s) valid (length v3);
             Some (True, \<lparr>psc_values = v3, psc_prefixSum = ps, psc_prefixSumValidIndex = valid\<rparr>)
           }
         })"

definition PrefixSumComputer_setValue ::
    "prefix_sum_computer \<Rightarrow> int \<Rightarrow> int \<Rightarrow> bool \<times> prefix_sum_computer" where
  "PrefixSumComputer_setValue s index0 value0 =
     (let index = toUint32 index0; val = toUint32 value0
      in if map_option uint (js_get (psc_values s) index) = Some val then (False, s)
         else (True, s\<lparr>psc_values := typed_store (psc_values s) index (word_of_int val),
                psc_prefixSumValidIndex := psc_lower index (psc_prefixSumValidIndex s)\<rparr>))"

definition PrefixSumComputer_removeValues ::
    "prefix_sum_computer \<Rightarrow> int \<Rightarrow> int \<Rightarrow> (bool \<times> prefix_sum_computer) option" where
  "PrefixSumComputer_removeValues s startIndex0 count0 =
     (let startIndex = toUint32 startIndex0;
          count1 = toUint32 count0;
          oldValues = psc_values s
      in if startIndex \<ge> ilen oldValues then Some (False, s)
         else let maxCount = ilen oldValues - startIndex;
                  count = (if count1 \<ge> maxCount then maxCount else count1)
           in if count = 0 then Some (False, s)
              else do {
                v1 \<leftarrow> typed_set (replicate (nat (ilen oldValues - count)) 0) (js_slice oldValues 0 startIndex) 0;
                v2 \<leftarrow> typed_set v1 (subarray_from oldValues (startIndex + count)) startIndex;
                let valid = psc_lower startIndex (psc_prefixSumValidIndex s) in do {
                  ps \<leftarrow> psc_new_prefixSum (psc_prefixSum s) valid (length v2);
                  Some (True, \<lparr>psc_values = v2, psc_prefixSum = ps, psc_prefixSumValidIndex = valid\<rparr>)
                }
              })"

text \<open>\<open>for (let i = startIndex; i <= index; i++) prefixSum[i] = prefixSum[i - 1] + values[i]\<close>.\<close>

function prefixSum_loop :: "32 word list \<Rightarrow> 32 word list \<Rightarrow> nat \<Rightarrow> int \<Rightarrow> 32 word list" where
  "prefixSum_loop vs ps i index =
     (if int i \<le> index then prefixSum_loop vs (typed_store ps (int i) (ps ! (i - 1) + vs ! i)) (i + 1) index
      else ps)"
  by pat_completeness auto

termination
  by (relation "measure (\<lambda>(_, _, i, index). nat (index + 1 - int i))") auto

declare prefixSum_loop.simps [simp del]

definition PrefixSumComputer_getPrefixSum' :: "prefix_sum_computer \<Rightarrow> int \<Rightarrow> int option \<times> prefix_sum_computer" where
  "PrefixSumComputer_getPrefixSum' s index0 =
     (if index0 \<le> psc_prefixSumValidIndex s then (map_option uint (js_get (psc_prefixSum s) index0), s)
      else let startIndex0 = psc_prefixSumValidIndex s + 1;
               (ps0, startIndex) =
                 (if startIndex0 = 0 then (typed_store (psc_prefixSum s) 0 (psc_values s ! 0), startIndex0 + 1)
                  else (psc_prefixSum s, startIndex0));
               index = (if index0 \<ge> ilen (psc_values s) then ilen (psc_values s) - 1 else index0);
               ps = prefixSum_loop (psc_values s) ps0 (nat startIndex) index
           in (map_option uint (js_get ps index),
               s\<lparr>psc_prefixSum := ps,
                 psc_prefixSumValidIndex := toInt32 (max (psc_prefixSumValidIndex s) index)\<rparr>))"

definition PrefixSumComputer_getTotalSum :: "prefix_sum_computer \<Rightarrow> int option \<times> prefix_sum_computer" where
  "PrefixSumComputer_getTotalSum s =
     (if length (psc_values s) = 0 then (Some 0, s)
      else PrefixSumComputer_getPrefixSum' s (ilen (psc_values s) - 1))"

definition PrefixSumComputer_getPrefixSum :: "prefix_sum_computer \<Rightarrow> int \<Rightarrow> int option \<times> prefix_sum_computer" where
  "PrefixSumComputer_getPrefixSum s index =
     (if index < 0 then (Some 0, s) else PrefixSumComputer_getPrefixSum' s (toUint32 index))"

text \<open>The bisection of \<open>getIndexOf\<close>; it returns \<open>mid\<close> and \<open>midStart\<close>.\<close>

function getIndexOf_loop ::
    "32 word list \<Rightarrow> 32 word list \<Rightarrow> int \<Rightarrow> int \<Rightarrow> int \<Rightarrow> int \<Rightarrow> int \<Rightarrow> int \<times> int" where
  "getIndexOf_loop vs ps wanted low high mid0 midStart0 =
     (if low \<le> high then
        let mid = (low + high) div 2;
            midStop = uint (ps ! nat mid);
            midStart = midStop - uint (vs ! nat mid)
        in if wanted < midStart then getIndexOf_loop vs ps wanted low (mid - 1) mid midStart
           else if wanted \<ge> midStop then getIndexOf_loop vs ps wanted (mid + 1) high mid midStart
           else (mid, midStart)
      else (mid0, midStart0))"
  by pat_completeness auto

termination
  by (relation "measure (\<lambda>(_, _, _, low, high, _, _). nat (high + 1 - low))") auto

declare getIndexOf_loop.simps [simp del]

definition PrefixSumComputer_getIndexOf :: "prefix_sum_computer \<Rightarrow> int \<Rightarrow> (int \<times> int) \<times> prefix_sum_computer" where
  "PrefixSumComputer_getIndexOf s wanted =
     (let (_, s') = PrefixSumComputer_getTotalSum s;
          (mid, midStart) =
            getIndexOf_loop (psc_values s') (psc_prefixSum s') wanted 0 (ilen (psc_values s') - 1) 0 0
      in ((mid, wanted - midStart), s'))"

section \<open>ConstantTimePrefixSumComputer\<close>

text \<open>A store into an ordinary array may leave holes before it; a hole is \<open>None\<close>.\<close>

record constant_time_prefix_sum_computer =
  ctp_values :: "int list"
  ctp_isValid :: bool
  ctp_validEndIndex :: int
  ctp_prefixSum :: "int option list"
  ctp_indexBySum :: "int option list"

definition js_store :: "'a option list \<Rightarrow> int \<Rightarrow> 'a \<Rightarrow> 'a option list" where
  "js_store xs i v =
     (if i < ilen xs then xs[nat i := Some v] else xs @ replicate (nat (i - ilen xs)) None @ [Some v])"

definition js_setLength :: "'a option list \<Rightarrow> int \<Rightarrow> 'a option list" where
  "js_setLength xs n = itake n xs @ replicate (nat (n - ilen xs)) None"

definition js_read :: "'a option list \<Rightarrow> int \<Rightarrow> 'a option" where
  "js_read xs i = (case js_get xs i of Some (Some v) \<Rightarrow> Some v | _ \<Rightarrow> None)"

definition ConstantTimePrefixSumComputer_new :: "int list \<Rightarrow> constant_time_prefix_sum_computer" where
  "ConstantTimePrefixSumComputer_new vs =
     \<lparr>ctp_values = vs, ctp_isValid = False, ctp_validEndIndex = - 1, ctp_prefixSum = [], ctp_indexBySum = []\<rparr>"

function ensureValid_fill :: "int option list \<Rightarrow> int \<Rightarrow> int \<Rightarrow> int \<Rightarrow> int \<Rightarrow> int option list" where
  "ensureValid_fill table sumAbove i j val =
     (if j < val then ensureValid_fill (js_store table (sumAbove + j) i) sumAbove i (j + 1) val else table)"
  by pat_completeness auto

termination
  by (relation "measure (\<lambda>(_, _, _, j, val). nat (val - j))") auto

declare ensureValid_fill.simps [simp del]

text \<open>The outer loop; a missing \<open>prefixSum[i - 1]\<close> would make the sums \<open>NaN\<close>, which is \<open>None\<close>.\<close>

function ensureValid_loop ::
    "int list \<Rightarrow> int \<Rightarrow> int option list \<Rightarrow> int option list \<Rightarrow> (int option list \<times> int option list) option" where
  "ensureValid_loop vs i ps table =
     (if i < ilen vs then do {
        sumAbove \<leftarrow> (if i > 0 then js_read ps (i - 1) else Some 0);
        ensureValid_loop vs (i + 1) (js_store ps i (sumAbove + vs ! nat i))
          (ensureValid_fill table sumAbove i 0 (vs ! nat i))
      }
      else Some (ps, table))"
  by pat_completeness auto

termination
  by (relation "measure (\<lambda>(vs, i, _, _). nat (ilen vs - i))") auto

declare ensureValid_loop.simps [simp del]

definition ConstantTimePrefixSumComputer_ensureValid ::
    "constant_time_prefix_sum_computer \<Rightarrow> constant_time_prefix_sum_computer option" where
  "ConstantTimePrefixSumComputer_ensureValid s =
     (if ctp_isValid s then Some s
      else do {
        (ps, table) \<leftarrow> ensureValid_loop (ctp_values s) (ctp_validEndIndex s + 1) (ctp_prefixSum s) (ctp_indexBySum s);
        let ps' = js_setLength ps (ilen (ctp_values s)) in do {
          n \<leftarrow> (if ilen (ctp_values s) > 0 then js_read ps' (ilen (ctp_values s) - 1) else Some 0);
          if n < 0 then None else Some (s\<lparr>ctp_isValid := True, ctp_validEndIndex := ilen (ctp_values s) - 1,
            ctp_prefixSum := ps', ctp_indexBySum := js_setLength table n\<rparr>)
        }
      })"

definition ConstantTimePrefixSumComputer_getTotalSum ::
    "constant_time_prefix_sum_computer \<Rightarrow> (int \<times> constant_time_prefix_sum_computer) option" where
  "ConstantTimePrefixSumComputer_getTotalSum s =
     do { s' \<leftarrow> ConstantTimePrefixSumComputer_ensureValid s; Some (ilen (ctp_indexBySum s'), s') }"

definition ConstantTimePrefixSumComputer_getPrefixSum ::
    "constant_time_prefix_sum_computer \<Rightarrow> int \<Rightarrow> (int option \<times> constant_time_prefix_sum_computer) option" where
  "ConstantTimePrefixSumComputer_getPrefixSum s count =
     do { s' \<leftarrow> ConstantTimePrefixSumComputer_ensureValid s;
          Some (if count = 0 then Some 0 else js_read (ctp_prefixSum s') (count - 1), s') }"

definition ConstantTimePrefixSumComputer_getIndexOf ::
    "constant_time_prefix_sum_computer \<Rightarrow> int \<Rightarrow> ((int \<times> int) \<times> constant_time_prefix_sum_computer) option" where
  "ConstantTimePrefixSumComputer_getIndexOf s wanted =
     do { s' \<leftarrow> ConstantTimePrefixSumComputer_ensureValid s;
          case js_read (ctp_indexBySum s') wanted of
            None \<Rightarrow> let lastIdx = max 0 (ilen (ctp_values s') - 1) in do {
              lastPrefixSum \<leftarrow> (if lastIdx > 0 then js_read (ctp_prefixSum s') (lastIdx - 1) else Some 0);
              Some ((lastIdx, wanted - lastPrefixSum), s')
            }
          | Some idx \<Rightarrow> do {
              viewLinesAbove \<leftarrow> (if idx > 0 then js_read (ctp_prefixSum s') (idx - 1) else Some 0);
              Some ((idx, wanted - viewLinesAbove), s')
            } }"

definition ConstantTimePrefixSumComputer_invalidate ::
    "constant_time_prefix_sum_computer \<Rightarrow> int \<Rightarrow> constant_time_prefix_sum_computer" where
  "ConstantTimePrefixSumComputer_invalidate s index =
     s\<lparr>ctp_isValid := False, ctp_validEndIndex := min (ctp_validEndIndex s) (index - 1)\<rparr>"

definition ConstantTimePrefixSumComputer_removeValues ::
    "constant_time_prefix_sum_computer \<Rightarrow> nat \<Rightarrow> nat \<Rightarrow> constant_time_prefix_sum_computer" where
  "ConstantTimePrefixSumComputer_removeValues s start deleteCount =
     ConstantTimePrefixSumComputer_invalidate
       (s\<lparr>ctp_values := js_splice (ctp_values s) start deleteCount []\<rparr>) (int start)"

text \<open>\<open>arrayInsert\<close> of \<open>arrays.ts\<close>.\<close>

definition arrayInsert :: "'a list \<Rightarrow> int \<Rightarrow> 'a list \<Rightarrow> 'a list" where
  "arrayInsert target insertIndex insertArr =
     js_slice target 0 insertIndex @ insertArr @ js_slice target insertIndex (ilen target)"

definition ConstantTimePrefixSumComputer_insertValues ::
    "constant_time_prefix_sum_computer \<Rightarrow> int \<Rightarrow> int list \<Rightarrow> constant_time_prefix_sum_computer" where
  "ConstantTimePrefixSumComputer_insertValues s insertIndex insertArr =
     ConstantTimePrefixSumComputer_invalidate
       (s\<lparr>ctp_values := arrayInsert (ctp_values s) insertIndex insertArr\<rparr>) insertIndex"

text \<open>An index outside the array would leave it with holes or a property that is no element: \<open>None\<close>.\<close>

definition ConstantTimePrefixSumComputer_setValue ::
    "constant_time_prefix_sum_computer \<Rightarrow> int \<Rightarrow> int \<Rightarrow> constant_time_prefix_sum_computer option" where
  "ConstantTimePrefixSumComputer_setValue s index val =
     (if js_get (ctp_values s) index = Some val then Some s
      else if 0 \<le> index \<and> index < ilen (ctp_values s)
      then Some (ConstantTimePrefixSumComputer_invalidate
        (s\<lparr>ctp_values := (ctp_values s)[nat index := val]\<rparr>) index)
      else None)"

section \<open>What both classes promise\<close>

text \<open>
  The items are non-negative sizes; \<open>located vs n i r\<close> says that the running offset \<open>n\<close> falls
  into item \<open>i\<close> at \<open>r\<close>.
\<close>

definition located :: "int list \<Rightarrow> int \<Rightarrow> nat \<Rightarrow> int \<Rightarrow> bool" where
  "located vs n i r \<longleftrightarrow> i < length vs \<and> sum_list (take i vs) + r = n \<and> 0 \<le> r \<and> r < vs ! i"

lemma sum_list_take_mono:
  assumes "\<forall>v \<in> set vs. 0 \<le> v" "i \<le> j"
  shows "sum_list (take i vs) \<le> sum_list (take j vs :: int list)"
proof -
  have "take j vs = take i vs @ take (j - i) (drop i vs)"
    using assms(2) by (metis le_add_diff_inverse take_add)
  moreover have "0 \<le> sum_list (take (j - i) (drop i vs))"
    using assms(1) by (intro sum_list_nonneg) (auto dest: in_set_takeD in_set_dropD)
  ultimately show ?thesis by simp
qed

lemma located_unique:
  assumes "\<forall>v \<in> set vs. 0 \<le> v" "located vs n i r" "located vs n j q"
  shows "i = j \<and> r = q"
proof -
  have less: False if "located vs n a x" "located vs n b y" "a < b" for a b x y
    using that sum_list_take_mono [OF assms(1), of "Suc a" b] sum_list_take_Suc [of a vs]
    by (simp add: located_def)
  then have "i = j" using assms(2,3) by (meson less_linear)
  then show ?thesis using assms(2,3) by (simp add: located_def)
qed

lemma located_exists:
  assumes "\<forall>v \<in> set vs. 0 \<le> v" "0 \<le> n" "n < sum_list vs"
  shows "\<exists>i r. located vs n i r"
  using assms
proof (induction vs arbitrary: n)
  case (Cons v vs)
  show ?case
  proof (cases "n < v")
    case True
    then have "located (v # vs) n 0 n" using Cons.prems by (simp add: located_def)
    then show ?thesis by blast
  next
    case False
    then obtain i r where "located vs (n - v) i r" using Cons.IH [of "n - v"] Cons.prems by auto
    then have "located (v # vs) n (Suc i) r" by (simp add: located_def)
    then show ?thesis by blast
  qed
qed simp

locale item_sums =
  fixes inv :: "'s \<Rightarrow> bool" and items :: "'s \<Rightarrow> int list" and item :: "'v \<Rightarrow> int"
    and room :: "nat \<Rightarrow> bool" and fits :: "int \<Rightarrow> bool"
    and insert :: "'s \<Rightarrow> nat \<Rightarrow> 'v list \<Rightarrow> 's option"
    and remove :: "'s \<Rightarrow> nat \<Rightarrow> nat \<Rightarrow> 's option"
    and change :: "'s \<Rightarrow> nat \<Rightarrow> 'v \<Rightarrow> 's option"
    and total :: "'s \<Rightarrow> (int \<times> 's) option"
    and indexOf :: "'s \<Rightarrow> int \<Rightarrow> ((int \<times> int) \<times> 's) option"
  assumes items_nonneg: "inv s \<Longrightarrow> \<forall>v \<in> set (items s). 0 \<le> v"
    and insert_items: "inv s \<Longrightarrow> i \<le> length (items s) \<Longrightarrow> room (length (items s) + length vs) \<Longrightarrow>
      \<forall>v \<in> set vs. 0 \<le> item v \<Longrightarrow>
      \<exists>s'. insert s i vs = Some s' \<and> inv s' \<and> items s' = take i (items s) @ map item vs @ drop i (items s)"
    and remove_items: "inv s \<Longrightarrow> i + k \<le> length (items s) \<Longrightarrow> room k \<Longrightarrow>
      \<exists>s'. remove s i k = Some s' \<and> inv s' \<and> items s' = take i (items s) @ drop (i + k) (items s)"
    and change_items: "inv s \<Longrightarrow> i < length (items s) \<Longrightarrow> 0 \<le> item v \<Longrightarrow>
      \<exists>s'. change s i v = Some s' \<and> inv s' \<and> items s' = (items s)[i := item v]"
    and total_items: "inv s \<Longrightarrow> fits (sum_list (items s)) \<Longrightarrow>
      \<exists>s'. total s = Some (sum_list (items s), s') \<and> inv s' \<and> items s' = items s"
    and indexOf_items: "inv s \<Longrightarrow> fits (sum_list (items s)) \<Longrightarrow> 0 \<le> n \<Longrightarrow> n < sum_list (items s) \<Longrightarrow>
      \<exists>i r s'. indexOf s n = Some ((int i, r), s') \<and> inv s' \<and> items s' = items s \<and> located (items s) n i r"
begin

text \<open>Looking up is determined by the items alone.\<close>

lemma indexOf_located:
  assumes "inv s" "fits (sum_list (items s))" "located (items s) n i r"
  shows "\<exists>s'. indexOf s n = Some ((int i, r), s') \<and> inv s' \<and> items s' = items s"
proof -
  note nn = items_nonneg [OF assms(1)]
  have "0 \<le> sum_list (take i (items s))"
    using sum_list_take_mono [OF nn, of 0 i] by simp
  moreover have "sum_list (take (Suc i) (items s)) \<le> sum_list (items s)"
    using sum_list_take_mono [OF nn, of "Suc i" "max (Suc i) (length (items s))"] by simp
  moreover have "sum_list (take (Suc i) (items s)) = sum_list (take i (items s)) + items s ! i"
    using assms(3) by (intro sum_list_take_Suc) (simp add: located_def)
  ultimately have "0 \<le> n" "n < sum_list (items s)" using assms(3) by (auto simp: located_def)
  from indexOf_items [OF assms(1,2) this] located_unique [OF nn assms(3)] show ?thesis by auto
qed

text \<open>Items inserted before the one that was found shift it, and removing them again shifts it back.\<close>

lemma insert_shifts:
  assumes "inv s" "located (items s) n i r" "k \<le> i" "room (length (items s) + length vs)"
    and "\<forall>v \<in> set vs. 0 \<le> item v" "fits (sum_list (items s) + sum_list (map item vs))"
  shows "\<exists>s' s''. insert s k vs = Some s' \<and>
    indexOf s' (n + sum_list (map item vs)) = Some ((int (i + length vs), r), s'') \<and> inv s''"
proof -
  let ?it = "items s"
  have k: "k \<le> length ?it" using assms(2,3) by (simp add: located_def)
  obtain s' where s': "insert s k vs = Some s'" "inv s'" "items s' = take k ?it @ map item vs @ drop k ?it"
    using insert_items [OF assms(1) k assms(4,5)] by blast
  have sum: "sum_list (items s') = sum_list ?it + sum_list (map item vs)"
    using s'(3) sum_list.append [of "take k ?it" "drop k ?it"] by simp
  have tk: "take (i + length vs) (items s') = take k ?it @ map item vs @ take (i - k) (drop k ?it)"
  proof -
    have "length (take k ?it @ map item vs) = k + length vs" using k by simp
    moreover have "i + length vs - (k + length vs) = i - k" by simp
    ultimately have "take (i + length vs) ((take k ?it @ map item vs) @ drop k ?it) =
        take (i + length vs) (take k ?it @ map item vs) @ take (i - k) (drop k ?it)"
      by (simp only: take_append)
    moreover have "take (i + length vs) (take k ?it @ map item vs) = take k ?it @ map item vs"
      using k assms(3) by (intro take_all) simp
    ultimately show ?thesis unfolding s'(3) by simp
  qed
  have "sum_list (take k ?it) + sum_list (take (i - k) (drop k ?it)) = sum_list (take i ?it)"
    using assms(3) by (metis le_add_diff_inverse sum_list.append take_add)
  then have "sum_list (take (i + length vs) (items s')) = sum_list (take i ?it) + sum_list (map item vs)"
    unfolding tk by simp
  moreover have "items s' ! (i + length vs) = ?it ! i"
  proof -
    have "\<not> i + length vs < k" "\<not> i + length vs - k < length vs" "i + length vs - k - length vs = i - k"
      using assms(3) by simp_all
    then show ?thesis using s'(3) k assms(2,3) by (simp add: nth_append located_def)
  qed
  ultimately have "located (items s') (n + sum_list (map item vs)) (i + length vs) r"
    using assms(2) s'(3) k by (simp add: located_def)
  moreover have "fits (sum_list (items s'))" unfolding sum by (rule assms(6))
  ultimately show ?thesis using indexOf_located [OF s'(2)] s'(1) by blast
qed

end

section \<open>PrefixSumComputer\<close>

definition psc_ok :: "prefix_sum_computer \<Rightarrow> bool" where
  "psc_ok s \<longleftrightarrow>
     length (psc_prefixSum s) = length (psc_values s) \<and> length (psc_values s) < 2 ^ 31 \<and>
     - 1 \<le> psc_prefixSumValidIndex s \<and> psc_prefixSumValidIndex s < ilen (psc_values s) \<and>
     (\<forall>k. int k \<le> psc_prefixSumValidIndex s \<longrightarrow>
        psc_prefixSum s ! k = sum_list (take (Suc k) (psc_values s)))"

definition psc_items :: "prefix_sum_computer \<Rightarrow> int list" where
  "psc_items s = map uint (psc_values s)"

lemma toUint32_small: "0 \<le> v \<Longrightarrow> v < 2 ^ 31 \<Longrightarrow> toUint32 v = v"
  by (simp add: toUint32_def MAX_UINT_32_def int32_range_def)

lemma typed_set_start: "ilen src \<le> ilen tgt \<Longrightarrow> typed_set tgt src 0 = Some (src @ drop (length src) tgt)"
  by (simp add: typed_set_def idrop_def)

lemma typed_set_at:
  "k + length src \<le> length tgt \<Longrightarrow>
    typed_set tgt src (int k) = Some (take k tgt @ src @ drop (k + length src) tgt)"
  by (simp add: typed_set_def itake_def idrop_def nat_add_distrib)

lemma js_slice_take: "k \<le> length xs \<Longrightarrow> js_slice xs 0 (int k) = take k xs"
  by (simp add: itake_def)

declare js_slice_in [simp del]

lemma subarray_drop: "k \<le> length xs \<Longrightarrow> subarray_from xs (int k) = drop k xs"
  by (simp add: subarray_from_def js_slice_in idrop_def itake_def)

lemma psc_new_prefixSum_eq:
  assumes "- 1 \<le> valid" "valid < int (length ps)" "valid < int n"
  shows "psc_new_prefixSum ps valid n =
    Some (take (nat (valid + 1)) ps @ replicate (n - nat (valid + 1)) 0)"
proof (cases "valid \<ge> 0")
  case True
  then have "js_slice ps 0 (valid + 1) = take (nat (valid + 1)) ps"
    using js_slice_take [of "nat (valid + 1)" ps] assms by simp
  moreover have "ilen (take (nat (valid + 1)) ps) = valid + 1" using True assms by simp
  ultimately show ?thesis
    using True assms typed_set_start [of "take (nat (valid + 1)) ps" "replicate n 0"]
    by (simp add: psc_new_prefixSum_def min_def)
next
  case False
  then have "valid = - 1" using assms by simp
  then show ?thesis by (simp add: psc_new_prefixSum_def)
qed

lemma take_fill:
  assumes "m \<le> length ps" "m \<le> n"
  shows "length (take m ps @ replicate (n - m) x) = n"
    "k < m \<Longrightarrow> (take m ps @ replicate (n - m) x) ! k = ps ! k"
  using assms by (simp_all add: nth_append min_def)

text \<open>Any change of the values from index \<open>i\<close> on keeps the invariant when the valid index is lowered.\<close>

lemma psc_changed_ok:
  assumes ok: "psc_ok s" and i: "i \<le> length (psc_values s)" "i \<le> length vs" "length vs < 2 ^ 31"
    and same: "take i vs = take i (psc_values s)"
    and ps: "length ps = length vs"
      "\<And>k. int k \<le> psc_lower (int i) (psc_prefixSumValidIndex s) \<Longrightarrow> ps ! k = psc_prefixSum s ! k"
  shows "psc_ok \<lparr>psc_values = vs, psc_prefixSum = ps,
    psc_prefixSumValidIndex = psc_lower (int i) (psc_prefixSumValidIndex s)\<rparr>"
proof -
  let ?v = "psc_lower (int i) (psc_prefixSumValidIndex s)"
  have v: "?v = min (int i - 1) (psc_prefixSumValidIndex s)"
    using i ok by (auto simp: psc_lower_def psc_ok_def int32_range_def)
  have "ps ! k = sum_list (take (Suc k) vs)" if k: "int k \<le> ?v" for k
  proof -
    have "Suc k \<le> i" "int k \<le> psc_prefixSumValidIndex s" using k v by auto
    then have "psc_prefixSum s ! k = sum_list (take (Suc k) (psc_values s))"
      "take (Suc k) vs = take (Suc k) (psc_values s)"
      using ok same by (auto simp: psc_ok_def dest: arg_cong [where f = "take (Suc k)"] simp: min_def)
    then show ?thesis using ps(2) [OF k] by simp
  qed
  then show ?thesis using ok i ps(1) v by (simp add: psc_ok_def)
qed

lemma psc_lower_bounds:
  assumes "psc_ok s" "i \<le> length (psc_values s)"
  shows "- 1 \<le> psc_lower (int i) (psc_prefixSumValidIndex s)" "psc_lower (int i) (psc_prefixSumValidIndex s) < int i"
    "psc_lower (int i) (psc_prefixSumValidIndex s) \<le> psc_prefixSumValidIndex s"
  using assms by (auto simp: psc_lower_def psc_ok_def int32_range_def)

lemma insertValues_correct:
  assumes "psc_ok s" "i \<le> length (psc_values s)" "length (psc_values s) + length vs < 2 ^ 31"
  shows "\<exists>s'. PrefixSumComputer_insertValues s (int i) vs = Some (vs \<noteq> [], s') \<and> psc_ok s' \<and>
    psc_values s' = take i (psc_values s) @ vs @ drop i (psc_values s)"
proof (cases "vs = []")
  case False
  let ?old = "psc_values s" and ?n = "length (psc_values s)" and ?k = "length vs"
  let ?v = "psc_lower (int i) (psc_prefixSumValidIndex s)"
  let ?new = "take i ?old @ vs @ drop i ?old"
  let ?ps = "take (nat (?v + 1)) (psc_prefixSum s) @ replicate (length ?new - nat (?v + 1)) 0"
  have u: "toUint32 (int i) = int i" using assms by (intro toUint32_small) auto
  note b = psc_lower_bounds [OF assms(1,2)]
  have len: "length (psc_prefixSum s) = ?n" "psc_prefixSumValidIndex s < int ?n" using assms(1) by (simp_all add: psc_ok_def)
  have v1: "typed_set (replicate (?n + ?k) 0) (js_slice ?old 0 (int i)) 0 =
      Some (take i ?old @ replicate (?n + ?k - i) 0)"
    using assms(2) by (simp add: js_slice_take typed_set_start min_def)
  have v2: "typed_set (take i ?old @ replicate (?n + ?k - i) 0) (subarray_from ?old (int i)) (int i + int ?k) =
      Some (take i ?old @ replicate ?k 0 @ drop i ?old)"
    using assms(2) typed_set_at [of "i + ?k" "drop i ?old" "take i ?old @ replicate (?n + ?k - i) 0"]
    by (simp add: subarray_drop min_def)
  have v3: "typed_set (take i ?old @ replicate ?k 0 @ drop i ?old) vs (int i) = Some ?new"
    using assms(2) typed_set_at [of i vs "take i ?old @ replicate ?k 0 @ drop i ?old"] by (simp add: min_def)
  have ps: "psc_new_prefixSum (psc_prefixSum s) ?v (length ?new) = Some ?ps"
    using b assms(2) len by (intro psc_new_prefixSum_eq) auto
  have "psc_ok \<lparr>psc_values = ?new, psc_prefixSum = ?ps, psc_prefixSumValidIndex = ?v\<rparr>"
  proof (rule psc_changed_ok [OF assms(1,2)])
    have m: "nat (?v + 1) \<le> length (psc_prefixSum s)" "nat (?v + 1) \<le> length ?new"
      using b assms(2) len by auto
    show "length ?ps = length ?new" by (rule take_fill(1) [OF m])
    fix k assume "int k \<le> ?v"
    then show "?ps ! k = psc_prefixSum s ! k" using b by (intro take_fill(2) [OF m]) auto
  qed (use assms in auto)
  moreover have "PrefixSumComputer_insertValues s (int i) vs =
      Some (True, \<lparr>psc_values = ?new, psc_prefixSum = ?ps, psc_prefixSumValidIndex = ?v\<rparr>)"
    using False by (simp add: PrefixSumComputer_insertValues_def Let_def u v1 v2 v3 ps del: length_append)
  ultimately show ?thesis using False by simp
qed (use assms in \<open>simp add: PrefixSumComputer_insertValues_def\<close>)

lemma removeValues_correct:
  assumes "psc_ok s" "i + k \<le> length (psc_values s)"
  shows "\<exists>s'. PrefixSumComputer_removeValues s (int i) (int k) = Some (0 < k, s') \<and> psc_ok s' \<and>
    psc_values s' = take i (psc_values s) @ drop (i + k) (psc_values s)"
proof (cases "k = 0")
  case False
  let ?old = "psc_values s" and ?n = "length (psc_values s)"
  let ?v = "psc_lower (int i) (psc_prefixSumValidIndex s)"
  let ?new = "take i ?old @ drop (i + k) ?old"
  let ?ps = "take (nat (?v + 1)) (psc_prefixSum s) @ replicate (length ?new - nat (?v + 1)) 0"
  have lt: "?n < 2 ^ 31" "i < ?n" using assms False by (auto simp: psc_ok_def)
  have u: "toUint32 (int i) = int i" "toUint32 (int k) = int k"
    using assms lt by (auto intro!: toUint32_small)
  have i: "i \<le> ?n" using assms(2) by simp
  note b = psc_lower_bounds [OF assms(1) i]
  have len: "length (psc_prefixSum s) = ?n" "psc_prefixSumValidIndex s < int ?n" using assms(1) by (simp_all add: psc_ok_def)
  have nk: "nat (int ?n - int k) = ?n - k" by simp
  have v1: "typed_set (replicate (?n - k) 0) (js_slice ?old 0 (int i)) 0 =
      Some (take i ?old @ replicate (?n - k - i) 0)"
    using assms(2) by (simp add: js_slice_take typed_set_start min_def)
  have v2: "typed_set (take i ?old @ replicate (?n - k - i) 0) (subarray_from ?old (int i + int k)) (int i) = Some ?new"
    using assms(2) subarray_drop [of "i + k" ?old]
      typed_set_at [of i "drop (i + k) ?old" "take i ?old @ replicate (?n - k - i) 0"]
    by (simp add: min.absorb2)
  have ps: "psc_new_prefixSum (psc_prefixSum s) ?v (length ?new) = Some ?ps"
    using b assms(2) len by (intro psc_new_prefixSum_eq) auto
  have "psc_ok \<lparr>psc_values = ?new, psc_prefixSum = ?ps, psc_prefixSumValidIndex = ?v\<rparr>"
  proof (rule psc_changed_ok [OF assms(1) i])
    have m: "nat (?v + 1) \<le> length (psc_prefixSum s)" "nat (?v + 1) \<le> length ?new"
      using b assms(2) len by auto
    show "length ?ps = length ?new" by (rule take_fill(1) [OF m])
    fix k assume "int k \<le> ?v"
    then show "?ps ! k = psc_prefixSum s ! k" using b by (intro take_fill(2) [OF m]) auto
  qed (use assms lt in auto)
  moreover have "(if int k \<ge> int ?n - int i then int ?n - int i else int k) = int k"
    using assms(2) by auto
  then have "PrefixSumComputer_removeValues s (int i) (int k) =
      Some (True, \<lparr>psc_values = ?new, psc_prefixSum = ?ps, psc_prefixSumValidIndex = ?v\<rparr>)"
    using False lt v1 v2 ps unfolding PrefixSumComputer_removeValues_def Let_def u nk
    by (simp only: nk of_nat_eq_0_iff if_False bind.bind_lunit) simp
  ultimately show ?thesis using False by simp
next
  case True
  have "toUint32 (int i) = int i" "toUint32 (int k) = 0"
    using assms True toUint32_small [of "int i"] toUint32_small [of 0] by (auto simp: psc_ok_def)
  then show ?thesis using True assms by (auto simp: PrefixSumComputer_removeValues_def Let_def)
qed

lemma setValue_correct:
  assumes "psc_ok s" "i < length (psc_values s)" "0 \<le> v" "v < 2 ^ 32"
  shows "\<exists>c s'. PrefixSumComputer_setValue s (int i) v = (c, s') \<and> psc_ok s' \<and>
    psc_values s' = (psc_values s)[i := word_of_int v]"
proof -
  have u: "toUint32 (int i) = int i" using assms by (intro toUint32_small) (auto simp: psc_ok_def)
  have "toUint32 v = toInt32 v" using assms by (simp add: toUint32_def MAX_UINT_32_def)
  moreover have "(word_of_int (toInt32 v) :: 32 word) = word_of_int v"
  proof -
    have "toInt32 v mod 2 ^ 32 = v mod 2 ^ 32"
      by (simp add: toInt32_def mod_diff_left_eq)
    then show ?thesis by (simp add: word_of_int_eq_iff take_bit_eq_mod)
  qed
  ultimately have w: "(word_of_int (toUint32 v) :: 32 word) = word_of_int v" by simp
  show ?thesis
  proof (cases "uint (psc_values s ! i) = toUint32 v")
    case True
    then have "psc_values s ! i = word_of_int v" using w by (metis word_of_int_uint)
    then have "(psc_values s)[i := word_of_int v] = psc_values s" by (metis list_update_id)
    then show ?thesis
      using True assms u
      by (intro exI [of _ False] exI [of _ s]) (simp add: PrefixSumComputer_setValue_def Let_def)
  next
    case False
    let ?v = "psc_lower (int i) (psc_prefixSumValidIndex s)"
    let ?new = "(psc_values s)[i := word_of_int v]"
    have "psc_ok \<lparr>psc_values = ?new, psc_prefixSum = psc_prefixSum s, psc_prefixSumValidIndex = ?v\<rparr>"
      using assms by (intro psc_changed_ok) (auto simp: psc_ok_def)
    moreover have "PrefixSumComputer_setValue s (int i) v =
        (True, \<lparr>psc_values = ?new, psc_prefixSum = psc_prefixSum s, psc_prefixSumValidIndex = ?v\<rparr>)"
      using False assms u w by (simp add: PrefixSumComputer_setValue_def Let_def typed_store_def)
    ultimately show ?thesis by force
  qed
qed

subsection \<open>Sums modulo 2 ^ 32\<close>

lemma uint_sum_list: "uint (sum_list ws :: 32 word) = sum_list (map uint ws) mod 2 ^ 32"
proof (induction ws)
  case (Cons w ws)
  have "uint (w + sum_list ws) = (uint w + uint (sum_list ws)) mod 2 ^ 32"
    by (simp add: uint_word_ariths)
  then show ?case using Cons by (simp add: mod_add_right_eq)
qed simp

lemma psc_items_nonneg: "\<forall>v \<in> set (psc_items s). 0 \<le> v"
  by (simp add: psc_items_def)

lemma psc_prefix_uint:
  assumes "sum_list (psc_items s) < 2 ^ 32"
  shows "uint (sum_list (take k (psc_values s))) = sum_list (take k (psc_items s))"
proof -
  have "sum_list (take k (psc_items s)) \<le> sum_list (psc_items s)"
    using sum_list_take_mono [OF psc_items_nonneg, of k "max k (length (psc_items s))" s] by simp
  moreover have "0 \<le> sum_list (take k (psc_items s))"
    using sum_list_take_mono [OF psc_items_nonneg, of 0 k s] by simp
  ultimately show ?thesis
    using assms by (simp add: uint_sum_list psc_items_def take_map)
qed

lemma prefixSum_loop_correct:
  assumes "length ps = length vs" "1 \<le> i" "\<forall>k < i. k < length vs \<longrightarrow> ps ! k = sum_list (take (Suc k) vs)"
    and "index < int (length vs)"
  shows "length (prefixSum_loop vs ps i index) = length vs \<and>
    (\<forall>k. k < i \<or> int k \<le> index \<longrightarrow> k < length vs \<longrightarrow>
      prefixSum_loop vs ps i index ! k = sum_list (take (Suc k) vs))"
  using assms
proof (induction vs ps i index rule: prefixSum_loop.induct)
  case (1 vs ps i index)
  show ?case
  proof (cases "int i \<le> index")
    case True
    let ?ps = "typed_store ps (int i) (ps ! (i - 1) + vs ! i)"
    have i: "i < length vs" using True 1(5) by simp
    have eq: "?ps = ps[i := ps ! (i - 1) + vs ! i]" using i 1(2) by (simp add: typed_store_def)
    have "ps ! (i - 1) = sum_list (take i vs)" using 1(3,4) i by (cases i) auto
    then have "ps ! (i - 1) + vs ! i = sum_list (take (Suc i) vs)"
      using i by (simp add: take_Suc_conv_app_nth)
    then have step: "\<forall>k < i + 1. k < length vs \<longrightarrow> ?ps ! k = sum_list (take (Suc k) vs)"
      unfolding eq using 1(2,4) i by (auto simp: nth_list_update less_Suc_eq)
    have IH: "length (prefixSum_loop vs ?ps (i + 1) index) = length vs \<and>
        (\<forall>k. k < i + 1 \<or> int k \<le> index \<longrightarrow> k < length vs \<longrightarrow>
          prefixSum_loop vs ?ps (i + 1) index ! k = sum_list (take (Suc k) vs))"
      using 1(2,5) step by (intro 1(1) [OF True]) (simp_all add: typed_store_def)
    have "prefixSum_loop vs ps i index = prefixSum_loop vs ?ps (i + 1) index"
      using True by (subst prefixSum_loop.simps) simp
    then show ?thesis using IH by auto
  next
    case False
    then have "prefixSum_loop vs ps i index = ps" by (subst prefixSum_loop.simps) simp
    then show ?thesis using 1(2,4) False by auto
  qed
qed

lemma getPrefixSum'_correct:
  assumes ok: "psc_ok s" and ne: "psc_values s \<noteq> []" and idx: "0 \<le> index"
  defines "j \<equiv> min (nat index) (length (psc_values s) - 1)"
  shows "\<exists>s'. PrefixSumComputer_getPrefixSum' s index =
      (Some (uint (sum_list (take (Suc j) (psc_values s)))), s') \<and>
    psc_ok s' \<and> psc_values s' = psc_values s \<and> int j \<le> psc_prefixSumValidIndex s'"
proof (cases "index \<le> psc_prefixSumValidIndex s")
  case True
  then have "nat index < length (psc_values s)" "int (nat index) = index" using ok idx by (auto simp: psc_ok_def)
  moreover from this have "j = nat index" by (simp add: j_def)
  ultimately show ?thesis
    using ok True idx by (simp add: PrefixSumComputer_getPrefixSum'_def psc_ok_def)
next
  case False
  let ?vs = "psc_values s" and ?n = "length (psc_values s)"
  let ?v = "psc_prefixSumValidIndex s"
  let ?qs = "if ?v + 1 = 0 then typed_store (psc_prefixSum s) 0 (?vs ! 0) else psc_prefixSum s"
  let ?i = "if ?v + 1 = 0 then 1 else nat (?v + 1)"
  let ?ps = "prefixSum_loop ?vs ?qs ?i (int j)"
  have n: "0 < ?n" "?n < 2 ^ 31" "length (psc_prefixSum s) = ?n" "- 1 \<le> ?v" "?v < int ?n"
    using ok ne by (auto simp: psc_ok_def)
  have j: "j < ?n" "(if index \<ge> int ?n then int ?n - 1 else index) = int j"
  proof -
    obtain m where "?n = Suc m" using n(1) by (metis gr0_conv_Suc)
    then show "j < ?n" "(if index \<ge> int ?n then int ?n - 1 else index) = int j"
      using idx by (auto simp: j_def min_def)
  qed
  have ps0: "length ?qs = ?n" "\<forall>k < ?i. k < ?n \<longrightarrow> ?qs ! k = sum_list (take (Suc k) ?vs)"
  proof -
    show "length ?qs = ?n" using n by (simp add: typed_store_def)
    show "\<forall>k < ?i. k < ?n \<longrightarrow> ?qs ! k = sum_list (take (Suc k) ?vs)"
    proof (cases "?v = - 1")
      case True
      then show ?thesis using n by (cases ?vs) (simp_all add: typed_store_def)
    next
      case False
      then have "?v + 1 \<noteq> 0" by simp
      then show ?thesis using ok n by (auto simp: psc_ok_def)
    qed
  qed
  have one: "1 \<le> ?i" using n by auto
  have loop: "length ?ps = ?n" "\<And>k. k < ?i \<or> int k \<le> int j \<Longrightarrow> k < ?n \<Longrightarrow> ?ps ! k = sum_list (take (Suc k) ?vs)"
    using prefixSum_loop_correct [OF ps0(1) one ps0(2), of "int j"] j by auto
  let ?s' = "s\<lparr>psc_prefixSum := ?ps, psc_prefixSumValidIndex := max ?v (int j)\<rparr>"
  have "toInt32 (max ?v (int j)) = max ?v (int j)"
    using n j by (intro toInt32_id) (auto simp: int32_range_def)
  moreover have "nat (if ?v + 1 = 0 then ?v + 1 + 1 else ?v + 1) = ?i" by auto
  ultimately have "PrefixSumComputer_getPrefixSum' s index = (Some (uint (sum_list (take (Suc j) ?vs))), ?s')"
    using False loop j
    by (simp add: PrefixSumComputer_getPrefixSum'_def Let_def split: if_splits)
  moreover have "psc_ok ?s'"
  proof -
    have "?ps ! k = sum_list (take (Suc k) ?vs)" if "int k \<le> max ?v (int j)" for k
    proof (rule loop(2))
      show "k < ?i \<or> int k \<le> int j" using that by (auto simp: max_def split: if_splits)
      show "k < ?n" using that n(5) j(1) by (auto simp: max_def split: if_splits)
    qed
    then show ?thesis using n j(1) loop(1) by (simp add: psc_ok_def)
  qed
  ultimately show ?thesis by simp
qed

lemma getTotalSum_correct:
  assumes "psc_ok s"
  shows "\<exists>s'. PrefixSumComputer_getTotalSum s = (Some (uint (sum_list (psc_values s))), s') \<and>
    psc_ok s' \<and> psc_values s' = psc_values s \<and> psc_prefixSumValidIndex s' = ilen (psc_values s) - 1"
proof (cases "psc_values s = []")
  case True
  then show ?thesis using assms by (simp add: PrefixSumComputer_getTotalSum_def psc_ok_def)
next
  case False
  then have n: "0 < length (psc_values s)" by simp
  obtain s' where s': "PrefixSumComputer_getPrefixSum' s (ilen (psc_values s) - 1) =
      (Some (uint (sum_list (psc_values s))), s')"
    "psc_ok s'" "psc_values s' = psc_values s" "ilen (psc_values s) - 1 \<le> psc_prefixSumValidIndex s'"
    using getPrefixSum'_correct [OF assms False, of "ilen (psc_values s) - 1"] n by (auto simp: nat_diff_distrib')
  then have "psc_prefixSumValidIndex s' = ilen (psc_values s) - 1" by (simp add: psc_ok_def)
  then show ?thesis using s' False by (simp add: PrefixSumComputer_getTotalSum_def)
qed

subsection \<open>The bisection\<close>

lemma getIndexOf_loop_located:
  assumes nn: "\<forall>v \<in> set vs. 0 \<le> v" and vs: "vs = map uint ws" "length ps = length ws"
    and ps: "\<And>k. k < length ws \<Longrightarrow> uint (ps ! k) = sum_list (take (Suc k) vs)"
    and "0 \<le> low" "high < int (length ws)"
    and "sum_list (take (nat low) vs) \<le> n" "n < sum_list (take (nat (high + 1)) vs)"
  shows "\<exists>i r. getIndexOf_loop ws ps n low high mid0 midStart0 = (int i, n - r) \<and> located vs n i r"
  using assms(5-8)
proof (induction "nat (high + 1 - low)" arbitrary: low high mid0 midStart0 rule: less_induct)
  case less
  have le: "low \<le> high"
  proof (rule ccontr)
    assume "\<not> low \<le> high"
    then have "nat (high + 1) \<le> nat low" by simp
    from sum_list_take_mono [OF nn this] less.prems show False by simp
  qed
  define mid where "mid = (low + high) div 2"
  have mid: "low \<le> mid" "mid \<le> high" using le by (auto simp: mid_def)
  let ?m = "nat mid"
  have m: "?m < length ws" "int ?m = mid" using mid less.prems by auto
  have len: "length vs = length ws" by (simp add: vs)
  have stop: "uint (ps ! ?m) = sum_list (take (Suc ?m) vs)" by (rule ps [OF m(1)])
  have start: "uint (ps ! ?m) - uint (ws ! ?m) = sum_list (take ?m vs)"
    unfolding stop using m(1) sum_list_take_Suc [of ?m vs] by (simp add: vs)
  have step: "getIndexOf_loop ws ps n low high mid0 midStart0 =
      (if n < sum_list (take ?m vs) then getIndexOf_loop ws ps n low (mid - 1) mid (sum_list (take ?m vs))
       else if n \<ge> sum_list (take (Suc ?m) vs) then getIndexOf_loop ws ps n (mid + 1) high mid (sum_list (take ?m vs))
       else (mid, sum_list (take ?m vs)))"
    using le by (subst getIndexOf_loop.simps)
      (simp only: Let_def mid_def [symmetric] start, simp only: stop if_True)
  consider "n < sum_list (take ?m vs)" | "sum_list (take (Suc ?m) vs) \<le> n" "\<not> n < sum_list (take ?m vs)"
    | "sum_list (take ?m vs) \<le> n" "n < sum_list (take (Suc ?m) vs)" by linarith
  then show ?case
  proof cases
    case 1
    have "\<exists>i r. getIndexOf_loop ws ps n low (mid - 1) mid (sum_list (take ?m vs)) = (int i, n - r) \<and> located vs n i r"
      using 1 mid less.prems by (intro less.hyps) auto
    then show ?thesis unfolding step using 1 by simp
  next
    case 2
    have "nat (mid + 1) = Suc ?m" using mid less.prems by simp
    then have "\<exists>i r. getIndexOf_loop ws ps n (mid + 1) high mid (sum_list (take ?m vs)) = (int i, n - r) \<and> located vs n i r"
      using 2 mid less.prems by (intro less.hyps) auto
    then show ?thesis unfolding step using 2 by simp
  next
    case 3
    then have "located vs n ?m (n - sum_list (take ?m vs))"
      using m len sum_list_take_Suc [of ?m vs] by (simp add: located_def)
    then show ?thesis unfolding step using 3 m by (intro exI [of _ ?m] exI [of _ "n - sum_list (take ?m vs)"]) simp
  qed
qed

lemma getIndexOf_correct:
  assumes "psc_ok s" "sum_list (psc_items s) < 2 ^ 32" "0 \<le> n" "n < sum_list (psc_items s)"
  shows "\<exists>i r s'. PrefixSumComputer_getIndexOf s n = ((int i, r), s') \<and> psc_ok s' \<and>
    psc_values s' = psc_values s \<and> located (psc_items s) n i r"
proof -
  obtain s' where s': "PrefixSumComputer_getTotalSum s = (Some (uint (sum_list (psc_values s))), s')"
    "psc_ok s'" "psc_values s' = psc_values s" "psc_prefixSumValidIndex s' = ilen (psc_values s) - 1"
    using getTotalSum_correct [OF assms(1)] by blast
  have ps: "uint (psc_prefixSum s' ! k) = sum_list (take (Suc k) (psc_items s))"
    if "k < length (psc_values s)" for k
    using that s' psc_prefix_uint [OF assms(2), of "Suc k"] by (simp add: psc_ok_def del: take_Suc)
  have len: "length (psc_prefixSum s') = length (psc_values s)" using s' by (simp add: psc_ok_def)
  have "\<exists>i r. getIndexOf_loop (psc_values s) (psc_prefixSum s') n 0 (ilen (psc_values s) - 1) 0 0 =
      (int i, n - r) \<and> located (psc_items s) n i r"
    using assms(3,4) len ps psc_items_nonneg
    by (intro getIndexOf_loop_located) (simp_all add: psc_items_def)
  then show ?thesis using s' by (auto simp: PrefixSumComputer_getIndexOf_def)
qed

definition psc_total :: "prefix_sum_computer \<Rightarrow> (int \<times> prefix_sum_computer) option" where
  "psc_total s = (case PrefixSumComputer_getTotalSum s of (Some n, s') \<Rightarrow> Some (n, s') | _ \<Rightarrow> None)"

interpretation prefix_sum: item_sums psc_ok psc_items "uint :: 32 word \<Rightarrow> int" "\<lambda>n. n < 2 ^ 31" "\<lambda>t. t < 2 ^ 32"
  "\<lambda>s i vs. map_option snd (PrefixSumComputer_insertValues s (int i) vs)"
  "\<lambda>s i k. map_option snd (PrefixSumComputer_removeValues s (int i) (int k))"
  "\<lambda>s i v. Some (snd (PrefixSumComputer_setValue s (int i) (uint v)))"
  psc_total "\<lambda>s n. Some (PrefixSumComputer_getIndexOf s n)"
proof unfold_locales
  fix s :: prefix_sum_computer and i k :: nat and vs :: "32 word list" and v :: "32 word" and n :: int
  assume ok: "psc_ok s"
  show "\<forall>v \<in> set (psc_items s). 0 \<le> v" by (rule psc_items_nonneg)
  show "\<exists>s'. map_option snd (PrefixSumComputer_insertValues s (int i) vs) = Some s' \<and> psc_ok s' \<and>
      psc_items s' = take i (psc_items s) @ map uint vs @ drop i (psc_items s)"
    if "i \<le> length (psc_items s)" "length (psc_items s) + length vs < 2 ^ 31"
    using insertValues_correct [OF ok, of i vs] that by (auto simp: psc_items_def take_map drop_map)
  show "\<exists>s'. map_option snd (PrefixSumComputer_removeValues s (int i) (int k)) = Some s' \<and> psc_ok s' \<and>
      psc_items s' = take i (psc_items s) @ drop (i + k) (psc_items s)"
    if "i + k \<le> length (psc_items s)"
    using removeValues_correct [OF ok, of i k] that by (auto simp: psc_items_def take_map drop_map)
  show "\<exists>s'. Some (snd (PrefixSumComputer_setValue s (int i) (uint v))) = Some s' \<and> psc_ok s' \<and>
      psc_items s' = (psc_items s)[i := uint v]"
    if "i < length (psc_items s)"
    using setValue_correct [OF ok, of i "uint v"] that uint_lt2p [of v]
    by (auto simp: psc_items_def map_update)
  show "\<exists>s'. psc_total s = Some (sum_list (psc_items s), s') \<and> psc_ok s' \<and> psc_items s' = psc_items s"
    if "sum_list (psc_items s) < 2 ^ 32"
    using getTotalSum_correct [OF ok] psc_prefix_uint [OF that, of "length (psc_values s)"]
    by (auto simp: psc_total_def psc_items_def)
  show "\<exists>i r s'. Some (PrefixSumComputer_getIndexOf s n) = Some ((int i, r), s') \<and> psc_ok s' \<and>
      psc_items s' = psc_items s \<and> located (psc_items s) n i r"
    if "sum_list (psc_items s) < 2 ^ 32" "0 \<le> n" "n < sum_list (psc_items s)"
    using getIndexOf_correct [OF ok that] by (auto simp: psc_items_def)
qed

section \<open>ConstantTimePrefixSumComputer\<close>

text \<open>For every offset the index of the item it falls into.\<close>

definition index_table :: "int list \<Rightarrow> int option list" where
  "index_table vs = concat (map (\<lambda>i. replicate (nat (vs ! i)) (Some (int i))) [0..<length vs])"

lemma index_table_Nil [simp]: "index_table [] = []"
  by (simp add: index_table_def)

lemma index_table_snoc: "index_table (vs @ [v]) = index_table vs @ replicate (nat v) (Some (int (length vs)))"
proof -
  have "map (\<lambda>i. replicate (nat ((vs @ [v]) ! i)) (Some (int i))) [0..<length vs] =
      map (\<lambda>i. replicate (nat (vs ! i)) (Some (int i))) [0..<length vs]"
    by (rule map_cong) (simp_all add: nth_append)
  then have "index_table (vs @ [v]) =
      concat (map (\<lambda>i. replicate (nat (vs ! i)) (Some (int i))) [0..<length vs] @
        [replicate (nat v) (Some (int (length vs)))])"
    unfolding index_table_def by (simp only: length_append_singleton upt_Suc_append zero_le map_append) simp
  then show ?thesis by (simp add: index_table_def)
qed

lemma index_table_prefix: "\<exists>t. index_table (xs @ ys) = index_table xs @ t"
proof (induction ys rule: rev_induct)
  case (snoc y ys)
  then obtain t where "index_table (xs @ ys) = index_table xs @ t" by blast
  then show ?case using index_table_snoc [of "xs @ ys" y] by simp
qed simp

lemma length_index_table: "\<forall>v \<in> set vs. 0 \<le> v \<Longrightarrow> ilen (index_table vs) = sum_list vs"
  by (induction vs rule: rev_induct) (simp_all add: index_table_snoc)

lemma index_table_take:
  assumes "\<forall>v \<in> set vs. 0 \<le> v" "j \<le> k"
  shows "itake (sum_list (take j vs)) (index_table (take k vs)) = index_table (take j vs)"
proof -
  have "take k vs = take j vs @ take (k - j) (drop j vs)"
    using assms(2) by (metis le_add_diff_inverse take_add)
  then obtain t where "index_table (take k vs) = index_table (take j vs) @ t"
    using index_table_prefix by metis
  moreover have "ilen (index_table (take j vs)) = sum_list (take j vs)"
    using assms(1) by (intro length_index_table) (auto dest: in_set_takeD)
  ultimately show ?thesis by (simp add: itake_append)
qed

lemma index_table_nth:
  assumes "\<forall>v \<in> set vs. 0 \<le> v" "located vs n i r"
  shows "nat n < length (index_table vs) \<and> index_table vs ! nat n = Some (int i)"
proof -
  have i: "i < length vs" "sum_list (take i vs) + r = n" "0 \<le> r" "r < vs ! i"
    using assms(2) by (auto simp: located_def)
  have t: "take (Suc i) vs = take i vs @ [vs ! i]" using i(1) by (simp add: take_Suc_conv_app_nth)
  obtain u where "index_table vs = index_table (take (Suc i) vs) @ u"
    using index_table_prefix [of "take (Suc i) vs" "drop (Suc i) vs"] by auto
  then have vs: "index_table vs = (index_table (take i vs) @ replicate (nat (vs ! i)) (Some (int i))) @ u"
    using i(1) by (simp add: t index_table_snoc)
  have len: "ilen (index_table (take i vs)) = sum_list (take i vs)"
    using assms(1) by (intro length_index_table) (auto dest: in_set_takeD)
  have "nat n = length (index_table (take i vs)) + nat r" using i len by auto
  then show ?thesis unfolding vs using i by (simp add: nth_append)
qed

text \<open>The first \<open>m\<close> items have been processed.\<close>

definition ctp_filled :: "int list \<Rightarrow> nat \<Rightarrow> int option list \<Rightarrow> int option list \<Rightarrow> bool" where
  "ctp_filled vs m ps table \<longleftrightarrow>
     m \<le> length vs \<and> m \<le> length ps \<and> (\<forall>k < m. ps ! k = Some (sum_list (take (Suc k) vs))) \<and>
     sum_list (take m vs) \<le> ilen table \<and> itake (sum_list (take m vs)) table = index_table (take m vs)"

definition ctp_ok :: "constant_time_prefix_sum_computer \<Rightarrow> bool" where
  "ctp_ok s \<longleftrightarrow>
     (\<forall>v \<in> set (ctp_values s). 0 \<le> v) \<and> - 1 \<le> ctp_validEndIndex s \<and>
     ctp_filled (ctp_values s) (nat (ctp_validEndIndex s + 1)) (ctp_prefixSum s) (ctp_indexBySum s) \<and>
     (ctp_isValid s \<longrightarrow> ctp_validEndIndex s + 1 = ilen (ctp_values s) \<and>
       length (ctp_prefixSum s) = length (ctp_values s) \<and> ilen (ctp_indexBySum s) = sum_list (ctp_values s))"

lemma ctp_filled_0 [simp]: "ctp_filled vs 0 ps table"
  by (simp add: ctp_filled_def index_table_def)

lemma ctp_filled_change:
  assumes "ctp_filled vs m ps table" "\<forall>v \<in> set vs. 0 \<le> v" "j \<le> m" "j \<le> length ws" "take j ws = take j vs"
  shows "ctp_filled ws j ps table"
proof -
  have nn: "sum_list (take j vs) \<le> sum_list (take m vs)" by (rule sum_list_take_mono [OF assms(2,3)])
  have "itake (sum_list (take j vs)) table = itake (sum_list (take j vs)) (itake (sum_list (take m vs)) table)"
    using nn by (simp add: itake_itake)
  also have "\<dots> = index_table (take j vs)"
    using assms(1) index_table_take [OF assms(2,3)] by (simp add: ctp_filled_def)
  finally have "itake (sum_list (take j vs)) table = index_table (take j vs)" .
  moreover have "take (Suc k) ws = take (Suc k) vs" if "k < j" for k
    using assms(5) that by (metis Suc_leI min.absorb1 take_take)
  ultimately show ?thesis
    using assms nn by (auto simp: ctp_filled_def)
qed

lemma ensureValid_fill_eq:
  assumes "0 \<le> a" "0 \<le> j" "j \<le> v" "a + j \<le> ilen table"
  shows "ensureValid_fill table a i j v = itake (a + j) table @ replicate (nat (v - j)) (Some i) @ idrop (a + v) table"
  using assms
proof (induction table a i j v rule: ensureValid_fill.induct)
  case (1 table a i j v)
  show ?case
  proof (cases "j < v")
    case True
    let ?t = "js_store table (a + j) i"
    have t: "?t = itake (a + j) table @ Some i # idrop (a + j + 1) table"
    proof (cases "a + j < ilen table")
      case True
      then have "nat (a + j) < length table" "nat (a + j + 1) = Suc (nat (a + j))" using 1 by auto
      then show ?thesis using True by (simp add: js_store_def itake_def idrop_def upd_conv_take_nth_drop)
    next
      case False
      then have "a + j = ilen table" using 1 by simp
      then show ?thesis by (simp add: js_store_def)
    qed
    have l: "ilen (itake (a + j) table) = a + j" using 1 by simp
    have "ensureValid_fill table a i j v = ensureValid_fill ?t a i (j + 1) v"
      using True by (subst ensureValid_fill.simps) simp
    also have "\<dots> = itake (a + (j + 1)) ?t @ replicate (nat (v - (j + 1))) (Some i) @ idrop (a + v) ?t"
      using True 1(2,3,5) l by (intro 1(1)) (simp_all add: t)
    also have "itake (a + (j + 1)) ?t = itake (a + j) table @ [Some i]"
      unfolding t itake_append l by (simp add: itake_itake)
    also have "idrop (a + v) ?t = idrop (a + v) table"
    proof -
      have "idrop (a + v) (itake (a + j) table) = []" using True l by (intro idrop_all) simp
      moreover have "idrop (v - j - 1) (idrop (a + j + 1) table) = idrop (a + v) table"
        using True 1(2,3) by (simp add: idrop_idrop add.commute)
      ultimately show ?thesis unfolding t idrop_append l using True by simp
    qed
    also have "replicate (nat (v - j)) (Some i) = Some i # replicate (nat (v - (j + 1))) (Some i)"
    proof -
      have "nat (v - j) = Suc (nat (v - (j + 1)))" using True by simp
      then show ?thesis by simp
    qed
    ultimately show ?thesis by simp
  next
    case False
    then have "v = j" using 1(4) by simp
    then show ?thesis by (subst ensureValid_fill.simps) simp
  qed
qed

lemma js_read_prefix:
  "ctp_filled vs m ps table \<Longrightarrow> k < m \<Longrightarrow> js_read ps (int k) = Some (sum_list (take (Suc k) vs))"
  by (simp add: ctp_filled_def js_read_def del: take_Suc)

lemma ensureValid_step:
  assumes f: "ctp_filled vs m ps table" and m: "m < length vs" and nn: "\<forall>v \<in> set vs. 0 \<le> v"
  defines "a \<equiv> sum_list (take m vs)"
  shows "(if int m > 0 then js_read ps (int m - 1) else Some 0) = Some a"
    "ctp_filled vs (Suc m) (js_store ps (int m) (a + vs ! m)) (ensureValid_fill table a (int m) 0 (vs ! m))"
proof -
  show "(if int m > 0 then js_read ps (int m - 1) else Some 0) = Some a"
    using js_read_prefix [OF f, of "m - 1"] by (cases m) (simp_all add: a_def)
  have a: "0 \<le> a" "a \<le> ilen table" "itake a table = index_table (take m vs)"
    using sum_list_take_mono [OF nn, of 0 m] f by (simp_all add: a_def ctp_filled_def)
  have v: "0 \<le> vs ! m" using nn m by simp
  let ?t = "ensureValid_fill table a (int m) 0 (vs ! m)"
  have t: "?t = itake a table @ replicate (nat (vs ! m)) (Some (int m)) @ idrop (a + vs ! m) table"
    using ensureValid_fill_eq [of a 0 "vs ! m" table "int m"] a v by simp
  have sum: "sum_list (take (Suc m) vs) = a + vs ! m" using m by (simp add: a_def take_Suc_conv_app_nth)
  have idx: "index_table (take (Suc m) vs) = itake a table @ replicate (nat (vs ! m)) (Some (int m))"
    using m a by (simp add: take_Suc_conv_app_nth index_table_snoc min_def)
  have l: "ilen (itake a table @ replicate (nat (vs ! m)) (Some (int m))) = a + vs ! m" using a(1,2) v by simp
  have "itake (a + vs ! m) ((itake a table @ replicate (nat (vs ! m)) (Some (int m))) @ idrop (a + vs ! m) table) =
      itake a table @ replicate (nat (vs ! m)) (Some (int m))"
    unfolding itake_append [of _ "itake a table @ replicate (nat (vs ! m)) (Some (int m))"] l
    using itake_all [of "itake a table @ replicate (nat (vs ! m)) (Some (int m))" "a + vs ! m"] l by simp
  then have table: "itake (sum_list (take (Suc m) vs)) ?t = index_table (take (Suc m) vs)"
    unfolding sum idx t by simp
  have "ilen ?t = a + vs ! m + ilen (idrop (a + vs ! m) table)"
    by (simp only: t append_assoc [symmetric] length_append [of "_ @ _"] of_nat_add l)
  then have len: "sum_list (take (Suc m) vs) \<le> ilen ?t" unfolding sum by simp
  let ?ps = "js_store ps (int m) (a + vs ! m)"
  have ps: "Suc m \<le> length ?ps" "\<forall>k < Suc m. ?ps ! k = Some (sum_list (take (Suc k) vs))"
  proof -
    have "m \<le> length ps" "\<forall>k < m. ps ! k = Some (sum_list (take (Suc k) vs))"
      using f by (simp_all add: ctp_filled_def)
    then show "Suc m \<le> length ?ps" "\<forall>k < Suc m. ?ps ! k = Some (sum_list (take (Suc k) vs))"
      using sum by (auto simp: js_store_def less_Suc_eq nth_list_update nth_append simp del: take_Suc)
  qed
  show "ctp_filled vs (Suc m) ?ps ?t"
    using m ps table len by (simp add: ctp_filled_def del: take_Suc)
qed

lemma ensureValid_loop_correct:
  assumes "ctp_filled vs m ps table" "\<forall>v \<in> set vs. 0 \<le> v"
  shows "\<exists>ps' table'. ensureValid_loop vs (int m) ps table = Some (ps', table') \<and>
    ctp_filled vs (length vs) ps' table'"
  using assms
proof (induction "length vs - m" arbitrary: m ps table)
  case 0
  then have "m = length vs" by (simp add: ctp_filled_def)
  then show ?case using 0 by (subst ensureValid_loop.simps) simp
next
  case (Suc n)
  then have m: "m < length vs" by simp
  note s = ensureValid_step [OF Suc.prems(1) m Suc.prems(2)]
  have "ensureValid_loop vs (int m) ps table =
      ensureValid_loop vs (int (Suc m)) (js_store ps (int m) (sum_list (take m vs) + vs ! m))
        (ensureValid_fill table (sum_list (take m vs)) (int m) 0 (vs ! m))"
    by (subst ensureValid_loop.simps) (simp only: s(1), simp add: m add.commute)
  with Suc.hyps(1) [OF _ s(2) Suc.prems(2)] Suc.hyps(2) show ?case by simp
qed

lemma js_setLength_shorter: "0 \<le> n \<Longrightarrow> n \<le> ilen xs \<Longrightarrow> js_setLength xs n = itake n xs"
  by (simp add: js_setLength_def)

text \<open>The state after \<open>_ensureValid\<close>.\<close>

lemma ensureValid_correct:
  assumes "ctp_ok s"
  shows "\<exists>s'. ConstantTimePrefixSumComputer_ensureValid s = Some s' \<and> ctp_ok s' \<and> ctp_isValid s' \<and>
    ctp_values s' = ctp_values s"
proof (cases "ctp_isValid s")
  case True
  then show ?thesis using assms by (simp add: ConstantTimePrefixSumComputer_ensureValid_def)
next
  case False
  let ?vs = "ctp_values s" and ?m = "nat (ctp_validEndIndex s + 1)"
  have nn: "\<forall>v \<in> set ?vs. 0 \<le> v" and m: "int ?m = ctp_validEndIndex s + 1"
    using assms by (simp_all add: ctp_ok_def)
  obtain ps table where l: "ensureValid_loop ?vs (ctp_validEndIndex s + 1) (ctp_prefixSum s) (ctp_indexBySum s) =
      Some (ps, table)" and f: "ctp_filled ?vs (length ?vs) ps table"
    using ensureValid_loop_correct [of ?vs ?m "ctp_prefixSum s" "ctp_indexBySum s"] assms nn m
    by (auto simp: ctp_ok_def)
  let ?ps = "itake (int (length ?vs)) ps"
  have len: "length ?vs \<le> length ps" "sum_list ?vs \<le> ilen table"
    "itake (sum_list ?vs) table = index_table ?vs"
    using f by (simp_all add: ctp_filled_def)
  have tot: "0 \<le> sum_list ?vs" using nn by (intro sum_list_nonneg) auto
  have ps: "js_setLength ps (int (length ?vs)) = ?ps" using len by (intro js_setLength_shorter) auto
  have it: "itake (sum_list ?vs) (index_table ?vs) = index_table ?vs"
    by (rule itake_all) (simp add: length_index_table [OF nn])
  have psx: "?ps = take (length ?vs) ps" by (simp add: itake_def)
  have filled: "ctp_filled ?vs (length ?vs) ?ps (index_table ?vs)"
    unfolding psx using f it length_index_table [OF nn] by (simp add: ctp_filled_def)
  have n: "(if ilen ?vs > 0 then js_read ?ps (ilen ?vs - 1) else Some 0) = Some (sum_list ?vs)"
    using js_read_prefix [OF filled, of "length ?vs - 1"] by (cases "length ?vs") (simp_all add: nat_diff_distrib')
  let ?s' = "s\<lparr>ctp_isValid := True, ctp_validEndIndex := ilen ?vs - 1, ctp_prefixSum := ?ps,
    ctp_indexBySum := index_table ?vs\<rparr>"
  have "ConstantTimePrefixSumComputer_ensureValid s = Some ?s'"
    unfolding ConstantTimePrefixSumComputer_ensureValid_def l Let_def bind.bind_lunit prod.case ps n
    using False tot len by (simp add: js_setLength_shorter)
  moreover have "ctp_ok ?s'"
    using nn filled len by (simp add: ctp_ok_def length_index_table itake_def)
  ultimately show ?thesis by simp
qed

lemma invalidate_ok:
  assumes "ctp_ok s" "\<forall>v \<in> set vs. 0 \<le> v" "i \<le> length vs" "take i vs = take i (ctp_values s)"
  shows "ctp_ok (ConstantTimePrefixSumComputer_invalidate (s\<lparr>ctp_values := vs\<rparr>) (int i))"
proof -
  let ?m = "nat (ctp_validEndIndex s + 1)" and ?j = "nat (min (ctp_validEndIndex s) (int i - 1) + 1)"
  have j: "?j \<le> ?m" "?j \<le> i" by linarith+
  have "take ?j (take i vs) = take ?j (take i (ctp_values s))" by (rule arg_cong [OF assms(4)])
  then have "take ?j vs = take ?j (ctp_values s)" using j(2) by (simp only: take_take min.absorb1)
  then have "ctp_filled vs ?j (ctp_prefixSum s) (ctp_indexBySum s)"
    using ctp_filled_change [of "ctp_values s" ?m "ctp_prefixSum s" "ctp_indexBySum s" ?j vs] assms(1,3) j
    by (simp add: ctp_ok_def)
  then show ?thesis
    using assms(1,2) by (simp add: ConstantTimePrefixSumComputer_invalidate_def ctp_ok_def)
qed

lemma ctp_getIndexOf_correct:
  assumes "ctp_ok s" "0 \<le> n" "n < sum_list (ctp_values s)"
  shows "\<exists>i r s'. ConstantTimePrefixSumComputer_getIndexOf s n = Some ((int i, r), s') \<and> ctp_ok s' \<and>
    ctp_values s' = ctp_values s \<and> located (ctp_values s) n i r"
proof -
  let ?vs = "ctp_values s"
  obtain s' where s': "ConstantTimePrefixSumComputer_ensureValid s = Some s'" "ctp_ok s'" "ctp_isValid s'"
    "ctp_values s' = ?vs" using ensureValid_correct [OF assms(1)] by blast
  have nn: "\<forall>v \<in> set ?vs. 0 \<le> v" using assms(1) by (simp add: ctp_ok_def)
  obtain i r where loc: "located ?vs n i r" using located_exists [OF nn assms(2,3)] by blast
  have f: "ctp_filled ?vs (length ?vs) (ctp_prefixSum s') (ctp_indexBySum s')" "ilen (ctp_indexBySum s') = sum_list ?vs"
    using s' by (auto simp: ctp_ok_def)
  have "itake (sum_list ?vs) (ctp_indexBySum s') = index_table ?vs" using f(1) by (simp add: ctp_filled_def)
  moreover have "itake (sum_list ?vs) (ctp_indexBySum s') = ctp_indexBySum s'" by (rule itake_all) (simp add: f(2))
  ultimately have table: "ctp_indexBySum s' = index_table ?vs" by simp
  have read: "js_read (ctp_indexBySum s') n = Some (int i)"
    using index_table_nth [OF nn loc] assms(2) unfolding table js_read_def js_get_def by auto
  have i: "i < length ?vs" "r = n - sum_list (take i ?vs)" using loc by (auto simp: located_def)
  have above: "(if int i > 0 then js_read (ctp_prefixSum s') (int i - 1) else Some 0) = Some (sum_list (take i ?vs))"
    using js_read_prefix [OF f(1), of "i - 1"] i by (cases i) simp_all
  have "ConstantTimePrefixSumComputer_getIndexOf s n = Some ((int i, r), s')"
    unfolding ConstantTimePrefixSumComputer_getIndexOf_def s'(1) bind.bind_lunit read option.case above i(2) ..
  then show ?thesis using s' loc by blast
qed

lemma arrayInsert_eq: "i \<le> length xs \<Longrightarrow> arrayInsert xs (int i) ys = take i xs @ ys @ drop i xs"
  by (simp add: arrayInsert_def js_slice_take js_slice_in idrop_def itake_def)

interpretation constant_time: item_sums ctp_ok ctp_values "\<lambda>v :: int. v" "\<lambda>_. True" "\<lambda>_. True"
  "\<lambda>s i vs. Some (ConstantTimePrefixSumComputer_insertValues s (int i) vs)"
  "\<lambda>s i k. Some (ConstantTimePrefixSumComputer_removeValues s i k)"
  "\<lambda>s i v. ConstantTimePrefixSumComputer_setValue s (int i) v"
  ConstantTimePrefixSumComputer_getTotalSum ConstantTimePrefixSumComputer_getIndexOf
proof unfold_locales
  fix s :: constant_time_prefix_sum_computer and i k :: nat and vs :: "int list" and v n :: int
  assume ok: "ctp_ok s"
  then show nn: "\<forall>v \<in> set (ctp_values s). 0 \<le> v" by (simp add: ctp_ok_def)
  have parts: "\<forall>v \<in> set (take i (ctp_values s)) \<union> set (drop j (ctp_values s)). 0 \<le> v" for j
    using nn by (auto dest: in_set_takeD in_set_dropD)
  show "\<exists>s'. Some (ConstantTimePrefixSumComputer_insertValues s (int i) vs) = Some s' \<and> ctp_ok s' \<and>
      ctp_values s' = take i (ctp_values s) @ map (\<lambda>v. v) vs @ drop i (ctp_values s)"
    if i: "i \<le> length (ctp_values s)" and "\<forall>v \<in> set vs. 0 \<le> v"
  proof -
    let ?new = "take i (ctp_values s) @ vs @ drop i (ctp_values s)"
    have "ctp_ok (ConstantTimePrefixSumComputer_invalidate (s\<lparr>ctp_values := ?new\<rparr>) (int i))"
      using that parts by (intro invalidate_ok [OF ok]) auto
    then show ?thesis
      using i by (simp add: ConstantTimePrefixSumComputer_insertValues_def arrayInsert_eq
          ConstantTimePrefixSumComputer_invalidate_def)
  qed
  show "\<exists>s'. Some (ConstantTimePrefixSumComputer_removeValues s i k) = Some s' \<and> ctp_ok s' \<and>
      ctp_values s' = take i (ctp_values s) @ drop (i + k) (ctp_values s)"
    if i: "i + k \<le> length (ctp_values s)"
  proof -
    let ?new = "take i (ctp_values s) @ drop (i + k) (ctp_values s)"
    have "ctp_ok (ConstantTimePrefixSumComputer_invalidate (s\<lparr>ctp_values := ?new\<rparr>) (int i))"
      using that parts by (intro invalidate_ok [OF ok]) auto
    then show ?thesis
      by (simp add: ConstantTimePrefixSumComputer_removeValues_def js_splice_def
          ConstantTimePrefixSumComputer_invalidate_def)
  qed
  show "\<exists>s'. ConstantTimePrefixSumComputer_setValue s (int i) v = Some s' \<and> ctp_ok s' \<and>
      ctp_values s' = (ctp_values s)[i := v]"
    if i: "i < length (ctp_values s)" and v: "0 \<le> v"
  proof (cases "ctp_values s ! i = v")
    case True
    then have "(ctp_values s)[i := v] = ctp_values s" by (metis list_update_id)
    then show ?thesis using True i ok by (simp add: ConstantTimePrefixSumComputer_setValue_def)
  next
    case False
    have "ctp_ok (ConstantTimePrefixSumComputer_invalidate (s\<lparr>ctp_values := (ctp_values s)[i := v]\<rparr>) (int i))"
      using i v nn by (intro invalidate_ok [OF ok]) (auto dest!: set_update_subset_insert [THEN subsetD])
    then show ?thesis
      using i False by (simp add: ConstantTimePrefixSumComputer_setValue_def
          ConstantTimePrefixSumComputer_invalidate_def)
  qed
  show "\<exists>s'. ConstantTimePrefixSumComputer_getTotalSum s = Some (sum_list (ctp_values s), s') \<and> ctp_ok s' \<and>
      ctp_values s' = ctp_values s"
    using ensureValid_correct [OF ok] by (auto simp: ConstantTimePrefixSumComputer_getTotalSum_def ctp_ok_def)
  show "\<exists>i r s'. ConstantTimePrefixSumComputer_getIndexOf s n = Some ((int i, r), s') \<and> ctp_ok s' \<and>
      ctp_values s' = ctp_values s \<and> located (ctp_values s) n i r"
    if "0 \<le> n" "n < sum_list (ctp_values s)"
    using ctp_getIndexOf_correct [OF ok that] .
qed

section \<open>Properties\<close>

lemma toUint32_eq: "0 \<le> v \<Longrightarrow> v < 2 ^ 32 \<Longrightarrow> toUint32 v = (if v < 2 ^ 31 then v else v - 2 ^ 32)"
proof (cases "v < 2 ^ 31")
  case False
  assume v: "0 \<le> v" "v < 2 ^ 32"
  have "(v + 2 ^ 31) mod 2 ^ 32 = (v - 2 ^ 31 + 2 ^ 32) mod 2 ^ 32"
    by (rule arg_cong [where f = "\<lambda>x. x mod 2 ^ 32"]) simp
  also have "\<dots> = (v - 2 ^ 31) mod 2 ^ 32" by (rule mod_add_self2)
  also have "\<dots> = v - 2 ^ 31" using False v by (intro mod_pos_pos_trivial) auto
  finally have "toInt32 v = v - 2 ^ 32" by (simp add: toInt32_def)
  then show ?thesis using False v by (simp add: toUint32_def MAX_UINT_32_def)
qed (simp add: toUint32_small)

lemma getPrefixSum_correct:
  assumes "psc_ok s" "psc_values s \<noteq> []" "- 1 \<le> index" "index < 2 ^ 31"
  shows "\<exists>s'. PrefixSumComputer_getPrefixSum s index =
      (Some (sum_list (take (nat (index + 1)) (psc_items s)) mod 2 ^ 32), s') \<and>
    psc_ok s' \<and> psc_values s' = psc_values s"
proof (cases "index < 0")
  case True
  then have "index = - 1" using assms by simp
  then show ?thesis using assms by (simp add: PrefixSumComputer_getPrefixSum_def)
next
  case False
  let ?j = "min (nat index) (length (psc_values s) - 1)"
  have "take (nat (index + 1)) (psc_values s) = take (Suc ?j) (psc_values s)"
    using False assms(2) by (cases "nat index < length (psc_values s)") (auto simp: nat_add_distrib min_def)
  then have "uint (sum_list (take (Suc ?j) (psc_values s))) =
      sum_list (take (nat (index + 1)) (psc_items s)) mod 2 ^ 32"
    by (simp add: uint_sum_list psc_items_def take_map)
  then show ?thesis
    using getPrefixSum'_correct [OF assms(1,2), of index] False assms(4) toUint32_small [of index]
    by (auto simp: PrefixSumComputer_getPrefixSum_def)
qed

lemma setValue_items:
  assumes "psc_ok s"
  shows "\<forall>i v. i < length (psc_items s) \<and> 0 \<le> v \<and> v < 2 ^ 32 \<longrightarrow>
    (\<exists>c s'. PrefixSumComputer_setValue s (int i) v = (c, s') \<and> psc_ok s' \<and>
      psc_items s' = (psc_items s)[i := v] \<and> (c \<longleftrightarrow> psc_items s ! i \<noteq> v \<or> 2 ^ 31 \<le> v))"
proof (intro allI impI, elim conjE)
  fix i v
  assume i: "i < length (psc_items s)" and v: "0 \<le> v" "v < (2 :: int) ^ 32"
  let ?old = "uint (psc_values s ! i)"
  have len: "i < length (psc_values s)" using i by (simp add: psc_items_def)
  have "uint (word_of_int v :: 32 word) = v" using v by (simp add: uint_word_of_int)
  then obtain c s' where r: "PrefixSumComputer_setValue s (int i) v = (c, s')" "psc_ok s'"
    "psc_items s' = (psc_items s)[i := v]"
    using setValue_correct [OF assms(1) len v] by (auto simp: psc_items_def map_update)
  have "c \<longleftrightarrow> ?old \<noteq> toUint32 v"
    using r(1) len assms(1) toUint32_small [of "int i"]
    by (auto simp: PrefixSumComputer_setValue_def Let_def psc_ok_def split: if_splits)
  also have "\<dots> \<longleftrightarrow> ?old \<noteq> v \<or> 2 ^ 31 \<le> v"
  proof -
    have "v - 2 ^ 32 < ?old" using v(2) uint_ge_0 [of "psc_values s ! i"] by linarith
    then show ?thesis unfolding toUint32_eq [OF v] using v by auto
  qed
  finally have "c \<longleftrightarrow> psc_items s ! i \<noteq> v \<or> 2 ^ 31 \<le> v" using len by (simp add: psc_items_def)
  with r show "\<exists>c s'. PrefixSumComputer_setValue s (int i) v = (c, s') \<and> psc_ok s' \<and>
      psc_items s' = (psc_items s)[i := v] \<and> (c \<longleftrightarrow> psc_items s ! i \<noteq> v \<or> 2 ^ 31 \<le> v)" by blast
qed

text \<open>C35. The typed arrays of \<open>PrefixSumComputer\<close> implement a plain sequence of sizes: its
  invariant (the trusted part of \<open>prefixSum\<close> holds the sums) is established by the constructor and
  kept by every operation; \<open>insertValues\<close>, \<open>removeValues\<close> and \<open>setValue\<close> are the insertion, deletion and
  update of the sequence and report whether they changed anything; \<open>getPrefixSum\<close> returns the sum
  of the first items modulo 2 ^ 32, for an index beyond the end the total. The report of \<open>setValue\<close>
  is wrong for values of at least 2 ^ 31: \<open>toUint32\<close> makes them negative, so that storing the value
  that is already there counts as a change.\<close>

theorem prefix_sum_operations:
  assumes "psc_ok s" "length ws < 2 ^ 31"
  shows "psc_ok (PrefixSumComputer_new ws) \<and> psc_items (PrefixSumComputer_new ws) = map uint ws \<and>
    (\<forall>i vs. i \<le> length (psc_items s) \<and> length (psc_items s) + length vs < 2 ^ 31 \<longrightarrow>
      (\<exists>s'. PrefixSumComputer_insertValues s (int i) vs = Some (vs \<noteq> [], s') \<and> psc_ok s' \<and>
        psc_items s' = take i (psc_items s) @ map uint vs @ drop i (psc_items s))) \<and>
    (\<forall>i k. i + k \<le> length (psc_items s) \<longrightarrow>
      (\<exists>s'. PrefixSumComputer_removeValues s (int i) (int k) = Some (0 < k, s') \<and> psc_ok s' \<and>
        psc_items s' = take i (psc_items s) @ drop (i + k) (psc_items s))) \<and>
    (\<forall>i v. i < length (psc_items s) \<and> 0 \<le> v \<and> v < 2 ^ 32 \<longrightarrow>
      (\<exists>c s'. PrefixSumComputer_setValue s (int i) v = (c, s') \<and> psc_ok s' \<and>
        psc_items s' = (psc_items s)[i := v] \<and> (c \<longleftrightarrow> psc_items s ! i \<noteq> v \<or> 2 ^ 31 \<le> v))) \<and>
    (\<forall>index. psc_items s \<noteq> [] \<and> - 1 \<le> index \<and> index < 2 ^ 31 \<longrightarrow>
      (\<exists>s'. PrefixSumComputer_getPrefixSum s index =
          (Some (sum_list (take (nat (index + 1)) (psc_items s)) mod 2 ^ 32), s') \<and>
        psc_ok s' \<and> psc_items s' = psc_items s))"
proof -
  have "psc_ok (PrefixSumComputer_new ws)" "psc_items (PrefixSumComputer_new ws) = map uint ws"
    using assms(2) by (simp_all add: PrefixSumComputer_new_def psc_ok_def psc_items_def)
  moreover have "\<exists>s'. PrefixSumComputer_insertValues s (int i) vs = Some (vs \<noteq> [], s') \<and> psc_ok s' \<and>
      psc_items s' = take i (psc_items s) @ map uint vs @ drop i (psc_items s)"
    if "i \<le> length (psc_items s) \<and> length (psc_items s) + length vs < 2 ^ 31" for i vs
    using insertValues_correct [OF assms(1), of i vs] that by (auto simp: psc_items_def take_map drop_map)
  moreover have "\<exists>s'. PrefixSumComputer_removeValues s (int i) (int k) = Some (0 < k, s') \<and> psc_ok s' \<and>
      psc_items s' = take i (psc_items s) @ drop (i + k) (psc_items s)"
    if "i + k \<le> length (psc_items s)" for i k
    using removeValues_correct [OF assms(1), of i k] that by (auto simp: psc_items_def take_map drop_map)
  moreover have "\<exists>s'. PrefixSumComputer_getPrefixSum s index =
        (Some (sum_list (take (nat (index + 1)) (psc_items s)) mod 2 ^ 32), s') \<and>
      psc_ok s' \<and> psc_items s' = psc_items s"
    if "psc_items s \<noteq> [] \<and> - 1 \<le> index \<and> index < 2 ^ 31" for index
    using getPrefixSum_correct [OF assms(1), of index] that by (auto simp: psc_items_def)
  ultimately show ?thesis using setValue_items [OF assms(1)] by blast
qed

theorem prefix_sum_operations_witness:
  "(let s = PrefixSumComputer_new [3, 4] in
    (\<exists>s'. PrefixSumComputer_insertValues s 1 [5] = Some (True, s') \<and> psc_items s' = [3, 5, 4]) \<and>
    (\<exists>s'. PrefixSumComputer_removeValues s 0 1 = Some (True, s') \<and> psc_items s' = [4]) \<and>
    (\<exists>s'. PrefixSumComputer_getPrefixSum s 1 = (Some 7, s') \<and> psc_items s' = [3, 4]))"
proof -
  let ?s = "PrefixSumComputer_new [3, 4]"
  have ok: "psc_ok ?s" and it: "psc_items ?s = [3, 4]"
    by (simp_all add: PrefixSumComputer_new_def psc_ok_def psc_items_def)
  have "length [3, 4 :: 32 word] < 2 ^ 31" by simp
  note * = prefix_sum_operations [OF ok this]
  have "\<exists>s'. PrefixSumComputer_insertValues ?s (int 1) [5] = Some ([5 :: 32 word] \<noteq> [], s') \<and> psc_ok s' \<and>
      psc_items s' = take 1 (psc_items ?s) @ map uint [5 :: 32 word] @ drop 1 (psc_items ?s)"
    using * [THEN conjunct2, THEN conjunct2, THEN conjunct1, rule_format, of 1 "[5]"] it by simp
  moreover have "\<exists>s'. PrefixSumComputer_removeValues ?s (int 0) (int 1) = Some (0 < (1 :: nat), s') \<and> psc_ok s' \<and>
      psc_items s' = take 0 (psc_items ?s) @ drop (0 + 1) (psc_items ?s)"
    using * [THEN conjunct2, THEN conjunct2, THEN conjunct2, THEN conjunct1, rule_format, of 0 1] it by simp
  moreover have "\<exists>s'. PrefixSumComputer_getPrefixSum ?s 1 =
      (Some (sum_list (take (nat (1 + 1)) (psc_items ?s)) mod 2 ^ 32), s') \<and> psc_ok s' \<and> psc_items s' = psc_items ?s"
    using * [THEN conjunct2, THEN conjunct2, THEN conjunct2, THEN conjunct2, THEN conjunct2, rule_format, of 1] it
    by simp
  ultimately show ?thesis unfolding Let_def it by auto
qed

text \<open>\<open>ConstantTimePrefixSumComputer\<close> and \<open>PrefixSumComputer\<close> are interchangeable as long
  as the total stays below 2 ^ 32: when they hold the same sizes, \<open>getIndexOf\<close> finds the same item
  and remainder, the one the offset falls into, \<open>getTotalSum\<close> returns the same sum, and the
  same insertion, deletion or update leaves them with the same sizes and their invariants intact.\<close>

theorem prefix_sum_classes_agree:
  assumes "psc_ok s" "ctp_ok t" "psc_items s = ctp_values t" "sum_list (ctp_values t) < 2 ^ 32"
  shows "(\<exists>s' t'. PrefixSumComputer_getTotalSum s = (Some (sum_list (ctp_values t)), s') \<and>
      ConstantTimePrefixSumComputer_getTotalSum t = Some (sum_list (ctp_values t), t') \<and>
      psc_ok s' \<and> ctp_ok t' \<and> psc_items s' = ctp_values t \<and> ctp_values t' = ctp_values t) \<and>
    (\<forall>n. 0 \<le> n \<and> n < sum_list (ctp_values t) \<longrightarrow>
      (\<exists>i r s' t'. PrefixSumComputer_getIndexOf s n = ((int i, r), s') \<and>
        ConstantTimePrefixSumComputer_getIndexOf t n = Some ((int i, r), t') \<and> located (ctp_values t) n i r \<and>
        psc_ok s' \<and> ctp_ok t' \<and> psc_items s' = ctp_values t \<and> ctp_values t' = ctp_values t)) \<and>
    (\<forall>i vs. i \<le> length (ctp_values t) \<and> length (ctp_values t) + length vs < 2 ^ 31 \<longrightarrow>
      (\<exists>b s' t'. PrefixSumComputer_insertValues s (int i) vs = Some (b, s') \<and>
        ConstantTimePrefixSumComputer_insertValues t (int i) (map uint vs) = t' \<and>
        psc_ok s' \<and> ctp_ok t' \<and> psc_items s' = ctp_values t')) \<and>
    (\<forall>i k. i + k \<le> length (ctp_values t) \<and> k < 2 ^ 31 \<longrightarrow>
      (\<exists>b s' t'. PrefixSumComputer_removeValues s (int i) (int k) = Some (b, s') \<and>
        ConstantTimePrefixSumComputer_removeValues t i k = t' \<and>
        psc_ok s' \<and> ctp_ok t' \<and> psc_items s' = ctp_values t')) \<and>
    (\<forall>i v. i < length (ctp_values t) \<longrightarrow>
      (\<exists>b s' t'. PrefixSumComputer_setValue s (int i) (uint (v :: 32 word)) = (b, s') \<and>
        ConstantTimePrefixSumComputer_setValue t (int i) (uint v) = Some t' \<and>
        psc_ok s' \<and> ctp_ok t' \<and> psc_items s' = ctp_values t'))"
proof -
  let ?vs = "ctp_values t"
  note fit = assms(4) [folded assms(3)]
  have "\<exists>s' t'. PrefixSumComputer_getTotalSum s = (Some (sum_list ?vs), s') \<and>
      ConstantTimePrefixSumComputer_getTotalSum t = Some (sum_list ?vs, t') \<and>
      psc_ok s' \<and> ctp_ok t' \<and> psc_items s' = ?vs \<and> ctp_values t' = ?vs"
    using prefix_sum.total_items [OF assms(1) fit] constant_time.total_items [OF assms(2)] assms(3)
    by (auto simp: psc_total_def split: prod.splits option.splits)
  moreover have "\<exists>i r s' t'. PrefixSumComputer_getIndexOf s n = ((int i, r), s') \<and>
      ConstantTimePrefixSumComputer_getIndexOf t n = Some ((int i, r), t') \<and> located ?vs n i r \<and>
      psc_ok s' \<and> ctp_ok t' \<and> psc_items s' = ?vs \<and> ctp_values t' = ?vs"
    if n: "0 \<le> n \<and> n < sum_list ?vs" for n
  proof -
    obtain i r where loc: "located ?vs n i r"
      using constant_time.indexOf_items [OF assms(2)] n by blast
    show ?thesis
      using prefix_sum.indexOf_located [OF assms(1) fit] constant_time.indexOf_located [OF assms(2) _ loc]
        loc assms(3) by auto
  qed
  moreover have "\<exists>b s' t'. PrefixSumComputer_insertValues s (int i) vs = Some (b, s') \<and>
      ConstantTimePrefixSumComputer_insertValues t (int i) (map uint vs) = t' \<and>
      psc_ok s' \<and> ctp_ok t' \<and> psc_items s' = ctp_values t'"
    if "i \<le> length ?vs \<and> length ?vs + length vs < 2 ^ 31" for i vs
    using prefix_sum.insert_items [OF assms(1), of i vs] constant_time.insert_items [OF assms(2), of i "map uint vs"]
      that assms(3) by auto
  moreover have "\<exists>b s' t'. PrefixSumComputer_removeValues s (int i) (int k) = Some (b, s') \<and>
      ConstantTimePrefixSumComputer_removeValues t i k = t' \<and> psc_ok s' \<and> ctp_ok t' \<and> psc_items s' = ctp_values t'"
    if "i + k \<le> length ?vs \<and> k < 2 ^ 31" for i k
    using prefix_sum.remove_items [OF assms(1), of i k] constant_time.remove_items [OF assms(2), of i k]
      that assms(3) by auto
  moreover have "\<exists>b s' t'. PrefixSumComputer_setValue s (int i) (uint v) = (b, s') \<and>
      ConstantTimePrefixSumComputer_setValue t (int i) (uint v) = Some t' \<and>
      psc_ok s' \<and> ctp_ok t' \<and> psc_items s' = ctp_values t'"
    if "i < length ?vs" for i and v :: "32 word"
    using prefix_sum.change_items [OF assms(1), of i v] constant_time.change_items [OF assms(2), of i "uint v"]
      that assms(3) by (cases "PrefixSumComputer_setValue s (int i) (uint v)") auto
  ultimately show ?thesis by blast
qed

theorem prefix_sum_classes_agree_witness:
  "\<exists>i r s' t'. PrefixSumComputer_getIndexOf (PrefixSumComputer_new [3, 0, 4]) 5 = ((int i, r), s') \<and>
    ConstantTimePrefixSumComputer_getIndexOf (ConstantTimePrefixSumComputer_new [3, 0, 4]) 5 = Some ((int i, r), t') \<and>
    located [3, 0, 4] 5 i r"
proof -
  let ?s = "PrefixSumComputer_new [3, 0, 4]" and ?t = "ConstantTimePrefixSumComputer_new [3, 0, 4]"
  have "psc_ok ?s" "psc_items ?s = ctp_values ?t" "ctp_ok ?t" "ctp_values ?t = [3, 0, 4]"
    by (simp_all add: PrefixSumComputer_new_def ConstantTimePrefixSumComputer_new_def psc_ok_def psc_items_def
        ctp_ok_def)
  note * = prefix_sum_classes_agree [OF this(1,3,2)]
  have "sum_list (ctp_values ?t) < 2 ^ 32" "sum_list (ctp_values ?t) = 7" "ctp_values ?t = [3, 0, 4]"
    by (simp_all add: ConstantTimePrefixSumComputer_new_def)
  then show ?thesis
    using * [THEN conjunct2, THEN conjunct1, rule_format, of 5] by auto
qed

end
