(* ===== verification/LinkedLists.thy ===== *)
theory LinkedLists
  imports Prelude
begin

text \<open>
  \<open>vs/base/common/linkedList.ts\<close>: the doubly linked list, over an explicit heap of nodes.

  An address is an index into the heap and address 0 is the shared object \<open>Node.Undefined\<close>,
  which stands for the end of the list. A reference is \<open>None\<close> where the program has
  \<open>undefined\<close>: the links of \<open>Node.Undefined\<close> itself, whose constructor runs before the static
  field is set. Following \<open>undefined\<close> throws a \<open>TypeError\<close>, which is \<open>None\<close>. Nodes that leave
  the list keep their links and stay in the heap, because the closures that \<open>push\<close> and
  \<open>unshift\<close> return still refer to them.
\<close>

section \<open>Nodes\<close>

type_synonym ref = "nat option"

record 'a node =
  node_element :: "'a option"
  node_next :: ref
  node_prev :: ref

definition Node_Undefined :: ref where
  "Node_Undefined = Some 0"

definition Node_sentinel :: "'a node" where
  "Node_sentinel = \<lparr>node_element = None, node_next = None, node_prev = None\<rparr>"

definition Node_new :: "'a \<Rightarrow> 'a node" where
  "Node_new element = \<lparr>node_element = Some element, node_next = Node_Undefined, node_prev = Node_Undefined\<rparr>"

definition deref :: "'a node list \<Rightarrow> ref \<Rightarrow> 'a node option" where
  "deref h p = (case p of None \<Rightarrow> None | Some a \<Rightarrow> if a < length h then Some (h ! a) else None)"

definition set_next :: "'a node list \<Rightarrow> ref \<Rightarrow> ref \<Rightarrow> 'a node list option" where
  "set_next h p q =
     (case p of None \<Rightarrow> None
      | Some a \<Rightarrow> if a < length h then Some (h[a := (h ! a)\<lparr>node_next := q\<rparr>]) else None)"

definition set_prev :: "'a node list \<Rightarrow> ref \<Rightarrow> ref \<Rightarrow> 'a node list option" where
  "set_prev h p q =
     (case p of None \<Rightarrow> None
      | Some a \<Rightarrow> if a < length h then Some (h[a := (h ! a)\<lparr>node_prev := q\<rparr>]) else None)"

section \<open>LinkedList\<close>

record 'a linked_list =
  ll_heap :: "'a node list"
  ll_first :: ref
  ll_last :: ref
  ll_size :: int

definition LinkedList_new :: "'a linked_list" where
  "LinkedList_new =
     \<lparr>ll_heap = [Node_sentinel], ll_first = Node_Undefined, ll_last = Node_Undefined, ll_size = 0\<rparr>"

definition LinkedList_isEmpty :: "'a linked_list \<Rightarrow> bool" where
  "LinkedList_isEmpty s \<longleftrightarrow> ll_first s = Node_Undefined"

text \<open>The loop of \<open>clear\<close>; a list whose nodes were damaged could make it throw.\<close>

partial_function (option) clear_loop :: "'a node list \<Rightarrow> ref \<Rightarrow> 'a node list option" where
  "clear_loop h node =
     (if node = Node_Undefined then Some h
      else do {
        n \<leftarrow> deref h node;
        h1 \<leftarrow> set_prev h node Node_Undefined;
        h2 \<leftarrow> set_next h1 node Node_Undefined;
        clear_loop h2 (node_next n)
      })"

declare clear_loop.simps [code]

definition LinkedList_clear :: "'a linked_list \<Rightarrow> 'a linked_list option" where
  "LinkedList_clear s =
     do { h \<leftarrow> clear_loop (ll_heap s) (ll_first s);
          Some \<lparr>ll_heap = h, ll_first = Node_Undefined, ll_last = Node_Undefined, ll_size = 0\<rparr> }"

text \<open>\<open>_remove\<close>, with the four cases in the order of the code.\<close>

definition LinkedList_remove :: "'a linked_list \<Rightarrow> ref \<Rightarrow> 'a linked_list option" where
  "LinkedList_remove s node =
     do { n \<leftarrow> deref (ll_heap s) node;
          s' \<leftarrow>
            (if node_prev n \<noteq> Node_Undefined \<and> node_next n \<noteq> Node_Undefined then do {
               h1 \<leftarrow> set_next (ll_heap s) (node_prev n) (node_next n);
               n' \<leftarrow> deref h1 node;
               h2 \<leftarrow> set_prev h1 (node_next n') (node_prev n);
               Some (s\<lparr>ll_heap := h2\<rparr>)
             }
             else if node_prev n = Node_Undefined \<and> node_next n = Node_Undefined then
               Some (s\<lparr>ll_first := Node_Undefined, ll_last := Node_Undefined\<rparr>)
             else if node_next n = Node_Undefined then do {
               l \<leftarrow> deref (ll_heap s) (ll_last s);
               h \<leftarrow> set_next (ll_heap s) (node_prev l) Node_Undefined;
               Some (s\<lparr>ll_heap := h, ll_last := node_prev l\<rparr>)
             }
             else do {
               f \<leftarrow> deref (ll_heap s) (ll_first s);
               h \<leftarrow> set_prev (ll_heap s) (node_next f) Node_Undefined;
               Some (s\<lparr>ll_heap := h, ll_first := node_next f\<rparr>)
             });
          Some (s'\<lparr>ll_size := ll_size s' - 1\<rparr>) }"

text \<open>The closure that \<open>_insert\<close> returns: the node it captured and its flag.\<close>

record remover =
  rm_node :: nat
  rm_didRemove :: bool

definition LinkedList_call_remover :: "'a linked_list \<Rightarrow> remover \<Rightarrow> (remover \<times> 'a linked_list) option" where
  "LinkedList_call_remover s r =
     (if \<not> rm_didRemove r
      then do { s' \<leftarrow> LinkedList_remove s (Some (rm_node r)); Some (r\<lparr>rm_didRemove := True\<rparr>, s') }
      else Some (r, s))"

definition LinkedList_insert :: "'a linked_list \<Rightarrow> 'a \<Rightarrow> bool \<Rightarrow> (remover \<times> 'a linked_list) option" where
  "LinkedList_insert s element atTheEnd =
     (let new = length (ll_heap s);
          h = ll_heap s @ [Node_new element]
      in do {
        s' \<leftarrow>
          (if ll_first s = Node_Undefined then
             Some (s\<lparr>ll_heap := h, ll_first := Some new, ll_last := Some new\<rparr>)
           else if atTheEnd then do {
             h1 \<leftarrow> set_prev h (Some new) (ll_last s);
             h2 \<leftarrow> set_next h1 (ll_last s) (Some new);
             Some (s\<lparr>ll_heap := h2, ll_last := Some new\<rparr>)
           }
           else do {
             h1 \<leftarrow> set_next h (Some new) (ll_first s);
             h2 \<leftarrow> set_prev h1 (ll_first s) (Some new);
             Some (s\<lparr>ll_heap := h2, ll_first := Some new\<rparr>)
           });
        Some (\<lparr>rm_node = new, rm_didRemove = False\<rparr>, s'\<lparr>ll_size := ll_size s' + 1\<rparr>)
      })"

definition LinkedList_unshift :: "'a linked_list \<Rightarrow> 'a \<Rightarrow> (remover \<times> 'a linked_list) option" where
  "LinkedList_unshift s element = LinkedList_insert s element False"

definition LinkedList_push :: "'a linked_list \<Rightarrow> 'a \<Rightarrow> (remover \<times> 'a linked_list) option" where
  "LinkedList_push s element = LinkedList_insert s element True"

definition LinkedList_shift :: "'a linked_list \<Rightarrow> ('a option \<times> 'a linked_list) option" where
  "LinkedList_shift s =
     (if ll_first s = Node_Undefined then Some (None, s)
      else do { n \<leftarrow> deref (ll_heap s) (ll_first s);
                s' \<leftarrow> LinkedList_remove s (ll_first s);
                Some (node_element n, s') })"

definition LinkedList_pop :: "'a linked_list \<Rightarrow> ('a option \<times> 'a linked_list) option" where
  "LinkedList_pop s =
     (if ll_last s = Node_Undefined then Some (None, s)
      else do { n \<leftarrow> deref (ll_heap s) (ll_last s);
                s' \<leftarrow> LinkedList_remove s (ll_last s);
                Some (node_element n, s') })"

definition LinkedList_peek :: "'a linked_list \<Rightarrow> 'a option option" where
  "LinkedList_peek s =
     (if ll_last s = Node_Undefined then Some None
      else do { n \<leftarrow> deref (ll_heap s) (ll_last s); Some (node_element n) })"

text \<open>The elements the iterator yields when the list is not changed meanwhile.\<close>

partial_function (option) iterator_loop :: "'a node list \<Rightarrow> ref \<Rightarrow> 'a option list option" where
  "iterator_loop h node =
     (if node = Node_Undefined then Some []
      else do {
        n \<leftarrow> deref h node;
        es \<leftarrow> iterator_loop h (node_next n);
        Some (node_element n # es)
      })"

declare iterator_loop.simps [code]

definition LinkedList_iterator :: "'a linked_list \<Rightarrow> 'a option list option" where
  "LinkedList_iterator s = iterator_loop (ll_heap s) (ll_first s)"

section \<open>The list in the heap\<close>

text \<open>
  \<open>dll h p as n\<close>: the nodes at the addresses \<open>as\<close> are linked in both directions, with \<open>p\<close>
  before the first and \<open>n\<close> after the last of them.
\<close>

definition link_head :: "nat list \<Rightarrow> ref \<Rightarrow> ref" where
  "link_head as n = (case as of [] \<Rightarrow> n | a # _ \<Rightarrow> Some a)"

definition link_tail :: "ref \<Rightarrow> nat list \<Rightarrow> ref" where
  "link_tail p as = (if as = [] then p else Some (List.last as))"

fun dll :: "'a node list \<Rightarrow> ref \<Rightarrow> nat list \<Rightarrow> ref \<Rightarrow> bool" where
  "dll h p [] n \<longleftrightarrow> True"
| "dll h p (a # as) n \<longleftrightarrow>
     0 < a \<and> a < length h \<and> node_prev (h ! a) = p \<and> node_next (h ! a) = link_head as n \<and> dll h (Some a) as n"

definition node_elements :: "'a node list \<Rightarrow> nat list \<Rightarrow> 'a option list" where
  "node_elements h as = map (\<lambda>a. node_element (h ! a)) as"

definition ll_rep :: "'a linked_list \<Rightarrow> nat list \<Rightarrow> 'a list \<Rightarrow> bool" where
  "ll_rep s ps vs \<longleftrightarrow>
     ll_heap s \<noteq> [] \<and> ll_heap s ! 0 = Node_sentinel \<and> distinct ps \<and>
     dll (ll_heap s) Node_Undefined ps Node_Undefined \<and>
     ll_first s = link_head ps Node_Undefined \<and> ll_last s = link_tail Node_Undefined ps \<and>
     ll_size s = ilen ps \<and> node_elements (ll_heap s) ps = map Some vs"

lemma link_head_simps [simp]:
  "link_head [] n = n" "link_head (a # as) n = Some a" "link_head (as @ bs) n = link_head as (link_head bs n)"
  by (simp_all add: link_head_def split: list.split)

lemma link_tail_simps [simp]:
  "link_tail p [] = p" "link_tail p (as @ [a]) = Some a" "link_tail p (a # as) = link_tail (Some a) as"
  "link_tail p (as @ bs) = link_tail (link_tail p as) bs"
  by (simp_all add: link_tail_def)

lemma node_elements_simps [simp]:
  "node_elements h [] = []" "node_elements h (a # as) = node_element (h ! a) # node_elements h as"
  "node_elements h (as @ bs) = node_elements h as @ node_elements h bs"
  by (simp_all add: node_elements_def)

lemma node_elements_empty [simp]: "node_elements h as = [] \<longleftrightarrow> as = []"
  by (simp add: node_elements_def)

lemma node_elements_cong:
  "(\<And>a. a \<in> set as \<Longrightarrow> node_element (h' ! a) = node_element (h ! a)) \<Longrightarrow> node_elements h' as = node_elements h as"
  by (simp add: node_elements_def)

lemma node_elements_length: "node_elements h as = map Some vs \<Longrightarrow> length as = length vs"
  by (metis length_map node_elements_def)

lemma dll_append [simp]:
  "dll h p (as @ bs) n \<longleftrightarrow> dll h p as (link_head bs n) \<and> dll h (link_tail p as) bs n"
  by (induction as arbitrary: p) (auto simp: link_tail_def)

lemma dll_cong:
  "dll h p as n \<Longrightarrow> length h \<le> length h' \<Longrightarrow> (\<And>a. a \<in> set as \<Longrightarrow> h' ! a = h ! a) \<Longrightarrow> dll h' p as n"
  by (induction as arbitrary: p) auto

lemma dll_bounds: "dll h p as n \<Longrightarrow> a \<in> set as \<Longrightarrow> 0 < a \<and> a < length h"
  by (induction as arbitrary: p) auto

lemma dll_Undefined [simp]:
  "dll h p as n \<Longrightarrow> link_head as n = Node_Undefined \<longleftrightarrow> as = [] \<and> n = Node_Undefined"
  "dll h p as n \<Longrightarrow> link_tail p as = Node_Undefined \<longleftrightarrow> as = [] \<and> p = Node_Undefined"
  using dll_bounds [of h p as n "List.last as"]
  by (auto simp: link_head_def link_tail_def Node_Undefined_def split: list.split)

text \<open>Nodes that differ only in their links.\<close>

lemma set_next_Some [simp]: "a < length h \<Longrightarrow> set_next h (Some a) q = Some (h[a := (h ! a)\<lparr>node_next := q\<rparr>])"
  by (simp add: set_next_def)

lemma set_prev_Some [simp]: "a < length h \<Longrightarrow> set_prev h (Some a) q = Some (h[a := (h ! a)\<lparr>node_prev := q\<rparr>])"
  by (simp add: set_prev_def)

lemma deref_Some [simp]: "a < length h \<Longrightarrow> deref h (Some a) = Some (h ! a)"
  by (simp add: deref_def)

lemma Some_neq_Undefined [simp]: "Some a = Node_Undefined \<longleftrightarrow> a = 0"
  by (simp add: Node_Undefined_def)

lemma LinkedList_new_rep: "ll_rep LinkedList_new [] []"
  by (simp add: ll_rep_def LinkedList_new_def)

section \<open>Insertion\<close>

lemma LinkedList_push_rep:
  assumes "ll_rep s ps vs"
  shows "\<exists>s'. LinkedList_push s e = Some (\<lparr>rm_node = length (ll_heap s), rm_didRemove = False\<rparr>, s') \<and>
    ll_rep s' (ps @ [length (ll_heap s)]) (vs @ [e]) \<and> length (ll_heap s') = Suc (length (ll_heap s))"
proof (cases ps rule: rev_cases)
  case Nil
  then show ?thesis
    using assms by (simp add: LinkedList_push_def LinkedList_insert_def ll_rep_def Node_new_def nth_append Let_def)
next
  case (snoc qs l)
  let ?h = "ll_heap s" and ?new = "length (ll_heap s)"
  let ?h2 = "(?h @ [Node_new e])[?new := (Node_new e)\<lparr>node_prev := Some l\<rparr>, l := (?h ! l)\<lparr>node_next := Some ?new\<rparr>]"
  have r: "?h \<noteq> []" "?h ! 0 = Node_sentinel" "distinct (qs @ [l])" "dll ?h Node_Undefined (qs @ [l]) Node_Undefined"
    using assms snoc by (simp_all add: ll_rep_def)
  then have l: "0 < l" "l < ?new" "l \<notin> set qs" "\<And>a. a \<in> set qs \<Longrightarrow> a < ?new"
    using dll_bounds [OF r(4)] by auto
  have "node_elements ?h2 qs = node_elements ?h qs"
    using l by (intro node_elements_cong) (auto simp: nth_append nth_list_update)
  moreover have "dll ?h2 Node_Undefined qs (Some l)"
    using r(4) l by - (rule dll_cong [of ?h], auto simp: nth_append nth_list_update)
  ultimately have "ll_rep (s\<lparr>ll_heap := ?h2, ll_last := Some ?new, ll_size := ll_size s + 1\<rparr>) (ps @ [?new]) (vs @ [e])"
    using assms snoc r l
    by (auto simp: ll_rep_def Node_new_def nth_append nth_list_update)
  then show ?thesis
    using assms snoc r l
    by (auto simp: LinkedList_push_def LinkedList_insert_def ll_rep_def nth_append list_update_append Let_def)
qed

lemma LinkedList_unshift_rep:
  assumes "ll_rep s ps vs"
  shows "\<exists>s'. LinkedList_unshift s e = Some (\<lparr>rm_node = length (ll_heap s), rm_didRemove = False\<rparr>, s') \<and>
    ll_rep s' (length (ll_heap s) # ps) (e # vs) \<and> length (ll_heap s') = Suc (length (ll_heap s))"
proof (cases ps)
  case Nil
  then show ?thesis
    using assms by (simp add: LinkedList_unshift_def LinkedList_insert_def ll_rep_def Node_new_def nth_append Let_def)
next
  case (Cons f qs)
  let ?h = "ll_heap s" and ?new = "length (ll_heap s)"
  let ?h2 = "(?h @ [Node_new e])[?new := (Node_new e)\<lparr>node_next := Some f\<rparr>, f := (?h ! f)\<lparr>node_prev := Some ?new\<rparr>]"
  have r: "?h \<noteq> []" "?h ! 0 = Node_sentinel" "distinct (f # qs)" "dll ?h Node_Undefined (f # qs) Node_Undefined"
    using assms Cons by (simp_all add: ll_rep_def)
  then have f: "0 < f" "f < ?new" "f \<notin> set qs" "\<And>a. a \<in> set qs \<Longrightarrow> a < ?new"
    using dll_bounds [OF r(4)] by auto
  have "node_elements ?h2 qs = node_elements ?h qs"
    using f by (intro node_elements_cong) (auto simp: nth_append nth_list_update)
  moreover have "dll ?h2 (Some f) qs Node_Undefined"
    using r(4) f by - (rule dll_cong [of ?h], auto simp: nth_append nth_list_update)
  ultimately have "ll_rep (s\<lparr>ll_heap := ?h2, ll_first := Some ?new, ll_size := ll_size s + 1\<rparr>) (?new # ps) (e # vs)"
    using assms Cons r f
    by (auto simp: ll_rep_def Node_new_def nth_append nth_list_update)
  then show ?thesis
    using assms Cons r f
    by (simp add: LinkedList_unshift_def LinkedList_insert_def ll_rep_def nth_append list_update_append Let_def)
qed

section \<open>Removal\<close>

lemma LinkedList_remove_rep:
  assumes "ll_rep s (xs @ a # ys) (us @ v # ws)" "length us = length xs"
  shows "\<exists>s'. LinkedList_remove s (Some a) = Some s' \<and> ll_rep s' (xs @ ys) (us @ ws) \<and>
    length (ll_heap s') = length (ll_heap s)"
proof -
  let ?h = "ll_heap s"
  have h: "?h \<noteq> []" "?h ! 0 = Node_sentinel" "distinct (xs @ a # ys)" and
    d: "dll ?h Node_Undefined xs (Some a)" "dll ?h (Some a) ys Node_Undefined" and
    a: "0 < a" "a < length ?h" "node_prev (?h ! a) = link_tail Node_Undefined xs"
      "node_next (?h ! a) = link_head ys Node_Undefined" and
    ends: "ll_first s = link_head (xs @ a # ys) Node_Undefined" "ll_last s = link_tail Node_Undefined (xs @ a # ys)"
      "ll_size s = ilen xs + ilen ys + 1" and
    els: "node_elements ?h xs = map Some us" "node_elements ?h ys = map Some ws"
    using assms by (auto simp: ll_rep_def node_elements_def)
  show ?thesis
  proof (cases xs rule: rev_cases)
    case xs: Nil
    show ?thesis
    proof (cases ys)
      case Nil
      then show ?thesis
        using xs h a ends els by (simp add: LinkedList_remove_def ll_rep_def)
    next
      case (Cons b zs)
      let ?h' = "?h[b := (?h ! b)\<lparr>node_prev := Node_Undefined\<rparr>]"
      have b: "0 < b" "b < length ?h" "b \<notin> set zs" using d(2) h(3) Cons by auto
      have "node_elements ?h' zs = node_elements ?h zs"
        using b by (intro node_elements_cong) (auto simp: nth_list_update)
      moreover have "dll ?h' (Some b) zs Node_Undefined"
        using d(2) b Cons by - (rule dll_cong [of ?h], auto simp: nth_list_update)
      ultimately have "ll_rep (s\<lparr>ll_heap := ?h', ll_first := Some b, ll_size := ll_size s - 1\<rparr>) (xs @ ys) (us @ ws)"
        using xs Cons h d a b ends els assms(2) by (auto simp: ll_rep_def nth_list_update)
      then show ?thesis
        using xs Cons a b ends by (simp add: LinkedList_remove_def)
    qed
  next
    case xs: (snoc zs l)
    have l: "0 < l" "l < length ?h" "l \<notin> set zs" using d(1) h(3) xs by auto
    show ?thesis
    proof (cases ys)
      case Nil
      let ?h' = "?h[l := (?h ! l)\<lparr>node_next := Node_Undefined\<rparr>]"
      have "node_elements ?h' zs = node_elements ?h zs"
        using l by (intro node_elements_cong) (auto simp: nth_list_update)
      moreover have "dll ?h' Node_Undefined zs (Some l)"
        using d(1) l xs by - (rule dll_cong [of ?h], auto simp: nth_list_update)
      ultimately have "ll_rep (s\<lparr>ll_heap := ?h', ll_last := Some l, ll_size := ll_size s - 1\<rparr>) (xs @ ys) (us @ ws)"
        using xs Nil h d a l ends els assms(2) by (auto simp: ll_rep_def nth_list_update)
      then show ?thesis
        using xs Nil a l ends by (simp add: LinkedList_remove_def)
    next
      case (Cons b bs)
      let ?h1 = "?h[l := (?h ! l)\<lparr>node_next := Some b\<rparr>]"
      let ?h' = "?h1[b := (?h ! b)\<lparr>node_prev := Some l\<rparr>]"
      have b: "0 < b" "b < length ?h" "b \<notin> set bs" "b \<noteq> l" "b \<notin> set zs" "l \<notin> set bs" "a \<noteq> l" "a \<noteq> b"
        using d(2) h(3) Cons xs by auto
      have "node_elements ?h' zs = node_elements ?h zs" "node_elements ?h' bs = node_elements ?h bs"
        using l b by (auto intro!: node_elements_cong simp: nth_list_update)
      moreover have "dll ?h' Node_Undefined zs (Some l)" "dll ?h' (Some b) bs Node_Undefined"
        using d l b xs Cons by - (rule dll_cong [of ?h], auto simp: nth_list_update)+
      ultimately have "ll_rep (s\<lparr>ll_heap := ?h', ll_size := ll_size s - 1\<rparr>) (xs @ ys) (us @ ws)"
        using xs Cons h d a l b ends els assms(2) by (auto simp: ll_rep_def nth_list_update)
      then show ?thesis
        using xs Cons a l b ends by (simp add: LinkedList_remove_def nth_list_update)
    qed
  qed
qed

lemma LinkedList_shift_rep:
  assumes "ll_rep s ps vs"
  shows "vs = [] \<Longrightarrow> LinkedList_shift s = Some (None, s)"
    and "vs = v # ws \<Longrightarrow> \<exists>s'. LinkedList_shift s = Some (Some v, s') \<and> ll_rep s' (tl ps) ws \<and>
      length (ll_heap s') = length (ll_heap s)"
proof -
  show "LinkedList_shift s = Some (None, s)" if "vs = []"
    using assms that by (simp add: ll_rep_def LinkedList_shift_def)
  show "\<exists>s'. LinkedList_shift s = Some (Some v, s') \<and> ll_rep s' (tl ps) ws \<and>
      length (ll_heap s') = length (ll_heap s)" if vs: "vs = v # ws"
  proof -
    obtain a qs where ps: "ps = a # qs" using assms vs by (cases ps) (auto simp: ll_rep_def)
    then have "LinkedList_shift s = map_option (\<lambda>s'. (Some v, s')) (LinkedList_remove s (Some a))"
      using assms vs by (auto simp: ll_rep_def LinkedList_shift_def map_option_case bind_eq_Some_conv split: option.split)
    then show ?thesis using LinkedList_remove_rep [of s "[]" a qs "[]" v ws] assms ps vs by auto
  qed
qed

lemma LinkedList_pop_rep:
  assumes "ll_rep s ps vs"
  shows "vs = [] \<Longrightarrow> LinkedList_pop s = Some (None, s)"
    and "vs = ws @ [v] \<Longrightarrow> \<exists>s'. LinkedList_pop s = Some (Some v, s') \<and> ll_rep s' (butlast ps) ws \<and>
      length (ll_heap s') = length (ll_heap s)"
proof -
  show "LinkedList_pop s = Some (None, s)" if "vs = []"
    using assms that by (simp add: ll_rep_def LinkedList_pop_def)
  show "\<exists>s'. LinkedList_pop s = Some (Some v, s') \<and> ll_rep s' (butlast ps) ws \<and>
      length (ll_heap s') = length (ll_heap s)" if vs: "vs = ws @ [v]"
  proof -
    obtain a qs where ps: "ps = qs @ [a]" using assms vs by (cases ps rule: rev_cases) (auto simp: ll_rep_def)
    then have "LinkedList_pop s = map_option (\<lambda>s'. (Some v, s')) (LinkedList_remove s (Some a))" "length ws = length qs"
      using assms vs by (auto simp: ll_rep_def LinkedList_pop_def map_option_case dest: node_elements_length split: option.split)
    then show ?thesis using LinkedList_remove_rep [of s qs a "[]" ws v "[]"] assms ps vs by auto
  qed
qed

lemma LinkedList_peek_rep:
  "ll_rep s ps vs \<Longrightarrow> LinkedList_peek s = Some (if vs = [] then None else Some (List.last vs))"
  by (cases ps rule: rev_cases; cases vs rule: rev_cases) (auto simp: ll_rep_def LinkedList_peek_def)

section \<open>Traversal\<close>

lemma iterator_loop_dll:
  "dll h p as Node_Undefined \<Longrightarrow>
    iterator_loop h (link_head as Node_Undefined) = Some (node_elements h as)"
proof (induction as arbitrary: p)
  case (Cons a as)
  then show ?case by (subst iterator_loop.simps) auto
qed (simp add: iterator_loop.simps)

lemma LinkedList_iterator_rep: "ll_rep s ps vs \<Longrightarrow> LinkedList_iterator s = Some (map Some vs)"
  using iterator_loop_dll by (fastforce simp: ll_rep_def LinkedList_iterator_def)

lemma clear_loop_dll:
  "dll h p as Node_Undefined \<Longrightarrow> distinct as \<Longrightarrow>
    \<exists>h'. clear_loop h (link_head as Node_Undefined) = Some h' \<and> length h' = length h \<and> h' ! 0 = h ! 0"
proof (induction as arbitrary: p h)
  case (Cons a as)
  let ?h' = "h[a := (h ! a)\<lparr>node_prev := Node_Undefined, node_next := Node_Undefined\<rparr>]"
  have a: "0 < a" "a < length h" using Cons.prems by auto
  have "dll ?h' (Some a) as Node_Undefined"
    using Cons.prems by - (rule dll_cong [of h], auto simp: nth_list_update)
  from Cons.IH [OF this] Cons.prems obtain h' where
    h': "clear_loop ?h' (link_head as Node_Undefined) = Some h'" "length h' = length h" "h' ! 0 = h ! 0"
    by (auto simp: nth_list_update)
  have "clear_loop h (Some a) = clear_loop ?h' (link_head as Node_Undefined)"
    using Cons.prems a by (subst clear_loop.simps) (simp add: nth_list_update)
  then show ?case using h' by simp
qed (simp add: clear_loop.simps)

lemma LinkedList_clear_rep:
  assumes "ll_rep s ps vs"
  shows "\<exists>s'. LinkedList_clear s = Some s' \<and> ll_rep s' [] [] \<and> length (ll_heap s') = length (ll_heap s)"
proof -
  obtain h' where "clear_loop (ll_heap s) (ll_first s) = Some h'" "length h' = length (ll_heap s)"
    "h' ! 0 = ll_heap s ! 0"
    using clear_loop_dll [of "ll_heap s" Node_Undefined ps] assms by (auto simp: ll_rep_def)
  then show ?thesis using assms by (auto simp: LinkedList_clear_def ll_rep_def)
qed

section \<open>Sequences of calls\<close>

text \<open>
  A client of one list: the calls it makes, where \<open>Remove k\<close> calls the closure that the \<open>k\<close>-th
  insertion returned. The state is the list and the closures handed out so far; a call returns
  what the method returns, as an element or \<open>undefined\<close>.
\<close>

datatype 'a ll_call = Push 'a | Unshift 'a | Shift | Pop | Peek | Clear | Remove nat

fun ll_step :: "'a ll_call \<Rightarrow> 'a linked_list \<times> remover list \<Rightarrow> ('a option \<times> 'a linked_list \<times> remover list) option" where
  "ll_step (Push e) (s, rs) = do { (r, s') \<leftarrow> LinkedList_push s e; Some (None, s', rs @ [r]) }"
| "ll_step (Unshift e) (s, rs) = do { (r, s') \<leftarrow> LinkedList_unshift s e; Some (None, s', rs @ [r]) }"
| "ll_step Shift (s, rs) = do { (v, s') \<leftarrow> LinkedList_shift s; Some (v, s', rs) }"
| "ll_step Pop (s, rs) = do { (v, s') \<leftarrow> LinkedList_pop s; Some (v, s', rs) }"
| "ll_step Peek (s, rs) = do { v \<leftarrow> LinkedList_peek s; Some (v, s, rs) }"
| "ll_step Clear (s, rs) = do { s' \<leftarrow> LinkedList_clear s; Some (None, s', rs) }"
| "ll_step (Remove k) (s, rs) =
     (if k < length rs
      then do { (r, s') \<leftarrow> LinkedList_call_remover s (rs ! k); Some (None, s', rs[k := r]) }
      else None)"

text \<open>
  The promise: a list of elements, each with the number of its insertion, the number of insertions
  and the closures that were called. A call to a closure whose element left in another way
  (\<open>shift\<close>, \<open>pop\<close>, \<open>clear\<close>) is not covered: \<open>None\<close>.
\<close>

type_synonym 'a ll_spec = "(nat \<times> 'a) list \<times> nat \<times> nat list"

fun spec_step :: "'a ll_call \<Rightarrow> 'a ll_spec \<Rightarrow> ('a option \<times> 'a ll_spec) option" where
  "spec_step (Push e) (l, n, c) = Some (None, l @ [(n, e)], n + 1, c)"
| "spec_step (Unshift e) (l, n, c) = Some (None, (n, e) # l, n + 1, c)"
| "spec_step Shift (l, n, c) =
     (case l of [] \<Rightarrow> Some (None, l, n, c) | x # xs \<Rightarrow> Some (Some (snd x), xs, n, c))"
| "spec_step Pop (l, n, c) =
     (if l = [] then Some (None, l, n, c) else Some (Some (snd (List.last l)), butlast l, n, c))"
| "spec_step Peek (l, n, c) = Some (if l = [] then None else Some (snd (List.last l)), l, n, c)"
| "spec_step Clear (l, n, c) = Some (None, [], n, c)"
| "spec_step (Remove k) (l, n, c) =
     (if k \<in> set c then Some (None, l, n, c)
      else if k \<in> fst ` set l then Some (None, filter (\<lambda>x. fst x \<noteq> k) l, n, k # c)
      else None)"

fun run_calls :: "('c \<Rightarrow> 's \<Rightarrow> ('o \<times> 's) option) \<Rightarrow> 'c list \<Rightarrow> 's \<Rightarrow> ('o list \<times> 's) option" where
  "run_calls step [] s = Some ([], s)"
| "run_calls step (c # cs) s =
     do { (v, s') \<leftarrow> step c s; (vs, s'') \<leftarrow> run_calls step cs s'; Some (v # vs, s'') }"

definition ll_sim :: "'a linked_list \<times> remover list \<Rightarrow> 'a ll_spec \<Rightarrow> bool" where
  "ll_sim \<equiv> \<lambda>(s, rs) (l, n, c).
     ll_rep s (map (\<lambda>x. rm_node (rs ! fst x)) l) (map snd l) \<and> n = length rs \<and>
     (\<forall>x \<in> set l. fst x < n \<and> fst x \<notin> set c) \<and> (\<forall>k \<in> set c. k < n) \<and>
     (\<forall>k < n. rm_didRemove (rs ! k) \<longleftrightarrow> k \<in> set c)"

lemma ll_sim_append:
  "\<forall>x \<in> set l. fst x < length rs \<Longrightarrow>
    map (\<lambda>x. rm_node ((rs @ [r]) ! fst x)) l = map (\<lambda>x. rm_node (rs ! fst x)) l"
  by (simp add: nth_append)

lemma ll_sim_insert:
  assumes "ll_sim (s, rs) (l, n, c)" "set l' = insert (n, e) (set l)" "\<not> rm_didRemove r"
    and "ll_rep s' (map (\<lambda>x. rm_node ((rs @ [r]) ! fst x)) l') (map snd l')"
  shows "ll_sim (s', rs @ [r]) (l', Suc n, c)"
proof -
  have "n \<notin> set c" using assms(1) by (auto simp: ll_sim_def)
  then show ?thesis using assms by (auto simp: ll_sim_def nth_append less_Suc_eq)
qed

lemma ll_sim_remove:
  assumes "ll_sim (s, rs) (l, n, c)" "k \<in> fst ` set l"
  shows "\<exists>s'. LinkedList_remove s (Some (rm_node (rs ! k))) = Some s' \<and>
    ll_sim (s', rs[k := (rs ! k)\<lparr>rm_didRemove := True\<rparr>]) (filter (\<lambda>x. fst x \<noteq> k) l, n, k # c)"
proof -
  let ?at = "\<lambda>x. rm_node (rs ! fst x)"
  obtain xs x ys where l: "l = xs @ x # ys" and x: "fst x = k"
    using assms(2) by (auto dest: split_list)
  have rep: "ll_rep s (map ?at xs @ ?at x # map ?at ys) (map snd xs @ snd x # map snd ys)"
    using assms(1) by (simp add: ll_sim_def l)
  then have "?at x \<notin> ?at ` set xs" "?at x \<notin> ?at ` set ys" by (auto simp: ll_rep_def)
  then have "\<forall>y \<in> set xs \<union> set ys. fst y \<noteq> k" using x by (metis Un_iff image_eqI)
  then have keep: "filter (\<lambda>x. fst x \<noteq> k) l = xs @ ys" and neq: "\<And>y. y \<in> set (xs @ ys) \<Longrightarrow> fst y \<noteq> k"
    using l x by (auto intro: filter_True)
  obtain s' where s': "LinkedList_remove s (Some (rm_node (rs ! k))) = Some s'"
    "ll_rep s' (map ?at (xs @ ys)) (map snd (xs @ ys))"
    using LinkedList_remove_rep [OF rep] x by auto
  have "map (\<lambda>x. rm_node (rs[k := (rs ! k)\<lparr>rm_didRemove := True\<rparr>] ! fst x)) (xs @ ys) = map ?at (xs @ ys)"
    by (rule map_cong [OF refl]) (use neq in \<open>metis nth_list_update_neq\<close>)
  then have "ll_rep s' (map (\<lambda>x. rm_node (rs[k := (rs ! k)\<lparr>rm_didRemove := True\<rparr>] ! fst x)) (xs @ ys)) (map snd (xs @ ys))"
    using s'(2) by (simp only:)
  moreover have "k < n" "\<forall>x \<in> set (xs @ ys). fst x < n \<and> fst x \<notin> set (k # c)" "\<forall>k' \<in> set (k # c). k' < n"
    "\<forall>k' < n. rm_didRemove (rs[k := (rs ! k)\<lparr>rm_didRemove := True\<rparr>] ! k') \<longleftrightarrow> k' \<in> set (k # c)"
    "n = length rs"
    using assms(1) neq x by (auto simp: ll_sim_def l nth_list_update)
  ultimately show ?thesis using s'(1) unfolding keep by (simp add: ll_sim_def)
qed

lemma ll_step_refines:
  assumes "ll_sim (s, rs) (l, n, c)" "spec_step call (l, n, c) = Some (v, a)"
  shows "\<exists>s' rs'. ll_step call (s, rs) = Some (v, s', rs') \<and> ll_sim (s', rs') a"
proof -
  have rep: "ll_rep s (map (\<lambda>x. rm_node (rs ! fst x)) l) (map snd l)" and n: "n = length rs"
    and old: "\<forall>x \<in> set l. fst x < length rs"
    using assms(1) by (auto simp: ll_sim_def)
  note sim = assms(1) [unfolded n]
  show ?thesis
  proof (cases call)
    case (Push e)
    then show ?thesis
      using LinkedList_push_rep [OF rep, of e] assms(2) n
      by (auto intro!: ll_sim_insert [OF sim] simp: ll_sim_append [OF old])
  next
    case (Unshift e)
    then show ?thesis
      using LinkedList_unshift_rep [OF rep, of e] assms(2) n
      by (auto intro!: ll_sim_insert [OF sim] simp: ll_sim_append [OF old])
  next
    case Shift
    then show ?thesis
      using LinkedList_shift_rep [OF rep] assms by (cases l) (auto simp: ll_sim_def)
  next
    case Pop
    then show ?thesis
      using LinkedList_pop_rep [OF rep] assms
      by (cases l rule: rev_cases) (auto simp: ll_sim_def)
  next
    case Peek
    then show ?thesis
      using LinkedList_peek_rep [OF rep] assms by (auto simp: last_map)
  next
    case Clear
    then show ?thesis using LinkedList_clear_rep [OF rep] assms by (auto simp: ll_sim_def)
  next
    case (Remove k)
    show ?thesis
    proof (cases "k \<in> set c")
      case True
      then show ?thesis using Remove assms by (auto simp: ll_sim_def LinkedList_call_remover_def)
    next
      case False
      then have k: "k \<in> fst ` set l" "a = (filter (\<lambda>x. fst x \<noteq> k) l, n, k # c)" "v = None"
        using Remove assms(2) by (auto split: if_splits)
      then have "k < length rs" "\<not> rm_didRemove (rs ! k)" using assms(1) False old by (auto simp: ll_sim_def)
      then show ?thesis
        using ll_sim_remove [OF assms(1) k(1)] Remove k by (auto simp: LinkedList_call_remover_def)
    qed
  qed
qed

lemma run_calls_refines:
  "ll_sim s a \<Longrightarrow> run_calls spec_step calls a = Some (vs, a') \<Longrightarrow>
    \<exists>s'. run_calls ll_step calls s = Some (vs, s') \<and> ll_sim s' a'"
proof (induction calls arbitrary: s a vs)
  case (Cons call calls)
  obtain v a1 ws where a1: "spec_step call a = Some (v, a1)" "run_calls spec_step calls a1 = Some (ws, a')" "vs = v # ws"
    using Cons.prems(2) by (auto simp: bind_eq_Some_conv)
  obtain s1 where "ll_step call s = Some (v, s1)" "ll_sim s1 a1"
  proof -
    obtain s0 rs l n c where "s = (s0, rs)" "a = (l, n, c)" by (cases s; cases a) auto
    then show ?thesis using ll_step_refines [of s0 rs l n c call v a1] Cons.prems(1) a1(1) that by blast
  qed
  then obtain s2 where "run_calls ll_step calls s1 = Some (ws, s2)" "ll_sim s2 a'"
    using Cons.IH [OF _ a1(2)] by blast
  with \<open>ll_step call s = Some (v, s1)\<close> show ?case using a1(3) by simp
qed simp

text \<open>C36. A linked list behaves as a list, for every sequence of calls in which a closure returned by
  \<open>push\<close> or \<open>unshift\<close> is called first while its element is still in the list (and then as
  often as one likes): no call throws or runs forever, \<open>shift\<close>, \<open>pop\<close> and \<open>peek\<close> return what they
  would on a list, a closure removes its own element and nothing else and does nothing when
  called again, and at the end iteration, \<open>size\<close> and \<open>isEmpty\<close> are those of the list.\<close>

theorem linked_list_refines_list:
  assumes "run_calls spec_step calls ([], 0, []) = Some (vs, l, n, c)"
  shows "\<exists>s rs. run_calls ll_step calls (LinkedList_new, []) = Some (vs, s, rs) \<and>
    LinkedList_iterator s = Some (map (\<lambda>x. Some (snd x)) l) \<and> ll_size s = ilen l \<and>
    (LinkedList_isEmpty s \<longleftrightarrow> l = []) \<and> length rs = n"
proof -
  have "ll_sim (LinkedList_new, []) ([], 0, [])" by (simp add: ll_sim_def LinkedList_new_rep)
  from run_calls_refines [OF this assms] obtain s rs where
    run: "run_calls ll_step calls (LinkedList_new, []) = Some (vs, s, rs)" and sim: "ll_sim (s, rs) (l, n, c)"
    by auto
  let ?ps = "map (\<lambda>x. rm_node (rs ! fst x)) l"
  have rep: "ll_rep s ?ps (map snd l)" using sim by (simp add: ll_sim_def)
  then have "LinkedList_isEmpty s \<longleftrightarrow> l = []" by (auto simp: LinkedList_isEmpty_def ll_rep_def)
  then show ?thesis
    using run rep LinkedList_iterator_rep [OF rep] sim by (auto simp: ll_rep_def ll_sim_def comp_def)
qed

theorem linked_list_refines_list_witness:
  "\<exists>s rs. run_calls ll_step [Push (1 :: int), Push 2, Unshift 3, Remove 1, Shift, Remove 1, Push 4, Pop, Peek]
      (LinkedList_new, []) = Some ([None, None, None, None, Some 3, None, None, Some 4, Some 1], s, rs) \<and>
    LinkedList_iterator s = Some [Some 1] \<and> ll_size s = 1"
proof -
  have "run_calls spec_step [Push (1 :: int), Push 2, Unshift 3, Remove 1, Shift, Remove 1, Push 4, Pop, Peek] ([], 0, []) =
      Some ([None, None, None, None, Some 3, None, None, Some 4, Some 1], [(0, 1)], 4, [1])"
    by simp
  from linked_list_refines_list [OF this] show ?thesis by (auto simp del: run_calls.simps)
qed

section \<open>Closures called too late\<close>

text \<open>
  How an element left the list other than through its closure, which is what its node still shows:
  alone (the only element, or \<open>clear\<close>), from the front before others, or from the end after others.
\<close>

datatype departure = Alone | AtFront | AtEnd

fun departures_of :: "'a ll_call \<Rightarrow> 'a ll_spec \<Rightarrow> (nat \<times> departure) list" where
  "departures_of Shift (l, n, c) =
     (case l of [] \<Rightarrow> [] | x # xs \<Rightarrow> [(fst x, if xs = [] then Alone else AtFront)])"
| "departures_of Pop (l, n, c) =
     (if l = [] then [] else [(fst (List.last l), if butlast l = [] then Alone else AtEnd)])"
| "departures_of Clear (l, n, c) = map (\<lambda>x. (fst x, Alone)) l"
| "departures_of _ a = []"

fun departures :: "'a ll_call list \<Rightarrow> 'a ll_spec \<Rightarrow> (nat \<times> departure) list" where
  "departures [] a = []"
| "departures (call # calls) a =
     departures_of call a @ (case spec_step call a of None \<Rightarrow> [] | Some (v, a') \<Rightarrow> departures calls a')"

fun left_node :: "'a node \<Rightarrow> departure \<Rightarrow> bool" where
  "left_node nd Alone \<longleftrightarrow> node_prev nd = Node_Undefined \<and> node_next nd = Node_Undefined"
| "left_node nd AtFront \<longleftrightarrow> node_prev nd = Node_Undefined \<and> node_next nd \<noteq> Node_Undefined"
| "left_node nd AtEnd \<longleftrightarrow> node_prev nd \<noteq> Node_Undefined \<and> node_next nd = Node_Undefined"

text \<open>No operation touches a node outside the list.\<close>

lemma ll_rep_ends:
  assumes "ll_rep s ps vs"
  shows "ps \<noteq> [] \<Longrightarrow> ll_first s = Some (hd ps) \<and> ll_last s = Some (List.last ps) \<and>
      hd ps \<in> set ps \<and> List.last ps \<in> set ps"
    and "ps = [] \<Longrightarrow> ll_first s = Node_Undefined \<and> ll_last s = Node_Undefined"
  using assms by (auto simp: ll_rep_def link_head_def link_tail_def split: list.splits)

lemma ll_rep_node:
  assumes "ll_rep s (xs @ a # ys) vs"
  shows "0 < a" "a < length (ll_heap s)"
    "node_prev (ll_heap s ! a) = link_tail Node_Undefined xs" "node_next (ll_heap s ! a) = link_head ys Node_Undefined"
  using assms by (auto simp: ll_rep_def)

lemma LinkedList_insert_frame:
  assumes "ll_rep s ps vs" "LinkedList_insert s e b = Some (r, s')" "a < length (ll_heap s)" "a \<notin> set ps"
  shows "ll_heap s' ! a = ll_heap s ! a"
proof (cases "ps = []")
  case True
  then show ?thesis using assms ll_rep_ends(2) [OF assms(1) True]
    by (auto simp: LinkedList_insert_def Let_def nth_append)
next
  case False
  then have "ll_first s \<noteq> Node_Undefined" "hd ps < length (ll_heap s)" "List.last ps < length (ll_heap s)"
    using assms(1) dll_bounds [of "ll_heap s" Node_Undefined ps Node_Undefined] ll_rep_ends(1) [OF assms(1)]
    by (auto simp: ll_rep_def)
  with False show ?thesis using assms ll_rep_ends(1) [OF assms(1) False]
    by (auto simp: LinkedList_insert_def Let_def nth_append nth_list_update set_next_def set_prev_def
      bind_eq_Some_conv split: if_splits)
qed

lemma LinkedList_remove_frame:
  assumes rep: "ll_rep s (xs @ a # ys) vs" and rem: "LinkedList_remove s (Some a) = Some s'"
    and b: "b \<notin> set (xs @ ys)" "0 < b"
  shows "ll_heap s' ! b = ll_heap s ! b"
proof -
  note node = ll_rep_node [OF rep]
  have pos: "z \<in> set (xs @ ys) \<Longrightarrow> 0 < z" for z
    using rep dll_bounds [of "ll_heap s" Node_Undefined "xs @ a # ys" Node_Undefined z] by (auto simp: ll_rep_def)
  have ends: "ys = [] \<Longrightarrow> ll_last s = Some a" "xs = [] \<Longrightarrow> ll_first s = Some a"
    using rep by (auto simp: ll_rep_def)
  show ?thesis
  proof (cases xs rule: rev_cases)
    case Nil
    then show ?thesis using rem b node ends pos
      by (cases ys) (auto simp: LinkedList_remove_def bind_eq_Some_conv set_prev_def split: if_splits)
  next
    case (snoc zs z)
    then show ?thesis using rem b node ends pos
      by (cases ys) (auto simp: LinkedList_remove_def bind_eq_Some_conv set_next_def set_prev_def nth_list_update
        split: if_splits)
  qed
qed

lemma clear_loop_frame:
  "dll h p as Node_Undefined \<Longrightarrow> distinct as \<Longrightarrow> clear_loop h (link_head as Node_Undefined) = Some h' \<Longrightarrow>
    (\<forall>a\<in>set as. left_node (h' ! a) Alone) \<and> (\<forall>b. b \<notin> set as \<longrightarrow> h' ! b = h ! b)"
proof (induction as arbitrary: p h)
  case Nil
  then show ?case by (simp add: clear_loop.simps)
next
  case (Cons a as)
  let ?h' = "h[a := (h ! a)\<lparr>node_prev := Node_Undefined, node_next := Node_Undefined\<rparr>]"
  have a: "0 < a" "a < length h" using Cons.prems by auto
  have d: "dll ?h' (Some a) as Node_Undefined"
    using Cons.prems by - (rule dll_cong [of h], auto simp: nth_list_update)
  have "clear_loop h (Some a) = clear_loop ?h' (link_head as Node_Undefined)"
    using Cons.prems(1) a by (subst clear_loop.simps) (simp add: nth_list_update)
  then have *: "(\<forall>a\<in>set as. left_node (h' ! a) Alone) \<and> (\<forall>b. b \<notin> set as \<longrightarrow> h' ! b = ?h' ! b)"
    using Cons.IH [OF d] Cons.prems by simp
  then have "h' ! a = ?h' ! a" using Cons.prems(2) by auto
  then show ?case using * a by (auto simp: nth_list_update)
qed


text \<open>What the list keeps when the closure of a node outside it is called.\<close>

fun kept_by :: "departure \<Rightarrow> 'b list \<Rightarrow> 'b list" where
  "kept_by Alone l = []"
| "kept_by AtFront l = tl l"
| "kept_by AtEnd l = (if length l = 1 then l else butlast l)"

lemma stale_remove_empty:
  assumes "ll_rep s [] vs" "a < length (ll_heap s)" "left_node (ll_heap s ! a) d" "d \<noteq> Alone"
  shows "LinkedList_remove s (Some a) = None"
  using assms
  by (cases d) (auto simp: LinkedList_remove_def ll_rep_def Node_Undefined_def deref_def Node_sentinel_def set_prev_def set_next_def)

lemma iterator_loop_end: "iterator_loop h (Some 0) = Some []"
  by (simp add: iterator_loop.simps)

lemma iterator_loop_single:
  "0 < p \<Longrightarrow> p < length h \<Longrightarrow> node_next (h ! p) = Some 0 \<Longrightarrow> iterator_loop h (Some p) = Some [node_element (h ! p)]"
  by (subst iterator_loop.simps) (simp add: iterator_loop_end)

lemma stale_remove:
  assumes rep: "ll_rep s ps vs" and a: "a < length (ll_heap s)" "left_node (ll_heap s ! a) d"
    and ne: "d = Alone \<or> vs \<noteq> []"
  shows "\<exists>s'. LinkedList_remove s (Some a) = Some s' \<and>
    LinkedList_iterator s' = Some (map Some (kept_by d vs)) \<and> ll_size s' = ilen vs - 1"
proof (cases d)
  case Alone
  have "ll_size s = ilen vs" using rep by (auto simp: ll_rep_def dest: node_elements_length)
  then show ?thesis using a Alone
    by (simp add: LinkedList_remove_def LinkedList_iterator_def iterator_loop_end Node_Undefined_def)
next
  case AtFront
  then obtain p qs v ws where l: "ps = p # qs" "vs = v # ws"
    using rep ne by (cases ps; cases vs) (auto simp: ll_rep_def)
  note node = ll_rep_node [of s "[]" p qs vs, simplified, OF rep [unfolded l(1)]]
  show ?thesis
  proof (cases qs)
    case Nil
    then have "ws = []" "ll_first s = Some p" "ll_size s = 1" "ll_heap s \<noteq> []" using rep l by (auto simp: ll_rep_def)
    then show ?thesis using a AtFront l Nil node
      by (simp add: LinkedList_remove_def LinkedList_iterator_def iterator_loop_end iterator_loop_single Node_Undefined_def set_prev_def)
  next
    case (Cons q rs)
    then have "0 < q" "ll_first s = Some p" using rep l by (simp_all add: ll_rep_def)
    then have "LinkedList_remove s (Some a) = LinkedList_remove s (Some p)"
      using a AtFront Cons node by (simp add: LinkedList_remove_def)
    moreover obtain s' where "LinkedList_remove s (Some p) = Some s'" "ll_rep s' qs ws"
      using LinkedList_remove_rep [of s "[]" p qs "[]" v ws] rep l by auto
    ultimately show ?thesis
      using LinkedList_iterator_rep [of s' qs ws] AtFront l(2) node_elements_length [of "ll_heap s'" qs ws]
      by (simp add: ll_rep_def)
  qed
next
  case AtEnd
  then obtain qs p ws v where l: "ps = qs @ [p]" "vs = ws @ [v]" "length ws = length qs"
    using rep ne by (cases ps rule: rev_cases; cases vs rule: rev_cases) (auto simp: ll_rep_def dest: node_elements_length)
  note node = ll_rep_node [of s qs p "[]" vs, OF rep [unfolded l(1)]]
  show ?thesis
  proof (cases qs rule: rev_cases)
    case Nil
    then have "ws = []" "ll_first s = Some p" "ll_last s = Some p" "ll_size s = 1" "ll_heap s \<noteq> []"
      "node_element (ll_heap s ! p) = Some v"
      using rep l by (auto simp: ll_rep_def)
    then show ?thesis using a AtEnd l Nil node
      by (simp add: LinkedList_remove_def LinkedList_iterator_def iterator_loop_end iterator_loop_single Node_Undefined_def set_next_def)
  next
    case (snoc rs q)
    then have "0 < q" "ll_last s = Some p" using rep l by (simp_all add: ll_rep_def)
    then have "LinkedList_remove s (Some a) = LinkedList_remove s (Some p)"
      using a AtEnd snoc node by (simp add: LinkedList_remove_def)
    moreover obtain s' where "LinkedList_remove s (Some p) = Some s'" "ll_rep s' qs ws"
      using LinkedList_remove_rep [of s qs p "[]" ws v "[]"] rep l by auto
    moreover have "length vs \<noteq> 1" using l snoc by simp
    ultimately show ?thesis
      using LinkedList_iterator_rep [of s' qs ws] AtEnd l(2,3) by (simp add: ll_rep_def)
  qed
qed

text \<open>The nodes of the elements that left keep their numbers and the links of their departure.\<close>

definition ll_left :: "'a linked_list \<times> remover list \<Rightarrow> 'a ll_spec \<Rightarrow> (nat \<times> departure) list \<Rightarrow> bool" where
  "ll_left \<equiv> \<lambda>(s, rs) (l, n, c) D.
     length (ll_heap s) = Suc n \<and> (\<forall>k<n. rm_node (rs ! k) = Suc k) \<and>
     (\<forall>(k, d)\<in>set D. k < n \<and> k \<notin> set c \<and> k \<notin> fst ` set l \<and> left_node (ll_heap s ! Suc k) d)"

lemma ll_left_step:
  assumes "ll_left (s, rs) (l, n, c) D" "n \<le> n'" "length (ll_heap s') = Suc n'" "\<forall>k<n'. rm_node (rs' ! k) = Suc k"
    and "set c' \<union> fst ` set l' \<subseteq> set c \<union> fst ` set l \<union> {n..}"
    and "\<And>b. 0 < b \<Longrightarrow> b < length (ll_heap s) \<Longrightarrow> b \<notin> Suc ` fst ` set l \<Longrightarrow> ll_heap s' ! b = ll_heap s ! b"
    and "\<And>k d. (k, d) \<in> set E \<Longrightarrow> k < n' \<and> k \<notin> set c' \<and> k \<notin> fst ` set l' \<and> left_node (ll_heap s' ! Suc k) d"
  shows "ll_left (s', rs') (l', n', c') (E @ D)"
proof -
  have "k < n' \<and> k \<notin> set c' \<and> k \<notin> fst ` set l' \<and> left_node (ll_heap s' ! Suc k) d" if "(k, d) \<in> set D" for k d
  proof -
    have k: "k < n" "k \<notin> set c" "k \<notin> fst ` set l" "left_node (ll_heap s ! Suc k) d"
      and "length (ll_heap s) = Suc n"
      using assms(1) that by (auto simp: ll_left_def)
    then have "ll_heap s' ! Suc k = ll_heap s ! Suc k" by (intro assms(6)) auto
    moreover have "k \<notin> set c' \<and> k \<notin> fst ` set l'" using assms(5) k by auto
    ultimately show ?thesis using k assms(2) by auto
  qed
  then show ?thesis using assms(3,4,7) unfolding ll_left_def by simp blast
qed

lemma ll_left_nodes:
  assumes "ll_left (s, rs) (l, n, c) D" "ll_sim (s, rs) (l, n, c)"
  shows "map (\<lambda>x. rm_node (rs ! fst x)) l = map (\<lambda>x. Suc (fst x)) l" "ll_rep s (map (\<lambda>x. Suc (fst x)) l) (map snd l)"
    "distinct (map fst l)" "\<forall>x\<in>set l. fst x < n \<and> fst x \<notin> set c" "n = length rs"
proof -
  show *: "map (\<lambda>x. rm_node (rs ! fst x)) l = map (\<lambda>x. Suc (fst x)) l"
    using assms by (auto simp: ll_left_def ll_sim_def)
  have "ll_rep s (map (\<lambda>x. rm_node (rs ! fst x)) l) (map snd l)" using assms by (simp add: ll_sim_def)
  then show "ll_rep s (map (\<lambda>x. Suc (fst x)) l) (map snd l)" unfolding * .
  then have "distinct (map Suc (map fst l))" by (simp add: ll_rep_def comp_def)
  then show "distinct (map fst l)" by (rule distinct_map [THEN iffD1, THEN conjunct1])
  show "\<forall>x\<in>set l. fst x < n \<and> fst x \<notin> set c" "n = length rs" using assms by (auto simp: ll_sim_def)
qed

text \<open>The steps that take a node out of the list.\<close>

lemma ll_left_remove:
  assumes left: "ll_left (s, rs) (xs @ x # ys, n, c) D" and sim: "ll_sim (s, rs) (xs @ x # ys, n, c)"
    and rem: "LinkedList_remove s (Some (Suc (fst x))) = Some s'"
    and rs': "\<forall>k<n. rm_node (rs' ! k) = rm_node (rs ! k)" and c': "set c' \<subseteq> insert (fst x) (set c)"
    and E: "E = [] \<or> c' = c \<and> (\<exists>d. E = [(fst x, d)] \<and> left_node (ll_heap s ! Suc (fst x)) d)"
  shows "ll_left (s', rs') (xs @ ys, n, c') (E @ D)"
proof (rule ll_left_step [OF left])
  note nodes = ll_left_nodes [OF left sim]
  have rep: "ll_rep s (map (\<lambda>x. Suc (fst x)) xs @ Suc (fst x) # map (\<lambda>x. Suc (fst x)) ys) (map snd xs @ snd x # map snd ys)"
    using nodes(2) by simp
  have frame: "ll_heap s' ! b = ll_heap s ! b" if "0 < b" "b \<notin> Suc ` fst ` set (xs @ ys)" for b
    using that by (intro LinkedList_remove_frame [OF rep rem]) auto
  show "length (ll_heap s') = Suc n"
    using LinkedList_remove_rep [OF rep] rem left by (auto simp: ll_left_def)
  show "\<forall>k<n. rm_node (rs' ! k) = Suc k" using left rs' by (simp add: ll_left_def)
  show "set c' \<union> fst ` set (xs @ ys) \<subseteq> set c \<union> fst ` set (xs @ x # ys) \<union> {n..}" using c' by auto
  show "ll_heap s' ! b = ll_heap s ! b" if "0 < b" "b \<notin> Suc ` fst ` set (xs @ x # ys)" for b
    using that by (intro frame) auto
  show "k < n \<and> k \<notin> set c' \<and> k \<notin> fst ` set (xs @ ys) \<and> left_node (ll_heap s' ! Suc k) d" if "(k, d) \<in> set E" for k d
  proof -
    have k: "k = fst x" "c' = c" "left_node (ll_heap s ! Suc (fst x)) d" using E that by auto
    moreover have "fst x \<notin> fst ` set (xs @ ys)" using nodes(3) by auto
    moreover have "fst x < n \<and> fst x \<notin> set c" using nodes(4) by simp
    moreover have "Suc (fst x) \<notin> Suc ` fst ` set (xs @ ys)" using \<open>fst x \<notin> fst ` set (xs @ ys)\<close> by (metis Suc_inject imageE)
    ultimately show ?thesis using frame [of "Suc (fst x)"] by simp
  qed
qed simp

lemma ll_left_insert:
  assumes left: "ll_left (s, rs) (l, n, c) D" and sim: "ll_sim (s, rs) (l, n, c)"
    and ins: "LinkedList_insert s e b = Some (\<lparr>rm_node = length (ll_heap s), rm_didRemove = False\<rparr>, s')"
    and "length (ll_heap s') = Suc (length (ll_heap s))" and l': "set l' = insert (n, e) (set l)"
  shows "ll_left (s', rs @ [\<lparr>rm_node = length (ll_heap s), rm_didRemove = False\<rparr>]) (l', Suc n, c) D"
proof -
  note nodes = ll_left_nodes [OF left sim]
  have "ll_left (s', rs @ [\<lparr>rm_node = length (ll_heap s), rm_didRemove = False\<rparr>]) (l', Suc n, c) ([] @ D)"
  proof (rule ll_left_step [OF left])
    show "ll_heap s' ! b = ll_heap s ! b" if "b < length (ll_heap s)" "b \<notin> Suc ` fst ` set l" for b
      using LinkedList_insert_frame [OF nodes(2) ins that(1)] that(2) by force
  qed (use assms nodes(5) in \<open>auto simp: ll_left_def nth_append less_Suc_eq\<close>)
  then show ?thesis by simp
qed

lemma ll_left_clear:
  assumes left: "ll_left (s, rs) (l, n, c) D" and sim: "ll_sim (s, rs) (l, n, c)" and clear: "LinkedList_clear s = Some s'"
  shows "ll_left (s', rs) ([], n, c) (map (\<lambda>x. (fst x, Alone)) l @ D)"
proof (rule ll_left_step [OF left])
  note nodes = ll_left_nodes [OF left sim]
  have loop: "clear_loop (ll_heap s) (ll_first s) = Some (ll_heap s')"
    using clear by (auto simp: LinkedList_clear_def bind_eq_Some_conv)
  have frame: "(\<forall>a\<in>set (map (\<lambda>x. Suc (fst x)) l). left_node (ll_heap s' ! a) Alone) \<and>
      (\<forall>b. b \<notin> set (map (\<lambda>x. Suc (fst x)) l) \<longrightarrow> ll_heap s' ! b = ll_heap s ! b)"
    by (rule clear_loop_frame [of _ Node_Undefined]) (use nodes(2) loop in \<open>simp_all add: ll_rep_def\<close>)
  show "length (ll_heap s') = Suc n" using LinkedList_clear_rep [OF nodes(2)] clear left by (auto simp: ll_left_def)
  have "set (map (\<lambda>x. Suc (fst x)) l) = Suc ` fst ` set l" by (simp add: image_image)
  then show "ll_heap s' ! b = ll_heap s ! b" if "b \<notin> Suc ` fst ` set l" for b
    using frame that by metis
  show "k < n \<and> k \<notin> set c \<and> k \<notin> fst ` set [] \<and> left_node (ll_heap s' ! Suc k) d"
    if "(k, d) \<in> set (map (\<lambda>x. (fst x, Alone)) l)" for k d
    using that frame nodes(4) by auto
qed (use left in \<open>auto simp: ll_left_def\<close>)

lemma ll_step_left:
  assumes left: "ll_left (s, rs) (l, n, c) D" and sim: "ll_sim (s, rs) (l, n, c)"
    and spec: "spec_step call (l, n, c) = Some (v, a)" and step: "ll_step call (s, rs) = Some (v, s', rs')"
  shows "ll_left (s', rs') a (departures_of call (l, n, c) @ D)"
proof -
  note nodes = ll_left_nodes [OF left sim]
  show ?thesis
  proof (cases call)
    case (Push e)
    then show ?thesis
      using LinkedList_push_rep [OF nodes(2), of e] spec step nodes(5)
        ll_left_insert [OF left sim, of e True s' "l @ [(n, e)]"]
      by (auto simp: LinkedList_push_def)
  next
    case (Unshift e)
    then show ?thesis
      using LinkedList_unshift_rep [OF nodes(2), of e] spec step nodes(5)
        ll_left_insert [OF left sim, of e False s' "(n, e) # l"]
      by (auto simp: LinkedList_unshift_def)
  next
    case Shift
    show ?thesis
    proof (cases l)
      case Nil
      then show ?thesis using Shift LinkedList_shift_rep(1) [OF nodes(2)] spec step left by auto
    next
      case (Cons x xs)
      then have first: "ll_first s = Some (Suc (fst x))" using nodes(2) by (simp add: ll_rep_def)
      then have "LinkedList_remove s (Some (Suc (fst x))) = Some s'" "rs' = rs"
        using step Shift by (auto simp: LinkedList_shift_def bind_eq_Some_conv)
      moreover have "left_node (ll_heap s ! Suc (fst x)) (if xs = [] then Alone else AtFront)"
        using ll_rep_node [of s "[]" "Suc (fst x)" "map (\<lambda>x. Suc (fst x)) xs"] nodes(2) Cons by (cases xs) auto
      ultimately show ?thesis
        using ll_left_remove [of s rs "[]" x xs n c D s' rs c "departures_of call (l, n, c)"] left sim Shift Cons spec subset_insertI [of "set c"] by auto
    qed
  next
    case Pop
    show ?thesis
    proof (cases l rule: rev_cases)
      case Nil
      then show ?thesis using Pop LinkedList_pop_rep(1) [OF nodes(2)] spec step left by auto
    next
      case (snoc xs x)
      then have first: "ll_last s = Some (Suc (fst x))" using nodes(2) by (simp add: ll_rep_def)
      then have "LinkedList_remove s (Some (Suc (fst x))) = Some s'" "rs' = rs"
        using step Pop by (auto simp: LinkedList_pop_def bind_eq_Some_conv)
      moreover have "left_node (ll_heap s ! Suc (fst x)) (if xs = [] then Alone else AtEnd)"
        using ll_rep_node [of s "map (\<lambda>x. Suc (fst x)) xs" "Suc (fst x)" "[]"] nodes(2) snoc
        by (cases xs rule: rev_cases) auto
      ultimately show ?thesis
        using ll_left_remove [of s rs xs x "[]" n c D s' rs c "departures_of call (l, n, c)"] left sim Pop snoc spec subset_insertI [of "set c"] by auto
    qed
  next
    case Peek
    then show ?thesis using spec step left by (auto simp: bind_eq_Some_conv)
  next
    case Clear
    then show ?thesis using spec step ll_left_clear [OF left sim] by (auto simp: bind_eq_Some_conv)
  next
    case (Remove k)
    show ?thesis
    proof (cases "k \<in> set c")
      case True
      then have "rm_didRemove (rs ! k)" using sim by (auto simp: ll_sim_def)
      then show ?thesis using True Remove spec step left by (auto simp: LinkedList_call_remover_def split: if_splits)
    next
      case False
      then have k: "k \<in> fst ` set l" "a = (filter (\<lambda>x. fst x \<noteq> k) l, n, k # c)"
        using Remove spec by (auto split: if_splits)
      then obtain xs x ys where l: "l = xs @ x # ys" "fst x = k" by (auto dest: split_list)
      have "\<forall>y\<in>set xs \<union> set ys. k \<noteq> fst y" using nodes(3) l by (auto simp: image_iff)
      then have "\<forall>y\<in>set xs. fst y \<noteq> k" "\<forall>y\<in>set ys. fst y \<noteq> k" by auto
      then have keep: "filter (\<lambda>x. fst x \<noteq> k) l = xs @ ys" using l by simp
      have "k < n" "\<not> rm_didRemove (rs ! k)" "rm_node (rs ! k) = Suc k"
        using k sim False left nodes(4) by (auto simp: ll_sim_def ll_left_def)
      then have "LinkedList_remove s (Some (Suc (fst x))) = Some s'" "\<forall>j<n. rm_node (rs' ! j) = rm_node (rs ! j)"
        using step Remove l by (auto simp: LinkedList_call_remover_def bind_eq_Some_conv nth_list_update split: if_splits)
      then show ?thesis
        using ll_left_remove [of s rs xs x ys n c D s' rs' "k # c" "[]"] left sim l keep k(2) Remove by simp
    qed
  qed
qed

lemma run_calls_left:
  "ll_sim st a \<Longrightarrow> ll_left st a D \<Longrightarrow> run_calls spec_step calls a = Some (vs, a') \<Longrightarrow>
    \<exists>st' D'. run_calls ll_step calls st = Some (vs, st') \<and> ll_sim st' a' \<and> ll_left st' a' D' \<and>
      set D' = set (departures calls a) \<union> set D"
proof (induction calls arbitrary: st a vs D)
  case (Cons call calls)
  obtain v a1 ws where a1: "spec_step call a = Some (v, a1)" "run_calls spec_step calls a1 = Some (ws, a')" "vs = v # ws"
    using Cons.prems(3) by (auto simp: bind_eq_Some_conv)
  obtain s rs l n c where eq: "st = (s, rs)" "a = (l, n, c)" by (cases st; cases a) auto
  obtain s1 rs1 where step: "ll_step call st = Some (v, s1, rs1)" "ll_sim (s1, rs1) a1"
    using ll_step_refines [of s rs l n c call v a1] Cons.prems(1) a1(1) eq by blast
  then have "ll_left (s1, rs1) a1 (departures_of call a @ D)"
    using ll_step_left [of s rs l n c D call v a1 s1 rs1] Cons.prems(1,2) a1(1) eq by blast
  then obtain st' D' where "run_calls ll_step calls (s1, rs1) = Some (ws, st')" "ll_sim st' a'" "ll_left st' a' D'"
    "set D' = set (departures calls a1) \<union> set (departures_of call a @ D)"
    using Cons.IH [OF step(2) _ a1(2)] by blast
  then show ?case using a1 step(1) by (intro exI [of _ st'] exI [of _ D']) auto
qed auto



end
