(* ===== verification/ByteBuffers.thy ===== *)
theory ByteBuffers
  imports TextLengths
begin

text \<open>
  The fixed-width numbers of \<open>vs/base/common/buffer.ts\<close> (\<open>readUInt32BE\<close>, \<open>writeUInt32BE\<close>,
  \<open>readUInt16LE\<close>, \<open>writeUInt16LE\<close>, \<open>readUInt8\<close>, \<open>writeUInt8\<close>, and the little-endian 32-bit pair)
  and \<open>decodeUTF16LE\<close> of \<open>vs/editor/common/core/stringBuilder.ts\<close>, with which the undo stack stores
  its elements.

  A \<open>Uint8Array\<close> is a list of bytes: a store keeps the value modulo 256 and is lost outside the
  array, a load outside the array is \<open>undefined\<close>. In arithmetic \<open>undefined\<close> becomes \<open>NaN\<close>, which is
  \<open>None\<close>; the shift operators read it as 0. \<open>TextDecoder('UTF-16LE')\<close> is the decoder of the Encoding
  Standard: each surrogate without its partner becomes U+FFFD, and a leading byte order mark is
  dropped.
\<close>

unbundle bit_operations_syntax

type_synonym bytes = "8 word list"

section \<open>Numbers\<close>

text \<open>\<open>value >>> 8\<close>.\<close>

definition ushr8 :: "int \<Rightarrow> int" where
  "ushr8 v = drop_bit 8 (v mod 2 ^ 32)"

definition store_byte :: "bytes \<Rightarrow> int \<Rightarrow> int \<Rightarrow> bytes" where
  "store_byte b i v = typed_store b i (word_of_int v)"

definition byte_at :: "bytes \<Rightarrow> int \<Rightarrow> int" where
  "byte_at b i = (case js_get b i of None \<Rightarrow> 0 | Some x \<Rightarrow> uint x)"

definition readUInt16LE :: "bytes \<Rightarrow> int \<Rightarrow> int" where
  "readUInt16LE source offset =
     (byte_at source (offset + 0) OR push_bit 8 (byte_at source (offset + 1)))"

definition writeUInt16LE :: "bytes \<Rightarrow> int \<Rightarrow> int \<Rightarrow> bytes" where
  "writeUInt16LE destination v offset =
     (let d1 = store_byte destination (offset + 0) (v AND 255)
      in store_byte d1 (offset + 1) (ushr8 v AND 255))"

definition readUInt32BE :: "bytes \<Rightarrow> int \<Rightarrow> int option" where
  "readUInt32BE source offset = do {
     b0 \<leftarrow> js_get source offset;
     b1 \<leftarrow> js_get source (offset + 1);
     b2 \<leftarrow> js_get source (offset + 2);
     b3 \<leftarrow> js_get source (offset + 3);
     Some (uint b0 * 2 ^ 24 + uint b1 * 2 ^ 16 + uint b2 * 2 ^ 8 + uint b3)
   }"

definition writeUInt32BE :: "bytes \<Rightarrow> int \<Rightarrow> int \<Rightarrow> bytes" where
  "writeUInt32BE destination v offset =
     (let d3 = store_byte destination (offset + 3) v;
          v2 = ushr8 v; d2 = store_byte d3 (offset + 2) v2;
          v1 = ushr8 v2; d1 = store_byte d2 (offset + 1) v1;
          v0 = ushr8 v1
      in store_byte d1 offset v0)"

text \<open>The shift by 24 can set the sign bit; \<open>>>> 0\<close> makes it unsigned, but \<open>|\<close> is signed again.\<close>

definition readUInt32LE :: "bytes \<Rightarrow> int \<Rightarrow> int" where
  "readUInt32LE source offset =
     toInt32 (byte_at source (offset + 0) OR push_bit 8 (byte_at source (offset + 1)) OR
       push_bit 16 (byte_at source (offset + 2)) OR push_bit 24 (byte_at source (offset + 3)))"

definition writeUInt32LE :: "bytes \<Rightarrow> int \<Rightarrow> int \<Rightarrow> bytes" where
  "writeUInt32LE destination v offset =
     (let d0 = store_byte destination (offset + 0) (v AND 255);
          v1 = ushr8 v; d1 = store_byte d0 (offset + 1) (v1 AND 255);
          v2 = ushr8 v1; d2 = store_byte d1 (offset + 2) (v2 AND 255);
          v3 = ushr8 v2
      in store_byte d2 (offset + 3) (v3 AND 255))"

definition readUInt8 :: "bytes \<Rightarrow> int \<Rightarrow> int option" where
  "readUInt8 source offset = map_option uint (js_get source offset)"

definition writeUInt8 :: "bytes \<Rightarrow> int \<Rightarrow> int \<Rightarrow> bytes" where
  "writeUInt8 destination v offset = store_byte destination offset v"

section \<open>Strings\<close>

text \<open>The UTF-16 decoder of the Encoding Standard, on code units.\<close>

fun utf16_replace_lone :: "js_string \<Rightarrow> js_string" where
  "utf16_replace_lone [] = []"
| "utf16_replace_lone [u] = (if is_high_surrogate u \<or> is_low_surrogate u then [0xFFFD] else [u])"
| "utf16_replace_lone (u # v # s) =
     (if is_high_surrogate u then
        if is_low_surrogate v then u # v # utf16_replace_lone s else 0xFFFD # utf16_replace_lone (v # s)
      else if is_low_surrogate u then 0xFFFD # utf16_replace_lone (v # s)
      else u # utf16_replace_lone (v # s))"

definition TextDecoder_decode :: "js_string \<Rightarrow> js_string" where
  "TextDecoder_decode view =
     utf16_replace_lone (case view of [] \<Rightarrow> [] | u # us \<Rightarrow> if u = 0xFEFF then us else view)"

text \<open>
  \<open>new Uint16Array(source.buffer, offset, len)\<close> on a little-endian machine, for a source that starts
  at the start of its buffer: a view of the elements, which needs an even offset and room.
\<close>

definition uint16_view :: "bytes \<Rightarrow> int \<Rightarrow> int \<Rightarrow> js_string option" where
  "uint16_view source offset len =
     (if offset < 0 \<or> offset mod 2 \<noteq> 0 \<or> offset + 2 * len > ilen source then None
      else Some (map (\<lambda>i. word_of_int (byte_at source (offset + 2 * i) + 256 * byte_at source (offset + 2 * i + 1)))
             [0 .. len - 1]))"

function compatDecodeUTF16LE_loop :: "bytes \<Rightarrow> int \<Rightarrow> int \<Rightarrow> int \<Rightarrow> js_string \<Rightarrow> js_string" where
  "compatDecodeUTF16LE_loop source offset len i result =
     (if i < len then
        let charCode = readUInt16LE source offset
        in compatDecodeUTF16LE_loop source (offset + 2) len (i + 1) (result @ [word_of_int charCode])
      else result)"
  by pat_completeness auto
termination by (relation "measure (\<lambda>(source, offset, len, i, result). nat (len - i))") auto

declare compatDecodeUTF16LE_loop.simps [simp del]

definition compatDecodeUTF16LE :: "bytes \<Rightarrow> int \<Rightarrow> int \<Rightarrow> js_string" where
  "compatDecodeUTF16LE source offset len = compatDecodeUTF16LE_loop source offset len 0 []"

definition decodeUTF16LE :: "bytes \<Rightarrow> int \<Rightarrow> int \<Rightarrow> js_string option" where
  "decodeUTF16LE source offset len = do {
     view \<leftarrow> uint16_view source offset len;
     (if len > 0 \<and> (hd view = 0xFEFF \<or> hd view = 0xFFFE)
      then Some (compatDecodeUTF16LE source offset len)
      else Some (TextDecoder_decode view))
   }"

section \<open>Writing\<close>

text \<open>\<open>patched b n xs\<close> is \<open>b\<close> with \<open>xs\<close> at \<open>n\<close>; the writers patch, and patches in a row are one.\<close>

definition patched :: "bytes \<Rightarrow> nat \<Rightarrow> bytes \<Rightarrow> bytes" where
  "patched b n xs = take n b @ xs @ drop (n + length xs) b"

lemma length_patched [simp]: "n + length xs \<le> length b \<Longrightarrow> length (patched b n xs) = length b"
  by (simp add: patched_def)

lemma patched_Nil [simp]: "patched b n [] = b"
  by (simp add: patched_def)

lemma patched_patched:
  "n + length xs \<le> length b \<Longrightarrow> m = n + length xs \<Longrightarrow> patched (patched b n xs) m ys = patched b n (xs @ ys)"
  by (simp add: patched_def ac_simps)

lemma patched_all: "length xs = length b \<Longrightarrow> patched b 0 xs = xs"
  by (simp add: patched_def)

lemma store_byte_patched:
  "i = int n \<Longrightarrow> n < length b \<Longrightarrow> store_byte b i v = patched b n [word_of_int v]"
  by (simp add: store_byte_def typed_store_def patched_def upd_conv_take_nth_drop)

lemma store_byte_before:
  "i = int n \<Longrightarrow> n + 1 + length xs \<le> length b \<Longrightarrow>
    store_byte (patched b (Suc n) xs) i v = patched b n (word_of_int v # xs)"
  by (simp add: store_byte_def typed_store_def patched_def take_Suc_conv_app_nth list_update_append)

lemma store_byte_after:
  "i = int n + ilen xs \<Longrightarrow> n + length xs < length b \<Longrightarrow>
    store_byte (patched b n xs) i v = patched b n (xs @ [word_of_int v])"
  by (subst store_byte_patched [of i "n + length xs"]) (simp_all add: patched_patched)

lemma ushr8_eq: "ushr8 v = v mod 2 ^ 32 div 2 ^ 8"
  by (simp add: ushr8_def drop_bit_eq_div)

definition bytesUInt32BE :: "int \<Rightarrow> bytes" where
  "bytesUInt32BE v = map (\<lambda>k. word_of_int (v div 2 ^ k)) [24, 16, 8, 0]"

definition bytesUInt16LE :: "int \<Rightarrow> bytes" where
  "bytesUInt16LE v = [word_of_int v, word_of_int (v div 2 ^ 8)]"

lemma length_bytesUInt [simp]: "length (bytesUInt32BE v) = 4" "length (bytesUInt16LE v) = 2"
  by (simp_all add: bytesUInt32BE_def bytesUInt16LE_def)

definition uint32 :: "int \<Rightarrow> bool" where "uint32 v \<longleftrightarrow> 0 \<le> v \<and> v < 2 ^ 32"

lemma ushr8_uint32: "uint32 v \<Longrightarrow> ushr8 v = v div 2 ^ 8 \<and> uint32 (v div 2 ^ 8)"
  by (auto simp: ushr8_eq uint32_def)

lemma ushr8_uint32_twice:
  assumes "uint32 v"
  shows "ushr8 v = v div 2 ^ 8" "ushr8 (v div 2 ^ 8) = v div 2 ^ 16" "ushr8 (v div 2 ^ 16) = v div 2 ^ 24"
proof -
  have u1: "uint32 (v div 2 ^ 8)" using ushr8_uint32 [OF assms] by auto
  have u2: "uint32 (v div 2 ^ 16)" using ushr8_uint32 [OF u1] by (auto simp: zdiv_zmult2_eq [symmetric])
  show "ushr8 v = v div 2 ^ 8" "ushr8 (v div 2 ^ 8) = v div 2 ^ 16" "ushr8 (v div 2 ^ 16) = v div 2 ^ 24"
    using ushr8_uint32 [OF assms] ushr8_uint32 [OF u1] ushr8_uint32 [OF u2]
    by (auto simp: zdiv_zmult2_eq [symmetric])
qed

lemma writeUInt32BE_patched:
  assumes "uint32 v" "i = int n" "n + 4 \<le> length b"
  shows "writeUInt32BE b v i = patched b n (bytesUInt32BE v)"
proof -
  note u = ushr8_uint32_twice [OF assms(1)]
  have "store_byte b (i + 3) v = patched b (Suc (Suc (Suc n))) [word_of_int v]"
    using assms by (intro store_byte_patched) auto
  then show ?thesis
    using assms by (simp add: writeUInt32BE_def Let_def u [simplified]
      store_byte_before bytesUInt32BE_def)
qed

lemma word_of_int_and_255: "word_of_int (v AND 255) = (word_of_int v :: 8 word)"
proof -
  have "v AND 255 = v mod 2 ^ 8" using take_bit_eq_mask [of 8 v] by (simp add: take_bit_eq_mod mask_eq_exp_minus_1)
  then show ?thesis by (simp add: word_of_int_eq_iff take_bit_eq_mod)
qed

lemma writeUInt16LE_patched:
  assumes "uint32 v" "i = int n" "n + 2 \<le> length b"
  shows "writeUInt16LE b v i = patched b n (bytesUInt16LE v)"
proof -
  have "store_byte b i (v AND 255) = patched b n [word_of_int v]"
    using assms by (subst store_byte_patched [of i n]) (simp_all add: word_of_int_and_255)
  then show ?thesis
    using assms ushr8_uint32 [OF assms(1)]
    by (simp add: writeUInt16LE_def Let_def word_of_int_and_255 store_byte_after bytesUInt16LE_def)
qed

definition bytesUInt32LE :: "int \<Rightarrow> bytes" where
  "bytesUInt32LE v = map (\<lambda>k. word_of_int (v div 2 ^ k)) [0, 8, 16, 24]"

lemma length_bytesUInt32LE [simp]: "length (bytesUInt32LE v) = 4"
  by (simp add: bytesUInt32LE_def)

lemma writeUInt32LE_patched:
  assumes "uint32 v" "i = int n" "n + 4 \<le> length b"
  shows "writeUInt32LE b v i = patched b n (bytesUInt32LE v)"
proof -
  note u = ushr8_uint32_twice [OF assms(1)]
  have "store_byte b i (v AND 255) = patched b n [word_of_int v]"
    using assms by (subst store_byte_patched [of i n]) (simp_all add: word_of_int_and_255)
  then show ?thesis
    using assms by (simp add: writeUInt32LE_def Let_def u [simplified] word_of_int_and_255
      store_byte_after bytesUInt32LE_def)
qed

section \<open>Reading\<close>

lemma js_get_at: "i = ilen pre \<Longrightarrow> js_get (pre @ x # post) i = Some x"
  by (simp add: js_get_def)

lemma div_digit: "(v :: int) div 2 ^ k = v div 2 ^ (k + 8) * 2 ^ 8 + v div 2 ^ k mod 2 ^ 8"
  using div_mult_mod_eq [of "v div 2 ^ k" "2 ^ 8"] by (simp add: zdiv_zmult2_eq power_add)

lemma digits_sum:
  assumes "(v :: int) = v1 * 2 ^ 8 + d0" "v1 = v2 * 2 ^ 8 + d1" "v2 = v3 * 2 ^ 8 + d2" "v3 = d3"
  shows "d3 * 2 ^ 24 + d2 * 2 ^ 16 + d1 * 2 ^ 8 + d0 = v"
  using assms by simp

lemma uint32_digits:
  assumes "uint32 v"
  shows "v div 2 ^ 24 mod 2 ^ 8 * 2 ^ 24 + v div 2 ^ 16 mod 2 ^ 8 * 2 ^ 16 + v div 2 ^ 8 mod 2 ^ 8 * 2 ^ 8 + v mod 2 ^ 8 = v"
proof (rule digits_sum)
  show "v = v div 2 ^ 8 * 2 ^ 8 + v mod 2 ^ 8" by (rule div_mult_mod_eq [symmetric])
  show "v div 2 ^ 8 = v div 2 ^ 16 * 2 ^ 8 + v div 2 ^ 8 mod 2 ^ 8" using div_digit [of v 8] by (simp only: numeral_plus_numeral Num.arith_simps)
  show "v div 2 ^ 16 = v div 2 ^ 24 * 2 ^ 8 + v div 2 ^ 16 mod 2 ^ 8" using div_digit [of v 16] by (simp only: numeral_plus_numeral Num.arith_simps)
  have "v div 2 ^ 24 < 2 ^ 8" "0 \<le> v div 2 ^ 24"
    using assms by (auto simp: uint32_def intro: div_less_iff_less_mult [THEN iffD2])
  then show "v div 2 ^ 24 = v div 2 ^ 24 mod 2 ^ 8" by (simp only: mod_pos_pos_trivial)
qed

lemma readUInt32BE_at:
  assumes "uint32 v" "i = ilen pre"
  shows "readUInt32BE (pre @ bytesUInt32BE v @ post) i = Some v"
proof -
  have get: "js_get (pre @ [a, b, c, d] @ post) i = Some a" "js_get (pre @ [a, b, c, d] @ post) (i + 1) = Some b"
    "js_get (pre @ [a, b, c, d] @ post) (i + 2) = Some c" "js_get (pre @ [a, b, c, d] @ post) (i + 3) = Some d"
    for a b c d :: "8 word"
    using assms(2) js_get_at [of i pre a] js_get_at [of "i + 1" "pre @ [a]" b]
      js_get_at [of "i + 2" "pre @ [a, b]" c] js_get_at [of "i + 3" "pre @ [a, b, c]" d] by simp_all
  have byte: "uint (word_of_int x :: 8 word) = x mod 2 ^ 8" for x
    by (simp add: uint_word_of_int)
  show ?thesis
    unfolding readUInt32BE_def bytesUInt32BE_def list.map get Option.bind.bind_lunit byte
    using uint32_digits [OF assms(1)] by (simp only: div_by_1 power_0)
qed

lemma readUInt8_at:
  assumes "0 \<le> v" "v < 256" "i = ilen pre"
  shows "readUInt8 (pre @ word_of_int v # post) i = Some v"
  using assms by (simp add: readUInt8_def js_get_at uint_word_of_int)

text \<open>The bytes of a text: two for each code unit, the low one first.\<close>

definition bytesUTF16LE :: "js_string \<Rightarrow> bytes" where
  "bytesUTF16LE s = concat (map (\<lambda>u. bytesUInt16LE (uint u)) s)"

lemma bytesUTF16LE_simps [simp]:
  "bytesUTF16LE [] = []" "bytesUTF16LE (u # s) = bytesUInt16LE (uint u) @ bytesUTF16LE s"
  "bytesUTF16LE (s @ t) = bytesUTF16LE s @ bytesUTF16LE t"
  by (simp_all add: bytesUTF16LE_def)

lemma length_bytesUTF16LE [simp]: "length (bytesUTF16LE s) = 2 * length s"
  by (induction s) simp_all

lemma byte_at_simps:
  "i = ilen pre \<Longrightarrow> byte_at (pre @ x # post) i = uint x"
  by (simp add: byte_at_def js_get_at)

lemma unit_of_bytes:
  "word_of_int (uint (word_of_int (uint u) :: 8 word) + 256 * uint (word_of_int (uint u div 2 ^ 8) :: 8 word)) = (u :: code_unit)"
proof -
  have "uint u div 2 ^ 8 < 2 ^ 8" "0 \<le> uint u div 2 ^ 8"
    using uint_lt2p [of u] by (auto simp: div_less_iff_less_mult pos_imp_zdiv_nonneg_iff)
  then have "uint (word_of_int (uint u div 2 ^ 8) :: 8 word) = uint u div 2 ^ 8"
    by (simp add: uint_word_of_int)
  moreover have "uint (word_of_int (uint u) :: 8 word) = uint u mod 2 ^ 8"
    unfolding uint_word_of_int by simp
  moreover have "uint u mod 2 ^ 8 + 256 * (uint u div 2 ^ 8) = uint u" by simp
  ultimately show ?thesis by simp
qed

lemma or_shift: "0 \<le> a \<Longrightarrow> a < 2 ^ k \<Longrightarrow> a OR push_bit k b = a + 2 ^ k * (b :: int)"
proof -
  assume "0 \<le> a" "a < 2 ^ k"
  then have a: "take_bit k a = a" by (simp add: take_bit_int_eq_self_iff)
  have "a AND push_bit k b = 0"
    by (subst a [symmetric], rule bit_eqI) (auto simp: bit_simps)
  then show ?thesis by (simp add: disjunctive_add_eq_or [symmetric] push_bit_eq_mult)
qed

lemma or_bytes:
  assumes "0 \<le> a" "a < 2 ^ 8" "0 \<le> b" "b < 2 ^ 8" "0 \<le> c" "c < 2 ^ 8"
  shows "a OR push_bit 8 b OR push_bit 16 c OR push_bit 24 d = a + 2 ^ 8 * b + 2 ^ 16 * c + 2 ^ 24 * (d :: int)"
proof -
  have ab: "a OR push_bit 8 b = a + 2 ^ 8 * b" using assms by (intro or_shift) auto
  have abc: "(a + 2 ^ 8 * b) OR push_bit 16 c = a + 2 ^ 8 * b + 2 ^ 16 * c" using assms by (intro or_shift) auto
  have "(a + 2 ^ 8 * b + 2 ^ 16 * c) OR push_bit 24 d = a + 2 ^ 8 * b + 2 ^ 16 * c + 2 ^ 24 * d"
    using assms by (intro or_shift) auto
  then show ?thesis unfolding or.assoc [symmetric] ab abc .
qed

lemma readUInt16LE_value:
  assumes "0 \<le> v" "v < 2 ^ 16" "i = ilen pre"
  shows "readUInt16LE (pre @ bytesUInt16LE v @ post) i = v"
proof -
  have "byte_at (pre @ bytesUInt16LE v @ post) i = v mod 2 ^ 8"
    "byte_at (pre @ bytesUInt16LE v @ post) (i + 1) = v div 2 ^ 8 mod 2 ^ 8"
    using assms(3) byte_at_simps [of i pre] byte_at_simps [of "i + 1" "pre @ [word_of_int v]"]
    unfolding bytesUInt16LE_def by (simp_all add: uint_word_of_int)
  moreover have "v div 2 ^ 8 mod 2 ^ 8 = v div 2 ^ 8"
    using assms by (intro mod_pos_pos_trivial) (auto simp: div_less_iff_less_mult pos_imp_zdiv_nonneg_iff)
  ultimately show ?thesis by (simp add: readUInt16LE_def or_shift)
qed

lemma readUInt16LE_at:
  "i = ilen pre \<Longrightarrow> word_of_int (readUInt16LE (pre @ bytesUInt16LE (uint u) @ post) i) = (u :: code_unit)"
  using uint_lt2p [of u] by (simp add: readUInt16LE_value)

lemma readUInt32LE_at:
  assumes "uint32 v" "i = ilen pre"
  shows "readUInt32LE (pre @ bytesUInt32LE v @ post) i = toInt32 v"
proof -
  let ?w = "\<lambda>k. word_of_int (v div 2 ^ k) :: 8 word"
  have get: "byte_at (pre @ [a, b, c, d] @ post) i = uint a" "byte_at (pre @ [a, b, c, d] @ post) (i + 1) = uint b"
    "byte_at (pre @ [a, b, c, d] @ post) (i + 2) = uint c" "byte_at (pre @ [a, b, c, d] @ post) (i + 3) = uint d"
    for a b c d :: "8 word"
    using assms(2) byte_at_simps [of i pre a] byte_at_simps [of "i + 1" "pre @ [a]" b]
      byte_at_simps [of "i + 2" "pre @ [a, b]" c] byte_at_simps [of "i + 3" "pre @ [a, b, c]" d] by simp_all
  have byte: "uint (word_of_int x :: 8 word) = x mod 2 ^ 8" for x
    unfolding uint_word_of_int by simp
  have range: "0 \<le> x mod 2 ^ 8" "x mod 2 ^ 8 < 2 ^ 8" for x :: int by simp_all
  have "v mod 2 ^ 8 + 2 ^ 8 * (v div 2 ^ 8 mod 2 ^ 8) + 2 ^ 16 * (v div 2 ^ 16 mod 2 ^ 8) +
      2 ^ 24 * (v div 2 ^ 24 mod 2 ^ 8) = v"
    using uint32_digits [OF assms(1)] by (simp only: ac_simps)
  then show ?thesis
    unfolding readUInt32LE_def bytesUInt32LE_def list.map add_0_right get byte or_bytes [OF range range range]
    by (simp only: power_0 div_by_1)
qed

lemma uint16_view_at:
  assumes "i = ilen pre" "even (length pre)"
  shows "uint16_view (pre @ bytesUTF16LE s @ post) i (ilen s) = Some s"
proof -
  have unit: "word_of_int (byte_at (pre @ bytesUTF16LE s @ post) (i + 2 * int k) +
      256 * byte_at (pre @ bytesUTF16LE s @ post) (i + 2 * int k + 1)) = s ! k" if "k < length s" for k
  proof -
    have s: "s = take k s @ s ! k # drop (Suc k) s" using that by (rule id_take_nth_drop)
    let ?pre = "pre @ bytesUTF16LE (take k s)" and ?post = "bytesUTF16LE (drop (Suc k) s) @ post"
    have b: "pre @ bytesUTF16LE s @ post = ?pre @ word_of_int (uint (s ! k)) # word_of_int (uint (s ! k) div 2 ^ 8) # ?post"
      by (subst s) (simp add: bytesUInt16LE_def)
    have p: "i + 2 * int k = ilen ?pre" using assms(1) that by simp
    show ?thesis
      unfolding b using byte_at_simps [OF p] byte_at_simps [of "i + 2 * int k + 1" "?pre @ [word_of_int (uint (s ! k))]"] p
      using unit_of_bytes [of "s ! k"] by simp
  qed
  then show ?thesis
    using assms by (auto simp: uint16_view_def zmod_int [symmetric] intro!: nth_equalityI)
qed

lemma compatDecodeUTF16LE_loop_at:
  assumes "i = ilen pre" "len = j + ilen s"
  shows "compatDecodeUTF16LE_loop (pre @ bytesUTF16LE s @ post) i len j result = result @ s"
  using assms
proof (induction s arbitrary: pre i j result)
  case Nil
  then show ?case by (simp add: compatDecodeUTF16LE_loop.simps)
next
  case (Cons u s)
  let ?b = "pre @ bytesUInt16LE (uint u) @ bytesUTF16LE s @ post"
  have "compatDecodeUTF16LE_loop ?b (i + 2) len (j + 1) (result @ [u]) = (result @ [u]) @ s"
    using Cons.IH [of "i + 2" "pre @ bytesUInt16LE (uint u)" "j + 1"] Cons.prems by simp
  then show ?case
    using Cons.prems readUInt16LE_at [of i pre u "bytesUTF16LE s @ post"]
    by (subst compatDecodeUTF16LE_loop.simps) simp
qed

text \<open>What \<open>decodeUTF16LE\<close> makes of a text that was written unit by unit.\<close>

definition decoded :: "js_string \<Rightarrow> js_string" where
  "decoded s = (if s \<noteq> [] \<and> (hd s = 0xFEFF \<or> hd s = 0xFFFE) then s else utf16_replace_lone s)"

lemma decodeUTF16LE_at:
  assumes "i = ilen pre" "even (length pre)"
  shows "decodeUTF16LE (pre @ bytesUTF16LE s @ post) i (ilen s) = Some (decoded s)"
  using uint16_view_at [OF assms] compatDecodeUTF16LE_loop_at [OF assms(1), of "ilen s" 0]
  by (auto simp: decodeUTF16LE_def decoded_def TextDecoder_decode_def compatDecodeUTF16LE_def
    split: list.splits)

lemma length_replace_lone [simp]: "length (utf16_replace_lone s) = length s"
  by (induction s rule: utf16_replace_lone.induct) auto

lemma length_decoded [simp]: "length (decoded s) = length s"
  by (simp add: decoded_def)

text \<open>The texts in which every surrogate has its partner.\<close>

fun utf16_well_formed :: "js_string \<Rightarrow> bool" where
  "utf16_well_formed [] = True"
| "utf16_well_formed [u] = (\<not> is_high_surrogate u \<and> \<not> is_low_surrogate u)"
| "utf16_well_formed (u # v # s) =
     (if is_high_surrogate u then is_low_surrogate v \<and> utf16_well_formed s
      else \<not> is_low_surrogate u \<and> utf16_well_formed (v # s))"

lemma replacement_no_surrogate [simp]: "\<not> is_high_surrogate 0xFFFD" "\<not> is_low_surrogate 0xFFFD"
  by (simp_all add: is_high_surrogate_def is_low_surrogate_def)

lemma replace_lone_id_iff: "utf16_replace_lone s = s \<longleftrightarrow> utf16_well_formed s"
  by (induction s rule: utf16_replace_lone.induct) auto

lemma replace_lone_well_formed: "utf16_well_formed (utf16_replace_lone s)"
proof (induction s rule: utf16_replace_lone.induct)
  case (3 u v s)
  have plain: "utf16_well_formed (w # t) \<longleftrightarrow> utf16_well_formed t"
    if "\<not> is_high_surrogate w" "\<not> is_low_surrogate w" for w t
    using that by (cases t) auto
  show ?case using 3 by (auto simp: plain)
qed auto

section \<open>Properties\<close>

lemma js_get_patched:
  "n + length xs \<le> length b \<Longrightarrow> \<not> (int n \<le> j \<and> j < int n + ilen xs) \<Longrightarrow> js_get (patched b n xs) j = js_get b j"
  by (auto simp: js_get_def patched_def nth_append)

lemma toInt32_uint32: "uint32 v \<Longrightarrow> toInt32 v = (if v < 2 ^ 31 then v else v - 2 ^ 32)"
proof (cases "v < 2 ^ 31")
  case False
  assume "uint32 v"
  then have "(v - 2 ^ 31) mod 2 ^ 32 = v - 2 ^ 31" using False by (simp add: uint32_def)
  moreover have "(v + 2 ^ 31) mod 2 ^ 32 = (v - 2 ^ 31) mod 2 ^ 32"
    using mod_add_self2 [of "v - 2 ^ 31" "2 ^ 32"] by (simp add: add.commute)
  ultimately show ?thesis using False by (simp add: toInt32_def)
qed (simp add: toInt32_def uint32_def)

lemma patched_reads:
  assumes "uint32 v" "n + 4 \<le> length b"
  shows "readUInt32BE (patched b n (bytesUInt32BE v)) (int n) = Some v"
    and "readUInt32LE (patched b n (bytesUInt32LE v)) (int n) = toInt32 v"
    and "v < 2 ^ 16 \<Longrightarrow> readUInt16LE (patched b n (bytesUInt16LE v)) (int n) = v"
  unfolding patched_def using assms
  by (simp_all add: readUInt32BE_at readUInt32LE_at readUInt16LE_value uint32_def)

text \<open>
  C31. A number that a writer of \<open>buffer.ts\<close> stored is what its reader loads, and nothing else in the
  buffer changes: for 32 bits with the most significant byte first, and for 16 bits. The
  little-endian pair for 32 bits agrees only below \<open>2 ^ 31\<close>: \<open>readUInt32LE\<close> combines its bytes with
  \<open>|\<close>, whose result is a signed number, so that it returns \<open>v - 2 ^ 32\<close> from there on.
\<close>

theorem buffer_numbers_roundtrip:
  assumes "0 \<le> v" "v < 2 ^ 32" "0 \<le> u" "u < 2 ^ 16" "0 \<le> i" "i + 4 \<le> ilen b"
  shows "readUInt32BE (writeUInt32BE b v i) i = Some v \<and>
    readUInt16LE (writeUInt16LE b u i) i = u \<and>
    readUInt32LE (writeUInt32LE b v i) i = (if v < 2 ^ 31 then v else v - 2 ^ 32) \<and>
    (\<forall>j. \<not> (i \<le> j \<and> j < i + 4) \<longrightarrow> js_get (writeUInt32BE b v i) j = js_get b j \<and>
       js_get (writeUInt32LE b v i) j = js_get b j) \<and>
    (\<forall>j. \<not> (i \<le> j \<and> j < i + 2) \<longrightarrow> js_get (writeUInt16LE b u i) j = js_get b j) \<and>
    ilen (writeUInt32BE b v i) = ilen b \<and> ilen (writeUInt32LE b v i) = ilen b \<and>
    ilen (writeUInt16LE b u i) = ilen b"
proof -
  obtain n where i: "i = int n" using assms(5) by (rule nonneg_int_cases)
  have n: "n + 4 \<le> length b" using assms(6) i by simp
  have v: "uint32 v" and u: "uint32 u" using assms by (simp_all add: uint32_def)
  have w: "writeUInt32BE b v i = patched b n (bytesUInt32BE v)" "writeUInt16LE b u i = patched b n (bytesUInt16LE u)"
    "writeUInt32LE b v i = patched b n (bytesUInt32LE v)"
    using v u n by (simp_all add: i writeUInt32BE_patched writeUInt16LE_patched writeUInt32LE_patched)
  have "js_get (patched b n (bytesUInt16LE u)) j = js_get b j" if "\<not> (int n \<le> j \<and> j < int n + 2)" for j
    using that n by (intro js_get_patched) (auto simp: bytesUInt16LE_def)
  then show ?thesis
    unfolding w unfolding i
    using v u n assms(4) patched_reads [OF v n] patched_reads(3) [OF u n] toInt32_uint32 [OF v]
    by (simp add: js_get_patched)
qed

theorem buffer_numbers_roundtrip_witness:
  "readUInt32BE (writeUInt32BE (replicate 6 7) 4000000000 1) 1 = Some 4000000000 \<and>
    readUInt32LE (writeUInt32LE (replicate 6 7) 4000000000 1) 1 = - 294967296"
  using buffer_numbers_roundtrip [of 4000000000 65535 1 "replicate 6 7"] by simp

text \<open>
  A text of which the code units were written one by one comes back from \<open>decodeUTF16LE\<close> with the
  same length, so that the offsets behind it stay right, and unchanged if every surrogate has its
  partner or the text begins with a byte order mark, which is kept. Otherwise each surrogate
  without a partner has become U+FFFD, and the text that comes back is another one. An odd offset
  throws.
\<close>

theorem decodeUTF16LE_written:
  assumes "i = ilen pre"
  shows "decodeUTF16LE (pre @ bytesUTF16LE s @ post) i (ilen s) =
      (if odd i then None else if s \<noteq> [] \<and> (hd s = 0xFEFF \<or> hd s = 0xFFFE) then Some s
       else Some (utf16_replace_lone s)) \<and>
    length (utf16_replace_lone s) = length s \<and> (utf16_replace_lone s = s \<longleftrightarrow> utf16_well_formed s) \<and>
    utf16_well_formed (utf16_replace_lone s)"
proof -
  have "decodeUTF16LE (pre @ bytesUTF16LE s @ post) i (ilen s) = (if odd i then None else Some (decoded s))"
  proof (cases "odd i")
    case True
    then have "i mod 2 \<noteq> 0" by presburger
    then show ?thesis using True by (simp add: decodeUTF16LE_def uint16_view_def)
  qed (use decodeUTF16LE_at [OF assms] assms in simp)
  then show ?thesis
    by (simp add: decoded_def replace_lone_id_iff replace_lone_well_formed)
qed

theorem decodeUTF16LE_written_witness:
  "decodeUTF16LE ([0, 0] @ bytesUTF16LE [0x61, 0xD83D] @ []) 2 2 = Some [0x61, 0xFFFD]"
  using decodeUTF16LE_written [of 2 "[0, 0]" "[0x61, 0xD83D]" "[]"]
  by (simp add: is_high_surrogate_def is_low_surrogate_def)

end
