(* ===== verification/TextChanges.thy ===== *)
theory TextChanges
  imports ByteBuffers
begin

text \<open>
  \<open>vs/editor/common/core/textChange.ts\<close>: the text changes that the undo stack keeps, and
  \<open>compressConsecutiveTextChanges\<close>, which makes one batch of changes out of two consecutive ones.

  A change records the replaced text and its place before the batch, and the new text with its
  place after the batch. What a batch means is the relation \<open>changes es a b xs ys\<close>: from the old
  offset \<open>a\<close> and the new offset \<open>b\<close> on, it turns the text \<open>xs\<close> into \<open>ys\<close>. The relation is symmetric,
  so that a batch can be undone as well as redone.
\<close>

section \<open>TextChange\<close>

datatype text_change = MkTextChange
  (tch_oldPosition: int) (tch_oldText: js_string) (tch_newPosition: int) (tch_newText: js_string)

definition TextChange_oldLength :: "text_change \<Rightarrow> int" where
  "TextChange_oldLength e = ilen (tch_oldText e)"

definition TextChange_oldEnd :: "text_change \<Rightarrow> int" where
  "TextChange_oldEnd e = tch_oldPosition e + ilen (tch_oldText e)"

definition TextChange_newLength :: "text_change \<Rightarrow> int" where
  "TextChange_newLength e = ilen (tch_newText e)"

definition TextChange_newEnd :: "text_change \<Rightarrow> int" where
  "TextChange_newEnd e = tch_newPosition e + ilen (tch_newText e)"

lemmas TextChange_lengths =
  TextChange_oldLength_def TextChange_oldEnd_def TextChange_newLength_def TextChange_newEnd_def

text \<open>
  The binary form of a change. A write returns the buffer and the offset behind what it wrote; a
  read returns the change, which the caller pushes on its list, and the offset behind it. Reading
  beyond the buffer yields \<open>NaN\<close> in the code, which goes on with it; here it is \<open>None\<close>, like the
  \<open>RangeError\<close> of an ill-placed view.
\<close>

definition TextChange_writeStringSize :: "js_string \<Rightarrow> int" where
  "TextChange_writeStringSize str = 4 + 2 * ilen str"

fun writeString_loop :: "bytes \<Rightarrow> js_string \<Rightarrow> int \<Rightarrow> bytes \<times> int" where
  "writeString_loop b [] offset = (b, offset)"
| "writeString_loop b (u # us) offset = writeString_loop (writeUInt16LE b (uint u) offset) us (offset + 2)"

definition TextChange_writeString :: "bytes \<Rightarrow> js_string \<Rightarrow> int \<Rightarrow> bytes \<times> int" where
  "TextChange_writeString b str offset = writeString_loop (writeUInt32BE b (ilen str) offset) str (offset + 4)"

definition TextChange_readString :: "bytes \<Rightarrow> int \<Rightarrow> js_string option" where
  "TextChange_readString b offset = do { len \<leftarrow> readUInt32BE b offset; decodeUTF16LE b (offset + 4) len }"

definition TextChange_writeSize :: "text_change \<Rightarrow> int" where
  "TextChange_writeSize e = 4 + 4 + TextChange_writeStringSize (tch_oldText e) + TextChange_writeStringSize (tch_newText e)"

definition TextChange_write :: "text_change \<Rightarrow> bytes \<Rightarrow> int \<Rightarrow> bytes \<times> int" where
  "TextChange_write e b offset =
     (let b1 = writeUInt32BE b (tch_oldPosition e) offset;
          b2 = writeUInt32BE b1 (tch_newPosition e) (offset + 4);
          (b3, offset3) = TextChange_writeString b2 (tch_oldText e) (offset + 4 + 4)
      in TextChange_writeString b3 (tch_newText e) offset3)"

definition TextChange_read :: "bytes \<Rightarrow> int \<Rightarrow> (text_change \<times> int) option" where
  "TextChange_read b offset = do {
     oldPosition \<leftarrow> readUInt32BE b offset;
     newPosition \<leftarrow> readUInt32BE b (offset + 4);
     oldText \<leftarrow> TextChange_readString b (offset + 8);
     let offset2 = offset + 8 + TextChange_writeStringSize oldText;
     newText \<leftarrow> TextChange_readString b offset2;
     Some (MkTextChange oldPosition oldText newPosition newText, offset2 + TextChange_writeStringSize newText)
   }"

section \<open>TextChangeCompressor\<close>

text \<open>
  The compressor walks over both batches. \<open>prevEdit\<close> and the previous edits after \<open>prevIndex\<close> are
  one list, whose head a split replaces; likewise for the current edits. \<open>substr\<close> is only called
  with offsets that are not negative.
\<close>

definition rebaseCurr :: "int \<Rightarrow> text_change \<Rightarrow> text_change" where
  "rebaseCurr prevDeltaOffset e =
     MkTextChange (tch_oldPosition e - prevDeltaOffset) (tch_oldText e) (tch_newPosition e) (tch_newText e)"

definition rebasePrev :: "int \<Rightarrow> text_change \<Rightarrow> text_change" where
  "rebasePrev currDeltaOffset e =
     MkTextChange (tch_oldPosition e) (tch_oldText e) (tch_newPosition e + currDeltaOffset) (tch_newText e)"

definition splitPrev :: "text_change \<Rightarrow> int \<Rightarrow> text_change \<times> text_change" where
  "splitPrev e offset =
     (let preText = itake offset (tch_newText e); postText = idrop offset (tch_newText e)
      in (MkTextChange (tch_oldPosition e) (tch_oldText e) (tch_newPosition e) preText,
          MkTextChange (TextChange_oldEnd e) [] (tch_newPosition e + offset) postText))"

definition splitCurr :: "text_change \<Rightarrow> int \<Rightarrow> text_change \<times> text_change" where
  "splitCurr e offset =
     (let preText = itake offset (tch_oldText e); postText = idrop offset (tch_oldText e)
      in (MkTextChange (tch_oldPosition e) preText (tch_newPosition e) (tch_newText e),
          MkTextChange (tch_oldPosition e + offset) postText (TextChange_newEnd e) []))"

definition mergeTwo :: "text_change \<Rightarrow> text_change \<Rightarrow> text_change" where
  "mergeTwo mergePrev mergeCurr =
     MkTextChange (tch_oldPosition mergePrev) (tch_oldText mergePrev) (tch_newPosition mergeCurr) (tch_newText mergeCurr)"

definition change_delta :: "text_change \<Rightarrow> int" where
  "change_delta e = TextChange_newLength e - TextChange_oldLength e"

function compress_loop ::
    "text_change list \<Rightarrow> text_change list \<Rightarrow> int \<Rightarrow> int \<Rightarrow> text_change list \<Rightarrow> text_change list" where
  "compress_loop [] [] prevDelta currDelta result = result"
| "compress_loop [] (c # cs) prevDelta currDelta result =
     compress_loop [] cs prevDelta (currDelta + change_delta c) (result @ [rebaseCurr prevDelta c])"
| "compress_loop (p # ps) [] prevDelta currDelta result =
     compress_loop ps [] (prevDelta + change_delta p) currDelta (result @ [rebasePrev currDelta p])"
| "compress_loop (p # ps) (c # cs) prevDelta currDelta result =
     (if TextChange_oldEnd c \<le> tch_newPosition p then
        compress_loop (p # ps) cs prevDelta (currDelta + change_delta c) (result @ [rebaseCurr prevDelta c])
      else if TextChange_newEnd p \<le> tch_oldPosition c then
        compress_loop ps (c # cs) (prevDelta + change_delta p) currDelta (result @ [rebasePrev currDelta p])
      else if tch_oldPosition c < tch_newPosition p then
        let (e1, e2) = splitCurr c (tch_newPosition p - tch_oldPosition c)
        in compress_loop (p # ps) (e2 # cs) prevDelta (currDelta + change_delta e1) (result @ [rebaseCurr prevDelta e1])
      else if tch_newPosition p < tch_oldPosition c then
        let (e1, e2) = splitPrev p (tch_oldPosition c - tch_newPosition p)
        in compress_loop (e2 # ps) (c # cs) (prevDelta + change_delta e1) currDelta (result @ [rebasePrev currDelta e1])
      else if TextChange_oldEnd c = TextChange_newEnd p then
        compress_loop ps cs (prevDelta + change_delta p) (currDelta + change_delta c) (result @ [mergeTwo p c])
      else if TextChange_oldEnd c < TextChange_newEnd p then
        let (e1, e2) = splitPrev p (TextChange_oldLength c)
        in compress_loop (e2 # ps) cs (prevDelta + change_delta e1) (currDelta + change_delta c) (result @ [mergeTwo e1 c])
      else
        let (e1, e2) = splitCurr c (TextChange_newLength p)
        in compress_loop ps (e2 # cs) (prevDelta + change_delta p) (currDelta + change_delta e1) (result @ [mergeTwo p e1]))"
  by pat_completeness auto

termination
proof (relation "measure (\<lambda>(ps, cs, _). length ps + length cs +
    sum_list (map (\<lambda>e. length (tch_newText e)) ps) + sum_list (map (\<lambda>e. length (tch_oldText e)) cs))", goal_cases)
qed (auto simp: TextChange_lengths splitCurr_def splitPrev_def idrop_def Let_def)

fun merge_loop :: "text_change \<Rightarrow> text_change list \<Rightarrow> text_change list" where
  "merge_loop prev [] = [prev]"
| "merge_loop prev (cur # edits) =
     (if TextChange_oldEnd prev = tch_oldPosition cur
      then merge_loop (MkTextChange (tch_oldPosition prev) (tch_oldText prev @ tch_oldText cur)
             (tch_newPosition prev) (tch_newText prev @ tch_newText cur)) edits
      else prev # merge_loop cur edits)"

definition merge_changes :: "text_change list \<Rightarrow> text_change list" where
  "merge_changes edits = (case edits of [] \<Rightarrow> edits | e # es \<Rightarrow> merge_loop e es)"

fun removeNoOps :: "text_change list \<Rightarrow> text_change list" where
  "removeNoOps [] = []"
| "removeNoOps (e # es) = (if tch_oldText e = tch_newText e then removeNoOps es else e # removeNoOps es)"

definition TextChangeCompressor_compress :: "text_change list \<Rightarrow> text_change list \<Rightarrow> text_change list" where
  "TextChangeCompressor_compress prevEdits currEdits =
     removeNoOps (merge_changes (compress_loop prevEdits currEdits 0 0 []))"

definition compressConsecutiveTextChanges ::
    "text_change list option \<Rightarrow> text_change list \<Rightarrow> text_change list" where
  "compressConsecutiveTextChanges prevEdits currEdits =
     (case prevEdits of
        None \<Rightarrow> currEdits
      | Some ps \<Rightarrow> if ps = [] then currEdits else TextChangeCompressor_compress ps currEdits)"

section \<open>What a batch of changes does\<close>

inductive changes :: "text_change list \<Rightarrow> int \<Rightarrow> int \<Rightarrow> js_string \<Rightarrow> js_string \<Rightarrow> bool" where
  changes_Nil: "changes [] a b xs xs"
| changes_Cons:
    "tch_oldPosition e = a + ilen g \<Longrightarrow> tch_newPosition e = b + ilen g \<Longrightarrow>
      changes es (TextChange_oldEnd e) (TextChange_newEnd e) xs ys \<Longrightarrow>
      changes (e # es) a b (g @ tch_oldText e @ xs) (g @ tch_newText e @ ys)"

inductive_cases changes_NilE [elim!]: "changes [] a b xs ys"
inductive_cases changes_ConsE: "changes (e # es) a b xs ys"

inductive_simps changes_Nil_iff [simp]: "changes [] a b xs ys"

lemma changes_Cons_iff:
  "changes (e # es) a b xs ys \<longleftrightarrow>
    (\<exists>g xs' ys'. xs = g @ tch_oldText e @ xs' \<and> ys = g @ tch_newText e @ ys' \<and>
      tch_oldPosition e = a + ilen g \<and> tch_newPosition e = b + ilen g \<and>
      changes es (TextChange_oldEnd e) (TextChange_newEnd e) xs' ys')"
  (is "_ \<longleftrightarrow> ?R")
proof
  assume "changes (e # es) a b xs ys"
  then show ?R by (rule changes_ConsE) (rule exI, rule exI, rule exI, intro conjI, assumption+)
next
  assume ?R
  then show "changes (e # es) a b xs ys" using changes_Cons by blast
qed

declare TextChange_lengths [simp]

lemma changes_ConsI:
  assumes "xs = g @ tch_oldText e @ xs'" "ys = g @ tch_newText e @ ys'"
    and "tch_oldPosition e = a + ilen g" "tch_newPosition e = b + ilen g"
    and "changes es (TextChange_oldEnd e) (TextChange_newEnd e) xs' ys'"
  shows "changes (e # es) a b xs ys"
  using changes_Cons [OF assms(3-5)] unfolding assms(1,2) .

definition TextChange_flip :: "text_change \<Rightarrow> text_change" where
  "TextChange_flip e = MkTextChange (tch_newPosition e) (tch_newText e) (tch_oldPosition e) (tch_oldText e)"

lemma TextChange_flip_simps [simp]:
  "tch_oldPosition (TextChange_flip e) = tch_newPosition e" "tch_newPosition (TextChange_flip e) = tch_oldPosition e"
  "tch_oldText (TextChange_flip e) = tch_newText e" "tch_newText (TextChange_flip e) = tch_oldText e"
  "TextChange_flip (TextChange_flip e) = e"
  by (simp_all add: TextChange_flip_def)

text \<open>A batch that makes \<open>ys\<close> of \<open>xs\<close> makes \<open>xs\<close> of \<open>ys\<close> when its changes are read backwards.\<close>

lemma changes_flip: "changes es a b xs ys \<Longrightarrow> changes (map TextChange_flip es) b a ys xs"
proof (induction rule: changes.induct)
  case (changes_Cons e a g b es xs ys)
  then show ?case by (auto intro!: changes_ConsI)
qed simp

lemma changes_gap:
  assumes "changes es (a + ilen u) (b + ilen u) xs ys"
  shows "changes es a b (u @ xs) (u @ ys)"
proof (cases es)
  case (Cons e es')
  obtain g xs' ys' where "xs = g @ tch_oldText e @ xs'" "ys = g @ tch_newText e @ ys'"
    "tch_oldPosition e = a + ilen u + ilen g" "tch_newPosition e = b + ilen u + ilen g"
    "changes es' (TextChange_oldEnd e) (TextChange_newEnd e) xs' ys'"
    using assms unfolding Cons changes_Cons_iff by blast
  then show ?thesis unfolding Cons
    by - (rule changes_ConsI [of _ "u @ g" _ xs' _ ys'], simp_all del: TextChange_lengths)
qed (use assms in auto)

text \<open>One more change at the end, after the gap \<open>g\<close>.\<close>

lemma changes_snoc:
  "changes es a b xs ys \<Longrightarrow>
    tch_oldPosition e = a + ilen (xs @ g) \<Longrightarrow> tch_newPosition e = b + ilen (ys @ g) \<Longrightarrow>
    changes (es @ [e]) a b (xs @ g @ tch_oldText e) (ys @ g @ tch_newText e)"
proof (induction rule: changes.induct)
  case (changes_Nil a b xs)
  then show ?case
    by (simp del: append_assoc) (rule changes_ConsI [of _ "xs @ g" _ "[]" _ "[]"], simp_all)
next
  case (changes_Cons e' a h b es xs ys)
  then have "changes (es @ [e]) (TextChange_oldEnd e') (TextChange_newEnd e') (xs @ g @ tch_oldText e) (ys @ g @ tch_newText e)"
    by simp
  then show ?case
    unfolding append_Cons
    by - (rule changes_ConsI [of _ h _ "xs @ g @ tch_oldText e" _ "ys @ g @ tch_newText e"],
      simp_all add: changes_Cons.hyps)
qed

lemma changes_append_rest:
  "changes es a b xs ys \<Longrightarrow> changes es a b (xs @ zs) (ys @ zs)"
proof (induction rule: changes.induct)
  case (changes_Cons e a g b es xs ys)
  then show ?case by - (rule changes_ConsI [of _ g _ "xs @ zs" _ "ys @ zs"], simp_all)
qed simp

section \<open>Splitting, merging and dropping changes\<close>

lemma splitCurr_changes:
  assumes "changes (c # cs) a b xs ys" "0 \<le> k" "k \<le> ilen (tch_oldText c)" "splitCurr c k = (e1, e2)"
  shows "changes (e1 # e2 # cs) a b xs ys"
proof -
  obtain g xs' ys' where c: "xs = g @ tch_oldText c @ xs'" "ys = g @ tch_newText c @ ys'"
    "tch_oldPosition c = a + ilen g" "tch_newPosition c = b + ilen g"
    "changes cs (TextChange_oldEnd c) (TextChange_newEnd c) xs' ys'"
    using assms(1) unfolding changes_Cons_iff by blast
  let ?pre = "itake k (tch_oldText c)" and ?post = "idrop k (tch_oldText c)"
  have "changes (e2 # cs) (TextChange_oldEnd e1) (TextChange_newEnd e1) (?post @ xs') ys'"
    using assms(2-4) c
    by (intro changes_ConsI [of _ "[]" _ xs' _ ys']) (auto simp: splitCurr_def Let_def algebra_simps)
  moreover have "tch_oldText c @ xs' = ?pre @ ?post @ xs'" by (simp flip: append_assoc)
  ultimately show ?thesis
    using assms(4) c
    by - (rule changes_ConsI [of _ g _ "?post @ xs'" _ ys'], auto simp: splitCurr_def Let_def)
qed

lemma splitPrev_flip:
  "splitPrev p k = (e1, e2) \<Longrightarrow> splitCurr (TextChange_flip p) k = (TextChange_flip e1, TextChange_flip e2)"
  by (auto simp: splitCurr_def splitPrev_def TextChange_flip_def Let_def)

lemma splitPrev_changes:
  assumes "changes (p # ps) a b xs ys" "0 \<le> k" "k \<le> ilen (tch_newText p)" "splitPrev p k = (e1, e2)"
  shows "changes (e1 # e2 # ps) a b xs ys"
proof -
  have "changes (TextChange_flip p # map TextChange_flip ps) b a ys xs"
    using changes_flip [OF assms(1)] by simp
  from splitCurr_changes [OF this assms(2) _ splitPrev_flip [OF assms(4)]]
  have "changes (map TextChange_flip (e1 # e2 # ps)) b a ys xs" using assms(3) by simp
  from changes_flip [OF this] show ?thesis by (simp add: comp_def)
qed

lemma merge_loop_changes: "changes (prev # es) a b xs ys \<Longrightarrow> changes (merge_loop prev es) a b xs ys"
proof (induction prev es arbitrary: a b xs ys rule: merge_loop.induct)
  case (2 prev cur es)
  obtain g xs1 ys1 where p: "xs = g @ tch_oldText prev @ xs1" "ys = g @ tch_newText prev @ ys1"
    "tch_oldPosition prev = a + ilen g" "tch_newPosition prev = b + ilen g"
    "changes (cur # es) (TextChange_oldEnd prev) (TextChange_newEnd prev) xs1 ys1"
    using 2(3) unfolding changes_Cons_iff [of prev] by blast
  show ?case
  proof (cases "TextChange_oldEnd prev = tch_oldPosition cur")
    case True
    obtain h xs2 ys2 where c: "xs1 = h @ tch_oldText cur @ xs2" "ys1 = h @ tch_newText cur @ ys2"
      "tch_oldPosition cur = TextChange_oldEnd prev + ilen h" "tch_newPosition cur = TextChange_newEnd prev + ilen h"
      "changes es (TextChange_oldEnd cur) (TextChange_newEnd cur) xs2 ys2"
      using p(5) unfolding changes_Cons_iff [of cur] by blast
    have "h = []" using c(3) True by simp
    then have "changes (MkTextChange (tch_oldPosition prev) (tch_oldText prev @ tch_oldText cur)
        (tch_newPosition prev) (tch_newText prev @ tch_newText cur) # es) a b xs ys"
      using p c True by - (rule changes_ConsI [of _ g _ xs2 _ ys2], simp_all add: algebra_simps)
    then show ?thesis using 2(1) True by simp
  next
    case False
    have "changes (prev # merge_loop cur es) a b xs ys"
      using p(1-4) 2(2) [OF False p(5)] by (rule changes_ConsI)
    then show ?thesis using False by simp
  qed
qed simp

lemma removeNoOps_changes: "changes es a b xs ys \<Longrightarrow> changes (removeNoOps es) a b xs ys"
proof (induction rule: changes.induct)
  case (changes_Cons e a g b es xs ys)
  show ?case
  proof (cases "tch_oldText e = tch_newText e")
    case True
    then show ?thesis
      using changes_gap [of "removeNoOps es" a "g @ tch_oldText e" b xs ys] changes_Cons
      by (simp add: algebra_simps)
  next
    case False
    then show ?thesis using changes_Cons by (simp add: changes.changes_Cons)
  qed
qed simp

section \<open>The compressor\<close>

text \<open>
  \<open>V\<close>, \<open>X\<close> and \<open>W\<close> are what is ahead of the original text, of the text between the batches and of
  the result, at the offsets \<open>a\<close>, \<open>b\<close> and \<open>d\<close>.
\<close>

lemma accept_curr:
  assumes "changes ps a b V X" "changes (c # cs) b d X W" "ps = [] \<or> TextChange_oldEnd c \<le> tch_newPosition (hd ps)"
  shows "\<exists>g V' X' W'. V = g @ tch_oldText c @ V' \<and> W = g @ tch_newText c @ W' \<and>
    tch_oldPosition c = b + ilen g \<and> tch_newPosition c = d + ilen g \<and>
    changes ps (a + ilen (g @ tch_oldText c)) (b + ilen (g @ tch_oldText c)) V' X' \<and>
    changes cs (TextChange_oldEnd c) (TextChange_newEnd c) X' W'"
proof -
  obtain g X' W' where c: "X = g @ tch_oldText c @ X'" "W = g @ tch_newText c @ W'"
    "tch_oldPosition c = b + ilen g" "tch_newPosition c = d + ilen g"
    "changes cs (TextChange_oldEnd c) (TextChange_newEnd c) X' W'"
    using assms(2) unfolding changes_Cons_iff by blast
  show ?thesis
  proof (cases ps)
    case Nil
    then have "V = g @ tch_oldText c @ X'" using assms(1) c by simp
    then show ?thesis using c Nil by auto
  next
    case (Cons p ps')
    obtain h V2 X2 where p: "V = h @ tch_oldText p @ V2" "X = h @ tch_newText p @ X2"
      "tch_oldPosition p = a + ilen h" "tch_newPosition p = b + ilen h"
      "changes ps' (TextChange_oldEnd p) (TextChange_newEnd p) V2 X2"
      using assms(1) unfolding Cons changes_Cons_iff by blast
    have "length (g @ tch_oldText c) \<le> length h" using assms(3) Cons c(3) p(4) by simp
    moreover have eq: "(g @ tch_oldText c) @ X' = h @ tch_newText p @ X2" using c(1) p(2) by simp
    ultimately obtain u where u: "h = (g @ tch_oldText c) @ u"
      by (metis append_eq_append_conv_if append_eq_conv_conj append_take_drop_id)
    then have "X' = u @ tch_newText p @ X2" using eq by simp
    then have "changes ps (a + ilen (g @ tch_oldText c)) (b + ilen (g @ tch_oldText c)) (u @ tch_oldText p @ V2) X'"
      unfolding Cons using p(3-5) u by - (rule changes_ConsI [of _ u _ V2 _ X2], simp_all)
    moreover have "V = g @ tch_oldText c @ u @ tch_oldText p @ V2" using p(1) u by simp
    ultimately show ?thesis using c by blast
  qed
qed

lemma accept_prev:
  assumes "changes (p # ps) a b V X" "changes cs b d X W" "cs = [] \<or> TextChange_newEnd p \<le> tch_oldPosition (hd cs)"
  shows "\<exists>g V' X' W'. V = g @ tch_oldText p @ V' \<and> W = g @ tch_newText p @ W' \<and>
    tch_oldPosition p = a + ilen g \<and> tch_newPosition p = b + ilen g \<and>
    changes ps (TextChange_oldEnd p) (TextChange_newEnd p) V' X' \<and>
    changes cs (b + ilen (g @ tch_newText p)) (d + ilen (g @ tch_newText p)) X' W'"
proof -
  have A: "changes (TextChange_flip p # map TextChange_flip ps) b a X V"
    using changes_flip [OF assms(1)] by simp
  have B: "map TextChange_flip cs = [] \<or>
      TextChange_oldEnd (TextChange_flip p) \<le> tch_newPosition (hd (map TextChange_flip cs))"
    using assms(3) by (cases cs) auto
  obtain g W' X' V' where g: "W = g @ tch_oldText (TextChange_flip p) @ W'" "V = g @ tch_newText (TextChange_flip p) @ V'"
    "tch_oldPosition (TextChange_flip p) = b + ilen g" "tch_newPosition (TextChange_flip p) = a + ilen g"
    "changes (map TextChange_flip cs) (d + ilen (g @ tch_oldText (TextChange_flip p)))
      (b + ilen (g @ tch_oldText (TextChange_flip p))) W' X'"
    "changes (map TextChange_flip ps) (TextChange_oldEnd (TextChange_flip p)) (TextChange_newEnd (TextChange_flip p)) X' V'"
    using accept_curr [OF changes_flip [OF assms(2)] A B] by blast
  have "changes cs (b + ilen (g @ tch_newText p)) (d + ilen (g @ tch_newText p)) X' W'"
    using changes_flip [OF g(5)] by (simp add: comp_def)
  moreover have "changes ps (TextChange_oldEnd p) (TextChange_newEnd p) V' X'"
    using changes_flip [OF g(6)] by (simp add: comp_def)
  ultimately show ?thesis using g(1-4) unfolding TextChange_flip_simps by blast
qed

lemma accept_both:
  assumes "changes (p # ps) a b V X" "changes (c # cs) b d X W"
    and "tch_newPosition p = tch_oldPosition c" "TextChange_newEnd p = TextChange_oldEnd c"
  shows "\<exists>g V' X' W'. V = g @ tch_oldText p @ V' \<and> W = g @ tch_newText c @ W' \<and>
    tch_oldPosition p = a + ilen g \<and> tch_newPosition c = d + ilen g \<and>
    tch_newPosition p = b + ilen g \<and>
    changes ps (TextChange_oldEnd p) (TextChange_newEnd p) V' X' \<and>
    changes cs (TextChange_oldEnd c) (TextChange_newEnd c) X' W'"
proof -
  obtain g V' X' where p: "V = g @ tch_oldText p @ V'" "X = g @ tch_newText p @ X'"
    "tch_oldPosition p = a + ilen g" "tch_newPosition p = b + ilen g"
    "changes ps (TextChange_oldEnd p) (TextChange_newEnd p) V' X'"
    using assms(1) unfolding changes_Cons_iff by blast
  obtain h X2 W' where c: "X = h @ tch_oldText c @ X2" "W = h @ tch_newText c @ W'"
    "tch_oldPosition c = b + ilen h" "tch_newPosition c = d + ilen h"
    "changes cs (TextChange_oldEnd c) (TextChange_newEnd c) X2 W'"
    using assms(2) unfolding changes_Cons_iff by blast
  have "length g = length h" "length (tch_newText p) = length (tch_oldText c)"
    using p(4) c(3) assms(3,4) by simp_all
  then have "g = h" "X' = X2" using p(2) c(1) by auto
  then show ?thesis using p c by blast
qed

text \<open>What the loop keeps: the result so far makes \<open>w\<close> of \<open>v\<close> up to where the two batches go on.\<close>

definition compressing ::
    "text_change list \<Rightarrow> text_change list \<Rightarrow> int \<Rightarrow> int \<Rightarrow> text_change list \<Rightarrow> js_string \<Rightarrow> js_string \<Rightarrow> bool" where
  "compressing ps cs prevDelta currDelta result v w \<longleftrightarrow>
     (\<exists>V1 W1 V X W. v = V1 @ V \<and> w = W1 @ W \<and>
        changes ps (ilen V1) (ilen V1 + prevDelta) V X \<and>
        changes cs (ilen V1 + prevDelta) (ilen W1) X W \<and>
        changes result 0 0 V1 W1 \<and> ilen W1 = ilen V1 + prevDelta + currDelta)"

lemma compressingI:
  assumes "changes ps (ilen V1) b V X" "changes cs b (ilen W1) X W" "changes result 0 0 V1 W1"
    and "b = ilen V1 + prevDelta" "ilen W1 = b + currDelta" "v = V1 @ V" "w = W1 @ W"
  shows "compressing ps cs prevDelta currDelta result v w"
  unfolding compressing_def
  by (rule exI [of _ V1], rule exI [of _ W1], rule exI [of _ V], rule exI [of _ X], rule exI [of _ W])
    (use assms in simp)

lemma compressingE:
  assumes "compressing ps cs prevDelta currDelta result v w"
  obtains V1 W1 V X W where "v = V1 @ V" "w = W1 @ W"
    "changes ps (ilen V1) (ilen V1 + prevDelta) V X" "changes cs (ilen V1 + prevDelta) (ilen W1) X W"
    "changes result 0 0 V1 W1" "ilen W1 = ilen V1 + prevDelta + currDelta"
  using assms unfolding compressing_def by blast

lemma compressing_acceptCurr:
  assumes "compressing ps (c # cs) prevDelta currDelta result v w"
    and "ps = [] \<or> TextChange_oldEnd c \<le> tch_newPosition (hd ps)"
  shows "compressing ps cs prevDelta (currDelta + change_delta c) (result @ [rebaseCurr prevDelta c]) v w"
proof -
  obtain V1 W1 V X W where I: "v = V1 @ V" "w = W1 @ W"
    "changes ps (ilen V1) (ilen V1 + prevDelta) V X" "changes (c # cs) (ilen V1 + prevDelta) (ilen W1) X W"
    "changes result 0 0 V1 W1" "ilen W1 = ilen V1 + prevDelta + currDelta"
    using assms(1) by (rule compressingE)
  obtain g V' X' W' where c: "V = g @ tch_oldText c @ V'" "W = g @ tch_newText c @ W'"
    "tch_oldPosition c = ilen V1 + prevDelta + ilen g" "tch_newPosition c = ilen W1 + ilen g"
    "changes ps (ilen V1 + ilen (g @ tch_oldText c)) (ilen V1 + prevDelta + ilen (g @ tch_oldText c)) V' X'"
    "changes cs (TextChange_oldEnd c) (TextChange_newEnd c) X' W'"
    using accept_curr [OF I(3,4) assms(2)] by blast
  have r: "changes (result @ [rebaseCurr prevDelta c]) 0 0 (V1 @ g @ tch_oldText c) (W1 @ g @ tch_newText c)"
    using changes_snoc [OF I(5), of "rebaseCurr prevDelta c" g] c(3,4) by (simp add: rebaseCurr_def)
  have ps: "changes ps (ilen (V1 @ g @ tch_oldText c)) (TextChange_oldEnd c) V' X'"
    using c(3,5) by (simp add: algebra_simps)
  have cs: "changes cs (TextChange_oldEnd c) (ilen (W1 @ g @ tch_newText c)) X' W'"
    using c(4,6) by (simp add: algebra_simps)
  show ?thesis
    using c(3) I(6) by (rule_tac compressingI [OF ps cs r]) (simp_all add: I(1,2) c(1,2) change_delta_def)
qed

lemma compressing_acceptPrev:
  assumes "compressing (p # ps) cs prevDelta currDelta result v w"
    and "cs = [] \<or> TextChange_newEnd p \<le> tch_oldPosition (hd cs)"
  shows "compressing ps cs (prevDelta + change_delta p) currDelta (result @ [rebasePrev currDelta p]) v w"
proof -
  obtain V1 W1 V X W where I: "v = V1 @ V" "w = W1 @ W"
    "changes (p # ps) (ilen V1) (ilen V1 + prevDelta) V X" "changes cs (ilen V1 + prevDelta) (ilen W1) X W"
    "changes result 0 0 V1 W1" "ilen W1 = ilen V1 + prevDelta + currDelta"
    using assms(1) by (rule compressingE)
  obtain g V' X' W' where p: "V = g @ tch_oldText p @ V'" "W = g @ tch_newText p @ W'"
    "tch_oldPosition p = ilen V1 + ilen g" "tch_newPosition p = ilen V1 + prevDelta + ilen g"
    "changes ps (TextChange_oldEnd p) (TextChange_newEnd p) V' X'"
    "changes cs (ilen V1 + prevDelta + ilen (g @ tch_newText p)) (ilen W1 + ilen (g @ tch_newText p)) X' W'"
    using accept_prev [OF I(3,4) assms(2)] by blast
  have r: "changes (result @ [rebasePrev currDelta p]) 0 0 (V1 @ g @ tch_oldText p) (W1 @ g @ tch_newText p)"
    using changes_snoc [OF I(5), of "rebasePrev currDelta p" g] p(3,4) I(6) by (simp add: rebasePrev_def)
  have ps: "changes ps (ilen (V1 @ g @ tch_oldText p)) (TextChange_newEnd p) V' X'"
    using p(3,5) by (simp add: algebra_simps)
  have cs: "changes cs (TextChange_newEnd p) (ilen (W1 @ g @ tch_newText p)) X' W'"
    using p(4,6) by (simp add: algebra_simps)
  show ?thesis
    using p(4) I(6) by (rule_tac compressingI [OF ps cs r]) (simp_all add: I(1,2) p(1,2) change_delta_def)
qed

lemma compressing_mergeTwo:
  assumes "compressing (p # ps) (c # cs) prevDelta currDelta result v w"
    and "tch_newPosition p = tch_oldPosition c" "TextChange_newEnd p = TextChange_oldEnd c"
  shows "compressing ps cs (prevDelta + change_delta p) (currDelta + change_delta c) (result @ [mergeTwo p c]) v w"
proof -
  obtain V1 W1 V X W where I: "v = V1 @ V" "w = W1 @ W"
    "changes (p # ps) (ilen V1) (ilen V1 + prevDelta) V X"
    "changes (c # cs) (ilen V1 + prevDelta) (ilen W1) X W"
    "changes result 0 0 V1 W1" "ilen W1 = ilen V1 + prevDelta + currDelta"
    using assms(1) by (rule compressingE)
  obtain g V' X' W' where p: "V = g @ tch_oldText p @ V'" "W = g @ tch_newText c @ W'"
    "tch_oldPosition p = ilen V1 + ilen g" "tch_newPosition c = ilen W1 + ilen g"
    "tch_newPosition p = ilen V1 + prevDelta + ilen g"
    "changes ps (TextChange_oldEnd p) (TextChange_newEnd p) V' X'"
    "changes cs (TextChange_oldEnd c) (TextChange_newEnd c) X' W'"
    using accept_both [OF I(3,4) assms(2,3)] by blast
  have r: "changes (result @ [mergeTwo p c]) 0 0 (V1 @ g @ tch_oldText p) (W1 @ g @ tch_newText c)"
    using changes_snoc [OF I(5), of "mergeTwo p c" g] p(3,4) by (simp add: mergeTwo_def)
  have ps: "changes ps (ilen (V1 @ g @ tch_oldText p)) (TextChange_newEnd p) V' X'"
    using p(3,6) by (simp add: algebra_simps)
  have cs: "changes cs (TextChange_newEnd p) (ilen (W1 @ g @ tch_newText c)) X' W'"
    using p(4,7) assms(3) by (simp add: algebra_simps)
  have len: "ilen (tch_newText p) = ilen (tch_oldText c)" using assms(2,3) by simp
  show ?thesis
    using p(5) I(6) len by (rule_tac compressingI [OF ps cs r]) (simp_all add: I(1,2) p(1,2) change_delta_def)
qed

lemma compressing_splitCurr:
  assumes "compressing ps (c # cs) prevDelta currDelta result v w"
    and "splitCurr c k = (e1, e2)" "0 \<le> k" "k \<le> TextChange_oldLength c"
  shows "compressing ps (e1 # e2 # cs) prevDelta currDelta result v w"
proof -
  have "changes (c # cs) b d X W \<Longrightarrow> changes (e1 # e2 # cs) b d X W" for b d X W
    using splitCurr_changes [OF _ assms(3) _ assms(2)] assms(4) by simp
  then show ?thesis using assms(1) unfolding compressing_def by blast
qed

lemma compressing_splitPrev:
  assumes "compressing (p # ps) cs prevDelta currDelta result v w"
    and "splitPrev p k = (e1, e2)" "0 \<le> k" "k \<le> TextChange_newLength p"
  shows "compressing (e1 # e2 # ps) cs prevDelta currDelta result v w"
proof -
  have "changes (p # ps) b d X W \<Longrightarrow> changes (e1 # e2 # ps) b d X W" for b d X W
    using splitPrev_changes [OF _ assms(3) _ assms(2)] assms(4) by simp
  then show ?thesis using assms(1) unfolding compressing_def by blast
qed

lemma splitCurr_ends:
  "splitCurr c k = (e1, e2) \<Longrightarrow> 0 \<le> k \<Longrightarrow> k \<le> TextChange_oldLength c \<Longrightarrow>
    tch_oldPosition e1 = tch_oldPosition c \<and> TextChange_oldEnd e1 = tch_oldPosition c + k"
  by (auto simp: splitCurr_def Let_def)

lemma splitPrev_ends:
  "splitPrev p k = (e1, e2) \<Longrightarrow> 0 \<le> k \<Longrightarrow> k \<le> TextChange_newLength p \<Longrightarrow>
    tch_newPosition e1 = tch_newPosition p \<and> TextChange_newEnd e1 = tch_newPosition p + k"
  by (auto simp: splitPrev_def Let_def)

lemma compress_loop_changes:
  "compressing ps cs prevDelta currDelta result v w \<Longrightarrow>
    changes (compress_loop ps cs prevDelta currDelta result) 0 0 v w"
proof (induction ps cs prevDelta currDelta result rule: compress_loop.induct)
  case (1 prevDelta currDelta result)
  then show ?case by (auto simp: changes_append_rest elim!: compressingE)
next
  case (2 c cs prevDelta currDelta result)
  then show ?case by (simp add: compressing_acceptCurr)
next
  case (3 p ps prevDelta currDelta result)
  then show ?case by (simp add: compressing_acceptPrev)
next
  case (4 p ps c cs prevDelta currDelta result)
  note IH = 4(1-7) and inv = 4(8)
  let ?kc = "tch_newPosition p - tch_oldPosition c" and ?kp = "tch_oldPosition c - tch_newPosition p"
  let ?lc = "TextChange_oldLength c" and ?lp = "TextChange_newLength p"
  obtain a1 a2 where sc: "splitCurr c ?kc = (a1, a2)" by fastforce
  obtain b1 b2 where sp: "splitPrev p ?kp = (b1, b2)" by fastforce
  obtain c1 c2 where mp: "splitPrev p ?lc = (c1, c2)" by fastforce
  obtain d1 d2 where mc: "splitCurr c ?lp = (d1, d2)" by fastforce
  let ?over = "\<not> TextChange_oldEnd c \<le> tch_newPosition p \<and> \<not> TextChange_newEnd p \<le> tch_oldPosition c"
  consider (curr) "TextChange_oldEnd c \<le> tch_newPosition p"
    | (prev) "\<not> TextChange_oldEnd c \<le> tch_newPosition p" "TextChange_newEnd p \<le> tch_oldPosition c"
    | (cbefore) ?over "tch_oldPosition c < tch_newPosition p"
    | (pbefore) ?over "\<not> tch_oldPosition c < tch_newPosition p" "tch_newPosition p < tch_oldPosition c"
    | (same) ?over "tch_newPosition p = tch_oldPosition c" "TextChange_oldEnd c = TextChange_newEnd p"
    | (clonger) ?over "tch_newPosition p = tch_oldPosition c" "TextChange_oldEnd c < TextChange_newEnd p"
    | (plonger) ?over "tch_newPosition p = tch_oldPosition c" "TextChange_newEnd p < TextChange_oldEnd c"
    by linarith
  then show ?case
  proof cases
    case curr
    then show ?thesis using IH(1) compressing_acceptCurr [OF inv] by simp
  next
    case prev
    then show ?thesis using IH(2) compressing_acceptPrev [OF inv] by simp
  next
    case cbefore
    have k: "0 \<le> ?kc" "?kc \<le> TextChange_oldLength c" using cbefore by auto
    show ?thesis
      using cbefore sc IH(3) [OF _ _ cbefore(2) sc [symmetric] refl]
        compressing_acceptCurr [OF compressing_splitCurr [OF inv sc k]] splitCurr_ends [OF sc k]
      by (simp del: TextChange_lengths)
  next
    case pbefore
    have k: "0 \<le> ?kp" "?kp \<le> TextChange_newLength p" using pbefore by auto
    show ?thesis
      using pbefore sp IH(4) [OF _ _ pbefore(2,3) sp [symmetric] refl]
        compressing_acceptPrev [OF compressing_splitPrev [OF inv sp k]] splitPrev_ends [OF sp k]
      by (simp del: TextChange_lengths)
  next
    case same
    then show ?thesis
      using IH(5) compressing_mergeTwo [OF inv] by (simp del: TextChange_lengths)
  next
    case clonger
    have k: "0 \<le> ?lc" "?lc \<le> TextChange_newLength p" using clonger by auto
    have "TextChange_newEnd c1 = TextChange_oldEnd c" using splitPrev_ends [OF mp k] clonger by simp
    then show ?thesis
      using clonger mp IH(6) [OF _ _ _ _ _ clonger(3) mp [symmetric] refl]
        compressing_mergeTwo [OF compressing_splitPrev [OF inv mp k]] splitPrev_ends [OF mp k]
      by (simp del: TextChange_lengths)
  next
    case plonger
    have k: "0 \<le> ?lp" "?lp \<le> TextChange_oldLength c" using plonger by auto
    have "TextChange_newEnd p = TextChange_oldEnd d1" using splitCurr_ends [OF mc k] plonger by simp
    then show ?thesis
      using plonger mc IH(7) [OF _ _ _ _ _ _ mc [symmetric] refl]
        compressing_mergeTwo [OF compressing_splitCurr [OF inv mc k]] splitCurr_ends [OF mc k]
      by (simp del: TextChange_lengths)
  qed
qed

section \<open>The binary form\<close>

text \<open>What can be written: numbers of 32 bits and texts of fewer than \<open>2 ^ 32\<close> code units.\<close>

definition text_change_storable :: "text_change \<Rightarrow> bool" where
  "text_change_storable e \<longleftrightarrow> uint32 (tch_oldPosition e) \<and> uint32 (tch_newPosition e) \<and>
     uint32 (ilen (tch_oldText e)) \<and> uint32 (ilen (tch_newText e))"

definition bytesString :: "js_string \<Rightarrow> bytes" where
  "bytesString s = bytesUInt32BE (ilen s) @ bytesUTF16LE s"

definition bytesTextChange :: "text_change \<Rightarrow> bytes" where
  "bytesTextChange e = bytesUInt32BE (tch_oldPosition e) @ bytesUInt32BE (tch_newPosition e) @
     bytesString (tch_oldText e) @ bytesString (tch_newText e)"

lemma length_bytesString [simp]: "length (bytesString s) = 4 + 2 * length s"
  by (simp add: bytesString_def)

lemma length_bytesTextChange [simp]:
  "length (bytesTextChange e) = 16 + 2 * length (tch_oldText e) + 2 * length (tch_newText e)"
  by (simp add: bytesTextChange_def)

lemma TextChange_writeSize_eq: "TextChange_writeSize e = ilen (bytesTextChange e)"
  by (simp add: TextChange_writeSize_def TextChange_writeStringSize_def)

lemma writeString_loop_patched:
  "n + length (xs @ bytesUTF16LE s) \<le> length b \<Longrightarrow> offset = int n + ilen xs \<Longrightarrow>
    writeString_loop (patched b n xs) s offset = (patched b n (xs @ bytesUTF16LE s), offset + 2 * ilen s)"
proof (induction s arbitrary: xs offset)
  case (Cons u s)
  have "uint32 (uint u)" using uint_lt2p [of u] by (simp add: uint32_def)
  then have "writeUInt16LE (patched b n xs) (uint u) offset = patched b n (xs @ bytesUInt16LE (uint u))"
    using Cons.prems by (subst writeUInt16LE_patched [of _ _ "n + length xs"]) (simp_all add: patched_patched)
  then show ?case using Cons.IH [of "xs @ bytesUInt16LE (uint u)" "offset + 2"] Cons.prems by simp
qed simp

lemma writeUInt32BE_after:
  "uint32 v \<Longrightarrow> offset = int n + ilen xs \<Longrightarrow> n + length xs + 4 \<le> length b \<Longrightarrow>
    writeUInt32BE (patched b n xs) v offset = patched b n (xs @ bytesUInt32BE v)"
  by (subst writeUInt32BE_patched [of _ _ "n + length xs"]) (simp_all add: patched_patched)

lemma TextChange_writeString_patched:
  assumes "uint32 (ilen s)" "n + length (xs @ bytesString s) \<le> length b" "offset = int n + ilen xs"
  shows "TextChange_writeString (patched b n xs) s offset = (patched b n (xs @ bytesString s), offset + 4 + 2 * ilen s)"
  using assms writeString_loop_patched [of n "xs @ bytesUInt32BE (ilen s)" s b "offset + 4"]
  by (simp add: TextChange_writeString_def writeUInt32BE_after bytesString_def)

lemma TextChange_write_patched:
  assumes "text_change_storable e" "n + length (xs @ bytesTextChange e) \<le> length b" "offset = int n + ilen xs"
  shows "TextChange_write e (patched b n xs) offset =
    (patched b n (xs @ bytesTextChange e), offset + ilen (bytesTextChange e))"
  using assms
  by (simp add: TextChange_write_def Let_def text_change_storable_def writeUInt32BE_after
    TextChange_writeString_patched bytesTextChange_def)

lemma TextChange_readString_at:
  assumes "uint32 (ilen s)" "offset = ilen pre" "even (length pre)"
  shows "TextChange_readString (pre @ bytesString s @ post) offset = Some (decoded s)"
  using readUInt32BE_at [OF assms(1,2), of "bytesUTF16LE s @ post"]
    decodeUTF16LE_at [of "offset + 4" "pre @ bytesUInt32BE (ilen s)" s post] assms
  by (simp add: TextChange_readString_def bytesString_def)

text \<open>A change as it comes back: its texts have gone through the decoder.\<close>

definition TextChange_stored :: "text_change \<Rightarrow> text_change" where
  "TextChange_stored e = MkTextChange (tch_oldPosition e) (decoded (tch_oldText e))
     (tch_newPosition e) (decoded (tch_newText e))"

lemma TextChange_read_at:
  assumes "text_change_storable e" "offset = ilen pre" "even (length pre)"
  shows "TextChange_read (pre @ bytesTextChange e @ post) offset =
    Some (TextChange_stored e, offset + ilen (bytesTextChange e))"
proof -
  let ?o = "bytesUInt32BE (tch_oldPosition e)" and ?n = "bytesUInt32BE (tch_newPosition e)"
  let ?b = "pre @ ?o @ ?n @ bytesString (tch_oldText e) @ bytesString (tch_newText e) @ post"
  have "readUInt32BE ?b offset = Some (tch_oldPosition e)" "readUInt32BE ?b (offset + 4) = Some (tch_newPosition e)"
    using assms readUInt32BE_at [of "tch_oldPosition e" offset pre]
      readUInt32BE_at [of "tch_newPosition e" "offset + 4" "pre @ ?o"]
    by (simp_all add: text_change_storable_def)
  moreover have "TextChange_readString ?b (offset + 8) = Some (decoded (tch_oldText e))"
    using assms TextChange_readString_at [of "tch_oldText e" "offset + 8" "pre @ ?o @ ?n"]
    by (simp add: text_change_storable_def)
  moreover have "TextChange_readString ?b (offset + 8 + (4 + 2 * ilen (tch_oldText e))) = Some (decoded (tch_newText e))"
    using assms TextChange_readString_at [of "tch_newText e" "offset + 8 + (4 + 2 * ilen (tch_oldText e))"
      "pre @ ?o @ ?n @ bytesString (tch_oldText e)"]
    by (simp add: text_change_storable_def)
  ultimately show ?thesis
    by (simp add: TextChange_read_def bytesTextChange_def TextChange_writeStringSize_def TextChange_stored_def Let_def)
qed

section \<open>The normal form of a compressed batch\<close>

lemma removeNoOps_filter: "removeNoOps es = filter (\<lambda>e. tch_oldText e \<noteq> tch_newText e) es"
  by (induction es) auto

lemma merge_loop_head: "\<exists>m ms. merge_loop prev es = m # ms \<and> tch_oldPosition m = tch_oldPosition prev"
  by (induction prev es rule: merge_loop.induct) auto

lemma merge_loop_separated: "successively (\<lambda>e f. TextChange_oldEnd e \<noteq> tch_oldPosition f) (merge_loop prev es)"
proof (induction prev es rule: merge_loop.induct)
  case (2 prev cur es)
  obtain m ms where "merge_loop cur es = m # ms" "tch_oldPosition m = tch_oldPosition cur"
    using merge_loop_head by blast
  then show ?case using 2 by (auto simp del: TextChange_lengths)
qed simp

definition change_before :: "text_change \<Rightarrow> text_change \<Rightarrow> bool" where
  "change_before e f \<longleftrightarrow> TextChange_oldEnd e < tch_oldPosition f \<and> TextChange_newEnd e < tch_newPosition f"

lemma change_before_trans: "change_before e f \<Longrightarrow> change_before f g \<Longrightarrow> change_before e g"
  by (auto simp: change_before_def)

lemma changes_separated:
  "changes es a b xs ys \<Longrightarrow> successively (\<lambda>e f. TextChange_oldEnd e \<noteq> tch_oldPosition f) es \<Longrightarrow>
    successively change_before es"
proof (induction rule: changes.induct)
  case (changes_Cons e a g b es xs ys)
  show ?case
  proof (cases es)
    case (Cons f fs)
    obtain h :: js_string where "tch_oldPosition f = TextChange_oldEnd e + ilen h" "tch_newPosition f = TextChange_newEnd e + ilen h"
      using changes_Cons.hyps(3) unfolding Cons changes_Cons_iff by blast
    then have "change_before e f" using changes_Cons.prems Cons by (auto simp: change_before_def)
    then show ?thesis using changes_Cons Cons by simp
  qed simp
qed simp

lemma successively_sorted_wrt_change_before: "successively change_before es \<Longrightarrow> sorted_wrt change_before es"
  using change_before_trans by (subst (asm) successively_iff_sorted_wrt_strong) auto

lemma merge_changes_changes: "changes es a b xs ys \<Longrightarrow> changes (merge_changes es) a b xs ys"
  by (cases es) (auto simp: merge_changes_def intro: merge_loop_changes)

lemma merge_changes_separated: "changes es a b xs ys \<Longrightarrow> sorted_wrt change_before (merge_changes es)"
proof (cases es)
  case (Cons e es')
  assume "changes es a b xs ys"
  from merge_changes_changes [OF this] show ?thesis
    using merge_loop_separated [of e es'] Cons
    by (intro successively_sorted_wrt_change_before changes_separated) (auto simp: merge_changes_def)
qed (simp add: merge_changes_def)

lemma compress_loop_batches:
  "changes ps 0 0 v x \<Longrightarrow> changes cs 0 0 x w \<Longrightarrow> changes (compress_loop ps cs 0 0 []) 0 0 v w"
  by (rule compress_loop_changes, rule compressingI [of _ "[]" 0 v x _ "[]" w]) simp_all

lemma compress_changes:
  "changes ps 0 0 v x \<Longrightarrow> changes cs 0 0 x w \<Longrightarrow> changes (compressConsecutiveTextChanges (Some ps) cs) 0 0 v w"
  by (auto simp: compressConsecutiveTextChanges_def TextChangeCompressor_compress_def
    intro: removeNoOps_changes merge_changes_changes compress_loop_batches)

section \<open>Properties\<close>

text \<open>
  C26. Compressing two consecutive batches gives one batch with the effect of the two. Let \<open>prevEdits\<close>
  turn the text \<open>v\<close> into \<open>x\<close> and \<open>currEdits\<close> turn \<open>x\<close> into \<open>w\<close>, from offset 0 on. Then the result of
  \<open>compressConsecutiveTextChanges\<close> turns \<open>v\<close> into \<open>w\<close>, with the right positions on both sides, and
  read backwards, as undo does, it turns \<open>w\<close> into \<open>v\<close>. It is in normal form, unless there was
  nothing to compress: no change replaces a text by itself, and between two changes there is always
  a character that neither touches. Nothing is assumed of how the changes of the two batches
  overlap; all branches of the loop, with their splits, are covered.
\<close>

theorem text_changes_compress:
  assumes "changes prevEdits 0 0 v x" "changes currEdits 0 0 x w"
  shows "changes (compressConsecutiveTextChanges (Some prevEdits) currEdits) 0 0 v w \<and>
    changes (map TextChange_flip (compressConsecutiveTextChanges (Some prevEdits) currEdits)) 0 0 w v \<and>
    (prevEdits = [] \<or>
      sorted_wrt (\<lambda>e f. TextChange_oldEnd e < tch_oldPosition f \<and> TextChange_newEnd e < tch_newPosition f)
        (compressConsecutiveTextChanges (Some prevEdits) currEdits) \<and>
      (\<forall>e \<in> set (compressConsecutiveTextChanges (Some prevEdits) currEdits). tch_oldText e \<noteq> tch_newText e))"
proof -
  have "sorted_wrt change_before (compressConsecutiveTextChanges (Some prevEdits) currEdits) \<and>
    (\<forall>e \<in> set (compressConsecutiveTextChanges (Some prevEdits) currEdits). tch_oldText e \<noteq> tch_newText e)"
    if "prevEdits \<noteq> []"
    using that merge_changes_separated [OF compress_loop_batches [OF assms]]
    by (simp add: compressConsecutiveTextChanges_def TextChangeCompressor_compress_def removeNoOps_filter
      sorted_wrt_filter)
  then show ?thesis
    using compress_changes [OF assms] changes_flip [OF compress_changes [OF assms]]
    unfolding change_before_def by blast
qed

theorem text_changes_compress_witness:
  "compressConsecutiveTextChanges (Some [MkTextChange 1 [] 1 [97, 98]]) [MkTextChange 2 [98, 121] 2 [99]] =
      [MkTextChange 1 [121] 1 [97, 99]] \<and>
    changes (compressConsecutiveTextChanges (Some [MkTextChange 1 [] 1 [97, 98]]) [MkTextChange 2 [98, 121] 2 [99]])
      0 0 [120, 121] [120, 97, 99]"
proof -
  have "changes [MkTextChange 1 [] 1 [97, 98]] 0 0 [120, 121] [120, 97, 98, 121]"
    by (rule changes_ConsI [of _ "[120]" _ "[121]" _ "[121]"]) simp_all
  moreover have "changes [MkTextChange 2 [98, 121] 2 [99]] 0 0 [120, 97, 98, 121] [120, 97, 99]"
    by (rule changes_ConsI [of _ "[120, 97]" _ "[]" _ "[]"]) simp_all
  ultimately show ?thesis
    using text_changes_compress [of "[MkTextChange 1 [] 1 [97, 98]]" "[120, 121]" "[120, 97, 98, 121]"
      "[MkTextChange 2 [98, 121] 2 [99]]" "[120, 97, 99]"]
    by (auto simp: compressConsecutiveTextChanges_def TextChangeCompressor_compress_def splitPrev_def splitCurr_def
      mergeTwo_def rebaseCurr_def rebasePrev_def change_delta_def merge_changes_def Let_def)
qed

end
