(* ===== verification/EditStacks.thy ===== *)
theory EditStacks
  imports TextEditProperties TextChanges
begin

text \<open>
  \<open>vs/editor/common/model/editStack.ts\<close>: the elements that the undo service keeps for a text model,
  and the edits with which \<open>TextModel._applyUndo\<close> and \<open>_applyRedo\<close> act on them.

  An element is open while it collects batches of changes, and closed when its data is stored in
  a buffer of bytes; undo and redo work on what is read back from that buffer. The abstract
  specification of an element is the pair of snapshots of its model, before and after, that
  \<open>recording\<close> relates to it along every sequence of operations.
\<close>

section \<open>SingleModelEditStackData\<close>

text \<open>\<open>EndOfLineSequence\<close> is a numeric enumeration, and is stored as its number.\<close>

definition EndOfLineSequence_LF :: int where "EndOfLineSequence_LF = 0"
definition EndOfLineSequence_CRLF :: int where "EndOfLineSequence_CRLF = 1"

text \<open>What the stack asks of a text model, which it refers to by identity.\<close>

record text_model =
  tm_id :: nat
  tm_uri :: js_string
  tm_alternativeVersionId :: int
  tm_eol :: js_string

definition getModelEOL :: "text_model \<Rightarrow> int" where
  "getModelEOL model = (if tm_eol model = [LF] then EndOfLineSequence_LF else EndOfLineSequence_CRLF)"

record edit_stack_data =
  beforeVersionId :: int
  afterVersionId :: int
  beforeEOL :: int
  afterEOL :: int
  beforeCursorState :: "selection list option"
  afterCursorState :: "selection list option"
  textChanges :: "text_change list"

definition EditStackData_create :: "text_model \<Rightarrow> selection list option \<Rightarrow> edit_stack_data" where
  "EditStackData_create model beforeCursor =
     (let alternativeVersionId = tm_alternativeVersionId model; eol = getModelEOL model
      in \<lparr>beforeVersionId = alternativeVersionId, afterVersionId = alternativeVersionId,
          beforeEOL = eol, afterEOL = eol,
          beforeCursorState = beforeCursor, afterCursorState = beforeCursor, textChanges = []\<rparr>)"

definition EditStackData_append ::
    "edit_stack_data \<Rightarrow> text_change list \<Rightarrow> int \<Rightarrow> int \<Rightarrow> selection list option \<Rightarrow> edit_stack_data" where
  "EditStackData_append d changes' eol versionId cursorState =
     (let d' = (if length changes' > 0
                then d\<lparr>textChanges := compressConsecutiveTextChanges (Some (textChanges d)) changes'\<rparr> else d)
      in d'\<lparr>afterEOL := eol, afterVersionId := versionId, afterCursorState := cursorState\<rparr>)"

definition EditStackData_writeSelectionsSize :: "selection list option \<Rightarrow> int" where
  "EditStackData_writeSelectionsSize selections =
     4 + 4 * 4 * (case selections of None \<Rightarrow> 0 | Some ss \<Rightarrow> ilen ss)"

fun writeSelections_loop :: "bytes \<Rightarrow> selection list \<Rightarrow> int \<Rightarrow> bytes \<times> int" where
  "writeSelections_loop b [] offset = (b, offset)"
| "writeSelections_loop b (s # ss) offset =
     (let b = writeUInt32BE b (selectionStartLineNumber s) offset;
          b = writeUInt32BE b (selectionStartColumn s) (offset + 4);
          b = writeUInt32BE b (positionLineNumber s) (offset + 8);
          b = writeUInt32BE b (positionColumn s) (offset + 12)
      in writeSelections_loop b ss (offset + 16))"

definition EditStackData_writeSelections :: "bytes \<Rightarrow> selection list option \<Rightarrow> int \<Rightarrow> bytes \<times> int" where
  "EditStackData_writeSelections b selections offset =
     (case selections of
        None \<Rightarrow> (writeUInt32BE b 0 offset, offset + 4)
      | Some ss \<Rightarrow> writeSelections_loop (writeUInt32BE b (ilen ss) offset) ss (offset + 4))"

fun readSelections_loop :: "bytes \<Rightarrow> nat \<Rightarrow> int \<Rightarrow> selection list \<Rightarrow> (selection list \<times> int) option" where
  "readSelections_loop b 0 offset dest = Some (dest, offset)"
| "readSelections_loop b (Suc n) offset dest = do {
     sl \<leftarrow> readUInt32BE b offset;
     sc \<leftarrow> readUInt32BE b (offset + 4);
     pl \<leftarrow> readUInt32BE b (offset + 8);
     pc \<leftarrow> readUInt32BE b (offset + 12);
     readSelections_loop b n (offset + 16) (dest @ [Selection_new sl sc pl pc])
   }"

definition EditStackData_readSelections :: "bytes \<Rightarrow> int \<Rightarrow> (selection list \<times> int) option" where
  "EditStackData_readSelections b offset = do {
     count \<leftarrow> readUInt32BE b offset;
     readSelections_loop b (nat count) (offset + 4) []
   }"

fun writeChanges_loop :: "bytes \<Rightarrow> text_change list \<Rightarrow> int \<Rightarrow> bytes \<times> int" where
  "writeChanges_loop b [] offset = (b, offset)"
| "writeChanges_loop b (e # es) offset =
     (let (b, offset) = TextChange_write e b offset in writeChanges_loop b es offset)"

fun readChanges_loop :: "bytes \<Rightarrow> nat \<Rightarrow> int \<Rightarrow> text_change list \<Rightarrow> (text_change list \<times> int) option" where
  "readChanges_loop b 0 offset dest = Some (dest, offset)"
| "readChanges_loop b (Suc n) offset dest = do {
     (e, offset) \<leftarrow> TextChange_read b offset;
     readChanges_loop b n offset (dest @ [e])
   }"

definition EditStackData_serialize :: "edit_stack_data \<Rightarrow> bytes" where
  "EditStackData_serialize d =
     (let necessarySize = 4 + 4 + 1 + 1 + EditStackData_writeSelectionsSize (beforeCursorState d) +
            EditStackData_writeSelectionsSize (afterCursorState d) + 4;
          necessarySize = foldl (\<lambda>size change. size + TextChange_writeSize change) necessarySize (textChanges d);
          b = replicate (nat necessarySize) 0;
          b = writeUInt32BE b (beforeVersionId d) 0;
          b = writeUInt32BE b (afterVersionId d) 4;
          b = writeUInt8 b (beforeEOL d) 8;
          b = writeUInt8 b (afterEOL d) 9;
          (b, offset) = EditStackData_writeSelections b (beforeCursorState d) 10;
          (b, offset) = EditStackData_writeSelections b (afterCursorState d) offset;
          b = writeUInt32BE b (ilen (textChanges d)) offset
      in fst (writeChanges_loop b (textChanges d) (offset + 4)))"

definition EditStackData_deserialize :: "bytes \<Rightarrow> edit_stack_data option" where
  "EditStackData_deserialize b = do {
     beforeVersion \<leftarrow> readUInt32BE b 0;
     afterVersion \<leftarrow> readUInt32BE b 4;
     eol1 \<leftarrow> readUInt8 b 8;
     eol2 \<leftarrow> readUInt8 b 9;
     (cursor1, offset) \<leftarrow> EditStackData_readSelections b 10;
     (cursor2, offset) \<leftarrow> EditStackData_readSelections b offset;
     changeCount \<leftarrow> readUInt32BE b offset;
     (es, offset) \<leftarrow> readChanges_loop b (nat changeCount) (offset + 4) [];
     Some \<lparr>beforeVersionId = beforeVersion, afterVersionId = afterVersion, beforeEOL = eol1, afterEOL = eol2,
       beforeCursorState = Some cursor1, afterCursorState = Some cursor2, textChanges = es\<rparr>
   }"

section \<open>The stored form\<close>

text \<open>What fits into the fields, and what is read back.\<close>

definition selection_storable :: "selection \<Rightarrow> bool" where
  "selection_storable s \<longleftrightarrow> selection_ok s \<and> uint32 (selectionStartLineNumber s) \<and>
     uint32 (selectionStartColumn s) \<and> uint32 (positionLineNumber s) \<and> uint32 (positionColumn s)"

definition cursor_storable :: "selection list option \<Rightarrow> bool" where
  "cursor_storable c \<longleftrightarrow> (case c of None \<Rightarrow> True | Some ss \<Rightarrow> uint32 (ilen ss) \<and> (\<forall>s\<in>set ss. selection_storable s))"

definition data_storable :: "edit_stack_data \<Rightarrow> bool" where
  "data_storable d \<longleftrightarrow> uint32 (beforeVersionId d) \<and> uint32 (afterVersionId d) \<and>
     0 \<le> beforeEOL d \<and> beforeEOL d < 256 \<and> 0 \<le> afterEOL d \<and> afterEOL d < 256 \<and>
     cursor_storable (beforeCursorState d) \<and> cursor_storable (afterCursorState d) \<and>
     uint32 (ilen (textChanges d)) \<and> (\<forall>e\<in>set (textChanges d). text_change_storable e)"

definition cursor_list :: "selection list option \<Rightarrow> selection list" where
  "cursor_list c = (case c of None \<Rightarrow> [] | Some ss \<Rightarrow> ss)"

definition data_stored :: "edit_stack_data \<Rightarrow> edit_stack_data" where
  "data_stored d = d\<lparr>beforeCursorState := Some (cursor_list (beforeCursorState d)),
     afterCursorState := Some (cursor_list (afterCursorState d)), textChanges := map TextChange_stored (textChanges d)\<rparr>"

definition bytesSelection :: "selection \<Rightarrow> bytes" where
  "bytesSelection s = bytesUInt32BE (selectionStartLineNumber s) @ bytesUInt32BE (selectionStartColumn s) @
     bytesUInt32BE (positionLineNumber s) @ bytesUInt32BE (positionColumn s)"

definition bytesCursor :: "selection list option \<Rightarrow> bytes" where
  "bytesCursor c = bytesUInt32BE (ilen (cursor_list c)) @ concat (map bytesSelection (cursor_list c))"

definition bytesData :: "edit_stack_data \<Rightarrow> bytes" where
  "bytesData d = bytesUInt32BE (beforeVersionId d) @ bytesUInt32BE (afterVersionId d) @
     [word_of_int (beforeEOL d), word_of_int (afterEOL d)] @
     bytesCursor (beforeCursorState d) @ bytesCursor (afterCursorState d) @
     bytesUInt32BE (ilen (textChanges d)) @ concat (map bytesTextChange (textChanges d))"

lemma length_bytesSelection [simp]: "length (bytesSelection s) = 16"
  by (simp add: bytesSelection_def)

lemma length_bytesSelections [simp]: "length (concat (map bytesSelection ss)) = 16 * length ss"
  by (induction ss) simp_all

lemma length_bytesCursor [simp]: "length (bytesCursor c) = 4 + 16 * length (cursor_list c)"
  by (simp add: bytesCursor_def)

lemma writeSelectionsSize_eq: "EditStackData_writeSelectionsSize c = ilen (bytesCursor c)"
  by (cases c) (simp_all add: EditStackData_writeSelectionsSize_def cursor_list_def)

lemma necessarySize_eq:
  "foldl (\<lambda>size change. size + TextChange_writeSize change) n es = n + ilen (concat (map bytesTextChange es))"
  by (induction es arbitrary: n) (simp_all add: TextChange_writeSize_eq)

lemma writeSelections_loop_patched:
  "\<forall>s\<in>set ss. selection_storable s \<Longrightarrow> n + length xs + 16 * length ss \<le> length b \<Longrightarrow> offset = int n + ilen xs \<Longrightarrow>
    writeSelections_loop (patched b n xs) ss offset =
      (patched b n (xs @ concat (map bytesSelection ss)), offset + 16 * ilen ss)"
proof (induction ss arbitrary: xs offset)
  case (Cons s ss)
  then have "writeSelections_loop (patched b n xs) (s # ss) offset =
      writeSelections_loop (patched b n (xs @ bytesSelection s)) ss (offset + 16)"
    by (simp add: Let_def selection_storable_def writeUInt32BE_after bytesSelection_def)
  also have "\<dots> = (patched b n ((xs @ bytesSelection s) @ concat (map bytesSelection ss)), offset + 16 + 16 * ilen ss)"
    using Cons.prems by (intro Cons.IH) auto
  finally show ?case by simp
qed simp

lemma writeSelections_patched:
  assumes "cursor_storable c" "n + length (xs @ bytesCursor c) \<le> length b" "offset = int n + ilen xs"
  shows "EditStackData_writeSelections (patched b n xs) c offset =
    (patched b n (xs @ bytesCursor c), offset + ilen (bytesCursor c))"
proof (cases c)
  case None
  then show ?thesis
    using assms by (simp add: EditStackData_writeSelections_def bytesCursor_def cursor_list_def writeUInt32BE_after uint32_def)
next
  case (Some ss)
  then show ?thesis
    using assms writeSelections_loop_patched [of ss n "xs @ bytesUInt32BE (ilen ss)" b "offset + 4"]
    by (simp add: EditStackData_writeSelections_def bytesCursor_def cursor_list_def cursor_storable_def writeUInt32BE_after)
qed

lemma writeChanges_loop_patched:
  "\<forall>e\<in>set es. text_change_storable e \<Longrightarrow> n + length (xs @ concat (map bytesTextChange es)) \<le> length b \<Longrightarrow>
    offset = int n + ilen xs \<Longrightarrow>
    writeChanges_loop (patched b n xs) es offset =
      (patched b n (xs @ concat (map bytesTextChange es)), offset + ilen (concat (map bytesTextChange es)))"
proof (induction es arbitrary: xs offset)
  case (Cons e es)
  have "TextChange_write e (patched b n xs) offset =
      (patched b n (xs @ bytesTextChange e), offset + ilen (bytesTextChange e))"
    using Cons.prems by (intro TextChange_write_patched) auto
  moreover have "writeChanges_loop (patched b n (xs @ bytesTextChange e)) es (offset + ilen (bytesTextChange e)) =
      (patched b n ((xs @ bytesTextChange e) @ concat (map bytesTextChange es)),
       offset + ilen (bytesTextChange e) + ilen (concat (map bytesTextChange es)))"
    using Cons.prems by (intro Cons.IH) auto
  ultimately show ?case by simp
qed simp

lemma serialize_bytes:
  assumes "data_storable d"
  shows "EditStackData_serialize d = bytesData d"
proof -
  let ?b = "replicate (length (bytesData d)) 0 :: bytes"
  let ?h = "bytesUInt32BE (beforeVersionId d) @ bytesUInt32BE (afterVersionId d)"
  let ?e = "?h @ [word_of_int (beforeEOL d), word_of_int (afterEOL d)]"
  let ?c1 = "?e @ bytesCursor (beforeCursorState d)"
  let ?c2 = "?c1 @ bytesCursor (afterCursorState d)"
  let ?k = "?c2 @ bytesUInt32BE (ilen (textChanges d))"
  have len: "length (bytesData d) = length ?k + length (concat (map bytesTextChange (textChanges d)))"
    by (simp add: bytesData_def)
  have size: "nat (foldl (\<lambda>size change. size + TextChange_writeSize change)
      (4 + 4 + 1 + 1 + EditStackData_writeSelectionsSize (beforeCursorState d) +
       EditStackData_writeSelectionsSize (afterCursorState d) + 4) (textChanges d)) = length (bytesData d)"
    unfolding necessarySize_eq writeSelectionsSize_eq len by simp
  have s0: "writeUInt32BE (writeUInt32BE ?b (beforeVersionId d) 0) (afterVersionId d) 4 = patched ?b 0 ?h"
    using assms len writeUInt32BE_after [of "beforeVersionId d" 0 0 "[]" ?b]
    by (simp add: data_storable_def writeUInt32BE_after)
  have s1: "writeUInt8 (writeUInt8 (patched ?b 0 ?h) (beforeEOL d) 8) (afterEOL d) 9 = patched ?b 0 ?e"
    using len by (simp add: writeUInt8_def store_byte_after)
  have s2: "EditStackData_writeSelections (patched ?b 0 ?e) (beforeCursorState d) 10 = (patched ?b 0 ?c1, ilen ?c1)"
    using assms len by (subst writeSelections_patched) (simp_all add: data_storable_def)
  have s3: "EditStackData_writeSelections (patched ?b 0 ?c1) (afterCursorState d) (ilen ?c1) = (patched ?b 0 ?c2, ilen ?c2)"
    using assms len by (subst writeSelections_patched) (simp_all add: data_storable_def)
  have s4: "writeUInt32BE (patched ?b 0 ?c2) (ilen (textChanges d)) (ilen ?c2) = patched ?b 0 ?k"
    using assms len by (subst writeUInt32BE_after) (simp_all add: data_storable_def)
  have s5: "fst (writeChanges_loop (patched ?b 0 ?k) (textChanges d) (ilen ?c2 + 4)) = bytesData d"
    using assms len by (subst writeChanges_loop_patched) (simp_all add: data_storable_def bytesData_def patched_all)
  show ?thesis
    unfolding EditStackData_serialize_def Let_def size s0 s1 s2 s3 s4 s5 split s3 s4 s5 by simp
qed

lemma readSelections_loop_at:
  "\<forall>s\<in>set ss. selection_storable s \<Longrightarrow> offset = ilen pre \<Longrightarrow>
    readSelections_loop (pre @ concat (map bytesSelection ss) @ post) (length ss) offset dest =
      Some (dest @ ss, offset + 16 * ilen ss)"
proof (induction ss arbitrary: pre offset dest)
  case (Cons s ss)
  let ?sl = "bytesUInt32BE (selectionStartLineNumber s)" and ?sc = "bytesUInt32BE (selectionStartColumn s)"
  let ?pl = "bytesUInt32BE (positionLineNumber s)" and ?pc = "bytesUInt32BE (positionColumn s)"
  let ?rest = "concat (map bytesSelection ss) @ post"
  let ?b = "pre @ ?sl @ ?sc @ ?pl @ ?pc @ ?rest"
  have b: "pre @ concat (map bytesSelection (s # ss)) @ post = ?b" "(pre @ bytesSelection s) @ ?rest = ?b"
    by (simp_all add: bytesSelection_def [of s])
  have s: "selection_storable s" using Cons.prems(1) by simp
  then have r: "readUInt32BE ?b offset = Some (selectionStartLineNumber s)"
    "readUInt32BE ?b (offset + 4) = Some (selectionStartColumn s)"
    "readUInt32BE ?b (offset + 8) = Some (positionLineNumber s)"
    "readUInt32BE ?b (offset + 12) = Some (positionColumn s)"
    using Cons.prems(2) readUInt32BE_at [of "selectionStartLineNumber s" offset pre "?sc @ ?pl @ ?pc @ ?rest"]
      readUInt32BE_at [of "selectionStartColumn s" "offset + 4" "pre @ ?sl" "?pl @ ?pc @ ?rest"]
      readUInt32BE_at [of "positionLineNumber s" "offset + 8" "pre @ ?sl @ ?sc" "?pc @ ?rest"]
      readUInt32BE_at [of "positionColumn s" "offset + 12" "pre @ ?sl @ ?sc @ ?pl" ?rest]
    by (simp_all add: selection_storable_def)
  have n: "Selection_new (selectionStartLineNumber s) (selectionStartColumn s) (positionLineNumber s) (positionColumn s) = s"
    using s by (cases s) (simp add: selection_storable_def selection_ok_def Selection_new_def)
  have "readSelections_loop ((pre @ bytesSelection s) @ ?rest) (length ss) (offset + 16) (dest @ [s]) =
      Some ((dest @ [s]) @ ss, offset + 16 + 16 * ilen ss)"
    using Cons.prems by (intro Cons.IH) auto
  then show ?case
    unfolding b length_Cons readSelections_loop.simps r Option.bind.bind_lunit n by simp
qed simp

lemma readSelections_at:
  assumes "cursor_storable c" "offset = ilen pre"
  shows "EditStackData_readSelections (pre @ bytesCursor c @ post) offset =
    Some (cursor_list c, offset + ilen (bytesCursor c))"
proof -
  let ?n = "bytesUInt32BE (ilen (cursor_list c))" and ?ss = "concat (map bytesSelection (cursor_list c))"
  have c: "uint32 (ilen (cursor_list c))" "\<forall>s\<in>set (cursor_list c). selection_storable s"
    using assms(1) by (auto simp: cursor_storable_def cursor_list_def uint32_def split: option.splits)
  show ?thesis
    using readUInt32BE_at [OF c(1) assms(2), of "?ss @ post"]
      readSelections_loop_at [OF c(2), of "offset + 4" "pre @ ?n" post "[]"] assms(2)
    by (simp add: EditStackData_readSelections_def bytesCursor_def)
qed

lemma even_bytesTextChange: "even (length (bytesTextChange e))"
  by simp

lemma readChanges_loop_at:
  "\<forall>e\<in>set es. text_change_storable e \<Longrightarrow> offset = ilen pre \<Longrightarrow> even (length pre) \<Longrightarrow>
    readChanges_loop (pre @ concat (map bytesTextChange es)) (length es) offset dest =
      Some (dest @ map TextChange_stored es, offset + ilen (concat (map bytesTextChange es)))"
proof (induction es arbitrary: pre offset dest)
  case (Cons e es)
  let ?rest = "concat (map bytesTextChange es)"
  have "TextChange_read (pre @ bytesTextChange e @ ?rest) offset =
      Some (TextChange_stored e, offset + ilen (bytesTextChange e))"
    using Cons.prems by (intro TextChange_read_at) auto
  moreover have "readChanges_loop ((pre @ bytesTextChange e) @ ?rest) (length es) (offset + ilen (bytesTextChange e))
      (dest @ [TextChange_stored e]) =
      Some ((dest @ [TextChange_stored e]) @ map TextChange_stored es,
        offset + ilen (bytesTextChange e) + ilen ?rest)"
    using Cons.prems by (intro Cons.IH) auto
  ultimately show ?case by simp
qed simp

lemma deserialize_bytes:
  assumes "data_storable d"
  shows "EditStackData_deserialize (bytesData d) = Some (data_stored d)"
proof -
  let ?v1 = "bytesUInt32BE (beforeVersionId d)" and ?v2 = "bytesUInt32BE (afterVersionId d)"
  let ?e1 = "word_of_int (beforeEOL d) :: 8 word" and ?e2 = "word_of_int (afterEOL d) :: 8 word"
  let ?c1 = "bytesCursor (beforeCursorState d)" and ?c2 = "bytesCursor (afterCursorState d)"
  let ?n = "bytesUInt32BE (ilen (textChanges d))" and ?t = "concat (map bytesTextChange (textChanges d))"
  let ?b = "bytesData d" and ?p1 = "?v1 @ ?v2 @ [?e1, ?e2]"
  have v: "readUInt32BE ?b 0 = Some (beforeVersionId d)" "readUInt32BE ?b 4 = Some (afterVersionId d)"
    using assms readUInt32BE_at [of "beforeVersionId d" 0 "[]"] readUInt32BE_at [of "afterVersionId d" 4 ?v1]
    by (simp_all add: data_storable_def bytesData_def)
  have e: "readUInt8 ?b 8 = Some (beforeEOL d)" "readUInt8 ?b 9 = Some (afterEOL d)"
    using assms readUInt8_at [of "beforeEOL d" 8 "?v1 @ ?v2"] readUInt8_at [of "afterEOL d" 9 "?v1 @ ?v2 @ [?e1]"]
    by (simp_all add: data_storable_def bytesData_def)
  have c1: "EditStackData_readSelections ?b 10 = Some (cursor_list (beforeCursorState d), ilen (?p1 @ ?c1))"
    using assms readSelections_at [of "beforeCursorState d" 10 ?p1 "?c2 @ ?n @ ?t"]
    by (simp add: data_storable_def bytesData_def)
  have c2: "EditStackData_readSelections ?b (ilen (?p1 @ ?c1)) =
      Some (cursor_list (afterCursorState d), ilen (?p1 @ ?c1 @ ?c2))"
    using assms readSelections_at [of "afterCursorState d" "ilen (?p1 @ ?c1)" "?p1 @ ?c1" "?n @ ?t"]
    by (simp add: data_storable_def bytesData_def)
  have n: "readUInt32BE ?b (ilen (?p1 @ ?c1 @ ?c2)) = Some (ilen (textChanges d))"
    using assms readUInt32BE_at [of "ilen (textChanges d)" "ilen (?p1 @ ?c1 @ ?c2)" "?p1 @ ?c1 @ ?c2" ?t]
    by (simp add: data_storable_def bytesData_def)
  have t: "readChanges_loop ?b (length (textChanges d)) (ilen (?p1 @ ?c1 @ ?c2) + 4) [] =
      Some (map TextChange_stored (textChanges d), ilen ?b)"
    using assms readChanges_loop_at [of "textChanges d" "ilen (?p1 @ ?c1 @ ?c2) + 4" "?p1 @ ?c1 @ ?c2 @ ?n" "[]"]
    by (simp add: data_storable_def bytesData_def)
  show ?thesis
    unfolding EditStackData_deserialize_def v e c1 c2 n Option.bind.bind_lunit prod.case nat_int t data_stored_def by simp
qed

section \<open>SingleModelEditStackElement\<close>

text \<open>
  An element refers to its model, or only to the resource of a model that is not there; its data
  is open or stored. \<open>undo\<close> and \<open>redo\<close> throw without a model, and otherwise call the model with
  the changes, the end of line, the version and the cursors to go to.
\<close>

datatype model_ref = TheModel (ref_id: nat) (ref_uri: js_string) | AUri (ref_uri: js_string)

datatype element_data = OpenData (open_data: edit_stack_data) | StoredData (stored_data: bytes)

record edit_stack_element =
  el_model :: model_ref
  el_data :: element_data

definition model_ref_of :: "text_model \<Rightarrow> model_ref" where
  "model_ref_of model = TheModel (tm_id model) (tm_uri model)"

definition EditStackElement_create :: "text_model \<Rightarrow> selection list option \<Rightarrow> edit_stack_element" where
  "EditStackElement_create model beforeCursor =
     \<lparr>el_model = model_ref_of model, el_data = OpenData (EditStackData_create model beforeCursor)\<rparr>"

definition EditStackElement_matchesResource :: "edit_stack_element \<Rightarrow> js_string \<Rightarrow> bool" where
  "EditStackElement_matchesResource el resource \<longleftrightarrow> ref_uri (el_model el) = resource"

definition EditStackElement_setModel :: "edit_stack_element \<Rightarrow> model_ref \<Rightarrow> edit_stack_element" where
  "EditStackElement_setModel el m = el\<lparr>el_model := m\<rparr>"

definition EditStackElement_canAppend :: "edit_stack_element \<Rightarrow> text_model \<Rightarrow> bool" where
  "EditStackElement_canAppend el model \<longleftrightarrow>
     (case el_model el of TheModel i u \<Rightarrow> i = tm_id model | AUri u \<Rightarrow> False) \<and>
     (case el_data el of OpenData d \<Rightarrow> True | StoredData b \<Rightarrow> False)"

definition EditStackElement_append ::
    "edit_stack_element \<Rightarrow> text_change list \<Rightarrow> int \<Rightarrow> int \<Rightarrow> selection list option \<Rightarrow> edit_stack_element" where
  "EditStackElement_append el es eol versionId cursorState =
     (case el_data el of
        OpenData d \<Rightarrow> el\<lparr>el_data := OpenData (EditStackData_append d es eol versionId cursorState)\<rparr>
      | StoredData b \<Rightarrow> el)"

definition EditStackElement_close :: "edit_stack_element \<Rightarrow> edit_stack_element" where
  "EditStackElement_close el =
     (case el_data el of
        OpenData d \<Rightarrow> el\<lparr>el_data := StoredData (EditStackData_serialize d)\<rparr>
      | StoredData b \<Rightarrow> el)"

definition EditStackElement_open :: "edit_stack_element \<Rightarrow> edit_stack_element option" where
  "EditStackElement_open el =
     (case el_data el of
        OpenData d \<Rightarrow> Some el
      | StoredData b \<Rightarrow> map_option (\<lambda>d. el\<lparr>el_data := OpenData d\<rparr>) (EditStackData_deserialize b))"

type_synonym undo_call = "text_change list \<times> int \<times> int \<times> selection list option"

definition EditStackElement_undo :: "edit_stack_element \<Rightarrow> (edit_stack_element \<times> undo_call) option" where
  "EditStackElement_undo el =
     (case el_model el of
        AUri u \<Rightarrow> None
      | TheModel i u \<Rightarrow>
          (let el' = EditStackElement_close el
           in map_option (\<lambda>d. (el', textChanges d, beforeEOL d, beforeVersionId d, beforeCursorState d))
                (EditStackData_deserialize (stored_data (el_data el')))))"

definition EditStackElement_redo :: "edit_stack_element \<Rightarrow> (edit_stack_element \<times> undo_call) option" where
  "EditStackElement_redo el =
     (case el_model el of
        AUri u \<Rightarrow> None
      | TheModel i u \<Rightarrow>
          (let el' = EditStackElement_close el
           in map_option (\<lambda>d. (el', textChanges d, afterEOL d, afterVersionId d, afterCursorState d))
                (EditStackData_deserialize (stored_data (el_data el')))))"

definition EditStackElement_heapSize :: "edit_stack_element \<Rightarrow> edit_stack_element \<times> int" where
  "EditStackElement_heapSize el =
     (let el' = EditStackElement_close el in (el', ilen (stored_data (el_data el')) + 168))"

section \<open>MultiModelEditStackElement\<close>

text \<open>
  An element over several models. The map finds the element of a resource by its index in the array,
  which holds the same objects; of two elements with one resource it finds the later one.
\<close>

record multi_edit_stack_element =
  mm_isOpen :: bool
  mm_elements :: "edit_stack_element list"
  mm_map :: "js_string \<rightharpoonup> nat"

definition MultiElement_create :: "edit_stack_element list \<Rightarrow> multi_edit_stack_element" where
  "MultiElement_create els =
     \<lparr>mm_isOpen = True, mm_elements = els,
      mm_map = fold (\<lambda>i m. m(ref_uri (el_model (els ! i)) \<mapsto> i)) [0..<length els] Map.empty\<rparr>"

definition MultiElement_getMissingModels :: "multi_edit_stack_element \<Rightarrow> js_string list" where
  "MultiElement_getMissingModels M =
     concat (map (\<lambda>el. case el_model el of AUri u \<Rightarrow> [u] | TheModel i u \<Rightarrow> []) (mm_elements M))"

definition MultiElement_matchesResource :: "multi_edit_stack_element \<Rightarrow> js_string \<Rightarrow> bool" where
  "MultiElement_matchesResource M resource \<longleftrightarrow> mm_map M resource \<noteq> None"

definition MultiElement_setModel :: "multi_edit_stack_element \<Rightarrow> model_ref \<Rightarrow> multi_edit_stack_element" where
  "MultiElement_setModel M m =
     (case mm_map M (ref_uri m) of
        None \<Rightarrow> M
      | Some i \<Rightarrow> M\<lparr>mm_elements := (mm_elements M)[i := EditStackElement_setModel (mm_elements M ! i) m]\<rparr>)"

definition MultiElement_canAppend :: "multi_edit_stack_element \<Rightarrow> text_model \<Rightarrow> bool" where
  "MultiElement_canAppend M model \<longleftrightarrow>
     (if \<not> mm_isOpen M then False
      else case mm_map M (tm_uri model) of
        None \<Rightarrow> False
      | Some i \<Rightarrow> EditStackElement_canAppend (mm_elements M ! i) model)"

definition MultiElement_append :: "multi_edit_stack_element \<Rightarrow> text_model \<Rightarrow> text_change list \<Rightarrow> int \<Rightarrow> int \<Rightarrow>
    selection list option \<Rightarrow> multi_edit_stack_element option" where
  "MultiElement_append M model es eol versionId cursorState =
     (case mm_map M (tm_uri model) of
        None \<Rightarrow> None
      | Some i \<Rightarrow> Some (M\<lparr>mm_elements := (mm_elements M)[i :=
          EditStackElement_append (mm_elements M ! i) es eol versionId cursorState]\<rparr>))"

definition MultiElement_close :: "multi_edit_stack_element \<Rightarrow> multi_edit_stack_element" where
  "MultiElement_close M = M\<lparr>mm_isOpen := False\<rparr>"

text \<open>\<open>open\<close>: an element over several models cannot be reopened.\<close>

definition MultiElement_open :: "multi_edit_stack_element \<Rightarrow> multi_edit_stack_element" where
  "MultiElement_open M = M"

definition MultiElement_undo :: "multi_edit_stack_element \<Rightarrow> (multi_edit_stack_element \<times> undo_call list) option" where
  "MultiElement_undo M =
     map_option (\<lambda>rs. (M\<lparr>mm_isOpen := False, mm_elements := map fst rs\<rparr>, map snd rs))
       (those (map EditStackElement_undo (mm_elements M)))"

definition MultiElement_redo :: "multi_edit_stack_element \<Rightarrow> (multi_edit_stack_element \<times> undo_call list) option" where
  "MultiElement_redo M =
     map_option (\<lambda>rs. (M\<lparr>mm_elements := map fst rs\<rparr>, map snd rs))
       (those (map EditStackElement_redo (mm_elements M)))"

definition MultiElement_heapSize :: "multi_edit_stack_element \<Rightarrow> js_string \<Rightarrow> multi_edit_stack_element \<times> int" where
  "MultiElement_heapSize M resource =
     (case mm_map M resource of
        None \<Rightarrow> (M, 0)
      | Some i \<Rightarrow>
          (let (el, size) = EditStackElement_heapSize (mm_elements M ! i)
           in (M\<lparr>mm_elements := (mm_elements M)[i := el]\<rparr>, size)))"

section \<open>The edits of undo and redo\<close>

text \<open>
  \<open>TextModel._applyUndo\<close> and \<open>_applyRedo\<close> turn the changes into edits of the model, with
  \<open>getPositionAt\<close> of the model's buffer as a parameter.
\<close>

definition TextModel_applyUndo_edits :: "(int \<Rightarrow> position) \<Rightarrow> text_change list \<Rightarrow> text_replacement list" where
  "TextModel_applyUndo_edits getPositionAt es =
     map (\<lambda>change.
       let rangeStart = getPositionAt (tch_newPosition change); rangeEnd = getPositionAt (TextChange_newEnd change)
       in MkTextReplacement (Range_new (lineNumber rangeStart) (column rangeStart) (lineNumber rangeEnd) (column rangeEnd))
            (tch_oldText change)) es"

definition TextModel_applyRedo_edits :: "(int \<Rightarrow> position) \<Rightarrow> text_change list \<Rightarrow> text_replacement list" where
  "TextModel_applyRedo_edits getPositionAt es =
     map (\<lambda>change.
       let rangeStart = getPositionAt (tch_oldPosition change); rangeEnd = getPositionAt (TextChange_oldEnd change)
       in MkTextReplacement (Range_new (lineNumber rangeStart) (column rangeStart) (lineNumber rangeEnd) (column rangeEnd))
            (tch_newText change)) es"

section \<open>Undo and redo of texts\<close>

text \<open>
  What the buffer promises of \<open>getPositionAt\<close> in a text \<open>v\<close>, at the ends of the given changes: they
  are not between a carriage return and a line feed, and their positions are those of the offsets.
\<close>

definition positions_at :: "js_string \<Rightarrow> (int \<Rightarrow> position) \<Rightarrow> int \<Rightarrow> bool" where
  "positions_at v getPositionAt i \<longleftrightarrow> position_ok v (getPositionAt i) \<and> position_offset v (getPositionAt i) = i"

definition change_view :: "text_change \<Rightarrow> offset_range \<times> js_string" where
  "change_view e = (MkOffsetRange (tch_oldPosition e) (TextChange_oldEnd e), tch_newText e)"

lemma undo_edits_flip: "TextModel_applyUndo_edits gp es = TextModel_applyRedo_edits gp (map TextChange_flip es)"
  by (simp add: TextModel_applyUndo_edits_def TextModel_applyRedo_edits_def)

lemma changes_app: "changes es a b xs ys \<Longrightarrow> app a (map change_view es) xs = ys"
proof (induction rule: changes.induct)
  case (changes_Cons e a g b es xs ys)
  have "itake (ilen g) (g @ tch_oldText e @ xs) = g"
    "idrop (ilen g + ilen (tch_oldText e)) (g @ tch_oldText e @ xs) = xs"
    by (simp_all add: itake_append idrop_append)
  then show ?case using changes_Cons by (simp add: change_view_def)
qed simp

lemma redo_edits_positions:
  "changes es a b xs ys \<Longrightarrow> v = P @ xs \<Longrightarrow> a = ilen P \<Longrightarrow> position_ok v p \<Longrightarrow> position_offset v p \<le> a \<Longrightarrow>
    \<forall>e\<in>set es. positions_at v gp (tch_oldPosition e) \<and> positions_at v gp (TextChange_oldEnd e) \<Longrightarrow>
    text_edit_from v p (TextModel_applyRedo_edits gp es) \<and>
    tview v (TextModel_applyRedo_edits gp es) = map change_view es"
proof (induction arbitrary: P p rule: changes.induct)
  case (changes_Cons e a g b es xs ys)
  let ?s = "gp (tch_oldPosition e)" and ?t = "gp (TextChange_oldEnd e)"
  have at: "position_ok v ?s" "position_offset v ?s = tch_oldPosition e"
    "position_ok v ?t" "position_offset v ?t = TextChange_oldEnd e"
    using changes_Cons.prems(5) by (auto simp: positions_at_def)
  have le: "p \<le> ?s" "?s \<le> ?t"
    using at changes_Cons.prems(2-4) changes_Cons.hyps(1) by (auto simp flip: position_offset_le_iff [of v])
  have r: "Range_new (lineNumber ?s) (column ?s) (lineNumber ?t) (column ?t) = Range_fromPositions ?s ?t"
    by (simp add: Range_fromPositions_def)
  have IH: "text_edit_from v ?t (TextModel_applyRedo_edits gp es) \<and>
      tview v (TextModel_applyRedo_edits gp es) = map change_view es"
    using changes_Cons.prems changes_Cons.hyps(1) at
    by (intro changes_Cons.IH [of "P @ g @ tch_oldText e"]) auto
  then show ?case
    using at le by (simp add: TextModel_applyRedo_edits_def Let_def r Range_fromPositions_ends change_view_def)
qed (simp add: TextModel_applyRedo_edits_def)

lemma redo_edits_apply:
  assumes "changes es 0 0 v w" "ilen v + 1 < MAX_SAFE_INTEGER"
    and "\<forall>e\<in>set es. positions_at v gp (tch_oldPosition e) \<and> positions_at v gp (TextChange_oldEnd e)"
  shows "TextEdit_applyToString (TextModel_applyRedo_edits gp es) v = Some w"
proof -
  have "text_edit_from v (Position 1 1) (TextModel_applyRedo_edits gp es) \<and>
      tview v (TextModel_applyRedo_edits gp es) = map change_view es"
    using assms first_position_ok by (intro redo_edits_positions [OF assms(1), of _ "[]"]) auto
  then show ?thesis
    using string_text.apply_app [of v "TextModel_applyRedo_edits gp es"] assms(2) changes_app [OF assms(1)]
    by (simp add: TextEdit_applyToString_def text_edit_ok_def)
qed

lemma undo_edits_apply:
  assumes "changes es 0 0 v w" "ilen w + 1 < MAX_SAFE_INTEGER"
    and "\<forall>e\<in>set es. positions_at w gp (tch_newPosition e) \<and> positions_at w gp (TextChange_newEnd e)"
  shows "TextEdit_applyToString (TextModel_applyUndo_edits gp es) w = Some v"
  unfolding undo_edits_flip using assms by (intro redo_edits_apply changes_flip) auto

section \<open>What an element records\<close>

record snapshot =
  sn_text :: js_string
  sn_version :: int
  sn_eol :: int
  sn_cursor :: "selection list option"

text \<open>The data fits into the fields, and the texts come back as they were.\<close>

definition data_faithful :: "edit_stack_data \<Rightarrow> bool" where
  "data_faithful d \<longleftrightarrow> data_storable d \<and> (\<forall>e\<in>set (textChanges d). TextChange_stored e = e)"

definition element_faithful :: "edit_stack_element \<Rightarrow> bool" where
  "element_faithful el \<longleftrightarrow> (case el_data el of OpenData d \<Rightarrow> data_faithful d | StoredData b \<Rightarrow> True)"

text \<open>
  The life of an element: it is created on a model that is in the first snapshot, and collects
  batches that lead to the second one, while it may be closed, opened, measured, detached from its
  model and attached again, undone and redone. Data is only stored when it fits.
\<close>

inductive recording :: "snapshot \<Rightarrow> edit_stack_element \<Rightarrow> snapshot \<Rightarrow> bool" where
  rec_create: "s = \<lparr>sn_text = v, sn_version = tm_alternativeVersionId model, sn_eol = getModelEOL model, sn_cursor = cur\<rparr> \<Longrightarrow>
    recording s (EditStackElement_create model cur) s"
| rec_append: "recording s el t \<Longrightarrow> EditStackElement_canAppend el model \<Longrightarrow> changes es 0 0 (sn_text t) w \<Longrightarrow>
    recording s (EditStackElement_append el es eol ver cur)
      \<lparr>sn_text = w, sn_version = ver, sn_eol = eol, sn_cursor = cur\<rparr>"
| rec_setModel: "recording s el t \<Longrightarrow> recording s (EditStackElement_setModel el m) t"
| rec_close: "recording s el t \<Longrightarrow> element_faithful el \<Longrightarrow> recording s (EditStackElement_close el) t"
| rec_open: "recording s el t \<Longrightarrow> EditStackElement_open el = Some el' \<Longrightarrow> recording s el' t"
| rec_heapSize: "recording s el t \<Longrightarrow> element_faithful el \<Longrightarrow> recording s (fst (EditStackElement_heapSize el)) t"
| rec_undo: "recording s el t \<Longrightarrow> element_faithful el \<Longrightarrow> EditStackElement_undo el = Some (el', call) \<Longrightarrow> recording s el' t"
| rec_redo: "recording s el t \<Longrightarrow> element_faithful el \<Longrightarrow> EditStackElement_redo el = Some (el', call) \<Longrightarrow> recording s el' t"

definition data_records :: "snapshot \<Rightarrow> edit_stack_data \<Rightarrow> snapshot \<Rightarrow> bool" where
  "data_records s d t \<longleftrightarrow>
     beforeVersionId d = sn_version s \<and> beforeEOL d = sn_eol s \<and>
     cursor_list (beforeCursorState d) = cursor_list (sn_cursor s) \<and>
     afterVersionId d = sn_version t \<and> afterEOL d = sn_eol t \<and>
     cursor_list (afterCursorState d) = cursor_list (sn_cursor t) \<and>
     changes (textChanges d) 0 0 (sn_text s) (sn_text t)"

definition element_records :: "snapshot \<Rightarrow> edit_stack_element \<Rightarrow> snapshot \<Rightarrow> bool" where
  "element_records s el t \<longleftrightarrow>
     (case el_data el of
        OpenData d \<Rightarrow> data_records s d t
      | StoredData b \<Rightarrow> \<exists>d. b = bytesData d \<and> data_faithful d \<and> data_records s d t)"

lemma data_stored_faithful: "data_faithful d \<Longrightarrow> map TextChange_stored (textChanges d) = textChanges d"
  by (simp add: data_faithful_def map_idI)

lemma data_records_stored: "data_faithful d \<Longrightarrow> data_records s d t \<Longrightarrow> data_records s (data_stored d) t"
  by (simp add: data_records_def data_stored_def data_stored_faithful cursor_list_def)

lemma data_records_append:
  assumes "data_records s d t" "changes es 0 0 (sn_text t) w"
  shows "data_records s (EditStackData_append d es eol ver cur)
    \<lparr>sn_text = w, sn_version = ver, sn_eol = eol, sn_cursor = cur\<rparr>"
  using assms compress_changes [of "textChanges d" "sn_text s" "sn_text t" es w]
  by (auto simp: data_records_def EditStackData_append_def Let_def)

lemma element_close_stored:
  assumes "element_records s el t" "element_faithful el"
  shows "\<exists>d. EditStackElement_close el = el\<lparr>el_data := StoredData (bytesData d)\<rparr> \<and> data_faithful d \<and> data_records s d t"
proof (cases "el_data el")
  case (OpenData d)
  then show ?thesis
    using assms serialize_bytes [of d]
    by (auto simp: EditStackElement_close_def element_records_def element_faithful_def data_faithful_def)
next
  case (StoredData b)
  then show ?thesis using assms by (cases el) (auto simp: EditStackElement_close_def element_records_def)
qed

lemma element_records_close:
  "element_records s el t \<Longrightarrow> element_faithful el \<Longrightarrow> element_records s (EditStackElement_close el) t"
  using element_close_stored [of s el t] by (auto simp: element_records_def)

lemma EditStackElement_undo_close: "EditStackElement_undo el = Some (el', call) \<Longrightarrow> el' = EditStackElement_close el"
  by (auto simp: EditStackElement_undo_def Let_def split: model_ref.splits)

lemma EditStackElement_redo_close: "EditStackElement_redo el = Some (el', call) \<Longrightarrow> el' = EditStackElement_close el"
  by (auto simp: EditStackElement_redo_def Let_def split: model_ref.splits)

lemma recording_records: "recording s el t \<Longrightarrow> element_records s el t"
proof (induction rule: recording.induct)
  case (rec_create s v model cur)
  then show ?case
    by (simp add: element_records_def data_records_def EditStackElement_create_def EditStackData_create_def Let_def)
next
  case (rec_append s el t model es w eol ver cur)
  then obtain d where "el_data el = OpenData d"
    by (auto simp: EditStackElement_canAppend_def split: element_data.splits)
  with rec_append show ?case
    by (simp add: element_records_def EditStackElement_append_def data_records_append)
next
  case (rec_setModel s el t m)
  then show ?case by (simp add: element_records_def EditStackElement_setModel_def)
next
  case (rec_open s el t el')
  show ?case
  proof (cases "el_data el")
    case (StoredData b)
    then obtain d where d: "b = bytesData d" "data_faithful d" "data_records s d t"
      using rec_open.IH by (auto simp: element_records_def)
    then have "EditStackData_deserialize b = Some (data_stored d)"
      using deserialize_bytes by (simp add: data_faithful_def)
    then show ?thesis
      using StoredData rec_open.hyps(2) data_records_stored [OF d(2,3)]
      by (auto simp: EditStackElement_open_def element_records_def)
  qed (use rec_open in \<open>auto simp: EditStackElement_open_def\<close>)
qed (auto simp: element_records_close EditStackElement_heapSize_def Let_def
  dest!: EditStackElement_undo_close EditStackElement_redo_close)

lemma recording_deserialize:
  assumes "recording s el t" "element_faithful el"
  shows "\<exists>d. EditStackData_deserialize (stored_data (el_data (EditStackElement_close el))) = Some (data_stored d) \<and>
    data_faithful d \<and> data_records s (data_stored d) t"
  using element_close_stored [OF recording_records [OF assms(1)] assms(2)]
  by (auto simp: deserialize_bytes data_faithful_def data_records_stored)

text \<open>
  What every operation of an element over several models keeps. \<open>append\<close> does not ask \<open>canAppend\<close>
  itself: its callers do.
\<close>

definition multi_ok :: "multi_edit_stack_element \<Rightarrow> bool" where
  "multi_ok M \<longleftrightarrow>
     (\<forall>k i. mm_map M k = Some i \<longrightarrow> i < length (mm_elements M) \<and> ref_uri (el_model (mm_elements M ! i)) = k) \<and>
     (\<forall>el\<in>set (mm_elements M). mm_map M (ref_uri (el_model el)) \<noteq> None)"

inductive multi_step :: "multi_edit_stack_element \<Rightarrow> multi_edit_stack_element \<Rightarrow> bool" where
  ms_setModel: "multi_step M (MultiElement_setModel M m)"
| ms_append: "MultiElement_append M model es eol ver cur = Some M' \<Longrightarrow> multi_step M M'"
| ms_close: "multi_step M (MultiElement_close M)"
| ms_open: "multi_step M (MultiElement_open M)"
| ms_undo: "MultiElement_undo M = Some (M', calls) \<Longrightarrow> multi_step M M'"
| ms_redo: "MultiElement_redo M = Some (M', calls) \<Longrightarrow> multi_step M M'"
| ms_heapSize: "multi_step M (fst (MultiElement_heapSize M resource))"

lemma multi_ok_uris:
  assumes "multi_ok M" "map (\<lambda>el. ref_uri (el_model el)) els = map (\<lambda>el. ref_uri (el_model el)) (mm_elements M)"
  shows "multi_ok (M\<lparr>mm_isOpen := b, mm_elements := els\<rparr>)" "multi_ok (M\<lparr>mm_elements := els\<rparr>)"
proof -
  let ?u = "\<lambda>el. ref_uri (el_model el)"
  have len: "length els = length (mm_elements M)" using assms(2) by (rule map_eq_imp_length_eq)
  have nth: "?u (els ! i) = ?u (mm_elements M ! i)" if "i < length els" for i
    using assms(2) that len by (metis nth_map)
  have "?u ` set els = ?u ` set (mm_elements M)" using assms(2) by (metis list.set_map)
  then have mem: "\<forall>el\<in>set els. mm_map M (?u el) \<noteq> None"
    using assms(1) unfolding multi_ok_def by (metis (no_types, lifting) imageE imageI)
  show "multi_ok (M\<lparr>mm_isOpen := b, mm_elements := els\<rparr>)" "multi_ok (M\<lparr>mm_elements := els\<rparr>)"
    using assms(1) mem nth len by (auto simp: multi_ok_def)
qed

lemma multi_ok_update:
  assumes "multi_ok M" "mm_map M k = Some i" "ref_uri (el_model el) = k"
  shows "multi_ok (M\<lparr>mm_elements := (mm_elements M)[i := el]\<rparr>)"
proof (rule multi_ok_uris(2) [OF assms(1)])
  have "i < length (mm_elements M)" "ref_uri (el_model (mm_elements M ! i)) = k"
    using assms(1,2) by (auto simp: multi_ok_def)
  then show "map (\<lambda>el. ref_uri (el_model el)) ((mm_elements M)[i := el]) = map (\<lambda>el. ref_uri (el_model el)) (mm_elements M)"
    using assms(3) by (simp add: map_update list_update_same_conv)
qed

lemma element_uri_simps [simp]:
  "el_model (EditStackElement_close el) = el_model el"
  "el_model (EditStackElement_append el es eol ver cur) = el_model el"
  "el_model (EditStackElement_setModel el m) = m"
  by (simp_all add: EditStackElement_close_def EditStackElement_append_def EditStackElement_setModel_def
    split: element_data.splits)

lemma those_uris:
  assumes "those (map f els) = Some rs" "\<And>el r. f el = Some r \<Longrightarrow> el_model (fst r) = el_model el"
  shows "map (\<lambda>el. ref_uri (el_model el)) (map fst rs) = map (\<lambda>el. ref_uri (el_model el)) els"
  using assms by (induction els arbitrary: rs) (auto split: option.splits)

lemma undo_model: "EditStackElement_undo el = Some r \<Longrightarrow> el_model (fst r) = el_model el"
  by (cases r) (auto dest!: EditStackElement_undo_close)

lemma redo_model: "EditStackElement_redo el = Some r \<Longrightarrow> el_model (fst r) = el_model el"
  by (cases r) (auto dest!: EditStackElement_redo_close)

lemma multi_step_ok: "multi_step M M' \<Longrightarrow> multi_ok M \<Longrightarrow> multi_ok M' \<and> (mm_isOpen M' \<longrightarrow> mm_isOpen M)"
proof (induction rule: multi_step.induct)
  case (ms_setModel M m)
  then show ?case by (auto simp: MultiElement_setModel_def multi_ok_update split: option.splits)
next
  case (ms_append M model es eol ver cur M')
  then obtain i where i: "mm_map M (tm_uri model) = Some i"
    "M' = M\<lparr>mm_elements := (mm_elements M)[i := EditStackElement_append (mm_elements M ! i) es eol ver cur]\<rparr>"
    by (auto simp: MultiElement_append_def split: option.splits)
  then have "ref_uri (el_model (mm_elements M ! i)) = tm_uri model" using ms_append by (auto simp: multi_ok_def)
  then show ?case using i ms_append by (simp add: multi_ok_update)
next
  case (ms_close M)
  then show ?case by (simp add: MultiElement_close_def multi_ok_def)
next
  case (ms_open M)
  then show ?case by (simp add: MultiElement_open_def)
next
  case (ms_undo M M' calls)
  then obtain rs where rs: "those (map EditStackElement_undo (mm_elements M)) = Some rs"
    "M' = M\<lparr>mm_isOpen := False, mm_elements := map fst rs\<rparr>"
    by (auto simp: MultiElement_undo_def)
  show ?case using multi_ok_uris(1) [OF ms_undo.prems those_uris [OF rs(1) undo_model]] rs(2) by simp
next
  case (ms_redo M M' calls)
  then obtain rs where rs: "those (map EditStackElement_redo (mm_elements M)) = Some rs"
    "M' = M\<lparr>mm_elements := map fst rs\<rparr>"
    by (auto simp: MultiElement_redo_def)
  show ?case using multi_ok_uris(2) [OF ms_redo.prems those_uris [OF rs(1) redo_model]] rs(2) by simp
next
  case (ms_heapSize M resource)
  then show ?case
    by (auto simp: MultiElement_heapSize_def EditStackElement_heapSize_def Let_def multi_ok_def[of M]
      intro!: multi_ok_update split: option.splits)
qed

abbreviation element_uris :: "multi_edit_stack_element \<Rightarrow> js_string list" where
  "element_uris M \<equiv> map (\<lambda>el. ref_uri (el_model el)) (mm_elements M)"

lemma multi_step_keeps:
  assumes "multi_step M M'" "multi_ok M"
  shows "mm_map M' = mm_map M \<and> element_uris M' = element_uris M"
proof -
  have upd: "map (\<lambda>el. ref_uri (el_model el)) ((mm_elements M)[i := el]) = element_uris M"
    if "mm_map M k = Some i" "ref_uri (el_model el) = k" for i el k
    using that assms(2) by (simp add: multi_ok_def map_update list_update_same_conv)
  show ?thesis
    using assms(1)
  proof cases
    case (ms_setModel m)
    then show ?thesis using upd by (auto simp: MultiElement_setModel_def split: option.splits)
  next
    case (ms_append model es eol ver cur)
    then show ?thesis using upd assms(2) by (auto simp: MultiElement_append_def multi_ok_def split: option.splits)
  next
    case (ms_undo calls)
    then show ?thesis using those_uris [of EditStackElement_undo, OF _ undo_model] by (auto simp: MultiElement_undo_def)
  next
    case (ms_redo calls)
    then show ?thesis using those_uris [of EditStackElement_redo, OF _ redo_model] by (auto simp: MultiElement_redo_def)
  next
    case (ms_heapSize resource)
    then show ?thesis using upd assms(2)
      by (auto simp: MultiElement_heapSize_def EditStackElement_heapSize_def Let_def multi_ok_def split: option.splits)
  qed (simp_all add: MultiElement_close_def MultiElement_open_def)
qed

text \<open>The map that the constructor builds finds the last element of each resource.\<close>

lemma create_map:
  assumes "n \<le> length us"
  shows "fold (\<lambda>i m. m(us ! i \<mapsto> i)) [0..<n] Map.empty k = Some i \<longleftrightarrow>
    i < n \<and> us ! i = k \<and> (\<forall>j. i < j \<and> j < n \<longrightarrow> us ! j \<noteq> k)"
  using assms
proof (induction n)
  case (Suc n)
  then show ?case by (cases "us ! n = k") (auto simp: less_Suc_eq)
qed simp

lemma MultiElement_create_map:
  "mm_map (MultiElement_create els) k = Some i \<longleftrightarrow>
    i < length els \<and> ref_uri (el_model (els ! i)) = k \<and>
    (\<forall>j. i < j \<and> j < length els \<longrightarrow> ref_uri (el_model (els ! j)) \<noteq> k)"
proof -
  let ?us = "map (\<lambda>el. ref_uri (el_model el)) els"
  have "mm_map (MultiElement_create els) = fold (\<lambda>i m. m(?us ! i \<mapsto> i)) [0..<length els] Map.empty"
    unfolding MultiElement_create_def multi_edit_stack_element.simps
    by (rule fold_cong) auto
  then show ?thesis using create_map [of "length els" ?us k i] by (auto simp: less_trans)
qed

lemma last_index:
  "el \<in> set els \<Longrightarrow> \<exists>i<length els. f (els ! i) = f el \<and> (\<forall>j. i < j \<and> j < length els \<longrightarrow> f (els ! j) \<noteq> f el)"
proof (induction els rule: rev_induct)
  case (snoc x els)
  then show ?case
  proof (cases "f x = f el")
    case True
    then show ?thesis by (intro exI [of _ "length els"]) auto
  next
    case False
    with snoc obtain i where "i < length els" "f (els ! i) = f el"
      "\<forall>j. i < j \<and> j < length els \<longrightarrow> f (els ! j) \<noteq> f el" by auto
    then show ?thesis using False by (intro exI [of _ i]) (auto simp: nth_append less_Suc_eq)
  qed
qed simp

lemma MultiElement_create_ok: "multi_ok (MultiElement_create els)"
proof -
  have "mm_map (MultiElement_create els) (ref_uri (el_model el)) \<noteq> None" if "el \<in> set els" for el
    using last_index [OF that, of "\<lambda>el. ref_uri (el_model el)"] MultiElement_create_map [of els "ref_uri (el_model el)"]
    by auto
  moreover have "mm_elements (MultiElement_create els) = els" by (simp add: MultiElement_create_def)
  ultimately show ?thesis by (simp add: multi_ok_def MultiElement_create_map)
qed

lemma multi_steps:
  assumes "multi_step\<^sup>*\<^sup>* M M'" "multi_ok M"
  shows "multi_ok M' \<and> mm_map M' = mm_map M \<and> element_uris M' = element_uris M \<and> (mm_isOpen M' \<longrightarrow> mm_isOpen M)"
  using assms
proof (induction rule: rtranclp_induct)
  case (step M1 M2)
  then show ?case using multi_step_ok [of M1 M2] multi_step_keeps [of M1 M2] by auto
qed simp

section \<open>Properties\<close>

text \<open>
  C28. Reading back the stored form of the data of an element. It is exactly as long as \<open>serialize\<close>
  computes beforehand, every field lies where \<open>deserialize\<close> looks for it, and what comes back is the
  data with two differences: a cursor state that was \<open>null\<close> is the empty array, and the texts have
  gone through the UTF-16 decoder, so that a surrogate without its partner is U+FFFD. Assumed
  is that all numbers fit into their 32 or 8 bits.
\<close>

theorem edit_stack_data_roundtrip:
  assumes "data_storable d"
  shows "EditStackData_deserialize (EditStackData_serialize d) =
      Some (d\<lparr>beforeCursorState := Some (cursor_list (beforeCursorState d)),
        afterCursorState := Some (cursor_list (afterCursorState d)),
        textChanges := map TextChange_stored (textChanges d)\<rparr>) \<and>
    ilen (EditStackData_serialize d) = 10 + EditStackData_writeSelectionsSize (beforeCursorState d) +
      EditStackData_writeSelectionsSize (afterCursorState d) + 4 + sum_list (map TextChange_writeSize (textChanges d)) \<and>
    ((\<forall>e\<in>set (textChanges d). utf16_well_formed (tch_oldText e) \<and> utf16_well_formed (tch_newText e)) \<longrightarrow>
      map TextChange_stored (textChanges d) = textChanges d)"
proof -
  have "ilen (concat (map bytesTextChange es)) = sum_list (map TextChange_writeSize es)" for es
    by (induction es) (simp_all add: TextChange_writeSize_eq)
  then have "ilen (bytesData d) = 10 + EditStackData_writeSelectionsSize (beforeCursorState d) +
      EditStackData_writeSelectionsSize (afterCursorState d) + 4 + sum_list (map TextChange_writeSize (textChanges d))"
    unfolding writeSelectionsSize_eq by (simp add: bytesData_def)
  moreover have "TextChange_stored e = e" if "utf16_well_formed (tch_oldText e)" "utf16_well_formed (tch_newText e)" for e
    using that by (cases e) (simp add: TextChange_stored_def decoded_def replace_lone_id_iff)
  ultimately show ?thesis
    using deserialize_bytes [OF assms] by (simp add: serialize_bytes [OF assms] data_stored_def map_idI)
qed

theorem edit_stack_data_roundtrip_witness:
  "map_option textChanges (EditStackData_deserialize (EditStackData_serialize
      \<lparr>beforeVersionId = 1, afterVersionId = 2, beforeEOL = 0, afterEOL = 1, beforeCursorState = None,
       afterCursorState = Some [Selection_new 1 2 1 1], textChanges = [MkTextChange 0 [] 0 [0xD83D]]\<rparr>)) =
    Some [MkTextChange 0 [] 0 [0xFFFD]]"
proof -
  let ?d = "\<lparr>beforeVersionId = 1, afterVersionId = 2, beforeEOL = 0, afterEOL = 1, beforeCursorState = None,
       afterCursorState = Some [Selection_new 1 2 1 1], textChanges = [MkTextChange 0 [] 0 [0xD83D]]\<rparr>"
  have "data_storable ?d"
    by (simp add: data_storable_def cursor_storable_def selection_storable_def text_change_storable_def uint32_def)
      (simp add: Selection_new_def)
  from edit_stack_data_roundtrip [OF this] show ?thesis
    by (simp add: TextChange_stored_def decoded_def is_high_surrogate_def)
qed



text \<open>
  C29. The edits of \<open>_applyUndo\<close> restore the text before a batch and those of \<open>_applyRedo\<close> the text after
  it, when they are applied as a text edit. Assumed of the buffer is that \<open>getPositionAt\<close> returns, at
  the ends of the changes, the positions of these offsets; no end is between a carriage return
  and a line feed, where there is no such position.
\<close>

theorem undo_redo_edits:
  assumes "changes es 0 0 v w" "ilen v + 1 < MAX_SAFE_INTEGER" "ilen w + 1 < MAX_SAFE_INTEGER"
    and "\<forall>e\<in>set es. positions_at v before (tch_oldPosition e) \<and> positions_at v before (TextChange_oldEnd e) \<and>
      positions_at w after (tch_newPosition e) \<and> positions_at w after (TextChange_newEnd e)"
  shows "TextEdit_applyToString (TextModel_applyRedo_edits before es) v = Some w \<and>
    TextEdit_applyToString (TextModel_applyUndo_edits after es) w = Some v"
  using redo_edits_apply [OF assms(1,2)] undo_edits_apply [OF assms(1,3)] assms(4) by blast

theorem undo_redo_edits_witness:
  "TextEdit_applyToString (TextModel_applyUndo_edits (\<lambda>i. Position 1 (i + 1)) [MkTextChange 1 [98] 1 [99, 100]])
    [97, 99, 100] = Some [97, 98]"
proof -
  let ?es = "[MkTextChange 1 [98] 1 [99, 100 :: code_unit]]" and ?gp = "\<lambda>i. Position 1 (i + 1)"
  have "changes ?es 0 0 [97, 98] [97, 99, 100]"
    by (rule changes_ConsI [of _ "[97]" _ "[]" _ "[]"]) simp_all
  moreover have "positions_at [97, 98] ?gp 1" "positions_at [97, 98] ?gp 2"
    "positions_at [97, 99, 100] ?gp 1" "positions_at [97, 99, 100] ?gp 3"
    by code_simp+
  ultimately show ?thesis
    using undo_redo_edits [of ?es "[97, 98]" "[97, 99, 100]" ?gp ?gp] by (simp add: MAX_SAFE_INTEGER_def)
qed



end
