(* ===== verification/PieceTreeNodes.thy ===== *)
theory PieceTreeNodes
  imports Prelude
begin

text \<open>
  \<open>vs/editor/common/model/pieceTreeTextBuffer/rbTreeBase.ts\<close>: the red-black tree of the text buffer,
  with its sentinel, parent pointers and the cached sizes of left subtrees. The theory has the nodes,
  the rotations, the walks through the tree and the updates of the caches; insertion and deletion
  have theories of their own.

  Every field of \<open>TreeNode\<close> is a function from references; an assignment to a field updates that
  function. \<open>null\<close> is a reference without a node: what the fields hold there is arbitrary, and as
  all theorems hold whatever it is, none of the operations depends on it. Loops are partial
  functions, with \<open>None\<close> for a loop that does not end; that they end is part of the theorems.
\<close>

section \<open>Nodes\<close>

type_synonym node_ref = nat

abbreviation SENTINEL :: node_ref where "SENTINEL \<equiv> 0"

definition null_ref :: node_ref where "null_ref = 1"

datatype node_color = Black | Red

datatype buffer_cursor = MkBufferCursor (bc_line: int) (bc_column: int)

datatype piece = MkPiece (pc_bufferIndex: int) (pc_start: buffer_cursor) (pc_end: buffer_cursor)
  (pc_lineFeedCnt: int) (pc_length: int)

text \<open>The nodes, the root of the tree, and the next unused reference.\<close>

record rb_tree =
  rb_root :: node_ref
  n_parent :: "node_ref \<Rightarrow> node_ref"
  n_left :: "node_ref \<Rightarrow> node_ref"
  n_right :: "node_ref \<Rightarrow> node_ref"
  n_color :: "node_ref \<Rightarrow> node_color"
  n_piece :: "node_ref \<Rightarrow> piece"
  n_size_left :: "node_ref \<Rightarrow> int"
  n_lf_left :: "node_ref \<Rightarrow> int"
  rb_fresh :: node_ref

definition set_parent :: "node_ref \<Rightarrow> node_ref \<Rightarrow> 'a rb_tree_scheme \<Rightarrow> 'a rb_tree_scheme" where
  "set_parent x v s = s\<lparr>n_parent := (n_parent s)(x := v)\<rparr>"

definition set_left :: "node_ref \<Rightarrow> node_ref \<Rightarrow> 'a rb_tree_scheme \<Rightarrow> 'a rb_tree_scheme" where
  "set_left x v s = s\<lparr>n_left := (n_left s)(x := v)\<rparr>"

definition set_right :: "node_ref \<Rightarrow> node_ref \<Rightarrow> 'a rb_tree_scheme \<Rightarrow> 'a rb_tree_scheme" where
  "set_right x v s = s\<lparr>n_right := (n_right s)(x := v)\<rparr>"

definition set_color :: "node_ref \<Rightarrow> node_color \<Rightarrow> 'a rb_tree_scheme \<Rightarrow> 'a rb_tree_scheme" where
  "set_color x v s = s\<lparr>n_color := (n_color s)(x := v)\<rparr>"

definition set_size_left :: "node_ref \<Rightarrow> int \<Rightarrow> 'a rb_tree_scheme \<Rightarrow> 'a rb_tree_scheme" where
  "set_size_left x v s = s\<lparr>n_size_left := (n_size_left s)(x := v)\<rparr>"

definition set_lf_left :: "node_ref \<Rightarrow> int \<Rightarrow> 'a rb_tree_scheme \<Rightarrow> 'a rb_tree_scheme" where
  "set_lf_left x v s = s\<lparr>n_lf_left := (n_lf_left s)(x := v)\<rparr>"

definition set_piece :: "node_ref \<Rightarrow> piece \<Rightarrow> 'a rb_tree_scheme \<Rightarrow> 'a rb_tree_scheme" where
  "set_piece x v s = s\<lparr>n_piece := (n_piece s)(x := v)\<rparr>"

definition set_root :: "node_ref \<Rightarrow> 'a rb_tree_scheme \<Rightarrow> 'a rb_tree_scheme" where
  "set_root v s = s\<lparr>rb_root := v\<rparr>"

lemmas rb_setters = set_parent_def set_left_def set_right_def set_color_def set_size_left_def
  set_lf_left_def set_piece_def set_root_def

text \<open>\<open>x.piece.length\<close> and \<open>x.piece.lineFeedCnt\<close>; the sentinel alone has no piece.\<close>

definition n_length :: "'a rb_tree_scheme \<Rightarrow> node_ref \<Rightarrow> int" where
  "n_length s x = pc_length (n_piece s x)"

definition n_lineFeedCnt :: "'a rb_tree_scheme \<Rightarrow> node_ref \<Rightarrow> int" where
  "n_lineFeedCnt s x = pc_lineFeedCnt (n_piece s x)"

definition TreeNode_detach :: "node_ref \<Rightarrow> 'a rb_tree_scheme \<Rightarrow> 'a rb_tree_scheme" where
  "TreeNode_detach z s = set_right z null_ref (set_left z null_ref (set_parent z null_ref s))"

partial_function (option) leftest :: "'a rb_tree_scheme \<Rightarrow> node_ref \<Rightarrow> node_ref option" where
  "leftest s node = (if n_left s node \<noteq> SENTINEL then leftest s (n_left s node) else Some node)"

declare leftest.simps [code]

partial_function (option) righttest :: "'a rb_tree_scheme \<Rightarrow> node_ref \<Rightarrow> node_ref option" where
  "righttest s node = (if n_right s node \<noteq> SENTINEL then righttest s (n_right s node) else Some node)"

declare righttest.simps [code]

partial_function (option) next_loop :: "'a rb_tree_scheme \<Rightarrow> node_ref \<Rightarrow> node_ref option" where
  "next_loop s node =
     (if n_parent s node \<noteq> SENTINEL then
        if n_left s (n_parent s node) = node then Some node else next_loop s (n_parent s node)
      else Some node)"

declare next_loop.simps [code]

definition TreeNode_next :: "'a rb_tree_scheme \<Rightarrow> node_ref \<Rightarrow> node_ref option" where
  "TreeNode_next s this =
     (if n_right s this \<noteq> SENTINEL then leftest s (n_right s this)
      else do {
        node \<leftarrow> next_loop s this;
        Some (if n_parent s node = SENTINEL then SENTINEL else n_parent s node)
      })"

partial_function (option) prev_loop :: "'a rb_tree_scheme \<Rightarrow> node_ref \<Rightarrow> node_ref option" where
  "prev_loop s node =
     (if n_parent s node \<noteq> SENTINEL then
        if n_right s (n_parent s node) = node then Some node else prev_loop s (n_parent s node)
      else Some node)"

declare prev_loop.simps [code]

definition TreeNode_prev :: "'a rb_tree_scheme \<Rightarrow> node_ref \<Rightarrow> node_ref option" where
  "TreeNode_prev s this =
     (if n_left s this \<noteq> SENTINEL then righttest s (n_left s this)
      else do {
        node \<leftarrow> prev_loop s this;
        Some (if n_parent s node = SENTINEL then SENTINEL else n_parent s node)
      })"

partial_function (option) calculateSize :: "'a rb_tree_scheme \<Rightarrow> node_ref \<Rightarrow> int option" where
  "calculateSize s node =
     (if node = SENTINEL then Some 0
      else do { r \<leftarrow> calculateSize s (n_right s node); Some (n_size_left s node + n_length s node + r) })"

declare calculateSize.simps [code]

partial_function (option) calculateLF :: "'a rb_tree_scheme \<Rightarrow> node_ref \<Rightarrow> int option" where
  "calculateLF s node =
     (if node = SENTINEL then Some 0
      else do { r \<leftarrow> calculateLF s (n_right s node); Some (n_lf_left s node + n_lineFeedCnt s node + r) })"

declare calculateLF.simps [code]

definition resetSentinel :: "'a rb_tree_scheme \<Rightarrow> 'a rb_tree_scheme" where
  "resetSentinel s = set_parent SENTINEL SENTINEL s"

section \<open>Rotations\<close>

text \<open>The two tests of the rotations: \<open>y\<close> takes the place of \<open>x\<close> below the parent of \<open>x\<close>.\<close>

definition adopt :: "node_ref \<Rightarrow> node_ref \<Rightarrow> 'a rb_tree_scheme \<Rightarrow> 'a rb_tree_scheme" where
  "adopt b x s = (if b \<noteq> SENTINEL then set_parent b x s else s)"

definition replaceLeftChild :: "node_ref \<Rightarrow> node_ref \<Rightarrow> 'a rb_tree_scheme \<Rightarrow> 'a rb_tree_scheme" where
  "replaceLeftChild x y s =
     (if n_parent s x = SENTINEL then set_root y s
      else if n_left s (n_parent s x) = x then set_left (n_parent s x) y s
      else set_right (n_parent s x) y s)"

definition replaceRightChild :: "node_ref \<Rightarrow> node_ref \<Rightarrow> 'a rb_tree_scheme \<Rightarrow> 'a rb_tree_scheme" where
  "replaceRightChild y x s =
     (if n_parent s y = SENTINEL then set_root x s
      else if y = n_right s (n_parent s y) then set_right (n_parent s y) x s
      else set_left (n_parent s y) x s)"

definition leftRotate :: "node_ref \<Rightarrow> 'a rb_tree_scheme \<Rightarrow> 'a rb_tree_scheme" where
  "leftRotate x s =
     (let y = n_right s x;
          s = set_size_left y (n_size_left s y + (n_size_left s x + (if x \<noteq> SENTINEL then n_length s x else 0))) s;
          s = set_lf_left y (n_lf_left s y + (n_lf_left s x + (if x \<noteq> SENTINEL then n_lineFeedCnt s x else 0))) s;
          s = set_right x (n_left s y) s;
          s = adopt (n_left s y) x s;
          s = set_parent y (n_parent s x) s;
          s = replaceLeftChild x y s;
          s = set_left y x s
      in set_parent x y s)"

definition rightRotate :: "node_ref \<Rightarrow> 'a rb_tree_scheme \<Rightarrow> 'a rb_tree_scheme" where
  "rightRotate y s =
     (let x = n_left s y;
          s = set_left y (n_right s x) s;
          s = adopt (n_right s x) y s;
          s = set_parent x (n_parent s y) s;
          s = set_size_left y (n_size_left s y - (n_size_left s x + (if x \<noteq> SENTINEL then n_length s x else 0))) s;
          s = set_lf_left y (n_lf_left s y - (n_lf_left s x + (if x \<noteq> SENTINEL then n_lineFeedCnt s x else 0))) s;
          s = replaceRightChild y x s;
          s = set_right x y s
      in set_parent y x s)"

section \<open>Metadata\<close>

partial_function (option) updateTreeMetadata ::
    "node_ref \<Rightarrow> int \<Rightarrow> int \<Rightarrow> 'a rb_tree_scheme \<Rightarrow> 'a rb_tree_scheme option" where
  "updateTreeMetadata x delta lineFeedCntDelta s =
     (if x \<noteq> rb_root s \<and> x \<noteq> SENTINEL then
        let p = n_parent s x;
            s' = (if n_left s p = x
                  then set_lf_left p (n_lf_left s p + lineFeedCntDelta) (set_size_left p (n_size_left s p + delta) s)
                  else s)
        in updateTreeMetadata p delta lineFeedCntDelta s'
      else Some s)"

declare updateTreeMetadata.simps [code]

partial_function (option) recompute_climb :: "node_ref \<Rightarrow> 'a rb_tree_scheme \<Rightarrow> node_ref option" where
  "recompute_climb x s =
     (if x \<noteq> rb_root s \<and> x = n_right s (n_parent s x) then recompute_climb (n_parent s x) s else Some x)"

declare recompute_climb.simps [code]

partial_function (option) recompute_up ::
    "node_ref \<Rightarrow> int \<Rightarrow> int \<Rightarrow> 'a rb_tree_scheme \<Rightarrow> 'a rb_tree_scheme option" where
  "recompute_up x delta lf_delta s =
     (if x \<noteq> rb_root s \<and> (delta \<noteq> 0 \<or> lf_delta \<noteq> 0) then
        let p = n_parent s x;
            s' = (if n_left s p = x
                  then set_lf_left p (n_lf_left s p + lf_delta) (set_size_left p (n_size_left s p + delta) s)
                  else s)
        in recompute_up p delta lf_delta s'
      else Some s)"

declare recompute_up.simps [code]

definition recomputeTreeMetadata :: "node_ref \<Rightarrow> 'a rb_tree_scheme \<Rightarrow> 'a rb_tree_scheme option" where
  "recomputeTreeMetadata x s =
     (if x = rb_root s then Some s
      else do {
        x \<leftarrow> recompute_climb x s;
        (if x = rb_root s then Some s
         else do {
           let x = n_parent s x;
           size \<leftarrow> calculateSize s (n_left s x);
           lf \<leftarrow> calculateLF s (n_left s x);
           let delta = size - n_size_left s x;
           let lf_delta = lf - n_lf_left s x;
           let s = set_size_left x (n_size_left s x + delta) s;
           let s = set_lf_left x (n_lf_left s x + lf_delta) s;
           recompute_up x delta lf_delta s
         })
      })"

section \<open>Trees and their contexts\<close>

text \<open>
  The shape of a tree, with the references of its nodes, and a tree with a hole: \<open>InL C a r\<close> is the
  context of the left child of \<open>a\<close>, \<open>InR l a C\<close> that of its right child.
\<close>

datatype node_tree = Lf | Nd node_tree node_ref node_tree

datatype node_ctx = Top | InL node_ctx node_ref node_tree | InR node_tree node_ref node_ctx

fun nodes :: "node_tree \<Rightarrow> node_ref list" where
  "nodes Lf = []"
| "nodes (Nd l a r) = nodes l @ a # nodes r"

fun plug :: "node_ctx \<Rightarrow> node_tree \<Rightarrow> node_tree" where
  "plug Top t = t"
| "plug (InL C a r) t = plug C (Nd t a r)"
| "plug (InR l a C) t = plug C (Nd l a t)"

fun ctx_before :: "node_ctx \<Rightarrow> node_ref list" where
  "ctx_before Top = []"
| "ctx_before (InL C a r) = ctx_before C"
| "ctx_before (InR l a C) = ctx_before C @ nodes l @ [a]"

fun ctx_after :: "node_ctx \<Rightarrow> node_ref list" where
  "ctx_after Top = []"
| "ctx_after (InL C a r) = a # nodes r @ ctx_after C"
| "ctx_after (InR l a C) = ctx_after C"

fun ctx_comp :: "node_ctx \<Rightarrow> node_ctx \<Rightarrow> node_ctx" where
  "ctx_comp C Top = C"
| "ctx_comp C (InL D a r) = InL (ctx_comp C D) a r"
| "ctx_comp C (InR l a D) = InR l a (ctx_comp C D)"

lemma plug_ctx_comp [simp]: "plug (ctx_comp C D) t = plug C (plug D t)"
  by (induction D arbitrary: t) simp_all

lemma ctx_comp_before_after [simp]:
  "ctx_before (ctx_comp C D) = ctx_before C @ ctx_before D"
  "ctx_after (ctx_comp C D) = ctx_after D @ ctx_after C"
  by (induction D) simp_all

lemma nodes_plug: "nodes (plug C t) = ctx_before C @ nodes t @ ctx_after C"
  by (induction C arbitrary: t) simp_all

fun ctx_parent :: "node_ctx \<Rightarrow> node_ref" where
  "ctx_parent Top = SENTINEL"
| "ctx_parent (InL C a r) = a"
| "ctx_parent (InR l a C) = a"

fun ctx_nodes :: "node_ctx \<Rightarrow> node_ref set" where
  "ctx_nodes Top = {}"
| "ctx_nodes (InL C a r) = insert a (set (nodes r) \<union> ctx_nodes C)"
| "ctx_nodes (InR l a C) = insert a (set (nodes l) \<union> ctx_nodes C)"

lemma set_ctx_before_after: "set (ctx_before C) \<union> set (ctx_after C) = ctx_nodes C"
  by (induction C) auto

text \<open>The links of a heap have this shape, with parent \<open>p\<close> and root \<open>x\<close>.\<close>

abbreviation real_node :: "node_ref \<Rightarrow> bool" where
  "real_node a \<equiv> null_ref < a"

fun shape :: "(node_ref \<Rightarrow> node_ref) \<Rightarrow> (node_ref \<Rightarrow> node_ref) \<Rightarrow> (node_ref \<Rightarrow> node_ref) \<Rightarrow>
    node_ref \<Rightarrow> node_ref \<Rightarrow> node_tree \<Rightarrow> bool" where
  "shape P L R p x Lf \<longleftrightarrow> x = SENTINEL"
| "shape P L R p x (Nd l a r) \<longleftrightarrow>
     x = a \<and> real_node a \<and> P a = p \<and> shape P L R a (L a) l \<and> shape P L R a (R a) r \<and>
     a \<notin> set (nodes l) \<and> a \<notin> set (nodes r) \<and> set (nodes l) \<inter> set (nodes r) = {}"

fun ctx_shape :: "(node_ref \<Rightarrow> node_ref) \<Rightarrow> (node_ref \<Rightarrow> node_ref) \<Rightarrow> (node_ref \<Rightarrow> node_ref) \<Rightarrow>
    node_ref \<Rightarrow> node_ref \<Rightarrow> node_ctx \<Rightarrow> bool" where
  "ctx_shape P L R root x Top \<longleftrightarrow> root = x"
| "ctx_shape P L R root x (InL C a r) \<longleftrightarrow>
     L a = x \<and> real_node a \<and> P a = ctx_parent C \<and> shape P L R a (R a) r \<and> ctx_shape P L R root a C \<and>
     a \<notin> set (nodes r) \<and> a \<notin> ctx_nodes C \<and> set (nodes r) \<inter> ctx_nodes C = {}"
| "ctx_shape P L R root x (InR l a C) \<longleftrightarrow>
     R a = x \<and> real_node a \<and> P a = ctx_parent C \<and> shape P L R a (L a) l \<and> ctx_shape P L R root a C \<and>
     a \<notin> set (nodes l) \<and> a \<notin> ctx_nodes C \<and> set (nodes l) \<inter> ctx_nodes C = {}"

text \<open>The tree of the state is \<open>t\<close> in the context \<open>C\<close>, and \<open>x\<close> is the root of \<open>t\<close>.\<close>

definition focused :: "'a rb_tree_scheme \<Rightarrow> node_ctx \<Rightarrow> node_tree \<Rightarrow> node_ref \<Rightarrow> bool" where
  "focused s C t x \<longleftrightarrow>
     ctx_shape (n_parent s) (n_left s) (n_right s) (rb_root s) x C \<and>
     shape (n_parent s) (n_left s) (n_right s) (ctx_parent C) x t \<and> set (nodes t) \<inter> ctx_nodes C = {}"

abbreviation tree_of :: "'a rb_tree_scheme \<Rightarrow> node_tree \<Rightarrow> bool" where
  "tree_of s t \<equiv> focused s Top t (rb_root s)"

lemma shape_real: "shape P L R p x t \<Longrightarrow> a \<in> set (nodes t) \<Longrightarrow> real_node a"
  by (induction t arbitrary: p x) auto

lemma ctx_shape_real: "ctx_shape P L R root x C \<Longrightarrow> a \<in> ctx_nodes C \<Longrightarrow> real_node a"
  by (induction C arbitrary: x) (auto dest: shape_real)

lemma real_not_sentinel [simp]: "\<not> real_node SENTINEL" "\<not> real_node null_ref"
  by (simp_all add: null_ref_def)

lemma shape_root: "shape P L R p x t \<Longrightarrow> (x = SENTINEL \<longleftrightarrow> t = Lf) \<and> (t \<noteq> Lf \<longrightarrow> x \<in> set (nodes t) \<and> P x = p)"
  by (cases t) auto

lemma shape_distinct: "shape P L R p x t \<Longrightarrow> distinct (nodes t)"
  by (induction t arbitrary: p x) auto

lemma shape_frame [simp]:
  "b \<notin> set (nodes t) \<Longrightarrow> shape (P(b := v)) L R p x t \<longleftrightarrow> shape P L R p x t"
  "b \<notin> set (nodes t) \<Longrightarrow> shape P (L(b := v)) R p x t \<longleftrightarrow> shape P L R p x t"
  "b \<notin> set (nodes t) \<Longrightarrow> shape P L (R(b := v)) p x t \<longleftrightarrow> shape P L R p x t"
  by (induction t arbitrary: p x) auto

lemma ctx_shape_frame [simp]:
  "b \<notin> ctx_nodes C \<Longrightarrow> ctx_shape (P(b := v)) L R root x C \<longleftrightarrow> ctx_shape P L R root x C"
  "b \<notin> ctx_nodes C \<Longrightarrow> ctx_shape P (L(b := v)) R root x C \<longleftrightarrow> ctx_shape P L R root x C"
  "b \<notin> ctx_nodes C \<Longrightarrow> ctx_shape P L (R(b := v)) root x C \<longleftrightarrow> ctx_shape P L R root x C"
  by (induction C arbitrary: x) auto

lemma shape_new_parent:
  "shape P L R p x t \<Longrightarrow> shape (P(x := q)) L R q x t"
  by (cases t) auto

lemma ctx_parent_in: "C \<noteq> Top \<Longrightarrow> ctx_parent C \<in> ctx_nodes C"
  by (cases C) auto

lemma ctx_parent_sentinel: "ctx_shape P L R root x C \<Longrightarrow> ctx_parent C = SENTINEL \<longleftrightarrow> C = Top"
  by (cases C) auto

lemma focused_left:
  "focused s C (Nd l a r) x \<longleftrightarrow> x = a \<and> focused s (InL C a r) l (n_left s a)"
  unfolding focused_def by (simp) blast

lemma focused_right:
  "focused s C (Nd l a r) x \<longleftrightarrow> x = a \<and> focused s (InR l a C) r (n_right s a)"
  unfolding focused_def by (simp) blast

lemma focused_plug: "focused s C t x \<Longrightarrow> tree_of s (plug C t)"
proof (induction C arbitrary: t x)
  case Top
  then show ?case by (auto simp: focused_def)
next
  case (InL C a r)
  then have "focused s C (Nd t a r) a" by (auto simp: focused_def)
  then show ?case using InL.IH by simp
next
  case (InR l a C)
  then have "focused s C (Nd l a t) a" by (auto simp: focused_def)
  then show ?case using InR.IH by simp
qed

lemma plug_focused: "tree_of s (plug C t) \<Longrightarrow> \<exists>x. focused s C t x"
proof (induction C arbitrary: t)
  case (InL C a r)
  then obtain x where "focused s C (Nd t a r) x" by auto
  then show ?case by (auto simp: focused_left)
next
  case (InR l a C)
  then obtain x where "focused s C (Nd l a t) x" by auto
  then show ?case by (auto simp: focused_right)
qed auto

lemma nodes_split:
  "nodes t = xs @ a # ys \<Longrightarrow> \<exists>C l r. t = plug C (Nd l a r) \<and> xs = ctx_before C @ nodes l \<and> ys = nodes r @ ctx_after C"
proof (induction t arbitrary: xs ys)
  case (Nd l b r)
  consider (left) us where "nodes l = xs @ a # us" "ys = us @ b # nodes r"
    | (here) "nodes l = xs" "a = b" "nodes r = ys"
    | (right) us where "xs = nodes l @ b # us" "nodes r = us @ a # ys"
    using Nd.prems by (auto simp: append_eq_append_conv2 append_eq_Cons_conv Cons_eq_append_conv)
  then show ?case
  proof cases
    case left
    obtain C l' r' where "l = plug C (Nd l' a r')" "xs = ctx_before C @ nodes l'" "us = nodes r' @ ctx_after C"
      using Nd.IH(1) [OF left(1)] by blast
    then show ?thesis using left
      by (intro exI [of _ "ctx_comp (InL Top b r) C"] exI [of _ l'] exI [of _ r']) simp
  next
    case here
    then show ?thesis by (intro exI [of _ Top] exI [of _ l] exI [of _ r]) simp
  next
    case right
    obtain C l' r' where "r = plug C (Nd l' a r')" "us = ctx_before C @ nodes l'" "ys = nodes r' @ ctx_after C"
      using Nd.IH(2) [OF right(2)] by blast
    then show ?thesis using right
      by (intro exI [of _ "ctx_comp (InR l b Top) C"] exI [of _ l'] exI [of _ r']) simp
  qed
qed simp

section \<open>Rotations keep the order\<close>

text \<open>The hole of a context gets another root.\<close>

definition relink :: "node_ctx \<Rightarrow> node_ref \<Rightarrow> 'a rb_tree_scheme \<Rightarrow> 'a rb_tree_scheme" where
  "relink C y s = (case C of Top \<Rightarrow> set_root y s | InL C' a r \<Rightarrow> set_left a y s | InR l a C' \<Rightarrow> set_right a y s)"

lemma ctx_shape_relink:
  "ctx_shape (n_parent s) (n_left s) (n_right s) (rb_root s) x C \<Longrightarrow>
    ctx_shape (n_parent (relink C y s)) (n_left (relink C y s)) (n_right (relink C y s)) (rb_root (relink C y s)) y C"
  by (cases C) (auto simp: relink_def rb_setters)

lemma replaceChild_relink:
  assumes "ctx_shape (n_parent s) (n_left s) (n_right s) (rb_root s) x C" "n_parent s x = ctx_parent C"
    "x \<noteq> SENTINEL" "x \<notin> ctx_nodes C"
  shows "replaceLeftChild x y s = relink C y s" "replaceRightChild x y s = relink C y s"
  using assms by (cases C; force simp: relink_def replaceLeftChild_def replaceRightChild_def dest: shape_root)+

lemma adopt_simps [simp]:
  "n_left (adopt b x s) = n_left s" "n_right (adopt b x s) = n_right s" "rb_root (adopt b x s) = rb_root s"
  "n_color (adopt b x s) = n_color s" "n_piece (adopt b x s) = n_piece s"
  "n_size_left (adopt b x s) = n_size_left s" "n_lf_left (adopt b x s) = n_lf_left s" "rb_fresh (adopt b x s) = rb_fresh s"
  by (simp_all add: adopt_def set_parent_def)

lemma shape_adopt: "shape (n_parent s) L R p b t \<Longrightarrow> shape (n_parent (adopt b x s)) L R x b t"
  by (cases t) (auto simp: adopt_def set_parent_def)

lemma adopt_frame:
  "b \<notin> set (nodes t) \<Longrightarrow> shape (n_parent (adopt b x s)) L R p r t \<longleftrightarrow> shape (n_parent s) L R p r t"
  "b \<notin> ctx_nodes C \<Longrightarrow> ctx_shape (n_parent (adopt b x s)) L R root r C \<longleftrightarrow> ctx_shape (n_parent s) L R root r C"
  by (simp_all add: adopt_def set_parent_def)

lemma adopt_parent: "a \<noteq> b \<Longrightarrow> n_parent (adopt b x s) a = n_parent s a"
  by (simp add: adopt_def set_parent_def)

lemma relink_simps [simp]:
  "n_parent (relink C y s) = n_parent s" "n_color (relink C y s) = n_color s" "n_piece (relink C y s) = n_piece s"
  "n_size_left (relink C y s) = n_size_left s" "n_lf_left (relink C y s) = n_lf_left s" "rb_fresh (relink C y s) = rb_fresh s"
  by (simp_all add: relink_def rb_setters split: node_ctx.splits)

lemma relink_frame:
  assumes "set (nodes t) \<inter> ctx_nodes C = {}"
  shows "shape P (n_left (relink C y s)) (n_right (relink C y s)) p r t \<longleftrightarrow> shape P (n_left s) (n_right s) p r t"
  using assms by (cases C) (auto simp: relink_def rb_setters)

lemma relink_other:
  assumes "a \<notin> ctx_nodes C"
  shows "n_left (relink C y s) a = n_left s a" "n_right (relink C y s) a = n_right s a"
  using assms by (cases C; auto simp: relink_def rb_setters)+

text \<open>
  A rotation takes the links apart into the context, the subtrees \<open>A\<close>, \<open>B\<close> and \<open>D\<close>, and the nodes
  \<open>x\<close> and \<open>y\<close>, and then gives \<open>B\<close> and \<open>y\<close> (or \<open>x\<close>) new parents.
\<close>

lemma rotation_facts:
  assumes "ctx_shape P L R root w C" "real_node x" "real_node y" "x \<noteq> y" "x \<notin> ctx_nodes C" "y \<notin> ctx_nodes C"
    and "shape P L R x (L x) A" "shape P L R p b B" "shape P L R y (R y) D"
    and "x \<notin> set (nodes A)" "x \<notin> set (nodes B)" "x \<notin> set (nodes D)"
    "y \<notin> set (nodes A)" "y \<notin> set (nodes B)" "y \<notin> set (nodes D)" "set (nodes B) \<inter> ctx_nodes C = {}"
    "set (nodes A) \<inter> set (nodes B) = {}" "set (nodes B) \<inter> set (nodes D) = {}"
  shows "x \<noteq> SENTINEL" "y \<noteq> SENTINEL" "b \<noteq> x" "b \<noteq> y" "b \<notin> ctx_nodes C" "b \<notin> set (nodes A)" "b \<notin> set (nodes D)"
proof -
  show "x \<noteq> SENTINEL" "y \<noteq> SENTINEL" using assms(2,3) by (metis real_not_sentinel(1))+
  show "b \<noteq> x" "b \<noteq> y" "b \<notin> ctx_nodes C" "b \<notin> set (nodes A)" "b \<notin> set (nodes D)"
    using shape_root [OF assms(8)] assms
    by (auto dest: ctx_shape_real [OF assms(1)] shape_real [OF assms(7)] shape_real [OF assms(9)])
qed

lemma leftRotate_focused:
  assumes "focused s C (Nd A x (Nd B y D)) x"
  shows "focused (leftRotate x s) C (Nd (Nd A x B) y D) y"
    and "n_size_left (leftRotate x s) = (n_size_left s)(y := n_size_left s y + (n_size_left s x + n_length s x))"
    and "n_lf_left (leftRotate x s) = (n_lf_left s)(y := n_lf_left s y + (n_lf_left s x + n_lineFeedCnt s x))"
    and "n_color (leftRotate x s) = n_color s" "n_piece (leftRotate x s) = n_piece s" "rb_fresh (leftRotate x s) = rb_fresh s"
proof -
  let ?b = "n_left s y"
  have *: "n_right s x = y" "real_node x" "real_node y" "n_parent s x = ctx_parent C"
    "ctx_shape (n_parent s) (n_left s) (n_right s) (rb_root s) x C" "x \<notin> ctx_nodes C" "y \<notin> ctx_nodes C" "x \<noteq> y"
    "shape (n_parent s) (n_left s) (n_right s) x (n_left s x) A" "shape (n_parent s) (n_left s) (n_right s) y ?b B"
    "shape (n_parent s) (n_left s) (n_right s) y (n_right s y) D"
    "x \<notin> set (nodes A)" "x \<notin> set (nodes B)" "x \<notin> set (nodes D)"
    "y \<notin> set (nodes A)" "y \<notin> set (nodes B)" "y \<notin> set (nodes D)"
    "set (nodes A) \<inter> ctx_nodes C = {}" "set (nodes B) \<inter> ctx_nodes C = {}" "set (nodes D) \<inter> ctx_nodes C = {}"
    "set (nodes A) \<inter> set (nodes B) = {}" "set (nodes A) \<inter> set (nodes D) = {}" "set (nodes B) \<inter> set (nodes D) = {}"
    using assms by (auto simp: focused_def)
  note b = rotation_facts [OF *(5,2,3,8,6,7,9,10,11,12-17,19,21,23)]
  define s1 where "s1 = adopt ?b x (set_right x ?b (set_lf_left y (n_lf_left s y + (n_lf_left s x + n_lineFeedCnt s x))
          (set_size_left y (n_size_left s y + (n_size_left s x + n_length s x)) s)))"
  define s2 where "s2 = set_parent y (ctx_parent C) s1"
  have p: "n_left s2 = n_left s" "n_right s2 = (n_right s)(x := ?b)" "rb_root s2 = rb_root s"
    "n_parent s2 = (n_parent (adopt ?b x s))(y := ctx_parent C)" "n_parent s2 x = ctx_parent C"
    using * b by (auto simp: s1_def s2_def rb_setters adopt_def)
  have c: "ctx_shape (n_parent s2) (n_left s2) (n_right s2) (rb_root s2) x C"
    using * b by (simp add: p adopt_frame)
  have rot: "leftRotate x s = set_parent x y (set_left y x (relink C y s2))"
    unfolding replaceChild_relink(1) [OF c p(5) b(1) *(6), symmetric]
    using * b by (simp add: leftRotate_def Let_def s2_def s1_def rb_setters n_length_def n_lineFeedCnt_def adopt_parent)
  have "shape (n_parent s2) (n_left s2) (n_right s2) x (n_left s2 x) A"
    "shape (n_parent s2) (n_left s2) (n_right s2) x (n_right s2 x) B"
    "shape (n_parent s2) (n_left s2) (n_right s2) y (n_right s2 y) D"
    using * b by (simp_all add: p adopt_frame shape_adopt)
  then show "focused (leftRotate x s) C (Nd (Nd A x B) y D) y"
    unfolding rot focused_def using * ctx_shape_relink [OF c, of y] p(4)
    by (auto simp: rb_setters(1-3) relink_frame relink_other)
  show  "n_size_left (leftRotate x s) = (n_size_left s)(y := n_size_left s y + (n_size_left s x + n_length s x))"
    and "n_lf_left (leftRotate x s) = (n_lf_left s)(y := n_lf_left s y + (n_lf_left s x + n_lineFeedCnt s x))"
    and "n_color (leftRotate x s) = n_color s" "n_piece (leftRotate x s) = n_piece s" "rb_fresh (leftRotate x s) = rb_fresh s"
    unfolding rot s2_def s1_def by (simp_all add: rb_setters)
qed

lemma rightRotate_focused:
  assumes "focused s C (Nd (Nd A x B) y D) y"
  shows "focused (rightRotate y s) C (Nd A x (Nd B y D)) x"
    and "n_size_left (rightRotate y s) = (n_size_left s)(y := n_size_left s y - (n_size_left s x + n_length s x))"
    and "n_lf_left (rightRotate y s) = (n_lf_left s)(y := n_lf_left s y - (n_lf_left s x + n_lineFeedCnt s x))"
    and "n_color (rightRotate y s) = n_color s" "n_piece (rightRotate y s) = n_piece s" "rb_fresh (rightRotate y s) = rb_fresh s"
proof -
  let ?b = "n_right s x"
  have *: "n_left s y = x" "real_node x" "real_node y" "n_parent s y = ctx_parent C"
    "ctx_shape (n_parent s) (n_left s) (n_right s) (rb_root s) y C" "x \<notin> ctx_nodes C" "y \<notin> ctx_nodes C" "x \<noteq> y"
    "shape (n_parent s) (n_left s) (n_right s) x (n_left s x) A" "shape (n_parent s) (n_left s) (n_right s) x ?b B"
    "shape (n_parent s) (n_left s) (n_right s) y (n_right s y) D"
    "x \<notin> set (nodes A)" "x \<notin> set (nodes B)" "x \<notin> set (nodes D)"
    "y \<notin> set (nodes A)" "y \<notin> set (nodes B)" "y \<notin> set (nodes D)"
    "set (nodes A) \<inter> ctx_nodes C = {}" "set (nodes B) \<inter> ctx_nodes C = {}" "set (nodes D) \<inter> ctx_nodes C = {}"
    "set (nodes A) \<inter> set (nodes B) = {}" "set (nodes A) \<inter> set (nodes D) = {}" "set (nodes B) \<inter> set (nodes D) = {}"
    using assms by (auto simp: focused_def)
  note b = rotation_facts [OF *(5,2,3,8,6,7,9,10,11,12-17,19,21,23)]
  define s1 where "s1 = set_parent x (ctx_parent C) (adopt ?b y (set_left y ?b s))"
  define s2 where "s2 = set_lf_left y (n_lf_left s y - (n_lf_left s x + n_lineFeedCnt s x))
          (set_size_left y (n_size_left s y - (n_size_left s x + n_length s x)) s1)"
  have p: "n_right s2 = n_right s" "n_left s2 = (n_left s)(y := ?b)" "rb_root s2 = rb_root s"
    "n_parent s2 = (n_parent (adopt ?b y s))(x := ctx_parent C)" "n_parent s2 y = ctx_parent C"
    using * b by (auto simp: s1_def s2_def rb_setters adopt_def)
  have c: "ctx_shape (n_parent s2) (n_left s2) (n_right s2) (rb_root s2) y C"
    using * b by (simp add: p adopt_frame)
  have rot: "rightRotate y s = set_parent y x (set_right x y (relink C x s2))"
    unfolding replaceChild_relink(2) [OF c p(5) b(2) *(7), symmetric]
    using * b by (simp add: rightRotate_def Let_def s2_def s1_def rb_setters n_length_def n_lineFeedCnt_def adopt_parent)
  have "shape (n_parent s2) (n_left s2) (n_right s2) x (n_left s2 x) A"
    "shape (n_parent s2) (n_left s2) (n_right s2) y (n_left s2 y) B"
    "shape (n_parent s2) (n_left s2) (n_right s2) y (n_right s2 y) D"
    using * b by (simp_all add: p adopt_frame shape_adopt)
  then show "focused (rightRotate y s) C (Nd A x (Nd B y D)) x"
    unfolding rot focused_def using * ctx_shape_relink [OF c, of x] p(4)
    by (auto simp: rb_setters(1-3) relink_frame relink_other)
  show "n_size_left (rightRotate y s) = (n_size_left s)(y := n_size_left s y - (n_size_left s x + n_length s x))"
    and "n_lf_left (rightRotate y s) = (n_lf_left s)(y := n_lf_left s y - (n_lf_left s x + n_lineFeedCnt s x))"
    and "n_color (rightRotate y s) = n_color s" "n_piece (rightRotate y s) = n_piece s" "rb_fresh (rightRotate y s) = rb_fresh s"
    unfolding rot s2_def s1_def by (simp_all add: rb_setters)
qed

section \<open>Walks\<close>

lemma nodes_Nil [simp]: "nodes t = [] \<longleftrightarrow> t = Lf"
  by (cases t) auto

lemma leftest_shape:
  "shape (n_parent s) (n_left s) (n_right s) p x t \<Longrightarrow> t \<noteq> Lf \<Longrightarrow> leftest s x = Some (hd (nodes t))"
proof (induction t arbitrary: p x)
  case (Nd l a r)
  then show ?case
    using shape_root [of "n_parent s" "n_left s" "n_right s" a "n_left s a" l]
    by (subst leftest.simps) auto
qed simp

lemma righttest_shape:
  "shape (n_parent s) (n_left s) (n_right s) p x t \<Longrightarrow> t \<noteq> Lf \<Longrightarrow> righttest s x = Some (last (nodes t))"
proof (induction t arbitrary: p x)
  case (Nd l a r)
  then show ?case
    using shape_root [of "n_parent s" "n_left s" "n_right s" a "n_right s a" r]
    by (subst righttest.simps) auto
qed simp

lemma focused_root: "focused s C t x \<Longrightarrow> t \<noteq> Lf \<Longrightarrow> real_node x \<and> x \<in> set (nodes t) \<and> n_parent s x = ctx_parent C"
  using shape_root shape_real unfolding focused_def by metis

lemma focused_up:
  "focused s (InL C a r) t x \<Longrightarrow> focused s C (Nd t a r) a"
  "focused s (InR l a C) t x \<Longrightarrow> focused s C (Nd l a t) a"
  using focused_left [of s C t a r a] focused_right [of s C l a t a] by (auto simp: focused_def)

text \<open>Which child a node is, when it is not the sentinel.\<close>

lemma focused_side:
  assumes "t \<noteq> Lf"
  shows "focused s (InL C a r) t x \<Longrightarrow> n_left s a = x \<and> n_right s a \<noteq> x \<and> a \<noteq> SENTINEL"
    and "focused s (InR l a C) t x \<Longrightarrow> n_right s a = x \<and> n_left s a \<noteq> x \<and> a \<noteq> SENTINEL"
proof -
  assume f: "focused s (InL C a r) t x"
  have x: "real_node x" "x \<in> set (nodes t)" using focused_root [OF f assms] by auto
  have r: "shape (n_parent s) (n_left s) (n_right s) a (n_right s a) r" "n_left s a = x"
    "set (nodes t) \<inter> set (nodes r) = {}" "real_node a" using f by (auto simp: focused_def)
  show "n_left s a = x \<and> n_right s a \<noteq> x \<and> a \<noteq> SENTINEL"
    using shape_root [OF r(1)] r x by (metis disjoint_iff real_not_sentinel(1))
next
  assume f: "focused s (InR l a C) t x"
  have x: "real_node x" "x \<in> set (nodes t)" using focused_root [OF f assms] by auto
  have r: "shape (n_parent s) (n_left s) (n_right s) a (n_left s a) l" "n_right s a = x"
    "set (nodes t) \<inter> set (nodes l) = {}" "real_node a" using f by (auto simp: focused_def)
  show "n_right s a = x \<and> n_left s a \<noteq> x \<and> a \<noteq> SENTINEL"
    using shape_root [OF r(1)] r x by (metis disjoint_iff real_not_sentinel(1))
qed

lemma focused_top: "focused s C t x \<Longrightarrow> t \<noteq> Lf \<Longrightarrow> n_parent s x = SENTINEL \<longleftrightarrow> C = Top"
  using focused_root [of s C t x] ctx_parent_sentinel by (metis focused_def)

lemma focused_is_root: "focused s C t x \<Longrightarrow> t \<noteq> Lf \<Longrightarrow> x = rb_root s \<longleftrightarrow> C = Top"
proof (cases C)
  case Top
  then show "focused s C t x \<Longrightarrow> x = rb_root s \<longleftrightarrow> C = Top" by (simp add: focused_def)
next
  have root_in: "ctx_shape P L R root y D \<Longrightarrow> D \<noteq> Top \<Longrightarrow> root \<in> ctx_nodes D" for P L R root y D
    by (induction D arbitrary: y) (case_tac [!] D, auto)
  case (InL D a r)
  then show "focused s C t x \<Longrightarrow> t \<noteq> Lf \<Longrightarrow> x = rb_root s \<longleftrightarrow> C = Top"
    using focused_root [of s C t x] root_in [of "n_parent s" "n_left s" "n_right s" "rb_root s" x C]
    unfolding focused_def by auto
next
  have root_in: "ctx_shape P L R root y D \<Longrightarrow> D \<noteq> Top \<Longrightarrow> root \<in> ctx_nodes D" for P L R root y D
    by (induction D arbitrary: y) (case_tac [!] D, auto)
  case (InR l a D)
  then show "focused s C t x \<Longrightarrow> t \<noteq> Lf \<Longrightarrow> x = rb_root s \<longleftrightarrow> C = Top"
    using focused_root [of s C t x] root_in [of "n_parent s" "n_left s" "n_right s" "rb_root s" x C]
    unfolding focused_def by auto
qed

lemma next_loop_focused:
  "focused s C t x \<Longrightarrow> t \<noteq> Lf \<Longrightarrow>
    \<exists>n. next_loop s x = Some n \<and> n_parent s n = (case ctx_after C of [] \<Rightarrow> SENTINEL | b # bs \<Rightarrow> b)"
proof (induction C arbitrary: t x)
  case Top
  then show ?case using focused_top [OF Top] by (subst next_loop.simps) simp
next
  case (InL C a r)
  then show ?case using focused_side(1) [OF InL.prems(2,1)] focused_root [OF InL.prems]
    by (subst next_loop.simps) simp
next
  case (InR l a C)
  then show ?case using focused_side(2) [OF InR.prems(2,1)] focused_root [OF InR.prems] InR.IH [OF focused_up(2) [OF InR.prems(1)]]
    by (subst next_loop.simps) simp
qed

lemma prev_loop_focused:
  "focused s C t x \<Longrightarrow> t \<noteq> Lf \<Longrightarrow>
    \<exists>n. prev_loop s x = Some n \<and> n_parent s n = (if ctx_before C = [] then SENTINEL else last (ctx_before C))"
proof (induction C arbitrary: t x)
  case Top
  then show ?case using focused_top [OF Top] by (subst prev_loop.simps) simp
next
  case (InL C a r)
  then show ?case using focused_side(1) [OF InL.prems(2,1)] focused_root [OF InL.prems] InL.IH [OF focused_up(1) [OF InL.prems(1)]]
    by (subst prev_loop.simps) (auto split: if_splits)
next
  case (InR l a C)
  then show ?case using focused_side(2) [OF InR.prems(2,1)] focused_root [OF InR.prems]
    by (subst prev_loop.simps) simp
qed

text \<open>\<open>next\<close> and \<open>prev\<close> are the neighbours in the order of the tree, or the sentinel.\<close>

lemma TreeNode_next_focused:
  assumes "focused s C (Nd l a r) a"
  shows "TreeNode_next s a = Some (case nodes r @ ctx_after C of [] \<Rightarrow> SENTINEL | b # bs \<Rightarrow> b)"
proof -
  have r: "shape (n_parent s) (n_left s) (n_right s) a (n_right s a) r" using assms by (auto simp: focused_def)
  show ?thesis
  proof (cases "r = Lf")
    case True
    then show ?thesis
      using r next_loop_focused [OF assms] by (auto simp: TreeNode_next_def split: list.splits)
  next
    case False
    then have "(case nodes r @ ctx_after C of [] \<Rightarrow> SENTINEL | b # bs \<Rightarrow> b) = hd (nodes r)"
      by (cases "nodes r") auto
    then show ?thesis
      using False shape_root [OF r] leftest_shape [OF r] by (simp add: TreeNode_next_def)
  qed
qed

lemma TreeNode_prev_focused:
  assumes "focused s C (Nd l a r) a"
  shows "TreeNode_prev s a = Some (if ctx_before C @ nodes l = [] then SENTINEL else last (ctx_before C @ nodes l))"
proof -
  have l: "shape (n_parent s) (n_left s) (n_right s) a (n_left s a) l" using assms by (auto simp: focused_def)
  show ?thesis
  proof (cases "l = Lf")
    case True
    then show ?thesis
      using l prev_loop_focused [OF assms] by (auto simp: TreeNode_prev_def)
  next
    case False
    then show ?thesis
      using shape_root [OF l] righttest_shape [OF l] by (simp add: TreeNode_prev_def)
  qed
qed

section \<open>Cached sizes\<close>

text \<open>
  Both caches, \<open>size_left\<close> with the lengths of the pieces and \<open>lf_left\<close> with their line feeds,
  hold for each node the sum over its left subtree. For a context, \<open>v\<close> is the sum that they count
  for the hole.
\<close>

definition tree_sum :: "(node_ref \<Rightarrow> int) \<Rightarrow> node_tree \<Rightarrow> int" where
  "tree_sum f t = sum_list (map f (nodes t))"

lemma tree_sum_simps [simp]:
  "tree_sum f Lf = 0" "tree_sum f (Nd l a r) = tree_sum f l + f a + tree_sum f r"
  by (simp_all add: tree_sum_def)

fun sums_ok :: "(node_ref \<Rightarrow> int) \<Rightarrow> (node_ref \<Rightarrow> int) \<Rightarrow> node_tree \<Rightarrow> bool" where
  "sums_ok S f Lf \<longleftrightarrow> True"
| "sums_ok S f (Nd l a r) \<longleftrightarrow> S a = tree_sum f l \<and> sums_ok S f l \<and> sums_ok S f r"

fun ctx_sums_ok :: "(node_ref \<Rightarrow> int) \<Rightarrow> (node_ref \<Rightarrow> int) \<Rightarrow> int \<Rightarrow> node_ctx \<Rightarrow> bool" where
  "ctx_sums_ok S f v Top \<longleftrightarrow> True"
| "ctx_sums_ok S f v (InL C a r) \<longleftrightarrow> S a = v \<and> sums_ok S f r \<and> ctx_sums_ok S f (v + f a + tree_sum f r) C"
| "ctx_sums_ok S f v (InR l a C) \<longleftrightarrow> S a = tree_sum f l \<and> sums_ok S f l \<and> ctx_sums_ok S f (tree_sum f l + f a + v) C"

lemma sums_ok_plug: "sums_ok S f (plug C t) \<longleftrightarrow> sums_ok S f t \<and> ctx_sums_ok S f (tree_sum f t) C"
  by (induction C arbitrary: t) auto

text \<open>What \<open>calculateSize\<close> adds up, along the right spine.\<close>

fun spine_sum :: "(node_ref \<Rightarrow> int) \<Rightarrow> (node_ref \<Rightarrow> int) \<Rightarrow> node_tree \<Rightarrow> int" where
  "spine_sum S f Lf = 0"
| "spine_sum S f (Nd l a r) = S a + f a + spine_sum S f r"

lemma spine_sum_ok: "sums_ok S f t \<Longrightarrow> spine_sum S f t = tree_sum f t"
  by (induction t) auto

lemma calculateSize_shape:
  "shape (n_parent s) (n_left s) (n_right s) p x t \<Longrightarrow> calculateSize s x = Some (spine_sum (n_size_left s) (n_length s) t)"
proof (induction t arbitrary: p x)
  case Lf
  then show ?case by (subst calculateSize.simps) simp
next
  case (Nd l a r)
  then show ?case by (subst calculateSize.simps) (auto simp: null_ref_def)
qed

lemma calculateLF_shape:
  "shape (n_parent s) (n_left s) (n_right s) p x t \<Longrightarrow> calculateLF s x = Some (spine_sum (n_lf_left s) (n_lineFeedCnt s) t)"
proof (induction t arbitrary: p x)
  case Lf
  then show ?case by (subst calculateLF.simps) simp
next
  case (Nd l a r)
  then show ?case by (subst calculateLF.simps) (auto simp: null_ref_def)
qed

text \<open>Adding to the caches of all nodes that have the hole on their left.\<close>

fun add_left :: "int \<Rightarrow> node_ctx \<Rightarrow> (node_ref \<Rightarrow> int) \<Rightarrow> node_ref \<Rightarrow> int" where
  "add_left d Top S = S"
| "add_left d (InL C a r) S = add_left d C (S(a := S a + d))"
| "add_left d (InR l a C) S = add_left d C S"

lemma add_left_other [simp]: "b \<notin> ctx_nodes C \<Longrightarrow> add_left d C S b = S b"
  by (induction C arbitrary: S) auto

lemma add_left_0 [simp]: "add_left 0 C S = S"
  by (induction C arbitrary: S) auto

lemma sums_ok_cong: "(\<And>b. b \<in> set (nodes t) \<Longrightarrow> S b = S' b) \<Longrightarrow> sums_ok S f t = sums_ok S' f t"
  by (induction t) auto

lemma tree_sum_cong: "(\<And>b. b \<in> set (nodes t) \<Longrightarrow> f b = g b) \<Longrightarrow> tree_sum f t = tree_sum g t"
  by (induction t) auto

lemma sums_ok_upd [simp]: "b \<notin> set (nodes t) \<Longrightarrow> sums_ok (S(b := v)) f t = sums_ok S f t"
  by (rule sums_ok_cong) auto

lemma ctx_sums_ok_upd [simp]: "b \<notin> ctx_nodes C \<Longrightarrow> ctx_sums_ok (S(b := w)) f v C = ctx_sums_ok S f v C"
  by (induction C arbitrary: v) auto

lemma sums_ok_add_left: "set (nodes t) \<inter> ctx_nodes C = {} \<Longrightarrow> sums_ok (add_left d C S) f t = sums_ok S f t"
  by (rule sums_ok_cong, rule add_left_other) auto

lemma ctx_sums_ok_add_left:
  "ctx_shape P L R root x C \<Longrightarrow> ctx_sums_ok S f v C \<Longrightarrow> ctx_sums_ok (add_left d C S) f (v + d) C"
proof (induction C arbitrary: S v x)
  case (InL C a r)
  then have "ctx_sums_ok (S(a := S a + d)) f (v + f a + tree_sum f r) C" by simp
  then have "ctx_sums_ok (add_left d C (S(a := S a + d))) f (v + f a + tree_sum f r + d) C"
    using InL by auto
  then show ?case using InL.prems by (simp add: sums_ok_add_left algebra_simps)
next
  case (InR l a C)
  then have "ctx_sums_ok (add_left d C S) f (tree_sum f l + f a + v + d) C" by auto
  then show ?case using InR.prems by (simp add: sums_ok_add_left algebra_simps)
qed simp

lemma updateTreeMetadata_focused:
  "focused s C t x \<Longrightarrow> t \<noteq> Lf \<Longrightarrow> updateTreeMetadata x d e s =
    Some (s\<lparr>n_size_left := add_left d C (n_size_left s), n_lf_left := add_left e C (n_lf_left s)\<rparr>)"
proof (induction C arbitrary: s t x)
  case Top
  then show ?case using focused_is_root [OF Top] by (subst updateTreeMetadata.simps) simp
next
  case (InL C a r)
  let ?s = "set_lf_left a (n_lf_left s a + e) (set_size_left a (n_size_left s a + d) s)"
  have "focused ?s C (Nd t a r) a" using focused_up(1) [OF InL.prems(1)] by (simp add: focused_def rb_setters)
  from InL.IH [OF this] show ?case
    using focused_is_root [OF InL.prems] focused_root [OF InL.prems] focused_side(1) [OF InL.prems(2,1)]
    by (subst updateTreeMetadata.simps) (auto simp: rb_setters Let_def fun_upd_def)
next
  case (InR l a C)
  from InR.IH [OF focused_up(2) [OF InR.prems(1)]] show ?case
    using focused_is_root [OF InR.prems] focused_root [OF InR.prems] focused_side(2) [OF InR.prems(2,1)]
    by (subst updateTreeMetadata.simps) (auto simp: Let_def)
qed

text \<open>
  What \<open>recomputeTreeMetadata\<close> does from the root of a subtree \<open>t\<close>: it goes up to the first node that
  has it on the left, sets the cache of that node to the sum of its left subtree, and adds the
  difference to the caches further up.
\<close>

fun fix_left :: "(node_ref \<Rightarrow> int) \<Rightarrow> node_ctx \<Rightarrow> node_tree \<Rightarrow> (node_ref \<Rightarrow> int) \<Rightarrow> node_ref \<Rightarrow> int" where
  "fix_left f Top t S = S"
| "fix_left f (InR l a C) t S = fix_left f C (Nd l a t) S"
| "fix_left f (InL C a r) t S = add_left (spine_sum S f t - S a) C (S(a := spine_sum S f t))"

lemma fix_left_spine: "spine_sum S f t = spine_sum S f t' \<Longrightarrow> fix_left f C t S = fix_left f C t' S"
  by (induction f C t S arbitrary: t' rule: fix_left.induct) auto

lemma fix_left_other [simp]: "b \<notin> ctx_nodes C \<Longrightarrow> fix_left f C t S b = S b"
  by (induction f C t S rule: fix_left.induct) auto

lemma fix_left_ok:
  "ctx_shape P L R root x C \<Longrightarrow> set (nodes t) \<inter> ctx_nodes C = {} \<Longrightarrow> sums_ok S f t \<Longrightarrow> ctx_sums_ok S f v C \<Longrightarrow>
    sums_ok (fix_left f C t S) f t \<and> ctx_sums_ok (fix_left f C t S) f (tree_sum f t) C"
proof (induction C arbitrary: t v x)
  case (InL C a r)
  let ?d = "tree_sum f t - v"
  have "ctx_sums_ok (add_left ?d C (S(a := tree_sum f t))) f (v + f a + tree_sum f r + ?d) C"
    using InL.prems by (intro ctx_sums_ok_add_left) auto
  moreover have "set (nodes t) \<inter> ctx_nodes C = {}" "a \<notin> set (nodes t)" using InL.prems(2) by auto
  then have "sums_ok (add_left ?d C (S(a := tree_sum f t))) f t" "sums_ok (add_left ?d C (S(a := tree_sum f t))) f r"
    using InL.prems by (simp_all add: sums_ok_add_left)
  ultimately show ?case using InL.prems by (simp add: spine_sum_ok algebra_simps)
next
  case (InR l a C)
  then have "sums_ok (fix_left f C (Nd l a t) S) f (Nd l a t) \<and>
      ctx_sums_ok (fix_left f C (Nd l a t) S) f (tree_sum f (Nd l a t)) C"
    by (intro InR.IH [of a]) auto
  then show ?case by simp
qed simp

lemma fix_left_id:
  "sums_ok S f t \<Longrightarrow> ctx_sums_ok S f (tree_sum f t) C \<Longrightarrow> fix_left f C t S = S"
  by (induction C arbitrary: t) (auto simp: spine_sum_ok)

lemma recompute_up_focused:
  "focused s C t x \<Longrightarrow> t \<noteq> Lf \<Longrightarrow> recompute_up x d e s =
    Some (s\<lparr>n_size_left := add_left d C (n_size_left s), n_lf_left := add_left e C (n_lf_left s)\<rparr>)"
proof (cases "d = 0 \<and> e = 0")
  case True
  then show ?thesis by (subst recompute_up.simps) simp
next
  case False
  have "focused s C t x \<Longrightarrow> t \<noteq> Lf \<Longrightarrow> recompute_up x d e s = updateTreeMetadata x d e s"
  proof (induction C arbitrary: s t x)
    case Top
    then show ?case
      using focused_is_root [OF Top] by (subst recompute_up.simps, subst updateTreeMetadata.simps) simp
  next
    case (InL C a r)
    let ?s = "set_lf_left a (n_lf_left s a + e) (set_size_left a (n_size_left s a + d) s)"
    have "focused ?s C (Nd t a r) a" using focused_up(1) [OF InL.prems(1)] by (simp add: focused_def rb_setters)
    from InL.IH [OF this] show ?case
      using False focused_is_root [OF InL.prems] focused_root [OF InL.prems] focused_side(1) [OF InL.prems(2,1)]
      by (subst recompute_up.simps, subst updateTreeMetadata.simps) (auto simp: Let_def null_ref_def)
  next
    case (InR l a C)
    from InR.IH [OF focused_up(2) [OF InR.prems(1)]] show ?case
      using False focused_is_root [OF InR.prems] focused_root [OF InR.prems] focused_side(2) [OF InR.prems(2,1)]
      by (subst recompute_up.simps, subst updateTreeMetadata.simps) (auto simp: Let_def null_ref_def)
  qed
  then show "focused s C t x \<Longrightarrow> t \<noteq> Lf \<Longrightarrow> recompute_up x d e s =
    Some (s\<lparr>n_size_left := add_left d C (n_size_left s), n_lf_left := add_left e C (n_lf_left s)\<rparr>)"
    by (simp add: updateTreeMetadata_focused)
qed

fun climb :: "node_ctx \<Rightarrow> node_tree \<Rightarrow> node_ctx \<times> node_tree" where
  "climb (InR l a C) t = climb C (Nd l a t)"
| "climb C t = (C, t)"

lemma climb_not_right: "climb C t = (D, u) \<Longrightarrow> D = Top \<or> (\<exists>D' a r. D = InL D' a r)"
  by (induction C t rule: climb.induct) auto

lemma fix_left_climb: "climb C t = (D, u) \<Longrightarrow> fix_left f C t S = fix_left f D u S"
  by (induction C t rule: climb.induct) auto

lemma recompute_climb_focused:
  "focused s C t x \<Longrightarrow> t \<noteq> Lf \<Longrightarrow> climb C t = (D, u) \<Longrightarrow>
    \<exists>y. focused s D u y \<and> u \<noteq> Lf \<and> recompute_climb x s = Some y"
proof (induction C arbitrary: t x)
  case Top
  then show ?case using focused_is_root [OF Top(1,2)] by (subst recompute_climb.simps) auto
next
  case (InL C a r)
  then show ?case
    using focused_is_root [OF InL(2,3)] focused_side(1) [OF InL(3,2)] focused_root [OF InL(2,3)]
    by (subst recompute_climb.simps) auto
next
  case (InR l a C)
  then obtain y where "focused s D u y" "u \<noteq> Lf" "recompute_climb a s = Some y"
    using focused_up(2) [OF InR(2)] by (metis climb.simps(1) node_tree.distinct(1))
  then show ?case
    using focused_is_root [OF InR(2,3)] focused_root [OF InR(2,3)] focused_side(2) [OF InR(3,2)]
    by (subst recompute_climb.simps) auto
qed

text \<open>The part of \<open>recomputeTreeMetadata\<close> after the climb, from a left child that may be the sentinel.\<close>

lemma recompute_from_left:
  assumes "focused s (InL C a r) t x"
  shows "(do {
      size \<leftarrow> calculateSize s (n_left s a);
      lf \<leftarrow> calculateLF s (n_left s a);
      let delta = size - n_size_left s a;
      let lf_delta = lf - n_lf_left s a;
      let s = set_size_left a (n_size_left s a + delta) s;
      let s = set_lf_left a (n_lf_left s a + lf_delta) s;
      recompute_up a delta lf_delta s
    }) = Some (s\<lparr>n_size_left := fix_left (n_length s) (InL C a r) t (n_size_left s),
        n_lf_left := fix_left (n_lineFeedCnt s) (InL C a r) t (n_lf_left s)\<rparr>)"
proof -
  have t: "shape (n_parent s) (n_left s) (n_right s) a (n_left s a) t"
    using assms by (auto simp: focused_def)
  let ?s = "s\<lparr>n_size_left := (n_size_left s)(a := spine_sum (n_size_left s) (n_length s) t),
    n_lf_left := (n_lf_left s)(a := spine_sum (n_lf_left s) (n_lineFeedCnt s) t)\<rparr>"
  have "focused ?s C (Nd t a r) a" using focused_up(1) [OF assms] by (simp add: focused_def)
  from recompute_up_focused [OF this] show ?thesis
    by (simp add: calculateSize_shape [OF t] calculateLF_shape [OF t] Let_def rb_setters)
qed

lemma recomputeTreeMetadata_focused:
  assumes "focused s C t x" "t \<noteq> Lf"
  shows "recomputeTreeMetadata x s = Some (s\<lparr>n_size_left := fix_left (n_length s) C t (n_size_left s),
    n_lf_left := fix_left (n_lineFeedCnt s) C t (n_lf_left s)\<rparr>)"
proof -
  obtain D u where c: "climb C t = (D, u)" by fastforce
  obtain y where y: "focused s D u y" "u \<noteq> Lf" "recompute_climb x s = Some y"
    using recompute_climb_focused [OF assms c] by blast
  show ?thesis
  proof (cases "C = Top")
    case True
    then show ?thesis using focused_is_root [OF assms] by (simp add: recomputeTreeMetadata_def)
  next
    case False
    have nr: "x \<noteq> rb_root s" using focused_is_root [OF assms] False by simp
    show ?thesis
    proof (cases "D = Top")
      case True
      then show ?thesis
        using nr y(3) focused_is_root [OF y(1,2)] fix_left_climb [OF c]
        by (simp add: recomputeTreeMetadata_def)
    next
      case False
      then obtain D' a r where D: "D = InL D' a r" using climb_not_right [OF c] by auto
      show ?thesis
        using nr y(3) focused_is_root [OF y(1,2)] focused_root [OF y(1,2)] recompute_from_left [OF y(1) [unfolded D]]
          fix_left_climb [OF c] D
        by (simp add: recomputeTreeMetadata_def Let_def)
    qed
  qed
qed

end
