(* ===== verification/PieceTreeInserts.thy ===== *)
theory PieceTreeInserts
  imports PieceTreeNodes
begin

text \<open>
  \<open>fixInsert\<close> of \<open>rbTreeBase.ts\<close> and the two insertions \<open>rbInsertLeft\<close> and \<open>rbInsertRight\<close> of
  \<open>pieceTreeBase.ts\<close>: they end, put the new piece beside the given one in the order of the tree, and
  keep the tree red-black with both of its caches right.
\<close>

section \<open>Insertion\<close>

partial_function (option) fixInsert_loop :: "node_ref \<Rightarrow> 'a rb_tree_scheme \<Rightarrow> 'a rb_tree_scheme option" where
  "fixInsert_loop x s =
     (if x \<noteq> rb_root s \<and> n_color s (n_parent s x) = Red then
        if n_parent s x = n_left s (n_parent s (n_parent s x)) then
          let y = n_right s (n_parent s (n_parent s x)) in
          if n_color s y = Red then
            let g = n_parent s (n_parent s x);
                s = set_color g Red (set_color y Black (set_color (n_parent s x) Black s))
            in fixInsert_loop g s
          else
            let (x, s) = (if x = n_right s (n_parent s x) then (n_parent s x, leftRotate (n_parent s x) s) else (x, s));
                s = set_color (n_parent s x) Black s;
                s = set_color (n_parent s (n_parent s x)) Red s
            in fixInsert_loop x (rightRotate (n_parent s (n_parent s x)) s)
        else
          let y = n_left s (n_parent s (n_parent s x)) in
          if n_color s y = Red then
            let g = n_parent s (n_parent s x);
                s = set_color g Red (set_color y Black (set_color (n_parent s x) Black s))
            in fixInsert_loop g s
          else
            let (x, s) = (if x = n_left s (n_parent s x) then (n_parent s x, rightRotate (n_parent s x) s) else (x, s));
                s = set_color (n_parent s x) Black s;
                s = set_color (n_parent s (n_parent s x)) Red s
            in fixInsert_loop x (leftRotate (n_parent s (n_parent s x)) s)
      else Some s)"

declare fixInsert_loop.simps [code]

definition fixInsert :: "node_ref \<Rightarrow> 'a rb_tree_scheme \<Rightarrow> 'a rb_tree_scheme option" where
  "fixInsert x s = do {
     s \<leftarrow> recomputeTreeMetadata x s;
     s \<leftarrow> fixInsert_loop x s;
     Some (set_color (rb_root s) Black s)
   }"

text \<open>\<open>new TreeNode(p, NodeColor.Red)\<close> with its links set to the sentinel.\<close>

definition new_node :: "piece \<Rightarrow> 'a rb_tree_scheme \<Rightarrow> node_ref \<times> 'a rb_tree_scheme" where
  "new_node p s =
     (let z = rb_fresh s;
          s = s\<lparr>rb_fresh := Suc z\<rparr>;
          s = set_color z Red (set_piece z p s);
          s = set_parent z SENTINEL (set_right z SENTINEL (set_left z SENTINEL s))
      in (z, set_lf_left z 0 (set_size_left z 0 s)))"

definition rbInsertRight :: "node_ref \<Rightarrow> piece \<Rightarrow> 'a rb_tree_scheme \<Rightarrow> (node_ref \<times> 'a rb_tree_scheme) option" where
  "rbInsertRight node p s = do {
     let (z, s) = new_node p s;
     s \<leftarrow> (if rb_root s = SENTINEL then Some (set_color z Black (set_root z s))
          else if n_right s node = SENTINEL then Some (set_parent z node (set_right node z s))
          else do { nextNode \<leftarrow> leftest s (n_right s node); Some (set_parent z nextNode (set_left nextNode z s)) });
     s \<leftarrow> fixInsert z s;
     Some (z, s)
   }"

definition rbInsertLeft :: "node_ref \<Rightarrow> piece \<Rightarrow> 'a rb_tree_scheme \<Rightarrow> (node_ref \<times> 'a rb_tree_scheme) option" where
  "rbInsertLeft node p s = do {
     let (z, s) = new_node p s;
     s \<leftarrow> (if rb_root s = SENTINEL then Some (set_color z Black (set_root z s))
          else if n_left s node = SENTINEL then Some (set_parent z node (set_left node z s))
          else do { prevNode \<leftarrow> righttest s (n_left s node); Some (set_parent z prevNode (set_right prevNode z s)) });
     s \<leftarrow> fixInsert z s;
     Some (z, s)
   }"

section \<open>Colours\<close>

text \<open>
  No red node has a red child, and all paths to a leaf pass the same number of black nodes. For a
  context, the hole has the colour \<open>k\<close> and the black height \<open>h\<close>; a hole at the top has to be black.
\<close>

type_synonym colouring = "node_ref \<Rightarrow> node_color"

fun root_color :: "colouring \<Rightarrow> node_tree \<Rightarrow> node_color" where
  "root_color c Lf = Black"
| "root_color c (Nd l a r) = c a"

fun red_ok :: "colouring \<Rightarrow> node_tree \<Rightarrow> bool" where
  "red_ok c Lf \<longleftrightarrow> True"
| "red_ok c (Nd l a r) \<longleftrightarrow>
     (c a = Red \<longrightarrow> root_color c l = Black \<and> root_color c r = Black) \<and> red_ok c l \<and> red_ok c r"

fun black_height :: "colouring \<Rightarrow> node_tree \<Rightarrow> nat" where
  "black_height c Lf = 0"
| "black_height c (Nd l a r) = black_height c l + (if c a = Black then 1 else 0)"

fun height_ok :: "colouring \<Rightarrow> node_tree \<Rightarrow> bool" where
  "height_ok c Lf \<longleftrightarrow> True"
| "height_ok c (Nd l a r) \<longleftrightarrow> black_height c l = black_height c r \<and> height_ok c l \<and> height_ok c r"

fun ctx_red_ok :: "colouring \<Rightarrow> node_color \<Rightarrow> node_ctx \<Rightarrow> bool" where
  "ctx_red_ok c k Top \<longleftrightarrow> k = Black"
| "ctx_red_ok c k (InL C a r) \<longleftrightarrow>
     (c a = Red \<longrightarrow> k = Black \<and> root_color c r = Black) \<and> red_ok c r \<and> ctx_red_ok c (c a) C"
| "ctx_red_ok c k (InR l a C) \<longleftrightarrow>
     (c a = Red \<longrightarrow> root_color c l = Black \<and> k = Black) \<and> red_ok c l \<and> ctx_red_ok c (c a) C"

fun ctx_height_ok :: "colouring \<Rightarrow> nat \<Rightarrow> node_ctx \<Rightarrow> bool" where
  "ctx_height_ok c h Top \<longleftrightarrow> True"
| "ctx_height_ok c h (InL C a r) \<longleftrightarrow>
     h = black_height c r \<and> height_ok c r \<and> ctx_height_ok c (h + (if c a = Black then 1 else 0)) C"
| "ctx_height_ok c h (InR l a C) \<longleftrightarrow>
     black_height c l = h \<and> height_ok c l \<and> ctx_height_ok c (h + (if c a = Black then 1 else 0)) C"

lemma colours_plug:
  "red_ok c (plug C t) \<and> root_color c (plug C t) = Black \<longleftrightarrow> red_ok c t \<and> ctx_red_ok c (root_color c t) C"
  by (induction C arbitrary: t) auto

lemma height_ok_plug: "height_ok c (plug C t) \<longleftrightarrow> height_ok c t \<and> ctx_height_ok c (black_height c t) C"
proof (induction C arbitrary: t)
  case (InL C a r)
  then show ?case by (cases "black_height c t = black_height c r") auto
next
  case (InR l a C)
  then show ?case by (cases "black_height c l = black_height c t") auto
qed simp

lemma colour_upd [simp]:
  "b \<notin> set (nodes t) \<Longrightarrow> root_color (c(b := k)) t = root_color c t"
  "b \<notin> set (nodes t) \<Longrightarrow> red_ok (c(b := k)) t = red_ok c t"
  "b \<notin> set (nodes t) \<Longrightarrow> black_height (c(b := k)) t = black_height c t"
  "b \<notin> set (nodes t) \<Longrightarrow> height_ok (c(b := k)) t = height_ok c t"
proof -
  show rc: "b \<notin> set (nodes t) \<Longrightarrow> root_color (c(b := k)) t = root_color c t" for t
    by (cases t) auto
  show "b \<notin> set (nodes t) \<Longrightarrow> red_ok (c(b := k)) t = red_ok c t"
    by (induction t) (auto simp: rc)
  show bh: "b \<notin> set (nodes t) \<Longrightarrow> black_height (c(b := k)) t = black_height c t" for t
    by (induction t) auto
  show "b \<notin> set (nodes t) \<Longrightarrow> height_ok (c(b := k)) t = height_ok c t"
    by (induction t) (auto simp: bh)
qed

lemma ctx_colour_upd [simp]:
  "b \<notin> ctx_nodes C \<Longrightarrow> ctx_red_ok (c(b := k)) j C = ctx_red_ok c j C"
  "b \<notin> ctx_nodes C \<Longrightarrow> ctx_height_ok (c(b := k)) h C = ctx_height_ok c h C"
  by (induction C arbitrary: j h) auto

lemma ctx_red_ok_black: "ctx_red_ok c k C \<Longrightarrow> ctx_red_ok c Black C"
  by (cases C) auto

lemma shape_color:
  "shape P L R p x t \<Longrightarrow> c SENTINEL = Black \<Longrightarrow> c x = root_color c t"
  by (cases t) auto

section \<open>Inserting\<close>

lemma focused_links [simp]:
  "focused (set_color x k s) C t y = focused s C t y" "focused (set_piece x p s) C t y = focused s C t y"
  "focused (set_size_left x v s) C t y = focused s C t y" "focused (set_lf_left x v s) C t y = focused s C t y"
  by (simp_all add: focused_def rb_setters)

lemma other_fields [simp]:
  "n_parent (set_color x k s) = n_parent s" "n_left (set_color x k s) = n_left s" "n_right (set_color x k s) = n_right s"
  "rb_root (set_color x k s) = rb_root s" "n_color (set_color x k s) = (n_color s)(x := k)"
  "n_piece (set_color x k s) = n_piece s" "n_size_left (set_color x k s) = n_size_left s"
  "n_lf_left (set_color x k s) = n_lf_left s" "rb_fresh (set_color x k s) = rb_fresh s"
  by (simp_all add: set_color_def)

lemma focused_child:
  "focused s C (Nd (Nd A p B) g u) g \<Longrightarrow> n_left s g = p \<and> n_parent s p = g"
  "focused s C (Nd u g (Nd A p B)) g \<Longrightarrow> n_right s g = p \<and> n_parent s p = g"
  by (simp_all add: focused_def)

lemma focused_down:
  "focused s C (Nd (Nd A p B) g u) g \<Longrightarrow> focused s (InL C g u) (Nd A p B) p"
  "focused s C (Nd u g (Nd A p B)) g \<Longrightarrow> focused s (InR u g C) (Nd A p B) p"
proof -
  assume f: "focused s C (Nd (Nd A p B) g u) g"
  then show "focused s (InL C g u) (Nd A p B) p"
    using focused_child(1) [OF f] unfolding focused_left [of s C] by simp
next
  assume f: "focused s C (Nd u g (Nd A p B)) g"
  then show "focused s (InR u g C) (Nd A p B) p"
    using focused_child(2) [OF f] unfolding focused_right [of s C] by simp
qed

lemma focused_child_color:
  assumes "n_color s SENTINEL = Black"
  shows "focused s C (Nd l a r) a \<Longrightarrow> n_color s (n_left s a) = root_color (n_color s) l"
    and "focused s C (Nd l a r) a \<Longrightarrow> n_color s (n_right s a) = root_color (n_color s) r"
  using assms shape_color unfolding focused_def by (metis shape.simps(2))+

lemma focused_siblings:
  "focused s C (Nd (Nd l x r) a u) a \<Longrightarrow> n_right s a \<noteq> x"
  "focused s C (Nd u a (Nd l x r)) a \<Longrightarrow> n_left s a \<noteq> x"
proof -
  assume f: "focused s C (Nd (Nd l x r) a u) a"
  have "focused s (InL C a u) (Nd l x r) x" using f focused_child(1) [OF f] by (simp add: focused_left [of s C])
  from focused_side(1) [OF _ this] show "n_right s a \<noteq> x" by simp
next
  assume f: "focused s C (Nd u a (Nd l x r)) a"
  have "focused s (InR u a C) (Nd l x r) x" using f focused_child(2) [OF f] by (simp add: focused_right [of s C])
  from focused_side(2) [OF _ this] show "n_left s a \<noteq> x" by simp
qed

text \<open>The first iteration below a red parent that is a left child, and below one that is a right child.\<close>

lemma fixInsert_left:
  assumes "focused s D (Nd (Nd A p B) g u) g" "n_color s p = Red" "n_color s SENTINEL = Black" "x \<noteq> rb_root s"
  shows "n_parent s x = p \<Longrightarrow> root_color (n_color s) u = Red \<Longrightarrow>
      fixInsert_loop x s = fixInsert_loop g (set_color g Red (set_color (n_right s g) Black (set_color p Black s)))"
    and "A = Nd l x r \<Longrightarrow> root_color (n_color s) u = Black \<Longrightarrow>
      fixInsert_loop x s = fixInsert_loop x (rightRotate g (set_color g Red (set_color p Black s)))"
    and "B = Nd l x r \<Longrightarrow> root_color (n_color s) u = Black \<Longrightarrow>
      fixInsert_loop x s = fixInsert_loop p (rightRotate g (set_color g Red (set_color x Black (leftRotate p s))))"
proof -
  note g = focused_child(1) [OF assms(1)] focused_child_color(2) [OF assms(3,1)]
  have p: "focused s (InL D g u) (Nd A p B) p" using assms(1) g by (simp add: focused_left)
  show "n_parent s x = p \<Longrightarrow> root_color (n_color s) u = Red \<Longrightarrow>
      fixInsert_loop x s = fixInsert_loop g (set_color g Red (set_color (n_right s g) Black (set_color p Black s)))"
    using assms(2,4) g by (subst fixInsert_loop.simps) (simp add: Let_def)
  show "fixInsert_loop x s = fixInsert_loop x (rightRotate g (set_color g Red (set_color p Black s)))"
    if "A = Nd l x r" "root_color (n_color s) u = Black"
  proof -
    have "n_parent s x = p" "x \<noteq> n_right s p"
      using p focused_child(1) [of s "InL D g u" l x r p B] focused_siblings(1) [of s "InL D g u" l x r p B] that by auto
    then show ?thesis
      using assms(2,4) g that by (subst fixInsert_loop.simps) (simp add: Let_def)
  qed
  show "fixInsert_loop x s = fixInsert_loop p (rightRotate g (set_color g Red (set_color x Black (leftRotate p s))))"
    if "B = Nd l x r" "root_color (n_color s) u = Black"
  proof -
    have x: "n_parent s x = p" "x = n_right s p"
      using p focused_child(2) [of s "InL D g u" A p l x r] that by auto
    have "focused (leftRotate p s) (InL D g u) (Nd (Nd A p l) x r) x"
      using leftRotate_focused(1) [of s "InL D g u" A p l x r] p that by simp
    then have "n_parent (leftRotate p s) p = x" "n_parent (leftRotate p s) x = g" by (simp_all add: focused_def)
    then show ?thesis
      using assms(2,4) g that x by (subst fixInsert_loop.simps) (simp add: Let_def)
  qed
qed

lemma fixInsert_right:
  assumes "focused s D (Nd u g (Nd A p B)) g" "n_color s p = Red" "n_color s SENTINEL = Black" "x \<noteq> rb_root s"
  shows "n_parent s x = p \<Longrightarrow> root_color (n_color s) u = Red \<Longrightarrow>
      fixInsert_loop x s = fixInsert_loop g (set_color g Red (set_color (n_left s g) Black (set_color p Black s)))"
    and "B = Nd l x r \<Longrightarrow> root_color (n_color s) u = Black \<Longrightarrow>
      fixInsert_loop x s = fixInsert_loop x (leftRotate g (set_color g Red (set_color p Black s)))"
    and "A = Nd l x r \<Longrightarrow> root_color (n_color s) u = Black \<Longrightarrow>
      fixInsert_loop x s = fixInsert_loop p (leftRotate g (set_color g Red (set_color x Black (rightRotate p s))))"
proof -
  note g = focused_child(2) [OF assms(1)] focused_child_color(1) [OF assms(3,1)] focused_siblings(2) [OF assms(1)]
  have p: "focused s (InR u g D) (Nd A p B) p" using assms(1) g by (simp add: focused_right)
  show "n_parent s x = p \<Longrightarrow> root_color (n_color s) u = Red \<Longrightarrow>
      fixInsert_loop x s = fixInsert_loop g (set_color g Red (set_color (n_left s g) Black (set_color p Black s)))"
    using assms(2,4) g by (subst fixInsert_loop.simps) (simp add: Let_def)
  show "fixInsert_loop x s = fixInsert_loop x (leftRotate g (set_color g Red (set_color p Black s)))"
    if "B = Nd l x r" "root_color (n_color s) u = Black"
  proof -
    have "n_parent s x = p" "x \<noteq> n_left s p"
      using p focused_child(2) [of s "InR u g D" A p l x r] focused_siblings(2) [of s "InR u g D" A p l x r] that by auto
    then show ?thesis
      using assms(2,4) g that by (subst fixInsert_loop.simps) (simp add: Let_def)
  qed
  show "fixInsert_loop x s = fixInsert_loop p (leftRotate g (set_color g Red (set_color x Black (rightRotate p s))))"
    if "A = Nd l x r" "root_color (n_color s) u = Black"
  proof -
    have x: "n_parent s x = p" "x = n_left s p"
      using p focused_child(1) [of s "InR u g D" l x r p B] that by auto
    have "focused (rightRotate p s) (InR u g D) (Nd l x (Nd r p B)) x"
      using rightRotate_focused(1) [of s "InR u g D" l x r p B] p that by simp
    then have "n_parent (rightRotate p s) p = x" "n_parent (rightRotate p s) x = g" by (simp_all add: focused_def)
    then show ?thesis
      using assms(2,4) g that x by (subst fixInsert_loop.simps) (simp add: Let_def)
  qed
qed

text \<open>Both caches hold the right sums.\<close>

definition caches_ok :: "'a rb_tree_scheme \<Rightarrow> node_tree \<Rightarrow> bool" where
  "caches_ok s t \<longleftrightarrow> sums_ok (n_size_left s) (n_length s) t \<and> sums_ok (n_lf_left s) (n_lineFeedCnt s) t"

lemma n_length_cong: "n_piece s' = n_piece s \<Longrightarrow> n_length s' = n_length s \<and> n_lineFeedCnt s' = n_lineFeedCnt s"
  by (simp add: n_length_def [abs_def] n_lineFeedCnt_def [abs_def])

lemma caches_ok_set_color [simp]: "caches_ok (set_color x k s) t = caches_ok s t"
  using n_length_cong [of "set_color x k s" s] by (simp add: caches_ok_def)

lemma sums_ok_leftRotate:
  assumes "sums_ok S f (plug C (Nd A x (Nd B y D)))" "x \<noteq> y" "y \<notin> ctx_nodes C"
    "y \<notin> set (nodes A)" "y \<notin> set (nodes B)" "y \<notin> set (nodes D)"
  shows "sums_ok (S(y := S y + (S x + f x))) f (plug C (Nd (Nd A x B) y D))"
  using assms by (simp add: sums_ok_plug algebra_simps)

lemma sums_ok_rightRotate:
  assumes "sums_ok S f (plug C (Nd (Nd A x B) y D))" "x \<noteq> y" "y \<notin> ctx_nodes C"
    "y \<notin> set (nodes A)" "y \<notin> set (nodes B)" "y \<notin> set (nodes D)"
  shows "sums_ok (S(y := S y - (S x + f x))) f (plug C (Nd A x (Nd B y D)))"
  using assms by (simp add: sums_ok_plug algebra_simps)

lemma caches_ok_leftRotate:
  assumes "focused s C (Nd A x (Nd B y D)) x" "caches_ok s (plug C (Nd A x (Nd B y D)))"
  shows "caches_ok (leftRotate x s) (plug C (Nd (Nd A x B) y D))"
  using assms n_length_cong [OF leftRotate_focused(5) [OF assms(1)]]
  unfolding caches_ok_def leftRotate_focused(2,3) [OF assms(1)]
  by (auto intro!: sums_ok_leftRotate simp: focused_def)

lemma caches_ok_rightRotate:
  assumes "focused s C (Nd (Nd A x B) y D) y" "caches_ok s (plug C (Nd (Nd A x B) y D))"
  shows "caches_ok (rightRotate y s) (plug C (Nd A x (Nd B y D)))"
  using assms n_length_cong [OF rightRotate_focused(5) [OF assms(1)]]
  unfolding caches_ok_def rightRotate_focused(2,3) [OF assms(1)]
  by (auto intro!: sums_ok_rightRotate simp: focused_def)

text \<open>A tree with its caches and colours, up to the colour of its root, and what all operations keep.\<close>

definition coloured :: "'a rb_tree_scheme \<Rightarrow> node_tree \<Rightarrow> bool" where
  "coloured s t \<longleftrightarrow> tree_of s t \<and> caches_ok s t \<and> n_color s SENTINEL = Black \<and>
     red_ok (n_color s) t \<and> height_ok (n_color s) t"

definition detached :: "'a rb_tree_scheme \<Rightarrow> node_ref \<Rightarrow> bool" where
  "detached s b \<longleftrightarrow> b \<noteq> SENTINEL \<and> n_parent s b = null_ref"

lemma detached_simps [simp]:
  "detached (s\<lparr>n_size_left := S\<rparr>) = detached s" "detached (s\<lparr>n_lf_left := S\<rparr>) = detached s"
  "detached (s\<lparr>n_color := c\<rparr>) = detached s" "detached (s\<lparr>n_left := L\<rparr>) = detached s" "detached (s\<lparr>n_right := L\<rparr>) = detached s"
  "detached (s\<lparr>n_piece := P\<rparr>) = detached s" "detached (resetSentinel s) = detached s"
  by (auto simp: detached_def [abs_def] resetSentinel_def set_parent_def)

definition same_pieces :: "'a rb_tree_scheme \<Rightarrow> 'a rb_tree_scheme \<Rightarrow> bool" where
  "same_pieces s' s \<longleftrightarrow> n_piece s' = n_piece s \<and> rb_fresh s' = rb_fresh s \<and> (\<forall>b. detached s b \<longrightarrow> detached s' b)"

lemma same_pieces_sizes [simp]:
  "same_pieces s' (s\<lparr>n_size_left := S\<rparr>) = same_pieces s' s" "same_pieces s' (s\<lparr>n_lf_left := S\<rparr>) = same_pieces s' s"
  "same_pieces (s\<lparr>n_size_left := S\<rparr>) s' = same_pieces s s'" "same_pieces (s\<lparr>n_lf_left := S\<rparr>) s' = same_pieces s s'"
  by (simp_all add: same_pieces_def)

text \<open>The focus \<open>t\<close> has a red root \<open>x\<close>; all is well but that the parent of \<open>x\<close> may be red, too.\<close>

definition inserting :: "'a rb_tree_scheme \<Rightarrow> node_ctx \<Rightarrow> node_tree \<Rightarrow> node_ref \<Rightarrow> bool" where
  "inserting s C t x \<longleftrightarrow> focused s C t x \<and> t \<noteq> Lf \<and> caches_ok s (plug C t) \<and> n_color s SENTINEL = Black \<and>
     n_color s x = Red \<and> red_ok (n_color s) t \<and> height_ok (n_color s) t \<and>
     ctx_red_ok (n_color s) Black C \<and> ctx_height_ok (n_color s) (black_height (n_color s) t) C"

lemma fixInsert_loop_stop:
  assumes "inserting s C t x" "C = Top \<or> n_color s (ctx_parent C) = Black"
  shows "fixInsert_loop x s = Some s \<and> coloured s (plug C t)"
proof -
  have i: "focused s C t x" "t \<noteq> Lf" using assms(1) by (simp_all add: inserting_def)
  have "fixInsert_loop x s = Some s"
    using assms(2) focused_is_root [OF i] focused_root [OF i] by (subst fixInsert_loop.simps) auto
  moreover have "red_ok (n_color s) (plug C t)"
  proof (cases C)
    case Top
    then show ?thesis using assms(1) by (simp add: inserting_def)
  next
    case (InL D a r)
    then have "ctx_red_ok (n_color s) (root_color (n_color s) t) C"
      using assms by (auto simp: inserting_def)
    then show ?thesis using assms(1) colours_plug by (metis inserting_def)
  next
    case (InR l a D)
    then have "ctx_red_ok (n_color s) (root_color (n_color s) t) C"
      using assms by (auto simp: inserting_def)
    then show ?thesis using assms(1) colours_plug by (metis inserting_def)
  qed
  ultimately show ?thesis
    using assms(1) focused_plug [OF i(1)] by (auto simp: coloured_def inserting_def height_ok_plug)
qed

text \<open>The red parent \<open>p\<close>, its parent \<open>g\<close> and the uncle \<open>u\<close>, with the parent on the left or on the right.\<close>

definition grand_ok :: "'a rb_tree_scheme \<Rightarrow> node_ctx \<Rightarrow> node_tree \<Rightarrow> node_ref \<Rightarrow> node_tree \<Rightarrow> node_ref \<Rightarrow> node_tree \<Rightarrow> bool" where
  "grand_ok s D A p B g u \<longleftrightarrow> n_color s SENTINEL = Black \<and> n_color s p = Red \<and> n_color s g = Black \<and>
     red_ok (n_color s) A \<and> red_ok (n_color s) B \<and> red_ok (n_color s) u \<and>
     height_ok (n_color s) A \<and> height_ok (n_color s) B \<and> height_ok (n_color s) u \<and>
     black_height (n_color s) A = black_height (n_color s) B \<and> black_height (n_color s) u = black_height (n_color s) B \<and>
     ctx_red_ok (n_color s) Black D \<and> ctx_height_ok (n_color s) (Suc (black_height (n_color s) B)) D"

lemma grandI:
  assumes "n_color s SENTINEL = Black" "n_color s p = Red" "red_ok (n_color s) A" "red_ok (n_color s) B"
    "height_ok (n_color s) A" "height_ok (n_color s) B" "black_height (n_color s) A = black_height (n_color s) B"
    "ctx_red_ok (n_color s) Red E" "ctx_height_ok (n_color s) (black_height (n_color s) B) E"
    and "E = InL D g u \<or> E = InR u g D"
  shows "grand_ok s D A p B g u"
  using assms by (cases "n_color s g") (auto simp: grand_ok_def)

lemma inserting_parent:
  assumes "n_color s p = Red" "E = InL D g u \<or> E = InR u g D"
  shows "inserting s (InL E p B) A x \<Longrightarrow> grand_ok s D A p B g u \<and> root_color (n_color s) B = Black"
    and "inserting s (InR A p E) B x \<Longrightarrow> grand_ok s D A p B g u \<and> root_color (n_color s) A = Black"
proof -
  assume i: "inserting s (InL E p B) A x"
  then have "grand_ok s D A p B g u"
    using assms by (intro grandI [OF _ _ _ _ _ _ _ _ _ assms(2)]) (auto simp: inserting_def)
  then show "grand_ok s D A p B g u \<and> root_color (n_color s) B = Black"
    using i assms(1) by (simp add: inserting_def)
next
  assume i: "inserting s (InR A p E) B x"
  then have "grand_ok s D A p B g u"
    using assms by (intro grandI [OF _ _ _ _ _ _ _ _ _ assms(2)]) (auto simp: inserting_def)
  then show "grand_ok s D A p B g u \<and> root_color (n_color s) A = Black"
    using i assms(1) by (simp add: inserting_def)
qed

lemma inserting_focused:
  "inserting s (InL (InL D g u) p B) A x \<Longrightarrow> focused s D (Nd (Nd A p B) g u) g \<and> caches_ok s (plug D (Nd (Nd A p B) g u))"
  "inserting s (InR A p (InL D g u)) B x \<Longrightarrow> focused s D (Nd (Nd A p B) g u) g \<and> caches_ok s (plug D (Nd (Nd A p B) g u))"
  "inserting s (InL (InR u g D) p B) A x \<Longrightarrow> focused s D (Nd u g (Nd A p B)) g \<and> caches_ok s (plug D (Nd u g (Nd A p B)))"
  "inserting s (InR A p (InR u g D)) B x \<Longrightarrow> focused s D (Nd u g (Nd A p B)) g \<and> caches_ok s (plug D (Nd u g (Nd A p B)))"
  by (auto simp: inserting_def dest!: focused_up)

lemma recolor_left:
  assumes "focused s D (Nd (Nd A p B) g u) g" "caches_ok s (plug D (Nd (Nd A p B) g u))" "grand_ok s D A p B g u"
    and "root_color (n_color s) u = Red"
  shows "inserting (set_color g Red (set_color (n_right s g) Black (set_color p Black s))) D (Nd (Nd A p B) g u) g"
proof -
  obtain ul v ur where u: "u = Nd ul v ur" using assms(4) by (cases u) auto
  have v: "n_right s g = v" using assms(1) u by (simp add: focused_def)
  show ?thesis
    using assms unfolding v u by (auto simp: inserting_def grand_ok_def focused_def)
qed

lemma rotate_left_outer:
  assumes "focused s D (Nd (Nd A p B) g u) g" "caches_ok s (plug D (Nd (Nd A p B) g u))" "grand_ok s D A p B g u"
    and "root_color (n_color s) u = Black" "root_color (n_color s) B = Black" "A = Nd l x r" "n_color s x = Red"
  shows "inserting (rightRotate g (set_color g Red (set_color p Black s))) (InL D p (Nd B g u)) A x"
proof -
  let ?s = "set_color g Red (set_color p Black s)"
  have f: "focused ?s D (Nd (Nd A p B) g u) g" using assms(1) by simp
  note r = rightRotate_focused [OF f]
  have "focused (rightRotate g ?s) (InL D p (Nd B g u)) A x"
    using focused_down(1) [of "rightRotate g ?s" D l x r p] r(1) assms(6) by simp
  moreover have "caches_ok (rightRotate g ?s) (plug (InL D p (Nd B g u)) A)"
    using caches_ok_rightRotate [OF f] assms(2) by simp
  ultimately show ?thesis
    using assms unfolding inserting_def r(4) by (auto simp: grand_ok_def focused_def)
qed

lemma recolor_right:
  assumes "focused s D (Nd u g (Nd A p B)) g" "caches_ok s (plug D (Nd u g (Nd A p B)))" "grand_ok s D A p B g u"
    and "root_color (n_color s) u = Red"
  shows "inserting (set_color g Red (set_color (n_left s g) Black (set_color p Black s))) D (Nd u g (Nd A p B)) g"
proof -
  obtain ul v ur where u: "u = Nd ul v ur" using assms(4) by (cases u) auto
  have v: "n_left s g = v" using assms(1) u by (simp add: focused_def)
  show ?thesis
    using assms unfolding v u by (auto simp: inserting_def grand_ok_def focused_def)
qed

lemma rotate_right_outer:
  assumes "focused s D (Nd u g (Nd A p B)) g" "caches_ok s (plug D (Nd u g (Nd A p B)))" "grand_ok s D A p B g u"
    and "root_color (n_color s) u = Black" "root_color (n_color s) A = Black" "B = Nd l x r" "n_color s x = Red"
  shows "inserting (leftRotate g (set_color g Red (set_color p Black s))) (InR (Nd u g A) p D) B x"
proof -
  let ?s = "set_color g Red (set_color p Black s)"
  have f: "focused ?s D (Nd u g (Nd A p B)) g" using assms(1) by simp
  note r = leftRotate_focused [OF f]
  have "focused (leftRotate g ?s) (InR (Nd u g A) p D) B x"
    using focused_down(2) [of "leftRotate g ?s" D "Nd u g A" p l x r] r(1) assms(6) by simp
  moreover have "caches_ok (leftRotate g ?s) (plug (InR (Nd u g A) p D) B)"
    using caches_ok_leftRotate [OF f] assms(2) by simp
  ultimately show ?thesis
    using assms unfolding inserting_def r(4) by (auto simp: grand_ok_def focused_def)
qed

text \<open>An inner red child: the rotation about the parent makes it an outer one, and \<open>p\<close> its child.\<close>

lemma rotate_left_inner:
  assumes "focused s D (Nd (Nd A p B) g u) g" "caches_ok s (plug D (Nd (Nd A p B) g u))" "grand_ok s D A p B g u"
    and "root_color (n_color s) A = Black" "B = Nd l x r" "n_color s x = Red"
  shows "focused (leftRotate p s) D (Nd (Nd (Nd A p l) x r) g u) g \<and>
    caches_ok (leftRotate p s) (plug D (Nd (Nd (Nd A p l) x r) g u)) \<and>
    grand_ok (leftRotate p s) D (Nd A p l) x r g u \<and> root_color (n_color s) r = Black \<and>
    n_color (leftRotate p s) = n_color s"
proof -
  have f: "focused s (InL D g u) (Nd A p (Nd l x r)) p" using focused_down(1) [OF assms(1)] assms(5) by simp
  note r = leftRotate_focused [OF f]
  show ?thesis
    using focused_up(1) [OF r(1)] caches_ok_leftRotate [OF f] assms r(4) by (auto simp: grand_ok_def)
qed

lemma rotate_right_inner:
  assumes "focused s D (Nd u g (Nd A p B)) g" "caches_ok s (plug D (Nd u g (Nd A p B)))" "grand_ok s D A p B g u"
    and "root_color (n_color s) B = Black" "A = Nd l x r" "n_color s x = Red"
  shows "focused (rightRotate p s) D (Nd u g (Nd l x (Nd r p B))) g \<and>
    caches_ok (rightRotate p s) (plug D (Nd u g (Nd l x (Nd r p B)))) \<and>
    grand_ok (rightRotate p s) D l x (Nd r p B) g u \<and> root_color (n_color s) l = Black \<and>
    n_color (rightRotate p s) = n_color s"
proof -
  have f: "focused s (InR u g D) (Nd (Nd l x r) p B) p" using focused_down(2) [OF assms(1)] assms(5) by simp
  note r = rightRotate_focused [OF f]
  show ?thesis
    using focused_up(2) [OF r(1)] caches_ok_rightRotate [OF f] assms r(4) by (auto simp: grand_ok_def)
qed

lemma same_pieces_trans: "same_pieces s2 s1 \<Longrightarrow> same_pieces s1 s \<Longrightarrow> same_pieces s2 s"
  by (simp add: same_pieces_def)

lemma same_pieces_set_color [simp]: "same_pieces (set_color x k s) s' = same_pieces s s'"
  by (simp add: same_pieces_def detached_def)

lemma same_pieces_set_color2 [simp]: "same_pieces s' (set_color x k s) = same_pieces s' s"
  by (simp add: same_pieces_def detached_def)

lemma same_pieces_refl [simp]: "same_pieces s s"
  by (simp add: same_pieces_def)

lemma ctx_parent_not_null: "ctx_shape P L R root x C \<Longrightarrow> ctx_parent C \<noteq> null_ref"
  by (cases C) (auto simp: null_ref_def)

lemma replaceChild_parent [simp]:
  "n_parent (replaceLeftChild x y s) = n_parent s" "n_parent (replaceRightChild x y s) = n_parent s"
  by (simp_all add: replaceLeftChild_def replaceRightChild_def rb_setters)

lemma rotate_detached:
  "\<not> detached s x \<Longrightarrow> \<not> detached s (n_right s x) \<Longrightarrow> \<not> detached s (n_left s (n_right s x)) \<Longrightarrow> detached s b \<Longrightarrow>
    detached (leftRotate x s) b"
  "\<not> detached s y \<Longrightarrow> \<not> detached s (n_left s y) \<Longrightarrow> \<not> detached s (n_right s (n_left s y)) \<Longrightarrow> detached s b \<Longrightarrow>
    detached (rightRotate y s) b"
  by (auto simp: detached_def leftRotate_def rightRotate_def Let_def adopt_def rb_setters)

lemma not_detached:
  "focused s C (Nd l a r) a \<Longrightarrow> \<not> detached s a"
  "shape (n_parent s) (n_left s) (n_right s) p x t \<Longrightarrow> p \<noteq> null_ref \<Longrightarrow> \<not> detached s x"
proof -
  show "\<not> detached s a" if f: "focused s C (Nd l a r) a"
  proof -
    have "n_parent s a = ctx_parent C" "ctx_parent C \<noteq> null_ref"
      using f ctx_parent_not_null unfolding focused_def by auto
    then show ?thesis by (simp add: detached_def)
  qed
  show "shape (n_parent s) (n_left s) (n_right s) p x t \<Longrightarrow> p \<noteq> null_ref \<Longrightarrow> \<not> detached s x"
    by (cases t) (auto simp: detached_def)
qed

lemma same_pieces_rotate:
  "focused s C (Nd A x (Nd B y D)) x \<Longrightarrow> same_pieces (leftRotate x s) s"
  "focused s C (Nd (Nd A x B) y D) y \<Longrightarrow> same_pieces (rightRotate y s) s"
proof -
  assume f: "focused s C (Nd A x (Nd B y D)) x"
  have y: "n_right s x = y" "shape (n_parent s) (n_left s) (n_right s) y (n_left s y) B" "y \<noteq> null_ref"
    using f by (auto simp: focused_def)
  then have "\<not> detached s (n_right s x)" "\<not> detached s (n_left s (n_right s x))"
    using not_detached(1) [OF focused_down(2) [OF f]] not_detached(2) [OF y(2,3)] by simp_all
  then show "same_pieces (leftRotate x s) s"
    using leftRotate_focused(5,6) [OF f] rotate_detached(1) [OF not_detached(1) [OF f]] by (simp add: same_pieces_def)
next
  assume f: "focused s C (Nd (Nd A x B) y D) y"
  have x: "n_left s y = x" "shape (n_parent s) (n_left s) (n_right s) x (n_right s x) B" "x \<noteq> null_ref"
    using f by (auto simp: focused_def)
  then have "\<not> detached s (n_left s y)" "\<not> detached s (n_right s (n_left s y))"
    using not_detached(1) [OF focused_down(1) [OF f]] not_detached(2) [OF x(2,3)] by simp_all
  then show "same_pieces (rightRotate y s) s"
    using rightRotate_focused(5,6) [OF f] rotate_detached(2) [OF not_detached(1) [OF f]] by (simp add: same_pieces_def)
qed

text \<open>
  One iteration below a red parent: the loop goes on at the grandparent, or it continues below a
  black parent, where it stops.
\<close>

definition iterated :: "'a rb_tree_scheme \<Rightarrow> node_ref \<Rightarrow> node_ctx \<Rightarrow> node_tree \<Rightarrow> bool" where
  "iterated s x D T \<longleftrightarrow> (\<exists>s' C t x'. fixInsert_loop x s = fixInsert_loop x' s' \<and> inserting s' C t x' \<and>
     nodes (plug C t) = nodes (plug D T) \<and> same_pieces s' s \<and> (C = D \<or> n_color s' (ctx_parent C) = Black))"

lemma iteratedI:
  assumes "fixInsert_loop x s = fixInsert_loop x' s'" "inserting s' C t x'" "nodes (plug C t) = nodes (plug D T)"
    "same_pieces s' s" "C = D \<or> n_color s' (ctx_parent C) = Black"
  shows "iterated s x D T"
  using assms unfolding iterated_def by blast

lemma fixInsert_iterate_left:
  assumes f: "focused s D (Nd (Nd A p B) g u) g" and c: "caches_ok s (plug D (Nd (Nd A p B) g u))" and g: "grand_ok s D A p B g u"
    and x: "n_color s x = Red" "x \<noteq> rb_root s" "n_parent s x = p"
    and AB: "A = Nd l x r \<and> root_color (n_color s) B = Black \<or> B = Nd l x r \<and> root_color (n_color s) A = Black"
  shows "iterated s x D (Nd (Nd A p B) g u)"
proof -
  have cp: "n_color s p = Red" "n_color s SENTINEL = Black" using g by (simp_all add: grand_ok_def)
  note step = fixInsert_left [OF f cp x(2)]
  consider (red) "root_color (n_color s) u = Red"
    | (outer) "root_color (n_color s) u = Black" "A = Nd l x r" "root_color (n_color s) B = Black"
    | (inner) "root_color (n_color s) u = Black" "B = Nd l x r" "root_color (n_color s) A = Black"
    using AB by (cases "root_color (n_color s) u") auto
  then show ?thesis
  proof cases
    case red
    show ?thesis by (rule iteratedI [OF step(1) [OF x(3) red] recolor_left [OF f c g red]]) simp_all
  next
    case outer
    have f': "focused (set_color g Red (set_color p Black s)) D (Nd (Nd A p B) g u) g" using f by simp
    have "p \<noteq> g" using f by (auto simp: focused_def)
    then show ?thesis
      using same_pieces_rotate(2) [OF f'] rightRotate_focused(4) [OF f']
      by (intro iteratedI [OF step(2) [OF outer(2,1)] rotate_left_outer [OF f c g outer(1,3,2) x(1)]])
        (auto simp: nodes_plug intro: same_pieces_trans)
  next
    case inner
    note i = rotate_left_inner [OF f c g inner(3,2) x(1)]
    have f': "focused (set_color g Red (set_color x Black (leftRotate p s))) D (Nd (Nd (Nd A p l) x r) g u) g"
      using i by simp
    have "x \<noteq> g" using f inner by (auto simp: focused_def)
    moreover have "same_pieces (leftRotate p s) s"
      using same_pieces_rotate(1) [of s "InL D g u" A p l x r] focused_down(1) [OF f] inner by simp
    ultimately show ?thesis
      using same_pieces_rotate(2) [OF f'] rightRotate_focused(4) [OF f'] i inner cp
      by (intro iteratedI [OF step(3) [OF inner(2,1)]
            rotate_left_outer [of "leftRotate p s" D "Nd A p l" x r g u A p l]])
        (auto simp: nodes_plug intro: same_pieces_trans)
  qed
qed

lemma fixInsert_iterate_right:
  assumes f: "focused s D (Nd u g (Nd A p B)) g" and c: "caches_ok s (plug D (Nd u g (Nd A p B)))" and g: "grand_ok s D A p B g u"
    and x: "n_color s x = Red" "x \<noteq> rb_root s" "n_parent s x = p"
    and AB: "A = Nd l x r \<and> root_color (n_color s) B = Black \<or> B = Nd l x r \<and> root_color (n_color s) A = Black"
  shows "iterated s x D (Nd u g (Nd A p B))"
proof -
  have cp: "n_color s p = Red" "n_color s SENTINEL = Black" using g by (simp_all add: grand_ok_def)
  note step = fixInsert_right [OF f cp x(2)]
  consider (red) "root_color (n_color s) u = Red"
    | (outer) "root_color (n_color s) u = Black" "B = Nd l x r" "root_color (n_color s) A = Black"
    | (inner) "root_color (n_color s) u = Black" "A = Nd l x r" "root_color (n_color s) B = Black"
    using AB by (cases "root_color (n_color s) u") auto
  then show ?thesis
  proof cases
    case red
    show ?thesis by (rule iteratedI [OF step(1) [OF x(3) red] recolor_right [OF f c g red]]) simp_all
  next
    case outer
    have f': "focused (set_color g Red (set_color p Black s)) D (Nd u g (Nd A p B)) g" using f by simp
    have "p \<noteq> g" using f by (auto simp: focused_def)
    then show ?thesis
      using same_pieces_rotate(1) [OF f'] leftRotate_focused(4) [OF f']
      by (intro iteratedI [OF step(2) [OF outer(2,1)] rotate_right_outer [OF f c g outer(1,3,2) x(1)]])
        (auto simp: nodes_plug intro: same_pieces_trans)
  next
    case inner
    note i = rotate_right_inner [OF f c g inner(3,2) x(1)]
    have f': "focused (set_color g Red (set_color x Black (rightRotate p s))) D (Nd u g (Nd l x (Nd r p B))) g"
      using i by simp
    have "x \<noteq> g" using f inner by (auto simp: focused_def)
    moreover have "same_pieces (rightRotate p s) s"
      using same_pieces_rotate(2) [of s "InR u g D" l x r p B] focused_down(2) [OF f] inner by simp
    ultimately show ?thesis
      using same_pieces_rotate(1) [OF f'] leftRotate_focused(4) [OF f'] i inner cp
      by (intro iteratedI [OF step(3) [OF inner(2,1)]
            rotate_right_outer [of "rightRotate p s" D u g l x "Nd r p B" r p B]])
        (auto simp: nodes_plug intro: same_pieces_trans)
  qed
qed

lemma fixInsert_iterate:
  assumes i: "inserting s C (Nd l x r) x" and C: "C \<noteq> Top" "n_color s (ctx_parent C) = Red"
  shows "\<exists>D T. iterated s x D T \<and> nodes (plug D T) = nodes (plug C (Nd l x r)) \<and> size D < size C"
proof -
  let ?t = "Nd l x r"
  have f: "focused s C ?t x" and cx: "n_color s x = Red" using i by (simp_all add: inserting_def)
  have x: "x \<noteq> rb_root s" using focused_is_root [OF f] C by simp
  have p: "n_parent s x = ctx_parent C" using focused_root [OF f] by simp
  show ?thesis
  proof (cases C)
    case (InL E p B)
    have pr: "n_color s p = Red" using C InL by simp
    then have "E \<noteq> Top" using i InL by (auto simp: inserting_def)
    then consider D g u where "E = InL D g u" | D g u where "E = InR u g D" by (cases E) auto
    then show ?thesis
    proof cases
      case 1
      have "iterated s x D (Nd (Nd ?t p B) g u)"
        using inserting_focused(1) [OF i [unfolded InL 1]] inserting_parent(1) [OF pr disjI1 [OF 1] i [unfolded InL]] InL cx x p
        by - (rule fixInsert_iterate_left [where l = l and r = r], simp_all)
      then show ?thesis using InL 1 by (intro exI [of _ D] exI [of _ "Nd (Nd ?t p B) g u"]) simp
    next
      case 2
      have "iterated s x D (Nd u g (Nd ?t p B))"
        using inserting_focused(3) [OF i [unfolded InL 2]] inserting_parent(1) [OF pr disjI2 [OF 2] i [unfolded InL]] InL cx x p
        by - (rule fixInsert_iterate_right [where l = l and r = r], simp_all)
      then show ?thesis using InL 2 by (intro exI [of _ D] exI [of _ "Nd u g (Nd ?t p B)"]) simp
    qed
  next
    case (InR A p E)
    have pr: "n_color s p = Red" using C InR by simp
    then have "E \<noteq> Top" using i InR by (auto simp: inserting_def)
    then consider D g u where "E = InL D g u" | D g u where "E = InR u g D" by (cases E) auto
    then show ?thesis
    proof cases
      case 1
      have "iterated s x D (Nd (Nd A p ?t) g u)"
        using inserting_focused(2) [OF i [unfolded InR 1]] inserting_parent(2) [OF pr disjI1 [OF 1] i [unfolded InR]] InR cx x p
        by - (rule fixInsert_iterate_left [where l = l and r = r], simp_all)
      then show ?thesis using InR 1 by (intro exI [of _ D] exI [of _ "Nd (Nd A p ?t) g u"]) simp
    next
      case 2
      have "iterated s x D (Nd u g (Nd A p ?t))"
        using inserting_focused(4) [OF i [unfolded InR 2]] inserting_parent(2) [OF pr disjI2 [OF 2] i [unfolded InR]] InR cx x p
        by - (rule fixInsert_iterate_right [where l = l and r = r], simp_all)
      then show ?thesis using InR 2 by (intro exI [of _ D] exI [of _ "Nd u g (Nd A p ?t)"]) simp
    qed
  qed (use C in simp)
qed

lemma fixInsert_loop_ok:
  "inserting s C t x \<Longrightarrow> \<exists>s' t'. fixInsert_loop x s = Some s' \<and> coloured s' t' \<and>
    nodes t' = nodes (plug C t) \<and> same_pieces s' s"
proof (induction "size C" arbitrary: s C t x rule: less_induct)
  case less
  show ?case
  proof (cases "C = Top \<or> n_color s (ctx_parent C) = Black")
    case True
    then show ?thesis using fixInsert_loop_stop [OF less.prems] by auto
  next
    case False
    have i: "focused s C t x" "t \<noteq> Lf" "n_color s x = Red" using less.prems by (simp_all add: inserting_def)
    obtain l r where t: "t = Nd l x r" using i(1,2) by (cases t) (auto simp: focused_def)
    have D: "\<exists>D T. iterated s x D T \<and> nodes (plug D T) = nodes (plug C t) \<and> size D < size C"
      using fixInsert_iterate [of s C l x r] less.prems False unfolding t
      by (cases "n_color s (ctx_parent C)") simp_all
    then obtain D T s' C' t' x' where step: "fixInsert_loop x s = fixInsert_loop x' s'" "inserting s' C' t' x'"
      "nodes (plug C' t') = nodes (plug C t)" "same_pieces s' s" "C' = D \<or> n_color s' (ctx_parent C') = Black" "size D < size C"
      unfolding iterated_def by metis
    show ?thesis
    proof (cases "n_color s' (ctx_parent C') = Black")
      case True
      then show ?thesis using fixInsert_loop_stop [OF step(2)] step(1,3,4) by auto
    next
      case False
      then obtain s2 t2 where "fixInsert_loop x' s' = Some s2" "coloured s2 t2" "nodes t2 = nodes (plug C' t')" "same_pieces s2 s'"
        using less.hyps [OF _ step(2)] step(5,6) by auto
      then show ?thesis using step same_pieces_trans by metis
    qed
  qed
qed

text \<open>The invariant of the tree of the buffer.\<close>

definition rb_ok :: "'a rb_tree_scheme \<Rightarrow> node_tree \<Rightarrow> bool" where
  "rb_ok s t \<longleftrightarrow> coloured s t \<and> root_color (n_color s) t = Black \<and>
     (\<forall>a\<in>set (nodes t). a < rb_fresh s) \<and> null_ref < rb_fresh s"

lemma sums_ok_cong2:
  "(\<And>b. b \<in> set (nodes t) \<Longrightarrow> S b = S' b \<and> f b = f' b) \<Longrightarrow> sums_ok S f t = sums_ok S' f' t"
proof (induction t)
  case (Nd l a r)
  moreover have "tree_sum f l = tree_sum f' l" using Nd.prems by (intro tree_sum_cong) auto
  ultimately show ?case by simp
qed simp

lemma caches_ok_cong:
  assumes "\<And>b. b \<in> set (nodes t) \<Longrightarrow> n_size_left s' b = n_size_left s b \<and> n_lf_left s' b = n_lf_left s b \<and> n_piece s' b = n_piece s b"
  shows "caches_ok s' t = caches_ok s t"
  using assms unfolding caches_ok_def n_length_def [abs_def] n_lineFeedCnt_def [abs_def]
  by (intro arg_cong2 [where f = conj] sums_ok_cong2) auto

lemma set_color_root_black:
  assumes "coloured s t"
  shows "coloured (set_color (rb_root s) Black s) t \<and> root_color (n_color (set_color (rb_root s) Black s)) t = Black"
proof (cases t)
  case Lf
  then show ?thesis using assms by (auto simp: coloured_def focused_def)
next
  case (Nd l a r)
  then have "rb_root s = a" using assms by (auto simp: coloured_def focused_def)
  then show ?thesis using assms Nd by (auto simp: coloured_def focused_def null_ref_def)
qed

text \<open>A new red leaf at a hole, with its links made, before \<open>fixInsert\<close>.\<close>

lemma fixInsert_new:
  assumes ok: "rb_ok s (plug C Lf)" and f: "focused s2 C (Nd Lf z Lf) z" and z: "z = rb_fresh s"
    and fields: "n_color s2 = (n_color s)(z := Red)" "n_piece s2 = (n_piece s)(z := p)" "rb_fresh s2 = Suc z"
      "n_size_left s2 = (n_size_left s)(z := 0)" "n_lf_left s2 = (n_lf_left s)(z := 0)"
  shows "\<exists>s' t'. fixInsert z s2 = Some s' \<and> rb_ok s' t' \<and> nodes t' = ctx_before C @ z # ctx_after C \<and>
    n_piece s' = (n_piece s)(z := p) \<and> rb_fresh s' = Suc z \<and> (\<forall>b. detached s2 b \<longrightarrow> detached s' b)"
proof -
  have zn: "z \<notin> set (nodes (plug C Lf))" "z \<noteq> SENTINEL" using ok z by (auto simp: rb_ok_def null_ref_def)
  have zC: "z \<notin> ctx_nodes C" using zn(1) by (auto simp: nodes_plug set_ctx_before_after [symmetric])
  have C: "ctx_shape (n_parent s2) (n_left s2) (n_right s2) (rb_root s2) z C" using f by (simp add: focused_def)
  let ?s3 = "s2\<lparr>n_size_left := fix_left (n_length s2) C (Nd Lf z Lf) (n_size_left s2),
    n_lf_left := fix_left (n_lineFeedCnt s2) C (Nd Lf z Lf) (n_lf_left s2)\<rparr>"
  have rec: "recomputeTreeMetadata z s2 = Some ?s3" using recomputeTreeMetadata_focused [OF f] by simp
  have "caches_ok s2 (plug C Lf) = caches_ok s (plug C Lf)"
    using zn(1) by (intro caches_ok_cong) (auto simp: fields)
  then have "ctx_sums_ok (n_size_left s2) (n_length s2) 0 C" "ctx_sums_ok (n_lf_left s2) (n_lineFeedCnt s2) 0 C"
    using ok by (auto simp: rb_ok_def coloured_def caches_ok_def sums_ok_plug)
  then have "ctx_sums_ok (n_size_left s2) (n_length s2) 0 C" "ctx_sums_ok (n_lf_left s2) (n_lineFeedCnt s2) 0 C"
    using ok by (auto simp: rb_ok_def coloured_def caches_ok_def sums_ok_plug)
  then have "caches_ok ?s3 (plug C (Nd Lf z Lf))"
    using fix_left_ok [OF C, of "Nd Lf z Lf" "n_size_left s2" "n_length s2" 0]
      fix_left_ok [OF C, of "Nd Lf z Lf" "n_lf_left s2" "n_lineFeedCnt s2" 0] zC n_length_cong [of ?s3 s2]
    by (simp add: caches_ok_def sums_ok_plug fields)
  moreover have "focused ?s3 C (Nd Lf z Lf) z" using f by (simp add: focused_def)
  moreover have "ctx_red_ok (n_color s) Black C" "ctx_height_ok (n_color s) 0 C" "n_color s SENTINEL = Black"
    using ok colours_plug [of "n_color s" C Lf] height_ok_plug [of "n_color s" C Lf] by (auto simp: rb_ok_def coloured_def)
  ultimately have "inserting ?s3 C (Nd Lf z Lf) z"
    using zC zn(2) by (auto simp: inserting_def fields)
  from fixInsert_loop_ok [OF this] obtain s4 t' where s4: "fixInsert_loop z ?s3 = Some s4" "coloured s4 t'"
    "nodes t' = nodes (plug C (Nd Lf z Lf))" "same_pieces s4 ?s3" by blast
  let ?s' = "set_color (rb_root s4) Black s4"
  have "rb_ok ?s' t'"
    using set_color_root_black [OF s4(2)] s4(3,4) ok
    by (auto simp: rb_ok_def same_pieces_def fields nodes_plug z less_Suc_eq)
  moreover have "\<forall>b. detached s2 b \<longrightarrow> detached ?s' b" using s4(4) by (simp add: same_pieces_def set_color_def)
  ultimately show ?thesis
    using s4 rec by (intro exI [of _ ?s'] exI [of _ t']) (simp add: fixInsert_def same_pieces_def fields nodes_plug)
qed

text \<open>Making the links of the leaf.\<close>

lemma link_new:
  assumes f: "focused s C Lf SENTINEL" and z: "real_node z" "z \<notin> ctx_nodes C" "C \<noteq> Top"
    and zl: "n_left s z = SENTINEL" "n_right s z = SENTINEL"
  shows "focused (set_parent z (ctx_parent C) (relink C z s)) C (Nd Lf z Lf) z"
proof -
  have "ctx_shape (n_parent s) (n_left s) (n_right s) (rb_root s) SENTINEL C" using f by (simp add: focused_def)
  from ctx_shape_relink [OF this, of z] show ?thesis
    using z zl by (simp add: focused_def rb_setters(1) relink_other)
qed

lemma new_node_fields:
  assumes "new_node p s = (z, s1)"
  shows "z = rb_fresh s" "n_left s1 = (n_left s)(z := SENTINEL)" "n_right s1 = (n_right s)(z := SENTINEL)"
    "n_parent s1 = (n_parent s)(z := SENTINEL)" "rb_root s1 = rb_root s"
    "n_color s1 = (n_color s)(z := Red)" "n_piece s1 = (n_piece s)(z := p)" "rb_fresh s1 = Suc z"
    "n_size_left s1 = (n_size_left s)(z := 0)" "n_lf_left s1 = (n_lf_left s)(z := 0)"
  using assms by (auto simp: new_node_def Let_def rb_setters)

lemma new_node_focused:
  assumes "new_node p s = (z, s1)" "focused s C t x" "z \<notin> set (nodes t)" "z \<notin> ctx_nodes C"
  shows "focused s1 C t x"
  using assms by (simp add: focused_def new_node_fields [OF assms(1)])

lemma leftmost:
  "r \<noteq> Lf \<Longrightarrow> \<exists>E q. r = plug E (Nd Lf (hd (nodes r)) q) \<and> ctx_before E = []"
proof (induction r)
  case (Nd l a r)
  show ?case
  proof (cases "l = Lf")
    case True
    then show ?thesis by (intro exI [of _ Top] exI [of _ r]) simp
  next
    case False
    then obtain E q where "l = plug E (Nd Lf (hd (nodes l)) q)" "ctx_before E = []" using Nd.IH by blast
    then show ?thesis using False
      by (intro exI [of _ "ctx_comp (InL Top a r) E"] exI [of _ q]) simp
  qed
qed simp

lemma rightmost:
  "l \<noteq> Lf \<Longrightarrow> \<exists>E q. l = plug E (Nd q (last (nodes l)) Lf) \<and> ctx_after E = []"
proof (induction l)
  case (Nd l a r)
  show ?case
  proof (cases "r = Lf")
    case True
    then show ?thesis by (intro exI [of _ Top] exI [of _ l]) simp
  next
    case False
    then obtain E q where "r = plug E (Nd q (last (nodes r)) Lf)" "ctx_after E = []" using Nd.IH by blast
    then show ?thesis using False
      by (intro exI [of _ "ctx_comp (InR l a Top) E"] exI [of _ q]) simp
  qed
qed simp

lemma focused_ctx_real: "focused s C t x \<Longrightarrow> a \<in> ctx_nodes C \<Longrightarrow> real_node a"
  using ctx_shape_real unfolding focused_def by metis

lemma focused_into_left:
  "focused s C (Nd l a r) a \<Longrightarrow> l = plug E t \<Longrightarrow> \<exists>x. focused s (ctx_comp (InL C a r) E) t x"
  using plug_focused [of s "ctx_comp (InL C a r) E" t] focused_plug [of s C "Nd l a r" a] by simp

lemma focused_into_right:
  "focused s C (Nd l a r) a \<Longrightarrow> r = plug E t \<Longrightarrow> \<exists>x. focused s (ctx_comp (InR l a C) E) t x"
  using plug_focused [of s "ctx_comp (InR l a C) E" t] focused_plug [of s C "Nd l a r" a] by simp

text \<open>The new leaf at any hole.\<close>

lemma fixInsert_link:
  assumes ok: "rb_ok s (plug C Lf)" and n: "new_node p s = (z, s1)" and C: "C \<noteq> Top"
  shows "\<exists>s' t'. fixInsert z (set_parent z (ctx_parent C) (relink C z s1)) = Some s' \<and> rb_ok s' t' \<and>
    nodes t' = ctx_before C @ z # ctx_after C \<and> n_piece s' = (n_piece s)(z := p) \<and> rb_fresh s' = Suc z \<and> (\<forall>b < rb_fresh s. detached s b \<longrightarrow> detached s' b)"
proof -
  obtain x where "focused s C Lf x" using plug_focused ok by (metis rb_ok_def coloured_def)
  then have f: "focused s C Lf SENTINEL" by (auto simp: focused_def)
  have z: "z = rb_fresh s" by (rule new_node_fields(1) [OF n])
  have zC: "z \<notin> ctx_nodes C" "real_node z"
    using ok z by (auto simp: rb_ok_def nodes_plug set_ctx_before_after [symmetric])
  have "focused (set_parent z (ctx_parent C) (relink C z s1)) C (Nd Lf z Lf) z"
    using new_node_focused [OF n f] zC C new_node_fields [OF n] by (intro link_new) simp_all
  let ?s2 = "set_parent z (ctx_parent C) (relink C z s1)"
  have "\<exists>s' t'. fixInsert z ?s2 = Some s' \<and> rb_ok s' t' \<and> nodes t' = ctx_before C @ z # ctx_after C \<and>
      n_piece s' = (n_piece s)(z := p) \<and> rb_fresh s' = Suc z \<and> (\<forall>b. detached ?s2 b \<longrightarrow> detached s' b)"
    by (rule fixInsert_new [OF ok \<open>focused ?s2 C (Nd Lf z Lf) z\<close> z]) (use new_node_fields [OF n] in \<open>simp_all add: set_parent_def\<close>)
  moreover have "\<forall>b < rb_fresh s. detached s b \<longrightarrow> detached (set_parent z (ctx_parent C) (relink C z s1)) b"
    using new_node_fields(4) [OF n] z by (auto simp: detached_def set_parent_def)
  ultimately show ?thesis by blast
qed

lemma rbInsert_empty:
  assumes ok: "rb_ok s Lf" and n: "new_node p s = (z, s1)"
  shows "\<exists>s'. fixInsert z (set_color z Black (set_root z s1)) = Some s' \<and> rb_ok s' (Nd Lf z Lf) \<and>
    n_piece s' = (n_piece s)(z := p) \<and> rb_fresh s' = Suc z \<and> (\<forall>b < rb_fresh s. detached s b \<longrightarrow> detached s' b)"
proof -
  note fields = new_node_fields [OF n]
  have z: "real_node z" "z \<noteq> SENTINEL" using ok fields(1) by (auto simp: rb_ok_def null_ref_def)
  let ?s = "set_color z Black (set_root z s1)"
  have "recomputeTreeMetadata z ?s = Some ?s" by (simp add: recomputeTreeMetadata_def rb_setters)
  moreover have "fixInsert_loop z ?s = Some ?s" by (subst fixInsert_loop.simps) (simp add: rb_setters)
  moreover have "rb_ok ?s (Nd Lf z Lf)"
    using ok z fields by (auto simp: rb_ok_def coloured_def focused_def caches_ok_def rb_setters)
  moreover have "\<forall>b < rb_fresh s. detached s b \<longrightarrow> detached ?s b"
    using fields(1,4) by (auto simp: detached_def rb_setters)
  ultimately show ?thesis by (simp add: fixInsert_def rb_setters fields fun_upd_idem)
qed

text \<open>The node after \<open>node\<close> in the order, and the node before it.\<close>

lemma rbInsertRight_ok:
  assumes ok: "rb_ok s t" and t: "nodes t = xs @ a # ys"
  shows "\<exists>s' t'. rbInsertRight a p s = Some (rb_fresh s, s') \<and> rb_ok s' t' \<and> nodes t' = xs @ a # rb_fresh s # ys \<and>
    n_piece s' = (n_piece s)(rb_fresh s := p) \<and> rb_fresh s' = Suc (rb_fresh s) \<and> (\<forall>b < rb_fresh s. detached s b \<longrightarrow> detached s' b)"
proof -
  obtain C l r where C: "t = plug C (Nd l a r)" "xs = ctx_before C @ nodes l" "ys = nodes r @ ctx_after C"
    using nodes_split [OF t] by blast
  obtain z s1 where n: "new_node p s = (z, s1)" by fastforce
  note fields = new_node_fields [OF n]
  obtain x where "focused s C (Nd l a r) x" using ok C plug_focused by (metis rb_ok_def coloured_def)
  then have f: "focused s C (Nd l a r) a" by (auto simp: focused_def)
  have z: "z \<notin> set (nodes t)" using ok fields(1) by (auto simp: rb_ok_def)
  have "z \<notin> ctx_nodes C" "z \<notin> set (nodes (Nd l a r))"
    using z by (auto simp: C(1) nodes_plug set_ctx_before_after [symmetric])
  from new_node_focused [OF n f this(2,1)] have f1: "focused s1 C (Nd l a r) a" .
  have root: "rb_root s1 \<noteq> SENTINEL"
    using ok C(1) t shape_root [of "n_parent s" "n_left s" "n_right s" SENTINEL "rb_root s" t] fields(5)
    by (auto simp: rb_ok_def coloured_def focused_def)
  have right: "n_right s1 a = SENTINEL \<longleftrightarrow> r = Lf" and left: "shape (n_parent s1) (n_left s1) (n_right s1) a (n_right s1 a) r"
    using f1 shape_root [of "n_parent s1" "n_left s1" "n_right s1" a "n_right s1 a" r] by (auto simp: focused_def)
  show ?thesis
  proof (cases "r = Lf")
    case True
    have "set_parent z a (set_right a z s1) = set_parent z (ctx_parent (InR l a C)) (relink (InR l a C) z s1)"
      by (simp add: relink_def)
    then show ?thesis
      using fixInsert_link [of s "InR l a C", OF _ n] ok C True root right n fields(1)
      by (auto simp: rbInsertRight_def)
  next
    case False
    obtain E b q where E: "r = plug E (Nd Lf b q)" "ctx_before E = []" using leftmost [OF False] by blast
    let ?C = "ctx_comp (InR l a C) E"
    have nr: "nodes r = b # nodes q @ ctx_after E" using E by (simp add: nodes_plug)
    have "set_parent z b (set_left b z s1) = set_parent z (ctx_parent (InL ?C b q)) (relink (InL ?C b q) z s1)"
      by (simp add: relink_def)
    moreover have "rb_ok s (plug (InL ?C b q) Lf)" using ok C(1) E(1) by simp
    ultimately show ?thesis
      using fixInsert_link [of s "InL ?C b q", OF _ n] C(2,3) E(2) nr False root right n fields(1) leftest_shape [OF left False]
      by (auto simp: rbInsertRight_def)
  qed
qed

lemma rbInsertLeft_ok:
  assumes ok: "rb_ok s t" and t: "nodes t = xs @ a # ys"
  shows "\<exists>s' t'. rbInsertLeft a p s = Some (rb_fresh s, s') \<and> rb_ok s' t' \<and> nodes t' = xs @ rb_fresh s # a # ys \<and>
    n_piece s' = (n_piece s)(rb_fresh s := p) \<and> rb_fresh s' = Suc (rb_fresh s) \<and> (\<forall>b < rb_fresh s. detached s b \<longrightarrow> detached s' b)"
proof -
  obtain C l r where C: "t = plug C (Nd l a r)" "xs = ctx_before C @ nodes l" "ys = nodes r @ ctx_after C"
    using nodes_split [OF t] by blast
  obtain z s1 where n: "new_node p s = (z, s1)" by fastforce
  note fields = new_node_fields [OF n]
  obtain x where "focused s C (Nd l a r) x" using ok C plug_focused by (metis rb_ok_def coloured_def)
  then have f: "focused s C (Nd l a r) a" by (auto simp: focused_def)
  have z: "z \<notin> set (nodes t)" using ok fields(1) by (auto simp: rb_ok_def)
  have "z \<notin> ctx_nodes C" "z \<notin> set (nodes (Nd l a r))"
    using z by (auto simp: C(1) nodes_plug set_ctx_before_after [symmetric])
  from new_node_focused [OF n f this(2,1)] have f1: "focused s1 C (Nd l a r) a" .
  have root: "rb_root s1 \<noteq> SENTINEL"
    using ok C(1) t shape_root [of "n_parent s" "n_left s" "n_right s" SENTINEL "rb_root s" t] fields(5)
    by (auto simp: rb_ok_def coloured_def focused_def)
  have left: "n_left s1 a = SENTINEL \<longleftrightarrow> l = Lf" and right: "shape (n_parent s1) (n_left s1) (n_right s1) a (n_left s1 a) l"
    using f1 shape_root [of "n_parent s1" "n_left s1" "n_right s1" a "n_left s1 a" l] by (auto simp: focused_def)
  show ?thesis
  proof (cases "l = Lf")
    case True
    have "set_parent z a (set_left a z s1) = set_parent z (ctx_parent (InL C a r)) (relink (InL C a r) z s1)"
      by (simp add: relink_def)
    then show ?thesis
      using fixInsert_link [of s "InL C a r", OF _ n] ok C True root left n fields(1)
      by (auto simp: rbInsertLeft_def)
  next
    case False
    obtain E b q where E: "l = plug E (Nd q b Lf)" "ctx_after E = []" using rightmost [OF False] by blast
    let ?C = "ctx_comp (InL C a r) E"
    have nr: "nodes l = ctx_before E @ nodes q @ [b]" using E by (simp add: nodes_plug)
    have "set_parent z b (set_right b z s1) = set_parent z (ctx_parent (InR q b ?C)) (relink (InR q b ?C) z s1)"
      by (simp add: relink_def)
    moreover have "rb_ok s (plug (InR q b ?C) Lf)" using ok C(1) E(1) by simp
    ultimately show ?thesis
      using fixInsert_link [of s "InR q b ?C", OF _ n] C(2,3) E(2) nr False root left n fields(1) righttest_shape [OF right False]
      by (auto simp: rbInsertLeft_def)
  qed
qed

end
