(* ===== verification/PieceTreeDeleteFixes.thy ===== *)
theory PieceTreeDeleteFixes
  imports PieceTreeInserts
begin

text \<open>
  The loop at the end of \<open>rbDelete\<close> in \<open>rbTreeBase.ts\<close>, which restores the colours after a black
  node was taken out: it ends, keeps the order of the tree and its caches, and makes it red-black.
\<close>

partial_function (option) fixDelete_loop ::
    "node_ref \<Rightarrow> 'a rb_tree_scheme \<Rightarrow> (node_ref \<times> 'a rb_tree_scheme) option" where
  "fixDelete_loop x s =
     (if x \<noteq> rb_root s \<and> n_color s x = Black then
        if x = n_left s (n_parent s x) then
          let w = n_right s (n_parent s x);
              (w, s) = (if n_color s w = Red then
                  let s = set_color (n_parent s x) Red (set_color w Black s);
                      s = leftRotate (n_parent s x) s
                  in (n_right s (n_parent s x), s)
                else (w, s))
          in if n_color s (n_left s w) = Black \<and> n_color s (n_right s w) = Black then
               let s = set_color w Red s in fixDelete_loop (n_parent s x) s
             else
               let (w, s) = (if n_color s (n_right s w) = Black then
                       let s = set_color (n_left s w) Black s;
                           s = rightRotate w (set_color w Red s)
                       in (n_right s (n_parent s x), s)
                     else (w, s));
                   s = set_color w (n_color s (n_parent s x)) s;
                   s = set_color (n_parent s x) Black s;
                   s = set_color (n_right s w) Black s;
                   s = leftRotate (n_parent s x) s
               in fixDelete_loop (rb_root s) s
        else
          let w = n_left s (n_parent s x);
              (w, s) = (if n_color s w = Red then
                  let s = set_color (n_parent s x) Red (set_color w Black s);
                      s = rightRotate (n_parent s x) s
                  in (n_left s (n_parent s x), s)
                else (w, s))
          in if n_color s (n_left s w) = Black \<and> n_color s (n_right s w) = Black then
               let s = set_color w Red s in fixDelete_loop (n_parent s x) s
             else
               let (w, s) = (if n_color s (n_left s w) = Black then
                       let s = set_color (n_right s w) Black s;
                           s = leftRotate w (set_color w Red s)
                       in (n_left s (n_parent s x), s)
                     else (w, s));
                   s = set_color w (n_color s (n_parent s x)) s;
                   s = set_color (n_parent s x) Black s;
                   s = set_color (n_left s w) Black s;
                   s = rightRotate (n_parent s x) s
               in fixDelete_loop (rb_root s) s
      else Some (x, s))"

declare fixDelete_loop.simps [code]

section \<open>Fixing the colours\<close>

text \<open>The subtree \<open>t\<close> with the root \<open>x\<close> lacks a black node; \<open>x\<close> may be the sentinel, and it may be red.\<close>

definition deleting :: "'a rb_tree_scheme \<Rightarrow> node_ctx \<Rightarrow> node_tree \<Rightarrow> node_ref \<Rightarrow> bool" where
  "deleting s F t x \<longleftrightarrow> focused s F t x \<and> (F \<noteq> Top \<longrightarrow> n_parent s x = ctx_parent F) \<and>
     caches_ok s (plug F t) \<and> n_color s SENTINEL = Black \<and>
     red_ok ((n_color s)(x := Black)) t \<and> height_ok (n_color s) t \<and>
     ctx_red_ok (n_color s) Black F \<and> ctx_height_ok (n_color s) (Suc (black_height (n_color s) t)) F"

text \<open>The loop goes on at \<open>x'\<close>.\<close>

definition deletes_to :: "'a rb_tree_scheme \<Rightarrow> node_ctx \<Rightarrow> node_tree \<Rightarrow> node_ref \<Rightarrow>
    'a rb_tree_scheme \<Rightarrow> node_ctx \<Rightarrow> node_tree \<Rightarrow> node_ref \<Rightarrow> bool" where
  "deletes_to s F t x s' F' t' x' \<longleftrightarrow> fixDelete_loop x s = fixDelete_loop x' s' \<and> deleting s' F' t' x' \<and>
     nodes (plug F' t') = nodes (plug F t) \<and> same_pieces s' s"

lemma deletes_to_trans:
  "deletes_to s F t x s' F' t' x' \<Longrightarrow> deletes_to s' F' t' x' s2 F2 t2 x2 \<Longrightarrow> deletes_to s F t x s2 F2 t2 x2"
  unfolding deletes_to_def using same_pieces_trans by metis

lemma fixDelete_stop:
  assumes d: "deleting s F t x" and x: "F = Top \<or> n_color s x = Red"
  shows "fixDelete_loop x s = Some (x, s) \<and> coloured (set_color x Black s) (plug F t) \<and>
    root_color ((n_color s)(x := Black)) (plug F t) = Black"
proof -
  have f: "focused s F t x" and s0: "n_color s SENTINEL = Black" using d by (simp_all add: deleting_def)
  have "fixDelete_loop x s = Some (x, s)"
    using x f by (subst fixDelete_loop.simps) (auto simp: focused_def)
  moreover have "height_ok ((n_color s)(x := Black)) (plug F t) \<and>
      ctx_red_ok ((n_color s)(x := Black)) (root_color ((n_color s)(x := Black)) t) F \<and>
      red_ok ((n_color s)(x := Black)) t"
  proof (cases t)
    case Lf
    then show ?thesis using d x f s0 by (auto simp: deleting_def focused_def)
  next
    case (Nd l a r)
    then have "a = x" "x \<notin> set (nodes l)" "x \<notin> set (nodes r)" "x \<notin> ctx_nodes F" using f by (auto simp: focused_def)
    then show ?thesis using Nd d x by (auto simp: deleting_def height_ok_plug)
  qed
  ultimately show ?thesis
    using d focused_plug [OF f] colours_plug [of "(n_color s)(x := Black)" F t]
    by (auto simp: coloured_def deleting_def)
qed

lemma deleting_sibling:
  assumes "deleting s F t x"
  shows "F = InL D p u \<Longrightarrow> \<exists>A w B. u = Nd A w B" and "F = InR u p D \<Longrightarrow> \<exists>A w B. u = Nd A w B"
  using assms by (cases u; auto simp: deleting_def)+

lemma tree_color:
  "focused s F (Nd A w B) w \<Longrightarrow> n_color s SENTINEL = Black \<Longrightarrow>
    n_color s (n_left s w) = root_color (n_color s) A \<and> n_color s (n_right s w) = root_color (n_color s) B"
  using focused_child_color by metis

lemma focused_not_root: "focused s F t x \<Longrightarrow> F \<noteq> Top \<Longrightarrow> x \<noteq> rb_root s"
proof (cases "t = Lf")
  case True
  assume f: "focused s F t x" "F \<noteq> Top"
  then have "x = SENTINEL" using True by (simp add: focused_def)
  moreover have "\<exists>u a v. plug F t = Nd u a v"
    using f(2) True by (metis append_is_Nil_conv node_tree.exhaust nodes_Nil nodes_plug ctx_parent_in set_ctx_before_after empty_iff set_empty Un_empty)
  ultimately show ?thesis using focused_plug [OF f(1)] by (auto simp: focused_def)
next
  case False
  then show "focused s F t x \<Longrightarrow> F \<noteq> Top \<Longrightarrow> x \<noteq> rb_root s" using focused_is_root by metis
qed

lemma focused_not_ctx: "focused s F t x \<Longrightarrow> a \<in> ctx_nodes F \<Longrightarrow> x \<noteq> a"
  using focused_ctx_real [of s F t x a] by (cases t) (auto simp: focused_def)

lemma deleting_left:
  assumes "deleting s (InL D p (Nd A w B)) t x"
  shows "x \<noteq> rb_root s" "x \<noteq> p" "x \<noteq> w" "n_left s p = x" "n_parent s x = p" "n_right s p = w" "n_parent s w = p"
    "n_color s (n_left s w) = root_color (n_color s) A" "n_color s (n_right s w) = root_color (n_color s) B"
    "focused s D (Nd t p (Nd A w B)) p"
proof -
  have f: "focused s (InL D p (Nd A w B)) t x" and s: "n_color s SENTINEL = Black" "n_parent s x = p"
    using assms by (simp_all add: deleting_def)
  show fp: "focused s D (Nd t p (Nd A w B)) p" using focused_up(1) [OF f] .
  show "x \<noteq> rb_root s" "x \<noteq> p" "x \<noteq> w" using focused_not_root [OF f] focused_not_ctx [OF f] by auto
  show "n_left s p = x" "n_parent s x = p" "n_right s p = w" "n_parent s w = p" using f s by (auto simp: focused_def)
  show "n_color s (n_left s w) = root_color (n_color s) A" "n_color s (n_right s w) = root_color (n_color s) B"
    using tree_color [OF focused_down(2) [OF fp] s(1)] by simp_all
qed

lemma deleting_right:
  assumes "deleting s (InR (Nd A w B) p D) t x"
  shows "x \<noteq> rb_root s" "x \<noteq> p" "x \<noteq> w" "n_right s p = x" "n_parent s x = p" "n_left s p = w" "n_parent s w = p"
    "n_color s (n_left s w) = root_color (n_color s) A" "n_color s (n_right s w) = root_color (n_color s) B"
    "focused s D (Nd (Nd A w B) p t) p"
proof -
  have f: "focused s (InR (Nd A w B) p D) t x" and s: "n_color s SENTINEL = Black" "n_parent s x = p"
    using assms by (simp_all add: deleting_def)
  show fp: "focused s D (Nd (Nd A w B) p t) p" using focused_up(2) [OF f] .
  show "x \<noteq> rb_root s" "x \<noteq> p" "x \<noteq> w" using focused_not_root [OF f] focused_not_ctx [OF f] by auto
  show "n_right s p = x" "n_parent s x = p" "n_left s p = w" "n_parent s w = p" using f s by (auto simp: focused_def)
  show "n_color s (n_left s w) = root_color (n_color s) A" "n_color s (n_right s w) = root_color (n_color s) B"
    using tree_color [OF focused_down(1) [OF fp] s(1)] by simp_all
qed

text \<open>The rotations leave the parent of the sentinel as it is.\<close>

lemma rotate_sentinel:
  "focused s C (Nd A x (Nd B y D)) x \<Longrightarrow> n_parent (leftRotate x s) SENTINEL = n_parent s SENTINEL"
  "focused s C (Nd (Nd A x B) y D) y \<Longrightarrow> n_parent (rightRotate y s) SENTINEL = n_parent s SENTINEL"
  by (auto simp: leftRotate_def rightRotate_def Let_def rb_setters adopt_def replaceLeftChild_def replaceRightChild_def focused_def)

lemma not_Red [simp]: "k \<noteq> Red \<longleftrightarrow> k = Black"
  by (cases k) simp_all

lemma focused_unique: "focused s C t x \<Longrightarrow> focused s' C' t y \<Longrightarrow> x = y"
  by (cases t) (auto simp: focused_def)

lemma parent_sentinel:
  "focused s F t x \<Longrightarrow> n_parent s SENTINEL = ctx_parent F \<or> t \<noteq> Lf \<Longrightarrow> n_parent s x = ctx_parent F"
  using focused_root [of s F t x] by (cases t) (auto simp: focused_def)

text \<open>A red sibling: after a rotation about the parent, the sibling is black and the parent red.\<close>

lemma deleting_redden:
  assumes d: "deleting s (InL D p (Nd A w B)) t x" and w: "n_color s w = Red"
    and s1: "s1 = leftRotate p (set_color p Red (set_color w Black s))"
  shows "deleting s1 (InL (InL D w B) p A) t x \<and> n_color s1 = (n_color s)(w := Black, p := Red) \<and>
    root_color (n_color s1) A = Black \<and> same_pieces s1 s"
proof -
  note l = deleting_left [OF d]
  let ?s = "set_color p Red (set_color w Black s)"
  have f: "focused ?s D (Nd t p (Nd A w B)) p" using l(10) by simp
  note r = leftRotate_focused [OF f, folded s1]
  obtain y where y: "focused s1 (InL (InL D w B) p A) t y"
    using focused_into_left [OF r(1), of "InL Top p A" t] by auto
  then have fx: "focused s1 (InL (InL D w B) p A) t x"
    using focused_unique d unfolding deleting_def by metis
  have "n_parent s1 SENTINEL = n_parent s SENTINEL"
    using rotate_sentinel(1) [OF f] s1 by simp
  then have "n_parent s1 x = p"
    using parent_sentinel [OF fx] l(5) d by (cases "t = Lf") (auto simp: deleting_def focused_def)
  moreover have "caches_ok s1 (plug (InL (InL D w B) p A) t)"
    using caches_ok_leftRotate [OF f] d s1 by (simp add: deleting_def)
  moreover have n: "p \<noteq> w" "p \<noteq> SENTINEL" "w \<noteq> SENTINEL" "p \<notin> set (nodes t)" "p \<notin> set (nodes A)" "p \<notin> set (nodes B)"
    "w \<notin> set (nodes t)" "w \<notin> set (nodes A)" "w \<notin> set (nodes B)" "p \<notin> ctx_nodes D" "w \<notin> ctx_nodes D"
    using l(10) by (auto simp: focused_def)
  moreover have "(n_color s)(w := Black, p := Red, x := Black) = (n_color s)(x := Black, w := Black, p := Red)"
    using l(2,3) by auto
  then have "red_ok ((n_color s)(w := Black, p := Red, x := Black)) t"
    using d n by (simp add: deleting_def)
  ultimately show ?thesis
    using d w fx same_pieces_rotate(1) [OF f] s1 unfolding deleting_def r(4) by (auto split: if_splits)
qed

lemma fixDelete_red_left:
  assumes d: "deleting s (InL D p (Nd A w B)) t x" and w: "n_color s w = Red" "n_color s x = Black"
  shows "\<exists>s1. deletes_to s (InL D p (Nd A w B)) t x s1 (InL (InL D w B) p A) t x \<and>
    n_color s1 = (n_color s)(w := Black, p := Red) \<and> root_color (n_color s1) A = Black"
proof -
  define s1 where "s1 = leftRotate p (set_color p Red (set_color w Black s))"
  note r = deleting_redden [OF d w(1) s1_def]
  have d1: "deleting s1 (InL (InL D w B) p A) t x" using r by blast
  obtain C v E where A: "A = Nd C v E" using deleting_sibling(1) [OF d1 refl] by blast
  note l = deleting_left [OF d] and l1 = deleting_left [OF d1 [unfolded A]]
  have c: "n_color s1 v = Black" "n_color s1 x = Black"
    using r A w l(2,3) by (auto simp: deleting_def)
  have "fixDelete_loop x s = fixDelete_loop x s1"
    unfolding fixDelete_loop.simps [of x s] fixDelete_loop.simps [of x s1]
    using l l1 c w by (simp add: Let_def s1_def [symmetric])
  then show ?thesis using r by (intro exI [of _ s1]) (auto simp: deletes_to_def nodes_plug)
qed

text \<open>A black sibling whose outer child is black and whose inner child is red: it is rotated away.\<close>

lemma deleting_inner:
  assumes d: "deleting s (InL D p (Nd (Nd C a E) w B)) t x"
    and w: "n_color s w = Black" "n_color s a = Red" "root_color (n_color s) B = Black"
    and s1: "s1 = rightRotate w (set_color w Red (set_color a Black s))"
  shows "deleting s1 (InL D p (Nd C a (Nd E w B))) t x \<and> n_color s1 = (n_color s)(a := Black, w := Red) \<and>
    same_pieces s1 s"
proof -
  note l = deleting_left [OF d]
  let ?s = "set_color w Red (set_color a Black s)"
  have f: "focused ?s (InR t p D) (Nd (Nd C a E) w B) w" using focused_down(2) [OF l(10)] by simp
  note r = rightRotate_focused [OF f, folded s1]
  obtain y where y: "focused s1 (InL D p (Nd C a (Nd E w B))) t y"
    using focused_into_left [OF focused_up(2) [OF r(1)], of Top t] by auto
  then have fx: "focused s1 (InL D p (Nd C a (Nd E w B))) t x"
    using focused_unique d unfolding deleting_def by metis
  have "n_parent s1 SENTINEL = n_parent s SENTINEL"
    using rotate_sentinel(2) [OF f] s1 by simp
  then have "n_parent s1 x = p"
    using parent_sentinel [OF fx] l(5) d by (cases "t = Lf") (auto simp: deleting_def focused_def)
  moreover have "caches_ok s1 (plug (InL D p (Nd C a (Nd E w B))) t)"
    using caches_ok_rightRotate [OF f] d s1 by (simp add: deleting_def)
  moreover have n: "a \<noteq> w" "p \<noteq> w" "p \<noteq> a" "a \<noteq> SENTINEL" "w \<noteq> SENTINEL" "x \<noteq> a"
    "w \<notin> set (nodes t)" "w \<notin> set (nodes C)" "w \<notin> set (nodes E)" "w \<notin> set (nodes B)" "w \<notin> ctx_nodes D"
    "a \<notin> set (nodes t)" "a \<notin> set (nodes C)" "a \<notin> set (nodes E)" "a \<notin> set (nodes B)" "a \<notin> ctx_nodes D"
    using l(10) focused_not_ctx [OF fx, of a] by (auto simp: focused_def)
  moreover have "(n_color s)(a := Black, w := Red, x := Black) = (n_color s)(x := Black, a := Black, w := Red)"
    using l(2,3) n by auto
  then have "red_ok ((n_color s)(a := Black, w := Red, x := Black)) t"
    using d n by (simp add: deleting_def)
  ultimately show ?thesis
    using d w fx same_pieces_rotate(2) [OF f] s1 unfolding deleting_def r(4) by (auto split: if_splits)
qed

lemma fixDelete_inner_left:
  assumes d: "deleting s (InL D p (Nd (Nd C a E) w B)) t x" and x: "n_color s x = Black"
    and w: "n_color s w = Black" "n_color s a = Red" "root_color (n_color s) B = Black"
  shows "\<exists>s1. deletes_to s (InL D p (Nd (Nd C a E) w B)) t x s1 (InL D p (Nd C a (Nd E w B))) t x \<and>
    n_color s1 = (n_color s)(a := Black, w := Red)"
proof -
  define s1 where "s1 = rightRotate w (set_color w Red (set_color a Black s))"
  note r = deleting_inner [OF d w s1_def]
  have d1: "deleting s1 (InL D p (Nd C a (Nd E w B))) t x" using r by blast
  note l = deleting_left [OF d] and l1 = deleting_left [OF d1]
  have c: "n_color s1 a = Black" "n_color s1 x = Black" "n_color s1 p = n_color s p" "a \<noteq> w" "w \<noteq> a" "n_left s w = a"
    "n_right s1 a = w" "n_color s1 w = Red"
    using r x l(2,3,10) l1(2,3) d1 by (auto simp: focused_def deleting_def)
  have "fixDelete_loop x s = fixDelete_loop x s1"
    unfolding fixDelete_loop.simps [of x s] fixDelete_loop.simps [of x s1]
    using l l1 c w x by (simp add: Let_def s1_def [symmetric])
  then show ?thesis using r by (intro exI [of _ s1]) (auto simp: deletes_to_def nodes_plug)
qed

lemma deleting_top:
  assumes "focused s D t y" "n_color s SENTINEL = Black" "caches_ok s (plug D t)"
    and "red_ok (n_color s) t \<and> height_ok (n_color s) t \<and> ctx_red_ok (n_color s) (root_color (n_color s) t) D \<and>
      ctx_height_ok (n_color s) (black_height (n_color s) t) D"
  shows "deleting s Top (plug D t) (rb_root s)"
proof -
  have f: "tree_of s (plug D t)" using focused_plug assms(1) .
  have c: "red_ok (n_color s) (plug D t) \<and> root_color (n_color s) (plug D t) = Black" "height_ok (n_color s) (plug D t)"
    using assms(4) colours_plug [of "n_color s" D t] height_ok_plug [of "n_color s" D t] by auto
  have "n_color s (rb_root s) = Black"
    using c f shape_color assms(2) unfolding focused_def by metis
  then show ?thesis using f c assms(2,3) by (simp add: deleting_def fun_upd_idem)
qed

text \<open>Its outer child is red: a rotation about the parent ends the loop.\<close>

lemma fixDelete_outer_left:
  assumes d: "deleting s (InL D p (Nd A w B)) t x" and x: "n_color s x = Black"
    and w: "n_color s w = Black" "root_color (n_color s) B = Red"
  shows "\<exists>s1 T. deletes_to s (InL D p (Nd A w B)) t x s1 Top T (rb_root s1)"
proof -
  note l = deleting_left [OF d]
  obtain G b H where B: "B = Nd G b H" using w(2) by (cases B) auto
  have b: "n_right s w = b" "n_color s b = Red" using d w(2) by (auto simp: deleting_def focused_def B)
  let ?s = "set_color b Black (set_color p Black (set_color w (n_color s p) s))"
  have f: "focused ?s D (Nd t p (Nd A w B)) p" using l(10) by simp
  define s1 where "s1 = leftRotate p ?s"
  note r = leftRotate_focused [OF f, folded s1_def]
  have n: "p \<noteq> w" "b \<noteq> p" "b \<noteq> w" "p \<noteq> SENTINEL" "w \<noteq> SENTINEL" "b \<noteq> SENTINEL"
    "p \<notin> set (nodes t)" "p \<notin> set (nodes A)" "p \<notin> set (nodes G)" "p \<notin> set (nodes H)" "p \<notin> ctx_nodes D"
    "w \<notin> set (nodes t)" "w \<notin> set (nodes A)" "w \<notin> set (nodes G)" "w \<notin> set (nodes H)" "w \<notin> ctx_nodes D"
    "b \<notin> set (nodes t)" "b \<notin> set (nodes A)" "b \<notin> set (nodes G)" "b \<notin> set (nodes H)" "b \<notin> ctx_nodes D"
    using l(10) by (auto simp: focused_def B)
  have cx: "root_color (n_color s) t = Black"
    using x d shape_color unfolding deleting_def focused_def by metis
  have c: "n_color s1 = (n_color s)(w := n_color s p, p := Black, b := Black)"
    using r(4) by simp
  have rt: "red_ok (n_color s) t"
    using d x by (simp add: deleting_def fun_upd_idem)
  let ?t = "Nd (Nd t p A) w B"
  have "red_ok (n_color s1) ?t \<and> height_ok (n_color s1) ?t \<and> ctx_red_ok (n_color s1) (root_color (n_color s1) ?t) D \<and>
      ctx_height_ok (n_color s1) (black_height (n_color s1) ?t) D"
    using d n w b rt cx unfolding c B by (auto simp: deleting_def split: if_splits)
  then have dl: "deleting s1 Top (plug D ?t) (rb_root s1)"
    using deleting_top [OF r(1)] caches_ok_leftRotate [OF f] d c n s1_def by (simp add: deleting_def)
  have "fixDelete_loop x s = fixDelete_loop (rb_root s1) s1"
    unfolding fixDelete_loop.simps [of x s]
    using l w x b n B by (simp add: Let_def s1_def [symmetric])
  then show ?thesis
    using dl same_pieces_rotate(1) [OF f] s1_def by (intro exI [of _ s1] exI [of _ "plug D ?t"]) (auto simp: deletes_to_def nodes_plug)
qed

lemma fixDelete_recolor_left:
  assumes d: "deleting s (InL D p (Nd A w B)) t x" and x: "n_color s x = Black"
    and w: "n_color s w = Black" "root_color (n_color s) A = Black" "root_color (n_color s) B = Black"
  shows "\<exists>s1 T. deletes_to s (InL D p (Nd A w B)) t x s1 D T p \<and> n_color s1 p = n_color s p"
proof -
  note l = deleting_left [OF d]
  let ?s = "set_color w Red s"
  have n: "p \<noteq> w" "p \<noteq> SENTINEL" "w \<noteq> SENTINEL"
    "p \<notin> set (nodes t)" "p \<notin> set (nodes A)" "p \<notin> set (nodes B)" "p \<notin> ctx_nodes D"
    "w \<notin> set (nodes t)" "w \<notin> set (nodes A)" "w \<notin> set (nodes B)" "w \<notin> ctx_nodes D"
    using l(10) by (auto simp: focused_def)
  have rt: "red_ok (n_color s) t"
    using d x by (simp add: deleting_def fun_upd_idem)
  have cx: "root_color (n_color s) t = Black"
    using x d shape_color unfolding deleting_def focused_def by metis
  have "n_parent s p = ctx_parent D" using focused_root [OF l(10)] by simp
  then have "deleting ?s D (Nd t p (Nd A w B)) p"
    using d l(10) n w rt cx ctx_red_ok_black [of "n_color s" "n_color s p" D] by (auto simp: deleting_def split: if_splits)
  moreover have "fixDelete_loop x s = fixDelete_loop p ?s"
    unfolding fixDelete_loop.simps [of x s] using l w x by (simp add: Let_def)
  ultimately show ?thesis
    using n by (intro exI [of _ ?s] exI [of _ "Nd t p (Nd A w B)"]) (auto simp: deletes_to_def)
qed

text \<open>The same below the right child.\<close>

lemma deleting_redden_right:
  assumes d: "deleting s (InR (Nd B w A) p D) t x" and w: "n_color s w = Red"
    and s1: "s1 = rightRotate p (set_color p Red (set_color w Black s))"
  shows "deleting s1 (InR A p (InR B w D)) t x \<and> n_color s1 = (n_color s)(w := Black, p := Red) \<and>
    root_color (n_color s1) A = Black \<and> same_pieces s1 s"
proof -
  note l = deleting_right [OF d]
  let ?s = "set_color p Red (set_color w Black s)"
  have f: "focused ?s D (Nd (Nd B w A) p t) p" using l(10) by simp
  note r = rightRotate_focused [OF f, folded s1]
  obtain y where y: "focused s1 (InR A p (InR B w D)) t y"
    using focused_into_right [OF r(1), of "InR A p Top" t] by auto
  then have fx: "focused s1 (InR A p (InR B w D)) t x"
    using focused_unique d unfolding deleting_def by metis
  have "n_parent s1 SENTINEL = n_parent s SENTINEL"
    using rotate_sentinel(2) [OF f] s1 by simp
  then have "n_parent s1 x = p"
    using parent_sentinel [OF fx] l(5) d by (cases "t = Lf") (auto simp: deleting_def focused_def)
  moreover have "caches_ok s1 (plug (InR A p (InR B w D)) t)"
    using caches_ok_rightRotate [OF f] d s1 by (simp add: deleting_def)
  moreover have n: "p \<noteq> w" "p \<noteq> SENTINEL" "w \<noteq> SENTINEL" "p \<notin> set (nodes t)" "p \<notin> set (nodes A)" "p \<notin> set (nodes B)"
    "w \<notin> set (nodes t)" "w \<notin> set (nodes A)" "w \<notin> set (nodes B)" "p \<notin> ctx_nodes D" "w \<notin> ctx_nodes D"
    using l(10) by (auto simp: focused_def)
  moreover have "(n_color s)(w := Black, p := Red, x := Black) = (n_color s)(x := Black, w := Black, p := Red)"
    using l(2,3) by auto
  then have "red_ok ((n_color s)(w := Black, p := Red, x := Black)) t"
    using d n by (simp add: deleting_def)
  ultimately show ?thesis
    using d w fx same_pieces_rotate(2) [OF f] s1 unfolding deleting_def r(4) by (auto split: if_splits)
qed

lemma fixDelete_red_right:
  assumes d: "deleting s (InR (Nd B w A) p D) t x" and w: "n_color s w = Red" "n_color s x = Black"
  shows "\<exists>s1. deletes_to s (InR (Nd B w A) p D) t x s1 (InR A p (InR B w D)) t x \<and>
    n_color s1 = (n_color s)(w := Black, p := Red) \<and> root_color (n_color s1) A = Black"
proof -
  define s1 where "s1 = rightRotate p (set_color p Red (set_color w Black s))"
  note r = deleting_redden_right [OF d w(1) s1_def]
  have d1: "deleting s1 (InR A p (InR B w D)) t x" using r by blast
  obtain C v E where A: "A = Nd E v C" using deleting_sibling(2) [OF d1 refl] by blast
  note l = deleting_right [OF d] and l1 = deleting_right [OF d1 [unfolded A]]
  have c: "n_color s1 v = Black" "n_color s1 x = Black"
    using r A w l(2,3) by (auto simp: deleting_def)
  have "fixDelete_loop x s = fixDelete_loop x s1"
    unfolding fixDelete_loop.simps [of x s] fixDelete_loop.simps [of x s1]
    using l l1 c w by (simp add: Let_def s1_def [symmetric])
  then show ?thesis using r by (intro exI [of _ s1]) (auto simp: deletes_to_def nodes_plug)
qed

lemma deleting_inner_right:
  assumes d: "deleting s (InR (Nd B w (Nd E a C)) p D) t x"
    and w: "n_color s w = Black" "n_color s a = Red" "root_color (n_color s) B = Black"
    and s1: "s1 = leftRotate w (set_color w Red (set_color a Black s))"
  shows "deleting s1 (InR (Nd (Nd B w E) a C) p D) t x \<and> n_color s1 = (n_color s)(a := Black, w := Red) \<and>
    same_pieces s1 s"
proof -
  note l = deleting_right [OF d]
  let ?s = "set_color w Red (set_color a Black s)"
  have f: "focused ?s (InL D p t) (Nd B w (Nd E a C)) w" using focused_down(1) [OF l(10)] by simp
  note r = leftRotate_focused [OF f, folded s1]
  obtain y where y: "focused s1 (InR (Nd (Nd B w E) a C) p D) t y"
    using focused_into_right [OF focused_up(1) [OF r(1)], of Top t] by auto
  then have fx: "focused s1 (InR (Nd (Nd B w E) a C) p D) t x"
    using focused_unique d unfolding deleting_def by metis
  have "n_parent s1 SENTINEL = n_parent s SENTINEL"
    using rotate_sentinel(1) [OF f] s1 by simp
  then have "n_parent s1 x = p"
    using parent_sentinel [OF fx] l(5) d by (cases "t = Lf") (auto simp: deleting_def focused_def)
  moreover have "caches_ok s1 (plug (InR (Nd (Nd B w E) a C) p D) t)"
    using caches_ok_leftRotate [OF f] d s1 by (simp add: deleting_def)
  moreover have n: "a \<noteq> w" "p \<noteq> w" "p \<noteq> a" "a \<noteq> SENTINEL" "w \<noteq> SENTINEL" "x \<noteq> a"
    "w \<notin> set (nodes t)" "w \<notin> set (nodes C)" "w \<notin> set (nodes E)" "w \<notin> set (nodes B)" "w \<notin> ctx_nodes D"
    "a \<notin> set (nodes t)" "a \<notin> set (nodes C)" "a \<notin> set (nodes E)" "a \<notin> set (nodes B)" "a \<notin> ctx_nodes D"
    using l(10) focused_not_ctx [OF fx, of a] by (auto simp: focused_def)
  moreover have "(n_color s)(a := Black, w := Red, x := Black) = (n_color s)(x := Black, a := Black, w := Red)"
    using l(2,3) n by auto
  then have "red_ok ((n_color s)(a := Black, w := Red, x := Black)) t"
    using d n by (simp add: deleting_def)
  ultimately show ?thesis
    using d w fx same_pieces_rotate(1) [OF f] s1 unfolding deleting_def r(4) by (auto split: if_splits)
qed

lemma fixDelete_inner_right:
  assumes d: "deleting s (InR (Nd B w (Nd E a C)) p D) t x" and x: "n_color s x = Black"
    and w: "n_color s w = Black" "n_color s a = Red" "root_color (n_color s) B = Black"
  shows "\<exists>s1. deletes_to s (InR (Nd B w (Nd E a C)) p D) t x s1 (InR (Nd (Nd B w E) a C) p D) t x \<and>
    n_color s1 = (n_color s)(a := Black, w := Red)"
proof -
  define s1 where "s1 = leftRotate w (set_color w Red (set_color a Black s))"
  note r = deleting_inner_right [OF d w s1_def]
  have d1: "deleting s1 (InR (Nd (Nd B w E) a C) p D) t x" using r by blast
  note l = deleting_right [OF d] and l1 = deleting_right [OF d1]
  have c: "n_color s1 a = Black" "n_color s1 x = Black" "n_color s1 p = n_color s p" "a \<noteq> w" "w \<noteq> a" "n_right s w = a"
    "n_left s1 a = w" "n_color s1 w = Red"
    using r x l(2,3,10) l1(2,3) d1 by (auto simp: focused_def deleting_def)
  have "fixDelete_loop x s = fixDelete_loop x s1"
    unfolding fixDelete_loop.simps [of x s] fixDelete_loop.simps [of x s1]
    using l l1 c w x by (simp add: Let_def s1_def [symmetric])
  then show ?thesis using r by (intro exI [of _ s1]) (auto simp: deletes_to_def nodes_plug)
qed

lemma fixDelete_outer_right:
  assumes d: "deleting s (InR (Nd B w A) p D) t x" and x: "n_color s x = Black"
    and w: "n_color s w = Black" "root_color (n_color s) B = Red"
  shows "\<exists>s1 T. deletes_to s (InR (Nd B w A) p D) t x s1 Top T (rb_root s1)"
proof -
  note l = deleting_right [OF d]
  obtain G b H where B: "B = Nd H b G" using w(2) by (cases B) auto
  have b: "n_left s w = b" "n_color s b = Red" using d w(2) by (auto simp: deleting_def focused_def B)
  let ?s = "set_color b Black (set_color p Black (set_color w (n_color s p) s))"
  have f: "focused ?s D (Nd (Nd B w A) p t) p" using l(10) by simp
  define s1 where "s1 = rightRotate p ?s"
  note r = rightRotate_focused [OF f, folded s1_def]
  have n: "p \<noteq> w" "b \<noteq> p" "b \<noteq> w" "p \<noteq> SENTINEL" "w \<noteq> SENTINEL" "b \<noteq> SENTINEL"
    "p \<notin> set (nodes t)" "p \<notin> set (nodes A)" "p \<notin> set (nodes G)" "p \<notin> set (nodes H)" "p \<notin> ctx_nodes D"
    "w \<notin> set (nodes t)" "w \<notin> set (nodes A)" "w \<notin> set (nodes G)" "w \<notin> set (nodes H)" "w \<notin> ctx_nodes D"
    "b \<notin> set (nodes t)" "b \<notin> set (nodes A)" "b \<notin> set (nodes G)" "b \<notin> set (nodes H)" "b \<notin> ctx_nodes D"
    using l(10) by (auto simp: focused_def B)
  have cx: "root_color (n_color s) t = Black"
    using x d shape_color unfolding deleting_def focused_def by metis
  have c: "n_color s1 = (n_color s)(w := n_color s p, p := Black, b := Black)"
    using r(4) by simp
  have rt: "red_ok (n_color s) t"
    using d x by (simp add: deleting_def fun_upd_idem)
  let ?t = "Nd B w (Nd A p t)"
  have "red_ok (n_color s1) ?t \<and> height_ok (n_color s1) ?t \<and> ctx_red_ok (n_color s1) (root_color (n_color s1) ?t) D \<and>
      ctx_height_ok (n_color s1) (black_height (n_color s1) ?t) D"
    using d n w b rt cx unfolding c B by (auto simp: deleting_def split: if_splits)
  then have dl: "deleting s1 Top (plug D ?t) (rb_root s1)"
    using deleting_top [OF r(1)] caches_ok_rightRotate [OF f] d c n s1_def by (simp add: deleting_def)
  have "fixDelete_loop x s = fixDelete_loop (rb_root s1) s1"
    unfolding fixDelete_loop.simps [of x s]
    using l w x b n B by (simp add: Let_def s1_def [symmetric])
  then show ?thesis
    using dl same_pieces_rotate(2) [OF f] s1_def by (intro exI [of _ s1] exI [of _ "plug D ?t"]) (auto simp: deletes_to_def nodes_plug)
qed

lemma fixDelete_recolor_right:
  assumes d: "deleting s (InR (Nd B w A) p D) t x" and x: "n_color s x = Black"
    and w: "n_color s w = Black" "root_color (n_color s) A = Black" "root_color (n_color s) B = Black"
  shows "\<exists>s1 T. deletes_to s (InR (Nd B w A) p D) t x s1 D T p \<and> n_color s1 p = n_color s p"
proof -
  note l = deleting_right [OF d]
  let ?s = "set_color w Red s"
  have n: "p \<noteq> w" "p \<noteq> SENTINEL" "w \<noteq> SENTINEL"
    "p \<notin> set (nodes t)" "p \<notin> set (nodes A)" "p \<notin> set (nodes B)" "p \<notin> ctx_nodes D"
    "w \<notin> set (nodes t)" "w \<notin> set (nodes A)" "w \<notin> set (nodes B)" "w \<notin> ctx_nodes D"
    using l(10) by (auto simp: focused_def)
  have rt: "red_ok (n_color s) t"
    using d x by (simp add: deleting_def fun_upd_idem)
  have cx: "root_color (n_color s) t = Black"
    using x d shape_color unfolding deleting_def focused_def by metis
  have "n_parent s p = ctx_parent D" using focused_root [OF l(10)] by simp
  then have "deleting ?s D (Nd (Nd B w A) p t) p"
    using d l(10) n w rt cx ctx_red_ok_black [of "n_color s" "n_color s p" D] by (auto simp: deleting_def split: if_splits)
  moreover have "fixDelete_loop x s = fixDelete_loop p ?s"
    unfolding fixDelete_loop.simps [of x s] using l w x by (simp add: Let_def)
  ultimately show ?thesis
    using n by (intro exI [of _ ?s] exI [of _ "Nd (Nd B w A) p t"]) (auto simp: deletes_to_def)
qed

text \<open>An iteration with a black sibling ends the loop, or goes on at the parent.\<close>

definition del_progress :: "'a rb_tree_scheme \<Rightarrow> node_ctx \<Rightarrow> node_tree \<Rightarrow> node_ref \<Rightarrow> node_ctx \<Rightarrow> node_ref \<Rightarrow> bool" where
  "del_progress s F t x D p \<longleftrightarrow> (\<exists>s' F' t' x'. deletes_to s F t x s' F' t' x' \<and>
     (F' = Top \<or> F' = D \<and> n_color s' x' = n_color s p))"

lemma del_progress_trans:
  "deletes_to s F t x s1 F1 t1 x1 \<Longrightarrow> del_progress s1 F1 t1 x1 D p \<Longrightarrow> n_color s1 p = n_color s p \<Longrightarrow> del_progress s F t x D p"
  unfolding del_progress_def using deletes_to_trans by metis

lemma del_progress_left:
  assumes d: "deleting s (InL D p (Nd A w B)) t x" and x: "n_color s x = Black" and w: "n_color s w = Black"
  shows "del_progress s (InL D p (Nd A w B)) t x D p"
proof (cases "root_color (n_color s) B")
  case Red
  show ?thesis using fixDelete_outer_left [OF d x w Red] unfolding del_progress_def by metis
next
  case B: Black
  show ?thesis
  proof (cases "root_color (n_color s) A")
    case Black
    show ?thesis using fixDelete_recolor_left [OF d x w Black B] unfolding del_progress_def by metis
  next
    case Red
    then obtain C a E where A: "A = Nd C a E" "n_color s a = Red" by (cases A) auto
    obtain s1 where s1: "deletes_to s (InL D p (Nd A w B)) t x s1 (InL D p (Nd C a (Nd E w B))) t x"
      "n_color s1 = (n_color s)(a := Black, w := Red)"
      using fixDelete_inner_left [OF d [unfolded A(1)] x w A(2) B] A(1) by blast
    have d1: "deleting s1 (InL D p (Nd C a (Nd E w B))) t x" using s1(1) by (simp add: deletes_to_def)
    have n: "x \<noteq> a" "x \<noteq> w" "a \<noteq> w" "p \<noteq> a" "p \<noteq> w"
      using deleting_left(3,10) [OF d1] deleting_left(3) [OF d] by (auto simp: focused_def)
    obtain s2 T where "deletes_to s1 (InL D p (Nd C a (Nd E w B))) t x s2 Top T (rb_root s2)"
      using fixDelete_outer_left [OF d1] s1(2) x n by auto
    then show ?thesis using deletes_to_trans [OF s1(1)] unfolding del_progress_def by metis
  qed
qed

lemma del_progress_right:
  assumes d: "deleting s (InR (Nd B w A) p D) t x" and x: "n_color s x = Black" and w: "n_color s w = Black"
  shows "del_progress s (InR (Nd B w A) p D) t x D p"
proof (cases "root_color (n_color s) B")
  case Red
  show ?thesis using fixDelete_outer_right [OF d x w Red] unfolding del_progress_def by metis
next
  case B: Black
  show ?thesis
  proof (cases "root_color (n_color s) A")
    case Black
    show ?thesis using fixDelete_recolor_right [OF d x w Black B] unfolding del_progress_def by metis
  next
    case Red
    then obtain C a E where A: "A = Nd E a C" "n_color s a = Red" by (cases A) auto
    obtain s1 where s1: "deletes_to s (InR (Nd B w A) p D) t x s1 (InR (Nd (Nd B w E) a C) p D) t x"
      "n_color s1 = (n_color s)(a := Black, w := Red)"
      using fixDelete_inner_right [OF d [unfolded A(1)] x w A(2) B] A(1) by blast
    have d1: "deleting s1 (InR (Nd (Nd B w E) a C) p D) t x" using s1(1) by (simp add: deletes_to_def)
    have n: "x \<noteq> a" "x \<noteq> w" "a \<noteq> w" "p \<noteq> a" "p \<noteq> w"
      using deleting_right(3,10) [OF d1] deleting_right(3) [OF d] by (auto simp: focused_def)
    obtain s2 T where "deletes_to s1 (InR (Nd (Nd B w E) a C) p D) t x s2 Top T (rb_root s2)"
      using fixDelete_outer_right [OF d1] s1(2) x n by auto
    then show ?thesis using deletes_to_trans [OF s1(1)] unfolding del_progress_def by metis
  qed
qed

text \<open>Any iteration: it ends the loop, makes the current node red, or goes on at the parent.\<close>

lemma fixDelete_iterate:
  assumes d: "deleting s F t x" and F: "F \<noteq> Top" and x: "n_color s x = Black"
  shows "\<exists>s' F' t' x'. deletes_to s F t x s' F' t' x' \<and> (F' = Top \<or> n_color s' x' = Red \<or> size F' < size F)"
proof (cases F)
  case (InL D p u)
  obtain A w B where u: "u = Nd A w B" using deleting_sibling(1) [OF d InL] by blast
  note d = d [unfolded InL u]
  show ?thesis
  proof (cases "n_color s w")
    case Black
    then show ?thesis
      using del_progress_left [OF d x Black] InL u unfolding del_progress_def by fastforce
  next
    case Red
    obtain s1 where s1: "deletes_to s F t x s1 (InL (InL D w B) p A) t x" "n_color s1 = (n_color s)(w := Black, p := Red)"
      "root_color (n_color s1) A = Black"
      using fixDelete_red_left [OF d Red x] InL u by blast
    then have d1: "deleting s1 (InL (InL D w B) p A) t x" by (simp add: deletes_to_def)
    obtain C a E where A: "A = Nd C a E" using deleting_sibling(1) [OF d1 refl] by blast
    have "n_color s1 x = Black" "n_color s1 p = Red"
      using s1(2) x deleting_left(2,3) [OF d] by simp_all
    then show ?thesis
      using del_progress_left [OF d1 [unfolded A]] s1(1,3) deletes_to_trans [OF s1(1)] A unfolding del_progress_def by force
  qed
next
  case (InR u p D)
  obtain A w B where u: "u = Nd B w A" using deleting_sibling(2) [OF d InR] by blast
  note d = d [unfolded InR u]
  show ?thesis
  proof (cases "n_color s w")
    case Black
    then show ?thesis
      using del_progress_right [OF d x Black] InR u unfolding del_progress_def by fastforce
  next
    case Red
    obtain s1 where s1: "deletes_to s F t x s1 (InR A p (InR B w D)) t x" "n_color s1 = (n_color s)(w := Black, p := Red)"
      "root_color (n_color s1) A = Black"
      using fixDelete_red_right [OF d Red x] InR u by blast
    then have d1: "deleting s1 (InR A p (InR B w D)) t x" by (simp add: deletes_to_def)
    obtain C a E where A: "A = Nd C a E" using deleting_sibling(2) [OF d1 refl] by blast
    have "n_color s1 x = Black" "n_color s1 p = Red"
      using s1(2) x deleting_right(2,3) [OF d] by simp_all
    then show ?thesis
      using del_progress_right [OF d1 [unfolded A]] s1(1,3) deletes_to_trans [OF s1(1)] A unfolding del_progress_def by force
  qed
qed (use F in simp)

lemma fixDelete_loop_ok:
  "deleting s F t x \<Longrightarrow> \<exists>s' t' x'. fixDelete_loop x s = Some (x', s') \<and> coloured (set_color x' Black s') t' \<and>
    root_color ((n_color s')(x' := Black)) t' = Black \<and> nodes t' = nodes (plug F t) \<and> same_pieces s' s"
proof (induction "size F" arbitrary: s F t x rule: less_induct)
  case less
  show ?case
  proof (cases "F = Top \<or> n_color s x = Red")
    case True
    then show ?thesis using fixDelete_stop [OF less.prems] by (intro exI [of _ s] exI [of _ "plug F t"]) simp
  next
    case False
    then obtain s' F' t' x' where st: "deletes_to s F t x s' F' t' x'" "F' = Top \<or> n_color s' x' = Red \<or> size F' < size F"
      using fixDelete_iterate [OF less.prems] by auto
    then have st': "fixDelete_loop x s = fixDelete_loop x' s'" "deleting s' F' t' x'"
      "nodes (plug F' t') = nodes (plug F t)" "same_pieces s' s" by (simp_all add: deletes_to_def)
    show ?thesis
    proof (cases "F' = Top \<or> n_color s' x' = Red")
      case True
      then show ?thesis using fixDelete_stop [OF st'(2) True] st'
        by (intro exI [of _ s'] exI [of _ "plug F' t'"] exI [of _ x']) simp
    next
      case False
      then show ?thesis using less.hyps [OF _ st'(2)] st(2) st' same_pieces_trans by metis
    qed
  qed
qed

end
