(* ===== verification/PieceTreeDeletes.thy ===== *)
theory PieceTreeDeletes
  imports PieceTreeDeleteFixes
begin

text \<open>
  \<open>rbDelete\<close> of \<open>rbTreeBase.ts\<close>: it ends, takes the node out of the order of the tree, and keeps
  the tree red-black with both of its caches right. The sentinel has a parent during the deletion.
  The loop that repairs the colours is in PieceTreeDeleteFixes.
\<close>

section \<open>Deletion\<close>

text \<open>The child \<open>x\<close> of \<open>y\<close> takes the place of \<open>y\<close>, and \<open>y\<close> the place of \<open>z\<close>.\<close>

definition spliceOut :: "node_ref \<Rightarrow> node_ref \<Rightarrow> 'a rb_tree_scheme \<Rightarrow> 'a rb_tree_scheme" where
  "spliceOut y x s =
     (if y = n_left s (n_parent s y) then set_left (n_parent s y) x s else set_right (n_parent s y) x s)"

definition replaceInParent :: "node_ref \<Rightarrow> node_ref \<Rightarrow> 'a rb_tree_scheme \<Rightarrow> 'a rb_tree_scheme" where
  "replaceInParent z y s =
     (if z = rb_root s then set_root y s
      else if z = n_left s (n_parent s z) then set_left (n_parent s z) y s
      else set_right (n_parent s z) y s)"

definition replaceNode :: "node_ref \<Rightarrow> node_ref \<Rightarrow> 'a rb_tree_scheme \<Rightarrow> 'a rb_tree_scheme" where
  "replaceNode z y s =
     (let s = set_left y (n_left s z) s;
          s = set_right y (n_right s z) s;
          s = set_parent y (n_parent s z) s;
          s = set_color y (n_color s z) s;
          s = replaceInParent z y s;
          s = adopt (n_left s y) y s;
          s = adopt (n_right s y) y s;
          s = set_size_left y (n_size_left s z) s
      in set_lf_left y (n_lf_left s z) s)"

definition refreshLeft :: "node_ref \<Rightarrow> 'a rb_tree_scheme \<Rightarrow> 'a rb_tree_scheme option" where
  "refreshLeft x s =
     (if n_left s (n_parent s x) = x then do {
        newSizeLeft \<leftarrow> calculateSize s x;
        newLFLeft \<leftarrow> calculateLF s x;
        (if newSizeLeft \<noteq> n_size_left s (n_parent s x) \<or> newLFLeft \<noteq> n_lf_left s (n_parent s x) then
           let delta = newSizeLeft - n_size_left s (n_parent s x);
               lf_delta = newLFLeft - n_lf_left s (n_parent s x);
               s = set_size_left (n_parent s x) newSizeLeft s;
               s = set_lf_left (n_parent s x) newLFLeft s
           in updateTreeMetadata (n_parent s x) delta lf_delta s
         else Some s)
      } else Some s)"

definition rbDelete :: "node_ref \<Rightarrow> 'a rb_tree_scheme \<Rightarrow> 'a rb_tree_scheme option" where
  "rbDelete z s = do {
     (y, x) \<leftarrow> (if n_left s z = SENTINEL then Some (z, n_right s z)
               else if n_right s z = SENTINEL then Some (z, n_left s z)
               else do { y \<leftarrow> leftest s (n_right s z); Some (y, n_right s y) });
     (if y = rb_root s then
        let s = set_color x Black (set_root x s);
            s = resetSentinel (TreeNode_detach z s)
        in Some (set_parent (rb_root s) SENTINEL s)
      else do {
        let yWasRed = (n_color s y = Red);
        let s = spliceOut y x s;
        s \<leftarrow> (if y = z then recomputeTreeMetadata x (set_parent x (n_parent s y) s)
              else do {
                let s = (if n_parent s y = z then set_parent x y s else set_parent x (n_parent s y) s);
                s \<leftarrow> recomputeTreeMetadata x s;
                recomputeTreeMetadata y (replaceNode z y s)
              });
        s \<leftarrow> refreshLeft x (TreeNode_detach z s);
        s \<leftarrow> recomputeTreeMetadata (n_parent s x) s;
        (if yWasRed then Some (resetSentinel s)
         else do {
           (x, s) \<leftarrow> fixDelete_loop x s;
           Some (resetSentinel (set_color x Black s))
         })
      })
   }"

section \<open>Taking the node out\<close>

text \<open>
  Between the steps the caches of a context count some value \<open>v\<close> for the hole, which need not be the
  sum of the subtree there.
\<close>

definition hole_sums :: "'a rb_tree_scheme \<Rightarrow> node_ctx \<Rightarrow> int \<Rightarrow> int \<Rightarrow> bool" where
  "hole_sums s F u v \<longleftrightarrow> ctx_sums_ok (n_size_left s) (n_length s) u F \<and> ctx_sums_ok (n_lf_left s) (n_lineFeedCnt s) v F"

lemma sums_ok_fix_left:
  "set (nodes u) \<inter> ctx_nodes C = {} \<Longrightarrow> sums_ok (fix_left f C t S) g u = sums_ok S g u"
  by (rule sums_ok_cong, rule fix_left_other) auto

lemma fix_left_ctx:
  "ctx_shape P L R root x C \<Longrightarrow> set (nodes t) \<inter> ctx_nodes C = {} \<Longrightarrow> ctx_sums_ok S f v C \<Longrightarrow>
    ctx_sums_ok (fix_left f C t S) f (spine_sum S f t) C"
proof (induction C arbitrary: t v x)
  case (InL C a r)
  let ?d = "spine_sum S f t - v"
  have "ctx_sums_ok (add_left ?d C (S(a := spine_sum S f t))) f (v + f a + tree_sum f r + ?d) C"
    using InL.prems by (intro ctx_sums_ok_add_left) auto
  moreover have "sums_ok (add_left ?d C (S(a := spine_sum S f t))) f r"
    using InL.prems by (simp add: sums_ok_add_left)
  ultimately show ?case using InL.prems by (simp add: algebra_simps)
next
  case (InR l a C)
  let ?S = "fix_left f C (Nd l a t) S"
  have "ctx_sums_ok ?S f (spine_sum S f (Nd l a t)) C"
    using InR.prems by (intro InR.IH [of a]) auto
  moreover have "sums_ok ?S f l = sums_ok S f l" "?S a = S a"
    using InR.prems by (auto simp: sums_ok_fix_left)
  ultimately show ?case using InR.prems by (simp add: algebra_simps)
qed simp

lemma fix_left_same: "ctx_sums_ok S f (spine_sum S f t) C \<Longrightarrow> fix_left f C t S = S"
  by (induction C arbitrary: t) (auto simp: algebra_simps)

lemma recompute_right:
  assumes "x \<noteq> rb_root s" "x = n_right s (n_parent s x)"
  shows "recomputeTreeMetadata x s = recomputeTreeMetadata (n_parent s x) s"
proof -
  have c: "recompute_climb x s = recompute_climb (n_parent s x) s"
    using assms by (subst recompute_climb.simps) simp
  show ?thesis
  proof (cases "n_parent s x = rb_root s")
    case True
    then have "recompute_climb (n_parent s x) s = Some (n_parent s x)"
      by (subst recompute_climb.simps) simp
    then show ?thesis using True assms(1) c by (simp add: recomputeTreeMetadata_def)
  qed (use assms(1) c in \<open>simp add: recomputeTreeMetadata_def\<close>)
qed

text \<open>
  From the sentinel below a node without another child \<open>recomputeTreeMetadata\<close> takes it for the
  right child, and leaves the caches as they are.
\<close>

definition hole_fix :: "(node_ref \<Rightarrow> int) \<Rightarrow> node_ctx \<Rightarrow> node_tree \<Rightarrow> (node_ref \<Rightarrow> int) \<Rightarrow> node_ref \<Rightarrow> int" where
  "hole_fix f F t S = (case (F, t) of (InL D w Lf, Lf) \<Rightarrow> fix_left f D (Nd Lf w Lf) S | _ \<Rightarrow> fix_left f F t S)"

lemma recompute_hole:
  assumes f: "focused s F t x" and F: "F \<noteq> Top" and p: "n_parent s x = ctx_parent F"
  shows "recomputeTreeMetadata x s = Some (s\<lparr>n_size_left := hole_fix (n_length s) F t (n_size_left s),
    n_lf_left := hole_fix (n_lineFeedCnt s) F t (n_lf_left s)\<rparr>)"
proof (cases "t = Lf")
  case False
  then show ?thesis using recomputeTreeMetadata_focused [OF f] F
    by (cases t) (auto simp: hole_fix_def split: node_ctx.splits node_tree.splits)
next
  case t: True
  have nr: "x \<noteq> rb_root s" using focused_not_root [OF f F] .
  have x: "x = SENTINEL" using f t by (simp add: focused_def)
  show ?thesis
  proof (cases F)
    case (InR l w D)
    have "recomputeTreeMetadata x s = recomputeTreeMetadata w s"
      using recompute_right [OF nr] p InR f by (simp add: focused_def)
    then show ?thesis
      using recomputeTreeMetadata_focused [OF focused_up(2) [OF f [unfolded InR]]] t InR by (simp add: hole_fix_def)
  next
    case (InL D w r)
    have g: "focused s D (Nd Lf w r) w" using focused_up(1) [OF f [unfolded InL]] t by simp
    show ?thesis
    proof (cases r)
      case Lf
      have "recomputeTreeMetadata x s = recomputeTreeMetadata w s"
        using recompute_right [OF nr] p InL Lf x g by (simp add: focused_def)
      then show ?thesis
        using recomputeTreeMetadata_focused [OF g] t InL Lf by (simp add: hole_fix_def)
    next
      case (Nd A v B)
      then have "n_right s w \<noteq> x" using x g by (auto simp: focused_def)
      then have "recompute_climb x s = Some x" using p InL by (subst recompute_climb.simps) auto
      then show ?thesis
        using nr recompute_from_left [OF f [unfolded InL]] p InL t Nd
        by (simp add: recomputeTreeMetadata_def hole_fix_def Let_def)
    qed
  qed (use F in simp)
qed

lemma hole_fix_ok:
  assumes "ctx_shape P L R root x F" "set (nodes t) \<inter> ctx_nodes F = {}" "sums_ok S f t" "ctx_sums_ok S f v F"
  shows "\<exists>u. ctx_sums_ok (hole_fix f F t S) f u F \<and> (u = tree_sum f t \<or> (\<exists>D w r. F = InL D w r))"
    and "b \<notin> ctx_nodes F \<Longrightarrow> hole_fix f F t S b = S b"
proof -
  show "\<exists>u. ctx_sums_ok (hole_fix f F t S) f u F \<and> (u = tree_sum f t \<or> (\<exists>D w r. F = InL D w r))"
  proof (cases "\<exists>D w. F = InL D w Lf \<and> t = Lf")
    case True
    then obtain D w where F: "F = InL D w Lf" "t = Lf" by blast
    then have "hole_fix f F t S = S" using assms(4) by (auto simp: hole_fix_def intro!: fix_left_same)
    then show ?thesis using F assms(4) by auto
  next
    case False
    then have "hole_fix f F t S = fix_left f F t S"
      by (auto simp: hole_fix_def split: node_ctx.splits node_tree.splits)
    then show ?thesis using fix_left_ok [OF assms] by auto
  qed
  show "b \<notin> ctx_nodes F \<Longrightarrow> hole_fix f F t S b = S b"
    by (auto simp: hole_fix_def split: node_ctx.splits node_tree.splits)
qed

lemma refreshLeft_ok:
  assumes f: "focused s F t x" and F: "F \<noteq> Top" and p: "n_parent s x = ctx_parent F" and c: "caches_ok s t"
    and u: "hole_sums s F u v" "u = tree_sum (n_length s) t \<and> v = tree_sum (n_lineFeedCnt s) t \<or> (\<exists>D w r. F = InL D w r)"
  shows "\<exists>S1 S2. refreshLeft x s = Some (s\<lparr>n_size_left := S1, n_lf_left := S2\<rparr>) \<and>
    caches_ok (s\<lparr>n_size_left := S1, n_lf_left := S2\<rparr>) (plug F t)"
proof (cases F)
  case (InL D w r)
  have cs: "ctx_shape (n_parent s) (n_left s) (n_right s) (rb_root s) x F" "set (nodes t) \<inter> ctx_nodes F = {}"
    using f by (auto simp: focused_def)
  let ?S = "fix_left (n_length s) F t (n_size_left s)" and ?T = "fix_left (n_lineFeedCnt s) F t (n_lf_left s)"
  let ?s = "s\<lparr>n_size_left := ?S, n_lf_left := ?T\<rparr>"
  have t: "shape (n_parent s) (n_left s) (n_right s) w x t" and w: "n_left s w = x" "n_parent s x = w"
    using f p InL by (auto simp: focused_def)
  note calc = calculateSize_shape [OF t] calculateLF_shape [OF t]
  let ?s1 = "set_lf_left w (spine_sum (n_lf_left s) (n_lineFeedCnt s) t)
    (set_size_left w (spine_sum (n_size_left s) (n_length s) t) s)"
  have "focused ?s1 D (Nd t w r) w" using focused_up(1) [OF f [unfolded InL]] by simp
  from updateTreeMetadata_focused [OF this]
  have "refreshLeft x s = Some ?s"
    using w calc InL by (auto simp: refreshLeft_def Let_def rb_setters)
  moreover have "caches_ok ?s (plug F t)"
    using fix_left_ok [OF cs, of "n_size_left s" "n_length s" u] fix_left_ok [OF cs, of "n_lf_left s" "n_lineFeedCnt s" v]
      c u(1) n_length_cong [of ?s s] unfolding caches_ok_def sums_ok_plug hole_sums_def by simp
  ultimately show ?thesis by blast
next
  case (InR l w D)
  have l: "shape (n_parent s) (n_left s) (n_right s) w (n_left s w) l" using f InR by (auto simp: focused_def)
  have "refreshLeft x s = Some s"
  proof (cases "n_left s w = x")
    case True
    then have t: "t = Lf" using focused_side(2) [OF _ f [unfolded InR]] by metis
    then have "x = SENTINEL" using f by (simp add: focused_def)
    then have "l = Lf" using True shape_root [OF l] by simp
    moreover have "calculateSize s SENTINEL = Some 0" "calculateLF s SENTINEL = Some 0"
      by (subst calculateSize.simps calculateLF.simps, simp)+
    ultimately show ?thesis
      using p u(1) InR True f t \<open>x = SENTINEL\<close> by (simp add: refreshLeft_def hole_sums_def)
  qed (use p InR in \<open>simp add: refreshLeft_def\<close>)
  moreover have "caches_ok s (plug F t)"
    using u c InR unfolding caches_ok_def sums_ok_plug hole_sums_def by auto
  ultimately show ?thesis by (intro exI [of _ "n_size_left s"] exI [of _ "n_lf_left s"]) simp
qed (use F in simp)

text \<open>The node is out, and the subtree \<open>t\<close> lacks the colour \<open>k\<close> of the node \<open>y\<close> above it.\<close>

definition delete_ready :: "'a rb_tree_scheme \<Rightarrow> node_ctx \<Rightarrow> node_tree \<Rightarrow> node_ref \<Rightarrow> node_color \<Rightarrow> bool" where
  "delete_ready s F t x k \<longleftrightarrow> focused s F t x \<and> F \<noteq> Top \<and> n_parent s x = ctx_parent F \<and> caches_ok s t \<and>
     (\<exists>u v. hole_sums s F u v \<and>
       (u = tree_sum (n_length s) t \<and> v = tree_sum (n_lineFeedCnt s) t \<or> (\<exists>D w r. F = InL D w r))) \<and>
     n_color s SENTINEL = Black \<and> red_ok (n_color s) t \<and> height_ok (n_color s) t \<and>
     (k = Red \<longrightarrow> root_color (n_color s) t = Black) \<and> ctx_red_ok (n_color s) k F \<and>
     ctx_height_ok (n_color s) (black_height (n_color s) t + (if k = Black then 1 else 0)) F"

lemma tree_of_resetSentinel: "tree_of (resetSentinel s) t = tree_of s t"
proof -
  have "shape (n_parent (resetSentinel s)) (n_left s) (n_right s) p x t =
      shape (n_parent s) (n_left s) (n_right s) p x t" for p x t
  proof (induction t arbitrary: p x)
    case (Nd l a r)
    then show ?case by (cases "a = SENTINEL") (auto simp: resetSentinel_def set_parent_def)
  qed simp
  then show ?thesis by (simp add: focused_def) (simp add: resetSentinel_def set_parent_def)
qed

lemma coloured_resetSentinel [simp]: "coloured (resetSentinel s) t = coloured s t"
proof -
  have "n_length (resetSentinel s) = n_length s \<and> n_lineFeedCnt (resetSentinel s) = n_lineFeedCnt s"
    by (rule n_length_cong) (simp add: resetSentinel_def set_parent_def)
  then show ?thesis
    using tree_of_resetSentinel [of s t]
    by (simp add: coloured_def caches_ok_def) (simp add: resetSentinel_def set_parent_def)
qed

lemma resetSentinel_fields [simp]:
  "n_color (resetSentinel s) = n_color s" "same_pieces (resetSentinel s) s' = same_pieces s s'"
  "n_parent (resetSentinel s) SENTINEL = SENTINEL" "n_piece (resetSentinel s) = n_piece s"
  "rb_fresh (resetSentinel s) = rb_fresh s"
proof -
  show "n_piece (resetSentinel s) = n_piece s" "rb_fresh (resetSentinel s) = rb_fresh s"
    "n_color (resetSentinel s) = n_color s" "n_parent (resetSentinel s) SENTINEL = SENTINEL"
    by (simp_all add: resetSentinel_def set_parent_def)
  then show "same_pieces (resetSentinel s) s' = same_pieces s s'" by (simp add: same_pieces_def)
qed

lemma recompute_parent:
  assumes f: "focused s F t x" and F: "F \<noteq> Top" and c: "caches_ok s (plug F t)"
  shows "recomputeTreeMetadata (ctx_parent F) s = Some s"
proof (cases F)
  case (InL D w r)
  then show ?thesis
    using recomputeTreeMetadata_focused [OF focused_up(1) [OF f [unfolded InL]]] c
    by (simp add: caches_ok_def sums_ok_plug fix_left_id)
next
  case (InR l w D)
  then show ?thesis
    using recomputeTreeMetadata_focused [OF focused_up(2) [OF f [unfolded InR]]] c
    by (simp add: caches_ok_def sums_ok_plug fix_left_id)
qed (use F in simp)

lemma red_ok_blacken: "focused s F t x \<Longrightarrow> red_ok c t \<Longrightarrow> red_ok (c(x := Black)) t"
  by (cases t) (auto simp: focused_def)

definition delete_done :: "'a rb_tree_scheme \<Rightarrow> node_ref list \<Rightarrow> 'a rb_tree_scheme \<Rightarrow> bool" where
  "delete_done s ns s' \<longleftrightarrow> (\<exists>t'. coloured s' t' \<and> root_color (n_color s') t' = Black \<and> nodes t' = ns) \<and>
     same_pieces s' s \<and> n_parent s' SENTINEL = SENTINEL"

lemma delete_finish:
  assumes r: "delete_ready s F t x k"
  shows "\<exists>s'. (do {
      s \<leftarrow> refreshLeft x s;
      s \<leftarrow> recomputeTreeMetadata (n_parent s x) s;
      (if k = Red then Some (resetSentinel s)
       else do { (x, s) \<leftarrow> fixDelete_loop x s; Some (resetSentinel (set_color x Black s)) })
    }) = Some s' \<and> delete_done s (nodes (plug F t)) s'"
proof -
  have f: "focused s F t x" and F: "F \<noteq> Top" and p: "n_parent s x = ctx_parent F" and c: "caches_ok s t"
    using r by (simp_all add: delete_ready_def)
  obtain u v where "hole_sums s F u v"
    "u = tree_sum (n_length s) t \<and> v = tree_sum (n_lineFeedCnt s) t \<or> (\<exists>D w r. F = InL D w r)"
    using r unfolding delete_ready_def by blast
  from refreshLeft_ok [OF f F p c this] obtain S1 S2 where
    ref: "refreshLeft x s = Some (s\<lparr>n_size_left := S1, n_lf_left := S2\<rparr>)"
    and ok: "caches_ok (s\<lparr>n_size_left := S1, n_lf_left := S2\<rparr>) (plug F t)" by blast
  let ?s = "s\<lparr>n_size_left := S1, n_lf_left := S2\<rparr>"
  have f': "focused ?s F t x" using f by (simp add: focused_def)
  have rec: "recomputeTreeMetadata (ctx_parent F) ?s = Some ?s" using recompute_parent [OF f' F ok] .
  have pl: "n_parent ?s x = ctx_parent F" using p by simp
  have col: "n_color ?s = n_color s" by simp
  show ?thesis
  proof (cases k)
    case Red
    have "coloured ?s (plug F t)" "root_color (n_color ?s) (plug F t) = Black"
      using r ok Red focused_plug [OF f'] colours_plug [of "n_color s" F t] height_ok_plug [of "n_color s" F t]
        ctx_red_ok_black by (auto simp: coloured_def delete_ready_def)
    then show ?thesis
      using Red ref rec pl by (auto simp: delete_done_def)
  next
    case Black
    have "deleting ?s F t x"
      using r ok Black f' pl red_ok_blacken [OF f] by (auto simp: deleting_def delete_ready_def)
    from fixDelete_loop_ok [OF this] show ?thesis
      using Black ref rec pl by (fastforce simp: delete_done_def)
  qed
qed

text \<open>The subtree below \<open>y\<close> takes its place.\<close>

lemma spliceOut_parent: "n_parent (spliceOut y x s) = n_parent s"
  by (simp add: spliceOut_def set_left_def set_right_def)

lemma spliceOut_relink:
  assumes "focused s C (Nd l y r) y" "C \<noteq> Top"
  shows "spliceOut y x s = relink C x s"
proof (cases C)
  case (InL D a t)
  then show ?thesis
    using focused_side(1) [OF _ assms(1) [unfolded InL]] focused_root [OF assms(1)]
    by (simp add: spliceOut_def relink_def)
next
  case (InR t a D)
  then show ?thesis
    using focused_side(2) [OF _ assms(1) [unfolded InR]] focused_root [OF assms(1)]
    by (auto simp: spliceOut_def relink_def)
qed (use assms in simp)

lemma root_in_ctx: "ctx_shape P L R root x C \<Longrightarrow> C \<noteq> Top \<Longrightarrow> root \<in> ctx_nodes C"
  by (induction C arbitrary: x) (case_tac [!] C, auto)

lemma replaceInParent_relink:
  assumes "ctx_shape (n_parent s) (n_left s) (n_right s) (rb_root s) z C" "n_parent s z = ctx_parent C"
    "z \<noteq> SENTINEL" "z \<notin> ctx_nodes C"
  shows "replaceInParent z y s = relink C y s"
proof (cases C)
  case (InL D a t)
  then show ?thesis using assms root_in_ctx [OF assms(1)] by (auto simp: replaceInParent_def relink_def)
next
  case (InR t a D)
  have "n_left s a \<noteq> z" using assms InR shape_root [of "n_parent s" "n_left s" "n_right s" a "n_left s a" t] by auto
  then show ?thesis using assms InR root_in_ctx [OF assms(1)] by (auto simp: replaceInParent_def relink_def)
qed (use assms in \<open>simp add: replaceInParent_def relink_def\<close>)

lemma hole_replace:
  assumes C: "ctx_shape (n_parent s) (n_left s) (n_right s) (rb_root s) q C"
    and t: "shape (n_parent s) (n_left s) (n_right s) p x t" and d: "set (nodes t) \<inter> ctx_nodes C = {}"
  shows "focused (set_parent x (ctx_parent C) (relink C x s)) C t x"
proof -
  have x: "x \<notin> ctx_nodes C" using shape_root [OF t] ctx_shape_real [OF C] d by auto
  have "shape ((n_parent s)(x := ctx_parent C)) (n_left (relink C x s)) (n_right (relink C x s)) (ctx_parent C) x t"
    unfolding relink_frame [OF d] by (rule shape_new_parent [OF t])
  then show ?thesis
    using ctx_shape_relink [OF C, of x] x d by (simp add: focused_def set_parent_def)
qed

text \<open>\<open>y\<close> takes the place of \<open>z\<close> above the subtrees \<open>l\<close> and \<open>r\<close>; \<open>r\<close> may have another parent before.\<close>

definition apart :: "node_ctx \<Rightarrow> node_tree \<Rightarrow> node_ref \<Rightarrow> node_tree \<Rightarrow> node_ref \<Rightarrow> bool" where
  "apart C l z r y \<longleftrightarrow> real_node y \<and> real_node z \<and> y \<noteq> z \<and> y \<notin> ctx_nodes C \<and> z \<notin> ctx_nodes C \<and>
     y \<notin> set (nodes l) \<and> z \<notin> set (nodes l) \<and> y \<notin> set (nodes r) \<and> z \<notin> set (nodes r) \<and>
     set (nodes l) \<inter> ctx_nodes C = {} \<and> set (nodes r) \<inter> ctx_nodes C = {} \<and> set (nodes l) \<inter> set (nodes r) = {}"

lemma root_outside:
  "shape P L R p x t \<Longrightarrow> \<forall>a\<in>A. real_node a \<Longrightarrow> set (nodes t) \<inter> A = {} \<Longrightarrow> x \<notin> A"
  by (cases t) auto

lemma replaceNode_focused:
  assumes C: "ctx_shape (n_parent s) (n_left s) (n_right s) (rb_root s) z C" "n_parent s z = ctx_parent C"
    and l: "shape (n_parent s) (n_left s) (n_right s) z (n_left s z) l"
    and r: "shape (n_parent s) (n_left s) (n_right s) q (n_right s z) r"
    and d: "apart C l z r y" and nd: "\<not> detached s y" "q \<noteq> null_ref"
  shows "focused (replaceNode z y s) C (Nd l y r) y"
    and "n_parent (replaceNode z y s) SENTINEL = n_parent s SENTINEL"
    and "n_color (replaceNode z y s) = (n_color s)(y := n_color s z)"
    and "n_size_left (replaceNode z y s) = (n_size_left s)(y := n_size_left s z)"
    and "n_lf_left (replaceNode z y s) = (n_lf_left s)(y := n_lf_left s z)"
    and "same_pieces (replaceNode z y s) s"
proof -
  define s1 where "s1 = set_color y (n_color s z) (set_parent y (ctx_parent C) (set_right y (n_right s z) (set_left y (n_left s z) s)))"
  define s2 where "s2 = adopt (n_right s z) y (adopt (n_left s z) y (relink C y s1))"
  have d': "y \<noteq> SENTINEL" "z \<noteq> SENTINEL" "y \<noteq> z" "y \<notin> ctx_nodes C" "z \<notin> ctx_nodes C" using d by (auto simp: apart_def)
  have p: "n_parent s1 = (n_parent s)(y := ctx_parent C)" "n_left s1 = (n_left s)(y := n_left s z)"
    "n_right s1 = (n_right s)(y := n_right s z)" "rb_root s1 = rb_root s" by (simp_all add: s1_def rb_setters)
  have C1: "ctx_shape (n_parent s1) (n_left s1) (n_right s1) (rb_root s1) z C" using C d' by (simp add: p)
  have "replaceInParent z y s1 = relink C y s1"
    using replaceInParent_relink [OF C1] C(2) d' p by simp
  then have rep: "replaceNode z y s = set_lf_left y (n_lf_left s z) (set_size_left y (n_size_left s z) s2)"
    using C(2) d' by (simp add: replaceNode_def Let_def s2_def s1_def rb_setters relink_other)
  have real: "\<forall>a\<in>set (nodes l). real_node a" "\<forall>a\<in>set (nodes r). real_node a" "\<forall>a\<in>ctx_nodes C. real_node a" "\<forall>a\<in>{y}. real_node a"
    using shape_real [OF l] shape_real [OF r] ctx_shape_real [OF C(1)] d by (auto simp: apart_def)
  have o: "n_left s z \<notin> set (nodes r)" "n_right s z \<notin> set (nodes l)" "n_left s z \<notin> ctx_nodes C" "n_right s z \<notin> ctx_nodes C"
    "n_left s z \<noteq> y" "n_right s z \<noteq> y"
    using root_outside [OF l real(2)] root_outside [OF r real(1)] root_outside [OF l real(3)] root_outside [OF r real(3)]
      root_outside [OF l real(4)] root_outside [OF r real(4)] d by (simp_all add: apart_def Int_commute)
  have dd: "set (nodes l) \<inter> ctx_nodes C = {}" "set (nodes r) \<inter> ctx_nodes C = {}" "y \<notin> set (nodes l)" "y \<notin> set (nodes r)"
    using d by (simp_all add: apart_def)
  have "shape (n_parent (relink C y s1)) (n_left (relink C y s1)) (n_right (relink C y s1)) z (n_left s z) l"
    "shape (n_parent (relink C y s1)) (n_left (relink C y s1)) (n_right (relink C y s1)) q (n_right s z) r"
    using l r dd by (simp_all add: relink_frame p)
  then have "shape (n_parent s2) (n_left s2) (n_right s2) y (n_left s z) l"
    "shape (n_parent s2) (n_left s2) (n_right s2) y (n_right s z) r"
    using o(1,2) unfolding s2_def adopt_simps by (simp_all add: adopt_frame shape_adopt)
  moreover have "ctx_shape (n_parent s2) (n_left s2) (n_right s2) (rb_root s2) y C"
    using o(3,4) ctx_shape_relink [OF C1, of y] unfolding s2_def adopt_simps by (simp add: adopt_frame)
  moreover have "n_parent s2 y = ctx_parent C" "n_left s2 y = n_left s z" "n_right s2 y = n_right s z"
    using o(5,6) d'(4) by (simp_all add: s2_def adopt_parent relink_other p)
  ultimately show "focused (replaceNode z y s) C (Nd l y r) y"
    using d by (auto simp: rep focused_def apart_def) (simp_all add: rb_setters)
  show "n_parent (replaceNode z y s) SENTINEL = n_parent s SENTINEL"
    using d' by (simp add: rep s2_def p adopt_def set_parent_def set_lf_left_def set_size_left_def)
  show "n_color (replaceNode z y s) = (n_color s)(y := n_color s z)"
    and "n_size_left (replaceNode z y s) = (n_size_left s)(y := n_size_left s z)"
    and "n_lf_left (replaceNode z y s) = (n_lf_left s)(y := n_lf_left s z)"
    by (simp_all add: rep s2_def s1_def rb_setters)
  have "\<not> detached s (n_left s z)" "\<not> detached s (n_right s z)"
    using shape_root [OF l] shape_root [OF r] nd(2) d by (auto simp: detached_def apart_def null_ref_def)
  then have "\<forall>b. detached s b \<longrightarrow> detached s2 b"
    using nd(1) by (auto simp: detached_def s2_def p adopt_def set_parent_def)
  then show "same_pieces (replaceNode z y s) s"
    by (simp add: rep s2_def s1_def rb_setters same_pieces_def)
qed


text \<open>The sum that the context counts in all.\<close>

fun ctx_total :: "(node_ref \<Rightarrow> int) \<Rightarrow> int \<Rightarrow> node_ctx \<Rightarrow> int" where
  "ctx_total f u Top = u"
| "ctx_total f u (InL C a r) = ctx_total f (u + f a + tree_sum f r) C"
| "ctx_total f u (InR l a C) = ctx_total f (tree_sum f l + f a + u) C"

lemma ctx_sums_ok_comp:
  "ctx_sums_ok S f u (ctx_comp C E) \<longleftrightarrow> ctx_sums_ok S f u E \<and> ctx_sums_ok S f (ctx_total f u E) C"
  by (induction E arbitrary: u) auto

lemma ctx_nodes_comp: "ctx_nodes (ctx_comp C E) = ctx_nodes C \<union> ctx_nodes E"
  by (induction E) auto

lemma set_nodes_plug: "set (nodes (plug C t)) = set (nodes t) \<union> ctx_nodes C"
  by (auto simp: nodes_plug set_ctx_before_after [symmetric])

lemma spine_plug:
  "ctx_sums_ok S f u E \<Longrightarrow> ctx_before E = [] \<Longrightarrow> E = Top \<longrightarrow> u = spine_sum S f t \<Longrightarrow>
    spine_sum S f (plug E t) = ctx_total f u E"
proof (induction E arbitrary: t u)
  case (InL E a r)
  then have "u + f a + tree_sum f r = spine_sum S f (Nd t a r)" by (simp add: spine_sum_ok)
  then show ?case using InL.IH [of "u + f a + tree_sum f r" "Nd t a r"] InL.prems by simp
qed auto

lemma ctx_sums_ok_cong: "(\<And>b. b \<in> ctx_nodes C \<Longrightarrow> S b = S' b) \<Longrightarrow> ctx_sums_ok S f u C = ctx_sums_ok S' f u C"
proof (induction C arbitrary: u)
  case (InL C a r)
  moreover have "sums_ok S f r = sums_ok S' f r" using InL.prems by (intro sums_ok_cong) auto
  ultimately show ?case by simp
next
  case (InR l a C)
  moreover have "sums_ok S f l = sums_ok S' f l" using InR.prems by (intro sums_ok_cong) auto
  ultimately show ?case by simp
qed simp

text \<open>The caches after \<open>y\<close> has replaced \<open>z\<close>; those further up count any value before.\<close>

definition near_sums :: "(node_ref \<Rightarrow> int) \<Rightarrow> (node_ref \<Rightarrow> int) \<Rightarrow> node_ctx \<Rightarrow> node_tree \<Rightarrow> node_ref \<Rightarrow> node_ctx \<Rightarrow> int \<Rightarrow> bool" where
  "near_sums S f C l z E u \<longleftrightarrow> ctx_sums_ok S f u E \<and> S z = tree_sum f l \<and> sums_ok S f l \<and> (\<exists>w. ctx_sums_ok S f w C)"

lemma near_sumsI: "ctx_sums_ok S f u (ctx_comp (InR l z C) E) \<Longrightarrow> near_sums S f C l z E u"
  by (auto simp: near_sums_def ctx_sums_ok_comp)

lemma replaced_sums:
  assumes C: "ctx_shape P L R root x C" and d: "apart C l z (plug E t) y"
    and S: "near_sums S f C l z E u" "sums_ok S f t" and E: "ctx_before E = []"
    and u: "E = Top \<longrightarrow> u = tree_sum f t" and S': "S' = fix_left f C (Nd l y (plug E t)) (S(y := S z))"
  shows "ctx_sums_ok S' f u (ctx_comp (InR l y C) E) \<and> sums_ok S' f t"
proof -
  obtain w where E': "ctx_sums_ok S f u E" "S z = tree_sum f l" "sums_ok S f l" "ctx_sums_ok S f w C"
    using S(1) by (auto simp: near_sums_def)
  let ?S = "S(y := S z)"
  have n: "set (nodes (Nd l y (plug E t))) \<inter> ctx_nodes C = {}" "y \<notin> ctx_nodes C" "y \<notin> set (nodes l)" "y \<notin> set (nodes (plug E t))"
    using d by (auto simp: apart_def)
  have ye: "y \<notin> ctx_nodes E" "y \<notin> set (nodes t)" "set (nodes t) \<inter> ctx_nodes C = {}" "ctx_nodes E \<inter> ctx_nodes C = {}"
    "set (nodes l) \<inter> ctx_nodes C = {}"
    using n by (auto simp: set_nodes_plug)
  have "spine_sum ?S f (plug E t) = ctx_total f u E"
    using E'(1) E u S(2) ye by (intro spine_plug) (simp_all add: spine_sum_ok)
  moreover have "ctx_sums_ok ?S f w C" using E'(4) n(2) by simp
  ultimately have "ctx_sums_ok S' f (tree_sum f l + f y + ctx_total f u E) C"
    using fix_left_ctx [OF C n(1)] E'(2) unfolding S' by force
  moreover have "ctx_sums_ok S' f u E = ctx_sums_ok ?S f u E"
    using ye(4) unfolding S' by (intro ctx_sums_ok_cong fix_left_other) auto
  moreover have "S' y = tree_sum f l" "sums_ok S' f l" "sums_ok S' f t"
    using E'(2,3) n ye S(2) unfolding S' by (simp_all add: sums_ok_fix_left)
  ultimately show ?thesis using E'(1) ye(1) by (simp add: ctx_sums_ok_comp)
qed

text \<open>Its colour replaces that of \<open>z\<close>.\<close>

lemma replaced_colours:
  assumes "y \<notin> ctx_nodes C" "y \<notin> set (nodes l)" "y \<notin> ctx_nodes E"
  shows "ctx_red_ok (c(y := c z)) k (ctx_comp (InR l y C) E) = ctx_red_ok c k (ctx_comp (InR l z C) E)"
    and "ctx_height_ok (c(y := c z)) h (ctx_comp (InR l y C) E) = ctx_height_ok c h (ctx_comp (InR l z C) E)"
  using assms by (induction E arbitrary: k h) auto

definition hole_colours :: "colouring \<Rightarrow> node_ctx \<Rightarrow> node_tree \<Rightarrow> node_color \<Rightarrow> bool" where
  "hole_colours c F t k \<longleftrightarrow> c SENTINEL = Black \<and> red_ok c t \<and> height_ok c t \<and> (k = Red \<longrightarrow> root_color c t = Black) \<and>
     ctx_red_ok c k F \<and> ctx_height_ok c (black_height c t + (if k = Black then 1 else 0)) F"

lemma replaced_ready:
  assumes C: "ctx_shape (n_parent s) (n_left s) (n_right s) (rb_root s) z C" "n_parent s z = ctx_parent C"
    and l: "shape (n_parent s) (n_left s) (n_right s) z (n_left s z) l"
    and r: "shape (n_parent s) (n_left s) (n_right s) q (n_right s z) (plug E t)"
    and d: "apart C l z (plug E t) y" and nd: "\<not> detached s y" "q \<noteq> null_ref" and E: "ctx_before E = []"
    and S: "near_sums (n_size_left s) (n_length s) C l z E u" "near_sums (n_lf_left s) (n_lineFeedCnt s) C l z E v" "caches_ok s t"
      "E = Top \<longrightarrow> u = tree_sum (n_length s) t \<and> v = tree_sum (n_lineFeedCnt s) t"
    and p: "t = Lf \<longrightarrow> n_parent s SENTINEL = ctx_parent (ctx_comp (InR l y C) E)"
    and c: "hole_colours (n_color s) (ctx_comp (InR l z C) E) t k"
  shows "\<exists>s' x. recomputeTreeMetadata y (replaceNode z y s) = Some s' \<and>
    delete_ready s' (ctx_comp (InR l y C) E) t x k \<and> same_pieces s' s"
proof -
  let ?t = "Nd l y (plug E t)" and ?F = "ctx_comp (InR l y C) E"
  define s1 where "s1 = replaceNode z y s"
  note rep = replaceNode_focused [OF C l r d nd, folded s1_def]
  define s' where "s' = s1\<lparr>n_size_left := fix_left (n_length s1) C ?t (n_size_left s1), n_lf_left := fix_left (n_lineFeedCnt s1) C ?t (n_lf_left s1)\<rparr>"
  have fields: "n_parent s' = n_parent s1" "n_color s' = (n_color s)(y := n_color s z)" "same_pieces s' s"
    using rep(3,6) by (simp_all add: s'_def same_pieces_def)
  have len: "n_length s1 = n_length s" "n_lineFeedCnt s1 = n_lineFeedCnt s" "n_length s' = n_length s" "n_lineFeedCnt s' = n_lineFeedCnt s"
    using rep(6) fields(3) n_length_cong [of s1 s] n_length_cong [of s' s] by (auto simp: same_pieces_def)
  have sums: "n_size_left s' = fix_left (n_length s) C ?t ((n_size_left s)(y := n_size_left s z))"
    "n_lf_left s' = fix_left (n_lineFeedCnt s) C ?t ((n_lf_left s)(y := n_lf_left s z))"
    unfolding s'_def by (simp_all add: len rep)
  have rec: "recomputeTreeMetadata y s1 = Some s'" using recomputeTreeMetadata_focused [OF rep(1)] by (simp add: s'_def)
  obtain x where "focused s1 ?F t x" using focused_into_right [OF rep(1), of E t] by blast
  then have f: "focused s' ?F t x" by (simp add: focused_def s'_def)
  have "n_parent s' x = ctx_parent ?F"
    using parent_sentinel [OF f] rep(2) p fields(1) by auto
  moreover have "hole_sums s' ?F u v \<and> caches_ok s' t"
    using S(3,4) replaced_sums [OF C(1) d S(1) _ E _ sums(1)] replaced_sums [OF C(1) d S(2) _ E _ sums(2)]
    unfolding hole_sums_def caches_ok_def len by simp
  moreover have "u = tree_sum (n_length s) t \<and> v = tree_sum (n_lineFeedCnt s) t \<or> (\<exists>D w r. ?F = InL D w r)"
    using S(4) E by (cases E) auto
  moreover have "y \<notin> ctx_nodes C" "y \<notin> set (nodes l)" "y \<notin> ctx_nodes E" "y \<notin> set (nodes t)" "y \<noteq> SENTINEL"
    using d by (auto simp: apart_def set_nodes_plug)
  then have "hole_colours (n_color s') ?F t k"
    using c replaced_colours [of y C l E "n_color s" z] by (simp add: hole_colours_def fields(2))
  moreover have "?F \<noteq> Top" using E by (cases E) auto
  ultimately have "delete_ready s' ?F t x k"
    using f unfolding delete_ready_def hole_colours_def len by blast
  then show ?thesis using rec fields(3) s1_def by auto
qed

text \<open>The first \<open>recomputeTreeMetadata\<close>, from the place of the node that is taken out.\<close>

lemma first_recompute:
  assumes f: "focused s F t x" and F: "F \<noteq> Top" and p: "n_parent s x = ctx_parent F"
    and S: "hole_sums s F u v" and c: "caches_ok s t"
  shows "\<exists>S T u' v'. recomputeTreeMetadata x s = Some (s\<lparr>n_size_left := S, n_lf_left := T\<rparr>) \<and>
    hole_sums (s\<lparr>n_size_left := S, n_lf_left := T\<rparr>) F u' v' \<and> caches_ok (s\<lparr>n_size_left := S, n_lf_left := T\<rparr>) t \<and>
    (u' = tree_sum (n_length s) t \<and> v' = tree_sum (n_lineFeedCnt s) t \<or> (\<exists>D w r. F = InL D w r))"
proof -
  let ?S = "hole_fix (n_length s) F t (n_size_left s)" and ?T = "hole_fix (n_lineFeedCnt s) F t (n_lf_left s)"
  let ?s = "s\<lparr>n_size_left := ?S, n_lf_left := ?T\<rparr>"
  have cs: "ctx_shape (n_parent s) (n_left s) (n_right s) (rb_root s) x F" "set (nodes t) \<inter> ctx_nodes F = {}"
    using f by (auto simp: focused_def)
  have c': "sums_ok (n_size_left s) (n_length s) t" "sums_ok (n_lf_left s) (n_lineFeedCnt s) t"
    "ctx_sums_ok (n_size_left s) (n_length s) u F" "ctx_sums_ok (n_lf_left s) (n_lineFeedCnt s) v F"
    using c S by (simp_all add: caches_ok_def hole_sums_def)
  have len: "n_length ?s = n_length s" "n_lineFeedCnt ?s = n_lineFeedCnt s" using n_length_cong [of ?s s] by simp_all
  have "sums_ok ?S (n_length s) t" "sums_ok ?T (n_lineFeedCnt s) t"
    using c'(1,2) cs(2) sums_ok_cong [of t ?S "n_size_left s"] sums_ok_cong [of t ?T "n_lf_left s"]
      hole_fix_ok(2) [OF cs c'(1,3)] hole_fix_ok(2) [OF cs c'(2,4)] by blast+
  then have "caches_ok ?s t" unfolding caches_ok_def len by simp
  moreover obtain u' v' where "ctx_sums_ok ?S (n_length s) u' F" "u' = tree_sum (n_length s) t \<or> (\<exists>D w r. F = InL D w r)"
    "ctx_sums_ok ?T (n_lineFeedCnt s) v' F" "v' = tree_sum (n_lineFeedCnt s) t \<or> (\<exists>D w r. F = InL D w r)"
    using hole_fix_ok(1) [OF cs c'(1,3)] hole_fix_ok(1) [OF cs c'(2,4)] by blast
  moreover from this have "hole_sums ?s F u' v'" unfolding hole_sums_def len by simp
  ultimately show ?thesis using recompute_hole [OF f F p] by blast
qed

lemma delete_ready_detach:
  assumes "delete_ready s F t x k" "z \<notin> set (nodes (plug F t))" "real_node z"
  shows "delete_ready (TreeNode_detach z s) F t x k"
proof -
  have z: "z \<notin> set (nodes t)" "z \<notin> ctx_nodes F" using assms(2) by (simp_all add: set_nodes_plug)
  have f: "focused s F t x" using assms(1) by (simp add: delete_ready_def)
  have x: "x \<noteq> z" using f z(1) assms(3) by (cases t) (auto simp: focused_def)
  have "n_length (TreeNode_detach z s) = n_length s" "n_lineFeedCnt (TreeNode_detach z s) = n_lineFeedCnt s"
    using n_length_cong [of "TreeNode_detach z s" s] by (simp_all add: TreeNode_detach_def rb_setters)
  moreover have "focused (TreeNode_detach z s) F t x"
    using f z by (simp add: focused_def TreeNode_detach_def rb_setters)
  ultimately show ?thesis
    using assms(1) x unfolding delete_ready_def caches_ok_def hole_sums_def
    by (simp add: TreeNode_detach_def rb_setters)
qed

lemma hole_colours_only_child:
  assumes "red_ok c (plug F (Nd l y r))" "root_color c (plug F (Nd l y r)) = Black" "height_ok c (plug F (Nd l y r))"
    "c SENTINEL = Black" "l = Lf \<and> t = r \<or> r = Lf \<and> t = l"
  shows "hole_colours c F t (c y)"
proof -
  have "red_ok c (Nd l y r) \<and> ctx_red_ok c (c y) F"
    using colours_plug [of c F "Nd l y r"] assms(1,2) by simp
  moreover have "height_ok c (Nd l y r) \<and> ctx_height_ok c (black_height c (Nd l y r)) F"
    using height_ok_plug [of c F "Nd l y r"] assms(3) by blast
  ultimately show ?thesis using assms(4,5) by (auto simp: hole_colours_def split: if_splits)
qed

lemma delete_readyI:
  assumes "focused s F t x" "F \<noteq> Top" "n_parent s x = ctx_parent F" "hole_sums s F u v" "caches_ok s t"
    "u = tree_sum (n_length s) t \<and> v = tree_sum (n_lineFeedCnt s) t \<or> (\<exists>D w r. F = InL D w r)"
    "hole_colours (n_color s) F t k"
  shows "delete_ready s F t x k"
  using assms unfolding delete_ready_def hole_colours_def by blast

lemma first_ready:
  assumes f: "focused s F t x" and F: "F \<noteq> Top" and p: "n_parent s x = ctx_parent F"
    and S: "hole_sums s F u v" and c: "caches_ok s t" and col: "hole_colours (n_color s) F t k"
  shows "\<exists>s'. recomputeTreeMetadata x s = Some s' \<and> delete_ready s' F t x k \<and> same_pieces s' s"
proof -
  obtain S T u v where rec: "recomputeTreeMetadata x s = Some (s\<lparr>n_size_left := S, n_lf_left := T\<rparr>)"
    and ok: "hole_sums (s\<lparr>n_size_left := S, n_lf_left := T\<rparr>) F u v" "caches_ok (s\<lparr>n_size_left := S, n_lf_left := T\<rparr>) t"
      "u = tree_sum (n_length s) t \<and> v = tree_sum (n_lineFeedCnt s) t \<or> (\<exists>D w r. F = InL D w r)"
    using first_recompute [OF f F p S c] by blast
  let ?s = "s\<lparr>n_size_left := S, n_lf_left := T\<rparr>"
  have "n_length ?s = n_length s" "n_lineFeedCnt ?s = n_lineFeedCnt s" using n_length_cong [of ?s s] by simp_all
  moreover have "focused ?s F t x" using f by (simp add: focused_def)
  ultimately have "delete_ready ?s F t x k"
    using delete_readyI [of ?s F t x u v k] ok F p col by simp
  then show ?thesis using rec by (auto simp: same_pieces_def)
qed

text \<open>Taking out a node \<open>y\<close> with one subtree \<open>t\<close> at most.\<close>

lemma splice_ok:
  assumes c: "coloured s (plug F (Nd l y r))" "root_color (n_color s) (plug F (Nd l y r)) = Black"
    and t: "l = Lf \<and> t = r \<and> x = n_right s y \<or> r = Lf \<and> t = l \<and> x = n_left s y" and F: "F \<noteq> Top"
    and s1: "s1 = set_parent x (ctx_parent F) (spliceOut y x s)"
  shows "focused s1 F t x \<and> n_parent s1 x = ctx_parent F \<and> hole_colours (n_color s1) F t (n_color s y) \<and>
    caches_ok s1 t \<and> hole_sums s1 F (tree_sum (n_length s) (Nd l y r)) (tree_sum (n_lineFeedCnt s) (Nd l y r)) \<and>
    same_pieces s1 s"
proof -
  obtain w where "focused s F (Nd l y r) w" using c(1) plug_focused unfolding coloured_def by metis
  then have f: "focused s F (Nd l y r) y" by (auto simp: focused_def)
  have s1': "s1 = set_parent x (ctx_parent F) (relink F x s)" using spliceOut_relink [OF f F] s1 by simp
  have cs: "ctx_shape (n_parent s) (n_left s) (n_right s) (rb_root s) y F" using f by (simp add: focused_def)
  have sx: "shape (n_parent s) (n_left s) (n_right s) y x t" and "set (nodes t) \<inter> ctx_nodes F = {}"
    using f t by (auto simp: focused_def)
  then have "focused s1 F t x" using hole_replace [OF cs] s1' by simp
  moreover have "hole_colours (n_color s) F t (n_color s y)"
    using c t by (intro hole_colours_only_child [of _ _ l y r]) (auto simp: coloured_def)
  moreover have o: "n_color s1 = n_color s" "n_size_left s1 = n_size_left s" "n_lf_left s1 = n_lf_left s" "n_piece s1 = n_piece s"
    "rb_fresh s1 = rb_fresh s" "n_parent s1 x = ctx_parent F" by (simp_all add: s1' set_parent_def)
  moreover have "caches_ok s (plug F (Nd l y r))" using c(1) by (simp add: coloured_def)
  then have "caches_ok s1 t \<and> hole_sums s1 F (tree_sum (n_length s) (Nd l y r)) (tree_sum (n_lineFeedCnt s) (Nd l y r))"
    using t n_length_cong [OF o(4)] o(2,3) unfolding caches_ok_def hole_sums_def sums_ok_plug by auto
  moreover have "\<not> detached s x"
    using shape_root [OF sx] f by (auto simp: detached_def focused_def null_ref_def)
  then have "\<forall>b. detached s b \<longrightarrow> detached s1 b" by (auto simp: detached_def s1' set_parent_def)
  ultimately show ?thesis by (simp add: same_pieces_def)
qed

text \<open>The last steps of \<open>rbDelete\<close>, from where the caches below the hole are right.\<close>

lemma delete_rest:
  assumes r: "delete_ready s F t x k" and z: "z \<notin> set (nodes (plug F t))" "real_node z" and p: "same_pieces s s0"
  shows "\<exists>s'. (do {
      s \<leftarrow> refreshLeft x (TreeNode_detach z s);
      s \<leftarrow> recomputeTreeMetadata (n_parent s x) s;
      (if k = Red then Some (resetSentinel s)
       else do { (x, s) \<leftarrow> fixDelete_loop x s; Some (resetSentinel (set_color x Black s)) })
    }) = Some s' \<and> delete_done s0 (nodes (plug F t)) s' \<and> detached s' z"
proof -
  have "same_pieces (TreeNode_detach z s) s0" "detached (TreeNode_detach z s) z"
    using p z(2) by (auto simp: same_pieces_def TreeNode_detach_def rb_setters detached_def null_ref_def)
  moreover obtain s' where s': "(do {
      s \<leftarrow> refreshLeft x (TreeNode_detach z s);
      s \<leftarrow> recomputeTreeMetadata (n_parent s x) s;
      (if k = Red then Some (resetSentinel s)
       else do { (x, s) \<leftarrow> fixDelete_loop x s; Some (resetSentinel (set_color x Black s)) })
    }) = Some s'" "delete_done (TreeNode_detach z s) (nodes (plug F t)) s'"
    using delete_finish [OF delete_ready_detach [OF r z]] by blast
  ultimately have "delete_done s0 (nodes (plug F t)) s' \<and> detached s' z"
    unfolding delete_done_def using same_pieces_trans by (auto simp: same_pieces_def)
  then show ?thesis using s'(1) by blast
qed

lemma coloured_focused: "coloured s (plug C (Nd l z r)) \<Longrightarrow> focused s C (Nd l z r) z"
  using plug_focused [of s C "Nd l z r"] by (auto simp: coloured_def focused_def)

lemma child_links:
  assumes "focused s C (Nd l z r) z"
  shows "n_left s z = SENTINEL \<longleftrightarrow> l = Lf" "n_right s z = SENTINEL \<longleftrightarrow> r = Lf" "z \<notin> set (nodes (plug C l))"
    "z \<notin> set (nodes (plug C r))" "real_node z"
  using assms shape_root [of "n_parent s" "n_left s" "n_right s" z "n_left s z" l]
    shape_root [of "n_parent s" "n_left s" "n_right s" z "n_right s z" r]
  by (auto simp: focused_def set_nodes_plug)

lemma rbDelete_one:
  assumes c: "coloured s (plug C (Nd l z r))" "root_color (n_color s) (plug C (Nd l z r)) = Black" and C: "C \<noteq> Top"
    and t: "l = Lf \<and> t = r \<and> x = n_right s z \<or> l \<noteq> Lf \<and> r = Lf \<and> t = l \<and> x = n_left s z"
  shows "\<exists>s'. rbDelete z s = Some s' \<and> delete_done s (nodes (plug C t)) s' \<and> detached s' z"
proof -
  have f: "focused s C (Nd l z r) z" using coloured_focused [OF c(1)] .
  note ch = child_links [OF f]
  have t': "l = Lf \<and> t = r \<and> x = n_right s z \<or> r = Lf \<and> t = l \<and> x = n_left s z" using t by blast
  define s1 where "s1 = set_parent x (ctx_parent C) (spliceOut z x s)"
  note sp = splice_ok [OF c t' C s1_def]
  have p: "n_parent s z = ctx_parent C" using focused_root [OF f] by simp
  obtain s2 where s2: "recomputeTreeMetadata x s1 = Some s2" "delete_ready s2 C t x (n_color s z)" "same_pieces s2 s1"
    using first_ready [of s1 C t x] sp C by blast
  have "z \<notin> set (nodes (plug C t))" using t ch by auto
  moreover have "same_pieces s2 s" using sp s2(3) same_pieces_trans by blast
  moreover have "z \<noteq> rb_root s" using focused_is_root [OF f] C by simp
  ultimately show ?thesis
    using delete_rest [OF s2(2) _ ch(5)] s2(1) t ch(1,2) p s1_def by (auto simp: rbDelete_def spliceOut_parent)
qed

lemma focused_comp:
  "focused s (ctx_comp (InR l z C) E) t x \<Longrightarrow> focused s C (Nd l z (plug E t)) z"
  using plug_focused [of s C "Nd l z (plug E t)"] focused_plug [of s "ctx_comp (InR l z C) E" t x]
  by (auto simp: focused_def)

text \<open>The leftmost node \<open>y\<close> on the right of \<open>z\<close>, which has no left child, is taken out and replaces \<open>z\<close>.\<close>

definition moved_up :: "'a rb_tree_scheme \<Rightarrow> node_ctx \<Rightarrow> node_tree \<Rightarrow> node_ref \<Rightarrow> node_ctx \<Rightarrow> node_ref \<Rightarrow> node_tree \<Rightarrow> node_ref \<Rightarrow> bool" where
  "moved_up s C l z E y t x \<longleftrightarrow> coloured s (plug C (Nd l z (plug E (Nd Lf y t)))) \<and>
     root_color (n_color s) (plug C (Nd l z (plug E (Nd Lf y t)))) = Black \<and> ctx_before E = [] \<and> x = n_right s y"

lemma moved_up_apart:
  assumes "moved_up s C l z E y t x"
  shows "focused s C (Nd l z (plug E (Nd Lf y t))) z" "focused s (ctx_comp (InR l z C) E) (Nd Lf y t) y"
    "apart C l z (plug E t) y" "z \<notin> ctx_nodes E"
proof -
  show f: "focused s C (Nd l z (plug E (Nd Lf y t))) z"
    using assms coloured_focused unfolding moved_up_def by blast
  show "focused s (ctx_comp (InR l z C) E) (Nd Lf y t) y"
    using coloured_focused [of s "ctx_comp (InR l z C) E" Lf y t] assms by (simp add: moved_up_def)
  have "shape (n_parent s) (n_left s) (n_right s) z (n_right s z) (plug E (Nd Lf y t))"
    using f by (simp add: focused_def)
  then have "distinct (nodes (plug E (Nd Lf y t)))" "real_node y"
    using shape_distinct shape_real by (auto simp: set_nodes_plug)
  then have "y \<notin> ctx_nodes E" "y \<notin> set (nodes t)" "real_node y"
    by (auto simp: nodes_plug set_ctx_before_after [symmetric])
  then show "apart C l z (plug E t) y" "z \<notin> ctx_nodes E" using f by (auto simp: focused_def apart_def set_nodes_plug)
qed

lemma moved_up_splice:
  assumes m: "moved_up s C l z E y t x"
    and s1: "s1 = set_parent x (ctx_parent (ctx_comp (InR l z C) E)) (spliceOut y x s)"
  shows "\<exists>u v. focused s1 (ctx_comp (InR l z C) E) t x \<and> n_parent s1 x = ctx_parent (ctx_comp (InR l z C) E) \<and>
    hole_colours (n_color s1) (ctx_comp (InR l z C) E) t (n_color s y) \<and> caches_ok s1 t \<and>
    hole_sums s1 (ctx_comp (InR l z C) E) u v \<and> same_pieces s1 s \<and> \<not> detached s1 y"
proof -
  let ?F = "ctx_comp (InR l z C) E"
  note ap = moved_up_apart [OF m]
  have F: "?F \<noteq> Top" by (cases E) auto
  have y: "n_parent s y = ctx_parent ?F" "ctx_parent ?F \<noteq> null_ref"
    using focused_root [OF ap(2)] ctx_parent_not_null ap(2) unfolding focused_def by blast+
  then have "n_parent s1 y \<noteq> null_ref" by (simp add: s1 set_parent_def spliceOut_parent)
  then have "\<not> detached s1 y" by (simp add: detached_def)
  then show ?thesis
    using splice_ok [OF _ _ _ F s1, of Lf t t] m unfolding moved_up_def by (metis plug.simps(3) plug_ctx_comp)
qed

lemma moved_up_deep:
  assumes m: "moved_up s C l z E y t x" and E: "E \<noteq> Top"
    and s1: "s1 = set_parent x (ctx_parent (ctx_comp (InR l z C) E)) (spliceOut y x s)"
  shows "\<exists>s'. (do { s \<leftarrow> recomputeTreeMetadata x s1; recomputeTreeMetadata y (replaceNode z y s) }) = Some s' \<and>
    delete_ready s' (ctx_comp (InR l y C) E) t x (n_color s y) \<and> same_pieces s' s"
proof -
  let ?F = "ctx_comp (InR l z C) E"
  note ap = moved_up_apart [OF m]
  have F: "?F \<noteq> Top" "ctx_parent ?F = ctx_parent (ctx_comp (InR l y C) E)" using E by (cases E; simp)+
  obtain u v where sp: "focused s1 ?F t x" "n_parent s1 x = ctx_parent ?F" "hole_colours (n_color s1) ?F t (n_color s y)"
    "caches_ok s1 t" "hole_sums s1 ?F u v" "same_pieces s1 s" "\<not> detached s1 y"
    using moved_up_splice [OF m s1] by blast
  obtain S T u v where rec: "recomputeTreeMetadata x s1 = Some (s1\<lparr>n_size_left := S, n_lf_left := T\<rparr>)"
    and ok: "hole_sums (s1\<lparr>n_size_left := S, n_lf_left := T\<rparr>) ?F u v" "caches_ok (s1\<lparr>n_size_left := S, n_lf_left := T\<rparr>) t"
    using first_recompute [OF sp(1) F(1) sp(2,5,4)] by blast
  define s2 where "s2 = s1\<lparr>n_size_left := S, n_lf_left := T\<rparr>"
  have f2: "focused s2 ?F t x" using sp(1) by (simp add: s2_def focused_def)
  have n: "near_sums (n_size_left s2) (n_length s2) C l z E u" "near_sums (n_lf_left s2) (n_lineFeedCnt s2) C l z E v"
    using ok(1) by (auto simp: s2_def hole_sums_def intro: near_sumsI)
  have g: "focused s2 C (Nd l z (plug E t)) z" using focused_comp [OF f2] .
  have "\<exists>s' x'. recomputeTreeMetadata y (replaceNode z y s2) = Some s' \<and>
      delete_ready s' (ctx_comp (InR l y C) E) t x' (n_color s y) \<and> same_pieces s' s2"
    using g ap(3) n ok(2) E sp(2,3,7) f2 m F(2)
    by (intro replaced_ready [where q = z]) (auto simp: focused_def moved_up_def s2_def)
  then obtain s' x' where s': "recomputeTreeMetadata y (replaceNode z y s2) = Some s'"
    "delete_ready s' (ctx_comp (InR l y C) E) t x' (n_color s y)" "same_pieces s' s2" by blast
  then have "x' = x" using f2 focused_unique unfolding delete_ready_def by blast
  moreover have "same_pieces s' s" using s'(3) sp(6) by (simp add: s2_def same_pieces_def)
  ultimately show ?thesis using rec s' s2_def by auto
qed

text \<open>When \<open>y\<close> is the right child of \<open>z\<close>, \<open>x\<close> gets \<open>y\<close> as its parent at once, and the caches stay.\<close>

lemma recompute_near:
  assumes f: "focused s (InR l z C) t x" and d: "apart C l z t y" and y: "n_right s y = x" "n_parent s y = z"
    and n: "near_sums (n_size_left s) (n_length s) C l z Top u" "near_sums (n_lf_left s) (n_lineFeedCnt s) C l z Top v"
    and s1: "n_parent s1 = (n_parent s)(x := y)" "n_left s1 = n_left s" "n_right s1 = n_right s" "rb_root s1 = rb_root s"
      "n_size_left s1 = n_size_left s" "n_lf_left s1 = n_lf_left s" "n_piece s1 = n_piece s"
  shows "recomputeTreeMetadata x s1 = Some s1"
proof -
  have l: "shape (n_parent s) (n_left s) (n_right s) z (n_left s z) l" "n_right s z = x" using f by (simp_all add: focused_def)
  have x: "x \<notin> set (nodes l)" "x \<noteq> z" "x \<noteq> y"
    using focused_not_ctx [OF f] f d by (cases t; auto simp: focused_def apart_def)+
  have root: "x \<noteq> rb_root s" "y \<noteq> rb_root s"
    using focused_not_root [OF f] root_in_ctx [of "n_parent s" "n_left s" "n_right s" "rb_root s" x "InR l z C"] f d
    by (auto simp: focused_def apart_def)
  have l1: "shape (n_parent s1) (n_left s1) (n_right s1) z (n_left s1 z) l" using l(1) x by (simp add: s1)
  have len: "n_length s1 = n_length s" "n_lineFeedCnt s1 = n_lineFeedCnt s" using n_length_cong [OF s1(7)] by simp_all
  have calc: "calculateSize s1 (n_left s1 z) = Some (n_size_left s1 z)" "calculateLF s1 (n_left s1 z) = Some (n_lf_left s1 z)"
    unfolding calculateSize_shape [OF l1] calculateLF_shape [OF l1] len s1(5,6)
    using n by (simp_all add: near_sums_def spine_sum_ok)
  have "recompute_climb y s1 = Some y"
    using y x l(2) s1 by (subst recompute_climb.simps) simp
  then have "recompute_climb x s1 = Some y"
    using root(1) y(1) s1 by (subst recompute_climb.simps) simp
  moreover have "recompute_up z 0 0 s1 = Some s1" by (subst recompute_up.simps) simp
  moreover have "n_parent s1 y = z" using x y(2) s1 by simp
  ultimately show ?thesis
    using root calc s1(4) by (simp add: recomputeTreeMetadata_def Let_def set_size_left_def set_lf_left_def)
qed

lemma moved_up_near:
  assumes m: "moved_up s C l z Top y t x" and s1: "s1 = set_parent x y (spliceOut y x s)"
  shows "\<exists>s'. (do { s \<leftarrow> recomputeTreeMetadata x s1; recomputeTreeMetadata y (replaceNode z y s) }) = Some s' \<and>
    delete_ready s' (InR l y C) t x (n_color s y) \<and> same_pieces s' s"
proof -
  define s0 where "s0 = set_parent x (ctx_parent (ctx_comp (InR l z C) Top)) (spliceOut y x s)"
  have ap: "focused s (InR l z C) (Nd Lf y t) y" "apart C l z t y"
    using moved_up_apart(2,3) [OF m] by simp_all
  obtain u v where sp: "focused s0 (InR l z C) t x" "hole_colours (n_color s0) (InR l z C) t (n_color s y)"
    "caches_ok s0 t" "hole_sums s0 (InR l z C) u v" "same_pieces s0 s"
    using moved_up_splice [OF m s0_def] by auto
  have o: "n_color s1 = n_color s0" "n_size_left s1 = n_size_left s0" "n_lf_left s1 = n_lf_left s0" "n_piece s1 = n_piece s0"
    "rb_fresh s1 = rb_fresh s0" "n_left s1 = n_left s0" "n_right s1 = n_right s0" "rb_root s1 = rb_root s0"
    "n_parent s1 = (n_parent s0)(x := y)" by (simp_all add: s1 s0_def set_parent_def)
  have len: "n_length s1 = n_length s0" "n_lineFeedCnt s1 = n_lineFeedCnt s0" using n_length_cong [OF o(4)] by simp_all
  have n: "near_sums (n_size_left s0) (n_length s0) C l z Top u" "near_sums (n_lf_left s0) (n_lineFeedCnt s0) C l z Top v" for u v
    using sp(4) by (auto simp: hole_sums_def near_sums_def)
  have x: "x \<notin> ctx_nodes C" "x \<noteq> z" "x \<notin> set (nodes l)" "x \<noteq> y"
    using focused_not_ctx [OF sp(1)] sp(1) ap(2) by (cases t; auto simp: focused_def apart_def)+
  have yz: "n_right s0 y = x" "n_parent s0 y = z"
    using ap m x focused_root [OF ap(1)]
    by (auto simp: s0_def set_parent_def spliceOut_def rb_setters moved_up_def apart_def)
  have rec: "recomputeTreeMetadata x s1 = Some s1"
    using recompute_near [OF sp(1) ap(2) yz n o(9,6,7,8,2,3,4)] .
  have "shape (n_parent s1) (n_left s1) (n_right s1) y (n_right s1 z) t"
    using sp(1) shape_new_parent [of "n_parent s0" "n_left s0" "n_right s0" z x t y] by (simp add: o focused_def)
  moreover have nd: "\<not> detached s1 y" "y \<noteq> null_ref" "\<not> detached s0 x"
    using yz(2) o(9) x(4) ap(2) sp(1) shape_root [of "n_parent s0" "n_left s0" "n_right s0" z x t]
    by (auto simp: detached_def apart_def focused_def)
  ultimately have "\<exists>s' x'. recomputeTreeMetadata y (replaceNode z y s1) = Some s' \<and>
      delete_ready s' (ctx_comp (InR l y C) Top) t x' (n_color s y) \<and> same_pieces s' s1"
    using sp(1,2,3) n ap(2) x nd
    by (intro replaced_ready [where q = y]) (auto simp: o len caches_ok_def focused_def)
  then obtain s' x' where s': "recomputeTreeMetadata y (replaceNode z y s1) = Some s'"
    "delete_ready s' (InR l y C) t x' (n_color s y)" "same_pieces s' s1" by auto
  then have "x' = x" using sp(1) focused_unique unfolding delete_ready_def by blast
  moreover have "\<forall>b. detached s0 b \<longrightarrow> detached s1 b" using nd(3) by (auto simp: detached_def o(9))
  then have "same_pieces s' s" using s'(3) sp(5) o by (simp add: same_pieces_def)
  ultimately show ?thesis using rec s' by auto
qed

lemma rbDelete_two:
  assumes c: "coloured s (plug C (Nd l z r))" "root_color (n_color s) (plug C (Nd l z r)) = Black"
    and l: "l \<noteq> Lf" and r: "r \<noteq> Lf"
  shows "\<exists>s'. rbDelete z s = Some s' \<and> delete_done s (ctx_before C @ nodes l @ nodes r @ ctx_after C) s' \<and> detached s' z"
proof -
  have f: "focused s C (Nd l z r) z" using coloured_focused [OF c(1)] .
  note ch = child_links [OF f]
  obtain E y t where E: "r = plug E (Nd Lf y t)" "ctx_before E = []" using leftmost [OF r] by blast
  let ?x = "n_right s y" and ?F = "ctx_comp (InR l y C) E" and ?k = "n_color s y"
  have m: "moved_up s C l z E y t ?x" using c E by (simp add: moved_up_def)
  note ap = moved_up_apart [OF m]
  have rs: "shape (n_parent s) (n_left s) (n_right s) z (n_right s z) r" using f by (simp add: focused_def)
  have lm: "leftest s (n_right s z) = Some y"
    using leftest_shape [OF rs r] E by (simp add: nodes_plug)
  have F0: "ctx_comp (InR l z C) E \<noteq> Top" by (cases E) simp_all
  have y: "y \<noteq> rb_root s" "y \<noteq> z" "n_parent s y = ctx_parent (ctx_comp (InR l z C) E)"
    using focused_not_root [OF ap(2) F0] focused_root [OF ap(2)] ap(3) by (auto simp: apart_def)
  have zy: "n_parent s y = z \<longleftrightarrow> E = Top"
    using y(3) ap(4) ctx_parent_in [of E] by (cases E) auto
  obtain s2 s3 where s2: "recomputeTreeMetadata ?x (if n_parent s y = z then set_parent ?x y (spliceOut y ?x s)
        else set_parent ?x (n_parent s y) (spliceOut y ?x s)) = Some s3"
    "delete_ready s2 ?F t ?x ?k" "same_pieces s2 s" "recomputeTreeMetadata y (replaceNode z y s3) = Some s2"
  proof (cases "E = Top")
    case True
    then show ?thesis
      using moved_up_near [OF m [unfolded True] refl] that zy by (auto simp: bind_eq_Some_conv)
  next
    case False
    then show ?thesis using moved_up_deep [OF m False refl] that zy y(3) by (auto simp: bind_eq_Some_conv)
  qed
  have "z \<notin> set (nodes (plug ?F t))"
    using ch(3,5) ap(3,4) by (auto simp: set_nodes_plug ctx_nodes_comp apart_def)
  from delete_rest [OF s2(2) this ch(5) s2(3)]
  obtain s' where "(do {
      s \<leftarrow> refreshLeft ?x (TreeNode_detach z s2);
      s \<leftarrow> recomputeTreeMetadata (n_parent s ?x) s;
      (if ?k = Red then Some (resetSentinel s)
       else do { (x, s) \<leftarrow> fixDelete_loop ?x s; Some (resetSentinel (set_color x Black s)) })
    }) = Some s'" "delete_done s (nodes (plug ?F t)) s'" "detached s' z" by blast
  moreover have "nodes (plug ?F t) = ctx_before C @ nodes l @ nodes r @ ctx_after C"
    using E by (simp add: nodes_plug)
  ultimately show ?thesis
    using s2(1,4) l r ch(1,2) lm y(1,2)
    by (cases "n_parent s y = z") (simp_all add: rbDelete_def spliceOut_parent Let_def)
qed

text \<open>The root, with one subtree at most.\<close>

lemma rbDelete_root:
  assumes c: "coloured s (Nd l z r)"
    and t: "l = Lf \<and> t = r \<and> x = n_right s z \<or> l \<noteq> Lf \<and> r = Lf \<and> t = l \<and> x = n_left s z"
  shows "\<exists>s'. rbDelete z s = Some s' \<and> delete_done s (nodes t) s' \<and> detached s' z"
proof -
  have f: "focused s Top (Nd l z r) z" using coloured_focused [of s Top] c by simp
  note ch = child_links [OF f]
  have z: "z = rb_root s" using f by (simp add: focused_def)
  define s' where "s' = set_parent x SENTINEL (resetSentinel (TreeNode_detach z (set_color x Black (set_root x s))))"
  have del: "rbDelete z s = Some s'"
    using t ch(1,2) z by (auto simp: rbDelete_def s'_def Let_def rb_setters resetSentinel_def TreeNode_detach_def)
  have x: "shape (n_parent s) (n_left s) (n_right s) z x t" "z \<notin> set (nodes t)" using f t by (auto simp: focused_def)
  have xz: "x \<noteq> z" using shape_root [OF x(1)] x(2) ch(5) by auto
  have x0: "SENTINEL \<notin> set (nodes t)" using shape_real [OF x(1)] real_not_sentinel(1) by blast
  have o: "n_left s' = (n_left s)(z := null_ref)" "n_right s' = (n_right s)(z := null_ref)" "rb_root s' = x"
    "n_parent s' = (n_parent s)(z := null_ref, SENTINEL := SENTINEL, x := SENTINEL)" "n_color s' = (n_color s)(x := Black)"
    "n_size_left s' = n_size_left s" "n_lf_left s' = n_lf_left s" "n_piece s' = n_piece s" "rb_fresh s' = rb_fresh s"
    by (simp_all add: s'_def rb_setters resetSentinel_def TreeNode_detach_def)
  have "shape ((n_parent s)(z := null_ref, SENTINEL := SENTINEL)) (n_left s') (n_right s') z x t"
    using x x0 by (simp add: o)
  from shape_new_parent [OF this, of SENTINEL] have "tree_of s' t" by (simp add: focused_def o)
  moreover have "caches_ok s' t"
    using c t caches_ok_cong [of t s' s] by (auto simp: coloured_def caches_ok_def o)
  moreover have "red_ok (n_color s) t" "height_ok (n_color s) t" "n_color s SENTINEL = Black"
    using c t by (auto simp: coloured_def)
  then have "red_ok (n_color s') t \<and> height_ok (n_color s') t \<and> root_color (n_color s') t = Black \<and> n_color s' SENTINEL = Black"
    using x(1) by (cases t) (auto simp: o)
  ultimately have "coloured s' t \<and> root_color (n_color s') t = Black" by (simp add: coloured_def)
  moreover have "\<not> detached s x" "detached s' z"
    using shape_root [OF x(1)] xz ch(5) by (auto simp: detached_def o null_ref_def)
  moreover from this have "\<forall>b. detached s b \<longrightarrow> detached s' b" by (auto simp: detached_def o)
  ultimately show ?thesis using del by (auto simp: delete_done_def same_pieces_def o)
qed

text \<open>\<open>rbDelete\<close> ends, and takes the node out.\<close>

lemma rbDelete_ok:
  assumes ok: "rb_ok s t" and t: "nodes t = xs @ z # ys"
  shows "\<exists>s' t'. rbDelete z s = Some s' \<and> rb_ok s' t' \<and> nodes t' = xs @ ys \<and> n_piece s' = n_piece s \<and>
    rb_fresh s' = rb_fresh s \<and> n_parent s' SENTINEL = SENTINEL \<and> detached s' z \<and> (\<forall>b. detached s b \<longrightarrow> detached s' b)"
proof -
  obtain C l r where C: "t = plug C (Nd l z r)" "xs = ctx_before C @ nodes l" "ys = nodes r @ ctx_after C"
    using nodes_split [OF t] by blast
  have c: "coloured s (plug C (Nd l z r))" "root_color (n_color s) (plug C (Nd l z r)) = Black"
    using ok C(1) by (simp_all add: rb_ok_def)
  consider (two) "l \<noteq> Lf" "r \<noteq> Lf" | (left) "l = Lf" | (right) "l \<noteq> Lf" "r = Lf" by blast
  then have "\<exists>s'. rbDelete z s = Some s' \<and> delete_done s (xs @ ys) s' \<and> detached s' z"
  proof cases
    case two
    then show ?thesis using rbDelete_two [OF c two] C by simp
  next
    case left
    then show ?thesis
      using rbDelete_one [OF c, of r "n_right s z"] rbDelete_root [of s l z r r "n_right s z"] c C by (cases C) (auto simp: nodes_plug)
  next
    case right
    then show ?thesis
      using rbDelete_one [OF c, of l "n_left s z"] rbDelete_root [of s l z r l "n_left s z"] c C by (cases C) (auto simp: nodes_plug)
  qed
  then obtain s' t' where "rbDelete z s = Some s'" "coloured s' t'" "root_color (n_color s') t' = Black" "nodes t' = xs @ ys"
    "same_pieces s' s" "n_parent s' SENTINEL = SENTINEL" "detached s' z" unfolding delete_done_def by blast
  moreover from this have "rb_ok s' t'" using ok t by (auto simp: rb_ok_def same_pieces_def)
  ultimately show ?thesis by (auto simp: same_pieces_def)
qed

end
