(* ===== verification/PieceTrees.thy ===== *)
theory PieceTrees
  imports PieceTreeDeletes
begin

text \<open>
  The red-black tree as the sequence of pieces that \<open>PieceTreeBase\<close> sees: its nodes in order, with
  their pieces. The locale states the laws of that interface, with no colours or caches in them,
  and its lemmas are about the loops over several nodes. The replacement of the piece of one node,
  \<open>iterate\<close>, \<open>computeBufferMetadata\<close> and the searches by offset use the caches.
\<close>

section \<open>Operations on several nodes\<close>

text \<open>\<open>node.piece = p\<close> followed by \<open>updateTreeMetadata\<close>.\<close>

definition replacePiece :: "node_ref \<Rightarrow> piece \<Rightarrow> int \<Rightarrow> int \<Rightarrow> 'a rb_tree_scheme \<Rightarrow> 'a rb_tree_scheme option" where
  "replacePiece node p size_delta lf_delta s = updateTreeMetadata node size_delta lf_delta (set_piece node p s)"

text \<open>The loops \<open>tmpNode = this.rbInsertRight(tmpNode, newPieces[k])\<close>, and the same to the left.\<close>

fun insert_chain :: "(node_ref \<Rightarrow> piece \<Rightarrow> 's \<Rightarrow> (node_ref \<times> 's) option) \<Rightarrow> node_ref \<Rightarrow> piece list \<Rightarrow> 's \<Rightarrow>
    (node_ref \<times> 's) option" where
  "insert_chain ins tmpNode [] s = Some (tmpNode, s)"
| "insert_chain ins tmpNode (p # ps) s = do { (z, s) \<leftarrow> ins tmpNode p s; insert_chain ins z ps s }"

fun delete_chain :: "(node_ref \<Rightarrow> 's \<Rightarrow> 's option) \<Rightarrow> node_ref list \<Rightarrow> 's \<Rightarrow> 's option" where
  "delete_chain del [] s = Some s"
| "delete_chain del (n # ns) s = do { s \<leftarrow> del n s; delete_chain del ns s }"

definition deleteNodes :: "node_ref list \<Rightarrow> 'a rb_tree_scheme \<Rightarrow> 'a rb_tree_scheme option" where
  "deleteNodes = delete_chain rbDelete"

section \<open>The interface\<close>

text \<open>
  \<open>ord s ns\<close>: the nodes of the state \<open>s\<close> are \<open>ns\<close>, in this order, and the state is sound. \<open>gone\<close>
  holds of nodes that were taken out, which a client can see by \<open>node.parent === null\<close>.
\<close>

locale piece_order =
  fixes ord :: "'s \<Rightarrow> node_ref list \<Rightarrow> bool" and piece_of :: "'s \<Rightarrow> node_ref \<Rightarrow> piece"
    and gone :: "'s \<Rightarrow> node_ref \<Rightarrow> bool"
    and insert_right :: "node_ref \<Rightarrow> piece \<Rightarrow> 's \<Rightarrow> (node_ref \<times> 's) option"
    and insert_left :: "node_ref \<Rightarrow> piece \<Rightarrow> 's \<Rightarrow> (node_ref \<times> 's) option"
    and remove :: "node_ref \<Rightarrow> 's \<Rightarrow> 's option"
    and replace :: "node_ref \<Rightarrow> piece \<Rightarrow> int \<Rightarrow> int \<Rightarrow> 's \<Rightarrow> 's option"
    and succ pred :: "'s \<Rightarrow> node_ref \<Rightarrow> node_ref option"
  assumes ord_nodes: "ord s ns \<Longrightarrow> distinct ns \<and> SENTINEL \<notin> set ns \<and> (\<forall>n\<in>set ns. \<not> gone s n)"
    and insert_empty: "ord s [] \<Longrightarrow> \<exists>z s'. insert_right a p s = Some (z, s') \<and> insert_left a p s = Some (z, s') \<and>
      ord s' [z] \<and> piece_of s' = (piece_of s)(z := p) \<and> (\<forall>b. gone s b \<longrightarrow> gone s' b)"
    and insert_right: "ord s (xs @ a # ys) \<Longrightarrow> \<exists>z s'. insert_right a p s = Some (z, s') \<and>
      ord s' (xs @ a # z # ys) \<and> piece_of s' = (piece_of s)(z := p) \<and> (\<forall>b. gone s b \<longrightarrow> gone s' b)"
    and insert_left: "ord s (xs @ a # ys) \<Longrightarrow> \<exists>z s'. insert_left a p s = Some (z, s') \<and>
      ord s' (xs @ z # a # ys) \<and> piece_of s' = (piece_of s)(z := p) \<and> (\<forall>b. gone s b \<longrightarrow> gone s' b)"
    and remove: "ord s (xs @ a # ys) \<Longrightarrow> \<exists>s'. remove a s = Some s' \<and> ord s' (xs @ ys) \<and> piece_of s' = piece_of s \<and>
      gone s' a \<and> (\<forall>b. gone s b \<longrightarrow> gone s' b)"
    and replace: "ord s ns \<Longrightarrow> a \<in> set ns \<Longrightarrow>
      \<exists>s'. replace a p (pc_length p - pc_length (piece_of s a)) (pc_lineFeedCnt p - pc_lineFeedCnt (piece_of s a)) s = Some s' \<and>
        ord s' ns \<and> piece_of s' = (piece_of s)(a := p) \<and> gone s' = gone s"
    and succ: "ord s (xs @ a # ys) \<Longrightarrow> succ s a = Some (if ys = [] then SENTINEL else hd ys)"
    and pred: "ord s (xs @ a # ys) \<Longrightarrow> pred s a = Some (if xs = [] then SENTINEL else last xs)"
begin

text \<open>The pieces of the nodes, in order.\<close>

lemma insert_right_pieces:
  assumes "ord s (xs @ a # ys)"
  shows "\<exists>z s'. insert_right a p s = Some (z, s') \<and> ord s' (xs @ a # z # ys) \<and> piece_of s' = (piece_of s)(z := p) \<and> (\<forall>b. gone s b \<longrightarrow> gone s' b) \<and>
    map (piece_of s') (xs @ a # z # ys) = map (piece_of s) (xs @ [a]) @ p # map (piece_of s) ys"
proof -
  obtain z s' where z: "insert_right a p s = Some (z, s')" "ord s' (xs @ a # z # ys)" "piece_of s' = (piece_of s)(z := p)" "\<forall>b. gone s b \<longrightarrow> gone s' b"
    using insert_right [OF assms] by blast
  then have "z \<notin> set xs" "z \<noteq> a" "z \<notin> set ys" using ord_nodes [OF z(2)] by auto
  then show ?thesis using z by (intro exI [of _ z] exI [of _ s']) simp
qed

lemma insert_left_pieces:
  assumes "ord s (xs @ a # ys)"
  shows "\<exists>z s'. insert_left a p s = Some (z, s') \<and> ord s' (xs @ z # a # ys) \<and> piece_of s' = (piece_of s)(z := p) \<and> (\<forall>b. gone s b \<longrightarrow> gone s' b) \<and>
    map (piece_of s') (xs @ z # a # ys) = map (piece_of s) xs @ p # map (piece_of s) (a # ys)"
proof -
  obtain z s' where z: "insert_left a p s = Some (z, s')" "ord s' (xs @ z # a # ys)" "piece_of s' = (piece_of s)(z := p)" "\<forall>b. gone s b \<longrightarrow> gone s' b"
    using insert_left [OF assms] by blast
  then have "z \<notin> set xs" "z \<noteq> a" "z \<notin> set ys" using ord_nodes [OF z(2)] by auto
  then show ?thesis using z by (intro exI [of _ z] exI [of _ s']) simp
qed

lemma insert_chain_right:
  "ord s (xs @ a # ys) \<Longrightarrow> \<exists>zs s'. insert_chain insert_right a ps s = Some (last (a # zs), s') \<and>
    ord s' (xs @ a # zs @ ys) \<and> map (piece_of s') zs = ps \<and> (\<forall>n \<in> set (xs @ a # ys). piece_of s' n = piece_of s n) \<and> (\<forall>b. gone s b \<longrightarrow> gone s' b)"
proof (induction ps arbitrary: s xs a)
  case (Cons p ps)
  obtain z s1 where z: "insert_right a p s = Some (z, s1)" "ord s1 (xs @ a # z # ys)" "piece_of s1 = (piece_of s)(z := p)" "\<forall>b. gone s b \<longrightarrow> gone s1 b"
    using insert_right [OF Cons.prems] by blast
  obtain zs s' where zs: "insert_chain insert_right z ps s1 = Some (last (z # zs), s')" "ord s' ((xs @ [a]) @ z # zs @ ys)"
    "map (piece_of s') zs = ps" "\<forall>n \<in> set ((xs @ [a]) @ z # ys). piece_of s' n = piece_of s1 n" "\<forall>b. gone s1 b \<longrightarrow> gone s' b"
    using Cons.IH [of s1 "xs @ [a]" z] z(2) by auto
  have "z \<notin> set (xs @ a # ys)" using ord_nodes [OF z(2)] by auto
  then show ?case using z zs by (intro exI [of _ "z # zs"] exI [of _ s']) auto
qed auto

lemma insert_chain_left:
  "ord s (xs @ a # ys) \<Longrightarrow> \<exists>zs s'. insert_chain insert_left a ps s = Some (hd (zs @ [a]), s') \<and>
    ord s' (xs @ zs @ a # ys) \<and> map (piece_of s') zs = rev ps \<and> (\<forall>n \<in> set (xs @ a # ys). piece_of s' n = piece_of s n) \<and> (\<forall>b. gone s b \<longrightarrow> gone s' b)"
proof (induction ps arbitrary: s ys a)
  case (Cons p ps)
  obtain z s1 where z: "insert_left a p s = Some (z, s1)" "ord s1 (xs @ z # a # ys)" "piece_of s1 = (piece_of s)(z := p)" "\<forall>b. gone s b \<longrightarrow> gone s1 b"
    using insert_left [OF Cons.prems] by blast
  obtain zs s' where zs: "insert_chain insert_left z ps s1 = Some (hd (zs @ [z]), s')" "ord s' (xs @ zs @ z # a # ys)"
    "map (piece_of s') zs = rev ps" "\<forall>n \<in> set (xs @ z # a # ys). piece_of s' n = piece_of s1 n" "\<forall>b. gone s1 b \<longrightarrow> gone s' b"
    using Cons.IH [of s1 z "a # ys"] z(2) by auto
  have "z \<notin> set (xs @ a # ys)" using ord_nodes [OF z(2)] by auto
  then show ?case using z zs by (intro exI [of _ "zs @ [z]"] exI [of _ s']) (auto simp: hd_append)
qed auto

lemma remove_in:
  assumes "ord s ns" "a \<in> set ns"
  shows "\<exists>s'. remove a s = Some s' \<and> ord s' (filter (\<lambda>n. n \<noteq> a) ns) \<and> piece_of s' = piece_of s \<and>
    gone s' a \<and> (\<forall>b. gone s b \<longrightarrow> gone s' b)"
proof -
  obtain xs ys where ns: "ns = xs @ a # ys" using assms(2) by (meson split_list)
  then have "a \<notin> set xs" "a \<notin> set ys" using ord_nodes [OF assms(1)] by auto
  then have "filter (\<lambda>n. n \<noteq> a) xs = xs" "filter (\<lambda>n. n \<noteq> a) ys = ys" by (auto simp: filter_id_conv)
  then have "filter (\<lambda>n. n \<noteq> a) ns = xs @ ys" using ns by simp
  then show ?thesis using remove [of s xs a ys] assms(1) ns by simp
qed

lemma delete_chain_removes:
  "ord s ns \<Longrightarrow> set ds \<subseteq> set ns \<Longrightarrow> distinct ds \<Longrightarrow>
    \<exists>s'. delete_chain remove ds s = Some s' \<and> ord s' (filter (\<lambda>n. n \<notin> set ds) ns) \<and> piece_of s' = piece_of s \<and>
      (\<forall>d\<in>set ds. gone s' d) \<and> (\<forall>b. gone s b \<longrightarrow> gone s' b)"
proof (induction ds arbitrary: s ns)
  case (Cons d ds)
  obtain s1 where s1: "remove d s = Some s1" "ord s1 (filter (\<lambda>n. n \<noteq> d) ns)" "piece_of s1 = piece_of s" "gone s1 d" "\<forall>b. gone s b \<longrightarrow> gone s1 b"
    using remove_in [OF Cons.prems(1), of d] Cons.prems(2) by auto
  have "set ds \<subseteq> set (filter (\<lambda>n. n \<noteq> d) ns)" using Cons.prems(2,3) by auto
  from Cons.IH [OF s1(2) this] obtain s' where "delete_chain remove ds s1 = Some s'"
    "ord s' (filter (\<lambda>n. n \<notin> set ds) (filter (\<lambda>n. n \<noteq> d) ns))" "piece_of s' = piece_of s1"
    "\<forall>d\<in>set ds. gone s' d" "\<forall>b. gone s1 b \<longrightarrow> gone s' b" using Cons.prems(3) by auto
  then show ?case using s1 by (simp add: conj_commute)
qed simp

end

section \<open>The red-black tree provides it\<close>

definition rb_order :: "rb_tree \<Rightarrow> node_ref list \<Rightarrow> bool" where
  "rb_order s ns \<longleftrightarrow> (\<exists>t. rb_ok s t \<and> nodes t = ns)"

text \<open>\<open>node.parent === null\<close>, for a node that was made before.\<close>

definition rb_gone :: "rb_tree \<Rightarrow> node_ref \<Rightarrow> bool" where
  "rb_gone s b \<longleftrightarrow> b < rb_fresh s \<and> detached s b"

lemma rb_ok_focused: "rb_ok s (plug C (Nd l a r)) \<Longrightarrow> focused s C (Nd l a r) a"
  using coloured_focused by (auto simp: rb_ok_def)

lemma rb_order_split:
  assumes "rb_order s (xs @ a # ys)"
  obtains C l r where "rb_ok s (plug C (Nd l a r))" "xs = ctx_before C @ nodes l" "ys = nodes r @ ctx_after C"
  using assms nodes_split unfolding rb_order_def by metis

lemma rb_order_next: "rb_order s (xs @ a # ys) \<Longrightarrow> TreeNode_next s a = Some (if ys = [] then SENTINEL else hd ys)"
  by (erule rb_order_split) (auto simp: TreeNode_next_focused [OF rb_ok_focused] split: list.splits)

lemma rb_order_prev: "rb_order s (xs @ a # ys) \<Longrightarrow> TreeNode_prev s a = Some (if xs = [] then SENTINEL else last xs)"
  by (erule rb_order_split) (simp add: TreeNode_prev_focused [OF rb_ok_focused])

text \<open>The caches follow the new piece of a node.\<close>

lemma tree_sum_upd: "a \<notin> set (nodes t) \<Longrightarrow> tree_sum (f(a := v)) t = tree_sum f t"
  by (rule tree_sum_cong) auto

lemma sums_ok_fun_upd: "a \<notin> set (nodes t) \<Longrightarrow> sums_ok S (f(a := v)) t = sums_ok S f t"
  by (rule sums_ok_cong2) auto

lemma ctx_sums_ok_fun_upd: "a \<notin> ctx_nodes C \<Longrightarrow> ctx_sums_ok S (f(a := v)) u C = ctx_sums_ok S f u C"
  by (induction C arbitrary: u) (auto simp: tree_sum_upd sums_ok_fun_upd)

lemma sums_ok_replace:
  assumes C: "focused s C (Nd l a r) a" and S: "sums_ok S f (plug C (Nd l a r))"
  shows "sums_ok (add_left (v - f a) C S) (f(a := v)) (plug C (Nd l a r))"
proof -
  have cs: "ctx_shape (n_parent s) (n_left s) (n_right s) (rb_root s) a C" "a \<notin> ctx_nodes C"
    "a \<notin> set (nodes l)" "a \<notin> set (nodes r)" "set (nodes l) \<inter> ctx_nodes C = {}" "set (nodes r) \<inter> ctx_nodes C = {}"
    using C by (auto simp: focused_def)
  have "ctx_sums_ok (add_left (v - f a) C S) f (tree_sum f (Nd l a r) + (v - f a)) C"
    using S by (intro ctx_sums_ok_add_left [OF cs(1)]) (simp add: sums_ok_plug)
  then show ?thesis
    using S cs by (simp add: sums_ok_plug tree_sum_upd sums_ok_fun_upd ctx_sums_ok_fun_upd sums_ok_add_left algebra_simps)
qed

lemma replacePiece_ok:
  assumes "rb_order s ns" "a \<in> set ns"
  shows "\<exists>s'. replacePiece a p (pc_length p - pc_length (n_piece s a)) (pc_lineFeedCnt p - pc_lineFeedCnt (n_piece s a)) s = Some s' \<and>
    rb_order s' ns \<and> n_piece s' = (n_piece s)(a := p) \<and> rb_gone s' = rb_gone s"
proof -
  obtain xs ys where ns: "ns = xs @ a # ys" using assms(2) by (meson split_list)
  then obtain C l r where C: "rb_ok s (plug C (Nd l a r))" "xs = ctx_before C @ nodes l" "ys = nodes r @ ctx_after C"
    using rb_order_split assms(1) by metis
  let ?d = "pc_length p - n_length s a" and ?e = "pc_lineFeedCnt p - n_lineFeedCnt s a"
  have f: "focused s C (Nd l a r) a" using rb_ok_focused [OF C(1)] .
  define s' where "s' = (set_piece a p s)\<lparr>n_size_left := add_left ?d C (n_size_left s), n_lf_left := add_left ?e C (n_lf_left s)\<rparr>"
  have up: "replacePiece a p ?d ?e s = Some s'"
    using updateTreeMetadata_focused [of "set_piece a p s" C "Nd l a r" a] f
    unfolding replacePiece_def s'_def by (simp add: focused_links(2)) (simp add: set_piece_def)
  have o: "n_parent s' = n_parent s" "n_left s' = n_left s" "n_right s' = n_right s" "rb_root s' = rb_root s"
    "n_color s' = n_color s" "rb_fresh s' = rb_fresh s" "n_piece s' = (n_piece s)(a := p)"
    "n_size_left s' = add_left ?d C (n_size_left s)" "n_lf_left s' = add_left ?e C (n_lf_left s)"
    by (simp_all add: s'_def set_piece_def)
  have len: "n_length s' = (n_length s)(a := pc_length p)" "n_lineFeedCnt s' = (n_lineFeedCnt s)(a := pc_lineFeedCnt p)"
    by (auto simp: n_length_def n_lineFeedCnt_def o)
  have "caches_ok s (plug C (Nd l a r))" using C(1) by (simp add: rb_ok_def coloured_def)
  then have "caches_ok s' (plug C (Nd l a r))"
    unfolding caches_ok_def len o(8,9) using sums_ok_replace [OF f] by simp
  then have "rb_ok s' (plug C (Nd l a r))"
    using C(1) by (simp add: rb_ok_def coloured_def o focused_def)
  then have "rb_order s' ns" using C(2,3) ns unfolding rb_order_def by (intro exI [of _ "plug C (Nd l a r)"]) (simp add: nodes_plug)
  moreover have "rb_gone s' = rb_gone s" by (simp add: rb_gone_def [abs_def] detached_def o)
  ultimately show ?thesis using up o(7) by (simp add: n_length_def n_lineFeedCnt_def)
qed

lemma rbInsert_empty_ok:
  assumes "rb_order s []"
  shows "\<exists>z s'. rbInsertRight a p s = Some (z, s') \<and> rbInsertLeft a p s = Some (z, s') \<and> rb_order s' [z] \<and>
    n_piece s' = (n_piece s)(z := p) \<and> (\<forall>b. rb_gone s b \<longrightarrow> rb_gone s' b)"
proof -
  have ok: "rb_ok s Lf" using assms by (auto simp: rb_order_def)
  obtain z s1 where n: "new_node p s = (z, s1)" by fastforce
  have root: "rb_root s1 = SENTINEL"
    using ok new_node_fields(5) [OF n] by (simp add: rb_ok_def coloured_def focused_def)
  obtain s' where s': "fixInsert z (set_color z Black (set_root z s1)) = Some s'" "rb_ok s' (Nd Lf z Lf)" "n_piece s' = (n_piece s)(z := p)"
    "rb_fresh s' = Suc z" "\<forall>b < rb_fresh s. detached s b \<longrightarrow> detached s' b"
    using rbInsert_empty [OF ok n] by blast
  then have "\<forall>b. rb_gone s b \<longrightarrow> rb_gone s' b" using new_node_fields(1) [OF n] by (auto simp: rb_gone_def)
  moreover have "rb_order s' [z]" using s'(2) unfolding rb_order_def by (intro exI [of _ "Nd Lf z Lf"]) simp
  ultimately show ?thesis using s' root n by (simp add: rbInsertRight_def rbInsertLeft_def)
qed

interpretation rbt: piece_order rb_order n_piece rb_gone rbInsertRight rbInsertLeft rbDelete replacePiece TreeNode_next TreeNode_prev
proof unfold_locales
  fix s ns assume "rb_order s ns"
  then obtain t where t: "rb_ok s t" "nodes t = ns" by (auto simp: rb_order_def)
  then have sh: "shape (n_parent s) (n_left s) (n_right s) SENTINEL (rb_root s) t"
    by (simp add: rb_ok_def coloured_def focused_def)
  have "\<not> rb_gone s n" if "n \<in> set ns" for n
  proof -
    obtain C l r where "t = plug C (Nd l n r)" using nodes_split t(2) \<open>n \<in> set ns\<close> by (metis split_list)
    then show ?thesis using t(1) rb_ok_focused not_detached(1) unfolding rb_gone_def by blast
  qed
  then show "distinct ns \<and> SENTINEL \<notin> set ns \<and> (\<forall>n\<in>set ns. \<not> rb_gone s n)"
    using sh shape_distinct shape_real real_not_sentinel(1) t(2) by blast
next
  fix s xs a ys p assume o: "rb_order s (xs @ a # ys)"
  then obtain t where t: "rb_ok s t" "nodes t = xs @ a # ys" by (auto simp: rb_order_def)
  show "\<exists>z s'. rbInsertRight a p s = Some (z, s') \<and> rb_order s' (xs @ a # z # ys) \<and> n_piece s' = (n_piece s)(z := p) \<and>
      (\<forall>b. rb_gone s b \<longrightarrow> rb_gone s' b)"
    using rbInsertRight_ok [OF t, of p] unfolding rb_order_def rb_gone_def by (auto intro: less_SucI)
  show "\<exists>z s'. rbInsertLeft a p s = Some (z, s') \<and> rb_order s' (xs @ z # a # ys) \<and> n_piece s' = (n_piece s)(z := p) \<and>
      (\<forall>b. rb_gone s b \<longrightarrow> rb_gone s' b)"
    using rbInsertLeft_ok [OF t, of p] unfolding rb_order_def rb_gone_def by (auto intro: less_SucI)
  have "a < rb_fresh s" using t by (simp add: rb_ok_def)
  then show "\<exists>s'. rbDelete a s = Some s' \<and> rb_order s' (xs @ ys) \<and> n_piece s' = n_piece s \<and> rb_gone s' a \<and>
      (\<forall>b. rb_gone s b \<longrightarrow> rb_gone s' b)"
    using rbDelete_ok [OF t] unfolding rb_order_def rb_gone_def by auto
qed (use rbInsert_empty_ok replacePiece_ok rb_order_next rb_order_prev in blast)+

section \<open>Scripts of operations\<close>

text \<open>
  A client holds the nodes in order and calls the operations on one of them, by its index; an
  insertion into the empty tree gets \<open>null\<close>. The specification is the list of the pieces.
\<close>

datatype tree_call = InsertRight nat piece | InsertLeft nat piece | Delete nat | Replace nat piece

fun call_tree :: "tree_call \<Rightarrow> node_ref list \<times> rb_tree \<Rightarrow> (node_ref list \<times> rb_tree) option" where
  "call_tree (InsertRight i p) (ns, s) =
     (if ns = [] then do { (z, s) \<leftarrow> rbInsertRight null_ref p s; Some ([z], s) }
      else do { (z, s) \<leftarrow> rbInsertRight (ns ! i) p s; Some (take (Suc i) ns @ z # drop (Suc i) ns, s) })"
| "call_tree (InsertLeft i p) (ns, s) =
     (if ns = [] then do { (z, s) \<leftarrow> rbInsertLeft null_ref p s; Some ([z], s) }
      else do { (z, s) \<leftarrow> rbInsertLeft (ns ! i) p s; Some (take i ns @ z # drop i ns, s) })"
| "call_tree (Delete i) (ns, s) = do { s \<leftarrow> rbDelete (ns ! i) s; Some (take i ns @ drop (Suc i) ns, s) }"
| "call_tree (Replace i p) (ns, s) = do {
     s \<leftarrow> replacePiece (ns ! i) p (pc_length p - n_length s (ns ! i)) (pc_lineFeedCnt p - n_lineFeedCnt s (ns ! i)) s;
     Some (ns, s) }"

fun call_spec :: "tree_call \<Rightarrow> piece list \<Rightarrow> piece list" where
  "call_spec (InsertRight i p) ps = take (Suc i) ps @ p # drop (Suc i) ps"
| "call_spec (InsertLeft i p) ps = take i ps @ p # drop i ps"
| "call_spec (Delete i) ps = take i ps @ drop (Suc i) ps"
| "call_spec (Replace i p) ps = ps[i := p]"

fun call_ok :: "tree_call \<Rightarrow> nat \<Rightarrow> bool" where
  "call_ok (InsertRight i p) n \<longleftrightarrow> i < n \<or> n = 0"
| "call_ok (InsertLeft i p) n \<longleftrightarrow> i < n \<or> n = 0"
| "call_ok (Delete i) n \<longleftrightarrow> i < n"
| "call_ok (Replace i p) n \<longleftrightarrow> i < n"

fun script_tree :: "tree_call list \<Rightarrow> node_ref list \<times> rb_tree \<Rightarrow> (node_ref list \<times> rb_tree) option" where
  "script_tree [] st = Some st"
| "script_tree (c # cs) st = do { st \<leftarrow> call_tree c st; script_tree cs st }"

fun script_spec :: "tree_call list \<Rightarrow> piece list \<Rightarrow> piece list" where
  "script_spec [] ps = ps"
| "script_spec (c # cs) ps = script_spec cs (call_spec c ps)"

fun script_ok :: "tree_call list \<Rightarrow> piece list \<Rightarrow> bool" where
  "script_ok [] ps \<longleftrightarrow> True"
| "script_ok (c # cs) ps \<longleftrightarrow> call_ok c (length ps) \<and> script_ok cs (call_spec c ps)"

lemma map_index_split:
  assumes "map f ns = ps" "i < length ns"
  shows "ns = take i ns @ ns ! i # drop (Suc i) ns" "take i ps = map f (take i ns)" "drop (Suc i) ps = map f (drop (Suc i) ns)"
    "take (Suc i) ps = map f (take i ns) @ [f (ns ! i)]" "drop i ps = f (ns ! i) # map f (drop (Suc i) ns)"
    "map f (drop i ns) = f (ns ! i) # map f (drop (Suc i) ns)"
  using assms by (auto simp: id_take_nth_drop take_map drop_map take_Suc_conv_app_nth Cons_nth_drop_Suc [symmetric])

lemma call_tree_step:
  assumes o: "rb_order s ns" and ps: "map (n_piece s) ns = ps" and c: "call_ok c (length ps)"
  shows "\<exists>ns' s'. call_tree c (ns, s) = Some (ns', s') \<and> rb_order s' ns' \<and> map (n_piece s') ns' = call_spec c ps"
proof (cases c)
  case (InsertRight i p)
  show ?thesis
  proof (cases "ns = []")
    case True
    then show ?thesis using rbt.insert_empty [of s null_ref p] o ps InsertRight by auto
  next
    case False
    then have i: "i < length ns" using c ps InsertRight by auto
    note sp = map_index_split [OF ps i]
    show ?thesis
      using rbt.insert_right_pieces [of s "take i ns" "ns ! i" "drop (Suc i) ns" p] o sp i False InsertRight
      by (auto simp: take_Suc_conv_app_nth)
  qed
next
  case (InsertLeft i p)
  show ?thesis
  proof (cases "ns = []")
    case True
    then show ?thesis using rbt.insert_empty [of s null_ref p] o ps InsertLeft by auto
  next
    case False
    then have i: "i < length ns" using c ps InsertLeft by auto
    note sp = map_index_split [OF ps i]
    show ?thesis
      using rbt.insert_left_pieces [of s "take i ns" "ns ! i" "drop (Suc i) ns" p] o sp i False InsertLeft
      by (auto simp: Cons_nth_drop_Suc)
  qed
next
  case (Delete i)
  then have i: "i < length ns" using c ps by auto
  note sp = map_index_split [OF ps i]
  show ?thesis using rbt.remove [of s "take i ns" "ns ! i" "drop (Suc i) ns"] o sp Delete by auto
next
  case (Replace i p)
  then have i: "i < length ns" using c ps by auto
  have "map ((n_piece s)(ns ! i := p)) ns = ps[i := p]"
    using rbt.ord_nodes [OF o] i ps by (auto simp: list_eq_iff_nth_eq nth_list_update distinct_conv_nth)
  then show ?thesis using rbt.replace [OF o, of "ns ! i" p] i Replace by (auto simp: n_length_def n_lineFeedCnt_def)
qed

definition no_nodes :: rb_tree where
  "no_nodes = \<lparr>rb_root = SENTINEL, n_parent = (\<lambda>_. SENTINEL), n_left = (\<lambda>_. SENTINEL), n_right = (\<lambda>_. SENTINEL),
     n_color = (\<lambda>_. Black), n_piece = (\<lambda>_. MkPiece 0 (MkBufferCursor 0 0) (MkBufferCursor 0 0) 0 0),
     n_size_left = (\<lambda>_. 0), n_lf_left = (\<lambda>_. 0), rb_fresh = Suc null_ref\<rparr>"

lemma rb_order_no_nodes: "rb_order no_nodes []"
  unfolding rb_order_def no_nodes_def
  by (intro exI [of _ Lf]) (simp add: rb_ok_def coloured_def focused_def caches_ok_def)

lemma script_tree_steps:
  "rb_order s ns \<Longrightarrow> map (n_piece s) ns = ps \<Longrightarrow> script_ok cs ps \<Longrightarrow>
    \<exists>ns' s'. script_tree cs (ns, s) = Some (ns', s') \<and> rb_order s' ns' \<and> map (n_piece s') ns' = script_spec cs ps"
proof (induction cs arbitrary: ns s ps)
  case (Cons c cs)
  then obtain ns1 s1 where "call_tree c (ns, s) = Some (ns1, s1)" "rb_order s1 ns1" "map (n_piece s1) ns1 = call_spec c ps"
    using call_tree_step [OF Cons.prems(1,2), of c] by auto
  then show ?case using Cons.IH [of s1 ns1 "call_spec c ps"] Cons.prems(3) by auto
qed auto

section \<open>Height\<close>

fun tree_height :: "node_tree \<Rightarrow> nat" where
  "tree_height Lf = 0"
| "tree_height (Nd l a r) = Suc (max (tree_height l) (tree_height r))"

lemma tree_height_black:
  "red_ok c t \<Longrightarrow> height_ok c t \<Longrightarrow> tree_height t \<le> 2 * black_height c t + (if root_color c t = Black then 0 else 1)"
  by (induction t) (auto split: if_splits)

lemma black_height_size: "height_ok c t \<Longrightarrow> 2 ^ black_height c t \<le> length (nodes t) + 1"
proof (induction t)
  case (Nd l a r)
  then have "2 ^ black_height c l \<le> length (nodes l) + 1" "2 ^ black_height c l \<le> length (nodes r) + 1" by auto
  then show ?case by simp
qed simp

lemma rb_ok_height:
  assumes "rb_ok s t"
  shows "2 ^ tree_height t \<le> (length (nodes t) + 1)\<^sup>2"
proof -
  let ?h = "black_height (n_color s) t"
  have h: "tree_height t \<le> 2 * ?h" "2 ^ ?h \<le> length (nodes t) + 1"
    using assms tree_height_black [of "n_color s" t] black_height_size [of "n_color s" t]
    by (auto simp: rb_ok_def coloured_def)
  then have "(2 :: nat) ^ tree_height t \<le> 2 ^ (?h * 2)" by (simp add: mult.commute)
  also have "\<dots> = (2 ^ ?h)\<^sup>2" by (simp add: power_mult)
  also have "\<dots> \<le> (length (nodes t) + 1)\<^sup>2" using h by (intro power_mono) simp_all
  finally show ?thesis .
qed

section \<open>Properties\<close>

text \<open>A tree of one node, for the examples.\<close>

definition one_node :: rb_tree where
  "one_node = no_nodes\<lparr>rb_root := 2, rb_fresh := 3\<rparr>"

lemma rb_ok_one_node: "rb_ok one_node (Nd Lf 2 Lf)"
  by (simp add: rb_ok_def coloured_def focused_def caches_ok_def one_node_def no_nodes_def n_length_def
      n_lineFeedCnt_def null_ref_def)

text \<open>
  C33. Both insertions end, and put the new node directly behind, or before, the given one in the
  order of the tree. They keep the tree a red-black tree whose links agree in both directions and
  whose caches \<open>size_left\<close> and \<open>lf_left\<close> are the sums over the left subtrees.
\<close>

theorem piece_tree_insert:
  assumes "rb_ok s t" "nodes t = xs @ a # ys"
  shows "(\<exists>s' t'. rbInsertRight a p s = Some (rb_fresh s, s') \<and> rb_ok s' t' \<and>
      nodes t' = xs @ a # rb_fresh s # ys \<and> n_piece s' = (n_piece s)(rb_fresh s := p)) \<and>
    (\<exists>s' t'. rbInsertLeft a p s = Some (rb_fresh s, s') \<and> rb_ok s' t' \<and>
      nodes t' = xs @ rb_fresh s # a # ys \<and> n_piece s' = (n_piece s)(rb_fresh s := p))"
  using rbInsertRight_ok [OF assms, of p] rbInsertLeft_ok [OF assms, of p] by blast

theorem piece_tree_insert_witness:
  "\<forall>p. \<exists>s' t'. rbInsertLeft 2 p one_node = Some (3, s') \<and> rb_ok s' t' \<and> nodes t' = [3, 2]"
  using piece_tree_insert [OF rb_ok_one_node, of "[]" 2 "[]"] by (simp add: one_node_def) metis

text \<open>
  C32. \<open>rbDelete\<close> ends for each node of the tree, also when it has two children and when the sentinel
  takes part in the repair. It takes out this node only, keeps all others in order with their
  pieces, keeps the tree a red-black tree with both caches right, and gives the sentinel back without
  a parent.
\<close>

theorem piece_tree_delete:
  assumes "rb_ok s t" "nodes t = xs @ z # ys"
  shows "\<exists>s' t'. rbDelete z s = Some s' \<and> rb_ok s' t' \<and> nodes t' = xs @ ys \<and> n_piece s' = n_piece s \<and>
    n_parent s' SENTINEL = SENTINEL"
  using rbDelete_ok [OF assms] by blast

theorem piece_tree_delete_witness:
  "\<exists>s' t'. rbDelete 2 one_node = Some s' \<and> rb_ok s' t' \<and> nodes t' = []"
  using piece_tree_delete [OF rb_ok_one_node, of "[]" 2 "[]"] by auto

text \<open>
  C34. \<open>next\<close> and \<open>prev\<close> end at the neighbours in the order of the tree, and at the sentinel past its
  ends; a tree of \<open>n\<close> nodes has a height of at most \<open>2 log (n + 1)\<close>.
\<close>

theorem piece_tree_walks:
  assumes "rb_ok (s :: rb_tree) t" "nodes t = xs @ a # ys"
  shows "TreeNode_next s a = Some (if ys = [] then SENTINEL else hd ys) \<and>
    TreeNode_prev s a = Some (if xs = [] then SENTINEL else last xs) \<and>
    2 ^ tree_height t \<le> (length (nodes t) + 1)\<^sup>2"
proof -
  have "rb_order s (xs @ a # ys)" using assms unfolding rb_order_def by blast
  then show ?thesis using rbt.succ rbt.pred rb_ok_height [OF assms(1)] by simp
qed

theorem piece_tree_walks_witness:
  "TreeNode_next one_node 2 = Some SENTINEL \<and> TreeNode_prev one_node 2 = Some SENTINEL"
  using piece_tree_walks [OF rb_ok_one_node, of "[]" 2 "[]"] by simp

text \<open>
  Any script of insertions, deletions and replacements of pieces, from the empty tree and with
  indices in range, runs to its end, and then the pieces in the order of the tree are those that the
  same script leaves in a list.
\<close>

theorem piece_tree_scripts:
  assumes "script_ok cs []"
  shows "\<exists>ns s. script_tree cs ([], no_nodes) = Some (ns, s) \<and> rb_order s ns \<and> map (n_piece s) ns = script_spec cs []"
  using script_tree_steps [OF rb_order_no_nodes _ assms] by simp

theorem piece_tree_scripts_witness:
  "\<forall>p q r. \<exists>ns s. script_tree [InsertRight 0 p, InsertLeft 0 q, InsertRight 1 r, Delete 1] ([], no_nodes) = Some (ns, s) \<and>
    map (n_piece s) ns = [q, r]"
proof (intro allI)
  fix p q r
  show "\<exists>ns s. script_tree [InsertRight 0 p, InsertLeft 0 q, InsertRight 1 r, Delete 1] ([], no_nodes) = Some (ns, s) \<and>
      map (n_piece s) ns = [q, r]"
    using piece_tree_scripts [of "[InsertRight 0 p, InsertLeft 0 q, InsertRight 1 r, Delete 1]"] by auto
qed

end
