(* ===== verification/LineBreaks.thy ===== *)
theory LineBreaks
  imports Prelude
begin

text \<open>
  Line breaks as the text buffer (\<open>vs/editor/common/model/pieceTreeTextBuffer\<close>) counts them: a line
  ends with \<open>\r\n\<close>, \<open>\n\<close> or a lone \<open>\r\<close>. So a text that is cut inside a \<open>\r\n\<close> has a break of its
  own at either side of the cut. The theory has \<open>createLineStartsFast\<close> and \<open>createLineStarts\<close> of
  \<open>pieceTreeBase.ts\<close>, the specification \<open>line_starts\<close> of what they compute, and how the lines of a
  range of a text follow from the lines of the text.
\<close>

section \<open>Line starts\<close>

text \<open>
  \<open>createUintArray\<close> chooses the element type by the last number; the elements are stored modulo
  its size.
\<close>

definition createUintArray :: "int list \<Rightarrow> int list" where
  "createUintArray arr =
     (if arr \<noteq> [] \<and> last arr < 65536 then map (\<lambda>x. x mod 2 ^ 16) arr else map (\<lambda>x. x mod 2 ^ 32) arr)"

function createLineStartsFast_loop :: "js_string \<Rightarrow> nat \<Rightarrow> int list \<Rightarrow> int list" where
  "createLineStartsFast_loop str i r =
     (if i < length str then
        if str ! i = CR then
          if i + 1 < length str \<and> str ! (i + 1) = LF then createLineStartsFast_loop str (i + 2) (r @ [int i + 2])
          else createLineStartsFast_loop str (i + 1) (r @ [int i + 1])
        else if str ! i = LF then createLineStartsFast_loop str (i + 1) (r @ [int i + 1])
        else createLineStartsFast_loop str (i + 1) r
      else r)"
  by pat_completeness auto

termination
  by (relation "measure (\<lambda>(str, i, _). length str - i)") auto

declare createLineStartsFast_loop.simps [simp del]

definition createLineStartsFast :: "js_string \<Rightarrow> bool \<Rightarrow> int list" where
  "createLineStartsFast str readonly =
     (let r = createLineStartsFast_loop str 0 [0] in if readonly then createUintArray r else r)"

datatype LineStarts = MkLineStarts (ls_lineStarts: "int list") (ls_cr: int) (ls_lf: int) (ls_crlf: int)
  (ls_isBasicASCII: bool)

definition basic_ascii :: "code_unit \<Rightarrow> bool" where
  "basic_ascii chr \<longleftrightarrow> \<not> (chr \<noteq> 9 \<and> (chr < 32 \<or> 126 < chr))"

function createLineStarts_loop :: "js_string \<Rightarrow> nat \<Rightarrow> int list \<Rightarrow> int \<Rightarrow> int \<Rightarrow> int \<Rightarrow> bool \<Rightarrow>
    int list \<times> int \<times> int \<times> int \<times> bool" where
  "createLineStarts_loop str i r cr lf crlf isBasicASCII =
     (if i < length str then
        if str ! i = CR then
          if i + 1 < length str \<and> str ! (i + 1) = LF then
            createLineStarts_loop str (i + 2) (r @ [int i + 2]) cr lf (crlf + 1) isBasicASCII
          else createLineStarts_loop str (i + 1) (r @ [int i + 1]) (cr + 1) lf crlf isBasicASCII
        else if str ! i = LF then createLineStarts_loop str (i + 1) (r @ [int i + 1]) cr (lf + 1) crlf isBasicASCII
        else createLineStarts_loop str (i + 1) r cr lf crlf (if isBasicASCII then basic_ascii (str ! i) else isBasicASCII)
      else (r, cr, lf, crlf, isBasicASCII))"
  by pat_completeness auto

termination
  by (relation "measure (\<lambda>(str, i, _). length str - i)") auto

declare createLineStarts_loop.simps [simp del]

definition createLineStarts :: "js_string \<Rightarrow> LineStarts" where
  "createLineStarts str =
     (let (r, cr, lf, crlf, isBasicASCII) = createLineStarts_loop str 0 [0] 0 0 0 True
      in MkLineStarts (createUintArray r) cr lf crlf isBasicASCII)"

section \<open>Line breaks of a text\<close>

text \<open>A line ends behind \<open>c\<close> when \<open>cs\<close> follows.\<close>

definition ends_line :: "code_unit \<Rightarrow> js_string \<Rightarrow> bool" where
  "ends_line c cs \<longleftrightarrow> c = LF \<or> c = CR \<and> (cs = [] \<or> hd cs \<noteq> LF)"

fun eols :: "js_string \<Rightarrow> int" where
  "eols [] = 0"
| "eols (c # cs) = (if ends_line c cs then 1 else 0) + eols cs"

text \<open>The offsets behind the line breaks, for a text at offset \<open>i\<close>.\<close>

fun breaks :: "int \<Rightarrow> js_string \<Rightarrow> int list" where
  "breaks i [] = []"
| "breaks i (c # cs) = (if ends_line c cs then [i + 1] else []) @ breaks (i + 1) cs"

definition line_starts :: "js_string \<Rightarrow> int list" where
  "line_starts s = 0 # breaks 0 s"

definition splits_crlf :: "js_string \<Rightarrow> js_string \<Rightarrow> bool" where
  "splits_crlf xs ys \<longleftrightarrow> xs \<noteq> [] \<and> last xs = CR \<and> ys \<noteq> [] \<and> hd ys = LF"

lemma splits_crlf_Nil [simp]: "\<not> splits_crlf [] ys" "\<not> splits_crlf xs []"
  by (simp_all add: splits_crlf_def)

lemma splits_crlf_Cons [simp]: "xs \<noteq> [] \<Longrightarrow> splits_crlf (c # xs) ys = splits_crlf xs ys"
  by (simp add: splits_crlf_def)

lemma eols_nonneg [simp]: "0 \<le> eols s"
  by (induction s) auto

lemma length_breaks: "ilen (breaks i s) = eols s"
  by (induction s arbitrary: i) auto

lemma breaks_CR: "splits_crlf xs ys \<Longrightarrow> breaks i xs \<noteq> [] \<and> last (breaks i xs) = i + ilen xs"
proof (induction xs arbitrary: i)
  case (Cons c xs)
  then show ?case by (cases "xs = []") (auto simp: splits_crlf_def ends_line_def)
qed simp

lemma breaks_append:
  "breaks i (xs @ ys) = (if splits_crlf xs ys then butlast (breaks i xs) else breaks i xs) @ breaks (i + ilen xs) ys"
proof (induction xs arbitrary: i)
  case (Cons c xs)
  show ?case
  proof (cases "xs = []")
    case True
    then show ?thesis by (cases ys) (auto simp: ends_line_def splits_crlf_def)
  next
    case False
    then have "ends_line c (xs @ ys) = ends_line c xs" by (simp add: ends_line_def)
    then show ?thesis using Cons.IH [of "i + 1"] False breaks_CR [of xs ys "i + 1"]
      by (auto simp: algebra_simps butlast_append)
  qed
qed simp

lemma eols_append: "eols (xs @ ys) = eols xs + eols ys - (if splits_crlf xs ys then 1 else 0)"
proof -
  have "eols (xs @ ys) = ilen (if splits_crlf xs ys then butlast (breaks 0 xs) else breaks 0 xs) + ilen (breaks (ilen xs) ys)"
    by (simp add: breaks_append flip: length_breaks [of 0])
  then show ?thesis using breaks_CR [of xs ys 0] length_breaks [of 0 xs]
    by (auto simp: length_breaks of_nat_diff Suc_le_eq)
qed

lemma breaks_bounds: "l \<in> set (breaks i s) \<Longrightarrow> i < l \<and> l \<le> i + ilen s"
  by (induction s arbitrary: i) (fastforce split: if_splits)+

lemma sorted_breaks: "sorted_wrt (<) (breaks i s)"
  by (induction s arbitrary: i) (auto dest: breaks_bounds)

lemma breaks_shift: "breaks (i + k) s = map (\<lambda>l. l + k) (breaks i s)"
proof (induction s arbitrary: i)
  case (Cons c s)
  then show ?case using Cons.IH [of "i + 1"] by (simp add: algebra_simps)
qed simp

lemma in_breaks:
  "l \<in> set (breaks i s) \<longleftrightarrow> i < l \<and> l \<le> i + ilen s \<and> ends_line (s ! nat (l - i - 1)) (idrop (l - i) s)"
proof (induction s arbitrary: i)
  case (Cons c s)
  show ?case
  proof (cases "l = i + 1")
    case True
    then show ?thesis using breaks_bounds [of l "i + 1" s] by (auto simp: idrop_def)
  next
    case False
    have "(c # s) ! nat (l - i - 1) = s ! nat (l - (i + 1) - 1)" "idrop (l - i) (c # s) = idrop (l - (i + 1)) s"
      if "i + 1 < l"
    proof -
      have "nat (l - i - 1) = Suc (nat (l - (i + 1) - 1))" using that by arith
      then show "(c # s) ! nat (l - i - 1) = s ! nat (l - (i + 1) - 1)" by simp
    qed (use that in \<open>simp add: algebra_simps\<close>)
    then show ?thesis using False Cons.IH [of "i + 1"] by auto
  qed
qed simp

lemma eols_le: "eols s \<le> ilen s"
  by (induction s) auto

lemma eols_pos: "c \<in> set s \<Longrightarrow> c = LF \<or> c = CR \<Longrightarrow> 0 < eols s"
proof (induction s)
  case (Cons d ds)
  show ?case
  proof (cases "ds")
    case Nil
    then show ?thesis using Cons.prems by (auto simp: ends_line_def)
  next
    case (Cons x xs)
    have "0 < eols ds" if "\<not> ends_line d ds"  "c = d"
      using that \<open>c = LF \<or> c = CR\<close> Cons eols_nonneg [of xs] by (auto simp: ends_line_def simp del: eols_nonneg)
    then show ?thesis using Cons.IH Cons.prems eols_nonneg [of ds] by (cases "c = d") (auto simp del: eols_nonneg)
  qed
qed simp

section \<open>Lines of an offset\<close>

definition line_of :: "js_string \<Rightarrow> int \<Rightarrow> int" where
  "line_of s i = ilen (filter (\<lambda>l. l \<le> i) (breaks 0 s))"

definition substr :: "js_string \<Rightarrow> int \<Rightarrow> int \<Rightarrow> js_string" where
  "substr s a e = itake (e - a) (idrop a s)"

definition splits_at :: "js_string \<Rightarrow> int \<Rightarrow> bool" where
  "splits_at s i \<longleftrightarrow> splits_crlf (itake i s) (idrop i s)"

lemma length_line_starts [simp]: "ilen (line_starts s) = eols s + 1"
  by (simp add: line_starts_def length_breaks)

lemma filter_le_nth:
  "sorted_wrt (<) xs \<Longrightarrow> k < length xs \<Longrightarrow> xs ! k \<le> (i :: int) \<longleftrightarrow> k < length (filter (\<lambda>l. l \<le> i) xs)"
proof (induction xs arbitrary: k)
  case (Cons x xs)
  show ?case
  proof (cases "x \<le> i")
    case True
    then show ?thesis using Cons by (cases k) auto
  next
    case False
    then have "filter (\<lambda>l. l \<le> i) xs = []" using Cons.prems(1) by (auto simp: filter_empty_conv)
    moreover have "\<not> (x # xs) ! k \<le> i"
      using False Cons.prems by (cases k) (auto dest!: bspec [OF _ nth_mem])
    ultimately show ?thesis using False by simp
  qed
qed simp

lemma line_of_bounds: "0 \<le> line_of s i" "line_of s i \<le> eols s"
  by (simp_all add: line_of_def flip: length_breaks [of 0])

lemma line_starts_le:
  assumes "0 \<le> i" "0 \<le> k" "k \<le> eols s"
  shows "line_starts s ! nat k \<le> i \<longleftrightarrow> k \<le> line_of s i"
proof (cases "k = 0")
  case True
  then show ?thesis using assms(1) line_of_bounds(1) by (simp add: line_starts_def)
next
  case False
  then obtain j where j: "nat k = Suc j" "k = int j + 1"
    using assms(2) by (cases "nat k") (simp_all add: nat_eq_iff)
  then have "j < length (breaks 0 s)" using assms(3) length_breaks [of 0 s] by linarith
  from filter_le_nth [OF sorted_breaks this, of i] show ?thesis using j by (auto simp: line_starts_def line_of_def)
qed

lemma line_start_le: "0 \<le> i \<Longrightarrow> line_starts s ! nat (line_of s i) \<le> i"
  using line_starts_le line_of_bounds by blast

lemma line_start_less: "0 \<le> i \<Longrightarrow> line_of s i < eols s \<Longrightarrow> i < line_starts s ! nat (line_of s i + 1)"
  using line_starts_le [of i "line_of s i + 1" s] line_of_bounds(1) [of s i] by auto

lemma line_of_mono: "i \<le> j \<Longrightarrow> line_of s i \<le> line_of s j"
  using length_filter_le [of "\<lambda>l. l \<le> i" "filter (\<lambda>l. l \<le> j) (breaks 0 s)"]
  by (simp add: line_of_def conj_absorb cong: conj_cong) (smt (verit) filter_cong)

lemma line_of_0 [simp]: "line_of s 0 = 0"
  unfolding line_of_def by (auto simp: filter_empty_conv dest: breaks_bounds)

lemma line_of_append1:
  assumes "i \<le> ilen xs" "i < ilen xs \<or> \<not> splits_crlf xs ys"
  shows "line_of (xs @ ys) i = line_of xs i"
proof -
  have ys: "filter (\<lambda>l. l \<le> i) (breaks (ilen xs) ys) = []"
    using assms(1) by (auto simp: filter_empty_conv dest!: breaks_bounds)
  have "filter (\<lambda>l. l \<le> i) (butlast (breaks 0 xs)) = filter (\<lambda>l. l \<le> i) (breaks 0 xs)" if "splits_crlf xs ys"
  proof -
    have "breaks 0 xs = butlast (breaks 0 xs) @ [ilen xs]" using breaks_CR [OF that, of 0] by (metis append_butlast_last_id add_0)
    then show ?thesis using assms(2) that by (metis filter.simps append.right_neutral filter_append linorder_not_le)
  qed
  then show ?thesis using ys by (simp add: line_of_def breaks_append)
qed

lemma line_of_append2:
  assumes "0 \<le> i"
  shows "line_of (xs @ ys) (ilen xs + i) = eols xs - (if splits_crlf xs ys then 1 else 0) + line_of ys i"
proof -
  have "filter (\<lambda>l. l \<le> ilen xs + i) (breaks 0 xs) = breaks 0 xs"
    using assms by (auto simp: filter_id_conv dest!: breaks_bounds)
  moreover have "filter (\<lambda>l. l \<le> ilen xs + i) (butlast (breaks 0 xs)) = butlast (breaks 0 xs)"
    using assms by (auto simp: filter_id_conv dest!: in_set_butlastD breaks_bounds)
  moreover have "breaks (ilen xs) ys = map (\<lambda>l. l + ilen xs) (breaks 0 ys)" using breaks_shift [of 0 "ilen xs" ys] by simp
  ultimately show ?thesis using breaks_CR [of xs ys 0] length_breaks [of 0 xs]
    by (auto simp: line_of_def breaks_append filter_map o_def algebra_simps of_nat_diff Suc_le_eq)
qed

lemma splits_at_end [simp]: "ilen s \<le> i \<Longrightarrow> \<not> splits_at s i" "i \<le> 0 \<Longrightarrow> \<not> splits_at s i"
  by (simp_all add: splits_at_def)

lemma splits_at_iff:
  "splits_at s i \<longleftrightarrow> 0 < i \<and> i < ilen s \<and> s ! nat (i - 1) = CR \<and> s ! nat i = LF"
proof (cases "0 < i \<and> i < ilen s")
  case True
  then have "nat i = Suc (nat (i - 1))" "nat (i - 1) < length s" by arith+
  then have "itake i s = itake (i - 1) s @ [s ! nat (i - 1)]" by (simp add: itake_def take_Suc_conv_app_nth)
  moreover have "idrop i s \<noteq> []" "hd (idrop i s) = s ! nat i" using True by (auto simp: idrop_def hd_drop_conv_nth)
  ultimately have "itake i s \<noteq> []" "last (itake i s) = s ! nat (i - 1)" "idrop i s \<noteq> []" "hd (idrop i s) = s ! nat i"
    by simp_all
  then show ?thesis using True by (simp add: splits_at_def splits_crlf_def)
qed (auto simp: not_less)

lemma line_of_itake:
  "0 \<le> i \<Longrightarrow> i \<le> ilen s \<Longrightarrow> line_of s i = eols (itake i s) - (if splits_at s i then 1 else 0)"
  using line_of_append2 [of 0 "itake i s" "idrop i s"] by (simp add: splits_at_def)

section \<open>Lines of a range\<close>

lemma nth_middle: "zs = xs @ ys @ us \<Longrightarrow> k < length ys \<Longrightarrow> zs ! (length xs + k) = ys ! k"
  by (simp add: nth_append)

lemma substr_split:
  assumes "0 \<le> a" "a \<le> b" "b \<le> c"
  shows "substr s a b @ substr s b c = substr s a c"
proof -
  have "idrop b s = idrop (b - a) (idrop a s)" using assms by (simp add: idrop_idrop)
  then have "substr s a b @ substr s b c = itake (b - a) (idrop a s) @ itake (c - b) (idrop (b - a) (idrop a s))"
    by (simp add: substr_def)
  also have "\<dots> = itake ((b - a) + (c - b)) (idrop a s)" using assms by (intro itake_add [symmetric]) simp_all
  finally show ?thesis by (simp add: substr_def)
qed

lemma substr_simps [simp]: "substr s 0 e = itake e s" "ilen s \<le> e \<Longrightarrow> substr s a e = idrop a s" "e \<le> a \<Longrightarrow> substr s a e = []"
proof -
  show "ilen s \<le> e \<Longrightarrow> substr s a e = idrop a s"
    unfolding substr_def by (cases "a \<le> e") (auto intro!: itake_all)
qed (simp_all add: substr_def)

lemma ilen_substr: "0 \<le> a \<Longrightarrow> a \<le> e \<Longrightarrow> e \<le> ilen s \<Longrightarrow> ilen (substr s a e) = e - a"
  by (simp add: substr_def)

lemma substr_nth: "0 \<le> a \<Longrightarrow> 0 \<le> k \<Longrightarrow> k < e - a \<Longrightarrow> e \<le> ilen s \<Longrightarrow> substr s a e ! nat k = s ! nat (a + k)"
  by (simp add: substr_def itake_def idrop_def nat_add_distrib)

lemma itake_substr: "0 \<le> a \<Longrightarrow> 0 \<le> r \<Longrightarrow> r \<le> e - a \<Longrightarrow> itake r (substr s a e) = substr s a (a + r)"
  by (simp add: substr_def itake_itake min_def)

lemma idrop_substr: "0 \<le> a \<Longrightarrow> 0 \<le> r \<Longrightarrow> r \<le> e - a \<Longrightarrow> idrop r (substr s a e) = substr s (a + r) e"
  by (simp add: substr_def idrop_itake idrop_idrop add.commute diff_diff_eq)

lemma hd_last_substr:
  assumes "0 \<le> a" "a < e" "e \<le> ilen s"
  shows "substr s a e \<noteq> []" "hd (substr s a e) = s ! nat a" "last (substr s a e) = s ! nat (e - 1)"
proof -
  have l: "ilen (substr s a e) = e - a" using assms by (simp add: ilen_substr)
  then show n: "substr s a e \<noteq> []" using assms(2) by auto
  show "hd (substr s a e) = s ! nat a" using substr_nth [of a 0 e s] assms n by (simp add: hd_conv_nth)
  have "length (substr s a e) - 1 = nat (e - 1 - a)" using l assms by arith
  then show "last (substr s a e) = s ! nat (e - 1)"
    using substr_nth [of a "e - 1 - a" e s] assms n by (simp add: last_conv_nth)
qed

lemma splits_crlf_substr:
  assumes "0 \<le> a" "a < b" "b < c" "c \<le> ilen s"
  shows "splits_crlf (substr s a b) (substr s b c) \<longleftrightarrow> splits_at s b"
  using hd_last_substr [of a b s] hd_last_substr [of b c s] assms by (simp add: splits_crlf_def splits_at_iff)

text \<open>The line breaks of the range from \<open>a\<close> to \<open>e\<close>, from the lines of its ends.\<close>

definition line_feeds :: "js_string \<Rightarrow> int \<Rightarrow> int \<Rightarrow> int" where
  "line_feeds s a e = line_of s e - line_of s a + (if splits_at s e then 1 else 0)"

lemma eols_substr:
  assumes "0 \<le> a" "a < e" "e \<le> ilen s"
  shows "eols (substr s a e) = line_feeds s a e"
proof -
  have "eols (itake e s) = eols (substr s 0 a @ substr s a e)" using assms by (simp only: substr_split) simp
  also have "\<dots> = eols (itake a s) + eols (substr s a e) - (if splits_at s a then 1 else 0)"
  proof (cases "a = 0")
    case False
    then show ?thesis using splits_crlf_substr [of 0 a e s] assms by (simp add: eols_append)
  qed simp
  finally show ?thesis using assms by (simp add: line_feeds_def line_of_itake)
qed

lemma breaks_substr:
  assumes "0 \<le> a" "a \<le> e" "e \<le> ilen s" "0 \<le> k" "k < line_of s e - line_of s a"
  shows "breaks 0 (substr s a e) ! nat k = line_starts s ! nat (line_of s a + 1 + k) - a" "k < eols (substr s a e)"
proof -
  have "a \<noteq> e" using assms(4,5) by auto
  then have ae: "a < e" using assms(2) by simp
  then have "eols (substr s a e) = line_feeds s a e" using assms by (simp add: eols_substr)
  then show k: "k < eols (substr s a e)" using assms(5) by (simp add: line_feeds_def)
  let ?x = "itake a s" and ?y = "substr s a e" and ?z = "idrop e s"
  let ?X = "if splits_crlf ?x (idrop a s) then butlast (breaks 0 ?x) else breaks 0 ?x"
  let ?Y = "if splits_crlf ?y ?z then butlast (breaks a ?y) else breaks a ?y"
  have yz: "idrop a s = ?y @ ?z" using substr_split [of a e "ilen s" s] assms by simp
  have "breaks 0 s = ?X @ breaks a (idrop a s)" using breaks_append [of 0 ?x "idrop a s"] assms by simp
  also have "breaks a (idrop a s) = ?Y @ breaks e ?z"
    using breaks_append [of a ?y ?z] assms by (simp add: yz ilen_substr)
  finally have B: "breaks 0 s = ?X @ ?Y @ breaks e ?z" .
  have X: "ilen ?X = line_of s a" using assms breaks_CR [of ?x "idrop a s" 0] length_breaks [of 0 ?x]
    by (auto simp: line_of_itake splits_at_def of_nat_diff Suc_le_eq)
  have "splits_crlf ?y ?z \<longleftrightarrow> splits_at s e"
  proof (cases "e = ilen s")
    case False
    then show ?thesis using splits_crlf_substr [of a e "ilen s" s] assms ae by simp
  qed simp
  then have Y: "ilen ?Y = line_of s e - line_of s a" "\<forall>j < length ?Y. ?Y ! j = breaks a ?y ! j"
    using assms ae breaks_CR [of ?y ?z a] length_breaks [of a ?y]
    by (auto simp: eols_substr line_feeds_def of_nat_diff Suc_le_eq nth_butlast)
  have "line_starts s ! nat (line_of s a + 1 + k) = breaks 0 s ! (length ?X + nat k)"
    using X assms(4) by (simp add: line_starts_def nat_add_distrib nth_Cons' flip: X)
  also have "\<dots> = ?Y ! nat k" by (rule nth_middle [OF B]) (use Y(1) assms(4,5) in linarith)
  also have "\<dots> = breaks a ?y ! nat k" using Y assms(4,5) by (intro Y(2) [rule_format]) linarith
  also have "\<dots> = breaks 0 ?y ! nat k + a"
    using breaks_shift [of 0 a ?y] k length_breaks [of 0 ?y] assms(4) by (simp add: nat_less_iff)
  finally show "breaks 0 (substr s a e) ! nat k = line_starts s ! nat (line_of s a + 1 + k) - a" by simp
qed

lemma filter_le_step:
  "distinct xs \<Longrightarrow> length (filter (\<lambda>x. x \<le> (l :: int)) xs) = length (filter (\<lambda>x. x \<le> l - 1) xs) + (if l \<in> set xs then 1 else 0)"
  by (induction xs) auto

lemma line_of_step: "line_of s l = line_of s (l - 1) + (if l \<in> set (breaks 0 s) then 1 else 0)"
  using filter_le_step [of "breaks 0 s" l] sorted_breaks [of 0 s] by (simp add: line_of_def strict_sorted_iff)

lemma line_start_iff:
  assumes "0 \<le> i" "i \<le> ilen s"
  shows "line_starts s ! nat (line_of s i) = i \<longleftrightarrow> i = 0 \<or> i \<in> set (breaks 0 s)"
proof
  assume e: "line_starts s ! nat (line_of s i) = i"
  have "nat (line_of s i) < length (line_starts s)" using length_line_starts [of s] line_of_bounds [of s i] by linarith
  then have "i \<in> set (line_starts s)" using e nth_mem by metis
  then show "i = 0 \<or> i \<in> set (breaks 0 s)" by (simp add: line_starts_def)
next
  assume "i = 0 \<or> i \<in> set (breaks 0 s)"
  then have "i \<in> set (line_starts s)" by (auto simp: line_starts_def)
  then obtain k where k: "k < length (line_starts s)" "line_starts s ! k = i" by (auto simp: in_set_conv_nth)
  then have k2: "int k \<le> line_of s i" using line_starts_le [of i "int k" s] length_line_starts [of s] assms(1) by auto
  have "sorted_wrt (<) (line_starts s)" using sorted_breaks [of 0 s] breaks_bounds [of _ 0 s] by (auto simp: line_starts_def)
  then have lt: "k < nat (line_of s i) \<Longrightarrow> line_starts s ! k < line_starts s ! nat (line_of s i)"
    using sorted_wrt_nth_less [of "(<)" "line_starts s" k "nat (line_of s i)"] length_line_starts [of s] line_of_bounds [of s i]
    by linarith
  then have "\<not> k < nat (line_of s i)" using line_start_le [OF assms(1), of s] k by auto
  then have "k = nat (line_of s i)" using k2 by linarith
  then show "line_starts s ! nat (line_of s i) = i" using k by simp
qed

lemma line_of_length [simp]: "line_of s (ilen s) = eols s"
  using line_of_itake [of "ilen s" s] by simp

lemma line_of_substr:
  assumes "0 \<le> a" "a \<le> e" "e \<le> ilen s" "0 \<le> r" "r < e - a"
  shows "line_of (substr s a e) r = line_of s (a + r) - line_of s a"
proof (cases "r = 0")
  case False
  then have "eols (itake r (substr s a e)) = line_feeds s a (a + r)" using assms by (simp add: itake_substr eols_substr)
  moreover have "splits_at (substr s a e) r \<longleftrightarrow> splits_at s (a + r)"
    using assms False substr_nth [of a r e s] substr_nth [of a "r - 1" e s] ilen_substr [of a e s]
    by (auto simp: splits_at_iff algebra_simps)
  ultimately show ?thesis using assms ilen_substr [of a e s] by (simp add: line_of_itake line_feeds_def)
qed simp

lemma breaks_last_CR: "s \<noteq> [] \<Longrightarrow> last s = CR \<Longrightarrow> breaks 0 s \<noteq> [] \<and> last (breaks 0 s) = ilen s"
  using breaks_CR [of s "[LF]" 0] by (simp add: splits_crlf_def)

lemma line_starts_substr:
  assumes "0 \<le> a" "a \<le> e" "e \<le> ilen s" "0 < k" "k \<le> line_of s e - line_of s a"
  shows "line_starts (substr s a e) ! nat k = line_starts s ! nat (line_of s a + k) - a" "k \<le> eols (substr s a e)"
proof -
  have "nat k = Suc (nat (k - 1))" using assms(4) by arith
  then show "line_starts (substr s a e) ! nat k = line_starts s ! nat (line_of s a + k) - a"
    using breaks_substr(1) [of a e s "k - 1"] assms by (simp add: line_starts_def [of "substr s a e"])
  show "k \<le> eols (substr s a e)" using breaks_substr(2) [of a e s "k - 1"] assms by simp
qed

text \<open>The offset of line \<open>k\<close> of a text, from 0, and the length of the text past its lines.\<close>

definition line_offset :: "js_string \<Rightarrow> int \<Rightarrow> int" where
  "line_offset s k = (if k \<le> 0 then 0 else if k \<le> eols s then line_starts s ! nat k else ilen s)"

lemma line_starts_split_end:
  assumes "0 \<le> a" "a < e" "e \<le> ilen s" "splits_at s e"
  shows "line_starts (substr s a e) ! nat (eols (substr s a e)) = e - a"
proof -
  let ?c = "substr s a e"
  have "last ?c = CR" using hd_last_substr [OF assms(1-3)] assms(4) by (simp add: splits_at_iff)
  then have "breaks 0 ?c \<noteq> []" "last (breaks 0 ?c) = e - a"
    using breaks_last_CR [of ?c] hd_last_substr(1) [OF assms(1-3)] ilen_substr [of a e s] assms by simp_all
  then obtain ys where ys: "breaks 0 ?c = ys @ [e - a]" by (metis append_butlast_last_id)
  then have "nat (eols ?c) = Suc (length ys)" using length_breaks [of 0 ?c] by simp
  then show ?thesis using ys by (simp add: line_starts_def)
qed

section \<open>Computing the line starts\<close>

text \<open>
  Strings are shorter than \<open>2 ^ 30\<close> in every JavaScript engine, so the typed arrays lose nothing.
\<close>

definition max_string_length :: int where "max_string_length = 2 ^ 30"

lemma createUintArray_id:
  assumes "\<forall>x\<in>set xs. 0 \<le> x \<and> x \<le> last xs" "xs \<noteq> [] \<Longrightarrow> last xs < 2 ^ 32"
  shows "createUintArray xs = xs"
  using assms by (cases "xs = []") (auto simp: createUintArray_def intro!: map_idI)

lemma createUintArray_line_starts:
  assumes "ilen s < max_string_length"
  shows "createUintArray (line_starts s) = line_starts s"
proof (rule createUintArray_id)
  have "l \<le> last (line_starts s)" if l: "l \<in> set (line_starts s)" for l
  proof (cases "breaks 0 s = []")
    case False
    then have "breaks 0 s = butlast (breaks 0 s) @ [last (breaks 0 s)]" by simp
    then have "\<forall>x\<in>set (butlast (breaks 0 s)). x < last (breaks 0 s)"
      using sorted_breaks [of 0 s] by (metis sorted_wrt_append list.set_intros(1))
    moreover have "0 < last (breaks 0 s)" using False breaks_bounds last_in_set by blast
    moreover have "l = 0 \<or> l \<in> set (butlast (breaks 0 s)) \<or> l = last (breaks 0 s)"
      using l False by (auto simp: line_starts_def) (metis append_butlast_last_id in_set_conv_decomp Un_iff set_append set_ConsD empty_iff list.set(1))
    ultimately show ?thesis using False by (auto simp: line_starts_def)
  qed (use l in \<open>simp add: line_starts_def\<close>)
  then show "\<forall>x\<in>set (line_starts s). 0 \<le> x \<and> x \<le> last (line_starts s)"
    using breaks_bounds [of _ 0 s] by (fastforce simp: line_starts_def)
  have "last (line_starts s) \<le> ilen s" using breaks_bounds [of "last (breaks 0 s)" 0 s] by (auto simp: line_starts_def)
  then show "last (line_starts s) < 2 ^ 32" using assms by (simp add: max_string_length_def)
qed

lemma createLineStartsFast_loop_breaks:
  "createLineStartsFast_loop str i r = r @ breaks (int i) (drop i str)"
proof (induction str i r rule: createLineStartsFast_loop.induct)
  case (1 str i r)
  have d: "i < length str \<Longrightarrow> drop i str = str ! i # drop (i + 1) str" by (simp add: Cons_nth_drop_Suc)
  have d2: "i + 1 < length str \<Longrightarrow> drop (i + 1) str = str ! (i + 1) # drop (i + 2) str" by (simp add: Cons_nth_drop_Suc)
  consider (fin) "\<not> i < length str" | (crlf) "i < length str" "str ! i = CR" "i + 1 < length str \<and> str ! (i + 1) = LF"
    | (cr) "i < length str" "str ! i = CR" "\<not> (i + 1 < length str \<and> str ! (i + 1) = LF)"
    | (lf) "i < length str" "str ! i = LF" | (other) "i < length str" "str ! i \<noteq> CR" "str ! i \<noteq> LF" by blast
  then show ?case
  proof cases
    case fin
    then show ?thesis by (subst createLineStartsFast_loop.simps) simp
  next
    case crlf
    then show ?thesis using 1(1) d d2 by (subst createLineStartsFast_loop.simps) (simp add: ends_line_def algebra_simps)
  next
    case cr
    then have "drop (i + 1) str = [] \<or> hd (drop (i + 1) str) \<noteq> LF" using d2 by (cases "i + 1 < length str") auto
    then show ?thesis using 1(2) cr d by (subst createLineStartsFast_loop.simps) (auto simp: ends_line_def algebra_simps)
  next
    case lf
    then show ?thesis using 1(3) d by (subst createLineStartsFast_loop.simps) (simp add: ends_line_def algebra_simps)
  next
    case other
    then show ?thesis using 1(4) d by (subst createLineStartsFast_loop.simps) (simp add: ends_line_def algebra_simps)
  qed
qed

lemma createLineStartsFast_ok:
  "ilen str < max_string_length \<Longrightarrow> createLineStartsFast str readonly = line_starts str"
  by (simp add: createLineStartsFast_def createLineStartsFast_loop_breaks Let_def createUintArray_line_starts flip: line_starts_def)

text \<open>The matches of \<open>/\r\n|\r|\n/g\<close>.\<close>

fun line_breaks :: "js_string \<Rightarrow> js_string list" where
  "line_breaks [] = []"
| "line_breaks (c # cs) =
     (if c = CR then
        if cs \<noteq> [] \<and> hd cs = LF then [CR, LF] # line_breaks (tl cs) else [CR] # line_breaks cs
      else if c = LF then [LF] # line_breaks cs
      else line_breaks cs)"

definition text_ascii :: "js_string \<Rightarrow> bool" where
  "text_ascii str \<longleftrightarrow> (\<forall>c\<in>set str. c = CR \<or> c = LF \<or> basic_ascii c)"

lemma createLineStarts_loop_counts:
  "createLineStarts_loop str i r cr lf crlf ascii =
     (let bs = line_breaks (drop i str) in
      (r @ breaks (int i) (drop i str), cr + int (count_list bs [CR]), lf + int (count_list bs [LF]),
       crlf + int (count_list bs [CR, LF]), ascii \<and> text_ascii (drop i str)))"
proof (induction str i r cr lf crlf ascii rule: createLineStarts_loop.induct)
  case (1 str i r cr lf crlf ascii)
  have d: "i < length str \<Longrightarrow> drop i str = str ! i # drop (i + 1) str" by (simp add: Cons_nth_drop_Suc)
  have d2: "i + 1 < length str \<Longrightarrow> drop (i + 1) str = str ! (i + 1) # drop (i + 2) str" by (simp add: Cons_nth_drop_Suc)
  consider (fin) "\<not> i < length str" | (crlf) "i < length str" "str ! i = CR" "i + 1 < length str \<and> str ! (i + 1) = LF"
    | (cr) "i < length str" "str ! i = CR" "\<not> (i + 1 < length str \<and> str ! (i + 1) = LF)"
    | (lf) "i < length str" "str ! i = LF" | (other) "i < length str" "str ! i \<noteq> CR" "str ! i \<noteq> LF" by blast
  then show ?case
  proof cases
    case fin
    then show ?thesis by (subst createLineStarts_loop.simps) (simp add: text_ascii_def)
  next
    case crlf
    then show ?thesis using 1(1) d d2 by (subst createLineStarts_loop.simps) (simp add: ends_line_def text_ascii_def Let_def algebra_simps)
  next
    case cr
    then have "drop (i + 1) str = [] \<or> hd (drop (i + 1) str) \<noteq> LF" using d2 by (cases "i + 1 < length str") auto
    then show ?thesis using 1(2) cr d by (subst createLineStarts_loop.simps) (auto simp: ends_line_def text_ascii_def Let_def algebra_simps)
  next
    case lf
    then show ?thesis using 1(3) d by (subst createLineStarts_loop.simps) (simp add: ends_line_def text_ascii_def Let_def algebra_simps)
  next
    case other
    then show ?thesis using 1(4) d by (subst createLineStarts_loop.simps) (simp add: ends_line_def text_ascii_def Let_def algebra_simps)
  qed
qed

lemma createLineStarts_ok:
  assumes "ilen str < max_string_length"
  shows "createLineStarts str = MkLineStarts (line_starts str) (int (count_list (line_breaks str) [CR]))
    (int (count_list (line_breaks str) [LF])) (int (count_list (line_breaks str) [CR, LF])) (text_ascii str)"
  using assms by (simp add: createLineStarts_def createLineStarts_loop_counts createUintArray_line_starts Let_def flip: line_starts_def)

lemma line_breaks_kinds: "set (line_breaks str) \<subseteq> {[CR], [LF], [CR, LF]}"
  by (induction str rule: line_breaks.induct) auto

lemma length_line_breaks: "ilen (line_breaks str) = eols str"
proof (induction str rule: line_breaks.induct)
  case (2 c cs)
  then show ?case by (cases cs) (auto simp: ends_line_def)
qed simp

lemma count_three: "set xs \<subseteq> {a, b, c} \<Longrightarrow> distinct [a, b, c] \<Longrightarrow> count_list xs a + count_list xs b + count_list xs c = length xs"
  by (induction xs) auto

section \<open>Properties\<close>

text \<open>
  C25. Both functions find the offset behind every line break of the text, in order, and the typed
  array they may end up in keeps these offsets. \<open>createLineStarts\<close> also counts the matches of
  \<open>\r\n|\r|\n\<close> by kind, and finds out whether all other characters are printable ASCII or tabs.
\<close>

theorem line_starts_computed:
  assumes "ilen str < max_string_length"
  shows "createLineStartsFast str readonly = line_starts str \<and>
    createLineStarts str = MkLineStarts (line_starts str) (int (count_list (line_breaks str) [CR]))
      (int (count_list (line_breaks str) [LF])) (int (count_list (line_breaks str) [CR, LF])) (text_ascii str) \<and>
    ilen (line_starts str) = ls_cr (createLineStarts str) + ls_lf (createLineStarts str) + ls_crlf (createLineStarts str) + 1"
  using createLineStartsFast_ok [OF assms] createLineStarts_ok [OF assms]
    count_three [OF line_breaks_kinds [of str]] length_line_breaks [of str] by simp

theorem line_starts_computed_witness:
  "createLineStartsFast [97, CR, LF, 98, CR, LF, LF, CR] True = [0, 3, 6, 7, 8] \<and>
    createLineStarts [97, CR, LF, 98, CR, LF, LF, CR] = MkLineStarts [0, 3, 6, 7, 8] 1 1 2 True"
  using line_starts_computed [of "[97, CR, LF, 98, CR, LF, LF, CR]" True]
  by (simp add: max_string_length_def line_starts_def ends_line_def text_ascii_def basic_ascii_def CR_def LF_def)

end
