(* ===== verification/PieceBuffers.thy ===== *)
theory PieceBuffers
  imports PieceTrees LineBreaks
begin

text \<open>
  The buffers of \<open>vs/editor/common/model/pieceTreeTextBuffer/pieceTreeBase.ts\<close>: a string with the
  offsets at which its lines start, cursors into it by line and column, and the pieces that point
  to a range of a buffer.

  A read outside an array gives \<open>undefined\<close> in the code, and then a cursor that makes no sense: it
  is \<open>None\<close> here, and part of each theorem is that it does not happen.
\<close>

section \<open>Buffers\<close>

record string_buffer =
  sb_buffer :: js_string
  sb_lineStarts :: "int list"

definition StringBuffer_new :: "js_string \<Rightarrow> int list \<Rightarrow> string_buffer" where
  "StringBuffer_new buffer lineStarts = \<lparr>sb_buffer = buffer, sb_lineStarts = lineStarts\<rparr>"

definition offsetInBuffer :: "string_buffer list \<Rightarrow> int \<Rightarrow> buffer_cursor \<Rightarrow> int option" where
  "offsetInBuffer bufs bufferIndex cursor = do {
     b \<leftarrow> js_get bufs bufferIndex;
     l \<leftarrow> js_get (sb_lineStarts b) (bc_line cursor);
     Some (l + bc_column cursor)
   }"

definition getLineFeedCnt :: "string_buffer list \<Rightarrow> int \<Rightarrow> buffer_cursor \<Rightarrow> buffer_cursor \<Rightarrow> int option" where
  "getLineFeedCnt bufs bufferIndex start stop =
     (if bc_column stop = 0 then Some (bc_line stop - bc_line start)
      else do {
        b \<leftarrow> js_get bufs bufferIndex;
        let lineStarts = sb_lineStarts b;
        (if bc_line stop = ilen lineStarts - 1 then Some (bc_line stop - bc_line start)
         else do {
           nextLineStartOffset \<leftarrow> js_get lineStarts (bc_line stop + 1);
           l \<leftarrow> js_get lineStarts (bc_line stop);
           let endOffset = l + bc_column stop;
           (if nextLineStartOffset > endOffset + 1 then Some (bc_line stop - bc_line start)
            else if js_get (sb_buffer b) (endOffset - 1) = Some CR then Some (bc_line stop - bc_line start + 1)
            else Some (bc_line stop - bc_line start))
         })
      })"

text \<open>The binary search for the line; \<open>low\<close> and \<open>high\<close> are lines, so \<open>| 0\<close> rounds down.\<close>

partial_function (option) positionInBuffer_loop ::
    "int list \<Rightarrow> int \<Rightarrow> int \<Rightarrow> int \<Rightarrow> int \<Rightarrow> int \<Rightarrow> (int \<times> int) option" where
  "positionInBuffer_loop lineStarts offset low high mid midStart =
     (if low \<le> high then do {
        let mid = toInt32 (low + (high - low) div 2);
        midStart \<leftarrow> js_get lineStarts mid;
        (if mid = high then Some (mid, midStart)
         else do {
           midStop \<leftarrow> js_get lineStarts (mid + 1);
           (if offset < midStart then positionInBuffer_loop lineStarts offset low (mid - 1) mid midStart
            else if offset \<ge> midStop then positionInBuffer_loop lineStarts offset (mid + 1) high mid midStart
            else Some (mid, midStart))
         })
      } else Some (mid, midStart))"

declare positionInBuffer_loop.simps [code]

definition positionInBuffer :: "string_buffer list \<Rightarrow> piece \<Rightarrow> int \<Rightarrow> buffer_cursor option" where
  "positionInBuffer bufs p remainder = do {
     b \<leftarrow> js_get bufs (pc_bufferIndex p);
     let lineStarts = sb_lineStarts b;
     l \<leftarrow> js_get lineStarts (bc_line (pc_start p));
     let startOffset = l + bc_column (pc_start p);
     let offset = startOffset + remainder;
     (mid, midStart) \<leftarrow> positionInBuffer_loop lineStarts offset (bc_line (pc_start p)) (bc_line (pc_end p)) 0 0;
     Some (MkBufferCursor mid (offset - midStart))
   }"

definition getIndexOf :: "string_buffer list \<Rightarrow> piece \<Rightarrow> int \<Rightarrow> (int \<times> int) option" where
  "getIndexOf bufs p accumulatedValue = do {
     pos \<leftarrow> positionInBuffer bufs p accumulatedValue;
     let lineCnt = bc_line pos - bc_line (pc_start p);
     endOffset \<leftarrow> offsetInBuffer bufs (pc_bufferIndex p) (pc_end p);
     startOffset \<leftarrow> offsetInBuffer bufs (pc_bufferIndex p) (pc_start p);
     (if endOffset - startOffset = accumulatedValue then do {
        realLineCnt \<leftarrow> getLineFeedCnt bufs (pc_bufferIndex p) (pc_start p) pos;
        Some (if realLineCnt \<noteq> lineCnt then (realLineCnt, 0) else (lineCnt, bc_column pos))
      } else Some (lineCnt, bc_column pos))
   }"

definition getAccumulatedValue :: "string_buffer list \<Rightarrow> piece \<Rightarrow> int \<Rightarrow> int option" where
  "getAccumulatedValue bufs p index =
     (if index < 0 then Some 0
      else do {
        b \<leftarrow> js_get bufs (pc_bufferIndex p);
        let lineStarts = sb_lineStarts b;
        let expectedLineStartIndex = bc_line (pc_start p) + index + 1;
        start \<leftarrow> js_get lineStarts (bc_line (pc_start p));
        (if expectedLineStartIndex > bc_line (pc_end p) then do {
           l \<leftarrow> js_get lineStarts (bc_line (pc_end p));
           Some (l + bc_column (pc_end p) - start - bc_column (pc_start p))
         } else do {
           l \<leftarrow> js_get lineStarts expectedLineStartIndex;
           Some (l - start - bc_column (pc_start p))
         })
      })"

definition getPieceContent :: "string_buffer list \<Rightarrow> piece \<Rightarrow> js_string option" where
  "getPieceContent bufs p = do {
     b \<leftarrow> js_get bufs (pc_bufferIndex p);
     startOffset \<leftarrow> offsetInBuffer bufs (pc_bufferIndex p) (pc_start p);
     endOffset \<leftarrow> offsetInBuffer bufs (pc_bufferIndex p) (pc_end p);
     Some (js_substring (sb_buffer b) startOffset endOffset)
   }"

text \<open>\<open>-1\<close> and \<open>NaN\<close>, which equal no character, are \<open>Some None\<close>.\<close>

definition nodeCharCodeAt :: "string_buffer list \<Rightarrow> piece \<Rightarrow> int \<Rightarrow> code_unit option option" where
  "nodeCharCodeAt bufs p offset =
     (if pc_lineFeedCnt p < 1 then Some None
      else do {
        b \<leftarrow> js_get bufs (pc_bufferIndex p);
        startOffset \<leftarrow> offsetInBuffer bufs (pc_bufferIndex p) (pc_start p);
        Some (js_get (sb_buffer b) (startOffset + offset))
      })"

definition string_startWithLF :: "js_string \<Rightarrow> bool" where
  "string_startWithLF val \<longleftrightarrow> js_get val 0 = Some LF"

definition string_endWithCR :: "js_string \<Rightarrow> bool" where
  "string_endWithCR val \<longleftrightarrow> js_get val (ilen val - 1) = Some CR"

definition piece_startWithLF :: "string_buffer list \<Rightarrow> piece \<Rightarrow> bool option" where
  "piece_startWithLF bufs p =
     (if pc_lineFeedCnt p = 0 then Some False
      else do {
        b \<leftarrow> js_get bufs (pc_bufferIndex p);
        let lineStarts = sb_lineStarts b;
        let line = bc_line (pc_start p);
        l \<leftarrow> js_get lineStarts line;
        let startOffset = l + bc_column (pc_start p);
        (if line = ilen lineStarts - 1 then Some False
         else do {
           nextLineOffset \<leftarrow> js_get lineStarts (line + 1);
           (if nextLineOffset > startOffset + 1 then Some False
            else Some (js_get (sb_buffer b) startOffset = Some LF))
         })
      })"

definition piece_endWithCR :: "string_buffer list \<Rightarrow> piece \<Rightarrow> bool option" where
  "piece_endWithCR bufs p =
     (if pc_lineFeedCnt p = 0 then Some False
      else do { c \<leftarrow> nodeCharCodeAt bufs p (pc_length p - 1); Some (c = Some CR) })"

section \<open>Sound buffers\<close>

definition cursor_of :: "js_string \<Rightarrow> int \<Rightarrow> buffer_cursor" where
  "cursor_of s i = MkBufferCursor (line_of s i) (i - line_starts s ! nat (line_of s i))"

definition buffer_ok :: "string_buffer \<Rightarrow> bool" where
  "buffer_ok b \<longleftrightarrow> sb_lineStarts b = line_starts (sb_buffer b) \<and> ilen (sb_buffer b) < max_string_length"

abbreviation buffers_ok :: "string_buffer list \<Rightarrow> bool" where
  "buffers_ok bufs \<equiv> list_all buffer_ok bufs"

lemma buffers_ok_get:
  assumes "buffers_ok bufs" "0 \<le> i" "i < ilen bufs"
  obtains b where "js_get bufs i = Some b" "bufs ! nat i = b" "sb_lineStarts b = line_starts (sb_buffer b)"
    "ilen (sb_buffer b) < max_string_length"
  using assms by (auto simp: list_all_length buffer_ok_def nat_less_iff)

definition text_at :: "string_buffer list \<Rightarrow> int \<Rightarrow> js_string" where
  "text_at bufs i = sb_buffer (bufs ! nat i)"

text \<open>A range of a buffer, as a piece.\<close>

definition piece_of_range :: "string_buffer list \<Rightarrow> int \<Rightarrow> int \<Rightarrow> int \<Rightarrow> piece" where
  "piece_of_range bufs i a e =
     MkPiece i (cursor_of (text_at bufs i) a) (cursor_of (text_at bufs i) e) (line_feeds (text_at bufs i) a e) (e - a)"

definition range_ok :: "string_buffer list \<Rightarrow> int \<Rightarrow> int \<Rightarrow> int \<Rightarrow> bool" where
  "range_ok bufs i a e \<longleftrightarrow> buffers_ok bufs \<and> 0 \<le> i \<and> i < ilen bufs \<and> 0 \<le> a \<and> a \<le> e \<and> e \<le> ilen (text_at bufs i)"

lemma piece_of_range_simps [simp]:
  "pc_bufferIndex (piece_of_range bufs i a e) = i"
  "pc_start (piece_of_range bufs i a e) = cursor_of (text_at bufs i) a"
  "pc_end (piece_of_range bufs i a e) = cursor_of (text_at bufs i) e"
  "pc_lineFeedCnt (piece_of_range bufs i a e) = line_feeds (text_at bufs i) a e"
  "pc_length (piece_of_range bufs i a e) = e - a"
  by (simp_all add: piece_of_range_def)

lemma cursor_of_simps [simp]:
  "bc_line (cursor_of s i) = line_of s i" "bc_column (cursor_of s i) = i - line_starts s ! nat (line_of s i)"
  by (simp_all add: cursor_of_def)

lemma range_okE:
  assumes "range_ok bufs i a e"
  obtains b where "js_get bufs i = Some b" "sb_buffer b = text_at bufs i" "sb_lineStarts b = line_starts (text_at bufs i)"
    "ilen (text_at bufs i) < max_string_length" "0 \<le> a" "a \<le> e" "e \<le> ilen (text_at bufs i)"
  using assms buffers_ok_get [of bufs i] unfolding range_ok_def text_at_def by metis

lemma get_line_starts: "0 \<le> k \<Longrightarrow> k \<le> eols s \<Longrightarrow> js_get (line_starts s) k = Some (line_starts s ! nat k)"
  by (simp add: js_get_def length_line_starts)

section \<open>Cursors and offsets\<close>

lemma offsetInBuffer_ok:
  assumes "range_ok bufs i a e"
  shows "offsetInBuffer bufs i (cursor_of (text_at bufs i) k) = Some k"
  using assms by (rule range_okE) (simp add: offsetInBuffer_def get_line_starts line_of_bounds)

lemma getLineFeedCnt_ok:
  assumes "range_ok bufs i 0 e"
  shows "getLineFeedCnt bufs i (cursor_of (text_at bufs i) a) (cursor_of (text_at bufs i) e) = Some (line_feeds (text_at bufs i) a e)"
  using assms
proof (rule range_okE)
  let ?s = "text_at bufs i" let ?l = "line_of ?s e"
  fix b assume b: "js_get bufs i = Some b" "sb_buffer b = ?s" "sb_lineStarts b = line_starts ?s" "0 \<le> e" "e \<le> ilen ?s"
  note ls = line_of_bounds [of ?s e] line_start_le [OF b(4), of ?s]
  consider (start) "line_starts ?s ! nat ?l = e" | (final) "line_starts ?s ! nat ?l < e" "?l = eols ?s"
    | (mid) "line_starts ?s ! nat ?l < e" "?l < eols ?s" using ls by linarith
  then show ?thesis
  proof cases
    case start
    then have "\<not> splits_at ?s e" using line_start_iff [OF b(4,5)]
      by (auto simp: in_breaks splits_at_iff ends_line_def idrop_def hd_drop_conv_nth)
    then show ?thesis using start by (simp add: getLineFeedCnt_def line_feeds_def)
  next
    case final
    have "\<not> splits_at ?s e"
    proof
      assume "splits_at ?s e"
      then have "e + 1 \<in> set (breaks 0 ?s)" by (auto simp: in_breaks splits_at_iff ends_line_def)
      then have "line_of ?s e < line_of ?s (e + 1)" using line_of_step [of ?s "e + 1"] by simp
      then show False using final(2) line_of_bounds(2) [of ?s "e + 1"] by simp
    qed
    then show ?thesis using final b by (simp add: getLineFeedCnt_def line_feeds_def)
  next
    case mid
    let ?n = "line_starts ?s ! nat (?l + 1)"
    have n: "e < ?n" using line_start_less [OF b(4)] mid(2) by blast
    have "0 \<le> line_starts ?s ! nat ?l" using ls(1,2) breaks_bounds [of _ 0 ?s] length_line_starts [of ?s]
      by (auto simp: line_starts_def nth_Cons' less_imp_le dest!: nth_mem)
    then have e: "0 < e" "e \<notin> set (breaks 0 ?s)" using mid(1) line_start_iff [OF b(4,5)] by auto
    have sp: "splits_at ?s e \<Longrightarrow> ?n = e + 1"
    proof -
      assume "splits_at ?s e"
      then have "e + 1 \<in> set (breaks 0 ?s)" by (auto simp: in_breaks splits_at_iff ends_line_def)
      then have "line_of ?s (e + 1) = ?l + 1" using line_of_step [of ?s "e + 1"] by simp
      then show "?n = e + 1" using n line_start_le [of "e + 1" ?s] b(4) by simp
    qed
    have "splits_at ?s e \<longleftrightarrow> ?s ! nat (e - 1) = CR" if "?n = e + 1"
    proof -
      have "nat (?l + 1) < length (line_starts ?s)" using mid(2) ls length_line_starts [of ?s] by linarith
      then have "e + 1 \<in> set (line_starts ?s)" using that nth_mem by metis
      then have "e < ilen ?s" using e(1) breaks_bounds [of "e + 1" 0 ?s] by (auto simp: line_starts_def)
      then show ?thesis using e by (auto simp: in_breaks splits_at_iff ends_line_def idrop_def hd_drop_conv_nth)
    qed
    then show ?thesis using mid sp n b e ls by (auto simp: getLineFeedCnt_def line_feeds_def get_line_starts)
  qed
qed

lemma positionInBuffer_loop_ok:
  assumes "0 \<le> i" "ilen s < max_string_length"
  shows "0 \<le> low \<Longrightarrow> low \<le> line_of s i \<Longrightarrow> line_of s i \<le> high \<Longrightarrow> high \<le> eols s \<Longrightarrow>
    positionInBuffer_loop (line_starts s) i low high mid midStart = Some (line_of s i, line_starts s ! nat (line_of s i))"
proof (induction "nat (high - low)" arbitrary: low high mid midStart rule: less_induct)
  case less
  let ?m = "low + (high - low) div 2"
  have r: "low \<le> ?m" "?m \<le> high" "?m = high \<longleftrightarrow> low = high" using less.prems by (auto simp: div_eq_0_iff)
  then have "int32_range ?m" using eols_le [of s] assms(2) less.prems by (auto simp: int32_range_def max_string_length_def)
  then have t: "toInt32 ?m = ?m" by simp
  have g: "js_get (line_starts s) ?m = Some (line_starts s ! nat ?m)" using r less.prems by (simp add: get_line_starts)
  show ?case
  proof (cases "low = high")
    case True
    then show ?thesis using less.prems g t by (subst positionInBuffer_loop.simps) (simp add: Let_def)
  next
    case False
    then have "?m < high" using r by simp
    then have g2: "js_get (line_starts s) (?m + 1) = Some (line_starts s ! nat (?m + 1))"
      using r less.prems by (simp add: get_line_starts)
    have le: "line_starts s ! nat ?m \<le> i \<longleftrightarrow> ?m \<le> line_of s i" "line_starts s ! nat (?m + 1) \<le> i \<longleftrightarrow> ?m + 1 \<le> line_of s i"
      using r \<open>?m < high\<close> less.prems assms(1) by (simp_all add: line_starts_le)
    consider (low) "line_of s i < ?m" | (high) "?m + 1 \<le> line_of s i" | (eq) "line_of s i = ?m" by linarith
    then show ?thesis
    proof cases
      case low
      then have "positionInBuffer_loop (line_starts s) i low (?m - 1) ?m (line_starts s ! nat ?m) =
          Some (line_of s i, line_starts s ! nat (line_of s i))"
        using less.prems r \<open>?m < high\<close> by (intro less.hyps) linarith+
      then show ?thesis using low le t g g2 r \<open>?m < high\<close>
        by (subst positionInBuffer_loop.simps) (simp add: not_le [symmetric] Let_def)
    next
      case high
      then have "positionInBuffer_loop (line_starts s) i (?m + 1) high ?m (line_starts s ! nat ?m) =
          Some (line_of s i, line_starts s ! nat (line_of s i))"
        using less.prems r \<open>?m < high\<close> by (intro less.hyps) linarith+
      then show ?thesis using high le t g g2 r \<open>?m < high\<close>
        by (subst positionInBuffer_loop.simps) (simp add: not_le [symmetric] Let_def)
    next
      case eq
      then show ?thesis using le t g g2 r \<open>?m < high\<close>
        by (subst positionInBuffer_loop.simps) (simp add: not_le [symmetric] Let_def)
    qed
  qed
qed

lemma positionInBuffer_ok:
  assumes "range_ok bufs i a e" "0 \<le> r" "r \<le> e - a"
  shows "positionInBuffer bufs (piece_of_range bufs i a e) r = Some (cursor_of (text_at bufs i) (a + r))"
  using assms(1)
proof (rule range_okE)
  let ?s = "text_at bufs i"
  fix b assume b: "js_get bufs i = Some b" "sb_buffer b = ?s" "sb_lineStarts b = line_starts ?s" "ilen ?s < max_string_length"
    "0 \<le> a" "e \<le> ilen ?s"
  have "positionInBuffer_loop (line_starts ?s) (a + r) (line_of ?s a) (line_of ?s e) 0 0 =
      Some (line_of ?s (a + r), line_starts ?s ! nat (line_of ?s (a + r)))"
    using b assms(2,3) line_of_mono [of a "a + r" ?s] line_of_mono [of "a + r" e ?s]
    by (intro positionInBuffer_loop_ok) (simp_all add: line_of_bounds)
  then show ?thesis using b by (simp add: positionInBuffer_def get_line_starts line_of_bounds cursor_of_def Let_def)
qed

lemma getPieceContent_ok:
  assumes "range_ok bufs i a e"
  shows "getPieceContent bufs (piece_of_range bufs i a e) = Some (substr (text_at bufs i) a e)"
  using assms
  by (rule range_okE) (simp add: getPieceContent_def offsetInBuffer_ok [OF assms] substr_def)

section \<open>The first and the last character of a piece\<close>

text \<open>Only a piece with line breaks is looked into; a piece that ends with \<open>\r\<close> or starts with \<open>\n\<close> has one.\<close>

lemma nodeCharCodeAt_ok:
  assumes "range_ok bufs i a e" "0 \<le> k" "k < e - a"
  shows "\<exists>r. nodeCharCodeAt bufs (piece_of_range bufs i a e) k = Some r \<and>
    (\<forall>c. c = CR \<or> c = LF \<longrightarrow> (r = Some c \<longleftrightarrow> text_at bufs i ! nat (a + k) = c))"
  using assms(1)
proof (rule range_okE)
  let ?s = "text_at bufs i"
  fix b assume b: "js_get bufs i = Some b" "sb_buffer b = ?s" "0 \<le> a" "e \<le> ilen ?s"
  show ?thesis
  proof (cases "line_feeds ?s a e < 1")
    case True
    have "?s ! nat (a + k) \<in> set (substr ?s a e)"
      using substr_nth [of a k e ?s] ilen_substr [of a e ?s] assms b nth_mem [of "nat k" "substr ?s a e"] by (simp add: nat_less_iff)
    then show ?thesis using True eols_pos [of "?s ! nat (a + k)" "substr ?s a e"] eols_substr [of a e ?s] assms b
      by (auto simp: nodeCharCodeAt_def)
  next
    case False
    then show ?thesis using b assms by (auto simp: nodeCharCodeAt_def offsetInBuffer_ok [OF assms(1)])
  qed
qed

lemma piece_endWithCR_ok:
  assumes "range_ok bufs i a e" "a < e"
  shows "piece_endWithCR bufs (piece_of_range bufs i a e) = Some (last (substr (text_at bufs i) a e) = CR)"
proof -
  let ?s = "text_at bufs i"
  have r: "0 \<le> a" "e \<le> ilen ?s" using assms(1) by (auto simp: range_ok_def)
  note l = hd_last_substr [OF r(1) assms(2) r(2)]
  have "line_feeds ?s a e = 0 \<Longrightarrow> last (substr ?s a e) \<noteq> CR"
    using eols_pos [of "last (substr ?s a e)" "substr ?s a e"] eols_substr [of a e ?s] r assms l(1) by auto
  moreover obtain c where "nodeCharCodeAt bufs (piece_of_range bufs i a e) (e - a - 1) = Some c"
    "c = Some CR \<longleftrightarrow> ?s ! nat (a + (e - a - 1)) = CR"
    using nodeCharCodeAt_ok [OF assms(1), of "e - a - 1"] assms(2) by auto
  ultimately show ?thesis using l(3) by (simp add: piece_endWithCR_def)
qed

lemma piece_startWithLF_ok:
  assumes "range_ok bufs i a e" "a < e"
  shows "piece_startWithLF bufs (piece_of_range bufs i a e) = Some (hd (substr (text_at bufs i) a e) = LF)"
  using assms(1)
proof (rule range_okE)
  let ?s = "text_at bufs i" and ?l = "line_of (text_at bufs i) a"
  fix b assume b: "js_get bufs i = Some b" "sb_buffer b = ?s" "sb_lineStarts b = line_starts ?s" "0 \<le> a" "e \<le> ilen ?s"
  note h = hd_last_substr [OF b(4) assms(2) b(5)]
  have nolf: "line_feeds ?s a e = 0 \<Longrightarrow> hd (substr ?s a e) \<noteq> LF"
    using eols_pos [of "hd (substr ?s a e)" "substr ?s a e"] eols_substr [of a e ?s] assms b h(1) by auto
  have next_line: "?l < eols ?s \<and> line_starts ?s ! nat (?l + 1) = a + 1" if "?s ! nat a = LF"
  proof -
    have "a + 1 \<in> set (breaks 0 ?s)" using that assms b by (auto simp: in_breaks ends_line_def)
    then have st: "line_of ?s (a + 1) = ?l + 1" using line_of_step [of ?s "a + 1"] by simp
    then have "?l < eols ?s" using line_of_bounds(2) [of ?s "a + 1"] by simp
    then show ?thesis using st line_start_le [of "a + 1" ?s] line_start_less [of a ?s] b(4) by auto
  qed
  show ?thesis
  proof (cases "?s ! nat a = LF")
    case True
    then show ?thesis using next_line nolf h b assms line_of_bounds(1) [of ?s a]
      by (auto simp: piece_startWithLF_def get_line_starts Let_def length_line_starts)
  next
    case False
    then show ?thesis using h(2) b assms line_of_bounds [of ?s a]
      by (auto simp: piece_startWithLF_def get_line_starts Let_def length_line_starts)
  qed
qed

section \<open>Lines of a piece\<close>

lemma getAccumulatedValue_ok:
  assumes "range_ok bufs i a e" "a < e"
  shows "getAccumulatedValue bufs (piece_of_range bufs i a e) k = Some (line_offset (substr (text_at bufs i) a e) (k + 1))"
  using assms(1)
proof (rule range_okE)
  let ?s = "text_at bufs i" let ?c = "substr ?s a e"
  fix b assume b: "js_get bufs i = Some b" "sb_lineStarts b = line_starts ?s" "0 \<le> a" "e \<le> ilen ?s"
  have f: "eols ?c = line_feeds ?s a e" using assms(2) b by (simp add: eols_substr)
  have len: "ilen ?c = e - a" using assms(2) b by (simp add: ilen_substr)
  show ?thesis
  proof (cases "k < 0")
    case False
    show ?thesis
    proof (cases "line_of ?s a + k + 1 > line_of ?s e")
      case True
      have "line_offset ?c (k + 1) = e - a"
      proof (cases "k + 1 \<le> eols ?c")
        case le: True
        then have "splits_at ?s e" "k + 1 = eols ?c" using True f by (auto simp: line_feeds_def split: if_splits)
        then show ?thesis using line_starts_split_end [of a e ?s] False assms(2) b by (simp add: line_offset_def)
      qed (use False len in \<open>simp add: line_offset_def\<close>)
      then show ?thesis using True False b
        by (simp add: getAccumulatedValue_def get_line_starts line_of_bounds Let_def)
    next
      case False2: False
      have g: "js_get (line_starts ?s) (line_of ?s a + k + 1) = Some (line_starts ?s ! nat (line_of ?s a + k + 1))"
        using False2 False line_of_bounds(1) [of ?s a] line_of_bounds(2) [of ?s e] by (intro get_line_starts) linarith+
      have "line_starts ?c ! nat (k + 1) = line_starts ?s ! nat (line_of ?s a + k + 1) - a" "k + 1 \<le> eols ?c"
        using False2 False b assms(2) line_starts_substr [of a e ?s "k + 1"] by (simp_all add: add.assoc)
      then show ?thesis using False2 False b g
        by (simp add: getAccumulatedValue_def get_line_starts line_of_bounds Let_def line_offset_def)
    qed
  qed (simp add: getAccumulatedValue_def line_offset_def)
qed

lemma getIndexOf_ok:
  assumes "range_ok bufs i a e" "a < e" "0 \<le> r" "r \<le> e - a"
  shows "\<exists>m. getIndexOf bufs (piece_of_range bufs i a e) r = Some (line_of (substr (text_at bufs i) a e) r, m) \<and>
    (0 < line_of (substr (text_at bufs i) a e) r \<longrightarrow>
      m = r - line_starts (substr (text_at bufs i) a e) ! nat (line_of (substr (text_at bufs i) a e) r))"
  using assms(1)
proof (rule range_okE)
  let ?s = "text_at bufs i" let ?c = "substr ?s a e"
  assume b: "0 \<le> a" "e \<le> ilen ?s"
  have f: "eols ?c = line_feeds ?s a e" and len: "ilen ?c = e - a" using assms(2) b by (simp_all add: eols_substr ilen_substr)
  have lf: "getLineFeedCnt bufs i (cursor_of ?s a) (cursor_of ?s e) = Some (eols ?c)"
    using getLineFeedCnt_ok [of bufs i e a] assms(1,2) f by (simp add: range_ok_def)
  note defs = getIndexOf_def positionInBuffer_ok [OF assms(1,3,4)] offsetInBuffer_ok [OF assms(1)] Let_def
  have lines: "0 < line_of ?s (a + r) - line_of ?s a \<Longrightarrow>
    line_starts ?c ! nat (line_of ?s (a + r) - line_of ?s a) = line_starts ?s ! nat (line_of ?s (a + r)) - a"
    using line_starts_substr(1) [of a e ?s "line_of ?s (a + r) - line_of ?s a"] line_of_mono [of "a + r" e ?s] assms b by simp
  show ?thesis
  proof (cases "r = e - a")
    case True
    then have "line_of ?c r = eols ?c" using len by (metis line_of_length)
    moreover have "positionInBuffer bufs (piece_of_range bufs i a e) (e - a) = Some (cursor_of ?s e)"
      using positionInBuffer_ok [OF assms(1,3,4)] True by simp
    ultimately show ?thesis using True lf lines f line_starts_split_end [OF b(1) assms(2) b(2)]
      by (auto simp: getIndexOf_def offsetInBuffer_ok [OF assms(1)] Let_def line_feeds_def split: if_splits)
  next
    case False
    then have "line_of ?c r = line_of ?s (a + r) - line_of ?s a" using line_of_substr [of a e ?s r] assms b by simp
    then show ?thesis using False lines by (auto simp: defs)
  qed
qed

section \<open>Pieces of a growing buffer\<close>

lemma cursor_of_append:
  assumes "0 \<le> k" "k \<le> ilen xs" "k < ilen xs \<or> \<not> splits_crlf xs ys"
  shows "cursor_of (xs @ ys) k = cursor_of xs k"
proof -
  have l: "line_of (xs @ ys) k = line_of xs k" using assms by (simp add: line_of_append1)
  have "nat (line_of xs k) < length (if splits_crlf xs ys then butlast (line_starts xs) else line_starts xs)"
  proof (cases "splits_crlf xs ys")
    case True
    then have "k < ilen xs" using assms(3) by simp
    then have "line_of xs k < eols xs"
      using line_of_mono [of k "ilen xs - 1" xs] line_of_step [of xs "ilen xs"] breaks_CR [OF True, of 0] last_in_set [of "breaks 0 xs"]
      by auto
    then have "nat (line_of xs k) + 1 < length (line_starts xs)" using length_line_starts [of xs] line_of_bounds(1) [of xs k] by linarith
    then show ?thesis using True by simp
  next
    case False
    have "nat (line_of xs k) < length (line_starts xs)" using length_line_starts [of xs] line_of_bounds [of xs k] by linarith
    then show ?thesis using False by simp
  qed
  moreover have "line_starts (xs @ ys) = (if splits_crlf xs ys then butlast (line_starts xs) else line_starts xs) @ breaks (ilen xs) ys"
    using breaks_CR [of xs ys 0] by (simp add: line_starts_def breaks_append)
  ultimately have "line_starts (xs @ ys) ! nat (line_of xs k) = line_starts xs ! nat (line_of xs k)"
    by (auto simp: nth_append nth_butlast split: if_splits)
  then show ?thesis using l by (simp add: cursor_of_def)
qed

lemma splits_at_append:
  "k \<le> ilen xs \<Longrightarrow> k < ilen xs \<or> \<not> splits_crlf xs ys \<Longrightarrow> splits_at (xs @ ys) k = splits_at xs k"
proof (cases "k = ilen xs")
  case True
  then show "k < ilen xs \<or> \<not> splits_crlf xs ys \<Longrightarrow> ?thesis" by (simp add: splits_at_def itake_append idrop_append)
next
  case False
  then show "k \<le> ilen xs \<Longrightarrow> ?thesis" by (auto simp: splits_at_iff nth_append nat_less_iff)
qed

lemma piece_of_range_append:
  assumes "text_at bufs' i = text_at bufs i @ ys" "0 \<le> a" "a \<le> e" "e \<le> ilen (text_at bufs i)"
    "e < ilen (text_at bufs i) \<or> \<not> splits_crlf (text_at bufs i) ys"
  shows "piece_of_range bufs' i a e = piece_of_range bufs i a e"
proof -
  have "a < ilen (text_at bufs i) \<or> \<not> splits_crlf (text_at bufs i) ys" using assms(3,5) by auto
  then show ?thesis using assms
    by (simp add: piece_of_range_def cursor_of_append line_feeds_def line_of_append1 splits_at_append)
qed


section \<open>Properties\<close>

text \<open>A buffer for the examples.\<close>

definition crlf_buffer :: "string_buffer list" where
  "crlf_buffer = [StringBuffer_new [97, CR, LF, 98] [0, 3]]"

lemma crlf_buffer_facts: "text_at crlf_buffer 0 = [97, CR, LF, 98]" "LF \<noteq> 97" "CR \<noteq> 97" "LF \<noteq> 98" "CR \<noteq> 98"
  by (simp_all add: text_at_def crlf_buffer_def StringBuffer_new_def CR_def LF_def)

lemma range_ok_crlf_buffer: "0 \<le> a \<Longrightarrow> a \<le> e \<Longrightarrow> e \<le> 4 \<Longrightarrow> range_ok crlf_buffer 0 a e"
  by (simp add: range_ok_def crlf_buffer_facts)
    (simp add: crlf_buffer_def buffer_ok_def StringBuffer_new_def line_starts_def ends_line_def max_string_length_def CR_def LF_def)

text \<open>
  For a piece of a sound buffer and an offset in it, the binary search of \<open>positionInBuffer\<close> ends
  at the cursor that \<open>offsetInBuffer\<close> maps back to the offset, also between \<open>\r\<close> and \<open>\n\<close> and at both
  ends of the piece; \<open>getPieceContent\<close> is the text between its cursors, and \<open>getLineFeedCnt\<close> counts the
  line breaks of the text before the offset, with one for a \<open>\r\n\<close> that the offset splits.
\<close>

theorem piece_positions:
  assumes "range_ok bufs i a e" "0 \<le> r" "r \<le> e - a"
  shows "\<exists>c text. positionInBuffer bufs (piece_of_range bufs i a e) r = Some c \<and> offsetInBuffer bufs i c = Some (a + r) \<and>
    getPieceContent bufs (piece_of_range bufs i a e) = Some text \<and> ilen text = e - a \<and>
    (0 < r \<longrightarrow> getLineFeedCnt bufs i (pc_start (piece_of_range bufs i a e)) c = Some (eols (itake r text)))"
proof -
  let ?s = "text_at bufs i"
  have r: "0 \<le> a" "a + r \<le> ilen ?s" "range_ok bufs i 0 (a + r)" using assms by (auto simp: range_ok_def)
  have "0 < r \<Longrightarrow> getLineFeedCnt bufs i (cursor_of ?s a) (cursor_of ?s (a + r)) = Some (eols (itake r (substr ?s a e)))"
    using getLineFeedCnt_ok [OF r(3), of a] assms r by (simp add: itake_substr eols_substr)
  then show ?thesis
    using positionInBuffer_ok [OF assms] offsetInBuffer_ok [OF assms(1)] getPieceContent_ok [OF assms(1)] ilen_substr [of a e ?s] assms
    by (auto simp: range_ok_def)
qed

theorem piece_positions_witness:
  "\<exists>c. positionInBuffer crlf_buffer (MkPiece 0 (MkBufferCursor 0 1) (MkBufferCursor 1 1) 1 3) 1 = Some c \<and>
    offsetInBuffer crlf_buffer 0 c = Some 2"
proof -
  have "piece_of_range crlf_buffer 0 1 4 = MkPiece 0 (MkBufferCursor 0 1) (MkBufferCursor 1 1) 1 3"
    by (simp add: piece_of_range_def cursor_of_def line_of_def line_feeds_def line_starts_def crlf_buffer_facts ends_line_def)
  then show ?thesis using piece_positions [OF range_ok_crlf_buffer, of 1 4 1] by auto
qed

text \<open>
  For a piece, \<open>getAccumulatedValue\<close> gives the offset in the piece at which its line of index
  \<open>k + 1\<close> starts, 0 for a negative \<open>k\<close> and the length past the last line; \<open>getIndexOf\<close> gives the line
  of an offset in the piece and, behind a line break, the column in it. At the end of a piece that
  splits a \<open>\r\n\<close> the lone \<open>\r\<close> counts.
\<close>

theorem piece_lines:
  assumes "range_ok bufs i a e" "a < e" "0 \<le> r" "r \<le> e - a" "getPieceContent bufs (piece_of_range bufs i a e) = Some text"
  shows "getAccumulatedValue bufs (piece_of_range bufs i a e) k = Some (line_offset text (k + 1)) \<and>
    pc_lineFeedCnt (piece_of_range bufs i a e) = eols text \<and>
    (\<exists>column. getIndexOf bufs (piece_of_range bufs i a e) r = Some (line_of text r, column) \<and>
      (0 < line_of text r \<longrightarrow> column = r - line_starts text ! nat (line_of text r)))"
proof -
  have "text = substr (text_at bufs i) a e" using getPieceContent_ok [OF assms(1)] assms(5) by simp
  then show ?thesis using getAccumulatedValue_ok [OF assms(1,2)] getIndexOf_ok [OF assms(1-4)] eols_substr [of a e "text_at bufs i"] assms(1,2)
    by (auto simp: range_ok_def)
qed

theorem piece_lines_witness:
  "getAccumulatedValue crlf_buffer (MkPiece 0 (MkBufferCursor 0 0) (MkBufferCursor 0 2) 1 2) 0 = Some 2 \<and>
    getIndexOf crlf_buffer (MkPiece 0 (MkBufferCursor 0 0) (MkBufferCursor 0 2) 1 2) 2 = Some (1, 0)"
proof -
  have r: "range_ok crlf_buffer 0 0 2" by (rule range_ok_crlf_buffer) simp_all
  have p: "piece_of_range crlf_buffer 0 0 2 = MkPiece 0 (MkBufferCursor 0 0) (MkBufferCursor 0 2) 1 2"
    by (simp add: piece_of_range_def cursor_of_def line_of_def line_feeds_def line_starts_def crlf_buffer_facts
        ends_line_def splits_at_iff)
  have c: "getPieceContent crlf_buffer (piece_of_range crlf_buffer 0 0 2) = Some [97, CR]"
    using getPieceContent_ok [OF r] by (simp add: crlf_buffer_facts)
  have "getAccumulatedValue crlf_buffer (piece_of_range crlf_buffer 0 0 2) 0 = Some 2 \<and>
      getIndexOf crlf_buffer (piece_of_range crlf_buffer 0 0 2) 2 = Some (1, 0)"
    using piece_lines [OF r _ _ _ c, of 2 0]
    by (simp add: line_offset_def line_of_def line_starts_def ends_line_def crlf_buffer_facts(2,3))
  then show ?thesis by (simp only: p)
qed

end
