(* ===== verification/PieceTreeStates.thy ===== *)
theory PieceTreeStates
  imports PieceBuffers
begin

text \<open>
  The state of \<open>PieceTreeBase\<close> (\<open>vs/editor/common/model/pieceTreeTextBuffer/pieceTreeBase.ts\<close>): the
  tree, the buffers with the cursor at the end of the change buffer, the totals, and the two caches;
  its construction from chunks, the search for the node of an offset, and the invariant of the
  state with its text.

  Every method takes and returns the state. \<open>None\<close> is an exception (a field of \<open>null\<close>), a read
  outside an array or a loop without an end; where the code may return \<open>null\<close>, there is a second
  \<open>option\<close> inside.
\<close>

section \<open>The search cache\<close>

record cache_entry =
  ce_node :: node_ref
  ce_nodeStartOffset :: int
  ce_nodeStartLineNumber :: "int option"

record search_cache =
  sc_limit :: int
  sc_cache :: "cache_entry list"

definition SearchCache_new :: "int \<Rightarrow> search_cache" where
  "SearchCache_new limit = \<lparr>sc_limit = limit, sc_cache = []\<rparr>"

definition SearchCache_get :: "rb_tree \<Rightarrow> search_cache \<Rightarrow> int \<Rightarrow> cache_entry option" where
  "SearchCache_get t c offset =
     find (\<lambda>e. ce_nodeStartOffset e \<le> offset \<and> ce_nodeStartOffset e + n_length t (ce_node e) \<ge> offset) (rev (sc_cache c))"

text \<open>A line number that is missing, or 0, is no match; the result has the line number.\<close>

definition SearchCache_get2 :: "rb_tree \<Rightarrow> search_cache \<Rightarrow> int \<Rightarrow> (cache_entry \<times> int) option" where
  "SearchCache_get2 t c lineNumber =
     (case find (\<lambda>e. case ce_nodeStartLineNumber e of None \<Rightarrow> False
          | Some l \<Rightarrow> l \<noteq> 0 \<and> l < lineNumber \<and> l + n_lineFeedCnt t (ce_node e) \<ge> lineNumber) (rev (sc_cache c)) of
        None \<Rightarrow> None
      | Some e \<Rightarrow> map_option (Pair e) (ce_nodeStartLineNumber e))"

definition SearchCache_set :: "cache_entry \<Rightarrow> search_cache \<Rightarrow> search_cache" where
  "SearchCache_set nodePosition c =
     c\<lparr>sc_cache := (if ilen (sc_cache c) \<ge> sc_limit c then tl (sc_cache c) else sc_cache c) @ [nodePosition]\<rparr>"

definition SearchCache_validate :: "rb_tree \<Rightarrow> int \<Rightarrow> search_cache \<Rightarrow> search_cache" where
  "SearchCache_validate t offset c =
     c\<lparr>sc_cache := filter (\<lambda>e. \<not> (n_parent t (ce_node e) = null_ref \<or> ce_nodeStartOffset e \<ge> offset)) (sc_cache c)\<rparr>"

section \<open>The state\<close>

record piece_tree =
  pt_tree :: rb_tree
  pt_buffers :: "string_buffer list"
  pt_lineCnt :: int
  pt_length :: int
  pt_EOL :: js_string
  pt_EOLLength :: int
  pt_EOLNormalized :: bool
  pt_lastChangeBufferPos :: buffer_cursor
  pt_searchCache :: search_cache
  pt_lastVisitedLine :: "int \<times> js_string"

partial_function (option) computeBufferMetadata_loop :: "rb_tree \<Rightarrow> node_ref \<Rightarrow> int \<Rightarrow> int \<Rightarrow> (int \<times> int) option" where
  "computeBufferMetadata_loop t x lfCnt len =
     (if x \<noteq> SENTINEL then
        computeBufferMetadata_loop t (n_right t x) (lfCnt + (n_lf_left t x + n_lineFeedCnt t x)) (len + (n_size_left t x + n_length t x))
      else Some (lfCnt, len))"

declare computeBufferMetadata_loop.simps [code]

definition computeBufferMetadata :: "piece_tree \<Rightarrow> piece_tree option" where
  "computeBufferMetadata s = do {
     (lfCnt, len) \<leftarrow> computeBufferMetadata_loop (pt_tree s) (rb_root (pt_tree s)) 1 0;
     Some (s\<lparr>pt_lineCnt := lfCnt, pt_length := len, pt_searchCache := SearchCache_validate (pt_tree s) len (pt_searchCache s)\<rparr>)
   }"

text \<open>The chunks of a new tree: buffer \<open>i + 1\<close> is meant for chunk \<open>i\<close>, but empty chunks are not stored.\<close>

definition chunk_piece :: "int \<Rightarrow> string_buffer \<Rightarrow> piece" where
  "chunk_piece bufferIndex b =
     (let lineStarts = sb_lineStarts b; endIndex = ilen lineStarts - 1
      in MkPiece bufferIndex (MkBufferCursor 0 0) (MkBufferCursor endIndex (ilen (sb_buffer b) - last lineStarts))
           endIndex (ilen (sb_buffer b)))"

fun create_loop :: "string_buffer list \<Rightarrow> int \<Rightarrow> node_ref \<Rightarrow> string_buffer list \<Rightarrow> rb_tree \<Rightarrow>
    (string_buffer list \<times> rb_tree) option" where
  "create_loop [] i lastNode bufs t = Some (bufs, t)"
| "create_loop (chunk # chunks) i lastNode bufs t =
     (if ilen (sb_buffer chunk) > 0 then do {
        (lastNode, t) \<leftarrow> rbInsertRight lastNode (chunk_piece (i + 1) chunk) t;
        create_loop chunks (i + 1) lastNode (bufs @ [chunk]) t
      } else create_loop chunks (i + 1) lastNode bufs t)"

definition PieceTree_create :: "string_buffer list \<Rightarrow> js_string \<Rightarrow> bool \<Rightarrow> rb_tree \<Rightarrow> piece_tree option" where
  "PieceTree_create chunks eol eolNormalized t0 = do {
     (bufs, t) \<leftarrow> create_loop chunks 0 null_ref [StringBuffer_new [] [0]] (set_root SENTINEL t0);
     computeBufferMetadata
       \<lparr>pt_tree = t, pt_buffers = bufs, pt_lineCnt = 1, pt_length = 0, pt_EOL = eol, pt_EOLLength = ilen eol,
        pt_EOLNormalized = eolNormalized, pt_lastChangeBufferPos = MkBufferCursor 0 0,
        pt_searchCache = SearchCache_new 1, pt_lastVisitedLine = (0, [])\<rparr>
   }"

definition shouldCheckCRLF :: "piece_tree \<Rightarrow> bool" where
  "shouldCheckCRLF s \<longleftrightarrow> \<not> (pt_EOLNormalized s \<and> pt_EOL s = [LF])"

section \<open>The node of an offset\<close>

record node_position =
  np_node :: node_ref
  np_remainder :: int
  np_nodeStartOffset :: int

partial_function (option) nodeAt_loop :: "rb_tree \<Rightarrow> node_ref \<Rightarrow> int \<Rightarrow> int \<Rightarrow> node_position option option" where
  "nodeAt_loop t x offset nodeStartOffset =
     (if x \<noteq> SENTINEL then
        if n_size_left t x > offset then nodeAt_loop t (n_left t x) offset nodeStartOffset
        else if n_size_left t x + n_length t x \<ge> offset then
          Some (Some \<lparr>np_node = x, np_remainder = offset - n_size_left t x, np_nodeStartOffset = nodeStartOffset + n_size_left t x\<rparr>)
        else nodeAt_loop t (n_right t x) (offset - (n_size_left t x + n_length t x))
               (nodeStartOffset + (n_size_left t x + n_length t x))
      else Some None)"

declare nodeAt_loop.simps [code]

definition nodeAt :: "int \<Rightarrow> piece_tree \<Rightarrow> (node_position option \<times> piece_tree) option" where
  "nodeAt offset s =
     (case SearchCache_get (pt_tree s) (pt_searchCache s) offset of
        Some e \<Rightarrow> Some (Some \<lparr>np_node = ce_node e, np_remainder = offset - ce_nodeStartOffset e,
                          np_nodeStartOffset = ce_nodeStartOffset e\<rparr>, s)
      | None \<Rightarrow> do {
          ret \<leftarrow> nodeAt_loop (pt_tree s) (rb_root (pt_tree s)) offset 0;
          (case ret of
             None \<Rightarrow> Some (None, s)
           | Some np \<Rightarrow> Some (Some np, s\<lparr>pt_searchCache := SearchCache_set
               \<lparr>ce_node = np_node np, ce_nodeStartOffset = np_nodeStartOffset np, ce_nodeStartLineNumber = None\<rparr>
               (pt_searchCache s)\<rparr>))
        })"

text \<open>The methods whose argument is a node; the sentinel has no piece.\<close>

definition startWithLF :: "piece_tree \<Rightarrow> node_ref \<Rightarrow> bool option" where
  "startWithLF s val = (if val = SENTINEL then Some False else piece_startWithLF (pt_buffers s) (n_piece (pt_tree s) val))"

definition endWithCR :: "piece_tree \<Rightarrow> node_ref \<Rightarrow> bool option" where
  "endWithCR s val = (if val = SENTINEL then Some False else piece_endWithCR (pt_buffers s) (n_piece (pt_tree s) val))"

section \<open>The text of a state\<close>

text \<open>A piece is a range of a buffer with this text; while an operation runs it may be empty.\<close>

definition piece_holds :: "string_buffer list \<Rightarrow> piece \<Rightarrow> js_string \<Rightarrow> bool" where
  "piece_holds bufs p c \<longleftrightarrow> (\<exists>i a e. range_ok bufs i a e \<and> p = piece_of_range bufs i a e \<and> c = substr (text_at bufs i) a e)"

text \<open>The piece reaches the end of the change buffer.\<close>

definition at_end :: "string_buffer list \<Rightarrow> piece \<Rightarrow> bool" where
  "at_end bufs p \<longleftrightarrow> pc_bufferIndex p = 0 \<and> pc_end p = cursor_of (text_at bufs 0) (ilen (text_at bufs 0))"

definition no_cr :: "js_string \<Rightarrow> bool" where
  "no_cr s \<longleftrightarrow> CR \<notin> set s"

text \<open>
  The part of the invariant that holds throughout the operations: \<open>ns\<close> are the nodes in order and
  \<open>cs\<close> their texts. At most one piece reaches the end of the change buffer.
\<close>

definition segs_ok :: "string_buffer list \<Rightarrow> piece list \<Rightarrow> js_string list \<Rightarrow> bool" where
  "segs_ok bufs ps cs \<longleftrightarrow> list_all2 (piece_holds bufs) ps cs \<and> length (filter (at_end bufs) ps) \<le> 1"

definition buffers_state :: "piece_tree \<Rightarrow> bool" where
  "buffers_state s \<longleftrightarrow> buffers_ok (pt_buffers s) \<and> pt_buffers s \<noteq> [] \<and>
     pt_lastChangeBufferPos s = cursor_of (text_at (pt_buffers s) 0) (ilen (text_at (pt_buffers s) 0)) \<and>
     (\<not> shouldCheckCRLF s \<longrightarrow> (\<forall>b\<in>set (pt_buffers s). no_cr (sb_buffer b)))"

definition pieces_ok :: "piece_tree \<Rightarrow> node_ref list \<Rightarrow> js_string list \<Rightarrow> bool" where
  "pieces_ok s ns cs \<longleftrightarrow>
     rb_order (pt_tree s) ns \<and> buffers_state s \<and> segs_ok (pt_buffers s) (map (n_piece (pt_tree s)) ns) cs"

text \<open>No two neighbouring texts share a \<open>\r\n\<close>.\<close>

definition joined :: "js_string list \<Rightarrow> bool" where
  "joined cs \<longleftrightarrow> successively (\<lambda>c d. \<not> splits_crlf c d) cs"

definition entry_ok :: "piece_tree \<Rightarrow> node_ref list \<Rightarrow> cache_entry \<Rightarrow> bool" where
  "entry_ok s ns e \<longleftrightarrow>
     rb_gone (pt_tree s) (ce_node e) \<or>
     (\<exists>xs ys. ns = xs @ ce_node e # ys \<and> ce_nodeStartOffset e = sum_list (map (n_length (pt_tree s)) xs) \<and>
        (\<forall>l. ce_nodeStartLineNumber e = Some l \<longrightarrow> l = 1 + sum_list (map (n_lineFeedCnt (pt_tree s)) xs)))"

definition cache_ok :: "piece_tree \<Rightarrow> node_ref list \<Rightarrow> bool" where
  "cache_ok s ns \<longleftrightarrow> sc_limit (pt_searchCache s) = 1 \<and> length (sc_cache (pt_searchCache s)) \<le> 1 \<and>
     list_all (entry_ok s ns) (sc_cache (pt_searchCache s))"

definition buffer_inv :: "piece_tree \<Rightarrow> node_ref list \<Rightarrow> js_string list \<Rightarrow> bool" where
  "buffer_inv s ns cs \<longleftrightarrow> pieces_ok s ns cs \<and> [] \<notin> set cs \<and> joined cs \<and> cache_ok s ns \<and>
     list_all (\<lambda>e. \<not> rb_gone (pt_tree s) (ce_node e)) (sc_cache (pt_searchCache s)) \<and>
     pt_lineCnt s = eols (concat cs) + 1 \<and> pt_length s = ilen (concat cs) \<and> pt_EOLLength s = ilen (pt_EOL s)"

text \<open>The text of a state, by reading its pieces in order.\<close>

definition has_text :: "piece_tree \<Rightarrow> js_string \<Rightarrow> bool" where
  "has_text s text \<longleftrightarrow> (\<exists>ns cs. buffer_inv s ns cs \<and> text = concat cs)"


section \<open>Walks down the tree\<close>

lemma nodeAt_loop_shape:
  "shape (n_parent s) (n_left s) (n_right s) p x t \<Longrightarrow> sums_ok (n_size_left s) (n_length s) t \<Longrightarrow> t \<noteq> Lf \<Longrightarrow>
    0 \<le> off \<Longrightarrow> off \<le> tree_sum (n_length s) t \<Longrightarrow>
    \<exists>xs a ys. nodes t = xs @ a # ys \<and> 0 \<le> off - sum_list (map (n_length s) xs) \<and>
      off - sum_list (map (n_length s) xs) \<le> n_length s a \<and>
      nodeAt_loop s x off start = Some (Some \<lparr>np_node = a, np_remainder = off - sum_list (map (n_length s) xs),
        np_nodeStartOffset = start + sum_list (map (n_length s) xs)\<rparr>)"
proof (induction t arbitrary: p x off start)
  case (Nd l a r)
  then have x: "x = a" "a \<noteq> SENTINEL" "n_size_left s a = tree_sum (n_length s) l" by auto
  consider (left) "n_size_left s a > off" | (here) "n_size_left s a \<le> off" "off \<le> n_size_left s a + n_length s a"
    | (right) "off > n_size_left s a + n_length s a" "n_size_left s a \<le> off" by linarith
  then show ?case
  proof cases
    case left
    then have "l \<noteq> Lf" using x(3) Nd.prems(4) by auto
    then obtain xs b ys where "nodes l = xs @ b # ys" "0 \<le> off - sum_list (map (n_length s) xs)"
      "off - sum_list (map (n_length s) xs) \<le> n_length s b"
      "nodeAt_loop s (n_left s a) off start = Some (Some \<lparr>np_node = b, np_remainder = off - sum_list (map (n_length s) xs),
        np_nodeStartOffset = start + sum_list (map (n_length s) xs)\<rparr>)"
      using Nd.IH(1) [of a "n_left s a" off start] Nd.prems x left by auto
    then show ?thesis using x left
      by (intro exI [of _ xs] exI [of _ b] exI [of _ "ys @ a # nodes r"]) (subst nodeAt_loop.simps, simp)
  next
    case here
    then show ?thesis using x by (intro exI [of _ "nodes l"] exI [of _ a] exI [of _ "nodes r"])
        (subst nodeAt_loop.simps, simp add: tree_sum_def)
  next
    case right
    let ?off = "off - (n_size_left s a + n_length s a)" and ?start = "start + (n_size_left s a + n_length s a)"
    have "?off \<le> tree_sum (n_length s) r" using Nd.prems(5) x by simp
    moreover have "r \<noteq> Lf" using calculation right by auto
    ultimately obtain xs b ys where "nodes r = xs @ b # ys" "0 \<le> ?off - sum_list (map (n_length s) xs)"
      "?off - sum_list (map (n_length s) xs) \<le> n_length s b"
      "nodeAt_loop s (n_right s a) ?off ?start = Some (Some \<lparr>np_node = b, np_remainder = ?off - sum_list (map (n_length s) xs),
        np_nodeStartOffset = ?start + sum_list (map (n_length s) xs)\<rparr>)"
      using Nd.IH(2) [of a "n_right s a" ?off ?start] Nd.prems x right by auto
    then show ?thesis using x right
      by (intro exI [of _ "nodes l @ a # xs"] exI [of _ b] exI [of _ ys])
        (subst nodeAt_loop.simps, simp add: tree_sum_def algebra_simps)
  qed
qed simp

lemma computeBufferMetadata_loop_shape:
  "shape (n_parent s) (n_left s) (n_right s) p x t \<Longrightarrow> sums_ok (n_size_left s) (n_length s) t \<Longrightarrow>
    sums_ok (n_lf_left s) (n_lineFeedCnt s) t \<Longrightarrow>
    computeBufferMetadata_loop s x lf len = Some (lf + tree_sum (n_lineFeedCnt s) t, len + tree_sum (n_length s) t)"
proof (induction t arbitrary: p x lf len)
  case Lf
  then show ?case by (subst computeBufferMetadata_loop.simps) simp
next
  case (Nd l a r)
  then show ?case by (subst computeBufferMetadata_loop.simps) (auto simp: null_ref_def algebra_simps)
qed

lemma rb_order_shape:
  assumes "rb_order s ns"
  obtains t where "nodes t = ns" "shape (n_parent s) (n_left s) (n_right s) SENTINEL (rb_root s) t"
    "sums_ok (n_size_left s) (n_length s) t" "sums_ok (n_lf_left s) (n_lineFeedCnt s) t"
  using assms unfolding rb_order_def rb_ok_def coloured_def focused_def caches_ok_def by auto

lemma nodeAt_loop_ok:
  assumes "rb_order s ns" "ns \<noteq> []" "0 \<le> off" "off \<le> sum_list (map (n_length s) ns)"
  obtains xs a ys where "ns = xs @ a # ys" "0 \<le> off - sum_list (map (n_length s) xs)"
    "off - sum_list (map (n_length s) xs) \<le> n_length s a"
    "nodeAt_loop s (rb_root s) off 0 = Some (Some \<lparr>np_node = a, np_remainder = off - sum_list (map (n_length s) xs),
        np_nodeStartOffset = sum_list (map (n_length s) xs)\<rparr>)"
proof -
  obtain t where t: "nodes t = ns" "shape (n_parent s) (n_left s) (n_right s) SENTINEL (rb_root s) t"
    "sums_ok (n_size_left s) (n_length s) t" using rb_order_shape [OF assms(1)] by blast
  then show thesis using nodeAt_loop_shape [OF t(2,3), of off 0] assms that by (auto simp: tree_sum_def)
qed

lemma computeBufferMetadata_loop_ok:
  assumes "rb_order s ns"
  shows "computeBufferMetadata_loop s (rb_root s) 1 0 = Some (1 + sum_list (map (n_lineFeedCnt s) ns), sum_list (map (n_length s) ns))"
proof -
  obtain t where t: "nodes t = ns" "shape (n_parent s) (n_left s) (n_right s) SENTINEL (rb_root s) t"
    "sums_ok (n_size_left s) (n_length s) t" "sums_ok (n_lf_left s) (n_lineFeedCnt s) t" using rb_order_shape [OF assms] by blast
  then show ?thesis using computeBufferMetadata_loop_shape [OF t(2,3,4)] by (simp add: tree_sum_def)
qed

lemma gone_parent: "rb_gone s b \<Longrightarrow> n_parent s b = null_ref"
  by (simp add: rb_gone_def detached_def)

lemma in_order_parent:
  assumes "rb_order s ns" "b \<in> set ns"
  shows "n_parent s b \<noteq> null_ref" "\<not> rb_gone s b"
proof -
  show g: "\<not> rb_gone s b" using rbt.ord_nodes [OF assms(1)] assms(2) by blast
  have "b < rb_fresh s" using assms by (auto simp: rb_order_def rb_ok_def)
  moreover have "b \<noteq> SENTINEL" using assms(2) rbt.ord_nodes [OF assms(1)] by metis
  ultimately show "n_parent s b \<noteq> null_ref" using g by (auto simp: rb_gone_def detached_def)
qed

section \<open>Texts and pieces\<close>

lemma piece_holdsE:
  assumes "piece_holds bufs p c"
  obtains i a e where "range_ok bufs i a e" "p = piece_of_range bufs i a e" "c = substr (text_at bufs i) a e"
    "0 \<le> a" "a \<le> e" "e \<le> ilen (text_at bufs i)" "ilen c = e - a"
  using assms ilen_substr by (auto simp: piece_holds_def range_ok_def)

lemma piece_holds_length: "piece_holds bufs p c \<Longrightarrow> pc_length p = ilen c"
  by (erule piece_holdsE) simp

lemma piece_holds_eols: "piece_holds bufs p c \<Longrightarrow> c \<noteq> [] \<Longrightarrow> pc_lineFeedCnt p = eols c"
proof (erule piece_holdsE)
  fix i a e assume "c \<noteq> []" "p = piece_of_range bufs i a e" "c = substr (text_at bufs i) a e" "0 \<le> a" "a \<le> e" "e \<le> ilen (text_at bufs i)"
  then show "pc_lineFeedCnt p = eols c" by (cases "a = e") (simp_all add: eols_substr)
qed

lemma sum_lengths: "list_all2 (piece_holds bufs) ps cs \<Longrightarrow> sum_list (map pc_length ps) = ilen (concat cs)"
  by (induction rule: list_all2_induct) (simp_all add: piece_holds_length)

lemma joined_Cons: "joined (c # cs) \<Longrightarrow> [] \<notin> set (c # cs) \<Longrightarrow> \<not> splits_crlf c (concat cs) \<and> joined cs"
  by (cases cs) (auto simp: joined_def splits_crlf_def)

lemma eols_concat: "joined cs \<Longrightarrow> [] \<notin> set cs \<Longrightarrow> eols (concat cs) = sum_list (map eols cs)"
proof (induction cs)
  case (Cons c cs)
  then show ?case using joined_Cons [OF Cons.prems] by (simp add: eols_append)
qed simp

lemma sum_eols: "list_all2 (piece_holds bufs) ps cs \<Longrightarrow> [] \<notin> set cs \<Longrightarrow> sum_list (map pc_lineFeedCnt ps) = sum_list (map eols cs)"
  by (induction rule: list_all2_induct) (auto simp: piece_holds_eols)


section \<open>Steps on the tree\<close>

text \<open>What no operation on pieces changes.\<close>

definition same_settings :: "piece_tree \<Rightarrow> piece_tree \<Rightarrow> bool" where
  "same_settings s s' \<longleftrightarrow> pt_EOL s' = pt_EOL s \<and> pt_EOLLength s' = pt_EOLLength s \<and> pt_EOLNormalized s' = pt_EOLNormalized s \<and>
     pt_lastVisitedLine s' = pt_lastVisitedLine s"

lemma same_settings_simps [simp]:
  "same_settings s (s\<lparr>pt_tree := t\<rparr>)" "same_settings s (s\<lparr>pt_searchCache := c\<rparr>)" "same_settings s (s\<lparr>pt_buffers := b\<rparr>)"
  "same_settings s (s\<lparr>pt_lastChangeBufferPos := l\<rparr>)" "same_settings s s" "same_settings s (s\<lparr>pt_lineCnt := lc, pt_length := len\<rparr>)"
  by (simp_all add: same_settings_def)

lemma same_settings_trans: "same_settings s s' \<Longrightarrow> same_settings s' s'' \<Longrightarrow> same_settings s s''"
  by (simp add: same_settings_def)

lemma same_settings_check: "same_settings s s' \<Longrightarrow> shouldCheckCRLF s' = shouldCheckCRLF s"
  by (simp add: same_settings_def shouldCheckCRLF_def)

lemma shouldCheckCRLF_simps [simp]:
  "shouldCheckCRLF (s\<lparr>pt_tree := t\<rparr>) = shouldCheckCRLF s" "shouldCheckCRLF (s\<lparr>pt_searchCache := c\<rparr>) = shouldCheckCRLF s"
  "shouldCheckCRLF (s\<lparr>pt_buffers := b\<rparr>) = shouldCheckCRLF s" "shouldCheckCRLF (s\<lparr>pt_lastChangeBufferPos := l\<rparr>) = shouldCheckCRLF s"
  "shouldCheckCRLF (s\<lparr>pt_lineCnt := lc\<rparr>) = shouldCheckCRLF s" "shouldCheckCRLF (s\<lparr>pt_length := len\<rparr>) = shouldCheckCRLF s"
  by (simp_all add: shouldCheckCRLF_def)

lemma buffers_state_simps [simp]:
  "buffers_state (s\<lparr>pt_tree := t\<rparr>) = buffers_state s" "buffers_state (s\<lparr>pt_searchCache := c\<rparr>) = buffers_state s"
  "buffers_state (s\<lparr>pt_lineCnt := lc\<rparr>) = buffers_state s" "buffers_state (s\<lparr>pt_length := len\<rparr>) = buffers_state s"
  by (simp_all add: buffers_state_def)

lemma pieces_ok_cache [simp]: "pieces_ok (s\<lparr>pt_searchCache := c\<rparr>) ns cs = pieces_ok s ns cs"
  by (simp add: pieces_ok_def)

lemma pieces_ok_split:
  assumes "pieces_ok s (xs @ a # ys) cs"
  obtains us c vs where "cs = us @ c # vs" "length us = length xs" "length vs = length ys"
    "list_all2 (piece_holds (pt_buffers s)) (map (n_piece (pt_tree s)) xs) us"
    "piece_holds (pt_buffers s) (n_piece (pt_tree s) a) c"
    "list_all2 (piece_holds (pt_buffers s)) (map (n_piece (pt_tree s)) ys) vs"
  using assms that unfolding pieces_ok_def segs_ok_def by (auto simp: list_all2_append1 list_all2_Cons1 dest: list_all2_lengthD)

lemma pieces_ok_at:
  assumes "pieces_ok s (xs @ a # ys) (us @ c # vs)" "length us = length xs"
  shows "list_all2 (piece_holds (pt_buffers s)) (map (n_piece (pt_tree s)) xs) us"
    "piece_holds (pt_buffers s) (n_piece (pt_tree s) a) c"
    "list_all2 (piece_holds (pt_buffers s)) (map (n_piece (pt_tree s)) ys) vs" "length vs = length ys"
    "a \<notin> set xs" "a \<notin> set ys" "a \<noteq> SENTINEL"
proof -
  have "rb_order (pt_tree s) (xs @ a # ys)" using assms(1) by (simp add: pieces_ok_def)
  from rbt.ord_nodes [OF this] show "a \<notin> set xs" "a \<notin> set ys" "a \<noteq> SENTINEL" by auto
  show "list_all2 (piece_holds (pt_buffers s)) (map (n_piece (pt_tree s)) xs) us"
    "piece_holds (pt_buffers s) (n_piece (pt_tree s) a) c"
    "list_all2 (piece_holds (pt_buffers s)) (map (n_piece (pt_tree s)) ys) vs"
    using assms by (auto simp: pieces_ok_def segs_ok_def list_all2_append)
  then show "length vs = length ys" by (auto dest: list_all2_lengthD)
qed

lemma n_length_prefix:
  assumes "list_all2 (piece_holds bufs) (map (n_piece t) xs) us"
  shows "sum_list (map (n_length t) xs) = ilen (concat us)"
  using sum_lengths [OF assms] by (simp add: n_length_def [abs_def] o_def)

lemma n_lineFeedCnt_prefix:
  assumes "list_all2 (piece_holds bufs) (map (n_piece t) xs) us" "[] \<notin> set us"
  shows "sum_list (map (n_lineFeedCnt t) xs) = sum_list (map eols us)"
  using sum_eols [OF assms] by (simp add: n_lineFeedCnt_def [abs_def] o_def)

lemma pieces_okI:
  "pieces_ok s ns cs \<Longrightarrow> rb_order t ns' \<Longrightarrow> segs_ok (pt_buffers s) ps cs' \<Longrightarrow> map (n_piece t) ns' = ps \<Longrightarrow>
    pieces_ok (s\<lparr>pt_tree := t\<rparr>) ns' cs'"
  by (simp add: pieces_ok_def)

lemma replace_step:
  assumes ok: "pieces_ok s (xs @ a # ys) (us @ c # vs)" and len: "length us = length xs"
    and p: "piece_holds (pt_buffers s) p d" "at_end (pt_buffers s) p \<longrightarrow> at_end (pt_buffers s) (n_piece (pt_tree s) a)"
  obtains t where
    "replacePiece a p (pc_length p - pc_length (n_piece (pt_tree s) a)) (pc_lineFeedCnt p - pc_lineFeedCnt (n_piece (pt_tree s) a)) (pt_tree s) = Some t"
    "pieces_ok (s\<lparr>pt_tree := t\<rparr>) (xs @ a # ys) (us @ d # vs)"
    "n_piece t = (n_piece (pt_tree s))(a := p)" "rb_gone t = rb_gone (pt_tree s)"
proof -
  note at = pieces_ok_at [OF ok len]
  obtain t where t: "replacePiece a p (pc_length p - pc_length (n_piece (pt_tree s) a)) (pc_lineFeedCnt p - pc_lineFeedCnt (n_piece (pt_tree s) a)) (pt_tree s) = Some t"
    "rb_order t (xs @ a # ys)" "n_piece t = (n_piece (pt_tree s))(a := p)" "rb_gone t = rb_gone (pt_tree s)"
    using rbt.replace [of "pt_tree s" "xs @ a # ys" a p] ok by (auto simp: pieces_ok_def)
  have mp: "map (n_piece t) (xs @ a # ys) = map (n_piece (pt_tree s)) xs @ p # map (n_piece (pt_tree s)) ys"
    using t(3) at(5,6) by auto
  have sg: "segs_ok (pt_buffers s) (map (n_piece (pt_tree s)) xs @ p # map (n_piece (pt_tree s)) ys) (us @ d # vs)"
  proof -
    have "list_all2 (piece_holds (pt_buffers s)) (map (n_piece (pt_tree s)) xs @ p # map (n_piece (pt_tree s)) ys) (us @ d # vs)"
      using at p(1) by (intro list_all2_appendI) auto
    then show ?thesis using ok p(2) by (auto simp: pieces_ok_def segs_ok_def split: if_splits)
  qed
  have "pieces_ok (s\<lparr>pt_tree := t\<rparr>) (xs @ a # ys) (us @ d # vs)"
    using pieces_okI [OF ok t(2) sg mp] by simp
  then show thesis using that t by blast
qed

lemma insert_right_step:
  assumes ok: "pieces_ok s (xs @ a # ys) (us @ c # vs)" and len: "length us = length xs"
    and ps: "list_all2 (piece_holds (pt_buffers s)) ps ds"
      "length (filter (at_end (pt_buffers s)) (map (n_piece (pt_tree s)) (xs @ a # ys) @ ps)) \<le> 1"
  obtains zs t where "insert_chain rbInsertRight a ps (pt_tree s) = Some (last (a # zs), t)"
    "pieces_ok (s\<lparr>pt_tree := t\<rparr>) (xs @ a # zs @ ys) (us @ c # ds @ vs)" "map (n_piece t) zs = ps"
    "\<forall>n\<in>set (xs @ a # ys). n_piece t n = n_piece (pt_tree s) n" "\<forall>b. rb_gone (pt_tree s) b \<longrightarrow> rb_gone t b"
proof -
  note at = pieces_ok_at [OF ok len]
  obtain zs t where t: "insert_chain rbInsertRight a ps (pt_tree s) = Some (last (a # zs), t)" "rb_order t (xs @ a # zs @ ys)"
    "map (n_piece t) zs = ps" "\<forall>n\<in>set (xs @ a # ys). n_piece t n = n_piece (pt_tree s) n" "\<forall>b. rb_gone (pt_tree s) b \<longrightarrow> rb_gone t b"
    using rbt.insert_chain_right [of "pt_tree s" xs a ys ps] ok by (auto simp: pieces_ok_def)
  have mp: "map (n_piece t) (xs @ a # zs @ ys) = map (n_piece (pt_tree s)) (xs @ [a]) @ ps @ map (n_piece (pt_tree s)) ys"
    using t(3,4) by auto
  have sg: "segs_ok (pt_buffers s) (map (n_piece (pt_tree s)) (xs @ [a]) @ ps @ map (n_piece (pt_tree s)) ys) ((us @ [c]) @ ds @ vs)"
    using at ps by (auto simp: segs_ok_def intro!: list_all2_appendI)
  have "pieces_ok (s\<lparr>pt_tree := t\<rparr>) (xs @ a # zs @ ys) (us @ c # ds @ vs)"
    using pieces_okI [OF ok t(2) sg mp] by simp
  then show thesis using that t by blast
qed

lemma insert_left_step:
  assumes ok: "pieces_ok s (xs @ a # ys) (us @ c # vs)" and len: "length us = length xs"
    and ps: "list_all2 (piece_holds (pt_buffers s)) ps ds"
      "length (filter (at_end (pt_buffers s)) (map (n_piece (pt_tree s)) (xs @ a # ys) @ ps)) \<le> 1"
  obtains zs t where "insert_chain rbInsertLeft a (rev ps) (pt_tree s) = Some (hd (zs @ [a]), t)"
    "pieces_ok (s\<lparr>pt_tree := t\<rparr>) (xs @ zs @ a # ys) (us @ ds @ c # vs)" "map (n_piece t) zs = ps"
    "\<forall>n\<in>set (xs @ a # ys). n_piece t n = n_piece (pt_tree s) n" "\<forall>b. rb_gone (pt_tree s) b \<longrightarrow> rb_gone t b"
proof -
  note at = pieces_ok_at [OF ok len]
  obtain zs t where t: "insert_chain rbInsertLeft a (rev ps) (pt_tree s) = Some (hd (zs @ [a]), t)" "rb_order t (xs @ zs @ a # ys)"
    "map (n_piece t) zs = ps" "\<forall>n\<in>set (xs @ a # ys). n_piece t n = n_piece (pt_tree s) n" "\<forall>b. rb_gone (pt_tree s) b \<longrightarrow> rb_gone t b"
    using rbt.insert_chain_left [of "pt_tree s" xs a ys "rev ps"] ok by (auto simp: pieces_ok_def)
  have mp: "map (n_piece t) (xs @ zs @ a # ys) = map (n_piece (pt_tree s)) xs @ ps @ map (n_piece (pt_tree s)) (a # ys)"
    using t(3,4) by auto
  have sg: "segs_ok (pt_buffers s) (map (n_piece (pt_tree s)) xs @ ps @ map (n_piece (pt_tree s)) (a # ys)) (us @ ds @ c # vs)"
    using at ps by (auto simp: segs_ok_def intro!: list_all2_appendI)
  have "pieces_ok (s\<lparr>pt_tree := t\<rparr>) (xs @ zs @ a # ys) (us @ ds @ c # vs)"
    using pieces_okI [OF ok t(2) sg mp] by simp
  then show thesis using that t by blast
qed

lemma remove_step:
  assumes ok: "pieces_ok s (xs @ a # ys) (us @ c # vs)" and len: "length us = length xs"
  obtains t where "rbDelete a (pt_tree s) = Some t" "pieces_ok (s\<lparr>pt_tree := t\<rparr>) (xs @ ys) (us @ vs)"
    "n_piece t = n_piece (pt_tree s)" "rb_gone t a" "\<forall>b. rb_gone (pt_tree s) b \<longrightarrow> rb_gone t b"
proof -
  note at = pieces_ok_at [OF ok len]
  obtain t where t: "rbDelete a (pt_tree s) = Some t" "rb_order t (xs @ ys)" "n_piece t = n_piece (pt_tree s)" "rb_gone t a"
    "\<forall>b. rb_gone (pt_tree s) b \<longrightarrow> rb_gone t b"
    using rbt.remove [of "pt_tree s" xs a ys] ok by (auto simp: pieces_ok_def)
  have sg: "segs_ok (pt_buffers s) (map (n_piece (pt_tree s)) (xs @ ys)) (us @ vs)"
    using ok at by (auto simp: pieces_ok_def segs_ok_def intro!: list_all2_appendI split: if_splits)
  have "pieces_ok (s\<lparr>pt_tree := t\<rparr>) (xs @ ys) (us @ vs)"
    using pieces_okI [OF ok t(2) sg] t(3) by simp
  then show thesis using that t by blast
qed

lemma remove_list_step:
  "pieces_ok s (xs @ ms @ ys) (us @ ws @ vs) \<Longrightarrow> length us = length xs \<Longrightarrow> length ws = length ms \<Longrightarrow>
    \<exists>t. deleteNodes ms (pt_tree s) = Some t \<and> pieces_ok (s\<lparr>pt_tree := t\<rparr>) (xs @ ys) (us @ vs) \<and>
      n_piece t = n_piece (pt_tree s) \<and> (\<forall>m\<in>set ms. rb_gone t m) \<and> (\<forall>b. rb_gone (pt_tree s) b \<longrightarrow> rb_gone t b)"
proof (induction ms arbitrary: s ws)
  case (Cons m ms)
  then obtain w ws' where ws: "ws = w # ws'" "length ws' = length ms" by (cases ws) auto
  obtain t where t: "rbDelete m (pt_tree s) = Some t" "pieces_ok (s\<lparr>pt_tree := t\<rparr>) (xs @ ms @ ys) (us @ ws' @ vs)"
    "n_piece t = n_piece (pt_tree s)" "rb_gone t m" "\<forall>b. rb_gone (pt_tree s) b \<longrightarrow> rb_gone t b"
    using remove_step [of s xs m "ms @ ys" us w "ws' @ vs"] Cons.prems ws by auto
  then show ?case using Cons.IH [of "s\<lparr>pt_tree := t\<rparr>" ws'] Cons.prems(2) ws(2) by (auto simp: deleteNodes_def)
qed (auto simp: deleteNodes_def)

lemma find_in: "find P xs = Some x \<Longrightarrow> x \<in> set xs \<and> P x"
  by (induction xs) (auto split: if_splits)

section \<open>The node of an offset, and the totals\<close>

text \<open>All entries of the search cache are for this node.\<close>

definition cached :: "piece_tree \<Rightarrow> node_ref \<Rightarrow> bool" where
  "cached s a \<longleftrightarrow> list_all (\<lambda>e. ce_node e = a) (sc_cache (pt_searchCache s))"

lemma nodeAt_ok:
  assumes inv: "buffer_inv s ns cs" and "ns \<noteq> []" "0 \<le> off" "off \<le> ilen (concat cs)"
  obtains xs a ys us c vs C where "ns = xs @ a # ys" "cs = us @ c # vs" "length us = length xs"
    "0 \<le> off - ilen (concat us)" "off - ilen (concat us) \<le> ilen c"
    "nodeAt off s = Some (Some \<lparr>np_node = a, np_remainder = off - ilen (concat us), np_nodeStartOffset = ilen (concat us)\<rparr>,
       s\<lparr>pt_searchCache := C\<rparr>)"
    "buffer_inv (s\<lparr>pt_searchCache := C\<rparr>) ns cs" "cached (s\<lparr>pt_searchCache := C\<rparr>) a"
proof -
  let ?t = "pt_tree s"
  have ok: "pieces_ok s ns cs" and ce: "cache_ok s ns" using inv by (auto simp: buffer_inv_def)
  have o: "rb_order ?t ns" using ok by (simp add: pieces_ok_def)
  have total: "sum_list (map (n_length ?t) ns) = ilen (concat cs)"
    using n_length_prefix [of "pt_buffers s" ?t ns cs] ok by (auto simp: pieces_ok_def segs_ok_def)
  have lim: "sc_limit (pt_searchCache s) = 1" "length (sc_cache (pt_searchCache s)) \<le> 1" using ce by (auto simp: cache_ok_def)
  show thesis
  proof (cases "SearchCache_get ?t (pt_searchCache s) off")
    case None
    obtain xs a ys where a: "ns = xs @ a # ys" "0 \<le> off - sum_list (map (n_length ?t) xs)"
      "off - sum_list (map (n_length ?t) xs) \<le> n_length ?t a"
      "nodeAt_loop ?t (rb_root ?t) off 0 = Some (Some \<lparr>np_node = a, np_remainder = off - sum_list (map (n_length ?t) xs),
        np_nodeStartOffset = sum_list (map (n_length ?t) xs)\<rparr>)"
      using nodeAt_loop_ok [OF o assms(2,3)] assms(4) total by metis
    obtain us c vs where u: "cs = us @ c # vs" "length us = length xs"
      "list_all2 (piece_holds (pt_buffers s)) (map (n_piece ?t) xs) us" "piece_holds (pt_buffers s) (n_piece ?t a) c"
      using pieces_ok_split [of s xs a ys cs] ok a(1) by metis
    have l: "sum_list (map (n_length ?t) xs) = ilen (concat us)" "n_length ?t a = ilen c"
      using n_length_prefix [OF u(3)] piece_holds_length [OF u(4)] by (simp_all add: n_length_def)
    let ?e = "\<lparr>ce_node = a, ce_nodeStartOffset = ilen (concat us), ce_nodeStartLineNumber = None\<rparr>"
    let ?C = "SearchCache_set ?e (pt_searchCache s)"
    have C: "sc_cache ?C = [?e]" "sc_limit ?C = 1"
      using lim by (cases "sc_cache (pt_searchCache s)"; simp add: SearchCache_set_def)+
    have "\<not> rb_gone ?t a" using in_order_parent(2) [OF o] a(1) by simp
    then have "buffer_inv (s\<lparr>pt_searchCache := ?C\<rparr>) ns cs"
      using inv C a(1) l(1) by (auto simp: buffer_inv_def cache_ok_def entry_ok_def)
    then show thesis using that [of xs a ys us c vs ?C] a u l None C by (simp add: nodeAt_def cached_def)
  next
    case (Some e)
    then have e: "e \<in> set (sc_cache (pt_searchCache s))" "ce_nodeStartOffset e \<le> off" "off \<le> ce_nodeStartOffset e + n_length ?t (ce_node e)"
      using find_in [OF Some [unfolded SearchCache_get_def]] by auto
    then have sc: "sc_cache (pt_searchCache s) = [e]" using lim(2) by (cases "sc_cache (pt_searchCache s)") auto
    obtain xs ys where x: "ns = xs @ ce_node e # ys" "ce_nodeStartOffset e = sum_list (map (n_length ?t) xs)"
      using inv e(1) by (auto simp: buffer_inv_def cache_ok_def entry_ok_def list_all_iff)
    obtain us c vs where u: "cs = us @ c # vs" "length us = length xs"
      "list_all2 (piece_holds (pt_buffers s)) (map (n_piece ?t) xs) us" "piece_holds (pt_buffers s) (n_piece ?t (ce_node e)) c"
      using pieces_ok_split [of s xs "ce_node e" ys cs] ok x(1) by metis
    have l: "sum_list (map (n_length ?t) xs) = ilen (concat us)" "n_length ?t (ce_node e) = ilen c"
      using n_length_prefix [OF u(3)] piece_holds_length [OF u(4)] by (simp_all add: n_length_def)
    show thesis using that [of xs "ce_node e" ys us c vs "pt_searchCache s"] x u l e Some inv sc by (simp add: nodeAt_def cached_def)
  qed
qed

lemma computeBufferMetadata_ok:
  assumes ok: "pieces_ok s ns cs" and "[] \<notin> set cs" "joined cs" "cache_ok s ns" "pt_EOLLength s = ilen (pt_EOL s)"
  obtains s' where "computeBufferMetadata s = Some s'" "buffer_inv s' ns cs" "same_settings s s'" "pt_buffers s' = pt_buffers s"
proof -
  let ?t = "pt_tree s" and ?len = "ilen (concat cs)"
  let ?C = "SearchCache_validate ?t ?len (pt_searchCache s)"
  let ?s = "s\<lparr>pt_lineCnt := 1 + eols (concat cs), pt_length := ?len, pt_searchCache := ?C\<rparr>"
  have o: "rb_order ?t ns" and l: "list_all2 (piece_holds (pt_buffers s)) (map (n_piece ?t) ns) cs"
    using ok by (auto simp: pieces_ok_def segs_ok_def)
  have e: "computeBufferMetadata s = Some ?s"
    using computeBufferMetadata_loop_ok [OF o] n_length_prefix [OF l] n_lineFeedCnt_prefix [OF l assms(2)] eols_concat [OF assms(3,2)]
    by (simp add: computeBufferMetadata_def)
  have sub: "set (sc_cache ?C) \<subseteq> set (sc_cache (pt_searchCache s))" by (auto simp: SearchCache_validate_def)
  have en: "entry_ok ?s ns x = entry_ok s ns x" for x by (simp add: entry_ok_def)
  have "length (sc_cache ?C) \<le> 1" using assms(4) length_filter_le [of _ "sc_cache (pt_searchCache s)"]
    by (simp add: cache_ok_def SearchCache_validate_def le_trans [OF length_filter_le])
  then have "cache_ok ?s ns" using assms(4) sub by (auto simp: cache_ok_def list_all_iff en) (simp add: SearchCache_validate_def)
  moreover have "list_all (\<lambda>e. \<not> rb_gone ?t (ce_node e)) (sc_cache ?C)"
    by (auto simp: SearchCache_validate_def list_all_iff dest: gone_parent)
  moreover have "pieces_ok ?s ns cs" using ok by (simp add: pieces_ok_def)
  ultimately have "buffer_inv ?s ns cs" using assms by (simp add: buffer_inv_def)
  then show thesis using that [OF e] by (simp add: same_settings_def)
qed


section \<open>Growing buffers\<close>

definition grows :: "string_buffer list \<Rightarrow> string_buffer list \<Rightarrow> bool" where
  "grows bufs bufs' \<longleftrightarrow> bufs \<noteq> [] \<and> buffers_ok bufs' \<and> ilen bufs \<le> ilen bufs' \<and>
     (\<exists>ys. text_at bufs' 0 = text_at bufs 0 @ ys \<and> \<not> splits_crlf (text_at bufs 0) ys) \<and>
     (\<forall>i. 0 < i \<and> i < ilen bufs \<longrightarrow> text_at bufs' i = text_at bufs i)"

text \<open>Buffers keep what they hold, although a \<open>\n\<close> may follow a \<open>\r\<close> at the end of the change buffer.\<close>

definition kept :: "string_buffer list \<Rightarrow> string_buffer list \<Rightarrow> bool" where
  "kept bufs bufs' \<longleftrightarrow> ilen bufs \<le> ilen bufs' \<and> (\<exists>ys. text_at bufs' 0 = text_at bufs 0 @ ys) \<and>
     (\<forall>i. 0 < i \<and> i < ilen bufs \<longrightarrow> text_at bufs' i = text_at bufs i)"

lemma kept_refl [simp]: "kept bufs bufs"
  by (simp add: kept_def)

lemma kept_trans: "kept a b \<Longrightarrow> kept b c \<Longrightarrow> kept a c"
  unfolding kept_def by force

lemma grows_kept: "grows bufs bufs' \<Longrightarrow> kept bufs bufs'"
  by (auto simp: grows_def kept_def)

lemma kept_grows:
  assumes "kept bufs bufs'" "bufs \<noteq> []" "buffers_ok bufs'" "text_at bufs 0 = [] \<or> last (text_at bufs 0) \<noteq> CR"
  shows "grows bufs bufs'"
  using assms by (auto simp: grows_def kept_def splits_crlf_def)

lemma grows_text:
  assumes "grows bufs bufs'" "0 \<le> i" "i < ilen bufs"
  obtains ys where "text_at bufs' i = text_at bufs i @ ys" "\<not> splits_crlf (text_at bufs i) ys"
proof (cases "i = 0")
  case False
  then have "text_at bufs' i = text_at bufs i @ []" using assms by (simp add: grows_def)
  then show thesis using that splits_crlf_Nil(2) by blast
qed (use assms that in \<open>auto simp: grows_def\<close>)

lemma substr_append: "0 \<le> a \<Longrightarrow> a \<le> e \<Longrightarrow> e \<le> ilen xs \<Longrightarrow> substr (xs @ ys) a e = substr xs a e"
  by (simp add: substr_def idrop_append itake_append)

lemma cursor_of_inj: "cursor_of s a = cursor_of s b \<Longrightarrow> a = b"
  by (simp add: cursor_of_def) (elim conjE, simp)

lemma grows_range:
  assumes "grows bufs bufs'" "range_ok bufs i a e"
  shows "range_ok bufs' i a e" "piece_of_range bufs' i a e = piece_of_range bufs i a e"
    "substr (text_at bufs' i) a e = substr (text_at bufs i) a e"
proof -
  have r: "0 \<le> i" "i < ilen bufs" "0 \<le> a" "a \<le> e" "e \<le> ilen (text_at bufs i)" using assms(2) by (auto simp: range_ok_def)
  obtain ys where ys: "text_at bufs' i = text_at bufs i @ ys" "\<not> splits_crlf (text_at bufs i) ys"
    using grows_text [OF assms(1) r(1,2)] by metis
  show "range_ok bufs' i a e" using assms r ys by (auto simp: range_ok_def grows_def)
  show "piece_of_range bufs' i a e = piece_of_range bufs i a e" using piece_of_range_append [OF ys(1) r(3-5)] ys(2) by simp
  show "substr (text_at bufs' i) a e = substr (text_at bufs i) a e" using ys(1) r by (simp add: substr_append)
qed

lemma grows_piece: "grows bufs bufs' \<Longrightarrow> piece_holds bufs p c \<Longrightarrow> piece_holds bufs' p c"
  unfolding piece_holds_def using grows_range by metis

lemma at_end_range: "at_end bufs (piece_of_range bufs i a e) \<longleftrightarrow> i = 0 \<and> e = ilen (text_at bufs 0)"
  by (auto simp: at_end_def dest: cursor_of_inj)

lemma grows_at_end:
  assumes "grows bufs bufs'" "piece_holds bufs p c" "at_end bufs' p"
  shows "at_end bufs p" "text_at bufs' 0 = text_at bufs 0"
proof -
  obtain i a e where r: "range_ok bufs i a e" "p = piece_of_range bufs i a e" "e \<le> ilen (text_at bufs i)"
    using assms(2) by (rule piece_holdsE)
  then have "i = 0" "e = ilen (text_at bufs' 0)"
    using assms(3) grows_range(2) [OF assms(1) r(1)] at_end_range [of bufs' i a e] by auto
  moreover obtain ys where "text_at bufs' 0 = text_at bufs 0 @ ys" using assms(1) by (auto simp: grows_def)
  ultimately show "text_at bufs' 0 = text_at bufs 0" "at_end bufs p" using r(2,3) by (auto simp: at_end_range)
qed

lemma grows_pieces: "grows bufs bufs' \<Longrightarrow> list_all2 (piece_holds bufs) ps cs \<Longrightarrow> list_all2 (piece_holds bufs') ps cs"
  using list_all2_mono [of "piece_holds bufs" ps cs "piece_holds bufs'"] grows_piece by blast

lemma grows_count:
  assumes "grows bufs bufs'" "list_all2 (piece_holds bufs) ps cs"
  shows "length (filter (at_end bufs') ps) \<le> (if text_at bufs' 0 = text_at bufs 0 then length (filter (at_end bufs) ps) else 0)"
  using assms(2)
proof (induction rule: list_all2_induct)
  case (Cons p ps c cs)
  then show ?case using grows_at_end [OF assms(1) Cons(1)] by (auto split: if_splits)
qed simp

lemma grows_segs: "grows bufs bufs' \<Longrightarrow> segs_ok bufs ps cs \<Longrightarrow> segs_ok bufs' ps cs"
  unfolding segs_ok_def using grows_pieces grows_count [of bufs bufs' ps cs] by (auto split: if_splits)

section \<open>Making a tree\<close>

lemma last_line_start: "line_starts s ! nat (eols s) = last (line_starts s)"
proof -
  have "length (line_starts s) = Suc (nat (eols s))" using length_line_starts [of s] eols_nonneg [of s] by linarith
  moreover have "line_starts s \<noteq> []" by (simp add: line_starts_def)
  ultimately show ?thesis by (simp add: last_conv_nth)
qed

lemma cursor_of_end: "cursor_of s (ilen s) = MkBufferCursor (eols s) (ilen s - last (line_starts s))"
  by (simp add: cursor_of_def last_line_start)

lemma cursor_of_start: "cursor_of s 0 = MkBufferCursor 0 0"
  by (simp add: cursor_of_def line_starts_def)

text \<open>A piece for all of a buffer.\<close>

lemma chunk_piece_ok:
  assumes "buffers_ok bufs" "k < length bufs" "bufs ! k = b" "0 < length (sb_buffer b)"
  shows "piece_holds bufs (chunk_piece (int k) b) (sb_buffer b)"
    "chunk_piece (int k) b = piece_of_range bufs (int k) 0 (ilen (sb_buffer b))"
proof -
  have b: "buffer_ok b" "text_at bufs (int k) = sb_buffer b" using assms by (auto simp: list_all_length text_at_def)
  then show e: "chunk_piece (int k) b = piece_of_range bufs (int k) 0 (ilen (sb_buffer b))"
    by (simp add: chunk_piece_def Let_def piece_of_range_def cursor_of_start cursor_of_end buffer_ok_def line_feeds_def)
  have "range_ok bufs (int k) 0 (ilen (sb_buffer b))" using assms b by (simp add: range_ok_def)
  then show "piece_holds bufs (chunk_piece (int k) b) (sb_buffer b)"
    unfolding piece_holds_def using e b(2)
    by (intro exI [of _ "int k"] exI [of _ 0] exI [of _ "ilen (sb_buffer b)"]) simp
qed

lemma buffers_grow:
  assumes "buffers_ok bufs" "bufs \<noteq> []" "list_all buffer_ok new"
  shows "grows bufs (bufs @ new)"
proof -
  have t: "text_at (bufs @ new) i = text_at bufs i" if "0 \<le> i" "i < ilen bufs" for i
    using that by (simp add: text_at_def nth_append nat_less_iff)
  have "text_at (bufs @ new) 0 = text_at bufs 0 @ [] \<and> \<not> splits_crlf (text_at bufs 0) []"
    using t [of 0] assms(2) by simp
  then show ?thesis using assms t unfolding grows_def by (intro conjI exI [of _ "[]"]) auto
qed

lemma create_loop_ok:
  "list_all buffer_ok chunks \<Longrightarrow> (\<forall>b\<in>set chunks. sb_buffer b \<noteq> []) \<Longrightarrow> buffers_ok bufs \<Longrightarrow> ilen bufs = i + 1 \<and> bufs \<noteq> [] \<Longrightarrow>
    rb_order t ns \<Longrightarrow> (ns \<noteq> [] \<Longrightarrow> lastNode = last ns) \<Longrightarrow> list_all2 (piece_holds bufs) (map (n_piece t) ns) cs \<Longrightarrow>
    filter (at_end bufs) (map (n_piece t) ns) = [] \<Longrightarrow>
    \<exists>t' ns'. create_loop chunks i lastNode bufs t = Some (bufs @ chunks, t') \<and> rb_order t' ns' \<and>
      list_all2 (piece_holds (bufs @ chunks)) (map (n_piece t') ns') (cs @ map sb_buffer chunks) \<and>
      filter (at_end (bufs @ chunks)) (map (n_piece t') ns') = []"
proof (induction chunks arbitrary: i lastNode bufs t ns cs)
  case (Cons b chunks)
  let ?bufs = "bufs @ [b]" and ?p = "chunk_piece (i + 1) b"
  have "bufs \<noteq> []" using Cons.prems(4) by simp
  have g: "grows bufs ?bufs" "buffers_ok ?bufs" using buffers_grow [of bufs "[b]"] Cons.prems \<open>bufs \<noteq> []\<close> by auto
  have p: "piece_holds ?bufs ?p (sb_buffer b)" "?p = piece_of_range ?bufs (i + 1) 0 (ilen (sb_buffer b))"
    using chunk_piece_ok [OF g(2), of "length bufs" b] Cons.prems(2,4) by auto
  have "i + 1 \<noteq> 0" using Cons.prems(4) by auto
  then have "\<not> at_end ?bufs ?p" by (simp add: p(2) at_end_range)
  obtain z t1 where z: "rbInsertRight lastNode ?p t = Some (z, t1)" "rb_order t1 (ns @ [z])"
    "map (n_piece t1) (ns @ [z]) = map (n_piece t) ns @ [?p]"
  proof (cases "ns = []")
    case True
    then show thesis using rbt.insert_empty [of t lastNode ?p] Cons.prems(5) that by auto
  next
    case False
    then obtain ms where ms: "ns = ms @ [lastNode]" using Cons.prems(6) by (metis append_butlast_last_id)
    have "rb_order t (ms @ [lastNode])" using Cons.prems(5) ms by simp
    from rbt.insert_right_pieces [OF this, of ?p] obtain z s1 where "rbInsertRight lastNode ?p t = Some (z, s1)"
      "rb_order s1 (ms @ [lastNode, z])" "map (n_piece s1) (ms @ [lastNode, z]) = map (n_piece t) (ms @ [lastNode]) @ [?p]" by auto
    then show thesis using ms by (intro that [of z s1]) simp_all
  qed
  have "list_all2 (piece_holds ?bufs) (map (n_piece t1) (ns @ [z])) (cs @ [sb_buffer b])"
    unfolding z(3) using grows_pieces [OF g(1) Cons.prems(7)] p(1) by (intro list_all2_appendI) auto
  moreover have "filter (at_end ?bufs) (map (n_piece t1) (ns @ [z])) = []"
  proof -
    have "filter (at_end ?bufs) (map (n_piece t) ns) = []"
      using grows_count [OF g(1) Cons.prems(7)] by (simp only: Cons.prems(8) list.size if_cancel le_zero_eq length_0_conv)
    then show ?thesis unfolding z(3) filter_append using \<open>\<not> at_end ?bufs ?p\<close> by simp
  qed
  ultimately show ?case
    using Cons.IH [of ?bufs "i + 1" t1 "ns @ [z]" z "cs @ [sb_buffer b]"] Cons.prems(1,2,4) g(2) z(1,2) by auto
qed auto

lemma rb_order_set_root:
  assumes "rb_order t ns"
  shows "rb_order (set_root SENTINEL t) []"
  using assms unfolding rb_order_def rb_ok_def coloured_def
  by (auto simp: focused_def caches_ok_def set_root_def intro!: exI [of _ Lf])

lemma PieceTree_create_ok:
  assumes "list_all buffer_ok chunks" "\<forall>b\<in>set chunks. sb_buffer b \<noteq> []" "joined (map sb_buffer chunks)" "rb_order t0 ns0"
    and "eolNormalized \<and> eol = [LF] \<longrightarrow> (\<forall>b\<in>set chunks. no_cr (sb_buffer b))"
  obtains s ns where "PieceTree_create chunks eol eolNormalized t0 = Some s" "buffer_inv s ns (map sb_buffer chunks)"
    "pt_EOL s = eol" "pt_EOLNormalized s = eolNormalized" "pt_buffers s = StringBuffer_new [] [0] # chunks"
    "pt_lastVisitedLine s = (0, [])"
proof -
  let ?b0 = "[StringBuffer_new [] [0]]" let ?bufs = "StringBuffer_new [] [0] # chunks"
  have b0: "buffers_ok ?b0" by (simp add: buffer_ok_def StringBuffer_new_def line_starts_def max_string_length_def)
  obtain t ns where t: "create_loop chunks 0 null_ref ?b0 (set_root SENTINEL t0) = Some (?bufs, t)" "rb_order t ns"
    "list_all2 (piece_holds ?bufs) (map (n_piece t) ns) (map sb_buffer chunks)" "filter (at_end ?bufs) (map (n_piece t) ns) = []"
    using create_loop_ok [OF assms(1,2) b0, of 0 "set_root SENTINEL t0" "[]" null_ref "[]"] rb_order_set_root [OF assms(4)] by auto
  let ?s = "\<lparr>pt_tree = t, pt_buffers = ?bufs, pt_lineCnt = 1, pt_length = 0, pt_EOL = eol, pt_EOLLength = ilen eol,
        pt_EOLNormalized = eolNormalized, pt_lastChangeBufferPos = MkBufferCursor 0 0,
        pt_searchCache = SearchCache_new 1, pt_lastVisitedLine = (0, [])\<rparr>"
  have "text_at ?bufs 0 = []" by (simp add: text_at_def StringBuffer_new_def)
  then have "buffers_state ?s" using b0 assms(1,5)
    by (auto simp: buffers_state_def cursor_of_start shouldCheckCRLF_def no_cr_def StringBuffer_new_def)
  then have "pieces_ok ?s ns (map sb_buffer chunks)" using t by (simp add: pieces_ok_def segs_ok_def)
  then obtain s' where "computeBufferMetadata ?s = Some s'" "buffer_inv s' ns (map sb_buffer chunks)" "same_settings ?s s'"
    "pt_buffers s' = ?bufs"
    by (rule computeBufferMetadata_ok) (use assms(2,3) in \<open>auto simp: cache_ok_def SearchCache_new_def\<close>)
  then show thesis using that t(1) by (simp add: PieceTree_create_def same_settings_def)
qed

end
