(* ===== verification/PieceTreeEdits.thy ===== *)
theory PieceTreeEdits
  imports PieceTreeStates
begin

text \<open>
  The edits of \<open>PieceTreeBase\<close> (\<open>vs/editor/common/model/pieceTreeTextBuffer/pieceTreeBase.ts\<close>):
  \<open>insert\<close> and \<open>delete\<close> with their helpers, which append new text to the change buffer, split and
  shorten pieces, and keep every \<open>\r\n\<close> of the text within one piece. The theorems say that both
  edit the text as a string and keep the invariant.
\<close>

section \<open>New pieces\<close>

definition AverageBufferSize :: int where "AverageBufferSize = 65535"

definition keep_back :: "code_unit \<Rightarrow> bool" where
  "keep_back lastChar \<longleftrightarrow> lastChar = CR \<or> 0xD800 \<le> lastChar \<and> lastChar \<le> 0xDBFF"

definition split_length :: "js_string \<Rightarrow> int" where
  "split_length text = (if keep_back (text ! nat (AverageBufferSize - 1)) then AverageBufferSize - 1 else AverageBufferSize)"

lemma split_length_bounds: "0 < split_length text" "split_length text \<le> AverageBufferSize"
  by (simp_all add: split_length_def AverageBufferSize_def)

lemma split_rest_less: "ilen text > AverageBufferSize \<Longrightarrow> length (js_substring_from text (split_length text)) < length text"
  using split_length_bounds [of "text"] by (simp add: idrop_def)

text \<open>The loop over a long text; each part gets a buffer of its own.\<close>

function createNewPieces_loop :: "js_string \<Rightarrow> string_buffer list \<Rightarrow> piece list \<Rightarrow> js_string \<times> string_buffer list \<times> piece list" where
  "createNewPieces_loop text bufs newPieces =
     (if ilen text > AverageBufferSize then
        let splitText = js_substring text 0 (split_length text);
            rest = js_substring_from text (split_length text);
            b = StringBuffer_new splitText (createLineStartsFast splitText True)
        in createNewPieces_loop rest (bufs @ [b]) (newPieces @ [chunk_piece (ilen bufs) b])
      else (text, bufs, newPieces))"
  by pat_completeness auto

termination
  by (relation "measure (\<lambda>(text, _). length text)") (simp_all add: split_rest_less)

declare createNewPieces_loop.simps [simp del]

definition createNewPieces :: "js_string \<Rightarrow> piece_tree \<Rightarrow> (piece list \<times> piece_tree) option" where
  "createNewPieces text s =
     (if ilen text > AverageBufferSize then
        let (text, bufs, newPieces) = createNewPieces_loop text (pt_buffers s) [];
            b = StringBuffer_new text (createLineStartsFast text True)
        in Some (newPieces @ [chunk_piece (ilen bufs) b], s\<lparr>pt_buffers := bufs @ [b]\<rparr>)
      else do {
        b0 \<leftarrow> js_get (pt_buffers s) 0;
        let startOffset = ilen (sb_buffer b0);
        let lineStarts = createLineStartsFast text False;
        let start = pt_lastChangeBufferPos s;
        l \<leftarrow> js_get (sb_lineStarts b0) (ilen (sb_lineStarts b0) - 1);
        let gap = l = startOffset \<and> startOffset \<noteq> 0 \<and> string_startWithLF text \<and> string_endWithCR (sb_buffer b0);
        let start = (if gap then MkBufferCursor (bc_line start) (bc_column start + 1) else start);
        let lineStarts = map (\<lambda>x. x + (if gap then startOffset + 1 else startOffset)) lineStarts;
        let b = StringBuffer_new (sb_buffer b0 @ (if gap then [95] else []) @ text) (sb_lineStarts b0 @ tl lineStarts);
        let startOffset = (if gap then startOffset + 1 else startOffset);
        let bufs = (pt_buffers s)[0 := b];
        let endOffset = ilen (sb_buffer b);
        let endIndex = ilen (sb_lineStarts b) - 1;
        m \<leftarrow> js_get (sb_lineStarts b) endIndex;
        let endPos = MkBufferCursor endIndex (endOffset - m);
        lf \<leftarrow> getLineFeedCnt bufs 0 start endPos;
        Some ([MkPiece 0 start endPos lf (endOffset - startOffset)],
              s\<lparr>pt_buffers := bufs, pt_lastChangeBufferPos := endPos\<rparr>)
      })"

section \<open>Changing a node\<close>

definition deleteNodeTail :: "node_ref \<Rightarrow> buffer_cursor \<Rightarrow> piece_tree \<Rightarrow> piece_tree option" where
  "deleteNodeTail node pos s = do {
     let p = n_piece (pt_tree s) node;
     originalEndOffset \<leftarrow> offsetInBuffer (pt_buffers s) (pc_bufferIndex p) (pc_end p);
     newEndOffset \<leftarrow> offsetInBuffer (pt_buffers s) (pc_bufferIndex p) pos;
     newLineFeedCnt \<leftarrow> getLineFeedCnt (pt_buffers s) (pc_bufferIndex p) (pc_start p) pos;
     let lf_delta = newLineFeedCnt - pc_lineFeedCnt p;
     let size_delta = newEndOffset - originalEndOffset;
     t \<leftarrow> replacePiece node (MkPiece (pc_bufferIndex p) (pc_start p) pos newLineFeedCnt (pc_length p + size_delta))
       size_delta lf_delta (pt_tree s);
     Some (s\<lparr>pt_tree := t\<rparr>)
   }"

definition deleteNodeHead :: "node_ref \<Rightarrow> buffer_cursor \<Rightarrow> piece_tree \<Rightarrow> piece_tree option" where
  "deleteNodeHead node pos s = do {
     let p = n_piece (pt_tree s) node;
     originalStartOffset \<leftarrow> offsetInBuffer (pt_buffers s) (pc_bufferIndex p) (pc_start p);
     newLineFeedCnt \<leftarrow> getLineFeedCnt (pt_buffers s) (pc_bufferIndex p) pos (pc_end p);
     newStartOffset \<leftarrow> offsetInBuffer (pt_buffers s) (pc_bufferIndex p) pos;
     let lf_delta = newLineFeedCnt - pc_lineFeedCnt p;
     let size_delta = originalStartOffset - newStartOffset;
     t \<leftarrow> replacePiece node (MkPiece (pc_bufferIndex p) pos (pc_end p) newLineFeedCnt (pc_length p + size_delta))
       size_delta lf_delta (pt_tree s);
     Some (s\<lparr>pt_tree := t\<rparr>)
   }"

text \<open>The part of a piece behind its leading \<open>\n\<close>, which ends a line of its buffer.\<close>

definition pieceWithoutLF :: "string_buffer list \<Rightarrow> piece \<Rightarrow> piece option" where
  "pieceWithoutLF bufs p = do {
     let newStart = MkBufferCursor (bc_line (pc_start p) + 1) 0;
     lf \<leftarrow> getLineFeedCnt bufs (pc_bufferIndex p) newStart (pc_end p);
     Some (MkPiece (pc_bufferIndex p) newStart (pc_end p) lf (pc_length p - 1))
   }"

section \<open>Line breaks across pieces\<close>

definition fixCRLF :: "node_ref \<Rightarrow> node_ref \<Rightarrow> piece_tree \<Rightarrow> piece_tree option" where
  "fixCRLF prev nxt s = do {
     let p = n_piece (pt_tree s) prev;
     b \<leftarrow> js_get (pt_buffers s) (pc_bufferIndex p);
     let lineStarts = sb_lineStarts b;
     newEnd \<leftarrow> (if bc_column (pc_end p) = 0 then do {
         l1 \<leftarrow> js_get lineStarts (bc_line (pc_end p));
         l0 \<leftarrow> js_get lineStarts (bc_line (pc_end p) - 1);
         Some (MkBufferCursor (bc_line (pc_end p) - 1) (l1 - l0 - 1))
       } else Some (MkBufferCursor (bc_line (pc_end p)) (bc_column (pc_end p) - 1)));
     t \<leftarrow> replacePiece prev (MkPiece (pc_bufferIndex p) (pc_start p) newEnd (pc_lineFeedCnt p - 1) (pc_length p - 1)) (-1) (-1) (pt_tree s);
     let s = s\<lparr>pt_tree := t\<rparr>;
     let nodesToDel = (if n_length (pt_tree s) prev = 0 then [prev] else []);
     q \<leftarrow> pieceWithoutLF (pt_buffers s) (n_piece (pt_tree s) nxt);
     t \<leftarrow> replacePiece nxt q (-1) (-1) (pt_tree s);
     let s = s\<lparr>pt_tree := t\<rparr>;
     let nodesToDel = nodesToDel @ (if n_length (pt_tree s) nxt = 0 then [nxt] else []);
     (pieces, s) \<leftarrow> createNewPieces [CR, LF] s;
     (_, t) \<leftarrow> rbInsertRight prev (hd pieces) (pt_tree s);
     t \<leftarrow> deleteNodes nodesToDel t;
     Some (s\<lparr>pt_tree := t\<rparr>)
   }"

definition validateCRLFWithPrevNode :: "node_ref \<Rightarrow> piece_tree \<Rightarrow> piece_tree option" where
  "validateCRLFWithPrevNode nextNode s = do {
     lf \<leftarrow> (if shouldCheckCRLF s then startWithLF s nextNode else Some False);
     (if lf then do {
        node \<leftarrow> TreeNode_prev (pt_tree s) nextNode;
        cr \<leftarrow> endWithCR s node;
        (if cr then fixCRLF node nextNode s else Some s)
      } else Some s)
   }"

definition validateCRLFWithNextNode :: "node_ref \<Rightarrow> piece_tree \<Rightarrow> piece_tree option" where
  "validateCRLFWithNextNode node s = do {
     cr \<leftarrow> (if shouldCheckCRLF s then endWithCR s node else Some False);
     (if cr then do {
        nextNode \<leftarrow> TreeNode_next (pt_tree s) node;
        lf \<leftarrow> startWithLF s nextNode;
        (if lf then fixCRLF node nextNode s else Some s)
      } else Some s)
   }"

definition adjustCarriageReturnFromNext :: "js_string \<Rightarrow> node_ref \<Rightarrow> piece_tree \<Rightarrow> (bool \<times> piece_tree) option" where
  "adjustCarriageReturnFromNext val node s =
     (if shouldCheckCRLF s \<and> string_endWithCR val then do {
        nextNode \<leftarrow> TreeNode_next (pt_tree s) node;
        lf \<leftarrow> startWithLF s nextNode;
        (if lf then
           if n_length (pt_tree s) nextNode = 1 then do {
             t \<leftarrow> rbDelete nextNode (pt_tree s);
             Some (True, s\<lparr>pt_tree := t\<rparr>)
           } else do {
             q \<leftarrow> pieceWithoutLF (pt_buffers s) (n_piece (pt_tree s) nextNode);
             t \<leftarrow> replacePiece nextNode q (-1) (-1) (pt_tree s);
             Some (True, s\<lparr>pt_tree := t\<rparr>)
           }
         else Some (False, s))
      } else Some (False, s))"

section \<open>Insertion\<close>

definition appendToNode :: "node_ref \<Rightarrow> js_string \<Rightarrow> piece_tree \<Rightarrow> piece_tree option" where
  "appendToNode node val s = do {
     (adjusted, s) \<leftarrow> adjustCarriageReturnFromNext val node s;
     let val = (if adjusted then val @ [LF] else val);
     cr \<leftarrow> (if shouldCheckCRLF s \<and> string_startWithLF val then endWithCR s node else Some False);
     let hitCRLF = cr;
     b0 \<leftarrow> js_get (pt_buffers s) 0;
     let startOffset = ilen (sb_buffer b0);
     let lineStarts = map (\<lambda>x. x + startOffset) (createLineStartsFast val False);
     let old = (if hitCRLF then butlast (sb_lineStarts b0) else sb_lineStarts b0);
     let b = StringBuffer_new (sb_buffer b0 @ val) (old @ tl lineStarts);
     let bufs = (pt_buffers s)[0 := b];
     let endIndex = ilen (sb_lineStarts b) - 1;
     m \<leftarrow> js_get (sb_lineStarts b) endIndex;
     let newEnd = MkBufferCursor endIndex (ilen (sb_buffer b) - m);
     let p = n_piece (pt_tree s) node;
     newLineFeedCnt \<leftarrow> getLineFeedCnt bufs 0 (pc_start p) newEnd;
     let lf_delta = newLineFeedCnt - pc_lineFeedCnt p;
     t \<leftarrow> replacePiece node (MkPiece (pc_bufferIndex p) (pc_start p) newEnd newLineFeedCnt (pc_length p + ilen val))
       (ilen val) lf_delta (pt_tree s);
     Some (s\<lparr>pt_buffers := bufs, pt_lastChangeBufferPos := newEnd, pt_tree := t\<rparr>)
   }"

definition insertContentToNodeLeft :: "js_string \<Rightarrow> node_ref \<Rightarrow> piece_tree \<Rightarrow> piece_tree option" where
  "insertContentToNodeLeft val node s = do {
     lf \<leftarrow> (if shouldCheckCRLF s \<and> string_endWithCR val then startWithLF s node else Some False);
     (val, nodesToDel, s) \<leftarrow>
       (if lf then do {
          q \<leftarrow> pieceWithoutLF (pt_buffers s) (n_piece (pt_tree s) node);
          t \<leftarrow> replacePiece node q (-1) (-1) (pt_tree s);
          let s = s\<lparr>pt_tree := t\<rparr>;
          Some (val @ [LF], if n_length (pt_tree s) node = 0 then [node] else [], s)
        } else Some (val, [], s));
     (newPieces, s) \<leftarrow> createNewPieces val s;
     (newNode, t) \<leftarrow> insert_chain rbInsertLeft node (rev newPieces) (pt_tree s);
     s \<leftarrow> validateCRLFWithPrevNode newNode (s\<lparr>pt_tree := t\<rparr>);
     t \<leftarrow> deleteNodes nodesToDel (pt_tree s);
     Some (s\<lparr>pt_tree := t\<rparr>)
   }"

definition insertContentToNodeRight :: "js_string \<Rightarrow> node_ref \<Rightarrow> piece_tree \<Rightarrow> piece_tree option" where
  "insertContentToNodeRight val node s = do {
     (adjusted, s) \<leftarrow> adjustCarriageReturnFromNext val node s;
     let val = (if adjusted then val @ [LF] else val);
     (newPieces, s) \<leftarrow> createNewPieces val s;
     (newNode, t) \<leftarrow> rbInsertRight node (hd newPieces) (pt_tree s);
     (_, t) \<leftarrow> insert_chain rbInsertRight newNode (tl newPieces) t;
     validateCRLFWithPrevNode newNode (s\<lparr>pt_tree := t\<rparr>)
   }"

text \<open>The case of \<open>insert\<close> within a node.\<close>

definition insertInMiddle :: "js_string \<Rightarrow> node_ref \<Rightarrow> int \<Rightarrow> buffer_cursor \<Rightarrow> piece_tree \<Rightarrow> piece_tree option" where
  "insertInMiddle val node remainder insertPosInBuffer s = do {
     let p = n_piece (pt_tree s) node;
     rightLF \<leftarrow> getLineFeedCnt (pt_buffers s) (pc_bufferIndex p) insertPosInBuffer (pc_end p);
     endOffset \<leftarrow> offsetInBuffer (pt_buffers s) (pc_bufferIndex p) (pc_end p);
     posOffset \<leftarrow> offsetInBuffer (pt_buffers s) (pc_bufferIndex p) insertPosInBuffer;
     let newRightPiece = MkPiece (pc_bufferIndex p) insertPosInBuffer (pc_end p) rightLF (endOffset - posOffset);
     headOfRight \<leftarrow> (if shouldCheckCRLF s \<and> string_endWithCR val then nodeCharCodeAt (pt_buffers s) p remainder else Some None);
     (newRightPiece, val) \<leftarrow>
       (if headOfRight = Some LF then do { q \<leftarrow> pieceWithoutLF (pt_buffers s) newRightPiece; Some (q, val @ [LF]) }
        else Some (newRightPiece, val));
     tailOfLeft \<leftarrow> (if shouldCheckCRLF s \<and> string_startWithLF val then nodeCharCodeAt (pt_buffers s) p (remainder - 1) else Some None);
     (val, nodesToDel, s) \<leftarrow>
       (if tailOfLeft = Some CR then do {
          previousPos \<leftarrow> positionInBuffer (pt_buffers s) p (remainder - 1);
          s \<leftarrow> deleteNodeTail node previousPos s;
          Some (CR # val, if n_length (pt_tree s) node = 0 then [node] else [], s)
        } else do {
          s \<leftarrow> deleteNodeTail node insertPosInBuffer s;
          Some (val, [], s)
        });
     (newPieces, s) \<leftarrow> createNewPieces val s;
     t \<leftarrow> (if pc_length newRightPiece > 0 then do { (_, t) \<leftarrow> rbInsertRight node newRightPiece (pt_tree s); Some t }
          else Some (pt_tree s));
     (_, t) \<leftarrow> insert_chain rbInsertRight node newPieces t;
     t \<leftarrow> deleteNodes nodesToDel t;
     Some (s\<lparr>pt_tree := t\<rparr>)
   }"

definition PieceTree_insert :: "int \<Rightarrow> js_string \<Rightarrow> bool \<Rightarrow> piece_tree \<Rightarrow> piece_tree option" where
  "PieceTree_insert offset val eolNormalized s0 = do {
     let s = s0\<lparr>pt_EOLNormalized := pt_EOLNormalized s0 \<and> eolNormalized, pt_lastVisitedLine := (0, [])\<rparr>;
     (if rb_root (pt_tree s) \<noteq> SENTINEL then do {
        (np, s) \<leftarrow> nodeAt offset s;
        np \<leftarrow> np;
        let node = np_node np;
        let p = n_piece (pt_tree s) node;
        insertPosInBuffer \<leftarrow> positionInBuffer (pt_buffers s) p (np_remainder np);
        (if pc_bufferIndex p = 0 \<and> bc_line (pc_end p) = bc_line (pt_lastChangeBufferPos s) \<and>
            bc_column (pc_end p) = bc_column (pt_lastChangeBufferPos s) \<and>
            np_nodeStartOffset np + pc_length p = offset \<and> ilen val < AverageBufferSize
         then do { s \<leftarrow> appendToNode node val s; computeBufferMetadata s }
         else do {
           s \<leftarrow> (if np_nodeStartOffset np = offset then do {
                    s \<leftarrow> insertContentToNodeLeft val node s;
                    Some (s\<lparr>pt_searchCache := SearchCache_validate (pt_tree s) offset (pt_searchCache s)\<rparr>)
                  }
                  else if np_nodeStartOffset np + pc_length p > offset then
                    insertInMiddle val node (np_remainder np) insertPosInBuffer s
                  else insertContentToNodeRight val node s);
           computeBufferMetadata s
         })
      } else do {
        (pieces, s) \<leftarrow> createNewPieces val s;
        (node, t) \<leftarrow> rbInsertLeft null_ref (hd pieces) (pt_tree s);
        (_, t) \<leftarrow> insert_chain rbInsertRight node (tl pieces) t;
        computeBufferMetadata (s\<lparr>pt_tree := t\<rparr>)
      })
   }"

section \<open>New pieces hold the new text\<close>

lemma string_startWithLF_iff: "string_startWithLF v \<longleftrightarrow> v \<noteq> [] \<and> hd v = LF"
  by (cases v) (auto simp: string_startWithLF_def js_get_def)

lemma string_endWithCR_iff: "string_endWithCR v \<longleftrightarrow> v \<noteq> [] \<and> last v = CR"
  by (cases v rule: rev_cases) (auto simp: string_endWithCR_def js_get_def)

lemma joined_append:
  "joined (xs @ ys) \<longleftrightarrow> joined xs \<and> joined ys \<and> (xs \<noteq> [] \<and> ys \<noteq> [] \<longrightarrow> \<not> splits_crlf (last xs) (hd ys))"
  by (auto simp: joined_def successively_append_iff)

lemma joined_single [simp]: "joined []" "joined [c]"
  by (simp_all add: joined_def)

lemma joined_Cons_iff: "joined (c # cs) \<longleftrightarrow> joined cs \<and> (cs \<noteq> [] \<longrightarrow> \<not> splits_crlf c (hd cs))"
  by (cases cs) (auto simp: joined_def)

lemma hd_concat: "cs \<noteq> [] \<Longrightarrow> hd cs \<noteq> [] \<Longrightarrow> hd (concat cs) = hd (hd cs)"
  by (cases cs) auto

lemma last_concat: "cs \<noteq> [] \<Longrightarrow> last cs \<noteq> [] \<Longrightarrow> last (concat cs) = last (last cs)"
  by (cases cs rule: rev_cases) auto

lemma split_text_ok:
  assumes "ilen v > AverageBufferSize"
  shows "\<not> splits_crlf (itake (split_length v) v) (idrop (split_length v) v)"
proof -
  have n: "split_length v < ilen v" "0 < split_length v" using assms split_length_bounds [of v] by auto
  have "splits_at v (split_length v) \<Longrightarrow> False"
  proof -
    assume "splits_at v (split_length v)"
    then have "v ! nat (split_length v - 1) = CR" "v ! nat (split_length v) = LF" using n by (auto simp: splits_at_iff)
    moreover have "\<not> keep_back LF" "keep_back CR" by (auto simp: keep_back_def CR_def LF_def)
    ultimately show False by (auto simp: split_length_def AverageBufferSize_def split: if_splits)
  qed
  then show ?thesis by (auto simp: splits_at_def)
qed

lemma createNewPieces_loop_ok:
  "buffers_ok bufs \<Longrightarrow> bufs \<noteq> [] \<Longrightarrow> v \<noteq> [] \<Longrightarrow>
    \<exists>rest new ps. createNewPieces_loop v bufs newPieces = (rest, bufs @ new, newPieces @ ps) \<and> list_all buffer_ok new \<and>
      list_all2 (piece_holds (bufs @ new)) ps (map sb_buffer new) \<and> concat (map sb_buffer new) @ rest = v \<and>
      joined (map sb_buffer new @ [rest]) \<and> [] \<notin> set (map sb_buffer new) \<and> rest \<noteq> [] \<and> ilen rest \<le> AverageBufferSize \<and>
      filter (at_end (bufs @ new)) ps = []"
proof (induction v bufs newPieces rule: createNewPieces_loop.induct)
  case (1 v bufs newPieces)
  show ?case
  proof (cases "ilen v > AverageBufferSize")
    case False
    then show ?thesis using 1(2-4)
      by (subst createNewPieces_loop.simps) (intro exI [of _ v] exI [of _ "[]"], simp)
  next
    case True
    let ?d = "itake (split_length v) v" and ?r = "idrop (split_length v) v"
    have n: "0 < split_length v" "split_length v < ilen v" using split_length_bounds [of v] True by auto
    then have s: "js_substring v 0 (split_length v) = ?d" "js_substring_from v (split_length v) = ?r" by simp_all
    have nd: "?d \<noteq> []" "?r \<noteq> []" using n by (auto simp: itake_def idrop_def)
    let ?b = "StringBuffer_new ?d (createLineStartsFast ?d True)"
    have "ilen ?d < max_string_length" using n split_length_bounds [of v] by (simp add: AverageBufferSize_def max_string_length_def)
    then have b: "buffer_ok ?b" "sb_buffer ?b = ?d" by (simp_all add: buffer_ok_def StringBuffer_new_def createLineStartsFast_ok)
    then have bufs: "buffers_ok (bufs @ [?b])" using 1(2) by simp
    let ?p = "chunk_piece (ilen bufs) ?b"
    have p: "piece_holds (bufs @ [?b]) ?p ?d" "?p = piece_of_range (bufs @ [?b]) (ilen bufs) 0 (ilen ?d)"
      using chunk_piece_ok [OF bufs, of "length bufs" ?b] b(2) nd(1) by simp_all
    obtain rest new ps where IH: "createNewPieces_loop ?r (bufs @ [?b]) (newPieces @ [?p]) = (rest, (bufs @ [?b]) @ new, (newPieces @ [?p]) @ ps)"
      "list_all buffer_ok new" "list_all2 (piece_holds ((bufs @ [?b]) @ new)) ps (map sb_buffer new)" "concat (map sb_buffer new) @ rest = ?r"
      "joined (map sb_buffer new @ [rest])" "[] \<notin> set (map sb_buffer new)" "rest \<noteq> []" "ilen rest \<le> AverageBufferSize"
      "filter (at_end ((bufs @ [?b]) @ new)) ps = []"
      using 1(1) [OF True refl refl refl] bufs nd(2) unfolding s by fastforce
    have g: "grows (bufs @ [?b]) ((bufs @ [?b]) @ new)" using buffers_grow [OF bufs _ IH(2)] by simp
    have "\<not> at_end (bufs @ [?b]) ?p" using p(2) 1(3) by (simp add: at_end_range)
    then have pe: "\<not> at_end ((bufs @ [?b]) @ new) ?p" using grows_at_end(1) [OF g p(1)] by blast
    have "hd (hd (map sb_buffer new @ [rest])) = hd ?r"
    proof (cases new)
      case (Cons b' new')
      then have "sb_buffer b' \<noteq> []" using IH(6) by auto
      then show ?thesis using IH(4) Cons by (auto simp flip: IH(4))
    qed (use IH(4) in simp)
    then have "joined (?d # map sb_buffer new @ [rest])"
      using IH(5) split_text_ok [OF True] nd by (auto simp: joined_Cons_iff splits_crlf_def)
    moreover have "?d @ concat (map sb_buffer new) @ rest = v" unfolding IH(4) by simp
    ultimately show ?thesis using True s IH(1,2,3,6-9) b nd(1) pe grows_piece [OF g p(1)]
      by (subst createNewPieces_loop.simps) (intro exI [of _ rest] exI [of _ "?b # new"] exI [of _ "?p # ps"], simp add: Let_def)
  qed
qed


lemma StringBuffer_simps: "sb_buffer (StringBuffer_new x l) = x" "sb_lineStarts (StringBuffer_new x l) = l"
  by (simp_all add: StringBuffer_new_def)

definition room :: "piece_tree \<Rightarrow> int \<Rightarrow> bool" where
  "room s k \<longleftrightarrow> ilen (text_at (pt_buffers s) 0) + k < max_string_length"

lemma tl_line_starts: "tl (line_starts v) = breaks 0 v"
  by (simp add: line_starts_def)

lemma line_starts_append: "\<not> splits_crlf x y \<Longrightarrow> line_starts (x @ y) = line_starts x @ map (\<lambda>l. l + ilen x) (breaks 0 y)"
  using breaks_shift [of 0 "ilen x" y] by (simp add: line_starts_def breaks_append)

lemma last_line_start_CR: "x \<noteq> [] \<Longrightarrow> last x = CR \<Longrightarrow> last (line_starts x) = ilen x"
  using breaks_last_CR [of x] by (simp add: line_starts_def)

text \<open>The gap character separates a \<open>\r\<close> at the end of the buffer from a \<open>\n\<close> at the start of the new text.\<close>

definition gap_between :: "js_string \<Rightarrow> js_string \<Rightarrow> js_string" where
  "gap_between x v = (if splits_crlf x v then [95] else [])"

lemma gap_no_break: "ends_line 95 ys = False"
  by (simp add: ends_line_def CR_def LF_def)

lemma gap_facts:
  assumes "v \<noteq> []"
  shows "\<not> splits_crlf x (gap_between x v @ v)" "\<not> splits_crlf (x @ gap_between x v) v"
    "line_starts (x @ gap_between x v) = line_starts x"
    "line_starts (x @ gap_between x v @ v) = line_starts x @ map (\<lambda>l. l + ilen (x @ gap_between x v)) (breaks 0 v)"
proof -
  show n: "\<not> splits_crlf x (gap_between x v @ v)" "\<not> splits_crlf (x @ gap_between x v) v"
    by (auto simp: gap_between_def splits_crlf_def CR_def LF_def)
  have "\<not> splits_crlf x (gap_between x v)" by (simp add: gap_between_def splits_crlf_def LF_def)
  then show g: "line_starts (x @ gap_between x v) = line_starts x"
    by (simp add: line_starts_append) (simp add: gap_between_def gap_no_break)
  show "line_starts (x @ gap_between x v @ v) = line_starts x @ map (\<lambda>l. l + ilen (x @ gap_between x v)) (breaks 0 v)"
    using line_starts_append [OF n(2)] g by simp
qed

lemma cursor_of_gap:
  assumes "v \<noteq> []"
  shows "cursor_of (x @ gap_between x v @ v) (ilen (x @ gap_between x v)) =
    MkBufferCursor (bc_line (cursor_of x (ilen x))) (bc_column (cursor_of x (ilen x)) + ilen (gap_between x v))"
proof -
  let ?y = "x @ gap_between x v"
  have "cursor_of (?y @ v) (ilen ?y) = cursor_of ?y (ilen ?y)" using gap_facts(2) [OF assms, of x] by (intro cursor_of_append) simp_all
  moreover have "eols ?y = eols x" using length_line_starts [of ?y] length_line_starts [of x] gap_facts(3) [OF assms, of x] by simp
  ultimately show ?thesis using gap_facts(3) [OF assms, of x] unfolding cursor_of_end by (simp add: last_line_start)
qed

lemma small_piece_ok:
  assumes st: "buffers_state s" and v: "v \<noteq> []" "ilen v \<le> AverageBufferSize" and r: "room s (ilen v + 1)"
    and x: "x = text_at (pt_buffers s) 0" and y: "y = x @ gap_between x v @ v"
    and bufs': "bufs' = (pt_buffers s)[0 := StringBuffer_new y (line_starts y)]"
  shows "createNewPieces v s = Some ([piece_of_range bufs' 0 (ilen (x @ gap_between x v)) (ilen y)],
      s\<lparr>pt_buffers := bufs', pt_lastChangeBufferPos := cursor_of y (ilen y)\<rparr>)"
    "grows (pt_buffers s) bufs'" "piece_holds bufs' (piece_of_range bufs' 0 (ilen (x @ gap_between x v)) (ilen y)) v"
    "text_at bufs' 0 = y" "text_at bufs' 0 \<noteq> x" "ilen y \<le> ilen x + ilen v + 1"
proof -
  let ?g = "gap_between x v"
  have bok: "buffers_ok (pt_buffers s)" "pt_buffers s \<noteq> []" using st by (auto simp: buffers_state_def)
  have g1: "length ?g \<le> 1" by (simp add: gap_between_def)
  have ylen: "ilen y < max_string_length" using r x y g1 by (simp add: room_def)
  show "ilen y \<le> ilen x + ilen v + 1" using y g1 by simp
  show t0: "text_at bufs' 0 = y" using bufs' bok(2) by (simp add: text_at_def StringBuffer_new_def)
  then show "text_at bufs' 0 \<noteq> x" using y v(1) by simp
  have ok': "buffers_ok bufs'" using bok ylen bufs'
    by (auto simp: list_all_length nth_list_update buffer_ok_def StringBuffer_new_def)
  have "text_at bufs' i = text_at (pt_buffers s) i" if "0 < i" "i < ilen (pt_buffers s)" for i
    using that bufs' by (simp add: text_at_def)
  then show "grows (pt_buffers s) bufs'" unfolding grows_def
    using ok' bok t0 y x bufs' gap_facts(1) [OF v(1), of x] by auto
  have r': "range_ok bufs' 0 0 (ilen y)" using ok' t0 bufs' bok(2) by (simp add: range_ok_def)
  have "range_ok bufs' 0 (ilen (x @ ?g)) (ilen y)" using r' t0 y by (simp add: range_ok_def)
  moreover have "substr y (ilen (x @ ?g)) (ilen y) = v" using y by (simp add: idrop_append)
  ultimately show "piece_holds bufs' (piece_of_range bufs' 0 (ilen (x @ ?g)) (ilen y)) v" unfolding piece_holds_def using t0 by metis
  obtain b0 where b0: "js_get (pt_buffers s) 0 = Some b0" "sb_buffer b0 = x" "sb_lineStarts b0 = line_starts x"
    using buffers_ok_get [OF bok(1), of 0] bok(2) x by (auto simp: text_at_def)
  have ls: "createLineStartsFast v False = line_starts v"
    using v(2) by (intro createLineStartsFast_ok) (simp add: AverageBufferSize_def max_string_length_def)
  have gap: "(last (line_starts x) = ilen x \<and> ilen x \<noteq> 0 \<and> string_startWithLF v \<and> string_endWithCR x) = splits_crlf x v"
    using last_line_start_CR [of x] by (auto simp: string_startWithLF_iff string_endWithCR_iff splits_crlf_def)
  have l0: "js_get (line_starts z) (ilen (line_starts z) - 1) = Some (last (line_starts z))" for z
    using get_line_starts [of "eols z" z] last_line_start [of z] by simp
  have start: "(if splits_crlf x v then MkBufferCursor (bc_line (pt_lastChangeBufferPos s)) (bc_column (pt_lastChangeBufferPos s) + 1)
      else pt_lastChangeBufferPos s) = cursor_of y (ilen (x @ ?g))"
    using cursor_of_gap [OF v(1), of x] st x y
    by (cases "splits_crlf x v") (simp_all add: buffers_state_def gap_between_def cursor_of_end last_line_start add.commute)
  have lsy: "line_starts x @ tl (map (\<lambda>l. l + ilen (x @ ?g)) (line_starts v)) = line_starts y"
    using gap_facts(4) [OF v(1), of x] y by (simp add: map_tl [symmetric] tl_line_starts)
  have lf: "getLineFeedCnt bufs' 0 (cursor_of y (ilen (x @ ?g))) (cursor_of y (ilen y)) = Some (line_feeds y (ilen (x @ ?g)) (ilen y))"
    using getLineFeedCnt_ok [OF r', of "ilen (x @ ?g)"] t0 by simp
  have yb: "x @ (if splits_crlf x v then [95] else []) @ v = y" using y by (simp add: gap_between_def)
  have endp: "MkBufferCursor (ilen (line_starts y) - 1) (ilen y - last (line_starts y)) = cursor_of y (ilen y)"
    by (simp add: cursor_of_end)
  have so: "(if splits_crlf x v then ilen x + 1 else ilen x) = ilen (x @ ?g)" by (simp add: gap_between_def)
  show "createNewPieces v s = Some ([piece_of_range bufs' 0 (ilen (x @ ?g)) (ilen y)],
      s\<lparr>pt_buffers := bufs', pt_lastChangeBufferPos := cursor_of y (ilen y)\<rparr>)"
    using v(2) unfolding createNewPieces_def Let_def piece_of_range_def
    by (simp only: b0 l0 ls gap start lsy yb so lf endp t0 StringBuffer_simps Option.bind.simps not_less if_False bufs' [symmetric])
      (simp add: y)
qed


lemma no_cr_append [simp]: "no_cr (x @ y) \<longleftrightarrow> no_cr x \<and> no_cr y" "no_cr []"
  by (simp_all add: no_cr_def)

lemma no_cr_concat: "no_cr (concat cs) \<longleftrightarrow> (\<forall>c\<in>set cs. no_cr c)"
  by (auto simp: no_cr_def)

lemma text_at_buffers: "buffers_state s \<Longrightarrow> text_at (pt_buffers s) 0 \<in> sb_buffer ` set (pt_buffers s)"
  by (simp add: buffers_state_def text_at_def)

text \<open>What \<open>createNewPieces\<close> gives for the text \<open>v\<close>.\<close>

definition new_pieces_for :: "js_string \<Rightarrow> piece_tree \<Rightarrow> piece list \<Rightarrow> js_string list \<Rightarrow> string_buffer list \<Rightarrow> buffer_cursor \<Rightarrow> bool" where
  "new_pieces_for v s ps ds bufs pos \<longleftrightarrow>
     createNewPieces v s = Some (ps, s\<lparr>pt_buffers := bufs, pt_lastChangeBufferPos := pos\<rparr>) \<and>
     list_all2 (piece_holds bufs) ps ds \<and> concat ds = v \<and> joined ds \<and> [] \<notin> set ds \<and> ds \<noteq> [] \<and> grows (pt_buffers s) bufs \<and>
     buffers_state (s\<lparr>pt_buffers := bufs, pt_lastChangeBufferPos := pos\<rparr>) \<and>
     length (filter (at_end bufs) ps) \<le> (if text_at bufs 0 = text_at (pt_buffers s) 0 then 0 else 1) \<and>
     ilen (text_at bufs 0) \<le> ilen (text_at (pt_buffers s) 0) + ilen v + 1"

lemma createNewPieces_ok:
  assumes st: "buffers_state s" and v: "v \<noteq> []" "\<not> shouldCheckCRLF s \<longrightarrow> no_cr v" and r: "room s (ilen v + 1)"
  shows "\<exists>ps ds bufs pos. new_pieces_for v s ps ds bufs pos"
proof (cases "ilen v > AverageBufferSize")
  case False
  let ?x = "text_at (pt_buffers s) 0"
  let ?y = "?x @ gap_between ?x v @ v"
  let ?bufs = "(pt_buffers s)[0 := StringBuffer_new ?y (line_starts ?y)]"
  note p = small_piece_ok [OF st v(1) _ r refl refl refl]
  have len: "ilen v \<le> AverageBufferSize" using False by simp
  have ok: "buffers_ok ?bufs" using p(2) [OF len] by (simp add: grows_def)
  have "no_cr (gap_between ?x v)" by (simp add: gap_between_def no_cr_def CR_def)
  then have "\<not> shouldCheckCRLF s \<longrightarrow> (\<forall>b\<in>set ?bufs. no_cr (sb_buffer b))"
    using st v(2) text_at_buffers [OF st] set_update_subset_insert [of "pt_buffers s" 0]
    by (auto simp: buffers_state_def StringBuffer_simps dest!: subsetD [OF set_update_subset_insert])
  then have "buffers_state (s\<lparr>pt_buffers := ?bufs, pt_lastChangeBufferPos := cursor_of ?y (ilen ?y)\<rparr>)"
    using ok st p(4) [OF len] by (simp add: buffers_state_def)
  then have "new_pieces_for v s [piece_of_range ?bufs 0 (ilen (?x @ gap_between ?x v)) (ilen ?y)] [v] ?bufs (cursor_of ?y (ilen ?y))"
    using p [OF len] v(1) by (simp add: new_pieces_for_def)
  then show ?thesis by blast
next
  case True
  have bok: "buffers_ok (pt_buffers s)" "pt_buffers s \<noteq> []" using st by (auto simp: buffers_state_def)
  obtain rest new ps where l: "createNewPieces_loop v (pt_buffers s) [] = (rest, pt_buffers s @ new, ps)"
    "list_all buffer_ok new" "list_all2 (piece_holds (pt_buffers s @ new)) ps (map sb_buffer new)"
    "concat (map sb_buffer new) @ rest = v" "joined (map sb_buffer new @ [rest])" "[] \<notin> set (map sb_buffer new)" "rest \<noteq> []"
    "ilen rest \<le> AverageBufferSize" "filter (at_end (pt_buffers s @ new)) ps = []"
    using createNewPieces_loop_ok [OF bok v(1), of "[]"] by auto
  let ?b = "StringBuffer_new rest (createLineStartsFast rest True)"
  let ?bufs = "pt_buffers s @ new @ [?b]"
  let ?p = "chunk_piece (ilen (pt_buffers s @ new)) ?b"
  have b: "buffer_ok ?b" "sb_buffer ?b = rest"
    using l(8) by (simp_all add: StringBuffer_simps buffer_ok_def createLineStartsFast_ok AverageBufferSize_def max_string_length_def)
  have ok: "buffers_ok (pt_buffers s @ new)" "buffers_ok ?bufs" using bok l(2) b(1) by auto
  have g: "grows (pt_buffers s @ new) ?bufs" using buffers_grow [OF ok(1), of "[?b]"] bok b(1) by simp
  have p: "piece_holds ?bufs ?p rest" "?p = piece_of_range ?bufs (ilen (pt_buffers s @ new)) 0 (ilen rest)"
    using chunk_piece_ok [OF ok(2), of "length (pt_buffers s @ new)" ?b] b(2) l(7) by (simp_all add: nth_append)
  have "ilen (pt_buffers s @ new) \<noteq> 0" using bok(2) by (simp only: of_nat_eq_0_iff length_0_conv append_is_Nil_conv) simp
  then have "\<not> at_end ?bufs ?p" unfolding p(2) at_end_range by blast
  moreover have "filter (at_end ?bufs) ps = []"
    using grows_count [OF g l(3)] by (simp only: l(9) list.size if_cancel le_zero_eq length_0_conv)
  ultimately have e: "filter (at_end ?bufs) (ps @ [?p]) = []" by simp
  have t0: "text_at ?bufs 0 = text_at (pt_buffers s) 0" using bok(2) by (simp add: text_at_def nth_append)
  have hold: "list_all2 (piece_holds ?bufs) (ps @ [?p]) (map sb_buffer new @ [rest])"
    using grows_pieces [OF g l(3)] p(1) by (intro list_all2_appendI) auto
  have gr: "grows (pt_buffers s) ?bufs" using buffers_grow [OF bok, of "new @ [?b]"] l(2) b(1) by simp
  have "(\<forall>d\<in>set new. no_cr (sb_buffer d)) \<and> no_cr rest" if "no_cr v"
  proof -
    have "no_cr (concat (map sb_buffer new) @ rest)" using that l(4) by simp
    then show ?thesis by (simp add: no_cr_concat)
  qed
  then have st': "buffers_state (s\<lparr>pt_buffers := ?bufs, pt_lastChangeBufferPos := pt_lastChangeBufferPos s\<rparr>)"
    using st v(2) ok(2) t0 by (auto simp: buffers_state_def StringBuffer_simps)
  have c: "createNewPieces v s = Some (ps @ [?p], s\<lparr>pt_buffers := ?bufs, pt_lastChangeBufferPos := pt_lastChangeBufferPos s\<rparr>)"
    using True l(1) by (simp add: createNewPieces_def Let_def)
  have "new_pieces_for v s (ps @ [?p]) (map sb_buffer new @ [rest]) ?bufs (pt_lastChangeBufferPos s)"
    using c hold l(4-7) gr st' e t0 by (simp add: new_pieces_for_def)
  then show ?thesis by blast
qed


text \<open>The old pieces in the grown buffers.\<close>

lemma pieces_ok_nodes:
  assumes "pieces_ok s ns cs"
  shows "distinct ns" "SENTINEL \<notin> set ns" "n \<in> set ns \<Longrightarrow> \<not> rb_gone (pt_tree s) n" "length cs = length ns"
proof -
  have "rb_order (pt_tree s) ns" using assms by (simp add: pieces_ok_def)
  from rbt.ord_nodes [OF this] show "distinct ns" "SENTINEL \<notin> set ns" "n \<in> set ns \<Longrightarrow> \<not> rb_gone (pt_tree s) n" by auto
  show "length cs = length ns" using assms by (auto simp: pieces_ok_def segs_ok_def dest: list_all2_lengthD)
qed

lemma pieces_ok_grow:
  assumes ok: "pieces_ok s ns cs" and new: "new_pieces_for v s ps ds bufs pos"
  shows "pieces_ok (s\<lparr>pt_buffers := bufs, pt_lastChangeBufferPos := pos\<rparr>) ns cs"
    "list_all2 (piece_holds (pt_buffers s)) qs es \<Longrightarrow> length (filter (at_end (pt_buffers s)) qs) \<le> 1 \<Longrightarrow>
      length (filter (at_end bufs) (qs @ ps)) \<le> 1"
    "length (filter (at_end bufs) (map (n_piece (pt_tree s)) ns @ ps)) \<le> 1"
proof -
  have g: "grows (pt_buffers s) bufs" and st: "buffers_state (s\<lparr>pt_buffers := bufs, pt_lastChangeBufferPos := pos\<rparr>)"
    and ps: "length (filter (at_end bufs) ps) \<le> (if text_at bufs 0 = text_at (pt_buffers s) 0 then 0 else 1)"
    using new by (auto simp: new_pieces_for_def)
  show "pieces_ok (s\<lparr>pt_buffers := bufs, pt_lastChangeBufferPos := pos\<rparr>) ns cs"
    using ok st grows_segs [OF g] by (simp add: pieces_ok_def)
  show *: "length (filter (at_end bufs) (qs @ ps)) \<le> 1"
    if "list_all2 (piece_holds (pt_buffers s)) qs es" "length (filter (at_end (pt_buffers s)) qs) \<le> 1" for qs es
    using grows_count [OF g, of qs es] that ps by (auto split: if_splits)
  show "length (filter (at_end bufs) (map (n_piece (pt_tree s)) ns @ ps)) \<le> 1"
    using ok by (intro * [of _ cs]) (auto simp: pieces_ok_def segs_ok_def)
qed

lemma crlf_texts: "joined ds \<Longrightarrow> [] \<notin> set ds \<Longrightarrow> concat ds = [CR, LF] \<Longrightarrow> ds = [[CR, LF]]"
proof (cases ds)
  case (Cons d ds')
  assume "joined ds" "[] \<notin> set ds" "concat ds = [CR, LF]"
  then have d: "d @ concat ds' = [CR, LF]" "d \<noteq> []" "[] \<notin> set ds'" "ds' \<noteq> [] \<longrightarrow> \<not> splits_crlf d (hd ds')"
    using Cons by (auto simp: joined_Cons_iff)
  then have "d = [CR, LF] \<and> concat ds' = [] \<or> d = [CR] \<and> concat ds' = [LF]" by (auto simp: append_eq_Cons_conv)
  then show ?thesis
  proof (elim disjE conjE)
    assume "d = [CR, LF]" "concat ds' = []"
    then show ?thesis using d(3) Cons by (cases ds') auto
  next
    assume "d = [CR]" "concat ds' = [LF]"
    then show ?thesis using d(3,4) by (cases ds') (auto simp: splits_crlf_def append_eq_Cons_conv)
  qed
qed simp

section \<open>Shortening a piece\<close>

lemma piece_positionInBuffer:
  assumes "range_ok bufs i b e" "0 \<le> r" "r \<le> ilen (substr (text_at bufs i) b e)"
  shows "positionInBuffer bufs (piece_of_range bufs i b e) r = Some (cursor_of (text_at bufs i) (b + r))"
  using assms ilen_substr [of b e "text_at bufs i"] by (intro positionInBuffer_ok) (auto simp: range_ok_def)

lemma range_ok_sub: "range_ok bufs i b e \<Longrightarrow> b \<le> b' \<Longrightarrow> b' \<le> e' \<Longrightarrow> e' \<le> e \<Longrightarrow> range_ok bufs i b' e'"
  by (auto simp: range_ok_def)

lemma piece_holds_range: "range_ok bufs i b e \<Longrightarrow> piece_holds bufs (piece_of_range bufs i b e) (substr (text_at bufs i) b e)"
  unfolding piece_holds_def by blast

lemma deleteNodeTail_ok:
  assumes ok: "pieces_ok s (xs @ a # ys) (us @ c # vs)" and len: "length us = length xs" and r: "0 \<le> r" "r \<le> ilen c"
  obtains pos t q where "positionInBuffer (pt_buffers s) (n_piece (pt_tree s) a) r = Some pos"
    "deleteNodeTail a pos s = Some (s\<lparr>pt_tree := t\<rparr>)" "pieces_ok (s\<lparr>pt_tree := t\<rparr>) (xs @ a # ys) (us @ itake r c # vs)"
    "n_piece t = (n_piece (pt_tree s))(a := q)" "rb_gone t = rb_gone (pt_tree s)"
    "r < ilen c \<longrightarrow> \<not> at_end (pt_buffers s) q"
proof -
  let ?bufs = "pt_buffers s"
  obtain i b e where p: "range_ok ?bufs i b e" "n_piece (pt_tree s) a = piece_of_range ?bufs i b e" "c = substr (text_at ?bufs i) b e"
    "0 \<le> b" "b \<le> e" "e \<le> ilen (text_at ?bufs i)" "ilen c = e - b"
    using pieces_ok_at(2) [OF ok len] by (rule piece_holdsE)
  have rg: "range_ok ?bufs i b (b + r)" "range_ok ?bufs i 0 (b + r)" using p r by (auto simp: range_ok_def)
  let ?q = "piece_of_range ?bufs i b (b + r)"
  have q: "piece_holds ?bufs ?q (itake r c)" using piece_holds_range [OF rg(1)] p r by (simp add: itake_substr)
  have e: "at_end ?bufs ?q \<longrightarrow> at_end ?bufs (n_piece (pt_tree s) a)" "r < ilen c \<longrightarrow> \<not> at_end ?bufs ?q"
    using p r by (auto simp: at_end_range)
  obtain t where t: "replacePiece a ?q (pc_length ?q - pc_length (n_piece (pt_tree s) a)) (pc_lineFeedCnt ?q - pc_lineFeedCnt (n_piece (pt_tree s) a)) (pt_tree s) = Some t"
    "pieces_ok (s\<lparr>pt_tree := t\<rparr>) (xs @ a # ys) (us @ itake r c # vs)"
    "n_piece t = (n_piece (pt_tree s))(a := ?q)" "rb_gone t = rb_gone (pt_tree s)"
    using replace_step [OF ok len q e(1)] by blast
  have pos: "positionInBuffer ?bufs (n_piece (pt_tree s) a) r = Some (cursor_of (text_at ?bufs i) (b + r))"
    using piece_positionInBuffer [OF p(1)] r p(2,3) by simp
  have "deleteNodeTail a (cursor_of (text_at ?bufs i) (b + r)) s = Some (s\<lparr>pt_tree := t\<rparr>)"
    using t(1) p(2) by (simp add: deleteNodeTail_def offsetInBuffer_ok [OF p(1)] getLineFeedCnt_ok [OF rg(2)] Let_def piece_of_range_def
        algebra_simps)
  then show thesis using that [OF pos _ t(2-4)] e(2) by blast
qed

lemma deleteNodeHead_ok:
  assumes ok: "pieces_ok s (xs @ a # ys) (us @ c # vs)" and len: "length us = length xs" and r: "0 \<le> r" "r \<le> ilen c"
  obtains pos t q where "positionInBuffer (pt_buffers s) (n_piece (pt_tree s) a) r = Some pos"
    "deleteNodeHead a pos s = Some (s\<lparr>pt_tree := t\<rparr>)" "pieces_ok (s\<lparr>pt_tree := t\<rparr>) (xs @ a # ys) (us @ idrop r c # vs)"
    "n_piece t = (n_piece (pt_tree s))(a := q)" "rb_gone t = rb_gone (pt_tree s)"
proof -
  let ?bufs = "pt_buffers s"
  obtain i b e where p: "range_ok ?bufs i b e" "n_piece (pt_tree s) a = piece_of_range ?bufs i b e" "c = substr (text_at ?bufs i) b e"
    "0 \<le> b" "b \<le> e" "e \<le> ilen (text_at ?bufs i)" "ilen c = e - b"
    using pieces_ok_at(2) [OF ok len] by (rule piece_holdsE)
  have rg: "range_ok ?bufs i (b + r) e" "range_ok ?bufs i 0 e" using p r by (auto simp: range_ok_def)
  let ?q = "piece_of_range ?bufs i (b + r) e"
  have q: "piece_holds ?bufs ?q (idrop r c)" using piece_holds_range [OF rg(1)] p r by (simp add: idrop_substr)
  have e: "at_end ?bufs ?q \<longrightarrow> at_end ?bufs (n_piece (pt_tree s) a)" using p by (simp add: at_end_range)
  obtain t where t: "replacePiece a ?q (pc_length ?q - pc_length (n_piece (pt_tree s) a)) (pc_lineFeedCnt ?q - pc_lineFeedCnt (n_piece (pt_tree s) a)) (pt_tree s) = Some t"
    "pieces_ok (s\<lparr>pt_tree := t\<rparr>) (xs @ a # ys) (us @ idrop r c # vs)"
    "n_piece t = (n_piece (pt_tree s))(a := ?q)" "rb_gone t = rb_gone (pt_tree s)"
    using replace_step [OF ok len q e] by blast
  have pos: "positionInBuffer ?bufs (n_piece (pt_tree s) a) r = Some (cursor_of (text_at ?bufs i) (b + r))"
    using piece_positionInBuffer [OF p(1)] r p(2,3) by simp
  have "deleteNodeHead a (cursor_of (text_at ?bufs i) (b + r)) s = Some (s\<lparr>pt_tree := t\<rparr>)"
    using t(1) p(2) by (simp add: deleteNodeHead_def offsetInBuffer_ok [OF p(1)] getLineFeedCnt_ok [OF rg(2)] Let_def piece_of_range_def
        algebra_simps)
  then show thesis using that [OF pos _ t(2-4)] by blast
qed

lemma cursor_after_LF:
  assumes "0 \<le> b" "b < ilen s" "s ! nat b = LF"
  shows "cursor_of s (b + 1) = MkBufferCursor (line_of s b + 1) 0" "line_of s (b + 1) = line_of s b + 1"
proof -
  have k: "b + 1 \<in> set (breaks 0 s)" using assms by (simp add: in_breaks ends_line_def)
  then show "line_of s (b + 1) = line_of s b + 1" using line_of_step [of s "b + 1"] by simp
  then show "cursor_of s (b + 1) = MkBufferCursor (line_of s b + 1) 0"
    using line_start_iff [of "b + 1" s] k assms by (simp add: cursor_of_def)
qed

lemma pieceWithoutLF_ok:
  assumes "piece_holds bufs p (LF # c)"
  obtains q where "pieceWithoutLF bufs p = Some q" "piece_holds bufs q c" "pc_length q = pc_length p - 1"
    "pc_lineFeedCnt q = pc_lineFeedCnt p - 1" "at_end bufs q \<longrightarrow> at_end bufs p"
proof -
  obtain i b e where p: "range_ok bufs i b e" "p = piece_of_range bufs i b e" "LF # c = substr (text_at bufs i) b e"
    "0 \<le> b" "b \<le> e" "e \<le> ilen (text_at bufs i)" "ilen (LF # c) = e - b" using assms by (rule piece_holdsE)
  let ?s = "text_at bufs i" and ?q = "piece_of_range bufs i (b + 1) e"
  have be: "b < e" using p(7) by simp
  have "?s ! nat b = LF" using hd_last_substr(2) [OF p(4) be p(6)] p(3) by (metis list.sel(1))
  then have c: "cursor_of ?s (b + 1) = MkBufferCursor (line_of ?s b + 1) 0" "line_of ?s (b + 1) = line_of ?s b + 1"
    using cursor_after_LF [of b ?s] p(4,6) be by simp_all
  have rg: "range_ok bufs i (b + 1) e" "range_ok bufs i 0 e" using p be by (auto simp: range_ok_def)
  have "idrop 1 (LF # c) = substr ?s (b + 1) e" unfolding p(3) using be p(4) by (intro idrop_substr) simp_all
  then have h: "piece_holds bufs ?q c" using piece_holds_range [OF rg(1)] by simp
  have "pieceWithoutLF bufs p = Some ?q"
    using getLineFeedCnt_ok [OF rg(2), of "b + 1"] c by (simp add: pieceWithoutLF_def p(2) piece_of_range_def Let_def)
  then show thesis using that [of ?q] h c(2) p(2) by (simp add: line_feeds_def at_end_range)
qed

lemma dropLF_step:
  assumes ok: "pieces_ok s (xs @ a # ys) (us @ (LF # c) # vs)" and len: "length us = length xs"
  obtains q t where "pieceWithoutLF (pt_buffers s) (n_piece (pt_tree s) a) = Some q" "replacePiece a q (-1) (-1) (pt_tree s) = Some t"
    "pieces_ok (s\<lparr>pt_tree := t\<rparr>) (xs @ a # ys) (us @ c # vs)" "n_piece t = (n_piece (pt_tree s))(a := q)"
    "rb_gone t = rb_gone (pt_tree s)" "pc_length q = ilen c"
proof -
  have h: "piece_holds (pt_buffers s) (n_piece (pt_tree s) a) (LF # c)" by (rule pieces_ok_at(2) [OF ok len])
  from pieceWithoutLF_ok [OF h] obtain q where q: "pieceWithoutLF (pt_buffers s) (n_piece (pt_tree s) a) = Some q"
    "piece_holds (pt_buffers s) q c" "pc_length q = pc_length (n_piece (pt_tree s) a) - 1"
    "pc_lineFeedCnt q = pc_lineFeedCnt (n_piece (pt_tree s) a) - 1" "at_end (pt_buffers s) q \<longrightarrow> at_end (pt_buffers s) (n_piece (pt_tree s) a)"
    by blast
  from replace_step [OF ok len q(2,5)] obtain t where
    "replacePiece a q (pc_length q - pc_length (n_piece (pt_tree s) a)) (pc_lineFeedCnt q - pc_lineFeedCnt (n_piece (pt_tree s) a)) (pt_tree s) = Some t"
    "pieces_ok (s\<lparr>pt_tree := t\<rparr>) (xs @ a # ys) (us @ c # vs)"
    "n_piece t = (n_piece (pt_tree s))(a := q)" "rb_gone t = rb_gone (pt_tree s)" by blast
  then show thesis using that q piece_holds_length [OF q(2)] by simp
qed

text \<open>The node tests.\<close>

lemma startWithLF_ok:
  assumes ok: "pieces_ok s (xs @ a # ys) (us @ c # vs)" and len: "length us = length xs" and c: "c \<noteq> []"
  shows "startWithLF s a = Some (hd c = LF)" "endWithCR s a = Some (last c = CR)"
proof -
  obtain i b e where p: "range_ok (pt_buffers s) i b e" "n_piece (pt_tree s) a = piece_of_range (pt_buffers s) i b e"
    "c = substr (text_at (pt_buffers s) i) b e" "0 \<le> b" "b \<le> e" "ilen c = e - b" using pieces_ok_at(2) [OF ok len] by (rule piece_holdsE)
  then have "b < e" using c by (cases "b = e") auto
  then show "startWithLF s a = Some (hd c = LF)" "endWithCR s a = Some (last c = CR)"
    using p pieces_ok_at(7) [OF ok len] piece_startWithLF_ok [OF p(1)] piece_endWithCR_ok [OF p(1)]
    by (simp_all add: startWithLF_def endWithCR_def)
qed

lemma startWithLF_sentinel [simp]: "startWithLF s SENTINEL = Some False" "endWithCR s SENTINEL = Some False"
  by (simp_all add: startWithLF_def endWithCR_def)


section \<open>Moving a line break into one piece\<close>

text \<open>What a step leaves alone: the settings, cache entries, nodes that are gone, and the pieces of \<open>xs\<close>.\<close>

definition extends :: "piece_tree \<Rightarrow> piece_tree \<Rightarrow> node_ref list \<Rightarrow> int \<Rightarrow> bool" where
  "extends s s' xs k \<longleftrightarrow> same_settings s s' \<and>
     sc_limit (pt_searchCache s') = sc_limit (pt_searchCache s) \<and>
     length (sc_cache (pt_searchCache s')) \<le> length (sc_cache (pt_searchCache s)) \<and>
     set (sc_cache (pt_searchCache s')) \<subseteq> set (sc_cache (pt_searchCache s)) \<and>
     (\<forall>b. rb_gone (pt_tree s) b \<longrightarrow> rb_gone (pt_tree s') b) \<and>
     (\<forall>n\<in>set xs. n_piece (pt_tree s') n = n_piece (pt_tree s) n) \<and>
     kept (pt_buffers s) (pt_buffers s') \<and>
     ilen (text_at (pt_buffers s') 0) \<le> ilen (text_at (pt_buffers s) 0) + k"

lemma extends_trans: "extends s s' xs j \<Longrightarrow> extends s' s'' xs k \<Longrightarrow> extends s s'' xs (j + k)"
  unfolding extends_def using same_settings_trans kept_trans by (auto intro: le_trans)

lemma extends_mono: "extends s s' xs j \<Longrightarrow> set ys \<subseteq> set xs \<Longrightarrow> j \<le> k \<Longrightarrow> extends s s' ys k"
  unfolding extends_def by auto

lemma extends_refl: "0 \<le> k \<Longrightarrow> extends s s xs k"
  by (simp add: extends_def)

lemma extends_tree:
  "(\<forall>b. rb_gone (pt_tree s) b \<longrightarrow> rb_gone t b) \<Longrightarrow> (\<forall>n\<in>set xs. n_piece t n = n_piece (pt_tree s) n) \<Longrightarrow> 0 \<le> k \<Longrightarrow>
    extends s (s\<lparr>pt_tree := t\<rparr>) xs k"
  by (simp add: extends_def)

lemma extends_room: "extends s s' xs j \<Longrightarrow> room s k \<Longrightarrow> j + l \<le> k \<Longrightarrow> room s' l"
  by (auto simp: extends_def room_def)

lemma extends_check: "extends s s' xs j \<Longrightarrow> shouldCheckCRLF s' = shouldCheckCRLF s"
  using same_settings_check by (auto simp: extends_def)

definition nonempty_texts :: "js_string \<Rightarrow> js_string list" where
  "nonempty_texts c = (if c = [] then [] else [c])"

definition nonempty_nodes :: "node_ref \<Rightarrow> js_string \<Rightarrow> node_ref list" where
  "nonempty_nodes a c = (if c = [] then [] else [a])"

lemma nonempty_simps [simp]: "nonempty_texts [] = []" "nonempty_nodes a [] = []" "c \<noteq> [] \<Longrightarrow> nonempty_texts c = [c]"
  "c \<noteq> [] \<Longrightarrow> nonempty_nodes a c = [a]" "concat (nonempty_texts c) = c" "[] \<notin> set (nonempty_texts c)"
  "length (nonempty_nodes a c) = length (nonempty_texts c)"
  by (simp_all add: nonempty_texts_def nonempty_nodes_def)

lemma before_CR:
  assumes "0 < e" "e \<le> ilen s" "s ! nat (e - 1) = CR"
  shows "line_starts s ! nat (line_of s e) = e \<Longrightarrow> 0 < line_of s e \<and> line_of s (e - 1) = line_of s e - 1"
    "line_starts s ! nat (line_of s e) \<noteq> e \<Longrightarrow> line_of s (e - 1) = line_of s e"
    "line_feeds s b (e - 1) = line_feeds s b e - 1"
proof -
  have br: "line_starts s ! nat (line_of s e) = e \<longleftrightarrow> e \<in> set (breaks 0 s)" using line_start_iff [of e s] assms by simp
  show 1: "line_starts s ! nat (line_of s e) = e \<Longrightarrow> 0 < line_of s e \<and> line_of s (e - 1) = line_of s e - 1"
    using br line_of_step [of s e] line_of_bounds(1) [of s "e - 1"] by simp
  show 2: "line_starts s ! nat (line_of s e) \<noteq> e \<Longrightarrow> line_of s (e - 1) = line_of s e"
    using br line_of_step [of s e] by simp
  have "e \<in> set (breaks 0 s) \<longleftrightarrow> \<not> splits_at s e"
    using assms by (auto simp: in_breaks splits_at_iff ends_line_def idrop_def hd_drop_conv_nth)
  moreover have "\<not> splits_at s (e - 1)" using assms by (simp add: splits_at_iff)
  ultimately show "line_feeds s b (e - 1) = line_feeds s b e - 1" using line_of_step [of s e] by (auto simp: line_feeds_def)
qed

lemma fixCRLF_prev:
  assumes ok: "pieces_ok s (xs @ a # ys) (us @ (c @ [CR]) # vs)" and len: "length us = length xs"
    and p: "p = n_piece (pt_tree s) a"
  obtains b newEnd t where "js_get (pt_buffers s) (pc_bufferIndex p) = Some b"
    "(if bc_column (pc_end p) = 0 then do {
         l1 \<leftarrow> js_get (sb_lineStarts b) (bc_line (pc_end p));
         l0 \<leftarrow> js_get (sb_lineStarts b) (bc_line (pc_end p) - 1);
         Some (MkBufferCursor (bc_line (pc_end p) - 1) (l1 - l0 - 1))
       } else Some (MkBufferCursor (bc_line (pc_end p)) (bc_column (pc_end p) - 1))) = Some newEnd"
    "replacePiece a (MkPiece (pc_bufferIndex p) (pc_start p) newEnd (pc_lineFeedCnt p - 1) (pc_length p - 1)) (-1) (-1) (pt_tree s) = Some t"
    "pieces_ok (s\<lparr>pt_tree := t\<rparr>) (xs @ a # ys) (us @ c # vs)" "rb_gone t = rb_gone (pt_tree s)"
    "n_length t a = ilen c" "\<forall>n. n \<noteq> a \<longrightarrow> n_piece t n = n_piece (pt_tree s) n"
proof -
  let ?bufs = "pt_buffers s"
  obtain i b e where r: "range_ok ?bufs i b e" "p = piece_of_range ?bufs i b e" "c @ [CR] = substr (text_at ?bufs i) b e"
    "0 \<le> b" "b \<le> e" "e \<le> ilen (text_at ?bufs i)" "ilen (c @ [CR]) = e - b"
    using pieces_ok_at(2) [OF ok len] unfolding p by (rule piece_holdsE)
  let ?s = "text_at ?bufs i" and ?q = "piece_of_range ?bufs i b (e - 1)"
  have be: "b < e" using r(7) by simp
  have cr: "?s ! nat (e - 1) = CR" using hd_last_substr(3) [OF r(4) be r(6)] r(3) by (metis last_snoc)
  note bc = before_CR [OF _ r(6) cr]
  have rg: "range_ok ?bufs i b (e - 1)" using r be by (auto simp: range_ok_def)
  have "itake (e - 1 - b) (c @ [CR]) = substr ?s b (e - 1)" unfolding r(3) using be r(4) itake_substr [of b "e - 1 - b" e ?s] by simp
  then have "substr ?s b (e - 1) = c" using r(7) by (simp add: itake_append)
  then have q: "piece_holds ?bufs ?q c" "at_end ?bufs ?q \<longrightarrow> at_end ?bufs p"
    using piece_holds_range [OF rg] r by (auto simp: at_end_range)
  have lf: "pc_lineFeedCnt ?q = pc_lineFeedCnt p - 1" "pc_length ?q = pc_length p - 1" using bc(3) be r(2,4) by simp_all
  obtain t where t: "replacePiece a ?q (pc_length ?q - pc_length p) (pc_lineFeedCnt ?q - pc_lineFeedCnt p) (pt_tree s) = Some t"
    "pieces_ok (s\<lparr>pt_tree := t\<rparr>) (xs @ a # ys) (us @ c # vs)"
    "n_piece t = (n_piece (pt_tree s))(a := ?q)" "rb_gone t = rb_gone (pt_tree s)"
    using replace_step [OF ok len q(1)] q(2) p by blast
  obtain buf where buf: "js_get ?bufs i = Some buf" "sb_lineStarts buf = line_starts ?s" using range_okE [OF r(1)] by metis
  have b0: "0 \<le> line_of ?s e" "line_of ?s e \<le> eols ?s" using line_of_bounds by blast+
  have "(if bc_column (pc_end p) = 0 then do {
         l1 \<leftarrow> js_get (sb_lineStarts buf) (bc_line (pc_end p));
         l0 \<leftarrow> js_get (sb_lineStarts buf) (bc_line (pc_end p) - 1);
         Some (MkBufferCursor (bc_line (pc_end p) - 1) (l1 - l0 - 1))
       } else Some (MkBufferCursor (bc_line (pc_end p)) (bc_column (pc_end p) - 1))) = Some (pc_end ?q)"
  proof (cases "line_starts ?s ! nat (line_of ?s e) = e")
    case True
    then show ?thesis using bc(1) be r(2,4) buf(2) b0 by (auto simp: get_line_starts cursor_of_def)
  next
    case False
    then show ?thesis using bc(2) be r(2,4) by (auto simp: cursor_of_def)
  qed
  moreover have "?q = MkPiece (pc_bufferIndex p) (pc_start p) (pc_end ?q) (pc_lineFeedCnt p - 1) (pc_length p - 1)"
    using lf r(2) by (intro piece.expand) simp
  then have "replacePiece a (MkPiece (pc_bufferIndex p) (pc_start p) (pc_end ?q) (pc_lineFeedCnt p - 1) (pc_length p - 1)) (-1) (-1) (pt_tree s) = Some t"
    using t(1) lf by simp
  moreover have "n_length t a = ilen c" using t(3) piece_holds_length [OF q(1)] by (simp add: n_length_def)
  ultimately show thesis using that [of buf "pc_end ?q" t] buf(1) r(2) t(2-4) by simp
qed

lemma deleteNodes_append: "deleteNodes (ms @ ns) t = deleteNodes ms t \<bind> deleteNodes ns"
proof (induction ms arbitrary: t)
  case (Cons m ms)
  then show ?case by (cases "rbDelete m t") (simp_all add: deleteNodes_def)
qed (simp add: deleteNodes_def)

lemma drop_empty_step:
  assumes ok: "pieces_ok s (xs @ a # ys) (us @ c # vs)" and len: "length us = length xs"
  obtains t where "deleteNodes (if c = [] then [a] else []) (pt_tree s) = Some t"
    "pieces_ok (s\<lparr>pt_tree := t\<rparr>) (xs @ nonempty_nodes a c @ ys) (us @ nonempty_texts c @ vs)"
    "n_piece t = n_piece (pt_tree s)" "c = [] \<longrightarrow> rb_gone t a" "\<forall>n. rb_gone (pt_tree s) n \<longrightarrow> rb_gone t n"
proof (cases "c = []")
  case True
  then show thesis using remove_list_step [of s xs "[a]" ys us "[c]" vs] ok len that by auto
next
  case False
  then show thesis using ok that [of "pt_tree s"] by (simp add: deleteNodes_def)
qed

lemma fixCRLF_ok:
  assumes ok: "pieces_ok s (xs @ a # b # ys) (us @ (c @ [CR]) # (LF # d) # vs)" and len: "length us = length xs"
    and check: "shouldCheckCRLF s" and rm: "room s 3"
  obtains s' z where "fixCRLF a b s = Some s'"
    "pieces_ok s' (xs @ nonempty_nodes a c @ z # nonempty_nodes b d @ ys) (us @ nonempty_texts c @ [CR, LF] # nonempty_texts d @ vs)"
    "extends s s' (xs @ ys) 3" "c = [] \<longrightarrow> rb_gone (pt_tree s') a" "d = [] \<longrightarrow> rb_gone (pt_tree s') b"
proof -
  define p where "p = n_piece (pt_tree s) a"
  have ab: "a \<noteq> b" "a \<notin> set xs" "b \<notin> set xs" "a \<notin> set ys" "b \<notin> set ys"
    using pieces_ok_nodes(1) [OF ok] by auto
  from fixCRLF_prev [OF ok len p_def] obtain buf newEnd t1 where
    st1: "js_get (pt_buffers s) (pc_bufferIndex p) = Some buf"
    "(if bc_column (pc_end p) = 0 then do {
         l1 \<leftarrow> js_get (sb_lineStarts buf) (bc_line (pc_end p));
         l0 \<leftarrow> js_get (sb_lineStarts buf) (bc_line (pc_end p) - 1);
         Some (MkBufferCursor (bc_line (pc_end p) - 1) (l1 - l0 - 1))
       } else Some (MkBufferCursor (bc_line (pc_end p)) (bc_column (pc_end p) - 1))) = Some newEnd"
    "replacePiece a (MkPiece (pc_bufferIndex p) (pc_start p) newEnd (pc_lineFeedCnt p - 1) (pc_length p - 1)) (-1) (-1) (pt_tree s) = Some t1"
    and ok1: "pieces_ok (s\<lparr>pt_tree := t1\<rparr>) (xs @ a # b # ys) (us @ c # (LF # d) # vs)" and g1: "rb_gone t1 = rb_gone (pt_tree s)"
    and l1: "n_length t1 a = ilen c" and n1: "\<forall>n. n \<noteq> a \<longrightarrow> n_piece t1 n = n_piece (pt_tree s) n" by blast
  let ?s1 = "s\<lparr>pt_tree := t1\<rparr>"
  obtain q t2 where st2: "pieceWithoutLF (pt_buffers s) (n_piece t1 b) = Some q" "replacePiece b q (-1) (-1) t1 = Some t2"
    and ok2: "pieces_ok (s\<lparr>pt_tree := t2\<rparr>) (xs @ a # b # ys) (us @ c # d # vs)" and n2: "n_piece t2 = (n_piece t1)(b := q)"
    and g2: "rb_gone t2 = rb_gone t1" and l2: "pc_length q = ilen d"
    using dropLF_step [of ?s1 "xs @ [a]" b ys "us @ [c]" d vs] ok1 len by auto
  let ?s2 = "s\<lparr>pt_tree := t2\<rparr>"
  have st: "buffers_state ?s2" "room ?s2 (ilen [CR, LF] + 1)" using ok2 rm by (simp_all add: pieces_ok_def room_def)
  obtain ps ds bufs pos where nw: "new_pieces_for [CR, LF] ?s2 ps ds bufs pos"
    using createNewPieces_ok [OF st(1) _ _ st(2)] check by auto
  note c = nw [unfolded new_pieces_for_def]
  let ?s3 = "?s2\<lparr>pt_buffers := bufs, pt_lastChangeBufferPos := pos\<rparr>"
  have ds: "ds = [[CR, LF]]" using crlf_texts c by blast
  then obtain r where r: "ps = [r]" using c by (auto simp: list_all2_Cons2)
  note gr = pieces_ok_grow [OF ok2 nw]
  have ok3: "pieces_ok ?s3 (xs @ a # b # ys) (us @ c # d # vs)" using gr(1) .
  have cnt: "length (filter (at_end bufs) (map (n_piece t2) (xs @ a # b # ys) @ ps)) \<le> 1" using gr(3) by simp
  have "list_all2 (piece_holds (pt_buffers ?s3)) ps ds" using c by simp
  from insert_right_step [OF ok3 len this] cnt obtain zs t4 where
    t4: "insert_chain rbInsertRight a ps t2 = Some (last (a # zs), t4)"
    "pieces_ok (?s3\<lparr>pt_tree := t4\<rparr>) (xs @ a # zs @ b # ys) (us @ c # ds @ d # vs)" "map (n_piece t4) zs = ps"
    "\<forall>n\<in>set (xs @ a # b # ys). n_piece t4 n = n_piece t2 n" "\<forall>n. rb_gone t2 n \<longrightarrow> rb_gone t4 n" by auto
  obtain z where z: "zs = [z]" using t4(3) r by auto
  let ?s4 = "?s3\<lparr>pt_tree := t4\<rparr>"
  have ins: "rbInsertRight a r t2 = Some (z, t4)" using t4(1) r z by (auto split: bind_splits)
  let ?del = "(if n_length t1 a = 0 then [a] else []) @ (if n_length t2 b = 0 then [b] else [])"
  have del: "?del = (if c = [] then [a] else []) @ (if d = [] then [b] else [])"
    using l1 l2 n2 by (auto simp: n_length_def)
  have fx: "fixCRLF a b s = (case deleteNodes ?del t4 of None \<Rightarrow> None | Some t \<Rightarrow> Some (?s3\<lparr>pt_tree := t\<rparr>))"
    using st1 st2 c r ins unfolding fixCRLF_def p_def Let_def
    by (cases "deleteNodes ?del t4") (simp_all)
  have ok4: "pieces_ok ?s4 (xs @ a # z # b # ys) (us @ c # [CR, LF] # d # vs)" using t4(2) z ds by simp
  from drop_empty_step [OF ok4 len] obtain t5 where t5: "deleteNodes (if c = [] then [a] else []) t4 = Some t5"
    "pieces_ok (?s4\<lparr>pt_tree := t5\<rparr>) (xs @ nonempty_nodes a c @ z # b # ys) (us @ nonempty_texts c @ [CR, LF] # d # vs)"
    "n_piece t5 = n_piece t4" "c = [] \<longrightarrow> rb_gone t5 a" "\<forall>n. rb_gone t4 n \<longrightarrow> rb_gone t5 n" by auto
  have ok5: "pieces_ok (?s4\<lparr>pt_tree := t5\<rparr>) ((xs @ nonempty_nodes a c @ [z]) @ b # ys) ((us @ nonempty_texts c @ [[CR, LF]]) @ d # vs)"
    using t5(2) by simp
  have len5: "length (us @ nonempty_texts c @ [[CR, LF]]) = length (xs @ nonempty_nodes a c @ [z])" using len by simp
  from drop_empty_step [OF ok5 len5] obtain t6 where t6: "deleteNodes (if d = [] then [b] else []) t5 = Some t6"
    "pieces_ok (?s4\<lparr>pt_tree := t6\<rparr>) (xs @ nonempty_nodes a c @ z # nonempty_nodes b d @ ys) (us @ nonempty_texts c @ [CR, LF] # nonempty_texts d @ vs)"
    "n_piece t6 = n_piece t5" "d = [] \<longrightarrow> rb_gone t6 b" "\<forall>n. rb_gone t5 n \<longrightarrow> rb_gone t6 n" by auto
  have "deleteNodes ?del t4 = Some t6" unfolding del deleteNodes_append using t5(1) t6(1) by simp
  then have "fixCRLF a b s = Some (?s3\<lparr>pt_tree := t6\<rparr>)" using fx by simp
  moreover have "extends s (?s3\<lparr>pt_tree := t6\<rparr>) (xs @ ys) 3"
  proof -
    have "\<forall>n\<in>set (xs @ ys). n_piece t6 n = n_piece (pt_tree s) n" using t6(3) t5(3) t4(4) n2 n1 ab by auto
    moreover have "\<forall>n. rb_gone (pt_tree s) n \<longrightarrow> rb_gone t6 n" using t6(5) t5(5) t4(5) g1 g2 by simp
    moreover have "ilen (text_at bufs 0) \<le> ilen (text_at (pt_buffers s) 0) + 3" "kept (pt_buffers s) bufs" using c by (simp_all add: grows_kept)
    ultimately show ?thesis by (simp add: extends_def same_settings_def)
  qed
  ultimately show thesis using that t6(2,4,5) t5(4) by simp
qed


text \<open>In a text that is not checked for \<open>\r\n\<close> there is no \<open>\r\<close>.\<close>

lemma piece_holds_no_cr:
  assumes "\<forall>b\<in>set bufs. no_cr (sb_buffer b)" "piece_holds bufs p c"
  shows "no_cr c"
proof -
  obtain i a e where r: "range_ok bufs i a e" "c = substr (text_at bufs i) a e" using assms(2) by (rule piece_holdsE)
  then have "nat i < length bufs" by (auto simp: range_ok_def nat_less_iff)
  then have "no_cr (text_at bufs i)" using assms(1) by (simp add: text_at_def)
  then show ?thesis using r(2) by (auto simp: no_cr_def substr_def itake_def idrop_def dest: in_set_takeD in_set_dropD)
qed

lemma unchecked_no_cr:
  assumes "pieces_ok s ns cs" "\<not> shouldCheckCRLF s" "c \<in> set cs"
  shows "no_cr c"
proof -
  have "list_all2 (piece_holds (pt_buffers s)) (map (n_piece (pt_tree s)) ns) cs" using assms(1) by (simp add: pieces_ok_def segs_ok_def)
  then obtain p where "piece_holds (pt_buffers s) p c" using assms(3) by (auto simp: list_all2_conv_all_nth in_set_conv_nth)
  then show ?thesis using piece_holds_no_cr assms(1,2) by (auto simp: pieces_ok_def buffers_state_def)
qed

lemma no_cr_splits: "no_cr c \<Longrightarrow> \<not> splits_crlf c d"
  unfolding no_cr_def splits_crlf_def by (metis last_in_set)

text \<open>Two neighbours after the check: \<open>as\<close> is the first of them, or nothing when it was used up.\<close>

definition pair_fixed :: "piece_tree \<Rightarrow> piece_tree \<Rightarrow> node_ref list \<Rightarrow> node_ref \<Rightarrow> node_ref \<Rightarrow> node_ref list \<Rightarrow>
    js_string list \<Rightarrow> js_string \<Rightarrow> js_string list \<Rightarrow> bool" where
  "pair_fixed s s' xs a b ys us text vs \<longleftrightarrow> (\<exists>as ms ws.
     pieces_ok s' (xs @ as @ ms @ ys) (us @ ws @ vs) \<and> length ws = length (as @ ms) \<and>
     (as = [a] \<or> as = [] \<and> rb_gone (pt_tree s') a) \<and> (b \<in> set ms \<or> rb_gone (pt_tree s') b) \<and>
     concat ws = text \<and> [] \<notin> set ws \<and> joined ws \<and> ws \<noteq> [] \<and> extends s s' (xs @ ys) 3)"

lemma validate_pair:
  assumes ok: "pieces_ok s (xs @ a # b # ys) (us @ c # d # vs)" and len: "length us = length xs" and cd: "c \<noteq> []" "d \<noteq> []"
    and rm: "room s 3"
  shows "\<exists>s'. (if shouldCheckCRLF s \<and> hd d = LF \<and> last c = CR then fixCRLF a b s else Some s) = Some s' \<and>
    pair_fixed s s' xs a b ys us (c @ d) vs"
proof (cases "shouldCheckCRLF s \<and> hd d = LF \<and> last c = CR")
  case True
  obtain c' d' where cd': "c = c' @ [CR]" "d = LF # d'" using True cd by (metis append_butlast_last_id list.collapse)
  obtain s' z where f: "fixCRLF a b s = Some s'"
    "pieces_ok s' (xs @ nonempty_nodes a c' @ z # nonempty_nodes b d' @ ys) (us @ nonempty_texts c' @ [CR, LF] # nonempty_texts d' @ vs)"
    "extends s s' (xs @ ys) 3" "c' = [] \<longrightarrow> rb_gone (pt_tree s') a" "d' = [] \<longrightarrow> rb_gone (pt_tree s') b"
    using fixCRLF_ok [of s xs a b ys us c' d' vs] ok len cd' True rm by metis
  have "joined (nonempty_texts c' @ [CR, LF] # nonempty_texts d')"
    by (auto simp: joined_Cons_iff joined_append splits_crlf_def nonempty_texts_def)
  then have "pair_fixed s s' xs a b ys us (c @ d) vs"
    unfolding pair_fixed_def using f(2-5) cd'
    by (intro exI [of _ "nonempty_nodes a c'"] exI [of _ "z # nonempty_nodes b d'"] exI [of _ "nonempty_texts c' @ [CR, LF] # nonempty_texts d'"])
      (auto simp: nonempty_nodes_def)
  then show ?thesis using f(1) True by auto
next
  case False
  have "\<not> splits_crlf c d"
  proof (cases "shouldCheckCRLF s")
    case True
    then show ?thesis using False by (auto simp: splits_crlf_def)
  next
    case f: False
    then show ?thesis using unchecked_no_cr [OF ok f, of c] no_cr_splits by simp
  qed
  then have "pair_fixed s s xs a b ys us (c @ d) vs"
    unfolding pair_fixed_def using ok cd by (intro exI [of _ "[a]"] exI [of _ "[b]"] exI [of _ "[c, d]"])
      (auto simp: joined_Cons_iff extends_refl)
  then show ?thesis using False by auto
qed

lemma tree_next:
  "pieces_ok s (xs @ a # ys) cs \<Longrightarrow> TreeNode_next (pt_tree s) a = Some (if ys = [] then SENTINEL else hd ys)"
  unfolding pieces_ok_def by (elim conjE) (erule rbt.succ)

lemma tree_prev:
  "pieces_ok s (xs @ a # ys) cs \<Longrightarrow> TreeNode_prev (pt_tree s) a = Some (if xs = [] then SENTINEL else last xs)"
  unfolding pieces_ok_def by (elim conjE) (erule rbt.pred)

lemma validatePrev_ok:
  assumes ok: "pieces_ok s (xs @ a # b # ys) (us @ c # d # vs)" and len: "length us = length xs" and cd: "c \<noteq> []" "d \<noteq> []"
    and rm: "room s 3"
  shows "\<exists>s'. validateCRLFWithPrevNode b s = Some s' \<and> pair_fixed s s' xs a b ys us (c @ d) vs"
proof -
  have "pieces_ok s ((xs @ [a]) @ b # ys) ((us @ [c]) @ d # vs)" "length (us @ [c]) = length (xs @ [a])" using ok len by simp_all
  then have "startWithLF s b = Some (hd d = LF)" "TreeNode_prev (pt_tree s) b = Some a"
    using startWithLF_ok [of s "xs @ [a]" b ys "us @ [c]" d vs] tree_prev [of s "xs @ [a]" b ys] cd by auto
  moreover have "endWithCR s a = Some (last c = CR)" using startWithLF_ok(2) [OF ok len cd(1)] .
  ultimately have "validateCRLFWithPrevNode b s = (if shouldCheckCRLF s \<and> hd d = LF \<and> last c = CR then fixCRLF a b s else Some s)"
    by (simp add: validateCRLFWithPrevNode_def)
  then show ?thesis using validate_pair [OF ok len cd rm] by simp
qed

lemma validateNext_ok:
  assumes ok: "pieces_ok s (xs @ a # b # ys) (us @ c # d # vs)" and len: "length us = length xs" and cd: "c \<noteq> []" "d \<noteq> []"
    and rm: "room s 3"
  shows "\<exists>s'. validateCRLFWithNextNode a s = Some s' \<and> pair_fixed s s' xs a b ys us (c @ d) vs"
proof -
  have "pieces_ok s ((xs @ [a]) @ b # ys) ((us @ [c]) @ d # vs)" "length (us @ [c]) = length (xs @ [a])" using ok len by simp_all
  then have "startWithLF s b = Some (hd d = LF)" using startWithLF_ok [of s "xs @ [a]" b ys "us @ [c]" d vs] cd by auto
  moreover have "endWithCR s a = Some (last c = CR)" using startWithLF_ok(2) [OF ok len cd(1)] .
  moreover have "TreeNode_next (pt_tree s) a = Some b" using tree_next [OF ok] by simp
  ultimately have "validateCRLFWithNextNode a s = (if shouldCheckCRLF s \<and> hd d = LF \<and> last c = CR then fixCRLF a b s else Some s)"
    by (simp add: validateCRLFWithNextNode_def)
  then show ?thesis using validate_pair [OF ok len cd rm] by simp
qed

text \<open>At the ends of the text nothing is done.\<close>

lemma validatePrev_first:
  assumes ok: "pieces_ok s (b # ys) (d # vs)" and d: "d \<noteq> []"
  shows "validateCRLFWithPrevNode b s = Some s"
  using startWithLF_ok [of s "[]" b ys "[]" d vs] tree_prev [of s "[]" b ys] ok d by (simp add: validateCRLFWithPrevNode_def)

lemma validateNext_last:
  assumes ok: "pieces_ok s (xs @ [a]) (us @ [c])" and c: "c \<noteq> []"
  shows "validateCRLFWithNextNode a s = Some s"
proof -
  have "length us = length xs" using pieces_ok_nodes(4) [OF ok] by simp
  then show ?thesis using startWithLF_ok [OF ok _ c] tree_next [OF ok] by (simp add: validateCRLFWithNextNode_def)
qed

lemma validate_sentinel [simp]:
  "validateCRLFWithPrevNode SENTINEL s = Some s" "validateCRLFWithNextNode SENTINEL s = Some s"
  by (simp_all add: validateCRLFWithPrevNode_def validateCRLFWithNextNode_def)


section \<open>Insertion at the end of a node\<close>

lemma hd_concat_texts: "cs \<noteq> [] \<Longrightarrow> [] \<notin> set cs \<Longrightarrow> concat cs \<noteq> [] \<and> hd (concat cs) = hd (hd cs)"
  by (cases cs) auto

lemma last_concat_texts: "cs \<noteq> [] \<Longrightarrow> [] \<notin> set cs \<Longrightarrow> concat cs \<noteq> [] \<and> last (concat cs) = last (last cs)"
  by (cases cs rule: rev_cases) auto

lemma splits_crlf_concat:
  assumes "cs \<noteq> []" "[] \<notin> set cs"
  shows "splits_crlf x (concat cs) = splits_crlf x (hd cs)" "splits_crlf (concat cs) x = splits_crlf (last cs) x"
proof -
  have "hd cs \<noteq> []" "last cs \<noteq> []" using assms by (metis hd_in_set, metis last_in_set)
  then show "splits_crlf x (concat cs) = splits_crlf x (hd cs)" "splits_crlf (concat cs) x = splits_crlf (last cs) x"
    using hd_concat_texts [OF assms] last_concat_texts [OF assms] by (simp_all add: splits_crlf_def)
qed

text \<open>Joined texts, by their concatenations.\<close>

lemma joined_append_iff:
  "[] \<notin> set xs \<Longrightarrow> [] \<notin> set ys \<Longrightarrow> joined (xs @ ys) \<longleftrightarrow> joined xs \<and> joined ys \<and> \<not> splits_crlf (concat xs) (concat ys)"
  by (cases "xs = [] \<or> ys = []") (auto simp: joined_append splits_crlf_concat)

definition adjusted :: "js_string \<Rightarrow> bool \<Rightarrow> js_string" where
  "adjusted v adj = (if adj then v @ [LF] else v)"

lemma adjust_ok:
  assumes ok: "pieces_ok s (xs @ a # ys) (us @ c # vs)" and len: "length us = length xs"
    and vs: "[] \<notin> set vs" "joined vs" and v: "v \<noteq> []" "\<not> shouldCheckCRLF s \<longrightarrow> no_cr v"
  shows "\<exists>adj t ys' vs'. adjustCarriageReturnFromNext v a s = Some (adj, s\<lparr>pt_tree := t\<rparr>) \<and>
    pieces_ok (s\<lparr>pt_tree := t\<rparr>) (xs @ a # ys') (us @ c # vs') \<and>
    adjusted v adj @ concat vs' = v @ concat vs \<and> \<not> splits_crlf (adjusted v adj) (concat vs') \<and> [] \<notin> set vs' \<and> joined vs' \<and>
    extends s (s\<lparr>pt_tree := t\<rparr>) (xs @ [a]) 0"
proof (cases "shouldCheckCRLF s \<and> string_endWithCR v \<and> (\<exists>d vs'. vs = (LF # d) # vs')")
  case True
  then obtain d vs' where d: "vs = (LF # d) # vs'" by blast
  then obtain b ys' where b: "ys = b # ys'" using pieces_ok_at(4) [OF ok len] by (cases ys) auto
  have ok2: "pieces_ok s ((xs @ [a]) @ b # ys') ((us @ [c]) @ (LF # d) # vs')" "length (us @ [c]) = length (xs @ [a])"
    using ok len d b by simp_all
  have nd: "distinct (xs @ a # b # ys')" using pieces_ok_nodes(1) [OF ok] b by simp
  have nx: "TreeNode_next (pt_tree s) a = Some b" "startWithLF s b = Some True"
    using tree_next [OF ok] b startWithLF_ok(1) [OF ok2] by simp_all
  have bl: "n_length (pt_tree s) b = 1 + ilen d" using piece_holds_length [OF pieces_ok_at(2) [OF ok2]] by (simp add: n_length_def)
  have sp: "\<not> splits_crlf (adjusted v True) x" for x by (simp add: adjusted_def splits_crlf_def)
  show ?thesis
  proof (cases "d = []")
    case True
    from remove_step [OF ok2] obtain t where t: "rbDelete b (pt_tree s) = Some t" "pieces_ok (s\<lparr>pt_tree := t\<rparr>) ((xs @ [a]) @ ys') ((us @ [c]) @ vs')"
      "n_piece t = n_piece (pt_tree s)" "\<forall>n. rb_gone (pt_tree s) n \<longrightarrow> rb_gone t n" by blast
    have "adjustCarriageReturnFromNext v a s = Some (True, s\<lparr>pt_tree := t\<rparr>)"
      using \<open>shouldCheckCRLF s \<and> _\<close> nx bl True t(1) by (simp add: adjustCarriageReturnFromNext_def)
    moreover have "extends s (s\<lparr>pt_tree := t\<rparr>) (xs @ [a]) 0" using t(3,4) by (intro extends_tree) simp_all
    moreover have "joined vs'" using vs d by (simp add: joined_Cons_iff)
    ultimately show ?thesis using t(2) vs d True sp
      by (intro exI [of _ True] exI [of _ t] exI [of _ ys'] exI [of _ vs'] conjI) (simp_all add: adjusted_def)
  next
    case False
    obtain q t where t: "pieceWithoutLF (pt_buffers s) (n_piece (pt_tree s) b) = Some q"
      "replacePiece b q (-1) (-1) (pt_tree s) = Some t" "pieces_ok (s\<lparr>pt_tree := t\<rparr>) ((xs @ [a]) @ b # ys') ((us @ [c]) @ d # vs')"
      "n_piece t = (n_piece (pt_tree s))(b := q)" "rb_gone t = rb_gone (pt_tree s)" "pc_length q = ilen d"
      by (rule dropLF_step [OF ok2])
    have "adjustCarriageReturnFromNext v a s = Some (True, s\<lparr>pt_tree := t\<rparr>)"
    proof -
      have "n_length (pt_tree s) b \<noteq> 1" "shouldCheckCRLF s \<and> string_endWithCR v"
        using bl False \<open>shouldCheckCRLF s \<and> _\<close> by simp_all
      then show ?thesis by (simp only: adjustCarriageReturnFromNext_def nx if_True if_False Option.bind.simps t(1,2) simp_thms)
    qed
    moreover have "extends s (s\<lparr>pt_tree := t\<rparr>) (xs @ [a]) 0" using t(4,5) nd by (intro extends_tree) auto
    moreover have "joined (d # vs')" using vs d False by (auto simp: joined_Cons_iff splits_crlf_def)
    ultimately show ?thesis using t(3) vs d b False sp
      by (intro exI [of _ True] exI [of _ t] exI [of _ ys] exI [of _ "d # vs'"] conjI) (simp_all add: adjusted_def)
  qed
next
  case False
  have "adjustCarriageReturnFromNext v a s = Some (False, s)"
  proof (cases "shouldCheckCRLF s \<and> string_endWithCR v")
    case True
    show ?thesis
    proof (cases ys)
      case Nil
      then show ?thesis using tree_next [OF ok] True by (simp add: adjustCarriageReturnFromNext_def)
    next
      case (Cons b ys')
      then obtain d vs' where d: "vs = d # vs'" using pieces_ok_at(4) [OF ok len] by (cases vs) auto
      have ok2: "pieces_ok s ((xs @ [a]) @ b # ys') ((us @ [c]) @ d # vs')" "length (us @ [c]) = length (xs @ [a])" "d \<noteq> []"
        using ok len d Cons vs by auto
      have "hd d \<noteq> LF" using False True d ok2(3) by (cases d) auto
      then show ?thesis using tree_next [OF ok] Cons startWithLF_ok(1) [OF ok2] True by (simp add: adjustCarriageReturnFromNext_def)
    qed
  qed (auto simp: adjustCarriageReturnFromNext_def)
  moreover have "\<not> splits_crlf v (concat vs)"
  proof
    assume sp: "splits_crlf v (concat vs)"
    then have "shouldCheckCRLF s" using v(2) no_cr_splits by blast
    moreover have "string_endWithCR v" using sp by (simp add: string_endWithCR_iff splits_crlf_def)
    moreover have "vs \<noteq> []" using sp by auto
    then obtain d vs' where d: "vs = d # vs'" by (cases vs) auto
    then have "d \<noteq> []" "hd d = LF" using sp vs(1) by (auto simp: splits_crlf_def)
    ultimately show False using False d by (cases d) auto
  qed
  ultimately show ?thesis using ok vs
    by (intro exI [of _ False] exI [of _ "pt_tree s"] exI [of _ ys] exI [of _ vs]) (simp add: adjusted_def extends_refl)
qed

lemma filter_count_Cons: "length (filter P (x # xs)) = (if P x then 1 else 0) + length (filter P xs)"
  by simp

text \<open>The first new node, then the others behind it.\<close>

lemma insert_first_rest:
  assumes ok: "pieces_ok s (xs @ a # ys) (us @ c # vs)" and len: "length us = length xs"
    and ps: "list_all2 (piece_holds (pt_buffers s)) ps ds" "ps \<noteq> []"
      "length (filter (at_end (pt_buffers s)) (map (n_piece (pt_tree s)) (xs @ a # ys) @ ps)) \<le> 1"
  shows "\<exists>z zs t1 y t2. rbInsertRight a (hd ps) (pt_tree s) = Some (z, t1) \<and> insert_chain rbInsertRight z (tl ps) t1 = Some (y, t2) \<and>
    pieces_ok (s\<lparr>pt_tree := t2\<rparr>) (xs @ a # z # zs @ ys) (us @ c # ds @ vs) \<and> length ds = Suc (length zs) \<and>
    (\<forall>n\<in>set (xs @ a # ys). n_piece t2 n = n_piece (pt_tree s) n) \<and> (\<forall>b. rb_gone (pt_tree s) b \<longrightarrow> rb_gone t2 b)"
proof -
  obtain p ps' d ds' where p: "ps = p # ps'" "ds = d # ds'" "list_all2 (piece_holds (pt_buffers s)) [p] [d]"
    "list_all2 (piece_holds (pt_buffers s)) ps' ds'" using ps(1,2) by (cases ps) (auto simp: list_all2_Cons1)
  have "length (filter (at_end (pt_buffers s)) (map (n_piece (pt_tree s)) (xs @ a # ys) @ [p])) \<le> 1" using ps(3) p(1) by auto
  from insert_right_step [OF ok len p(3) this] obtain zs1 t1 where
    t1: "insert_chain rbInsertRight a [p] (pt_tree s) = Some (last (a # zs1), t1)"
    "pieces_ok (s\<lparr>pt_tree := t1\<rparr>) (xs @ a # zs1 @ ys) (us @ c # [d] @ vs)" "map (n_piece t1) zs1 = [p]"
    "\<forall>n\<in>set (xs @ a # ys). n_piece t1 n = n_piece (pt_tree s) n" "\<forall>b. rb_gone (pt_tree s) b \<longrightarrow> rb_gone t1 b" by metis
  then obtain z where z: "zs1 = [z]" by auto
  have ins: "rbInsertRight a p (pt_tree s) = Some (z, t1)" using t1(1) z by (auto split: bind_splits)
  have ok1: "pieces_ok (s\<lparr>pt_tree := t1\<rparr>) ((xs @ [a]) @ z # ys) ((us @ [c]) @ d # vs)" "length (us @ [c]) = length (xs @ [a])"
    using t1(2) z len by simp_all
  have nodes: "map (n_piece t1) ((xs @ [a]) @ z # ys) = map (n_piece (pt_tree s)) (xs @ [a]) @ p # map (n_piece (pt_tree s)) ys"
    using t1(3,4) z by auto
  have "length (filter (at_end (pt_buffers s)) (map (n_piece t1) ((xs @ [a]) @ z # ys) @ ps')) \<le> 1"
    unfolding nodes using ps(3) by (simp only: p(1) map_append list.map filter_append filter_count_Cons length_append append.simps append_assoc)
  with insert_right_step [OF ok1, of ps' ds'] p(4) obtain zs t2 where
    t2: "insert_chain rbInsertRight z ps' t1 = Some (last (z # zs), t2)"
    "pieces_ok (s\<lparr>pt_tree := t2\<rparr>) ((xs @ [a]) @ z # zs @ ys) ((us @ [c]) @ d # ds' @ vs)" "map (n_piece t2) zs = ps'"
    "\<forall>n\<in>set ((xs @ [a]) @ z # ys). n_piece t2 n = n_piece t1 n" "\<forall>b. rb_gone t1 b \<longrightarrow> rb_gone t2 b" by auto
  have "length ds' = length zs" using t2(3) p(4) by (auto dest!: list_all2_lengthD)
  then show ?thesis using ins t2 t1(4,5) p(1,2) by (intro exI [of _ z] exI [of _ zs] exI [of _ t1] exI [of _ "last (z # zs)"] exI [of _ t2]) simp
qed

lemma joined_parts:
  assumes "[] \<notin> set us" "[] \<notin> set ws" "[] \<notin> set vs"
  shows "joined (us @ ws @ vs) \<longleftrightarrow> joined us \<and> joined ws \<and> joined vs \<and> \<not> splits_crlf (concat us) (concat ws @ concat vs) \<and>
    \<not> splits_crlf (concat ws) (concat vs)"
  using assms joined_append_iff [of us "ws @ vs"] joined_append_iff [of ws vs] by auto

lemma splits_crlf_append:
  "y \<noteq> [] \<Longrightarrow> splits_crlf x (y @ z) = splits_crlf x y" "y \<noteq> [] \<Longrightarrow> splits_crlf (x @ y) z = splits_crlf y z"
  by (auto simp: splits_crlf_def)

lemma adjusted_simps: "adjusted v adj \<noteq> []" if "v \<noteq> []" for v adj
  using that by (simp add: adjusted_def)

text \<open>
  The result of an edit at node \<open>a\<close>: the nodes before it are untouched, and it is still there or
  gone. This is what keeps a cache entry for \<open>a\<close> valid.
\<close>

definition edited :: "piece_tree \<Rightarrow> piece_tree \<Rightarrow> node_ref list \<Rightarrow> node_ref \<Rightarrow> js_string \<Rightarrow> int \<Rightarrow> bool" where
  "edited s s' xs a text k \<longleftrightarrow> (\<exists>as ys cs. pieces_ok s' (xs @ as @ ys) cs \<and> (as = [a] \<or> as = [] \<and> rb_gone (pt_tree s') a) \<and>
     [] \<notin> set cs \<and> joined cs \<and> concat cs = text \<and> extends s s' xs k)"

lemma editedI:
  "pieces_ok s' (xs @ as @ ys) cs \<Longrightarrow> as = [a] \<or> as = [] \<and> rb_gone (pt_tree s') a \<Longrightarrow> [] \<notin> set cs \<Longrightarrow> joined cs \<Longrightarrow>
    concat cs = text \<Longrightarrow> extends s s' xs k \<Longrightarrow> edited s s' xs a text k"
  unfolding edited_def by blast

lemma insertContentToNodeRight_ok:
  assumes ok: "pieces_ok s (xs @ a # ys) (us @ c # vs)" and len: "length us = length xs"
    and cs: "[] \<notin> set (us @ c # vs)" "joined (us @ c # vs)" and v: "v \<noteq> []" "\<not> shouldCheckCRLF s \<longrightarrow> no_cr v"
    and rm: "room s (ilen v + 5)"
  shows "\<exists>s'. insertContentToNodeRight v a s = Some s' \<and> edited s s' xs a (concat us @ c @ v @ concat vs) (ilen v + 5)"
proof -
  have j: "joined us" "joined vs" "\<not> splits_crlf (concat us) c" "c \<noteq> []" "[] \<notin> set us" "[] \<notin> set vs"
    using cs joined_parts [of us "[c]" vs] by (auto simp: splits_crlf_append)
  obtain adj t ys' vs' where adj: "adjustCarriageReturnFromNext v a s = Some (adj, s\<lparr>pt_tree := t\<rparr>)"
    "pieces_ok (s\<lparr>pt_tree := t\<rparr>) (xs @ a # ys') (us @ c # vs')"
    "adjusted v adj @ concat vs' = v @ concat vs" "\<not> splits_crlf (adjusted v adj) (concat vs')" "[] \<notin> set vs'" "joined vs'"
    "extends s (s\<lparr>pt_tree := t\<rparr>) (xs @ [a]) 0"
    using adjust_ok [OF ok len j(6,2) v] by auto
  let ?w = "adjusted v adj" and ?s1 = "s\<lparr>pt_tree := t\<rparr>"
  have w: "?w \<noteq> []" "ilen ?w \<le> ilen v + 1" "\<not> shouldCheckCRLF ?s1 \<longrightarrow> no_cr ?w"
    using v by (auto simp: adjusted_def no_cr_def CR_def LF_def)
  have st: "buffers_state ?s1" "room ?s1 (ilen ?w + 1)" using adj(2) rm w(2) by (simp_all add: pieces_ok_def room_def)
  obtain ps ds bufs pos where nw: "new_pieces_for ?w ?s1 ps ds bufs pos" using createNewPieces_ok [OF st(1) w(1,3) st(2)] by blast
  note c = nw [unfolded new_pieces_for_def]
  let ?s2 = "?s1\<lparr>pt_buffers := bufs, pt_lastChangeBufferPos := pos\<rparr>"
  note gr = pieces_ok_grow [OF adj(2) nw]
  have ps: "list_all2 (piece_holds (pt_buffers ?s2)) ps ds" "ps \<noteq> []"
    "length (filter (at_end (pt_buffers ?s2)) (map (n_piece (pt_tree ?s2)) (xs @ a # ys') @ ps)) \<le> 1" using c gr(3) by auto
  obtain z zs t1 y t2 where ins: "rbInsertRight a (hd ps) t = Some (z, t1)" "insert_chain rbInsertRight z (tl ps) t1 = Some (y, t2)"
    "pieces_ok (?s2\<lparr>pt_tree := t2\<rparr>) (xs @ a # z # zs @ ys') (us @ c # ds @ vs')" "length ds = Suc (length zs)"
    "\<forall>n\<in>set (xs @ a # ys'). n_piece t2 n = n_piece t n" "\<forall>b. rb_gone t b \<longrightarrow> rb_gone t2 b"
    using insert_first_rest [OF gr(1) len ps] by auto
  let ?s3 = "?s2\<lparr>pt_tree := t2\<rparr>"
  obtain d ds' where d: "ds = d # ds'" using ins(4) by (cases ds) auto
  have dn: "d \<noteq> []" "[] \<notin> set ds'" "d @ concat ds' = ?w" "joined ds'" "\<not> splits_crlf d (concat ds')"
    using c d joined_append_iff [of "[d]" ds'] by auto
  have ok3: "pieces_ok ?s3 (xs @ a # z # zs @ ys') (us @ c # d # ds' @ vs')" using ins(3) d by simp
  have e3: "extends s ?s3 (xs @ [a]) (ilen v + 2)"
    using adj(7) ins(5,6) c w(2) by (auto simp: extends_def same_settings_def grows_kept)
  have "room ?s3 3" using extends_room [OF e3 rm] by simp
  from validatePrev_ok [OF ok3 len j(4) dn(1) this] obtain s' where s': "validateCRLFWithPrevNode z ?s3 = Some s'"
    "pair_fixed ?s3 s' xs a z (zs @ ys') us (c @ d) (ds' @ vs')" by blast
  then obtain as ms ws where f: "pieces_ok s' (xs @ as @ ms @ zs @ ys') (us @ ws @ ds' @ vs')" "as = [a] \<or> as = [] \<and> rb_gone (pt_tree s') a"
    "concat ws = c @ d" "[] \<notin> set ws" "joined ws" "extends ?s3 s' (xs @ zs @ ys') 3" unfolding pair_fixed_def by blast
  have run: "insertContentToNodeRight v a s = Some s'"
    using adj(1) c ins(1,2) s'(1) by (simp add: insertContentToNodeRight_def adjusted_def [symmetric])
  have "extends s s' xs (ilen v + 2 + 3)"
    by (rule extends_trans [OF extends_mono [OF e3] extends_mono [OF f(6)]]) auto
  then have "extends s s' xs (ilen v + 5)" by (rule extends_mono) auto
  moreover have "joined (us @ ws @ ds' @ vs')"
  proof -
    have "\<not> splits_crlf ?w (concat vs')" using adj(4) .
    then have "joined (d # ds' @ vs')"
      using joined_append_iff [of "d # ds'" vs'] dn(1-3) adj(5,6) c d by simp
    then have b: "\<not> splits_crlf d (concat (ds' @ vs'))" "joined (ds' @ vs')"
      using joined_append_iff [of "[d]" "ds' @ vs'"] dn(1,2) adj(5) by simp_all
    then show ?thesis using joined_parts [of us ws "ds' @ vs'"] j f(3-5) dn adj(5) by (auto simp: splits_crlf_append)
  qed
  moreover have "concat (us @ ws @ ds' @ vs') = concat us @ c @ v @ concat vs" using f(3) dn(3) adj(3) by (metis append.assoc concat_append)
  moreover have "[] \<notin> set (us @ ws @ ds' @ vs')" using j f(4) dn(2) adj(5) by simp
  ultimately have "edited s s' xs a (concat us @ c @ v @ concat vs) (ilen v + 5)" by (intro editedI [OF f(1,2)]) simp_all
  then show ?thesis using run by blast
qed


section \<open>Insertion behind the end of the change buffer\<close>

lemma line_starts_append_split:
  "line_starts (x @ w) = (if splits_crlf x w then butlast (line_starts x) else line_starts x) @ map (\<lambda>l. l + ilen x) (breaks 0 w)"
  using breaks_CR [of x w 0] breaks_shift [of 0 "ilen x" w] by (simp add: line_starts_def breaks_append)

text \<open>Only the piece at the end of the change buffer notices that the buffer grows.\<close>

lemma append_piece:
  assumes "piece_holds bufs p d" "\<not> at_end bufs p" "buffers_ok bufs'" "ilen bufs' = ilen bufs"
    "text_at bufs' 0 = text_at bufs 0 @ w" "w \<noteq> []" "\<forall>i. 0 < i \<and> i < ilen bufs \<longrightarrow> text_at bufs' i = text_at bufs i"
  shows "piece_holds bufs' p d \<and> \<not> at_end bufs' p"
proof -
  obtain i b e where r: "range_ok bufs i b e" "p = piece_of_range bufs i b e" "d = substr (text_at bufs i) b e"
    "0 \<le> b" "b \<le> e" "e \<le> ilen (text_at bufs i)" using assms(1) by (rule piece_holdsE)
  obtain w' where w': "text_at bufs' i = text_at bufs i @ w'" "e < ilen (text_at bufs i) \<or> w' = []" "i = 0 \<longrightarrow> w' = w"
  proof (cases "i = 0")
    case True
    then show thesis using that [of w] assms(2,5) r(2,6) by (auto simp: at_end_range)
  next
    case False
    then show thesis using that [of "[]"] assms(7) r(1) by (auto simp: range_ok_def)
  qed
  have "piece_of_range bufs' i b e = p" using piece_of_range_append [OF w'(1) r(4-6)] w'(2) r(2) by auto
  moreover have "range_ok bufs' i b e" using r(1) assms(3,4) w'(1) by (simp add: range_ok_def)
  moreover have "substr (text_at bufs' i) b e = d" using w'(1) r by (simp add: substr_append)
  ultimately have "piece_holds bufs' p d" using piece_holds_range by metis
  moreover have "\<not> at_end bufs' (piece_of_range bufs' i b e)" using w' r(6) assms(5,6) by (auto simp: at_end_range)
  ultimately show ?thesis using \<open>piece_of_range bufs' i b e = p\<close> by simp
qed

lemma append_pieces:
  assumes "list_all2 (piece_holds bufs) ps ds" "filter (at_end bufs) ps = []" "buffers_ok bufs'" "ilen bufs' = ilen bufs"
    "text_at bufs' 0 = text_at bufs 0 @ w" "w \<noteq> []" "\<forall>i. 0 < i \<and> i < ilen bufs \<longrightarrow> text_at bufs' i = text_at bufs i"
  shows "list_all2 (piece_holds bufs') ps ds \<and> filter (at_end bufs') ps = []"
  using assms(1,2)
proof (induction rule: list_all2_induct)
  case (Cons p ps d ds)
  then show ?case using append_piece [OF Cons(1) _ assms(3-7)] by (auto split: if_splits)
qed simp

lemma appended_buffer:
  assumes st: "buffers_state s" and x: "x = text_at (pt_buffers s) 0" and y: "y = x @ w" and w: "w \<noteq> []" "\<not> shouldCheckCRLF s \<longrightarrow> no_cr w"
    and r: "room s (ilen w)" and bufs': "bufs' = (pt_buffers s)[0 := StringBuffer_new y (line_starts y)]"
  shows "buffers_state (s\<lparr>pt_buffers := bufs', pt_lastChangeBufferPos := cursor_of y (ilen y)\<rparr>)" "text_at bufs' 0 = y"
    "ilen bufs' = ilen (pt_buffers s)" "\<forall>i. 0 < i \<and> i < ilen (pt_buffers s) \<longrightarrow> text_at bufs' i = text_at (pt_buffers s) i"
proof -
  have bok: "buffers_ok (pt_buffers s)" "pt_buffers s \<noteq> []" using st by (auto simp: buffers_state_def)
  show t0: "text_at bufs' 0 = y" using bufs' bok(2) by (simp add: text_at_def StringBuffer_new_def)
  show "ilen bufs' = ilen (pt_buffers s)" using bufs' by simp
  show "\<forall>i. 0 < i \<and> i < ilen (pt_buffers s) \<longrightarrow> text_at bufs' i = text_at (pt_buffers s) i" using bufs' by (simp add: text_at_def)
  have ylen: "ilen y < max_string_length" using r x y by (simp add: room_def)
  have ok': "buffers_ok bufs'" using bok ylen bufs'
    by (auto simp: list_all_length nth_list_update buffer_ok_def StringBuffer_new_def)
  have "\<not> shouldCheckCRLF s \<longrightarrow> (\<forall>b\<in>set bufs'. no_cr (sb_buffer b))"
    using st w(2) text_at_buffers [OF st] bufs' x y
    by (auto simp: buffers_state_def StringBuffer_simps dest!: subsetD [OF set_update_subset_insert])
  then show "buffers_state (s\<lparr>pt_buffers := bufs', pt_lastChangeBufferPos := cursor_of y (ilen y)\<rparr>)"
    using ok' t0 bok(2) bufs' by (simp add: buffers_state_def)
qed

lemma appendToNode_ok:
  assumes ok: "pieces_ok s (xs @ a # ys) (us @ c # vs)" and len: "length us = length xs"
    and cs: "[] \<notin> set (us @ c # vs)" "joined (us @ c # vs)" and v: "v \<noteq> []" "\<not> shouldCheckCRLF s \<longrightarrow> no_cr v" "ilen v < AverageBufferSize"
    and rm: "room s (ilen v + 5)" and e: "at_end (pt_buffers s) (n_piece (pt_tree s) a)"
  shows "\<exists>s'. appendToNode a v s = Some s' \<and> edited s s' xs a (concat us @ c @ v @ concat vs) (ilen v + 5)"
proof -
  have j: "joined us" "joined vs" "\<not> splits_crlf (concat us) c" "c \<noteq> []" "[] \<notin> set us" "[] \<notin> set vs"
    using cs joined_parts [of us "[c]" vs] by (auto simp: splits_crlf_append)
  obtain adj t ys' vs' where adj: "adjustCarriageReturnFromNext v a s = Some (adj, s\<lparr>pt_tree := t\<rparr>)"
    "pieces_ok (s\<lparr>pt_tree := t\<rparr>) (xs @ a # ys') (us @ c # vs')"
    "adjusted v adj @ concat vs' = v @ concat vs" "\<not> splits_crlf (adjusted v adj) (concat vs')" "[] \<notin> set vs'" "joined vs'"
    "extends s (s\<lparr>pt_tree := t\<rparr>) (xs @ [a]) 0"
    using adjust_ok [OF ok len j(6,2) v(1,2)] by auto
  define w x y bufs' where d: "w = adjusted v adj" "x = text_at (pt_buffers s) 0" "y = x @ w"
    "bufs' = (pt_buffers s)[0 := StringBuffer_new y (line_starts y)]"
  let ?s1 = "s\<lparr>pt_tree := t\<rparr>" and ?bufs = "pt_buffers s"
  have w: "w \<noteq> []" "ilen w \<le> ilen v + 1" "\<not> shouldCheckCRLF s \<longrightarrow> no_cr w"
    using v by (auto simp: d(1) adjusted_def no_cr_def CR_def LF_def)
  have st: "buffers_state s" "room s (ilen w)" using ok rm w(2) by (simp_all add: pieces_ok_def room_def)
  note ap = appended_buffer [OF st(1) d(2,3) w(1,3) st(2) d(4)]
  let ?s2 = "s\<lparr>pt_buffers := bufs', pt_lastChangeBufferPos := cursor_of y (ilen y)\<rparr>"
  have bok': "buffers_ok bufs'" using ap(1) by (simp add: buffers_state_def)
  obtain i b ee where p: "range_ok ?bufs i b ee" "n_piece t a = piece_of_range ?bufs i b ee" "c = substr (text_at ?bufs i) b ee"
    "0 \<le> b" "b \<le> ee" "ee \<le> ilen (text_at ?bufs i)" "ilen c = ee - b"
    using pieces_ok_at(2) [OF adj(2) len] by (auto elim: piece_holdsE)
  have na: "n_piece t a = n_piece (pt_tree s) a" using adj(7) by (simp add: extends_def)
  have "at_end ?bufs (piece_of_range ?bufs i b ee)" using e p(2) na by simp
  then have i: "i = 0" "ee = ilen x" using d(2) by (auto simp: at_end_range)
  let ?q = "piece_of_range bufs' 0 b (ilen y)"
  have rg: "range_ok bufs' 0 b (ilen y)" "range_ok bufs' 0 0 (ilen y)" using p(1,4,5) i ap(2,3) bok' d(2,3) by (auto simp: range_ok_def)
  have cw: "substr y b (ilen y) = c @ w" using p(3-6) i d(2) by (simp add: d(3) substr_def idrop_append)
  have q: "piece_holds bufs' ?q (c @ w)" using piece_holds_range [OF rg(1)] ap(2) cw by simp
  have ps: "list_all2 (piece_holds ?bufs) (map (n_piece t) (xs @ ys')) (us @ vs')"
    using pieces_ok_at(1,3) [OF adj(2) len] by (simp add: list_all2_appendI)
  have nE: "filter (at_end ?bufs) (map (n_piece t) (xs @ ys')) = []"
  proof -
    have "length (filter (at_end ?bufs) (map (n_piece t) (xs @ a # ys'))) \<le> 1" using adj(2) by (simp add: pieces_ok_def segs_ok_def)
    then show ?thesis using e na by (simp add: filter_empty_conv)
  qed
  have "text_at bufs' 0 = text_at ?bufs 0 @ w" using ap(2) d(2,3) by simp
  from append_pieces [OF ps nE bok' ap(3) this w(1) ap(4)] have ps': "list_all2 (piece_holds bufs') (map (n_piece t) (xs @ ys')) (us @ vs')"
    "filter (at_end bufs') (map (n_piece t) (xs @ ys')) = []" by blast+
  obtain t2 where t2: "replacePiece a ?q (pc_length ?q - pc_length (n_piece t a)) (pc_lineFeedCnt ?q - pc_lineFeedCnt (n_piece t a)) t = Some t2"
    "rb_order t2 (xs @ a # ys')" "n_piece t2 = (n_piece t)(a := ?q)" "rb_gone t2 = rb_gone t"
    using rbt.replace [of t "xs @ a # ys'" a ?q] adj(2) by (auto simp: pieces_ok_def)
  let ?s3 = "?s2\<lparr>pt_tree := t2\<rparr>"
  have ok3: "pieces_ok ?s3 (xs @ a # ys') (us @ (c @ w) # vs')"
  proof -
    have n: "a \<notin> set xs" "a \<notin> set ys'" using pieces_ok_nodes(1) [OF adj(2)] by auto
    then have m: "map (n_piece t2) (xs @ a # ys') = map (n_piece t) xs @ ?q # map (n_piece t) ys'" using t2(3) by auto
    have "segs_ok bufs' (map (n_piece t) xs @ ?q # map (n_piece t) ys') (us @ (c @ w) # vs')"
      using ps' q len by (auto simp: segs_ok_def list_all2_append filter_empty_conv)
    then have "segs_ok bufs' (map (n_piece t2) (xs @ a # ys')) (us @ (c @ w) # vs')" unfolding m .
    then show ?thesis using ap(1) t2(2) by (simp add: pieces_ok_def)
  qed
  have hit: "(if shouldCheckCRLF ?s1 \<and> string_startWithLF w then endWithCR ?s1 a else Some False) = Some (splits_crlf x w)"
  proof -
    have "c = drop (nat b) x" using p(3,4) i d(2) by (simp add: substr_def idrop_def itake_def)
    then have "last c = last x" "x \<noteq> []" using j(4) by auto
    then have "splits_crlf x w \<longleftrightarrow> string_startWithLF w \<and> last c = CR" by (auto simp: splits_crlf_def string_startWithLF_iff)
    moreover have "no_cr x" if "\<not> shouldCheckCRLF s" using st(1) that text_at_buffers [OF st(1)] d(2) by (auto simp: buffers_state_def)
    ultimately show ?thesis using startWithLF_ok(2) [OF adj(2) len j(4)] no_cr_splits [of x w] by auto
  qed
  have run: "appendToNode a v s = Some ?s3"
  proof -
    obtain b0 where b0: "js_get ?bufs 0 = Some b0" "sb_buffer b0 = x" "sb_lineStarts b0 = line_starts x"
      using buffers_ok_get [of ?bufs 0] st(1) d(2) by (auto simp: text_at_def buffers_state_def)
    have ls: "createLineStartsFast w False = line_starts w"
      using v(3) w(2) by (intro createLineStartsFast_ok) (simp add: AverageBufferSize_def max_string_length_def)
    have lsy: "(if splits_crlf x w then butlast (line_starts x) else line_starts x) @ tl (map (\<lambda>l. l + ilen x) (line_starts w)) = line_starts y"
      unfolding d(3) line_starts_append_split by (simp add: map_tl [symmetric] tl_line_starts)
    have l0: "js_get (line_starts y) (ilen (line_starts y) - 1) = Some (last (line_starts y))"
      using get_line_starts [of "eols y" y] last_line_start [of y] by simp
    have endp: "MkBufferCursor (ilen (line_starts y) - 1) (ilen y - last (line_starts y)) = cursor_of y (ilen y)"
      by (simp only: cursor_of_end) simp
    have lf: "getLineFeedCnt bufs' 0 (pc_start (n_piece t a)) (cursor_of y (ilen y)) = Some (pc_lineFeedCnt ?q)"
      "cursor_of y b = pc_start (n_piece t a)"
    proof -
      have "b < ilen x" using p(5,7) i(2) j(4) by (cases "b = ee") auto
      then show st: "cursor_of y b = pc_start (n_piece t a)" using p(2,4) i(1) d(2) by (simp add: d(3) cursor_of_append)
      show "getLineFeedCnt bufs' 0 (pc_start (n_piece t a)) (cursor_of y (ilen y)) = Some (pc_lineFeedCnt ?q)"
        using getLineFeedCnt_ok [OF rg(2), of b] ap(2) st by simp
    qed
    have q: "MkPiece (pc_bufferIndex (n_piece t a)) (pc_start (n_piece t a)) (cursor_of y (ilen y)) (pc_lineFeedCnt ?q) (pc_length (n_piece t a) + ilen w) = ?q"
      "ilen w = pc_length ?q - pc_length (n_piece t a)"
      using lf(2) p(2) i ap(2) d(3) by (simp_all add: piece_of_range_def)
    have sel: "pt_buffers ?s1 = ?bufs" "pt_tree ?s1 = t" by simp_all
    show ?thesis using t2(1) unfolding q(2) [symmetric]
      by (simp only: appendToNode_def sel adj(1) Let_def split_beta fst_conv snd_conv Option.bind.simps d(1) [symmetric] adjusted_def [symmetric] hit b0 ls lsy l0
          endp lf q(1) StringBuffer_simps d(3) [symmetric] d(4) [symmetric])
        simp
  qed
  have "extends s ?s3 xs (ilen v + 5)"
    using adj(7) t2(3,4) pieces_ok_nodes(1) [OF adj(2)] ap(2-4) w(2) d(2,3)
    by (auto simp: extends_def same_settings_def kept_def)
  moreover have "joined (us @ (c @ w) # vs')"
    using joined_parts [of us "[c @ w]" vs'] j adj(4-6) [folded d(1)] w(1) by (simp add: splits_crlf_append)
  moreover have "concat (us @ (c @ w) # vs') = concat us @ c @ v @ concat vs" using adj(3) d(1) by simp
  ultimately have calc: "extends s ?s3 xs (ilen v + 5)" "joined (us @ (c @ w) # vs')" "concat (us @ (c @ w) # vs') = concat us @ c @ v @ concat vs"
    by blast+
  have "edited s ?s3 xs a (concat us @ c @ v @ concat vs) (ilen v + 5)"
  proof -
    have ok4: "pieces_ok ?s3 (xs @ [a] @ ys') (us @ (c @ w) # vs')" using ok3 by simp
    show ?thesis by (intro editedI [OF ok4]) (use j adj(5) calc in simp_all)
  qed
  then show ?thesis using run by blast
qed


section \<open>Insertion in front of a node\<close>

definition edited_text :: "piece_tree \<Rightarrow> piece_tree \<Rightarrow> js_string \<Rightarrow> int \<Rightarrow> bool" where
  "edited_text s s' text k \<longleftrightarrow> (\<exists>ns cs. pieces_ok s' ns cs \<and> [] \<notin> set cs \<and> joined cs \<and> concat cs = text \<and> extends s s' [] k)"

text \<open>The nodes up to \<open>z\<close>, after \<open>z\<close> was checked against the one before it.\<close>

lemma validate_front:
  assumes ok: "pieces_ok s (xs @ z # ys) (us @ d # vs)" and len: "length us = length xs" and us: "[] \<notin> set us" "joined us" and d: "d \<noteq> []"
    and rm: "room s 3"
  shows "\<exists>s' ns ts. validateCRLFWithPrevNode z s = Some s' \<and> pieces_ok s' (ns @ ys) (ts @ vs) \<and> length ts = length ns \<and>
    [] \<notin> set ts \<and> joined ts \<and> concat ts = concat us @ d \<and> extends s s' ys 3"
proof (cases xs rule: rev_cases)
  case Nil
  then have "validateCRLFWithPrevNode z s = Some s" using validatePrev_first [OF _ d, of s z ys vs] ok len by simp
  then show ?thesis using ok Nil len d by (intro exI [of _ s] exI [of _ "[z]"] exI [of _ "[d]"]) (simp add: extends_refl)
next
  case (snoc xs' a)
  then obtain us' c where u: "us = us' @ [c]" "length us' = length xs'" using len by (cases us rule: rev_cases) auto
  have ok1: "pieces_ok s (xs' @ a # z # ys) (us' @ c # d # vs)" using ok snoc u by simp
  have c: "c \<noteq> []" using us u by auto
  from validatePrev_ok [OF ok1 u(2) c d rm] obtain s' where s': "validateCRLFWithPrevNode z s = Some s'"
    "pair_fixed s s' xs' a z ys us' (c @ d) vs" by blast
  then obtain as ms ws where f: "pieces_ok s' (xs' @ as @ ms @ ys) (us' @ ws @ vs)" "length ws = length (as @ ms)"
    "concat ws = c @ d" "[] \<notin> set ws" "joined ws" "extends s s' (xs' @ ys) 3" unfolding pair_fixed_def by blast
  have "joined (us' @ ws)"
    using us f(3-5) u c joined_append_iff [of us' ws] joined_append_iff [of us' "[c]"] by (simp add: splits_crlf_append)
  moreover have "extends s s' ys 3" using extends_mono [OF f(6)] by auto
  ultimately show ?thesis using s'(1) f u us
    by (intro exI [of _ s'] exI [of _ "xs' @ as @ ms"] exI [of _ "us' @ ws"]) simp
qed

text \<open>A \<open>\n\<close> at the start of the node moves to the new text.\<close>

lemma move_LF:
  assumes ok: "pieces_ok s (xs @ a # ys) (us @ c # vs)" and len: "length us = length xs" and c: "c \<noteq> []"
    and vs: "[] \<notin> set vs" "joined vs" "\<not> splits_crlf c (concat vs)"
    and v: "v \<noteq> []" "\<not> shouldCheckCRLF s \<longrightarrow> no_cr v"
  shows "\<exists>w c' t lf. (if shouldCheckCRLF s \<and> string_endWithCR v then startWithLF s a else Some False) = Some lf \<and>
    (if lf then do {
          q \<leftarrow> pieceWithoutLF (pt_buffers s) (n_piece (pt_tree s) a);
          t \<leftarrow> replacePiece a q (-1) (-1) (pt_tree s);
          let s = s\<lparr>pt_tree := t\<rparr>;
          Some (v @ [LF], if n_length (pt_tree s) a = 0 then [a] else [], s)
        } else Some (v, [], s)) = Some (w, if c' = [] then [a] else [], s\<lparr>pt_tree := t\<rparr>) \<and>
    pieces_ok (s\<lparr>pt_tree := t\<rparr>) (xs @ a # ys) (us @ c' # vs) \<and> w @ c' = v @ c \<and> w \<noteq> [] \<and> ilen w \<le> ilen v + 1 \<and>
    (\<not> shouldCheckCRLF s \<longrightarrow> no_cr w) \<and> \<not> splits_crlf w (c' @ concat vs) \<and> joined (nonempty_texts c' @ vs) \<and>
    extends s (s\<lparr>pt_tree := t\<rparr>) [] 0"
proof (cases "shouldCheckCRLF s \<and> string_endWithCR v \<and> hd c = LF")
  case True
  then obtain d where d: "c = LF # d" using c by (cases c) auto
  have ok1: "pieces_ok s (xs @ a # ys) (us @ (LF # d) # vs)" using ok d by simp
  obtain q t where t: "pieceWithoutLF (pt_buffers s) (n_piece (pt_tree s) a) = Some q"
      "replacePiece a q (-1) (-1) (pt_tree s) = Some t" "pieces_ok (s\<lparr>pt_tree := t\<rparr>) (xs @ a # ys) (us @ d # vs)"
      "n_piece t = (n_piece (pt_tree s))(a := q)" "rb_gone t = rb_gone (pt_tree s)" "pc_length q = ilen d"
    by (rule dropLF_step [OF ok1 len])
  have "n_length t a = ilen d" using t(4,6) by (simp add: n_length_def)
  moreover have "startWithLF s a = Some True" using startWithLF_ok(1) [OF ok1 len] by simp
  moreover have "joined (nonempty_texts d @ vs)"
    using vs d joined_append_iff [of "[d]" vs] by (cases "d = []") (auto simp: splits_crlf_def)
  moreover have "extends s (s\<lparr>pt_tree := t\<rparr>) [] 0" using t(5) by (intro extends_tree) simp_all
  ultimately show ?thesis using t(1-3) d True v
    by (intro exI [of _ "v @ [LF]"] exI [of _ d] exI [of _ t] exI [of _ True]) (simp add: splits_crlf_def LF_def CR_def no_cr_def)
next
  case False
  have "\<not> splits_crlf v c"
    using False no_cr_splits [of v c] v c by (auto simp: splits_crlf_def string_endWithCR_iff)
  moreover have "(if shouldCheckCRLF s \<and> string_endWithCR v then startWithLF s a else Some False) = Some False"
    using startWithLF_ok(1) [OF ok len c] False by auto
  moreover have "joined (nonempty_texts c @ vs)" using vs c joined_append_iff [of "[c]" vs] by simp
  ultimately show ?thesis using ok c v
    by (intro exI [of _ v] exI [of _ c] exI [of _ "pt_tree s"] exI [of _ False]) (simp add: splits_crlf_append extends_refl)
qed

lemma insertContentToNodeLeft_ok:
  assumes ok: "pieces_ok s (xs @ a # ys) (us @ c # vs)" and len: "length us = length xs"
    and cs: "[] \<notin> set (us @ c # vs)" "joined (us @ c # vs)" and v: "v \<noteq> []" "\<not> shouldCheckCRLF s \<longrightarrow> no_cr v"
    and rm: "room s (ilen v + 5)"
  shows "\<exists>s'. insertContentToNodeLeft v a s = Some s' \<and> edited_text s s' (concat us @ v @ c @ concat vs) (ilen v + 5)"
proof -
  have j: "joined us" "joined vs" "\<not> splits_crlf c (concat vs)" "c \<noteq> []" "[] \<notin> set us" "[] \<notin> set vs"
    using cs joined_parts [of us "[c]" vs] by auto
  from move_LF [OF ok len j(4,6,2,3) v] obtain w c' t lf where m:
    "(if shouldCheckCRLF s \<and> string_endWithCR v then startWithLF s a else Some False) = Some lf"
    "(if lf then do {
          q \<leftarrow> pieceWithoutLF (pt_buffers s) (n_piece (pt_tree s) a);
          t \<leftarrow> replacePiece a q (-1) (-1) (pt_tree s);
          let s = s\<lparr>pt_tree := t\<rparr>;
          Some (v @ [LF], if n_length (pt_tree s) a = 0 then [a] else [], s)
        } else Some (v, [], s)) = Some (w, if c' = [] then [a] else [], s\<lparr>pt_tree := t\<rparr>)"
    "pieces_ok (s\<lparr>pt_tree := t\<rparr>) (xs @ a # ys) (us @ c' # vs)" "w @ c' = v @ c" "w \<noteq> []" "ilen w \<le> ilen v + 1"
    "\<not> shouldCheckCRLF s \<longrightarrow> no_cr w" "\<not> splits_crlf w (c' @ concat vs)" "joined (nonempty_texts c' @ vs)"
    "extends s (s\<lparr>pt_tree := t\<rparr>) [] 0" by blast
  let ?s1 = "s\<lparr>pt_tree := t\<rparr>"
  have st: "buffers_state ?s1" "room ?s1 (ilen w + 1)" "\<not> shouldCheckCRLF ?s1 \<longrightarrow> no_cr w"
    using m(3,6,7) rm by (simp_all add: pieces_ok_def room_def)
  obtain ps ds bufs pos where nw: "new_pieces_for w ?s1 ps ds bufs pos" using createNewPieces_ok [OF st(1) m(5) st(3,2)] by blast
  note n = nw [unfolded new_pieces_for_def]
  let ?s2 = "?s1\<lparr>pt_buffers := bufs, pt_lastChangeBufferPos := pos\<rparr>"
  note gr = pieces_ok_grow [OF m(3) nw]
  have ps: "list_all2 (piece_holds (pt_buffers ?s2)) ps ds"
    "length (filter (at_end (pt_buffers ?s2)) (map (n_piece (pt_tree ?s2)) (xs @ a # ys) @ ps)) \<le> 1" using n gr(3) by auto
  obtain zs t2 where ins: "insert_chain rbInsertLeft a (rev ps) t = Some (hd (zs @ [a]), t2)"
    "pieces_ok (?s2\<lparr>pt_tree := t2\<rparr>) (xs @ zs @ a # ys) (us @ ds @ c' # vs)" "map (n_piece t2) zs = ps"
    "\<forall>n\<in>set (xs @ a # ys). n_piece t2 n = n_piece t n" "\<forall>b. rb_gone t b \<longrightarrow> rb_gone t2 b"
    using insert_left_step [OF gr(1) len ps] by auto
  have zl: "length zs = length ds" using ins(3) ps(1) by (auto dest: list_all2_lengthD)
  obtain d ds' where d: "ds = d # ds'" using n by (cases ds) auto
  then obtain z zs' where z: "zs = z # zs'" "length zs' = length ds'" using zl by (cases zs) auto
  let ?s3 = "?s2\<lparr>pt_tree := t2\<rparr>"
  have dn: "d \<noteq> []" "[] \<notin> set ds'" "d @ concat ds' = w" "joined (d # ds')" using n d by auto
  have ok3: "pieces_ok ?s3 (xs @ z # (zs' @ a # ys)) (us @ d # (ds' @ c' # vs))" using ins(2) d z by simp
  have e3: "extends s ?s3 [] (ilen v + 2)" using m(6,10) ins(5) n by (auto simp: extends_def same_settings_def grows_kept)
  have "room ?s3 3" using extends_room [OF e3 rm] by simp
  from validate_front [OF ok3 len j(5,1) dn(1) this] obtain s4 ns ts where s4: "validateCRLFWithPrevNode z ?s3 = Some s4"
    "pieces_ok s4 (ns @ zs' @ a # ys) (ts @ ds' @ c' # vs)" "length ts = length ns" "[] \<notin> set ts" "joined ts" "concat ts = concat us @ d"
    "extends ?s3 s4 (zs' @ a # ys) 3" by blast
  have ok4: "pieces_ok s4 ((ns @ zs') @ a # ys) ((ts @ ds') @ c' # vs)" "length (ts @ ds') = length (ns @ zs')" using s4(2,3) z(2) by simp_all
  obtain t5 where t5: "deleteNodes (if c' = [] then [a] else []) (pt_tree s4) = Some t5"
    "pieces_ok (s4\<lparr>pt_tree := t5\<rparr>) ((ns @ zs') @ nonempty_nodes a c' @ ys) ((ts @ ds') @ nonempty_texts c' @ vs)"
    "n_piece t5 = n_piece (pt_tree s4)" "c' = [] \<longrightarrow> rb_gone t5 a" "\<forall>n. rb_gone (pt_tree s4) n \<longrightarrow> rb_gone t5 n"
    by (rule drop_empty_step [OF ok4])
  let ?R = "nonempty_texts c' @ vs"
  have R: "[] \<notin> set ?R" "concat ?R = c' @ concat vs" using j(6) by simp_all
  have "joined ((d # ds') @ ?R)" using joined_append_iff [of "d # ds'" ?R] dn R m(8,9) by simp
  then have "joined (ds' @ ?R)" "\<not> splits_crlf d (concat (ds' @ ?R))"
    using joined_append_iff [of "[d]" "ds' @ ?R"] dn R by auto
  then have joined: "joined (ts @ ds' @ ?R)" using joined_append_iff [of ts "ds' @ ?R"] s4(4-6) dn R by (simp add: splits_crlf_append)
  have "extends s4 (s4\<lparr>pt_tree := t5\<rparr>) [] 0" using t5(5) by (intro extends_tree) simp_all
  then have e: "extends s (s4\<lparr>pt_tree := t5\<rparr>) [] (ilen v + 5)"
    using extends_trans [OF extends_trans [OF e3 extends_mono [OF s4(7), of "[]" 3]], of _ 0] by (simp add: add.commute)
  have "insertContentToNodeLeft v a s = Some (s4\<lparr>pt_tree := t5\<rparr>)"
    using m(1,2) n ins(1) z(1) s4(1) t5(1) by (simp add: insertContentToNodeLeft_def)
  moreover have "concat (ts @ ds' @ ?R) = concat us @ v @ c @ concat vs"
    using s4(6) R(2) dn(3) m(4) by (metis append.assoc concat_append)
  then have "edited_text s (s4\<lparr>pt_tree := t5\<rparr>) (concat us @ v @ c @ concat vs) (ilen v + 5)"
    unfolding edited_text_def using t5(2) joined s4(4) dn(2) R(1) e
    by (intro exI [of _ "(ns @ zs') @ nonempty_nodes a c' @ ys"] exI [of _ "ts @ ds' @ ?R"] conjI) simp_all
  ultimately show ?thesis by blast
qed


section \<open>Insertion within a node\<close>

lemma piece_char:
  assumes "piece_holds bufs p c" "0 \<le> k" "k < ilen c"
  shows "\<exists>r. nodeCharCodeAt bufs p k = Some r \<and> (\<forall>x. x = CR \<or> x = LF \<longrightarrow> (r = Some x \<longleftrightarrow> c ! nat k = x))"
proof -
  obtain i a e where r: "range_ok bufs i a e" "p = piece_of_range bufs i a e" "c = substr (text_at bufs i) a e"
    "0 \<le> a" "a \<le> e" "e \<le> ilen (text_at bufs i)" "ilen c = e - a" using assms(1) by (rule piece_holdsE)
  have "c ! nat k = text_at bufs i ! nat (a + k)" using substr_nth [of a k e "text_at bufs i"] r assms by simp
  then show ?thesis using nodeCharCodeAt_ok [OF r(1) assms(2)] assms(3) r by auto
qed

text \<open>The part of a piece behind the position \<open>r\<close>.\<close>

lemma right_piece_ok:
  assumes "piece_holds bufs p c" "0 \<le> r" "r \<le> ilen c"
  shows "\<exists>pos lf eo po. positionInBuffer bufs p r = Some pos \<and> getLineFeedCnt bufs (pc_bufferIndex p) pos (pc_end p) = Some lf \<and>
    offsetInBuffer bufs (pc_bufferIndex p) (pc_end p) = Some eo \<and> offsetInBuffer bufs (pc_bufferIndex p) pos = Some po \<and>
    piece_holds bufs (MkPiece (pc_bufferIndex p) pos (pc_end p) lf (eo - po)) (idrop r c) \<and>
    (at_end bufs (MkPiece (pc_bufferIndex p) pos (pc_end p) lf (eo - po)) \<longrightarrow> at_end bufs p)"
proof -
  obtain i b e where p: "range_ok bufs i b e" "p = piece_of_range bufs i b e" "c = substr (text_at bufs i) b e"
    "0 \<le> b" "b \<le> e" "e \<le> ilen (text_at bufs i)" "ilen c = e - b" using assms(1) by (rule piece_holdsE)
  have rg: "range_ok bufs i (b + r) e" "range_ok bufs i 0 e" using p assms(2,3) by (auto simp: range_ok_def)
  have q: "piece_holds bufs (piece_of_range bufs i (b + r) e) (idrop r c)"
    using piece_holds_range [OF rg(1)] p assms(2,3) by (simp add: idrop_substr)
  have e: "at_end bufs (piece_of_range bufs i (b + r) e) \<longrightarrow> at_end bufs p" using p by (simp add: at_end_range)
  have pos: "positionInBuffer bufs p r = Some (cursor_of (text_at bufs i) (b + r))"
    using piece_positionInBuffer [OF p(1)] assms(2,3) p(2,3) by simp
  show ?thesis using pos q e p(2)
    by (simp add: getLineFeedCnt_ok [OF rg(2)] offsetInBuffer_ok [OF p(1)] piece_of_range_def)
qed

text \<open>The new text takes a \<open>\n\<close> from the right part, and a \<open>\r\<close> from the left part.\<close>

lemma middle_right:
  assumes p: "piece_holds bufs p c" and r: "0 \<le> r" "r < ilen c" and R: "piece_holds bufs R (idrop r c)" "at_end bufs R \<longrightarrow> at_end bufs p"
    and vs: "[] \<notin> set vs" "joined vs" "\<not> splits_crlf c (concat vs)"
    and v: "v \<noteq> []" "\<not> check \<longrightarrow> no_cr v"
  shows "\<exists>h R' w rest. (if check \<and> string_endWithCR v then nodeCharCodeAt bufs p r else Some None) = Some h \<and>
    (if h = Some LF then do { q \<leftarrow> pieceWithoutLF bufs R; Some (q, v @ [LF]) } else Some (R, v)) = Some (R', w) \<and>
    piece_holds bufs R' rest \<and> (at_end bufs R' \<longrightarrow> at_end bufs p) \<and> w @ rest = v @ idrop r c \<and> w \<noteq> [] \<and> ilen w \<le> ilen v + 1 \<and>
    (\<not> check \<longrightarrow> no_cr w) \<and> \<not> splits_crlf w (rest @ concat vs) \<and> joined (nonempty_texts rest @ vs)"
proof -
  obtain x d where xd: "idrop r c = x # d" using r by (cases "idrop r c") (auto simp: idrop_def)
  have ch: "c ! nat r = x" using xd r by (metis Cons_nth_drop_Suc idrop_def list.inject nat_less_iff)
  have "itake r c @ (x # d) = c" using itake_idrop_id [of r c] unfolding xd .
  then have sp: "\<not> splits_crlf (x # d) (concat vs)" using vs(3) splits_crlf_append(2) [of "x # d" "itake r c" "concat vs"] by simp
  show ?thesis
  proof (cases "check \<and> string_endWithCR v \<and> x = LF")
    case True
    have "piece_holds bufs R (LF # d)" using R(1) xd True by simp
    then obtain q where q: "pieceWithoutLF bufs R = Some q" "piece_holds bufs q d" "at_end bufs q \<longrightarrow> at_end bufs R"
      by (rule pieceWithoutLF_ok)
    obtain h where "nodeCharCodeAt bufs p r = Some h" "h = Some LF" using piece_char [OF p r] ch True by auto
    moreover have "joined (nonempty_texts d @ vs)"
      using vs sp joined_append_iff [of "[d]" vs] by (cases "d = []") (auto simp: splits_crlf_def)
    ultimately show ?thesis using q True v R(2) xd
      by (intro exI [of _ h] exI [of _ q] exI [of _ "v @ [LF]"] exI [of _ d]) (simp add: splits_crlf_def LF_def CR_def no_cr_def)
  next
    case False
    obtain h where h: "(if check \<and> string_endWithCR v then nodeCharCodeAt bufs p r else Some None) = Some h" "h \<noteq> Some LF"
      using piece_char [OF p r] ch False by (cases "check \<and> string_endWithCR v") auto
    have "\<not> splits_crlf v (x # d)" using False no_cr_splits [of v "x # d"] v by (auto simp: splits_crlf_def string_endWithCR_iff)
    then have ns: "\<not> splits_crlf v ((x # d) @ concat vs)" using splits_crlf_append(1) [of "x # d" v "concat vs"] by blast
    have "joined (nonempty_texts (x # d) @ vs)" using vs sp joined_append_iff [of "[x # d]" vs] by simp
    then show ?thesis using h v R xd ns
      by (intro exI [of _ h] exI [of _ R] exI [of _ v] exI [of _ "x # d"]) simp
  qed
qed

lemma middle_left:
  assumes ok: "pieces_ok s (xs @ a # ys) (us @ c # vs)" and len: "length us = length xs" and r: "0 < r" "r < ilen c"
    and us: "[] \<notin> set us" "joined us" "\<not> splits_crlf (concat us) c"
    and w: "w \<noteq> []" "\<not> shouldCheckCRLF s \<longrightarrow> no_cr w" and pos: "positionInBuffer (pt_buffers s) (n_piece (pt_tree s) a) r = Some pos"
  shows "\<exists>h w' L t q. (if shouldCheckCRLF s \<and> string_startWithLF w then nodeCharCodeAt (pt_buffers s) (n_piece (pt_tree s) a) (r - 1) else Some None) = Some h \<and>
    (if h = Some CR then do {
          previousPos \<leftarrow> positionInBuffer (pt_buffers s) (n_piece (pt_tree s) a) (r - 1);
          s \<leftarrow> deleteNodeTail a previousPos s;
          Some (CR # w, if n_length (pt_tree s) a = 0 then [a] else [], s)
        } else do {
          s \<leftarrow> deleteNodeTail a pos s;
          Some (w, [], s)
        }) = Some (w', if L = [] then [a] else [], s\<lparr>pt_tree := t\<rparr>) \<and>
    pieces_ok (s\<lparr>pt_tree := t\<rparr>) (xs @ a # ys) (us @ L # vs) \<and> L @ w' = itake r c @ w \<and> w' \<noteq> [] \<and> last w' = last w \<and> ilen w' \<le> ilen w + 1 \<and>
    (\<not> shouldCheckCRLF s \<longrightarrow> no_cr w') \<and> \<not> splits_crlf (concat us @ L) w' \<and> joined (us @ nonempty_texts L) \<and>
    n_piece t = (n_piece (pt_tree s))(a := q) \<and> rb_gone t = rb_gone (pt_tree s) \<and> \<not> at_end (pt_buffers s) q"
proof -
  note p = pieces_ok_at(2) [OF ok len]
  obtain L0 x where Lx: "itake r c = L0 @ [x]" using r by (cases "itake r c" rule: rev_cases) (auto simp: itake_def)
  have L0: "itake (r - 1) c = L0"
  proof -
    have "itake (r - 1) (itake r c) = itake (r - 1) c" using r by (simp add: itake_def min_def)
    moreover have "ilen (L0 @ [x]) = r" using Lx [symmetric] r by simp
    ultimately show ?thesis using Lx by (simp add: itake_append)
  qed
  have ch: "c ! nat (r - 1) = x"
  proof -
    have "nat r = Suc (nat (r - 1))" using r by simp
    then have "itake r c = take (nat (r - 1)) c @ [c ! nat (r - 1)]" using r by (simp add: itake_def take_Suc_conv_app_nth)
    then show ?thesis using Lx by simp
  qed
  have spl: "\<not> splits_crlf (concat us) y" if "y \<noteq> []" "y @ z = c" for y z
    using us(3) that splits_crlf_append(1) [of y "concat us" z] by simp
  have jn: "joined (us @ nonempty_texts y)" if "y @ z = c" for y z
    using us spl [of y z] that joined_append_iff [of us "[y]"] by (cases "y = []") simp_all
  show ?thesis
  proof (cases "shouldCheckCRLF s \<and> string_startWithLF w \<and> x = CR")
    case True
    obtain h where h: "nodeCharCodeAt (pt_buffers s) (n_piece (pt_tree s) a) (r - 1) = Some h" "h = Some CR"
      using piece_char [OF p, of "r - 1"] r ch True by auto
    obtain pos' t q where t: "positionInBuffer (pt_buffers s) (n_piece (pt_tree s) a) (r - 1) = Some pos'"
      "deleteNodeTail a pos' s = Some (s\<lparr>pt_tree := t\<rparr>)" "pieces_ok (s\<lparr>pt_tree := t\<rparr>) (xs @ a # ys) (us @ itake (r - 1) c # vs)"
      "n_piece t = (n_piece (pt_tree s))(a := q)" "rb_gone t = rb_gone (pt_tree s)" "r - 1 < ilen c \<longrightarrow> \<not> at_end (pt_buffers s) q"
      using deleteNodeTail_ok [OF ok len, of "r - 1"] r by (auto simp del: fun_upd_apply)
    have "n_length t a = ilen L0"
      using piece_holds_length [OF pieces_ok_at(2) [OF t(3) len]] L0 by (simp add: n_length_def)
    moreover have "L0 @ [x] @ idrop r c = c" using itake_idrop_id [of r c] unfolding Lx by simp
    ultimately show ?thesis using h t L0 Lx True w r jn [of L0 "x # idrop r c"]
      by (intro exI [of _ h] exI [of _ "CR # w"] exI [of _ L0] exI [of _ t] exI [of _ q])
        (simp add: splits_crlf_def LF_def CR_def)
  next
    case False
    obtain h where h: "(if shouldCheckCRLF s \<and> string_startWithLF w then nodeCharCodeAt (pt_buffers s) (n_piece (pt_tree s) a) (r - 1) else Some None) = Some h"
      "h \<noteq> Some CR"
      using piece_char [OF p, of "r - 1"] r ch False by (cases "shouldCheckCRLF s \<and> string_startWithLF w") auto
    obtain pos' t q where t: "positionInBuffer (pt_buffers s) (n_piece (pt_tree s) a) r = Some pos'"
      "deleteNodeTail a pos' s = Some (s\<lparr>pt_tree := t\<rparr>)" "pieces_ok (s\<lparr>pt_tree := t\<rparr>) (xs @ a # ys) (us @ itake r c # vs)"
      "n_piece t = (n_piece (pt_tree s))(a := q)" "rb_gone t = rb_gone (pt_tree s)" "r < ilen c \<longrightarrow> \<not> at_end (pt_buffers s) q"
      using deleteNodeTail_ok [OF ok len, of r] r by (auto simp del: fun_upd_apply)
    have "\<not> splits_crlf (concat us @ itake r c) w"
    proof
      assume sp: "splits_crlf (concat us @ itake r c) w"
      then have "x = CR" "string_startWithLF w" unfolding Lx by (simp_all add: splits_crlf_def string_startWithLF_iff)
      then have "\<not> shouldCheckCRLF s" using False by simp
      then have "no_cr c" using unchecked_no_cr [OF ok] by simp
      then have "no_cr (itake r c @ idrop r c)" by simp
      then show False using \<open>x = CR\<close> unfolding Lx by (simp add: no_cr_def)
    qed
    moreover have "itake r c \<noteq> []" using Lx by simp
    ultimately show ?thesis using h t pos w r jn [of "itake r c" "idrop r c"]
      by (intro exI [of _ h] exI [of _ w] exI [of _ "itake r c"] exI [of _ t] exI [of _ q]) simp
  qed
qed

lemma optional_insert:
  assumes ok: "pieces_ok s (xs @ a # ys) (us @ c # vs)" and len: "length us = length xs" and R: "piece_holds (pt_buffers s) R d"
    and count: "length (filter (at_end (pt_buffers s)) (map (n_piece (pt_tree s)) (xs @ a # ys) @ [R])) \<le> 1"
  shows "\<exists>rs t. (if pc_length R > 0 then do { (_, t) \<leftarrow> rbInsertRight a R (pt_tree s); Some t } else Some (pt_tree s)) = Some t \<and>
    pieces_ok (s\<lparr>pt_tree := t\<rparr>) (xs @ a # rs @ ys) (us @ c # nonempty_texts d @ vs) \<and> map (n_piece t) rs = (if d = [] then [] else [R]) \<and>
    (\<forall>n\<in>set (xs @ a # ys). n_piece t n = n_piece (pt_tree s) n) \<and> (\<forall>b. rb_gone (pt_tree s) b \<longrightarrow> rb_gone t b)"
proof (cases "d = []")
  case True
  then show ?thesis using ok piece_holds_length [OF R] by (intro exI [of _ "[]"] exI [of _ "pt_tree s"]) simp
next
  case False
  have "list_all2 (piece_holds (pt_buffers s)) [R] [d]" using R by simp
  from insert_right_step [OF ok len this count] obtain zs t where
    t: "insert_chain rbInsertRight a [R] (pt_tree s) = Some (last (a # zs), t)"
    "pieces_ok (s\<lparr>pt_tree := t\<rparr>) (xs @ a # zs @ ys) (us @ c # [d] @ vs)" "map (n_piece t) zs = [R]"
    "\<forall>n\<in>set (xs @ a # ys). n_piece t n = n_piece (pt_tree s) n" "\<forall>b. rb_gone (pt_tree s) b \<longrightarrow> rb_gone t b" by metis
  then obtain z where "zs = [z]" by auto
  then have "rbInsertRight a R (pt_tree s) = Some (z, t)" using t(1) by (auto split: bind_splits)
  moreover have "pc_length R > 0" using piece_holds_length [OF R] False by simp
  ultimately show ?thesis using t False by (intro exI [of _ zs] exI [of _ t]) simp
qed

lemma insertInMiddle_ok:
  assumes ok: "pieces_ok s (xs @ a # ys) (us @ c # vs)" and len: "length us = length xs"
    and cs: "[] \<notin> set (us @ c # vs)" "joined (us @ c # vs)" and v: "v \<noteq> []" "\<not> shouldCheckCRLF s \<longrightarrow> no_cr v"
    and r: "0 < r" "r < ilen c" and rm: "room s (ilen v + 5)"
    and pos: "positionInBuffer (pt_buffers s) (n_piece (pt_tree s) a) r = Some pos"
  shows "\<exists>s'. insertInMiddle v a r pos s = Some s' \<and> edited s s' xs a (concat us @ itake r c @ v @ idrop r c @ concat vs) (ilen v + 5)"
proof -
  have j: "joined us" "joined vs" "\<not> splits_crlf (concat us) c" "\<not> splits_crlf c (concat vs)" "[] \<notin> set us" "[] \<notin> set vs" "c \<noteq> []"
    using cs joined_parts [of us "[c]" vs] by (auto simp: splits_crlf_append)
  note p = pieces_ok_at(2) [OF ok len]
  let ?p = "n_piece (pt_tree s) a" and ?bufs = "pt_buffers s"
  obtain lf eo po where R: "getLineFeedCnt ?bufs (pc_bufferIndex ?p) pos (pc_end ?p) = Some lf"
    "offsetInBuffer ?bufs (pc_bufferIndex ?p) (pc_end ?p) = Some eo" "offsetInBuffer ?bufs (pc_bufferIndex ?p) pos = Some po"
    "piece_holds ?bufs (MkPiece (pc_bufferIndex ?p) pos (pc_end ?p) lf (eo - po)) (idrop r c)"
    "at_end ?bufs (MkPiece (pc_bufferIndex ?p) pos (pc_end ?p) lf (eo - po)) \<longrightarrow> at_end ?bufs ?p"
    using right_piece_ok [OF p, of r] r pos by auto
  have r0: "0 \<le> r" using r by simp
  from middle_right [OF p r0 r(2) R(4,5) j(6,2,4) v] obtain h R' w rest where w:
    "(if shouldCheckCRLF s \<and> string_endWithCR v then nodeCharCodeAt ?bufs ?p r else Some None) = Some h"
    "(if h = Some LF then do { q \<leftarrow> pieceWithoutLF ?bufs (MkPiece (pc_bufferIndex ?p) pos (pc_end ?p) lf (eo - po)); Some (q, v @ [LF]) }
      else Some (MkPiece (pc_bufferIndex ?p) pos (pc_end ?p) lf (eo - po), v)) = Some (R', w)"
    "piece_holds ?bufs R' rest" "at_end ?bufs R' \<longrightarrow> at_end ?bufs ?p" "w @ rest = v @ idrop r c" "w \<noteq> []" "ilen w \<le> ilen v + 1"
    "\<not> shouldCheckCRLF s \<longrightarrow> no_cr w" "\<not> splits_crlf w (rest @ concat vs)" "joined (nonempty_texts rest @ vs)" by blast
  from middle_left [OF ok len r j(5,1,3) w(6,8) pos] obtain h' x L t q where l:
    "(if shouldCheckCRLF s \<and> string_startWithLF w then nodeCharCodeAt ?bufs ?p (r - 1) else Some None) = Some h'"
    "(if h' = Some CR then do {
          previousPos \<leftarrow> positionInBuffer ?bufs ?p (r - 1);
          s \<leftarrow> deleteNodeTail a previousPos s;
          Some (CR # w, if n_length (pt_tree s) a = 0 then [a] else [], s)
        } else do {
          s \<leftarrow> deleteNodeTail a pos s;
          Some (w, [], s)
        }) = Some (x, if L = [] then [a] else [], s\<lparr>pt_tree := t\<rparr>)"
    "pieces_ok (s\<lparr>pt_tree := t\<rparr>) (xs @ a # ys) (us @ L # vs)" "L @ x = itake r c @ w" "x \<noteq> []" "last x = last w" "ilen x \<le> ilen w + 1"
    "\<not> shouldCheckCRLF s \<longrightarrow> no_cr x" "\<not> splits_crlf (concat us @ L) x" "joined (us @ nonempty_texts L)"
    "n_piece t = (n_piece (pt_tree s))(a := q)" "rb_gone t = rb_gone (pt_tree s)" "\<not> at_end ?bufs q" by (elim exE conjE) blast
  let ?s1 = "s\<lparr>pt_tree := t\<rparr>"
  have st: "buffers_state ?s1" "room ?s1 (ilen x + 1)" "\<not> shouldCheckCRLF ?s1 \<longrightarrow> no_cr x"
    using l(3,7,8) w(7) rm by (simp_all add: pieces_ok_def room_def)
  obtain ps ds bufs lpos where nw: "new_pieces_for x ?s1 ps ds bufs lpos" using createNewPieces_ok [OF st(1) l(5) st(3,2)] by blast
  note n = nw [unfolded new_pieces_for_def]
  let ?s2 = "?s1\<lparr>pt_buffers := bufs, pt_lastChangeBufferPos := lpos\<rparr>"
  note gr = pieces_ok_grow [OF l(3) nw]
  have nd: "a \<notin> set xs" "a \<notin> set ys" using pieces_ok_nodes(1) [OF ok] by auto
  have Q: "list_all2 (piece_holds ?bufs) (map (n_piece t) (xs @ a # ys) @ [R']) ((us @ L # vs) @ [rest])"
    using l(3) w(3) by (intro list_all2_appendI) (auto simp: pieces_ok_def segs_ok_def)
  have "length (filter (at_end ?bufs) (map (n_piece t) (xs @ a # ys) @ [R'])) \<le> 1"
  proof (cases "at_end ?bufs R'")
    case True
    then have "at_end ?bufs ?p" using w(4) by blast
    moreover have "length (filter (at_end ?bufs) (map (n_piece (pt_tree s)) (xs @ a # ys))) \<le> 1" using ok by (simp add: pieces_ok_def segs_ok_def)
    ultimately have "\<forall>m\<in>set (xs @ a # ys). \<not> at_end ?bufs (n_piece t m)"
      using l(11,13) nd by (auto simp: filter_empty_conv)
    then have "filter (at_end ?bufs) (map (n_piece t) (xs @ a # ys)) = []" by (auto simp: filter_empty_conv)
    then show ?thesis by (simp only: filter_append length_append) simp
  next
    case False
    have "length (filter (at_end ?bufs) (map (n_piece t) (xs @ a # ys))) \<le> 1" using l(3) by (simp add: pieces_ok_def segs_ok_def)
    then show ?thesis by (simp only: filter_append length_append filter_count_Cons False if_False filter.simps list.size add_0_right)
  qed
  moreover have sel: "pt_buffers ?s1 = ?bufs" by simp
  ultimately have cnt: "length (filter (at_end bufs) ((map (n_piece t) (xs @ a # ys) @ [R']) @ ps)) \<le> 1" by (intro gr(2) [unfolded sel, OF Q])
  have R': "piece_holds (pt_buffers ?s2) R' rest" using grows_piece [OF _ w(3)] n by simp
  have "length (filter (at_end bufs) (map (n_piece t) (xs @ a # ys) @ [R'])) \<le> 1"
    using cnt by (metis add_leD1 filter_append length_append)
  then have C: "length (filter (at_end (pt_buffers ?s2)) (map (n_piece (pt_tree ?s2)) (xs @ a # ys) @ [R'])) \<le> 1" by simp
  have sel2: "pt_tree ?s2 = t" by simp
  obtain rs t2 where i1:
    "(if pc_length R' > 0 then do { (_, t) \<leftarrow> rbInsertRight a R' t; Some t } else Some t) = Some t2"
    "pieces_ok (?s2\<lparr>pt_tree := t2\<rparr>) (xs @ a # rs @ ys) (us @ L # nonempty_texts rest @ vs)" "map (n_piece t2) rs = (if rest = [] then [] else [R'])"
    "\<forall>n\<in>set (xs @ a # ys). n_piece t2 n = n_piece t n" "\<forall>b. rb_gone t b \<longrightarrow> rb_gone t2 b"
    using optional_insert [OF gr(1) len R' C, unfolded sel2] by blast
  have m2: "map (n_piece t2) (xs @ a # rs @ ys) = map (n_piece t) (xs @ [a]) @ (if rest = [] then [] else [R']) @ map (n_piece t) ys"
    using i1(3,4) by simp
  have "length (filter (at_end bufs) (map (n_piece t2) (xs @ a # rs @ ys) @ ps)) \<le> 1"
    unfolding m2 using cnt
    by (cases "rest = []"; simp only: if_True if_False map_append list.map filter_append filter_count_Cons length_append append.simps append_assoc
        simp_thms filter.simps(1) list.size(3) add_0_left add_0_right)
  then have C2: "length (filter (at_end (pt_buffers (?s2\<lparr>pt_tree := t2\<rparr>))) (map (n_piece (pt_tree (?s2\<lparr>pt_tree := t2\<rparr>))) (xs @ a # rs @ ys) @ ps)) \<le> 1"
    by simp
  have D: "list_all2 (piece_holds (pt_buffers (?s2\<lparr>pt_tree := t2\<rparr>))) ps ds" using n by simp
  have sel3: "pt_tree (?s2\<lparr>pt_tree := t2\<rparr>) = t2" by simp
  obtain zs t3 where i2: "insert_chain rbInsertRight a ps t2 = Some (last (a # zs), t3)"
    "pieces_ok (?s2\<lparr>pt_tree := t2, pt_tree := t3\<rparr>) (xs @ a # zs @ rs @ ys) (us @ L # ds @ nonempty_texts rest @ vs)" "map (n_piece t3) zs = ps"
    "\<forall>n\<in>set (xs @ a # rs @ ys). n_piece t3 n = n_piece t2 n" "\<forall>b. rb_gone t2 b \<longrightarrow> rb_gone t3 b"
    by (rule insert_right_step [OF i1(2) len D C2, unfolded sel3])
  let ?s3 = "?s2\<lparr>pt_tree := t3\<rparr>"
  have ok3: "pieces_ok ?s3 (xs @ a # zs @ rs @ ys) (us @ L # ds @ nonempty_texts rest @ vs)" using i2(2) by simp
  obtain t4 where d4: "deleteNodes (if L = [] then [a] else []) t3 = Some t4"
    "pieces_ok (?s3\<lparr>pt_tree := t4\<rparr>) (xs @ nonempty_nodes a L @ zs @ rs @ ys) (us @ nonempty_texts L @ ds @ nonempty_texts rest @ vs)"
    "n_piece t4 = n_piece t3" "L = [] \<longrightarrow> rb_gone t4 a" "\<forall>n. rb_gone t3 n \<longrightarrow> rb_gone t4 n"
    using drop_empty_step [OF ok3 len] by auto
  let ?s' = "?s2\<lparr>pt_tree := t4\<rparr>"
  have run: "insertInMiddle v a r pos s = Some ?s'"
  proof -
    have np: "createNewPieces x ?s1 = Some (ps, ?s2)" using n by simp
    show ?thesis
      by (simp only: insertInMiddle_def Let_def R(1-3) w(1,2) l(1,2) np i1(1) i2(1) d4(1) Option.bind.simps prod.case sel2)
  qed
  let ?R = "nonempty_texts rest @ vs" and ?L = "us @ nonempty_texts L"
  have dn: "[] \<notin> set ds" "concat ds = x" "joined ds" using n by auto
  have ok': "pieces_ok ?s' (xs @ nonempty_nodes a L @ (zs @ rs @ ys)) (?L @ ds @ ?R)" using d4(2) by simp
  have "\<not> splits_crlf x (concat ?R)" using w(9) l(6) l(5) w(6) by (simp add: splits_crlf_def)
  then have joined: "joined (?L @ ds @ ?R)"
    using joined_parts [of ?L ds ?R] l(5,9,10) w(10) j dn by (simp add: splits_crlf_append)
  have tx: "concat (?L @ ds @ ?R) = concat us @ itake r c @ v @ idrop r c @ concat vs"
    using l(4) w(5) dn(2) by (metis append.assoc concat_append nonempty_simps(5))
  have e: "extends s ?s' xs (ilen v + 5)"
    using l(7,11,12) w(7) n nd i1(4,5) i2(4,5) d4(3,5) by (auto simp: extends_def same_settings_def grows_kept)
  have a: "nonempty_nodes a L = [a] \<or> nonempty_nodes a L = [] \<and> rb_gone (pt_tree ?s') a" using d4(4) by (cases "L = []") simp_all
  have "edited s ?s' xs a (concat us @ itake r c @ v @ idrop r c @ concat vs) (ilen v + 5)"
    using editedI [OF ok' a _ joined tx e] j dn(1) by simp
  then show ?thesis using run by blast
qed

end
