(* ===== verification/PieceTreeTexts.thy ===== *)
theory PieceTreeTexts
  imports PieceTreeEdits
begin

text \<open>
  \<open>insert\<close> and \<open>delete\<close> of \<open>PieceTreeBase\<close>
  (\<open>vs/editor/common/model/pieceTreeTextBuffer/pieceTreeBase.ts\<close>) as edits of a text: both succeed
  at every offset of the text, edit it like a string and keep the invariant of the buffers, the
  tree, the metadata and the search cache.
\<close>

section \<open>Deletion\<close>

definition shrinkNode :: "node_ref \<Rightarrow> buffer_cursor \<Rightarrow> buffer_cursor \<Rightarrow> piece_tree \<Rightarrow> piece_tree option" where
  "shrinkNode node start stop s = do {
     let p = n_piece (pt_tree s) node;
     newLineFeedCnt \<leftarrow> getLineFeedCnt (pt_buffers s) (pc_bufferIndex p) (pc_start p) start;
     so \<leftarrow> offsetInBuffer (pt_buffers s) (pc_bufferIndex p) start;
     po \<leftarrow> offsetInBuffer (pt_buffers s) (pc_bufferIndex p) (pc_start p);
     let newLength = so - po;
     t \<leftarrow> replacePiece node (MkPiece (pc_bufferIndex p) (pc_start p) start newLineFeedCnt newLength)
       (newLength - pc_length p) (newLineFeedCnt - pc_lineFeedCnt p) (pt_tree s);
     lf \<leftarrow> getLineFeedCnt (pt_buffers s) (pc_bufferIndex p) stop (pc_end p);
     eo \<leftarrow> offsetInBuffer (pt_buffers s) (pc_bufferIndex p) (pc_end p);
     to \<leftarrow> offsetInBuffer (pt_buffers s) (pc_bufferIndex p) stop;
     (newNode, t) \<leftarrow> rbInsertRight node (MkPiece (pc_bufferIndex p) stop (pc_end p) lf (eo - to)) t;
     validateCRLFWithPrevNode newNode (s\<lparr>pt_tree := t\<rparr>)
   }"

text \<open>The nodes from \<open>node\<close> up to but without \<open>endNode\<close>.\<close>

partial_function (option) nodes_until :: "rb_tree \<Rightarrow> node_ref \<Rightarrow> node_ref \<Rightarrow> node_ref list option" where
  "nodes_until t node endNode =
     (if node \<noteq> SENTINEL \<and> node \<noteq> endNode then do {
        nxt \<leftarrow> TreeNode_next t node;
        ns \<leftarrow> nodes_until t nxt endNode;
        Some (node # ns)
      } else Some [])"

declare nodes_until.simps [code]

definition deleteInNode :: "int \<Rightarrow> int \<Rightarrow> node_position \<Rightarrow> node_position \<Rightarrow> piece_tree \<Rightarrow> piece_tree option" where
  "deleteInNode offset cnt startPosition endPosition s = do {
     let startNode = np_node startPosition;
     let p = n_piece (pt_tree s) startNode;
     startSplitPosInBuffer \<leftarrow> positionInBuffer (pt_buffers s) p (np_remainder startPosition);
     endSplitPosInBuffer \<leftarrow> positionInBuffer (pt_buffers s) p (np_remainder endPosition);
     (if np_nodeStartOffset startPosition = offset then
        if cnt = pc_length p then do {
          nxt \<leftarrow> TreeNode_next (pt_tree s) startNode;
          t \<leftarrow> rbDelete startNode (pt_tree s);
          validateCRLFWithPrevNode nxt (s\<lparr>pt_tree := t\<rparr>)
        } else do {
          s \<leftarrow> deleteNodeHead startNode endSplitPosInBuffer s;
          validateCRLFWithPrevNode startNode
            (s\<lparr>pt_searchCache := SearchCache_validate (pt_tree s) offset (pt_searchCache s)\<rparr>)
        }
      else if np_nodeStartOffset startPosition + pc_length p = offset + cnt then do {
        s \<leftarrow> deleteNodeTail startNode startSplitPosInBuffer s;
        validateCRLFWithNextNode startNode s
      } else shrinkNode startNode startSplitPosInBuffer endSplitPosInBuffer s)
   }"

definition deleteAcrossNodes :: "int \<Rightarrow> node_position \<Rightarrow> node_position \<Rightarrow> piece_tree \<Rightarrow> piece_tree option" where
  "deleteAcrossNodes offset startPosition endPosition s = do {
     let startNode = np_node startPosition;
     let endNode = np_node endPosition;
     startSplitPosInBuffer \<leftarrow> positionInBuffer (pt_buffers s) (n_piece (pt_tree s) startNode) (np_remainder startPosition);
     s \<leftarrow> deleteNodeTail startNode startSplitPosInBuffer s;
     let s = s\<lparr>pt_searchCache := SearchCache_validate (pt_tree s) offset (pt_searchCache s)\<rparr>;
     let nodesToDel = (if n_length (pt_tree s) startNode = 0 then [startNode] else []);
     endSplitPosInBuffer \<leftarrow> positionInBuffer (pt_buffers s) (n_piece (pt_tree s) endNode) (np_remainder endPosition);
     s \<leftarrow> deleteNodeHead endNode endSplitPosInBuffer s;
     let nodesToDel = nodesToDel @ (if n_length (pt_tree s) endNode = 0 then [endNode] else []);
     secondNode \<leftarrow> TreeNode_next (pt_tree s) startNode;
     between \<leftarrow> nodes_until (pt_tree s) secondNode endNode;
     prev \<leftarrow> (if n_length (pt_tree s) startNode = 0 then TreeNode_prev (pt_tree s) startNode else Some startNode);
     t \<leftarrow> deleteNodes (nodesToDel @ between) (pt_tree s);
     validateCRLFWithNextNode prev (s\<lparr>pt_tree := t\<rparr>)
   }"

definition PieceTree_delete :: "int \<Rightarrow> int \<Rightarrow> piece_tree \<Rightarrow> piece_tree option" where
  "PieceTree_delete offset cnt s0 = do {
     let s = s0\<lparr>pt_lastVisitedLine := (0, [])\<rparr>;
     (if cnt \<le> 0 \<or> rb_root (pt_tree s) = SENTINEL then Some s
      else do {
        (startPosition, s) \<leftarrow> nodeAt offset s;
        (endPosition, s) \<leftarrow> nodeAt (offset + cnt) s;
        startPosition \<leftarrow> startPosition;
        endPosition \<leftarrow> endPosition;
        s \<leftarrow> (if np_node startPosition = np_node endPosition then deleteInNode offset cnt startPosition endPosition s
             else deleteAcrossNodes offset startPosition endPosition s);
        computeBufferMetadata s
      })
   }"


section \<open>Keeping the search cache\<close>

text \<open>An edit leaves the settings and what is in the buffers alone, and the change buffer grows by at most \<open>k\<close>.\<close>

definition edit_done :: "piece_tree \<Rightarrow> piece_tree \<Rightarrow> js_string \<Rightarrow> int \<Rightarrow> bool" where
  "edit_done s s' text k \<longleftrightarrow> has_text s' text \<and> same_settings s s' \<and> kept (pt_buffers s) (pt_buffers s') \<and>
     ilen (text_at (pt_buffers s') 0) \<le> ilen (text_at (pt_buffers s) 0) + k"

lemma cached_entry:
  assumes inv: "buffer_inv s (xs @ a # ys) (us @ c # vs)" and len: "length us = length xs" and c: "cached s a"
    and e: "e \<in> set (sc_cache (pt_searchCache s))"
  shows "ce_node e = a" "ce_nodeStartOffset e = ilen (concat us)"
    "ce_nodeStartOffset e = sum_list (map (n_length (pt_tree s)) xs)"
    "ce_nodeStartLineNumber e = Some l \<Longrightarrow> l = 1 + sum_list (map (n_lineFeedCnt (pt_tree s)) xs)"
proof -
  show a: "ce_node e = a" using c e by (simp add: cached_def list_all_iff)
  have ok: "pieces_ok s (xs @ a # ys) (us @ c # vs)" and "entry_ok s (xs @ a # ys) e"
    using inv e by (auto simp: buffer_inv_def cache_ok_def list_all_iff)
  moreover have "\<not> rb_gone (pt_tree s) a" using pieces_ok_nodes(3) [OF ok] by simp
  ultimately obtain xs' ys' where x: "xs @ a # ys = xs' @ a # ys'" "ce_nodeStartOffset e = sum_list (map (n_length (pt_tree s)) xs')"
    "\<forall>l. ce_nodeStartLineNumber e = Some l \<longrightarrow> l = 1 + sum_list (map (n_lineFeedCnt (pt_tree s)) xs')"
    using a by (auto simp: entry_ok_def)
  have "a \<notin> set xs" using pieces_ok_nodes(1) [OF ok] by simp
  moreover have "a \<notin> set xs'" using pieces_ok_nodes(1) [OF ok] unfolding x(1) by simp
  ultimately have "xs' = xs" using arg_cong [OF x(1), of "takeWhile (\<lambda>n. n \<noteq> a)"] by (auto simp: takeWhile_append split: if_splits)
  then show "ce_nodeStartOffset e = sum_list (map (n_length (pt_tree s)) xs)"
    "ce_nodeStartLineNumber e = Some l \<Longrightarrow> l = 1 + sum_list (map (n_lineFeedCnt (pt_tree s)) xs)" using x(2,3) by auto
  then show "ce_nodeStartOffset e = ilen (concat us)" using n_length_prefix [OF pieces_ok_at(1) [OF ok len]] by simp
qed

lemma finish_text:
  assumes ed: "edited_text s s' text k" and inv: "buffer_inv s ns cs"
    and cache: "\<And>xs cs. pieces_ok s' xs cs \<Longrightarrow> concat cs = text \<Longrightarrow> \<forall>e\<in>set (sc_cache (pt_searchCache s')). rb_gone (pt_tree s') (ce_node e)"
  shows "\<exists>s''. computeBufferMetadata s' = Some s'' \<and> edit_done s s'' text k"
proof -
  obtain ns' cs' where e: "pieces_ok s' ns' cs'" "[] \<notin> set cs'" "joined cs'" "concat cs' = text" "extends s s' [] k"
    using ed by (auto simp: edited_text_def)
  have "cache_ok s' ns'" using cache [OF e(1,4)] e(5) inv by (auto simp: cache_ok_def entry_ok_def list_all_iff extends_def buffer_inv_def)
  moreover have "pt_EOLLength s' = ilen (pt_EOL s')" using e(5) inv by (simp add: extends_def same_settings_def buffer_inv_def)
  ultimately obtain s'' where s'': "computeBufferMetadata s' = Some s''" "buffer_inv s'' ns' cs'" "same_settings s' s''" "pt_buffers s'' = pt_buffers s'"
    using computeBufferMetadata_ok [OF e(1-3)] by blast
  moreover have "same_settings s s''" using s''(3) e(5) same_settings_trans by (auto simp: extends_def)
  ultimately show ?thesis using e(4,5) by (auto simp: edit_done_def has_text_def extends_def)
qed

lemma finish_edited:
  assumes ed: "edited s s' xs a text k" and inv: "buffer_inv s (xs @ a # ys) (us @ c # vs)" and len: "length us = length xs" and c: "cached s a"
  shows "\<exists>s''. computeBufferMetadata s' = Some s'' \<and> edit_done s s'' text k"
proof -
  obtain as ys' cs' where e: "pieces_ok s' (xs @ as @ ys') cs'" "as = [a] \<or> as = [] \<and> rb_gone (pt_tree s') a" "[] \<notin> set cs'" "joined cs'"
    "concat cs' = text" "extends s s' xs k" using ed by (auto simp: edited_def)
  have sub: "set (sc_cache (pt_searchCache s')) \<subseteq> set (sc_cache (pt_searchCache s))" and pc: "\<forall>n\<in>set xs. n_piece (pt_tree s') n = n_piece (pt_tree s) n"
    using e(6) by (auto simp: extends_def)
  have pre: "map (n_length (pt_tree s')) xs = map (n_length (pt_tree s)) xs" "map (n_lineFeedCnt (pt_tree s')) xs = map (n_lineFeedCnt (pt_tree s)) xs"
    using pc by (simp_all add: n_length_def n_lineFeedCnt_def)
  have "entry_ok s' (xs @ as @ ys') x" if x: "x \<in> set (sc_cache (pt_searchCache s'))" for x
  proof -
    note ce = cached_entry [OF inv len c subsetD [OF sub x]]
    show ?thesis
    proof (cases "as = [a]")
      case True
      then show ?thesis unfolding entry_ok_def pre using ce
        by (intro disjI2 exI [of _ xs] exI [of _ ys']) (auto simp: pre)
    next
      case False
      then show ?thesis using e(2) ce(1) by (simp add: entry_ok_def)
    qed
  qed
  then have "cache_ok s' (xs @ as @ ys')" using e(6) inv by (auto simp: cache_ok_def list_all_iff extends_def buffer_inv_def)
  moreover have "pt_EOLLength s' = ilen (pt_EOL s')" using e(6) inv by (simp add: extends_def same_settings_def buffer_inv_def)
  ultimately obtain s'' where s'': "computeBufferMetadata s' = Some s''" "buffer_inv s'' (xs @ as @ ys') cs'" "same_settings s' s''" "pt_buffers s'' = pt_buffers s'"
    using computeBufferMetadata_ok [OF e(1,3,4)] by blast
  moreover have "same_settings s s''" using s''(3) e(6) same_settings_trans by (auto simp: extends_def)
  ultimately show ?thesis using e(5,6) by (auto simp: edit_done_def has_text_def extends_def)
qed

section \<open>Inserting a text\<close>

lemma rb_order_root: "rb_order t ns \<Longrightarrow> rb_root t = SENTINEL \<longleftrightarrow> ns = []"
proof (elim rb_order_shape)
  fix tr assume "nodes tr = ns" "shape (n_parent t) (n_left t) (n_right t) SENTINEL (rb_root t) tr"
  then show "rb_root t = SENTINEL \<longleftrightarrow> ns = []" by (cases tr) auto
qed

lemma insert_into_empty:
  assumes ok: "pieces_ok s [] []" and v: "v \<noteq> []" "\<not> shouldCheckCRLF s \<longrightarrow> no_cr v" and rm: "room s (ilen v + 5)"
  shows "\<exists>ps s2 z t y t2. createNewPieces v s = Some (ps, s2) \<and> rbInsertLeft null_ref (hd ps) (pt_tree s2) = Some (z, t) \<and>
    insert_chain rbInsertRight z (tl ps) t = Some (y, t2) \<and> edited_text s (s2\<lparr>pt_tree := t2\<rparr>) v (ilen v + 5)"
proof -
  have st: "buffers_state s" "room s (ilen v + 1)" using ok rm by (simp_all add: pieces_ok_def room_def)
  obtain ps ds bufs pos where nw: "new_pieces_for v s ps ds bufs pos" using createNewPieces_ok [OF st(1) v st(2)] by blast
  note n = nw [unfolded new_pieces_for_def]
  let ?s2 = "s\<lparr>pt_buffers := bufs, pt_lastChangeBufferPos := pos\<rparr>"
  obtain p ps' d ds' where p: "ps = p # ps'" "ds = d # ds'" using n by (cases ps; cases ds) auto
  have "rb_order (pt_tree s) []" using ok by (simp add: pieces_ok_def)
  from rbt.insert_empty [OF this, of null_ref p] obtain z t where t: "rbInsertLeft null_ref p (pt_tree s) = Some (z, t)" "rb_order t [z]"
    "n_piece t = (n_piece (pt_tree s))(z := p)" "\<forall>b. rb_gone (pt_tree s) b \<longrightarrow> rb_gone t b" by blast
  have cnt: "length (filter (at_end bufs) ps) \<le> 1" using n by (auto split: if_splits)
  have ok1: "pieces_ok (?s2\<lparr>pt_tree := t\<rparr>) ([] @ z # []) ([] @ d # [])"
    using n t(2,3) cnt p by (auto simp: pieces_ok_def segs_ok_def)
  have c: "list_all2 (piece_holds (pt_buffers (?s2\<lparr>pt_tree := t\<rparr>))) ps' ds'"
    "length (filter (at_end (pt_buffers (?s2\<lparr>pt_tree := t\<rparr>))) (map (n_piece (pt_tree (?s2\<lparr>pt_tree := t\<rparr>))) ([] @ z # []) @ ps')) \<le> 1"
    using n p cnt t(3) by simp_all
  have len: "length [] = length []" by simp
  have sel: "pt_tree (?s2\<lparr>pt_tree := t\<rparr>) = t" by simp
  obtain zs t2 where t2: "insert_chain rbInsertRight z ps' t = Some (last (z # zs), t2)"
    "pieces_ok (?s2\<lparr>pt_tree := t, pt_tree := t2\<rparr>) ([] @ z # zs @ []) ([] @ d # ds' @ [])" "map (n_piece t2) zs = ps'"
    "\<forall>n\<in>set ([] @ z # []). n_piece t2 n = n_piece t n" "\<forall>b. rb_gone t b \<longrightarrow> rb_gone t2 b"
    by (rule insert_right_step [OF ok1 len c, unfolded sel])
  have "extends s (?s2\<lparr>pt_tree := t2\<rparr>) [] (ilen v + 5)" using n t(4) t2(5) by (simp add: extends_def same_settings_def grows_kept)
  then have "edited_text s (?s2\<lparr>pt_tree := t2\<rparr>) v (ilen v + 5)"
    unfolding edited_text_def using t2(2) n p by (intro exI [of _ "z # zs"] exI [of _ ds]) simp
  then show ?thesis using n t(1) t2(1) p
    by (intro exI [of _ ps] exI [of _ ?s2] exI [of _ z] exI [of _ t] exI [of _ "last (z # zs)"] exI [of _ t2]) simp
qed

definition insert_state :: "bool \<Rightarrow> piece_tree \<Rightarrow> piece_tree" where
  "insert_state en s = s\<lparr>pt_EOLNormalized := pt_EOLNormalized s \<and> en, pt_lastVisitedLine := (0, [])\<rparr>"

lemma insert_state_inv:
  assumes "buffer_inv s ns cs"
  shows "buffer_inv (insert_state en s) ns cs"
proof -
  have "buffers_state (insert_state en s)" using assms by (auto simp: buffer_inv_def pieces_ok_def buffers_state_def insert_state_def shouldCheckCRLF_def)
  then have "pieces_ok (insert_state en s) ns cs" using assms by (auto simp: buffer_inv_def pieces_ok_def insert_state_def)
  moreover have "entry_ok (insert_state en s) ns = entry_ok s ns" by (rule ext) (simp add: entry_ok_def insert_state_def)
  ultimately show ?thesis using assms by (auto simp: buffer_inv_def cache_ok_def insert_state_def)
qed

lemma take_texts:
  assumes "length us = length xs"
  shows "0 \<le> r \<Longrightarrow> r \<le> ilen c \<Longrightarrow> itake (ilen (concat us) + r) (concat (us @ c # vs)) = concat us @ itake r c"
    "0 \<le> r \<Longrightarrow> r \<le> ilen c \<Longrightarrow> idrop (ilen (concat us) + r) (concat (us @ c # vs)) = idrop r c @ concat vs"
  by (simp_all add: itake_append idrop_append)

lemma validate_drops:
  assumes inv: "buffer_inv s (xs @ a # ys) (us @ c # vs)" and len: "length us = length xs" and ca: "cached s a"
    and sub: "set (sc_cache C) \<subseteq> set (sc_cache (pt_searchCache s))" and o: "off \<le> ilen (concat us)"
  shows "sc_cache (SearchCache_validate t off C) = []"
proof -
  have "\<forall>e\<in>set (sc_cache C). off \<le> ce_nodeStartOffset e" using cached_entry(2) [OF inv len ca] sub o by auto
  then show ?thesis by (auto simp: SearchCache_validate_def filter_empty_conv)
qed

lemma PieceTree_insert_ok:
  assumes inv: "buffer_inv s ns cs" and v: "v \<noteq> []" and off: "0 \<le> off" "off \<le> ilen (concat cs)" and rm: "room s (ilen v + 5)"
    and nc: "pt_EOLNormalized s \<and> en \<and> pt_EOL s = [LF] \<longrightarrow> no_cr v"
  shows "\<exists>s'. PieceTree_insert off v en s = Some s' \<and>
    edit_done (insert_state en s) s' (itake off (concat cs) @ v @ idrop off (concat cs)) (ilen v + 5)"
proof -
  let ?s = "insert_state en s"
  have inv1: "buffer_inv ?s ns cs" by (rule insert_state_inv [OF inv])
  have nv: "\<not> shouldCheckCRLF ?s \<longrightarrow> no_cr v" using nc by (auto simp: shouldCheckCRLF_def insert_state_def)
  have rm1: "room ?s (ilen v + 5)" using rm by (simp add: room_def insert_state_def)
  have ok: "pieces_ok ?s ns cs" using inv1 by (simp add: buffer_inv_def)
  have root: "rb_root (pt_tree ?s) = SENTINEL \<longleftrightarrow> ns = []" using ok rb_order_root by (simp add: pieces_ok_def)
  show ?thesis
  proof (cases "ns = []")
    case True
    then have cs: "cs = []" using pieces_ok_nodes(4) [OF ok] by simp
    then have ok0: "pieces_ok ?s [] []" using ok True by simp
    obtain ps s2 z t y t2 where e: "createNewPieces v ?s = Some (ps, s2)" "rbInsertLeft null_ref (hd ps) (pt_tree s2) = Some (z, t)"
      "insert_chain rbInsertRight z (tl ps) t = Some (y, t2)" "edited_text ?s (s2\<lparr>pt_tree := t2\<rparr>) v (ilen v + 5)"
      using insert_into_empty [OF ok0 v nv rm1] by blast
    have gone: "\<forall>e\<in>set (sc_cache (pt_searchCache ?s)). rb_gone (pt_tree ?s) (ce_node e)"
      using inv1 True by (auto simp: buffer_inv_def cache_ok_def entry_ok_def list_all_iff)
    obtain s3 where s3: "computeBufferMetadata (s2\<lparr>pt_tree := t2\<rparr>) = Some s3" "edit_done ?s s3 v (ilen v + 5)"
      using finish_text [OF e(4) inv1] e(4) gone by (auto simp: edited_text_def extends_def)
    have "PieceTree_insert off v en s = Some s3" using e(1-3) s3(1) root True
      by (simp add: PieceTree_insert_def insert_state_def [symmetric] Let_def)
    then show ?thesis using s3(2) cs by simp
  next
    case False
    obtain xs a ys us c vs C where a: "ns = xs @ a # ys" "cs = us @ c # vs" "length us = length xs"
      "0 \<le> off - ilen (concat us)" "off - ilen (concat us) \<le> ilen c"
      "nodeAt off ?s = Some (Some \<lparr>np_node = a, np_remainder = off - ilen (concat us), np_nodeStartOffset = ilen (concat us)\<rparr>,
         ?s\<lparr>pt_searchCache := C\<rparr>)"
      "buffer_inv (?s\<lparr>pt_searchCache := C\<rparr>) ns cs" "cached (?s\<lparr>pt_searchCache := C\<rparr>) a"
      by (rule nodeAt_ok [OF inv1 False off])
    let ?s2 = "?s\<lparr>pt_searchCache := C\<rparr>" and ?r = "off - ilen (concat us)"
    let ?p = "n_piece (pt_tree ?s2) a"
    have inv2: "buffer_inv ?s2 (xs @ a # ys) (us @ c # vs)" using a(1,2,7) by simp
    have ok2: "pieces_ok ?s2 (xs @ a # ys) (us @ c # vs)" and cs: "[] \<notin> set (us @ c # vs)" "joined (us @ c # vs)"
      using inv2 by (auto simp: buffer_inv_def)
    have st2: "\<not> shouldCheckCRLF ?s2 \<longrightarrow> no_cr v" "room ?s2 (ilen v + 5)" using nv rm1 by (simp_all add: room_def)
    have tx: "itake off (concat cs) @ v @ idrop off (concat cs) = concat us @ itake ?r c @ v @ idrop ?r c @ concat vs"
      using take_texts [OF a(3) a(4,5)] a(2) by simp
    obtain pos where pos: "positionInBuffer (pt_buffers ?s2) ?p ?r = Some pos"
      using right_piece_ok [OF pieces_ok_at(2) [OF ok2 a(3)] a(4,5)] by blast
    have pl: "pc_length ?p = ilen c" using piece_holds_length [OF pieces_ok_at(2) [OF ok2 a(3)]] .
    have done2: "edit_done ?s s' T k" if "edit_done ?s2 s' T k" for s' T k
      using that by (simp add: edit_done_def same_settings_def)
    let ?at = "pc_bufferIndex ?p = 0 \<and> bc_line (pc_end ?p) = bc_line (pt_lastChangeBufferPos ?s2) \<and>
      bc_column (pc_end ?p) = bc_column (pt_lastChangeBufferPos ?s2) \<and> ilen (concat us) + pc_length ?p = off \<and> ilen v < AverageBufferSize"
    have root2: "rb_root (pt_tree ?s) \<noteq> SENTINEL" using root False by simp
    have run: "PieceTree_insert off v en s = (if ?at then appendToNode a v ?s2 \<bind> computeBufferMetadata
      else (if ilen (concat us) = off then insertContentToNodeLeft v a ?s2 \<bind>
              (\<lambda>s. Some (s\<lparr>pt_searchCache := SearchCache_validate (pt_tree s) off (pt_searchCache s)\<rparr>))
            else if ilen (concat us) + pc_length ?p > off then insertInMiddle v a ?r pos ?s2
            else insertContentToNodeRight v a ?s2) \<bind> computeBufferMetadata)"
      using root2 a(6) pos
      by (simp only: PieceTree_insert_def insert_state_def [symmetric] Let_def simp_thms if_True Option.bind.simps prod.case node_position.simps)
    consider (append) ?at | (left) "\<not> ?at" "ilen (concat us) = off" | (mid) "\<not> ?at" "0 < ?r" "?r < ilen c" | (right) "\<not> ?at" "0 < ?r" "?r = ilen c"
      using a(4,5) by linarith
    then show ?thesis
    proof cases
      case append
      have "pc_end ?p = pt_lastChangeBufferPos ?s2" using append by (intro buffer_cursor.expand) simp
      then have e: "at_end (pt_buffers ?s2) ?p" using append ok2 by (simp add: at_end_def pieces_ok_def buffers_state_def)
      have r: "?r = ilen c" using append pl by simp
      obtain s' where s': "appendToNode a v ?s2 = Some s'" "edited ?s2 s' xs a (concat us @ c @ v @ concat vs) (ilen v + 5)"
        using appendToNode_ok [OF ok2 a(3) cs v st2(1) _ st2(2) e] append by blast
      then show ?thesis using finish_edited [OF s'(2) inv2 a(3,8)] run append done2 tx unfolding r by auto
    next
      case left
      obtain s' where s': "insertContentToNodeLeft v a ?s2 = Some s'" "edited_text ?s2 s' (concat us @ v @ c @ concat vs) (ilen v + 5)"
        using insertContentToNodeLeft_ok [OF ok2 a(3) cs v st2] by blast
      let ?s3 = "s'\<lparr>pt_searchCache := SearchCache_validate (pt_tree s') off (pt_searchCache s')\<rparr>"
      have sub: "set (sc_cache (pt_searchCache s')) \<subseteq> set (sc_cache (pt_searchCache ?s2))" using s'(2) by (auto simp: edited_text_def extends_def)
      have empty: "sc_cache (pt_searchCache ?s3) = []" using validate_drops [OF inv2 a(3,8) sub] left by simp
      have "edited_text ?s2 ?s3 (concat us @ v @ c @ concat vs) (ilen v + 5)"
        using s'(2) empty by (fastforce simp: edited_text_def extends_def same_settings_def SearchCache_validate_def)
      then obtain s4 where "computeBufferMetadata ?s3 = Some s4" "edit_done ?s2 s4 (concat us @ v @ c @ concat vs) (ilen v + 5)"
        using finish_text [OF _ inv2] empty by fastforce
      then show ?thesis using run s'(1) left done2 tx a(4) by auto
    next
      case mid
      obtain s' where s': "insertInMiddle v a ?r pos ?s2 = Some s'"
        "edited ?s2 s' xs a (concat us @ itake ?r c @ v @ idrop ?r c @ concat vs) (ilen v + 5)"
        using insertInMiddle_ok [OF ok2 a(3) cs v st2(1) mid(2,3) st2(2) pos] by blast
      then show ?thesis using finish_edited [OF s'(2) inv2 a(3,8)] run mid done2 tx pl by auto
    next
      case right
      obtain s' where s': "insertContentToNodeRight v a ?s2 = Some s'" "edited ?s2 s' xs a (concat us @ c @ v @ concat vs) (ilen v + 5)"
        using insertContentToNodeRight_ok [OF ok2 a(3) cs v st2] by blast
      then show ?thesis using finish_edited [OF s'(2) inv2 a(3,8)] run right done2 tx pl by auto
    qed
  qed
qed

section \<open>Joining the texts around a deletion\<close>

lemma pair_edited:
  assumes f: "pair_fixed s s' xs a b ys us (c @ d) vs" and len: "length us = length xs" and cd: "c \<noteq> []" "d \<noteq> []"
    and j: "[] \<notin> set us" "[] \<notin> set vs" "joined (us @ [c])" "joined (d # vs)"
  shows "edited s s' xs a (concat us @ c @ d @ concat vs) 3"
proof -
  obtain as ms ws where f: "pieces_ok s' (xs @ as @ ms @ ys) (us @ ws @ vs)" "as = [a] \<or> as = [] \<and> rb_gone (pt_tree s') a"
    "concat ws = c @ d" "[] \<notin> set ws" "joined ws" "extends s s' (xs @ ys) 3" using f unfolding pair_fixed_def by blast
  have "joined us" "\<not> splits_crlf (concat us) c" using joined_append_iff [of us "[c]"] j cd by auto
  moreover have "joined vs" "\<not> splits_crlf d (concat vs)" using joined_append_iff [of "[d]" vs] j cd by auto
  ultimately have "joined (us @ ws @ vs)" using joined_parts [of us ws vs] f j cd by (simp add: splits_crlf_append)
  moreover have "concat (us @ ws @ vs) = concat us @ c @ d @ concat vs" using f(3) by simp
  moreover have "[] \<notin> set (us @ ws @ vs)" using f(4) j by simp
  moreover have "extends s s' xs 3" using extends_mono [OF f(6)] by simp
  ultimately show ?thesis using editedI [OF f(1,2)] by blast
qed

lemma seam_next:
  assumes ok: "pieces_ok s (xs @ a # ys) (us @ c # vs)" and len: "length us = length xs" and c: "[] \<notin> set (us @ c # vs)"
    and j: "joined (us @ [c])" "joined vs" and rm: "room s 3"
  shows "\<exists>s'. validateCRLFWithNextNode a s = Some s' \<and> edited s s' xs a (concat us @ c @ concat vs) 3"
proof (cases ys)
  case Nil
  then have "vs = []" using pieces_ok_at(4) [OF ok len] by simp
  moreover have "pieces_ok s (xs @ [a] @ []) (us @ [c])" using ok Nil \<open>vs = []\<close> by simp
  from editedI [OF this, of a "concat us @ c" s 3] have "edited s s xs a (concat us @ c) 3" using c j by (simp add: extends_refl)
  moreover have "c \<noteq> []" using c by auto
  ultimately show ?thesis using validateNext_last [of s xs a us c] ok Nil by simp
next
  case (Cons b ys')
  then obtain d vs' where d: "vs = d # vs'" using pieces_ok_at(4) [OF ok len] by (cases vs) auto
  have ok1: "pieces_ok s (xs @ a # b # ys') (us @ c # d # vs')" "c \<noteq> []" "d \<noteq> []" using ok Cons d c by auto
  obtain s' where s': "validateCRLFWithNextNode a s = Some s'" "pair_fixed s s' xs a b ys' us (c @ d) vs'"
    using validateNext_ok [OF ok1(1) len ok1(2,3) rm] by blast
  then have "edited s s' xs a (concat us @ c @ d @ concat vs') 3" using pair_edited [OF s'(2) len ok1(2,3)] c j d by simp
  then show ?thesis using s'(1) d by simp
qed

lemma seam_prev:
  assumes ok: "pieces_ok s (xs @ a # b # ys) (us @ c # d # vs)" and len: "length us = length xs" and c: "[] \<notin> set (us @ c # d # vs)"
    and j: "joined (us @ [c])" "joined (d # vs)" and rm: "room s 3"
  shows "\<exists>s'. validateCRLFWithPrevNode b s = Some s' \<and> edited s s' xs a (concat us @ c @ d @ concat vs) 3"
proof -
  have cd: "c \<noteq> []" "d \<noteq> []" using c by auto
  obtain s' where s': "validateCRLFWithPrevNode b s = Some s'" "pair_fixed s s' xs a b ys us (c @ d) vs"
    using validatePrev_ok [OF ok len cd rm] by blast
  then show ?thesis using pair_edited [OF s'(2) len cd] c j by auto
qed

lemma edited_edited_text: "edited s s' xs a text k \<Longrightarrow> edited_text s s' text k"
  unfolding edited_def edited_text_def using extends_mono [of s s' xs k "[]" k] by auto

text \<open>The same with the sentinel in place of a missing neighbour.\<close>

lemma seam_next_text:
  assumes ok: "pieces_ok s (xs @ ys) (us @ vs)" and len: "length us = length xs" and c: "[] \<notin> set (us @ vs)"
    and j: "joined us" "joined vs" and rm: "room s 3"
  shows "\<exists>s'. validateCRLFWithNextNode (if xs = [] then SENTINEL else last xs) s = Some s' \<and> edited_text s s' (concat us @ concat vs) 3"
proof (cases xs rule: rev_cases)
  case Nil
  then have "edited_text s s (concat us @ concat vs) 3" using ok len c j
    by (auto simp: edited_text_def extends_refl intro!: exI [of _ ys] exI [of _ vs])
  then show ?thesis using Nil by simp
next
  case (snoc xs' a)
  then obtain us' e where u: "us = us' @ [e]" "length us' = length xs'" using len by (cases us rule: rev_cases) auto
  have "pieces_ok s (xs' @ a # ys) (us' @ e # vs)" using ok snoc u by simp
  from seam_next [OF this u(2) _ _ j(2) rm] show ?thesis using edited_edited_text snoc u c j by fastforce
qed

lemma seam_prev_text:
  assumes ok: "pieces_ok s (xs @ ys) (us @ vs)" and len: "length us = length xs" and c: "[] \<notin> set (us @ vs)"
    and j: "joined us" "joined vs" and rm: "room s 3"
  shows "\<exists>s'. validateCRLFWithPrevNode (if ys = [] then SENTINEL else hd ys) s = Some s' \<and> edited_text s s' (concat us @ concat vs) 3"
proof (cases ys)
  case Nil
  then have "vs = []" using pieces_ok_nodes(4) [OF ok] len by simp
  then have "edited_text s s (concat us @ concat vs) 3" using ok len c j Nil
    by (auto simp: edited_text_def extends_refl intro!: exI [of _ xs] exI [of _ us])
  then show ?thesis using Nil by simp
next
  case (Cons b ys')
  then obtain d vs' where d: "vs = d # vs'" using pieces_ok_nodes(4) [OF ok] len by (cases vs) auto
  have ok1: "pieces_ok s (xs @ b # ys') (us @ d # vs')" "[] \<notin> set us" "d \<noteq> []" "[] \<notin> set vs'" using ok Cons d c by auto
  obtain s' ns ts where s': "validateCRLFWithPrevNode b s = Some s'" "pieces_ok s' (ns @ ys') (ts @ vs')" "[] \<notin> set ts" "joined ts"
    "concat ts = concat us @ d" "extends s s' ys' 3" using validate_front [OF ok1(1) len ok1(2) j(1) ok1(3) rm] by blast
  have "joined (ts @ vs')" using joined_append_iff [of ts vs'] joined_append_iff [of "[d]" vs'] j d ok1 s' by (simp add: splits_crlf_append)
  then have "edited_text s s' (concat us @ concat vs) 3"
    unfolding edited_text_def using s' d ok1 extends_mono [OF s'(6), of "[]" 3] by (intro exI [of _ "ns @ ys'"] exI [of _ "ts @ vs'"]) simp
  then show ?thesis using s'(1) Cons by auto
qed

section \<open>Deleting within a node\<close>

lemma left_piece_ok:
  assumes "piece_holds bufs p c" "0 \<le> r" "r \<le> ilen c"
  shows "\<exists>pos lf so po. positionInBuffer bufs p r = Some pos \<and> getLineFeedCnt bufs (pc_bufferIndex p) (pc_start p) pos = Some lf \<and>
    offsetInBuffer bufs (pc_bufferIndex p) pos = Some so \<and> offsetInBuffer bufs (pc_bufferIndex p) (pc_start p) = Some po \<and>
    piece_holds bufs (MkPiece (pc_bufferIndex p) (pc_start p) pos lf (so - po)) (itake r c) \<and>
    (r < ilen c \<longrightarrow> \<not> at_end bufs (MkPiece (pc_bufferIndex p) (pc_start p) pos lf (so - po)))"
proof -
  obtain i b e where p: "range_ok bufs i b e" "p = piece_of_range bufs i b e" "c = substr (text_at bufs i) b e"
    "0 \<le> b" "b \<le> e" "e \<le> ilen (text_at bufs i)" "ilen c = e - b" using assms(1) by (rule piece_holdsE)
  have rg: "range_ok bufs i b (b + r)" "range_ok bufs i 0 (b + r)" using p assms(2,3) by (auto simp: range_ok_def)
  have q: "piece_holds bufs (piece_of_range bufs i b (b + r)) (itake r c)"
    using piece_holds_range [OF rg(1)] p assms(2,3) by (simp add: itake_substr)
  have e: "r < ilen c \<longrightarrow> \<not> at_end bufs (piece_of_range bufs i b (b + r))" using p by (auto simp: at_end_range)
  have pos: "positionInBuffer bufs p r = Some (cursor_of (text_at bufs i) (b + r))"
    using piece_positionInBuffer [OF p(1)] assms(2,3) p(2,3) by simp
  show ?thesis using pos q e p(2)
    by (simp add: getLineFeedCnt_ok [OF rg(2)] offsetInBuffer_ok [OF p(1)] piece_of_range_def)
qed

lemma shrinkNode_ok:
  assumes ok: "pieces_ok s (xs @ a # ys) (us @ c # vs)" and len: "length us = length xs"
    and cs: "[] \<notin> set (us @ c # vs)" "joined (us @ c # vs)" and r: "0 < r" "r \<le> q" "q < ilen c" and rm: "room s 3"
    and pos: "positionInBuffer (pt_buffers s) (n_piece (pt_tree s) a) r = Some start"
      "positionInBuffer (pt_buffers s) (n_piece (pt_tree s) a) q = Some stop"
  shows "\<exists>s'. shrinkNode a start stop s = Some s' \<and> edited s s' xs a (concat us @ itake r c @ idrop q c @ concat vs) 3"
proof -
  let ?bufs = "pt_buffers s" and ?p = "n_piece (pt_tree s) a"
  note p = pieces_ok_at(2) [OF ok len]
  let ?i = "pc_bufferIndex ?p"
  obtain lf so po where l: "getLineFeedCnt ?bufs ?i (pc_start ?p) start = Some lf" "offsetInBuffer ?bufs ?i start = Some so"
    "offsetInBuffer ?bufs ?i (pc_start ?p) = Some po" "piece_holds ?bufs (MkPiece ?i (pc_start ?p) start lf (so - po)) (itake r c)"
    "\<not> at_end ?bufs (MkPiece ?i (pc_start ?p) start lf (so - po))"
    using left_piece_ok [OF p, of r] r pos(1) by auto
  obtain lf' eo qo where R: "getLineFeedCnt ?bufs ?i stop (pc_end ?p) = Some lf'" "offsetInBuffer ?bufs ?i (pc_end ?p) = Some eo"
    "offsetInBuffer ?bufs ?i stop = Some qo" "piece_holds ?bufs (MkPiece ?i stop (pc_end ?p) lf' (eo - qo)) (idrop q c)"
    "at_end ?bufs (MkPiece ?i stop (pc_end ?p) lf' (eo - qo)) \<longrightarrow> at_end ?bufs ?p"
    using right_piece_ok [OF p, of q] r pos(2) by auto
  let ?L = "MkPiece ?i (pc_start ?p) start lf (so - po)" and ?R = "MkPiece ?i stop (pc_end ?p) lf' (eo - qo)"
  have "at_end ?bufs ?L \<longrightarrow> at_end ?bufs ?p" using l(5) by blast
  from replace_step [OF ok len l(4) this] obtain t where t: "replacePiece a ?L (so - po - pc_length ?p) (lf - pc_lineFeedCnt ?p) (pt_tree s) = Some t"
    "pieces_ok (s\<lparr>pt_tree := t\<rparr>) (xs @ a # ys) (us @ itake r c # vs)" "n_piece t = (n_piece (pt_tree s))(a := ?L)" "rb_gone t = rb_gone (pt_tree s)"
    by auto
  have nd: "a \<notin> set xs" "a \<notin> set ys" using pieces_ok_nodes(1) [OF ok] by auto
  have m: "map (n_piece t) (xs @ a # ys) = map (n_piece (pt_tree s)) xs @ ?L # map (n_piece (pt_tree s)) ys" using t(3) nd by simp
  have "length (filter (at_end ?bufs) (map (n_piece (pt_tree s)) (xs @ a # ys))) \<le> 1" using ok by (simp add: pieces_ok_def segs_ok_def)
  then have "length (filter (at_end ?bufs) (map (n_piece t) (xs @ a # ys) @ [?R])) \<le> 1"
    unfolding m using l(5) R(5)
    by (cases "at_end ?bufs ?R"; cases "at_end ?bufs ?p";
        simp only: map_append list.map filter_append filter_count_Cons length_append append.simps append_assoc if_True if_False simp_thms
          filter.simps(1) list.size(3) add_0_left add_0_right; linarith)
  then have C: "length (filter (at_end (pt_buffers (s\<lparr>pt_tree := t\<rparr>))) (map (n_piece (pt_tree (s\<lparr>pt_tree := t\<rparr>))) (xs @ a # ys) @ [?R])) \<le> 1" by simp
  have D: "list_all2 (piece_holds (pt_buffers (s\<lparr>pt_tree := t\<rparr>))) [?R] [idrop q c]" using R(4) by simp
  have sel: "pt_tree (s\<lparr>pt_tree := t\<rparr>) = t" by simp
  obtain zs t2 where t2: "insert_chain rbInsertRight a [?R] t = Some (last (a # zs), t2)"
    "pieces_ok (s\<lparr>pt_tree := t, pt_tree := t2\<rparr>) (xs @ a # zs @ ys) (us @ itake r c # [idrop q c] @ vs)" "map (n_piece t2) zs = [?R]"
    "\<forall>n\<in>set (xs @ a # ys). n_piece t2 n = n_piece t n" "\<forall>b. rb_gone t b \<longrightarrow> rb_gone t2 b"
    by (rule insert_right_step [OF t(2) len D C, unfolded sel])
  then obtain z where z: "zs = [z]" by auto
  then have ins: "rbInsertRight a ?R t = Some (z, t2)" using t2(1) by (auto split: bind_splits)
  let ?s2 = "s\<lparr>pt_tree := t2\<rparr>"
  have ok2: "pieces_ok ?s2 (xs @ a # z # ys) (us @ itake r c # idrop q c # vs)" using t2(2) z by simp
  have ne: "itake r c \<noteq> []" "idrop q c \<noteq> []" using r by (auto simp: itake_def idrop_def)
  have j: "joined us" "joined vs" "\<not> splits_crlf (concat us) c" "\<not> splits_crlf c (concat vs)" "[] \<notin> set us" "[] \<notin> set vs"
    using cs joined_parts [of us "[c]" vs] by (auto simp: splits_crlf_append)
  have "joined (us @ [itake r c])"
    using joined_append_iff [of us "[itake r c]"] splits_crlf_append(1) [OF ne(1), of "concat us" "idrop r c"] j ne by simp
  moreover have "joined (idrop q c # vs)"
    using joined_append_iff [of "[idrop q c]" vs] splits_crlf_append(2) [OF ne(2), of "itake q c" "concat vs"] j ne by simp
  moreover have "[] \<notin> set (us @ itake r c # idrop q c # vs)" using ne j by auto
  moreover have "room ?s2 3" using rm by (simp add: room_def)
  ultimately obtain s' where s': "validateCRLFWithPrevNode z ?s2 = Some s'" "edited ?s2 s' xs a (concat us @ itake r c @ idrop q c @ concat vs) 3"
    using seam_prev [OF ok2 len] by blast
  have "extends s ?s2 xs 0" using t(3,4) t2(4,5) nd by (intro extends_tree) auto
  then have "edited s s' xs a (concat us @ itake r c @ idrop q c @ concat vs) 3"
    using s'(2) extends_trans [of s ?s2 xs 0 s' 3] unfolding edited_def by auto
  moreover have "shrinkNode a start stop s = Some s'" using l(1-3) R(1-3) t(1) ins s'(1) by (simp add: shrinkNode_def Let_def)
  ultimately show ?thesis by blast
qed

text \<open>
  What the search cache holds after a deletion: entries for the edited node with the nodes before it
  untouched, or only entries of removed nodes.
\<close>

definition deleted :: "piece_tree \<Rightarrow> piece_tree \<Rightarrow> node_ref list \<Rightarrow> node_ref \<Rightarrow> js_string \<Rightarrow> bool" where
  "deleted s s' xs a text \<longleftrightarrow> edited s s' xs a text 3 \<or>
     edited_text s s' text 3 \<and> (\<forall>e\<in>set (sc_cache (pt_searchCache s')). rb_gone (pt_tree s') (ce_node e))"

lemma edited_before: "extends s s1 xs 0 \<Longrightarrow> edited s1 s' xs a text k \<Longrightarrow> edited s s' xs a text k"
  unfolding edited_def using extends_trans [of s s1 xs 0 s' k] by auto

lemma edited_text_before: "extends s s1 [] 0 \<Longrightarrow> edited_text s1 s' text k \<Longrightarrow> edited_text s s' text k"
  unfolding edited_text_def using extends_trans [of s s1 "[]" 0 s' k] by auto

lemma deleteInNode_ok:
  assumes inv: "buffer_inv s (xs @ a # ys) (us @ c # vs)" and len: "length us = length xs" and ca: "cached s a"
    and r: "0 \<le> r" "0 < cnt" "r + cnt \<le> ilen c" and rm: "room s 3"
    and sp: "sp = \<lparr>np_node = a, np_remainder = r, np_nodeStartOffset = ilen (concat us)\<rparr>"
    and ep: "ep = \<lparr>np_node = a, np_remainder = r + cnt, np_nodeStartOffset = ilen (concat us)\<rparr>"
  shows "\<exists>s'. deleteInNode (ilen (concat us) + r) cnt sp ep s = Some s' \<and>
    deleted s s' xs a (concat us @ itake r c @ idrop (r + cnt) c @ concat vs)"
proof -
  have ok: "pieces_ok s (xs @ a # ys) (us @ c # vs)" and cs: "[] \<notin> set (us @ c # vs)" "joined (us @ c # vs)"
    using inv by (auto simp: buffer_inv_def)
  have j: "joined us" "joined vs" "\<not> splits_crlf (concat us) c" "\<not> splits_crlf c (concat vs)" "[] \<notin> set us" "[] \<notin> set vs"
    using cs joined_parts [of us "[c]" vs] by (auto simp: splits_crlf_append)
  note p = pieces_ok_at(2) [OF ok len]
  have pl: "pc_length (n_piece (pt_tree s) a) = ilen c" using piece_holds_length [OF p] .
  obtain start where start: "positionInBuffer (pt_buffers s) (n_piece (pt_tree s) a) r = Some start"
    using left_piece_ok [OF p, of r] r by auto
  obtain stop where stop: "positionInBuffer (pt_buffers s) (n_piece (pt_tree s) a) (r + cnt) = Some stop"
    using left_piece_ok [OF p, of "r + cnt"] r by auto
  have run: "deleteInNode (ilen (concat us) + r) cnt sp ep s =
     (if r = 0 then
        if cnt = ilen c then do {
          nxt \<leftarrow> TreeNode_next (pt_tree s) a;
          t \<leftarrow> rbDelete a (pt_tree s);
          validateCRLFWithPrevNode nxt (s\<lparr>pt_tree := t\<rparr>)
        } else do {
          s \<leftarrow> deleteNodeHead a stop s;
          validateCRLFWithPrevNode a
            (s\<lparr>pt_searchCache := SearchCache_validate (pt_tree s) (ilen (concat us) + r) (pt_searchCache s)\<rparr>)
        }
      else if r + cnt = ilen c then do {
        s \<leftarrow> deleteNodeTail a start s;
        validateCRLFWithNextNode a s
      } else shrinkNode a start stop s)"
    using start stop pl sp ep by (auto simp: deleteInNode_def Let_def)
  consider (all) "r = 0" "cnt = ilen c" | (head) "r = 0" "cnt < ilen c" | (tail) "0 < r" "r + cnt = ilen c" | (mid) "0 < r" "r + cnt < ilen c"
    using r by linarith
  then show ?thesis
  proof cases
    case all
    obtain t where t: "rbDelete a (pt_tree s) = Some t" "pieces_ok (s\<lparr>pt_tree := t\<rparr>) (xs @ ys) (us @ vs)"
      "rb_gone t a" "\<forall>n. rb_gone (pt_tree s) n \<longrightarrow> rb_gone t n"
      using remove_step [OF ok len] by blast
    have "room (s\<lparr>pt_tree := t\<rparr>) 3" "[] \<notin> set (us @ vs)" using rm j by (simp_all add: room_def)
    from seam_prev_text [OF t(2) len this(2) j(1,2) this(1)] obtain s' where
      s': "validateCRLFWithPrevNode (if ys = [] then SENTINEL else hd ys) (s\<lparr>pt_tree := t\<rparr>) = Some s'"
      "edited_text (s\<lparr>pt_tree := t\<rparr>) s' (concat us @ concat vs) 3" by blast
    have e: "edited_text s s' (concat us @ concat vs) 3"
      using t(4) by (intro edited_text_before [OF _ s'(2)] extends_tree) simp_all
    have "\<forall>e\<in>set (sc_cache (pt_searchCache s')). rb_gone (pt_tree s') (ce_node e)"
      using s'(2) t(3) cached_entry(1) [OF inv len ca] by (fastforce simp: edited_text_def extends_def)
    then have "deleted s s' xs a (concat us @ itake r c @ idrop (r + cnt) c @ concat vs)" using e all by (simp add: deleted_def itake_def)
    then show ?thesis using run all t(1) s'(1) tree_next [OF ok] by simp
  next
    case head
    have cnt: "0 \<le> cnt" "cnt \<le> ilen c" using head r by simp_all
    obtain pos t where t: "positionInBuffer (pt_buffers s) (n_piece (pt_tree s) a) cnt = Some pos"
      "deleteNodeHead a pos s = Some (s\<lparr>pt_tree := t\<rparr>)" "pieces_ok (s\<lparr>pt_tree := t\<rparr>) (xs @ a # ys) (us @ idrop cnt c # vs)"
      "rb_gone t = rb_gone (pt_tree s)"
      using deleteNodeHead_ok [OF ok len cnt] by metis
    let ?s1 = "s\<lparr>pt_tree := t, pt_searchCache := SearchCache_validate t (ilen (concat us)) (pt_searchCache s)\<rparr>"
    have ne: "idrop cnt c \<noteq> []" using head r by (auto simp: idrop_def)
    have "joined (idrop cnt c # vs)"
      using joined_append_iff [of "[idrop cnt c]" vs] splits_crlf_append(2) [OF ne, of "itake cnt c" "concat vs"] j ne by simp
    moreover have "pieces_ok ?s1 (xs @ a # ys) (us @ idrop cnt c # vs)" using t(3) by simp
    moreover have "room ?s1 3" "[] \<notin> set (us @ idrop cnt c # vs)" using rm j ne by (auto simp: room_def)
    ultimately obtain s' where s': "validateCRLFWithPrevNode a ?s1 = Some s'" "edited_text ?s1 s' (concat us @ idrop cnt c @ concat vs) 3"
      using seam_prev_text [of ?s1 xs "a # ys" us "idrop cnt c # vs"] len j(1) by auto
    have empty: "sc_cache (pt_searchCache ?s1) = []" using validate_drops [OF inv len ca] by simp
    then have "extends s ?s1 [] 0" using t(4) by (simp add: extends_def same_settings_def SearchCache_validate_def)
    then have e: "edited_text s s' (concat us @ idrop cnt c @ concat vs) 3" using s'(2) by (rule edited_text_before)
    have "sc_cache (pt_searchCache s') = []" using s'(2) empty by (auto simp: edited_text_def extends_def)
    then have "deleted s s' xs a (concat us @ itake r c @ idrop (r + cnt) c @ concat vs)" using e head by (simp add: deleted_def itake_def)
    then show ?thesis using run head t(1,2) s'(1) stop by simp
  next
    case tail
    have rr: "0 \<le> r" "r \<le> ilen c" using tail r by simp_all
    obtain pos t q where t: "positionInBuffer (pt_buffers s) (n_piece (pt_tree s) a) r = Some pos"
      "deleteNodeTail a pos s = Some (s\<lparr>pt_tree := t\<rparr>)" "pieces_ok (s\<lparr>pt_tree := t\<rparr>) (xs @ a # ys) (us @ itake r c # vs)"
      "n_piece t = (n_piece (pt_tree s))(a := q)" "rb_gone t = rb_gone (pt_tree s)"
      using deleteNodeTail_ok [OF ok len rr] by metis
    have ne: "itake r c \<noteq> []" using tail r by (auto simp: itake_def)
    have "joined (us @ [itake r c])"
      using joined_append_iff [of us "[itake r c]"] splits_crlf_append(1) [OF ne, of "concat us" "idrop r c"] j ne by simp
    moreover have "room (s\<lparr>pt_tree := t\<rparr>) 3" "[] \<notin> set (us @ itake r c # vs)" using rm j ne by (auto simp: room_def)
    ultimately obtain s' where s': "validateCRLFWithNextNode a (s\<lparr>pt_tree := t\<rparr>) = Some s'"
      "edited (s\<lparr>pt_tree := t\<rparr>) s' xs a (concat us @ itake r c @ concat vs) 3" using seam_next [OF t(3) len _ _ j(2)] by blast
    have "extends s (s\<lparr>pt_tree := t\<rparr>) xs 0" using t(4,5) pieces_ok_nodes(1) [OF ok] by (intro extends_tree) auto
    then have "edited s s' xs a (concat us @ itake r c @ concat vs) 3" using s'(2) by (rule edited_before)
    then have "deleted s s' xs a (concat us @ itake r c @ idrop (r + cnt) c @ concat vs)" using tail by (simp add: deleted_def)
    then show ?thesis using run tail t(1,2) s'(1) start by simp
  next
    case mid
    have rr: "r \<le> r + cnt" using r by simp
    from shrinkNode_ok [OF ok len cs mid(1) rr mid(2) rm start stop] show ?thesis using run mid by (auto simp: deleted_def)
  qed
qed

section \<open>Deleting across nodes\<close>

lemma nodes_until_ok:
  assumes "rb_order t ns" "b \<noteq> SENTINEL"
  shows "ns = xs @ ms @ b # ys \<Longrightarrow> nodes_until t (hd (ms @ [b])) b = Some ms"
proof (induction ms arbitrary: xs)
  case Nil
  then show ?case by (simp add: nodes_until.simps)
next
  case (Cons m ms)
  have o: "rb_order t (xs @ m # (ms @ b # ys))" using assms(1) Cons.prems by simp
  have d: "distinct ns" "SENTINEL \<notin> set ns" using rbt.ord_nodes [OF assms(1)] by auto
  have "TreeNode_next t m = Some (hd (ms @ [b]))" using rbt.succ [OF o] by (cases ms) auto
  moreover have "nodes_until t (hd (ms @ [b])) b = Some ms" using Cons.IH [of "xs @ [m]"] Cons.prems by simp
  moreover have "m \<noteq> SENTINEL" "m \<noteq> b" using d Cons.prems by auto
  ultimately show ?case by (subst nodes_until.simps) simp
qed

lemma deleteAcrossNodes_ok:
  assumes inv: "buffer_inv s (xs @ a # ms @ b # ys) (us @ c # ws @ d # vs)" and len: "length us = length xs" "length ws = length ms"
    and ca: "cached s b" and r: "0 \<le> r" "r \<le> ilen c" and q: "0 \<le> q" "q \<le> ilen d" and rm: "room s 3"
    and off: "off \<le> ilen (concat us) + ilen c"
    and sp: "np_node sp = a" "np_remainder sp = r" and ep: "np_node ep = b" "np_remainder ep = q"
  shows "\<exists>s'. deleteAcrossNodes off sp ep s = Some s' \<and> deleted s s' zs e (concat us @ itake r c @ idrop q d @ concat vs)"
proof -
  have ok: "pieces_ok s (xs @ a # (ms @ b # ys)) (us @ c # (ws @ d # vs))" and cs: "[] \<notin> set (us @ c # ws @ d # vs)" "joined (us @ c # ws @ d # vs)"
    using inv by (auto simp: buffer_inv_def)
  have nd: "distinct (xs @ a # ms @ b # ys)" "b \<noteq> SENTINEL" using pieces_ok_nodes(1,2) [OF ok] by auto
  obtain start t1 p1 where t1: "positionInBuffer (pt_buffers s) (n_piece (pt_tree s) a) r = Some start"
    "deleteNodeTail a start s = Some (s\<lparr>pt_tree := t1\<rparr>)" "pieces_ok (s\<lparr>pt_tree := t1\<rparr>) (xs @ a # (ms @ b # ys)) (us @ itake r c # (ws @ d # vs))"
    "n_piece t1 = (n_piece (pt_tree s))(a := p1)" "rb_gone t1 = rb_gone (pt_tree s)"
    using deleteNodeTail_ok [OF ok len(1) r] by metis
  let ?C = "SearchCache_validate t1 off (pt_searchCache s)"
  let ?s1 = "s\<lparr>pt_tree := t1, pt_searchCache := ?C\<rparr>"
  have ok1: "pieces_ok ?s1 ((xs @ a # ms) @ b # ys) ((us @ itake r c # ws) @ d # vs)" "length (us @ itake r c # ws) = length (xs @ a # ms)"
    using t1(3) len by simp_all
  have la: "n_length t1 a = ilen (itake r c)" using piece_holds_length [OF pieces_ok_at(2) [OF t1(3) len(1)]] by (simp add: n_length_def)
  have sel: "pt_tree (s\<lparr>pt_tree := t1\<rparr>) = t1" "pt_searchCache (s\<lparr>pt_tree := t1\<rparr>) = pt_searchCache s" "pt_tree ?s1 = t1"
    "pt_buffers ?s1 = pt_buffers s" by simp_all
  obtain stop t2 p2 where t2: "positionInBuffer (pt_buffers s) (n_piece t1 b) q = Some stop"
    "deleteNodeHead b stop ?s1 = Some (?s1\<lparr>pt_tree := t2\<rparr>)" "pieces_ok (?s1\<lparr>pt_tree := t2\<rparr>) ((xs @ a # ms) @ b # ys) ((us @ itake r c # ws) @ idrop q d # vs)"
    "n_piece t2 = (n_piece t1)(b := p2)" "rb_gone t2 = rb_gone t1"
    by (rule deleteNodeHead_ok [OF ok1 q, unfolded sel])
  let ?s2 = "?s1\<lparr>pt_tree := t2\<rparr>" and ?L = "itake r c" and ?R = "idrop q d"
  have lb: "n_length t2 b = ilen ?R" using piece_holds_length [OF pieces_ok_at(2) [OF t2(3) ok1(2)]] by (simp add: n_length_def)
  have la2: "n_length t2 a = ilen ?L" using la t2(4) nd by (simp add: n_length_def)
  have ok2: "pieces_ok ?s2 (xs @ a # (ms @ b # ys)) (us @ ?L # (ws @ ?R # vs))" using t2(3) by simp
  have nxt: "TreeNode_next t2 a = Some (hd (ms @ [b]))" using tree_next [OF ok2] by (cases ms) auto
  have unt: "nodes_until t2 (hd (ms @ [b])) b = Some ms"
  proof (rule nodes_until_ok [of _ "xs @ a # ms @ b # ys" _ "xs @ [a]" _ ys])
    show "rb_order t2 (xs @ a # ms @ b # ys)" using ok2 by (simp add: pieces_ok_def)
  qed (use nd in simp_all)
  let ?xs = "xs @ nonempty_nodes a ?L" and ?us = "us @ nonempty_texts ?L"
  let ?prev = "if ?xs = [] then SENTINEL else last ?xs"
  have prev: "(if n_length t2 a = 0 then TreeNode_prev t2 a else Some a) = Some ?prev"
    using tree_prev [OF ok2] la2 by (cases "?L = []") (simp_all del: ilen_itake)
  have d1: "(if n_length t1 a = 0 then [a] else []) = (if ?L = [] then [a] else [])" using la by (simp del: ilen_itake)
  have d2: "(if n_length t2 b = 0 then [b] else []) = (if ?R = [] then [b] else [])" using lb by (simp del: ilen_idrop)
  obtain t3 where t3: "deleteNodes (if ?L = [] then [a] else []) t2 = Some t3"
    "pieces_ok (?s2\<lparr>pt_tree := t3\<rparr>) (?xs @ ms @ b # ys) (?us @ ws @ ?R # vs)" "\<forall>n. rb_gone t2 n \<longrightarrow> rb_gone t3 n"
    using drop_empty_step [OF ok2 len(1)] by auto
  have ok3: "pieces_ok (?s2\<lparr>pt_tree := t3\<rparr>) ((?xs @ ms) @ b # ys) ((?us @ ws) @ ?R # vs)" "length (?us @ ws) = length (?xs @ ms)"
    using t3(2) len by simp_all
  obtain t4 where t4: "deleteNodes (if ?R = [] then [b] else []) t3 = Some t4"
    "pieces_ok (?s2\<lparr>pt_tree := t4\<rparr>) (?xs @ ms @ nonempty_nodes b ?R @ ys) (?us @ ws @ nonempty_texts ?R @ vs)" "\<forall>n. rb_gone t3 n \<longrightarrow> rb_gone t4 n"
    using drop_empty_step [OF ok3] by auto
  let ?ys = "nonempty_nodes b ?R @ ys" and ?vs = "nonempty_texts ?R @ vs"
  have len4: "length ?us = length ?xs" using len by simp
  obtain t5 where t5: "deleteNodes ms t4 = Some t5" "pieces_ok (?s2\<lparr>pt_tree := t5\<rparr>) (?xs @ ?ys) (?us @ ?vs)" "\<forall>n. rb_gone t4 n \<longrightarrow> rb_gone t5 n"
    using remove_list_step [OF t4(2) len4 len(2)] by auto
  have del: "deleteNodes (((if ?L = [] then [a] else []) @ (if ?R = [] then [b] else [])) @ ms) t2 = Some t5"
    unfolding deleteNodes_append using t3(1) t4(1) t5(1) by simp
  let ?s3 = "?s2\<lparr>pt_tree := t5\<rparr>"
  have j: "joined us" "joined vs" "\<not> splits_crlf (concat us) c" "\<not> splits_crlf d (concat vs)" "[] \<notin> set us" "[] \<notin> set vs"
    using cs joined_parts [of us "[c]" "ws @ d # vs"] joined_append_iff [of "us @ c # ws @ [d]" vs] joined_append_iff [of "us @ c # ws" "[d]"]
    by (auto simp: splits_crlf_append)
  have "joined ?us"
    using joined_append_iff [of us "[?L]"] splits_crlf_append(1) [of ?L "concat us" "idrop r c"] j by (cases "?L = []") auto
  moreover have "joined ?vs"
    using joined_append_iff [of "[?R]" vs] splits_crlf_append(2) [of ?R "itake q d" "concat vs"] j by (cases "?R = []") auto
  moreover have "[] \<notin> set (?us @ ?vs)" "room ?s3 3" using j rm by (simp_all add: room_def)
  ultimately obtain s' where s': "validateCRLFWithNextNode ?prev ?s3 = Some s'" "edited_text ?s3 s' (concat ?us @ concat ?vs) 3"
    using seam_next_text [OF t5(2) len4] by blast
  have "off \<le> ilen (concat (us @ c # ws))" using off by simp
  then have empty: "sc_cache ?C = []"
    using validate_drops [of s "xs @ a # ms" b ys "us @ c # ws" d vs "pt_searchCache s" off t1] inv ca len by simp
  then have "extends s ?s3 [] 0" using t1(5) t2(5) t3(3) t4(3) t5(3) by (simp add: extends_def same_settings_def SearchCache_validate_def)
  then have e: "edited_text s s' (concat ?us @ concat ?vs) 3" using s'(2) by (rule edited_text_before)
  have "sc_cache (pt_searchCache s') = []" using s'(2) empty by (auto simp: edited_text_def extends_def)
  then have "deleted s s' zs e (concat us @ ?L @ ?R @ concat vs)" using e by (simp add: deleted_def)
  moreover have "deleteAcrossNodes off sp ep s = Some s'"
  proof -
    have sel2: "pt_tree ?s2 = t2" by simp
    show ?thesis
      by (simp only: deleteAcrossNodes_def Let_def sp ep t1(1,2) t2(1,2) sel sel2 Option.bind.simps nxt unt prev d1 d2 del s'(1))
  qed
  ultimately show ?thesis by blast
qed

section \<open>Deleting a range\<close>

lemma finish_deleted:
  assumes d: "deleted s s' xs a text" and inv: "buffer_inv s (xs @ a # ys) (us @ c # vs)" and len: "length us = length xs" and c: "cached s a"
  shows "\<exists>s''. computeBufferMetadata s' = Some s'' \<and> edit_done s s'' text 3"
  using d unfolding deleted_def
proof (elim disjE conjE)
  assume "edited s s' xs a text 3"
  then show ?thesis using inv len c by (rule finish_edited)
next
  assume "edited_text s s' text 3" "\<forall>e\<in>set (sc_cache (pt_searchCache s')). rb_gone (pt_tree s') (ce_node e)"
  then show ?thesis using finish_text [OF _ inv] by blast
qed

text \<open>Two places in the same list, the second behind the first.\<close>

lemma places:
  assumes n: "xs @ a # ys = xs' @ b # ys'" and c: "us @ c # vs = us' @ d # vs'" and len: "length us = length xs" "length us' = length xs'"
    and o: "ilen (concat us) \<le> off" "off < off'" "off' \<le> ilen (concat us') + ilen d"
  shows "(xs = xs' \<and> a = b \<and> us = us' \<and> c = d \<and> ys = ys' \<and> vs = vs') \<or>
    (\<exists>ms ws. xs' = xs @ a # ms \<and> us' = us @ c # ws \<and> length ws = length ms)"
proof (cases "length xs' < length xs")
  case True
  then have "length us' < length us" using len by simp
  then obtain zs where "us = us' @ zs" "zs @ c # vs = d # vs'" "zs \<noteq> []" using c by (auto simp: append_eq_append_conv2)
  then obtain zs' where "us = us' @ d # zs'" by (cases zs) auto
  then have "ilen (concat us') + ilen d \<le> ilen (concat us)" by simp
  then show ?thesis using o by linarith
next
  case False
  show ?thesis
  proof (cases "length xs = length xs'")
    case True
    then show ?thesis using n c len by auto
  next
    case neq: False
    then have l: "length xs < length xs'" "length us < length us'" using False len by simp_all
    obtain ms where ms: "xs' = xs @ a # ms" using n l(1)
      by (auto simp: append_eq_append_conv2 Cons_eq_append_conv)
    obtain ws where ws: "us' = us @ c # ws" using c l(2)
      by (auto simp: append_eq_append_conv2 Cons_eq_append_conv)
    have "length ws = length ms" using ms ws len by simp
    then show ?thesis using ms ws by blast
  qed
qed

definition delete_state :: "piece_tree \<Rightarrow> piece_tree" where
  "delete_state s = s\<lparr>pt_lastVisitedLine := (0, [])\<rparr>"

lemma delete_state_inv:
  assumes "buffer_inv s ns cs"
  shows "buffer_inv (delete_state s) ns cs"
proof -
  have "buffers_state (delete_state s)" using assms by (auto simp: buffer_inv_def pieces_ok_def buffers_state_def delete_state_def shouldCheckCRLF_def)
  then have "pieces_ok (delete_state s) ns cs" using assms by (auto simp: buffer_inv_def pieces_ok_def delete_state_def)
  moreover have "entry_ok (delete_state s) ns = entry_ok s ns" by (rule ext) (simp add: entry_ok_def delete_state_def)
  ultimately show ?thesis using assms by (auto simp: buffer_inv_def cache_ok_def delete_state_def)
qed

lemma PieceTree_delete_ok:
  assumes inv0: "buffer_inv s ns cs" and off: "0 \<le> off" "0 \<le> cnt" "off + cnt \<le> ilen (concat cs)" and rm0: "room s 3"
  shows "\<exists>s'. PieceTree_delete off cnt s = Some s' \<and>
    edit_done (delete_state s) s' (itake off (concat cs) @ idrop (off + cnt) (concat cs)) 3"
proof (cases "cnt = 0")
  case True
  have "has_text (delete_state s) (concat cs)" using delete_state_inv [OF inv0] by (auto simp: has_text_def)
  then show ?thesis using True by (simp add: PieceTree_delete_def edit_done_def delete_state_def Let_def)
next
  case False
  let ?s = "delete_state s"
  have inv: "buffer_inv ?s ns cs" by (rule delete_state_inv [OF inv0])
  have rm: "room ?s 3" using rm0 by (simp add: room_def delete_state_def)
  have ok: "pieces_ok ?s ns cs" using inv by (simp add: buffer_inv_def)
  have "cs \<noteq> []" using off False by auto
  then have ne: "ns \<noteq> []" using pieces_ok_nodes(4) [OF ok] by auto
  have root: "rb_root (pt_tree ?s) \<noteq> SENTINEL" using ok ne rb_order_root [of "pt_tree ?s" ns] by (simp add: pieces_ok_def)
  have o1: "off \<le> ilen (concat cs)" "0 \<le> off + cnt" using off by simp_all
  obtain xs a ys us c vs C where a: "ns = xs @ a # ys" "cs = us @ c # vs" "length us = length xs"
    "0 \<le> off - ilen (concat us)" "off - ilen (concat us) \<le> ilen c"
    "nodeAt off ?s = Some (Some \<lparr>np_node = a, np_remainder = off - ilen (concat us), np_nodeStartOffset = ilen (concat us)\<rparr>, ?s\<lparr>pt_searchCache := C\<rparr>)"
    "buffer_inv (?s\<lparr>pt_searchCache := C\<rparr>) ns cs" "cached (?s\<lparr>pt_searchCache := C\<rparr>) a"
    by (rule nodeAt_ok [OF inv ne off(1) o1(1)])
  obtain xs' b ys' us' d vs' C' where b: "ns = xs' @ b # ys'" "cs = us' @ d # vs'" "length us' = length xs'"
    "0 \<le> off + cnt - ilen (concat us')" "off + cnt - ilen (concat us') \<le> ilen d"
    "nodeAt (off + cnt) (?s\<lparr>pt_searchCache := C\<rparr>) =
      Some (Some \<lparr>np_node = b, np_remainder = off + cnt - ilen (concat us'), np_nodeStartOffset = ilen (concat us')\<rparr>,
        ?s\<lparr>pt_searchCache := C, pt_searchCache := C'\<rparr>)"
    "buffer_inv (?s\<lparr>pt_searchCache := C, pt_searchCache := C'\<rparr>) ns cs" "cached (?s\<lparr>pt_searchCache := C, pt_searchCache := C'\<rparr>) b"
    by (rule nodeAt_ok [OF a(7) ne o1(2) off(3)])
  let ?s2 = "?s\<lparr>pt_searchCache := C'\<rparr>"
  let ?sp = "\<lparr>np_node = a, np_remainder = off - ilen (concat us), np_nodeStartOffset = ilen (concat us)\<rparr>"
  let ?ep = "\<lparr>np_node = b, np_remainder = off + cnt - ilen (concat us'), np_nodeStartOffset = ilen (concat us')\<rparr>"
  have inv2: "buffer_inv ?s2 ns cs" and ca: "cached ?s2 b" using b(7,8) by simp_all
  have rm2: "room ?s2 3" using rm by (simp add: room_def)
  have run: "PieceTree_delete off cnt s =
    (if a = b then deleteInNode off cnt ?sp ?ep ?s2 else deleteAcrossNodes off ?sp ?ep ?s2) \<bind> computeBufferMetadata"
    using root off(2) False a(6) b(6) by (simp add: PieceTree_delete_def delete_state_def [symmetric] Let_def)
  have fin: "edit_done ?s s' text k" if "edit_done ?s2 s' text k" for s' "text" k
    using that by (simp add: edit_done_def same_settings_def)
  have nodes: "xs @ a # ys = xs' @ b # ys'" and texts: "us @ c # vs = us' @ d # vs'" using a(1,2) b(1,2) by simp_all
  have "(xs = xs' \<and> a = b \<and> us = us' \<and> c = d \<and> ys = ys' \<and> vs = vs') \<or>
    (\<exists>ms ws. xs' = xs @ a # ms \<and> us' = us @ c # ws \<and> length ws = length ms)"
    by (rule places [OF nodes texts a(3) b(3), of off "off + cnt"]) (use a(4) b(5) off(2) False in simp_all)
  then show ?thesis
  proof (elim disjE conjE exE)
    assume e: "xs = xs'" "a = b" "us = us'" "c = d" "ys = ys'" "vs = vs'"
    let ?r = "off - ilen (concat us)"
    have inv3: "buffer_inv ?s2 (xs @ a # ys) (us @ c # vs)" using inv2 a(1,2) by simp
    have ep: "?ep = \<lparr>np_node = a, np_remainder = ?r + cnt, np_nodeStartOffset = ilen (concat us)\<rparr>" using e by simp
    have r: "0 < cnt" "?r + cnt \<le> ilen c" using off(2) False b(5) e by simp_all
    have ca': "cached ?s2 a" using ca e by simp
    obtain s' where s': "deleteInNode (ilen (concat us) + ?r) cnt ?sp ?ep ?s2 = Some s'"
      "deleted ?s2 s' xs a (concat us @ itake ?r c @ idrop (?r + cnt) c @ concat vs)"
      using deleteInNode_ok [OF inv3 a(3) ca' a(4) r rm2 refl ep] by blast
    have tx: "itake off (concat cs) @ idrop (off + cnt) (concat cs) = concat us @ itake ?r c @ idrop (?r + cnt) c @ concat vs"
      using take_texts(1) [OF a(3) a(4,5)] take_texts(2) [OF a(3), of "?r + cnt" c] a(2,4) r by (simp add: algebra_simps)
    from finish_deleted [OF s'(2) inv3 a(3) ca'] show ?thesis using run s'(1) e(2) fin tx by auto
  next
    fix ms ws assume e: "xs' = xs @ a # ms" "us' = us @ c # ws" "length ws = length ms"
    let ?r = "off - ilen (concat us)" and ?q = "off + cnt - ilen (concat us')"
    have inv3: "buffer_inv ?s2 (xs @ a # ms @ b # ys') (us @ c # ws @ d # vs')" using inv2 b(1,2) e by simp
    then have "pieces_ok ?s2 (xs @ a # ms @ b # ys') (us @ c # ws @ d # vs')" unfolding buffer_inv_def by blast
    from pieces_ok_nodes(1) [OF this] have ab: "a \<noteq> b" by auto
    have o: "off \<le> ilen (concat us) + ilen c" using a(5) by simp
    obtain s' where s': "deleteAcrossNodes off ?sp ?ep ?s2 = Some s'"
      "deleted ?s2 s' xs' b (concat us @ itake ?r c @ idrop ?q d @ concat vs')"
      using deleteAcrossNodes_ok [OF inv3 a(3) e(3) ca a(4,5) b(4,5) rm2 o, of ?sp ?ep] by auto
    have tx: "itake off (concat cs) @ idrop (off + cnt) (concat cs) = concat us @ itake ?r c @ idrop ?q d @ concat vs'"
      using take_texts(1) [OF a(3) a(4,5), of vs] take_texts(2) [OF b(3) b(4,5), of vs']
      by (simp only: a(2) [symmetric] b(2) [symmetric]) simp
    have inv4: "buffer_inv ?s2 (xs' @ b # ys') (us' @ d # vs')" using inv2 b(1,2) by simp
    from finish_deleted [OF s'(2) inv4 b(3) ca] show ?thesis using run s'(1) ab fin tx by auto
  qed
qed

section \<open>Edits in sequence\<close>

datatype buffer_edit = InsertText int js_string bool | DeleteText int int

fun run_edits :: "buffer_edit list \<Rightarrow> piece_tree \<Rightarrow> piece_tree option" where
  "run_edits [] s = Some s"
| "run_edits (InsertText offset val eolNormalized # es) s = do { s \<leftarrow> PieceTree_insert offset val eolNormalized s; run_edits es s }"
| "run_edits (DeleteText offset cnt # es) s = do { s \<leftarrow> PieceTree_delete offset cnt s; run_edits es s }"

text \<open>The same edits on a string.\<close>

fun text_edits :: "buffer_edit list \<Rightarrow> js_string \<Rightarrow> js_string" where
  "text_edits [] s = s"
| "text_edits (InsertText offset val _ # es) s = text_edits es (itake offset s @ val @ idrop offset s)"
| "text_edits (DeleteText offset cnt # es) s = text_edits es (itake offset s @ idrop (offset + cnt) s)"

text \<open>In range, no empty insertions, and no \<open>\r\<close> in a text that is said to have only \<open>\n\<close>.\<close>

fun edits_ok :: "js_string \<Rightarrow> buffer_edit list \<Rightarrow> js_string \<Rightarrow> bool" where
  "edits_ok eol [] s \<longleftrightarrow> True"
| "edits_ok eol (InsertText offset val en # es) s \<longleftrightarrow> val \<noteq> [] \<and> 0 \<le> offset \<and> offset \<le> ilen s \<and> (en \<and> eol = [LF] \<longrightarrow> no_cr val) \<and>
     edits_ok eol es (itake offset s @ val @ idrop offset s)"
| "edits_ok eol (DeleteText offset cnt # es) s \<longleftrightarrow> 0 \<le> offset \<and> 0 \<le> cnt \<and> offset + cnt \<le> ilen s \<and>
     edits_ok eol es (itake offset s @ idrop (offset + cnt) s)"

text \<open>What the change buffer may grow by: the new texts, and a moved line break or a gap for each edit.\<close>

fun edits_cost :: "buffer_edit list \<Rightarrow> int" where
  "edits_cost [] = 0"
| "edits_cost (InsertText _ val _ # es) = ilen val + 5 + edits_cost es"
| "edits_cost (DeleteText _ _ # es) = 3 + edits_cost es"

lemma edits_cost_nonneg: "0 \<le> edits_cost es"
  by (induction es rule: edits_cost.induct) simp_all

lemma edit_done_room: "edit_done s s' text k \<Longrightarrow> room s (k + l) \<Longrightarrow> room s' l"
  by (simp add: edit_done_def room_def)

lemma run_edits_ok:
  "has_text s s0 \<Longrightarrow> edits_ok (pt_EOL s) es s0 \<Longrightarrow> room s (edits_cost es) \<Longrightarrow>
    \<exists>s'. run_edits es s = Some s' \<and> has_text s' (text_edits es s0) \<and> pt_EOL s' = pt_EOL s \<and>
      kept (pt_buffers s) (pt_buffers s') \<and> (es \<noteq> [] \<longrightarrow> pt_lastVisitedLine s' = (0, []))"
proof (induction es arbitrary: s s0)
  case (Cons e es)
  obtain ns cs where inv: "buffer_inv s ns cs" "s0 = concat cs" using Cons.prems(1) by (auto simp: has_text_def)
  show ?case
  proof (cases e)
    case (InsertText off v en)
    have h: "v \<noteq> []" "0 \<le> off" "off \<le> ilen s0" "en \<and> pt_EOL s = [LF] \<longrightarrow> no_cr v" "edits_ok (pt_EOL s) es (itake off s0 @ v @ idrop off s0)"
      "room s (ilen v + 5 + edits_cost es)" using Cons.prems(2,3) InsertText by simp_all
    have rm: "room s (ilen v + 5)" using h(6) edits_cost_nonneg [of es] by (simp add: room_def)
    obtain s1 where s1: "PieceTree_insert off v en s = Some s1" "edit_done (insert_state en s) s1 (itake off s0 @ v @ idrop off s0) (ilen v + 5)"
      using PieceTree_insert_ok [OF inv(1) h(1,2) _ rm, of en] h(3,4) inv(2) by blast
    have "room (insert_state en s) (ilen v + 5 + edits_cost es)" using h(6) by (simp add: insert_state_def room_def)
    from edit_done_room [OF s1(2) this] have "room s1 (edits_cost es)" .
    moreover have s2: "has_text s1 (itake off s0 @ v @ idrop off s0)" "pt_EOL s1 = pt_EOL s" "kept (pt_buffers s) (pt_buffers s1)" "pt_lastVisitedLine s1 = (0, [])"
      using s1(2) by (simp_all add: edit_done_def same_settings_def insert_state_def)
    ultimately obtain s' where s': "run_edits es s1 = Some s'" "has_text s' (text_edits es (itake off s0 @ v @ idrop off s0))" "pt_EOL s' = pt_EOL s1"
      "kept (pt_buffers s1) (pt_buffers s')" "es \<noteq> [] \<longrightarrow> pt_lastVisitedLine s' = (0, [])" using Cons.IH [of s1] h(5) by auto
    then have "pt_lastVisitedLine s' = (0, [])" using s2(4) by (cases es) simp_all
    then show ?thesis using s' s2(2) kept_trans [OF s2(3) s'(4)] s1(1) InsertText by simp
  next
    case (DeleteText off cnt)
    have h: "0 \<le> off" "0 \<le> cnt" "off + cnt \<le> ilen s0" "edits_ok (pt_EOL s) es (itake off s0 @ idrop (off + cnt) s0)"
      "room s (3 + edits_cost es)" using Cons.prems(2,3) DeleteText by simp_all
    have rm: "room s 3" using h(5) edits_cost_nonneg [of es] by (simp add: room_def)
    obtain s1 where s1: "PieceTree_delete off cnt s = Some s1" "edit_done (delete_state s) s1 (itake off s0 @ idrop (off + cnt) s0) 3"
      using PieceTree_delete_ok [OF inv(1) h(1,2) _ rm] h(3) inv(2) by blast
    have "room (delete_state s) (3 + edits_cost es)" using h(5) by (simp add: delete_state_def room_def)
    from edit_done_room [OF s1(2) this] have "room s1 (edits_cost es)" .
    moreover have s2: "has_text s1 (itake off s0 @ idrop (off + cnt) s0)" "pt_EOL s1 = pt_EOL s" "kept (pt_buffers s) (pt_buffers s1)" "pt_lastVisitedLine s1 = (0, [])"
      using s1(2) by (simp_all add: edit_done_def same_settings_def delete_state_def)
    ultimately obtain s' where s': "run_edits es s1 = Some s'" "has_text s' (text_edits es (itake off s0 @ idrop (off + cnt) s0))" "pt_EOL s' = pt_EOL s1"
      "kept (pt_buffers s1) (pt_buffers s')" "es \<noteq> [] \<longrightarrow> pt_lastVisitedLine s' = (0, [])" using Cons.IH [of s1] h(4) by auto
    then have "pt_lastVisitedLine s' = (0, [])" using s2(4) by (cases es) simp_all
    then show ?thesis using s' s2(2) kept_trans [OF s2(3) s'(4)] s1(1) DeleteText by simp
  qed
qed simp

lemma has_text_counts: "has_text s text \<Longrightarrow> pt_length s = ilen text \<and> pt_lineCnt s = eols text + 1"
  by (auto simp: has_text_def buffer_inv_def)

section \<open>Properties\<close>

text \<open>A buffer with one chunk, for the examples.\<close>

definition crlf_chunk :: string_buffer where
  "crlf_chunk = StringBuffer_new [97, CR, LF, 98] [0, 3]"

lemma crlf_chunk_facts: "buffer_ok crlf_chunk" "sb_buffer crlf_chunk = [97, CR, LF, 98]"
  by (simp_all add: crlf_chunk_def buffer_ok_def StringBuffer_new_def line_starts_def ends_line_def max_string_length_def CR_def LF_def)

lemma crlf_tree:
  obtains s where "PieceTree_create [crlf_chunk] [CR, LF] False no_nodes = Some s" "has_text s [97, CR, LF, 98]"
    "pt_EOL s = [CR, LF]" "pt_EOLNormalized s = False" "k < max_string_length \<Longrightarrow> room s k"
proof -
  have "list_all buffer_ok [crlf_chunk]" "\<forall>b\<in>set [crlf_chunk]. sb_buffer b \<noteq> []" "joined (map sb_buffer [crlf_chunk])"
    "False \<and> [CR, LF] = [LF] \<longrightarrow> (\<forall>b\<in>set [crlf_chunk]. no_cr (sb_buffer b))" by (simp_all add: crlf_chunk_facts)
  from PieceTree_create_ok [OF this(1-3) rb_order_no_nodes this(4)] obtain s ns where s:
    "PieceTree_create [crlf_chunk] [CR, LF] False no_nodes = Some s" "buffer_inv s ns (map sb_buffer [crlf_chunk])"
    "pt_EOL s = [CR, LF]" "pt_EOLNormalized s = False" "pt_buffers s = StringBuffer_new [] [0] # [crlf_chunk]" by blast
  have "has_text s [97, CR, LF, 98]" unfolding has_text_def using s(2)
    by (intro exI [of _ ns] exI [of _ "[[97, CR, LF, 98]]"]) (simp add: crlf_chunk_facts)
  then show thesis using that s by (simp add: room_def text_at_def StringBuffer_new_def)
qed



text \<open>
  C3. \<open>insert\<close> at any offset of the text, with any new text that is not empty, succeeds, and the text
  of the buffer is then the old one with the new text at that offset, also when the offset lies
  between the \<open>\r\<close> and the \<open>\n\<close> of a line break, when the new text completes or splits a \<open>\r\n\<close> at its
  ends, and when it is appended to the change buffer. The length, the number of lines and the
  invariant of the tree and its search cache are right again.
\<close>

theorem piece_tree_insert_text:
  assumes "has_text s text" "v \<noteq> []" "0 \<le> offset" "offset \<le> ilen text" "room s (ilen v + 5)"
    and "pt_EOLNormalized s \<and> eolNormalized \<and> pt_EOL s = [LF] \<longrightarrow> no_cr v"
  shows "\<exists>s'. PieceTree_insert offset v eolNormalized s = Some s' \<and>
    has_text s' (itake offset text @ v @ idrop offset text) \<and> pt_length s' = ilen text + ilen v \<and>
    pt_lineCnt s' = eols (itake offset text @ v @ idrop offset text) + 1 \<and>
    pt_EOL s' = pt_EOL s \<and> pt_EOLNormalized s' = (pt_EOLNormalized s \<and> eolNormalized)"
proof -
  obtain ns cs where inv: "buffer_inv s ns cs" "text = concat cs" using assms(1) by (auto simp: has_text_def)
  then obtain s' where s': "PieceTree_insert offset v eolNormalized s = Some s'"
    "edit_done (insert_state eolNormalized s) s' (itake offset text @ v @ idrop offset text) (ilen v + 5)"
    using PieceTree_insert_ok [OF inv(1) assms(2,3) _ assms(5,6)] assms(4) by blast
  then have h: "has_text s' (itake offset text @ v @ idrop offset text)" and set: "same_settings (insert_state eolNormalized s) s'"
    by (simp_all add: edit_done_def)
  then show ?thesis using s'(1) has_text_counts [OF h] assms(3,4) by (simp add: same_settings_def insert_state_def)
qed

theorem piece_tree_insert_text_witness:
  "\<exists>s s'. PieceTree_create [crlf_chunk] [CR, LF] False no_nodes = Some s \<and> PieceTree_insert 2 [98, CR] False s = Some s' \<and>
    has_text s' [97, CR, 98, CR, LF, 98]"
proof -
  obtain s where s: "PieceTree_create [crlf_chunk] [CR, LF] False no_nodes = Some s" "has_text s [97, CR, LF, 98]"
    "pt_EOL s = [CR, LF]" "pt_EOLNormalized s = False" "room s 7" using crlf_tree [of 7] by (auto simp: max_string_length_def)
  then show ?thesis using piece_tree_insert_text [OF s(2), of "[98, CR]" 2 False] by auto
qed

text \<open>
  C4. \<open>delete\<close> of any range of the text succeeds, and the text of the buffer is then the old one without
  the range, also when the range crosses pieces, takes whole pieces away, or leaves a \<open>\r\<close> in front of a
  \<open>\n\<close>, which become one line break. The length, the number of lines and the invariant are right again.
\<close>

theorem piece_tree_delete_text:
  assumes "has_text s text" "0 \<le> offset" "0 \<le> cnt" "offset + cnt \<le> ilen text" "room s 3"
  shows "\<exists>s'. PieceTree_delete offset cnt s = Some s' \<and> has_text s' (itake offset text @ idrop (offset + cnt) text) \<and>
    pt_length s' = ilen text - cnt \<and> pt_lineCnt s' = eols (itake offset text @ idrop (offset + cnt) text) + 1 \<and>
    pt_EOL s' = pt_EOL s \<and> pt_EOLNormalized s' = pt_EOLNormalized s"
proof -
  obtain ns cs where inv: "buffer_inv s ns cs" "text = concat cs" using assms(1) by (auto simp: has_text_def)
  then obtain s' where s': "PieceTree_delete offset cnt s = Some s'"
    "edit_done (delete_state s) s' (itake offset text @ idrop (offset + cnt) text) 3"
    using PieceTree_delete_ok [OF inv(1) assms(2,3) _ assms(5)] assms(4) by blast
  then have h: "has_text s' (itake offset text @ idrop (offset + cnt) text)" and set: "same_settings (delete_state s) s'"
    by (simp_all add: edit_done_def)
  then show ?thesis using s'(1) has_text_counts [OF h] assms(2-4) by (simp add: same_settings_def delete_state_def)
qed

theorem piece_tree_delete_text_witness:
  "\<exists>s s'. PieceTree_create [crlf_chunk] [CR, LF] False no_nodes = Some s \<and> PieceTree_delete 2 2 s = Some s' \<and> has_text s' [97, CR]"
proof -
  obtain s where s: "PieceTree_create [crlf_chunk] [CR, LF] False no_nodes = Some s" "has_text s [97, CR, LF, 98]" "room s 3"
    using crlf_tree [of 3] by (auto simp: max_string_length_def)
  then show ?thesis using piece_tree_delete_text [OF s(2), of 2 2] by auto
qed

text \<open>
  C23. Any sequence of insertions and deletions in range runs to its end, and the text of the buffer is
  then the one the same edits make of a string.
\<close>

theorem piece_tree_edit_sequence:
  assumes "has_text s text" "edits_ok (pt_EOL s) es text" "room s (edits_cost es)"
  shows "\<exists>s'. run_edits es s = Some s' \<and> has_text s' (text_edits es text) \<and> pt_lineCnt s' = eols (text_edits es text) + 1"
  using run_edits_ok [OF assms] has_text_counts by blast

theorem piece_tree_edit_sequence_witness:
  "\<exists>s s'. PieceTree_create [crlf_chunk] [CR, LF] False no_nodes = Some s \<and>
    run_edits [InsertText 2 [98] False, DeleteText 2 1] s = Some s' \<and> pt_lineCnt s' = 2"
proof -
  obtain s where s: "PieceTree_create [crlf_chunk] [CR, LF] False no_nodes = Some s" "has_text s [97, CR, LF, 98]" "pt_EOL s = [CR, LF]"
    "room s 9" using crlf_tree [of 9] by (auto simp: max_string_length_def)
  have "eols [97, CR, LF, 98] = 1" by (simp add: ends_line_def CR_def LF_def)
  then show ?thesis using piece_tree_edit_sequence [OF s(2), of "[InsertText 2 [98] False, DeleteText 2 1]"] s by auto
qed

end
