(* ===== verification/PieceTreeReads.thy ===== *)
theory PieceTreeReads
  imports PieceTreeTexts Positions
begin

text \<open>
  Reading the text of a \<open>PieceTreeBase\<close>
  (\<open>vs/editor/common/model/pieceTreeTextBuffer/pieceTreeBase.ts\<close>): iteration over the nodes, raw
  content, comparison and snapshots, offsets and positions, ranges and characters.
\<close>

section \<open>Iteration\<close>

text \<open>
  The callback gets a node and threads a state, for the variables it assigns; it is called for the
  sentinel at every leaf as well.
\<close>

partial_function (option) iterate ::
  "rb_tree \<Rightarrow> (node_ref \<Rightarrow> 'a \<Rightarrow> (bool \<times> 'a) option) \<Rightarrow> node_ref \<Rightarrow> 'a \<Rightarrow> (bool \<times> 'a) option" where
  "iterate t callback node st =
     (if node = SENTINEL then callback SENTINEL st
      else do {
        (leftRet, st) \<leftarrow> iterate t callback (n_left t node) st;
        (if \<not> leftRet then Some (leftRet, st)
         else do {
           (ret, st) \<leftarrow> callback node st;
           (if ret then iterate t callback (n_right t node) st else Some (False, st))
         })
      })"

declare iterate.simps [code]

definition getNodeContent :: "piece_tree \<Rightarrow> node_ref \<Rightarrow> js_string option" where
  "getNodeContent s node = (if node = SENTINEL then Some [] else getPieceContent (pt_buffers s) (n_piece (pt_tree s) node))"

definition getContentOfSubTree :: "piece_tree \<Rightarrow> node_ref \<Rightarrow> js_string option" where
  "getContentOfSubTree s node = do {
     (_, str) \<leftarrow> iterate (pt_tree s) (\<lambda>node str. do { c \<leftarrow> getNodeContent s node; Some (True, str @ c) }) node [];
     Some str
   }"

definition getLinesRawContent :: "piece_tree \<Rightarrow> js_string option" where
  "getLinesRawContent s = getContentOfSubTree s (rb_root (pt_tree s))"

section \<open>Snapshots\<close>

record snapshot =
  sn_pieces :: "piece list"
  sn_index :: int
  sn_BOM :: js_string

definition Snapshot_new :: "piece_tree \<Rightarrow> js_string \<Rightarrow> snapshot option" where
  "Snapshot_new s BOM =
     (if rb_root (pt_tree s) \<noteq> SENTINEL then do {
        (_, pieces) \<leftarrow> iterate (pt_tree s)
          (\<lambda>node pieces. Some (True, if node \<noteq> SENTINEL then pieces @ [n_piece (pt_tree s) node] else pieces)) (rb_root (pt_tree s)) [];
        Some \<lparr>sn_pieces = pieces, sn_index = 0, sn_BOM = BOM\<rparr>
      } else Some \<lparr>sn_pieces = [], sn_index = 0, sn_BOM = BOM\<rparr>)"

definition createSnapshot :: "js_string \<Rightarrow> piece_tree \<Rightarrow> snapshot option" where
  "createSnapshot BOM s = Snapshot_new s BOM"

text \<open>\<open>read\<close> takes the buffers of the tree as they are now; \<open>null\<close> is \<open>None\<close> in the result.\<close>

definition Snapshot_read :: "string_buffer list \<Rightarrow> snapshot \<Rightarrow> (js_string option \<times> snapshot) option" where
  "Snapshot_read bufs n =
     (if ilen (sn_pieces n) = 0 then
        if sn_index n = 0 then Some (Some (sn_BOM n), n\<lparr>sn_index := sn_index n + 1\<rparr>) else Some (None, n)
      else if sn_index n > ilen (sn_pieces n) - 1 then Some (None, n)
      else do {
        p \<leftarrow> js_get (sn_pieces n) (sn_index n);
        content \<leftarrow> getPieceContent bufs p;
        Some (Some (if sn_index n = 0 then sn_BOM n @ content else content), n\<lparr>sn_index := sn_index n + 1\<rparr>)
      })"

section \<open>Offsets and positions\<close>

partial_function (option) getOffsetAt_loop :: "piece_tree \<Rightarrow> node_ref \<Rightarrow> int \<Rightarrow> int \<Rightarrow> int \<Rightarrow> int option" where
  "getOffsetAt_loop s x line col leftLen =
     (let t = pt_tree s in
      if x \<noteq> SENTINEL then
        if n_left t x \<noteq> SENTINEL \<and> n_lf_left t x + 1 \<ge> line then getOffsetAt_loop s (n_left t x) line col leftLen
        else if n_lf_left t x + n_lineFeedCnt t x + 1 \<ge> line then do {
          acc \<leftarrow> getAccumulatedValue (pt_buffers s) (n_piece t x) (line - n_lf_left t x - 2);
          Some (leftLen + n_size_left t x + (acc + col - 1))
        }
        else getOffsetAt_loop s (n_right t x) (line - (n_lf_left t x + n_lineFeedCnt t x)) col
               (leftLen + (n_size_left t x + n_length t x))
      else Some leftLen)"

declare getOffsetAt_loop.simps [code]

definition getOffsetAt :: "int \<Rightarrow> int \<Rightarrow> piece_tree \<Rightarrow> int option" where
  "getOffsetAt line col s = getOffsetAt_loop s (rb_root (pt_tree s)) line col 0"

partial_function (option) getPositionAt_loop :: "piece_tree \<Rightarrow> int \<Rightarrow> node_ref \<Rightarrow> int \<Rightarrow> int \<Rightarrow> position option" where
  "getPositionAt_loop s originalOffset x offset lfCnt =
     (let t = pt_tree s in
      if x \<noteq> SENTINEL then
        if n_size_left t x \<noteq> 0 \<and> n_size_left t x \<ge> offset then getPositionAt_loop s originalOffset (n_left t x) offset lfCnt
        else if n_size_left t x + n_length t x \<ge> offset then do {
          (index, remainder) \<leftarrow> getIndexOf (pt_buffers s) (n_piece t x) (offset - n_size_left t x);
          let lfCnt = lfCnt + (n_lf_left t x + index);
          (if index = 0 then do {
             lineStartOffset \<leftarrow> getOffsetAt (lfCnt + 1) 1 s;
             Some (Position (lfCnt + 1) (originalOffset - lineStartOffset + 1))
           } else Some (Position (lfCnt + 1) (remainder + 1)))
        }
        else do {
          let offset = offset - (n_size_left t x + n_length t x);
          let lfCnt = lfCnt + (n_lf_left t x + n_lineFeedCnt t x);
          (if n_right t x = SENTINEL then do {
             lineStartOffset \<leftarrow> getOffsetAt (lfCnt + 1) 1 s;
             Some (Position (lfCnt + 1) (originalOffset - offset - lineStartOffset + 1))
           } else getPositionAt_loop s originalOffset (n_right t x) offset lfCnt)
        }
      else Some (Position 1 1))"

declare getPositionAt_loop.simps [code]

text \<open>Offsets are integers here, so \<open>Math.floor\<close> has nothing to do.\<close>

definition getPositionAt :: "int \<Rightarrow> piece_tree \<Rightarrow> position option" where
  "getPositionAt offset s = (let offset = max 0 offset in getPositionAt_loop s offset (rb_root (pt_tree s)) offset 0)"

section \<open>Ranges\<close>

partial_function (option) getValueInRange2_loop :: "piece_tree \<Rightarrow> node_position \<Rightarrow> node_ref \<Rightarrow> js_string \<Rightarrow> js_string option" where
  "getValueInRange2_loop s endPosition x ret =
     (let p = n_piece (pt_tree s) x in
      if x \<noteq> SENTINEL then do {
        b \<leftarrow> js_get (pt_buffers s) (pc_bufferIndex p);
        startOffset \<leftarrow> offsetInBuffer (pt_buffers s) (pc_bufferIndex p) (pc_start p);
        (if x = np_node endPosition then
           Some (ret @ js_substring (sb_buffer b) startOffset (startOffset + np_remainder endPosition))
         else do {
           nxt \<leftarrow> TreeNode_next (pt_tree s) x;
           getValueInRange2_loop s endPosition nxt (ret @ js_substring (sb_buffer b) startOffset (startOffset + pc_length p))
         })
      } else Some ret)"

declare getValueInRange2_loop.simps [code]

definition getValueInRange2 :: "node_position \<Rightarrow> node_position \<Rightarrow> piece_tree \<Rightarrow> js_string option" where
  "getValueInRange2 startPosition endPosition s = do {
     let x = np_node startPosition;
     let p = n_piece (pt_tree s) x;
     b \<leftarrow> js_get (pt_buffers s) (pc_bufferIndex p);
     startOffset \<leftarrow> offsetInBuffer (pt_buffers s) (pc_bufferIndex p) (pc_start p);
     (if x = np_node endPosition then
        Some (js_substring (sb_buffer b) (startOffset + np_remainder startPosition) (startOffset + np_remainder endPosition))
      else do {
        let ret = js_substring (sb_buffer b) (startOffset + np_remainder startPosition) (startOffset + pc_length p);
        nxt \<leftarrow> TreeNode_next (pt_tree s) x;
        getValueInRange2_loop s endPosition nxt ret
      })
   }"

text \<open>\<open>equal\<close> changes the search cache of the other tree, which is the second part of the result.\<close>

definition equal_step :: "piece_tree \<Rightarrow> node_ref \<Rightarrow> int \<times> piece_tree \<Rightarrow> (bool \<times> int \<times> piece_tree) option" where
  "equal_step s node st =
     (let (offset, other) = st in
      if node = SENTINEL then Some (True, (offset, other))
      else do {
        str \<leftarrow> getNodeContent s node;
        (startPosition, other) \<leftarrow> nodeAt offset other;
        (endPosition, other) \<leftarrow> nodeAt (offset + ilen str) other;
        startPosition \<leftarrow> startPosition;
        endPosition \<leftarrow> endPosition;
        val \<leftarrow> getValueInRange2 startPosition endPosition other;
        Some (str = val, (offset + ilen str, other))
      })"

definition PieceTree_equal :: "piece_tree \<Rightarrow> piece_tree \<Rightarrow> (bool \<times> piece_tree) option" where
  "PieceTree_equal s other =
     (if pt_length s \<noteq> pt_length other then Some (False, other)
      else if pt_lineCnt s \<noteq> pt_lineCnt other then Some (False, other)
      else do {
        (ret, (_, other)) \<leftarrow> iterate (pt_tree s)
          (equal_step s) (rb_root (pt_tree s)) (0, other);
        Some (ret, other)
      })"

text \<open>
  \<open>next\<close> gives the sentinel behind the last node, which has no piece: reading from it throws, since
  the code tests for a missing node only.
\<close>

definition PieceTree_getCharCode_at :: "node_position \<Rightarrow> piece_tree \<Rightarrow> code_unit option option" where
  "PieceTree_getCharCode_at nodePos s =
     (if np_remainder nodePos = n_length (pt_tree s) (np_node nodePos) then do {
        matchingNode \<leftarrow> TreeNode_next (pt_tree s) (np_node nodePos);
        (if matchingNode = SENTINEL then None
         else do {
           let p = n_piece (pt_tree s) matchingNode;
           b \<leftarrow> js_get (pt_buffers s) (pc_bufferIndex p);
           startOffset \<leftarrow> offsetInBuffer (pt_buffers s) (pc_bufferIndex p) (pc_start p);
           Some (js_get (sb_buffer b) startOffset)
         })
      } else do {
        let p = n_piece (pt_tree s) (np_node nodePos);
        b \<leftarrow> js_get (pt_buffers s) (pc_bufferIndex p);
        startOffset \<leftarrow> offsetInBuffer (pt_buffers s) (pc_bufferIndex p) (pc_start p);
        Some (js_get (sb_buffer b) (startOffset + np_remainder nodePos))
      })"

definition getCharCode :: "int \<Rightarrow> piece_tree \<Rightarrow> (code_unit option \<times> piece_tree) option" where
  "getCharCode offset s = do {
     (nodePos, s) \<leftarrow> nodeAt offset s;
     nodePos \<leftarrow> nodePos;
     c \<leftarrow> PieceTree_getCharCode_at nodePos s;
     Some (c, s)
   }"

definition getNearestChunk :: "int \<Rightarrow> piece_tree \<Rightarrow> (js_string \<times> piece_tree) option" where
  "getNearestChunk offset s = do {
     (nodePos, s) \<leftarrow> nodeAt offset s;
     nodePos \<leftarrow> nodePos;
     (if np_remainder nodePos = n_length (pt_tree s) (np_node nodePos) then do {
        matchingNode \<leftarrow> TreeNode_next (pt_tree s) (np_node nodePos);
        (if matchingNode = SENTINEL then Some ([], s)
         else do {
           let p = n_piece (pt_tree s) matchingNode;
           b \<leftarrow> js_get (pt_buffers s) (pc_bufferIndex p);
           startOffset \<leftarrow> offsetInBuffer (pt_buffers s) (pc_bufferIndex p) (pc_start p);
           Some (js_substring (sb_buffer b) startOffset (startOffset + pc_length p), s)
         })
      } else do {
        let p = n_piece (pt_tree s) (np_node nodePos);
        b \<leftarrow> js_get (pt_buffers s) (pc_bufferIndex p);
        startOffset \<leftarrow> offsetInBuffer (pt_buffers s) (pc_bufferIndex p) (pc_start p);
        Some (js_substring (sb_buffer b) (startOffset + np_remainder nodePos) (startOffset + pc_length p), s)
      })
   }"

section \<open>Iterating is folding over the nodes\<close>

fun fold_until :: "(node_ref \<Rightarrow> 'a \<Rightarrow> (bool \<times> 'a) option) \<Rightarrow> node_ref list \<Rightarrow> 'a \<Rightarrow> (bool \<times> 'a) option" where
  "fold_until f [] st = Some (True, st)"
| "fold_until f (n # ns) st = do { (ret, st) \<leftarrow> f n st; (if ret then fold_until f ns st else Some (False, st)) }"

lemma fold_until_append:
  "fold_until f (xs @ ys) st = do { (ret, st) \<leftarrow> fold_until f xs st; (if ret then fold_until f ys st else Some (False, st)) }"
proof (induction xs arbitrary: st)
  case (Cons x xs)
  then show ?case by (cases "f x st") (auto split: prod.split)
qed simp

lemma iterate_shape:
  "shape (n_parent s) (n_left s) (n_right s) p x t \<Longrightarrow> (\<And>st. f SENTINEL st = Some (True, st)) \<Longrightarrow> iterate s f x st = fold_until f (nodes t) st"
proof (induction t arbitrary: p x st)
  case Lf
  then show ?case by (subst iterate.simps) simp
next
  case (Nd l a r)
  then have "x = a" "a \<noteq> SENTINEL" by auto
  moreover have "iterate s f (n_left s a) st = fold_until f (nodes l) st" "iterate s f (n_right s a) st' = fold_until f (nodes r) st'" for st st'
    using Nd by auto
  ultimately show ?case
    by (subst iterate.simps) (auto simp: fold_until_append split: prod.split Option.bind_split)
qed

lemma iterate_ok:
  assumes "rb_order t ns" "\<And>st. f SENTINEL st = Some (True, st)"
  shows "iterate t f (rb_root t) st = fold_until f ns st"
proof -
  obtain tr where tr: "nodes tr = ns" "shape (n_parent t) (n_left t) (n_right t) SENTINEL (rb_root t) tr"
    using rb_order_shape [OF assms(1)] by blast
  show ?thesis using iterate_shape [OF tr(2), of f st] assms(2) tr(1) by simp
qed

text \<open>The text of a node.\<close>

lemma piece_content: "piece_holds bufs p c \<Longrightarrow> getPieceContent bufs p = Some c"
  unfolding piece_holds_def using getPieceContent_ok by blast

lemma getNodeContent_ok:
  assumes "pieces_ok s (xs @ a # ys) (us @ c # vs)" "length us = length xs"
  shows "getNodeContent s a = Some c"
  using piece_content [OF pieces_ok_at(2) [OF assms]] pieces_ok_at(7) [OF assms] by (simp add: getNodeContent_def)

lemma node_contents:
  assumes "pieces_ok s ns cs"
  shows "list_all2 (\<lambda>n c. n \<noteq> SENTINEL \<and> getNodeContent s n = Some c \<and> n_length (pt_tree s) n = ilen c \<and>
    piece_holds (pt_buffers s) (n_piece (pt_tree s) n) c) ns cs"
proof -
  have "list_all2 (piece_holds (pt_buffers s)) (map (n_piece (pt_tree s)) ns) cs" using assms by (simp add: pieces_ok_def segs_ok_def)
  then show ?thesis using pieces_ok_nodes(2) [OF assms]
    by (auto simp: list_all2_conv_all_nth getNodeContent_def piece_content piece_holds_length n_length_def) (metis nth_mem)+
qed

lemma getLinesRawContent_ok:
  assumes "pieces_ok s ns cs"
  shows "getLinesRawContent s = Some (concat cs)"
proof -
  let ?f = "\<lambda>node str. do { c \<leftarrow> getNodeContent s node; Some (True, str @ c) }"
  have "fold_until ?f ns str = Some (True, str @ concat cs)" for str
    using node_contents [OF assms] by (induction arbitrary: str rule: list_all2_induct) simp_all
  moreover have "rb_order (pt_tree s) ns" using assms by (simp add: pieces_ok_def)
  ultimately show ?thesis using iterate_ok [of "pt_tree s" ns ?f "[]"]
    by (simp add: getLinesRawContent_def getContentOfSubTree_def getNodeContent_def)
qed

lemma Snapshot_new_ok:
  assumes "pieces_ok s ns cs"
  shows "Snapshot_new s BOM = Some \<lparr>sn_pieces = map (n_piece (pt_tree s)) ns, sn_index = 0, sn_BOM = BOM\<rparr>"
proof -
  let ?f = "\<lambda>node pieces. Some (True, if node \<noteq> SENTINEL then pieces @ [n_piece (pt_tree s) node] else pieces)"
  have "SENTINEL \<notin> set ns" by (rule pieces_ok_nodes(2) [OF assms])
  then have "fold_until ?f ns ps = Some (True, ps @ map (n_piece (pt_tree s)) ns)" for ps by (induction ns arbitrary: ps) auto
  moreover have "rb_order (pt_tree s) ns" using assms by (simp add: pieces_ok_def)
  ultimately show ?thesis using iterate_ok [of "pt_tree s" ns ?f "[]"] rb_order_root [of "pt_tree s" ns] by (simp add: Snapshot_new_def)
qed

text \<open>Reading a snapshot to its end, as its consumers do.\<close>

fun snapshot_reads :: "string_buffer list \<Rightarrow> nat \<Rightarrow> snapshot \<Rightarrow> (js_string list \<times> snapshot) option" where
  "snapshot_reads bufs 0 n = Some ([], n)"
| "snapshot_reads bufs (Suc k) n = do {
     (r, n) \<leftarrow> Snapshot_read bufs n;
     (case r of None \<Rightarrow> Some ([], n)
      | Some str \<Rightarrow> do { (rest, n) \<leftarrow> snapshot_reads bufs k n; Some (str # rest, n) })
   }"

lemma snapshot_reads_from:
  assumes "list_all2 (piece_holds bufs) ps cs" "0 < i" "i \<le> length ps" "k > length ps - i"
  shows "\<exists>n'. snapshot_reads bufs k \<lparr>sn_pieces = ps, sn_index = int i, sn_BOM = BOM\<rparr> = Some (drop i cs, n') \<and> Snapshot_read bufs n' = Some (None, n')"
  using assms(2-4)
proof (induction "length ps - i" arbitrary: i k)
  case 0
  then have "i = length ps" "drop i cs = []" using assms(1) by (auto dest: list_all2_lengthD)
  moreover obtain j where "k = Suc j" using 0 by (cases k) auto
  moreover have "ps \<noteq> []" using 0 by auto
  ultimately show ?case by (simp add: Snapshot_read_def)
next
  case (Suc m)
  then have i: "i < length ps" by simp
  obtain j where j: "k = Suc j" "j > length ps - Suc i" using Suc.prems(3) i by (cases k) auto
  have "getPieceContent bufs (ps ! i) = Some (cs ! i)" using assms(1) i piece_content by (auto simp: list_all2_conv_all_nth)
  then have r: "Snapshot_read bufs \<lparr>sn_pieces = ps, sn_index = int i, sn_BOM = BOM\<rparr> =
    Some (Some (cs ! i), \<lparr>sn_pieces = ps, sn_index = int (Suc i), sn_BOM = BOM\<rparr>)"
    using i Suc.prems(1) by (auto simp: Snapshot_read_def)
  have "i < length cs" using i assms(1) by (auto dest: list_all2_lengthD)
  then have d: "drop i cs = cs ! i # drop (Suc i) cs" by (rule Cons_nth_drop_Suc [symmetric])
  obtain n' where "snapshot_reads bufs j \<lparr>sn_pieces = ps, sn_index = int (Suc i), sn_BOM = BOM\<rparr> = Some (drop (Suc i) cs, n')"
    "Snapshot_read bufs n' = Some (None, n')"
  proof -
    have "m = length ps - Suc i" using Suc.hyps(2) by simp
    from Suc.hyps(1) [OF this _ _ j(2)] show thesis using that i by auto
  qed
  then show ?case unfolding j(1) snapshot_reads.simps r d by simp
qed

lemma snapshot_reads_ok:
  assumes "list_all2 (piece_holds bufs) ps cs" "length ps + 2 \<le> k"
  shows "\<exists>strs n'. snapshot_reads bufs k \<lparr>sn_pieces = ps, sn_index = 0, sn_BOM = BOM\<rparr> = Some (strs, n') \<and> concat strs = BOM @ concat cs \<and>
    Snapshot_read bufs n' = Some (None, n')"
proof (cases ps)
  case Nil
  obtain j where "k = Suc (Suc j)" using assms(2) by (metis add_2_eq_Suc' less_eqE add_Suc)
  then show ?thesis using Nil assms(1) by (simp add: Snapshot_read_def)
next
  case (Cons p ps')
  then obtain c cs' where c: "cs = c # cs'" "piece_holds bufs p c" using assms(1) by (auto simp: list_all2_Cons1)
  obtain j where j: "k = Suc j" "j > length ps - 1" using assms(2) by (cases k) auto
  have "Snapshot_read bufs \<lparr>sn_pieces = ps, sn_index = 0, sn_BOM = BOM\<rparr> = Some (Some (BOM @ c), \<lparr>sn_pieces = ps, sn_index = int 1, sn_BOM = BOM\<rparr>)"
    using Cons piece_content [OF c(2)] by (simp add: Snapshot_read_def)
  moreover obtain n' where "snapshot_reads bufs j \<lparr>sn_pieces = ps, sn_index = int 1, sn_BOM = BOM\<rparr> = Some (drop 1 cs, n')"
    "Snapshot_read bufs n' = Some (None, n')" using snapshot_reads_from [OF assms(1), of 1 j] Cons j(2) by auto
  ultimately show ?thesis using j(1) c(1) by simp
qed

section \<open>Texts along the tree\<close>

definition node_text :: "piece_tree \<Rightarrow> node_ref \<Rightarrow> js_string" where
  "node_text s n = (case getNodeContent s n of Some c \<Rightarrow> c | None \<Rightarrow> [])"

abbreviation nodes_text :: "piece_tree \<Rightarrow> node_ref list \<Rightarrow> js_string" where
  "nodes_text s ns \<equiv> concat (map (node_text s) ns)"

definition texts_ok :: "piece_tree \<Rightarrow> node_ref list \<Rightarrow> bool" where
  "texts_ok s ns \<longleftrightarrow> (\<forall>n\<in>set ns. piece_holds (pt_buffers s) (n_piece (pt_tree s) n) (node_text s n) \<and> node_text s n \<noteq> []) \<and>
     joined (map (node_text s) ns)"

lemma buffer_texts:
  assumes "buffer_inv s ns cs"
  shows "cs = map (node_text s) ns" "texts_ok s ns"
proof -
  have ok: "pieces_ok s ns cs" and cs: "[] \<notin> set cs" "joined cs" using assms by (auto simp: buffer_inv_def)
  show m: "cs = map (node_text s) ns" using node_contents [OF ok]
    by (induction rule: list_all2_induct) (simp_all add: node_text_def)
  have "list_all2 (\<lambda>n c. piece_holds (pt_buffers s) (n_piece (pt_tree s) n) c) ns cs"
    using node_contents [OF ok] by (rule list_all2_mono) simp
  then have "piece_holds (pt_buffers s) (n_piece (pt_tree s) n) (node_text s n)" if "n \<in> set ns" for n
    using that unfolding m by (auto simp: list_all2_conv_all_nth in_set_conv_nth)
  moreover have "node_text s n \<noteq> []" if "n \<in> set ns" for n using that cs(1) unfolding m by (metis imageI set_map)
  ultimately show "texts_ok s ns" using cs(2) unfolding m texts_ok_def by simp
qed

lemma texts_ok_append:
  "texts_ok s (xs @ ys) \<longleftrightarrow> texts_ok s xs \<and> texts_ok s ys \<and> \<not> splits_crlf (nodes_text s xs) (nodes_text s ys)"
proof (cases "\<forall>n\<in>set (xs @ ys). piece_holds (pt_buffers s) (n_piece (pt_tree s) n) (node_text s n) \<and> node_text s n \<noteq> []")
  case True
  then have "[] \<notin> set (map (node_text s) xs)" "[] \<notin> set (map (node_text s) ys)" by (auto simp: eq_commute)
  then show ?thesis using True joined_append_iff [of "map (node_text s) xs" "map (node_text s) ys"] by (simp add: texts_ok_def)
next
  case False
  then show ?thesis by (auto simp: texts_ok_def)
qed

lemma texts_ok_single: "texts_ok s [n] \<Longrightarrow> n_length (pt_tree s) n = ilen (node_text s n) \<and> n_lineFeedCnt (pt_tree s) n = eols (node_text s n)"
  using piece_holds_length [of "pt_buffers s" "n_piece (pt_tree s) n" "node_text s n"]
    piece_holds_eols [of "pt_buffers s" "n_piece (pt_tree s) n" "node_text s n"]
  by (auto simp: texts_ok_def n_length_def n_lineFeedCnt_def)

lemma texts_ok_sums:
  "texts_ok s ns \<Longrightarrow> sum_list (map (n_length (pt_tree s)) ns) = ilen (nodes_text s ns) \<and>
    sum_list (map (n_lineFeedCnt (pt_tree s)) ns) = eols (nodes_text s ns)"
proof (induction ns)
  case (Cons n ns)
  then have "texts_ok s [n]" "texts_ok s ns" "\<not> splits_crlf (node_text s n) (nodes_text s ns)" using texts_ok_append [of s "[n]" ns] by simp_all
  then show ?case using Cons.IH texts_ok_single [of s n] by (simp add: eols_append)
qed simp

lemma texts_ok_node:
  assumes "texts_ok s (xs @ n # ys)"
  shows "texts_ok s xs" "texts_ok s [n]" "texts_ok s ys" "node_text s n \<noteq> []"
    "\<not> splits_crlf (nodes_text s xs) (node_text s n)" "\<not> splits_crlf (node_text s n) (nodes_text s ys)"
    "\<not> splits_crlf (nodes_text s xs) (node_text s n @ nodes_text s ys)"
    "eols (nodes_text s (xs @ n # ys)) = eols (nodes_text s xs) + eols (node_text s n) + eols (nodes_text s ys)"
proof -
  show h: "texts_ok s xs" "texts_ok s [n]" "texts_ok s ys" "\<not> splits_crlf (node_text s n) (nodes_text s ys)"
    "\<not> splits_crlf (nodes_text s xs) (node_text s n @ nodes_text s ys)"
    using assms texts_ok_append [of s xs "n # ys"] texts_ok_append [of s "[n]" ys] by simp_all
  then show "node_text s n \<noteq> []" by (simp add: texts_ok_def)
  then show "\<not> splits_crlf (nodes_text s xs) (node_text s n)" using h(5) splits_crlf_append(1) by metis
  show "eols (nodes_text s (xs @ n # ys)) = eols (nodes_text s xs) + eols (node_text s n) + eols (nodes_text s ys)"
    using h(4,5) by (simp add: eols_append)
qed

lemma line_offset_append:
  assumes "\<not> splits_crlf x y"
  shows "line_offset (x @ y) k = (if k \<le> eols x then line_offset x k else ilen x + line_offset y (k - eols x))"
proof -
  have e: "eols (x @ y) = eols x + eols y" using assms by (simp add: eols_append)
  have l: "length (line_starts x) = Suc (nat (eols x))" using length_line_starts [of x] eols_nonneg [of x] by linarith
  have ls: "line_starts (x @ y) = line_starts x @ map (\<lambda>l. l + ilen x) (breaks 0 y)" by (rule line_starts_append [OF assms])
  consider "k \<le> 0" | "0 < k" "k \<le> eols x" | "eols x < k" "k \<le> eols x + eols y" "0 < k" | "eols x + eols y < k" "0 < k" by linarith
  then show ?thesis
  proof cases
    case 1
    then have "k \<le> eols x" using eols_nonneg [of x] by linarith
    then show ?thesis using 1 by (simp add: line_offset_def)
  next
    case 2
    then have "nat k < length (line_starts x)" using l by simp
    moreover have "k \<le> eols x + eols y" using 2 eols_nonneg [of y] by linarith
    ultimately show ?thesis using 2 e by (simp add: line_offset_def ls nth_append)
  next
    case 3
    then obtain j where j: "nat (k - eols x) = Suc j" "nat k = Suc (nat (eols x)) + j" using eols_nonneg [of x]
      by (cases "nat (k - eols x)") (auto simp: nat_eq_iff)
    have "j < length (breaks 0 y)" using j(1) 3 length_breaks [of 0 y] by linarith
    then show ?thesis using 3 e j l
      by (simp add: line_offset_def ls nth_append) (simp add: line_starts_def)
  next
    case 4
    moreover have "\<not> k \<le> eols x" using 4 eols_nonneg [of y] by linarith
    ultimately show ?thesis using e by (simp add: line_offset_def)
  qed
qed

lemma node_accumulated:
  assumes "texts_ok s [n]"
  shows "getAccumulatedValue (pt_buffers s) (n_piece (pt_tree s) n) k = Some (line_offset (node_text s n) (k + 1))"
proof -
  have h: "piece_holds (pt_buffers s) (n_piece (pt_tree s) n) (node_text s n)" "node_text s n \<noteq> []" using assms by (simp_all add: texts_ok_def)
  obtain i a e where r: "PieceBuffers.range_ok (pt_buffers s) i a e" "n_piece (pt_tree s) n = piece_of_range (pt_buffers s) i a e"
    "node_text s n = substr (text_at (pt_buffers s) i) a e" "a \<le> e" "ilen (node_text s n) = e - a" using h(1) by (rule piece_holdsE)
  then have "a < e" using h(2) by (cases "a = e") auto
  then show ?thesis using getAccumulatedValue_ok [OF r(1), of k] r(2,3) by simp
qed

lemma node_index:
  assumes "texts_ok s [n]" "0 \<le> r" "r \<le> ilen (node_text s n)"
  shows "\<exists>m. getIndexOf (pt_buffers s) (n_piece (pt_tree s) n) r = Some (line_of (node_text s n) r, m) \<and>
    (0 < line_of (node_text s n) r \<longrightarrow> m = r - line_offset (node_text s n) (line_of (node_text s n) r))"
proof -
  have h: "piece_holds (pt_buffers s) (n_piece (pt_tree s) n) (node_text s n)" "node_text s n \<noteq> []" using assms by (simp_all add: texts_ok_def)
  obtain i a e where r: "PieceBuffers.range_ok (pt_buffers s) i a e" "n_piece (pt_tree s) n = piece_of_range (pt_buffers s) i a e"
    "node_text s n = substr (text_at (pt_buffers s) i) a e" "a \<le> e" "ilen (node_text s n) = e - a" using h(1) by (rule piece_holdsE)
  then have "a < e" "r \<le> e - a" using h(2) assms(3) by (cases "a = e"; auto)+
  from getIndexOf_ok [OF r(1) this(1) assms(2) this(2)] show ?thesis
    using r(2,3) line_of_bounds [of "node_text s n" r] by (auto simp: line_offset_def)
qed

section \<open>Offsets of positions\<close>

lemma getOffsetAt_loop_shape:
  "shape (n_parent (pt_tree s)) (n_left (pt_tree s)) (n_right (pt_tree s)) p x t \<Longrightarrow> sums_ok (n_size_left (pt_tree s)) (n_length (pt_tree s)) t \<Longrightarrow>
    sums_ok (n_lf_left (pt_tree s)) (n_lineFeedCnt (pt_tree s)) t \<Longrightarrow> texts_ok s (nodes t) \<Longrightarrow>
    getOffsetAt_loop s x line col len = Some (if t \<noteq> Lf \<and> line \<le> eols (nodes_text s (nodes t)) + 1
      then len + line_offset (nodes_text s (nodes t)) (line - 1) + col - 1 else len + ilen (nodes_text s (nodes t)))"
proof (induction t arbitrary: p x line len)
  case Lf
  then show ?case by (subst getOffsetAt_loop.simps) simp
next
  case (Nd l a r)
  let ?t = "pt_tree s"
  let ?L = "nodes_text s (nodes l)" and ?c = "node_text s a" and ?R = "nodes_text s (nodes r)"
  have x: "x = a" "a \<noteq> SENTINEL" using Nd.prems by auto
  note tx = texts_ok_node [of s "nodes l" a "nodes r"]
  have ok: "texts_ok s (nodes l @ a # nodes r)" using Nd.prems(4) by simp
  have sums: "n_size_left ?t a = ilen ?L" "n_lf_left ?t a = eols ?L" "n_length ?t a = ilen ?c" "n_lineFeedCnt ?t a = eols ?c"
    using Nd.prems(2,3) texts_ok_sums [OF tx(1) [OF ok]] texts_ok_single [OF tx(2) [OF ok]] by (simp_all add: tree_sum_def)
  have lf0: "n_left ?t a = SENTINEL \<longleftrightarrow> l = Lf" using Nd.prems(1) by (cases l) auto
  have lo: "line_offset (?L @ ?c @ ?R) k = (if k \<le> eols ?L then line_offset ?L k
      else if k - eols ?L \<le> eols ?c then ilen ?L + line_offset ?c (k - eols ?L)
      else ilen ?L + ilen ?c + line_offset ?R (k - eols ?L - eols ?c))" for k
    using line_offset_append [of ?L "?c @ ?R" k] line_offset_append [of ?c ?R "k - eols ?L"] tx(6,7) [OF ok] by simp
  have e: "eols (?L @ ?c @ ?R) = eols ?L + eols ?c + eols ?R" using tx(8) [OF ok] by simp
  have nn: "0 \<le> eols ?L" "0 \<le> eols ?c" "0 \<le> eols ?R" by simp_all
  have IHl: "getOffsetAt_loop s (n_left ?t a) line col len = Some (if l \<noteq> Lf \<and> line \<le> eols ?L + 1
      then len + line_offset ?L (line - 1) + col - 1 else len + ilen ?L)"
    by (rule Nd.IH(1) [of a]) (use Nd.prems tx(1) [OF ok] in simp_all)
  have IHr: "getOffsetAt_loop s (n_right ?t a) line' col len' = Some (if r \<noteq> Lf \<and> line' \<le> eols ?R + 1
      then len' + line_offset ?R (line' - 1) + col - 1 else len' + ilen ?R)" for line' len'
    by (rule Nd.IH(2) [of a]) (use Nd.prems tx(3) [OF ok] in simp_all)
  consider (left) "l \<noteq> Lf" "line \<le> eols ?L + 1" | (here) "l = Lf \<or> line > eols ?L + 1" "line \<le> eols ?L + eols ?c + 1"
    | (right) "line > eols ?L + eols ?c + 1" by linarith
  then show ?case
  proof cases
    case left
    moreover have "line \<le> eols ?L + eols ?c + eols ?R + 1" using left nn by linarith
    ultimately show ?thesis unfolding x(1) using x IHl sums lf0 lo [of "line - 1"] e
      by (subst getOffsetAt_loop.simps) (simp add: Let_def)
  next
    case here
    have "line_offset (?L @ ?c @ ?R) (line - 1) = ilen ?L + line_offset ?c (line - 1 - eols ?L)"
      using here lo [of "line - 1"] by (cases "l = Lf") (auto simp: line_offset_def)
    moreover have "line \<le> eols ?L + eols ?c + eols ?R + 1" using here nn by linarith
    ultimately show ?thesis unfolding x(1)
      using here x sums lf0 e node_accumulated [OF tx(2) [OF ok], of "line - eols ?L - 2"]
      by (subst getOffsetAt_loop.simps) (auto simp: Let_def algebra_simps)
  next
    case right
    have far: "\<not> line \<le> eols ?L + 1" "\<not> line - 1 \<le> eols ?L" "\<not> line - 1 - eols ?L \<le> eols ?c" using right nn by linarith+
    have "getOffsetAt_loop s a line col len =
        getOffsetAt_loop s (n_right ?t a) (line - (eols ?L + eols ?c)) col (len + (ilen ?L + ilen ?c))"
      using x sums far right by (subst getOffsetAt_loop.simps) (simp add: Let_def)
    also have "\<dots> = Some (if r \<noteq> Lf \<and> line \<le> eols ?L + eols ?c + eols ?R + 1
        then len + (ilen ?L + ilen ?c) + line_offset ?R (line - 1 - eols ?L - eols ?c) + col - 1 else len + (ilen ?L + ilen ?c) + ilen ?R)"
      unfolding IHr by (simp add: algebra_simps)
    also have "\<dots> = Some (if line \<le> eols (?L @ ?c @ ?R) + 1
        then len + line_offset (?L @ ?c @ ?R) (line - 1) + col - 1 else len + ilen (?L @ ?c @ ?R))"
      using e lo [of "line - 1"] far right by (cases "r = Lf") simp_all
    finally show ?thesis unfolding x(1) by simp
  qed
qed

lemma nodes_text_empty: "texts_ok s (nodes t) \<Longrightarrow> nodes_text s (nodes t) = [] \<longleftrightarrow> t = Lf"
  by (cases t) (auto simp: texts_ok_def)

lemma getOffsetAt_ok:
  assumes "buffer_inv s ns cs"
  shows "getOffsetAt line col s =
    Some (if ns \<noteq> [] \<and> line \<le> eols (concat cs) + 1 then line_offset (concat cs) (line - 1) + col - 1 else ilen (concat cs))"
proof -
  have o: "rb_order (pt_tree s) ns" using assms by (auto simp: buffer_inv_def pieces_ok_def)
  obtain t where t: "nodes t = ns" "shape (n_parent (pt_tree s)) (n_left (pt_tree s)) (n_right (pt_tree s)) SENTINEL (rb_root (pt_tree s)) t"
    "sums_ok (n_size_left (pt_tree s)) (n_length (pt_tree s)) t" "sums_ok (n_lf_left (pt_tree s)) (n_lineFeedCnt (pt_tree s)) t"
    using rb_order_shape [OF o] by blast
  have "t = Lf \<longleftrightarrow> ns = []" using t(1) by (cases t) auto
  then show ?thesis using getOffsetAt_loop_shape [OF t(2-4)] buffer_texts [OF assms] t(1) by (simp add: getOffsetAt_def)
qed

section \<open>Positions of offsets\<close>

text \<open>The position of an offset of a text, and the last position for offsets past the end.\<close>

definition position_of :: "js_string \<Rightarrow> int \<Rightarrow> position" where
  "position_of T i = (let j = min i (ilen T) in Position (line_of T j + 1) (j - line_offset T (line_of T j) + 1))"

lemma getPositionAt_loop_shape:
  assumes lookup: "\<And>k. 0 \<le> k \<Longrightarrow> k \<le> eols Tot \<Longrightarrow> getOffsetAt (k + 1) 1 s = Some (line_offset Tot k)"
  shows "shape (n_parent (pt_tree s)) (n_left (pt_tree s)) (n_right (pt_tree s)) p x t \<Longrightarrow> sums_ok (n_size_left (pt_tree s)) (n_length (pt_tree s)) t \<Longrightarrow>
    sums_ok (n_lf_left (pt_tree s)) (n_lineFeedCnt (pt_tree s)) t \<Longrightarrow> texts_ok s (ps @ nodes t @ ss) \<Longrightarrow> Tot = nodes_text s (ps @ nodes t @ ss) \<Longrightarrow>
    t \<noteq> Lf \<Longrightarrow> 0 \<le> off \<Longrightarrow> off \<le> ilen (nodes_text s (nodes t)) \<or> ss = [] \<Longrightarrow>
    getPositionAt_loop s (ilen (nodes_text s ps) + off) x off (eols (nodes_text s ps)) = Some (position_of Tot (ilen (nodes_text s ps) + off))"
proof (induction t arbitrary: p x ps ss off)
  case (Nd l a r)
  let ?t = "pt_tree s"
  let ?P = "nodes_text s ps" and ?L = "nodes_text s (nodes l)" and ?c = "node_text s a" and ?R = "nodes_text s (nodes r)" and ?S = "nodes_text s ss"
  have x: "x = a" "a \<noteq> SENTINEL" using Nd.prems by auto
  have ok: "texts_ok s ((ps @ nodes l) @ a # (nodes r @ ss))" using Nd.prems(4) by simp
  note tx = texts_ok_node [OF ok]
  have okl: "texts_ok s (nodes l)" "\<not> splits_crlf ?P ?L" using tx(1) texts_ok_append by auto
  have okr: "texts_ok s (nodes r)" using tx(3) texts_ok_append by auto
  have sums: "n_size_left ?t a = ilen ?L" "n_lf_left ?t a = eols ?L" "n_length ?t a = ilen ?c" "n_lineFeedCnt ?t a = eols ?c"
    using Nd.prems(2,3) texts_ok_sums [OF okl(1)] texts_ok_single [OF tx(2)] by (simp_all add: tree_sum_def)
  have Tot: "Tot = (?P @ ?L) @ ?c @ ?R @ ?S" using Nd.prems(5) by simp
  have pl: "eols (?P @ ?L) = eols ?P + eols ?L" using okl(2) by (simp add: eols_append)
  consider (left) "?L \<noteq> []" "off \<le> ilen ?L" | (here) "?L = [] \<or> off > ilen ?L" "off \<le> ilen ?L + ilen ?c" | (right) "off > ilen ?L + ilen ?c" by linarith
  then show ?case
  proof cases
    case left
    then have "getPositionAt_loop s (ilen ?P + off) (n_left ?t a) off (eols ?P) = Some (position_of Tot (ilen ?P + off))"
      by (intro Nd.IH(1) [of a _ ps "a # nodes r @ ss"]) (use Nd.prems in auto)
    then show ?thesis using x sums left by (subst getPositionAt_loop.simps) (simp add: Let_def)
  next
    case here
    let ?r = "off - ilen ?L"
    have "?L = [] \<Longrightarrow> ilen ?L = 0" by (simp only: list.size of_nat_0)
    then have r: "0 \<le> ?r" "?r \<le> ilen ?c" using here Nd.prems(7) by linarith+
    obtain m where m: "getIndexOf (pt_buffers s) (n_piece ?t a) ?r = Some (line_of ?c ?r, m)"
      "0 < line_of ?c ?r \<longrightarrow> m = ?r - line_offset ?c (line_of ?c ?r)" using node_index [OF tx(2) r] by blast
    let ?k = "eols ?P + eols ?L + line_of ?c ?r"
    have sp: "\<not> splits_crlf (?P @ ?L) (?c @ ?R @ ?S)" "\<not> splits_crlf ?c (?R @ ?S)" using tx(6,7) by simp_all
    have k: "line_of Tot (ilen ?P + off) = ?k"
      using line_of_append2 [OF r(1), of "?P @ ?L" "?c @ ?R @ ?S"] line_of_append1 [of ?r ?c "?R @ ?S"] r(2) sp pl
      unfolding Tot by (simp add: algebra_simps)
    have kb: "0 \<le> ?k" "?k \<le> eols Tot" using line_of_bounds [of Tot "ilen ?P + off"] k by simp_all
    have min: "min (ilen ?P + off) (ilen Tot) = ilen ?P + off" using r(2) unfolding Tot by simp
    have step: "getPositionAt_loop s (ilen ?P + off) a off (eols ?P) =
      (if line_of ?c ?r = 0 then Some (Position (?k + 1) (ilen ?P + off - line_offset Tot ?k + 1)) else Some (Position (?k + 1) (m + 1)))"
      using x sums here r m(1) lookup [OF kb] by (subst getPositionAt_loop.simps) (auto simp: Let_def algebra_simps)
    have "m = ilen ?P + off - line_offset Tot ?k" if "line_of ?c ?r \<noteq> 0"
    proof -
      have pos: "0 < line_of ?c ?r" "line_of ?c ?r \<le> eols ?c" using that line_of_bounds [of ?c ?r] by auto
      have "line_offset Tot ?k = ilen (?P @ ?L) + line_offset (?c @ ?R @ ?S) (line_of ?c ?r)"
        using line_offset_append [OF sp(1), of ?k] pos pl unfolding Tot by simp
      also have "line_offset (?c @ ?R @ ?S) (line_of ?c ?r) = line_offset ?c (line_of ?c ?r)"
        using line_offset_append [OF sp(2), of "line_of ?c ?r"] pos by simp
      finally show ?thesis using m(2) pos(1) by simp
    qed
    then show ?thesis unfolding x(1) step position_of_def Let_def min k by auto
  next
    case right
    have far: "\<not> (ilen ?L \<noteq> 0 \<and> off \<le> ilen ?L)" "\<not> off \<le> ilen ?L + ilen ?c" using right by linarith+
    have q: "eols ?P + (eols ?L + eols ?c) = eols (nodes_text s (ps @ nodes l @ [a]))" 
    proof -
      have "nodes_text s (ps @ nodes l @ [a]) = (?P @ ?L) @ ?c" by simp
      moreover have "eols ((?P @ ?L) @ ?c) = eols (?P @ ?L) + eols ?c" using tx(5) eols_append [of "?P @ ?L" ?c] by simp
      ultimately show ?thesis using pl by (simp only:)
    qed
    have step: "getPositionAt_loop s (ilen ?P + off) a off (eols ?P) =
      (let off' = off - (ilen ?L + ilen ?c); k = eols (nodes_text s (ps @ nodes l @ [a])) in
       if n_right ?t a = SENTINEL then do { lo \<leftarrow> getOffsetAt (k + 1) 1 s; Some (Position (k + 1) (ilen ?P + off - off' - lo + 1)) }
       else getPositionAt_loop s (ilen ?P + off) (n_right ?t a) off' k)"
      unfolding q [symmetric] using x(2) sums far by (subst getPositionAt_loop.simps) (simp add: Let_def)
    show ?thesis
    proof (cases "r = Lf")
      case True
      then have "ss = []" using Nd.prems(8) far by auto
      then have T: "Tot = nodes_text s (ps @ nodes l @ [a])" using True Tot by simp
      have "n_right ?t a = SENTINEL" using True Nd.prems(1) by simp
      moreover have "getOffsetAt (eols Tot + 1) 1 s = Some (line_offset Tot (eols Tot))" by (rule lookup) simp_all
      moreover have "min (ilen ?P + off) (ilen Tot) = ilen Tot" "ilen ?P + off - (off - (ilen ?L + ilen ?c)) = ilen Tot" using far(2) T by simp_all
      ultimately show ?thesis unfolding x(1) step T [symmetric] by (simp add: position_of_def Let_def)
    next
      case False
      have "n_right ?t a \<noteq> SENTINEL" using False Nd.prems(1) by (cases r) auto
      moreover have "getPositionAt_loop s (ilen (nodes_text s (ps @ nodes l @ [a])) + (off - (ilen ?L + ilen ?c))) (n_right ?t a) (off - (ilen ?L + ilen ?c))
          (eols (nodes_text s (ps @ nodes l @ [a]))) = Some (position_of Tot (ilen (nodes_text s (ps @ nodes l @ [a])) + (off - (ilen ?L + ilen ?c))))"
        by (rule Nd.IH(2) [of a _ "ps @ nodes l @ [a]" ss]) (use Nd.prems False right in auto)
      moreover have "ilen (nodes_text s (ps @ nodes l @ [a])) + (off - (ilen ?L + ilen ?c)) = ilen ?P + off" by simp
      ultimately show ?thesis unfolding x(1) step by (simp add: Let_def)
    qed
  qed
qed simp

lemma getPositionAt_ok:
  assumes inv: "buffer_inv s ns cs"
  shows "getPositionAt off s = Some (position_of (concat cs) (max 0 off))"
proof -
  have o: "rb_order (pt_tree s) ns" using inv by (auto simp: buffer_inv_def pieces_ok_def)
  obtain t where t: "nodes t = ns" "shape (n_parent (pt_tree s)) (n_left (pt_tree s)) (n_right (pt_tree s)) SENTINEL (rb_root (pt_tree s)) t"
    "sums_ok (n_size_left (pt_tree s)) (n_length (pt_tree s)) t" "sums_ok (n_lf_left (pt_tree s)) (n_lineFeedCnt (pt_tree s)) t"
    using rb_order_shape [OF o] by blast
  have cs: "cs = map (node_text s) ns" "texts_ok s ns" by (rule buffer_texts [OF inv])+
  show ?thesis
  proof (cases "t = Lf")
    case True
    then show ?thesis using t(1,2) cs(1) by (subst getPositionAt_def, subst getPositionAt_loop.simps) (simp add: Let_def position_of_def line_offset_def)
  next
    case False
    then have "ns \<noteq> []" using t(1) by (cases t) auto
    then have lk: "getOffsetAt (k + 1) 1 s = Some (line_offset (concat cs) k)" if "k \<le> eols (concat cs)" for k
      using getOffsetAt_ok [OF inv, of "k + 1" 1] that by simp
    from getPositionAt_loop_shape [of "concat cs" s SENTINEL "rb_root (pt_tree s)" t "[]" "[]" "max 0 off"] lk t False cs
    show ?thesis by (simp add: getPositionAt_def Let_def)
  qed
qed

section \<open>Reading between two places\<close>

lemma piece_reads:
  assumes "piece_holds bufs p c"
  obtains b st where "js_get bufs (pc_bufferIndex p) = Some b" "offsetInBuffer bufs (pc_bufferIndex p) (pc_start p) = Some st"
    "\<And>r q. 0 \<le> r \<Longrightarrow> r \<le> q \<Longrightarrow> q \<le> ilen c \<Longrightarrow> js_substring (sb_buffer b) (st + r) (st + q) = substr c r q"
    "\<And>r. 0 \<le> r \<Longrightarrow> r < ilen c \<Longrightarrow> js_get (sb_buffer b) (st + r) = Some (c ! nat r)"
    "pc_length p = ilen c"
proof -
  obtain i a e where r: "PieceBuffers.range_ok bufs i a e" "p = piece_of_range bufs i a e" "c = substr (text_at bufs i) a e"
    "0 \<le> a" "a \<le> e" "e \<le> ilen (text_at bufs i)" "ilen c = e - a" using assms by (rule piece_holdsE)
  obtain b where b: "js_get bufs i = Some b" "sb_buffer b = text_at bufs i" using r(1) by (rule range_okE)
  have sub: "js_substring (sb_buffer b) (a + k) (a + q) = substr c k q" if "0 \<le> k" "k \<le> q" "q \<le> ilen c" for k q
    using that r(3-7) unfolding b(2) by (simp add: substr_def idrop_itake idrop_idrop itake_itake min_def add.commute)
  have get: "js_get (sb_buffer b) (a + k) = Some (c ! nat k)" if "0 \<le> k" "k < ilen c" for k
    using that r(3-7) substr_nth [of a k e "text_at bufs i"] unfolding b(2) by simp
  show thesis by (rule that [OF _ _ sub get]) (use r b offsetInBuffer_ok [OF r(1), of a] in simp_all)
qed

definition node_at :: "node_ref list \<Rightarrow> js_string list \<Rightarrow> int \<Rightarrow> node_position \<Rightarrow> bool" where
  "node_at ns cs off pos \<longleftrightarrow> (\<exists>xs a ys us c vs. ns = xs @ a # ys \<and> cs = us @ c # vs \<and> length us = length xs \<and>
     0 \<le> off - ilen (concat us) \<and> off - ilen (concat us) \<le> ilen c \<and>
     np_node pos = a \<and> np_remainder pos = off - ilen (concat us))"

lemma nodeAt_node_at:
  assumes "buffer_inv s ns cs" "ns \<noteq> []" "0 \<le> off" "off \<le> ilen (concat cs)"
  obtains pos C where "nodeAt off s = Some (Some pos, s\<lparr>pt_searchCache := C\<rparr>)" "node_at ns cs off pos" "buffer_inv (s\<lparr>pt_searchCache := C\<rparr>) ns cs"
proof -
  obtain xs a ys us c vs C where n: "ns = xs @ a # ys" "cs = us @ c # vs" "length us = length xs"
    "0 \<le> off - ilen (concat us)" "off - ilen (concat us) \<le> ilen c"
    "nodeAt off s = Some (Some \<lparr>np_node = a, np_remainder = off - ilen (concat us), np_nodeStartOffset = ilen (concat us)\<rparr>,
       s\<lparr>pt_searchCache := C\<rparr>)"
    "buffer_inv (s\<lparr>pt_searchCache := C\<rparr>) ns cs" "cached (s\<lparr>pt_searchCache := C\<rparr>) a"
    by (rule nodeAt_ok [OF assms])
  have "node_at ns cs off \<lparr>np_node = a, np_remainder = off - ilen (concat us), np_nodeStartOffset = ilen (concat us)\<rparr>"
    using n(1-5) unfolding node_at_def by (intro exI [of _ xs] exI [of _ a] exI [of _ ys] exI [of _ us] exI [of _ c] exI [of _ vs]) simp
  with n(6,7) show thesis using that by blast
qed

lemma getValueInRange2_loop_ok:
  assumes "pieces_ok s ns cs" "np_node pos = b" "0 \<le> np_remainder pos" "np_remainder pos \<le> ilen d"
  shows "ns = xs @ ms @ b # ys \<Longrightarrow> cs = us @ ws @ d # vs \<Longrightarrow> length us = length xs \<Longrightarrow> length ws = length ms \<Longrightarrow>
    getValueInRange2_loop s pos (hd (ms @ [b])) ret = Some (ret @ concat ws @ itake (np_remainder pos) d)"
proof (induction ms arbitrary: xs us ws ret)
  case Nil
  then have ok: "pieces_ok s (xs @ b # ys) (us @ d # vs)" using assms(1) by simp
  obtain bf st where g: "js_get (pt_buffers s) (pc_bufferIndex (n_piece (pt_tree s) b)) = Some bf"
    "offsetInBuffer (pt_buffers s) (pc_bufferIndex (n_piece (pt_tree s) b)) (pc_start (n_piece (pt_tree s) b)) = Some st"
    "\<And>r q. 0 \<le> r \<Longrightarrow> r \<le> q \<Longrightarrow> q \<le> ilen d \<Longrightarrow> js_substring (sb_buffer bf) (st + r) (st + q) = substr d r q"
    using piece_reads [OF pieces_ok_at(2) [OF ok Nil.prems(3)]] by metis
  have "js_substring (sb_buffer bf) st (st + np_remainder pos) = itake (np_remainder pos) d" using g(3) [of 0 "np_remainder pos"] assms(3,4) by simp
  then show ?case using pieces_ok_at(7) [OF ok Nil.prems(3)] g(1,2) assms(2) Nil.prems
    by (subst getValueInRange2_loop.simps) simp
next
  case (Cons m ms)
  obtain w ws' where w: "ws = w # ws'" "length ws' = length ms" using Cons.prems(4) by (cases ws) auto
  have ok: "pieces_ok s (xs @ m # (ms @ b # ys)) (us @ w # (ws' @ d # vs))" using assms(1) Cons.prems(1,2) w by simp
  obtain bf st where g: "js_get (pt_buffers s) (pc_bufferIndex (n_piece (pt_tree s) m)) = Some bf"
    "offsetInBuffer (pt_buffers s) (pc_bufferIndex (n_piece (pt_tree s) m)) (pc_start (n_piece (pt_tree s) m)) = Some st"
    "\<And>r q. 0 \<le> r \<Longrightarrow> r \<le> q \<Longrightarrow> q \<le> ilen w \<Longrightarrow> js_substring (sb_buffer bf) (st + r) (st + q) = substr w r q"
    "pc_length (n_piece (pt_tree s) m) = ilen w"
    using piece_reads [OF pieces_ok_at(2) [OF ok Cons.prems(3)]] by metis
  have whole: "js_substring (sb_buffer bf) st (st + ilen w) = w" using g(3) [of 0 "ilen w"] by simp
  have nx: "TreeNode_next (pt_tree s) m = Some (hd (ms @ [b]))" using tree_next [OF ok] by (cases ms) auto
  have "getValueInRange2_loop s pos (hd (ms @ [b])) (ret @ w) = Some ((ret @ w) @ concat ws' @ itake (np_remainder pos) d)"
    by (rule Cons.IH [of "xs @ [m]" "us @ [w]"]) (use Cons.prems w in simp_all)
  moreover have "m \<noteq> b" using pieces_ok_at(6) [OF ok Cons.prems(3)] by auto
  ultimately show ?case using pieces_ok_at(7) [OF ok Cons.prems(3)] g(1,2,4) whole nx assms(2) w
    by (subst getValueInRange2_loop.simps) simp
qed

lemma getValueInRange2_ok:
  assumes ok: "pieces_ok s ns cs" and p1: "node_at ns cs o1 pos1" and p2: "node_at ns cs o2 pos2" and o: "o1 < o2"
  shows "getValueInRange2 pos1 pos2 s = Some (substr (concat cs) o1 o2)"
proof -
  obtain xs a ys us c vs where a: "ns = xs @ a # ys" "cs = us @ c # vs" "length us = length xs"
    "0 \<le> o1 - ilen (concat us)" "o1 - ilen (concat us) \<le> ilen c" "np_node pos1 = a" "np_remainder pos1 = o1 - ilen (concat us)"
    using p1 unfolding node_at_def by auto
  obtain xs' b ys' us' d vs' where b: "ns = xs' @ b # ys'" "cs = us' @ d # vs'" "length us' = length xs'"
    "0 \<le> o2 - ilen (concat us')" "o2 - ilen (concat us') \<le> ilen d" "np_node pos2 = b" "np_remainder pos2 = o2 - ilen (concat us')"
    using p2 unfolding node_at_def by auto
  let ?r = "o1 - ilen (concat us)" and ?q = "o2 - ilen (concat us')"
  have oka: "pieces_ok s (xs @ a # ys) (us @ c # vs)" using ok a(1,2) by simp
  obtain bf st where g: "js_get (pt_buffers s) (pc_bufferIndex (n_piece (pt_tree s) a)) = Some bf"
    "offsetInBuffer (pt_buffers s) (pc_bufferIndex (n_piece (pt_tree s) a)) (pc_start (n_piece (pt_tree s) a)) = Some st"
    "\<And>r q. 0 \<le> r \<Longrightarrow> r \<le> q \<Longrightarrow> q \<le> ilen c \<Longrightarrow> js_substring (sb_buffer bf) (st + r) (st + q) = substr c r q"
    "pc_length (n_piece (pt_tree s) a) = ilen c"
    using piece_reads [OF pieces_ok_at(2) [OF oka a(3)]] by metis
  have tail: "idrop o1 (concat cs) = idrop ?r c @ concat vs" using take_texts(2) [OF a(3-5), of vs] a(2) by simp
  have nodes: "xs @ a # ys = xs' @ b # ys'" and texts: "us @ c # vs = us' @ d # vs'" using a(1,2) b(1,2) by simp_all
  have "(xs = xs' \<and> a = b \<and> us = us' \<and> c = d \<and> ys = ys' \<and> vs = vs') \<or>
    (\<exists>ms ws. xs' = xs @ a # ms \<and> us' = us @ c # ws \<and> length ws = length ms)"
    by (rule places [OF nodes texts a(3) b(3), of o1 o2]) (use a(4) b(5) o in simp_all)
  then show ?thesis
  proof (elim disjE conjE exE)
    assume e: "a = b" "us = us'" "c = d"
    have q: "?r \<le> ?q" "?q \<le> ilen c" using e o b(5) by simp_all
    have "itake (o2 - o1) (idrop o1 (concat cs)) = itake (?q - ?r) (idrop ?r c)" unfolding tail using q e(2) a(4)
      by (simp add: itake_append)
    then show ?thesis using g(1,2) g(3) [OF a(4) q] a(6,7) b(6,7) e by (simp add: getValueInRange2_def substr_def Let_def)
  next
    fix ms ws assume e: "xs' = xs @ a # ms" "us' = us @ c # ws" "length ws = length ms"
    have n: "ns = (xs @ [a]) @ ms @ b # ys'" and cs: "cs = (us @ [c]) @ ws @ d # vs'" using b(1,2) e by simp_all
    have "TreeNode_next (pt_tree s) a = Some (hd (ms @ [b]))" using tree_next [OF oka] nodes e(1) by (cases ms) auto
    moreover have "getValueInRange2_loop s pos2 (hd (ms @ [b])) (substr c ?r (ilen c)) =
        Some (substr c ?r (ilen c) @ concat ws @ itake (np_remainder pos2) d)"
      by (rule getValueInRange2_loop_ok [OF ok b(6) _ _ n cs]) (use a(3) b(4,5,7) e(3) in simp_all)
    moreover have "a \<noteq> b" using pieces_ok_at(6) [OF oka a(3)] nodes e(1) by auto
    moreover have "js_substring (sb_buffer bf) (st + ?r) (st + ilen c) = substr c ?r (ilen c)" using g(3) [of ?r "ilen c"] a(4,5) by simp
    moreover have "substr (concat cs) o1 o2 = idrop ?r c @ concat ws @ itake ?q d"
    proof -
      have "concat vs = concat ws @ d @ concat vs'" using texts e(2) by simp
      then have "substr (concat cs) o1 o2 = itake (o2 - o1) (idrop ?r c @ concat ws @ d @ concat vs')" by (simp add: substr_def tail)
      moreover have "o2 - o1 - ilen (idrop ?r c) = ilen (concat ws) + ?q" using e(2) a(4,5) by simp
      moreover have "o2 - o1 = ilen (idrop ?r c) + (ilen (concat ws) + ?q)" using e(2) a(4,5) by simp
      ultimately show ?thesis using b(4,5) by (simp add: itake_append del: ilen_idrop)
    qed
    ultimately show ?thesis using g(1,2,4) a(6,7) b(6,7) by (simp add: getValueInRange2_def Let_def)
  qed
qed

section \<open>Comparing two trees\<close>

lemma equal_step_ok:
  assumes node: "n \<noteq> SENTINEL" "getNodeContent s n = Some c" "c \<noteq> []" and inv: "buffer_inv other ms ds"
    and o: "0 \<le> off" "off + ilen c \<le> ilen (concat ds)"
  obtains C where "equal_step s n (off, other) = Some (c = substr (concat ds) off (off + ilen c), off + ilen c, other\<lparr>pt_searchCache := C\<rparr>)"
    "buffer_inv (other\<lparr>pt_searchCache := C\<rparr>) ms ds"
proof -
  have lt: "off < off + ilen c" using node(3) by simp
  then have "0 < ilen (concat ds)" using o by linarith
  then have "ds \<noteq> []" by auto
  moreover have "length ds = length ms" using inv pieces_ok_nodes(4) by (auto simp: buffer_inv_def)
  ultimately have ne: "ms \<noteq> []" by auto
  have o1: "off \<le> ilen (concat ds)" "0 \<le> off + ilen c" using o by simp_all
  obtain p1 C1 where p1: "nodeAt off other = Some (Some p1, other\<lparr>pt_searchCache := C1\<rparr>)" "node_at ms ds off p1"
    "buffer_inv (other\<lparr>pt_searchCache := C1\<rparr>) ms ds" by (rule nodeAt_node_at [OF inv ne o(1) o1(1)])
  obtain p2 C2 where p2: "nodeAt (off + ilen c) (other\<lparr>pt_searchCache := C1\<rparr>) = Some (Some p2, other\<lparr>pt_searchCache := C1, pt_searchCache := C2\<rparr>)"
    "node_at ms ds (off + ilen c) p2" "buffer_inv (other\<lparr>pt_searchCache := C1, pt_searchCache := C2\<rparr>) ms ds"
    by (rule nodeAt_node_at [OF p1(3) ne o1(2) o(2)])
  have inv2: "buffer_inv (other\<lparr>pt_searchCache := C2\<rparr>) ms ds" using p2(3) by simp
  then have "getValueInRange2 p1 p2 (other\<lparr>pt_searchCache := C2\<rparr>) = Some (substr (concat ds) off (off + ilen c))"
    using getValueInRange2_ok [OF _ p1(2) p2(2) lt] by (simp add: buffer_inv_def)
  then show thesis using that inv2 p1(1) p2(1) node(1,2) by (simp add: equal_step_def)
qed

lemma equal_steps_ok:
  assumes "list_all2 (\<lambda>n c. n \<noteq> SENTINEL \<and> getNodeContent s n = Some c \<and> c \<noteq> []) ns cs"
    "buffer_inv other ms ds" "0 \<le> off" "off + ilen (concat cs) = ilen (concat ds)"
  shows "\<exists>C k. fold_until (equal_step s) ns (off, other) = Some (concat cs = idrop off (concat ds), k, other\<lparr>pt_searchCache := C\<rparr>) \<and>
    buffer_inv (other\<lparr>pt_searchCache := C\<rparr>) ms ds"
  using assms
proof (induction arbitrary: other off rule: list_all2_induct)
  case Nil
  then show ?case by (intro exI [of _ "pt_searchCache other"] exI [of _ off]) simp
next
  case (Cons n ns c cs)
  then have node: "n \<noteq> SENTINEL" "getNodeContent s n = Some c" "c \<noteq> []" and le: "off + ilen c \<le> ilen (concat ds)" by auto
  obtain C where C: "equal_step s n (off, other) = Some (c = substr (concat ds) off (off + ilen c), off + ilen c, other\<lparr>pt_searchCache := C\<rparr>)"
    "buffer_inv (other\<lparr>pt_searchCache := C\<rparr>) ms ds"
    by (rule equal_step_ok [OF node Cons.prems(1,2) le])
  have val: "substr (concat ds) off (off + ilen c) = itake (ilen c) (idrop off (concat ds))" by (simp add: substr_def)
  have dr: "idrop off (concat ds) = itake (ilen c) (idrop off (concat ds)) @ idrop (off + ilen c) (concat ds)"
    using Cons.prems(2) by (simp add: idrop_idrop [symmetric] add.commute [of off])
  show ?case
  proof (cases "c = substr (concat ds) off (off + ilen c)")
    case True
    have "0 \<le> off + ilen c" "off + ilen c + ilen (concat cs) = ilen (concat ds)" using Cons.prems(2,3) by simp_all
    then obtain C' k where C': "fold_until (equal_step s) ns (off + ilen c, other\<lparr>pt_searchCache := C\<rparr>) =
        Some (concat cs = idrop (off + ilen c) (concat ds), k, other\<lparr>pt_searchCache := C, pt_searchCache := C'\<rparr>)"
      "buffer_inv (other\<lparr>pt_searchCache := C, pt_searchCache := C'\<rparr>) ms ds" using Cons.IH [OF C(2)] by blast
    have "concat (c # cs) = idrop off (concat ds) \<longleftrightarrow> concat cs = idrop (off + ilen c) (concat ds)"
      using True val dr by (metis concat.simps(2) same_append_eq)
    then show ?thesis using C(1) C' True by (intro exI [of _ C'] exI [of _ k]) simp
  next
    case False
    have "ilen (itake (ilen c) (idrop off (concat ds))) = ilen c" using le Cons.prems(2) ilen_substr [of off "off + ilen c" "concat ds"] val by (simp del: ilen_itake)
    then have "length (itake (ilen c) (idrop off (concat ds))) = length c" by linarith
    then have "concat (c # cs) \<noteq> idrop off (concat ds)" using False val dr by (metis append_eq_append_conv concat.simps(2))
    then show ?thesis using C False by (intro exI [of _ C] exI [of _ "off + ilen c"]) simp
  qed
qed

lemma PieceTree_equal_ok:
  assumes s: "has_text s x" and other: "has_text other y"
  shows "\<exists>C. PieceTree_equal s other = Some (x = y, other\<lparr>pt_searchCache := C\<rparr>) \<and> has_text (other\<lparr>pt_searchCache := C\<rparr>) y"
proof -
  obtain ns cs where inv: "buffer_inv s ns cs" and x: "x = concat cs" using s by (auto simp: has_text_def)
  obtain ms ds where inv': "buffer_inv other ms ds" and y: "y = concat ds" using other by (auto simp: has_text_def)
  have counts: "pt_length s = ilen x" "pt_lineCnt s = eols x + 1" "pt_length other = ilen y" "pt_lineCnt other = eols y + 1"
    using has_text_counts [OF s] has_text_counts [OF other] by simp_all
  show ?thesis
  proof (cases "ilen x = ilen y \<and> eols x = eols y")
    case False
    then show ?thesis using counts other by (intro exI [of _ "pt_searchCache other"]) (auto simp: PieceTree_equal_def)
  next
    case True
    have ok: "pieces_ok s ns cs" and ne: "[] \<notin> set cs" using inv by (auto simp: buffer_inv_def)
    have "list_all2 (\<lambda>n c. n \<noteq> SENTINEL \<and> getNodeContent s n = Some c \<and> c \<noteq> []) ns cs"
      using node_contents [OF ok] ne by (auto simp: list_all2_conv_all_nth) (metis nth_mem)
    then obtain C k where C: "fold_until (equal_step s) ns (0, other) = Some (x = y, k, other\<lparr>pt_searchCache := C\<rparr>)"
      "buffer_inv (other\<lparr>pt_searchCache := C\<rparr>) ms ds" using equal_steps_ok [OF _ inv', of s ns cs 0] True x y by auto
    have "iterate (pt_tree s) (equal_step s) (rb_root (pt_tree s)) (0, other) = fold_until (equal_step s) ns (0, other)"
      by (rule iterate_ok) (use ok in \<open>auto simp: pieces_ok_def equal_step_def\<close>)
    then have "PieceTree_equal s other = Some (x = y, other\<lparr>pt_searchCache := C\<rparr>)" using True counts C(1) by (simp add: PieceTree_equal_def)
    then show ?thesis using C(2) y by (auto simp: has_text_def)
  qed
qed

section \<open>Characters and chunks\<close>

text \<open>A place at the end of a node and the node behind it.\<close>

lemma node_at_cases:
  assumes ok: "pieces_ok s ns cs" and ne: "[] \<notin> set cs" and at: "node_at ns cs off pos"
  obtains (inside) c vs where "np_remainder pos \<noteq> n_length (pt_tree s) (np_node pos)" "0 \<le> np_remainder pos" "np_remainder pos < ilen c"
      "piece_holds (pt_buffers s) (n_piece (pt_tree s) (np_node pos)) c" "idrop off (concat cs) = idrop (np_remainder pos) c @ concat vs"
    | (between) b c vs where "np_remainder pos = n_length (pt_tree s) (np_node pos)" "TreeNode_next (pt_tree s) (np_node pos) = Some b" "b \<noteq> SENTINEL"
      "piece_holds (pt_buffers s) (n_piece (pt_tree s) b) c" "c \<noteq> []" "idrop off (concat cs) = c @ concat vs"
    | (final) "np_remainder pos = n_length (pt_tree s) (np_node pos)" "TreeNode_next (pt_tree s) (np_node pos) = Some SENTINEL" "idrop off (concat cs) = []"
proof -
  obtain xs a ys us c vs where a: "ns = xs @ a # ys" "cs = us @ c # vs" "length us = length xs"
    "0 \<le> off - ilen (concat us)" "off - ilen (concat us) \<le> ilen c" "np_node pos = a" "np_remainder pos = off - ilen (concat us)"
    using at unfolding node_at_def by auto
  have oka: "pieces_ok s (xs @ a # ys) (us @ c # vs)" using ok a(1,2) by simp
  have c: "piece_holds (pt_buffers s) (n_piece (pt_tree s) a) c" by (rule pieces_ok_at(2) [OF oka a(3)])
  then have l: "n_length (pt_tree s) a = ilen c" by (simp add: n_length_def piece_holds_length)
  have tail: "idrop off (concat cs) = idrop (np_remainder pos) c @ concat vs" using take_texts(2) [OF a(3-5), of vs] a(2,7) by simp
  show thesis
  proof (cases "np_remainder pos = ilen c")
    case False
    then show ?thesis using inside [of c vs] a c l tail by simp
  next
    case True
    note nx = tree_next [OF oka]
    show ?thesis
    proof (cases ys)
      case Nil
      then have "vs = []" using pieces_ok_at(4) [OF oka a(3)] by simp
      then show ?thesis using final Nil nx True a(6) l tail by simp
    next
      case (Cons b ys')
      then obtain d vs' where d: "vs = d # vs'" using pieces_ok_at(4) [OF oka a(3)] by (cases vs) auto
      have okb: "pieces_ok s ((xs @ [a]) @ b # ys') ((us @ [c]) @ d # vs')" "length (us @ [c]) = length (xs @ [a])" using oka Cons d a(3) by simp_all
      have "d \<noteq> []" using ne a(2) d by auto
      then show ?thesis using between [of b d vs'] nx Cons True a(6) l tail d pieces_ok_at(2,7) [OF okb] by simp
    qed
  qed
qed

lemma getCharCode_at_ok:
  assumes "pieces_ok s ns cs" "[] \<notin> set cs" "node_at ns cs off pos"
  shows "PieceTree_getCharCode_at pos s = (case idrop off (concat cs) of [] \<Rightarrow> None | c # _ \<Rightarrow> Some (Some c))"
  using assms
proof (cases rule: node_at_cases)
  case (inside c vs)
  obtain b st where g: "js_get (pt_buffers s) (pc_bufferIndex (n_piece (pt_tree s) (np_node pos))) = Some b"
    "offsetInBuffer (pt_buffers s) (pc_bufferIndex (n_piece (pt_tree s) (np_node pos))) (pc_start (n_piece (pt_tree s) (np_node pos))) = Some st"
    "js_get (sb_buffer b) (st + np_remainder pos) = Some (c ! nat (np_remainder pos))"
    using piece_reads [OF inside(4)] inside(2,3) by metis
  have "idrop (np_remainder pos) c = c ! nat (np_remainder pos) # idrop (np_remainder pos + 1) c"
    using inside(2,3) Cons_nth_drop_Suc [of "nat (np_remainder pos)" c] by (simp add: idrop_def nat_add_distrib)
  then show ?thesis using inside(1,5) g by (simp add: PieceTree_getCharCode_at_def)
next
  case (between b c vs)
  obtain bf st where g: "js_get (pt_buffers s) (pc_bufferIndex (n_piece (pt_tree s) b)) = Some bf"
    "offsetInBuffer (pt_buffers s) (pc_bufferIndex (n_piece (pt_tree s) b)) (pc_start (n_piece (pt_tree s) b)) = Some st"
    "\<And>r. 0 \<le> r \<Longrightarrow> r < ilen c \<Longrightarrow> js_get (sb_buffer bf) (st + r) = Some (c ! nat r)"
    using piece_reads [OF between(4)] by metis
  obtain h c' where "c = h # c'" using between(5) by (cases c) auto
  then show ?thesis using between(1-3,6) g(1,2) g(3) [of 0] by (simp add: PieceTree_getCharCode_at_def)
next
  case final
  then show ?thesis by (simp add: PieceTree_getCharCode_at_def)
qed

lemma getCharCode_ok:
  assumes inv: "buffer_inv s ns cs" and o: "0 \<le> off" "off < ilen (concat cs)"
  shows "\<exists>C. getCharCode off s = Some (Some (concat cs ! nat off), s\<lparr>pt_searchCache := C\<rparr>) \<and> buffer_inv (s\<lparr>pt_searchCache := C\<rparr>) ns cs"
proof -
  have "cs \<noteq> []" using o by auto
  moreover have "length cs = length ns" using inv pieces_ok_nodes(4) by (auto simp: buffer_inv_def)
  ultimately have ne: "ns \<noteq> []" by auto
  have le: "off \<le> ilen (concat cs)" using o by simp
  obtain pos C where p: "nodeAt off s = Some (Some pos, s\<lparr>pt_searchCache := C\<rparr>)" "node_at ns cs off pos" "buffer_inv (s\<lparr>pt_searchCache := C\<rparr>) ns cs"
    by (rule nodeAt_node_at [OF inv ne o(1) le])
  have "idrop off (concat cs) = concat cs ! nat off # drop (Suc (nat off)) (concat cs)"
    unfolding idrop_def by (rule Cons_nth_drop_Suc [symmetric]) (use o in linarith)
  moreover have "pieces_ok (s\<lparr>pt_searchCache := C\<rparr>) ns cs" "[] \<notin> set cs" using p(3) by (auto simp: buffer_inv_def)
  ultimately show ?thesis using getCharCode_at_ok [OF _ _ p(2)] p(1,3) by (intro exI [of _ C]) (simp add: getCharCode_def)
qed

lemma getCharCode_end:
  assumes inv: "buffer_inv s ns cs" and ne: "concat cs \<noteq> []"
  shows "getCharCode (ilen (concat cs)) s = None"
proof -
  have "cs \<noteq> []" using ne by auto
  moreover have "length cs = length ns" using inv pieces_ok_nodes(4) by (auto simp: buffer_inv_def)
  ultimately have ne: "ns \<noteq> []" by auto
  obtain pos C where p: "nodeAt (ilen (concat cs)) s = Some (Some pos, s\<lparr>pt_searchCache := C\<rparr>)" "node_at ns cs (ilen (concat cs)) pos"
    "buffer_inv (s\<lparr>pt_searchCache := C\<rparr>) ns cs" by (rule nodeAt_node_at [OF inv ne of_nat_0_le_iff order_refl])
  moreover have "pieces_ok (s\<lparr>pt_searchCache := C\<rparr>) ns cs" "[] \<notin> set cs" using p(3) by (auto simp: buffer_inv_def)
  ultimately show ?thesis using getCharCode_at_ok [OF _ _ p(2)] by (simp add: getCharCode_def)
qed

lemma getNearestChunk_ok:
  assumes inv: "buffer_inv s ns cs" and ne: "ns \<noteq> []" and o: "0 \<le> off" "off \<le> ilen (concat cs)"
  shows "\<exists>chunk C rest. getNearestChunk off s = Some (chunk, s\<lparr>pt_searchCache := C\<rparr>) \<and> buffer_inv (s\<lparr>pt_searchCache := C\<rparr>) ns cs \<and>
    idrop off (concat cs) = chunk @ rest \<and> (chunk = [] \<longleftrightarrow> off = ilen (concat cs))"
proof -
  obtain pos C where p: "nodeAt off s = Some (Some pos, s\<lparr>pt_searchCache := C\<rparr>)" "node_at ns cs off pos" "buffer_inv (s\<lparr>pt_searchCache := C\<rparr>) ns cs"
    by (rule nodeAt_node_at [OF inv ne o])
  let ?s = "s\<lparr>pt_searchCache := C\<rparr>"
  have ok: "pieces_ok ?s ns cs" "[] \<notin> set cs" using p(3) by (auto simp: buffer_inv_def)
  have last_iff: "idrop off (concat cs) = [] \<longleftrightarrow> off = ilen (concat cs)" using o by (auto simp: idrop_def)
  from ok p(2) show ?thesis
  proof (cases rule: node_at_cases)
    case (inside c vs)
    obtain b st where g: "js_get (pt_buffers s) (pc_bufferIndex (n_piece (pt_tree s) (np_node pos))) = Some b"
      "offsetInBuffer (pt_buffers s) (pc_bufferIndex (n_piece (pt_tree s) (np_node pos))) (pc_start (n_piece (pt_tree s) (np_node pos))) = Some st"
      "\<And>r q. 0 \<le> r \<Longrightarrow> r \<le> q \<Longrightarrow> q \<le> ilen c \<Longrightarrow> js_substring (sb_buffer b) (st + r) (st + q) = substr c r q"
      "pc_length (n_piece (pt_tree s) (np_node pos)) = ilen c" using piece_reads [OF inside(4)] by (simp, metis)
    have "getNearestChunk off s = Some (idrop (np_remainder pos) c, ?s)" using p(1) inside(1,2,3) g(1,2,4) g(3) [of "np_remainder pos" "ilen c"]
      by (simp add: getNearestChunk_def)
    moreover have "idrop (np_remainder pos) c \<noteq> []" using inside(2,3) by (auto simp: idrop_def)
    ultimately show ?thesis using p(3) inside(5) last_iff by (intro exI [of _ "idrop (np_remainder pos) c"] exI [of _ C] exI [of _ "concat vs"]) auto
  next
    case (between b c vs)
    obtain bf st where g: "js_get (pt_buffers s) (pc_bufferIndex (n_piece (pt_tree s) b)) = Some bf"
      "offsetInBuffer (pt_buffers s) (pc_bufferIndex (n_piece (pt_tree s) b)) (pc_start (n_piece (pt_tree s) b)) = Some st"
      "\<And>r q. 0 \<le> r \<Longrightarrow> r \<le> q \<Longrightarrow> q \<le> ilen c \<Longrightarrow> js_substring (sb_buffer bf) (st + r) (st + q) = substr c r q"
      "pc_length (n_piece (pt_tree s) b) = ilen c" using piece_reads [OF between(4)] by (simp, metis)
    have "getNearestChunk off s = Some (c, ?s)" using p(1) between(1-3) g(1,2,4) g(3) [of 0 "ilen c"] by (simp add: getNearestChunk_def)
    then show ?thesis using p(3) between(5,6) last_iff by (intro exI [of _ c] exI [of _ C] exI [of _ "concat vs"]) auto
  next
    case final
    then show ?thesis using p(1,3) last_iff by (intro exI [of _ "[]"] exI [of _ C] exI [of _ "[]"]) (simp add: getNearestChunk_def)
  qed
qed

section \<open>Snapshots and later edits\<close>

text \<open>
  What is in the buffers stays there, so the pieces of a snapshot keep their text, unless the change
  buffer ended with \<open>\r\<close> and a \<open>\n\<close> is appended to it.
\<close>

lemma snapshot_kept:
  assumes inv: "buffer_inv s ns cs" and inv': "buffer_inv s' ms ds" and k: "kept (pt_buffers s) (pt_buffers s')"
    and cr: "text_at (pt_buffers s) 0 = [] \<or> last (text_at (pt_buffers s) 0) \<noteq> CR"
  shows "list_all2 (piece_holds (pt_buffers s')) (map (n_piece (pt_tree s)) ns) cs"
proof -
  have "pt_buffers s \<noteq> []" "buffers_ok (pt_buffers s')" using inv inv' by (auto simp: buffer_inv_def pieces_ok_def buffers_state_def)
  then have "grows (pt_buffers s) (pt_buffers s')" using kept_grows [OF k] cr by blast
  moreover have "list_all2 (piece_holds (pt_buffers s)) (map (n_piece (pt_tree s)) ns) cs" using inv by (auto simp: buffer_inv_def pieces_ok_def segs_ok_def)
  ultimately show ?thesis by (rule grows_pieces)
qed

section \<open>Properties\<close>

lemma crlf_tree_buffer:
  obtains s where "PieceTree_create [crlf_chunk] [CR, LF] False no_nodes = Some s" "has_text s [97, CR, LF, 98]" "room s 10"
    "text_at (pt_buffers s) 0 = []"
proof -
  obtain s where s: "PieceTree_create [crlf_chunk] [CR, LF] False no_nodes = Some s" "has_text s [97, CR, LF, 98]" "room s (max_string_length - 1)"
    using crlf_tree [of "max_string_length - 1"] by auto
  then have "text_at (pt_buffers s) 0 = []" by (simp add: room_def)
  then show thesis using that s by (simp add: room_def max_string_length_def)
qed

text \<open>
  C20. The position of an offset of the text is a line of the buffer and a column from 1, the line starts at
  or before the offset and the next line after it, and the offset of that position is the offset again.
\<close>

theorem piece_tree_positions:
  assumes "has_text s txt" "0 \<le> offset" "offset \<le> ilen txt"
  shows "\<exists>line col. getPositionAt offset s = Some (Position line col) \<and> getOffsetAt line col s = Some offset \<and>
    1 \<le> line \<and> line \<le> pt_lineCnt s \<and> 1 \<le> col \<and> offset = line_offset txt (line - 1) + (col - 1) \<and>
    (line < pt_lineCnt s \<longrightarrow> offset < line_offset txt line)"
proof -
  obtain ns cs where inv: "buffer_inv s ns cs" and x: "txt = concat cs" using assms(1) by (auto simp: has_text_def)
  let ?k = "line_of txt offset"
  have k: "0 \<le> ?k" "?k \<le> eols txt" by (rule line_of_bounds)+
  have pos: "getPositionAt offset s = Some (Position (?k + 1) (offset - line_offset txt ?k + 1))"
    using getPositionAt_ok [OF inv, of offset] assms(2,3) x by (simp add: position_of_def Let_def)
  have e: "ilen txt = 0" if "ns = []" using that inv x pieces_ok_nodes(4) by (fastforce simp: buffer_inv_def)
  have "ilen (concat cs) = offset" if "ns = []" using e [OF that] assms(2,3) unfolding x by linarith
  then have "getOffsetAt (?k + 1) (offset - line_offset txt ?k + 1) s = Some offset"
    using getOffsetAt_ok [OF inv, of "?k + 1" "offset - line_offset txt ?k + 1"] k x by (cases "ns = []") simp_all
  moreover have "line_offset txt ?k \<le> offset" using line_start_le [OF assms(2), of "txt"] k assms(2) by (simp add: line_offset_def)
  moreover have "offset < line_offset txt (?k + 1)" if "?k < eols txt"
    using line_start_less [OF assms(2) that] that k by (simp add: line_offset_def)
  ultimately show ?thesis using pos k has_text_counts [OF assms(1)] by auto
qed

theorem piece_tree_positions_witness:
  "\<exists>s line col. PieceTree_create [crlf_chunk] [CR, LF] False no_nodes = Some s \<and> getPositionAt 3 s = Some (Position line col) \<and>
    getOffsetAt line col s = Some 3"
proof -
  obtain s where s: "PieceTree_create [crlf_chunk] [CR, LF] False no_nodes = Some s" "has_text s [97, CR, LF, 98]" using crlf_tree [of 0] by blast
  have "(0 :: int) \<le> 3" "3 \<le> ilen [97, CR, LF, 98]" by simp_all
  from piece_tree_positions [OF s(2) this] s(1) show ?thesis by blast
qed

text \<open>
  C21. A snapshot of the buffer can be read to its end: after the chunks \<open>read\<close> returns \<open>null\<close>, and stays
  there, and the chunks in order are the byte order mark and the text at the time of the snapshot, also when
  text has been inserted and deleted in between, provided the change buffer did not end with \<open>\r\<close> when the
  snapshot was taken.
\<close>

theorem piece_tree_snapshot_reads:
  assumes "has_text s txt" "edits_ok (pt_EOL s) es txt" "room s (edits_cost es)"
    and "text_at (pt_buffers s) 0 = [] \<or> last (text_at (pt_buffers s) 0) \<noteq> CR"
  shows "\<exists>n s' k strs n'. createSnapshot BOM s = Some n \<and> run_edits es s = Some s' \<and> has_text s' (text_edits es txt) \<and>
    snapshot_reads (pt_buffers s') k n = Some (strs, n') \<and> Snapshot_read (pt_buffers s') n' = Some (None, n') \<and> concat strs = BOM @ txt"
proof -
  obtain ns cs where inv: "buffer_inv s ns cs" and x: "txt = concat cs" using assms(1) by (auto simp: has_text_def)
  have ok: "pieces_ok s ns cs" using inv by (simp add: buffer_inv_def)
  obtain s' where s': "run_edits es s = Some s'" "has_text s' (text_edits es txt)" "kept (pt_buffers s) (pt_buffers s')"
    using run_edits_ok [OF assms(1-3)] by blast
  obtain ms ds where inv': "buffer_inv s' ms ds" using s'(2) by (auto simp: has_text_def)
  let ?ps = "map (n_piece (pt_tree s)) ns"
  obtain strs n' where r: "snapshot_reads (pt_buffers s') (length ?ps + 2) \<lparr>sn_pieces = ?ps, sn_index = 0, sn_BOM = BOM\<rparr> = Some (strs, n')"
    "concat strs = BOM @ concat cs" "Snapshot_read (pt_buffers s') n' = Some (None, n')"
    using snapshot_reads_ok [OF snapshot_kept [OF inv inv' s'(3) assms(4)] order_refl] by blast
  have "createSnapshot BOM s = Some \<lparr>sn_pieces = ?ps, sn_index = 0, sn_BOM = BOM\<rparr>" using Snapshot_new_ok [OF ok] by (simp add: createSnapshot_def)
  with r s'(1,2) x show ?thesis by blast
qed

theorem piece_tree_snapshot_reads_witness:
  "\<exists>s n s' k strs n'. PieceTree_create [crlf_chunk] [CR, LF] False no_nodes = Some s \<and> createSnapshot [] s = Some n \<and>
    run_edits [InsertText 2 [98, CR] False, DeleteText 0 1] s = Some s' \<and>
    snapshot_reads (pt_buffers s') k n = Some (strs, n') \<and> concat strs = [97, CR, LF, 98]"
proof -
  obtain s where s: "PieceTree_create [crlf_chunk] [CR, LF] False no_nodes = Some s" "has_text s [97, CR, LF, 98]" "room s 10"
    "text_at (pt_buffers s) 0 = []" using crlf_tree_buffer by blast
  have e: "edits_ok (pt_EOL s) [InsertText 2 [98, CR] False, DeleteText 0 1] [97, CR, LF, 98]"
    "room s (edits_cost [InsertText 2 [98, CR] False, DeleteText 0 1])" using s(3) by simp_all
  have "text_at (pt_buffers s) 0 = [] \<or> last (text_at (pt_buffers s) 0) \<noteq> CR" using s(4) by simp
  from piece_tree_snapshot_reads [OF s(2) e this, of "[]", unfolded append_Nil] s(1) show ?thesis by blast
qed

text \<open>
  C22. Two buffers are equal for \<open>equal\<close> exactly when their texts are, however they are cut into pieces, and
  the comparison leaves the text of the other buffer as it is.
\<close>

theorem piece_tree_equal_texts:
  assumes "has_text s txt" "has_text other txt'"
  shows "\<exists>other'. PieceTree_equal s other = Some (txt = txt', other') \<and> has_text other' txt'"
  using PieceTree_equal_ok [OF assms] by blast

theorem piece_tree_equal_texts_witness:
  "\<exists>s other'. PieceTree_create [crlf_chunk] [CR, LF] False no_nodes = Some s \<and> PieceTree_equal s s = Some (True, other')"
proof -
  obtain s where s: "PieceTree_create [crlf_chunk] [CR, LF] False no_nodes = Some s" "has_text s [97, CR, LF, 98]" using crlf_tree [of 0] by blast
  from piece_tree_equal_texts [OF s(2) s(2)] s(1) show ?thesis by auto
qed

section \<open>What goes wrong\<close>

text \<open>
  A snapshot of \<open>a\r\<close> taken while the change buffer ends there: the next insertion of \<open>\n\<close> takes the line
  start after the \<open>\r\<close> away, so the end of the old piece means one character more.
\<close>

theorem snapshot_after_appended_LF:
  "(do {
      s \<leftarrow> PieceTree_create [] [CR, LF] False no_nodes;
      s \<leftarrow> PieceTree_insert 0 [97, CR] False s;
      before \<leftarrow> getLinesRawContent s;
      n \<leftarrow> createSnapshot [] s;
      s \<leftarrow> PieceTree_insert 2 [LF] False s;
      (strs, _) \<leftarrow> snapshot_reads (pt_buffers s) 3 n;
      Some (before, concat strs)
    }) = Some ([97, CR], [97, CR, LF])"
  by code_simp

text \<open>An empty chunk in front of another shifts the buffer index of the other.\<close>

theorem create_with_empty_chunk:
  "(do {
      s \<leftarrow> PieceTree_create [StringBuffer_new [] [0], StringBuffer_new [98] [0]] [LF] True no_nodes;
      Some (pt_length s, getLinesRawContent s)
    }) = Some (1, None)"
  by code_simp

text \<open>The character at the end of the text.\<close>

theorem char_code_at_end:
  "(do {
      s \<leftarrow> PieceTree_create [crlf_chunk] [CR, LF] False no_nodes;
      Some (map_option fst (getCharCode 3 s), map_option fst (getCharCode 4 s), map_option fst (getNearestChunk 4 s))
    }) = Some (Some (Some 98), None, Some [])"
  by code_simp

end
