(* ===== verification/PieceTreeLineEnds.thy ===== *)
theory PieceTreeLineEnds
  imports PieceTreeReads
begin

text \<open>
  Line ends of a \<open>PieceTreeBase\<close> (\<open>vs/editor/common/model/pieceTreeTextBuffer/pieceTreeBase.ts\<close>):
  replacing every line break of a text by one kind, and \<open>setEOL\<close>, which rebuilds the tree from
  chunks of about the size of \<open>AverageBufferSize\<close> with their line breaks replaced.
\<close>

section \<open>Replacing line breaks\<close>

text \<open>\<open>s.replace(/\r\n|\r|\n/g, eol)\<close>\<close>

fun replaceEOL :: "js_string \<Rightarrow> js_string \<Rightarrow> js_string" where
  "replaceEOL eol [] = []"
| "replaceEOL eol [c] = (if c = CR \<or> c = LF then eol else [c])"
| "replaceEOL eol (c # d # s) =
     (if c = CR \<and> d = LF then eol @ replaceEOL eol s
      else (if c = CR \<or> c = LF then eol else [c]) @ replaceEOL eol (d # s))"

section \<open>Normalizing a tree\<close>

text \<open>The callback of \<open>iterate\<close> in \<open>normalizeEOL\<close>, and the chunk made of what was collected.\<close>

definition eol_chunk :: "js_string \<Rightarrow> js_string \<Rightarrow> string_buffer" where
  "eol_chunk eol tempChunk = (let text = replaceEOL eol tempChunk in StringBuffer_new text (createLineStartsFast text True))"

definition normalizeEOL_step :: "piece_tree \<Rightarrow> js_string \<Rightarrow> int \<Rightarrow> int \<Rightarrow> node_ref \<Rightarrow> js_string \<times> int \<times> string_buffer list \<Rightarrow>
    (bool \<times> js_string \<times> int \<times> string_buffer list) option" where
  "normalizeEOL_step s eol min_len max_len node = (\<lambda>(tempChunk, tempChunkLen, chunks). do {
     str \<leftarrow> getNodeContent s node;
     let len = ilen str;
     (if tempChunkLen \<le> min_len \<or> tempChunkLen + len < max_len then Some (True, tempChunk @ str, tempChunkLen + len, chunks)
      else Some (True, str, len, chunks @ [eol_chunk eol tempChunk]))
   })"

definition normalizeEOL :: "js_string \<Rightarrow> piece_tree \<Rightarrow> piece_tree option" where
  "normalizeEOL eol s = do {
     let min_len = AverageBufferSize - AverageBufferSize div 3;
     let max_len = min_len * 2;
     (_, tempChunk, tempChunkLen, chunks) \<leftarrow> iterate (pt_tree s) (normalizeEOL_step s eol min_len max_len) (rb_root (pt_tree s)) ([], 0, []);
     let chunks = (if tempChunkLen > 0 then chunks @ [eol_chunk eol tempChunk] else chunks);
     PieceTree_create chunks eol True (pt_tree s)
   }"

definition PieceTree_setEOL :: "js_string \<Rightarrow> piece_tree \<Rightarrow> piece_tree option" where
  "PieceTree_setEOL newEOL s = normalizeEOL newEOL (s\<lparr>pt_EOL := newEOL, pt_EOLLength := ilen newEOL\<rparr>)"

section \<open>Texts with one kind of line break\<close>

lemma replaceEOL_append: "\<not> splits_crlf x y \<Longrightarrow> replaceEOL eol (x @ y) = replaceEOL eol x @ replaceEOL eol y"
proof (induction eol x rule: replaceEOL.induct)
  case (2 eol c)
  then show ?case by (cases y) (auto simp: splits_crlf_def)
next
  case (3 eol c d s)
  have "\<not> splits_crlf s y" "\<not> splits_crlf (d # s) y" using 3(3) by (cases "s = []"; auto simp: splits_crlf_def)+
  then show ?case using 3 by auto
qed simp

lemma replaceEOL_empty: "eol \<noteq> [] \<Longrightarrow> replaceEOL eol x = [] \<longleftrightarrow> x = []"
  by (induction eol x rule: replaceEOL.induct) auto

lemma replaceEOL_LF: "no_cr (replaceEOL [LF] x)"
  by (induction "[LF]" x rule: replaceEOL.induct) (auto simp: no_cr_def)

lemma replaceEOL_last: "eol = [LF] \<or> eol = [CR, LF] \<Longrightarrow> x \<noteq> [] \<Longrightarrow> last (replaceEOL eol x) \<noteq> CR"
proof (induction eol x rule: replaceEOL.induct)
  case (3 eol c d s)
  then show ?case using replaceEOL_empty [of eol s] replaceEOL_empty [of eol "d # s"]
    by (cases "s = []") (auto split: if_splits)
qed auto

lemma replaceEOL_no_split: "eol = [LF] \<or> eol = [CR, LF] \<Longrightarrow> \<not> splits_crlf (replaceEOL eol x) y"
  using replaceEOL_last [of eol x] by (cases "x = []") (auto simp: splits_crlf_def)

text \<open>A text with the line break \<open>\r\n\<close> only: before every end of a line there is this break.\<close>

lemma splits_at_shift: "0 < l \<Longrightarrow> splits_at (xs @ ys) (ilen xs + l) = splits_at ys l"
proof -
  assume l: "0 < l"
  have "nat (ilen xs + l) = length xs + nat l" "nat (ilen xs + l - 1) = length xs + nat (l - 1)" using l by arith+
  then show ?thesis using l by (simp add: splits_at_iff nth_append)
qed

lemma replaceEOL_CRLF: "l \<in> set (breaks 0 (replaceEOL [CR, LF] x)) \<Longrightarrow> splits_at (replaceEOL [CR, LF] x) (l - 1)"
proof -
  let ?P = "\<lambda>y. \<forall>l\<in>set (breaks 0 y). splits_at y (l - 1)"
  have b: "?P ([CR, LF] @ y)" if y: "?P y" for y
  proof
    fix l assume l: "l \<in> set (breaks 0 ([CR, LF] @ y))"
    have "breaks 0 ([CR, LF] @ y) = 2 # map (\<lambda>l. l + 2) (breaks 0 y)"
      using breaks_append [of 0 "[CR, LF]" y] breaks_shift [of 0 2 y] by (simp add: splits_crlf_def ends_line_def)
    then consider "l = 2" | k where "l = k + 2" "k \<in> set (breaks 0 y)" using l by auto
    then show "splits_at ([CR, LF] @ y) (l - 1)"
    proof cases
      case 2
      then have "splits_at y (k - 1)" using y by blast
      moreover have "0 < k - 1" using calculation by (simp add: splits_at_iff)
      ultimately show ?thesis using splits_at_shift [of "k - 1" "[CR, LF]" y] 2(1) by (simp add: algebra_simps)
    qed (simp add: splits_at_iff)
  qed
  have c: "?P ([c] @ y)" if y: "?P y" and c: "c \<noteq> CR" "c \<noteq> LF" for c y
  proof
    fix l assume l: "l \<in> set (breaks 0 ([c] @ y))"
    have "breaks 0 ([c] @ y) = map (\<lambda>l. l + 1) (breaks 0 y)"
      using breaks_shift [of 0 1 y] c by (simp add: ends_line_def)
    then obtain k where k: "l = k + 1" "k \<in> set (breaks 0 y)" using l by auto
    then have "splits_at y (k - 1)" using y by blast
    moreover have "0 < k - 1" using calculation by (simp add: splits_at_iff)
    ultimately show "splits_at ([c] @ y) (l - 1)" using splits_at_shift [of "k - 1" "[c]" y] k(1) by simp
  qed
  have "?P (replaceEOL [CR, LF] x)"
  proof (induction "[CR, LF]" x rule: replaceEOL.induct)
    case (2 d)
    then show ?case using b [of "[]"] c [of "[]" d] by (auto simp del: breaks.simps(2))
  next
    case (3 d e s)
    then show ?case using b c by (cases "d = CR \<and> e = LF"; cases "d = CR \<or> d = LF") (auto simp del: breaks.simps)
  qed simp
  then show "l \<in> set (breaks 0 (replaceEOL [CR, LF] x)) \<Longrightarrow> ?thesis" by blast
qed

section \<open>Collecting the chunks\<close>

text \<open>An invariant of a callback that does nothing to the text at the sentinel.\<close>

lemma iterate_inv:
  "shape (n_parent t) (n_left t) (n_right t) p x tr \<Longrightarrow>
    (\<forall>us st. I us st \<longrightarrow> (\<exists>st'. f SENTINEL st = Some (True, st') \<and> I us st')) \<Longrightarrow>
    (\<forall>us n vs st. ms = us @ n # vs \<longrightarrow> I us st \<longrightarrow> (\<exists>st'. f n st = Some (True, st') \<and> I (us @ [n]) st')) \<Longrightarrow>
    ms = us @ nodes tr @ vs \<Longrightarrow> I us st \<Longrightarrow> \<exists>st'. iterate t f x st = Some (True, st') \<and> I (us @ nodes tr) st'"
proof (induction tr arbitrary: p x us vs st)
  case Lf
  then show ?case by (subst iterate.simps) simp
next
  case (Nd l a r)
  then have x: "x = a" "a \<noteq> SENTINEL" and l: "shape (n_parent t) (n_left t) (n_right t) a (n_left t a) l"
    and r: "shape (n_parent t) (n_left t) (n_right t) a (n_right t a) r" by auto
  have "ms = us @ nodes l @ (a # nodes r @ vs)" using Nd.prems(4) by simp
  from Nd.IH(1) [OF l Nd.prems(2,3) this Nd.prems(5)] obtain s1 where s1: "iterate t f (n_left t a) st = Some (True, s1)" "I (us @ nodes l) s1" by blast
  have "ms = (us @ nodes l) @ a # (nodes r @ vs)" using Nd.prems(4) by simp
  with Nd.prems(3) s1(2) obtain s2 where s2: "f a s1 = Some (True, s2)" "I ((us @ nodes l) @ [a]) s2" by blast
  have "ms = ((us @ nodes l) @ [a]) @ nodes r @ vs" using Nd.prems(4) by simp
  from Nd.IH(2) [OF r Nd.prems(2,3) this s2(2)] obtain s3 where s3: "iterate t f (n_right t a) s2 = Some (True, s3)"
    "I (((us @ nodes l) @ [a]) @ nodes r) s3" by blast
  show ?case using x s1 s2 s3 by (subst iterate.simps) simp
qed

text \<open>What was read is the chunks, each the replaced text of one of \<open>ws\<close>, and the text collected.\<close>

definition collected :: "piece_tree \<Rightarrow> js_string \<Rightarrow> node_ref list \<Rightarrow> js_string \<times> int \<times> string_buffer list \<Rightarrow> bool" where
  "collected s eol us st \<longleftrightarrow> (case st of (tempChunk, tempChunkLen, chunks) \<Rightarrow>
     tempChunkLen = ilen tempChunk \<and> (\<exists>ws. chunks = map (eol_chunk eol) ws \<and> [] \<notin> set ws \<and>
       nodes_text s us = concat ws @ tempChunk \<and>
       replaceEOL eol (nodes_text s us) = concat (map (replaceEOL eol) ws) @ replaceEOL eol tempChunk))"

lemma collected_step:
  assumes "collected s eol us st" "getNodeContent s n = Some c" "0 \<le> min_len"
    and "\<not> splits_crlf (nodes_text s us) c" "nodes_text s vs = nodes_text s us @ c"
  shows "\<exists>st'. normalizeEOL_step s eol min_len max_len n st = Some (True, st') \<and> collected s eol vs st'"
proof -
  obtain tc tl chunks where st: "st = (tc, tl, chunks)" by (cases st)
  obtain ws where ws: "tl = ilen tc" "chunks = map (eol_chunk eol) ws" "[] \<notin> set ws" "nodes_text s us = concat ws @ tc"
    "replaceEOL eol (nodes_text s us) = concat (map (replaceEOL eol) ws) @ replaceEOL eol tc"
    using assms(1) unfolding collected_def st by auto
  have r: "replaceEOL eol (nodes_text s vs) = replaceEOL eol (nodes_text s us) @ replaceEOL eol c"
    using replaceEOL_append [OF assms(4)] assms(5) by simp
  have "\<not> splits_crlf tc c" using assms(4) ws(4) by (cases "tc = []") (auto simp: splits_crlf_def)
  note tc = replaceEOL_append [OF this, of eol]
  show ?thesis
  proof (cases "tl \<le> min_len \<or> tl + ilen c < max_len")
    case True
    have "collected s eol vs (tc @ c, tl + ilen c, chunks)" using ws r tc assms(5) by (auto simp: collected_def)
    then show ?thesis using True assms(2) st by (auto simp: normalizeEOL_step_def)
  next
    case False
    then have "tc \<noteq> []" using ws(1) assms(3) by auto
    then have "collected s eol vs (c, ilen c, chunks @ [eol_chunk eol tc])"
      unfolding collected_def using ws r assms(5) by (auto intro!: exI [of _ "ws @ [tc]"])
    then show ?thesis using False assms(2) st by (auto simp: normalizeEOL_step_def)
  qed
qed

lemma successively_all: "(\<And>x y. P x y) \<Longrightarrow> successively P xs"
  by (induction xs rule: induct_list012) auto

lemma concat_member_length: "u \<in> set us \<Longrightarrow> length u \<le> length (concat us)"
  by (induction us) auto

lemma normalizeEOL_ok:
  assumes inv: "buffer_inv s ns cs" and eol: "eol = [LF] \<or> eol = [CR, LF]"
    and len: "ilen (replaceEOL eol (concat cs)) < max_string_length"
  obtains s' where "PieceTree_setEOL eol s = Some s'" "has_text s' (replaceEOL eol (concat cs))" "pt_EOL s' = eol"
    "pt_EOLNormalized s'" "pt_lastVisitedLine s' = (0, [])" "text_at (pt_buffers s') 0 = []"
proof -
  let ?s = "s\<lparr>pt_EOL := eol, pt_EOLLength := ilen eol\<rparr>" and ?t = "pt_tree s"
  let ?f = "normalizeEOL_step ?s eol (AverageBufferSize - AverageBufferSize div 3) ((AverageBufferSize - AverageBufferSize div 3) * 2)"
  have ok: "pieces_ok s ns cs" using inv by (simp add: buffer_inv_def)
  note tx = buffer_texts [OF inv]
  have gn: "getNodeContent ?s = getNodeContent s" "node_text ?s = node_text s" by (intro ext; simp add: getNodeContent_def node_text_def)+
  have o: "rb_order ?t ns" using ok by (simp add: pieces_ok_def)
  obtain tr where tr: "nodes tr = ns" "shape (n_parent ?t) (n_left ?t) (n_right ?t) SENTINEL (rb_root ?t) tr"
    using rb_order_shape [OF o] by blast
  have m0: "0 \<le> AverageBufferSize - AverageBufferSize div 3" by (simp add: AverageBufferSize_def)
  have sen: "\<exists>st'. ?f SENTINEL st = Some (True, st') \<and> collected ?s eol us st'" if "collected ?s eol us st" for us st
    by (rule collected_step [OF that _ m0, where c = "[]"]) (simp_all add: getNodeContent_def)
  have nod: "\<exists>st'. ?f n st = Some (True, st') \<and> collected ?s eol (us @ [n]) st'" if "ns = us @ n # vs" "collected ?s eol us st" for us n vs st
  proof (rule collected_step [OF that(2) _ m0])
    have "n \<in> set ns" using that(1) by simp
    then show "getNodeContent ?s n = Some (node_text s n)"
      using node_contents [OF ok] tx(1) unfolding gn by (auto simp: list_all2_conv_all_nth in_set_conv_nth)
    show "\<not> splits_crlf (nodes_text ?s us) (node_text s n)" using texts_ok_node(5) [of s us n vs] tx(2) that(1) gn by simp
  qed (simp add: gn)
  have sen': "\<forall>us st. collected ?s eol us st \<longrightarrow> (\<exists>st'. ?f SENTINEL st = Some (True, st') \<and> collected ?s eol us st')"
    using sen by (intro allI impI)
  have nod': "\<forall>us n vs st. ns = us @ n # vs \<longrightarrow> collected ?s eol us st \<longrightarrow> (\<exists>st'. ?f n st = Some (True, st') \<and> collected ?s eol (us @ [n]) st')"
    using nod by (intro allI impI)
  have c0: "collected ?s eol [] ([], 0, [])" by (simp add: collected_def)
  have n0: "ns = [] @ nodes tr @ []" using tr(1) by simp
  obtain st where "iterate ?t ?f (rb_root ?t) ([], 0, []) = Some (True, st)" "collected ?s eol ([] @ nodes tr) st"
    using iterate_inv [OF tr(2) sen' nod' n0 c0] by (elim exE conjE)
  then obtain tc tl chunks where it: "iterate ?t ?f (rb_root ?t) ([], 0, []) = Some (True, tc, tl, chunks)" "collected ?s eol ns (tc, tl, chunks)"
    using tr(1) by (cases st) simp
  obtain ws where ws: "tl = ilen tc" "chunks = map (eol_chunk eol) ws" "[] \<notin> set ws"
    "replaceEOL eol (concat cs) = concat (map (replaceEOL eol) ws) @ replaceEOL eol tc"
    using it(2) tx(1) gn unfolding collected_def by auto
  let ?ws = "if tl > 0 then ws @ [tc] else ws"
  let ?cs = "map (replaceEOL eol) ?ws"
  have x: "replaceEOL eol (concat cs) = concat ?cs" and ne: "[] \<notin> set ?ws" using ws by auto
  have "ilen (replaceEOL eol w) < max_string_length" if "w \<in> set ?ws" for w
    using concat_member_length [of "replaceEOL eol w" ?cs] that len x by auto
  then have b: "buffer_ok (eol_chunk eol w) \<and> sb_buffer (eol_chunk eol w) = replaceEOL eol w" if "w \<in> set ?ws" for w
    using that by (simp add: eol_chunk_def Let_def buffer_ok_def StringBuffer_new_def createLineStartsFast_ok)
  then have m: "map sb_buffer (map (eol_chunk eol) ?ws) = ?cs" by simp
  have "joined ?cs" unfolding joined_def successively_map using replaceEOL_no_split [OF eol] by (simp add: successively_all)
  moreover have "\<forall>b\<in>set (map (eol_chunk eol) ?ws). sb_buffer b \<noteq> []" using b ne replaceEOL_empty [of eol] eol by auto
  moreover have "True \<and> eol = [LF] \<longrightarrow> (\<forall>b\<in>set (map (eol_chunk eol) ?ws). no_cr (sb_buffer b))" using b replaceEOL_LF by auto
  moreover have "list_all buffer_ok (map (eol_chunk eol) ?ws)" using b by (simp add: list_all_iff)
  ultimately obtain s' ns' where s': "PieceTree_create (map (eol_chunk eol) ?ws) eol True ?t = Some s'" "buffer_inv s' ns' ?cs"
    "pt_EOL s' = eol" "pt_EOLNormalized s'" "pt_buffers s' = StringBuffer_new [] [0] # map (eol_chunk eol) ?ws" "pt_lastVisitedLine s' = (0, [])"
    using PieceTree_create_ok [of "map (eol_chunk eol) ?ws" ?t ns True eol] o m by metis
  have ch: "(if tl > 0 then chunks @ [eol_chunk eol tc] else chunks) = map (eol_chunk eol) ?ws" using ws(2) by simp
  have "PieceTree_setEOL eol s = Some s'" unfolding PieceTree_setEOL_def normalizeEOL_def Let_def
    using it(1) s'(1) ch by simp
  moreover have "has_text s' (replaceEOL eol (concat cs))" unfolding has_text_def using s'(2) x by blast
  moreover have "text_at (pt_buffers s') 0 = []" using s'(5) by (simp add: text_at_def StringBuffer_new_def)
  ultimately show thesis using that s' by blast
qed

end
