(* ===== verification/PieceTreeLines.thy ===== *)
theory PieceTreeLines
  imports PieceTreeLineEnds AbstractTexts
begin

text \<open>
  Lines and ranges of a \<open>PieceTreeBase\<close>
  (\<open>vs/editor/common/model/pieceTreeTextBuffer/pieceTreeBase.ts\<close>): the node of a position, the text of
  a range, and the text, the length and the characters of a line, with the cache of the last line read.
\<close>

section \<open>The node of a position\<close>

partial_function (option) offsetOfNode_loop :: "rb_tree \<Rightarrow> node_ref \<Rightarrow> int \<Rightarrow> int option" where
  "offsetOfNode_loop t node pos =
     (if node \<noteq> rb_root t then
        offsetOfNode_loop t (n_parent t node)
          (if n_right t (n_parent t node) = node then pos + (n_size_left t (n_parent t node) + n_length t (n_parent t node)) else pos)
      else Some pos)"

declare offsetOfNode_loop.simps [code]

definition offsetOfNode :: "rb_tree \<Rightarrow> node_ref \<Rightarrow> int option" where
  "offsetOfNode t node = (if node = null_ref then Some 0 else offsetOfNode_loop t node (n_size_left t node))"

text \<open>
  The walk to a line that \<open>nodeAt2\<close> and \<open>getLineRawContent\<close> share: \<open>here\<close> is what they do at the node in
  which the line starts, with the line number and the offset that are left there, \<open>past\<close> what they do past the last node.
\<close>

partial_function (option) line_loop ::
  "rb_tree \<Rightarrow> (node_ref \<Rightarrow> int \<Rightarrow> int \<Rightarrow> 'a option) \<Rightarrow> 'a option \<Rightarrow> node_ref \<Rightarrow> int \<Rightarrow> int \<Rightarrow> 'a option" where
  "line_loop t here past x line nodeStartOffset =
     (if x \<noteq> SENTINEL then
        if n_left t x \<noteq> SENTINEL \<and> n_lf_left t x \<ge> line - 1 then line_loop t here past (n_left t x) line nodeStartOffset
        else if n_lf_left t x + n_lineFeedCnt t x \<ge> line - 1 then here x line nodeStartOffset
        else line_loop t here past (n_right t x) (line - (n_lf_left t x + n_lineFeedCnt t x))
               (nodeStartOffset + (n_size_left t x + n_length t x))
      else past)"

declare line_loop.simps [code]

text \<open>The search for the column in the nodes after \<open>x\<close>.\<close>

partial_function (option) nodeAt2_rest :: "piece_tree \<Rightarrow> node_ref \<Rightarrow> int \<Rightarrow> node_position option option" where
  "nodeAt2_rest s x col =
     (let t = pt_tree s in
      if x \<noteq> SENTINEL then
        if n_lineFeedCnt t x > 0 then do {
          acc \<leftarrow> getAccumulatedValue (pt_buffers s) (n_piece t x) 0;
          off \<leftarrow> offsetOfNode t x;
          Some (Some \<lparr>np_node = x, np_remainder = min (col - 1) acc, np_nodeStartOffset = off\<rparr>)
        }
        else if n_length t x \<ge> col - 1 then do {
          off \<leftarrow> offsetOfNode t x;
          Some (Some \<lparr>np_node = x, np_remainder = col - 1, np_nodeStartOffset = off\<rparr>)
        }
        else do { nxt \<leftarrow> TreeNode_next t x; nodeAt2_rest s nxt (col - n_length t x) }
      else Some None)"

declare nodeAt2_rest.simps [code]

definition nodeAt2_here :: "piece_tree \<Rightarrow> int \<Rightarrow> node_ref \<Rightarrow> int \<Rightarrow> int \<Rightarrow> node_position option option" where
  "nodeAt2_here s col x line nodeStartOffset =
     (let t = pt_tree s in
      if n_lf_left t x + n_lineFeedCnt t x > line - 1 then do {
        prev \<leftarrow> getAccumulatedValue (pt_buffers s) (n_piece t x) (line - n_lf_left t x - 2);
        acc \<leftarrow> getAccumulatedValue (pt_buffers s) (n_piece t x) (line - n_lf_left t x - 1);
        Some (Some \<lparr>np_node = x, np_remainder = min (prev + col - 1) acc, np_nodeStartOffset = nodeStartOffset + n_size_left t x\<rparr>)
      } else do {
        prev \<leftarrow> getAccumulatedValue (pt_buffers s) (n_piece t x) (line - n_lf_left t x - 2);
        (if prev + col - 1 \<le> n_length t x then
           Some (Some \<lparr>np_node = x, np_remainder = prev + col - 1, np_nodeStartOffset = nodeStartOffset\<rparr>)
         else do { nxt \<leftarrow> TreeNode_next t x; nodeAt2_rest s nxt (col - (n_length t x - prev)) })
      })"

definition nodeAt2 :: "int \<Rightarrow> int \<Rightarrow> piece_tree \<Rightarrow> node_position option option" where
  "nodeAt2 line col s =
     line_loop (pt_tree s) (nodeAt2_here s col) (do { nxt \<leftarrow> TreeNode_next (pt_tree s) SENTINEL; nodeAt2_rest s nxt col })
       (rb_root (pt_tree s)) line 0"

section \<open>The text of a range\<close>

definition PieceTree_getValueInRange :: "edit_range \<Rightarrow> js_string option \<Rightarrow> piece_tree \<Rightarrow> js_string option" where
  "PieceTree_getValueInRange r eol s =
     (if startLineNumber r = endLineNumber r \<and> startColumn r = endColumn r then Some []
      else do {
        startPosition \<leftarrow> nodeAt2 (startLineNumber r) (startColumn r) s;
        endPosition \<leftarrow> nodeAt2 (endLineNumber r) (endColumn r) s;
        startPosition \<leftarrow> startPosition;
        endPosition \<leftarrow> endPosition;
        val \<leftarrow> getValueInRange2 startPosition endPosition s;
        (case eol of
           None \<Rightarrow> Some val
         | Some eol \<Rightarrow>
             if eol \<noteq> [] then
               if eol \<noteq> pt_EOL s \<or> \<not> pt_EOLNormalized s then Some (replaceEOL eol val)
               else if eol = pt_EOL s \<and> pt_EOLNormalized s then Some val
               else Some (replaceEOL eol val)
             else Some val)
      })"

section \<open>Lines\<close>

definition PieceTree_getLineLength :: "int \<Rightarrow> piece_tree \<Rightarrow> int option" where
  "PieceTree_getLineLength line s =
     (if line = pt_lineCnt s then do { startOffset \<leftarrow> getOffsetAt line 1 s; Some (pt_length s - startOffset) }
      else do {
        nextOffset \<leftarrow> getOffsetAt (line + 1) 1 s;
        startOffset \<leftarrow> getOffsetAt line 1 s;
        Some (nextOffset - startOffset - pt_EOLLength s)
      })"

definition PieceTree_getLineCharCode :: "int \<Rightarrow> int \<Rightarrow> piece_tree \<Rightarrow> code_unit option option" where
  "PieceTree_getLineCharCode line index s = do {
     nodePos \<leftarrow> nodeAt2 line (index + 1) s;
     nodePos \<leftarrow> nodePos;
     PieceTree_getCharCode_at nodePos s
   }"

text \<open>The nodes from \<open>x\<close> up to the end of the line.\<close>

partial_function (option) line_rest :: "piece_tree \<Rightarrow> int \<Rightarrow> node_ref \<Rightarrow> js_string \<Rightarrow> js_string option" where
  "line_rest s endOffset x ret =
     (let p = n_piece (pt_tree s) x in
      if x \<noteq> SENTINEL then do {
        b \<leftarrow> js_get (pt_buffers s) (pc_bufferIndex p);
        (if pc_lineFeedCnt p > 0 then do {
           acc \<leftarrow> getAccumulatedValue (pt_buffers s) p 0;
           startOffset \<leftarrow> offsetInBuffer (pt_buffers s) (pc_bufferIndex p) (pc_start p);
           Some (ret @ js_substring (sb_buffer b) startOffset (startOffset + acc - endOffset))
         } else do {
           startOffset \<leftarrow> offsetInBuffer (pt_buffers s) (pc_bufferIndex p) (pc_start p);
           nxt \<leftarrow> TreeNode_next (pt_tree s) x;
           line_rest s endOffset nxt (ret @ js_substring (sb_buffer b) startOffset (startOffset + pc_length p))
         })
      } else Some ret)"

declare line_rest.simps [code]

definition line_here :: "piece_tree \<Rightarrow> int \<Rightarrow> int \<Rightarrow> node_ref \<Rightarrow> int \<Rightarrow> int \<Rightarrow> (js_string \<times> piece_tree) option" where
  "line_here s originalLineNumber endOffset x line nodeStartOffset =
     (let t = pt_tree s; p = n_piece t x in
      if n_lf_left t x + n_lineFeedCnt t x > line - 1 then do {
        prev \<leftarrow> getAccumulatedValue (pt_buffers s) p (line - n_lf_left t x - 2);
        acc \<leftarrow> getAccumulatedValue (pt_buffers s) p (line - n_lf_left t x - 1);
        b \<leftarrow> js_get (pt_buffers s) (pc_bufferIndex p);
        startOffset \<leftarrow> offsetInBuffer (pt_buffers s) (pc_bufferIndex p) (pc_start p);
        let s = s\<lparr>pt_searchCache := SearchCache_set
          \<lparr>ce_node = x, ce_nodeStartOffset = nodeStartOffset + n_size_left t x,
           ce_nodeStartLineNumber = Some (originalLineNumber - (line - 1 - n_lf_left t x))\<rparr> (pt_searchCache s)\<rparr>;
        Some (js_substring (sb_buffer b) (startOffset + prev) (startOffset + acc - endOffset), s)
      } else do {
        prev \<leftarrow> getAccumulatedValue (pt_buffers s) p (line - n_lf_left t x - 2);
        b \<leftarrow> js_get (pt_buffers s) (pc_bufferIndex p);
        startOffset \<leftarrow> offsetInBuffer (pt_buffers s) (pc_bufferIndex p) (pc_start p);
        nxt \<leftarrow> TreeNode_next t x;
        ret \<leftarrow> line_rest s endOffset nxt (js_substring (sb_buffer b) (startOffset + prev) (startOffset + pc_length p));
        Some (ret, s)
      })"

definition getLineRawContent :: "int \<Rightarrow> int \<Rightarrow> piece_tree \<Rightarrow> (js_string \<times> piece_tree) option" where
  "getLineRawContent line endOffset s =
     (let t = pt_tree s in
      case SearchCache_get2 t (pt_searchCache s) line of
        Some (e, nodeStartLineNumber) \<Rightarrow> do {
          let x = ce_node e;
          let p = n_piece t x;
          prev \<leftarrow> getAccumulatedValue (pt_buffers s) p (line - nodeStartLineNumber - 1);
          b \<leftarrow> js_get (pt_buffers s) (pc_bufferIndex p);
          startOffset \<leftarrow> offsetInBuffer (pt_buffers s) (pc_bufferIndex p) (pc_start p);
          (if nodeStartLineNumber + pc_lineFeedCnt p = line then do {
             nxt \<leftarrow> TreeNode_next t x;
             ret \<leftarrow> line_rest s endOffset nxt (js_substring (sb_buffer b) (startOffset + prev) (startOffset + pc_length p));
             Some (ret, s)
           } else do {
             acc \<leftarrow> getAccumulatedValue (pt_buffers s) p (line - nodeStartLineNumber);
             Some (js_substring (sb_buffer b) (startOffset + prev) (startOffset + acc - endOffset), s)
           })
        }
      | None \<Rightarrow>
          line_loop t (line_here s line endOffset)
            (do { nxt \<leftarrow> TreeNode_next t SENTINEL; ret \<leftarrow> line_rest s endOffset nxt []; Some (ret, s) }) (rb_root t) line 0)"

text \<open>\<open>s.replace(/(\r\n|\r|\n)$/, '')\<close>\<close>

definition stripEOL :: "js_string \<Rightarrow> js_string" where
  "stripEOL s =
     (if s \<noteq> [] \<and> last s = LF then
        if butlast s \<noteq> [] \<and> last (butlast s) = CR then butlast (butlast s) else butlast s
      else if s \<noteq> [] \<and> last s = CR then butlast s else s)"

definition PieceTree_getLineContent :: "int \<Rightarrow> piece_tree \<Rightarrow> (js_string \<times> piece_tree) option" where
  "PieceTree_getLineContent line s =
     (if fst (pt_lastVisitedLine s) = line then Some (snd (pt_lastVisitedLine s), s)
      else do {
        let s = s\<lparr>pt_lastVisitedLine := (line, snd (pt_lastVisitedLine s))\<rparr>;
        (val, s) \<leftarrow> (if line = pt_lineCnt s then getLineRawContent line 0 s
           else if pt_EOLNormalized s then getLineRawContent line (pt_EOLLength s) s
           else do { (v, s) \<leftarrow> getLineRawContent line 0 s; Some (stripEOL v, s) });
        Some (val, s\<lparr>pt_lastVisitedLine := (line, val)\<rparr>)
      })"

section \<open>The offset of a node\<close>

lemma offsetOfNode_loop_focused:
  "focused t C tr x \<Longrightarrow> tr \<noteq> Lf \<Longrightarrow> ctx_sums_ok (n_size_left t) (n_length t) (tree_sum (n_length t) tr) C \<Longrightarrow>
    offsetOfNode_loop t x pos = Some (pos + sum_list (map (n_length t) (ctx_before C)))"
proof (induction C arbitrary: tr x pos)
  case Top
  then show ?case using focused_is_root [OF Top(1,2)] by (subst offsetOfNode_loop.simps) simp
next
  case (InL C a r)
  have "ctx_sums_ok (n_size_left t) (n_length t) (tree_sum (n_length t) (Nd tr a r)) C" using InL.prems(3) by (simp add: tree_sum_def add.assoc)
  then show ?case
    using InL.IH [OF focused_up(1) [OF InL.prems(1)]] focused_is_root [OF InL.prems(1,2)] focused_root [OF InL.prems(1,2)]
      focused_side(1) [OF InL.prems(2,1)]
    by (subst offsetOfNode_loop.simps) auto
next
  case (InR l a C)
  have "ctx_sums_ok (n_size_left t) (n_length t) (tree_sum (n_length t) (Nd l a tr)) C" "n_size_left t a = tree_sum (n_length t) l"
    using InR.prems(3) by (simp_all add: tree_sum_def add.assoc)
  then show ?case
    using InR.IH [OF focused_up(2) [OF InR.prems(1)]] focused_is_root [OF InR.prems(1,2)] focused_root [OF InR.prems(1,2)]
      focused_side(2) [OF InR.prems(2,1)]
    by (subst offsetOfNode_loop.simps) (auto simp: tree_sum_def)
qed

lemma offsetOfNode_ok:
  assumes "rb_order t (xs @ a # ys)"
  shows "offsetOfNode t a = Some (sum_list (map (n_length t) xs))"
proof -
  obtain tr where tr: "rb_ok t tr" "nodes tr = xs @ a # ys" using assms by (auto simp: rb_order_def)
  then obtain C l r where c: "tr = plug C (Nd l a r)" "xs = ctx_before C @ nodes l" using nodes_split by metis
  have f: "focused t C (Nd l a r) a" using tr(1) c(1) rb_ok_focused by blast
  have s: "n_size_left t a = tree_sum (n_length t) l" "ctx_sums_ok (n_size_left t) (n_length t) (tree_sum (n_length t) (Nd l a r)) C"
    using tr(1) c(1) by (simp_all add: rb_ok_def coloured_def caches_ok_def sums_ok_plug)
  have "a \<noteq> null_ref" using focused_root [OF f] real_not_sentinel(2) by auto
  then show ?thesis using offsetOfNode_loop_focused [OF f _ s(2)] s(1) c(2) by (simp add: offsetOfNode_def tree_sum_def)
qed

section \<open>The walk to a line\<close>

lemma line_loop_shape:
  fixes here :: "node_ref \<Rightarrow> int \<Rightarrow> int \<Rightarrow> 'a option"
  assumes "t = pt_tree s"
  shows "shape (n_parent t) (n_left t) (n_right t) p x tr \<Longrightarrow> sums_ok (n_size_left t) (n_length t) tr \<Longrightarrow>
    sums_ok (n_lf_left t) (n_lineFeedCnt t) tr \<Longrightarrow> texts_ok s (nodes tr) \<Longrightarrow> tr \<noteq> Lf \<Longrightarrow> line - 1 \<le> eols (nodes_text s (nodes tr)) \<Longrightarrow>
    \<exists>xs a ys line' off'. nodes tr = xs @ a # ys \<and> (xs = [] \<or> eols (nodes_text s xs) < line - 1) \<and>
      line - 1 \<le> eols (nodes_text s xs) + eols (node_text s a) \<and> line' - n_lf_left t a = line - eols (nodes_text s xs) \<and>
      off' + n_size_left t a = off + ilen (nodes_text s xs) \<and> line_loop t here past x line off = here a line' off'"
proof (induction tr arbitrary: p x line off)
  case (Nd l a r)
  let ?L = "nodes_text s (nodes l)" and ?c = "node_text s a" and ?R = "nodes_text s (nodes r)"
  have ok: "texts_ok s (nodes l @ a # nodes r)" using Nd.prems(4) by simp
  note tx = texts_ok_node [OF ok]
  have x: "x = a" "a \<noteq> SENTINEL" using Nd.prems(1) by auto
  have sums: "n_size_left t a = ilen ?L" "n_lf_left t a = eols ?L" "n_length t a = ilen ?c" "n_lineFeedCnt t a = eols ?c"
    using Nd.prems(2,3) texts_ok_sums [OF tx(1)] texts_ok_single [OF tx(2)] assms by (simp_all add: tree_sum_def)
  have lf0: "n_left t a = SENTINEL \<longleftrightarrow> l = Lf" using Nd.prems(1) by (cases l) auto
  have tot: "line - 1 \<le> eols ?L + eols ?c + eols ?R" using Nd.prems(6) tx(8) by simp
  consider (left) "l \<noteq> Lf" "line - 1 \<le> eols ?L" | (here) "l = Lf \<or> eols ?L < line - 1" "line - 1 \<le> eols ?L + eols ?c"
    | (right) "eols ?L + eols ?c < line - 1" by linarith
  then show ?case
  proof cases
    case left
    have sub: "shape (n_parent t) (n_left t) (n_right t) a (n_left t a) l" "sums_ok (n_size_left t) (n_length t) l"
      "sums_ok (n_lf_left t) (n_lineFeedCnt t) l" using Nd.prems(1-3) by simp_all
    obtain xs b ys line' off' where i: "nodes l = xs @ b # ys" "xs = [] \<or> eols (nodes_text s xs) < line - 1"
      "line - 1 \<le> eols (nodes_text s xs) + eols (node_text s b)" "line' - n_lf_left t b = line - eols (nodes_text s xs)"
      "off' + n_size_left t b = off + ilen (nodes_text s xs)" "line_loop t here past (n_left t a) line off = here b line' off'"
      using Nd.IH(1) [OF sub tx(1) left, of off] by blast
    have "line_loop t here past x line off = here b line' off'" using x left lf0 sums i(6) by (subst line_loop.simps) simp
    then show ?thesis using i by (intro exI [of _ xs] exI [of _ b] exI [of _ "ys @ a # nodes r"] exI [of _ line'] exI [of _ off']) simp
  next
    case here
    have "\<not> (n_left t a \<noteq> SENTINEL \<and> line - 1 \<le> n_lf_left t a)" using here(1) lf0 sums(2) by auto
    then have "line_loop t here past x line off = here a line off" using x here(2) sums by (subst line_loop.simps) auto
    moreover have "nodes l = [] \<or> eols ?L < line - 1" using here(1) by auto
    ultimately show ?thesis using here(2) sums by (intro exI [of _ "nodes l"] exI [of _ a] exI [of _ "nodes r"] exI [of _ line] exI [of _ off]) simp
  next
    case right
    let ?off = "off + (n_size_left t a + n_length t a)" and ?line = "line - (n_lf_left t a + n_lineFeedCnt t a)"
    have sub: "shape (n_parent t) (n_left t) (n_right t) a (n_right t a) r" "sums_ok (n_size_left t) (n_length t) r"
      "sums_ok (n_lf_left t) (n_lineFeedCnt t) r" using Nd.prems(1-3) by simp_all
    have "?R \<noteq> []" using right tot by (intro notI) simp
    then have r: "r \<noteq> Lf" "?line - 1 \<le> eols ?R" using tot sums by auto
    obtain xs b ys line' off' where i: "nodes r = xs @ b # ys" "xs = [] \<or> eols (nodes_text s xs) < ?line - 1"
      "?line - 1 \<le> eols (nodes_text s xs) + eols (node_text s b)" "line' - n_lf_left t b = ?line - eols (nodes_text s xs)"
      "off' + n_size_left t b = ?off + ilen (nodes_text s xs)" "line_loop t here past (n_right t a) ?line ?off = here b line' off'"
      using Nd.IH(2) [OF sub tx(3) r, of ?off] by blast
    have "0 \<le> eols ?c" by simp
    then have "\<not> line - 1 \<le> eols ?L" "\<not> line - 1 \<le> eols ?L + eols ?c" using right by linarith+
    then have "line_loop t here past x line off = here b line' off'" using x sums i(6) by (subst line_loop.simps) simp
    moreover have e: "eols (nodes_text s (nodes l @ a # xs)) = eols ?L + eols ?c + eols (nodes_text s xs)"
      using texts_ok_node(8) [of s "nodes l" a xs] texts_ok_append [of s "nodes l @ a # xs" "b # ys"] ok i(1) by simp
    moreover have "eols (nodes_text s (nodes l @ a # xs)) < line - 1" using i(2) right sums(2,4) unfolding e by auto
    ultimately show ?thesis using i sums
      by (intro exI [of _ "nodes l @ a # xs"] exI [of _ b] exI [of _ ys] exI [of _ line'] exI [of _ off']) simp
  qed
qed simp

lemma line_offset_bounds: "0 \<le> line_offset x k" "line_offset x k \<le> ilen x"
proof -
  have "line_starts x ! nat k \<in> set (line_starts x)" if "0 < k" "k \<le> eols x"
    using that length_line_starts [of x] by (intro nth_mem) linarith
  moreover have "0 \<le> l \<and> l \<le> ilen x" if "l \<in> set (line_starts x)" for l
    using that breaks_bounds [of l 0 x] by (auto simp: line_starts_def)
  ultimately show "0 \<le> line_offset x k" "line_offset x k \<le> ilen x" by (auto simp: line_offset_def)
qed

lemma node_atI:
  assumes "ns = xs @ a # ys" "0 \<le> r" "r \<le> ilen (node_text s a)" "np_node pos = a" "np_remainder pos = r" "off = ilen (nodes_text s xs) + r"
  shows "node_at ns (map (node_text s) ns) off pos"
  unfolding node_at_def
  by (intro exI [of _ xs] exI [of _ a] exI [of _ ys] exI [of _ "map (node_text s) xs"] exI [of _ "node_text s a"] exI [of _ "map (node_text s) ys"])
    (use assms in simp)

lemma tree_succ: "rb_order t (xs @ a # ys) \<Longrightarrow> TreeNode_next t a = Some (hd (ys @ [SENTINEL])) \<and> a \<noteq> SENTINEL"
  using rbt.succ [of t xs a ys] rbt.ord_nodes [of t "xs @ a # ys"] by (cases ys) auto

lemma nodeAt2_rest_ok:
  assumes o: "rb_order (pt_tree s) ns" and ok: "texts_ok s ns"
  shows "ns = xs @ ys \<Longrightarrow> 1 \<le> d \<Longrightarrow> 0 < eols (nodes_text s ys) \<or> d \<le> ilen (nodes_text s ys) \<Longrightarrow>
    \<exists>pos. nodeAt2_rest s (hd (ys @ [SENTINEL])) (d + 1) = Some (Some pos) \<and>
      node_at ns (map (node_text s) ns) (ilen (nodes_text s xs) + min d (line_offset (nodes_text s ys) 1)) pos"
proof (induction ys arbitrary: xs d)
  case (Cons y ys)
  let ?c = "node_text s y" and ?R = "nodes_text s ys" and ?t = "pt_tree s"
  note tx = texts_ok_node [OF ok [unfolded Cons.prems(1)]]
  have yo: "rb_order ?t (xs @ y # ys)" using o Cons.prems(1) by simp
  have of: "offsetOfNode ?t y = Some (ilen (nodes_text s xs))" using offsetOfNode_ok [OF yo] texts_ok_sums [OF tx(1)] by simp
  have y: "y \<noteq> SENTINEL" "TreeNode_next ?t y = Some (hd (ys @ [SENTINEL]))" "n_length ?t y = ilen ?c" "n_lineFeedCnt ?t y = eols ?c"
    using tree_succ [OF yo] texts_ok_single [OF tx(2)] by simp_all
  have acc: "getAccumulatedValue (pt_buffers s) (n_piece ?t y) 0 = Some (line_offset ?c 1)" using node_accumulated [OF tx(2), of 0] by simp
  have lo: "line_offset (?c @ ?R) 1 = (if 1 \<le> eols ?c then line_offset ?c 1 else ilen ?c + line_offset ?R (1 - eols ?c))"
    by (rule line_offset_append [OF tx(6)])
  note b = line_offset_bounds [of ?c 1] line_offset_bounds [of ?R 1]
  consider (ends) "0 < eols ?c" | (inside) "eols ?c = 0" "d \<le> ilen ?c" | (after) "eols ?c = 0" "ilen ?c < d" using eols_nonneg [of ?c] by linarith
  then show ?case
  proof cases
    case ends
    let ?pos = "\<lparr>np_node = y, np_remainder = min d (line_offset ?c 1), np_nodeStartOffset = ilen (nodes_text s xs)\<rparr>"
    have "nodeAt2_rest s y (d + 1) = Some (Some ?pos)" using ends y acc of by (subst nodeAt2_rest.simps) (simp add: Let_def)
    moreover have "node_at ns (map (node_text s) ns) (ilen (nodes_text s xs) + min d (line_offset ?c 1)) ?pos"
      by (rule node_atI [OF Cons.prems(1), of "min d (line_offset ?c 1)"]) (use b Cons.prems(2) in auto)
    ultimately show ?thesis using ends lo by (intro exI [of _ ?pos]) simp
  next
    case inside
    let ?pos = "\<lparr>np_node = y, np_remainder = d, np_nodeStartOffset = ilen (nodes_text s xs)\<rparr>"
    have "nodeAt2_rest s y (d + 1) = Some (Some ?pos)" using inside y of by (subst nodeAt2_rest.simps) (simp add: Let_def)
    moreover have "node_at ns (map (node_text s) ns) (ilen (nodes_text s xs) + d) ?pos"
      by (rule node_atI [OF Cons.prems(1), of d]) (use inside Cons.prems(2) in auto)
    moreover have "min d (line_offset (?c @ ?R) 1) = d" using inside b lo by simp
    ultimately show ?thesis by (intro exI [of _ ?pos]) simp
  next
    case after
    have e: "eols (?c @ ?R) = eols ?R" using tx(6) after(1) by (simp add: eols_append)
    have "ns = (xs @ [y]) @ ys" "1 \<le> d - ilen ?c" "0 < eols ?R \<or> d - ilen ?c \<le> ilen ?R" using Cons.prems after e by auto
    from Cons.IH [OF this] obtain pos where pos: "nodeAt2_rest s (hd (ys @ [SENTINEL])) (d - ilen ?c + 1) = Some (Some pos)"
      "node_at ns (map (node_text s) ns) (ilen (nodes_text s (xs @ [y])) + min (d - ilen ?c) (line_offset ?R 1)) pos" by blast
    have "nodeAt2_rest s y (d + 1) = Some (Some pos)" using after y pos(1) by (subst nodeAt2_rest.simps) (simp add: Let_def algebra_simps)
    moreover have e2: "ilen (nodes_text s (xs @ [y])) + min (d - ilen ?c) (line_offset ?R 1) = ilen (nodes_text s xs) + min d (line_offset (?c @ ?R) 1)"
      using after lo by simp
    have "node_at ns (map (node_text s) ns) (ilen (nodes_text s xs) + min d (line_offset (?c @ ?R) 1)) pos" using pos(2) unfolding e2 .
    ultimately show ?thesis by (intro exI [of _ pos]) simp
  qed
qed simp

text \<open>Where a line starts and ends when it starts in node \<open>a\<close>.\<close>

lemma line_offsets_at:
  assumes ok: "texts_ok s (xs @ a # ys)" and first: "xs = [] \<or> eols (nodes_text s xs) < line - 1"
    and line: "line - 1 \<le> eols (nodes_text s xs) + eols (node_text s a)" and T: "T = nodes_text s (xs @ a # ys)"
  shows "line_offset T (line - 1) = ilen (nodes_text s xs) + line_offset (node_text s a) (line - 1 - eols (nodes_text s xs))"
    "line \<le> eols (nodes_text s xs) + eols (node_text s a) \<and> 1 \<le> line \<longrightarrow>
      line_offset T line = ilen (nodes_text s xs) + line_offset (node_text s a) (line - eols (nodes_text s xs))"
    "line = eols (nodes_text s xs) + eols (node_text s a) + 1 \<longrightarrow>
      line_offset T line = ilen (nodes_text s xs) + ilen (node_text s a) + line_offset (nodes_text s ys) 1"
proof -
  let ?P = "nodes_text s xs" and ?c = "node_text s a" and ?R = "nodes_text s ys"
  have T': "T = ?P @ ?c @ ?R" using T by simp
  note tx = texts_ok_node [OF ok]
  have lo: "line_offset T k = (if k \<le> eols ?P then line_offset ?P k
      else if k - eols ?P \<le> eols ?c then ilen ?P + line_offset ?c (k - eols ?P)
      else ilen ?P + ilen ?c + line_offset ?R (k - eols ?P - eols ?c))" for k
    using line_offset_append [of ?P "?c @ ?R" k] line_offset_append [of ?c ?R "k - eols ?P"] tx(6,7) T' by simp
  have P: "xs = [] \<Longrightarrow> ?P = []" by simp
  show "line_offset T (line - 1) = ilen ?P + line_offset ?c (line - 1 - eols ?P)"
    using first line lo [of "line - 1"] P by (cases "xs = []"; cases "line - 1 \<le> 0") (auto simp: line_offset_def)
  show "line \<le> eols ?P + eols ?c \<and> 1 \<le> line \<longrightarrow> line_offset T line = ilen ?P + line_offset ?c (line - eols ?P)"
    using first lo [of line] P by (cases "xs = []") auto
  show "line = eols ?P + eols ?c + 1 \<longrightarrow> line_offset T line = ilen ?P + ilen ?c + line_offset ?R 1"
  proof (intro impI)
    assume "line = eols ?P + eols ?c + 1"
    then have "\<not> line \<le> eols ?P" "\<not> line - eols ?P \<le> eols ?c" "line - eols ?P - eols ?c = 1" using eols_nonneg [of ?c] by linarith+
    then show "line_offset T line = ilen ?P + ilen ?c + line_offset ?R 1" using lo [of line] by simp
  qed
qed

text \<open>The node in which a line starts.\<close>

lemma line_loop_ok:
  fixes here :: "node_ref \<Rightarrow> int \<Rightarrow> int \<Rightarrow> 'a option"
  assumes inv: "buffer_inv s ns cs" and ne: "ns \<noteq> []" and line: "line \<le> eols (concat cs) + 1"
  obtains xs a ys line' off' where "ns = xs @ a # ys" "line_loop (pt_tree s) here past (rb_root (pt_tree s)) line 0 = here a line' off'"
    "line' - n_lf_left (pt_tree s) a = line - eols (nodes_text s xs)" "off' + n_size_left (pt_tree s) a = ilen (nodes_text s xs)"
    "line - 1 \<le> eols (nodes_text s xs) + eols (node_text s a)" "xs = [] \<or> eols (nodes_text s xs) < line - 1"
proof -
  let ?t = "pt_tree s"
  have o: "rb_order ?t ns" using inv by (auto simp: buffer_inv_def pieces_ok_def)
  have cs: "cs = map (node_text s) ns" "texts_ok s ns" by (rule buffer_texts [OF inv])+
  obtain tr where tr: "nodes tr = ns" "shape (n_parent ?t) (n_left ?t) (n_right ?t) SENTINEL (rb_root ?t) tr"
    "sums_ok (n_size_left ?t) (n_length ?t) tr" "sums_ok (n_lf_left ?t) (n_lineFeedCnt ?t) tr" using rb_order_shape [OF o] by blast
  have "tr \<noteq> Lf" "texts_ok s (nodes tr)" "line - 1 \<le> eols (nodes_text s (nodes tr))" using tr(1) ne cs line by auto
  then obtain xs a ys line' off' where w: "nodes tr = xs @ a # ys" "xs = [] \<or> eols (nodes_text s xs) < line - 1"
    "line - 1 \<le> eols (nodes_text s xs) + eols (node_text s a)" "line' - n_lf_left ?t a = line - eols (nodes_text s xs)"
    "off' + n_size_left ?t a = 0 + ilen (nodes_text s xs)" "line_loop ?t here past (rb_root ?t) line 0 = here a line' off'"
    using line_loop_shape [OF refl tr(2-4), of line 0 here past] by blast
  then show thesis using that [of xs a ys line' off'] tr(1) by simp
qed

lemma nodeAt2_ok:
  assumes inv: "buffer_inv s ns cs" and ne: "ns \<noteq> []" and line: "1 \<le> line" "line \<le> eols (concat cs) + 1" and col: "1 \<le> col"
    and off: "off = line_offset (concat cs) (line - 1) + col - 1" "line \<le> eols (concat cs) \<or> off \<le> ilen (concat cs)"
  shows "\<exists>pos. nodeAt2 line col s = Some (Some pos) \<and> node_at ns cs (min off (line_offset (concat cs) line)) pos"
proof -
  let ?t = "pt_tree s"
  have o: "rb_order ?t ns" using inv by (auto simp: buffer_inv_def pieces_ok_def)
  have cs: "cs = map (node_text s) ns" "texts_ok s ns" by (rule buffer_texts [OF inv])+
  obtain xs a ys line' off' where w0: "ns = xs @ a # ys"
    "line_loop ?t (nodeAt2_here s col) (do { nxt \<leftarrow> TreeNode_next ?t SENTINEL; nodeAt2_rest s nxt col }) (rb_root ?t) line 0 = nodeAt2_here s col a line' off'"
    "line' - n_lf_left ?t a = line - eols (nodes_text s xs)" "off' + n_size_left ?t a = ilen (nodes_text s xs)"
    "line - 1 \<le> eols (nodes_text s xs) + eols (node_text s a)" "xs = [] \<or> eols (nodes_text s xs) < line - 1"
    by (rule line_loop_ok [OF inv ne line(2), where here = "nodeAt2_here s col" and
      past = "do { nxt \<leftarrow> TreeNode_next ?t SENTINEL; nodeAt2_rest s nxt col }"])
  have "concat cs = nodes_text s (xs @ a # ys)" using cs(1) w0(1) by simp
  note w = w0(1-5) line_offsets_at [OF cs(2) [unfolded w0(1)] w0(6,5) this]
  let ?P = "nodes_text s xs" and ?c = "node_text s a" and ?R = "nodes_text s ys"
  note tx = texts_ok_node [OF cs(2) [unfolded w(1)]]
  have a: "TreeNode_next ?t a = Some (hd (ys @ [SENTINEL]))" "n_length ?t a = ilen ?c" "n_lineFeedCnt ?t a = eols ?c"
    using tree_succ [of ?t xs a ys] o w(1) texts_ok_single [OF tx(2)] by simp_all
  let ?k = "line - eols ?P"
  have acc: "getAccumulatedValue (pt_buffers s) (n_piece ?t a) (line' - n_lf_left ?t a - 2) = Some (line_offset ?c (?k - 1))"
    "getAccumulatedValue (pt_buffers s) (n_piece ?t a) (line' - n_lf_left ?t a - 1) = Some (line_offset ?c ?k)"
    using node_accumulated [OF tx(2), of "?k - 2"] node_accumulated [OF tx(2), of "?k - 1"] w(3) by simp_all
  let ?prev = "line_offset ?c (?k - 1)"
  have off': "off = ilen ?P + (?prev + col - 1)" using off(1) w(6) by (simp add: algebra_simps)
  have gt: "n_lf_left ?t a + n_lineFeedCnt ?t a > line' - 1 \<longleftrightarrow> line \<le> eols ?P + eols ?c" using w(3) a(3) by linarith
  note b = line_offset_bounds [of ?c "?k - 1"] line_offset_bounds [of ?c ?k]
  have T: "concat cs = ?P @ ?c @ ?R" using cs(1) w(1) by simp
  show ?thesis
  proof (cases "line \<le> eols ?P + eols ?c")
    case True
    let ?pos = "\<lparr>np_node = a, np_remainder = min (?prev + col - 1) (line_offset ?c ?k), np_nodeStartOffset = off' + n_size_left ?t a\<rparr>"
    have "nodeAt2 line col s = Some (Some ?pos)" unfolding nodeAt2_def w(2) using gt True acc by (simp add: nodeAt2_here_def Let_def)
    moreover have "node_at ns (map (node_text s) ns) (min off (line_offset (concat cs) line)) ?pos"
      by (rule node_atI [OF w(1), of "min (?prev + col - 1) (line_offset ?c ?k)"]) (use b col w(7) True line(1) off' in auto)
    ultimately show ?thesis using cs(1) by blast
  next
    case False
    then have e: "line = eols ?P + eols ?c + 1" using w(5) by simp
    have lo: "line_offset (concat cs) line = ilen ?P + ilen ?c + line_offset ?R 1" using w(8) e by blast
    show ?thesis
    proof (cases "?prev + col - 1 \<le> ilen ?c")
      case True
      let ?pos = "\<lparr>np_node = a, np_remainder = ?prev + col - 1, np_nodeStartOffset = off'\<rparr>"
      have "nodeAt2 line col s = Some (Some ?pos)" unfolding nodeAt2_def w(2) using gt False acc True a(2) by (simp add: nodeAt2_here_def Let_def)
      moreover have "node_at ns (map (node_text s) ns) (min off (line_offset (concat cs) line)) ?pos"
        by (rule node_atI [OF w(1), of "?prev + col - 1"]) (use b col True lo off' line_offset_bounds [of ?R 1] in auto)
      ultimately show ?thesis using cs(1) by blast
    next
      case far: False
      let ?d = "?prev + col - 1 - ilen ?c"
      have "eols (concat cs) = eols ?P + eols ?c + eols ?R" using tx(8) cs(1) w(1) by simp
      then have "0 < eols ?R \<or> ?d \<le> ilen ?R" using off(2) off' e T by auto
      moreover have "ns = (xs @ [a]) @ ys" "1 \<le> ?d" using w(1) far by simp_all
      ultimately obtain pos where pos: "nodeAt2_rest s (hd (ys @ [SENTINEL])) (?d + 1) = Some (Some pos)"
        "node_at ns (map (node_text s) ns) (ilen (nodes_text s (xs @ [a])) + min ?d (line_offset ?R 1)) pos"
        using nodeAt2_rest_ok [OF o cs(2)] by blast
      have "nodeAt2 line col s = Some (Some pos)" unfolding nodeAt2_def w(2) using gt False acc far a(1,2) pos(1)
        by (simp add: nodeAt2_here_def Let_def algebra_simps)
      moreover have "ilen (nodes_text s (xs @ [a])) + min ?d (line_offset ?R 1) = min off (line_offset (concat cs) line)"
        unfolding lo off' by simp
      ultimately show ?thesis using pos(2) cs(1) by auto
    qed
  qed
qed

section \<open>The text of a line\<close>

text \<open>The break at the end of line \<open>k\<close>, from 1, has at least \<open>e\<close> characters.\<close>

definition break_has :: "js_string \<Rightarrow> int \<Rightarrow> int \<Rightarrow> bool" where
  "break_has x k e \<longleftrightarrow> e = 0 \<or> e = 1 \<or> e = 2 \<and> splits_at x (line_offset x k - 1)"

lemma line_offset_break:
  assumes "1 \<le> k" "k \<le> eols x"
  shows "line_offset x k \<in> set (breaks 0 x)" "0 < line_offset x k" "line_offset x (k - 1) < line_offset x k"
proof -
  obtain j where j: "nat k = Suc j" using assms by (cases "nat k") auto
  then have "j < length (breaks 0 x)" using assms length_breaks [of 0 x] by linarith
  then show b: "line_offset x k \<in> set (breaks 0 x)" using assms j by (simp add: line_offset_def line_starts_def)
  then show pos: "0 < line_offset x k" using breaks_bounds by fastforce
  show "line_offset x (k - 1) < line_offset x k"
  proof (cases "k = 1")
    case True
    then show ?thesis using pos by (simp add: line_offset_def)
  next
    case False
    then obtain i where i: "j = Suc i" "nat (k - 1) = Suc i" using j assms(1) by (cases j) auto
    have "breaks 0 x ! i < breaks 0 x ! Suc i" using sorted_wrt_nth_less [OF sorted_breaks, of i "Suc i"] i \<open>j < _\<close> by simp
    then show ?thesis using False assms i j by (simp add: line_offset_def line_starts_def)
  qed
qed

lemma break_room:
  assumes "1 \<le> k" "k \<le> eols x" "break_has x k e"
  shows "line_offset x (k - 1) \<le> line_offset x k - e"
proof (cases "e = 2 \<and> line_offset x (k - 1) = line_offset x k - 1")
  case True
  then have sp: "splits_at x (line_offset x (k - 1))" using assms(3) by (simp add: break_has_def)
  then have "line_offset x (k - 1) \<noteq> 0" by auto
  then have k: "1 \<le> k - 1" using assms(1) by (cases "k = 1") (auto simp: line_offset_def)
  have "line_offset x (k - 1) \<in> set (breaks 0 x)" using line_offset_break(1) [OF k] assms(2) by simp
  then have "ends_line (x ! nat (line_offset x (k - 1) - 0 - 1)) (idrop (line_offset x (k - 1) - 0) x)" unfolding in_breaks by blast
  then show ?thesis using sp by (auto simp: splits_at_iff ends_line_def CR_def LF_def idrop_def hd_drop_conv_nth)
next
  case False
  then show ?thesis using line_offset_break(3) [OF assms(1,2)] assms(3) by (auto simp: break_has_def)
qed

lemma break_has_append:
  assumes "\<not> splits_crlf x y" "break_has (x @ y) k e"
  shows "k \<le> eols x \<Longrightarrow> break_has x k e" "eols x < k \<Longrightarrow> k \<le> eols x + eols y \<Longrightarrow> break_has y (k - eols x) e"
proof -
  have lo: "line_offset (x @ y) k = (if k \<le> eols x then line_offset x k else ilen x + line_offset y (k - eols x))"
    by (rule line_offset_append [OF assms(1)])
  show "break_has x k e" if "k \<le> eols x"
    using assms(2) lo that line_offset_bounds [of x k] by (simp add: break_has_def splits_at_append)
  show "break_has y (k - eols x) e" if "eols x < k" "k \<le> eols x + eols y"
  proof -
    let ?m = "line_offset y (k - eols x) - 1"
    have "0 < line_offset y (k - eols x)" using line_offset_break(2) [of "k - eols x" y] that by simp
    moreover have "splits_at (x @ y) (ilen x + ?m) \<Longrightarrow> splits_at y ?m" if "0 \<le> ?m"
    proof (cases "?m = 0")
      case True
      then show "splits_at (x @ y) (ilen x + ?m) \<Longrightarrow> ?thesis" using assms(1) by (simp add: splits_at_def itake_append idrop_append)
    next
      case False
      then have "nat (ilen x + ?m) = length x + nat ?m" "nat (ilen x + ?m - 1) = length x + nat (?m - 1)" using that by arith+
      then show "splits_at (x @ y) (ilen x + ?m) \<Longrightarrow> ?thesis" using False that by (simp add: splits_at_iff nth_append)
    qed
    ultimately show ?thesis using assms(2) lo that(1) by (auto simp: break_has_def add_diff_eq)
  qed
qed

lemma line_rest_ok:
  assumes o: "rb_order (pt_tree s) ns" and ok: "texts_ok s ns"
  shows "ns = xs @ ys \<Longrightarrow> 0 < eols (nodes_text s ys) \<longrightarrow> break_has (nodes_text s ys) 1 e \<Longrightarrow>
    line_rest s e (hd (ys @ [SENTINEL])) ret = Some (ret @ (if 0 < eols (nodes_text s ys)
      then itake (line_offset (nodes_text s ys) 1 - e) (nodes_text s ys) else nodes_text s ys))"
proof (induction ys arbitrary: xs ret)
  case Nil
  then show ?case by (subst line_rest.simps) simp
next
  case (Cons y ys)
  let ?c = "node_text s y" and ?R = "nodes_text s ys" and ?t = "pt_tree s"
  note tx = texts_ok_node [OF ok [unfolded Cons.prems(1)]]
  have yo: "rb_order ?t (xs @ y # ys)" using o Cons.prems(1) by simp
  have y: "y \<noteq> SENTINEL" "TreeNode_next ?t y = Some (hd (ys @ [SENTINEL]))" "pc_lineFeedCnt (n_piece ?t y) = eols ?c"
    using tree_succ [OF yo] texts_ok_single [OF tx(2)] by (simp_all add: n_lineFeedCnt_def)
  have acc: "getAccumulatedValue (pt_buffers s) (n_piece ?t y) 0 = Some (line_offset ?c 1)" using node_accumulated [OF tx(2), of 0] by simp
  have "piece_holds (pt_buffers s) (n_piece ?t y) ?c" using tx(2) by (simp add: texts_ok_def)
  from piece_reads [OF this] obtain b st where g: "js_get (pt_buffers s) (pc_bufferIndex (n_piece ?t y)) = Some b"
    "offsetInBuffer (pt_buffers s) (pc_bufferIndex (n_piece ?t y)) (pc_start (n_piece ?t y)) = Some st"
    "\<And>r q. 0 \<le> r \<Longrightarrow> r \<le> q \<Longrightarrow> q \<le> ilen ?c \<Longrightarrow> js_substring (sb_buffer b) (st + r) (st + q) = substr ?c r q"
    "pc_length (n_piece ?t y) = ilen ?c" by metis
  have lo: "line_offset (?c @ ?R) 1 = (if 1 \<le> eols ?c then line_offset ?c 1 else ilen ?c + line_offset ?R (1 - eols ?c))"
    by (rule line_offset_append [OF tx(6)])
  have e: "eols (?c @ ?R) = eols ?c + eols ?R" using tx(6) by (simp add: eols_append)
  show ?case
  proof (cases "0 < eols ?c")
    case True
    have "break_has (?c @ ?R) 1 e" using Cons.prems(2) True e eols_nonneg [of ?R] by simp
    then have "break_has ?c 1 e" using break_has_append(1) [OF tx(6)] True by simp
    then have "0 \<le> line_offset ?c 1 - e" using break_room [of 1 ?c e] True by (simp add: line_offset_def)
    moreover have "0 \<le> e" using \<open>break_has ?c 1 e\<close> by (auto simp: break_has_def)
    ultimately have "js_substring (sb_buffer b) st (st + line_offset ?c 1 - e) = itake (line_offset ?c 1 - e) ?c"
      "line_offset ?c 1 - e \<le> ilen ?c"
      using g(3) [of 0 "line_offset ?c 1 - e"] line_offset_bounds [of ?c 1] by (simp_all add: algebra_simps)
    moreover have "0 < eols (?c @ ?R)" using True e eols_nonneg [of ?R] by linarith
    ultimately show ?thesis using True lo y acc g(1,2) by (subst line_rest.simps) (simp add: Let_def itake_append)
  next
    case False
    then have e0: "eols ?c = 0" using eols_nonneg [of ?c] by linarith
    have "0 < eols ?R \<longrightarrow> break_has ?R 1 e" using Cons.prems(2) e e0 break_has_append(2) [OF tx(6), of 1 e] by simp
    moreover have "ns = (xs @ [y]) @ ys" using Cons.prems(1) by simp
    ultimately have IH: "line_rest s e (hd (ys @ [SENTINEL])) (ret @ ?c) = Some ((ret @ ?c) @ (if 0 < eols ?R then itake (line_offset ?R 1 - e) ?R else ?R))"
      using Cons.IH by blast
    have "js_substring (sb_buffer b) st (st + ilen ?c) = ?c" using g(3) [of 0 "ilen ?c"] by simp
    then have step: "line_rest s e y ret = Some ((ret @ ?c) @ (if 0 < eols ?R then itake (line_offset ?R 1 - e) ?R else ?R))"
      using IH e0 y g(1,2,4) by (subst line_rest.simps) (simp add: Let_def)
    have "0 \<le> line_offset ?R 1 - e" if "0 < eols ?R" using \<open>0 < eols ?R \<longrightarrow> _\<close> that break_room [of 1 ?R e] by (simp add: line_offset_def)
    then have "?c @ (if 0 < eols ?R then itake (line_offset ?R 1 - e) ?R else ?R) =
      (if 0 < eols (?c @ ?R) then itake (line_offset (?c @ ?R) 1 - e) (?c @ ?R) else ?c @ ?R)"
      using e e0 lo by (simp add: itake_append)
    then show ?thesis using step by simp
  qed
qed

text \<open>Where the text of a line stops, without \<open>e\<close> characters of its break.\<close>

definition line_stop :: "js_string \<Rightarrow> int \<Rightarrow> int \<Rightarrow> int" where
  "line_stop x line e = (if line \<le> eols x then line_offset x line - e else ilen x)"

definition raw_line :: "js_string \<Rightarrow> int \<Rightarrow> int \<Rightarrow> js_string" where
  "raw_line x line e = substr x (line_offset x (line - 1)) (line_stop x line e)"

lemma substr_shift: "0 \<le> a \<Longrightarrow> a \<le> e \<Longrightarrow> substr (x @ y) (ilen x + a) (ilen x + e) = substr y a e"
  by (simp add: substr_def idrop_append)

lemma line_text_at:
  assumes ok: "texts_ok s (xs @ a # ys)" and first: "xs = [] \<or> eols (nodes_text s xs) < line - 1" and one: "1 \<le> line"
    and line: "line - 1 \<le> eols (nodes_text s xs) + eols (node_text s a)" and T: "T = nodes_text s (xs @ a # ys)"
    and e: "line \<le> eols T \<longrightarrow> break_has T line e" and k: "k = line - eols (nodes_text s xs)"
  shows "line \<le> eols (nodes_text s xs) + eols (node_text s a) \<longrightarrow> 0 \<le> line_offset (node_text s a) (k - 1) \<and>
      line_offset (node_text s a) (k - 1) \<le> line_offset (node_text s a) k - e \<and> line_offset (node_text s a) k - e \<le> ilen (node_text s a) \<and>
      substr (node_text s a) (line_offset (node_text s a) (k - 1)) (line_offset (node_text s a) k - e) = raw_line T line e"
    "line = eols (nodes_text s xs) + eols (node_text s a) + 1 \<longrightarrow> (0 < eols (nodes_text s ys) \<longrightarrow> break_has (nodes_text s ys) 1 e) \<and>
      idrop (line_offset (node_text s a) (k - 1)) (node_text s a) @
        (if 0 < eols (nodes_text s ys) then itake (line_offset (nodes_text s ys) 1 - e) (nodes_text s ys) else nodes_text s ys) = raw_line T line e"
proof -
  let ?P = "nodes_text s xs" and ?c = "node_text s a" and ?R = "nodes_text s ys"
  note tx = texts_ok_node [OF ok]
  note lo = line_offsets_at [OF ok first line T]
  have T': "T = ?P @ ?c @ ?R" using T by simp
  have eT: "eols T = eols ?P + eols ?c + eols ?R" using tx(8) T by simp
  have k1: "1 \<le> k" using first one unfolding k by auto
  have e0: "line \<le> eols T \<Longrightarrow> 0 \<le> e" using e by (auto simp: break_has_def)
  have cR: "eols (?c @ ?R) = eols ?c + eols ?R" using tx(6) by (simp add: eols_append)
  have bh: "line \<le> eols T \<Longrightarrow> break_has (?c @ ?R) k e"
    using break_has_append(2) [OF tx(7), of line e] e k1 eT cR unfolding T' k by simp
  note b = line_offset_bounds [of ?c "k - 1"] line_offset_bounds [of ?c k]
  have kk: "line - 1 - eols ?P = k - 1" using k by simp
  show "line \<le> eols ?P + eols ?c \<longrightarrow> 0 \<le> line_offset ?c (k - 1) \<and>
      line_offset ?c (k - 1) \<le> line_offset ?c k - e \<and> line_offset ?c k - e \<le> ilen ?c \<and>
      substr ?c (line_offset ?c (k - 1)) (line_offset ?c k - e) = raw_line T line e"
  proof (intro impI)
    assume l: "line \<le> eols ?P + eols ?c"
    then have lT: "line \<le> eols T" using eT eols_nonneg [of ?R] by linarith
    have "break_has ?c k e" using break_has_append(1) [OF tx(6) bh [OF lT]] l k by simp
    then have r: "line_offset ?c (k - 1) \<le> line_offset ?c k - e" using break_room [OF k1] l k by simp
    have "line_offset T line = ilen ?P + line_offset ?c k" using lo(2) l one k by simp
    moreover have "line_offset T (line - 1) = ilen ?P + line_offset ?c (k - 1)" using lo(1) kk by simp
    ultimately have "raw_line T line e = substr (?P @ ?c @ ?R) (ilen ?P + line_offset ?c (k - 1)) (ilen ?P + (line_offset ?c k - e))"
      using lT T' by (simp add: raw_line_def line_stop_def add_diff_eq)
    also have "\<dots> = substr ?c (line_offset ?c (k - 1)) (line_offset ?c k - e)"
      using b r e0 [OF lT] by (subst substr_shift) (simp_all add: substr_append)
    finally show "0 \<le> line_offset ?c (k - 1) \<and> line_offset ?c (k - 1) \<le> line_offset ?c k - e \<and> line_offset ?c k - e \<le> ilen ?c \<and>
      substr ?c (line_offset ?c (k - 1)) (line_offset ?c k - e) = raw_line T line e" using b r e0 [OF lT] by simp
  qed
  show "line = eols ?P + eols ?c + 1 \<longrightarrow> (0 < eols ?R \<longrightarrow> break_has ?R 1 e) \<and>
      idrop (line_offset ?c (k - 1)) ?c @ (if 0 < eols ?R then itake (line_offset ?R 1 - e) ?R else ?R) = raw_line T line e"
  proof (intro impI)
    assume l: "line = eols ?P + eols ?c + 1"
    have br: "0 < eols ?R \<longrightarrow> break_has ?R 1 e" using break_has_append(2) [OF tx(6), of k e] bh l k eT by simp
    have lp: "line_offset T (line - 1) = ilen ?P + line_offset ?c (k - 1)" using lo(1) kk by simp
    have "idrop (line_offset ?c (k - 1)) ?c @ (if 0 < eols ?R then itake (line_offset ?R 1 - e) ?R else ?R) = raw_line T line e"
    proof (cases "0 < eols ?R")
      case True
      then have lT: "line \<le> eols T" using eT l by simp
      have r: "0 \<le> line_offset ?R 1 - e" using break_room [of 1 ?R e] br True by (simp add: line_offset_def)
      have "line_offset T line = ilen ?P + ilen ?c + line_offset ?R 1" using lo(3) l by simp
      then have "raw_line T line e = substr (?P @ ?c @ ?R) (ilen ?P + line_offset ?c (k - 1)) (ilen ?P + (ilen ?c + (line_offset ?R 1 - e)))"
        using lT T' lp by (simp add: raw_line_def line_stop_def algebra_simps)
      also have "\<dots> = substr (?c @ ?R) (line_offset ?c (k - 1)) (ilen ?c + (line_offset ?R 1 - e))"
        using b r by (subst substr_shift) simp_all
      also have "\<dots> = idrop (line_offset ?c (k - 1)) ?c @ itake (line_offset ?R 1 - e) ?R"
        using b r by (simp add: substr_def idrop_append itake_append)
      finally show ?thesis using True by simp
    next
      case False
      then have "\<not> line \<le> eols T" using eT l by simp
      then have "raw_line T line e = idrop (ilen ?P + line_offset ?c (k - 1)) (?P @ ?c @ ?R)" using lp T' by (simp add: raw_line_def line_stop_def)
      also have "\<dots> = idrop (line_offset ?c (k - 1)) ?c @ ?R" using b by (simp add: idrop_append)
      finally show ?thesis using False by simp
    qed
    with br show "(0 < eols ?R \<longrightarrow> break_has ?R 1 e) \<and>
      idrop (line_offset ?c (k - 1)) ?c @ (if 0 < eols ?R then itake (line_offset ?R 1 - e) ?R else ?R) = raw_line T line e" by blast
  qed
qed

lemma cache_line_ok:
  assumes inv: "buffer_inv s ns cs" and ns: "ns = xs @ a # ys"
    and e: "e = \<lparr>ce_node = a, ce_nodeStartOffset = sum_list (map (n_length (pt_tree s)) xs),
      ce_nodeStartLineNumber = Some (1 + sum_list (map (n_lineFeedCnt (pt_tree s)) xs))\<rparr>"
  shows "buffer_inv (s\<lparr>pt_searchCache := SearchCache_set e (pt_searchCache s)\<rparr>) ns cs"
proof -
  have ok: "pieces_ok s ns cs" using inv by (simp add: buffer_inv_def)
  have lim: "sc_limit (pt_searchCache s) = 1" "length (sc_cache (pt_searchCache s)) \<le> 1" using inv by (auto simp: buffer_inv_def cache_ok_def)
  have C: "sc_cache (SearchCache_set e (pt_searchCache s)) = [e]" "sc_limit (SearchCache_set e (pt_searchCache s)) = 1"
    using lim by (cases "sc_cache (pt_searchCache s)"; simp add: SearchCache_set_def)+
  have "\<not> rb_gone (pt_tree s) a" using pieces_ok_nodes(3) [OF ok] ns by simp
  then show ?thesis using inv C ns e by (auto simp: buffer_inv_def cache_ok_def entry_ok_def)
qed

lemma get2_ok:
  assumes inv: "buffer_inv s ns cs" and g: "SearchCache_get2 (pt_tree s) (pt_searchCache s) line = Some (e, l)"
  obtains xs ys where "ns = xs @ ce_node e # ys" "l = 1 + eols (nodes_text s xs)" "l < line"
    "line \<le> l + eols (node_text s (ce_node e))"
proof -
  from g obtain e': "find (\<lambda>e. case ce_nodeStartLineNumber e of None \<Rightarrow> False
      | Some l \<Rightarrow> l \<noteq> 0 \<and> l < line \<and> l + n_lineFeedCnt (pt_tree s) (ce_node e) \<ge> line) (rev (sc_cache (pt_searchCache s))) = Some e"
    and l: "ce_nodeStartLineNumber e = Some l" by (auto simp: SearchCache_get2_def split: option.splits)
  have e: "e \<in> set (sc_cache (pt_searchCache s))" "l < line" "l + n_lineFeedCnt (pt_tree s) (ce_node e) \<ge> line"
    using find_in [OF e'] l by auto
  obtain xs ys where x: "ns = xs @ ce_node e # ys" "l = 1 + sum_list (map (n_lineFeedCnt (pt_tree s)) xs)"
    using inv e(1) l by (auto simp: buffer_inv_def cache_ok_def entry_ok_def list_all_iff)
  have ok: "texts_ok s (xs @ ce_node e # ys)" using buffer_texts(2) [OF inv] x(1) by simp
  note tx = texts_ok_node [OF ok]
  show thesis using that [OF x(1)] x(2) e(2,3) texts_ok_sums [OF tx(1)] texts_ok_single [OF tx(2)] by simp
qed

lemma node_range:
  assumes "texts_ok s [a]"
  obtains b st where "js_get (pt_buffers s) (pc_bufferIndex (n_piece (pt_tree s) a)) = Some b"
    "offsetInBuffer (pt_buffers s) (pc_bufferIndex (n_piece (pt_tree s) a)) (pc_start (n_piece (pt_tree s) a)) = Some st"
    "\<And>r q. 0 \<le> r \<Longrightarrow> r \<le> q \<Longrightarrow> q \<le> ilen (node_text s a) \<Longrightarrow> js_substring (sb_buffer b) (st + r) (st + q) = substr (node_text s a) r q"
    "pc_length (n_piece (pt_tree s) a) = ilen (node_text s a)" "pc_lineFeedCnt (n_piece (pt_tree s) a) = eols (node_text s a)"
proof -
  have "piece_holds (pt_buffers s) (n_piece (pt_tree s) a) (node_text s a)" using assms by (simp add: texts_ok_def)
  from piece_reads [OF this] obtain b st where "js_get (pt_buffers s) (pc_bufferIndex (n_piece (pt_tree s) a)) = Some b"
    "offsetInBuffer (pt_buffers s) (pc_bufferIndex (n_piece (pt_tree s) a)) (pc_start (n_piece (pt_tree s) a)) = Some st"
    "\<And>r q. 0 \<le> r \<Longrightarrow> r \<le> q \<Longrightarrow> q \<le> ilen (node_text s a) \<Longrightarrow> js_substring (sb_buffer b) (st + r) (st + q) = substr (node_text s a) r q"
    "pc_length (n_piece (pt_tree s) a) = ilen (node_text s a)" by metis
  then show thesis using that texts_ok_single [OF assms] by (simp add: n_lineFeedCnt_def)
qed

lemma getLineRawContent_ok:
  assumes inv: "buffer_inv s ns cs" and ne: "ns \<noteq> []" and line: "1 \<le> line" "line \<le> eols (concat cs) + 1"
    and e: "line \<le> eols (concat cs) \<longrightarrow> break_has (concat cs) line e"
  shows "\<exists>C. getLineRawContent line e s = Some (raw_line (concat cs) line e, s\<lparr>pt_searchCache := C\<rparr>) \<and> buffer_inv (s\<lparr>pt_searchCache := C\<rparr>) ns cs"
proof -
  let ?t = "pt_tree s" let ?T = "concat cs"
  have o: "rb_order ?t ns" using inv by (auto simp: buffer_inv_def pieces_ok_def)
  have cs: "cs = map (node_text s) ns" "texts_ok s ns" by (rule buffer_texts [OF inv])+
  have self: "s\<lparr>pt_searchCache := pt_searchCache s\<rparr> = s" by simp
  show ?thesis
  proof (cases "SearchCache_get2 ?t (pt_searchCache s) line")
    case (Some el)
    obtain en l where el: "el = (en, l)" by (cases el)
    obtain xs ys where x: "ns = xs @ ce_node en # ys" "l = 1 + eols (nodes_text s xs)" "l < line" "line \<le> l + eols (node_text s (ce_node en))"
      using get2_ok [OF inv Some [unfolded el]] by blast
    let ?a = "ce_node en" let ?P = "nodes_text s xs" and ?c = "node_text s ?a" and ?R = "nodes_text s ys"
    have ok: "texts_ok s (xs @ ?a # ys)" using cs(2) x(1) by simp
    note tx = texts_ok_node [OF ok]
    have first: "xs = [] \<or> eols ?P < line - 1" and l1: "line - 1 \<le> eols ?P + eols ?c" using x(2-4) by simp_all
    have T: "?T = nodes_text s (xs @ ?a # ys)" using cs(1) x(1) by simp
    note at = line_text_at [OF ok first line(1) l1 T e refl]
    obtain b st where g: "js_get (pt_buffers s) (pc_bufferIndex (n_piece ?t ?a)) = Some b"
      "offsetInBuffer (pt_buffers s) (pc_bufferIndex (n_piece ?t ?a)) (pc_start (n_piece ?t ?a)) = Some st"
      "\<And>r q. 0 \<le> r \<Longrightarrow> r \<le> q \<Longrightarrow> q \<le> ilen ?c \<Longrightarrow> js_substring (sb_buffer b) (st + r) (st + q) = substr ?c r q"
      "pc_length (n_piece ?t ?a) = ilen ?c" "pc_lineFeedCnt (n_piece ?t ?a) = eols ?c" using node_range [OF tx(2)] by metis
    let ?k = "line - eols ?P"
    have acc: "getAccumulatedValue (pt_buffers s) (n_piece ?t ?a) (line - l - 1) = Some (line_offset ?c (?k - 1))"
      "getAccumulatedValue (pt_buffers s) (n_piece ?t ?a) (line - l) = Some (line_offset ?c ?k)"
      using node_accumulated [OF tx(2), of "line - l - 1"] node_accumulated [OF tx(2), of "line - l"] x(2) by (simp_all add: algebra_simps)
    have "getLineRawContent line e s = Some (raw_line ?T line e, s)"
    proof (cases "line = eols ?P + eols ?c + 1")
      case True
      have nx: "TreeNode_next ?t ?a = Some (hd (ys @ [SENTINEL]))" using tree_succ [of ?t xs ?a ys] o x(1) by simp
      have br: "0 < eols ?R \<longrightarrow> break_has ?R 1 e" using at(2) True by blast
      have "ns = (xs @ [?a]) @ ys" using x(1) by simp
      note rest = line_rest_ok [OF o cs(2) this br]
      have "js_substring (sb_buffer b) (st + line_offset ?c (?k - 1)) (st + ilen ?c) = idrop (line_offset ?c (?k - 1)) ?c"
        using g(3) [of "line_offset ?c (?k - 1)" "ilen ?c"] line_offset_bounds [of ?c "?k - 1"] by simp
      moreover have "l + eols ?c = line" using True x(2) by simp
      moreover have "idrop (line_offset ?c (?k - 1)) ?c @ (if 0 < eols ?R then itake (line_offset ?R 1 - e) ?R else ?R) = raw_line ?T line e"
        using at(2) True by blast
      ultimately show ?thesis using Some el acc(1) g(1,2,4,5) nx rest by (simp add: getLineRawContent_def Let_def)
    next
      case False
      then have "line \<le> eols ?P + eols ?c" using l1 by simp
      moreover have "l + eols ?c \<noteq> line" using False x(2) by simp
      ultimately show ?thesis using Some el acc g(1,2,5) g(3) [of "line_offset ?c (?k - 1)" "line_offset ?c ?k - e"] at(1)
        by (simp add: getLineRawContent_def Let_def add_diff_eq)
    qed
    then show ?thesis using inv by (intro exI [of _ "pt_searchCache s"]) simp
  next
    case None
    let ?past = "do { nxt \<leftarrow> TreeNode_next ?t SENTINEL; ret \<leftarrow> line_rest s e nxt []; Some (ret, s) }"
    obtain xs a ys line' off' where w: "ns = xs @ a # ys"
      "line_loop ?t (line_here s line e) ?past (rb_root ?t) line 0 = line_here s line e a line' off'"
      "line' - n_lf_left ?t a = line - eols (nodes_text s xs)" "off' + n_size_left ?t a = ilen (nodes_text s xs)"
      "line - 1 \<le> eols (nodes_text s xs) + eols (node_text s a)" "xs = [] \<or> eols (nodes_text s xs) < line - 1"
      by (rule line_loop_ok [OF inv ne line(2), where here = "line_here s line e" and past = ?past])
    let ?P = "nodes_text s xs" and ?c = "node_text s a" and ?R = "nodes_text s ys"
    have ok: "texts_ok s (xs @ a # ys)" using cs(2) w(1) by simp
    note tx = texts_ok_node [OF ok]
    have T: "?T = nodes_text s (xs @ a # ys)" using cs(1) w(1) by simp
    note at = line_text_at [OF ok w(6) line(1) w(5) T e refl]
    obtain b st where g: "js_get (pt_buffers s) (pc_bufferIndex (n_piece ?t a)) = Some b"
      "offsetInBuffer (pt_buffers s) (pc_bufferIndex (n_piece ?t a)) (pc_start (n_piece ?t a)) = Some st"
      "\<And>r q. 0 \<le> r \<Longrightarrow> r \<le> q \<Longrightarrow> q \<le> ilen ?c \<Longrightarrow> js_substring (sb_buffer b) (st + r) (st + q) = substr ?c r q"
      "pc_length (n_piece ?t a) = ilen ?c" "pc_lineFeedCnt (n_piece ?t a) = eols ?c" using node_range [OF tx(2)] by metis
    let ?k = "line - eols ?P"
    have acc: "getAccumulatedValue (pt_buffers s) (n_piece ?t a) (line' - n_lf_left ?t a - 2) = Some (line_offset ?c (?k - 1))"
      "getAccumulatedValue (pt_buffers s) (n_piece ?t a) (line' - n_lf_left ?t a - 1) = Some (line_offset ?c ?k)"
      using node_accumulated [OF tx(2), of "?k - 2"] node_accumulated [OF tx(2), of "?k - 1"] w(3) by simp_all
    have gt: "n_lf_left ?t a + n_lineFeedCnt ?t a > line' - 1 \<longleftrightarrow> line \<le> eols ?P + eols ?c"
      using w(3) texts_ok_single [OF tx(2)] by simp linarith
    have run: "getLineRawContent line e s = line_here s line e a line' off'" using None w(2) by (simp add: getLineRawContent_def Let_def)
    show ?thesis
    proof (cases "line \<le> eols ?P + eols ?c")
      case True
      let ?e = "\<lparr>ce_node = a, ce_nodeStartOffset = off' + n_size_left ?t a, ce_nodeStartLineNumber = Some (line - (line' - 1 - n_lf_left ?t a))\<rparr>"
      have "line - (line' - 1 - n_lf_left ?t a) = 1 + eols ?P" using w(3) by simp
      then have "buffer_inv (s\<lparr>pt_searchCache := SearchCache_set ?e (pt_searchCache s)\<rparr>) ns cs"
        using texts_ok_sums [OF tx(1)] w(4) by (intro cache_line_ok [OF inv w(1)]) simp
      moreover have "line_here s line e a line' off' = Some (raw_line ?T line e, s\<lparr>pt_searchCache := SearchCache_set ?e (pt_searchCache s)\<rparr>)"
        using True gt acc g(1,2) g(3) [of "line_offset ?c (?k - 1)" "line_offset ?c ?k - e"] at(1) by (simp add: line_here_def Let_def add_diff_eq)
      ultimately show ?thesis using run by (intro exI [of _ "SearchCache_set ?e (pt_searchCache s)"]) simp
    next
      case False
      then have eq: "line = eols ?P + eols ?c + 1" using w(5) by simp
      have nx: "TreeNode_next ?t a = Some (hd (ys @ [SENTINEL]))" using tree_succ [of ?t xs a ys] o w(1) by simp
      have br: "0 < eols ?R \<longrightarrow> break_has ?R 1 e" using at(2) eq by blast
      have "ns = (xs @ [a]) @ ys" using w(1) by simp
      note rest = line_rest_ok [OF o cs(2) this br]
      have "js_substring (sb_buffer b) (st + line_offset ?c (?k - 1)) (st + ilen ?c) = idrop (line_offset ?c (?k - 1)) ?c"
        using g(3) [of "line_offset ?c (?k - 1)" "ilen ?c"] line_offset_bounds [of ?c "?k - 1"] by simp
      moreover have "idrop (line_offset ?c (?k - 1)) ?c @ (if 0 < eols ?R then itake (line_offset ?R 1 - e) ?R else ?R) = raw_line ?T line e"
        using at(2) eq by blast
      ultimately have "line_here s line e a line' off' = Some (raw_line ?T line e, s)"
        using False gt acc(1) g(1,2,4) nx rest by (simp add: line_here_def Let_def)
      then show ?thesis using run inv by (intro exI [of _ "pt_searchCache s"]) simp
    qed
  qed
qed

section \<open>The lines of a text\<close>

lemma line_offset_one: "line_offset x 1 = (if eols x = 0 then ilen x else hd (breaks 0 x))"
  using length_breaks [of 0 x] eols_nonneg [of x] by (cases "breaks 0 x") (auto simp: line_offset_def line_starts_def)

lemma line_offset_one_Cons:
  assumes "x \<noteq> []"
  shows "line_offset (c # x) 1 = (if ends_line c x then 1 else 1 + line_offset x 1)"
proof -
  have "breaks 1 x = map (\<lambda>l. l + 1) (breaks 0 x)" using breaks_shift [of 0 1 x] by simp
  moreover have "eols x = 0 \<longleftrightarrow> breaks 0 x = []" using length_breaks [of 0 x] by auto
  moreover have "1 + eols x \<noteq> 0" using eols_nonneg [of x] by linarith
  ultimately show ?thesis by (auto simp: line_offset_one hd_map)
qed

lemma itake_past_Cons: "0 \<le> n \<Longrightarrow> itake (1 + n) (c # x) = c # itake n x"
  by (simp add: itake_def nat_add_distrib)

lemma idrop_past_Cons: "0 \<le> n \<Longrightarrow> idrop (1 + n) (c # x) = idrop n x"
  by (simp add: idrop_def nat_add_distrib)

lemma stripEOL_Cons: "c \<noteq> CR \<Longrightarrow> c \<noteq> LF \<Longrightarrow> stripEOL (c # x) = c # stripEOL x"
  by (cases x rule: rev_cases) (auto simp: stripEOL_def butlast_append)

lemma splitLines_no_breaks: "eols x = 0 \<Longrightarrow> splitLines x = [x]"
proof (induction x rule: splitLines.induct)
  case (3 c d s)
  have h: "(if ends_line c (d # s) then 1 else 0) + eols (d # s) = 0" using 3(4) by (simp only: eols.simps)
  have ne: "\<not> ends_line c (d # s)"
  proof
    assume "ends_line c (d # s)"
    then have "1 + eols (d # s) = 0" using h by (simp only: if_True)
    then show False using eols_nonneg [of "d # s"] by linarith
  qed
  then have "eols (d # s) = 0" using h by (simp only: if_False add_0)
  note this ne
  moreover have "1 + eols s \<noteq> 0" using eols_nonneg [of s] by linarith
  moreover have "ends_line LF s" by (simp add: ends_line_def)
  ultimately show ?case using 3 by (auto simp: ends_line_def split: if_splits)
qed (auto simp: ends_line_def split: if_splits)

text \<open>The first line of a text with line breaks.\<close>

lemma splitLines_first:
  "0 < eols x \<Longrightarrow> splitLines x = stripEOL (itake (line_offset x 1) x) # splitLines (idrop (line_offset x 1) x) \<and>
    eols (itake (line_offset x 1) x) = 1 \<and> \<not> splits_crlf (itake (line_offset x 1) x) (idrop (line_offset x 1) x)"
proof (induction x rule: splitLines.induct)
  case (2 c)
  then have "line_offset [c] 1 = 1" "c = CR \<or> c = LF" by (auto simp: line_offset_one ends_line_def split: if_splits)
  then show ?case by (auto simp: itake_def idrop_def stripEOL_def ends_line_def CR_def LF_def)
next
  case (3 c d s)
  have lo: "line_offset (c # d # s) 1 = (if ends_line c (d # s) then 1 else 1 + line_offset (d # s) 1)" by (simp add: line_offset_one_Cons)
  consider (crlf) "c = CR" "d = LF" | (break) "c = CR \<and> d \<noteq> LF \<or> c = LF" | (plain) "c \<noteq> CR" "c \<noteq> LF" by blast
  then show ?case
  proof cases
    case crlf
    have "line_offset (LF # s) 1 = 1" by (cases "s = []") (simp_all add: line_offset_one_Cons line_offset_one [of "[LF]"] ends_line_def)
    then have "line_offset (c # d # s) 1 = 2" using lo crlf by (simp add: ends_line_def CR_def LF_def)
    moreover have "itake 2 (c # d # s) = [c, d]" "idrop 2 (c # d # s) = s" by (simp_all add: itake_def idrop_def eval_nat_numeral)
    ultimately show ?thesis using crlf by (simp add: stripEOL_def ends_line_def splits_crlf_def CR_def LF_def)
  next
    case break
    then have "ends_line c (d # s)" by (auto simp: ends_line_def)
    then have "line_offset (c # d # s) 1 = 1" using lo by simp
    then show ?thesis using break by (auto simp: itake_def idrop_def stripEOL_def ends_line_def splits_crlf_def CR_def LF_def)
  next
    case plain
    then have ne: "\<not> ends_line c (d # s)" by (simp add: ends_line_def)
    then have e: "0 < eols (d # s)" using "3.prems" by simp
    have l: "line_offset (c # d # s) 1 = 1 + line_offset (d # s) 1" "0 \<le> line_offset (d # s) 1"
      using lo ne line_offset_bounds [of "d # s" 1] by simp_all
    have IH: "splitLines (d # s) = stripEOL (itake (line_offset (d # s) 1) (d # s)) # splitLines (idrop (line_offset (d # s) 1) (d # s))"
      "eols (itake (line_offset (d # s) 1) (d # s)) = 1"
      "\<not> splits_crlf (itake (line_offset (d # s) 1) (d # s)) (idrop (line_offset (d # s) 1) (d # s))"
      using "3.IH"(2,3) plain e by blast+
    have "splitLines (c # d # s) = (c # stripEOL (itake (line_offset (d # s) 1) (d # s))) # splitLines (idrop (line_offset (d # s) 1) (d # s))"
      using plain IH(1) by simp
    moreover have "itake (line_offset (d # s) 1) (d # s) \<noteq> []" using IH(2) by auto
    ultimately show ?thesis using IH(2,3) plain l by (simp add: itake_past_Cons idrop_past_Cons stripEOL_Cons ends_line_def)
  qed
qed simp

lemma splitLines_nth:
  "int k \<le> eols x \<Longrightarrow> k < length (splitLines x) \<and> splitLines x ! k = stripEOL (raw_line x (int k + 1) 0)"
proof (induction k arbitrary: x)
  case 0
  show ?case
  proof (cases "eols x = 0")
    case True
    have "stripEOL x = x"
    proof (rule ccontr)
      assume "stripEOL x \<noteq> x"
      then have "x \<noteq> []" "last x = CR \<or> last x = LF" by (auto simp: stripEOL_def split: if_splits)
      then show False using eols_pos [OF last_in_set, of x] True by auto
    qed
    then show ?thesis using splitLines_no_breaks [OF True] True by (simp add: raw_line_def line_stop_def line_offset_def)
  next
    case False
    then have "0 < eols x" using eols_nonneg [of x] by linarith
    from splitLines_first [OF this] this show ?thesis by (simp add: raw_line_def line_stop_def line_offset_def [of x 0])
  qed
next
  case (Suc k)
  let ?F = "itake (line_offset x 1) x" and ?B = "idrop (line_offset x 1) x"
  have pos: "0 < eols x" using Suc.prems by linarith
  note f = splitLines_first [OF pos]
  have x: "?F @ ?B = x" by simp
  have eB: "eols x = 1 + eols ?B" using f eols_append [of ?F ?B] by simp
  have lF: "line_offset ?F 1 = ilen ?F" using f line_offset_bounds [of x 1] line_offset_append [of ?F ?B 1] by simp
  have lo: "line_offset x (int j + 1) = ilen ?F + line_offset ?B (int j)" for j
    using line_offset_append [of ?F ?B "int j + 1"] f lF by (cases "j = 0") (simp_all add: line_offset_def [of _ 0])
  have IH: "k < length (splitLines ?B) \<and> splitLines ?B ! k = stripEOL (raw_line ?B (int k + 1) 0)" using Suc eB by simp
  have "raw_line x (int (Suc k) + 1) 0 = substr (?F @ ?B) (ilen ?F + line_offset ?B (int k)) (ilen ?F + line_stop ?B (int k + 1) 0)"
    using lo [of k] lo [of "Suc k"] eB by (simp add: raw_line_def line_stop_def add.commute del: ilen_itake ilen_idrop) simp
  also have "\<dots> = raw_line ?B (int k + 1) 0"
  proof -
    have "line_offset ?B (int k) \<le> line_stop ?B (int k + 1) 0"
      using line_offset_break(3) [of "int k + 1" ?B] line_offset_bounds [of ?B "int k"] by (auto simp: line_stop_def)
    then show ?thesis using line_offset_bounds(1) [of ?B "int k"] by (simp only: raw_line_def substr_shift add_diff_cancel_right')
  qed
  finally show ?case using f IH by simp
qed

text \<open>The last line has no break at its end.\<close>

lemma stripEOL_last: "stripEOL (raw_line x (eols x + 1) 0) = raw_line x (eols x + 1) 0"
proof (rule ccontr)
  let ?r = "raw_line x (eols x + 1) 0"
  assume "stripEOL ?r \<noteq> ?r"
  then have r: "?r \<noteq> []" "last ?r = CR \<or> last ?r = LF" by (auto simp: stripEOL_def split: if_splits)
  have s: "?r = idrop (line_offset x (eols x)) x" by (simp add: raw_line_def line_stop_def)
  then have "last ?r = last x" "x \<noteq> []" using r(1) by (auto simp: idrop_def)
  then have "ends_line (x ! nat (ilen x - 0 - 1)) (idrop (ilen x - 0) x)" using r(2) last_conv_nth [of x] by (auto simp: ends_line_def nat_diff_distrib')
  then have "ilen x \<in> set (breaks 0 x)" unfolding in_breaks using \<open>x \<noteq> []\<close> by simp
  then have "line_starts x ! nat (eols x) = ilen x" using line_start_iff [of "ilen x" x] by simp
  then have "line_offset x (eols x) = ilen x" using eols_nonneg [of x] \<open>ilen x \<in> set (breaks 0 x)\<close> length_breaks [of 0 x]
    by (cases "eols x = 0") (auto simp: line_offset_def)
  then show False using s r(1) by simp
qed

section \<open>One kind of line break\<close>

text \<open>Every line but the last is its content and \<open>eol\<close>.\<close>

definition only_eol :: "js_string \<Rightarrow> js_string \<Rightarrow> bool" where
  "only_eol eol x \<longleftrightarrow> list_all (\<lambda>k. raw_line x k 0 = stripEOL (raw_line x k 0) @ eol) [1..eols x]"

lemma only_eol_line:
  assumes "only_eol eol x" "eol = [LF] \<or> eol = [CR, LF]" "1 \<le> k" "k \<le> eols x"
  shows "break_has x k (ilen eol)" "raw_line x k (ilen eol) = stripEOL (raw_line x k 0)"
proof -
  let ?a = "line_offset x (k - 1)" and ?b = "line_offset x k" and ?s = "stripEOL (raw_line x k 0)"
  have r: "substr x ?a ?b = ?s @ eol" using assms by (simp add: only_eol_def list_all_iff raw_line_def line_stop_def)
  have ab: "0 \<le> ?a" "?a \<le> ?b" "?b \<le> ilen x" using line_offset_bounds line_offset_break(3) [OF assms(3,4)] by (simp_all add: less_imp_le)
  have len: "?b - ?a = ilen ?s + ilen eol" using ilen_substr [OF ab] r by simp
  have nth: "x ! nat (?a + ilen ?s + i) = eol ! nat i" if "0 \<le> i" "i < ilen eol" for i
  proof -
    have "substr x ?a ?b ! nat (ilen ?s + i) = x ! nat (?a + (ilen ?s + i))" using substr_nth [of ?a "ilen ?s + i" ?b x] ab that len by simp
    then show ?thesis using r that by (simp add: nth_append nat_add_distrib add.assoc)
  qed
  show "break_has x k (ilen eol)"
  proof (cases "eol = [LF]")
    case False
    then have e: "eol = [CR, LF]" using assms(2) by simp
    then have "x ! nat (?b - 1 - 1) = CR" "x ! nat (?b - 1) = LF" using nth [of 0] nth [of 1] len by (simp_all add: algebra_simps)
    then show ?thesis using e len ab by (simp add: break_has_def splits_at_iff)
  qed (simp add: break_has_def)
  have "?b - ilen eol - ?a = ilen ?s" using len by simp
  moreover have "raw_line x k (ilen eol) = itake (?b - ilen eol - ?a) (idrop ?a x)" using assms(4) by (simp only: raw_line_def line_stop_def substr_def if_True)
  ultimately have "raw_line x k (ilen eol) = itake (ilen ?s) (idrop ?a x)" by (simp only:)
  also have "\<dots> = itake (ilen ?s) (substr x ?a ?b)" using len by (simp add: substr_def itake_itake min_def)
  finally show "raw_line x k (ilen eol) = ?s" using r by (simp add: itake_append)
qed

lemma only_eol_no_cr:
  assumes "no_cr x"
  shows "only_eol [LF] x"
  unfolding only_eol_def list_all_iff
proof
  fix k assume "k \<in> set [1..eols x]"
  then have k: "1 \<le> k" "k \<le> eols x" by simp_all
  let ?a = "line_offset x (k - 1)" and ?b = "line_offset x k"
  have ab: "0 \<le> ?a" "?a < ?b" "?b \<le> ilen x" using line_offset_bounds line_offset_break(3) [OF k] by simp_all
  have r: "raw_line x k 0 = substr x ?a ?b" using k by (simp add: raw_line_def line_stop_def)
  have "ends_line (x ! nat (?b - 0 - 1)) (idrop (?b - 0) x)" using line_offset_break(1) [OF k] unfolding in_breaks by blast
  moreover have "x ! nat (?b - 1) \<in> set x" using ab by (intro nth_mem) linarith
  ultimately have lf: "x ! nat (?b - 1) = LF" using assms by (auto simp: ends_line_def no_cr_def)
  have l: "ilen (raw_line x k 0) = ?b - ?a" using ilen_substr [of ?a ?b x] ab r by simp
  have "raw_line x k 0 ! nat (?b - ?a - 1) = x ! nat (?b - 1)" using substr_nth [of ?a "?b - ?a - 1" ?b x] ab r by simp
  moreover have ne: "raw_line x k 0 \<noteq> []" using l ab by auto
  moreover have "nat (?b - ?a - 1) = length (raw_line x k 0) - 1" using l by simp
  ultimately have last: "last (raw_line x k 0) = LF" using lf by (simp add: last_conv_nth)
  have "set (raw_line x k 0) \<subseteq> set x" unfolding r substr_def itake_def idrop_def by (meson order_trans set_drop_subset set_take_subset)
  then have "CR \<notin> set (butlast (raw_line x k 0))" using assms by (auto simp: no_cr_def dest: in_set_butlastD)
  then have "stripEOL (raw_line x k 0) = butlast (raw_line x k 0)" using ne last last_in_set by (fastforce simp: stripEOL_def)
  then show "raw_line x k 0 = stripEOL (raw_line x k 0) @ [LF]" using append_butlast_last_id [OF ne] last by simp
qed

section \<open>The content of a line\<close>

definition line_content :: "js_string \<Rightarrow> int \<Rightarrow> js_string" where
  "line_content x line = splitLines x ! nat (line - 1)"

lemma line_content_raw:
  assumes "1 \<le> line" "line \<le> eols x + 1"
  shows "line_content x line = stripEOL (raw_line x line 0)"
  using splitLines_nth [of "nat (line - 1)" x] assms by (simp add: line_content_def)

text \<open>The line that was read last, if there is one with its number, is the one of the text.\<close>

definition last_line_ok :: "piece_tree \<Rightarrow> js_string \<Rightarrow> bool" where
  "last_line_ok s x \<longleftrightarrow> (let line = fst (pt_lastVisitedLine s) in
     1 \<le> line \<and> line \<le> eols x + 1 \<longrightarrow> snd (pt_lastVisitedLine s) = line_content x line)"

text \<open>Reading lines without the end of line of the buffer needs this.\<close>

definition eol_ok :: "piece_tree \<Rightarrow> js_string \<Rightarrow> bool" where
  "eol_ok s x \<longleftrightarrow> pt_EOLNormalized s \<longrightarrow> (pt_EOL s = [LF] \<or> pt_EOL s = [CR, LF]) \<and> only_eol (pt_EOL s) x"

lemma buffer_inv_visited: "buffer_inv (s\<lparr>pt_lastVisitedLine := v\<rparr>) ns cs = buffer_inv s ns cs"
proof -
  have "entry_ok (s\<lparr>pt_lastVisitedLine := v\<rparr>) ns = entry_ok s ns" by (rule ext) (simp add: entry_ok_def)
  then show ?thesis by (simp add: buffer_inv_def pieces_ok_def buffers_state_def shouldCheckCRLF_def cache_ok_def)
qed

lemma getLineRawContent_empty:
  assumes inv: "buffer_inv s [] cs" and nx: "TreeNode_next (pt_tree s) SENTINEL = Some SENTINEL"
  shows "getLineRawContent line e s = Some ([], s)"
proof -
  have "rb_root (pt_tree s) = SENTINEL" using inv rb_order_root [of "pt_tree s" "[]"] by (simp add: buffer_inv_def pieces_ok_def)
  moreover have "SearchCache_get2 (pt_tree s) (pt_searchCache s) line = None"
  proof (cases "SearchCache_get2 (pt_tree s) (pt_searchCache s) line")
    case (Some el)
    then show ?thesis using get2_ok [OF inv, of line "fst el" "snd el"] by auto
  qed
  ultimately show ?thesis using nx by (simp add: getLineRawContent_def line_loop.simps line_rest.simps Let_def)
qed

lemma getLineRawContent_line:
  assumes inv: "buffer_inv s ns cs" and line: "1 \<le> line" "line \<le> eols (concat cs) + 1"
    and e: "line \<le> eols (concat cs) \<longrightarrow> break_has (concat cs) line e"
    and nx: "concat cs = [] \<longrightarrow> TreeNode_next (pt_tree s) SENTINEL = Some SENTINEL"
  shows "\<exists>C. getLineRawContent line e s = Some (raw_line (concat cs) line e, s\<lparr>pt_searchCache := C\<rparr>) \<and> buffer_inv (s\<lparr>pt_searchCache := C\<rparr>) ns cs"
proof (cases "ns = []")
  case True
  then have "cs = []" using inv pieces_ok_nodes(4) by (fastforce simp: buffer_inv_def)
  moreover have "raw_line [] line e = []" by (simp add: raw_line_def substr_def)
  ultimately show ?thesis using getLineRawContent_empty [of s cs line e] inv nx True by (intro exI [of _ "pt_searchCache s"]) simp
next
  case False
  show ?thesis by (rule getLineRawContent_ok [OF inv False line e])
qed

lemma PieceTree_getLineContent_ok:
  assumes h: "has_text s x" and lv: "last_line_ok s x" and eol: "eol_ok s x" and line: "1 \<le> line" "line \<le> eols x + 1"
    and nx: "x = [] \<longrightarrow> TreeNode_next (pt_tree s) SENTINEL = Some SENTINEL"
  shows "\<exists>s'. PieceTree_getLineContent line s = Some (line_content x line, s') \<and> has_text s' x \<and> last_line_ok s' x \<and>
    pt_tree s' = pt_tree s \<and> pt_buffers s' = pt_buffers s \<and> pt_EOL s' = pt_EOL s \<and> pt_EOLNormalized s' = pt_EOLNormalized s"
proof (cases "fst (pt_lastVisitedLine s) = line")
  case True
  then show ?thesis using h lv line by (intro exI [of _ s]) (simp add: PieceTree_getLineContent_def last_line_ok_def Let_def)
next
  case False
  obtain ns cs where inv: "buffer_inv s ns cs" and x: "x = concat cs" using h by (auto simp: has_text_def)
  let ?s = "s\<lparr>pt_lastVisitedLine := (line, snd (pt_lastVisitedLine s))\<rparr>"
  have inv1: "buffer_inv ?s ns cs" using inv by (simp add: buffer_inv_visited)
  have cnt: "pt_lineCnt s = eols x + 1" "pt_EOLLength s = ilen (pt_EOL s)" using inv x by (simp_all add: buffer_inv_def)
  let ?e = "if line \<noteq> eols x + 1 \<and> pt_EOLNormalized s then ilen (pt_EOL s) else 0"
  have br: "line \<le> eols (concat cs) \<longrightarrow> break_has (concat cs) line ?e"
    using only_eol_line(1) [of "pt_EOL s" x line] eol line x by (auto simp: eol_ok_def break_has_def)
  have l: "line \<le> eols (concat cs) + 1" using line(2) x by simp
  have nx1: "concat cs = [] \<longrightarrow> TreeNode_next (pt_tree ?s) SENTINEL = Some SENTINEL" using nx x by simp
  obtain C where C: "getLineRawContent line ?e ?s = Some (raw_line x line ?e, ?s\<lparr>pt_searchCache := C\<rparr>)" "buffer_inv (?s\<lparr>pt_searchCache := C\<rparr>) ns cs"
    using getLineRawContent_line [OF inv1 line(1) l br nx1] unfolding x by blast
  let ?s' = "?s\<lparr>pt_searchCache := C, pt_lastVisitedLine := (line, line_content x line)\<rparr>"
  have content: "line_content x line = stripEOL (raw_line x line 0)" by (rule line_content_raw [OF line])
  have "PieceTree_getLineContent line s = Some (line_content x line, ?s')"
  proof (cases "line = eols x + 1")
    case True
    then have "line_content x line = raw_line x line 0" using content stripEOL_last [of x] by simp
    then show ?thesis using False True C(1) cnt by (simp add: PieceTree_getLineContent_def Let_def)
  next
    case other: False
    show ?thesis
    proof (cases "pt_EOLNormalized s")
      case True
      then have "line_content x line = raw_line x line ?e" using content only_eol_line(2) [of "pt_EOL s" x line] eol line other by (simp add: eol_ok_def)
      then show ?thesis using False True other C(1) cnt by (simp add: PieceTree_getLineContent_def Let_def)
    next
      case nn: False
      then show ?thesis using False other C(1) cnt content by (simp add: PieceTree_getLineContent_def Let_def)
    qed
  qed
  moreover have "has_text ?s' x" using C(2) x buffer_inv_visited [where s = "?s\<lparr>pt_searchCache := C\<rparr>" and v = "(line, line_content x line)"] unfolding has_text_def by blast
  ultimately show ?thesis by (intro exI [of _ ?s']) (simp add: last_line_ok_def)
qed

section \<open>The text between two positions\<close>

definition offset_of :: "js_string \<Rightarrow> int \<Rightarrow> int \<Rightarrow> int" where
  "offset_of x line col = line_offset x (line - 1) + (col - 1)"

text \<open>A line of the text and a column up to the start of the next line, or the end of the text.\<close>

definition position_in :: "js_string \<Rightarrow> int \<Rightarrow> int \<Rightarrow> bool" where
  "position_in x line col \<longleftrightarrow> 1 \<le> line \<and> line \<le> eols x + 1 \<and> 1 \<le> col \<and> offset_of x line col \<le> line_offset x line"

lemma nodeAt2_in:
  assumes inv: "buffer_inv s ns cs" and ne: "ns \<noteq> []" and p: "position_in (concat cs) line col"
  obtains pos where "nodeAt2 line col s = Some (Some pos)" "node_at ns cs (offset_of (concat cs) line col) pos"
proof -
  let ?o = "offset_of (concat cs) line col"
  have o: "?o = line_offset (concat cs) (line - 1) + col - 1" by (simp add: offset_of_def)
  have le: "?o \<le> line_offset (concat cs) line" using p by (simp add: position_in_def)
  then have "line \<le> eols (concat cs) \<or> ?o \<le> ilen (concat cs)" using line_offset_bounds(2) [of "concat cs" line] by linarith
  then show thesis using nodeAt2_ok [OF inv ne _ _ _ o] p that le by (auto simp: position_in_def min_def)
qed

definition with_eol :: "piece_tree \<Rightarrow> js_string option \<Rightarrow> js_string \<Rightarrow> js_string" where
  "with_eol s eol v = (case eol of None \<Rightarrow> v
     | Some eol \<Rightarrow> if eol = [] \<or> eol = pt_EOL s \<and> pt_EOLNormalized s then v else replaceEOL eol v)"

lemma getValueInRange_ok:
  assumes h: "has_text s x" and p: "position_in x l1 c1" "position_in x l2 c2"
    and o: "l1 = l2 \<and> c1 = c2 \<or> offset_of x l1 c1 < offset_of x l2 c2"
  shows "PieceTree_getValueInRange (MkRange l1 c1 l2 c2) eol s = Some (with_eol s eol (substr x (offset_of x l1 c1) (offset_of x l2 c2)))"
proof (cases "l1 = l2 \<and> c1 = c2")
  case True
  then show ?thesis by (simp add: PieceTree_getValueInRange_def with_eol_def split: option.split)
next
  case False
  then have lt: "offset_of x l1 c1 < offset_of x l2 c2" using o by blast
  obtain ns cs where inv: "buffer_inv s ns cs" and x: "x = concat cs" using h by (auto simp: has_text_def)
  have "0 \<le> offset_of x l1 c1" "offset_of x l2 c2 \<le> line_offset x l2"
    using p line_offset_bounds [of x "l1 - 1"] by (simp_all add: position_in_def offset_of_def)
  then have "0 < ilen x" using lt line_offset_bounds(2) [of x l2] by linarith
  then have "cs \<noteq> []" using x by auto
  moreover have "length cs = length ns" using inv pieces_ok_nodes(4) by (auto simp: buffer_inv_def)
  ultimately have ne: "ns \<noteq> []" by auto
  obtain p1 where p1: "nodeAt2 l1 c1 s = Some (Some p1)" "node_at ns cs (offset_of x l1 c1) p1"
    using nodeAt2_in [OF inv ne] p(1) unfolding x by blast
  obtain p2 where p2: "nodeAt2 l2 c2 s = Some (Some p2)" "node_at ns cs (offset_of x l2 c2) p2"
    using nodeAt2_in [OF inv ne] p(2) unfolding x by blast
  have "pieces_ok s ns cs" using inv by (simp add: buffer_inv_def)
  from getValueInRange2_ok [OF this p1(2) p2(2) lt] show ?thesis using False p1(1) p2(1) x
    by (auto simp: PieceTree_getValueInRange_def with_eol_def split: option.split)
qed

lemma raw_line_length:
  assumes "1 \<le> line" "line \<le> eols x + 1"
  shows "ilen (raw_line x line 0) = line_stop x line 0 - line_offset x (line - 1)"
  using assms line_offset_bounds [of x "line - 1"] line_offset_bounds [of x line] line_offset_break(3) [of line x]
  unfolding raw_line_def by (intro ilen_substr) (auto simp: line_stop_def)

text \<open>The length that is computed, whatever breaks the text has: that of the line with its break, less the end of line.\<close>

lemma getLineLength_raw:
  assumes h: "has_text s x" and line: "1 \<le> line" "line \<le> eols x + 1"
  shows "PieceTree_getLineLength line s =
    Some (if line = eols x + 1 then ilen (line_content x line) else ilen (raw_line x line 0) - ilen (pt_EOL s))"
proof -
  obtain ns cs where inv: "buffer_inv s ns cs" and x: "x = concat cs" using h by (auto simp: has_text_def)
  have cnt: "pt_lineCnt s = eols x + 1" "pt_EOLLength s = ilen (pt_EOL s)" "pt_length s = ilen x" using inv x by (simp_all add: buffer_inv_def)
  have empty: "x = []" if "ns = []"
  proof -
    have "length cs = length ns" using inv pieces_ok_nodes(4) by (auto simp: buffer_inv_def)
    then show ?thesis using that x by simp
  qed
  have off: "getOffsetAt k 1 s = Some (line_offset x (k - 1))" if "k \<le> eols x + 1" for k
  proof (cases "ns = []")
    case True
    then have "line_offset x (k - 1) = 0" using empty that by (auto simp: line_offset_def)
    then show ?thesis using getOffsetAt_ok [OF inv, of k 1] True empty x by simp
  next
    case False
    then show ?thesis using getOffsetAt_ok [OF inv, of k 1] that x by simp
  qed
  note len = raw_line_length [OF line] and content = line_content_raw [OF line]
  show ?thesis
  proof (cases "line = eols x + 1")
    case True
    then show ?thesis using off [of line] cnt len content stripEOL_last [of x] by (simp add: PieceTree_getLineLength_def line_stop_def)
  next
    case False
    then show ?thesis using off [of line] off [of "line + 1"] line cnt len by (simp add: PieceTree_getLineLength_def line_stop_def)
  qed
qed

lemma getLineLength_ok:
  assumes h: "has_text s x" and eol: "eol_ok s x" and line: "1 \<le> line" "line \<le> eols x + 1" and n: "pt_EOLNormalized s \<or> line = eols x + 1"
  shows "PieceTree_getLineLength line s = Some (ilen (line_content x line))"
proof (cases "line = eols x + 1")
  case False
  then have l: "line \<le> eols x" "pt_EOLNormalized s" using line n by auto
  have "only_eol (pt_EOL s) x" using eol l(2) by (simp add: eol_ok_def)
  then have "raw_line x line 0 = line_content x line @ pt_EOL s" using l(1) line(1) line_content_raw [OF line] by (simp add: only_eol_def list_all_iff)
  then show ?thesis using getLineLength_raw [OF h line] False by simp
qed (use getLineLength_raw [OF h line] in simp)

lemma only_cache:
  assumes "last_line_ok s x" "s' = s\<lparr>pt_searchCache := C\<rparr>"
  shows "last_line_ok s' x"
  using assms by (simp add: last_line_ok_def)

lemma reset_line: "pt_lastVisitedLine s = (0, []) \<Longrightarrow> last_line_ok s x"
  by (simp add: last_line_ok_def)

lemma created_line: "PieceTree_create chunks eol en t0 = Some s \<Longrightarrow> pt_lastVisitedLine s = (0, [])"
  by (auto simp: PieceTree_create_def computeBufferMetadata_def split: bind_splits)

section \<open>Characters of a line\<close>

lemma stripEOL_prefix: "\<exists>b. x = stripEOL x @ b"
proof -
  have b: "\<exists>b. z = butlast z @ b" for z :: js_string by (cases z rule: rev_cases) auto
  then have "\<exists>b. x = butlast (butlast x) @ b" by (metis append.assoc)
  then show ?thesis using b [of x] by (auto simp: stripEOL_def)
qed

lemma line_content_char:
  assumes "1 \<le> line" "line \<le> eols x + 1" "0 \<le> i" "i < ilen (line_content x line)"
  shows "line_content x line ! nat i = x ! nat (line_offset x (line - 1) + i)" "line_offset x (line - 1) + i < line_stop x line 0"
proof -
  obtain b where b: "raw_line x line 0 = line_content x line @ b" using stripEOL_prefix line_content_raw [OF assms(1,2)] by metis
  then have l: "i < line_stop x line 0 - line_offset x (line - 1)" using raw_line_length [OF assms(1,2)] assms(4) by simp
  then show "line_offset x (line - 1) + i < line_stop x line 0" by simp
  have "line_stop x line 0 \<le> ilen x" using line_offset_bounds [of x line] by (simp add: line_stop_def)
  then have "raw_line x line 0 ! nat i = x ! nat (line_offset x (line - 1) + i)"
    unfolding raw_line_def using line_offset_bounds(1) assms(3) l by (intro substr_nth) simp_all
  then show "line_content x line ! nat i = x ! nat (line_offset x (line - 1) + i)" using b assms(3,4) by (simp add: nth_append nat_less_iff)
qed

lemma getLineCharCode_ok:
  assumes h: "has_text s x" and line: "1 \<le> line" "line \<le> eols x + 1" and i: "0 \<le> i" "i < ilen (line_content x line)"
  shows "PieceTree_getLineCharCode line i s = Some (Some (line_content x line ! nat i))"
proof -
  obtain ns cs where inv: "buffer_inv s ns cs" and x: "x = concat cs" using h by (auto simp: has_text_def)
  let ?o = "offset_of x line (i + 1)"
  note ch = line_content_char [OF line i]
  have o: "?o = line_offset x (line - 1) + i" "0 \<le> ?o" using line_offset_bounds [of x "line - 1"] i by (simp_all add: offset_of_def)
  have stop: "line_stop x line 0 \<le> line_offset x line" "line_stop x line 0 \<le> ilen x"
    using line line_offset_bounds [of x line] by (auto simp: line_stop_def line_offset_def)
  then have lt: "?o < ilen x" and p: "position_in x line (i + 1)" using ch(2) o line i by (simp_all add: position_in_def)
  have "cs \<noteq> []" using lt o(2) x by auto
  moreover have "length cs = length ns" using inv pieces_ok_nodes(4) by (auto simp: buffer_inv_def)
  ultimately have ne: "ns \<noteq> []" by auto
  obtain pos where pos: "nodeAt2 line (i + 1) s = Some (Some pos)" "node_at ns cs ?o pos"
    using nodeAt2_in [OF inv ne] p unfolding x by blast
  have "idrop ?o x = x ! nat ?o # drop (Suc (nat ?o)) x"
    unfolding idrop_def by (rule Cons_nth_drop_Suc [symmetric]) (use lt o(2) in linarith)
  moreover have "pieces_ok s ns cs" "[] \<notin> set cs" using inv by (auto simp: buffer_inv_def)
  ultimately have "PieceTree_getCharCode_at pos s = Some (Some (x ! nat ?o))" using getCharCode_at_ok [OF _ _ pos(2)] x by simp
  then show ?thesis using pos(1) ch(1) o(1) by (simp add: PieceTree_getLineCharCode_def)
qed

lemma length_splitLines: "int (length (splitLines x)) = eols x + 1"
proof (induction "nat (eols x)" arbitrary: x)
  case 0
  then have "eols x = 0" using eols_nonneg [of x] by linarith
  then show ?case using splitLines_no_breaks by simp
next
  case (Suc n)
  then have pos: "0 < eols x" by linarith
  let ?F = "itake (line_offset x 1) x" and ?B = "idrop (line_offset x 1) x"
  note f = splitLines_first [OF pos]
  have e: "eols x = 1 + eols ?B" using f eols_append [of ?F ?B] by simp
  then have "n = nat (eols ?B)" using Suc.hyps(2) by linarith
  from Suc.hyps(1) [OF this] f e show ?case by simp
qed

section \<open>Properties\<close>

text \<open>
  C19. The value in a range is the text between the offsets of its two positions, whatever pieces the
  positions lie in, for every pair of positions of the text (a column may go up to the start of the
  next line), and with an end of line given, the same text with every line break replaced by it,
  unless the buffer is normalized to it already.
\<close>

theorem piece_tree_range_text:
  assumes "has_text s x" "position_in x l1 c1" "position_in x l2 c2"
    and "l1 = l2 \<and> c1 = c2 \<or> offset_of x l1 c1 < offset_of x l2 c2"
  shows "PieceTree_getValueInRange (MkRange l1 c1 l2 c2) eol s =
    Some (with_eol s eol (substr x (offset_of x l1 c1) (offset_of x l2 c2)))"
  by (rule getValueInRange_ok [OF assms])

theorem piece_tree_range_text_witness:
  "\<exists>s. PieceTree_create [crlf_chunk] [CR, LF] False no_nodes = Some s \<and>
    PieceTree_getValueInRange (MkRange 1 2 2 2) (Some [LF]) s = Some [LF, 98]"
proof -
  obtain s where s: "PieceTree_create [crlf_chunk] [CR, LF] False no_nodes = Some s" "has_text s [97, CR, LF, 98]" "pt_EOL s = [CR, LF]"
    using crlf_tree [of 0] by blast
  have "position_in [97, CR, LF, 98] 1 2" "position_in [97, CR, LF, 98] 2 2"
    "1 = (2 :: int) \<and> 2 = (2 :: int) \<or> offset_of [97, CR, LF, 98] 1 2 < offset_of [97, CR, LF, 98] 2 2" by code_simp+
  from piece_tree_range_text [OF s(2) this, of "Some [LF]"]
  have "PieceTree_getValueInRange (MkRange 1 2 2 2) (Some [LF]) s =
    Some (with_eol s (Some [LF]) (substr [97, CR, LF, 98] (offset_of [97, CR, LF, 98] 1 2) (offset_of [97, CR, LF, 98] 2 2)))" .
  moreover have "substr [97, CR, LF, 98] (offset_of [97, CR, LF, 98] 1 2) (offset_of [97, CR, LF, 98] 2 2) = [CR, LF, 98]" by code_simp
  moreover have "with_eol s (Some [LF]) [CR, LF, 98] = [LF, 98]" using s(3) by (simp add: with_eol_def CR_def LF_def)
  ultimately show ?thesis using s(1) by metis
qed



end
