(* ===== verification/PieceTreeContents.thy ===== *)
theory PieceTreeContents
  imports PieceTreeLines
begin

text \<open>
  The content of a \<open>PieceTreeBase\<close> as an array of lines
  (\<open>getLinesContent\<close> in \<open>vs/editor/common/model/pieceTreeTextBuffer/pieceTreeBase.ts\<close>), which is
  collected piece by piece, and the states that all operations on the buffer reach.
\<close>

section \<open>All lines\<close>

text \<open>The variables of the method. A store behind the end of an array would leave a hole; that is \<open>None\<close>.\<close>

record lines_state =
  lc_lines :: "js_string list"
  lc_linesLength :: int
  lc_currentLine :: js_string
  lc_danglingCR :: bool

definition js_store :: "'a list \<Rightarrow> int \<Rightarrow> 'a \<Rightarrow> 'a list option" where
  "js_store xs i v = (if 0 \<le> i \<and> i < ilen xs then Some (xs[nat i := v]) else if i = ilen xs then Some (xs @ [v]) else None)"

text \<open>\<open>lines[linesLength++] = currentLine\<close>\<close>

definition push_line :: "lines_state \<Rightarrow> lines_state option" where
  "push_line st = do {
     lines \<leftarrow> js_store (lc_lines st) (lc_linesLength st) (lc_currentLine st);
     Some (st\<lparr>lc_lines := lines, lc_linesLength := lc_linesLength st + 1\<rparr>)
   }"

function middle_lines :: "piece_tree \<Rightarrow> string_buffer \<Rightarrow> int \<Rightarrow> int \<Rightarrow> lines_state \<Rightarrow> lines_state option" where
  "middle_lines s b line pieceEndLine st =
     (if line < pieceEndLine then do {
        l \<leftarrow> js_get (sb_lineStarts b) line;
        l1 \<leftarrow> js_get (sb_lineStarts b) (line + 1);
        st \<leftarrow> push_line (st\<lparr>lc_currentLine :=
          (if pt_EOLNormalized s then js_substring (sb_buffer b) l (l1 - pt_EOLLength s)
           else stripEOL (js_substring (sb_buffer b) l l1))\<rparr>);
        middle_lines s b (line + 1) pieceEndLine st
      } else Some st)"
  by pat_completeness auto

termination
  by (relation "measure (\<lambda>(s, b, line, pieceEndLine, st). nat (pieceEndLine - line))") auto

declare middle_lines.simps [simp del]

text \<open>A piece with line breaks, and any piece once a \<open>\r\<close> before it is dealt with.\<close>

definition piece_with_lines :: "piece_tree \<Rightarrow> piece \<Rightarrow> string_buffer \<Rightarrow> int \<Rightarrow> lines_state \<Rightarrow> lines_state option" where
  "piece_with_lines s p b pieceStartOffset st = do {
     let pieceStartLine = bc_line (pc_start p);
     let pieceEndLine = bc_line (pc_end p);
     l1 \<leftarrow> js_get (sb_lineStarts b) (pieceStartLine + 1);
     let st = st\<lparr>lc_currentLine := lc_currentLine st @
       (if pt_EOLNormalized s then js_substring (sb_buffer b) pieceStartOffset (max pieceStartOffset (l1 - pt_EOLLength s))
        else stripEOL (js_substring (sb_buffer b) pieceStartOffset l1))\<rparr>;
     st \<leftarrow> push_line st;
     st \<leftarrow> middle_lines s b (pieceStartLine + 1) pieceEndLine st;
     l \<leftarrow> js_get (sb_lineStarts b) pieceEndLine;
     (if \<not> pt_EOLNormalized s \<and> js_get (sb_buffer b) (l + bc_column (pc_end p) - 1) = Some CR then
        let st = st\<lparr>lc_danglingCR := True\<rparr> in
        (if bc_column (pc_end p) = 0 then Some (st\<lparr>lc_linesLength := lc_linesLength st - 1\<rparr>)
         else Some (st\<lparr>lc_currentLine := js_substring (sb_buffer b) l (l + (bc_column (pc_end p) - 1))\<rparr>))
      else Some (st\<lparr>lc_currentLine := js_substring (sb_buffer b) l (l + bc_column (pc_end p))\<rparr>))
   }"

definition piece_lines_here :: "piece_tree \<Rightarrow> piece \<Rightarrow> string_buffer \<Rightarrow> int \<Rightarrow> int \<Rightarrow> lines_state \<Rightarrow> lines_state option" where
  "piece_lines_here s p b pieceStartOffset pieceLength st =
     (if bc_line (pc_start p) = bc_line (pc_end p) then
        if \<not> pt_EOLNormalized s \<and> js_get (sb_buffer b) (pieceStartOffset + pieceLength - 1) = Some CR then
          Some (st\<lparr>lc_danglingCR := True, lc_currentLine := lc_currentLine st @
            js_substring (sb_buffer b) pieceStartOffset (pieceStartOffset + (pieceLength - 1))\<rparr>)
        else Some (st\<lparr>lc_currentLine := lc_currentLine st @ js_substring (sb_buffer b) pieceStartOffset (pieceStartOffset + pieceLength)\<rparr>)
      else piece_with_lines s p b pieceStartOffset st)"

definition linesContent_step :: "piece_tree \<Rightarrow> node_ref \<Rightarrow> lines_state \<Rightarrow> (bool \<times> lines_state) option" where
  "linesContent_step s node st =
     (if node = SENTINEL then Some (True, st)
      else do {
        let p = n_piece (pt_tree s) node;
        (if pc_length p = 0 then Some (True, st)
         else do {
           b \<leftarrow> js_get (pt_buffers s) (pc_bufferIndex p);
           l \<leftarrow> js_get (sb_lineStarts b) (bc_line (pc_start p));
           let pieceStartOffset = l + bc_column (pc_start p);
           (if lc_danglingCR st then do {
              let lf = (js_get (sb_buffer b) pieceStartOffset = Some LF);
              let pieceStartOffset = (if lf then pieceStartOffset + 1 else pieceStartOffset);
              let pieceLength = (if lf then pc_length p - 1 else pc_length p);
              st \<leftarrow> push_line st;
              let st = st\<lparr>lc_currentLine := [], lc_danglingCR := False\<rparr>;
              (if pieceLength = 0 then Some (True, st)
               else do { st \<leftarrow> piece_lines_here s p b pieceStartOffset pieceLength st; Some (True, st) })
            } else do { st \<leftarrow> piece_lines_here s p b pieceStartOffset (pc_length p) st; Some (True, st) })
         })
      })"

definition getLinesContent :: "piece_tree \<Rightarrow> js_string list option" where
  "getLinesContent s = do {
     (_, st) \<leftarrow> iterate (pt_tree s) (linesContent_step s) (rb_root (pt_tree s))
       \<lparr>lc_lines = [], lc_linesLength = 0, lc_currentLine = [], lc_danglingCR = False\<rparr>;
     st \<leftarrow> (if lc_danglingCR st then do { st \<leftarrow> push_line st; Some (st\<lparr>lc_currentLine := []\<rparr>) } else Some st);
     st \<leftarrow> push_line st;
     Some (lc_lines st)
   }"

section \<open>One kind of line break, again\<close>

lemma break_index: "l \<in> set (breaks 0 x) \<Longrightarrow> \<exists>k. 1 \<le> k \<and> k \<le> eols x \<and> line_offset x k = l"
proof -
  assume "l \<in> set (breaks 0 x)"
  then obtain j where j: "j < length (breaks 0 x)" "breaks 0 x ! j = l" by (auto simp: in_set_conv_nth)
  then have "int j + 1 \<le> eols x" using length_breaks [of 0 x] by linarith
  then show ?thesis using j by (intro exI [of _ "int j + 1"]) (simp add: line_offset_def line_starts_def nat_add_distrib)
qed

lemma stripEOL_CRLF: "stripEOL (y @ [CR, LF]) = y"
  by (simp add: stripEOL_def butlast_append)

lemma only_eol_CRLF: "only_eol [CR, LF] x \<longleftrightarrow> (\<forall>k. 1 \<le> k \<and> k \<le> eols x \<longrightarrow> break_has x k 2)"
proof
  assume "only_eol [CR, LF] x"
  then show "\<forall>k. 1 \<le> k \<and> k \<le> eols x \<longrightarrow> break_has x k 2" using only_eol_line(1) [of "[CR, LF]" x] by simp
next
  assume h: "\<forall>k. 1 \<le> k \<and> k \<le> eols x \<longrightarrow> break_has x k 2"
  show "only_eol [CR, LF] x" unfolding only_eol_def list_all_iff
  proof
    fix k assume "k \<in> set [1..eols x]"
    then have k: "1 \<le> k" "k \<le> eols x" by simp_all
    let ?a = "line_offset x (k - 1)" and ?b = "line_offset x k"
    have br: "break_has x k 2" using h k by blast
    then have sp: "splits_at x (?b - 1)" by (simp add: break_has_def)
    have ab: "0 \<le> ?a" "?a \<le> ?b - 2" "?b \<le> ilen x" using line_offset_bounds break_room [OF k br] by simp_all
    then have l: "ilen (substr x (?b - 2) ?b) = 2" by (subst ilen_substr) simp_all
    have "substr x (?b - 2) ?b ! 0 = CR" "substr x (?b - 2) ?b ! 1 = LF"
      using substr_nth [of "?b - 2" 0 ?b x] substr_nth [of "?b - 2" 1 ?b x] ab sp by (simp_all add: splits_at_iff)
    then have "substr x (?b - 2) ?b = [CR, LF]" using l by (intro nth_equalityI) (auto simp: less_2_cases_iff)
    moreover have "substr x ?a (?b - 2) @ substr x (?b - 2) ?b = substr x ?a ?b" by (rule substr_split) (use ab in simp_all)
    ultimately have "raw_line x k 0 = substr x ?a (?b - 2) @ [CR, LF]" using k by (simp add: raw_line_def line_stop_def)
    then show "raw_line x k 0 = stripEOL (raw_line x k 0) @ [CR, LF]" by (simp add: stripEOL_CRLF)
  qed
qed

lemma only_eol_LF: "only_eol [LF] x \<longleftrightarrow> no_cr x"
proof
  assume h: "only_eol [LF] x"
  show "no_cr x"
  proof (rule ccontr)
    assume "\<not> no_cr x"
    then obtain j where j: "j < length x" "x ! j = CR" by (auto simp: no_cr_def in_set_conv_nth)
    let ?two = "Suc j < length x \<and> x ! Suc j = LF"
    define l where "l = (if ?two then int j + 2 else int j + 1)"
    then have lj: "l = int j + 1 \<or> l = int j + 2" "\<not> ?two \<Longrightarrow> l = int j + 1" "?two \<Longrightarrow> l = int j + 2" by auto
    have "l \<in> set (breaks 0 x)" using j unfolding l_def
      by (auto simp: in_breaks ends_line_def idrop_def hd_drop_conv_nth nat_add_distrib not_less)
    then obtain k where k: "1 \<le> k" "k \<le> eols x" "line_offset x k = l" using break_index by blast
    let ?a = "line_offset x (k - 1)"
    define s where "s = stripEOL (raw_line x k 0)"
    have a: "0 \<le> ?a" "?a < l" "l \<le> ilen x"
      using line_offset_bounds(1) [of x "k - 1"] line_offset_bounds(2) [of x k] line_offset_break(3) [OF k(1,2)] by (simp_all add: k(3))
    have r: "raw_line x k 0 = s @ [LF]" using h k by (simp add: only_eol_def list_all_iff s_def)
    have raw: "raw_line x k 0 = substr x ?a l" using k by (simp add: raw_line_def line_stop_def)
    have len: "ilen s + 1 = l - ?a" using ilen_substr [of ?a l x] a r raw by simp
    have nth: "raw_line x k 0 ! nat i = x ! nat (?a + i)" if "0 \<le> i" "i < l - ?a" for i
      using substr_nth [of ?a i l x] that a raw by simp
    have a_l: "?a + ilen s = l - 1" using len by simp
    have "x ! nat (?a + ilen s) = LF" using nth [of "ilen s"] len r by simp
    then have lst: "x ! nat (l - 1) = LF" by (simp only: a_l)
    then have two: "?two" using j lj(2) by (cases "?two") auto
    have "?a \<noteq> int j + 1"
    proof
      assume "?a = int j + 1"
      then have "1 \<le> k - 1" using a k(1) by (cases "k = 1") (auto simp: line_offset_def)
      then have "?a \<in> set (breaks 0 x)" using line_offset_break(1) [of "k - 1" x] k by simp
      then show False using \<open>?a = int j + 1\<close> two j by (auto simp: in_breaks ends_line_def idrop_def hd_drop_conv_nth nat_add_distrib)
    qed
    then have "?a \<le> int j" using a lj(3) two by auto
    then have "ilen s = int j - ?a + 1" "raw_line x k 0 ! nat (int j - ?a) = CR" using len two lj(3) nth [of "int j - ?a"] j by auto
    then have "nat (int j - ?a) = length s - 1" "s \<noteq> []" using \<open>?a \<le> int j\<close> by auto
    then have s: "s \<noteq> []" "last s = CR" using r \<open>raw_line x k 0 ! nat (int j - ?a) = CR\<close> by (simp_all add: nth_append last_conv_nth)
    have "stripEOL (s @ [LF]) = butlast s" using s by (simp add: stripEOL_def butlast_append)
    then have "length s = length s - 1" using r s_def by (metis length_butlast)
    then show False using s(1) by (cases s) auto
  qed
qed (rule only_eol_no_cr)

lemma only_eol_append:
  assumes "eol = [LF] \<or> eol = [CR, LF]" "\<not> splits_crlf x y" "only_eol eol (x @ y)"
  shows "only_eol eol x" "only_eol eol y"
proof -
  have "only_eol eol x \<and> only_eol eol y"
  proof (cases "eol = [LF]")
    case True
    then show ?thesis using assms(3) by (simp add: only_eol_LF no_cr_def)
  next
    case False
    have e: "eols (x @ y) = eols x + eols y" using assms(2) by (simp add: eols_append)
    have br: "break_has (x @ y) k 2" if "1 \<le> k" "k \<le> eols x + eols y" for k using assms(1,3) False that e by (simp add: only_eol_CRLF)
    have "break_has x k 2" if "1 \<le> k" "k \<le> eols x" for k
      using br [of k] break_has_append(1) [OF assms(2)] that eols_nonneg [of y] by auto
    moreover have "break_has y k 2" if "1 \<le> k" "k \<le> eols y" for k
      using br [of "eols x + k"] break_has_append(2) [OF assms(2), of "eols x + k" 2] that eols_nonneg [of x] by auto
    ultimately show ?thesis using assms(1) False by (simp add: only_eol_CRLF)
  qed
  then show "only_eol eol x" "only_eol eol y" by simp_all
qed

lemma only_eol_replace: "eol = [LF] \<or> eol = [CR, LF] \<Longrightarrow> only_eol eol (replaceEOL eol x)"
  using replaceEOL_CRLF [of _ x] line_offset_break(1) replaceEOL_LF
  by (auto simp: only_eol_LF only_eol_CRLF break_has_def)

lemma only_eol_last: "eol = [LF] \<or> eol = [CR, LF] \<Longrightarrow> only_eol eol x \<Longrightarrow> x \<noteq> [] \<Longrightarrow> last x \<noteq> CR"
proof
  assume h: "eol = [LF] \<or> eol = [CR, LF]" "only_eol eol x" "x \<noteq> []" "last x = CR"
  have "ilen x \<in> set (breaks 0 x)" using breaks_last_CR [OF h(3,4)] by (metis last_in_set)
  then obtain k where k: "1 \<le> k" "k \<le> eols x" "line_offset x k = ilen x" using break_index by blast
  show False
  proof (cases "eol = [LF]")
    case True
    then show False using h last_in_set [OF h(3)] by (auto simp: only_eol_LF no_cr_def)
  next
    case False
    then have "splits_at x (ilen x - 1)" using only_eol_line(1) [OF h(2,1) k(1,2)] h(1) k(3) by (auto simp: break_has_def)
    then show False using h(3,4) last_conv_nth [OF h(3)] by (auto simp: splits_at_iff nat_diff_distrib')
  qed
qed

section \<open>Lines of texts put together\<close>

definition glue :: "js_string list \<Rightarrow> js_string list \<Rightarrow> js_string list" where
  "glue ls ks = butlast ls @ (last ls @ hd ks) # tl ks"

lemma splitLines_nonempty [simp]: "splitLines x \<noteq> []"
  using length_splitLines [of x] eols_nonneg [of x] by (cases "splitLines x") auto

lemma glue_Cons: "ls \<noteq> [] \<Longrightarrow> glue (l # ls) ks = l # glue ls ks"
  by (simp add: glue_def)

lemma splitLines_append: "\<not> splits_crlf x y \<Longrightarrow> splitLines (x @ y) = glue (splitLines x) (splitLines y)"
proof (induction x rule: splitLines.induct)
  case 1
  then show ?case by (cases "splitLines y") (simp_all add: glue_def)
next
  case (2 c)
  then show ?case by (cases y; cases "splitLines y") (auto simp: glue_def splits_crlf_def)
next
  case (3 c d s)
  have sp: "\<not> splits_crlf s y" "\<not> splits_crlf (d # s) y" using 3(4) by (cases "s = []"; auto simp: splits_crlf_def)+
  consider (crlf) "c = CR" "d = LF" | (break) "\<not> (c = CR \<and> d = LF)" "c = CR \<or> c = LF" | (plain) "c \<noteq> CR" "c \<noteq> LF" by blast
  then show ?case
  proof cases
    case crlf
    then show ?thesis using 3(1) sp by (simp add: glue_Cons)
  next
    case break
    then show ?thesis using 3(2) sp by (auto simp: glue_Cons)
  next
    case plain
    then have IH: "splitLines ((d # s) @ y) = glue (splitLines (d # s)) (splitLines y)" using 3(3) sp by auto
    obtain l ls where l: "splitLines (d # s) = l # ls" using splitLines_nonempty [of "d # s"] by (cases "splitLines (d # s)") blast+
    then show ?thesis using plain IH by (cases "ls = []") (simp_all add: glue_def)
  qed
qed

lemma splitLines_CR: "splitLines (x @ [CR]) = splitLines x @ [[]]"
  using splitLines_append [of x "[CR]"] splitLines_nonempty [of x]
  by (simp add: splits_crlf_def glue_def)

section \<open>Stores\<close>

text \<open>What stores add: the stored lines are the first \<open>lc_linesLength\<close> of the array.\<close>

definition stored :: "lines_state \<Rightarrow> js_string list" where
  "stored st = itake (lc_linesLength st) (lc_lines st)"

definition store_ok :: "lines_state \<Rightarrow> bool" where
  "store_ok st \<longleftrightarrow> 0 \<le> lc_linesLength st \<and> lc_linesLength st \<le> ilen (lc_lines st)"

definition adds :: "lines_state \<Rightarrow> lines_state \<Rightarrow> js_string list \<Rightarrow> bool" where
  "adds st st' ls \<longleftrightarrow> store_ok st' \<and> stored st' = stored st @ ls \<and> lc_linesLength st' = lc_linesLength st + ilen ls \<and>
     ilen (lc_lines st') = max (ilen (lc_lines st)) (lc_linesLength st') \<and> lc_danglingCR st' = lc_danglingCR st"

lemma adds_trans: "adds a b xs \<Longrightarrow> adds b c ys \<Longrightarrow> adds a c (xs @ ys)"
  by (auto simp: adds_def)

lemma adds_current: "adds (st\<lparr>lc_currentLine := v\<rparr>) st' ls \<longleftrightarrow> adds st st' ls"
  by (simp add: adds_def stored_def)

lemma push_line_adds:
  assumes "store_ok st"
  obtains st' where "push_line st = Some st'" "adds st st' [lc_currentLine st]" "lc_currentLine st' = lc_currentLine st"
proof (cases "lc_linesLength st < ilen (lc_lines st)")
  case True
  let ?n = "lc_linesLength st" and ?xs = "(lc_lines st)[nat (lc_linesLength st) := lc_currentLine st]"
  have n: "nat ?n < length (lc_lines st)" "0 \<le> ?n" using True assms by (simp_all add: store_ok_def nat_less_iff)
  have "itake (?n + 1) ?xs = itake ?n (lc_lines st) @ [lc_currentLine st]"
    using n by (simp add: itake_def nat_add_distrib take_Suc_conv_app_nth)
  moreover have "push_line st = Some (st\<lparr>lc_lines := ?xs, lc_linesLength := ?n + 1\<rparr>)" using True n by (simp add: push_line_def js_store_def)
  ultimately show thesis using True n by (intro that [of "st\<lparr>lc_lines := ?xs, lc_linesLength := ?n + 1\<rparr>"]) (auto simp: adds_def store_ok_def stored_def)
next
  case False
  then have n: "lc_linesLength st = ilen (lc_lines st)" using assms by (simp add: store_ok_def)
  then have "push_line st = Some (st\<lparr>lc_lines := lc_lines st @ [lc_currentLine st], lc_linesLength := lc_linesLength st + 1\<rparr>)"
    by (simp add: push_line_def js_store_def)
  then show thesis using n by (intro that [of "st\<lparr>lc_lines := lc_lines st @ [lc_currentLine st], lc_linesLength := lc_linesLength st + 1\<rparr>"]) (auto simp: adds_def store_ok_def stored_def)
qed

lemma middle_lines_adds:
  assumes "\<And>line. a \<le> line \<Longrightarrow> line < e \<Longrightarrow> \<exists>l l1. js_get (sb_lineStarts b) line = Some l \<and> js_get (sb_lineStarts b) (line + 1) = Some l1 \<and>
      (if pt_EOLNormalized s then js_substring (sb_buffer b) l (l1 - pt_EOLLength s)
           else stripEOL (js_substring (sb_buffer b) l l1)) = f line"
    and "a \<le> e" "store_ok st"
  shows "\<exists>st'. middle_lines s b a e st = Some st' \<and> adds st st' (map f [a..e - 1]) \<and> lc_currentLine st' = (if a < e then f (e - 1) else lc_currentLine st)"
  using assms
proof (induction "nat (e - a)" arbitrary: a st)
  case 0
  then show ?case by (subst middle_lines.simps) (simp add: adds_def store_ok_def)
next
  case (Suc n)
  then have lt: "a < e" by linarith
  let ?st = "st\<lparr>lc_currentLine := f a\<rparr>"
  obtain l l1 where l: "js_get (sb_lineStarts b) a = Some l" "js_get (sb_lineStarts b) (a + 1) = Some l1"
    "(if pt_EOLNormalized s then js_substring (sb_buffer b) l (l1 - pt_EOLLength s)
           else stripEOL (js_substring (sb_buffer b) l l1)) = f a" using Suc.prems(1) [of a] lt by auto
  have "store_ok ?st" using Suc.prems(3) by (simp add: store_ok_def)
  then obtain s1 where s1: "push_line ?st = Some s1" "adds ?st s1 [f a]" "lc_currentLine s1 = f a" using push_line_adds [of ?st] by auto
  have "n = nat (e - (a + 1))" "a + 1 \<le> e" "store_ok s1" using Suc.hyps(2) lt s1(2) by (simp_all add: adds_def)
  from Suc.hyps(1) [OF this(1) _ this(2,3)] Suc.prems(1) obtain s2 where s2: "middle_lines s b (a + 1) e s1 = Some s2"
    "adds s1 s2 (map f [a + 1..e - 1])" "lc_currentLine s2 = (if a + 1 < e then f (e - 1) else f a)" using s1(3) by auto
  have "adds st s1 [f a]" using s1(2) by (simp only: adds_current)
  moreover have "[a..e - 1] = a # [a + 1..e - 1]" using lt by (simp add: upto_rec1)
  ultimately have "adds st s2 (map f [a..e - 1])" using adds_trans [OF _ s2(2)] by fastforce
  moreover have "a + 1 < e \<or> e - 1 = a" using lt by linarith
  ultimately show ?case using l s1(1) s2(1,3) lt by (subst middle_lines.simps) auto
qed

section \<open>The lines of a piece\<close>

definition all_lines :: "lines_state \<Rightarrow> js_string list" where
  "all_lines st = stored st @ [lc_currentLine st]"

text \<open>The lines of a text before which a \<open>\r\<close> at its end is put off.\<close>

definition lines_pending :: "bool \<Rightarrow> js_string \<Rightarrow> js_string list" where
  "lines_pending norm c = (if \<not> norm \<and> c \<noteq> [] \<and> last c = CR then butlast (splitLines c) else splitLines c)"

text \<open>What the buffer has of the lines of the piece \<open>[a, e)\<close>.\<close>

lemma piece_line_starts:
  assumes "0 \<le> a" "a < e" "e \<le> ilen x" "0 \<le> k" "k \<le> line_of x e - line_of x a"
  shows "0 < k \<Longrightarrow> line_starts x ! nat (line_of x a + k) = a + line_offset (substr x a e) k"
    "js_get (line_starts x) (line_of x a + k) = Some (line_starts x ! nat (line_of x a + k))" "k \<le> eols (substr x a e)"
proof -
  show "js_get (line_starts x) (line_of x a + k) = Some (line_starts x ! nat (line_of x a + k))"
    using assms line_of_bounds [of x a] line_of_bounds [of x e] by (intro get_line_starts) auto
  show k: "k \<le> eols (substr x a e)" using line_starts_substr(2) [of a e x k] assms by (cases "k = 0") auto
  show "line_starts x ! nat (line_of x a + k) = a + line_offset (substr x a e) k" if "0 < k"
    using line_starts_substr(1) [of a e x k] assms that k by (simp add: line_offset_def)
qed

lemma line_cut:
  assumes "0 \<le> a" "a < e" "e \<le> ilen x" "0 \<le> k" "k < line_of x e - line_of x a" and c: "c = substr x a e"
    and norm: "pt_EOLNormalized s \<longrightarrow> (pt_EOL s = [LF] \<or> pt_EOL s = [CR, LF]) \<and> only_eol (pt_EOL s) c" "pt_EOLLength s = ilen (pt_EOL s)"
    and start: "start = a + line_offset c k" and stop: "stop = a + line_offset c (k + 1)"
  shows "(if pt_EOLNormalized s then js_substring x start (stop - pt_EOLLength s) else stripEOL (js_substring x start stop)) = splitLines c ! nat k"
    "pt_EOLNormalized s \<Longrightarrow> start \<le> stop - pt_EOLLength s"
proof -
  have k: "1 \<le> k + 1" "k + 1 \<le> eols c" using piece_line_starts(3) [of a e x "k + 1"] assms by simp_all
  have sub: "js_substring x (a + r) (a + q) = substr c r q" if "0 \<le> r" "r \<le> q" "q \<le> ilen c" for r q
    using that assms(1-3) ilen_substr [of a e x] unfolding c
    by (simp add: substr_def idrop_itake idrop_idrop itake_itake min_def add.commute)
  have lo: "0 \<le> line_offset c k" "line_offset c k \<le> line_offset c (k + 1)" "line_offset c (k + 1) \<le> ilen c"
    using line_offset_bounds [of c] line_offset_break(3) [OF k] by (simp_all add: less_imp_le)
  have raw: "raw_line c (k + 1) d = substr c (line_offset c k) (line_offset c (k + 1) - d)" for d
    using k by (simp add: raw_line_def line_stop_def)
  have nth: "splitLines c ! nat k = stripEOL (raw_line c (k + 1) 0)" using splitLines_nth [of "nat k" c] k assms(4) by simp
  have room: "line_offset c k \<le> line_offset c (k + 1) - pt_EOLLength s \<and> raw_line c (k + 1) (pt_EOLLength s) = stripEOL (raw_line c (k + 1) 0)"
    if "pt_EOLNormalized s"
    using only_eol_line [of "pt_EOL s" c "k + 1"] break_room [OF k, of "ilen (pt_EOL s)"] norm that k by simp
  then show "pt_EOLNormalized s \<Longrightarrow> start \<le> stop - pt_EOLLength s" using start stop by simp
  have "0 \<le> pt_EOLLength s" using norm(2) by simp
  then show "(if pt_EOLNormalized s then js_substring x start (stop - pt_EOLLength s) else stripEOL (js_substring x start stop)) = splitLines c ! nat k"
    using sub [of "line_offset c k" "line_offset c (k + 1) - pt_EOLLength s"] sub [of "line_offset c k" "line_offset c (k + 1)"]
      lo room raw [of 0] raw [of "pt_EOLLength s"] nth start stop by (auto simp: algebra_simps)
qed

lemma substr_of_substr:
  assumes "0 \<le> a" "a \<le> e" "e \<le> ilen x" "0 \<le> r" "r \<le> q" "q \<le> e - a"
  shows "js_substring x (a + r) (a + q) = substr (substr x a e) r q"
  using assms by (simp add: substr_def idrop_itake idrop_idrop itake_itake min_def add.commute)

text \<open>Where a piece ends.\<close>

lemma piece_end:
  assumes "0 \<le> a" "a < e" "e \<le> ilen x" "c = substr x a e" "m = line_of x e - line_of x a"
  shows "last c \<noteq> CR \<Longrightarrow> eols c = m" "last c = CR \<Longrightarrow> line_starts x ! nat (line_of x e) = e \<Longrightarrow> eols c = m"
    "last c = CR \<Longrightarrow> line_starts x ! nat (line_of x e) \<noteq> e \<Longrightarrow> eols c = m + 1 \<and> line_offset c (m + 1) = ilen c"
proof -
  have e: "eols c = m + (if splits_at x e then 1 else 0)" using assms by (simp add: eols_substr line_feeds_def)
  have lst: "last c = x ! nat (e - 1)" using hd_last_substr(3) [OF assms(1-3)] assms(4) by simp
  show "last c \<noteq> CR \<Longrightarrow> eols c = m" using e lst by (simp add: splits_at_iff)
  have b: "e \<in> set (breaks 0 x) \<longleftrightarrow> ends_line (x ! nat (e - 1)) (idrop e x)" using assms(1-3) by (simp add: in_breaks)
  have n: "line_starts x ! nat (line_of x e) = e \<longleftrightarrow> e \<in> set (breaks 0 x)" using line_start_iff [of e x] assms(1-3) by simp
  have h: "e < ilen x \<Longrightarrow> idrop e x \<noteq> [] \<and> hd (idrop e x) = x ! nat e" using assms(1,2) by (auto simp: idrop_def hd_drop_conv_nth)
  show "eols c = m" if "last c = CR" "line_starts x ! nat (line_of x e) = e"
    using e lst b n h that by (auto simp: splits_at_iff ends_line_def)
  show "eols c = m + 1 \<and> line_offset c (m + 1) = ilen c" if "last c = CR" "line_starts x ! nat (line_of x e) \<noteq> e"
  proof -
    have "idrop e x \<noteq> []" "hd (idrop e x) = LF" using b n lst that by (auto simp: ends_line_def)
    then have sp: "splits_at x e" using lst that(1) assms(1-3) h by (cases "e < ilen x") (auto simp: splits_at_iff)
    then have m: "eols c = m + 1" using e by simp
    moreover have "line_starts c ! nat (eols c) = e - a" using line_starts_split_end [OF assms(1-3) sp] assms(4) by simp
    moreover have "0 < eols c" using m line_of_mono [of a e x] assms(2,5) by simp
    ultimately show ?thesis using ilen_substr [of a e x] assms by (simp add: line_offset_def)
  qed
qed

text \<open>The last line of a piece, and the one that ends with a \<open>\r\<close> at the end.\<close>

lemma final_line: "splitLines c ! nat (eols c) = substr c (line_offset c (eols c)) (ilen c)"
  using splitLines_nth [of "nat (eols c)" c] stripEOL_last [of c] by (simp add: raw_line_def line_stop_def)

lemma line_before_CR:
  assumes "last c = CR" "eols c = m + 1" "line_offset c (m + 1) = ilen c" "0 \<le> m"
  shows "splitLines c ! nat m = substr c (line_offset c m) (ilen c - 1)"
proof -
  have lt: "line_offset c m < ilen c" using line_offset_break(3) [of "m + 1" c] assms by simp
  have l0: "0 \<le> line_offset c m" by (rule line_offset_bounds)
  have "raw_line c (m + 1) 0 = substr c (line_offset c m) (ilen c)" using assms by (simp add: raw_line_def line_stop_def)
  also have "\<dots> = substr c (line_offset c m) (ilen c - 1) @ [CR]"
  proof -
    have ne: "c \<noteq> []" using lt l0 by auto
    have "nat (ilen c - 1) = length c - 1" by (simp add: nat_diff_distrib')
    then have "substr c (ilen c - 1) (ilen c) = [CR]"
      using assms(1) ne by (simp add: idrop_def) (metis append_butlast_last_id append_eq_conv_conj length_butlast One_nat_def)
    then show ?thesis using substr_split [of "line_offset c m" "ilen c - 1" "ilen c" c] lt l0 by simp
  qed
  finally have "stripEOL (raw_line c (m + 1) 0) = substr c (line_offset c m) (ilen c - 1)" by (simp add: stripEOL_def)
  then show ?thesis using splitLines_nth [of "nat m" c] assms(2,4) by simp
qed

lemma map_nth_tl:
  "0 < m \<Longrightarrow> m \<le> ilen ks \<Longrightarrow> map (\<lambda>l. ks ! nat (l - a)) [a + 1..a + m - 1] = tl (take (nat m) ks)"
  by (intro nth_equalityI) (auto simp: nth_tl nat_add_distrib intro!: arg_cong [where f = "(!) ks"])

text \<open>Collecting the lines of a piece.\<close>

definition gains :: "piece_tree \<Rightarrow> lines_state \<Rightarrow> lines_state \<Rightarrow> js_string \<Rightarrow> bool" where
  "gains s st st' c \<longleftrightarrow> store_ok st' \<and> all_lines st' = glue (all_lines st) (lines_pending (pt_EOLNormalized s) c) \<and>
     lc_danglingCR st' = (\<not> pt_EOLNormalized s \<and> last c = CR) \<and>
     ilen (lc_lines st') \<le> lc_linesLength st' + (if lc_danglingCR st' then 1 else 0)"

definition norm_ok :: "piece_tree \<Rightarrow> js_string \<Rightarrow> bool" where
  "norm_ok s c \<longleftrightarrow> pt_EOLLength s = ilen (pt_EOL s) \<and>
     (pt_EOLNormalized s \<longrightarrow> (pt_EOL s = [LF] \<or> pt_EOL s = [CR, LF]) \<and> only_eol (pt_EOL s) c)"

lemma piece_pushes:
  assumes b: "sb_buffer b = x" "sb_lineStarts b = line_starts x" and c: "0 \<le> a" "a < e" "e \<le> ilen x" "c = substr x a e"
    and m: "m = line_of x e - line_of x a" "0 < m" and norm: "norm_ok s c" and st: "store_ok st"
  shows "\<exists>l1 s1 s2. js_get (sb_lineStarts b) (line_of x a + 1) = Some l1 \<and>
    push_line (st\<lparr>lc_currentLine := lc_currentLine st @
      (if pt_EOLNormalized s then js_substring (sb_buffer b) a (max a (l1 - pt_EOLLength s)) else stripEOL (js_substring (sb_buffer b) a l1))\<rparr>) = Some s1 \<and>
    middle_lines s b (line_of x a + 1) (line_of x e) s1 = Some s2 \<and>
    adds st s2 ((lc_currentLine st @ hd (splitLines c)) # tl (take (nat m) (splitLines c))) \<and>
    lc_currentLine s2 = last ((lc_currentLine st @ hd (splitLines c)) # tl (take (nat m) (splitLines c)))"
proof -
  let ?sl = "line_of x a" and ?el = "line_of x e" and ?K = "splitLines c" and ?cur = "lc_currentLine st"
  have n: "pt_EOLNormalized s \<longrightarrow> (pt_EOL s = [LF] \<or> pt_EOL s = [CR, LF]) \<and> only_eol (pt_EOL s) c" "pt_EOLLength s = ilen (pt_EOL s)"
    using norm by (simp_all add: norm_ok_def)
  have start: "k = 0 \<or> line_starts x ! nat (?sl + k) = a + line_offset c k" if "0 \<le> k" "k \<le> m" for k
    using piece_line_starts(1) [OF c(1-3), of k] that c(4) m(1) by (cases "k = 0") auto
  have get: "js_get (line_starts x) (?sl + k) = Some (line_starts x ! nat (?sl + k))" if "0 \<le> k" "k \<le> m" for k
    using piece_line_starts(2) [OF c(1-3), of k] that m(1) by simp
  have l1: "js_get (sb_lineStarts b) (?sl + 1) = Some (a + line_offset c 1)" using start [of 1] get [of 1] m(2) b(2) by simp
  have hd: "?K ! nat 0 = hd ?K" by (simp add: hd_conv_nth)
  have "a = a + line_offset c 0" "a + line_offset c 1 = a + line_offset c (0 + 1)" "0 < ?el - ?sl" using m by (simp_all add: line_offset_def)
  from line_cut [OF c(1-3) order_refl this(3) c(4) n this(1,2)] have
    first: "(if pt_EOLNormalized s then js_substring x a (max a (a + line_offset c 1 - pt_EOLLength s)) else stripEOL (js_substring x a (a + line_offset c 1))) = hd ?K"
    unfolding hd by (auto simp: max_absorb2)
  let ?st = "st\<lparr>lc_currentLine := ?cur @ hd ?K\<rparr>"
  have "store_ok ?st" using st by (simp add: store_ok_def)
  then obtain s1 where s1: "push_line ?st = Some s1" "adds ?st s1 [?cur @ hd ?K]" "lc_currentLine s1 = ?cur @ hd ?K"
    using push_line_adds [of ?st] by auto
  have s1a: "adds st s1 [?cur @ hd ?K]" using s1(2) by (simp only: adds_current)
  let ?f = "\<lambda>line. ?K ! nat (line - ?sl)"
  have "\<exists>l l1. js_get (sb_lineStarts b) line = Some l \<and> js_get (sb_lineStarts b) (line + 1) = Some l1 \<and>
      (if pt_EOLNormalized s then js_substring (sb_buffer b) l (l1 - pt_EOLLength s) else stripEOL (js_substring (sb_buffer b) l l1)) = ?f line"
    if "?sl + 1 \<le> line" "line < ?el" for line
  proof -
    define k where "k = line - ?sl"
    have k: "0 < k" "k + 1 \<le> m" "line = ?sl + k" "line + 1 = ?sl + (k + 1)" using that m by (simp_all add: k_def)
    have "line_starts x ! nat (?sl + k) = a + line_offset c k" "line_starts x ! nat (?sl + (k + 1)) = a + line_offset c (k + 1)"
      using start [of k] start [of "k + 1"] k by simp_all
    then have g: "js_get (line_starts x) (?sl + k) = Some (a + line_offset c k)" "js_get (line_starts x) (?sl + (k + 1)) = Some (a + line_offset c (k + 1))"
      using get [of k] get [of "k + 1"] k by simp_all
    have "0 \<le> k" "k < ?el - ?sl" using k m by simp_all
    from line_cut(1) [OF c(1-3) this c(4) n refl refl] have
      v: "(if pt_EOLNormalized s then js_substring x (a + line_offset c k) (a + line_offset c (k + 1) - pt_EOLLength s)
        else stripEOL (js_substring x (a + line_offset c k) (a + line_offset c (k + 1)))) = ?K ! nat k" .
    show ?thesis
      by (rule exI [of _ "a + line_offset c k"], rule exI [of _ "a + line_offset c (k + 1)"], unfold k(4) b, intro conjI)
        (use g v k(3) in simp_all)
  qed
  moreover have "?sl + 1 \<le> ?el" "store_ok s1" using m s1a by (simp_all add: adds_def)
  ultimately obtain s2 where s2: "middle_lines s b (?sl + 1) ?el s1 = Some s2" "adds s1 s2 (map ?f [?sl + 1..?el - 1])"
    "lc_currentLine s2 = (if ?sl + 1 < ?el then ?f (?el - 1) else lc_currentLine s1)"
    using middle_lines_adds [of "?sl + 1" ?el b s ?f s1] by blast
  have len: "m \<le> ilen ?K" using piece_line_starts(3) [OF c(1-3), of m] m length_splitLines [of c] c(4) by simp
  have el: "?el = ?sl + m" using m(1) by simp
  have mp: "map ?f [?sl + 1..?el - 1] = tl (take (nat m) ?K)" unfolding el by (rule map_nth_tl [OF m(2) len])
  have cur: "lc_currentLine s2 = last ((?cur @ hd ?K) # tl (take (nat m) ?K))"
  proof (cases "?sl + 1 < ?el")
    case True
    then have "[?sl + 1..?el - 1] = [?sl + 1..?el - 1 - 1] @ [?el - 1]" by (intro upto_rec2) simp
    then have "tl (take (nat m) ?K) = map ?f [?sl + 1..?el - 1 - 1] @ [?f (?el - 1)]" unfolding mp [symmetric] by simp
    then show ?thesis using s2(3) True by simp
  next
    case False
    then show ?thesis using s2(3) s1(3) mp [symmetric] by simp
  qed
  have "adds st s2 ((?cur @ hd ?K) # tl (take (nat m) ?K))" using adds_trans [OF s1a s2(2)] mp by simp
  then show ?thesis using l1 s1(1) s2(1) cur first b(1) by auto
qed

lemma piece_with_lines_ok:
  assumes p: "p = piece_of_range bufs i a e" and x: "x = text_at bufs i" and b: "sb_buffer b = x" "sb_lineStarts b = line_starts x"
    and c: "0 \<le> a" "a < e" "e \<le> ilen x" "c = substr x a e" and ne: "line_of x a < line_of x e"
    and norm: "norm_ok s c" and st: "store_ok st" "ilen (lc_lines st) \<le> lc_linesLength st" "\<not> lc_danglingCR st"
  shows "\<exists>st'. piece_with_lines s p b a st = Some st' \<and> gains s st st' c"
proof -
  define m where "m = line_of x e - line_of x a"
  have m: "0 < m" using ne by (simp add: m_def)
  let ?K = "splitLines c" and ?cur = "lc_currentLine st" and ?n = "pt_EOLNormalized s"
  let ?W = "(?cur @ hd ?K) # tl (take (nat m) ?K)"
  obtain l1 s1 s2 where s2: "js_get (sb_lineStarts b) (line_of x a + 1) = Some l1"
    "push_line (st\<lparr>lc_currentLine := ?cur @
      (if ?n then js_substring (sb_buffer b) a (max a (l1 - pt_EOLLength s)) else stripEOL (js_substring (sb_buffer b) a l1))\<rparr>) = Some s1"
    "middle_lines s b (line_of x a + 1) (line_of x e) s1 = Some s2" "adds st s2 ?W" "lc_currentLine s2 = last ?W"
    using piece_pushes [OF b c m_def m norm st(1)] by blast
  let ?l = "line_starts x ! nat (line_of x e)"
  have cn: "c \<noteq> []" "last c = x ! nat (e - 1)" "ilen c = e - a" using hd_last_substr [OF c(1-3)] ilen_substr [of a e x] c by simp_all
  have l: "js_get (sb_lineStarts b) (line_of x e) = Some ?l" "?l = a + line_offset c m" "m \<le> eols c"
    using piece_line_starts [OF c(1-3), of m] m m_def b(2) c(4) by simp_all
  have ch: "js_get (sb_buffer b) (?l + (e - ?l) - 1) = Some (last c)" using cn(2) b(1) c by simp
  have run: "piece_with_lines s p b a st =
    (if \<not> ?n \<and> last c = CR then
        let s3 = s2\<lparr>lc_danglingCR := True\<rparr> in
        (if e - ?l = 0 then Some (s3\<lparr>lc_linesLength := lc_linesLength s3 - 1\<rparr>)
         else Some (s3\<lparr>lc_currentLine := js_substring (sb_buffer b) ?l (?l + (e - ?l - 1))\<rparr>))
      else Some (s2\<lparr>lc_currentLine := js_substring (sb_buffer b) ?l (?l + (e - ?l))\<rparr>))"
    using s2(1-3) l(1) ch p x by (simp add: piece_with_lines_def Let_def)
  have K: "ilen ?K = eols c + 1" by (rule length_splitLines)
  have W: "glue (all_lines st) ks = stored st @ (?cur @ hd ks) # tl ks" for ks by (simp add: glue_def all_lines_def)
  have stored2: "stored s2 = stored st @ ?W" "store_ok s2" "lc_linesLength s2 = ilen (lc_lines s2)" "\<not> lc_danglingCR s2"
    using s2(4) st by (auto simp: adds_def store_ok_def)
  have upd: "stored (s2\<lparr>lc_danglingCR := True\<rparr>) = stored s2" "stored (s2\<lparr>lc_danglingCR := d, lc_currentLine := v\<rparr>) = stored s2"
    "stored (s2\<lparr>lc_currentLine := v\<rparr>) = stored s2" for v d by (simp_all add: stored_def)
  have sub: "js_substring x ?l (?l + k) = substr c (line_offset c m) (line_offset c m + k)" if "0 \<le> k" "line_offset c m + k \<le> ilen c" for k
    using substr_of_substr [of a e x "line_offset c m" "line_offset c m + k"] that c l(2) cn(3) line_offset_bounds(1) [of c m] by (simp add: algebra_simps)
  have tk: "(?cur @ hd ?K) # tl (take (nat m + 1) ?K) = ?W @ [?K ! nat m]"
  proof -
    have "nat m < length ?K" "take (nat m) ?K \<noteq> []" using K l(3) m by auto
    then show ?thesis by (simp add: take_Suc_conv_app_nth)
  qed
  consider (dec) "\<not> ?n" "last c = CR" "?l = e" | (cut) "\<not> ?n" "last c = CR" "?l \<noteq> e" | (plain) "last c \<noteq> CR"
    using only_eol_last [of "pt_EOL s" c] norm cn(1) by (auto simp: norm_ok_def)
  then show ?thesis
  proof cases
    case dec
    let ?s3 = "s2\<lparr>lc_danglingCR := True, lc_linesLength := lc_linesLength s2 - 1\<rparr>"
    have "eols c = m" by (rule piece_end(2) [OF c m_def dec(2,3)])
    then have "length ?K - 1 = nat m" using K by linarith
    then have "lines_pending ?n c = take (nat m) ?K" using dec cn(1) by (simp add: lines_pending_def butlast_conv_take)
    moreover have "hd (take (nat m) ?K) = hd ?K" using m by (cases ?K) (simp_all add: take_Cons')
    ultimately have "glue (all_lines st) (lines_pending ?n c) = stored st @ ?W" using W by simp
    moreover have "all_lines ?s3 = stored s2"
    proof -
      have "stored ?s3 = butlast (stored s2)" using stored2(2,3) by (simp add: stored_def itake_def butlast_conv_take nat_diff_distrib')
      moreover have "last (stored s2) = lc_currentLine s2" "stored s2 \<noteq> []" using stored2(1) s2(5) by simp_all
      ultimately show ?thesis by (simp add: all_lines_def) (metis append_butlast_last_id)
    qed
    moreover have "0 < lc_linesLength s2" using s2(4) st(1) by (simp add: adds_def store_ok_def)
    ultimately have "gains s st ?s3 c" using stored2 dec by (simp add: gains_def store_ok_def)
    then show ?thesis using run dec by (simp add: Let_def)
  next
    case cut
    let ?s3 = "s2\<lparr>lc_danglingCR := True, lc_currentLine := js_substring (sb_buffer b) ?l (?l + (e - ?l - 1))\<rparr>"
    have ec: "eols c = m + 1" "line_offset c (m + 1) = ilen c" using piece_end(3) [OF c m_def cut(2,3)] by simp_all
    have "line_offset c m < ilen c" using line_offset_break(3) [of "m + 1" c] ec m by simp
    then have "lc_currentLine ?s3 = ?K ! nat m"
      using line_before_CR [OF cut(2) ec] sub [of "e - ?l - 1"] m b(1) l(2) cn(3) by (simp add: algebra_simps)
    moreover have "length ?K - 1 = nat m + 1" using K ec(1) m by linarith
    then have "lines_pending ?n c = take (nat m + 1) ?K" using cut cn(1) by (simp add: lines_pending_def butlast_conv_take)
    moreover have "hd (take (nat m + 1) ?K) = hd ?K" by (cases ?K) simp_all
    ultimately have "all_lines ?s3 = glue (all_lines st) (lines_pending ?n c)"
      using W tk stored2(1) upd(2) by (simp add: all_lines_def)
    then have "gains s st ?s3 c" using stored2 cut by (simp add: gains_def store_ok_def)
    then show ?thesis using run cut by (simp add: Let_def)
  next
    case plain
    let ?s3 = "s2\<lparr>lc_currentLine := js_substring (sb_buffer b) ?l (?l + (e - ?l))\<rparr>"
    have ec: "eols c = m" by (rule piece_end(1) [OF c m_def plain])
    have "lc_currentLine ?s3 = ?K ! nat m"
      using final_line [of c] sub [of "e - ?l"] ec b(1) l(2) cn(3) line_offset_bounds(2) [of c m] by (simp add: algebra_simps)
    moreover have "length ?K \<le> nat m + 1" using K ec m by linarith
    then have "lines_pending ?n c = take (nat m + 1) ?K" using plain by (simp add: lines_pending_def)
    moreover have "hd (take (nat m + 1) ?K) = hd ?K" by (cases ?K) simp_all
    ultimately have "all_lines ?s3 = glue (all_lines st) (lines_pending ?n c)"
      using W tk stored2(1) upd(3) by (simp add: all_lines_def)
    then have "gains s st ?s3 c" using stored2 plain by (simp add: gains_def store_ok_def)
    then show ?thesis using run plain by simp
  qed
qed

lemma piece_lines_here_ok:
  assumes p: "p = piece_of_range bufs i a e" and x: "x = text_at bufs i" and b: "sb_buffer b = x" "sb_lineStarts b = line_starts x"
    and c: "0 \<le> a" "a < e" "e \<le> ilen x" "c = substr x a e"
    and norm: "norm_ok s c" and st: "store_ok st" "ilen (lc_lines st) \<le> lc_linesLength st" "\<not> lc_danglingCR st"
  shows "\<exists>st'. piece_lines_here s p b a (e - a) st = Some st' \<and> gains s st st' c"
proof (cases "line_of x a = line_of x e")
  case False
  then have "line_of x a < line_of x e" using line_of_mono [of a e x] c(2) by simp
  from piece_with_lines_ok [OF p x b c this norm st] show ?thesis using p x False by (simp add: piece_lines_here_def)
next
  case True
  let ?n = "pt_EOLNormalized s" and ?cur = "lc_currentLine st"
  have cn: "c \<noteq> []" "last c = x ! nat (e - 1)" "ilen c = e - a" using hd_last_substr [OF c(1-3)] ilen_substr [of a e x] c by simp_all
  have ch: "js_get (sb_buffer b) (a + (e - a) - 1) = Some (last c)" using cn(2) b(1) c by simp
  have sub: "js_substring x a (a + k) = itake k c" if "0 \<le> k" "k \<le> ilen c" for k
    using substr_of_substr [of a e x 0 k] that c cn(3) by simp
  have run: "piece_lines_here s p b a (e - a) st =
    (if \<not> ?n \<and> last c = CR then Some (st\<lparr>lc_danglingCR := True, lc_currentLine := ?cur @ butlast c\<rparr>)
     else Some (st\<lparr>lc_currentLine := ?cur @ c\<rparr>))"
  proof -
    have "itake (e - a - 1) c = butlast c" using cn(3) by (simp add: itake_def butlast_conv_take nat_diff_distrib' flip: cn(3))
    then show ?thesis using True p x ch b(1) sub [of "e - a - 1"] sub [of "e - a"] cn(3) c(2) by (simp add: piece_lines_here_def)
  qed
  have W: "glue (all_lines st) ks = stored st @ (?cur @ hd ks) # tl ks" for ks by (simp add: glue_def all_lines_def)
  have upd: "stored (st\<lparr>lc_danglingCR := True, lc_currentLine := v\<rparr>) = stored st" "stored (st\<lparr>lc_currentLine := v\<rparr>) = stored st" for v
    by (simp_all add: stored_def)
  show ?thesis
  proof (cases "\<not> ?n \<and> last c = CR")
    case CR: True
    have "splitLines c = splitLines (butlast c) @ [[]]" using splitLines_CR [of "butlast c"] CR cn(1) by (metis append_butlast_last_id)
    moreover have "eols (butlast c) = 0"
    proof -
      have "eols c = line_feeds x a e" using c by (simp add: eols_substr)
      then have "eols c \<le> 1" using True by (simp add: line_feeds_def)
      moreover have "eols c = eols (butlast c) + 1"
      proof -
        have "eols (butlast c @ [CR]) = eols (butlast c) + 1" by (simp add: eols_append splits_crlf_def ends_line_def)
        then show ?thesis using CR cn(1) by (metis append_butlast_last_id)
      qed
      ultimately show ?thesis using eols_nonneg [of "butlast c"] by linarith
    qed
    ultimately have "lines_pending ?n c = [butlast c]" using CR cn(1) by (simp add: lines_pending_def splitLines_no_breaks)
    then have "gains s st (st\<lparr>lc_danglingCR := True, lc_currentLine := ?cur @ butlast c\<rparr>) c"
      using st CR W upd by (simp add: gains_def store_ok_def all_lines_def)
    then show ?thesis using run CR by simp
  next
    case other: False
    then have lst: "last c \<noteq> CR" using only_eol_last [of "pt_EOL s" c] norm cn(1) by (auto simp: norm_ok_def)
    have "eols c = 0" using piece_end(1) [OF c refl lst] True by simp
    then have "lines_pending ?n c = [c]" using lst by (simp add: lines_pending_def splitLines_no_breaks)
    then have "gains s st (st\<lparr>lc_currentLine := ?cur @ c\<rparr>) c"
      using st lst W upd by (simp add: gains_def store_ok_def all_lines_def)
    then show ?thesis using run other by simp
  qed
qed

text \<open>The state after the pieces with the text \<open>x\<close>.\<close>

definition lines_state_of :: "piece_tree \<Rightarrow> js_string \<Rightarrow> lines_state \<Rightarrow> bool" where
  "lines_state_of s x st \<longleftrightarrow> store_ok st \<and> all_lines st = lines_pending (pt_EOLNormalized s) x \<and>
     lc_danglingCR st = (\<not> pt_EOLNormalized s \<and> x \<noteq> [] \<and> last x = CR) \<and>
     ilen (lc_lines st) \<le> lc_linesLength st + (if lc_danglingCR st then 1 else 0)"

lemma glue_before:
  assumes "\<not> splits_crlf x c" "c \<noteq> []"
  shows "glue (splitLines x) (lines_pending norm c) = lines_pending norm (x @ c)"
proof (cases "\<not> norm \<and> last c = CR")
  case True
  have "0 < eols c" using eols_pos [OF last_in_set [OF assms(2)]] True by simp
  then have "tl (splitLines c) \<noteq> []" "splitLines c \<noteq> []" using length_splitLines [of c] by (cases "splitLines c"; auto)+
  then have "glue (splitLines x) (butlast (splitLines c)) = butlast (glue (splitLines x) (splitLines c))"
    by (cases "splitLines c") (simp_all add: glue_def butlast_append)
  then show ?thesis using True assms splitLines_append [OF assms(1)] by (simp add: lines_pending_def)
next
  case False
  then show ?thesis using assms splitLines_append [OF assms(1)] by (auto simp: lines_pending_def)
qed

lemma linesContent_step_ok:
  assumes h: "piece_holds (pt_buffers s) (n_piece (pt_tree s) n) c" "c \<noteq> []" "n \<noteq> SENTINEL" and norm: "norm_ok s c"
    and sp: "\<not> splits_crlf x c" and st: "lines_state_of s x st"
  shows "\<exists>st'. linesContent_step s n st = Some (True, st') \<and> lines_state_of s (x @ c) st'"
proof -
  let ?p = "n_piece (pt_tree s) n" and ?n = "pt_EOLNormalized s"
  obtain i a e where r: "PieceBuffers.range_ok (pt_buffers s) i a e" "?p = piece_of_range (pt_buffers s) i a e"
    "c = substr (text_at (pt_buffers s) i) a e" "0 \<le> a" "a \<le> e" "e \<le> ilen (text_at (pt_buffers s) i)" "ilen c = e - a"
    using h(1) by (rule piece_holdsE)
  obtain b where b: "js_get (pt_buffers s) i = Some b" "sb_buffer b = text_at (pt_buffers s) i" "sb_lineStarts b = line_starts (text_at (pt_buffers s) i)"
    using r(1) by (rule range_okE)
  let ?x = "text_at (pt_buffers s) i" and ?l = "line_starts (text_at (pt_buffers s) i) ! nat (line_of (text_at (pt_buffers s) i) a)"
  have ae: "a < e" using h(2) r(5,7) by (cases "a = e") auto
  have l: "js_get (sb_lineStarts b) (line_of ?x a) = Some ?l" using b(3) line_of_bounds [of ?x a] by (simp add: get_line_starts)
  have hd: "js_get (sb_buffer b) a = Some (hd c)" using hd_last_substr(2) [OF r(4) ae r(6)] r b(2) ae by simp
  note here = piece_lines_here_ok [OF r(2) refl b(2,3) r(4) ae r(6,3) norm]
  have fin: "lines_state_of s (x @ c) st'" if "gains s st0 st' c" "all_lines st0 = splitLines x" for st0 st'
    using that glue_before [OF sp h(2)] h(2) by (auto simp: gains_def lines_state_of_def)
  have p: "pc_bufferIndex ?p = i" "pc_length ?p = e - a" "bc_line (pc_start ?p) = line_of ?x a" "?l + bc_column (pc_start ?p) = a"
    using r(2) by simp_all
  have step: "linesContent_step s n st =
    (if lc_danglingCR st then do {
              let lf = (hd c = LF);
              let pieceStartOffset = (if lf then a + 1 else a);
              let pieceLength = (if lf then e - a - 1 else e - a);
              st \<leftarrow> push_line st;
              let st = st\<lparr>lc_currentLine := [], lc_danglingCR := False\<rparr>;
              (if pieceLength = 0 then Some (True, st)
               else do { st \<leftarrow> piece_lines_here s ?p b pieceStartOffset pieceLength st; Some (True, st) })
            } else do { st \<leftarrow> piece_lines_here s ?p b a (e - a) st; Some (True, st) })"
    using h(3) ae b(1) l hd p by (simp add: linesContent_step_def Let_def cong: if_cong)
  show ?thesis
  proof (cases "lc_danglingCR st")
    case False
    then have "all_lines st = splitLines x" using st by (auto simp: lines_state_of_def lines_pending_def)
    moreover obtain st' where "piece_lines_here s ?p b a (e - a) st = Some st'" "gains s st st' c"
      using here [of st] st False by (auto simp: lines_state_of_def)
    ultimately show ?thesis using step False fin by simp
  next
    case True
    then have x: "\<not> ?n" "x \<noteq> []" "last x = CR" using st by (auto simp: lines_state_of_def)
    then have lf: "hd c \<noteq> LF" using sp h(2) by (auto simp: splits_crlf_def)
    have ok: "store_ok st" using st by (simp add: lines_state_of_def)
    obtain s1 where s1: "push_line st = Some s1" "adds st s1 [lc_currentLine st]" using push_line_adds [OF ok] by metis
    let ?s1 = "s1\<lparr>lc_currentLine := [], lc_danglingCR := False\<rparr>"
    have "splitLines x = butlast (splitLines x) @ [[]]" using splitLines_CR [of "butlast x"] x by (metis append_butlast_last_id butlast_snoc)
    moreover have "all_lines st = butlast (splitLines x)" using st x by (simp add: lines_state_of_def lines_pending_def)
    moreover have "stored ?s1 = stored s1" by (simp add: stored_def)
    ultimately have "all_lines ?s1 = splitLines x" using s1(2) by (simp add: all_lines_def adds_def)
    moreover have "store_ok ?s1" "ilen (lc_lines ?s1) \<le> lc_linesLength ?s1" using s1(2) st True by (auto simp: adds_def store_ok_def lines_state_of_def)
    moreover obtain st' where "piece_lines_here s ?p b a (e - a) ?s1 = Some st'" "gains s ?s1 st' c"
      using here [of ?s1] calculation(2,3) by auto
    ultimately show ?thesis using step True lf s1(1) ae fin by (simp add: Let_def)
  qed
qed

section \<open>The lines of the buffer\<close>

lemma getLinesContent_ok:
  assumes inv: "buffer_inv s ns cs" and eol: "eol_ok s (concat cs)"
  shows "getLinesContent s = Some (splitLines (concat cs))"
proof -
  let ?t = "pt_tree s" and ?n = "pt_EOLNormalized s" and ?x = "concat cs"
  let ?st0 = "\<lparr>lc_lines = [], lc_linesLength = 0, lc_currentLine = [], lc_danglingCR = False\<rparr>"
  have ok: "rb_order ?t ns" using inv by (simp add: buffer_inv_def pieces_ok_def)
  have "SENTINEL \<notin> set ns" using pieces_ok_nodes(2) [of s ns cs] inv by (auto simp: buffer_inv_def)
  then have sen: "n \<noteq> SENTINEL" if "n \<in> set ns" for n using that by metis
  note tx = buffer_texts [OF inv]
  have x: "nodes_text s ns = ?x" using tx(1) by simp
  obtain tr where tr: "nodes tr = ns" "shape (n_parent ?t) (n_left ?t) (n_right ?t) SENTINEL (rb_root ?t) tr"
    using rb_order_shape [OF ok] by blast
  have s1: "\<forall>us st. lines_state_of s (nodes_text s us) st \<longrightarrow>
    (\<exists>st'. linesContent_step s SENTINEL st = Some (True, st') \<and> lines_state_of s (nodes_text s us) st')"
    by (simp add: linesContent_step_def)
  have s2: "\<forall>us n vs st. ns = us @ n # vs \<longrightarrow> lines_state_of s (nodes_text s us) st \<longrightarrow>
    (\<exists>st'. linesContent_step s n st = Some (True, st') \<and> lines_state_of s (nodes_text s (us @ [n])) st')"
  proof (intro allI impI)
    fix us n vs st assume n: "ns = us @ n # vs" and st: "lines_state_of s (nodes_text s us) st"
    have t: "texts_ok s (us @ n # vs)" using tx(2) n by simp
    note t3 = texts_ok_node [OF t]
    have xx: "?x = nodes_text s us @ node_text s n @ nodes_text s vs" using x n by simp
    have "norm_ok s (node_text s n)"
    proof -
      have "pt_EOL s = [LF] \<or> pt_EOL s = [CR, LF]" "only_eol (pt_EOL s) (node_text s n)" if "?n"
      proof -
        show e: "pt_EOL s = [LF] \<or> pt_EOL s = [CR, LF]" using eol that by (simp add: eol_ok_def)
        have "only_eol (pt_EOL s) (nodes_text s us @ node_text s n @ nodes_text s vs)" using eol that xx by (simp add: eol_ok_def)
        then have "only_eol (pt_EOL s) (node_text s n @ nodes_text s vs)" by (rule only_eol_append(2) [OF e t3(7)])
        then show "only_eol (pt_EOL s) (node_text s n)" by (rule only_eol_append(1) [OF e t3(6)])
      qed
      then show ?thesis using inv by (simp add: norm_ok_def buffer_inv_def)
    qed
    moreover have "piece_holds (pt_buffers s) (n_piece ?t n) (node_text s n)" using tx(2) n by (simp add: texts_ok_def)
    moreover have "n \<noteq> SENTINEL" using sen n by simp
    ultimately show "\<exists>st'. linesContent_step s n st = Some (True, st') \<and> lines_state_of s (nodes_text s (us @ [n])) st'"
      using linesContent_step_ok [OF _ t3(4) _ _ t3(5) st] by simp
  qed
  have st0: "lines_state_of s (nodes_text s []) ?st0"
    by (simp add: lines_state_of_def store_ok_def all_lines_def stored_def lines_pending_def)
  have n0: "ns = [] @ nodes tr @ []" using tr(1) by simp
  obtain st where st: "iterate ?t (linesContent_step s) (rb_root ?t) ?st0 = Some (True, st)" "lines_state_of s (nodes_text s ([] @ nodes tr)) st"
    using iterate_inv [where I = "\<lambda>us. lines_state_of s (nodes_text s us)", OF tr(2) s1 s2 n0 st0] by (elim exE conjE)
  have stx: "lines_state_of s ?x st" using st(2) tr(1) x by simp
  obtain st1 where st1: "(if lc_danglingCR st then do { st \<leftarrow> push_line st; Some (st\<lparr>lc_currentLine := []\<rparr>) } else Some st) = Some st1"
    "store_ok st1" "all_lines st1 = splitLines ?x" "ilen (lc_lines st1) \<le> lc_linesLength st1"
  proof (cases "lc_danglingCR st")
    case False
    then show thesis using that [of st] stx by (auto simp: lines_state_of_def lines_pending_def)
  next
    case True
    then have cr: "\<not> ?n" "?x \<noteq> []" "last ?x = CR" using stx by (simp_all add: lines_state_of_def)
    have "store_ok st" using stx by (simp add: lines_state_of_def)
    then obtain s3 where s3: "push_line st = Some s3" "adds st s3 [lc_currentLine st]" using push_line_adds by metis
    have "splitLines ?x = butlast (splitLines ?x) @ [[]]" using splitLines_CR [of "butlast ?x"] cr by (metis append_butlast_last_id butlast_snoc)
    moreover have "stored (s3\<lparr>lc_currentLine := []\<rparr>) = stored s3" by (simp add: stored_def)
    ultimately have "all_lines (s3\<lparr>lc_currentLine := []\<rparr>) = splitLines ?x"
      using stx s3(2) cr by (simp add: lines_state_of_def lines_pending_def all_lines_def adds_def)
    then show thesis using that [of "s3\<lparr>lc_currentLine := []\<rparr>"] s3 stx True by (auto simp: adds_def store_ok_def lines_state_of_def)
  qed
  obtain st2 where st2: "push_line st1 = Some st2" "adds st1 st2 [lc_currentLine st1]" using push_line_adds [OF st1(2)] by metis
  have "ilen (lc_lines st2) \<le> lc_linesLength st2" using st2(2) st1(4) by (simp add: adds_def)
  then have "stored st2 = lc_lines st2" unfolding stored_def by (rule itake_all)
  moreover have "stored st2 = splitLines ?x" using st2(2) st1(3) by (simp only: adds_def all_lines_def)
  ultimately have "lc_lines st2 = splitLines ?x" by (simp only:)
  then show ?thesis using st(1) st1(1) st2(1) by (simp add: getLinesContent_def)
qed

lemma splitLines_replaceEOL: "eol = [LF] \<or> eol = [CR, LF] \<Longrightarrow> splitLines (replaceEOL eol x) = splitLines x"
proof -
  assume eol: "eol = [LF] \<or> eol = [CR, LF]"
  then have e: "splitLines (eol @ y) = [] # splitLines y" for y by (auto simp: splitLines_break)
  have e0: "splitLines eol = [[], []]" using e [of "[]"] by simp
  show ?thesis
  proof (induction x rule: splitLines.induct)
    case (3 c d s)
    consider (crlf) "c = CR" "d = LF" | (break) "\<not> (c = CR \<and> d = LF)" "c = CR \<or> c = LF" | (plain) "c \<noteq> CR" "c \<noteq> LF" by blast
    then show ?case
    proof cases
      case plain
      then show ?thesis using 3(3) by (simp add: splitLines_plain)
    qed (use 3(1,2) e in auto)
  qed (auto simp: e0)
qed

section \<open>Buffers in use\<close>

text \<open>
  The states that the operations reach, with the text that the same operations give on strings. The
  guards are what the callers see to: offsets and lines of the text, texts that are not empty and
  not too long, no \<open>\r\<close> in a buffer that is said to have only \<open>\n\<close>, one kind of line break when lines are read from a buffer that is said to be normalized.
\<close>

inductive reachable :: "piece_tree \<Rightarrow> js_string \<Rightarrow> bool" where
  created: "list_all buffer_ok chunks \<Longrightarrow> \<forall>b\<in>set chunks. sb_buffer b \<noteq> [] \<Longrightarrow> joined (map sb_buffer chunks) \<Longrightarrow>
    eolNormalized \<and> eol = [LF] \<longrightarrow> (\<forall>b\<in>set chunks. no_cr (sb_buffer b)) \<Longrightarrow>
    PieceTree_create chunks eol eolNormalized no_nodes = Some s \<Longrightarrow> reachable s (concat (map sb_buffer chunks))"
| inserted: "reachable s x \<Longrightarrow> v \<noteq> [] \<Longrightarrow> 0 \<le> offset \<Longrightarrow> offset \<le> ilen x \<Longrightarrow> room s (ilen v + 5) \<Longrightarrow>
    pt_EOLNormalized s \<and> eolNormalized \<and> pt_EOL s = [LF] \<longrightarrow> no_cr v \<Longrightarrow>
    PieceTree_insert offset v eolNormalized s = Some s' \<Longrightarrow> reachable s' (itake offset x @ v @ idrop offset x)"
| deleted: "reachable s x \<Longrightarrow> 0 \<le> offset \<Longrightarrow> 0 \<le> cnt \<Longrightarrow> offset + cnt \<le> ilen x \<Longrightarrow> room s 3 \<Longrightarrow>
    PieceTree_delete offset cnt s = Some s' \<Longrightarrow> reachable s' (itake offset x @ idrop (offset + cnt) x)"
| line_read: "reachable s x \<Longrightarrow> 1 \<le> line \<Longrightarrow> line \<le> eols x + 1 \<Longrightarrow> x \<noteq> [] \<Longrightarrow> eol_ok s x \<Longrightarrow>
    PieceTree_getLineContent line s = Some (v, s') \<Longrightarrow> reachable s' x"
| char_read: "reachable s x \<Longrightarrow> 0 \<le> offset \<Longrightarrow> offset < ilen x \<Longrightarrow> getCharCode offset s = Some (c, s') \<Longrightarrow> reachable s' x"
| chunk_read: "reachable s x \<Longrightarrow> x \<noteq> [] \<Longrightarrow> 0 \<le> offset \<Longrightarrow> offset \<le> ilen x \<Longrightarrow> getNearestChunk offset s = Some (v, s') \<Longrightarrow> reachable s' x"
| eol_set: "reachable s x \<Longrightarrow> eol = [LF] \<or> eol = [CR, LF] \<Longrightarrow> ilen (replaceEOL eol x) < max_string_length \<Longrightarrow>
    PieceTree_setEOL eol s = Some s' \<Longrightarrow> reachable s' (replaceEOL eol x)"
| compared: "reachable s x \<Longrightarrow> reachable other y \<Longrightarrow> PieceTree_equal s other = Some (b, other') \<Longrightarrow> reachable other' y"

inductive_cases created_state: "reachable s x"

text \<open>The invariant, by induction over the steps.\<close>

lemma reachable_inv: "reachable s x \<Longrightarrow> has_text s x \<and> last_line_ok s x"
proof (induction rule: reachable.induct)
  case (created chunks eolNormalized eol s)
  obtain s' ns where s': "PieceTree_create chunks eol eolNormalized no_nodes = Some s'" "buffer_inv s' ns (map sb_buffer chunks)"
    using PieceTree_create_ok [OF created(1-3) rb_order_no_nodes created(4)] by blast
  then have "has_text s (concat (map sb_buffer chunks))" using created(5) by (auto simp: has_text_def)
  then show ?case using reset_line [OF created_line [OF created(5)]] by blast
next
  case (inserted s x v offset eolNormalized s')
  obtain ns cs where inv: "buffer_inv s ns cs" "x = concat cs" using inserted.IH by (auto simp: has_text_def)
  then have "edit_done (insert_state eolNormalized s) s' (itake offset x @ v @ idrop offset x) (ilen v + 5)"
    using PieceTree_insert_ok [OF inv(1) inserted(2,3) _ inserted(5,6)] inserted(4,7) by auto
  then show ?case by (simp add: edit_done_def same_settings_def insert_state_def reset_line)
next
  case (deleted s x offset cnt s')
  obtain ns cs where inv: "buffer_inv s ns cs" "x = concat cs" using deleted.IH by (auto simp: has_text_def)
  then have "edit_done (delete_state s) s' (itake offset x @ idrop (offset + cnt) x) 3"
    using PieceTree_delete_ok [OF inv(1) deleted(2,3) _ deleted(5)] deleted(4,6) by auto
  then show ?case by (simp add: edit_done_def same_settings_def delete_state_def reset_line)
next
  case (line_read s x line v s')
  have "x = [] \<longrightarrow> TreeNode_next (pt_tree s) SENTINEL = Some SENTINEL" using line_read(4) by simp
  from PieceTree_getLineContent_ok [OF _ _ line_read(5,2,3) this] show ?case using line_read.IH line_read(6) by auto
next
  case (char_read s x offset c s')
  obtain ns cs where inv: "buffer_inv s ns cs" "x = concat cs" using char_read.IH by (auto simp: has_text_def)
  then obtain C where C: "s' = s\<lparr>pt_searchCache := C\<rparr>" "buffer_inv (s\<lparr>pt_searchCache := C\<rparr>) ns cs"
    using getCharCode_ok [OF inv(1) char_read(2)] char_read(3,4) by auto
  then show ?case using char_read.IH inv(2) only_cache by (auto simp: has_text_def)
next
  case (chunk_read s x offset v s')
  obtain ns cs where inv: "buffer_inv s ns cs" "x = concat cs" using chunk_read.IH by (auto simp: has_text_def)
  have "ns \<noteq> []" using inv chunk_read(2) pieces_ok_nodes(4) by (fastforce simp: buffer_inv_def)
  then obtain C where C: "s' = s\<lparr>pt_searchCache := C\<rparr>" "buffer_inv (s\<lparr>pt_searchCache := C\<rparr>) ns cs"
    using getNearestChunk_ok [OF inv(1) _ chunk_read(3)] chunk_read(4,5) inv(2) by fastforce
  then show ?case using chunk_read.IH inv(2) only_cache by (auto simp: has_text_def)
next
  case (eol_set s x eol s')
  obtain ns cs where inv: "buffer_inv s ns cs" "x = concat cs" using eol_set.IH by (auto simp: has_text_def)
  obtain s'' where "PieceTree_setEOL eol s = Some s''" "has_text s'' (replaceEOL eol x)" "pt_lastVisitedLine s'' = (0, [])"
    using normalizeEOL_ok [OF inv(1) eol_set(2)] eol_set(3) inv(2) by metis
  then show ?case using eol_set(4) reset_line by auto
next
  case (compared s x other y b other')
  then obtain C where "other' = other\<lparr>pt_searchCache := C\<rparr>" "has_text other' y" using PieceTree_equal_ok [of s x other y] by auto
  then show ?case using compared.IH only_cache by blast
qed


section \<open>Properties\<close>



text \<open>
  C17. Setting the end of line of a buffer always ends with a buffer that holds the text with every line break
  replaced, is marked as normalized to that end of line, and has no other: so its lines are the lines from
  before, read at once or one by one. A \<open>\r\n\<close> is one break wherever the pieces and the new chunks are cut.
\<close>

theorem piece_tree_set_eol:
  assumes "has_text s x" "eol = [LF] \<or> eol = [CR, LF]" "ilen (replaceEOL eol x) < max_string_length"
  shows "\<exists>s'. PieceTree_setEOL eol s = Some s' \<and> has_text s' (replaceEOL eol x) \<and> last_line_ok s' (replaceEOL eol x) \<and>
    pt_EOL s' = eol \<and> pt_EOLNormalized s' \<and> eol_ok s' (replaceEOL eol x) \<and>
    getLinesContent s' = Some (splitLines x) \<and> getLinesRawContent s' = Some (replaceEOL eol x) \<and> pt_lineCnt s' = pt_lineCnt s"
proof -
  obtain ns cs where inv: "buffer_inv s ns cs" "x = concat cs" using assms(1) by (auto simp: has_text_def)
  obtain s' where s': "PieceTree_setEOL eol s = Some s'" "has_text s' (replaceEOL eol x)" "pt_EOL s' = eol" "pt_EOLNormalized s'"
    "pt_lastVisitedLine s' = (0, [])" using normalizeEOL_ok [OF inv(1) assms(2)] assms(3) inv(2) by metis
  have eol: "eol_ok s' (replaceEOL eol x)" using s'(3) only_eol_replace [OF assms(2)] assms(2) by (simp add: eol_ok_def)
  obtain ns' cs' where inv': "buffer_inv s' ns' cs'" "replaceEOL eol x = concat cs'" using s'(2) by (auto simp: has_text_def)
  have l: "splitLines (replaceEOL eol x) = splitLines x" by (rule splitLines_replaceEOL [OF assms(2)])
  have "pieces_ok s' ns' cs'" using inv'(1) by (simp add: buffer_inv_def)
  then have "getLinesRawContent s' = Some (replaceEOL eol x)" using getLinesRawContent_ok inv'(2) by simp
  moreover have "getLinesContent s' = Some (splitLines x)" using getLinesContent_ok [OF inv'(1)] eol inv'(2) l by simp
  moreover have "pt_lineCnt s' = pt_lineCnt s"
    using has_text_counts [OF s'(2)] has_text_counts [OF assms(1)] l length_splitLines [of x] length_splitLines [of "replaceEOL eol x"] by simp
  ultimately show ?thesis using s' eol reset_line by blast
qed

theorem piece_tree_set_eol_witness:
  "\<exists>s s'. PieceTree_create [crlf_chunk] [CR, LF] False no_nodes = Some s \<and> PieceTree_setEOL [LF] s = Some s' \<and>
    getLinesRawContent s' = Some [97, LF, 98] \<and> getLinesContent s' = Some [[97], [98]]"
proof -
  obtain s where s: "PieceTree_create [crlf_chunk] [CR, LF] False no_nodes = Some s" "has_text s [97, CR, LF, 98]"
    using crlf_tree [of 0] by blast
  have r: "replaceEOL [LF] [97, CR, LF, 98] = [97, LF, 98]" "splitLines [97, CR, LF, 98] = [[97], [98]]" by code_simp+
  then have "ilen (replaceEOL [LF] [97, CR, LF, 98]) < max_string_length" by (simp add: max_string_length_def)
  from piece_tree_set_eol [OF s(2) _ this] have "\<exists>s'. PieceTree_setEOL [LF] s = Some s' \<and>
    getLinesRawContent s' = Some [97, LF, 98] \<and> getLinesContent s' = Some [[97], [98]]" unfolding r by blast
  then show ?thesis using s(1) by blast
qed

end
