(* ===== verification/TextBufferBuilders.thy ===== *)
theory TextBufferBuilders
  imports PieceTreeContents TextLengths
begin

text \<open>
  How a text buffer is made from the chunks of a file:
  \<open>PieceTreeTextBufferBuilder\<close> and \<open>PieceTreeTextBufferFactory\<close>
  (\<open>vs/editor/common/model/pieceTreeTextBuffer/pieceTreeTextBufferBuilder.ts\<close>), the constructor of
  \<open>PieceTreeTextBuffer\<close>, and the tests on characters they use (\<open>vs/base/common/strings.ts\<close>).

  The builder keeps a \<open>\r\<close> or a high surrogate at the end of a chunk back until the next chunk, so
  that no line break and no character is cut in two.
\<close>

section \<open>Tests on characters\<close>

definition UTF8_BOM_CHARACTER :: code_unit where "UTF8_BOM_CHARACTER = 0xFEFF"

definition startsWithUTF8BOM :: "js_string \<Rightarrow> bool" where
  "startsWithUTF8BOM str \<longleftrightarrow> str \<noteq> [] \<and> hd str = UTF8_BOM_CHARACTER"

definition stripUTF8BOM :: "js_string \<Rightarrow> js_string" where
  "stripUTF8BOM str = (if startsWithUTF8BOM str then tl str else str)"

text \<open>\<open>/^[\t\n\r\x20-\x7E]*$/\<close>\<close>

definition isBasicASCII :: "js_string \<Rightarrow> bool" where
  "isBasicASCII str \<longleftrightarrow> list_all (\<lambda>c. c = 9 \<or> c = 10 \<or> c = 13 \<or> 0x20 \<le> c \<and> c \<le> 0x7E) str"

text \<open>\<open>/[\u2028\u2029]/\<close>\<close>

definition containsUnusualLineTerminators :: "js_string \<Rightarrow> bool" where
  "containsUnusualLineTerminators str \<longleftrightarrow> list_ex (\<lambda>c. c = 0x2028 \<or> c = 0x2029) str"

text \<open>The ranges of the expression in \<open>makeContainsRtl\<close>: single units, and pairs by their first unit.\<close>

definition in_ranges :: "(code_unit \<times> code_unit) list \<Rightarrow> code_unit \<Rightarrow> bool" where
  "in_ranges rs c \<longleftrightarrow> list_ex (\<lambda>(a, b). a \<le> c \<and> c \<le> b) rs"

definition rtl_units :: "(code_unit \<times> code_unit) list" where
  "rtl_units = [(0x05BE, 0x05BE), (0x05C0, 0x05C0), (0x05C3, 0x05C3), (0x05C6, 0x05C6), (0x05D0, 0x05F4), (0x0608, 0x0608),
     (0x060B, 0x060B), (0x060D, 0x060D), (0x061B, 0x064A), (0x066D, 0x066F), (0x0671, 0x06D5), (0x06E5, 0x06E5),
     (0x06E6, 0x06E6), (0x06EE, 0x06EE), (0x06EF, 0x06EF), (0x06FA, 0x0710), (0x0712, 0x072F), (0x074D, 0x07A5),
     (0x07B1, 0x07EA), (0x07F4, 0x07F4), (0x07F5, 0x07F5), (0x07FA, 0x07FA), (0x07FE, 0x0815), (0x081A, 0x081A),
     (0x0824, 0x0824), (0x0828, 0x0828), (0x0830, 0x0858), (0x085E, 0x088E), (0x08A0, 0x08C9), (0x200F, 0x200F),
     (0xFB1D, 0xFB1D), (0xFB1F, 0xFB28), (0xFB2A, 0xFD3D), (0xFD50, 0xFDC7), (0xFDF0, 0xFDFC), (0xFE70, 0xFEFC)]"

definition rtl_pairs :: "(code_unit \<times> (code_unit \<times> code_unit) list) list" where
  "rtl_pairs = [(0xD802, [(0xDC00, 0xDD1B), (0xDD20, 0xDE00), (0xDE10, 0xDE35), (0xDE40, 0xDEE4), (0xDEEB, 0xDF35), (0xDF40, 0xDFFF)]),
     (0xD803, [(0xDC00, 0xDD23), (0xDE80, 0xDEA9), (0xDEAD, 0xDF45), (0xDF51, 0xDF81), (0xDF86, 0xDFF6)]),
     (0xD83A, [(0xDC00, 0xDCCF), (0xDD00, 0xDD43), (0xDD4B, 0xDFFF)]),
     (0xD83B, [(0xDC00, 0xDEBB)])]"

definition rtl_pair :: "code_unit \<Rightarrow> code_unit \<Rightarrow> bool" where
  "rtl_pair c d \<longleftrightarrow> list_ex (\<lambda>(h, rs). c = h \<and> in_ranges rs d) rtl_pairs"

fun containsRTL :: "js_string \<Rightarrow> bool" where
  "containsRTL [] = False"
| "containsRTL (c # cs) = (in_ranges rtl_units c \<or> cs \<noteq> [] \<and> rtl_pair c (hd cs) \<or> containsRTL cs)"

section \<open>The builder\<close>

text \<open>
  The scratch array of the class is left out. The previous character is \<open>NaN\<close>, that is \<open>None\<close>, when
  the chunk was only a byte order mark.
\<close>

record buffer_builder =
  tb_chunks :: "string_buffer list"
  tb_BOM :: js_string
  tb_hasPreviousChar :: bool
  tb_previousChar :: "code_unit option"
  tb_cr :: int
  tb_lf :: int
  tb_crlf :: int
  tb_containsRTL :: bool
  tb_containsUnusualLineTerminators :: bool
  tb_isBasicASCII :: bool

definition Builder_new :: buffer_builder where
  "Builder_new = \<lparr>tb_chunks = [], tb_BOM = [], tb_hasPreviousChar = False, tb_previousChar = Some 0, tb_cr = 0, tb_lf = 0,
     tb_crlf = 0, tb_containsRTL = False, tb_containsUnusualLineTerminators = False, tb_isBasicASCII = True\<rparr>"

text \<open>\<open>String.fromCharCode\<close> of a number or \<open>NaN\<close>\<close>

definition fromCharCode :: "code_unit option \<Rightarrow> js_string" where
  "fromCharCode c = [case c of None \<Rightarrow> 0 | Some c \<Rightarrow> c]"

definition acceptChunk2 :: "js_string \<Rightarrow> buffer_builder \<Rightarrow> buffer_builder" where
  "acceptChunk2 chunk b =
     (let lineStarts = createLineStarts chunk;
          b = b\<lparr>tb_chunks := tb_chunks b @ [StringBuffer_new chunk (ls_lineStarts lineStarts)],
                tb_cr := tb_cr b + ls_cr lineStarts, tb_lf := tb_lf b + ls_lf lineStarts, tb_crlf := tb_crlf b + ls_crlf lineStarts\<rparr>
      in if \<not> ls_isBasicASCII lineStarts then
           b\<lparr>tb_isBasicASCII := False,
             tb_containsRTL := (if \<not> tb_containsRTL b then containsRTL chunk else tb_containsRTL b),
             tb_containsUnusualLineTerminators :=
               (if \<not> tb_containsUnusualLineTerminators b then containsUnusualLineTerminators chunk else tb_containsUnusualLineTerminators b)\<rparr>
         else b)"

definition acceptChunk1 :: "js_string \<Rightarrow> bool \<Rightarrow> buffer_builder \<Rightarrow> buffer_builder" where
  "acceptChunk1 chunk allowEmptyStrings b =
     (if \<not> allowEmptyStrings \<and> ilen chunk = 0 then b
      else if tb_hasPreviousChar b then acceptChunk2 (fromCharCode (tb_previousChar b) @ chunk) b
      else acceptChunk2 chunk b)"

text \<open>The characters that are kept back.\<close>

definition kept_back :: "code_unit option \<Rightarrow> bool" where
  "kept_back lastChar \<longleftrightarrow> (case lastChar of None \<Rightarrow> False | Some c \<Rightarrow> c = CR \<or> 0xD800 \<le> c \<and> c \<le> 0xDBFF)"

definition accept_rest :: "js_string \<Rightarrow> buffer_builder \<Rightarrow> buffer_builder" where
  "accept_rest chunk b =
     (let lastChar = js_get chunk (ilen chunk - 1)
      in if kept_back lastChar then
           (acceptChunk1 (itake (ilen chunk - 1) chunk) False b)\<lparr>tb_hasPreviousChar := True, tb_previousChar := lastChar\<rparr>
         else (acceptChunk1 chunk False b)\<lparr>tb_hasPreviousChar := False, tb_previousChar := lastChar\<rparr>)"

definition acceptChunk :: "js_string \<Rightarrow> buffer_builder \<Rightarrow> buffer_builder" where
  "acceptChunk chunk b =
     (if ilen chunk = 0 then b
      else if ilen (tb_chunks b) = 0 \<and> startsWithUTF8BOM chunk then accept_rest (idrop 1 chunk) (b\<lparr>tb_BOM := [UTF8_BOM_CHARACTER]\<rparr>)
      else accept_rest chunk b)"

definition finish_chunks :: "buffer_builder \<Rightarrow> buffer_builder" where
  "finish_chunks b =
     (let b = (if ilen (tb_chunks b) = 0 then acceptChunk1 [] True b else b)
      in if tb_hasPreviousChar b then
           let lastChunk = last (tb_chunks b);
               buffer = sb_buffer lastChunk @ fromCharCode (tb_previousChar b)
           in b\<lparr>tb_hasPreviousChar := False,
                tb_chunks := butlast (tb_chunks b) @ [StringBuffer_new buffer (createLineStartsFast buffer True)],
                tb_cr := (if tb_previousChar b = Some CR then tb_cr b + 1 else tb_cr b)\<rparr>
         else b)"

section \<open>The factory and the buffer\<close>

record buffer_factory =
  tf_chunks :: "string_buffer list"
  tf_bom :: js_string
  tf_cr :: int
  tf_lf :: int
  tf_crlf :: int
  tf_containsRTL :: bool
  tf_containsUnusualLineTerminators :: bool
  tf_isBasicASCII :: bool
  tf_normalizeEOL :: bool

definition Builder_finish :: "bool \<Rightarrow> buffer_builder \<Rightarrow> buffer_factory" where
  "Builder_finish norm_eol b =
     (let b = finish_chunks b
      in \<lparr>tf_chunks = tb_chunks b, tf_bom = tb_BOM b, tf_cr = tb_cr b, tf_lf = tb_lf b, tf_crlf = tb_crlf b,
          tf_containsRTL = tb_containsRTL b, tf_containsUnusualLineTerminators = tb_containsUnusualLineTerminators b,
          tf_isBasicASCII = tb_isBasicASCII b, tf_normalizeEOL = norm_eol\<rparr>)"

datatype DefaultEndOfLine = DefaultEndOfLine_LF | DefaultEndOfLine_CRLF

text \<open>More than half of the line breaks have a \<open>\r\<close>; the quotient is not rounded.\<close>

definition Factory_getEOL :: "DefaultEndOfLine \<Rightarrow> buffer_factory \<Rightarrow> js_string" where
  "Factory_getEOL defaultEOL f =
     (let totalEOLCount = tf_cr f + tf_lf f + tf_crlf f; totalCRCount = tf_cr f + tf_crlf f
      in if totalEOLCount = 0 then (if defaultEOL = DefaultEndOfLine_LF then [LF] else [CR, LF])
         else if 2 * totalCRCount > totalEOLCount then [CR, LF] else [LF])"

record text_buffer =
  tx_pieceTree :: piece_tree
  tx_BOM :: js_string
  tx_mightContainRTL :: bool
  tx_mightContainUnusualLineTerminators :: bool
  tx_mightContainNonBasicASCII :: bool

definition TextBuffer_new :: "string_buffer list \<Rightarrow> js_string \<Rightarrow> js_string \<Rightarrow> bool \<Rightarrow> bool \<Rightarrow> bool \<Rightarrow> bool \<Rightarrow> text_buffer option" where
  "TextBuffer_new chunks BOM eol contRTL contUnusual basicASCII eolNormalized = do {
     t \<leftarrow> PieceTree_create chunks eol eolNormalized no_nodes;
     Some \<lparr>tx_pieceTree = t, tx_BOM = BOM, tx_mightContainRTL = contRTL, tx_mightContainUnusualLineTerminators = contUnusual,
       tx_mightContainNonBasicASCII = (\<not> basicASCII)\<rparr>
   }"

text \<open>\<open>create\<close> also replaces the chunks of the factory by the normalized ones.\<close>

definition Factory_create :: "DefaultEndOfLine \<Rightarrow> buffer_factory \<Rightarrow> (text_buffer \<times> buffer_factory) option" where
  "Factory_create defaultEOL f = do {
     let eol = Factory_getEOL defaultEOL f;
     let chunks = (if tf_normalizeEOL f \<and> (eol = [CR, LF] \<and> (tf_cr f > 0 \<or> tf_lf f > 0) \<or> eol = [LF] \<and> (tf_cr f > 0 \<or> tf_crlf f > 0))
       then map (\<lambda>chunk. let str = replaceEOL eol (sb_buffer chunk) in StringBuffer_new str (createLineStartsFast str True)) (tf_chunks f)
       else tf_chunks f);
     textBuffer \<leftarrow> TextBuffer_new chunks (tf_bom f) eol (tf_containsRTL f) (tf_containsUnusualLineTerminators f) (tf_isBasicASCII f)
       (tf_normalizeEOL f);
     Some (textBuffer, f\<lparr>tf_chunks := chunks\<rparr>)
   }"

text \<open>\<open>_chunks[0].buffer.substr(0, lengthLimit).split(/\r\n|\r|\n/)[0]\<close>\<close>

definition Factory_getFirstLineText :: "int \<Rightarrow> buffer_factory \<Rightarrow> js_string option" where
  "Factory_getFirstLineText lengthLimit f = do {
     chunk \<leftarrow> js_get (tf_chunks f) 0;
     Some (hd (splitLines (itake lengthLimit (sb_buffer chunk))))
   }"


section \<open>Counting over chunks\<close>

lemma line_breaks_append: "\<not> splits_crlf x y \<Longrightarrow> line_breaks (x @ y) = line_breaks x @ line_breaks y"
proof (induction x rule: line_breaks.induct)
  case (2 c cs)
  show ?case
  proof (cases "c = CR \<and> cs \<noteq> [] \<and> hd cs = LF")
    case True
    then obtain cs' where cs: "cs = LF # cs'" by (cases cs) auto
    then have "\<not> splits_crlf cs' y" using 2(5) True by (cases "cs' = []") (auto simp: splits_crlf_def)
    then show ?thesis using 2(1) True cs by simp
  next
    case False
    have sp: "\<not> splits_crlf cs y" using 2(5) by (cases "cs = []") (auto simp: splits_crlf_def)
    have "\<not> (c = CR \<and> cs = [] \<and> y \<noteq> [] \<and> hd y = LF)" using 2(5) by (auto simp: splits_crlf_def)
    then show ?thesis using 2(2,3,4) False sp by (auto simp: hd_append)
  qed
qed simp

lemma isBasicASCII_append: "isBasicASCII (x @ y) \<longleftrightarrow> isBasicASCII x \<and> isBasicASCII y"
  by (simp add: isBasicASCII_def)

lemma text_ascii_basic: "text_ascii x = isBasicASCII x"
  by (auto simp: text_ascii_def isBasicASCII_def basic_ascii_def list_all_iff CR_def LF_def not_less)

lemma unusual_append: "containsUnusualLineTerminators (x @ y) \<longleftrightarrow> containsUnusualLineTerminators x \<or> containsUnusualLineTerminators y"
  by (simp add: containsUnusualLineTerminators_def)

text \<open>Right-to-left characters and unusual line terminators are not ASCII; a pair starts with a high surrogate.\<close>

lemma rtl_append:
  assumes "x = [] \<or> y = [] \<or> \<not> rtl_pair (last x) (hd y)"
  shows "containsRTL (x @ y) \<longleftrightarrow> containsRTL x \<or> containsRTL y"
  using assms
proof (induction x)
  case (Cons c cs)
  then show ?case by (cases "cs = []") auto
qed simp

lemma rtl_pair_surrogates: "rtl_pair c d \<Longrightarrow> is_high_surrogate c \<and> 0xDC00 \<le> d"
proof -
  have "list_all (\<lambda>(h, rs). is_high_surrogate h \<and> list_all (\<lambda>(a, b). 0xDC00 \<le> a) rs) rtl_pairs"
    by (simp add: rtl_pairs_def is_high_surrogate_def)
  then show "rtl_pair c d \<Longrightarrow> ?thesis" by (fastforce simp: rtl_pair_def in_ranges_def list_all_iff list_ex_iff intro: order_trans)
qed

lemma surrogates_differ: "is_high_surrogate d \<Longrightarrow> \<not> 0xDC00 \<le> d"
  using order_trans [of "0xDC00" d "0xDBFF"] by (auto simp: is_high_surrogate_def)

lemma rtl_not_ascii: "isBasicASCII x \<Longrightarrow> \<not> containsRTL x"
proof (induction x)
  case (Cons c cs)
  have "list_all (\<lambda>(a, b). 0x7E < a \<and> a \<le> b) rtl_units" by (simp add: rtl_units_def)
  moreover have "c \<le> 0x7E" using Cons.prems by (auto simp: isBasicASCII_def)
  ultimately have "\<not> in_ranges rtl_units c" by (auto simp: in_ranges_def list_all_iff list_ex_iff)
  moreover have "\<not> rtl_pair c d" for d using \<open>c \<le> 0x7E\<close> by (auto simp: rtl_pair_def rtl_pairs_def)
  ultimately show ?case using Cons by (simp add: isBasicASCII_def)
qed simp

lemma unusual_not_ascii: "isBasicASCII x \<Longrightarrow> \<not> containsUnusualLineTerminators x"
  by (auto simp: isBasicASCII_def containsUnusualLineTerminators_def list_all_iff list_ex_iff)

section \<open>What the builder has accepted\<close>

definition whole :: "string_buffer list \<Rightarrow> js_string" where
  "whole chunks = concat (map sb_buffer chunks)"

definition pending :: "buffer_builder \<Rightarrow> js_string" where
  "pending b = (if tb_hasPreviousChar b then fromCharCode (tb_previousChar b) else [])"

definition counts_ok :: "buffer_builder \<Rightarrow> js_string \<Rightarrow> bool" where
  "counts_ok b x \<longleftrightarrow> tb_cr b = int (count_list (line_breaks x) [CR]) \<and> tb_lf b = int (count_list (line_breaks x) [LF]) \<and>
     tb_crlf b = int (count_list (line_breaks x) [CR, LF]) \<and> tb_isBasicASCII b = isBasicASCII x \<and>
     tb_containsRTL b = containsRTL x \<and> tb_containsUnusualLineTerminators b = containsUnusualLineTerminators x"

definition chunk_ok :: "int \<Rightarrow> string_buffer \<Rightarrow> bool" where
  "chunk_ok L s \<longleftrightarrow> sb_buffer s \<noteq> [] \<and> sb_lineStarts s = line_starts (sb_buffer s) \<and> ilen (sb_buffer s) \<le> L"

text \<open>Where two chunks meet, no line break and no character is cut.\<close>

definition seam :: "js_string \<Rightarrow> js_string \<Rightarrow> bool" where
  "seam x y \<longleftrightarrow> x = [] \<or> y = [] \<or> \<not> kept_back (Some (last x)) \<or> kept_back (Some (hd y))"

definition builder_inv :: "int \<Rightarrow> buffer_builder \<Rightarrow> js_string \<Rightarrow> bool" where
  "builder_inv L b x \<longleftrightarrow> x = whole (tb_chunks b) @ pending b \<and> counts_ok b (whole (tb_chunks b)) \<and>
     list_all (chunk_ok L) (tb_chunks b) \<and> joined (map sb_buffer (tb_chunks b)) \<and>
     (if tb_hasPreviousChar b then kept_back (tb_previousChar b)
      else whole (tb_chunks b) = [] \<or> \<not> kept_back (Some (last (whole (tb_chunks b)))))"

lemma kept_back_iff: "kept_back (Some c) \<longleftrightarrow> c = CR \<or> is_high_surrogate c"
  by (auto simp: kept_back_def is_high_surrogate_def)

lemma seam_facts:
  assumes "seam x y"
  shows "\<not> splits_crlf x y" "x = [] \<or> y = [] \<or> \<not> rtl_pair (last x) (hd y)"
  using assms rtl_pair_surrogates [of "last x" "hd y"] surrogates_differ [of "hd y"]
  by (auto simp: seam_def splits_crlf_def kept_back_iff) (simp_all add: is_high_surrogate_def CR_def LF_def)

lemma counts_append:
  assumes "counts_ok b x" "seam x chunk" "ilen chunk < max_string_length"
  shows "counts_ok (acceptChunk2 chunk b) (x @ chunk)"
proof -
  note ls = createLineStarts_ok [OF assms(3)]
  show ?thesis using assms(1) rtl_append [OF seam_facts(2) [OF assms(2)]] rtl_not_ascii [of chunk] unusual_not_ascii [of chunk]
    by (auto simp: acceptChunk2_def counts_ok_def ls line_breaks_append [OF seam_facts(1) [OF assms(2)]] Let_def
        isBasicASCII_append unusual_append text_ascii_basic)
qed

lemma acceptChunk2_fields:
  assumes "ilen chunk < max_string_length"
  shows "tb_chunks (acceptChunk2 chunk b) = tb_chunks b @ [StringBuffer_new chunk (line_starts chunk)]"
    "tb_hasPreviousChar (acceptChunk2 chunk b) = tb_hasPreviousChar b" "tb_previousChar (acceptChunk2 chunk b) = tb_previousChar b"
    "tb_BOM (acceptChunk2 chunk b) = tb_BOM b"
  by (simp_all add: acceptChunk2_def Let_def createLineStarts_ok [OF assms])

lemma whole_snoc [simp]: "whole [] = []" "whole (chunks @ [s]) = whole chunks @ sb_buffer s"
  by (simp_all add: whole_def)

lemma joined_snoc: "joined cs \<Longrightarrow> [] \<notin> set cs \<Longrightarrow> \<not> splits_crlf (concat cs) c \<Longrightarrow> joined (cs @ [c])"
proof (induction cs rule: rev_induct)
  case (snoc d ds)
  then have "\<not> splits_crlf d c" by (auto simp: splits_crlf_def)
  then show ?case using snoc.prems(1) by (simp add: joined_def successively_append_iff)
qed (simp add: joined_def)

lemma accept_rest_ok:
  assumes inv: "builder_inv L b x" and c: "c \<noteq> []" "ilen c < L" "L < max_string_length" and solid: "kept_back (Some (last c)) \<Longrightarrow> 2 \<le> ilen c"
  shows "builder_inv L (accept_rest c b) (x @ c) \<and> tb_chunks (accept_rest c b) \<noteq> [] \<and> tb_BOM (accept_rest c b) = tb_BOM b"
proof -
  let ?kept = "kept_back (Some (last c))" and ?w = "whole (tb_chunks b)"
  have get: "js_get c (ilen c - 1) = Some (last c)" using c(1) by (simp add: last_conv_nth nat_diff_distrib')
  let ?d = "if ?kept then butlast c else c"
  have itake: "itake (ilen c - 1) c = butlast c" by (simp add: itake_def butlast_conv_take nat_diff_distrib')
  have d: "?d \<noteq> []" using solid c(1) by (cases c rule: rev_cases) auto
  let ?e = "pending b @ ?d" and ?b = "accept_rest c b"
  have len: "ilen ?e \<le> L" using c by (auto simp: pending_def fromCharCode_def)
  have acc: "acceptChunk1 ?d False b = acceptChunk2 ?e b" using d by (auto simp: acceptChunk1_def pending_def)
  have rest: "?b = (acceptChunk2 ?e b)\<lparr>tb_hasPreviousChar := ?kept, tb_previousChar := Some (last c)\<rparr>"
    using acc itake get by (auto simp: accept_rest_def Let_def)
  have lenm: "ilen ?e < max_string_length" using len c(3) by simp
  note f = acceptChunk2_fields [OF lenm, of b]
  have e: "?e \<noteq> []" using d by simp
  have sm: "seam ?w ?e"
    using inv e by (cases "tb_previousChar b") (auto simp: builder_inv_def seam_def pending_def fromCharCode_def kept_back_def split: if_splits)
  have ch: "tb_chunks ?b = tb_chunks b @ [StringBuffer_new ?e (line_starts ?e)]" using f rest by simp
  have w: "whole (tb_chunks ?b) = ?w @ ?e" using ch by (simp add: StringBuffer_new_def)
  have "pending ?b = (if ?kept then [last c] else [])" by (simp add: rest pending_def fromCharCode_def)
  then have "x @ c = whole (tb_chunks ?b) @ pending ?b" using inv w c(1) by (simp add: builder_inv_def)
  moreover have "counts_ok ?b (whole (tb_chunks ?b))"
    using counts_append [OF _ sm lenm] inv unfolding w by (simp add: builder_inv_def rest counts_ok_def)
  moreover have "list_all (chunk_ok L) (tb_chunks ?b)" using inv ch e len by (simp add: builder_inv_def chunk_ok_def StringBuffer_new_def)
  moreover have "joined (map sb_buffer (tb_chunks ?b))"
  proof -
    have "[] \<notin> set (map sb_buffer (tb_chunks b))" using inv by (auto simp: builder_inv_def list_all_iff chunk_ok_def)
    from joined_snoc [OF _ this, of ?e] show ?thesis using inv seam_facts(1) [OF sm] ch by (simp add: builder_inv_def whole_def StringBuffer_new_def)
  qed
  moreover have "tb_hasPreviousChar ?b = ?kept" "tb_previousChar ?b = Some (last c)" by (simp_all add: rest)
  moreover have "last (whole (tb_chunks ?b)) = last c" "whole (tb_chunks ?b) \<noteq> []" if "\<not> ?kept" using w d that by simp_all
  ultimately show ?thesis using ch f rest by (auto simp: builder_inv_def)
qed

text \<open>
  Chunks that are shorter than \<open>L\<close>, and of which none is a single character that is kept back: the
  builder forgets a character it kept back when the next chunk has nothing else to add it to.
\<close>

definition solid_chunk :: "js_string \<Rightarrow> bool" where
  "solid_chunk c \<longleftrightarrow> (c \<noteq> [] \<and> kept_back (Some (last c)) \<longrightarrow> 2 \<le> ilen c)"

definition file_chunks_ok :: "int \<Rightarrow> js_string list \<Rightarrow> bool" where
  "file_chunks_ok L cs \<longleftrightarrow> list_all (\<lambda>c. ilen c < L \<and> solid_chunk c) cs \<and>
     (let cs = filter (\<lambda>c. c \<noteq> []) cs in
      cs \<noteq> [] \<and> startsWithUTF8BOM (hd cs) \<longrightarrow> tl (hd cs) \<noteq> [] \<and> solid_chunk (tl (hd cs)))"

lemma acceptChunk_Nil: "acceptChunk [] b = b"
  by (simp add: acceptChunk_def)

lemma fold_accept_filter: "fold acceptChunk cs b = fold acceptChunk (filter (\<lambda>c. c \<noteq> []) cs) b"
  by (induction cs arbitrary: b) (auto simp: acceptChunk_Nil)

lemma fold_accept_ok:
  "list_all (\<lambda>c. c \<noteq> [] \<and> ilen c < L \<and> solid_chunk c) cs \<Longrightarrow> L < max_string_length \<Longrightarrow> builder_inv L b x \<Longrightarrow> tb_chunks b \<noteq> [] \<Longrightarrow>
    builder_inv L (fold acceptChunk cs b) (x @ concat cs) \<and> tb_chunks (fold acceptChunk cs b) \<noteq> [] \<and> tb_BOM (fold acceptChunk cs b) = tb_BOM b"
proof (induction cs arbitrary: b x)
  case (Cons c cs)
  then have a: "acceptChunk c b = accept_rest c b" by (simp add: acceptChunk_def)
  have "builder_inv L (accept_rest c b) (x @ c) \<and> tb_chunks (accept_rest c b) \<noteq> [] \<and> tb_BOM (accept_rest c b) = tb_BOM b"
    using accept_rest_ok [OF Cons.prems(3)] Cons.prems(1,2) by (simp add: solid_chunk_def)
  then show ?case using Cons.IH [of "accept_rest c b" "x @ c"] Cons.prems(1,2) a by simp
qed simp

lemma build_ok:
  assumes cs: "file_chunks_ok L cs" "concat cs \<noteq> []" and L: "L < max_string_length"
  shows "builder_inv L (fold acceptChunk cs Builder_new) (stripUTF8BOM (concat cs)) \<and> tb_chunks (fold acceptChunk cs Builder_new) \<noteq> [] \<and>
    tb_BOM (fold acceptChunk cs Builder_new) = (if startsWithUTF8BOM (concat cs) then [UTF8_BOM_CHARACTER] else [])"
proof -
  let ?cs = "filter (\<lambda>c. c \<noteq> []) cs"
  have cc: "concat cs = concat ?cs" by (induction cs) auto
  then have "?cs \<noteq> []" using cs(2) by auto
  then obtain c ds where c: "?cs = c # ds" by (cases ?cs) auto
  have "c \<in> set ?cs" "set ds \<subseteq> set ?cs" using c by auto
  then have ok: "c \<noteq> []" "ilen c < L" "solid_chunk c" "list_all (\<lambda>c. c \<noteq> [] \<and> ilen c < L \<and> solid_chunk c) ds"
    using cs(1) by (auto simp: file_chunks_ok_def list_all_iff)
  have bom: "startsWithUTF8BOM c \<Longrightarrow> tl c \<noteq> [] \<and> solid_chunk (tl c)" using cs(1) c by (simp add: file_chunks_ok_def Let_def)
  have sb: "startsWithUTF8BOM (concat cs) = startsWithUTF8BOM c" "stripUTF8BOM (concat cs) = stripUTF8BOM c @ concat ds"
    using cc c ok(1) by (simp_all add: startsWithUTF8BOM_def stripUTF8BOM_def)
  let ?d = "stripUTF8BOM c" and ?b = "if startsWithUTF8BOM c then Builder_new\<lparr>tb_BOM := [UTF8_BOM_CHARACTER]\<rparr> else Builder_new"
  have "idrop 1 c = tl c" by (cases c) simp_all
  then have first: "acceptChunk c Builder_new = accept_rest ?d ?b" using ok(1) by (simp add: acceptChunk_def Builder_new_def stripUTF8BOM_def)
  have d: "?d \<noteq> []" "ilen ?d < L" "solid_chunk ?d" using ok bom by (auto simp: stripUTF8BOM_def)
  have b0: "builder_inv L ?b []"
    by (auto simp: builder_inv_def Builder_new_def pending_def counts_ok_def isBasicASCII_def containsUnusualLineTerminators_def joined_def)
  have solid: "2 \<le> ilen ?d" if "kept_back (Some (last ?d))" using d(1,3) that by (simp add: solid_chunk_def)
  from accept_rest_ok [OF b0 d(1,2) L solid] have
    b1: "builder_inv L (accept_rest ?d ?b) ([] @ ?d)" "tb_chunks (accept_rest ?d ?b) \<noteq> []" "tb_BOM (accept_rest ?d ?b) = tb_BOM ?b"
    by blast+
  have "tb_BOM ?b = (if startsWithUTF8BOM c then [UTF8_BOM_CHARACTER] else [])" by (simp add: Builder_new_def)
  moreover have "fold acceptChunk cs Builder_new = fold acceptChunk ds (accept_rest ?d ?b)"
    using fold_accept_filter [of cs Builder_new] c first by simp
  ultimately show ?thesis using fold_accept_ok [OF ok(4) L b1(1,2)] b1(3) sb by simp
qed

section \<open>What the factory has\<close>

definition factory_holds :: "int \<Rightarrow> buffer_factory \<Rightarrow> js_string \<Rightarrow> bool" where
  "factory_holds L f x \<longleftrightarrow> x = whole (tf_chunks f) \<and> (list_all (chunk_ok L) (tf_chunks f) \<or> tf_chunks f = [StringBuffer_new [] [0]]) \<and>
     joined (map sb_buffer (tf_chunks f)) \<and>
     tf_cr f = int (count_list (line_breaks x) [CR]) \<and> tf_lf f = int (count_list (line_breaks x) [LF]) \<and>
     tf_crlf f = int (count_list (line_breaks x) [CR, LF]) \<and>
     (x = [] \<or> \<not> is_high_surrogate (last x) \<longrightarrow> tf_isBasicASCII f = isBasicASCII x \<and>
        tf_containsRTL f = containsRTL x \<and> tf_containsUnusualLineTerminators f = containsUnusualLineTerminators x)"

lemma finish_ok:
  assumes inv: "builder_inv L b x" and ne: "tb_chunks b \<noteq> []" and L: "L + 1 < max_string_length"
  shows "factory_holds (L + 1) (Builder_finish norm_eol b) x"
proof (cases "tb_hasPreviousChar b")
  case False
  then have "list_all (chunk_ok (L + 1)) (tb_chunks b)" using inv by (auto simp: builder_inv_def list_all_iff chunk_ok_def)
  then show ?thesis using inv ne False
    by (simp add: factory_holds_def Builder_finish_def finish_chunks_def Let_def builder_inv_def counts_ok_def pending_def)
next
  case True
  then obtain c where c: "tb_previousChar b = Some c" "kept_back (Some c)" using inv by (cases "tb_previousChar b") (auto simp: builder_inv_def kept_back_def)
  obtain ds s where ds: "tb_chunks b = ds @ [s]" using ne by (metis append_butlast_last_id)
  let ?w = "whole (tb_chunks b)" and ?e = "sb_buffer s @ [c]"
  have x: "x = ?w @ [c]" using inv True c(1) by (simp add: builder_inv_def pending_def fromCharCode_def)
  have s: "sb_buffer s \<noteq> []" "ilen (sb_buffer s) \<le> L" "list_all (chunk_ok L) ds" using inv ds by (simp_all add: builder_inv_def chunk_ok_def)
  have ls: "createLineStartsFast ?e True = line_starts ?e" using s(2) L by (intro createLineStartsFast_ok) simp
  have ch: "tf_chunks (Builder_finish norm_eol b) = ds @ [StringBuffer_new ?e (line_starts ?e)]"
    using ne True ds c(1) ls by (simp add: Builder_finish_def finish_chunks_def Let_def fromCharCode_def)
  have "list_all (chunk_ok (L + 1)) (tf_chunks (Builder_finish norm_eol b))"
    using ch s by (auto simp: chunk_ok_def StringBuffer_new_def list_all_iff)
  moreover have "whole (tf_chunks (Builder_finish norm_eol b)) = x" using ch ds x by (simp add: StringBuffer_new_def)
  moreover have "joined (map sb_buffer (tf_chunks (Builder_finish norm_eol b)))"
  proof -
    have "joined (map sb_buffer ds @ [sb_buffer s])" using inv ds by (simp add: builder_inv_def)
    then show ?thesis using ch s(1) by (auto simp: joined_def successively_append_iff splits_crlf_def StringBuffer_new_def)
  qed
  moreover have lb: "line_breaks x = line_breaks ?w @ (if c = CR then [[CR]] else [])"
  proof -
    have "c \<noteq> LF" using c(2) by (auto simp: kept_back_iff is_high_surrogate_def LF_def CR_def)
    then show ?thesis using line_breaks_append [of ?w "[c]"] x by (auto simp: splits_crlf_def)
  qed
  moreover have cnt: "counts_ok b ?w" using inv by (simp add: builder_inv_def)
  moreover have "tf_cr (Builder_finish norm_eol b) = tb_cr b + (if c = CR then 1 else 0)" "tf_lf (Builder_finish norm_eol b) = tb_lf b"
    "tf_crlf (Builder_finish norm_eol b) = tb_crlf b" "tf_isBasicASCII (Builder_finish norm_eol b) = tb_isBasicASCII b"
    "tf_containsRTL (Builder_finish norm_eol b) = tb_containsRTL b"
    "tf_containsUnusualLineTerminators (Builder_finish norm_eol b) = tb_containsUnusualLineTerminators b"
    using ne True c(1) by (auto simp: Builder_finish_def finish_chunks_def Let_def)
  moreover have "isBasicASCII x = isBasicASCII ?w \<and> containsRTL x = containsRTL ?w \<and>
    containsUnusualLineTerminators x = containsUnusualLineTerminators ?w" if "x = [] \<or> \<not> is_high_surrogate (last x)"
  proof -
    have c: "c = CR" using that x c(2) by (simp add: kept_back_iff)
    have a: "isBasicASCII [CR]" by (simp add: isBasicASCII_def CR_def)
    have "\<not> rtl_pair d CR" for d using rtl_pair_surrogates [of d CR] by (auto simp: CR_def)
    then show ?thesis using rtl_append [of ?w "[CR]"] a rtl_not_ascii [OF a] unusual_not_ascii [OF a] x c
      by (simp add: isBasicASCII_append unusual_append)
  qed
  ultimately show ?thesis by (simp add: factory_holds_def counts_ok_def)
qed

lemma finish_empty: "factory_holds L (Builder_finish norm_eol Builder_new) []"
proof -
  have "createLineStarts [] = MkLineStarts [0] 0 0 0 True" by code_simp
  then show ?thesis
    by (simp add: factory_holds_def Builder_finish_def finish_chunks_def Builder_new_def acceptChunk1_def acceptChunk2_def Let_def
        joined_def isBasicASCII_def containsUnusualLineTerminators_def whole_def StringBuffer_new_def)
qed

section \<open>Making the buffer\<close>

lemma replaceEOL_id: "set (line_breaks x) \<subseteq> {eol} \<Longrightarrow> eol = [LF] \<or> eol = [CR, LF] \<Longrightarrow> replaceEOL eol x = x"
proof (induction eol x rule: replaceEOL.induct)
  case (3 eol c d s)
  then show ?case by (cases "c = CR \<and> d = LF"; cases "c = CR"; cases "c = LF") (auto split: if_splits)
qed auto

lemma replaceEOL_length: "1 \<le> m \<Longrightarrow> ilen eol \<le> m \<Longrightarrow> ilen (replaceEOL eol x) \<le> m * ilen x"
proof (induction eol x rule: replaceEOL.induct)
  case (3 eol c d s)
  define p where "p = m * ilen s"
  have k: "m * ilen (c # d # s) = m + m + p" "m * ilen (d # s) = m + p" by (simp_all add: p_def algebra_simps)
  show ?case
  proof (cases "c = CR \<and> d = LF")
    case True
    then have "ilen (replaceEOL eol s) \<le> p" using 3 by (simp add: p_def)
    then show ?thesis using True 3(3,4) unfolding k by simp
  next
    case False
    then have "ilen (replaceEOL eol (d # s)) \<le> m + p" using 3 unfolding k by simp
    then show ?thesis using False 3(3,4) unfolding k by auto
  qed
qed auto

lemma replaceEOL_concat: "joined cs \<Longrightarrow> [] \<notin> set cs \<Longrightarrow> replaceEOL eol (concat cs) = concat (map (replaceEOL eol) cs)"
proof (induction cs)
  case (Cons c cs)
  then show ?case using joined_Cons [OF Cons.prems] by (simp add: replaceEOL_append)
qed simp

lemma count_list_0: "count_list xs a = 0 \<longleftrightarrow> a \<notin> set xs"
  by (induction xs) auto

text \<open>Chunks of which none is empty, or a single empty one, give a tree.\<close>

lemma create_chunks:
  assumes "list_all (chunk_ok L) chunks \<or> chunks = [StringBuffer_new [] ls]" "L < max_string_length" "joined (map sb_buffer chunks)"
    and "eolNormalized \<and> eol = [LF] \<longrightarrow> (\<forall>b\<in>set chunks. no_cr (sb_buffer b))"
  obtains s where "PieceTree_create chunks eol eolNormalized no_nodes = Some s" "has_text s (whole chunks)" "pt_EOL s = eol"
    "pt_EOLNormalized s = eolNormalized" "pt_lastVisitedLine s = (0, [])" "ilen (text_at (pt_buffers s) 0) = 0"
proof -
  have e: "PieceTree_create [StringBuffer_new [] ls] eol eolNormalized no_nodes = PieceTree_create [] eol eolNormalized no_nodes"
    by (simp add: PieceTree_create_def StringBuffer_new_def)
  let ?cs = "if list_all (chunk_ok L) chunks then chunks else []"
  have run: "PieceTree_create chunks eol eolNormalized no_nodes = PieceTree_create ?cs eol eolNormalized no_nodes"
    and w: "whole chunks = concat (map sb_buffer ?cs)" using assms(1) e by (auto simp: whole_def StringBuffer_new_def)
  have h: "list_all buffer_ok ?cs" "\<forall>b\<in>set ?cs. sb_buffer b \<noteq> []" "joined (map sb_buffer ?cs)"
    "eolNormalized \<and> eol = [LF] \<longrightarrow> (\<forall>b\<in>set ?cs. no_cr (sb_buffer b))"
    using assms le_less_trans [OF _ assms(2)] by (auto simp: list_all_iff chunk_ok_def buffer_ok_def joined_def)
  obtain s ns where s: "PieceTree_create ?cs eol eolNormalized no_nodes = Some s" "buffer_inv s ns (map sb_buffer ?cs)"
    "pt_EOL s = eol" "pt_EOLNormalized s = eolNormalized" "pt_buffers s = StringBuffer_new [] [0] # ?cs" "pt_lastVisitedLine s = (0, [])"
    by (rule PieceTree_create_ok [OF h(1-3) rb_order_no_nodes h(4)])
  have "has_text s (whole chunks)" unfolding has_text_def w using s(2) by blast
  moreover have "ilen (text_at (pt_buffers s) 0) = 0" using s(5) by (simp add: text_at_def StringBuffer_new_def)
  ultimately show thesis using that s run by simp
qed

text \<open>The end of line of a file: \<open>\r\n\<close> when more than half of its line breaks have a \<open>\r\<close>.\<close>

definition file_eol :: "DefaultEndOfLine \<Rightarrow> js_string \<Rightarrow> js_string" where
  "file_eol defaultEOL x =
     (if eols x = 0 then (if defaultEOL = DefaultEndOfLine_LF then [LF] else [CR, LF])
      else if eols x < 2 * ilen (filter (\<lambda>b. b \<noteq> [LF]) (line_breaks x)) then [CR, LF] else [LF])"

lemma file_eol_kinds: "file_eol d x = [LF] \<or> file_eol d x = [CR, LF]"
  by (simp add: file_eol_def)

lemma line_breaks_total:
  "eols x = int (count_list (line_breaks x) [CR]) + int (count_list (line_breaks x) [LF]) + int (count_list (line_breaks x) [CR, LF])"
  "ilen (filter (\<lambda>b. b \<noteq> [LF]) (line_breaks x)) = int (count_list (line_breaks x) [CR]) + int (count_list (line_breaks x) [CR, LF])"
proof -
  show t: "eols x = int (count_list (line_breaks x) [CR]) + int (count_list (line_breaks x) [LF]) + int (count_list (line_breaks x) [CR, LF])"
    using count_three [OF line_breaks_kinds [of x]] length_line_breaks [of x] by simp
  have "length (filter (\<lambda>b. b \<noteq> [LF]) bs) + count_list bs [LF] = length bs" for bs by (induction bs) auto
  from this [of "line_breaks x"] show "ilen (filter (\<lambda>b. b \<noteq> [LF]) (line_breaks x)) = int (count_list (line_breaks x) [CR]) + int (count_list (line_breaks x) [CR, LF])"
    using t length_line_breaks [of x] by linarith
qed

lemma Factory_getEOL_ok: "factory_holds L f x \<Longrightarrow> Factory_getEOL d f = file_eol d x"
  using line_breaks_total [of x] by (simp add: Factory_getEOL_def file_eol_def factory_holds_def Let_def algebra_simps)

lemma Factory_create_ok:
  assumes f: "factory_holds L f x" and L: "2 * L < max_string_length" "0 \<le> L"
  obtains tb f' where "Factory_create d f = Some (tb, f')"
    "has_text (tx_pieceTree tb) (if tf_normalizeEOL f then replaceEOL (file_eol d x) x else x)"
    "pt_EOL (tx_pieceTree tb) = file_eol d x" "pt_EOLNormalized (tx_pieceTree tb) = tf_normalizeEOL f"
    "pt_lastVisitedLine (tx_pieceTree tb) = (0, [])" "ilen (text_at (pt_buffers (tx_pieceTree tb)) 0) = 0" "tx_BOM tb = tf_bom f"
    "tx_mightContainRTL tb = tf_containsRTL f" "tx_mightContainUnusualLineTerminators tb = tf_containsUnusualLineTerminators f"
    "tx_mightContainNonBasicASCII tb = (\<not> tf_isBasicASCII f)"
proof -
  let ?eol = "file_eol d x" and ?n = "tf_normalizeEOL f"
  let ?mixed = "?eol = [CR, LF] \<and> (tf_cr f > 0 \<or> tf_lf f > 0) \<or> ?eol = [LF] \<and> (tf_cr f > 0 \<or> tf_crlf f > 0)"
  define g :: "string_buffer \<Rightarrow> string_buffer" where "g = (\<lambda>chunk. let str = replaceEOL ?eol (sb_buffer chunk) in StringBuffer_new str (createLineStartsFast str True))"
  let ?chunks = "if ?n \<and> ?mixed then map g (tf_chunks f) else tf_chunks f"
  have eol: "?eol = [LF] \<or> ?eol = [CR, LF]" by (rule file_eol_kinds)
  have cs: "list_all (chunk_ok L) (tf_chunks f) \<or> tf_chunks f = [StringBuffer_new [] [0]]" "joined (map sb_buffer (tf_chunks f))" "x = whole (tf_chunks f)"
    using f by (simp_all add: factory_holds_def)
  have same: "replaceEOL ?eol x = x" if "\<not> ?mixed"
  proof (rule replaceEOL_id [OF _ eol])
    have cnt: "tf_cr f = int (count_list (line_breaks x) [CR])" "tf_lf f = int (count_list (line_breaks x) [LF])"
      "tf_crlf f = int (count_list (line_breaks x) [CR, LF])" using f unfolding factory_holds_def by blast+
    then have "0 \<le> tf_cr f" "0 \<le> tf_lf f" "0 \<le> tf_crlf f" by simp_all
    then have "tf_cr f = 0 \<and> (?eol = [CR, LF] \<and> tf_lf f = 0 \<or> ?eol = [LF] \<and> tf_crlf f = 0)" using that eol by auto
    then have "[CR] \<notin> set (line_breaks x)" "?eol = [CR, LF] \<and> [LF] \<notin> set (line_breaks x) \<or> ?eol = [LF] \<and> [CR, LF] \<notin> set (line_breaks x)"
      using cnt by (simp_all add: count_list_0)
    moreover have "b = [CR] \<or> b = [LF] \<or> b = [CR, LF]" if "b \<in> set (line_breaks x)" for b
      using line_breaks_kinds [of x] that by auto
    ultimately show "set (line_breaks x) \<subseteq> {?eol}" by (metis singletonI subsetI)
  qed
  have gc: "sb_buffer (g c) = replaceEOL ?eol (sb_buffer c) \<and> (chunk_ok L c \<longrightarrow> chunk_ok (2 * L) (g c))" for c
  proof -
    have "ilen (replaceEOL ?eol (sb_buffer c)) \<le> 2 * ilen (sb_buffer c)" using eol by (intro replaceEOL_length) auto
    moreover have "createLineStartsFast y True = line_starts y" if "ilen y \<le> 2 * L" for y using that L by (intro createLineStartsFast_ok) simp
    ultimately show ?thesis using eol by (auto simp: g_def Let_def StringBuffer_new_def chunk_ok_def replaceEOL_empty)
  qed
  have empty: "g (StringBuffer_new [] [0]) = StringBuffer_new [] [0]" by (simp add: g_def Let_def StringBuffer_new_def) code_simp
  have mapped: "list_all (chunk_ok (2 * L)) (map g (tf_chunks f)) \<or> map g (tf_chunks f) = [StringBuffer_new [] [0]]"
    using cs(1) gc empty by (auto simp: list_all_iff)
  have plain: "list_all (chunk_ok (2 * L)) (tf_chunks f) \<or> tf_chunks f = [StringBuffer_new [] [0]]"
    using cs(1) L by (auto simp: list_all_iff chunk_ok_def)
  have bufs: "map sb_buffer (map g (tf_chunks f)) = map (replaceEOL ?eol) (map sb_buffer (tf_chunks f))" using gc by simp
  have j: "joined (map sb_buffer ?chunks)"
  proof (cases "?n \<and> ?mixed")
    case True
    have "joined (map sb_buffer (map g (tf_chunks f)))"
      unfolding bufs joined_def successively_map using replaceEOL_no_split [OF eol] by (simp add: successively_all)
    then show ?thesis using True by (simp only: if_True simp_thms)
  next
    case False
    then show ?thesis using cs(2) by (simp only: if_False)
  qed
  have wh: "whole (map g (tf_chunks f)) = replaceEOL ?eol x"
  proof (cases "tf_chunks f = [StringBuffer_new [] [0]]")
    case True
    then show ?thesis using empty cs(3) by (simp add: whole_def StringBuffer_new_def)
  next
    case False
    then have "[] \<notin> set (map sb_buffer (tf_chunks f))" using cs(1) by (auto simp: list_all_iff chunk_ok_def)
    from replaceEOL_concat [OF cs(2) this, of ?eol] show ?thesis using bufs cs(3) by (simp only: whole_def)
  qed
  have w: "whole ?chunks = (if ?n then replaceEOL ?eol x else x)" using wh same cs(3) by auto
  have nocr: "?n \<and> ?eol = [LF] \<longrightarrow> (\<forall>b\<in>set ?chunks. no_cr (sb_buffer b))"
  proof
    assume h: "?n \<and> ?eol = [LF]"
    then have "no_cr (whole ?chunks)" using w replaceEOL_LF [of x] by simp
    then show "\<forall>b\<in>set ?chunks. no_cr (sb_buffer b)" unfolding whole_def no_cr_def by auto
  qed
  have "list_all (chunk_ok (2 * L)) ?chunks \<or> ?chunks = [StringBuffer_new [] [0]]" using mapped plain by auto
  from create_chunks [OF this L(1) j nocr] obtain s where s: "PieceTree_create ?chunks ?eol ?n no_nodes = Some s"
    "has_text s (whole ?chunks)" "pt_EOL s = ?eol" "pt_EOLNormalized s = ?n" "pt_lastVisitedLine s = (0, [])"
    "ilen (text_at (pt_buffers s) 0) = 0" by blast
  let ?tb = "\<lparr>tx_pieceTree = s, tx_BOM = tf_bom f, tx_mightContainRTL = tf_containsRTL f,
    tx_mightContainUnusualLineTerminators = tf_containsUnusualLineTerminators f, tx_mightContainNonBasicASCII = (\<not> tf_isBasicASCII f)\<rparr>"
  have "Factory_create d f = Some (?tb, f\<lparr>tf_chunks := ?chunks\<rparr>)"
    using s(1) unfolding Factory_create_def TextBuffer_new_def Factory_getEOL_ok [OF f] g_def Let_def by (simp split del: if_split)
  then show thesis using that [of ?tb "f\<lparr>tf_chunks := ?chunks\<rparr>"] s w by simp
qed

lemma file_ok:
  assumes cs: "file_chunks_ok L cs" "0 \<le> L" "L + 1 < max_string_length"
  shows "factory_holds (L + 1) (Builder_finish norm_eol (fold acceptChunk cs Builder_new)) (stripUTF8BOM (concat cs)) \<and>
    tf_bom (Builder_finish norm_eol (fold acceptChunk cs Builder_new)) = (if startsWithUTF8BOM (concat cs) then [UTF8_BOM_CHARACTER] else []) \<and>
    tf_normalizeEOL (Builder_finish norm_eol (fold acceptChunk cs Builder_new)) = norm_eol"
proof (cases "concat cs = []")
  case True
  have "fold acceptChunk cs Builder_new = Builder_new" using True by (induction cs) (simp_all add: acceptChunk_Nil)
  moreover have "tb_BOM (finish_chunks Builder_new) = []"
    by (simp add: finish_chunks_def Builder_new_def Let_def acceptChunk1_def acceptChunk2_def)
  moreover have "stripUTF8BOM (concat cs) = []" "\<not> startsWithUTF8BOM (concat cs)"
    unfolding True by (simp_all add: stripUTF8BOM_def startsWithUTF8BOM_def)
  ultimately show ?thesis using finish_empty [of "L + 1" norm_eol] by (simp add: Builder_finish_def Let_def)
next
  case False
  have "L < max_string_length" using cs(3) by simp
  note b = build_ok [OF cs(1) False this]
  let ?b = "fold acceptChunk cs Builder_new"
  have "tb_BOM (finish_chunks ?b) = tb_BOM ?b" using b by (simp add: finish_chunks_def Let_def)
  then show ?thesis using finish_ok [of L ?b _ norm_eol] b cs(3) by (simp add: Builder_finish_def Let_def)
qed

section \<open>Properties\<close>

text \<open>
  C18. A file that is read in chunks, none of which is a single carriage return or high surrogate (nor the first that, or
  nothing, behind a byte order mark), gives a buffer with the text of the file without its byte order mark, which is kept apart. The end of line is that of most line breaks of
  the file, also of those that chunks cut in two; with normalization every line break is that one, and the lines of the
  buffer are those of the file either way. Unless the text ends with a high surrogate, the flags say exactly whether it
  is basic ASCII, contains right-to-left characters and contains unusual line terminators.
\<close>

theorem text_buffer_from_chunks:
  assumes "file_chunks_ok L cs" "0 \<le> L" "2 * (L + 1) < max_string_length"
  shows "\<exists>tb f. Factory_create d (Builder_finish norm_eol (fold acceptChunk cs Builder_new)) = Some (tb, f) \<and>
    (let x = stripUTF8BOM (concat cs); eol = file_eol d x; y = (if norm_eol then replaceEOL eol x else x); t = tx_pieceTree tb in
      has_text t y \<and> last_line_ok t y \<and> pt_EOL t = eol \<and> pt_EOLNormalized t = norm_eol \<and> eol_ok t y \<and>
      getLinesRawContent t = Some y \<and> getLinesContent t = Some (splitLines x) \<and>
      tx_BOM tb = (if startsWithUTF8BOM (concat cs) then [UTF8_BOM_CHARACTER] else []) \<and>
      (x = [] \<or> \<not> is_high_surrogate (last x) \<longrightarrow> tx_mightContainNonBasicASCII tb = (\<not> isBasicASCII x) \<and>
        tx_mightContainRTL tb = containsRTL x \<and> tx_mightContainUnusualLineTerminators tb = containsUnusualLineTerminators x))"
proof -
  let ?f = "Builder_finish norm_eol (fold acceptChunk cs Builder_new)" and ?x = "stripUTF8BOM (concat cs)"
  let ?y = "if norm_eol then replaceEOL (file_eol d ?x) ?x else ?x"
  have f: "factory_holds (L + 1) ?f ?x" "tf_bom ?f = (if startsWithUTF8BOM (concat cs) then [UTF8_BOM_CHARACTER] else [])" "tf_normalizeEOL ?f = norm_eol"
    using file_ok [OF assms(1,2)] assms(2,3) by simp_all
  have L: "0 \<le> L + 1" using assms(2) by simp
  from Factory_create_ok [OF f(1) assms(3) L, of d] obtain tb f' where tb: "Factory_create d ?f = Some (tb, f')"
    "has_text (tx_pieceTree tb) ?y" "pt_EOL (tx_pieceTree tb) = file_eol d ?x" "pt_EOLNormalized (tx_pieceTree tb) = norm_eol"
    "pt_lastVisitedLine (tx_pieceTree tb) = (0, [])" "tx_BOM tb = tf_bom ?f"
    "tx_mightContainRTL tb = tf_containsRTL ?f" "tx_mightContainUnusualLineTerminators tb = tf_containsUnusualLineTerminators ?f"
    "tx_mightContainNonBasicASCII tb = (\<not> tf_isBasicASCII ?f)" unfolding f(3) by metis
  let ?t = "tx_pieceTree tb"
  have eol: "eol_ok ?t ?y" using tb(3,4) file_eol_kinds [of d ?x] only_eol_replace [OF file_eol_kinds [of d ?x]] by (simp add: eol_ok_def)
  obtain ns cs' where inv: "buffer_inv ?t ns cs'" "?y = concat cs'" using tb(2) by (auto simp: has_text_def)
  have "pieces_ok ?t ns cs'" using inv(1) by (simp add: buffer_inv_def)
  then have raw: "getLinesRawContent ?t = Some ?y" using getLinesRawContent_ok inv(2) by simp
  have "splitLines ?y = splitLines ?x" using splitLines_replaceEOL [OF file_eol_kinds [of d ?x]] by simp
  then have lines: "getLinesContent ?t = Some (splitLines ?x)" using getLinesContent_ok [OF inv(1)] eol inv(2) by simp
  have flags: "?x = [] \<or> \<not> is_high_surrogate (last ?x) \<longrightarrow> tx_mightContainNonBasicASCII tb = (\<not> isBasicASCII ?x) \<and>
        tx_mightContainRTL tb = containsRTL ?x \<and> tx_mightContainUnusualLineTerminators tb = containsUnusualLineTerminators ?x"
    using f(1) tb(7-9) unfolding factory_holds_def by blast
  show ?thesis unfolding Let_def
    by (rule exI [of _ tb], rule exI [of _ f'], intro conjI)
      (use tb eol raw lines flags reset_line [OF tb(5)] f(2) in simp_all)
qed

theorem text_buffer_from_chunks_witness:
  "\<exists>tb f. Factory_create DefaultEndOfLine_LF (Builder_finish True (fold acceptChunk [[0xFEFF, 97, CR], [LF, 98, LF], [99]] Builder_new)) = Some (tb, f) \<and>
    getLinesRawContent (tx_pieceTree tb) = Some [97, LF, 98, LF, 99] \<and> tx_BOM tb = [0xFEFF]"
proof -
  let ?cs = "[[0xFEFF, 97, CR], [LF, 98, LF], [99]]"
  have "file_chunks_ok 10 ?cs" "(0 :: int) \<le> 10"
    by (simp_all add: file_chunks_ok_def solid_chunk_def kept_back_def startsWithUTF8BOM_def UTF8_BOM_CHARACTER_def CR_def LF_def)
  moreover have "2 * (10 + 1) < max_string_length" by (simp add: max_string_length_def)
  moreover have x: "stripUTF8BOM (concat ?cs) = [97, CR, LF, 98, LF, 99]" "startsWithUTF8BOM (concat ?cs)"
    by (simp_all add: stripUTF8BOM_def startsWithUTF8BOM_def UTF8_BOM_CHARACTER_def)
  moreover have e: "file_eol DefaultEndOfLine_LF [97, CR, LF, 98, LF, 99] = [LF]" "replaceEOL [LF] [97, CR, LF, 98, LF, 99] = [97, LF, 98, LF, 99]"
    by (simp_all add: file_eol_def ends_line_def CR_def LF_def)
  ultimately show ?thesis using text_buffer_from_chunks [of 10 ?cs DefaultEndOfLine_LF True] by (auto simp: Let_def UTF8_BOM_CHARACTER_def)
qed

text \<open>
  What chunks of one character do: a file that is a single carriage return gets two of them, since the
  character that was kept back is used for the first chunk and then once more; and a carriage return
  that follows another one, at the end of a chunk, in a chunk of its own, replaces it. A file that ends
  with a high surrogate is taken for ASCII.
\<close>

theorem single_CR_doubled:
  "(do { (tb, f) \<leftarrow> Factory_create DefaultEndOfLine_LF (Builder_finish False (acceptChunk [CR] Builder_new));
         getLinesRawContent (tx_pieceTree tb) }) = Some [CR, CR]"
  by code_simp

theorem second_CR_lost:
  "(do { (tb, f) \<leftarrow> Factory_create DefaultEndOfLine_LF (Builder_finish False (acceptChunk [CR] (acceptChunk [97, CR] Builder_new)));
         getLinesRawContent (tx_pieceTree tb) }) = Some [97, CR]"
  by code_simp

theorem final_surrogate_ascii:
  "tf_isBasicASCII (Builder_finish False (acceptChunk [97, 0xD800] Builder_new)) \<and> \<not> isBasicASCII [97, 0xD800]"
  by code_simp

end
