(* ===== verification/Spec2Isabelle.thy ===== *)
theory Spec2Isabelle
  imports EditProperties TextCompositionProperties PrefixSums LinkedLists EditStacks TextBufferBuilders
begin

text \<open>
  A verification library for the editor core of this repository. The repository is a build of
  Code - OSS (\<open>src/code-oss\<close>) with an Arabic Python runtime beside it. Its own logic, as opposed
  to user interface, services and extensions, starts with the value types and algorithms that
  everything else edits text with, and these are modelled here, from
  \<open>src/code-oss/src/vs/editor/common/core\<close>, \<open>src/code-oss/src/vs/editor/common/model\<close> and
  \<open>src/code-oss/src/vs/base/common\<close>. Paths below are relative to \<open>src/code-oss/src/vs\<close>.

  \<^bold>\<open>Parts and theories.\<close>

  \<^item> \<open>Prelude\<close>: the parts of the language the code uses: strings as lists of 16 bit code units,
    \<open>slice\<close>, \<open>substring\<close> and \<open>splice\<close> with their clamping, array reads that may be
    \<open>undefined\<close>, the conversion of numbers to 32 bit integers.
  \<^item> \<open>ArraysFind\<close> (\<open>base/common/arraysFind.ts\<close>): linear and binary searches and
    \<open>MonotonousArray\<close>, which remembers where its last search ended.
  \<^item> \<open>Positions\<close> (\<open>editor/common/core/position.ts\<close>, \<open>range.ts\<close>, \<open>selection.ts\<close>): positions as a
    linear order, ranges as intervals of positions, selections with a direction.
  \<^item> \<open>OffsetRanges\<close> (\<open>ranges/offsetRange.ts\<close>) and \<open>LineRanges\<close> (\<open>ranges/lineRange.ts\<close>): half open
    ranges of offsets and of lines and the normalized sets of them.
  \<^item> \<open>AbstractEdits\<close>: the specification all edits share. A view of an edit is a list of
    replacements of ranges by texts; \<open>app\<close> is its effect on a text. The locale
    \<open>replacement_laws\<close> states what a kind of replacement has to provide for the generic algorithms.
  \<^item> \<open>Edits\<close> (\<open>edits/edit.ts\<close>): \<open>BaseEdit\<close> and \<open>BaseReplacement\<close>: normalization, composition,
    splitting, new ranges, offset mapping. The abstract methods of the class are the fields of the
    record \<open>repl_ops\<close>; the proofs are done once in the locale.
  \<^item> \<open>StringEdits\<close> (\<open>edits/stringEdit.ts\<close>, \<open>arrayEdit.ts\<close>, \<open>lengthEdit.ts\<close>): the concrete kinds of
    replacement, with an interpretation of the locale for each, and the operations of string edits;
    \<open>Rebasing\<close>: rebasing and swapping of concurrent edits; \<open>EditProperties\<close>: what follows for
    every kind of edit.
  \<^item> \<open>TextLengths\<close> (\<open>text/textLength.ts\<close>), \<open>PositionOffsets\<close> (\<open>text/positionToOffsetImpl.ts\<close>),
    \<open>AbstractTexts\<close> (\<open>text/abstractText.ts\<close>): distances in lines and columns, the conversion between
    positions and offsets, and texts given as a string or as an array of lines (the locale
    \<open>abstract_text_laws\<close> with both as interpretations).
  \<^item> \<open>TextEdits\<close> and \<open>TextEditProperties\<close> (\<open>edits/textEdit.ts\<close>, \<open>ranges/rangeMapping.ts\<close>,
    \<open>ranges/columnRange.ts\<close>): edits by line and column and their relation to string edits.
  \<^item> \<open>TextCompositions\<close> and \<open>TextCompositionProperties\<close>: \<open>TextEdit.compose\<close>, step by step, and its
    effect, by an invariant over the two texts and the composed prefix.
  \<^item> \<open>ByteBuffers\<close> (\<open>base/common/buffer.ts\<close>, \<open>editor/common/core/stringBuilder.ts\<close>): numbers and texts in
    arrays of bytes.
  \<^item> \<open>TextChanges\<close> (\<open>editor/common/core/textChange.ts\<close>): the changes on the undo stack, their
    compression and their binary form. The relation \<open>changes\<close> says what a batch of changes does.
  \<^item> \<open>EditStacks\<close> (\<open>model/editStack.ts\<close>, parts of \<open>model/textModel.ts\<close>): the elements of the undo
    stack as a state machine (\<open>recording\<close>, \<open>multi_step\<close>), with the two snapshots an element stands
    for as its specification.
  \<^item> \<open>PrefixSums\<close> (\<open>model/prefixSumComputer.ts\<close>, \<open>base/common/uint.ts\<close>): the two caches of running
    sums, as stateful records, with the interface \<open>item_sums\<close> that both interpret.
  \<^item> \<open>LinkedLists\<close> (\<open>base/common/linkedList.ts\<close>): the doubly linked list over an explicit heap, with
    the closures that remove an element.
  \<^item> The red-black tree of the text buffer (\<open>model/pieceTreeTextBuffer/rbTreeBase.ts\<close> and the
    tree operations of \<open>pieceTreeBase.ts\<close>), over an explicit heap with parent pointers and a
    sentinel: \<open>PieceTreeNodes\<close> (nodes, rotations, walks, the cached sums \<open>size_left\<close> and
    \<open>lf_left\<close>), \<open>PieceTreeInserts\<close>, \<open>PieceTreeDeleteFixes\<close> and \<open>PieceTreeDeletes\<close>;
    \<open>PieceTrees\<close> has the tree as a sequence of pieces, the locale \<open>piece_order\<close>.
  \<^item> The text buffer itself (\<open>PieceTreeBase\<close> in
    \<open>model/pieceTreeTextBuffer/pieceTreeBase.ts\<close>). \<open>LineBreaks\<close>: \<open>createLineStarts\<close> and
    \<open>createLineStartsFast\<close>, and what a table of line starts is. \<open>PieceBuffers\<close>: pieces and the
    buffers they point into (\<open>offsetInBuffer\<close>, \<open>positionInBuffer\<close>, \<open>getLineFeedCnt\<close>, the ways a
    piece is cut). \<open>PieceTreeStates\<close>: the record of the class, with its search cache, its last
    visited line and its change buffer, the invariant \<open>buffer_inv\<close> and the abstraction
    \<open>has_text\<close>. \<open>PieceTreeEdits\<close>: \<open>insert\<close>, \<open>delete\<close>, \<open>create\<close> and everything they call, up to
    the repair of a carriage return and a line feed that an edit brings together. \<open>PieceTreeTexts\<close>:
    these operations act on the text as on a string. \<open>PieceTreeReads\<close>: offsets and positions,
    snapshots, single characters, comparison of two buffers. \<open>PieceTreeLineEnds\<close>: \<open>setEOL\<close> and
    \<open>normalizeEOL\<close>, which rebuild the tree with one kind of line break. \<open>PieceTreeLines\<close>: texts of
    ranges and the content of a line, with both caches. \<open>PieceTreeContents\<close>: all lines at once
    (\<open>getLinesContent\<close>), collected piece by piece, and the states a client can reach.
  \<^item> \<open>TextBufferBuilders\<close> (\<open>pieceTreeTextBufferBuilder.ts\<close> and the tests on characters of
    \<open>strings.ts\<close>): the builder that takes a file in chunks, cut also inside a line break or a
    surrogate pair, and the factory that picks
    the end of line and makes the buffer. The theorems \<open>single_CR_doubled\<close>, \<open>second_CR_lost\<close> and
    \<open>final_surrogate_ascii\<close> show what happens at chunks of one character.

  \<^bold>\<open>How code becomes definitions.\<close> A number of the program is an \<open>int\<close> (the code only computes with
  small integers), except where it stores into typed arrays, which hold \<open>32 word\<close>s. A string is
  a list of \<open>16 word\<close>s. An immutable class is a datatype with a constructor \<open>Mk\<close>\<dots> and the
  validating constructor of the class as a function \<dots>\<open>_new\<close>; a class with state is a record and
  its methods return the new record. The method \<open>m\<close> of the class \<open>C\<close> is \<open>C_m\<close>, its loops are
  functions \<dots>\<open>_loop\<close> over the variables they change. A throw, a \<open>NaN\<close> and an unguarded
  \<open>undefined\<close> are \<open>None\<close>; where \<open>undefined\<close> is a result of its own there are two layers of
  option. All loops are total functions with a termination proof, except those that follow
  pointers, in the linked list and in the red-black tree, which could run on a damaged heap for ever:
  they are \<open>partial_function (option)\<close> and the theorems say that they return, which follows from
  the tree below the node, or the list of nodes after it, getting smaller. Their equations are
  code equations, so that the model of a whole session with the buffer evaluates on a concrete
  input. No fuel is used anywhere.

  \<^bold>\<open>What is proved.\<close> Composition of edits (of strings, arrays, lengths and annotated strings) has
  the sequential effect, is associative and normal forms are canonical; inverses restore the
  text; rebased edits converge; new ranges, split edits and mapped offsets are where the text
  went. Edits by position refine edits by offset through the position transformer, whose two
  directions invert each other; their mappings of positions are exact outside the cases that are
  stated as errors of the code. Line and offset range sets are the algebra of sets. A
  text as an array of lines is the text as a string. The prefix sum caches are the plain
  sequence of sizes after any operation, and interchangeable. Compressed batches of changes have
  the effect of the batches, undo and redo lead to the snapshots before and after, through the
  binary form, which is read back as it was written. An element over several models keeps its map
  and its array in step and never opens again. The linked list is a list for every
  sequence of calls that does not use a stale closure, and what a stale closure takes away is stated
  after any such sequence. Insertion into and deletion from the
  red-black tree end, keep its colours, links and cached sums, and act on the sequence of
  its pieces as on a list; its height is logarithmic.

  The text buffer holds one text, the concatenation of its pieces in the order of the tree.
  Creating it from chunks, inserting, deleting and setting the end of line have the effect of
  the same operations on the string and keep the invariant: the tree is a red-black tree, the cached sums are those of
  its pieces, every piece lies inside its buffer, the line starts are those of the buffers, no
  carriage return is separated from its line feed by the border of two pieces, and the two
  caches tell the truth. Every state reachable by creations and edits therefore has a text, by
  rule induction. In such a state lines, one by one or all at once, ranges, characters, lengths and positions are
  read as from the string, two buffers compare equal exactly if their texts agree, and a snapshot taken
  before insertions and deletions still returns the old text after them, since buffers only grow, unless
  the change buffer ended with a carriage return. The change buffer
  must stay below 2 ^ 30 code units (the line starts are stored in 32 bits): an insertion
  of \<open>v\<close> uses at most \<open>ilen v + 5\<close> of them and a deletion at most 3.

  \<^bold>\<open>Where the code does not do what it says\<close> (each stated exactly in a theorem): \<open>clipCyclic\<close> at
  multiples of the length below the range, \<open>distanceToLine\<close> after the range, \<open>setEndPosition\<close> of a
  right-to-left selection, \<open>TextLength.ofText\<close> counting code points, \<open>TextEdit.mapPosition\<close> after
  multi-line replacements, \<open>getLines\<close> at a lone carriage return, \<open>toUint32\<close> and
  \<open>readUInt32LE\<close> from 2 ^ 31 on, stored changes with lone surrogates, the stale closures of
  \<open>LinkedList\<close>; in the text buffer, a snapshot of a piece that the next insertion lengthens,
  the character code at the end of the text, the length of a line with another break than the end
  of line of the buffer, creation from an empty chunk, and chunks of one character.

  \<^bold>\<open>Not modelled.\<close> Printing (\<open>toString\<close>) and the tests of dynamic types
  (\<open>isIPosition\<close> and the like); \<open>forEach\<close> callbacks; of the piece
  tree the search, which hands the text to the regular expressions of the host;
  the edit bookkeeping of the text buffer (\<open>applyEdits\<close>), the interval tree and the diff algorithms of the
  editor model; line edits; everything that is user interface, asynchronous or a service: the rest of \<open>base\<close>, \<open>platform\<close>, \<open>workbench\<close>, the extensions, the command line and the
  build; the Arabic Python runtime, which is not TypeScript.
\<close>

end
